(* ===== verification/Prelude.thy ===== *)
theory Prelude
  imports Main "HOL-Library.Word" "HOL-Library.AList" "HOL-Library.Monad_Syntax"
begin

unbundle bit_operations_syntax

text \<open>
  Shared ground of the development: the machine arithmetic of the C++ code
  (\<open>u32_t\<close> and \<open>size_t\<close> values as naturals with the reduction written
  out), vectors of 64-bit words read as sets of bit positions, and association lists
  standing for \<open>std::unordered_map\<close>.
\<close>

section \<open>Machine integers\<close>

text \<open>
  A \<open>u32_t\<close> or \<open>size_t\<close> value is a natural number; \<open>u32\<close> is the
  conversion to \<open>u32_t\<close> and \<open>size_sub\<close> the wrapping subtraction on
  64-bit \<open>size_t\<close>.
\<close>

type_synonym NodeID = nat
type_synonym machine_word = "64 word"

definition u32 :: "nat \<Rightarrow> nat" where
  "u32 n = n mod 2 ^ 32"

definition UINT_MAX :: nat where "UINT_MAX = 2 ^ 32 - 1"

definition size_sub :: "nat \<Rightarrow> nat \<Rightarrow> nat" where
  "size_sub a b = (a + (2 ^ 64 - b mod 2 ^ 64)) mod 2 ^ 64"

named_theorems machine_simps

lemma u32_id [machine_simps]: "n < 2 ^ 32 \<Longrightarrow> u32 n = n"
  by (simp add: u32_def)

lemma u32_bound: "u32 n < 2 ^ 32"
  by (simp add: u32_def)

lemma u32_u32 [simp]: "u32 (u32 n) = u32 n"
  by (simp add: u32_def)

lemma u32_add_left: "u32 (u32 a + b) = u32 (a + b)"
  by (simp add: u32_def mod_add_left_eq)

lemma u32_add_right: "u32 (a + u32 b) = u32 (a + b)"
  by (simp add: u32_def mod_add_right_eq)

lemma size_sub_id [machine_simps]:
  assumes "b \<le> a" "a < 2 ^ 64"
  shows "size_sub a b = a - b"
proof -
  have "a + (2 ^ 64 - b mod 2 ^ 64) = (a - b) + 2 ^ 64"
    using assms by simp
  then have "size_sub a b = (a - b) mod 2 ^ 64"
    unfolding size_sub_def by (simp only: mod_add_self2)
  then show ?thesis using assms by simp
qed

text \<open>Positions relative to a word-aligned base.\<close>

lemma aligned_mod:
  assumes "b mod 64 = 0" "b \<le> n"
  shows "(n - b) mod 64 = n mod (64 :: nat)"
proof -
  from assms(1) obtain q where "b = 64 * q" by auto
  moreover from assms(2) obtain d where "n = b + d" using le_Suc_ex by blast
  ultimately show ?thesis by simp
qed

lemma aligned_le:
  assumes "b mod 64 = 0" "b \<le> n"
  shows "b \<le> (n div 64) * (64 :: nat)"
proof -
  from assms(1) obtain q where q: "b = 64 * q" by auto
  with assms(2) have "q \<le> n div 64" by (simp add: less_eq_div_iff_mult_less_eq)
  with q show ?thesis by simp
qed

lemma aligned_diff:
  assumes "a mod 64 = 0" "b mod 64 = (0 :: nat)"
  shows "(a - b) div 64 * 64 = a - b"
proof -
  have "64 dvd a - b" using assms by (intro dvd_diff_nat) auto
  then show ?thesis by simp
qed

lemma aligned_block:
  assumes "b < 2 ^ 32"
  shows "b div 64 * 64 + 64 \<le> (2 :: nat) ^ 32"
proof -
  have "b div 64 < 2 ^ 26" using assms by (simp add: less_mult_imp_div_less)
  then show ?thesis by simp
qed

lemma below_block: "b < b div 64 * 64 + (64 :: nat)"
  using div_mult_mod_eq [of b 64] mod_less_divisor [of 64 b] by linarith

lemmas aligned_diff' = aligned_diff [unfolded mult.commute [of _ 64]]

section \<open>Vectors of words as sets of bits\<close>

text \<open>
  \<open>wbit ws n\<close> reads bit \<open>n mod 64\<close> of word \<open>n div 64\<close>; positions past the
  end of the vector are clear.
\<close>

definition wbit :: "machine_word list \<Rightarrow> nat \<Rightarrow> bool" where
  "wbit ws n \<longleftrightarrow> n div 64 < length ws \<and> bit (ws ! (n div 64)) (n mod 64)"

definition bit_mask :: "nat \<Rightarrow> machine_word" where
  "bit_mask n = push_bit (n mod 64) 1"

lemma bit_bit_mask [simp]: "j < 64 \<Longrightarrow> bit (bit_mask n) j \<longleftrightarrow> j = n mod 64"
  unfolding bit_mask_def bit_push_bit_iff bit_1_iff by auto

lemma bit_word_lt: "bit (w :: machine_word) j \<Longrightarrow> j < 64"
  using bit_imp_le_length by fastforce

lemma machine_word_eqI:
  "(\<And>j. j < 64 \<Longrightarrow> bit a j \<longleftrightarrow> bit b j) \<Longrightarrow> a = (b :: machine_word)"
  by (rule bit_word_eqI) simp

lemma machine_word_eq_iff: "a = (b :: machine_word) \<longleftrightarrow> (\<forall>j < 64. bit a j \<longleftrightarrow> bit b j)"
  by (auto intro: machine_word_eqI)

lemma machine_word_nonzero: "(w :: machine_word) \<noteq> 0 \<longleftrightarrow> (\<exists>j < 64. bit w j)"
  by (auto simp: machine_word_eq_iff)

lemma and_mask_nonzero: "w AND bit_mask n \<noteq> 0 \<longleftrightarrow> bit w (n mod 64)"
proof -
  have "n mod 64 < 64" by simp
  then show ?thesis
    by (auto simp: machine_word_nonzero bit_and_iff intro!: exI [of _ "n mod 64"])
qed

lemma mask_and_nonzero: "bit_mask n AND w \<noteq> 0 \<longleftrightarrow> bit w (n mod 64)"
  by (subst and.commute) (rule and_mask_nonzero)

lemma wbit_Nil [simp]: "\<not> wbit [] n"
  by (simp add: wbit_def)

lemma wbit_Cons: "wbit (w # ws) n \<longleftrightarrow> (if n < 64 then bit w n else wbit ws (n - 64))"
proof (cases "n < 64")
  case False
  then have "n div 64 = Suc ((n - 64) div 64)" "n mod 64 = (n - 64) mod 64"
    by (simp_all add: le_div_geq le_mod_geq)
  with False show ?thesis by (simp add: wbit_def)
qed (simp add: wbit_def)

lemma wbit_bound: "wbit ws n \<Longrightarrow> n < 64 * length ws"
  by (auto simp: wbit_def)

lemma wbit_append:
  "wbit (us @ ws) n \<longleftrightarrow> (if n < 64 * length us then wbit us n else wbit ws (n - 64 * length us))"
  by (induction us arbitrary: n) (auto simp: wbit_Cons)

lemma wbit_replicate [simp]: "\<not> wbit (replicate k 0) n"
  by (auto simp: wbit_def)

lemma wbit_append_zeros [simp]: "wbit (ws @ replicate k 0) n \<longleftrightarrow> wbit ws n"
  using wbit_bound by (auto simp: wbit_append)

lemma wbit_zeros_append:
  "wbit (replicate k 0 @ ws) n \<longleftrightarrow> 64 * k \<le> n \<and> wbit ws (n - 64 * k)"
  by (auto simp: wbit_append)

lemma wbit_drop: "wbit (drop k ws) n \<longleftrightarrow> wbit ws (64 * k + n)"
  by (auto simp: wbit_def less_diff_conv ac_simps)

lemma wbit_take: "wbit (take k ws) n \<longleftrightarrow> n < 64 * k \<and> wbit ws n"
  by (auto simp: wbit_def less_mult_imp_div_less)

lemma wbit_update:
  "i < length ws \<Longrightarrow>
   wbit (ws[i := w]) n \<longleftrightarrow> (if n div 64 = i then bit w (n mod 64) else wbit ws n)"
  by (auto simp: wbit_def)

lemma wbit_nth: "i < length ws \<Longrightarrow> j < 64 \<Longrightarrow> wbit ws (64 * i + j) \<longleftrightarrow> bit (ws ! i) j"
  by (simp add: wbit_def)

lemma wbit_eqI:
  assumes "length us = length ws" and "\<And>n. wbit us n \<longleftrightarrow> wbit ws n"
  shows "us = ws"
proof (rule nth_equalityI)
  fix i assume "i < length us"
  then show "us ! i = ws ! i"
    using assms by (auto intro!: machine_word_eqI simp flip: wbit_nth)
qed (rule assms(1))

lemma wbit_all_zero: "(\<forall>n. \<not> wbit ws n) \<longleftrightarrow> (\<forall>w \<in> set ws. w = 0)"
proof
  assume "\<forall>n. \<not> wbit ws n"
  then have "ws = replicate (length ws) 0"
    by (intro wbit_eqI) auto
  then show "\<forall>w \<in> set ws. w = 0" by (metis in_set_replicate)
next
  assume "\<forall>w \<in> set ws. w = 0"
  then show "\<forall>n. \<not> wbit ws n" by (metis bit_0_eq bot_apply bot_bool_def nth_mem wbit_def)
qed

lemma finite_wbit [simp]: "finite {n. wbit ws n}"
  by (rule finite_subset [of _ "{..< 64 * length ws}"]) (auto dest: wbit_bound)

text \<open>\<open>__builtin_popcountll\<close>: the number of set bits of a word.\<close>

definition popcount :: "machine_word \<Rightarrow> nat" where
  "popcount w = length (filter (bit w) [0..<64])"

lemma popcount_card: "popcount w = card {j. bit w j}"
proof -
  have "{j. bit w j} = set (filter (bit w) [0..<64])"
    by (auto dest: bit_word_lt)
  moreover have "distinct (filter (bit w) [0..<64])" by simp
  ultimately show ?thesis
    unfolding popcount_def by (simp only: distinct_card)
qed

lemma card_wbit: "card {n. wbit ws n} = sum_list (map popcount ws)"
proof (induction ws)
  case (Cons w ws)
  have fin: "finite {j. bit w j}"
    by (rule finite_subset [of _ "{..<64}"]) (auto dest: bit_word_lt)
  have split: "{n. wbit (w # ws) n} = {j. bit w j} \<union> (\<lambda>n. n + 64) ` {n. wbit ws n}"
  proof (rule set_eqI)
    fix n
    have "n \<in> (\<lambda>n. n + 64) ` {n. wbit ws n} \<longleftrightarrow> 64 \<le> n \<and> wbit ws (n - 64)"
      by (auto simp: image_iff intro: exI [of _ "n - 64"])
    then show "n \<in> {n. wbit (w # ws) n} \<longleftrightarrow> n \<in> {j. bit w j} \<union> (\<lambda>n. n + 64) ` {n. wbit ws n}"
      by (auto simp: wbit_Cons dest: bit_word_lt)
  qed
  have "card {n. wbit (w # ws) n} = card {j. bit w j} + card ((\<lambda>n. n + 64) ` {n. wbit ws n})"
    unfolding split by (rule card_Un_disjoint) (use fin in \<open>auto dest: bit_word_lt\<close>)
  also have "card ((\<lambda>n. n + 64) ` {n. wbit ws n}) = card {n. wbit ws n}"
    by (rule card_image) simp
  finally show ?case
    using Cons.IH by (simp add: popcount_card)
qed simp

end
