(* ===== verification/CoreBitVec.thy ===== *)
theory CoreBitVec
  imports Prelude
begin

text \<open>
  \<open>CoreBitVector\<close> (svf/lib/Util/CoreBitVector.cpp, svf/include/Util/CoreBitVector.h):
  a contiguous bit vector that starts at a word-aligned \<open>offset\<close> and grows at both
  ends, its iterator, and \<open>BitVector\<close> (svf/lib/Util/BitVector.cpp), the variant that
  starts at 0. Bit positions are \<open>u32_t\<close> values; the theorems ask for them to be below
  \<open>2 ^ 32\<close>. A call whose \<open>assert\<close> fails returns \<open>None\<close>.
\<close>

section \<open>State\<close>

record cbv =
  offset :: nat
  words :: "machine_word list"

abbreviation (input) WordSize :: nat where
  "WordSize \<equiv> 64"

definition cbv_new :: "nat \<Rightarrow> cbv" where
  "cbv_new n = \<lparr>offset = 0, words = replicate n 0\<rparr>"

text \<open>The bits a vector holds, and the representation invariant.\<close>

definition cbv_bits :: "cbv \<Rightarrow> nat set" where
  "cbv_bits c = {n. offset c \<le> n \<and> wbit (words c) (n - offset c)}"

definition cbv_inv :: "cbv \<Rightarrow> bool" where
  "cbv_inv c \<longleftrightarrow> offset c mod WordSize = 0 \<and> offset c + WordSize * length (words c) \<le> 2 ^ 32"

section \<open>Operations\<close>

definition cbv_empty :: "cbv \<Rightarrow> bool" where
  "cbv_empty c \<longleftrightarrow> list_all (\<lambda>w. w = 0) (words c)"

definition cbv_count :: "cbv \<Rightarrow> nat" where
  "cbv_count c = fold (\<lambda>w n. u32 (n + popcount w)) (words c) 0"

definition cbv_clear :: "cbv \<Rightarrow> cbv" where
  "cbv_clear c = c\<lparr>offset := 0, words := []\<rparr>"

definition cbv_test :: "cbv \<Rightarrow> nat \<Rightarrow> bool" where
  "cbv_test c b =
     (if b < offset c \<or> b \<ge> offset c + length (words c) * WordSize then False
      else bit_mask b AND (words c ! ((b - offset c) div WordSize)) \<noteq> 0)"

definition canHold :: "cbv \<Rightarrow> nat \<Rightarrow> bool" where
  "canHold c b \<longleftrightarrow> b \<ge> offset c \<and> b < offset c + length (words c) * WordSize"

definition finalBit :: "cbv \<Rightarrow> nat" where
  "finalBit c = u32 (size_sub (offset c + length (words c) * WordSize) 1)"

definition indexForBit :: "cbv \<Rightarrow> nat \<Rightarrow> nat option" where
  "indexForBit c b = (if canHold c b then Some ((b - offset c) div WordSize) else None)"

definition extendBackward :: "cbv \<Rightarrow> nat \<Rightarrow> cbv" where
  "extendBackward c b =
     (let newOffset = u32 ((b div WordSize) * WordSize) in
      if newOffset \<ge> offset c then c
      else c\<lparr>offset := newOffset,
             words := replicate ((offset c - newOffset) div WordSize) 0 @ words c\<rparr>)"

definition extendForward :: "cbv \<Rightarrow> nat \<Rightarrow> cbv" where
  "extendForward c b =
     (if b < offset c \<or> canHold c b then c
      else let bitsWord = u32 ((b div WordSize) * WordSize);
               wordsToAdd =
                 u32 (1 + size_sub (size_sub bitsWord (length (words c) * WordSize)) (offset c)
                            div WordSize)
           in c\<lparr>words := words c @ replicate wordsToAdd 0\<rparr>)"

definition extendTo :: "cbv \<Rightarrow> nat \<Rightarrow> cbv" where
  "extendTo c b =
     (if offset c = 0 \<and> length (words c) = 0
      then c\<lparr>offset := u32 ((b div WordSize) * WordSize), words := words c @ [0]\<rparr>
      else if b < offset c then extendBackward c b
      else if b \<ge> offset c + length (words c) * WordSize then extendForward c b
      else c)"

definition cbv_set :: "cbv \<Rightarrow> nat \<Rightarrow> cbv" where
  "cbv_set c b =
     (let c = extendTo c b; i = (b - offset c) div WordSize in
      c\<lparr>words := (words c)[i := words c ! i OR bit_mask b]\<rparr>)"

definition cbv_test_and_set :: "cbv \<Rightarrow> nat \<Rightarrow> bool \<times> cbv" where
  "cbv_test_and_set c b = (if cbv_test c b then (False, c) else (True, cbv_set c b))"

definition cbv_reset :: "cbv \<Rightarrow> nat \<Rightarrow> cbv" where
  "cbv_reset c b =
     (if b < offset c \<or> b \<ge> offset c + length (words c) * WordSize then c
      else let i = (b - offset c) div WordSize in
           c\<lparr>words := (words c)[i := words c ! i AND NOT (bit_mask b)]\<rparr>)"

text \<open>
  The three binary operators walk two word arrays in step. Each loop is the structural
  recursion over the remaining words of both arrays; \<open>ch\<close> is the loop's
  \<open>changed\<close> variable.
\<close>

fun or_words :: "machine_word list \<Rightarrow> machine_word list \<Rightarrow> machine_word \<Rightarrow>
    machine_word \<times> machine_word list" where
  "or_words (t # ts) (r # rs) ch =
     (let t' = t OR r; (ch', ts') = or_words ts rs (ch OR (t XOR t')) in (ch', t' # ts'))"
| "or_words ts _ ch = (ch, ts)"

definition cbv_or_assign :: "cbv \<Rightarrow> cbv \<Rightarrow> (bool \<times> cbv) option" where
  "cbv_or_assign c rhs =
     (if length (words c) = 0 then Some (length (words rhs) \<noteq> 0, rhs)
      else if length (words rhs) = 0 then Some (False, c)
      else
        let c = (if finalBit c < finalBit rhs then extendForward c (finalBit rhs) else c);
            c = (if offset c > offset rhs then extendBackward c (offset rhs) else c)
        in do {
          thisIndex \<leftarrow> indexForBit c (offset rhs);
          let (changed, ws) = or_words (drop thisIndex (words c)) (words rhs) 0;
          Some (changed \<noteq> 0, c\<lparr>words := take thisIndex (words c) @ ws\<rparr>)
        })"

text \<open>Zero a run of words, noting whether any was set.\<close>

fun clear_words :: "machine_word list \<Rightarrow> bool \<Rightarrow> bool \<times> machine_word list" where
  "clear_words [] ch = (ch, [])"
| "clear_words (w # ws) ch =
     (let (ch', ws') = clear_words ws (if \<not> ch then w \<noteq> 0 else ch) in (ch', 0 # ws'))"

text \<open>The loop common to \<open>&=\<close> and \<open>-=\<close>: \<open>f\<close> is the word operation; the
  third component is what is left of this vector when one of the two ends.\<close>

fun zip_words :: "(machine_word \<Rightarrow> machine_word \<Rightarrow> machine_word) \<Rightarrow> machine_word list \<Rightarrow>
    machine_word list \<Rightarrow> bool \<Rightarrow> bool \<times> machine_word list \<times> machine_word list" where
  "zip_words f (t # ts) (r # rs) ch =
     (let t' = f t r;
          (ch', ts', rest) = zip_words f ts rs (if \<not> ch then t \<noteq> t' else ch)
      in (ch', t' # ts', rest))"
| "zip_words f ts _ ch = (ch, [], ts)"

definition cbv_and_assign :: "cbv \<Rightarrow> cbv \<Rightarrow> (bool \<times> cbv) option" where
  "cbv_and_assign c rhs =
     (let greaterOffset = max (offset c) (offset rhs) in
      if \<not> canHold c greaterOffset \<or> \<not> canHold rhs greaterOffset
      then let (changed, ws) = clear_words (words c) False in Some (changed, c\<lparr>words := ws\<rparr>)
      else do {
        thisIndex \<leftarrow> indexForBit c greaterOffset;
        rhsIndex \<leftarrow> indexForBit rhs greaterOffset;
        let (ch1, before) = clear_words (take thisIndex (words c)) False;
        let (ch2, common, rest) =
          zip_words (AND) (drop thisIndex (words c)) (drop rhsIndex (words rhs)) ch1;
        let (ch3, after) = clear_words rest ch2;
        Some (ch3, c\<lparr>words := before @ common @ after\<rparr>)
      })"

definition cbv_minus_assign :: "cbv \<Rightarrow> cbv \<Rightarrow> (bool \<times> cbv) option" where
  "cbv_minus_assign c rhs =
     (let greaterOffset = max (offset c) (offset rhs) in
      if \<not> canHold c greaterOffset \<or> \<not> canHold rhs greaterOffset then Some (False, c)
      else do {
        thisIndex \<leftarrow> indexForBit c greaterOffset;
        rhsIndex \<leftarrow> indexForBit rhs greaterOffset;
        let (changed, common, rest) =
          zip_words (\<lambda>t r. t AND NOT r) (drop thisIndex (words c)) (drop rhsIndex (words rhs)) False;
        Some (changed, c\<lparr>words := take thisIndex (words c) @ common @ rest\<rparr>)
      })"

definition cbv_intersectWithComplement :: "cbv \<Rightarrow> cbv \<Rightarrow> (bool \<times> cbv) option" where
  "cbv_intersectWithComplement c rhs = cbv_minus_assign c rhs"

definition cbv_intersectWithComplement2 :: "cbv \<Rightarrow> cbv \<Rightarrow> cbv \<Rightarrow> cbv option" where
  "cbv_intersectWithComplement2 c lhs rhs =
     (let c = lhs in map_option snd (cbv_intersectWithComplement c rhs))"

function nextSetIndex :: "cbv \<Rightarrow> nat \<Rightarrow> nat" where
  "nextSetIndex c index =
     (if index < length (words c) \<and> words c ! index = 0 then nextSetIndex c (Suc index) else index)"
  by pat_completeness auto
termination
  by (relation "measure (\<lambda>(c, i). length (words c) - i)") auto

declare nextSetIndex.simps [simp del]

lemma nextSetIndex_ge: "start \<le> nextSetIndex c start"
proof (induction c start rule: nextSetIndex.induct)
  case (1 c i)
  then show ?case by (subst nextSetIndex.simps) auto
qed

function cbv_eq_loop :: "cbv \<Rightarrow> cbv \<Rightarrow> nat \<Rightarrow> nat \<Rightarrow> bool" where
  "cbv_eq_loop c rhs li ri =
     (if li < length (words c) \<and> ri < length (words rhs)
      then if li * WordSize + offset c \<noteq> ri * WordSize + offset rhs
              \<or> words c ! li \<noteq> words rhs ! ri
           then False
           else cbv_eq_loop c rhs (nextSetIndex c (li + 1)) (nextSetIndex rhs (ri + 1))
      else li \<ge> length (words c) \<and> ri \<ge> length (words rhs))"
  by pat_completeness auto
termination
proof (relation "measure (\<lambda>(c, rhs, li, ri). length (words c) - li)", goal_cases)
  case (2 c rhs li ri)
  moreover have "li + 1 \<le> nextSetIndex c (li + 1)" by (rule nextSetIndex_ge)
  ultimately show ?case by auto
qed simp

declare cbv_eq_loop.simps [simp del]

definition cbv_eq :: "cbv \<Rightarrow> cbv \<Rightarrow> bool" where
  "cbv_eq c rhs = cbv_eq_loop c rhs (nextSetIndex c 0) (nextSetIndex rhs 0)"

definition cbv_neq :: "cbv \<Rightarrow> cbv \<Rightarrow> bool" where
  "cbv_neq c rhs = (\<not> cbv_eq c rhs)"

definition cbv_contains :: "cbv \<Rightarrow> cbv \<Rightarrow> bool option" where
  "cbv_contains c rhs = do { (_, tmp) \<leftarrow> cbv_and_assign c rhs; Some (cbv_eq tmp rhs) }"

fun share_words :: "machine_word list \<Rightarrow> machine_word list \<Rightarrow> bool" where
  "share_words (e # es) (l # ls) = (if e AND l \<noteq> 0 then True else share_words es ls)"
| "share_words _ _ = False"

definition cbv_intersects :: "cbv \<Rightarrow> cbv \<Rightarrow> bool" where
  "cbv_intersects c rhs =
     (if cbv_empty c \<and> cbv_empty rhs then False
      else
        let earlier = (if offset c \<le> offset rhs then c else rhs);
            later = (if offset c \<le> offset rhs then rhs else c);
            earlierOffset = (if offset c < offset rhs then offset c else offset rhs) div WordSize;
            laterOffset = (if offset c > offset rhs then offset c else offset rhs) div WordSize;
            laterOffset = laterOffset - earlierOffset;
            e = min laterOffset (length (words earlier))
        in share_words (drop e (words earlier)) (words later))"

definition cbv_hash :: "cbv \<Rightarrow> machine_word" where
  "cbv_hash c =
     fold (\<lambda>w h. h XOR (w + 0x9e3779b9 + push_bit 6 h + drop_bit 2 h)) (words c)
       (of_nat (length (words c)))
     + of_nat (offset c)"

section \<open>Iterator\<close>

text \<open>An iterator is the index of its word and the bit inside it; it belongs to one vector.\<close>

record cbv_iter =
  wordIt :: nat
  itbit :: nat

definition it_atEnd :: "cbv \<Rightarrow> cbv_iter \<Rightarrow> bool" where
  "it_atEnd c it \<longleftrightarrow> wordIt it = length (words c)"

function find_bit :: "machine_word \<Rightarrow> nat \<Rightarrow> nat" where
  "find_bit w b = (if b < 64 \<and> w AND push_bit b 1 = 0 then find_bit w (Suc b) else b)"
  by pat_completeness auto
termination
  by (relation "measure (\<lambda>(w, b). 64 - b)") auto

declare find_bit.simps [simp del]

definition it_next :: "cbv \<Rightarrow> cbv_iter \<Rightarrow> cbv_iter" where
  "it_next c it =
     (let b = itbit it + 1;
          (wi, b) = (if b = WordSize \<or> drop_bit b (words c ! wordIt it) = 0
                     then (nextSetIndex c (wordIt it + 1), 0)
                     else (wordIt it, b));
          b = (if wi \<noteq> length (words c) then find_bit (words c ! wi) b else b)
      in \<lparr>wordIt = wi, itbit = b\<rparr>)"

definition it_inc :: "cbv \<Rightarrow> cbv_iter \<Rightarrow> cbv_iter option" where
  "it_inc c it = (if it_atEnd c it then None else Some (it_next c it))"

definition it_post_inc :: "cbv \<Rightarrow> cbv_iter \<Rightarrow> (cbv_iter \<times> cbv_iter) option" where
  "it_post_inc c it = do { it' \<leftarrow> it_inc c it; Some (it, it') }"

definition it_deref :: "cbv \<Rightarrow> cbv_iter \<Rightarrow> nat option" where
  "it_deref c it =
     (if it_atEnd c it then None else Some (u32 (offset c + wordIt it * WordSize + itbit it)))"

definition it_make :: "cbv \<Rightarrow> bool \<Rightarrow> cbv_iter" where
  "it_make c e =
     (let it = \<lparr>wordIt = (if e then length (words c) else 0), itbit = 0\<rparr> in
      if wordIt it \<noteq> length (words c) \<and> words c ! 0 AND 1 = 0 then it_next c it else it)"

definition cbv_begin :: "cbv \<Rightarrow> cbv_iter" where
  "cbv_begin c = it_make c False"

definition cbv_end :: "cbv \<Rightarrow> cbv_iter" where
  "cbv_end c = it_make c True"

definition it_eq :: "cbv \<Rightarrow> cbv_iter \<Rightarrow> cbv_iter \<Rightarrow> bool" where
  "it_eq c it rhs =
     (if wordIt it = length (words c) then wordIt rhs = length (words c)
      else wordIt it = wordIt rhs \<and> itbit it = itbit rhs)"

definition it_neq :: "cbv \<Rightarrow> cbv_iter \<Rightarrow> cbv_iter \<Rightarrow> bool" where
  "it_neq c it rhs = (\<not> it_eq c it rhs)"


text \<open>
  A range-based \<open>for\<close> over a vector: the positions it visits, in order. A loop that
  runs past the end or never stops is \<open>None\<close>.
\<close>

partial_function (option) cbv_iterate :: "cbv \<Rightarrow> cbv_iter \<Rightarrow> nat list option" where
  "cbv_iterate c it =
     (if it_neq c it (cbv_end c)
      then do {
        n \<leftarrow> it_deref c it;
        it' \<leftarrow> it_inc c it;
        ns \<leftarrow> cbv_iterate c it';
        Some (n # ns)
      }
      else Some [])"

definition cbv_list :: "cbv \<Rightarrow> nat list option" where
  "cbv_list c = cbv_iterate c (cbv_begin c)"

text \<open>\<open>BitVector(n)\<close>: the constructor sets and resets bit 0 so that the vector starts at 0.\<close>

definition bv_new :: "nat \<Rightarrow> cbv" where
  "bv_new n = cbv_reset (cbv_set (cbv_new n) 0) 0"

section \<open>Growing a vector\<close>

lemma cbv_inv_new: "64 * n \<le> 2 ^ 32 \<Longrightarrow> cbv_inv (cbv_new n)"
  by (simp add: cbv_inv_def cbv_new_def)

lemma cbv_bits_new [simp]: "cbv_bits (cbv_new n) = {}"
  by (simp add: cbv_bits_def cbv_new_def)

lemma cbv_bits_bound: "n \<in> cbv_bits c \<Longrightarrow> offset c \<le> n \<and> n < offset c + 64 * length (words c)"
  by (auto simp: cbv_bits_def dest: wbit_bound)

lemma cbv_bits_u32: "cbv_inv c \<Longrightarrow> n \<in> cbv_bits c \<Longrightarrow> n < 2 ^ 32"
  by (drule cbv_bits_bound) (simp add: cbv_inv_def)

lemma finite_cbv_bits [simp]: "finite (cbv_bits c)"
  by (rule finite_subset [of _ "{..< offset c + 64 * length (words c)}"])
     (auto dest: cbv_bits_bound)

lemma extendBackward_inv:
  assumes "cbv_inv c" shows "cbv_inv (extendBackward c b)"
proof -
  define o' where "o' = u32 (b div 64 * 64)"
  have o': "o' mod 64 = 0" unfolding o'_def u32_def by (simp add: mod_mod_cancel)
  show ?thesis
  proof (cases "o' \<ge> offset c")
    case True
    then show ?thesis using assms by (simp add: extendBackward_def o'_def)
  next
    case False
    then have "(offset c - o') div 64 * 64 = offset c - o'"
      using assms o' by (simp add: aligned_diff cbv_inv_def)
    then have "o' + 64 * ((offset c - o') div 64 + length (words c)) \<le> 2 ^ 32"
      using assms False by (simp add: cbv_inv_def algebra_simps)
    then show ?thesis
      using o' False by (simp add: extendBackward_def cbv_inv_def o'_def [symmetric] Let_def)
  qed
qed

lemma extendBackward_bits:
  assumes "cbv_inv c" "b < 2 ^ 32" shows "cbv_bits (extendBackward c b) = cbv_bits c"
proof -
  define o' where "o' = b div 64 * 64"
  have u: "u32 o' = o'" using assms(2) by (simp add: machine_simps o'_def)
  have o': "o' mod 64 = 0" by (simp add: o'_def)
  show ?thesis
  proof (cases "o' \<ge> offset c")
    case True
    then show ?thesis by (simp add: extendBackward_def u o'_def [symmetric])
  next
    case False
    then have "64 * ((offset c - o') div 64) = offset c - o'"
      using assms o' by (simp add: aligned_diff' cbv_inv_def)
    then show ?thesis
      using False by (auto simp: extendBackward_def cbv_bits_def u o'_def [symmetric] Let_def
            wbit_zeros_append)
  qed
qed

lemma extendBackward_canHold:
  assumes "cbv_inv c" "b < offset c"
  shows "canHold (extendBackward c b) b"
    and "offset (extendBackward c b) = b div 64 * 64"
    and "offset (extendBackward c b) + 64 * length (words (extendBackward c b))
           = offset c + 64 * length (words c)"
proof -
  define o' where "o' = b div 64 * 64"
  have lt: "b < 2 ^ 32" using assms by (simp add: cbv_inv_def)
  then have u: "u32 o' = o'" by (simp add: machine_simps o'_def)
  have o': "o' \<le> b" "b < o' + 64" "\<not> o' \<ge> offset c" "o' mod 64 = 0"
    using assms(2) below_block [of b] div_times_less_eq_dividend [of b 64]
    unfolding o'_def by simp_all
  note False' = o'(3)
  have e: "64 * ((offset c - o') div 64) = offset c - o'"
    using assms o'(4) by (simp add: aligned_diff' cbv_inv_def)
  show "offset (extendBackward c b) = b div 64 * 64"
    using False' by (simp add: extendBackward_def u o'_def [symmetric] Let_def)
  show "offset (extendBackward c b) + 64 * length (words (extendBackward c b))
           = offset c + 64 * length (words c)"
    using False' e by (simp add: extendBackward_def u o'_def [symmetric] Let_def)
  then show "canHold (extendBackward c b) b"
    using False' o' assms
    by (simp add: canHold_def extendBackward_def u o'_def [symmetric] Let_def)
qed

lemma extendForward_spec:
  assumes inv: "cbv_inv c" and b: "b < 2 ^ 32" and le: "offset c \<le> b"
  shows "\<exists>k. extendForward c b = c\<lparr>words := words c @ replicate k 0\<rparr>"
    and "cbv_inv (extendForward c b)"
    and "canHold (extendForward c b) b"
proof -
  let ?top = "offset c + 64 * length (words c)"
  have "(\<exists>k. extendForward c b = c\<lparr>words := words c @ replicate k 0\<rparr>)
        \<and> cbv_inv (extendForward c b) \<and> canHold (extendForward c b) b"
  proof (cases "canHold c b")
    case True
    then have "extendForward c b = c\<lparr>words := words c @ replicate 0 0\<rparr>"
      by (simp add: extendForward_def)
    moreover have "extendForward c b = c" using True by (simp add: extendForward_def)
    ultimately show ?thesis using True inv by metis
  next
    case False
    define bw where "bw = b div 64 * 64"
    have ge: "?top \<le> b" using False le by (auto simp: canHold_def)
    have al: "?top mod 64 = 0" using inv by (simp add: cbv_inv_def)
    have bw: "?top \<le> bw" "b < bw + 64" "bw + 64 \<le> 2 ^ 32" "bw mod 64 = 0" "bw < 2 ^ 32"
      using aligned_le [OF al ge] aligned_block [OF b] below_block [of b] b
      unfolding bw_def by simp_all
    define k where "k = 1 + (bw - length (words c) * 64 - offset c) div 64"
    have k: "64 * k = 64 + (bw - ?top)"
      using aligned_diff' [OF bw(4) al] by (simp add: k_def algebra_simps diff_diff_left)
    then have kb: "k < 2 ^ 32" using bw by linarith
    have ss: "size_sub (size_sub bw (length (words c) * 64)) (offset c)
        = bw - length (words c) * 64 - offset c"
      using bw by (simp add: machine_simps)
    have eq: "extendForward c b = c\<lparr>words := words c @ replicate k 0\<rparr>"
      using False le kb bw(5)
      by (simp add: extendForward_def Let_def ss machine_simps k_def flip: bw_def)
    have "offset c + 64 * (length (words c) + k) = bw + 64"
      using k bw(1) by (simp add: algebra_simps)
    then show ?thesis
      using eq bw inv le by (auto simp: cbv_inv_def canHold_def algebra_simps)
  qed
  then show "\<exists>k. extendForward c b = c\<lparr>words := words c @ replicate k 0\<rparr>"
    and "cbv_inv (extendForward c b)" and "canHold (extendForward c b) b" by blast+
qed

lemma extendForward_bits:
  assumes "cbv_inv c" "b < 2 ^ 32" "offset c \<le> b"
  shows "cbv_bits (extendForward c b) = cbv_bits c"
  using extendForward_spec(1) [OF assms] by (auto simp: cbv_bits_def)

lemma extendTo_spec:
  assumes inv: "cbv_inv c" and b: "b < 2 ^ 32"
  shows "cbv_inv (extendTo c b) \<and> canHold (extendTo c b) b \<and> cbv_bits (extendTo c b) = cbv_bits c"
proof -
  consider "offset c = 0" "words c = []"
    | "\<not> (offset c = 0 \<and> words c = [])" "b < offset c"
    | "\<not> (offset c = 0 \<and> words c = [])" "b \<ge> offset c + 64 * length (words c)"
    | "\<not> (offset c = 0 \<and> words c = [])" "canHold c b"
    by (metis canHold_def mult.commute not_less)
  then show ?thesis
  proof cases
    case 1
    have "b div 64 * 64 + 64 \<le> 2 ^ 32" by (rule aligned_block [OF b])
    moreover have "b < b div 64 * 64 + 64" by (rule below_block)
    ultimately show ?thesis
      using 1 by (auto simp: extendTo_def cbv_inv_def canHold_def cbv_bits_def machine_simps wbit_Cons)
  next
    case 2
    then have "extendTo c b = extendBackward c b" by (auto simp: extendTo_def)
    then show ?thesis
      using 2 extendBackward_inv [OF inv] extendBackward_bits [OF inv b]
        extendBackward_canHold(1) [OF inv 2(2)] by simp
  next
    case 3
    then have "extendTo c b = extendForward c b" by (auto simp: extendTo_def)
    then show ?thesis
      using 3 extendForward_spec(2,3) [OF inv b] extendForward_bits [OF inv b] by simp
  next
    case 4
    then have "extendTo c b = c" by (auto simp: extendTo_def canHold_def)
    then show ?thesis using 4 inv by simp
  qed
qed

lemmas extendTo_inv = extendTo_spec [THEN conjunct1]
  and extendTo_canHold = extendTo_spec [THEN conjunct2, THEN conjunct1]
  and extendTo_bits = extendTo_spec [THEN conjunct2, THEN conjunct2]

section \<open>Single bits\<close>

lemma canHold_index:
  "canHold c b \<Longrightarrow> (b - offset c) div 64 < length (words c)"
  by (auto simp: canHold_def intro!: less_mult_imp_div_less)

text \<open>Changing the word that holds a position changes that position only.\<close>

lemma cbv_bits_update:
  assumes inv: "cbv_inv c" and hold: "canHold c b"
    and w: "\<And>j. j < 64 \<Longrightarrow> j \<noteq> b mod 64 \<Longrightarrow>
              bit w j \<longleftrightarrow> bit (words c ! ((b - offset c) div 64)) j"
  shows "cbv_bits (c\<lparr>words := (words c)[(b - offset c) div 64 := w]\<rparr>)
         = (if bit w (b mod 64) then insert b (cbv_bits c) else cbv_bits c - {b})"
proof -
  let ?i = "(b - offset c) div 64"
  have i: "?i < length (words c)" by (rule canHold_index [OF hold])
  have al: "offset c mod 64 = 0" and le: "offset c \<le> b"
    using inv hold by (auto simp: cbv_inv_def canHold_def)
  have "wbit ((words c)[?i := w]) (n - offset c) \<longleftrightarrow>
        (if n = b then bit w (b mod 64) else wbit (words c) (n - offset c))"
    if n: "offset c \<le> n" for n
  proof (cases "(n - offset c) div 64 = ?i")
    case True
    have m: "(n - offset c) mod 64 = n mod 64" by (rule aligned_mod [OF al n])
    have mb: "(b - offset c) mod 64 = b mod 64" by (rule aligned_mod [OF al le])
    have "n - offset c = b - offset c \<longleftrightarrow> n mod 64 = b mod 64"
      using True m mb by (metis div_mult_mod_eq)
    then have "n = b \<longleftrightarrow> n mod 64 = b mod 64"
      using n le by (simp add: eq_diff_iff)
    moreover have "wbit (words c) (n - offset c) \<longleftrightarrow> bit (words c ! ?i) (n mod 64)"
      using True i m by (simp add: wbit_def)
    ultimately show ?thesis
      using w [of "n mod 64"] True i m by (simp add: wbit_update)
  next
    case False
    then have "n \<noteq> b" by auto
    with False show ?thesis by (simp add: wbit_update [OF i])
  qed
  then show ?thesis using le by (auto simp: cbv_bits_def split: if_splits)
qed

lemma cbv_test_bits:
  assumes "cbv_inv c"
  shows "cbv_test c b \<longleftrightarrow> b \<in> cbv_bits c"
proof (cases "canHold c b")
  case True
  then have le: "offset c \<le> b" by (simp add: canHold_def)
  have "offset c mod 64 = 0" using assms by (simp add: cbv_inv_def)
  then have "(b - offset c) mod 64 = b mod 64" using le by (rule aligned_mod)
  then show ?thesis
    using True canHold_index [OF True]
    by (simp add: cbv_test_def canHold_def cbv_bits_def wbit_def mask_and_nonzero)
next
  case False
  then show ?thesis by (auto simp: cbv_test_def canHold_def dest: cbv_bits_bound)
qed

lemma cbv_set_spec:
  assumes "cbv_inv c" "b < 2 ^ 32"
  shows "cbv_inv (cbv_set c b)" "cbv_bits (cbv_set c b) = insert b (cbv_bits c)"
proof -
  let ?c = "extendTo c b"
  note e = extendTo_spec [OF assms]
  show "cbv_inv (cbv_set c b)"
    using e by (simp add: cbv_set_def cbv_inv_def Let_def)
  show "cbv_bits (cbv_set c b) = insert b (cbv_bits c)"
    using e cbv_bits_update [of ?c b "words ?c ! ((b - offset ?c) div 64) OR bit_mask b"]
    by (simp add: cbv_set_def Let_def bit_or_iff)
qed

lemma cbv_reset_spec:
  assumes "cbv_inv c"
  shows "cbv_inv (cbv_reset c b)" "cbv_bits (cbv_reset c b) = cbv_bits c - {b}"
proof -
  show "cbv_inv (cbv_reset c b)"
    using assms by (simp add: cbv_reset_def cbv_inv_def Let_def)
  show "cbv_bits (cbv_reset c b) = cbv_bits c - {b}"
  proof (cases "canHold c b")
    case True
    then have "cbv_reset c b = c\<lparr>words := (words c)[(b - offset c) div 64
        := words c ! ((b - offset c) div 64) AND NOT (bit_mask b)]\<rparr>"
      by (auto simp: cbv_reset_def canHold_def Let_def)
    then show ?thesis
      using cbv_bits_update [OF assms True, of "words c ! ((b - offset c) div 64) AND NOT (bit_mask b)"]
      by (simp add: bit_and_iff bit_not_iff)
  next
    case False
    then have "cbv_reset c b = c" and "b \<notin> cbv_bits c"
      by (auto simp: cbv_reset_def canHold_def dest: cbv_bits_bound)
    then show ?thesis by simp
  qed
qed

lemma cbv_test_and_set_spec:
  assumes "cbv_inv c" "b < 2 ^ 32" "cbv_test_and_set c b = (r, c')"
  shows "cbv_inv c'" "cbv_bits c' = insert b (cbv_bits c)" "r \<longleftrightarrow> b \<notin> cbv_bits c"
  using assms cbv_set_spec [OF assms(1,2)]
  by (auto simp: cbv_test_and_set_def cbv_test_bits split: if_splits)

section \<open>Whole vectors\<close>

lemma cbv_bits_relative: "cbv_bits c = (\<lambda>n. offset c + n) ` {n. wbit (words c) n}"
proof (rule set_eqI)
  fix n
  have "n \<in> cbv_bits c \<longleftrightarrow> (\<exists>m. wbit (words c) m \<and> n = offset c + m)"
    by (auto simp: cbv_bits_def dest: le_Suc_ex)
  then show "n \<in> cbv_bits c \<longleftrightarrow> n \<in> (\<lambda>n. offset c + n) ` {n. wbit (words c) n}"
    by (auto simp: image_iff)
qed

lemma cbv_empty_bits: "cbv_empty c \<longleftrightarrow> cbv_bits c = {}"
  by (auto simp: cbv_bits_relative cbv_empty_def list_all_iff simp flip: wbit_all_zero)

lemma cbv_clear_spec: "cbv_inv (cbv_clear c)" "cbv_bits (cbv_clear c) = {}"
  by (simp_all add: cbv_clear_def cbv_inv_def cbv_bits_def)

lemma fold_u32_sum:
  "fold (\<lambda>w n. u32 (n + f w)) ws (u32 a) = u32 (a + sum_list (map f ws))"
  by (induction ws arbitrary: a) (simp_all add: u32_add_left ac_simps)

lemma cbv_count_bits: "cbv_count c = u32 (card (cbv_bits c))"
proof -
  have "card (cbv_bits c) = card {n. wbit (words c) n}"
    unfolding cbv_bits_relative by (rule card_image) simp
  also have "\<dots> = sum_list (map popcount (words c))" by (rule card_wbit)
  finally show ?thesis
    using fold_u32_sum [of popcount "words c" 0] by (simp add: cbv_count_def u32_id)
qed


section \<open>The word loops\<close>

lemma or_words_eq:
  "length rs \<le> length ts \<Longrightarrow>
   snd (or_words ts rs ch) = map2 (OR) ts rs @ drop (length rs) ts \<and>
   (fst (or_words ts rs ch) = 0 \<longleftrightarrow> ch = 0 \<and> snd (or_words ts rs ch) = ts)"
proof (induction ts rs ch rule: or_words.induct)
  case (1 t ts r rs ch)
  have "ch OR (t XOR (t OR r)) = 0 \<longleftrightarrow> ch = 0 \<and> t OR r = t"
    by (auto simp: machine_word_eq_iff bit_or_iff bit_xor_iff)
  then show ?case
    using 1 by (auto simp: Let_def split: prod.splits)
qed auto

lemma clear_words_eq:
  "clear_words ws ch = (ch \<or> replicate (length ws) 0 \<noteq> ws, replicate (length ws) 0)"
  by (induction ws ch rule: clear_words.induct) (auto split: prod.splits)

lemma zip_words_eq:
  "zip_words f ts rs ch =
   (ch \<or> map2 f ts rs \<noteq> take (length rs) ts, map2 f ts rs, drop (length rs) ts)"
  by (induction f ts rs ch rule: zip_words.induct) (auto simp: Let_def split: prod.splits)

lemma wbit_map2:
  "wbit (map2 f ts rs) n \<longleftrightarrow>
   n div 64 < length ts \<and> n div 64 < length rs \<and> bit (f (ts ! (n div 64)) (rs ! (n div 64))) (n mod 64)"
  by (auto simp: wbit_def)

lemma wbit_map2_and: "wbit (map2 (AND) ts rs) n \<longleftrightarrow> wbit ts n \<and> wbit rs n"
  by (auto simp: wbit_map2 wbit_def bit_and_iff)

lemma wbit_map2_minus:
  "wbit (map2 (\<lambda>t r. t AND NOT r) ts rs @ drop (length rs) ts) n \<longleftrightarrow> wbit ts n \<and> \<not> wbit rs n"
proof (cases "n < 64 * min (length ts) (length rs)")
  case True
  then have "n div 64 < min (length ts) (length rs)" by (simp add: less_mult_imp_div_less)
  then show ?thesis
    using True
    by (auto simp: wbit_append wbit_map2 wbit_def [of ts n] wbit_def [of rs n] bit_and_iff bit_not_iff)
next
  case False
  then show ?thesis
    by (cases "length ts \<le> length rs") (auto simp: wbit_append wbit_drop dest: wbit_bound)
qed

lemma wbit_map2_or:
  assumes "length rs \<le> length ts"
  shows "wbit (map2 (OR) ts rs @ drop (length rs) ts) n \<longleftrightarrow> wbit ts n \<or> wbit rs n"
proof (cases "n < 64 * length rs")
  case True
  then have "n div 64 < length rs" by (simp add: less_mult_imp_div_less)
  then show ?thesis
    using True assms
    by (auto simp: wbit_append wbit_map2 wbit_def [of ts n] wbit_def [of rs n] bit_or_iff)
next
  case False
  then show ?thesis using assms by (auto simp: wbit_append wbit_drop dest: wbit_bound)
qed

text \<open>Vectors with the same shape are equal when they hold the same bits.\<close>

lemma cbv_bits_inj:
  assumes "offset a = offset b" "length (words a) = length (words b)"
  shows "cbv_bits a = cbv_bits b \<longleftrightarrow> words a = words b"
proof
  assume eq: "cbv_bits a = cbv_bits b"
  have "wbit (words a) n \<longleftrightarrow> wbit (words b) n" for n
    using eq assms(1) by (auto simp: cbv_bits_def set_eq_iff dest: spec [of _ "offset b + n"])
  with assms(2) show "words a = words b" by (rule wbit_eqI)
qed (use assms in \<open>simp add: cbv_bits_def\<close>)

section \<open>Union\<close>

lemma finalBit_eq:
  assumes "cbv_inv c" "words c \<noteq> []"
  shows "finalBit c = offset c + 64 * length (words c) - 1"
  using assms by (cases "words c") (auto simp: finalBit_def cbv_inv_def machine_simps)

lemma or_assign_aligned:
  assumes inv: "cbv_inv c" "cbv_inv rhs"
    and off: "offset c \<le> offset rhs"
    and fin: "offset rhs + 64 * length (words rhs) \<le> offset c + 64 * length (words c)"
    and ne: "words rhs \<noteq> []"
  defines "k \<equiv> (offset rhs - offset c) div 64"
  defines "r \<equiv> or_words (drop k (words c)) (words rhs) 0"
  defines "c' \<equiv> c\<lparr>words := take k (words c) @ snd r\<rparr>"
  shows "indexForBit c (offset rhs) = Some k"
    and "cbv_inv c'" and "cbv_bits c' = cbv_bits c \<union> cbv_bits rhs"
    and "fst r \<noteq> 0 \<longleftrightarrow> cbv_bits c' \<noteq> cbv_bits c"
proof -
  have k: "64 * k = offset rhs - offset c"
    using inv by (simp add: k_def cbv_inv_def aligned_diff')
  have "k + length (words rhs) \<le> length (words c)"
    using k off fin by linarith
  then have len: "length (words rhs) \<le> length (drop k (words c))" and kle: "k \<le> length (words c)"
    by simp_all
  have "canHold c (offset rhs)" using off fin ne by (cases "words rhs") (auto simp: canHold_def)
  then show "indexForBit c (offset rhs) = Some k" by (simp add: indexForBit_def k_def)
  note r = or_words_eq [OF len, of 0, folded r_def]
  have lr: "length (snd r) = length (drop k (words c))"
    using r len by simp
  then show "cbv_inv c'" using inv(1) kle by (simp add: c'_def cbv_inv_def)
  have sr: "wbit (snd r) m \<longleftrightarrow> wbit (words c) (64 * k + m) \<or> wbit (words rhs) m" for m
    using r wbit_map2_or [OF len] by (simp only: wbit_drop)
  have "wbit (take k (words c) @ snd r) n \<longleftrightarrow>
        wbit (words c) n \<or> (64 * k \<le> n \<and> wbit (words rhs) (n - 64 * k))" for n
    using kle by (auto simp: wbit_append wbit_take sr)
  moreover have "64 * k \<le> n - offset c \<longleftrightarrow> offset rhs \<le> n"
      and "n - offset c - 64 * k = n - offset rhs" if "offset c \<le> n" for n
    using off k that by linarith+
  ultimately show "cbv_bits c' = cbv_bits c \<union> cbv_bits rhs"
    using off by (auto simp: cbv_bits_def c'_def)
  have "fst r = 0 \<longleftrightarrow> take k (words c) @ snd r = words c"
    using r by (metis append_eq_conv_conj append_take_drop_id length_take lr same_append_eq)
  then show "fst r \<noteq> 0 \<longleftrightarrow> cbv_bits c' \<noteq> cbv_bits c"
    using cbv_bits_inj [of c' c] lr kle by (simp add: c'_def)
qed

lemma cbv_or_assign_spec:
  assumes inv: "cbv_inv c" "cbv_inv rhs"
  shows "\<exists>ch c'. cbv_or_assign c rhs = Some (ch, c') \<and> cbv_inv c' \<and>
           cbv_bits c' = cbv_bits c \<union> cbv_bits rhs \<and>
           (words c \<noteq> [] \<longrightarrow> (ch \<longleftrightarrow> cbv_bits c' \<noteq> cbv_bits c)) \<and>
           (words c = [] \<longrightarrow> (ch \<longleftrightarrow> words rhs \<noteq> []))"
proof -
  consider "words c = []" | "words c \<noteq> []" "words rhs = []" | "words c \<noteq> []" "words rhs \<noteq> []"
    by blast
  then show ?thesis
  proof cases
    case 1
    then show ?thesis using inv by (simp add: cbv_or_assign_def cbv_bits_def)
  next
    case 2
    then have "cbv_or_assign c rhs = Some (False, c)" by (simp add: cbv_or_assign_def)
    moreover have "cbv_bits rhs = {}" using 2 by (simp add: cbv_bits_def)
    ultimately show ?thesis using 2 inv by (intro exI [of _ False] exI [of _ c]) simp
  next
    case 3
    note fb = finalBit_eq [OF inv(1) 3(1)] finalBit_eq [OF inv(2) 3(2)]
    have pos: "0 < length (words c)" "0 < length (words rhs)" using 3 by simp_all
    have fb32: "finalBit rhs < 2 ^ 32" unfolding finalBit_def by (rule u32_bound)
    define c1 where "c1 = (if finalBit c < finalBit rhs then extendForward c (finalBit rhs) else c)"
    have le: "offset c \<le> finalBit rhs" if "finalBit c < finalBit rhs"
      using that fb pos by simp
    have c1: "cbv_inv c1" "cbv_bits c1 = cbv_bits c" "offset c1 = offset c"
        "offset rhs + 64 * length (words rhs) \<le> offset c1 + 64 * length (words c1)"
    proof -
      show "cbv_inv c1" "cbv_bits c1 = cbv_bits c" "offset c1 = offset c"
        using extendForward_spec(1,2) [OF inv(1) fb32 le] extendForward_bits [OF inv(1) fb32 le] inv
        by (auto simp: c1_def)
      show "offset rhs + 64 * length (words rhs) \<le> offset c1 + 64 * length (words c1)"
      proof (cases "finalBit c < finalBit rhs")
        case True
        then have "canHold c1 (finalBit rhs)"
          using extendForward_spec(3) [OF inv(1) fb32 le] by (simp add: c1_def)
        then have "finalBit rhs < offset c1 + 64 * length (words c1)"
          by (simp add: canHold_def mult.commute)
        then show ?thesis using fb(2) pos by linarith
      next
        case False
        then have eq: "c1 = c" by (simp add: c1_def)
        show ?thesis unfolding eq using False fb pos by linarith
      qed
    qed
    define c2 where "c2 = (if offset c1 > offset rhs then extendBackward c1 (offset rhs) else c1)"
    have or32: "offset rhs < 2 ^ 32" using inv(2) pos unfolding cbv_inv_def by linarith
    have al: "offset rhs div 64 * 64 = offset rhs" using inv(2) by (auto simp: cbv_inv_def)
    have c2: "cbv_inv c2" "cbv_bits c2 = cbv_bits c" "offset c2 \<le> offset rhs"
        "offset rhs + 64 * length (words rhs) \<le> offset c2 + 64 * length (words c2)"
    proof -
      show "cbv_inv c2" "cbv_bits c2 = cbv_bits c"
        using c1 extendBackward_inv [OF c1(1)] extendBackward_bits [OF c1(1) or32]
        by (simp_all add: c2_def)
      have "offset c2 \<le> offset rhs \<and>
          offset c2 + 64 * length (words c2) = offset c1 + 64 * length (words c1)"
        using extendBackward_canHold(2,3) [OF c1(1), of "offset rhs"] al by (simp add: c2_def)
      then show "offset c2 \<le> offset rhs"
          "offset rhs + 64 * length (words rhs) \<le> offset c2 + 64 * length (words c2)"
        using c1(4) by simp_all
    qed
    note fin = or_assign_aligned [OF c2(1) inv(2) c2(3,4) 3(2)]
    have "cbv_or_assign c rhs = (let k = (offset rhs - offset c2) div 64;
            r = or_words (drop k (words c2)) (words rhs) 0
          in Some (fst r \<noteq> 0, c2\<lparr>words := take k (words c2) @ snd r\<rparr>))"
      using 3 fin(1)
      by (simp add: cbv_or_assign_def Let_def split_def flip: c1_def c2_def)
    then show ?thesis
      using fin(2,3,4) c2(2) 3(1) by (simp add: Let_def)
  qed
qed


section \<open>Intersection and difference\<close>

lemma no_common_block:
  assumes "\<not> canHold c (max (offset c) (offset rhs)) \<or> \<not> canHold rhs (max (offset c) (offset rhs))"
  shows "cbv_bits c \<inter> cbv_bits rhs = {}"
  using assms by (auto simp: canHold_def dest!: cbv_bits_bound)

text \<open>
  Where both vectors hold \<open>g\<close>, the later offset, the word indices of \<open>g\<close> line the
  two word arrays up.
\<close>

lemma common_block:
  assumes "cbv_inv c" "cbv_inv rhs"
  defines "g \<equiv> max (offset c) (offset rhs)"
  assumes "canHold c g" "canHold rhs g"
  obtains i j where "indexForBit c g = Some i" "indexForBit rhs g = Some j"
    "i \<le> length (words c)" "64 * i = g - offset c" "64 * j = g - offset rhs"
    "\<And>n. g \<le> n \<Longrightarrow> wbit (drop i (words c)) (n - g) \<longleftrightarrow> n \<in> cbv_bits c"
    "\<And>n. g \<le> n \<Longrightarrow> wbit (drop j (words rhs)) (n - g) \<longleftrightarrow> n \<in> cbv_bits rhs"
proof -
  define i where "i = (g - offset c) div 64"
  define j where "j = (g - offset rhs) div 64"
  have ge: "offset c \<le> g" "offset rhs \<le> g" by (simp_all add: g_def)
  have al: "g mod 64 = 0" "offset c mod 64 = 0" "offset rhs mod 64 = 0"
    using assms(1,2) by (auto simp: cbv_inv_def g_def max_def)
  have i: "64 * i = g - offset c" and j: "64 * j = g - offset rhs"
    using al by (simp_all add: i_def j_def aligned_diff')
  show thesis
  proof (rule that [of i j])
    show "indexForBit c g = Some i" "indexForBit rhs g = Some j"
      using assms(4,5) by (simp_all add: indexForBit_def i_def j_def)
    show "i \<le> length (words c)" using canHold_index [OF assms(4)] by (simp add: i_def)
    show "wbit (drop i (words c)) (n - g) \<longleftrightarrow> n \<in> cbv_bits c" if "g \<le> n" for n
      using that ge i by (simp add: wbit_drop cbv_bits_def)
    show "wbit (drop j (words rhs)) (n - g) \<longleftrightarrow> n \<in> cbv_bits rhs" if "g \<le> n" for n
      using that ge j by (simp add: wbit_drop cbv_bits_def)
  qed (fact i j)+
qed

lemma append3_eq:
  "length a = length a' \<Longrightarrow> length b = length b' \<Longrightarrow>
   a @ b @ c = a' @ b' @ c' \<longleftrightarrow> a = a' \<and> b = b' \<and> c = c'"
  by simp

lemma wbit_clear_prefix:
  assumes "i \<le> length ws"
  shows "wbit (replicate i 0 @ vs) n \<longleftrightarrow> 64 * i \<le> n \<and> wbit vs (n - 64 * i)"
    and "wbit (take i ws @ vs) n \<longleftrightarrow> (if n < 64 * i then wbit ws n else wbit vs (n - 64 * i))"
  using assms by (auto simp: wbit_append wbit_take)

lemma cbv_and_assign_spec:
  assumes inv: "cbv_inv c" "cbv_inv rhs"
  shows "\<exists>ch c'. cbv_and_assign c rhs = Some (ch, c') \<and> cbv_inv c' \<and>
           cbv_bits c' = cbv_bits c \<inter> cbv_bits rhs \<and> (ch \<longleftrightarrow> cbv_bits c' \<noteq> cbv_bits c) \<and>
           offset c' = offset c \<and> length (words c') = length (words c)"
proof -
  let ?g = "max (offset c) (offset rhs)"
  have "\<exists>c'. cbv_and_assign c rhs = Some (words c' \<noteq> words c, c') \<and>
           cbv_bits c' = cbv_bits c \<inter> cbv_bits rhs \<and>
           offset c' = offset c \<and> length (words c') = length (words c)"
  proof (cases "canHold c ?g \<and> canHold rhs ?g")
    case False
    define c' where "c' = c\<lparr>words := replicate (length (words c)) 0\<rparr>"
    have "cbv_and_assign c rhs = Some (words c' \<noteq> words c, c')"
      using False by (auto simp: cbv_and_assign_def Let_def clear_words_eq c'_def)
    moreover have "cbv_bits c' = {}" by (simp add: c'_def cbv_bits_def)
    ultimately show ?thesis
      using no_common_block [of c rhs] False by (intro exI [of _ c']) (auto simp: c'_def)
  next
    case True
    then obtain i j where ij: "indexForBit c ?g = Some i" "indexForBit rhs ?g = Some j"
        "i \<le> length (words c)" "64 * i = ?g - offset c"
        "\<And>n. ?g \<le> n \<Longrightarrow> wbit (drop i (words c)) (n - ?g) \<longleftrightarrow> n \<in> cbv_bits c"
        "\<And>n. ?g \<le> n \<Longrightarrow> wbit (drop j (words rhs)) (n - ?g) \<longleftrightarrow> n \<in> cbv_bits rhs"
      using common_block [OF inv] by metis
    let ?W = "drop i (words c)" and ?R = "drop j (words rhs)"
    let ?ws = "replicate i 0 @ map2 (AND) ?W ?R @ replicate (length ?W - length ?R) 0"
    define c' where "c' = c\<lparr>words := ?ws\<rparr>"
    have split: "words c = take i (words c) @ take (length ?R) ?W @ drop (length ?R) ?W"
      by (metis append_take_drop_id)
    have len: "length ?ws = length (words c)" using ij(3) by simp
    have "?ws = take i (words c) @ take (length ?R) ?W @ drop (length ?R) ?W \<longleftrightarrow>
        replicate i 0 = take i (words c) \<and> map2 (AND) ?W ?R = take (length ?R) ?W \<and>
        replicate (length ?W - length ?R) 0 = drop (length ?R) ?W"
      using ij(3) by (intro append3_eq) simp_all
    then have ne: "?ws \<noteq> words c \<longleftrightarrow> replicate i 0 \<noteq> take i (words c) \<or>
        map2 (AND) ?W ?R \<noteq> take (length ?R) ?W \<or>
        replicate (length ?W - length ?R) 0 \<noteq> drop (length ?R) ?W"
      unfolding split [symmetric] by blast
    have "cbv_and_assign c rhs = Some (?ws \<noteq> words c, c')"
      using True ij(1-3) unfolding ne
      by (auto simp: cbv_and_assign_def Let_def clear_words_eq zip_words_eq c'_def min_absorb2
          ac_simps)
    moreover have "n \<in> cbv_bits c' \<longleftrightarrow> n \<in> cbv_bits c \<and> n \<in> cbv_bits rhs" for n
    proof (cases "?g \<le> n")
      case g: True
      then have "n - offset c - 64 * i = n - ?g" "64 * i \<le> n - offset c" "offset c \<le> n"
        using ij(4) by linarith+
      then show ?thesis
        using ij(5,6) [OF g]
        by (simp add: c'_def cbv_bits_def [of "c\<lparr>words := _\<rparr>"] wbit_zeros_append wbit_map2_and)
    next
      case False
      then have "\<not> (64 * i \<le> n - offset c \<and> offset c \<le> n)" using ij(4) by linarith
      moreover have "n \<notin> cbv_bits c \<or> n \<notin> cbv_bits rhs"
        using False by (auto dest!: cbv_bits_bound)
      ultimately show ?thesis
        by (auto simp: c'_def cbv_bits_def [of "c\<lparr>words := _\<rparr>"] wbit_zeros_append)
    qed
    ultimately show ?thesis
      using len by (intro exI [of _ c']) (auto simp: c'_def)
  qed
  then obtain c' where c': "cbv_and_assign c rhs = Some (words c' \<noteq> words c, c')"
    "cbv_bits c' = cbv_bits c \<inter> cbv_bits rhs" "offset c' = offset c"
    "length (words c') = length (words c)" by blast
  then show ?thesis
    using inv(1) cbv_bits_inj [of c' c] by (auto simp: cbv_inv_def)
qed

lemma cbv_minus_assign_spec:
  assumes inv: "cbv_inv c" "cbv_inv rhs"
  shows "\<exists>ch c'. cbv_minus_assign c rhs = Some (ch, c') \<and> cbv_inv c' \<and>
           cbv_bits c' = cbv_bits c - cbv_bits rhs \<and> (ch \<longleftrightarrow> cbv_bits c' \<noteq> cbv_bits c)"
proof -
  let ?g = "max (offset c) (offset rhs)"
  show ?thesis
  proof (cases "canHold c ?g \<and> canHold rhs ?g")
    case False
    then have "cbv_minus_assign c rhs = Some (False, c)" by (auto simp: cbv_minus_assign_def)
    then show ?thesis using no_common_block [of c rhs] False inv by auto
  next
    case True
    then obtain i j where ij: "indexForBit c ?g = Some i" "indexForBit rhs ?g = Some j"
        "i \<le> length (words c)" "64 * i = ?g - offset c"
        "\<And>n. ?g \<le> n \<Longrightarrow> wbit (drop i (words c)) (n - ?g) \<longleftrightarrow> n \<in> cbv_bits c"
        "\<And>n. ?g \<le> n \<Longrightarrow> wbit (drop j (words rhs)) (n - ?g) \<longleftrightarrow> n \<in> cbv_bits rhs"
      using common_block [OF inv] by metis
    let ?W = "drop i (words c)" and ?R = "drop j (words rhs)"
    let ?f = "\<lambda>t r. t AND NOT r :: machine_word"
    let ?ws = "take i (words c) @ map2 ?f ?W ?R @ drop (length ?R) ?W"
    define c' where "c' = c\<lparr>words := ?ws\<rparr>"
    have split: "words c = take i (words c) @ take (length ?R) ?W @ drop (length ?R) ?W"
      by (metis append_take_drop_id)
    have len: "length ?ws = length (words c)" using ij(3) by simp
    have ne: "?ws \<noteq> words c \<longleftrightarrow> map2 ?f ?W ?R \<noteq> take (length ?R) ?W"
      by (subst (4) split) (simp only: append_same_eq same_append_eq)
    have "cbv_minus_assign c rhs = Some (?ws \<noteq> words c, c')"
      using True ij(1-3) unfolding ne
      by (simp add: cbv_minus_assign_def Let_def zip_words_eq c'_def)
    moreover have "n \<in> cbv_bits c' \<longleftrightarrow> n \<in> cbv_bits c \<and> n \<notin> cbv_bits rhs" for n
    proof (cases "?g \<le> n")
      case g: True
      then have "n - offset c - 64 * i = n - ?g" "64 * i \<le> n - offset c" "offset c \<le> n"
        using ij(4) by linarith+
      then show ?thesis
        using ij(5,6) [OF g] wbit_map2_minus [of ?W ?R "n - ?g"]
        by (simp add: c'_def cbv_bits_def [of "c\<lparr>words := _\<rparr>"] wbit_clear_prefix(2) [OF ij(3)])
    next
      case False
      then have "offset c \<le> n \<Longrightarrow> n - offset c < 64 * i" using ij(4) by linarith
      moreover have "n \<notin> cbv_bits c \<or> n \<notin> cbv_bits rhs"
        using False by (auto dest!: cbv_bits_bound)
      ultimately show ?thesis
        by (auto simp: c'_def cbv_bits_def [of c] cbv_bits_def [of "c\<lparr>words := _\<rparr>"]
            wbit_clear_prefix(2) [OF ij(3)])
    qed
    ultimately show ?thesis
      using len inv(1) cbv_bits_inj [of c' c] by (auto simp: c'_def cbv_inv_def)
  qed
qed


section \<open>Equality, inclusion, overlap\<close>

lemma nextSetIndex_spec:
  "(i \<le> length (words c) \<longrightarrow> nextSetIndex c i \<le> length (words c)) \<and>
   (nextSetIndex c i < length (words c) \<longrightarrow> words c ! nextSetIndex c i \<noteq> 0) \<and>
   (\<forall>k. i \<le> k \<and> k < nextSetIndex c i \<longrightarrow> k < length (words c) \<and> words c ! k = 0)"
proof (induction c i rule: nextSetIndex.induct)
  case (1 c i)
  show ?case
  proof (cases "i < length (words c) \<and> words c ! i = 0")
    case True
    then have "nextSetIndex c i = nextSetIndex c (Suc i)" by (subst nextSetIndex.simps) simp
    then show ?thesis
      using 1 [OF True] True by (auto simp: Suc_le_eq order.order_iff_strict [of i])
  next
    case False
    then have "nextSetIndex c i = i" by (subst nextSetIndex.simps) auto
    then show ?thesis using False by auto
  qed
qed

definition tail_bits :: "cbv \<Rightarrow> nat \<Rightarrow> nat set" where
  "tail_bits c i = {n \<in> cbv_bits c. offset c + 64 * i \<le> n}"

lemma tail_bits_0 [simp]: "tail_bits c 0 = cbv_bits c"
  by (auto simp: tail_bits_def cbv_bits_def)

lemma tail_bits_end: "length (words c) \<le> i \<Longrightarrow> tail_bits c i = {}"
  by (auto simp: tail_bits_def dest: cbv_bits_bound)

lemma tail_bits_bit:
  "j < 64 \<Longrightarrow> offset c + 64 * i + j \<in> tail_bits c i \<longleftrightarrow> i < length (words c) \<and> bit (words c ! i) j"
  by (auto simp: tail_bits_def cbv_bits_def wbit_def)

lemma tail_bits_Suc: "tail_bits c (Suc i) = {n \<in> tail_bits c i. offset c + 64 * i + 64 \<le> n}"
  by (auto simp: tail_bits_def)

lemma tail_bits_next: "tail_bits c (nextSetIndex c i) = tail_bits c i"
proof -
  have "offset c + 64 * nextSetIndex c i \<le> n" if n: "n \<in> tail_bits c i" for n
  proof (rule ccontr)
    assume "\<not> ?thesis"
    moreover define k where "k = (n - offset c) div 64"
    ultimately have "i \<le> k" "k < nextSetIndex c i" "wbit (words c) (n - offset c)"
      using n by (auto simp: tail_bits_def cbv_bits_def less_eq_div_iff_mult_less_eq
          div_less_iff_less_mult)
    then show False using nextSetIndex_spec [of i c] by (auto simp: wbit_def k_def)
  qed
  then show ?thesis using nextSetIndex_ge [of i c] by (auto simp: tail_bits_def)
qed

lemma tail_bits_eq_split:
  assumes p: "offset a + 64 * i = offset b + 64 * j"
    and "i < length (words a)" "j < length (words b)"
  shows "tail_bits a i = tail_bits b j \<longleftrightarrow>
         words a ! i = words b ! j \<and> tail_bits a (Suc i) = tail_bits b (Suc j)" (is "?l \<longleftrightarrow> ?r")
proof
  assume eq: ?l
  have "bit (words a ! i) k \<longleftrightarrow> bit (words b ! j) k" if "k < 64" for k
    using tail_bits_bit [OF that, of a i] tail_bits_bit [OF that, of b j] assms eq by simp
  then have "words a ! i = words b ! j" by (rule machine_word_eqI)
  then show ?r using eq p by (simp add: tail_bits_Suc)
next
  assume r: ?r
  have "n \<in> tail_bits a i \<longleftrightarrow> n \<in> tail_bits b j" for n
  proof (cases "offset a + 64 * i \<le> n \<and> n < offset a + 64 * i + 64")
    case True
    then obtain k where "n = offset a + 64 * i + k" "k < 64"
      by (metis add_less_cancel_left le_Suc_ex)
    then show ?thesis
      using tail_bits_bit [of k a i] tail_bits_bit [of k b j] assms r by simp
  next
    case False
    then consider "n < offset a + 64 * i" | "offset a + 64 * i + 64 \<le> n" by linarith
    then show ?thesis
    proof cases
      case 1
      then show ?thesis using p by (auto simp: tail_bits_def)
    next
      case 2
      then show ?thesis using r p by (auto simp: tail_bits_Suc set_eq_iff)
    qed
  qed
  then show ?l by blast
qed

lemma tail_bits_neq:
  assumes "i < length (words a)" "words a ! i \<noteq> 0"
    and "offset a + 64 * i + 64 \<le> offset b + 64 * j"
  shows "tail_bits a i \<noteq> tail_bits b j"
proof -
  obtain k where "k < 64" "bit (words a ! i) k"
    using assms(2) by (auto simp: machine_word_nonzero)
  then have "offset a + 64 * i + k \<in> tail_bits a i" "offset a + 64 * i + k \<notin> tail_bits b j"
    using assms tail_bits_bit [of k a i] by (auto simp: tail_bits_def)
  then show ?thesis by blast
qed

lemma cbv_eq_loop_correct:
  assumes "cbv_inv c" "cbv_inv rhs"
    and "li < length (words c) \<longrightarrow> words c ! li \<noteq> 0"
    and "ri < length (words rhs) \<longrightarrow> words rhs ! ri \<noteq> 0"
  shows "cbv_eq_loop c rhs li ri \<longleftrightarrow> tail_bits c li = tail_bits rhs ri"
  using assms
proof (induction c rhs li ri rule: cbv_eq_loop.induct)
  case (1 c rhs li ri)
  show ?case
  proof (cases "li < length (words c) \<and> ri < length (words rhs)")
    case in_range: True
    let ?p = "offset c + 64 * li" and ?q = "offset rhs + 64 * ri"
    have al: "?p mod 64 = 0" "?q mod 64 = 0"
      using "1.prems"(1,2) by (auto simp: cbv_inv_def)
    show ?thesis
    proof (cases "?p = ?q")
      case False
      then have "?p + 64 \<le> ?q \<or> ?q + 64 \<le> ?p"
        using al by (metis dvd_imp_mod_0 mod_0_imp_dvd dvd_diff_nat dvd_imp_le
            le_diff_conv2 less_imp_le_nat linorder_neqE_nat zero_less_diff add.commute)
      then have "tail_bits c li \<noteq> tail_bits rhs ri"
        using tail_bits_neq [of li c rhs ri] tail_bits_neq [of ri rhs c li] in_range "1.prems"
        by metis
      then show ?thesis using in_range False by (subst cbv_eq_loop.simps) auto
    next
      case True
      show ?thesis
      proof (cases "words c ! li = words rhs ! ri")
        case w: True
        have "cbv_eq_loop c rhs li ri =
            cbv_eq_loop c rhs (nextSetIndex c (li + 1)) (nextSetIndex rhs (ri + 1))"
          using in_range True w by (subst cbv_eq_loop.simps) (simp add: mult.commute add.commute)
        also have "\<dots> = (tail_bits c (Suc li) = tail_bits rhs (Suc ri))"
          using "1.IH" [OF in_range _ "1.prems"(1,2)] True w nextSetIndex_spec [of "li + 1" c]
            nextSetIndex_spec [of "ri + 1" rhs]
          by (simp add: tail_bits_next mult.commute add.commute)
        finally show ?thesis
          using tail_bits_eq_split [OF True] in_range w by simp
      next
        case False
        then show ?thesis
          using tail_bits_eq_split [OF True] in_range by (subst cbv_eq_loop.simps) simp
      qed
    qed
  next
    case out: False
    have ne: "tail_bits a i \<noteq> {}" if "i < length (words a)" "words a ! i \<noteq> 0" for a i
      using that tail_bits_neq [of i a "a\<lparr>words := []\<rparr>" "Suc i"]
      by (simp add: tail_bits_end)
    show ?thesis
      using out ne "1.prems"(3,4) tail_bits_end
      by (subst cbv_eq_loop.simps) (metis not_less)
  qed
qed

lemma cbv_eq_bits:
  assumes "cbv_inv c" "cbv_inv rhs"
  shows "cbv_eq c rhs \<longleftrightarrow> cbv_bits c = cbv_bits rhs"
  using cbv_eq_loop_correct [OF assms] nextSetIndex_spec [of 0 c] nextSetIndex_spec [of 0 rhs]
  by (simp add: cbv_eq_def tail_bits_next)

lemma cbv_contains_bits:
  assumes "cbv_inv c" "cbv_inv rhs"
  shows "cbv_contains c rhs = Some (cbv_bits rhs \<subseteq> cbv_bits c)"
proof -
  obtain ch c' where "cbv_and_assign c rhs = Some (ch, c')" "cbv_inv c'"
    "cbv_bits c' = cbv_bits c \<inter> cbv_bits rhs"
    using cbv_and_assign_spec [OF assms] by blast
  then show ?thesis using cbv_eq_bits [of c' rhs] assms by (auto simp: cbv_contains_def)
qed

lemma share_words_wbit: "share_words es ls \<longleftrightarrow> (\<exists>n. wbit es n \<and> wbit ls n)"
proof (induction es ls rule: share_words.induct)
  case (1 e es l ls)
  have split: "(\<exists>n. P n) \<longleftrightarrow> (\<exists>n < 64. P n) \<or> (\<exists>n. P (n + 64))" for P :: "nat \<Rightarrow> bool"
    by (metis add.commute le_Suc_ex not_less)
  show ?case
    by (subst split) (auto simp: 1 wbit_Cons machine_word_nonzero bit_and_iff)
qed auto

lemma share_words_overlap:
  assumes "cbv_inv E" "cbv_inv L" "offset E \<le> offset L"
  shows "share_words (drop (min (offset L div 64 - offset E div 64) (length (words E))) (words E))
           (words L) \<longleftrightarrow> cbv_bits E \<inter> cbv_bits L \<noteq> {}"
proof -
  define lo where "lo = offset L div 64 - offset E div 64"
  have "64 * (offset L div 64) = offset L" "64 * (offset E div 64) = offset E"
    using assms(1,2) by (auto simp: cbv_inv_def)
  then have lo: "64 * lo = offset L - offset E" by (simp add: lo_def diff_mult_distrib2)
  have "drop (min lo (length (words E))) (words E) = drop lo (words E)"
    by (simp add: min_def)
  moreover have "share_words (drop lo (words E)) (words L) \<longleftrightarrow>
      (\<exists>n. offset L + n \<in> cbv_bits E \<and> offset L + n \<in> cbv_bits L)"
    using lo assms(3) by (simp add: share_words_wbit wbit_drop cbv_bits_def)
  moreover have "\<dots> \<longleftrightarrow> cbv_bits E \<inter> cbv_bits L \<noteq> {}"
    using le_Suc_ex cbv_bits_bound [of _ L] by blast
  ultimately show ?thesis by (simp add: lo_def)
qed

lemma cbv_intersects_bits:
  assumes "cbv_inv c" "cbv_inv rhs"
  shows "cbv_intersects c rhs \<longleftrightarrow> cbv_bits c \<inter> cbv_bits rhs \<noteq> {}"
proof (cases "offset c \<le> offset rhs")
  case True
  then show ?thesis
    using share_words_overlap [OF assms True]
    by (auto simp: cbv_intersects_def Let_def cbv_empty_bits not_less le_less)
next
  case False
  then have "offset rhs \<le> offset c" by simp
  from share_words_overlap [OF assms(2,1) this] False show ?thesis
    by (auto simp: cbv_intersects_def Let_def cbv_empty_bits)
qed


section \<open>Iteration visits exactly the set bits, in increasing order\<close>

lemma find_bit_spec:
  "b \<le> 64 \<Longrightarrow> b \<le> find_bit w b \<and> find_bit w b \<le> 64 \<and>
   (\<forall>j. b \<le> j \<and> j < find_bit w b \<longrightarrow> \<not> bit w j) \<and> (find_bit w b < 64 \<longrightarrow> bit w (find_bit w b))"
proof (induction w b rule: find_bit.induct)
  case (1 w b)
  have mask: "w AND push_bit b 1 = 0 \<longleftrightarrow> \<not> bit w b" if "b < 64"
    using and_mask_nonzero [of w b] that unfolding bit_mask_def mod_less [OF that] by blast
  show ?case
  proof (cases "b < 64 \<and> w AND push_bit b 1 = 0")
    case True
    then have "find_bit w b = find_bit w (Suc b)" by (subst find_bit.simps) simp
    then show ?thesis
      using 1 True mask by (auto simp: Suc_le_eq order.order_iff_strict [of b])
  next
    case False
    then have "find_bit w b = b" by (subst find_bit.simps) auto
    then show ?thesis using False 1 mask by auto
  qed
qed

lemma drop_bit_zero: "drop_bit b (w :: machine_word) = 0 \<longleftrightarrow> (\<forall>j \<ge> b. \<not> bit w j)"
proof -
  have "bit w (b + j) \<Longrightarrow> j < 64" for j using bit_word_lt [of w "b + j"] by simp
  then have "drop_bit b w = 0 \<longleftrightarrow> (\<forall>j. \<not> bit w (b + j))"
    by (auto simp: machine_word_eq_iff bit_drop_bit_eq)
  then show ?thesis by (metis le_Suc_ex le_add1)
qed

abbreviation it_pos :: "cbv_iter \<Rightarrow> nat" where
  "it_pos it \<equiv> 64 * wordIt it + itbit it"

text \<open>A legal iterator is the end, or stands on a set bit.\<close>

definition it_good :: "cbv \<Rightarrow> cbv_iter \<Rightarrow> bool" where
  "it_good c it \<longleftrightarrow> (wordIt it = length (words c) \<and> itbit it = 0) \<or>
     (wordIt it < length (words c) \<and> itbit it < 64 \<and> wbit (words c) (it_pos it))"

lemma it_next_spec:
  assumes "wordIt it < length (words c)" "itbit it < 64"
  shows "it_good c (it_next c it)" "it_pos it < it_pos (it_next c it)"
    "\<And>n. it_pos it < n \<Longrightarrow> n < it_pos (it_next c it) \<Longrightarrow> \<not> wbit (words c) n"
proof -
  define i b where "i = wordIt it" and "b = itbit it + 1"
  have i: "i < length (words c)" and b: "0 < b" "b \<le> 64" using assms by (simp_all add: i_def b_def)
  have pos: "it_pos it = 64 * i + b - 1" by (simp add: i_def b_def)
  have blk: "wbit (words c) n \<longleftrightarrow> bit (words c ! k) (n - 64 * k)"
    if "k < length (words c)" "64 * k \<le> n" "n < 64 * k + 64" for n k
    using wbit_nth [OF that(1), of "n - 64 * k"] that by simp
  have "it_good c (it_next c it) \<and> it_pos it < it_pos (it_next c it) \<and>
    (\<forall>n. it_pos it < n \<and> n < it_pos (it_next c it) \<longrightarrow> \<not> wbit (words c) n)"
  proof (cases "b = 64 \<or> drop_bit b (words c ! i) = 0")
    case True
    define j where "j = nextSetIndex c (i + 1)"
    define m where "m = (if j \<noteq> length (words c) then find_bit (words c ! j) 0 else 0)"
    have nxt: "it_next c it = \<lparr>wordIt = j, itbit = m\<rparr>"
      using True by (simp add: it_next_def Let_def j_def m_def i_def b_def)
    have j: "i + 1 \<le> j" "j \<le> length (words c)" "j < length (words c) \<Longrightarrow> words c ! j \<noteq> 0"
        "\<And>k. i + 1 \<le> k \<Longrightarrow> k < j \<Longrightarrow> words c ! k = 0"
      using nextSetIndex_spec [of "i + 1" c] nextSetIndex_ge [of "i + 1" c] i by (auto simp: j_def)
    have m: "j = length (words c) \<and> m = 0 \<or>
        j < length (words c) \<and> m < 64 \<and> bit (words c ! j) m \<and> (\<forall>k < m. \<not> bit (words c ! j) k)"
    proof (cases "j = length (words c)")
      case False
      then obtain k where "k < 64" "bit (words c ! j) k"
        using j(2,3) by (auto simp: machine_word_nonzero)
      then have "find_bit (words c ! j) 0 < 64"
        using find_bit_spec [of 0 "words c ! j"] by (metis le_less_linear le_less_trans le0 zero_le)
      then show ?thesis using find_bit_spec [of 0 "words c ! j"] False j(2) by (auto simp: m_def)
    qed (simp add: m_def)
    have clear: "\<not> wbit (words c) n" if n: "64 * i + b \<le> n" "n < 64 * j + m" for n
    proof -
      consider "n < 64 * i + 64" | "64 * (i + 1) \<le> n" "n < 64 * j" | "64 * j \<le> n"
        by fastforce
      then show ?thesis
      proof cases
        case 1
        then show ?thesis using True n blk [OF i, of n] by (auto simp: drop_bit_zero)
      next
        case 2
        then have "i + 1 \<le> n div 64" "n div 64 < j"
          by (auto simp: less_eq_div_iff_mult_less_eq div_less_iff_less_mult)
        then show ?thesis using j(4) by (auto simp: wbit_def)
      next
        case 3
        then show ?thesis using m n blk [of j n] by auto
      qed
    qed
    have "wbit (words c) (64 * j + m)" if "j < length (words c)"
      using m that wbit_nth [of j "words c" m] by auto
    then have "it_good c (it_next c it)"
      using m unfolding nxt it_good_def by auto
    then show ?thesis using clear j(1) b pos unfolding nxt by auto
  next
    case False
    define m where "m = find_bit (words c ! i) b"
    have nxt: "it_next c it = \<lparr>wordIt = i, itbit = m\<rparr>"
      using False i by (simp add: it_next_def Let_def m_def i_def b_def)
    obtain k where "b \<le> k" "bit (words c ! i) k" using False by (auto simp: drop_bit_zero)
    then have m: "b \<le> m" "m < 64" "bit (words c ! i) m" "\<forall>j. b \<le> j \<and> j < m \<longrightarrow> \<not> bit (words c ! i) j"
      using find_bit_spec [OF b(2), of "words c ! i"] bit_word_lt [of "words c ! i" k]
      unfolding m_def by (metis le_less_linear le_less_trans le_neq_implies_less)+
    have "\<not> wbit (words c) n" if "64 * i + b \<le> n" "n < 64 * i + m" for n
    proof -
      have "64 * i \<le> n" "n < 64 * i + 64" "b \<le> n - 64 * i" "n - 64 * i < m"
        using that m(2) by linarith+
      then show ?thesis using blk [OF i, of n] m(4) by simp
    qed
    moreover have "it_good c (it_next c it)"
      using m i wbit_nth [OF i m(2)] unfolding nxt it_good_def by simp
    ultimately show ?thesis using m(1) b pos unfolding nxt by auto
  qed
  then show "it_good c (it_next c it)" "it_pos it < it_pos (it_next c it)"
    "\<And>n. it_pos it < n \<Longrightarrow> n < it_pos (it_next c it) \<Longrightarrow> \<not> wbit (words c) n" by blast+
qed

lemma it_good_le: "it_good c it \<Longrightarrow> it_pos it \<le> 64 * length (words c)"
  by (auto simp: it_good_def)

lemma filter_upt_skip:
  assumes "a \<le> b" "b \<le> N" "\<And>n. a \<le> n \<Longrightarrow> n < b \<Longrightarrow> \<not> P n"
  shows "filter P [a..<N] = filter P [b..<N]"
proof -
  have "[a..<N] = [a..<b] @ [b..<N]"
    using upt_add_eq_append [of a b "N - b"] assms(1,2) by simp
  moreover have "filter P [a..<b] = []" using assms(3) by (simp add: filter_empty_conv)
  ultimately show ?thesis by simp
qed

lemma cbv_iterate_filter:
  assumes inv: "cbv_inv c" and good: "it_good c it"
  shows "cbv_iterate c it =
     Some (map (\<lambda>n. offset c + n) (filter (wbit (words c)) [it_pos it..<64 * length (words c)]))"
  using good
proof (induction "64 * length (words c) - it_pos it" arbitrary: it rule: less_induct)
  case less
  have e: "cbv_end c = \<lparr>wordIt = length (words c), itbit = 0\<rparr>"
    by (simp add: cbv_end_def it_make_def)
  show ?case
  proof (cases "wordIt it = length (words c)")
    case True
    then have "it_pos it = 64 * length (words c)" using less.prems by (auto simp: it_good_def)
    then show ?thesis using True
      by (subst cbv_iterate.simps) (simp add: it_neq_def it_eq_def e)
  next
    case False
    then have at: "wordIt it < length (words c)" "itbit it < 64" "wbit (words c) (it_pos it)"
      using less.prems by (auto simp: it_good_def)
    have lt: "it_pos it < 64 * length (words c)" using wbit_bound [OF at(3)] .
    note nx = it_next_spec [OF at(1,2)]
    have rec: "cbv_iterate c (it_next c it) = Some (map (\<lambda>n. offset c + n)
        (filter (wbit (words c)) [it_pos (it_next c it)..<64 * length (words c)]))"
      using nx(1,2) lt by (intro less.hyps) linarith+
    have "offset c + it_pos it < 2 ^ 32" using lt inv unfolding cbv_inv_def by linarith
    then have d: "it_deref c it = Some (offset c + it_pos it)"
      using False by (simp add: it_deref_def it_atEnd_def machine_simps ac_simps)
    have "filter (wbit (words c)) [it_pos it..<64 * length (words c)]
        = it_pos it # filter (wbit (words c)) [Suc (it_pos it)..<64 * length (words c)]"
      using lt at(3) by (simp add: upt_conv_Cons)
    also have "filter (wbit (words c)) [Suc (it_pos it)..<64 * length (words c)]
        = filter (wbit (words c)) [it_pos (it_next c it)..<64 * length (words c)]"
      using nx it_good_le [OF nx(1)] by (intro filter_upt_skip) auto
    finally show ?thesis
      using False d rec
      by (subst cbv_iterate.simps) (simp add: it_neq_def it_eq_def it_inc_def it_atEnd_def e)
  qed
qed

lemma cbv_begin_spec:
  "it_good c (cbv_begin c) \<and> (\<forall>n < it_pos (cbv_begin c). \<not> wbit (words c) n)"
proof -
  let ?it = "\<lparr>wordIt = 0, itbit = 0\<rparr> :: cbv_iter"
  have m: "words c ! 0 AND 1 = 0 \<longleftrightarrow> \<not> bit (words c ! 0) 0"
    using and_mask_nonzero [of "words c ! 0" 0] unfolding bit_mask_def by auto
  consider "words c = []" | "words c \<noteq> []" "bit (words c ! 0) 0" | "words c \<noteq> []" "\<not> bit (words c ! 0) 0"
    by blast
  then show ?thesis
  proof cases
    case 1
    then show ?thesis by (simp add: cbv_begin_def it_make_def it_good_def)
  next
    case 2
    then have "cbv_begin c = ?it" using m by (simp add: cbv_begin_def it_make_def)
    then show ?thesis using 2 by (simp add: it_good_def wbit_def)
  next
    case 3
    then have "cbv_begin c = it_next c ?it" using m by (simp add: cbv_begin_def it_make_def)
    moreover have "\<not> wbit (words c) 0" using 3 by (simp add: wbit_def)
    ultimately show ?thesis using it_next_spec [of ?it c] 3 by (metis cbv_iter.select_convs(1,2)
      add_0 length_greater_0_conv mult_0_right neq0_conv zero_less_numeral)
  qed
qed

lemma cbv_list_spec:
  assumes "cbv_inv c"
  shows "cbv_list c = Some (sorted_list_of_set (cbv_bits c))"
proof -
  let ?N = "64 * length (words c)"
  let ?l = "map (\<lambda>n. offset c + n) (filter (wbit (words c)) [0..<?N])"
  note b = cbv_begin_spec [of c]
  have "cbv_list c = Some ?l"
    using cbv_iterate_filter [OF assms] b it_good_le [of c "cbv_begin c"]
      filter_upt_skip [of 0 "it_pos (cbv_begin c)" ?N "wbit (words c)"]
    by (simp add: cbv_list_def)
  moreover have "sorted ?l" by (simp add: sorted_map sorted_wrt_filter)
  moreover have "distinct ?l" by (simp add: distinct_map)
  moreover have "set ?l = cbv_bits c"
    by (auto simp: cbv_bits_relative dest: wbit_bound)
  ultimately show ?thesis
    by (metis sorted_list_of_set.idem_if_sorted_distinct)
qed

section \<open>\<open>BitVector\<close>\<close>

lemma bv_new_spec:
  assumes "64 * n \<le> 2 ^ 32"
  shows "cbv_inv (bv_new n)" "cbv_bits (bv_new n) = {}" "offset (bv_new n) = 0"
    "words (bv_new n) \<noteq> []"
proof -
  note s = cbv_set_spec [OF cbv_inv_new [OF assms], of 0]
  show "cbv_inv (bv_new n)" "cbv_bits (bv_new n) = {}"
    using s cbv_reset_spec [of "cbv_set (cbv_new n) 0" 0] by (simp_all add: bv_new_def)
  have "offset (cbv_set (cbv_new n) 0) = 0 \<and> words (cbv_set (cbv_new n) 0) \<noteq> []"
    by (cases n) (simp_all add: cbv_set_def extendTo_def cbv_new_def Let_def u32_def)
  then show "offset (bv_new n) = 0" "words (bv_new n) \<noteq> []"
    by (auto simp: bv_new_def cbv_reset_def Let_def)
qed

end
