(* ===== verification/SparseBitVec.thy ===== *)
theory SparseBitVec
  imports Prelude
begin

text \<open>
  \<open>SparseBitVector\<close> (svf/include/Util/SparseBitVector.h): a list of 128-bit elements in
  increasing order of their index, with a cached position \<open>CurrElementIter\<close> from which
  the next linear search starts. Elements without a set bit are never kept. The loops over two
  element lists are recursions over what the two iterators have left; \<open>None\<close> is a failed
  \<open>assert\<close> (the code aborts).
\<close>

section \<open>Counting zeros\<close>

text \<open>
  \<open>TrailingZerosCounter::count\<close> for a 64-bit word: bisection with a shift and a mask that
  halve in every round.
\<close>

function ctz_loop :: "machine_word \<Rightarrow> nat \<Rightarrow> machine_word \<Rightarrow> nat \<Rightarrow> nat" where
  "ctz_loop Val Shift Mask ZeroBits =
     (if Shift \<noteq> 0 then
        let (Val, ZeroBits) = (if Val AND Mask = 0 then (drop_bit Shift Val, ZeroBits OR Shift)
                               else (Val, ZeroBits));
            Shift = Shift div 2
        in ctz_loop Val Shift (drop_bit Shift Mask) ZeroBits
      else ZeroBits)"
  by pat_completeness auto
termination
  by (relation "measure (\<lambda>(v, s, m, z). s)") auto

declare ctz_loop.simps [simp del]

definition countTrailingZeros :: "machine_word \<Rightarrow> nat" where
  "countTrailingZeros Val =
     (if Val = 0 then 64
      else if Val AND 1 \<noteq> 0 then 0
      else ctz_loop Val (64 div 2) (drop_bit (64 div 2) (NOT 0)) 0)"

text \<open>
  \<open>LeadingZerosCounter::count\<close>, the portable bisection of the header. (With GCC or Clang the
  64-bit case calls \<open>__builtin_clzll\<close> instead, which is the number of leading zeros.)
\<close>

function clz_loop :: "machine_word \<Rightarrow> nat \<Rightarrow> nat \<Rightarrow> nat" where
  "clz_loop Val Shift ZeroBits =
     (if Shift \<noteq> 0 then
        let Tmp = drop_bit Shift Val;
            (Val, ZeroBits) = (if Tmp \<noteq> 0 then (Tmp, ZeroBits) else (Val, ZeroBits OR Shift))
        in clz_loop Val (Shift div 2) ZeroBits
      else ZeroBits)"
  by pat_completeness auto
termination
  by (relation "measure (\<lambda>(v, s, z). s)") auto

declare clz_loop.simps [simp del]

definition countLeadingZeros :: "machine_word \<Rightarrow> nat" where
  "countLeadingZeros Val = (if Val = 0 then 64 else clz_loop Val (64 div 2) 0)"

section \<open>Elements\<close>

abbreviation (input) BITWORD_SIZE :: nat where "BITWORD_SIZE \<equiv> 64"
abbreviation (input) ElementSize :: nat where "ElementSize \<equiv> 128"
abbreviation (input) BITWORDS_PER_ELEMENT :: nat where "BITWORDS_PER_ELEMENT \<equiv> 2"

record sbve =
  ElementIndex :: nat
  Bits :: "machine_word list"

definition sbve_new :: "nat \<Rightarrow> sbve" where
  "sbve_new idx = \<lparr>ElementIndex = idx, Bits = replicate BITWORDS_PER_ELEMENT 0\<rparr>"

definition sbve_eq :: "sbve \<Rightarrow> sbve \<Rightarrow> bool" where
  "sbve_eq e rhs =
     (if ElementIndex e \<noteq> ElementIndex rhs then False
      else list_all (\<lambda>i. Bits e ! i = Bits rhs ! i) [0..<BITWORDS_PER_ELEMENT])"

definition sbve_word :: "sbve \<Rightarrow> nat \<Rightarrow> machine_word option" where
  "sbve_word e i = (if i < BITWORDS_PER_ELEMENT then Some (Bits e ! i) else None)"

definition sbve_empty :: "sbve \<Rightarrow> bool" where
  "sbve_empty e = list_all (\<lambda>i. Bits e ! i = 0) [0..<BITWORDS_PER_ELEMENT]"

definition sbve_set :: "sbve \<Rightarrow> nat \<Rightarrow> sbve" where
  "sbve_set e idx =
     e\<lparr>Bits := (Bits e)[idx div BITWORD_SIZE := Bits e ! (idx div BITWORD_SIZE) OR bit_mask idx]\<rparr>"

definition sbve_test :: "sbve \<Rightarrow> nat \<Rightarrow> bool" where
  "sbve_test e idx \<longleftrightarrow> Bits e ! (idx div BITWORD_SIZE) AND bit_mask idx \<noteq> 0"

definition sbve_test_and_set :: "sbve \<Rightarrow> nat \<Rightarrow> bool \<times> sbve" where
  "sbve_test_and_set e idx = (if \<not> sbve_test e idx then (True, sbve_set e idx) else (False, e))"

definition sbve_reset :: "sbve \<Rightarrow> nat \<Rightarrow> sbve" where
  "sbve_reset e idx =
     e\<lparr>Bits := (Bits e)[idx div BITWORD_SIZE :=
         Bits e ! (idx div BITWORD_SIZE) AND NOT (bit_mask idx)]\<rparr>"

definition sbve_count :: "sbve \<Rightarrow> nat" where
  "sbve_count e = fold (\<lambda>i n. n + popcount (Bits e ! i)) [0..<BITWORDS_PER_ELEMENT] 0"

text \<open>The first word with a set bit at or after word \<open>i\<close>, as a bit position.\<close>

fun first_bit_from :: "sbve \<Rightarrow> nat list \<Rightarrow> nat option" where
  "first_bit_from e [] = None"
| "first_bit_from e (i # is) =
     (if Bits e ! i \<noteq> 0 then Some (i * BITWORD_SIZE + countTrailingZeros (Bits e ! i))
      else first_bit_from e is)"

definition sbve_find_first :: "sbve \<Rightarrow> nat option" where
  "sbve_find_first e = first_bit_from e [0..<BITWORDS_PER_ELEMENT]"

fun last_bit_from :: "sbve \<Rightarrow> nat list \<Rightarrow> nat option" where
  "last_bit_from e [] = None"
| "last_bit_from e (i # is) =
     (let idx = BITWORDS_PER_ELEMENT - i - 1 in
      if Bits e ! idx \<noteq> 0
      then Some (idx * BITWORD_SIZE + BITWORD_SIZE - countLeadingZeros (Bits e ! idx) - 1)
      else last_bit_from e is)"

definition sbve_find_last :: "sbve \<Rightarrow> nat option" where
  "sbve_find_last e = last_bit_from e [0..<BITWORDS_PER_ELEMENT]"

definition sbve_find_next :: "sbve \<Rightarrow> nat \<Rightarrow> int" where
  "sbve_find_next e cur =
     (if cur \<ge> ElementSize then -1
      else
        let wordPos = cur div BITWORD_SIZE;
            bitPos = cur mod BITWORD_SIZE;
            copy = Bits e ! wordPos AND push_bit bitPos (NOT 0)
        in if copy \<noteq> 0 then int (wordPos * BITWORD_SIZE + countTrailingZeros copy)
           else case first_bit_from e [wordPos + 1..<BITWORDS_PER_ELEMENT] of
                  Some b \<Rightarrow> int b
                | None \<Rightarrow> -1)"

text \<open>
  The loop of \<open>unionWith\<close>, \<open>intersectWith\<close> and \<open>intersectWithComplement\<close>:
  \<open>f\<close> is the word operation, \<open>ch\<close> and \<open>az\<close> the flags \<open>changed\<close> and
  \<open>allzero\<close>.
\<close>

fun elem_loop :: "(machine_word \<Rightarrow> machine_word \<Rightarrow> machine_word) \<Rightarrow> machine_word list \<Rightarrow>
    machine_word list \<Rightarrow> bool \<Rightarrow> bool \<Rightarrow> bool \<times> bool \<times> machine_word list" where
  "elem_loop f (t # ts) (r # rs) ch az =
     (let old = (if ch then 0 else t);
          t' = f t r;
          az = (if t' \<noteq> 0 then False else az);
          ch = (if \<not> ch \<and> old \<noteq> t' then True else ch);
          (ch', az', ts') = elem_loop f ts rs ch az
      in (ch', az', t' # ts'))"
| "elem_loop f ts _ ch az = (ch, az, ts)"

definition unionWith :: "sbve \<Rightarrow> sbve \<Rightarrow> bool \<times> sbve" where
  "unionWith e rhs =
     (let (ch, _, bs) = elem_loop (OR) (Bits e) (Bits rhs) False True in (ch, e\<lparr>Bits := bs\<rparr>))"

definition sbve_intersects :: "sbve \<Rightarrow> sbve \<Rightarrow> bool" where
  "sbve_intersects e rhs =
     list_ex (\<lambda>i. Bits rhs ! i AND Bits e ! i \<noteq> 0) [0..<BITWORDS_PER_ELEMENT]"

text \<open>The results are \<open>(changed, BecameZero, element)\<close>.\<close>

definition intersectWith :: "sbve \<Rightarrow> sbve \<Rightarrow> bool \<times> bool \<times> sbve" where
  "intersectWith e rhs =
     (let (ch, az, bs) = elem_loop (AND) (Bits e) (Bits rhs) False True in (ch, az, e\<lparr>Bits := bs\<rparr>))"

definition sbve_intersectWithComplement :: "sbve \<Rightarrow> sbve \<Rightarrow> bool \<times> bool \<times> sbve" where
  "sbve_intersectWithComplement e rhs =
     (let (ch, az, bs) = elem_loop (\<lambda>t r. t AND NOT r) (Bits e) (Bits rhs) False True
      in (ch, az, e\<lparr>Bits := bs\<rparr>))"

definition sbve_intersectWithComplement2 :: "sbve \<Rightarrow> sbve \<Rightarrow> sbve \<Rightarrow> bool \<times> sbve" where
  "sbve_intersectWithComplement2 e rhs1 rhs2 =
     (let (_, az, bs) = elem_loop (\<lambda>t r. t AND NOT r) (Bits rhs1) (Bits rhs2) False True
      in (az, e\<lparr>Bits := bs\<rparr>))"

section \<open>The bit vector\<close>

text \<open>\<open>CurrElementIter\<close> is a position in the list; the length of the list is \<open>end()\<close>.\<close>

record sbv =
  Elements :: "sbve list"
  CurrElementIter :: nat

definition sbv_new :: sbv where
  "sbv_new = \<lparr>Elements = [], CurrElementIter = 0\<rparr>"

definition sbv_copy :: "sbv \<Rightarrow> sbv" where
  "sbv_copy rhs = \<lparr>Elements = Elements rhs, CurrElementIter = 0\<rparr>"

definition sbv_clear :: "sbv \<Rightarrow> sbv" where
  "sbv_clear s = s\<lparr>Elements := []\<rparr>"

fun walk_back :: "sbve list \<Rightarrow> nat \<Rightarrow> nat \<Rightarrow> nat" where
  "walk_back es idx 0 = 0"
| "walk_back es idx (Suc p) =
     (if ElementIndex (es ! Suc p) > idx then walk_back es idx p else Suc p)"

function walk_forward :: "sbve list \<Rightarrow> nat \<Rightarrow> nat \<Rightarrow> nat" where
  "walk_forward es idx p =
     (if p < length es \<and> ElementIndex (es ! p) < idx then walk_forward es idx (Suc p) else p)"
  by pat_completeness auto
termination
  by (relation "measure (\<lambda>(es, idx, p). length es - p)") auto

declare walk_forward.simps [simp del]

text \<open>The position found, which is also the new \<open>CurrElementIter\<close>.\<close>

definition FindLowerBound :: "sbv \<Rightarrow> nat \<Rightarrow> nat" where
  "FindLowerBound s idx =
     (let es = Elements s in
      if es = [] then 0
      else
        let cur = (if CurrElementIter s = length es then CurrElementIter s - 1 else CurrElementIter s) in
        if ElementIndex (es ! cur) = idx then cur
        else if ElementIndex (es ! cur) > idx then walk_back es idx cur
        else walk_forward es idx cur)"

text \<open>\<open>test\<close> is \<open>const\<close> but moves the cached position.\<close>

definition sbv_test :: "sbv \<Rightarrow> nat \<Rightarrow> bool \<times> sbv" where
  "sbv_test s idx =
     (if Elements s = [] then (False, s)
      else
        let elementIndex = idx div ElementSize;
            p = FindLowerBound s elementIndex;
            s = s\<lparr>CurrElementIter := p\<rparr>
        in if p = length (Elements s) \<or> ElementIndex (Elements s ! p) \<noteq> elementIndex then (False, s)
           else (sbve_test (Elements s ! p) (idx mod ElementSize), s))"

definition list_erase :: "'a list \<Rightarrow> nat \<Rightarrow> 'a list" where
  "list_erase xs p = take p xs @ drop (Suc p) xs"

definition list_emplace :: "'a list \<Rightarrow> nat \<Rightarrow> 'a \<Rightarrow> 'a list" where
  "list_emplace xs p x = take p xs @ x # drop p xs"

definition sbv_reset :: "sbv \<Rightarrow> nat \<Rightarrow> sbv" where
  "sbv_reset s idx =
     (if Elements s = [] then s
      else
        let elementIndex = idx div ElementSize;
            p = FindLowerBound s elementIndex;
            s = s\<lparr>CurrElementIter := p\<rparr>
        in if p = length (Elements s) \<or> ElementIndex (Elements s ! p) \<noteq> elementIndex then s
           else
             let e = sbve_reset (Elements s ! p) (idx mod ElementSize) in
             if sbve_empty e
             then s\<lparr>Elements := list_erase (Elements s) p\<rparr>
             else s\<lparr>Elements := (Elements s)[p := e]\<rparr>)"

definition sbv_set :: "sbv \<Rightarrow> nat \<Rightarrow> sbv" where
  "sbv_set s idx =
     (let elementIndex = idx div ElementSize;
          (es, p) =
            (if Elements s = [] then ([sbve_new elementIndex], 0)
             else
               let p = FindLowerBound s elementIndex in
               if p = length (Elements s) \<or> ElementIndex (Elements s ! p) \<noteq> elementIndex
               then
                 let p = (if p \<noteq> length (Elements s) \<and> ElementIndex (Elements s ! p) < elementIndex
                          then p + 1 else p)
                 in (list_emplace (Elements s) p (sbve_new elementIndex), p)
               else (Elements s, p))
      in s\<lparr>Elements := es[p := sbve_set (es ! p) (idx mod ElementSize)], CurrElementIter := p\<rparr>)"

definition sbv_test_and_set :: "sbv \<Rightarrow> nat \<Rightarrow> bool \<times> sbv" where
  "sbv_test_and_set s idx =
     (let (old, s) = sbv_test s idx in if \<not> old then (True, sbv_set s idx) else (False, s))"

fun eq_elems :: "sbve list \<Rightarrow> sbve list \<Rightarrow> bool" where
  "eq_elems (x # xs) (y # ys) = (if \<not> sbve_eq x y then False else eq_elems xs ys)"
| "eq_elems xs ys = (xs = [] \<and> ys = [])"

definition sbv_eq :: "sbv \<Rightarrow> sbv \<Rightarrow> bool" where
  "sbv_eq s rhs = eq_elems (Elements s) (Elements rhs)"

fun or_elems :: "sbve list \<Rightarrow> sbve list \<Rightarrow> bool \<Rightarrow> bool \<times> sbve list" where
  "or_elems xs [] ch = (ch, xs)"
| "or_elems [] (y # ys) ch = (let (ch', r) = or_elems [] ys True in (ch', y # r))"
| "or_elems (x # xs) (y # ys) ch =
     (if ElementIndex x > ElementIndex y
      then let (ch', r) = or_elems (x # xs) ys True in (ch', y # r)
      else if ElementIndex x = ElementIndex y
      then let (c, x') = unionWith x y; (ch', r) = or_elems xs ys (ch \<or> c) in (ch', x' # r)
      else let (ch', r) = or_elems xs (y # ys) ch in (ch', x # r))"

definition sbv_or_assign :: "sbv \<Rightarrow> sbv \<Rightarrow> bool \<times> sbv" where
  "sbv_or_assign s rhs =
     (if Elements rhs = [] then (False, s)
      else let (ch, es) = or_elems (Elements s) (Elements rhs) False
           in (ch, s\<lparr>Elements := es, CurrElementIter := 0\<rparr>))"

fun and_elems :: "sbve list \<Rightarrow> sbve list \<Rightarrow> bool \<Rightarrow> bool \<times> sbve list" where
  "and_elems [] _ ch = (ch, [])"
| "and_elems (x # xs) [] ch = (True, [])"
| "and_elems (x # xs) (y # ys) ch =
     (if ElementIndex x > ElementIndex y then and_elems (x # xs) ys ch
      else if ElementIndex x = ElementIndex y
      then let (c, becameZero, x') = intersectWith x y;
               (ch', r) = and_elems xs ys (ch \<or> c)
           in (ch', if becameZero then r else x' # r)
      else and_elems xs (y # ys) True)"

definition sbv_and_assign :: "sbv \<Rightarrow> sbv \<Rightarrow> bool \<times> sbv" where
  "sbv_and_assign s rhs =
     (if Elements s = [] \<and> Elements rhs = [] then (False, s)
      else let (ch, es) = and_elems (Elements s) (Elements rhs) False
           in (ch, s\<lparr>Elements := es, CurrElementIter := 0\<rparr>))"

fun minus_elems :: "sbve list \<Rightarrow> sbve list \<Rightarrow> bool \<Rightarrow> bool \<times> sbve list" where
  "minus_elems [] _ ch = (ch, [])"
| "minus_elems xs [] ch = (ch, xs)"
| "minus_elems (x # xs) (y # ys) ch =
     (if ElementIndex x > ElementIndex y then minus_elems (x # xs) ys ch
      else if ElementIndex x = ElementIndex y
      then let (c, becameZero, x') = sbve_intersectWithComplement x y;
               (ch', r) = minus_elems xs ys (ch \<or> c)
           in (ch', if becameZero then r else x' # r)
      else let (ch', r) = minus_elems xs (y # ys) ch in (ch', x # r))"

definition sbv_intersectWithComplement :: "sbv \<Rightarrow> sbv \<Rightarrow> bool \<times> sbv" where
  "sbv_intersectWithComplement s rhs =
     (if Elements s = [] \<or> Elements rhs = [] then (False, s)
      else let (ch, es) = minus_elems (Elements s) (Elements rhs) False
           in (ch, s\<lparr>Elements := es, CurrElementIter := 0\<rparr>))"

text \<open>The three-argument version builds the list afresh.\<close>

fun minus2_elems :: "sbve list \<Rightarrow> sbve list \<Rightarrow> sbve list" where
  "minus2_elems [] _ = []"
| "minus2_elems xs [] = xs"
| "minus2_elems (x # xs) (y # ys) =
     (if ElementIndex x > ElementIndex y then minus2_elems (x # xs) ys
      else if ElementIndex x = ElementIndex y
      then let (becameZero, e) = sbve_intersectWithComplement2 (sbve_new (ElementIndex x)) x y;
               r = minus2_elems xs ys
           in (if becameZero then r else e # r)
      else x # minus2_elems xs (y # ys))"

definition sbv_intersectWithComplement2 :: "sbv \<Rightarrow> sbv \<Rightarrow> sbv \<Rightarrow> sbv" where
  "sbv_intersectWithComplement2 s rhs1 rhs2 =
     (let es = minus2_elems (Elements rhs1) (Elements rhs2)
      in s\<lparr>Elements := es, CurrElementIter := length es\<rparr>)"

fun intersects_elems :: "sbve list \<Rightarrow> sbve list \<Rightarrow> bool" where
  "intersects_elems (x # xs) (y # ys) =
     (if ElementIndex x > ElementIndex y then intersects_elems (x # xs) ys
      else if ElementIndex x = ElementIndex y
      then if sbve_intersects x y then True else intersects_elems xs ys
      else intersects_elems xs (y # ys))"
| "intersects_elems _ _ = False"

definition sbv_intersects :: "sbv \<Rightarrow> sbv \<Rightarrow> bool" where
  "sbv_intersects s rhs =
     (if Elements s = [] \<and> Elements rhs = [] then False
      else intersects_elems (Elements s) (Elements rhs))"

definition sbv_contains :: "sbv \<Rightarrow> sbv \<Rightarrow> bool" where
  "sbv_contains s rhs = (let (_, result) = sbv_and_assign (sbv_copy s) rhs in sbv_eq result rhs)"

text \<open>An \<open>unsigned\<close> value returned as \<open>int\<close>.\<close>

definition to_int :: "nat \<Rightarrow> int" where
  "to_int n = (if u32 n < 2 ^ 31 then int (u32 n) else int (u32 n) - 2 ^ 32)"

definition sbv_find_first :: "sbv \<Rightarrow> int option" where
  "sbv_find_first s =
     (if Elements s = [] then Some (-1)
      else let first = hd (Elements s) in
           map_option (\<lambda>b. to_int (ElementIndex first * ElementSize + b)) (sbve_find_first first))"

definition sbv_find_last :: "sbv \<Rightarrow> int option" where
  "sbv_find_last s =
     (if Elements s = [] then Some (-1)
      else let lst = last (Elements s) in
           map_option (\<lambda>b. to_int (ElementIndex lst * ElementSize + b)) (sbve_find_last lst))"

definition sbv_empty :: "sbv \<Rightarrow> bool" where
  "sbv_empty s \<longleftrightarrow> Elements s = []"

definition sbv_count :: "sbv \<Rightarrow> nat" where
  "sbv_count s = fold (\<lambda>e n. u32 (n + sbve_count e)) (Elements s) 0"


section \<open>Iterator\<close>

record sbv_iter =
  AtEnd :: bool
  Iter :: nat
  BitNumber :: nat
  WordNumber :: nat
  ItBits :: machine_word

text \<open>Stand on the first set bit of element \<open>i\<close>; its \<open>find_first\<close> may abort.\<close>

definition iter_enter :: "sbv \<Rightarrow> sbv_iter \<Rightarrow> nat \<Rightarrow> sbv_iter option" where
  "iter_enter s it i =
     (let e = Elements s ! i in do {
        bitPos \<leftarrow> sbve_find_first e;
        let bitNumber = u32 (ElementIndex e * ElementSize + bitPos);
        let wordNumber = (bitNumber mod ElementSize) div BITWORD_SIZE;
        w \<leftarrow> sbve_word e wordNumber;
        Some (it\<lparr>Iter := i, BitNumber := bitNumber, WordNumber := wordNumber,
                 ItBits := drop_bit (bitPos mod BITWORD_SIZE) w\<rparr>)
      })"

definition AdvanceToFirstNonZero :: "sbv \<Rightarrow> sbv_iter \<Rightarrow> sbv_iter option" where
  "AdvanceToFirstNonZero s it =
     (if AtEnd it then Some it
      else if Elements s = [] then Some (it\<lparr>AtEnd := True\<rparr>)
      else iter_enter s it 0)"

function skip_clear_bits :: "machine_word \<Rightarrow> nat \<Rightarrow> machine_word \<times> nat" where
  "skip_clear_bits bits n =
     (if bits \<noteq> 0 \<and> bits AND 1 = 0 then skip_clear_bits (drop_bit 1 bits) (u32 (n + 1))
      else (bits, n))"
  by pat_completeness auto
termination
proof (relation "measure (\<lambda>(w, n). unat w)", goal_cases)
  case (2 bits n)
  then have "0 < unat bits" by (simp add: unat_gt_0)
  then show ?case by (simp add: drop_bit_eq_div unat_div)
qed simp

declare skip_clear_bits.simps [simp del]

definition AdvanceToNextNonZero_exhausted :: "sbv \<Rightarrow> sbv_iter \<Rightarrow> sbv_iter option" where
  "AdvanceToNextNonZero_exhausted s it =
     (let e = Elements s ! Iter it;
          nextSetBitNumber = sbve_find_next e (BitNumber it mod ElementSize)
      in if nextSetBitNumber = -1 \<or> BitNumber it mod ElementSize = 0
         then let it = it\<lparr>Iter := Iter it + 1, WordNumber := 0\<rparr> in
              if Iter it = length (Elements s) then Some (it\<lparr>AtEnd := True\<rparr>)
              else iter_enter s it (Iter it)
         else do {
           let b = nat nextSetBitNumber;
           let wordNumber = (b mod ElementSize) div BITWORD_SIZE;
           w \<leftarrow> sbve_word e wordNumber;
           Some (it\<lparr>WordNumber := wordNumber, ItBits := drop_bit (b mod BITWORD_SIZE) w,
                    BitNumber := u32 (ElementIndex e * ElementSize + b)\<rparr>)
         })"


definition AdvanceToNextNonZero :: "sbv \<Rightarrow> sbv_iter \<Rightarrow> sbv_iter option" where
  "AdvanceToNextNonZero s it =
     (if AtEnd it then Some it
      else
        let (bits, n) = skip_clear_bits (ItBits it) (BitNumber it);
            it = it\<lparr>ItBits := bits, BitNumber := n\<rparr>
        in if bits = 0 then AdvanceToNextNonZero_exhausted s it else Some it)"

definition sbv_iter_make :: "sbv \<Rightarrow> bool \<Rightarrow> sbv_iter option" where
  "sbv_iter_make s e =
     AdvanceToFirstNonZero s
       \<lparr>AtEnd = e, Iter = 0, BitNumber = 0, WordNumber = 2 ^ 32 - 1, ItBits = 0\<rparr>"

definition sbv_begin :: "sbv \<Rightarrow> sbv_iter option" where
  "sbv_begin s = sbv_iter_make s False"

definition sbv_end :: "sbv \<Rightarrow> sbv_iter option" where
  "sbv_end s = sbv_iter_make s True"

definition sbv_iter_inc :: "sbv \<Rightarrow> sbv_iter \<Rightarrow> sbv_iter option" where
  "sbv_iter_inc s it =
     AdvanceToNextNonZero s
       (it\<lparr>BitNumber := u32 (BitNumber it + 1), ItBits := drop_bit 1 (ItBits it)\<rparr>)"

definition sbv_iter_post_inc :: "sbv \<Rightarrow> sbv_iter \<Rightarrow> (sbv_iter \<times> sbv_iter) option" where
  "sbv_iter_post_inc s it = do { it' \<leftarrow> sbv_iter_inc s it; Some (it, it') }"

definition sbv_iter_deref :: "sbv_iter \<Rightarrow> nat" where
  "sbv_iter_deref it = BitNumber it"

definition sbv_iter_eq :: "sbv_iter \<Rightarrow> sbv_iter \<Rightarrow> bool" where
  "sbv_iter_eq it rhs =
     (if AtEnd it \<and> AtEnd rhs then True else AtEnd it = AtEnd rhs \<and> BitNumber rhs = BitNumber it)"

partial_function (option) sbv_iterate :: "sbv \<Rightarrow> sbv_iter \<Rightarrow> nat list option" where
  "sbv_iterate s it =
     do {
       e \<leftarrow> sbv_end s;
       if \<not> sbv_iter_eq it e
       then do {
         it' \<leftarrow> sbv_iter_inc s it;
         ns \<leftarrow> sbv_iterate s it';
         Some (sbv_iter_deref it # ns)
       }
       else Some []
     }"

definition sbv_list :: "sbv \<Rightarrow> nat list option" where
  "sbv_list s = do { it \<leftarrow> sbv_begin s; sbv_iterate s it }"

section \<open>Counting zeros is right\<close>

lemma and_mask_zero: "w AND mask s = 0 \<longleftrightarrow> (\<forall>j < s. \<not> bit w j)" for w :: machine_word
proof -
  have "bit (w AND mask s) j \<longleftrightarrow> bit w j \<and> j < s" for j
    by (auto simp: bit_and_iff bit_mask_iff dest: bit_word_lt)
  then show ?thesis by (auto simp: machine_word_eq_iff dest: bit_word_lt)
qed

lemma drop_bit_mask_half: "s \<le> 32 \<Longrightarrow> drop_bit s (mask (2 * s)) = (mask s :: machine_word)"
  by (rule machine_word_eqI) (auto simp: bit_drop_bit_eq bit_mask_iff)

lemma or_fresh_bit:
  assumes "2 ^ Suc k dvd z" shows "z OR 2 ^ k = z + (2 ^ k :: nat)"
proof -
  obtain q where "z = 2 ^ k * (2 * q)" using assms by (auto elim: dvdE)
  then have "\<not> bit z k" by (simp add: bit_iff_odd)
  then have "z AND 2 ^ k = 0" by (simp add: and_exp_eq_0_iff_not_bit)
  then show ?thesis using disjunctive_add_eq_or [of z "2 ^ k"] by simp
qed

lemma ctz_loop_stop: "ctz_loop w 0 m z = z"
  by (subst ctz_loop.simps) simp

text \<open>
  One round: the lowest set bit \<open>l\<close> of the value is below \<open>2 * s\<close>; the round halves
  the bound and moves a skipped half to the result.
\<close>

lemma ctz_loop_correct:
  assumes "bit v l" "\<forall>j < l. \<not> bit v j" "l < 2 * 2 ^ k" "2 ^ Suc k dvd zb" "k \<le> 5"
  shows "ctz_loop v (2 ^ k) (mask (2 ^ k)) zb = zb + l"
  using assms
proof (induction k arbitrary: v l zb)
  case 0
  then have l: "l = 0 \<or> l = 1" by auto
  have m: "v AND mask (2 ^ 0) = 0 \<longleftrightarrow> l = 1"
    using and_mask_zero [of v "2 ^ 0"] 0 l by auto
  have "zb OR 2 ^ 0 = zb + 2 ^ 0" using 0 by (intro or_fresh_bit) simp
  then show ?case using l m by (subst ctz_loop.simps) (auto simp: ctz_loop_stop simp del: mask_Suc_0)
next
  case (Suc k)
  let ?s = "2 ^ Suc k :: nat"
  have "(2 :: nat) ^ k \<le> 2 ^ 5" by (rule power_increasing) (use Suc.prems(5) in auto)
  then have dm: "drop_bit (2 ^ k) (mask ?s) = (mask (2 ^ k) :: machine_word)"
    using drop_bit_mask_half [of "2 ^ k"] by simp
  have unfold: "ctz_loop v ?s (mask ?s) zb =
      (if \<forall>j < ?s. \<not> bit v j then ctz_loop (drop_bit ?s v) (2 ^ k) (mask (2 ^ k)) (zb OR ?s)
       else ctz_loop v (2 ^ k) (mask (2 ^ k)) zb)"
    using and_mask_zero [of v ?s] dm by (subst ctz_loop.simps) (auto simp: Let_def)
  show ?case
  proof (cases "\<forall>j < ?s. \<not> bit v j")
    case True
    then have ge: "?s \<le> l" using Suc.prems(1) not_less by blast
    have or: "zb OR ?s = zb + ?s" using Suc.prems(4) by (rule or_fresh_bit)
    have "ctz_loop (drop_bit ?s v) (2 ^ k) (mask (2 ^ k)) (zb + ?s) = zb + ?s + (l - ?s)"
    proof (rule Suc.IH)
      show "2 ^ Suc k dvd zb + ?s" using Suc.prems(4) by (intro dvd_add) (auto intro: dvd_trans [rotated])
    qed (use Suc.prems ge in \<open>auto simp: bit_drop_bit_eq\<close>)
    then show ?thesis using unfold True or ge by simp
  next
    case False
    then have "l < ?s" using Suc.prems(2) by (meson less_le_trans not_less)
    moreover have "2 ^ Suc k dvd zb" using Suc.prems(4) by (auto intro: dvd_trans [rotated])
    ultimately show ?thesis using unfold False Suc by auto
  qed
qed

lemma ctz_correct:
  assumes "v \<noteq> 0"
  shows "bit v (countTrailingZeros v) \<and> (\<forall>j < countTrailingZeros v. \<not> bit v j)"
proof -
  define l where "l = (LEAST j. bit v j)"
  obtain j where "bit v j" using assms by (auto simp: machine_word_nonzero)
  then have l: "bit v l" "\<forall>j < l. \<not> bit v j"
    unfolding l_def by (auto intro: LeastI dest: not_less_Least)
  then have "l < 64" by (auto dest: bit_word_lt)
  have full: "drop_bit 32 (NOT 0) = (mask (2 ^ 5) :: machine_word)"
    by (rule machine_word_eqI) (auto simp: bit_drop_bit_eq bit_mask_iff bit_not_iff)
  have "v AND 1 \<noteq> 0 \<longleftrightarrow> bit v 0"
    using and_mask_zero [of v 1] by simp
  then have "countTrailingZeros v = l"
    using ctz_loop_correct [OF l, of 5 0] \<open>l < 64\<close> l assms full
    by (auto simp: countTrailingZeros_def)
  then show ?thesis using l by simp
qed

lemma ctz_unique: "bit v l \<Longrightarrow> \<forall>j < l. \<not> bit v j \<Longrightarrow> countTrailingZeros v = l"
  using ctz_correct [of v] by (metis bit_0_eq bot_apply bot_bool_def linorder_neqE_nat)

lemma clz_loop_stop: "clz_loop w 0 z = z"
  by (subst clz_loop.simps) simp

lemma clz_loop_correct:
  assumes "bit v h" "\<forall>j > h. \<not> bit v j" "h < 2 * 2 ^ k" "2 ^ Suc k dvd zb"
  shows "clz_loop v (2 ^ k) zb = zb + (2 * 2 ^ k - 1 - h)"
  using assms
proof (induction k arbitrary: v h zb)
  case 0
  then have h: "h = 0 \<or> h = 1" by auto
  have "drop_bit 1 v \<noteq> 0 \<longleftrightarrow> h = 1"
  proof
    assume "drop_bit 1 v \<noteq> 0"
    then obtain j where "bit v (1 + j)" by (auto simp: bit_eq_iff bit_drop_bit_eq)
    then show "h = 1" using 0 h by auto
  next
    assume "h = 1"
    then have "bit (drop_bit 1 v) 0" using 0 by (simp add: bit_drop_bit_eq)
    then show "drop_bit 1 v \<noteq> 0" by auto
  qed
  moreover have "zb OR 2 ^ 0 = zb + 2 ^ 0" using 0 by (intro or_fresh_bit) simp
  ultimately show ?case using h by (subst clz_loop.simps) (auto simp: clz_loop_stop Let_def)
next
  case (Suc k)
  let ?s = "2 ^ Suc k :: nat"
  have top: "drop_bit ?s v \<noteq> 0 \<longleftrightarrow> ?s \<le> h"
  proof
    assume "drop_bit ?s v \<noteq> 0"
    then obtain j where "bit v (?s + j)" by (auto simp: bit_eq_iff bit_drop_bit_eq)
    then have "?s + j \<le> h" using Suc.prems(2) not_less by blast
    then show "?s \<le> h" by simp
  next
    assume "?s \<le> h"
    then have "bit (drop_bit ?s v) (h - ?s)" using Suc.prems(1) by (simp add: bit_drop_bit_eq)
    then show "drop_bit ?s v \<noteq> 0" by auto
  qed
  have unfold: "clz_loop v ?s zb =
      (if ?s \<le> h then clz_loop (drop_bit ?s v) (2 ^ k) zb else clz_loop v (2 ^ k) (zb OR ?s))"
    using top by (subst clz_loop.simps) (simp add: Let_def)
  show ?case
  proof (cases "?s \<le> h")
    case True
    have "clz_loop (drop_bit ?s v) (2 ^ k) zb = zb + (2 * 2 ^ k - 1 - (h - ?s))"
      using Suc.prems True
      by (intro Suc.IH) (auto simp: bit_drop_bit_eq intro: dvd_trans [rotated])
    then show ?thesis using unfold True Suc.prems(3) by simp
  next
    case False
    have or: "zb OR ?s = zb + ?s" using Suc.prems(4) by (rule or_fresh_bit)
    have "clz_loop v (2 ^ k) (zb + ?s) = zb + ?s + (2 * 2 ^ k - 1 - h)"
    proof (rule Suc.IH)
      show "2 ^ Suc k dvd zb + ?s" using Suc.prems(4) by (intro dvd_add) (auto intro: dvd_trans [rotated])
    qed (use Suc.prems False in auto)
    then show ?thesis using unfold False or by simp
  qed
qed

lemma clz_correct:
  assumes "bit v h" "\<forall>j > h. \<not> bit v j"
  shows "countLeadingZeros v = 63 - h"
proof -
  have "v \<noteq> 0" "h < 64" using assms bit_word_lt by auto
  then show ?thesis
    using clz_loop_correct [OF assms, of 5 0] by (simp add: countLeadingZeros_def)
qed


section \<open>Elements as sets of bits\<close>

definition sbve_ok :: "sbve \<Rightarrow> bool" where
  "sbve_ok e \<longleftrightarrow> length (Bits e) = BITWORDS_PER_ELEMENT"

definition elem_bits :: "sbve \<Rightarrow> nat set" where
  "elem_bits e = {n. n div ElementSize = ElementIndex e \<and> wbit (Bits e) (n mod ElementSize)}"

lemma upt_2: "[0..<2] = [0, 1]"
  by (simp add: upt_rec)

lemma sbve_okE:
  assumes "sbve_ok e" obtains a b where "Bits e = [a, b]"
  using assms by (auto simp: sbve_ok_def numeral_2_eq_2 length_Suc_conv)

lemma sbve_ok_wbit: "sbve_ok e \<Longrightarrow> wbit (Bits e) n \<Longrightarrow> n < 128"
  by (drule wbit_bound) (simp add: sbve_ok_def)

lemma sbve_ok_new [simp]: "sbve_ok (sbve_new i)"
  by (simp add: sbve_ok_def sbve_new_def)

lemma sbve_new_bits [simp]: "elem_bits (sbve_new i) = {}" "ElementIndex (sbve_new i) = i"
  by (simp_all add: elem_bits_def sbve_new_def)

lemma sbve_empty_wbit: "sbve_ok e \<Longrightarrow> sbve_empty e \<longleftrightarrow> (\<forall>n. \<not> wbit (Bits e) n)"
  by (erule sbve_okE) (simp add: sbve_empty_def upt_2 wbit_all_zero)

lemma sbve_empty_bits:
  assumes "sbve_ok e" shows "sbve_empty e \<longleftrightarrow> elem_bits e = {}"
proof -
  have "ElementIndex e * 128 + n \<in> elem_bits e" if "wbit (Bits e) n" for n
    using sbve_ok_wbit [OF assms that] that by (simp add: elem_bits_def)
  moreover have "elem_bits e \<noteq> {} \<Longrightarrow> \<exists>n. wbit (Bits e) n" by (auto simp: elem_bits_def)
  ultimately show ?thesis using sbve_empty_wbit [OF assms] by blast
qed

lemma sbve_eq_iff: "sbve_ok e \<Longrightarrow> sbve_ok r \<Longrightarrow> sbve_eq e r \<longleftrightarrow> e = r"
  by (erule sbve_okE, erule sbve_okE) (cases e, cases r, simp add: sbve_eq_def upt_2)

lemma elem_bits_inj:
  assumes "sbve_ok e" "sbve_ok r" "ElementIndex e = ElementIndex r" "elem_bits e = elem_bits r"
  shows "e = r"
proof -
  have "wbit (Bits e) n \<longleftrightarrow> wbit (Bits r) n" for n
  proof (cases "n < 128")
    case True
    then have "ElementIndex e * 128 + n \<in> elem_bits e \<longleftrightarrow> wbit (Bits e) n"
      "ElementIndex e * 128 + n \<in> elem_bits r \<longleftrightarrow> wbit (Bits r) n"
      using assms(3) by (simp_all add: elem_bits_def)
    then show ?thesis using assms(4) by simp
  qed (use assms sbve_ok_wbit in blast)
  then have "Bits e = Bits r"
    using assms(1,2) by (intro wbit_eqI) (simp_all add: sbve_ok_def)
  then show ?thesis using assms(3) by (cases e, cases r) simp
qed

lemma sbve_set_spec:
  assumes "sbve_ok e" "i < 128"
  shows "sbve_ok (sbve_set e i)" "ElementIndex (sbve_set e i) = ElementIndex e"
    "wbit (Bits (sbve_set e i)) n \<longleftrightarrow> n = i \<or> wbit (Bits e) n"
proof -
  show "sbve_ok (sbve_set e i)" "ElementIndex (sbve_set e i) = ElementIndex e"
    using assms by (simp_all add: sbve_set_def sbve_ok_def)
  have l: "i div 64 < length (Bits e)" using assms by (simp add: sbve_ok_def less_mult_imp_div_less)
  have "n = i \<longleftrightarrow> n div 64 = i div 64 \<and> n mod 64 = i mod 64" by (metis div_mult_mod_eq)
  then show "wbit (Bits (sbve_set e i)) n \<longleftrightarrow> n = i \<or> wbit (Bits e) n"
    using l by (auto simp: sbve_set_def wbit_update bit_or_iff wbit_def [of "Bits e"])
qed

lemma sbve_reset_spec:
  assumes "sbve_ok e" "i < 128"
  shows "sbve_ok (sbve_reset e i)" "ElementIndex (sbve_reset e i) = ElementIndex e"
    "wbit (Bits (sbve_reset e i)) n \<longleftrightarrow> n \<noteq> i \<and> wbit (Bits e) n"
proof -
  show "sbve_ok (sbve_reset e i)" "ElementIndex (sbve_reset e i) = ElementIndex e"
    using assms by (simp_all add: sbve_reset_def sbve_ok_def)
  have l: "i div 64 < length (Bits e)" using assms by (simp add: sbve_ok_def less_mult_imp_div_less)
  have "n = i \<longleftrightarrow> n div 64 = i div 64 \<and> n mod 64 = i mod 64" by (metis div_mult_mod_eq)
  then show "wbit (Bits (sbve_reset e i)) n \<longleftrightarrow> n \<noteq> i \<and> wbit (Bits e) n"
    using l by (auto simp: sbve_reset_def wbit_update bit_and_iff bit_not_iff wbit_def [of "Bits e"])
qed

lemma sbve_test_wbit:
  assumes "sbve_ok e" "i < 128" shows "sbve_test e i \<longleftrightarrow> wbit (Bits e) i"
proof -
  have "i div 64 < length (Bits e)" using assms by (simp add: sbve_ok_def less_mult_imp_div_less)
  then show ?thesis by (simp add: sbve_test_def and_mask_nonzero wbit_def)
qed

lemma elem_bits_set:
  assumes "sbve_ok e" "ElementIndex e = i div 128"
  shows "elem_bits (sbve_set e (i mod 128)) = insert i (elem_bits e)"
proof -
  have "n = i \<longleftrightarrow> n div 128 = i div 128 \<and> n mod 128 = i mod 128" for n by (metis div_mult_mod_eq)
  then show ?thesis using sbve_set_spec [OF assms(1), of "i mod 128"] assms(2)
    by (auto simp: elem_bits_def)
qed

lemma elem_bits_reset:
  assumes "sbve_ok e" "ElementIndex e = i div 128"
  shows "elem_bits (sbve_reset e (i mod 128)) = elem_bits e - {i}"
proof -
  have "n = i \<longleftrightarrow> n div 128 = i div 128 \<and> n mod 128 = i mod 128" for n by (metis div_mult_mod_eq)
  then show ?thesis using sbve_reset_spec [OF assms(1), of "i mod 128"] assms(2)
    by (auto simp: elem_bits_def)
qed

lemma elem_loop_eq:
  "length rs = length ts \<Longrightarrow>
   elem_loop f ts rs ch az =
     (ch \<or> map2 f ts rs \<noteq> ts, az \<and> (\<forall>w \<in> set (map2 f ts rs). w = 0), map2 f ts rs)"
  by (induction f ts rs ch az rule: elem_loop.induct) (auto simp: Let_def split: prod.splits)

lemma word_op_spec:
  assumes "sbve_ok e" "sbve_ok r"
    and f: "\<And>a b j. j < 64 \<Longrightarrow> bit (f a b) j \<longleftrightarrow> F (bit a j) (bit b j)"
  defines "e' \<equiv> e\<lparr>Bits := map2 f (Bits e) (Bits r)\<rparr>"
  shows "sbve_ok e'" "n < 128 \<Longrightarrow> wbit (Bits e') n \<longleftrightarrow> F (wbit (Bits e) n) (wbit (Bits r) n)"
    "(map2 f (Bits e) (Bits r) \<noteq> Bits e) \<longleftrightarrow> elem_bits e' \<noteq> elem_bits e"
    "(\<forall>w \<in> set (map2 f (Bits e) (Bits r)). w = 0) \<longleftrightarrow> elem_bits e' = {}"
proof -
  show ok: "sbve_ok e'" using assms by (simp add: e'_def sbve_ok_def)
  show "wbit (Bits e') n \<longleftrightarrow> F (wbit (Bits e) n) (wbit (Bits r) n)" if "n < 128" for n
  proof -
    have "n div 64 < 2" using that by (simp add: less_mult_imp_div_less)
    then show ?thesis
      using assms(1,2) f [of "n mod 64"] by (simp add: wbit_def e'_def sbve_ok_def)
  qed
  show "(map2 f (Bits e) (Bits r) \<noteq> Bits e) \<longleftrightarrow> elem_bits e' \<noteq> elem_bits e"
  proof -
    have "map2 f (Bits e) (Bits r) = Bits e" if "elem_bits e' = elem_bits e"
    proof -
      have "e' = e" using elem_bits_inj [OF ok assms(1)] that by (simp add: e'_def)
      then have "Bits e' = Bits e" by (rule arg_cong)
      then show ?thesis by (simp add: e'_def)
    qed
    moreover have "elem_bits e' = elem_bits e" if "map2 f (Bits e) (Bits r) = Bits e"
      by (simp add: e'_def that)
    ultimately show ?thesis by blast
  qed
  show "(\<forall>w \<in> set (map2 f (Bits e) (Bits r)). w = 0) \<longleftrightarrow> elem_bits e' = {}"
    using sbve_empty_bits [OF ok] sbve_empty_wbit [OF ok] wbit_all_zero [of "Bits e'"]
    by (simp add: e'_def)
qed

lemma elem_bits_word_op:
  assumes "ElementIndex e' = ElementIndex e" "ElementIndex r = ElementIndex e"
    and "\<And>n. n < 128 \<Longrightarrow> wbit (Bits e') n \<longleftrightarrow> F (wbit (Bits e) n) (wbit (Bits r) n)"
  shows "n \<in> elem_bits e' \<longleftrightarrow>
    n div 128 = ElementIndex e \<and> F (n \<in> elem_bits e) (n \<in> elem_bits r)"
  using assms by (auto simp: elem_bits_def)

lemma unionWith_spec:
  assumes "sbve_ok e" "sbve_ok r" "ElementIndex r = ElementIndex e" "unionWith e r = (ch, e')"
  shows "sbve_ok e'" "ElementIndex e' = ElementIndex e" "elem_bits e' = elem_bits e \<union> elem_bits r"
    "ch \<longleftrightarrow> elem_bits e' \<noteq> elem_bits e"
proof -
  have e': "e' = e\<lparr>Bits := map2 (OR) (Bits e) (Bits r)\<rparr>"
    "ch \<longleftrightarrow> map2 (OR) (Bits e) (Bits r) \<noteq> Bits e"
    using assms by (auto simp: unionWith_def elem_loop_eq sbve_ok_def)
  note w = word_op_spec [OF assms(1,2), of "(OR)" "(\<or>)"]
  show "sbve_ok e'" "ElementIndex e' = ElementIndex e" "ch \<longleftrightarrow> elem_bits e' \<noteq> elem_bits e"
    using w(1,3) e' by (simp_all add: bit_or_iff)
  have "n \<in> elem_bits e' \<longleftrightarrow> n div 128 = ElementIndex e \<and> (n \<in> elem_bits e \<or> n \<in> elem_bits r)" for n
    using w(2) assms(3) by (intro elem_bits_word_op) (simp_all add: e' bit_or_iff)
  then show "elem_bits e' = elem_bits e \<union> elem_bits r"
    using assms(3) by (auto simp: elem_bits_def)
qed

lemma intersectWith_spec:
  assumes "sbve_ok e" "sbve_ok r" "ElementIndex r = ElementIndex e"
    and "intersectWith e r = (ch, z, e')"
  shows "sbve_ok e'" "ElementIndex e' = ElementIndex e" "elem_bits e' = elem_bits e \<inter> elem_bits r"
    "ch \<longleftrightarrow> elem_bits e' \<noteq> elem_bits e" "z \<longleftrightarrow> elem_bits e' = {}"
proof -
  have e': "e' = e\<lparr>Bits := map2 (AND) (Bits e) (Bits r)\<rparr>"
    "ch \<longleftrightarrow> map2 (AND) (Bits e) (Bits r) \<noteq> Bits e"
    "z \<longleftrightarrow> (\<forall>w \<in> set (map2 (AND) (Bits e) (Bits r)). w = 0)"
    using assms by (auto simp: intersectWith_def elem_loop_eq sbve_ok_def)
  note w = word_op_spec [OF assms(1,2), of "(AND)" "(\<and>)"]
  show "sbve_ok e'" "ElementIndex e' = ElementIndex e" "ch \<longleftrightarrow> elem_bits e' \<noteq> elem_bits e"
      "z \<longleftrightarrow> elem_bits e' = {}"
    using w(1,3,4) e' by (simp_all add: bit_and_iff)
  have "n \<in> elem_bits e' \<longleftrightarrow> n div 128 = ElementIndex e \<and> (n \<in> elem_bits e \<and> n \<in> elem_bits r)" for n
    using w(2) assms(3) by (intro elem_bits_word_op) (simp_all add: e' bit_and_iff)
  then show "elem_bits e' = elem_bits e \<inter> elem_bits r"
    by (auto simp: elem_bits_def)
qed

lemma elem_minus_spec:
  assumes "sbve_ok e" "sbve_ok r" "ElementIndex r = ElementIndex e"
    and "sbve_intersectWithComplement e r = (ch, z, e')"
  shows "sbve_ok e'" "ElementIndex e' = ElementIndex e" "elem_bits e' = elem_bits e - elem_bits r"
    "ch \<longleftrightarrow> elem_bits e' \<noteq> elem_bits e" "z \<longleftrightarrow> elem_bits e' = {}"
proof -
  let ?f = "\<lambda>t r. t AND NOT r :: machine_word"
  have e': "e' = e\<lparr>Bits := map2 ?f (Bits e) (Bits r)\<rparr>"
    "ch \<longleftrightarrow> map2 ?f (Bits e) (Bits r) \<noteq> Bits e"
    "z \<longleftrightarrow> (\<forall>w \<in> set (map2 ?f (Bits e) (Bits r)). w = 0)"
    using assms by (auto simp: sbve_intersectWithComplement_def elem_loop_eq sbve_ok_def)
  note w = word_op_spec [OF assms(1,2), of ?f "\<lambda>a b. a \<and> \<not> b"]
  show "sbve_ok e'" "ElementIndex e' = ElementIndex e" "ch \<longleftrightarrow> elem_bits e' \<noteq> elem_bits e"
      "z \<longleftrightarrow> elem_bits e' = {}"
    using w(1,3,4) e' by (simp_all add: bit_and_iff bit_not_iff)
  have "n \<in> elem_bits e' \<longleftrightarrow> n div 128 = ElementIndex e \<and> (n \<in> elem_bits e \<and> n \<notin> elem_bits r)" for n
    using w(2) assms(3) by (intro elem_bits_word_op) (simp_all add: e' bit_and_iff bit_not_iff)
  then show "elem_bits e' = elem_bits e - elem_bits r"
    by (auto simp: elem_bits_def)
qed

lemma elem_minus2_eq:
  assumes "sbve_ok x" "sbve_ok y"
  shows "sbve_intersectWithComplement2 (sbve_new (ElementIndex x)) x y =
     (let (_, z, e) = sbve_intersectWithComplement x y in (z, e))"
  by (cases x) (simp add: sbve_intersectWithComplement2_def sbve_intersectWithComplement_def
      sbve_new_def Let_def split_def)

lemma sbve_intersects_bits:
  assumes "sbve_ok e" "sbve_ok r" "ElementIndex r = ElementIndex e"
  shows "sbve_intersects e r \<longleftrightarrow> elem_bits e \<inter> elem_bits r \<noteq> {}"
proof -
  obtain ch z e' where i: "intersectWith e r = (ch, z, e')" by (metis prod_cases3)
  have "sbve_intersects e r \<longleftrightarrow> \<not> z"
  proof -
    have "z \<longleftrightarrow> (\<forall>w \<in> set (map2 (AND) (Bits e) (Bits r)). w = 0)"
      using assms(1,2) i by (auto simp: intersectWith_def elem_loop_eq sbve_ok_def)
    then show ?thesis
      using assms(1,2)
      by (elim sbve_okE) (simp add: sbve_intersects_def upt_2 and.commute disj_commute)
  qed
  then show ?thesis using intersectWith_spec [OF assms i] by simp
qed

lemma sbve_count_card:
  assumes "sbve_ok e" shows "sbve_count e = card (elem_bits e)"
proof -
  have "elem_bits e = (\<lambda>n. ElementIndex e * 128 + n) ` {n. wbit (Bits e) n}"
  proof (rule set_eqI)
    fix n
    have "n = ElementIndex e * 128 + n mod 128 \<longleftrightarrow> n div 128 = ElementIndex e"
      by (metis div_mult_mod_eq add_right_cancel mult_right_cancel zero_neq_numeral)
    then show "n \<in> elem_bits e \<longleftrightarrow> n \<in> (\<lambda>n. ElementIndex e * 128 + n) ` {n. wbit (Bits e) n}"
      using sbve_ok_wbit [OF assms] by (auto simp: elem_bits_def)
  qed
  then have "card (elem_bits e) = card {n. wbit (Bits e) n}" by (simp add: card_image)
  also have "\<dots> = sum_list (map popcount (Bits e))" by (rule card_wbit)
  finally show ?thesis using assms by (elim sbve_okE) (simp add: sbve_count_def upt_2)
qed

end
