(* ===== verification/SparseBitVecSpec.thy ===== *)
theory SparseBitVecSpec
  imports SparseBitVec
begin

text \<open>
  What the operations of \<open>SparseBitVector\<close> compute: the set of positions a list of
  elements stands for, the well-formedness of the list (strictly increasing element indices, no
  element without a set bit), and one lemma per operation over these.
\<close>

section \<open>Well-formed element lists\<close>

definition elem_ok :: "sbve \<Rightarrow> bool" where
  "elem_ok e \<longleftrightarrow> sbve_ok e \<and> \<not> sbve_empty e \<and> ElementIndex e < 2 ^ 25"

definition elems_ok :: "sbve list \<Rightarrow> bool" where
  "elems_ok es \<longleftrightarrow> sorted_wrt (<) (map ElementIndex es) \<and> list_all elem_ok es"

definition elems_bits :: "sbve list \<Rightarrow> nat set" where
  "elems_bits es = (\<Union>e \<in> set es. elem_bits e)"

definition sbv_bits :: "sbv \<Rightarrow> nat set" where
  "sbv_bits s = elems_bits (Elements s)"

definition sbv_inv :: "sbv \<Rightarrow> bool" where
  "sbv_inv s \<longleftrightarrow> elems_ok (Elements s) \<and>
     (Elements s \<noteq> [] \<longrightarrow> CurrElementIter s \<le> length (Elements s))"

lemma elems_ok_Nil [simp]: "elems_ok []"
  by (simp add: elems_ok_def)

lemma elems_bits_Nil [simp]: "elems_bits [] = {}"
  by (simp add: elems_bits_def)

lemma elems_bits_Cons [simp]: "elems_bits (e # es) = elem_bits e \<union> elems_bits es"
  by (simp add: elems_bits_def)

lemma elems_bits_append [simp]: "elems_bits (es @ fs) = elems_bits es \<union> elems_bits fs"
  by (simp add: elems_bits_def)

lemma elems_ok_Cons:
  "elems_ok (e # es) \<longleftrightarrow>
     elem_ok e \<and> elems_ok es \<and> (\<forall>f \<in> set es. ElementIndex e < ElementIndex f)"
  by (auto simp: elems_ok_def)

lemma elems_ok_append:
  "elems_ok (es @ fs) \<longleftrightarrow>
     elems_ok es \<and> elems_ok fs \<and>
     (\<forall>e \<in> set es. \<forall>f \<in> set fs. ElementIndex e < ElementIndex f)"
  by (auto simp: elems_ok_def sorted_wrt_append)

lemma elem_bits_div: "n \<in> elem_bits e \<Longrightarrow> n div 128 = ElementIndex e"
  by (simp add: elem_bits_def)

lemma elems_bits_div: "n \<in> elems_bits es \<Longrightarrow> \<exists>e \<in> set es. n div 128 = ElementIndex e"
  by (auto simp: elems_bits_def dest: elem_bits_div)

lemma elem_ok_nonempty: "elem_ok e \<Longrightarrow> elem_bits e \<noteq> {}"
  using sbve_empty_bits by (auto simp: elem_ok_def)

lemma elem_ok_sbve_ok [simp]: "elem_ok e \<Longrightarrow> sbve_ok e"
  by (simp add: elem_ok_def)

lemma elem_okI:
  "sbve_ok e \<Longrightarrow> elem_bits e \<noteq> {} \<Longrightarrow> ElementIndex e < 2 ^ 25 \<Longrightarrow> elem_ok e"
  unfolding elem_ok_def by (metis sbve_empty_bits)

lemma finite_elem_bits [simp]: "finite (elem_bits e)"
proof (rule finite_subset)
  have "n < 128 * ElementIndex e + 128" if "n \<in> elem_bits e" for n
  proof -
    have "n div 128 = ElementIndex e" using that by (simp add: elem_bits_def)
    then show ?thesis using div_mult_mod_eq [of n 128] mod_less_divisor [of 128 n] by linarith
  qed
  then show "elem_bits e \<subseteq> {..< 128 * ElementIndex e + 128}" by blast
qed simp

lemma finite_elems_bits [simp]: "finite (elems_bits es)"
  by (simp add: elems_bits_def)

lemma sbv_bits_u32: "sbv_inv s \<Longrightarrow> n \<in> sbv_bits s \<Longrightarrow> n < 2 ^ 32"
proof -
  assume "sbv_inv s" "n \<in> sbv_bits s"
  then have "n div 128 < 2 ^ 25"
    by (auto simp: sbv_bits_def sbv_inv_def elems_ok_def list_all_iff elem_ok_def dest!: elems_bits_div)
  then show "n < 2 ^ 32" by (simp add: div_less_iff_less_mult)
qed

lemma disjoint_index:
  "(\<forall>f \<in> set fs. ElementIndex f \<noteq> ElementIndex e) \<Longrightarrow> elem_bits e \<inter> elems_bits fs = {}"
  by (auto dest!: elem_bits_div elems_bits_div)

lemma elems_bits_at:
  assumes "elems_ok es" "p < length es" "n div 128 = ElementIndex (es ! p)"
  shows "n \<in> elems_bits es \<longleftrightarrow> n \<in> elem_bits (es ! p)"
  using assms
proof (induction es arbitrary: p)
  case (Cons e es)
  note ok = Cons.prems(1) [unfolded elems_ok_Cons]
  show ?case
  proof (cases p)
    case 0
    then have "n \<notin> elems_bits es" using ok Cons.prems by (auto dest!: elems_bits_div)
    then show ?thesis using 0 by simp
  next
    case (Suc q)
    then have "es ! q \<in> set es" using Cons.prems by simp
    then have "ElementIndex e < ElementIndex (es ! q)" using ok by blast
    then have "n \<notin> elem_bits e" using Cons.prems(3) Suc by (auto dest!: elem_bits_div)
    then show ?thesis using Suc Cons ok by simp
  qed
qed simp

section \<open>Searching an element\<close>

lemma first_bit_fromE:
  assumes "first_bit_from e is = Some b" "sorted is"
  obtains i l where "i \<in> set is" "b = i * 64 + l" "bit (Bits e ! i) l" "\<forall>j < l. \<not> bit (Bits e ! i) j"
    "\<forall>j \<in> set is. j < i \<longrightarrow> Bits e ! j = 0"
  using assms
proof (induction "is" arbitrary: thesis)
  case (Cons i "is")
  show ?case
  proof (cases "Bits e ! i = 0")
    case True
    then have "first_bit_from e is = Some b" "sorted is" using Cons.prems by auto
    then show ?thesis
    proof (rule Cons.IH [rotated])
      fix k l
      assume "k \<in> set is" "b = k * 64 + l" "bit (Bits e ! k) l" "\<forall>j < l. \<not> bit (Bits e ! k) j"
        "\<forall>j \<in> set is. j < k \<longrightarrow> Bits e ! j = 0"
      then show thesis using True by (intro Cons.prems(1) [of k l]) auto
    qed
  next
    case False
    then have b: "b = i * 64 + countTrailingZeros (Bits e ! i)" using Cons.prems by simp
    show ?thesis
      by (rule Cons.prems(1) [of i, OF _ b]) (use ctz_correct [OF False] Cons.prems in auto)
  qed
qed simp

lemma first_bit_from_None: "first_bit_from e is = None \<longleftrightarrow> (\<forall>i \<in> set is. Bits e ! i = 0)"
  by (induction "is") auto

text \<open>The first set position of an element at or after \<open>k\<close>.\<close>

lemma first_bit_from_spec:
  assumes "sbve_ok e" "w \<le> 2"
  shows "(case first_bit_from e [w..<2] of
      None \<Rightarrow> \<forall>n \<ge> 64 * w. \<not> wbit (Bits e) n
    | Some b \<Rightarrow> 64 * w \<le> b \<and> b < 128 \<and> wbit (Bits e) b \<and>
        (\<forall>n. 64 * w \<le> n \<longrightarrow> n < b \<longrightarrow> \<not> wbit (Bits e) n))"
proof (cases "first_bit_from e [w..<2]")
  case None
  then have z: "\<forall>i. w \<le> i \<longrightarrow> i < 2 \<longrightarrow> Bits e ! i = 0" by (simp add: first_bit_from_None)
  have "\<not> wbit (Bits e) n" if "64 * w \<le> n" for n
  proof -
    have "w \<le> n div 64" using that by (simp add: less_eq_div_iff_mult_less_eq)
    then show ?thesis using z assms(1) by (auto simp: wbit_def sbve_ok_def)
  qed
  then show ?thesis using None by simp
next
  case (Some b)
  obtain i l where i: "w \<le> i" "i < 2" "b = i * 64 + l" "bit (Bits e ! i) l"
    "\<forall>j < l. \<not> bit (Bits e ! i) j" "\<forall>j. w \<le> j \<longrightarrow> j < i \<longrightarrow> Bits e ! j = 0"
    by (rule first_bit_fromE [OF Some]) auto
  have l: "l < 64" using i(4) by (rule bit_word_lt)
  have set: "wbit (Bits e) b" using assms(1) i l by (simp add: wbit_def sbve_ok_def)
  have "\<not> wbit (Bits e) n" if "64 * w \<le> n" "n < b" for n
  proof -
    have w: "w \<le> n div 64" using that(1) by (simp add: less_eq_div_iff_mult_less_eq)
    have "n div 64 < i \<or> n div 64 = i \<and> n mod 64 < l"
      using that(2) i(3) l div_mult_mod_eq [of n 64] by linarith
    then show ?thesis using i(5,6) w by (auto simp: wbit_def)
  qed
  then show ?thesis using Some set i l sbve_ok_wbit [OF assms(1) set] by simp
qed

lemma sbve_find_first_spec:
  assumes "elem_ok e"
  obtains b where "sbve_find_first e = Some b" "b < 128"
    "ElementIndex e * 128 + b \<in> elem_bits e"
    "\<And>n. n \<in> elem_bits e \<Longrightarrow> ElementIndex e * 128 + b \<le> n"
proof -
  have ok: "sbve_ok e" using assms by simp
  obtain b where b: "sbve_find_first e = Some b" "b < 128" "wbit (Bits e) b"
      "\<forall>n < b. \<not> wbit (Bits e) n"
    using first_bit_from_spec [OF ok, of 0] sbve_empty_wbit [OF ok] assms
    by (auto simp: sbve_find_first_def elem_ok_def split: option.splits)
  show ?thesis
  proof (rule that [OF b(1,2)])
    show "ElementIndex e * 128 + b \<in> elem_bits e" using b by (simp add: elem_bits_def)
  next
    fix n assume "n \<in> elem_bits e"
    then have n: "n div 128 = ElementIndex e" "wbit (Bits e) (n mod 128)" by (auto simp: elem_bits_def)
    then have "b \<le> n mod 128" using b(4) not_less by blast
    then show "ElementIndex e * 128 + b \<le> n" using n(1) div_mult_mod_eq [of n 128] by linarith
  qed
qed


lemma sbve_find_next_spec:
  assumes "sbve_ok e" "cur < 128"
  shows "(sbve_find_next e cur = -1 \<and> (\<forall>n \<ge> cur. \<not> wbit (Bits e) n)) \<or>
    (\<exists>b. sbve_find_next e cur = int b \<and> cur \<le> b \<and> b < 128 \<and> wbit (Bits e) b \<and>
      (\<forall>n. cur \<le> n \<longrightarrow> n < b \<longrightarrow> \<not> wbit (Bits e) n))"
proof -
  define w where "w = cur div 64"
  define k where "k = cur mod 64"
  define copy where "copy = Bits e ! w AND push_bit k (NOT 0)"
  have w: "w < 2" using assms(2) by (simp add: w_def less_mult_imp_div_less)
  have cur: "cur = w * 64 + k" "k < 64" by (simp_all add: w_def k_def)
  have len: "length (Bits e) = 2" using assms(1) by (simp add: sbve_ok_def)
  have copy: "bit copy j \<longleftrightarrow> k \<le> j \<and> wbit (Bits e) (w * 64 + j)" if "j < 64" for j
    using that w len
    by (auto simp: copy_def wbit_def bit_and_iff bit_push_bit_iff bit_not_iff bit_mask_iff)
  have inw: "n div 64 = w \<Longrightarrow> cur \<le> n \<Longrightarrow> k \<le> n mod 64 \<and> w * 64 + n mod 64 = n" for n
    using cur div_mult_mod_eq [of n 64] by linarith
  have low: "w < n div 64" if "cur \<le> n" "n div 64 \<noteq> w" for n
    using that by (simp add: w_def div_le_mono le_neq_implies_less)
  show ?thesis
  proof (cases "copy = 0")
    case False
    define l where "l = countTrailingZeros copy"
    have l: "bit copy l" "\<forall>j < l. \<not> bit copy j" using ctz_correct [OF False] by (auto simp: l_def)
    have "l < 64" using l(1) by (rule bit_word_lt)
    then have b: "k \<le> l" "wbit (Bits e) (w * 64 + l)" using copy l by auto
    have "\<not> wbit (Bits e) n" if n: "cur \<le> n" "n < w * 64 + l" for n
    proof -
      have "n div 64 = w" using n cur \<open>l < 64\<close> by (auto simp: div_nat_eqI)
      then have r: "k \<le> n mod 64" "w * 64 + n mod 64 = n" using inw n(1) by auto
      then have "\<not> bit copy (n mod 64)" using n(2) l(2) by auto
      then show ?thesis using copy [of "n mod 64"] r by simp
    qed
    moreover have "sbve_find_next e cur = int (w * 64 + l)"
      using assms(2) False by (simp add: sbve_find_next_def Let_def copy_def w_def k_def l_def)
    ultimately show ?thesis using b cur w \<open>l < 64\<close> by (intro disjI2 exI [of _ "w * 64 + l"]) auto
  next
    case True
    have here: "\<not> wbit (Bits e) n" if n: "cur \<le> n" "n div 64 = w" for n
      using copy [of "n mod 64"] inw [OF n(2,1)] True by auto
    have up: "64 * Suc w \<le> n" if "cur \<le> n" "n div 64 \<noteq> w" for n
      using low [OF that] by (metis Suc_leI div_times_less_eq_dividend le_trans mult.commute mult_le_mono1)
    have fn: "sbve_find_next e cur =
        (case first_bit_from e [Suc w..<2] of Some b \<Rightarrow> int b | None \<Rightarrow> -1)"
      using assms(2) True by (simp add: sbve_find_next_def Let_def copy_def w_def k_def)
    have spec: "case first_bit_from e [Suc w..<2] of
        None \<Rightarrow> \<forall>n \<ge> 64 * Suc w. \<not> wbit (Bits e) n
      | Some b \<Rightarrow> 64 * Suc w \<le> b \<and> b < 128 \<and> wbit (Bits e) b \<and>
          (\<forall>n. 64 * Suc w \<le> n \<longrightarrow> n < b \<longrightarrow> \<not> wbit (Bits e) n)"
      using w by (intro first_bit_from_spec [OF assms(1)]) simp
    show ?thesis
    proof (cases "first_bit_from e [Suc w..<2]")
      case None
      then show ?thesis using fn spec here up by auto
    next
      case (Some b)
      then have "cur \<le> b" using spec cur by auto
      then show ?thesis using Some fn spec here up by (intro disjI2 exI [of _ b]) auto
    qed
  qed
qed


section \<open>The cached linear search\<close>

text \<open>
  What \<open>FindLowerBound\<close> guarantees: everything before the position is smaller, everything
  behind it larger. The element at the position itself may be smaller, equal or larger.
\<close>

definition slot :: "sbve list \<Rightarrow> nat \<Rightarrow> nat \<Rightarrow> bool" where
  "slot es idx p \<longleftrightarrow> p \<le> length es \<and>
     (\<forall>e \<in> set (take p es). ElementIndex e < idx) \<and>
     (\<forall>e \<in> set (drop (Suc p) es). idx < ElementIndex e)"

lemma slot_nth:
  "slot es idx p \<longleftrightarrow> p \<le> length es \<and> (\<forall>q < p. ElementIndex (es ! q) < idx) \<and>
     (\<forall>q. p < q \<longrightarrow> q < length es \<longrightarrow> idx < ElementIndex (es ! q))"
proof (cases "p \<le> length es")
  case True
  have "(\<forall>e \<in> set (drop (Suc p) es). idx < ElementIndex e) \<longleftrightarrow>
      (\<forall>q. p < q \<longrightarrow> q < length es \<longrightarrow> idx < ElementIndex (es ! q))"
  proof
    assume a: "\<forall>e \<in> set (drop (Suc p) es). idx < ElementIndex e"
    show "\<forall>q. p < q \<longrightarrow> q < length es \<longrightarrow> idx < ElementIndex (es ! q)"
    proof (intro allI impI)
      fix q assume "p < q" "q < length es"
      then have "es ! q = drop (Suc p) es ! (q - Suc p)" "q - Suc p < length (drop (Suc p) es)" by auto
      then show "idx < ElementIndex (es ! q)" using a nth_mem by metis
    qed
  qed (auto simp: in_set_conv_nth less_diff_conv)
  moreover have "(\<forall>e \<in> set (take p es). ElementIndex e < idx) \<longleftrightarrow> (\<forall>q < p. ElementIndex (es ! q) < idx)"
    using True by (auto simp flip: nth_image)
  ultimately show ?thesis by (simp add: slot_def)
qed (simp add: slot_def)

lemma elems_ok_nth:
  "elems_ok es \<Longrightarrow> p < q \<Longrightarrow> q < length es \<Longrightarrow> ElementIndex (es ! p) < ElementIndex (es ! q)"
  by (auto simp: elems_ok_def sorted_wrt_iff_nth_less)

lemma walk_back_spec:
  "p < length es \<Longrightarrow> (walk_back es idx p = 0 \<or> ElementIndex (es ! walk_back es idx p) \<le> idx) \<and>
   walk_back es idx p \<le> p \<and> (\<forall>q. walk_back es idx p < q \<longrightarrow> q \<le> p \<longrightarrow> idx < ElementIndex (es ! q))"
  by (induction es idx p rule: walk_back.induct) (auto simp: le_Suc_eq not_less)

lemma walk_forward_spec:
  "p \<le> length es \<Longrightarrow> p \<le> walk_forward es idx p \<and> walk_forward es idx p \<le> length es \<and>
   (\<forall>q. p \<le> q \<longrightarrow> q < walk_forward es idx p \<longrightarrow> ElementIndex (es ! q) < idx) \<and>
   (walk_forward es idx p < length es \<longrightarrow> idx \<le> ElementIndex (es ! walk_forward es idx p))"
proof (induction es idx p rule: walk_forward.induct)
  case (1 es idx p)
  show ?case
  proof (cases "p < length es \<and> ElementIndex (es ! p) < idx")
    case True
    then have u: "walk_forward es idx p = walk_forward es idx (Suc p)"
      by (subst walk_forward.simps) simp
    have IH: "Suc p \<le> walk_forward es idx (Suc p)" "walk_forward es idx (Suc p) \<le> length es"
        "\<forall>q. Suc p \<le> q \<longrightarrow> q < walk_forward es idx (Suc p) \<longrightarrow> ElementIndex (es ! q) < idx"
        "walk_forward es idx (Suc p) < length es \<longrightarrow>
          idx \<le> ElementIndex (es ! walk_forward es idx (Suc p))"
      using "1.IH" [OF True] True by auto
    have "ElementIndex (es ! q) < idx" if "p \<le> q" "q < walk_forward es idx (Suc p)" for q
      using IH(3) True that by (cases "p = q") auto
    then show ?thesis using IH unfolding u by auto
  next
    case False
    then have u: "walk_forward es idx p = p" by (subst walk_forward.simps) (simp only: if_False)
    show ?thesis using 1 False unfolding u by auto
  qed
qed

lemma slot_exact:
  assumes "elems_ok es" "p < length es" "ElementIndex (es ! p) = idx"
  shows "slot es idx p"
  using assms elems_ok_nth [OF assms(1)] by (auto simp: slot_nth)

lemma slot_walk_back:
  assumes ok: "elems_ok es" and p: "p < length es" "idx < ElementIndex (es ! p)"
  shows "slot es idx (walk_back es idx p)"
proof -
  let ?p = "walk_back es idx p"
  have w: "?p = 0 \<or> ElementIndex (es ! ?p) \<le> idx" "?p \<le> p"
      "\<And>q. ?p < q \<Longrightarrow> q \<le> p \<Longrightarrow> idx < ElementIndex (es ! q)"
    using walk_back_spec [OF p(1)] by blast+
  have "ElementIndex (es ! q) < idx" if "q < ?p" for q
    using elems_ok_nth [OF ok that] w(1,2) p(1) that by auto
  moreover have "idx < ElementIndex (es ! q)" if "?p < q" "q < length es" for q
    using w(3) [OF that(1)] elems_ok_nth [OF ok _ that(2), of p] p(2) by (cases "q \<le> p") auto
  ultimately show ?thesis using w(2) p(1) by (auto simp: slot_nth)
qed

lemma slot_walk_forward:
  assumes ok: "elems_ok es" and p: "p < length es" "ElementIndex (es ! p) < idx"
  shows "slot es idx (walk_forward es idx p)"
proof -
  let ?p = "walk_forward es idx p"
  have w: "p \<le> ?p" "?p \<le> length es"
      "\<And>q. p \<le> q \<Longrightarrow> q < ?p \<Longrightarrow> ElementIndex (es ! q) < idx"
      "?p < length es \<Longrightarrow> idx \<le> ElementIndex (es ! ?p)"
    using walk_forward_spec [of p es idx] p(1) by auto
  have "ElementIndex (es ! q) < idx" if "q < ?p" for q
    using w(3) [OF _ that] elems_ok_nth [OF ok _ p(1), of q] p(2) by (cases "p \<le> q") auto
  moreover have "idx < ElementIndex (es ! q)" if "?p < q" "q < length es" for q
    using elems_ok_nth [OF ok that] w(4) that by auto
  ultimately show ?thesis using w(2) by (auto simp: slot_nth)
qed

lemma FindLowerBound_slot:
  assumes inv: "sbv_inv s" and ne: "Elements s \<noteq> []"
  shows "slot (Elements s) idx (FindLowerBound s idx)"
proof -
  define cur where "cur = (if CurrElementIter s = length (Elements s) then CurrElementIter s - 1
    else CurrElementIter s)"
  have "elems_ok (Elements s)" "cur < length (Elements s)"
    using inv ne by (auto simp: sbv_inv_def cur_def)
  note c = this
  have "FindLowerBound s idx =
    (if ElementIndex (Elements s ! cur) = idx then cur
     else if ElementIndex (Elements s ! cur) > idx then walk_back (Elements s) idx cur
     else walk_forward (Elements s) idx cur)"
    using ne by (simp add: FindLowerBound_def cur_def Let_def)
  then show ?thesis
    using slot_exact [OF c] slot_walk_back [OF c] slot_walk_forward [OF c] by auto
qed

lemma slot_split:
  assumes "slot es idx p" "p < length es"
  shows "es = take p es @ es ! p # drop (Suc p) es"
  using assms(2) by (rule id_take_nth_drop)

text \<open>A position holds an element of the searched index iff any does.\<close>

lemma slot_other_bits:
  assumes "slot es (n div 128) p"
  shows "n \<notin> elems_bits (take p es)" "n \<notin> elems_bits (drop (Suc p) es)"
  using assms by (auto simp: slot_def dest!: elems_bits_div)

lemma slot_bits:
  assumes "slot es (n div 128) p"
  shows "n \<in> elems_bits es \<longleftrightarrow> p < length es \<and> n \<in> elem_bits (es ! p)"
proof (cases "p < length es")
  case True
  then show ?thesis
    using slot_other_bits [OF assms] slot_split [OF assms True] elems_bits_append elems_bits_Cons
    by (metis UnE UnI1 UnI2)
next
  case False
  then have "take p es = es" by simp
  then show ?thesis using slot_other_bits(1) [OF assms] False by simp
qed


section \<open>Single bits\<close>

lemma elem_bits_at:
  assumes "sbve_ok e" "ElementIndex e = n div 128"
  shows "sbve_test e (n mod 128) \<longleftrightarrow> n \<in> elem_bits e"
  using assms by (simp add: sbve_test_wbit elem_bits_def)

lemma elem_ok_nth: "elems_ok es \<Longrightarrow> p < length es \<Longrightarrow> elem_ok (es ! p)"
  by (simp add: elems_ok_def list_all_length)

lemma sbv_test_spec:
  assumes inv: "sbv_inv s"
  shows "fst (sbv_test s idx) \<longleftrightarrow> idx \<in> sbv_bits s"
    "Elements (snd (sbv_test s idx)) = Elements s" "sbv_inv (snd (sbv_test s idx))"
proof -
  show "Elements (snd (sbv_test s idx)) = Elements s" by (simp add: sbv_test_def Let_def)
  show "sbv_inv (snd (sbv_test s idx))"
    using inv FindLowerBound_slot [OF inv, of "idx div 128"]
    by (auto simp: sbv_test_def Let_def sbv_inv_def slot_def)
  show "fst (sbv_test s idx) \<longleftrightarrow> idx \<in> sbv_bits s"
  proof (cases "Elements s = []")
    case False
    define p where "p = FindLowerBound s (idx div 128)"
    have slot: "slot (Elements s) (idx div 128) p" unfolding p_def by (rule FindLowerBound_slot [OF inv False])
    then have "p \<le> length (Elements s)" by (simp add: slot_def)
    moreover have "p < length (Elements s) \<Longrightarrow> ElementIndex (Elements s ! p) = idx div 128 \<Longrightarrow>
        sbve_test (Elements s ! p) (idx mod 128) \<longleftrightarrow> idx \<in> elem_bits (Elements s ! p)"
      using inv by (intro elem_bits_at) (auto simp: sbv_inv_def intro: elem_ok_nth elem_ok_sbve_ok)
    ultimately show ?thesis
      using slot_bits [OF slot] False
      by (auto simp: sbv_test_def Let_def sbv_bits_def simp flip: p_def dest: elem_bits_div)
  qed (simp add: sbv_test_def sbv_bits_def)
qed

lemma elems_ok_parts:
  assumes "elems_ok es" shows "elems_ok (take p es)" "elems_ok (drop p es)"
  using assms elems_ok_append [of "take p es" "drop p es"] by auto

text \<open>Replacing the element at the slot, inserting one and erasing it.\<close>

lemma elems_replace:
  assumes "elems_ok es" "slot es (ElementIndex x) p" "p < length es" "elem_ok x"
  shows "elems_ok (es[p := x])"
    "elems_bits (es[p := x]) = elems_bits (take p es) \<union> elem_bits x \<union> elems_bits (drop (Suc p) es)"
proof -
  have "elems_ok (take p es @ es ! p # drop (Suc p) es)" using assms(1) slot_split [OF assms(2,3)] by simp
  then show "elems_ok (es[p := x])"
    using assms by (auto simp: upd_conv_take_nth_drop elems_ok_append elems_ok_Cons slot_def)
  show "elems_bits (es[p := x]) = elems_bits (take p es) \<union> elem_bits x \<union> elems_bits (drop (Suc p) es)"
    using assms(3) by (simp add: upd_conv_take_nth_drop Un_assoc)
qed

lemma elems_erase:
  assumes "elems_ok es" "slot es i p"
  shows "elems_ok (list_erase es p)"
    "elems_bits (list_erase es p) = elems_bits (take p es) \<union> elems_bits (drop (Suc p) es)"
proof -
  note elems_ok_parts [OF assms(1), of p] elems_ok_parts [OF assms(1), of "Suc p"]
  moreover have "ElementIndex e < ElementIndex f"
    if "e \<in> set (take p es)" "f \<in> set (drop (Suc p) es)" for e f
    using that assms(2) by (force simp: slot_def)
  ultimately show "elems_ok (list_erase es p)" by (simp add: list_erase_def elems_ok_append)
qed (simp add: list_erase_def)

lemma elems_emplace:
  assumes "elems_ok es" "elem_ok x"
    and "\<forall>e \<in> set (take p es). ElementIndex e < ElementIndex x"
    and "\<forall>e \<in> set (drop p es). ElementIndex x < ElementIndex e"
  shows "elems_ok (list_emplace es p x)" "elems_bits (list_emplace es p x) = elem_bits x \<union> elems_bits es"
proof -
  have "ElementIndex e < ElementIndex f" if "e \<in> set (take p es)" "f \<in> set (drop p es)" for e f
    using that assms(3,4) by (force intro: less_trans)
  then show "elems_ok (list_emplace es p x)"
    using assms elems_ok_parts [OF assms(1)] by (auto simp: list_emplace_def elems_ok_append elems_ok_Cons)
  have "elems_bits es = elems_bits (take p es) \<union> elems_bits (drop p es)"
    using elems_bits_append [of "take p es" "drop p es"] by simp
  then show "elems_bits (list_emplace es p x) = elem_bits x \<union> elems_bits es"
    by (auto simp: list_emplace_def)
qed

lemma slot_bits_split:
  assumes "slot es (n div 128) p" "p < length es"
  shows "insert n (elems_bits es) =
      elems_bits (take p es) \<union> insert n (elem_bits (es ! p)) \<union> elems_bits (drop (Suc p) es)"
    "elems_bits es - {n} =
      elems_bits (take p es) \<union> (elem_bits (es ! p) - {n}) \<union> elems_bits (drop (Suc p) es)"
proof -
  have "elems_bits es = elems_bits (take p es) \<union> (elem_bits (es ! p) \<union> elems_bits (drop (Suc p) es))"
    using slot_split [OF assms] elems_bits_append elems_bits_Cons by metis
  then show "insert n (elems_bits es) =
      elems_bits (take p es) \<union> insert n (elem_bits (es ! p)) \<union> elems_bits (drop (Suc p) es)"
    "elems_bits es - {n} =
      elems_bits (take p es) \<union> (elem_bits (es ! p) - {n}) \<union> elems_bits (drop (Suc p) es)"
    using slot_other_bits [OF assms(1)] by auto
qed

lemma sbv_reset_spec:
  assumes inv: "sbv_inv s"
  shows "sbv_inv (sbv_reset s idx)" "sbv_bits (sbv_reset s idx) = sbv_bits s - {idx}"
proof -
  have both: "sbv_inv (sbv_reset s idx) \<and> sbv_bits (sbv_reset s idx) = sbv_bits s - {idx}"
  proof (cases "Elements s = []")
    case True
    then show ?thesis using inv by (simp add: sbv_reset_def sbv_bits_def)
  next
    case ne: False
    define es where "es = Elements s"
    define p where "p = FindLowerBound s (idx div 128)"
    have slot: "slot es (idx div 128) p"
      unfolding p_def es_def by (rule FindLowerBound_slot [OF inv ne])
    then have le: "p \<le> length es" by (simp add: slot_def)
    have ok: "elems_ok es" using inv by (simp add: es_def sbv_inv_def)
    show ?thesis
    proof (cases "p < length es \<and> ElementIndex (es ! p) = idx div 128")
      case False
      then have r: "sbv_reset s idx = s\<lparr>CurrElementIter := p\<rparr>"
        using ne le by (auto simp: sbv_reset_def Let_def simp flip: p_def es_def)
      have "idx \<notin> elems_bits es"
        using False slot_bits [OF slot] by (auto dest: elem_bits_div)
      then show ?thesis using r ok le by (simp add: sbv_inv_def sbv_bits_def flip: es_def)
    next
      case True
      define e where "e = sbve_reset (es ! p) (idx mod 128)"
      have okp: "elem_ok (es ! p)" using True ok by (simp add: elem_ok_nth)
      have e: "sbve_ok e" "ElementIndex e = idx div 128" "elem_bits e = elem_bits (es ! p) - {idx}"
        using sbve_reset_spec(1,2) [of "es ! p" "idx mod 128"] okp True
        by (auto simp: e_def elem_bits_reset)
      have r: "sbv_reset s idx = s\<lparr>CurrElementIter := p,
          Elements := if sbve_empty e then list_erase es p else es[p := e]\<rparr>"
        using ne True by (simp add: sbv_reset_def Let_def flip: p_def es_def e_def)
      note split = slot_bits_split(2) [OF slot]
      show ?thesis
      proof (cases "sbve_empty e")
        case empty: True
        then have "elem_bits (es ! p) - {idx} = {}" using e sbve_empty_bits by blast
        then show ?thesis
          using r empty True elems_erase [OF ok slot] split
          by (auto simp: sbv_inv_def sbv_bits_def list_erase_def simp flip: es_def)
      next
        case nonempty: False
        then have "elem_ok e" using e okp True by (auto simp: elem_ok_def)
        then show ?thesis
          using r nonempty True elems_replace [OF ok, of e p] slot split e
          by (simp add: sbv_inv_def sbv_bits_def flip: es_def)
      qed
    qed
  qed
  then show "sbv_inv (sbv_reset s idx)" "sbv_bits (sbv_reset s idx) = sbv_bits s - {idx}" by auto
qed


lemma emplace_update:
  "p \<le> length es \<Longrightarrow> (list_emplace es p x)[p := y] = list_emplace es p y"
  "p \<le> length es \<Longrightarrow> list_emplace es p x ! p = x"
  by (simp_all add: list_emplace_def list_update_append nth_append)

lemma fresh_element:
  assumes "idx < 2 ^ 32"
  defines "x \<equiv> sbve_set (sbve_new (idx div 128)) (idx mod 128)"
  shows "elem_ok x" "ElementIndex x = idx div 128" "elem_bits x = {idx}"
proof -
  have "idx div 128 < 2 ^ 25" using assms(1) by (simp add: less_mult_imp_div_less)
  moreover show bits: "elem_bits x = {idx}" by (simp add: x_def elem_bits_set)
  moreover show i: "ElementIndex x = idx div 128" by (simp add: x_def sbve_set_spec)
  moreover have "sbve_ok x" by (simp add: x_def sbve_set_spec)
  ultimately show "elem_ok x" by (intro elem_okI) (simp_all only:, simp)
qed

lemma updated_element:
  assumes "elem_ok e" "ElementIndex e = idx div 128"
  defines "x \<equiv> sbve_set e (idx mod 128)"
  shows "elem_ok x" "ElementIndex x = idx div 128" "elem_bits x = insert idx (elem_bits e)"
proof -
  show bits: "elem_bits x = insert idx (elem_bits e)" using assms by (simp add: elem_bits_set)
  show i: "ElementIndex x = idx div 128" using assms by (simp add: sbve_set_spec)
  have "sbve_ok x" using assms by (simp add: sbve_set_spec)
  then show "elem_ok x" using assms(1) bits i assms(2) by (intro elem_okI) (auto simp: elem_ok_def)
qed

text \<open>\<open>set\<close> inserts behind the slot when the element found is smaller.\<close>

lemma slot_insert_place:
  assumes "slot es i p" "p < length es \<Longrightarrow> ElementIndex (es ! p) \<noteq> i"
  defines "p' \<equiv> (if p \<noteq> length es \<and> ElementIndex (es ! p) < i then p + 1 else p)"
  shows "p' \<le> length es" "\<forall>e \<in> set (take p' es). ElementIndex e < i"
    "\<forall>e \<in> set (drop p' es). i < ElementIndex e"
proof -
  have le: "p \<le> length es" using assms(1) by (simp add: slot_def)
  then show "p' \<le> length es" by (auto simp: p'_def)
  show "\<forall>e \<in> set (take p' es). ElementIndex e < i"
    using assms(1) le by (auto simp: p'_def slot_def take_Suc_conv_app_nth)
  show "\<forall>e \<in> set (drop p' es). i < ElementIndex e"
  proof (cases "p < length es")
    case True
    then have "drop p es = es ! p # drop (Suc p) es" by (simp add: Cons_nth_drop_Suc)
    then show ?thesis using assms(1,2) True by (auto simp: p'_def slot_def)
  qed (use le in \<open>auto simp: p'_def\<close>)
qed

lemma sbv_set_spec:
  assumes inv: "sbv_inv s" and idx: "idx < 2 ^ 32"
  shows "sbv_inv (sbv_set s idx) \<and> sbv_bits (sbv_set s idx) = insert idx (sbv_bits s)"
proof (cases "Elements s = []")
  case True
  then show ?thesis
    using fresh_element [OF idx] by (simp add: sbv_set_def sbv_inv_def sbv_bits_def elems_ok_Cons)
next
  case ne: False
  define es where "es = Elements s"
  define i where "i = idx div 128"
  define p where "p = FindLowerBound s i"
  have slot: "slot es i p" unfolding p_def es_def by (rule FindLowerBound_slot [OF inv ne])
  then have le: "p \<le> length es" by (simp add: slot_def)
  have ok: "elems_ok es" using inv by (simp add: es_def sbv_inv_def)
  show ?thesis
  proof (cases "p < length es \<and> ElementIndex (es ! p) = i")
    case True
    define x where "x = sbve_set (es ! p) (idx mod 128)"
    have "sbv_set s idx = s\<lparr>Elements := es[p := x], CurrElementIter := p\<rparr>"
      using ne True by (simp add: sbv_set_def Let_def x_def flip: p_def es_def i_def)
    moreover have "elem_ok x" "ElementIndex x = i" "elem_bits x = insert idx (elem_bits (es ! p))"
      using updated_element [of "es ! p" idx] ok True by (simp_all add: elem_ok_nth x_def i_def)
    ultimately show ?thesis
      using elems_replace [OF ok, of x p] slot_bits_split(1) [of es idx p] slot True
      by (simp add: sbv_inv_def sbv_bits_def i_def flip: es_def)
  next
    case False
    define q where "q = (if p \<noteq> length es \<and> ElementIndex (es ! p) < i then p + 1 else p)"
    define x where "x = sbve_set (sbve_new i) (idx mod 128)"
    have q: "q \<le> length es" "\<forall>e \<in> set (take q es). ElementIndex e < i"
        "\<forall>e \<in> set (drop q es). i < ElementIndex e"
      unfolding q_def by (rule slot_insert_place [OF slot], use False in blast)+
    have r: "sbv_set s idx = s\<lparr>Elements := list_emplace es q x, CurrElementIter := q\<rparr>"
      using ne False le
      by (auto simp: sbv_set_def Let_def x_def emplace_update q_def simp flip: p_def es_def i_def)
    have "elem_ok x" "ElementIndex x = i" "elem_bits x = {idx}"
      using fresh_element [OF idx] by (simp_all add: x_def i_def)
    then have "elems_ok (list_emplace es q x)" "elems_bits (list_emplace es q x) = insert idx (elems_bits es)"
      using elems_emplace [OF ok, of x q] q(2,3) by simp_all
    moreover have "length (list_emplace es q x) = Suc (length es)"
      using q(1) by (simp add: list_emplace_def)
    ultimately show ?thesis
      using r q(1) by (simp add: sbv_inv_def sbv_bits_def flip: es_def)
  qed
qed

lemma sbv_test_and_set_spec:
  assumes inv: "sbv_inv s" and idx: "idx < 2 ^ 32"
  shows "fst (sbv_test_and_set s idx) \<longleftrightarrow> idx \<notin> sbv_bits s"
    "sbv_inv (snd (sbv_test_and_set s idx))"
    "sbv_bits (snd (sbv_test_and_set s idx)) = insert idx (sbv_bits s)"
proof -
  obtain old t where t: "sbv_test s idx = (old, t)" by fastforce
  then have spec: "old \<longleftrightarrow> idx \<in> sbv_bits s" "sbv_bits t = sbv_bits s" "sbv_inv t"
    using sbv_test_spec [OF inv, of idx] by (auto simp: sbv_bits_def)
  then show "fst (sbv_test_and_set s idx) \<longleftrightarrow> idx \<notin> sbv_bits s"
    "sbv_inv (snd (sbv_test_and_set s idx))"
    "sbv_bits (snd (sbv_test_and_set s idx)) = insert idx (sbv_bits s)"
    using sbv_set_spec [OF spec(3) idx] by (auto simp: sbv_test_and_set_def t)
qed


section \<open>Loops over two element lists\<close>

lemma disjoint_above:
  "(\<forall>f \<in> set fs. ElementIndex e < ElementIndex f) \<Longrightarrow> elem_bits e \<inter> elems_bits fs = {}"
  by (rule disjoint_index) auto

lemma elems_head:
  assumes "elems_ok (x # xs)"
  shows "elem_ok x" "elems_ok xs" "elem_bits x \<inter> elems_bits xs = {}" "elem_bits x \<noteq> {}"
  using assms by (simp_all add: elems_ok_Cons elem_ok_nonempty disjoint_above)

lemma elems_below:
  assumes "elems_ok (y # ys)" "ElementIndex x < ElementIndex y"
  shows "elem_bits x \<inter> (elem_bits y \<union> elems_bits ys) = {}"
    "\<forall>f \<in> set (y # ys). ElementIndex x < ElementIndex f"
proof -
  show *: "\<forall>f \<in> set (y # ys). ElementIndex x < ElementIndex f"
    using assms by (auto simp: elems_ok_Cons intro: less_trans)
  then show "elem_bits x \<inter> (elem_bits y \<union> elems_bits ys) = {}"
    using disjoint_index [of "y # ys" x] by fastforce
qed

lemma elems_same:
  assumes "elems_ok (x # xs)" "elems_ok (y # ys)" "ElementIndex x = ElementIndex y"
  shows "elem_bits x \<inter> elems_bits ys = {}" "elem_bits y \<inter> elems_bits xs = {}"
  using assms by (simp_all add: elems_ok_Cons disjoint_above)

definition indices :: "sbve list \<Rightarrow> nat set" where
  "indices es = ElementIndex ` set es"

lemma indices_simps [simp]:
  "indices [] = {}" "indices (e # es) = insert (ElementIndex e) (indices es)"
  by (simp_all add: indices_def)

lemma elems_ok_ConsI:
  "elem_ok e \<Longrightarrow> elems_ok es \<Longrightarrow> (\<And>i. i \<in> indices es \<Longrightarrow> ElementIndex e < i) \<Longrightarrow> elems_ok (e # es)"
  by (auto simp: elems_ok_Cons indices_def)

lemma elems_ok_indices:
  "elems_ok (e # es) \<Longrightarrow> i \<in> indices es \<Longrightarrow> ElementIndex e < i"
  by (auto simp: elems_ok_Cons indices_def)

lemma or_elems_indices: "or_elems xs ys ch = (ch', r) \<Longrightarrow> indices r \<subseteq> indices xs \<union> indices ys"
proof (induction xs ys ch arbitrary: ch' r rule: or_elems.induct)
  case (3 x xs y ys ch)
  then show ?case
    by (force simp: unionWith_def split: if_splits prod.splits)
qed (fastforce split: prod.splits)+

lemma unionWith_ok:
  assumes "elem_ok x" "elem_ok y" "ElementIndex y = ElementIndex x" "unionWith x y = (c, x')"
  shows "elem_ok x'" "ElementIndex x' = ElementIndex x" "elem_bits x' = elem_bits x \<union> elem_bits y"
    "c \<longleftrightarrow> \<not> elem_bits y \<subseteq> elem_bits x"
proof -
  note u = unionWith_spec [of x y c x', OF _ _ assms(3,4)]
  show "ElementIndex x' = ElementIndex x" "elem_bits x' = elem_bits x \<union> elem_bits y"
      "c \<longleftrightarrow> \<not> elem_bits y \<subseteq> elem_bits x"
    using u assms(1,2) by auto
  then show "elem_ok x'" using u(1) assms(1,2) elem_ok_nonempty [OF assms(1)]
    by (intro elem_okI) (auto simp: elem_ok_def)
qed

lemma or_elems_spec:
  assumes "elems_ok xs" "elems_ok ys" "or_elems xs ys ch = (ch', r)"
  shows "elems_ok r \<and> elems_bits r = elems_bits xs \<union> elems_bits ys \<and>
    (ch' \<longleftrightarrow> ch \<or> \<not> elems_bits ys \<subseteq> elems_bits xs)"
  using assms
proof (induction xs ys ch arbitrary: ch' r rule: or_elems.induct)
  case (2 y ys ch)
  obtain c r' where r': "or_elems [] ys True = (c, r')" by fastforce
  have "elems_ok r'" "elems_bits r' = elems_bits ys" "c"
    using "2.IH" [OF _ elems_head(2) [OF "2.prems"(2)] r'] by auto
  moreover have "elems_ok (y # r')"
  proof (rule elems_ok_ConsI)
    show "elem_ok y" "elems_ok r'" using "2.prems" elems_head \<open>elems_ok r'\<close> by auto
    show "ElementIndex y < i" if "i \<in> indices r'" for i
      using that or_elems_indices [OF r'] elems_ok_indices [OF "2.prems"(2)] by auto
  qed
  ultimately show ?case using "2.prems" r' elems_head(4) by auto
next
  case (3 x xs y ys ch)
  note X = elems_head [OF "3.prems"(1)] and Y = elems_head [OF "3.prems"(2)]
  consider (gt) "ElementIndex y < ElementIndex x" | (eq) "ElementIndex x = ElementIndex y"
    | (lt) "ElementIndex x < ElementIndex y" by linarith
  then show ?case
  proof cases
    case gt
    obtain c r' where r': "or_elems (x # xs) ys True = (c, r')" by fastforce
    note IH = "3.IH"(1) [OF gt "3.prems"(1) Y(2) r']
    note B = elems_below [OF "3.prems"(1) gt]
    have "elems_ok (y # r')"
    proof (rule elems_ok_ConsI)
      show "ElementIndex y < i" if "i \<in> indices r'" for i
        using that or_elems_indices [OF r'] elems_ok_indices [OF "3.prems"(2)] B(2)
        by (auto simp: indices_def)
    qed (use Y IH in auto)
    moreover have "ch' = c" "r = y # r'" using "3.prems"(3) gt r' by auto
    ultimately show ?thesis using IH B(1) Y(4) by auto
  next
    case eq
    obtain c x' where u: "unionWith x y = (c, x')" by fastforce
    obtain c' r' where r': "or_elems xs ys (ch \<or> c) = (c', r')" by fastforce
    have res: "ch' = c'" "r = x' # r'" using "3.prems"(3) eq u r' by auto
    have IH: "elems_ok r'" "elems_bits r' = elems_bits xs \<union> elems_bits ys"
        "c' \<longleftrightarrow> (ch \<or> c) \<or> \<not> elems_bits ys \<subseteq> elems_bits xs"
      using "3.IH"(2) [OF _ eq u [symmetric] refl X(2) Y(2) r'] eq by auto
    note U = unionWith_ok [OF X(1) Y(1) eq [symmetric] u]
    note S = elems_same [OF "3.prems"(1,2) eq]
    have "elems_ok (x' # r')"
    proof (rule elems_ok_ConsI)
      show "ElementIndex x' < i" if "i \<in> indices r'" for i
        using that or_elems_indices [OF r'] elems_ok_indices [OF "3.prems"(1)]
          elems_ok_indices [OF "3.prems"(2)] U(2) eq by auto
    qed (use U IH in auto)
    moreover have "(elem_bits y \<union> elems_bits ys \<subseteq> elem_bits x \<union> elems_bits xs) \<longleftrightarrow>
        elem_bits y \<subseteq> elem_bits x \<and> elems_bits ys \<subseteq> elems_bits xs"
      using S by blast
    ultimately show ?thesis using IH U(3,4) res by auto
  next
    case lt
    obtain c' r' where r': "or_elems xs (y # ys) ch = (c', r')" by fastforce
    have res: "ch' = c'" "r = x # r'" using "3.prems"(3) lt r' by auto
    have IH: "elems_ok r'" "elems_bits r' = elems_bits xs \<union> elems_bits (y # ys)"
        "c' \<longleftrightarrow> ch \<or> \<not> elems_bits (y # ys) \<subseteq> elems_bits xs"
      using "3.IH"(3) [OF _ _ X(2) "3.prems"(2) r'] lt by auto
    note B = elems_below [OF "3.prems"(2) lt]
    have "elems_ok (x # r')"
    proof (rule elems_ok_ConsI)
      show "ElementIndex x < i" if "i \<in> indices r'" for i
        using that or_elems_indices [OF r'] elems_ok_indices [OF "3.prems"(1)] B(2)
        by (auto simp: indices_def)
    qed (use X IH in auto)
    then show ?thesis using IH B(1) res by auto
  qed
qed auto


lemma and_elems_indices: "and_elems xs ys ch = (ch', r) \<Longrightarrow> indices r \<subseteq> indices xs"
proof (induction xs ys ch arbitrary: ch' r rule: and_elems.induct)
  case (3 x xs y ys ch)
  consider (gt) "ElementIndex y < ElementIndex x" | (eq) "ElementIndex x = ElementIndex y"
    | (lt) "ElementIndex x < ElementIndex y" by linarith
  then show ?case
  proof cases
    case gt
    then show ?thesis using 3 by simp
  next
    case eq
    obtain c z x' where u: "intersectWith x y = (c, z, x')" by (metis prod_cases3)
    obtain c' r' where r': "and_elems xs ys (ch \<or> c) = (c', r')" by fastforce
    have "indices r' \<subseteq> indices xs" using "3.IH"(2) [OF _ eq u [symmetric] refl refl r'] eq by simp
    moreover have "ElementIndex x' = ElementIndex x"
      using u by (auto simp: intersectWith_def split: prod.splits)
    moreover have "r = (if z then r' else x' # r')" using "3.prems" eq u r' by auto
    ultimately show ?thesis by auto
  next
    case lt
    then have "and_elems xs (y # ys) True = (ch', r)" using "3.prems" by simp
    then show ?thesis using "3.IH"(3) lt by fastforce
  qed
qed auto

lemma intersectWith_ok:
  assumes "elem_ok x" "elem_ok y" "ElementIndex y = ElementIndex x" "intersectWith x y = (c, z, x')"
  shows "\<not> z \<longrightarrow> elem_ok x'" "ElementIndex x' = ElementIndex x" "elem_bits x' = elem_bits x \<inter> elem_bits y"
    "c \<longleftrightarrow> \<not> elem_bits x \<subseteq> elem_bits y" "z \<longleftrightarrow> elem_bits x' = {}"
proof -
  note u = intersectWith_spec [of x y c z x', OF _ _ assms(3,4)]
  have ok: "sbve_ok x" "sbve_ok y" using assms(1,2) by simp_all
  note u = u [OF ok]
  show i: "ElementIndex x' = ElementIndex x" and z: "z \<longleftrightarrow> elem_bits x' = {}"
    and "elem_bits x' = elem_bits x \<inter> elem_bits y" "c \<longleftrightarrow> \<not> elem_bits x \<subseteq> elem_bits y"
    using u(2-5) by blast+
  have "ElementIndex x < 2 ^ 25" using assms(1) by (simp add: elem_ok_def)
  then show "\<not> z \<longrightarrow> elem_ok x'" using u(1) i z by (metis elem_okI)
qed

text \<open>Dropping the result element when it became empty.\<close>

lemma keep_nonempty:
  assumes "elems_ok (x # xs)" "ElementIndex x' = ElementIndex x" "elems_ok r" "indices r \<subseteq> indices xs"
    and "\<not> z \<longrightarrow> elem_ok x'" "z \<longleftrightarrow> elem_bits x' = {}"
  shows "elems_ok (if z then r else x' # r) \<and>
    elems_bits (if z then r else x' # r) = elem_bits x' \<union> elems_bits r"
  using assms elems_ok_indices [OF assms(1)] by (auto intro!: elems_ok_ConsI)

lemma and_elems_spec:
  assumes "elems_ok xs" "elems_ok ys" "and_elems xs ys ch = (ch', r)"
  shows "elems_ok r \<and> elems_bits r = elems_bits xs \<inter> elems_bits ys \<and>
    (ch' \<longleftrightarrow> ch \<or> \<not> elems_bits xs \<subseteq> elems_bits ys)"
  using assms
proof (induction xs ys ch arbitrary: ch' r rule: and_elems.induct)
  case (2 x xs ch)
  then show ?case using elems_head(4) by auto
next
  case (3 x xs y ys ch)
  note X = elems_head [OF "3.prems"(1)] and Y = elems_head [OF "3.prems"(2)]
  consider (gt) "ElementIndex y < ElementIndex x" | (eq) "ElementIndex x = ElementIndex y"
    | (lt) "ElementIndex x < ElementIndex y" by linarith
  then show ?case
  proof cases
    case gt
    then show ?thesis
      using "3.IH"(1) [OF gt "3.prems"(1) Y(2)] "3.prems"(3) elems_below(1) [OF "3.prems"(1) gt] by auto
  next
    case eq
    obtain c z x' where u: "intersectWith x y = (c, z, x')" by (metis prod_cases3)
    obtain c' r' where r': "and_elems xs ys (ch \<or> c) = (c', r')" by fastforce
    have res: "ch' = c'" "r = (if z then r' else x' # r')" using "3.prems"(3) eq u r' by auto
    have IH: "elems_ok r'" "elems_bits r' = elems_bits xs \<inter> elems_bits ys"
        "c' \<longleftrightarrow> (ch \<or> c) \<or> \<not> elems_bits xs \<subseteq> elems_bits ys"
      using "3.IH"(2) [OF _ eq u [symmetric] refl refl X(2) Y(2) r'] eq by auto
    note U = intersectWith_ok [OF X(1) Y(1) eq [symmetric] u]
    note S = elems_same [OF "3.prems"(1,2) eq]
    have "elems_ok r" "elems_bits r = elem_bits x' \<union> elems_bits r'"
      using keep_nonempty [OF "3.prems"(1) U(2) IH(1) and_elems_indices [OF r'] U(1,5)] res by auto
    moreover have "(elem_bits x \<union> elems_bits xs \<subseteq> elem_bits y \<union> elems_bits ys) \<longleftrightarrow>
        elem_bits x \<subseteq> elem_bits y \<and> elems_bits xs \<subseteq> elems_bits ys"
      "(elem_bits x \<union> elems_bits xs) \<inter> (elem_bits y \<union> elems_bits ys) =
        (elem_bits x \<inter> elem_bits y) \<union> (elems_bits xs \<inter> elems_bits ys)"
      using S by blast+
    ultimately show ?thesis using IH U(3,4) res by auto
  next
    case lt
    then have "and_elems xs (y # ys) True = (ch', r)" using "3.prems"(3) by auto
    then show ?thesis
      using "3.IH"(3) [OF _ _ X(2) "3.prems"(2)] lt elems_below(1) [OF "3.prems"(2) lt] X(4) by auto
  qed
qed auto

lemma minus_elems_indices: "minus_elems xs ys ch = (ch', r) \<Longrightarrow> indices r \<subseteq> indices xs"
proof (induction xs ys ch arbitrary: ch' r rule: minus_elems.induct)
  case (3 x xs y ys ch)
  consider (gt) "ElementIndex y < ElementIndex x" | (eq) "ElementIndex x = ElementIndex y"
    | (lt) "ElementIndex x < ElementIndex y" by linarith
  then show ?case
  proof cases
    case gt
    then show ?thesis using 3 by simp
  next
    case eq
    obtain c z x' where u: "sbve_intersectWithComplement x y = (c, z, x')" by (metis prod_cases3)
    obtain c' r' where r': "minus_elems xs ys (ch \<or> c) = (c', r')" by fastforce
    have "indices r' \<subseteq> indices xs" using "3.IH"(2) [OF _ eq u [symmetric] refl refl r'] eq by simp
    moreover have "ElementIndex x' = ElementIndex x"
      using u by (auto simp: sbve_intersectWithComplement_def split: prod.splits)
    moreover have "r = (if z then r' else x' # r')" using "3.prems" eq u r' by auto
    ultimately show ?thesis by auto
  next
    case lt
    obtain c' r' where r': "minus_elems xs (y # ys) ch = (c', r')" by fastforce
    then have "r = x # r'" using "3.prems" lt by auto
    moreover have "indices r' \<subseteq> indices xs" using "3.IH"(3) [OF _ _ r'] lt by auto
    ultimately show ?thesis by auto
  qed
qed auto

lemma elem_minus_ok:
  assumes "elem_ok x" "elem_ok y" "ElementIndex y = ElementIndex x"
    and "sbve_intersectWithComplement x y = (c, z, x')"
  shows "\<not> z \<longrightarrow> elem_ok x'" "ElementIndex x' = ElementIndex x" "elem_bits x' = elem_bits x - elem_bits y"
    "c \<longleftrightarrow> elem_bits x \<inter> elem_bits y \<noteq> {}" "z \<longleftrightarrow> elem_bits x' = {}"
proof -
  note u = elem_minus_spec [of x y c z x', OF _ _ assms(3,4)]
  have ok: "sbve_ok x" "sbve_ok y" using assms(1,2) by simp_all
  note u = u [OF ok]
  show i: "ElementIndex x' = ElementIndex x" and z: "z \<longleftrightarrow> elem_bits x' = {}"
    and "elem_bits x' = elem_bits x - elem_bits y" "c \<longleftrightarrow> elem_bits x \<inter> elem_bits y \<noteq> {}"
    using u(2-5) by blast+
  have "ElementIndex x < 2 ^ 25" using assms(1) by (simp add: elem_ok_def)
  then show "\<not> z \<longrightarrow> elem_ok x'" using u(1) i z by (metis elem_okI)
qed

lemma minus_elems_spec:
  assumes "elems_ok xs" "elems_ok ys" "minus_elems xs ys ch = (ch', r)"
  shows "elems_ok r \<and> elems_bits r = elems_bits xs - elems_bits ys \<and>
    (ch' \<longleftrightarrow> ch \<or> elems_bits xs \<inter> elems_bits ys \<noteq> {})"
  using assms
proof (induction xs ys ch arbitrary: ch' r rule: minus_elems.induct)
  case (3 x xs y ys ch)
  note X = elems_head [OF "3.prems"(1)] and Y = elems_head [OF "3.prems"(2)]
  consider (gt) "ElementIndex y < ElementIndex x" | (eq) "ElementIndex x = ElementIndex y"
    | (lt) "ElementIndex x < ElementIndex y" by linarith
  then show ?case
  proof cases
    case gt
    then show ?thesis
      using "3.IH"(1) [OF gt "3.prems"(1) Y(2)] "3.prems"(3) elems_below(1) [OF "3.prems"(1) gt] by auto
  next
    case eq
    obtain c z x' where u: "sbve_intersectWithComplement x y = (c, z, x')" by (metis prod_cases3)
    obtain c' r' where r': "minus_elems xs ys (ch \<or> c) = (c', r')" by fastforce
    have res: "ch' = c'" "r = (if z then r' else x' # r')" using "3.prems"(3) eq u r' by auto
    have IH: "elems_ok r'" "elems_bits r' = elems_bits xs - elems_bits ys"
        "c' \<longleftrightarrow> (ch \<or> c) \<or> elems_bits xs \<inter> elems_bits ys \<noteq> {}"
      using "3.IH"(2) [OF _ eq u [symmetric] refl refl X(2) Y(2) r'] eq by auto
    note U = elem_minus_ok [OF X(1) Y(1) eq [symmetric] u]
    note S = elems_same [OF "3.prems"(1,2) eq]
    have "elems_ok r" "elems_bits r = elem_bits x' \<union> elems_bits r'"
      using keep_nonempty [OF "3.prems"(1) U(2) IH(1) minus_elems_indices [OF r'] U(1,5)] res by auto
    moreover have "(elem_bits x \<union> elems_bits xs) \<inter> (elem_bits y \<union> elems_bits ys) =
        (elem_bits x \<inter> elem_bits y) \<union> (elems_bits xs \<inter> elems_bits ys)"
      "(elem_bits x \<union> elems_bits xs) - (elem_bits y \<union> elems_bits ys) =
        (elem_bits x - elem_bits y) \<union> (elems_bits xs - elems_bits ys)"
      using S by blast+
    ultimately show ?thesis using IH U(3,4) res(1) by simp
  next
    case lt
    obtain c' r' where r': "minus_elems xs (y # ys) ch = (c', r')" by fastforce
    have res: "ch' = c'" "r = x # r'" using "3.prems"(3) lt r' by auto
    have IH: "elems_ok r'" "elems_bits r' = elems_bits xs - elems_bits (y # ys)"
        "c' \<longleftrightarrow> ch \<or> elems_bits xs \<inter> elems_bits (y # ys) \<noteq> {}"
      using "3.IH"(3) [OF _ _ X(2) "3.prems"(2) r'] lt by auto
    have "elems_ok (x # r')"
      using minus_elems_indices [OF r'] elems_ok_indices [OF "3.prems"(1)] X(1) IH(1)
      by (intro elems_ok_ConsI) auto
    then show ?thesis using IH elems_below(1) [OF "3.prems"(2) lt] res by auto
  qed
qed auto

text \<open>The three-argument subtraction computes the same list.\<close>

lemma minus2_elems_eq:
  "elems_ok xs \<Longrightarrow> elems_ok ys \<Longrightarrow> minus2_elems xs ys = snd (minus_elems xs ys ch)"
proof (induction xs ys ch rule: minus_elems.induct)
  case (3 x xs y ys ch)
  note X = elems_head [OF "3.prems"(1)] and Y = elems_head [OF "3.prems"(2)]
  consider (gt) "ElementIndex y < ElementIndex x" | (eq) "ElementIndex x = ElementIndex y"
    | (lt) "ElementIndex x < ElementIndex y" by linarith
  then show ?case
  proof cases
    case gt
    then show ?thesis using "3.IH"(1) [OF gt "3.prems"(1) Y(2)] by simp
  next
    case eq
    obtain c z x' where u: "sbve_intersectWithComplement x y = (c, z, x')" by (metis prod_cases3)
    have "sbve_intersectWithComplement2 (sbve_new (ElementIndex x)) x y = (z, x')"
      using elem_minus2_eq [of x y] X(1) Y(1) u by simp
    moreover have "minus2_elems xs ys = snd (minus_elems xs ys (ch \<or> c))"
      using "3.IH"(2) [OF _ eq u [symmetric] refl refl X(2) Y(2)] eq by simp
    ultimately show ?thesis using eq u by (simp add: split_def Let_def)
  next
    case lt
    then have "minus2_elems xs (y # ys) = snd (minus_elems xs (y # ys) ch)"
      using "3.IH"(3) [OF _ _ X(2) "3.prems"(2)] by simp
    then show ?thesis using lt by (simp add: split_def Let_def)
  qed
qed auto

lemma intersects_elems_spec:
  "elems_ok xs \<Longrightarrow> elems_ok ys \<Longrightarrow> intersects_elems xs ys \<longleftrightarrow> elems_bits xs \<inter> elems_bits ys \<noteq> {}"
proof (induction xs ys rule: intersects_elems.induct)
  case (1 x xs y ys)
  note X = elems_head [OF "1.prems"(1)] and Y = elems_head [OF "1.prems"(2)]
  consider (gt) "ElementIndex y < ElementIndex x" | (eq) "ElementIndex x = ElementIndex y"
    | (lt) "ElementIndex x < ElementIndex y" by linarith
  then show ?case
  proof cases
    case gt
    then show ?thesis using 1 X Y elems_below(1) [OF "1.prems"(1) gt] by auto
  next
    case eq
    then show ?thesis
      using 1 X Y elems_same [OF "1.prems"(1,2) eq] sbve_intersects_bits [of x y] by auto
  next
    case lt
    then show ?thesis using 1 X Y elems_below(1) [OF "1.prems"(2) lt] by auto
  qed
qed auto


section \<open>The operations\<close>

lemma sbv_inv_new [simp]: "sbv_inv sbv_new" "sbv_bits sbv_new = {}"
  by (simp_all add: sbv_inv_def sbv_new_def sbv_bits_def)

lemma sbv_copy_spec: "sbv_inv s \<Longrightarrow> sbv_inv (sbv_copy s)" "sbv_bits (sbv_copy s) = sbv_bits s"
  by (simp_all add: sbv_inv_def sbv_copy_def sbv_bits_def)

lemma sbv_clear_spec: "sbv_inv (sbv_clear s)" "sbv_bits (sbv_clear s) = {}"
  by (simp_all add: sbv_inv_def sbv_clear_def sbv_bits_def)

lemma sbv_empty_bits:
  assumes "sbv_inv s" shows "sbv_empty s \<longleftrightarrow> sbv_bits s = {}"
  using assms elem_ok_nonempty
  by (cases "Elements s") (auto simp: sbv_empty_def sbv_bits_def sbv_inv_def elems_ok_Cons)

lemma elems_bits_nonempty: "elems_ok es \<Longrightarrow> es \<noteq> [] \<Longrightarrow> elems_bits es \<noteq> {}"
  using elem_ok_nonempty by (cases es) (auto simp: elems_ok_Cons)

lemma sbv_or_assign_spec:
  assumes "sbv_inv s" "sbv_inv rhs" "sbv_or_assign s rhs = (ch, s')"
  shows "sbv_inv s'" "sbv_bits s' = sbv_bits s \<union> sbv_bits rhs" "ch \<longleftrightarrow> sbv_bits s' \<noteq> sbv_bits s"
proof -
  have "sbv_inv s' \<and> sbv_bits s' = sbv_bits s \<union> sbv_bits rhs \<and> (ch \<longleftrightarrow> sbv_bits s' \<noteq> sbv_bits s)"
  proof (cases "Elements rhs = []")
    case False
    obtain c es where e: "or_elems (Elements s) (Elements rhs) False = (c, es)" by fastforce
    then have "ch = c" "s' = s\<lparr>Elements := es, CurrElementIter := 0\<rparr>"
      using assms(3) False by (auto simp: sbv_or_assign_def)
    then show ?thesis
      using or_elems_spec [OF _ _ e] assms(1,2) by (auto simp: sbv_inv_def sbv_bits_def)
  qed (use assms in \<open>auto simp: sbv_or_assign_def sbv_bits_def\<close>)
  then show "sbv_inv s'" "sbv_bits s' = sbv_bits s \<union> sbv_bits rhs" "ch \<longleftrightarrow> sbv_bits s' \<noteq> sbv_bits s"
    by blast+
qed

lemma sbv_and_assign_spec:
  assumes "sbv_inv s" "sbv_inv rhs" "sbv_and_assign s rhs = (ch, s')"
  shows "sbv_inv s'" "sbv_bits s' = sbv_bits s \<inter> sbv_bits rhs" "ch \<longleftrightarrow> sbv_bits s' \<noteq> sbv_bits s"
proof -
  have "sbv_inv s' \<and> sbv_bits s' = sbv_bits s \<inter> sbv_bits rhs \<and> (ch \<longleftrightarrow> sbv_bits s' \<noteq> sbv_bits s)"
  proof (cases "Elements s = [] \<and> Elements rhs = []")
    case False
    obtain c es where e: "and_elems (Elements s) (Elements rhs) False = (c, es)" by fastforce
    then have "ch = c" "s' = s\<lparr>Elements := es, CurrElementIter := 0\<rparr>"
      using assms(3) False by (auto simp: sbv_and_assign_def)
    then show ?thesis
      using and_elems_spec [OF _ _ e] assms(1,2) by (auto simp: sbv_inv_def sbv_bits_def)
  qed (use assms in \<open>auto simp: sbv_and_assign_def sbv_bits_def\<close>)
  then show "sbv_inv s'" "sbv_bits s' = sbv_bits s \<inter> sbv_bits rhs" "ch \<longleftrightarrow> sbv_bits s' \<noteq> sbv_bits s"
    by blast+
qed

lemma sbv_minus_spec:
  assumes "sbv_inv s" "sbv_inv rhs" "sbv_intersectWithComplement s rhs = (ch, s')"
  shows "sbv_inv s'" "sbv_bits s' = sbv_bits s - sbv_bits rhs" "ch \<longleftrightarrow> sbv_bits s' \<noteq> sbv_bits s"
proof -
  have "sbv_inv s' \<and> sbv_bits s' = sbv_bits s - sbv_bits rhs \<and> (ch \<longleftrightarrow> sbv_bits s' \<noteq> sbv_bits s)"
  proof (cases "Elements s = [] \<or> Elements rhs = []")
    case False
    obtain c es where e: "minus_elems (Elements s) (Elements rhs) False = (c, es)" by fastforce
    then have "ch = c" "s' = s\<lparr>Elements := es, CurrElementIter := 0\<rparr>"
      using assms(3) False by (auto simp: sbv_intersectWithComplement_def)
    then show ?thesis
      using minus_elems_spec [OF _ _ e] assms(1,2) by (auto simp: sbv_inv_def sbv_bits_def)
  qed (use assms in \<open>auto simp: sbv_intersectWithComplement_def sbv_bits_def\<close>)
  then show "sbv_inv s'" "sbv_bits s' = sbv_bits s - sbv_bits rhs" "ch \<longleftrightarrow> sbv_bits s' \<noteq> sbv_bits s"
    by blast+
qed

lemma sbv_minus2_spec:
  assumes "sbv_inv rhs1" "sbv_inv rhs2"
  shows "sbv_inv (sbv_intersectWithComplement2 s rhs1 rhs2)"
    "sbv_bits (sbv_intersectWithComplement2 s rhs1 rhs2) = sbv_bits rhs1 - sbv_bits rhs2"
proof -
  obtain c es where e: "minus_elems (Elements rhs1) (Elements rhs2) False = (c, es)" by fastforce
  have "minus2_elems (Elements rhs1) (Elements rhs2) = es"
    using assms minus2_elems_eq [of _ _ False] e by (simp add: sbv_inv_def)
  then show "sbv_inv (sbv_intersectWithComplement2 s rhs1 rhs2)"
    "sbv_bits (sbv_intersectWithComplement2 s rhs1 rhs2) = sbv_bits rhs1 - sbv_bits rhs2"
    using minus_elems_spec [OF _ _ e] assms
    by (auto simp: sbv_intersectWithComplement2_def sbv_inv_def sbv_bits_def)
qed

lemma sbv_intersects_spec:
  "sbv_inv s \<Longrightarrow> sbv_inv rhs \<Longrightarrow> sbv_intersects s rhs \<longleftrightarrow> sbv_bits s \<inter> sbv_bits rhs \<noteq> {}"
  by (auto simp: sbv_intersects_def intersects_elems_spec sbv_inv_def sbv_bits_def)

text \<open>The list of elements is canonical: two well-formed lists with the same bits are equal.\<close>

lemma eq_elems_iff:
  "elems_ok xs \<Longrightarrow> elems_ok ys \<Longrightarrow> eq_elems xs ys \<longleftrightarrow> xs = ys"
  by (induction xs ys rule: eq_elems.induct) (auto simp: elems_ok_Cons sbve_eq_iff)

lemma elem_bits_min:
  assumes "elems_ok (x # xs)" "elems_ok (y # ys)"
    and "elem_bits x \<union> elems_bits xs = elem_bits y \<union> elems_bits ys"
  shows "ElementIndex x = ElementIndex y"
proof (rule ccontr)
  assume "ElementIndex x \<noteq> ElementIndex y"
  then consider "ElementIndex x < ElementIndex y" | "ElementIndex y < ElementIndex x" by linarith
  then show False
    using assms elems_below(1) elems_head(4) by cases blast+
qed

lemma elems_bits_inj:
  "elems_ok xs \<Longrightarrow> elems_ok ys \<Longrightarrow> elems_bits xs = elems_bits ys \<Longrightarrow> xs = ys"
proof (induction xs arbitrary: ys)
  case Nil
  then show ?case using elems_bits_nonempty by fastforce
next
  case (Cons x xs)
  then obtain y ys' where ys: "ys = y # ys'" using elem_ok_nonempty by (cases ys) (auto simp: elems_ok_Cons)
  note ok = Cons.prems(1) Cons.prems(2) [unfolded ys]
  have i: "ElementIndex x = ElementIndex y"
    using elem_bits_min [OF ok] Cons.prems(3) ys by simp
  have "elem_bits x = elem_bits y" "elems_bits xs = elems_bits ys'"
    using elems_same [OF ok i] elems_head(3) [OF ok(1)] elems_head(3) [OF ok(2)] Cons.prems(3) ys
    by auto
  then show ?case
    using Cons.IH ok i elem_bits_inj [OF _ _ i] ys by (auto simp: elems_ok_Cons)
qed

lemma sbv_eq_bits:
  assumes "sbv_inv s" "sbv_inv rhs"
  shows "sbv_eq s rhs \<longleftrightarrow> sbv_bits s = sbv_bits rhs"
  using assms elems_bits_inj by (auto simp: sbv_eq_def sbv_inv_def sbv_bits_def eq_elems_iff)

lemma sbv_contains_spec:
  assumes "sbv_inv s" "sbv_inv rhs"
  shows "sbv_contains s rhs \<longleftrightarrow> sbv_bits rhs \<subseteq> sbv_bits s"
proof -
  obtain c r where r: "sbv_and_assign (sbv_copy s) rhs = (c, r)" by fastforce
  note spec = sbv_and_assign_spec [OF sbv_copy_spec(1) [OF assms(1)] assms(2) r]
  then show ?thesis
    using sbv_eq_bits [OF spec(1) assms(2)] by (auto simp: sbv_contains_def r sbv_copy_spec)
qed

lemma fold_u32_add:
  "fold (\<lambda>e n. u32 (n + f e)) es (u32 a) = u32 (a + sum_list (map f es))"
  by (induction es arbitrary: a) (simp_all add: u32_add_left add.assoc)

lemma elems_bits_card:
  "elems_ok es \<Longrightarrow> card (elems_bits es) = sum_list (map sbve_count es)"
proof (induction es)
  case (Cons e es)
  then show ?case
    using elems_head [OF Cons.prems] by (simp add: card_Un_disjoint sbve_count_card)
qed simp

lemma sbv_count_spec:
  assumes "sbv_inv s" shows "sbv_count s = u32 (card (sbv_bits s))"
  using fold_u32_add [of sbve_count "Elements s" 0] elems_bits_card assms
  by (simp add: sbv_count_def sbv_inv_def sbv_bits_def u32_def)

text \<open>The cached position has no influence on what an operation computes.\<close>

lemma sbv_cache_irrelevant:
  assumes "sbv_inv s" "sbv_inv t" "Elements s = Elements t" "idx < 2 ^ 32"
  shows "fst (sbv_test s idx) = fst (sbv_test t idx)"
    "Elements (sbv_set s idx) = Elements (sbv_set t idx)"
    "Elements (sbv_reset s idx) = Elements (sbv_reset t idx)"
proof -
  have b: "sbv_bits s = sbv_bits t" using assms by (simp add: sbv_bits_def)
  then show "fst (sbv_test s idx) = fst (sbv_test t idx)"
    using assms by (simp add: sbv_test_spec)
  show "Elements (sbv_set s idx) = Elements (sbv_set t idx)"
    using sbv_set_spec [OF assms(1,4)] sbv_set_spec [OF assms(2,4)] b
    by (intro elems_bits_inj) (auto simp: sbv_inv_def sbv_bits_def)
  show "Elements (sbv_reset s idx) = Elements (sbv_reset t idx)"
    using sbv_reset_spec [OF assms(1)] sbv_reset_spec [OF assms(2)] b
    by (intro elems_bits_inj) (auto simp: sbv_inv_def sbv_bits_def)
qed

end
