(* ===== verification/SparseBitVecIter.thy ===== *)
theory SparseBitVecIter
  imports SparseBitVecSpec
begin

text \<open>
  The iterator of \<open>SparseBitVector\<close>: it visits every set position once, in increasing
  order, and no \<open>assert\<close> fails on a well-formed vector.
\<close>

section \<open>Where the iterator stands\<close>

definition it_elem :: "sbv \<Rightarrow> sbv_iter \<Rightarrow> sbve" where
  "it_elem s it = Elements s ! Iter it"

definition sbv_it_good :: "sbv \<Rightarrow> sbv_iter \<Rightarrow> bool" where
  "sbv_it_good s it \<longleftrightarrow> \<not> AtEnd it \<and> Iter it < length (Elements s) \<and>
     BitNumber it \<in> elem_bits (it_elem s it) \<and>
     ItBits it = drop_bit (BitNumber it mod 64) (Bits (it_elem s it) ! (BitNumber it mod 128 div 64))"

text \<open>The iterator stands on the first set position at or after \<open>m\<close>, or at the end.\<close>

definition sbv_it_at :: "sbv \<Rightarrow> nat \<Rightarrow> sbv_iter \<Rightarrow> bool" where
  "sbv_it_at s m it \<longleftrightarrow>
     (if AtEnd it then \<forall>n \<in> sbv_bits s. n < m
      else sbv_it_good s it \<and> m \<le> BitNumber it \<and> (\<forall>n \<in> sbv_bits s. m \<le> n \<longrightarrow> BitNumber it \<le> n))"

lemma sbv_bits_nth:
  "n \<in> sbv_bits s \<longleftrightarrow> (\<exists>i < length (Elements s). n \<in> elem_bits (Elements s ! i))"
  by (simp add: sbv_bits_def elems_bits_def) (metis in_set_conv_nth)

lemma elem_bits_order:
  assumes "sbv_inv s" "i < j" "j < length (Elements s)"
    and "n \<in> elem_bits (Elements s ! i)" "m \<in> elem_bits (Elements s ! j)"
  shows "n < m"
proof -
  have "n div 128 < m div 128"
    using elems_ok_nth [of "Elements s" i j] assms by (auto simp: sbv_inv_def dest!: elem_bits_div)
  then show ?thesis using div_le_mono [of m n 128] by linarith
qed

lemma sbv_it_good_bits: "sbv_it_good s it \<Longrightarrow> BitNumber it \<in> sbv_bits s"
  by (auto simp: sbv_it_good_def it_elem_def sbv_bits_nth)

lemma word_position:
  assumes "(n :: nat) div 128 = i" "b = n mod 128"
  shows "n mod 64 = b mod 64" "n mod 128 div 64 = b div 64" "n = i * 128 + b"
  using assms div_mult_mod_eq [of n 128] by (simp_all add: mod_mod_cancel)

lemma iter_enter_spec:
  assumes inv: "sbv_inv s" and i: "i < length (Elements s)" and it: "\<not> AtEnd it"
  obtains it' where "iter_enter s it i = Some it'" "sbv_it_good s it'" "Iter it' = i"
    "\<And>n. n \<in> elem_bits (Elements s ! i) \<Longrightarrow> BitNumber it' \<le> n"
proof -
  let ?e = "Elements s ! i"
  have ok: "elem_ok ?e" using inv i by (auto simp: sbv_inv_def intro: elem_ok_nth)
  obtain b where b: "sbve_find_first ?e = Some b" "b < 128" "ElementIndex ?e * 128 + b \<in> elem_bits ?e"
      "\<And>n. n \<in> elem_bits ?e \<Longrightarrow> ElementIndex ?e * 128 + b \<le> n"
    using sbve_find_first_spec [OF ok] by blast
  have "ElementIndex ?e * 128 + b < 2 ^ 32"
    using sbv_bits_u32 [OF inv] b(3) i by (auto simp: sbv_bits_nth)
  then have u: "u32 (ElementIndex ?e * 128 + b) = ElementIndex ?e * 128 + b" by (rule u32_id)
  have m: "(ElementIndex ?e * 128 + b) mod 128 = b" using b(2) by simp
  have m64: "(ElementIndex ?e * 128 + b) mod 64 = b mod 64"
    using word_position(1) [OF refl refl, of "ElementIndex ?e * 128 + b"] unfolding m .
  have "b div 64 < 2" using b(2) by (simp add: less_mult_imp_div_less)
  then have e: "iter_enter s it i =
      Some (it\<lparr>Iter := i, BitNumber := ElementIndex ?e * 128 + b, WordNumber := b div 64,
        ItBits := drop_bit (b mod 64) (Bits ?e ! (b div 64))\<rparr>)"
    using b(1) u m by (simp add: iter_enter_def sbve_word_def Let_def)
  show ?thesis
    by (rule that [OF e]) (use b(3,4) i it m m64 in \<open>auto simp: sbv_it_good_def it_elem_def\<close>)
qed

lemma skip_clear_bits_spec:
  assumes "bit w l" "\<forall>j < l. \<not> bit w j" "n + l < 2 ^ 32"
  shows "skip_clear_bits w n = (drop_bit l w, n + l)"
  using assms
proof (induction l arbitrary: w n)
  case 0
  then have "w AND 1 \<noteq> 0" using and_mask_zero [of w 1] by auto
  then show ?case by (subst skip_clear_bits.simps) simp
next
  case (Suc l)
  have "w \<noteq> 0" using Suc.prems(1) by auto
  moreover have "w AND 1 = 0" using and_mask_zero [of w 1] Suc.prems(2) by auto
  ultimately have "skip_clear_bits w n = skip_clear_bits (drop_bit 1 w) (n + 1)"
    using Suc.prems(3) by (subst skip_clear_bits.simps) (simp add: u32_id)
  also have "\<dots> = (drop_bit l (drop_bit 1 w), n + 1 + l)"
    using Suc.prems by (intro Suc.IH) (auto simp: bit_drop_bit_eq)
  finally show ?case by simp
qed

lemma skip_clear_bits_zero: "skip_clear_bits 0 n = (0, n)"
  by (subst skip_clear_bits.simps) simp

section \<open>Moving to the next element\<close>

lemma next_element_spec:
  assumes inv: "sbv_inv s" and it: "\<not> AtEnd it" "Iter it < length (Elements s)"
    and low: "m div 128 = ElementIndex (it_elem s it) \<or> m = ElementIndex (it_elem s it) * 128 + 128"
    and none: "\<forall>n \<in> elem_bits (it_elem s it). n < m"
    and it': "it' = it\<lparr>Iter := Iter it + 1, WordNumber := 0\<rparr>"
  shows "\<exists>it''. (if Iter it' = length (Elements s) then Some (it'\<lparr>AtEnd := True\<rparr>)
      else iter_enter s it' (Iter it')) = Some it'' \<and> sbv_it_at s m it''"
proof -
  have before: "n < m" if "n \<in> elem_bits (Elements s ! i)" "i \<le> Iter it" for n i
  proof (cases "i = Iter it")
    case False
    have "elem_bits (it_elem s it) \<noteq> {}"
      using inv it(2) by (auto simp: it_elem_def sbv_inv_def intro!: elem_ok_nonempty elem_ok_nth)
    then obtain k where "k \<in> elem_bits (it_elem s it)" by blast
    then show ?thesis
      using elem_bits_order [OF inv _ it(2) that(1), of k] False that(2) none by (force simp: it_elem_def)
  qed (use none that in \<open>simp add: it_elem_def\<close>)
  show ?thesis
  proof (cases "Iter it' = length (Elements s)")
    case True
    then have "\<forall>n \<in> sbv_bits s. n < m" using before it' by (auto simp: sbv_bits_nth)
    then show ?thesis using True by (simp add: sbv_it_at_def)
  next
    case False
    then have i: "Iter it' < length (Elements s)" "Iter it' = Suc (Iter it)" using it it' by auto
    then obtain it'' where e: "iter_enter s it' (Iter it') = Some it''" "sbv_it_good s it''"
        "Iter it'' = Iter it'" "\<And>n. n \<in> elem_bits (Elements s ! Iter it') \<Longrightarrow> BitNumber it'' \<le> n"
      using iter_enter_spec [OF inv i(1), of it'] it it' by auto
    have b: "BitNumber it'' \<in> elem_bits (Elements s ! Iter it')"
      using e(2,3) by (simp add: sbv_it_good_def it_elem_def)
    have "ElementIndex (it_elem s it) < BitNumber it'' div 128"
      using elems_ok_nth [of "Elements s" "Iter it" "Iter it'"] inv i elem_bits_div [OF b]
      by (simp add: it_elem_def sbv_inv_def)
    moreover have "m mod 128 < 128" by simp
    ultimately have "m \<le> BitNumber it''"
      using div_mult_mod_eq [of m 128] div_mult_mod_eq [of "BitNumber it''" 128]
      by - (rule disjE [OF low], linarith+)
    moreover have "BitNumber it'' \<le> n" if n: "n \<in> sbv_bits s" "m \<le> n" for n
    proof -
      obtain j where j: "j < length (Elements s)" "n \<in> elem_bits (Elements s ! j)"
        using n(1) by (auto simp: sbv_bits_nth)
      have "Iter it < j"
      proof (rule ccontr)
        assume "\<not> Iter it < j"
        then have "n < m" using before [OF j(2)] by simp
        then show False using n(2) by simp
      qed
      then consider "j = Iter it'" | "Iter it' < j" using i(2) by linarith
      then show ?thesis using e(4) elem_bits_order [OF inv _ j(1) b j(2)] j(2) by cases auto
    qed
    ultimately show ?thesis using False e(1,2) by (auto simp: sbv_it_at_def sbv_it_good_def)
  qed
qed


section \<open>One step\<close>

lemma sbv_it_good_elem:
  assumes "sbv_inv s" "sbv_it_good s it"
  shows "elem_ok (it_elem s it)" "BitNumber it < 2 ^ 32"
    "BitNumber it div 128 = ElementIndex (it_elem s it)"
  using assms sbv_bits_u32 [OF assms(1) sbv_it_good_bits [OF assms(2)]]
  by (auto simp: sbv_it_good_def it_elem_def sbv_inv_def elem_bits_div intro: elem_ok_nth)

lemma word_index: "n mod 128 div 64 = n div 64 mod (2 :: nat)"
  using mod_mult2_eq [of n 64 2] by simp

lemma same_word:
  assumes "n mod 64 + j < (64 :: nat)"
  shows "(n + j) div 64 = n div 64" "(n + j) mod 64 = n mod 64 + j"
proof -
  have "n + j = (n mod 64 + j) + n div 64 * 64" by simp
  then have "(n + j) div 64 = ((n mod 64 + j) + n div 64 * 64) div 64"
    "(n + j) mod 64 = ((n mod 64 + j) + n div 64 * 64) mod 64" by presburger+
  then show "(n + j) div 64 = n div 64" "(n + j) mod 64 = n mod 64 + j"
    using assms by (simp_all only: div_mult_self1 mod_mult_self1) simp_all
qed

lemma sbv_it_good_ItBits:
  assumes "sbv_inv s" "sbv_it_good s it" "BitNumber it mod 64 + j < 64"
  shows "bit (ItBits it) j \<longleftrightarrow> BitNumber it + j \<in> elem_bits (it_elem s it)"
proof -
  let ?n = "BitNumber it" and ?e = "it_elem s it"
  have d: "(?n + j) div 64 = ?n div 64" and m: "(?n + j) mod 64 = ?n mod 64 + j"
    using assms(3) by (rule same_word)+
  have d128: "(?n + j) div 128 = ?n div 128"
    using d by (simp only: div_mult2_eq [of _ 64 2, simplified])
  have w: "(?n + j) mod 128 div 64 = ?n mod 128 div 64" using d by (simp only: word_index)
  have mm: "(?n + j) mod 128 mod 64 = ?n mod 64 + j" using m by (simp add: mod_mod_cancel)
  have "length (Bits ?e) = 2" using sbv_it_good_elem(1) [OF assms(1,2)] by (simp add: elem_ok_def sbve_ok_def)
  moreover have "?n mod 128 div 64 < 2" by (simp add: less_mult_imp_div_less)
  ultimately show ?thesis
    using assms(2) sbv_it_good_elem(3) [OF assms(1,2)] d128 w mm
    by (simp add: sbv_it_good_def elem_bits_def wbit_def bit_drop_bit_eq)
qed


lemma sbv_it_atI:
  assumes inv: "sbv_inv s" and good: "sbv_it_good s it" and m: "m \<le> BitNumber it"
    and min: "\<And>n. n \<in> elem_bits (it_elem s it) \<Longrightarrow> m \<le> n \<Longrightarrow> BitNumber it \<le> n"
    and before: "\<forall>j < Iter it. \<forall>n \<in> elem_bits (Elements s ! j). n < m"
  shows "sbv_it_at s m it"
proof -
  have "BitNumber it \<le> n" if n: "n \<in> sbv_bits s" "m \<le> n" for n
  proof -
    obtain j where j: "j < length (Elements s)" "n \<in> elem_bits (Elements s ! j)"
      using n(1) by (auto simp: sbv_bits_nth)
    have "\<not> j < Iter it" using before j n(2) by force
    then consider "j = Iter it" | "Iter it < j" by linarith
    then show ?thesis
    proof cases
      case 2
      have "BitNumber it \<in> elem_bits (Elements s ! Iter it)"
        using good by (simp add: sbv_it_good_def it_elem_def)
      from elem_bits_order [OF inv 2 j(1) this j(2)] show ?thesis by simp
    qed (use min j n(2) in \<open>simp add: it_elem_def\<close>)
  qed
  moreover have "\<not> AtEnd it" using good by (simp add: sbv_it_good_def)
  ultimately show ?thesis using good m by (simp add: sbv_it_at_def)
qed

text \<open>Leaving a word: the next set position of the element, or the next element.\<close>

lemma exhausted_spec:
  assumes inv: "sbv_inv s" and it: "\<not> AtEnd it" "Iter it < length (Elements s)"
    and m: "m div 128 = ElementIndex (it_elem s it) \<or> m = ElementIndex (it_elem s it) * 128 + 128"
    and b: "BitNumber it = u32 m" "m \<le> 2 ^ 32" "m mod 128 = 0 \<Longrightarrow> m = ElementIndex (it_elem s it) * 128 + 128"
    and before: "\<forall>j < Iter it. \<forall>n \<in> elem_bits (Elements s ! j). n < m"
  shows "\<exists>it'. AdvanceToNextNonZero_exhausted s it = Some it' \<and> sbv_it_at s m it'"
proof -
  let ?e = "it_elem s it"
  have mm: "BitNumber it mod 128 = m mod 128" using b(1) by (simp add: u32_def mod_mod_cancel)
  have ok: "elem_ok ?e" using inv it(2) by (auto simp: it_elem_def sbv_inv_def intro: elem_ok_nth)
  have find: "(sbve_find_next ?e (m mod 128) = -1 \<and> (\<forall>n \<ge> m mod 128. \<not> wbit (Bits ?e) n)) \<or>
    (\<exists>k. sbve_find_next ?e (m mod 128) = int k \<and> m mod 128 \<le> k \<and> k < 128 \<and> wbit (Bits ?e) k \<and>
      (\<forall>n. m mod 128 \<le> n \<longrightarrow> n < k \<longrightarrow> \<not> wbit (Bits ?e) n))"
    using ok by (intro sbve_find_next_spec) auto
  have beyond: "n mod 128 \<ge> m mod 128" if "n \<in> elem_bits ?e" "m \<le> n" "m div 128 = ElementIndex ?e" for n
    using that div_mult_mod_eq [of n 128] div_mult_mod_eq [of m 128] by (simp add: elem_bits_def)
  show ?thesis
  proof (cases "sbve_find_next ?e (m mod 128) = -1 \<or> m mod 128 = 0")
    case True
    have none: "\<forall>n \<in> elem_bits ?e. n < m"
    proof (intro ballI, rule ccontr)
      fix n assume n: "n \<in> elem_bits ?e" "\<not> n < m"
      have "n div 128 = ElementIndex ?e" using n(1) by (rule elem_bits_div)
      then have "n < ElementIndex ?e * 128 + 128" using div_mult_mod_eq [of n 128] by auto
      then have d: "m div 128 = ElementIndex ?e" using m n(2) by auto
      then have "m mod 128 \<noteq> 0" using b(3) div_mult_mod_eq [of m 128] by auto
      then show False using True find beyond [OF n(1) _ d] n by (auto simp: elem_bits_def)
    qed
    show ?thesis
      using next_element_spec [OF inv it m none refl] True mm
      by (auto simp: AdvanceToNextNonZero_exhausted_def Let_def simp flip: it_elem_def split: if_splits)
  next
    case False
    then obtain k where k: "sbve_find_next ?e (m mod 128) = int k" "m mod 128 \<le> k" "k < 128"
        "wbit (Bits ?e) k" "\<forall>n. m mod 128 \<le> n \<longrightarrow> n < k \<longrightarrow> \<not> wbit (Bits ?e) n"
      using find by blast
    have d: "m div 128 = ElementIndex ?e" using m False by auto
    define n where "n = ElementIndex ?e * 128 + k"
    have n: "n \<in> elem_bits ?e" "n mod 128 = k" using k by (auto simp: n_def elem_bits_def)
    have "n < 2 ^ 32" using n(1) it(2) sbv_bits_u32 [OF inv] by (auto simp: sbv_bits_nth it_elem_def)
    then have u: "u32 (ElementIndex ?e * 128 + k) = n" by (simp add: n_def u32_id)
    have "k div 64 < 2" using k(3) by (simp add: less_mult_imp_div_less)
    then have r: "AdvanceToNextNonZero_exhausted s it =
        Some (it\<lparr>WordNumber := k div 64, ItBits := drop_bit (k mod 64) (Bits ?e ! (k div 64)), BitNumber := n\<rparr>)"
      using False mm k(1,3) u
      by (simp add: AdvanceToNextNonZero_exhausted_def sbve_word_def Let_def flip: it_elem_def)
    define it' where "it' = it\<lparr>WordNumber := k div 64,
        ItBits := drop_bit (k mod 64) (Bits ?e ! (k div 64)), BitNumber := n\<rparr>"
    have "sbv_it_at s m it'"
    proof (rule sbv_it_atI [OF inv])
      have "n mod 64 = k mod 64" using word_position(1) [OF refl n(2) [symmetric]] .
      then show "sbv_it_good s it'"
        using it n by (simp add: it'_def sbv_it_good_def it_elem_def)
      show "m \<le> BitNumber it'"
        using d k(2) div_mult_mod_eq [of m 128] by (simp add: it'_def n_def)
      show "BitNumber it' \<le> n'" if "n' \<in> elem_bits (it_elem s it')" "m \<le> n'" for n'
      proof -
        have e: "n' \<in> elem_bits ?e" using that(1) by (simp add: it'_def it_elem_def)
        have "\<not> n' mod 128 < k" using beyond [OF e that(2) d] k(5) e by (auto simp: elem_bits_def)
        then show ?thesis
          using elem_bits_div [OF e] div_mult_mod_eq [of n' 128] by (simp add: it'_def n_def)
      qed
    qed (use before in \<open>simp add: it'_def\<close>)
    then show ?thesis using r by (simp add: it'_def)
  qed
qed


lemma next_position:
  assumes "n div 128 = (e :: nat)"
  shows "(n + 1) div 128 = e \<or> n + 1 = e * 128 + 128"
    "(n + 1) mod 128 = 0 \<Longrightarrow> n + 1 = e * 128 + 128"
proof -
  define r where "r = n mod 128"
  have n: "n = e * 128 + r" "r < 128" using assms div_mult_mod_eq [of n 128] by (auto simp: r_def)
  then consider "r = 127" | "r + 1 < 128" by linarith
  then show "(n + 1) div 128 = e \<or> n + 1 = e * 128 + 128" using n by cases auto
  show "n + 1 = e * 128 + 128" if "(n + 1) mod 128 = 0"
    using \<open>(n + 1) div 128 = e \<or> n + 1 = e * 128 + 128\<close> n that div_mult_mod_eq [of "n + 1" 128] by auto
qed

lemma drop_bit_drop: "drop_bit a (drop_bit b w) = drop_bit (a + b) (w :: machine_word)"
  by (rule machine_word_eqI) (simp add: bit_drop_bit_eq add.commute add.left_commute)

lemma sbv_iter_inc_spec:
  assumes inv: "sbv_inv s" and good: "sbv_it_good s it"
  shows "\<exists>it'. sbv_iter_inc s it = Some it' \<and> sbv_it_at s (BitNumber it + 1) it'"
proof -
  let ?n = "BitNumber it" and ?w = "drop_bit 1 (ItBits it)"
  have it: "\<not> AtEnd it" "Iter it < length (Elements s)" "?n \<in> elem_bits (it_elem s it)"
    using good by (simp_all add: sbv_it_good_def)
  note E = sbv_it_good_elem [OF inv good]
  have before: "n < ?n + 1" if "j < Iter it" "n \<in> elem_bits (Elements s ! j)" for j n
    using elem_bits_order [OF inv that(1) it(2) that(2)] it(3) by (simp add: it_elem_def less_SucI)
  show ?thesis
  proof (cases "?w = 0")
    case True
    define jt where "jt = it\<lparr>ItBits := 0, BitNumber := u32 (?n + 1)\<rparr>"
    have jt: "it_elem s jt = it_elem s it" by (simp add: jt_def it_elem_def)
    have d: "(?n + 1) div 128 = ElementIndex (it_elem s it) \<or>
        ?n + 1 = ElementIndex (it_elem s it) * 128 + 128"
      using next_position(1) [OF E(3)] .
    have "\<exists>it'. AdvanceToNextNonZero_exhausted s jt = Some it' \<and> sbv_it_at s (?n + 1) it'"
    proof (rule exhausted_spec [OF inv])
      show "\<not> AtEnd jt" "Iter jt < length (Elements s)" "BitNumber jt = u32 (?n + 1)"
        using it by (simp_all add: jt_def)
      show "(?n + 1) div 128 = ElementIndex (it_elem s jt) \<or>
          ?n + 1 = ElementIndex (it_elem s jt) * 128 + 128" using d unfolding jt .
      show "?n + 1 \<le> 2 ^ 32" using E(2) by simp
      show "?n + 1 = ElementIndex (it_elem s jt) * 128 + 128" if "(?n + 1) mod 128 = 0"
        using next_position(2) [OF E(3) that] unfolding jt .
      show "\<forall>j < Iter jt. \<forall>n \<in> elem_bits (Elements s ! j). n < ?n + 1"
        using before unfolding jt_def by simp
    qed
    moreover have "sbv_iter_inc s it = AdvanceToNextNonZero_exhausted s jt"
      using True it(1)
      by (simp add: sbv_iter_inc_def AdvanceToNextNonZero_def skip_clear_bits_zero Let_def jt_def)
    ultimately show ?thesis by simp
  next
    case False
    define l where "l = countTrailingZeros ?w"
    have l: "bit ?w l" "\<forall>j < l. \<not> bit ?w j" using ctz_correct [OF False] by (auto simp: l_def)
    have "bit (Bits (it_elem s it) ! (?n mod 128 div 64)) (?n mod 64 + (1 + l))"
      using l(1) good by (simp add: sbv_it_good_def bit_drop_bit_eq ac_simps)
    then have lt: "?n mod 64 + (1 + l) < 64" by (rule bit_word_lt)
    have bit_w: "bit ?w j \<longleftrightarrow> ?n + (1 + j) \<in> elem_bits (it_elem s it)" if "j \<le> l" for j
      using sbv_it_good_ItBits [OF inv good, of "1 + j"] lt that by (simp add: bit_drop_bit_eq)
    define n' where "n' = ?n + (1 + l)"
    have n': "n' \<in> elem_bits (it_elem s it)" using bit_w [of l] l(1) by (simp add: n'_def)
    then have "n' < 2 ^ 32" using sbv_bits_u32 [OF inv] it(2) by (auto simp: sbv_bits_nth it_elem_def)
    then have sk: "skip_clear_bits ?w (u32 (?n + 1)) = (drop_bit l ?w, n')"
      using skip_clear_bits_spec [OF l, of "?n + 1"] by (simp add: n'_def u32_id)
    have "bit (drop_bit l ?w) 0" using l(1) by (simp add: bit_drop_bit_eq)
    then have "drop_bit l ?w \<noteq> 0" by auto
    define jt where "jt = it\<lparr>BitNumber := n', ItBits := drop_bit l ?w\<rparr>"
    have r: "sbv_iter_inc s it = Some jt"
      using \<open>drop_bit l ?w \<noteq> 0\<close> it(1) sk
      by (simp add: sbv_iter_inc_def AdvanceToNextNonZero_def Let_def jt_def)
    have "sbv_it_at s (?n + 1) jt"
    proof (rule sbv_it_atI [OF inv])
      have "n' mod 64 = ?n mod 64 + (1 + l)" "n' div 64 = ?n div 64"
        unfolding n'_def by (rule same_word [OF lt])+
      moreover then have "n' mod 128 div 64 = ?n mod 128 div 64"
        by (simp only: word_index)
      ultimately show "sbv_it_good s jt"
        using it n' good by (simp add: jt_def sbv_it_good_def it_elem_def drop_bit_drop ac_simps)
      show "?n + 1 \<le> BitNumber jt" by (simp add: jt_def n'_def)
      show "BitNumber jt \<le> n" if "n \<in> elem_bits (it_elem s jt)" "?n + 1 \<le> n" for n
      proof (rule ccontr)
        assume "\<not> BitNumber jt \<le> n"
        then have "n - (?n + 1) < l" "n = ?n + (1 + (n - (?n + 1)))" using that(2) by (auto simp: jt_def n'_def)
        then show False using bit_w [of "n - (?n + 1)"] l(2) that(1) by (simp add: jt_def it_elem_def)
      qed
    qed (use before in \<open>simp add: jt_def\<close>)
    then show ?thesis using r by simp
  qed
qed


section \<open>The whole traversal\<close>

lemma sbv_begin_spec:
  assumes inv: "sbv_inv s"
  shows "\<exists>it. sbv_begin s = Some it \<and> sbv_it_at s 0 it"
proof (cases "Elements s = []")
  case True
  then show ?thesis
    by (simp add: sbv_begin_def sbv_iter_make_def AdvanceToFirstNonZero_def sbv_it_at_def sbv_bits_def)
next
  case False
  define it0 where "it0 = \<lparr>AtEnd = False, Iter = 0, BitNumber = 0, WordNumber = 2 ^ 32 - 1, ItBits = 0\<rparr>"
  obtain it where it: "iter_enter s it0 0 = Some it" "sbv_it_good s it" "Iter it = 0"
      "\<And>n. n \<in> elem_bits (Elements s ! 0) \<Longrightarrow> BitNumber it \<le> n"
    using iter_enter_spec [OF inv, of 0 it0] False by (auto simp: it0_def)
  then have "sbv_it_at s 0 it" by (intro sbv_it_atI [OF inv]) (auto simp: it_elem_def)
  then show ?thesis
    using it(1) False
    by (auto simp: sbv_begin_def sbv_iter_make_def AdvanceToFirstNonZero_def it0_def)
qed

lemma sbv_end_eq:
  "sbv_end s = Some \<lparr>AtEnd = True, Iter = 0, BitNumber = 0, WordNumber = 2 ^ 32 - 1, ItBits = 0\<rparr>"
  by (simp add: sbv_end_def sbv_iter_make_def AdvanceToFirstNonZero_def)

lemma sorted_list_Min:
  assumes "finite A" "b \<in> A" "\<forall>n \<in> A. b \<le> n"
  shows "sorted_list_of_set A = b # sorted_list_of_set (A - {b})"
  using assms sorted_list_of_set_nonempty [of A] Min_eqI [of A b] by fastforce

lemma sbv_iterate_spec:
  assumes inv: "sbv_inv s" and at: "sbv_it_at s m it"
  shows "sbv_iterate s it = Some (sorted_list_of_set {n \<in> sbv_bits s. m \<le> n})"
  using at
proof (induction "2 ^ 32 - m" arbitrary: m it rule: less_induct)
  case less
  show ?case
  proof (cases "AtEnd it")
    case True
    then have none: "{n \<in> sbv_bits s. m \<le> n} = {}" using less.prems by (auto simp: sbv_it_at_def)
    show ?thesis
      unfolding none using True by (subst sbv_iterate.simps) (simp add: sbv_end_eq sbv_iter_eq_def)
  next
    case False
    let ?b = "BitNumber it"
    have good: "sbv_it_good s it" and b: "m \<le> ?b" "\<forall>n \<in> sbv_bits s. m \<le> n \<longrightarrow> ?b \<le> n"
      using less.prems False by (simp_all add: sbv_it_at_def)
    obtain it' where it': "sbv_iter_inc s it = Some it'" "sbv_it_at s (?b + 1) it'"
      using sbv_iter_inc_spec [OF inv good] by blast
    have in_b: "?b \<in> sbv_bits s" using good by (rule sbv_it_good_bits)
    then have "2 ^ 32 - (?b + 1) < 2 ^ 32 - m" using sbv_bits_u32 [OF inv] b(1) by fastforce
    then have IH: "sbv_iterate s it' = Some (sorted_list_of_set {n \<in> sbv_bits s. ?b + 1 \<le> n})"
      using less.hyps it'(2) by blast
    have "sorted_list_of_set {n \<in> sbv_bits s. m \<le> n} =
        ?b # sorted_list_of_set ({n \<in> sbv_bits s. m \<le> n} - {?b})"
      using in_b b by (intro sorted_list_Min) (auto simp: sbv_bits_def)
    moreover have "{n \<in> sbv_bits s. m \<le> n} - {?b} = {n \<in> sbv_bits s. ?b + 1 \<le> n}"
      using b by force
    ultimately show ?thesis
      using False it'(1) IH
      by (subst sbv_iterate.simps) (simp add: sbv_end_eq sbv_iter_eq_def sbv_iter_deref_def)
  qed
qed

lemma sbv_list_spec:
  assumes "sbv_inv s" shows "sbv_list s = Some (sorted_list_of_set (sbv_bits s))"
  using sbv_begin_spec [OF assms] sbv_iterate_spec [OF assms] by (auto simp: sbv_list_def)

section \<open>First and last position\<close>

text \<open>\<open>find_first\<close> returns an \<open>int\<close>: positions from \<open>2 ^ 31\<close> on come out negative.\<close>

lemma to_int_id: "n < 2 ^ 31 \<Longrightarrow> to_int n = int n"
  by (simp add: to_int_def u32_def)

lemma sbv_find_first_spec:
  assumes inv: "sbv_inv s"
  shows "sbv_find_first s =
    Some (if sbv_bits s = {} then -1 else to_int (Min (sbv_bits s)))"
proof (cases "Elements s")
  case Nil
  then show ?thesis by (simp add: sbv_find_first_def sbv_bits_def)
next
  case (Cons e es)
  have ok: "elems_ok (e # es)" using inv Cons by (simp add: sbv_inv_def)
  obtain b where b: "sbve_find_first e = Some b" "ElementIndex e * 128 + b \<in> elem_bits e"
      "\<And>n. n \<in> elem_bits e \<Longrightarrow> ElementIndex e * 128 + b \<le> n"
    using sbve_find_first_spec [OF elems_head(1) [OF ok]] by blast
  have "ElementIndex e * 128 + b \<le> n" if n: "n \<in> elems_bits es" for n
  proof -
    have "ElementIndex e < n div 128"
      using elems_bits_div [OF n] ok by (auto simp: elems_ok_Cons)
    then have "(ElementIndex e * 128 + b) div 128 < n div 128" using elem_bits_div [OF b(2)] by simp
    then show ?thesis using div_le_mono [of n "ElementIndex e * 128 + b" 128] by linarith
  qed
  then have "Min (sbv_bits s) = ElementIndex e * 128 + b"
    using b(2,3) Cons by (intro Min_eqI) (auto simp: sbv_bits_def)
  moreover have "sbv_bits s \<noteq> {}" using b(2) Cons by (auto simp: sbv_bits_def)
  ultimately show ?thesis using Cons b(1) by (simp add: sbv_find_first_def)
qed


lemma top_bit:
  assumes "v \<noteq> (0 :: machine_word)"
  obtains h where "bit v h" "\<forall>j > h. \<not> bit v j" "h < 64"
proof -
  let ?B = "{j. bit v j}"
  have fin: "finite ?B" by (rule finite_subset [of _ "{..<64}"]) (auto dest: bit_word_lt)
  have "?B \<noteq> {}" using assms by (auto simp: machine_word_nonzero)
  then have "Max ?B \<in> ?B" using fin by (rule Max_in [rotated])
  then have b: "bit v (Max ?B)" by (simp only: mem_Collect_eq)
  have up: "\<forall>j > Max ?B. \<not> bit v j"
  proof (intro allI impI notI)
    fix j assume "Max ?B < j" "bit v j"
    then show False using Max_ge [OF fin, of j] by (simp only: mem_Collect_eq leD)
  qed
  show ?thesis by (rule that [OF b up bit_word_lt [OF b]])
qed

lemma sbve_find_last_spec:
  assumes "elem_ok e"
  obtains b where "sbve_find_last e = Some b" "ElementIndex e * 128 + b \<in> elem_bits e"
    "\<And>n. n \<in> elem_bits e \<Longrightarrow> n \<le> ElementIndex e * 128 + b"
proof -
  obtain lo hi where e: "Bits e = [lo, hi]" using sbve_okE [of e] assms by auto
  have wb: "wbit (Bits e) n \<longleftrightarrow> (if n < 64 then bit lo n else bit hi (n - 64))" for n
    using bit_word_lt [of hi "n - 64"] by (auto simp: e wbit_Cons)
  have "\<exists>b. sbve_find_last e = Some b \<and> b < 128 \<and> wbit (Bits e) b \<and> (\<forall>n. wbit (Bits e) n \<longrightarrow> n \<le> b)"
  proof (cases "hi = 0")
    case False
    then obtain h where h: "bit hi h" "\<forall>j > h. \<not> bit hi j" "h < 64" by (rule top_bit)
    have "sbve_find_last e = Some (64 + h)"
      using False clz_correct [OF h(1,2)] h(3)
      by (simp add: sbve_find_last_def upt_2 e Let_def numeral_2_eq_2)
    moreover have "n \<le> 64 + h" if n: "wbit (Bits e) n" for n
    proof (rule ccontr)
      assume "\<not> n \<le> 64 + h"
      then have "h < n - 64" "\<not> n < 64" by auto
      then show False using n h(2) by (simp add: wb)
    qed
    ultimately show ?thesis using h by (auto simp: wb)
  next
    case True
    have "lo \<noteq> 0" using assms True by (auto simp: elem_ok_def sbve_empty_def upt_2 e)
    then obtain h where h: "bit lo h" "\<forall>j > h. \<not> bit lo j" "h < 64" by (rule top_bit)
    have "sbve_find_last e = Some h"
      using True \<open>lo \<noteq> 0\<close> clz_correct [OF h(1,2)] h(3)
      by (simp add: sbve_find_last_def upt_2 e Let_def numeral_2_eq_2)
    moreover have "n \<le> h" if n: "wbit (Bits e) n" for n
    proof (rule ccontr)
      assume "\<not> n \<le> h"
      then have "h < n" by simp
      then show False using n h(2) True by (simp add: wb split: if_splits)
    qed
    ultimately show ?thesis using h by (auto simp: wb)
  qed
  then obtain b where b: "sbve_find_last e = Some b" "b < 128" "wbit (Bits e) b"
      "\<And>n. wbit (Bits e) n \<Longrightarrow> n \<le> b" by blast
  show ?thesis
  proof (rule that [OF b(1)])
    show "ElementIndex e * 128 + b \<in> elem_bits e" using b(2,3) by (simp add: elem_bits_def)
    show "n \<le> ElementIndex e * 128 + b" if "n \<in> elem_bits e" for n
      using that b(4) [of "n mod 128"] div_mult_mod_eq [of n 128] by (simp add: elem_bits_def)
  qed
qed

lemma sbv_find_last_spec:
  assumes inv: "sbv_inv s"
  shows "sbv_find_last s =
    Some (if sbv_bits s = {} then -1 else to_int (Max (sbv_bits s)))"
proof (cases "Elements s" rule: rev_cases)
  case Nil
  then show ?thesis by (simp add: sbv_find_last_def sbv_bits_def)
next
  case (snoc es e)
  have ok: "elem_ok e" "\<forall>f \<in> set es. ElementIndex f < ElementIndex e"
    using inv snoc by (simp_all add: sbv_inv_def elems_ok_append elems_ok_Cons)
  obtain b where b: "sbve_find_last e = Some b" "ElementIndex e * 128 + b \<in> elem_bits e"
      "\<And>n. n \<in> elem_bits e \<Longrightarrow> n \<le> ElementIndex e * 128 + b"
    using sbve_find_last_spec [OF ok(1)] by blast
  have "n \<le> ElementIndex e * 128 + b" if n: "n \<in> elems_bits es" for n
  proof -
    have "n div 128 < ElementIndex e" using elems_bits_div [OF n] ok(2) by auto
    then have "n div 128 < (ElementIndex e * 128 + b) div 128" using elem_bits_div [OF b(2)] by simp
    then show ?thesis using div_le_mono [of "ElementIndex e * 128 + b" n 128] by linarith
  qed
  then have "Max (sbv_bits s) = ElementIndex e * 128 + b"
    using b(2,3) snoc by (intro Max_eqI) (auto simp: sbv_bits_def)
  moreover have "sbv_bits s \<noteq> {}" using b(2) snoc by (auto simp: sbv_bits_def)
  ultimately show ?thesis using snoc b(1) by (simp add: sbv_find_last_def)
qed

end
