(* ===== verification/BitVectors.thy ===== *)
theory BitVectors
  imports CoreBitVec SparseBitVecIter
begin

text \<open>
  The contract the points-to set wrapper relies on: the operations every backing data structure
  (sparse, core and plain bit vector) offers and what they do to the set of positions. It is a
  locale; the interpretations below discharge it for the models of \<open>CoreBitVector\<close> (and
  \<open>BitVector\<close>, which is one starting at 0) and \<open>SparseBitVector\<close>. The lemmas
  inside serve every client that loops over a bit vector.
\<close>

section \<open>The interface\<close>

text \<open>
  \<open>same a b\<close>: the binary operations are defined on the two. \<open>exact a\<close>: the flag
  returned by the union into \<open>a\<close> says whether \<open>a\<close> changed; without it the flag may
  be true although nothing changed. \<open>None\<close> is a failed assertion or undefined behaviour.
\<close>

locale bit_vector =
  fixes inv :: "'b \<Rightarrow> bool" and bits :: "'b \<Rightarrow> nat set"
    and same :: "'b \<Rightarrow> 'b \<Rightarrow> bool" and exact :: "'b \<Rightarrow> bool"
    and empty :: "'b \<Rightarrow> bool" and count :: "'b \<Rightarrow> nat" and clear :: "'b \<Rightarrow> 'b"
    and test :: "'b \<Rightarrow> nat \<Rightarrow> bool \<times> 'b" and test_and_set :: "'b \<Rightarrow> nat \<Rightarrow> bool \<times> 'b"
    and set_bit :: "'b \<Rightarrow> nat \<Rightarrow> 'b" and reset :: "'b \<Rightarrow> nat \<Rightarrow> 'b"
    and contains :: "'b \<Rightarrow> 'b \<Rightarrow> bool option" and intersects :: "'b \<Rightarrow> 'b \<Rightarrow> bool option"
    and equals :: "'b \<Rightarrow> 'b \<Rightarrow> bool option"
    and or_assign :: "'b \<Rightarrow> 'b \<Rightarrow> (bool \<times> 'b) option"
    and and_assign :: "'b \<Rightarrow> 'b \<Rightarrow> (bool \<times> 'b) option"
    and minus_assign :: "'b \<Rightarrow> 'b \<Rightarrow> (bool \<times> 'b) option"
    and minus2 :: "'b \<Rightarrow> 'b \<Rightarrow> 'b \<Rightarrow> 'b option"
    and elements :: "'b \<Rightarrow> nat list option"
  assumes bits_u32: "inv a \<Longrightarrow> n \<in> bits a \<Longrightarrow> n < 2 ^ 32"
    and bits_finite: "finite (bits a)"
    and same_refl: "same a a"
    and same_trans: "same a b \<Longrightarrow> same a c \<Longrightarrow> same b c"
    and empty_law: "inv a \<Longrightarrow> empty a \<longleftrightarrow> bits a = {}"
    and count_law: "inv a \<Longrightarrow> count a = u32 (card (bits a))"
    and clear_law: "inv a \<Longrightarrow> inv (clear a) \<and> bits (clear a) = {} \<and> same a (clear a)"
    and test_law: "inv a \<Longrightarrow> test a n = (r, a') \<Longrightarrow>
      inv a' \<and> bits a' = bits a \<and> same a a' \<and> (r \<longleftrightarrow> n \<in> bits a)"
    and test_and_set_law: "inv a \<Longrightarrow> n < 2 ^ 32 \<Longrightarrow> test_and_set a n = (r, a') \<Longrightarrow>
      inv a' \<and> bits a' = insert n (bits a) \<and> same a a' \<and> (r \<longleftrightarrow> n \<notin> bits a)"
    and set_law: "inv a \<Longrightarrow> n < 2 ^ 32 \<Longrightarrow>
      inv (set_bit a n) \<and> bits (set_bit a n) = insert n (bits a) \<and> same a (set_bit a n)"
    and reset_law: "inv a \<Longrightarrow>
      inv (reset a n) \<and> bits (reset a n) = bits a - {n} \<and> same a (reset a n)"
    and contains_law: "inv a \<Longrightarrow> inv b \<Longrightarrow> same a b \<Longrightarrow> contains a b = Some (bits b \<subseteq> bits a)"
    and intersects_law: "inv a \<Longrightarrow> inv b \<Longrightarrow> same a b \<Longrightarrow>
      intersects a b = Some (bits a \<inter> bits b \<noteq> {})"
    and equals_law: "inv a \<Longrightarrow> inv b \<Longrightarrow> same a b \<Longrightarrow> equals a b = Some (bits a = bits b)"
    and or_law: "inv a \<Longrightarrow> inv b \<Longrightarrow> same a b \<Longrightarrow> \<exists>ch c. or_assign a b = Some (ch, c) \<and>
      inv c \<and> bits c = bits a \<union> bits b \<and> same a c \<and>
      (bits c \<noteq> bits a \<longrightarrow> ch) \<and> (exact a \<longrightarrow> (ch \<longleftrightarrow> bits c \<noteq> bits a))"
    and and_law: "inv a \<Longrightarrow> inv b \<Longrightarrow> same a b \<Longrightarrow> \<exists>ch c. and_assign a b = Some (ch, c) \<and>
      inv c \<and> bits c = bits a \<inter> bits b \<and> same a c \<and> (ch \<longleftrightarrow> bits c \<noteq> bits a)"
    and minus_law: "inv a \<Longrightarrow> inv b \<Longrightarrow> same a b \<Longrightarrow> \<exists>ch c. minus_assign a b = Some (ch, c) \<and>
      inv c \<and> bits c = bits a - bits b \<and> same a c \<and> (ch \<longleftrightarrow> bits c \<noteq> bits a)"
    and minus2_law: "inv a \<Longrightarrow> inv b \<Longrightarrow> same a b \<Longrightarrow> same x a \<Longrightarrow> \<exists>c. minus2 x a b = Some c \<and>
      inv c \<and> bits c = bits a - bits b \<and> same x c"
    and elements_law: "inv a \<Longrightarrow> elements a = Some (sorted_list_of_set (bits a))"
begin

lemma same_sym: "same a b \<Longrightarrow> same b a"
  using same_refl same_trans by blast

lemma set_all:
  "inv a \<Longrightarrow> \<forall>n \<in> set ns. n < 2 ^ 32 \<Longrightarrow>
   inv (fold (\<lambda>n a. set_bit a n) ns a) \<and>
   bits (fold (\<lambda>n a. set_bit a n) ns a) = bits a \<union> set ns \<and> same a (fold (\<lambda>n a. set_bit a n) ns a)"
proof (induction ns arbitrary: a)
  case (Cons n ns)
  have s: "inv (set_bit a n)" "bits (set_bit a n) = insert n (bits a)" "same a (set_bit a n)"
    using set_law Cons.prems by auto
  let ?r = "fold (\<lambda>n a. set_bit a n) ns (set_bit a n)"
  have r: "inv ?r" "bits ?r = insert n (bits a) \<union> set ns" "same (set_bit a n) ?r"
    using Cons.IH [OF s(1)] Cons.prems(2) s(2) by auto
  have "same a ?r" using same_trans [OF same_sym [OF s(3)] r(3)] .
  then show ?case using r by auto
qed (simp add: same_refl)

lemma elements_set:
  "inv a \<Longrightarrow> \<exists>ns. elements a = Some ns \<and> set ns = bits a \<and> sorted ns \<and> distinct ns"
  using elements_law bits_finite by simp

lemma equals_refl: "inv a \<Longrightarrow> equals a a = Some True"
  by (simp add: equals_law same_refl)

lemma contains_antisym:
  assumes "inv a" "inv b" "same a b" "contains a b = Some True" "contains b a = Some True"
  shows "equals a b = Some True"
  using assms contains_law [of a b] contains_law [of b a] same_sym by (simp add: equals_law)

text \<open>Adding what is already there changes nothing, and an exact flag says so.\<close>

lemma or_absorb:
  assumes "inv a" "inv b" "same a b" "contains a b = Some True" "exact a"
  obtains c where "or_assign a b = Some (False, c)" "inv c" "bits c = bits a"
proof -
  have "bits b \<subseteq> bits a" using assms(4) contains_law [OF assms(1,2,3)] by simp
  then have "bits a \<union> bits b = bits a" by blast
  then show ?thesis using or_law [OF assms(1,2,3)] assms(5) that by auto
qed

text \<open>Union and difference give back the intersection: \<open>a - (a - b) = a \<and> b\<close>.\<close>

lemma minus_minus:
  assumes "inv a" "inv b" "same a b"
  obtains d ch c where "minus_assign a b = Some (ch, d)" "\<exists>ch'. minus_assign a d = Some (ch', c)"
    "inv c" "bits c = bits a \<inter> bits b"
proof -
  obtain ch d where d: "minus_assign a b = Some (ch, d)" "inv d" "bits d = bits a - bits b" "same a d"
    using minus_law [OF assms] by blast
  obtain ch' c where c: "minus_assign a d = Some (ch', c)" "inv c" "bits c = bits a - bits d"
    using minus_law [OF assms(1) d(2,4)] by blast
  show ?thesis using that [OF d(1) _ c(2)] c d(3) by blast
qed

end

section \<open>The core bit vector\<close>

definition cbv_exact :: "cbv \<Rightarrow> bool" where
  "cbv_exact c \<longleftrightarrow> words c \<noteq> []"

lemma cbv_or_flag:
  assumes "cbv_inv a" "cbv_inv b"
  shows "\<exists>ch c. cbv_or_assign a b = Some (ch, c) \<and> cbv_inv c \<and> cbv_bits c = cbv_bits a \<union> cbv_bits b \<and>
    True \<and> (cbv_bits c \<noteq> cbv_bits a \<longrightarrow> ch) \<and> (cbv_exact a \<longrightarrow> (ch \<longleftrightarrow> cbv_bits c \<noteq> cbv_bits a))"
proof -
  obtain ch c where c: "cbv_or_assign a b = Some (ch, c)" "cbv_inv c"
      "cbv_bits c = cbv_bits a \<union> cbv_bits b" "words a \<noteq> [] \<longrightarrow> (ch \<longleftrightarrow> cbv_bits c \<noteq> cbv_bits a)"
      "words a = [] \<longrightarrow> (ch \<longleftrightarrow> words b \<noteq> [])"
    using cbv_or_assign_spec [OF assms] by blast
  have "words b = [] \<Longrightarrow> cbv_bits b = {}" by (simp add: cbv_bits_relative)
  then show ?thesis using c by (cases "words a = []") (auto simp: cbv_exact_def)
qed

interpretation cv: bit_vector cbv_inv cbv_bits "\<lambda>_ _. True" cbv_exact cbv_empty cbv_count cbv_clear
  "\<lambda>c n. (cbv_test c n, c)" cbv_test_and_set cbv_set cbv_reset cbv_contains
  "\<lambda>a b. Some (cbv_intersects a b)" "\<lambda>a b. Some (cbv_eq a b)" cbv_or_assign cbv_and_assign
  cbv_intersectWithComplement cbv_intersectWithComplement2 cbv_list
proof (unfold_locales, goal_cases)
  case (1 a n)
  then show ?case by (rule cbv_bits_u32)
next
  case (7 a)
  show ?case using cbv_clear_spec by auto
next
  case (15 a b)
  show ?case by (rule cbv_or_flag [OF 15(1,2)])
next
  case (16 a b)
  then show ?case using cbv_and_assign_spec by blast
next
  case (17 a b)
  then show ?case using cbv_minus_assign_spec by (auto simp: cbv_intersectWithComplement_def)
next
  case (18 a b x)
  then show ?case using cbv_minus_assign_spec [of a b]
    by (auto simp: cbv_intersectWithComplement2_def cbv_intersectWithComplement_def)
qed (auto simp: cbv_empty_bits cbv_count_bits cbv_test_bits cbv_set_spec cbv_reset_spec
    cbv_contains_bits cbv_intersects_bits cbv_eq_bits cbv_list_spec dest: cbv_test_and_set_spec)

section \<open>The sparse bit vector\<close>

lemma finite_sbv_bits: "finite (sbv_bits s)"
  by (simp add: sbv_bits_def)

interpretation sv: bit_vector sbv_inv sbv_bits "\<lambda>_ _. True" "\<lambda>_. True" sbv_empty sbv_count sbv_clear
  sbv_test sbv_test_and_set sbv_set sbv_reset "\<lambda>a b. Some (sbv_contains a b)"
  "\<lambda>a b. Some (sbv_intersects a b)" "\<lambda>a b. Some (sbv_eq a b)"
  "\<lambda>a b. Some (sbv_or_assign a b)" "\<lambda>a b. Some (sbv_and_assign a b)"
  "\<lambda>a b. Some (sbv_intersectWithComplement a b)" "\<lambda>x a b. Some (sbv_intersectWithComplement2 x a b)"
  sbv_list
proof (unfold_locales, goal_cases)
  case (1 a n)
  then show ?case by (rule sbv_bits_u32)
next
  case (8 a n r a')
  then show ?case using sbv_test_spec [OF 8(1), of n] by (auto simp: sbv_bits_def)
next
  case (9 a n r a')
  then show ?case using sbv_test_and_set_spec [OF 9(1,2)] by auto
next
  case (15 a b)
  then show ?case using sbv_or_assign_spec [OF 15(1,2)] by (cases "sbv_or_assign a b") auto
next
  case (16 a b)
  then show ?case using sbv_and_assign_spec [OF 16(1,2)] by (cases "sbv_and_assign a b") auto
next
  case (17 a b)
  then show ?case using sbv_minus_spec [OF 17(1,2)] by (cases "sbv_intersectWithComplement a b") auto
qed (auto simp: finite_sbv_bits sbv_empty_bits sbv_count_spec sbv_clear_spec sbv_set_spec
    sbv_reset_spec sbv_contains_spec sbv_intersects_spec sbv_eq_bits sbv_minus2_spec sbv_list_spec)

end
