(* ===== verification/PointsTo.thy ===== *)
theory PointsTo
  imports BitVectors
begin

text \<open>
  \<open>PointsTo\<close> (svf/include/MemoryModel/PointsTo.h, svf/lib/MemoryModel/PointsTo.cpp): the
  wrapper that dispatches to one of three backing data structures and translates between external
  and internal node numbers. \<open>None\<close> is a failed assertion, or the undefined behaviour of
  reading the inactive member of the union.
\<close>

section \<open>State\<close>

datatype pt_type = SBV | CBV | BV

text \<open>The union of the three backings, tagged with \<open>type\<close>.\<close>

datatype backing = InSbv sbv | InCbv cbv | InBv cbv

fun bk_type :: "backing \<Rightarrow> pt_type" where
  "bk_type (InSbv _) = SBV"
| "bk_type (InCbv _) = CBV"
| "bk_type (InBv _) = BV"

text \<open>A shared vector of nodes: \<open>MappingPtr\<close> is compared by address.\<close>

record node_vec =
  vec_addr :: nat
  vec_entries :: "NodeID list"

type_synonym mapping_ptr = "node_vec option"

definition ptr_eq :: "mapping_ptr \<Rightarrow> mapping_ptr \<Rightarrow> bool" where
  "ptr_eq p q \<longleftrightarrow> map_option vec_addr p = map_option vec_addr q"

record points_to =
  backing :: backing
  nodeMapping :: mapping_ptr
  reverseNodeMapping :: mapping_ptr

text \<open>The static members of the class and the option that selects the backing.\<close>

record pt_globals =
  PtType :: pt_type
  currentBestNodeMapping :: mapping_ptr
  currentBestReverseNodeMapping :: mapping_ptr

definition setCurrentBestNodeMapping :: "pt_globals \<Rightarrow> mapping_ptr \<Rightarrow> mapping_ptr \<Rightarrow> pt_globals" where
  "setCurrentBestNodeMapping g m r =
     g\<lparr>currentBestNodeMapping := m, currentBestReverseNodeMapping := r\<rparr>"

fun bk_new :: "pt_type \<Rightarrow> backing" where
  "bk_new SBV = InSbv sbv_new"
| "bk_new CBV = InCbv (cbv_new 0)"
| "bk_new BV = InBv (bv_new 0)"

fun bk_copy :: "backing \<Rightarrow> backing" where
  "bk_copy (InSbv s) = InSbv (sbv_copy s)"
| "bk_copy (InCbv c) = InCbv c"
| "bk_copy (InBv c) = InBv c"

definition pt_new :: "pt_globals \<Rightarrow> points_to" where
  "pt_new g = \<lparr>backing = bk_new (PtType g), nodeMapping = currentBestNodeMapping g,
     reverseNodeMapping = currentBestReverseNodeMapping g\<rparr>"

definition pt_copy :: "points_to \<Rightarrow> points_to" where
  "pt_copy pt = \<lparr>backing = bk_copy (backing pt), nodeMapping = nodeMapping pt,
     reverseNodeMapping = reverseNodeMapping pt\<rparr>"

text \<open>Moving out of a sparse vector puts the cached position at the front, as copying does.\<close>

fun bk_move :: "backing \<Rightarrow> backing" where
  "bk_move (InSbv s) = InSbv (s\<lparr>CurrElementIter := 0\<rparr>)"
| "bk_move (InCbv c) = InCbv c"
| "bk_move (InBv c) = InBv c"

definition pt_move :: "points_to \<Rightarrow> points_to" where
  "pt_move pt = \<lparr>backing = bk_move (backing pt), nodeMapping = nodeMapping pt,
     reverseNodeMapping = reverseNodeMapping pt\<rparr>"

text \<open>Assignment replaces type, mappings and contents; the old contents do not matter.\<close>

definition pt_assign :: "points_to \<Rightarrow> points_to \<Rightarrow> points_to" where
  "pt_assign pt rhs = pt\<lparr>backing := bk_copy (backing rhs), nodeMapping := nodeMapping rhs,
     reverseNodeMapping := reverseNodeMapping rhs\<rparr>"

definition pt_move_assign :: "points_to \<Rightarrow> points_to \<Rightarrow> points_to" where
  "pt_move_assign pt rhs = pt\<lparr>backing := bk_move (backing rhs), nodeMapping := nodeMapping rhs,
     reverseNodeMapping := reverseNodeMapping rhs\<rparr>"

section \<open>Dispatch on the type\<close>

fun bk_empty :: "backing \<Rightarrow> bool" where
  "bk_empty (InCbv c) = cbv_empty c"
| "bk_empty (InSbv s) = sbv_empty s"
| "bk_empty (InBv c) = cbv_empty c"

fun bk_count :: "backing \<Rightarrow> nat" where
  "bk_count (InCbv c) = cbv_count c"
| "bk_count (InSbv s) = sbv_count s"
| "bk_count (InBv c) = cbv_count c"

fun bk_clear :: "backing \<Rightarrow> backing" where
  "bk_clear (InCbv c) = InCbv (cbv_clear c)"
| "bk_clear (InSbv s) = InSbv (sbv_clear s)"
| "bk_clear (InBv c) = InBv (cbv_clear c)"

fun bk_test :: "backing \<Rightarrow> nat \<Rightarrow> bool \<times> backing" where
  "bk_test (InCbv c) n = (cbv_test c n, InCbv c)"
| "bk_test (InSbv s) n = map_prod id InSbv (sbv_test s n)"
| "bk_test (InBv c) n = (cbv_test c n, InBv c)"

fun bk_test_and_set :: "backing \<Rightarrow> nat \<Rightarrow> bool \<times> backing" where
  "bk_test_and_set (InCbv c) n = map_prod id InCbv (cbv_test_and_set c n)"
| "bk_test_and_set (InSbv s) n = map_prod id InSbv (sbv_test_and_set s n)"
| "bk_test_and_set (InBv c) n = map_prod id InBv (cbv_test_and_set c n)"

fun bk_set :: "backing \<Rightarrow> nat \<Rightarrow> backing" where
  "bk_set (InCbv c) n = InCbv (cbv_set c n)"
| "bk_set (InSbv s) n = InSbv (sbv_set s n)"
| "bk_set (InBv c) n = InBv (cbv_set c n)"

fun bk_reset :: "backing \<Rightarrow> nat \<Rightarrow> backing" where
  "bk_reset (InCbv c) n = InCbv (cbv_reset c n)"
| "bk_reset (InSbv s) n = InSbv (sbv_reset s n)"
| "bk_reset (InBv c) n = InBv (cbv_reset c n)"

fun bk_contains :: "backing \<Rightarrow> backing \<Rightarrow> bool option" where
  "bk_contains (InCbv c) (InCbv rhs) = cbv_contains c rhs"
| "bk_contains (InSbv s) (InSbv rhs) = Some (sbv_contains s rhs)"
| "bk_contains (InBv c) (InBv rhs) = cbv_contains c rhs"
| "bk_contains _ _ = None"

fun bk_intersects :: "backing \<Rightarrow> backing \<Rightarrow> bool option" where
  "bk_intersects (InCbv c) (InCbv rhs) = Some (cbv_intersects c rhs)"
| "bk_intersects (InSbv s) (InSbv rhs) = Some (sbv_intersects s rhs)"
| "bk_intersects (InBv c) (InBv rhs) = Some (cbv_intersects c rhs)"
| "bk_intersects _ _ = None"

fun bk_eq :: "backing \<Rightarrow> backing \<Rightarrow> bool option" where
  "bk_eq (InCbv c) (InCbv rhs) = Some (cbv_eq c rhs)"
| "bk_eq (InSbv s) (InSbv rhs) = Some (sbv_eq s rhs)"
| "bk_eq (InBv c) (InBv rhs) = Some (cbv_eq c rhs)"
| "bk_eq _ _ = None"

fun bk_or_assign :: "backing \<Rightarrow> backing \<Rightarrow> (bool \<times> backing) option" where
  "bk_or_assign (InCbv c) (InCbv rhs) = map_option (map_prod id InCbv) (cbv_or_assign c rhs)"
| "bk_or_assign (InSbv s) (InSbv rhs) = Some (map_prod id InSbv (sbv_or_assign s rhs))"
| "bk_or_assign (InBv c) (InBv rhs) = map_option (map_prod id InBv) (cbv_or_assign c rhs)"
| "bk_or_assign _ _ = None"

fun bk_and_assign :: "backing \<Rightarrow> backing \<Rightarrow> (bool \<times> backing) option" where
  "bk_and_assign (InCbv c) (InCbv rhs) = map_option (map_prod id InCbv) (cbv_and_assign c rhs)"
| "bk_and_assign (InSbv s) (InSbv rhs) = Some (map_prod id InSbv (sbv_and_assign s rhs))"
| "bk_and_assign (InBv c) (InBv rhs) = map_option (map_prod id InBv) (cbv_and_assign c rhs)"
| "bk_and_assign _ _ = None"

fun bk_minus_assign :: "backing \<Rightarrow> backing \<Rightarrow> (bool \<times> backing) option" where
  "bk_minus_assign (InCbv c) (InCbv rhs) =
     map_option (map_prod id InCbv) (cbv_intersectWithComplement c rhs)"
| "bk_minus_assign (InSbv s) (InSbv rhs) = Some (map_prod id InSbv (sbv_intersectWithComplement s rhs))"
| "bk_minus_assign (InBv c) (InBv rhs) =
     map_option (map_prod id InBv) (cbv_intersectWithComplement c rhs)"
| "bk_minus_assign _ _ = None"

fun bk_minus2 :: "backing \<Rightarrow> backing \<Rightarrow> backing \<Rightarrow> backing option" where
  "bk_minus2 (InCbv c) (InCbv lhs) (InCbv rhs) =
     map_option InCbv (cbv_intersectWithComplement2 c lhs rhs)"
| "bk_minus2 (InSbv s) (InSbv lhs) (InSbv rhs) =
     Some (InSbv (sbv_intersectWithComplement2 s lhs rhs))"
| "bk_minus2 (InBv c) (InBv lhs) (InBv rhs) =
     map_option InBv (cbv_intersectWithComplement2 c lhs rhs)"
| "bk_minus2 _ _ _ = None"

fun bk_list :: "backing \<Rightarrow> nat list option" where
  "bk_list (InCbv c) = cbv_list c"
| "bk_list (InSbv s) = sbv_list s"
| "bk_list (InBv c) = cbv_list c"

fun bk_inv :: "backing \<Rightarrow> bool" where
  "bk_inv (InCbv c) = cbv_inv c"
| "bk_inv (InSbv s) = sbv_inv s"
| "bk_inv (InBv c) = cbv_inv c"

fun bk_bits :: "backing \<Rightarrow> nat set" where
  "bk_bits (InCbv c) = cbv_bits c"
| "bk_bits (InSbv s) = sbv_bits s"
| "bk_bits (InBv c) = cbv_bits c"

fun bk_exact :: "backing \<Rightarrow> bool" where
  "bk_exact (InCbv c) = cbv_exact c"
| "bk_exact (InSbv s) = True"
| "bk_exact (InBv c) = cbv_exact c"

definition bk_same :: "backing \<Rightarrow> backing \<Rightarrow> bool" where
  "bk_same a b \<longleftrightarrow> bk_type a = bk_type b"

text \<open>Every backing meets the contract, so the wrapper does.\<close>

lemma bk_same_cases:
  assumes "bk_same a b"
  obtains c d where "a = InCbv c" "b = InCbv d" | s t where "a = InSbv s" "b = InSbv t"
    | c d where "a = InBv c" "b = InBv d"
  using assms by (cases a; cases b) (auto simp: bk_same_def)

lemma bk_or_law:
  assumes "bk_inv a" "bk_inv b" "bk_same a b"
  shows "\<exists>ch c. bk_or_assign a b = Some (ch, c) \<and>
      bk_inv c \<and> bk_bits c = bk_bits a \<union> bk_bits b \<and> bk_same a c \<and>
      (bk_bits c \<noteq> bk_bits a \<longrightarrow> ch) \<and> (bk_exact a \<longrightarrow> (ch \<longleftrightarrow> bk_bits c \<noteq> bk_bits a))"
  using assms(3)
proof (cases rule: bk_same_cases)
  case (1 c d)
  then show ?thesis using cv.or_law [of c d] assms by (force simp: bk_same_def)
next
  case (2 s t)
  then show ?thesis using sv.or_law [of s t] assms by (force simp: bk_same_def)
next
  case (3 c d)
  then show ?thesis using cv.or_law [of c d] assms by (force simp: bk_same_def)
qed

lemma bk_and_law:
  assumes "bk_inv a" "bk_inv b" "bk_same a b"
  shows "\<exists>ch c. bk_and_assign a b = Some (ch, c) \<and> bk_inv c \<and>
      bk_bits c = bk_bits a \<inter> bk_bits b \<and> bk_same a c \<and> (ch \<longleftrightarrow> bk_bits c \<noteq> bk_bits a)"
  using assms(3)
proof (cases rule: bk_same_cases)
  case (1 c d)
  then show ?thesis using cv.and_law [of c d] assms by (force simp: bk_same_def)
next
  case (2 s t)
  then show ?thesis using sv.and_law [of s t] assms by (force simp: bk_same_def)
next
  case (3 c d)
  then show ?thesis using cv.and_law [of c d] assms by (force simp: bk_same_def)
qed

lemma bk_minus_law:
  assumes "bk_inv a" "bk_inv b" "bk_same a b"
  shows "\<exists>ch c. bk_minus_assign a b = Some (ch, c) \<and> bk_inv c \<and>
      bk_bits c = bk_bits a - bk_bits b \<and> bk_same a c \<and> (ch \<longleftrightarrow> bk_bits c \<noteq> bk_bits a)"
  using assms(3)
proof (cases rule: bk_same_cases)
  case (1 c d)
  then show ?thesis using cv.minus_law [of c d] assms by (force simp: bk_same_def)
next
  case (2 s t)
  then show ?thesis using sv.minus_law [of s t] assms by (force simp: bk_same_def)
next
  case (3 c d)
  then show ?thesis using cv.minus_law [of c d] assms by (force simp: bk_same_def)
qed

lemma bk_minus2_law:
  assumes "bk_inv a" "bk_inv b" "bk_same a b" "bk_same x a"
  shows "\<exists>c. bk_minus2 x a b = Some c \<and> bk_inv c \<and> bk_bits c = bk_bits a - bk_bits b \<and> bk_same x c"
  using assms(3)
proof (cases rule: bk_same_cases)
  case (1 c d)
  then obtain e where "x = InCbv e" using assms(4) by (cases x) (auto simp: bk_same_def)
  then show ?thesis using 1 cv.minus2_law [of c d e] assms by (force simp: bk_same_def)
next
  case (2 s t)
  then obtain e where "x = InSbv e" using assms(4) by (cases x) (auto simp: bk_same_def)
  then show ?thesis using 2 sv.minus2_law [of s t e] assms by (force simp: bk_same_def)
next
  case (3 c d)
  then obtain e where "x = InBv e" using assms(4) by (cases x) (auto simp: bk_same_def)
  then show ?thesis using 3 cv.minus2_law [of c d e] assms by (force simp: bk_same_def)
qed

lemma bk_test_law:
  assumes "bk_inv a" "bk_test a n = (r, a')"
  shows "bk_inv a' \<and> bk_bits a' = bk_bits a \<and> bk_same a a' \<and> (r \<longleftrightarrow> n \<in> bk_bits a)"
proof (cases a)
  case (InSbv s)
  obtain t where "sbv_test s n = (r, t)" "a' = InSbv t"
    using assms(2) InSbv by (cases "sbv_test s n") auto
  then show ?thesis using sv.test_law [of s n r t] InSbv assms by (simp add: bk_same_def)
qed (use assms cv.test_law in \<open>auto simp: bk_same_def\<close>)

lemma bk_test_and_set_law:
  assumes "bk_inv a" "n < 2 ^ 32" "bk_test_and_set a n = (r, a')"
  shows "bk_inv a' \<and> bk_bits a' = insert n (bk_bits a) \<and> bk_same a a' \<and> (r \<longleftrightarrow> n \<notin> bk_bits a)"
proof (cases a)
  case (InSbv s)
  then obtain t where "sbv_test_and_set s n = (r, t)" "a' = InSbv t"
    using assms(3) by (cases "sbv_test_and_set s n") auto
  then show ?thesis using sv.test_and_set_law [of s n r t] InSbv assms by (simp add: bk_same_def)
next
  case (InCbv c)
  then obtain t where "cbv_test_and_set c n = (r, t)" "a' = InCbv t"
    using assms(3) by (cases "cbv_test_and_set c n") auto
  then show ?thesis using cv.test_and_set_law [of c n r t] InCbv assms by (simp add: bk_same_def)
next
  case (InBv c)
  then obtain t where "cbv_test_and_set c n = (r, t)" "a' = InBv t"
    using assms(3) by (cases "cbv_test_and_set c n") auto
  then show ?thesis using cv.test_and_set_law [of c n r t] InBv assms by (simp add: bk_same_def)
qed

interpretation bk: bit_vector bk_inv bk_bits bk_same bk_exact bk_empty bk_count bk_clear
  bk_test bk_test_and_set bk_set bk_reset bk_contains bk_intersects bk_eq
  bk_or_assign bk_and_assign bk_minus_assign bk_minus2 bk_list
proof (unfold_locales, goal_cases)
  case (1 a n)
  then show ?case using cv.bits_u32 sv.bits_u32 by (cases a) auto
next
  case (2 a)
  show ?case using cv.bits_finite sv.bits_finite by (cases a) auto
next
  case (8 a n r a')
  then show ?case by (rule bk_test_law)
next
  case (9 a n r a')
  then show ?case by (rule bk_test_and_set_law)
next
  case (10 a n)
  then show ?case using cv.set_law sv.set_law by (cases a) (simp_all add: bk_same_def)
next
  case (12 a b)
  show ?case using 12(3)
    by (cases rule: bk_same_cases) (use 12 cv.contains_law sv.contains_law in simp_all)
next
  case (13 a b)
  show ?case using 13(3)
    by (cases rule: bk_same_cases) (use 13 cv.intersects_law sv.intersects_law in simp_all)
next
  case (14 a b)
  show ?case using 14(3)
    by (cases rule: bk_same_cases) (use 14 cv.equals_law sv.equals_law in simp_all)
next
  case (15 a b)
  then show ?case by (rule bk_or_law)
next
  case (16 a b)
  then show ?case by (rule bk_and_law)
next
  case (17 a b)
  then show ?case by (rule bk_minus_law)
next
  case (18 a b x)
  then show ?case by (rule bk_minus2_law)
next
  case (5 a)
  then show ?case using cv.empty_law sv.empty_law by (cases a) auto
next
  case (6 a)
  then show ?case using cv.count_law sv.count_law by (cases a) auto
next
  case (7 a)
  then show ?case using cv.clear_law sv.clear_law by (cases a) (auto simp: bk_same_def)
next
  case (11 a n)
  then show ?case using cv.reset_law sv.reset_law by (cases a) (simp_all add: bk_same_def)
next
  case (19 a)
  then show ?case using cv.elements_law sv.elements_law by (cases a) auto
qed (auto simp: bk_same_def)


section \<open>Operations of the wrapper\<close>

definition getInternalNode :: "points_to \<Rightarrow> NodeID \<Rightarrow> NodeID option" where
  "getInternalNode pt n =
     (case nodeMapping pt of
        None \<Rightarrow> Some n
      | Some m \<Rightarrow> if n < length (vec_entries m) then Some (vec_entries m ! n) else None)"

definition getExternalNode :: "points_to \<Rightarrow> NodeID \<Rightarrow> NodeID option" where
  "getExternalNode pt n =
     (case reverseNodeMapping pt of
        None \<Rightarrow> Some n
      | Some m \<Rightarrow> if n < length (vec_entries m) then Some (vec_entries m ! n) else None)"

definition metaSame :: "points_to \<Rightarrow> points_to \<Rightarrow> bool" where
  "metaSame pt rhs \<longleftrightarrow> ptr_eq (nodeMapping pt) (nodeMapping rhs) \<and>
     ptr_eq (reverseNodeMapping pt) (reverseNodeMapping rhs)"

definition pt_empty :: "points_to \<Rightarrow> bool" where
  "pt_empty pt = bk_empty (backing pt)"

definition pt_count :: "points_to \<Rightarrow> nat" where
  "pt_count pt = bk_count (backing pt)"

definition pt_clear :: "points_to \<Rightarrow> points_to" where
  "pt_clear pt = pt\<lparr>backing := bk_clear (backing pt)\<rparr>"

definition pt_test :: "points_to \<Rightarrow> NodeID \<Rightarrow> (bool \<times> points_to) option" where
  "pt_test pt n = do {
     n \<leftarrow> getInternalNode pt n;
     let (r, b) = bk_test (backing pt) n;
     Some (r, pt\<lparr>backing := b\<rparr>)
   }"

definition pt_test_and_set :: "points_to \<Rightarrow> NodeID \<Rightarrow> (bool \<times> points_to) option" where
  "pt_test_and_set pt n = do {
     n \<leftarrow> getInternalNode pt n;
     let (r, b) = bk_test_and_set (backing pt) n;
     Some (r, pt\<lparr>backing := b\<rparr>)
   }"

definition pt_set :: "points_to \<Rightarrow> NodeID \<Rightarrow> points_to option" where
  "pt_set pt n = do {
     n \<leftarrow> getInternalNode pt n;
     Some (pt\<lparr>backing := bk_set (backing pt) n\<rparr>)
   }"

definition pt_reset :: "points_to \<Rightarrow> NodeID \<Rightarrow> points_to option" where
  "pt_reset pt n = do {
     n \<leftarrow> getInternalNode pt n;
     Some (pt\<lparr>backing := bk_reset (backing pt) n\<rparr>)
   }"

definition pt_contains :: "points_to \<Rightarrow> points_to \<Rightarrow> bool option" where
  "pt_contains pt rhs = (if metaSame pt rhs then bk_contains (backing pt) (backing rhs) else None)"

definition pt_intersects :: "points_to \<Rightarrow> points_to \<Rightarrow> bool option" where
  "pt_intersects pt rhs = (if metaSame pt rhs then bk_intersects (backing pt) (backing rhs) else None)"

definition pt_eq :: "points_to \<Rightarrow> points_to \<Rightarrow> bool option" where
  "pt_eq pt rhs = (if metaSame pt rhs then bk_eq (backing pt) (backing rhs) else None)"

definition pt_neq :: "points_to \<Rightarrow> points_to \<Rightarrow> bool option" where
  "pt_neq pt rhs = (if metaSame pt rhs then map_option Not (pt_eq pt rhs) else None)"

text \<open>The binary operations store their result in the backing of the left operand.\<close>

definition pt_update :: "points_to \<Rightarrow> (bool \<times> backing) option \<Rightarrow> (bool \<times> points_to) option" where
  "pt_update pt r = map_option (\<lambda>(ch, b). (ch, pt\<lparr>backing := b\<rparr>)) r"

definition pt_or_assign :: "points_to \<Rightarrow> points_to \<Rightarrow> (bool \<times> points_to) option" where
  "pt_or_assign pt rhs =
     (if metaSame pt rhs then pt_update pt (bk_or_assign (backing pt) (backing rhs)) else None)"

definition pt_and_assign :: "points_to \<Rightarrow> points_to \<Rightarrow> (bool \<times> points_to) option" where
  "pt_and_assign pt rhs =
     (if metaSame pt rhs then pt_update pt (bk_and_assign (backing pt) (backing rhs)) else None)"

definition pt_minus_assign :: "points_to \<Rightarrow> points_to \<Rightarrow> (bool \<times> points_to) option" where
  "pt_minus_assign pt rhs =
     (if metaSame pt rhs then pt_update pt (bk_minus_assign (backing pt) (backing rhs)) else None)"

definition pt_intersectWithComplement :: "points_to \<Rightarrow> points_to \<Rightarrow> (bool \<times> points_to) option" where
  "pt_intersectWithComplement pt rhs =
     (if metaSame pt rhs then pt_update pt (bk_minus_assign (backing pt) (backing rhs)) else None)"

definition pt_intersectWithComplement2 :: "points_to \<Rightarrow> points_to \<Rightarrow> points_to \<Rightarrow> points_to option" where
  "pt_intersectWithComplement2 pt lhs rhs =
     (if metaSame pt rhs \<and> metaSame pt lhs
      then map_option (\<lambda>b. pt\<lparr>backing := b\<rparr>) (bk_minus2 (backing pt) (backing lhs) (backing rhs))
      else None)"

definition pt_or :: "points_to \<Rightarrow> points_to \<Rightarrow> points_to option" where
  "pt_or lhs rhs = map_option snd (pt_or_assign (pt_copy lhs) rhs)"

definition pt_and :: "points_to \<Rightarrow> points_to \<Rightarrow> points_to option" where
  "pt_and lhs rhs = map_option snd (pt_and_assign (pt_copy lhs) rhs)"

definition pt_minus :: "points_to \<Rightarrow> points_to \<Rightarrow> points_to option" where
  "pt_minus lhs rhs = map_option snd (pt_minus_assign (pt_copy lhs) rhs)"

section \<open>The iterator of the wrapper\<close>

datatype pt_iter = SbvIt sbv_iter | CbvIt cbv_iter | BvIt cbv_iter

fun bk_begin :: "backing \<Rightarrow> bool \<Rightarrow> pt_iter option" where
  "bk_begin (InCbv c) e = Some (CbvIt (if e then cbv_end c else cbv_begin c))"
| "bk_begin (InSbv s) e = map_option SbvIt (if e then sbv_end s else sbv_begin s)"
| "bk_begin (InBv c) e = Some (BvIt (if e then cbv_end c else cbv_begin c))"

definition pti_make :: "points_to \<Rightarrow> bool \<Rightarrow> pt_iter option" where
  "pti_make pt e = bk_begin (backing pt) e"

fun bk_it_eq :: "backing \<Rightarrow> pt_iter \<Rightarrow> pt_iter \<Rightarrow> bool option" where
  "bk_it_eq (InCbv c) (CbvIt it) (CbvIt rhs) = Some (it_eq c it rhs)"
| "bk_it_eq (InSbv s) (SbvIt it) (SbvIt rhs) = Some (sbv_iter_eq it rhs)"
| "bk_it_eq (InBv c) (BvIt it) (BvIt rhs) = Some (it_eq c it rhs)"
| "bk_it_eq _ _ _ = None"

text \<open>Copying an iterator: the active member follows the type of the set iterated over.\<close>

fun bk_it_copy :: "backing \<Rightarrow> pt_iter \<Rightarrow> pt_iter option" where
  "bk_it_copy (InSbv s) (SbvIt it) = Some (SbvIt it)"
| "bk_it_copy (InCbv c) (CbvIt it) = Some (CbvIt it)"
| "bk_it_copy (InBv c) (BvIt it) = Some (BvIt it)"
| "bk_it_copy _ _ = None"

definition pti_copy :: "points_to \<Rightarrow> pt_iter \<Rightarrow> pt_iter option" where
  "pti_copy pt it = bk_it_copy (backing pt) it"

text \<open>Two iterators of the same set; comparing those of different sets fails an assertion.\<close>

definition pti_eq :: "points_to \<Rightarrow> pt_iter \<Rightarrow> pt_iter \<Rightarrow> bool option" where
  "pti_eq pt it rhs = bk_it_eq (backing pt) it rhs"

definition pti_neq :: "points_to \<Rightarrow> pt_iter \<Rightarrow> pt_iter \<Rightarrow> bool option" where
  "pti_neq pt it rhs = map_option Not (pti_eq pt it rhs)"

definition pti_atEnd :: "points_to \<Rightarrow> pt_iter \<Rightarrow> bool option" where
  "pti_atEnd pt it = do { e \<leftarrow> bk_begin (backing pt) True; bk_it_eq (backing pt) it e }"

fun bk_it_inc :: "backing \<Rightarrow> pt_iter \<Rightarrow> pt_iter option" where
  "bk_it_inc (InCbv c) (CbvIt it) = map_option CbvIt (it_inc c it)"
| "bk_it_inc (InSbv s) (SbvIt it) = map_option SbvIt (sbv_iter_inc s it)"
| "bk_it_inc (InBv c) (BvIt it) = map_option BvIt (it_inc c it)"
| "bk_it_inc _ _ = None"

definition pti_inc :: "points_to \<Rightarrow> pt_iter \<Rightarrow> pt_iter option" where
  "pti_inc pt it = do {
     e \<leftarrow> pti_atEnd pt it;
     if e then None else bk_it_inc (backing pt) it
   }"

definition pti_post_inc :: "points_to \<Rightarrow> pt_iter \<Rightarrow> (pt_iter \<times> pt_iter) option" where
  "pti_post_inc pt it = do {
     e \<leftarrow> pti_atEnd pt it;
     if e then None else do { old \<leftarrow> pti_copy pt it; it' \<leftarrow> pti_inc pt it; Some (old, it') }
   }"

fun bk_it_deref :: "backing \<Rightarrow> pt_iter \<Rightarrow> nat option" where
  "bk_it_deref (InCbv c) (CbvIt it) = it_deref c it"
| "bk_it_deref (InSbv s) (SbvIt it) = Some (sbv_iter_deref it)"
| "bk_it_deref (InBv c) (BvIt it) = it_deref c it"
| "bk_it_deref _ _ = None"

definition pti_deref :: "points_to \<Rightarrow> pt_iter \<Rightarrow> NodeID option" where
  "pti_deref pt it = do {
     e \<leftarrow> pti_atEnd pt it;
     if e then None else do { n \<leftarrow> bk_it_deref (backing pt) it; getExternalNode pt n }
   }"

text \<open>A range-based \<open>for\<close> over a points-to set: the nodes it visits.\<close>

partial_function (option) pt_iterate :: "points_to \<Rightarrow> pt_iter \<Rightarrow> NodeID list option" where
  "pt_iterate pt it = do {
     e \<leftarrow> pti_make pt True;
     go \<leftarrow> pti_neq pt it e;
     if go then do {
       n \<leftarrow> pti_deref pt it;
       it' \<leftarrow> pti_inc pt it;
       ns \<leftarrow> pt_iterate pt it';
       Some (n # ns)
     } else Some []
   }"

definition pt_list :: "points_to \<Rightarrow> NodeID list option" where
  "pt_list pt = do { it \<leftarrow> pti_make pt False; pt_iterate pt it }"

definition pt_find_first :: "points_to \<Rightarrow> int option" where
  "pt_find_first pt =
     (if pt_count pt = 0 then Some (-1)
      else do { it \<leftarrow> pti_make pt False; map_option to_int (pti_deref pt it) })"

fun set_nodes :: "points_to \<Rightarrow> NodeID list \<Rightarrow> points_to option" where
  "set_nodes pt [] = Some pt"
| "set_nodes pt (n # ns) = do { pt \<leftarrow> pt_set pt n; set_nodes pt ns }"

fun or_nodes :: "points_to \<Rightarrow> NodeID list \<Rightarrow> bool \<Rightarrow> (bool \<times> points_to) option" where
  "or_nodes pt [] changed = Some (changed, pt)"
| "or_nodes pt (n # ns) changed =
     (if changed then do { pt \<leftarrow> pt_set pt n; or_nodes pt ns changed }
      else do { (changed, pt) \<leftarrow> pt_test_and_set pt n; or_nodes pt ns changed })"

definition pt_or_nodeBS :: "points_to \<Rightarrow> sbv \<Rightarrow> (bool \<times> points_to) option" where
  "pt_or_nodeBS pt rhs = do { ns \<leftarrow> sbv_list rhs; or_nodes pt ns False }"

definition toNodeBS :: "points_to \<Rightarrow> sbv option" where
  "toNodeBS pt = do { ns \<leftarrow> pt_list pt; Some (fold (\<lambda>n nbs. sbv_set nbs n) ns sbv_new) }"

definition checkAndRemap :: "pt_globals \<Rightarrow> points_to \<Rightarrow> points_to option" where
  "checkAndRemap g pt =
     (if \<not> ptr_eq (nodeMapping pt) (currentBestNodeMapping g)
      then do { ns \<leftarrow> pt_list pt; map_option (pt_move_assign pt) (set_nodes (pt_new g) ns) }
      else Some pt)"


section \<open>The hash\<close>

text \<open>\<open>Hash<std::pair<S, T>>\<close>: Szudzik's pairing on 64-bit words.\<close>

definition szudzik :: "64 word \<Rightarrow> 64 word \<Rightarrow> 64 word" where
  "szudzik a b = (if a > b then b * b + a else a * a + a + b)"

text \<open>\<open>Hash<NodePair>\<close> packs the two 32-bit numbers into one word.\<close>

definition node_pair_hash :: "NodeID \<times> NodeID \<Rightarrow> 64 word" where
  "node_pair_hash p = push_bit 32 (of_nat (u32 (fst p))) OR of_nat (u32 (snd p))"

text \<open>
  \<open>std::hash<SparseBitVector>\<close> pairs the count, the first and the last element;
  \<open>h\<close> stands for \<open>std::hash<size_t>\<close>. The conversion of \<open>int\<close> to
  \<open>size_t\<close> is \<open>of_int\<close>.
\<close>

definition sbv_hash :: "(64 word \<Rightarrow> 64 word) \<Rightarrow> sbv \<Rightarrow> 64 word option" where
  "sbv_hash h s = do {
     a \<leftarrow> sbv_find_first s;
     z \<leftarrow> sbv_find_last s;
     Some (szudzik (szudzik (h (of_nat (sbv_count s))) (h (of_int a))) (h (of_int z)))
   }"

fun pt_hash_backing :: "(64 word \<Rightarrow> 64 word) \<Rightarrow> backing \<Rightarrow> 64 word option" where
  "pt_hash_backing h (InCbv c) = Some (cbv_hash c)"
| "pt_hash_backing h (InSbv s) = sbv_hash h s"
| "pt_hash_backing h (InBv c) = Some (cbv_hash c)"

definition pt_hash :: "(64 word \<Rightarrow> 64 word) \<Rightarrow> points_to \<Rightarrow> 64 word option" where
  "pt_hash h pt = pt_hash_backing h (backing pt)"

section \<open>What a points-to set stands for\<close>

text \<open>The two mappings are inverse to each other and within 32 bits.\<close>

definition mapping_ok :: "mapping_ptr \<Rightarrow> mapping_ptr \<Rightarrow> bool" where
  "mapping_ok m r \<longleftrightarrow>
     (case (m, r) of
        (None, None) \<Rightarrow> True
      | (Some m, Some r) \<Rightarrow>
          length (vec_entries m) \<le> 2 ^ 32 \<and> length (vec_entries r) \<le> 2 ^ 32 \<and>
          (\<forall>n < length (vec_entries m). vec_entries m ! n < length (vec_entries r) \<and>
             vec_entries r ! (vec_entries m ! n) = n) \<and>
          (\<forall>i < length (vec_entries r). vec_entries r ! i < length (vec_entries m) \<and>
             vec_entries m ! (vec_entries r ! i) = i)
      | _ \<Rightarrow> False)"

definition map_limit :: "mapping_ptr \<Rightarrow> nat" where
  "map_limit m = (case m of None \<Rightarrow> 2 ^ 32 | Some v \<Rightarrow> length (vec_entries v))"

definition map_node :: "mapping_ptr \<Rightarrow> nat \<Rightarrow> nat" where
  "map_node m n = (case m of None \<Rightarrow> n | Some v \<Rightarrow> vec_entries v ! n)"

definition pt_valid :: "points_to \<Rightarrow> NodeID \<Rightarrow> bool" where
  "pt_valid pt n \<longleftrightarrow> n < map_limit (nodeMapping pt)"

definition pt_inv :: "points_to \<Rightarrow> bool" where
  "pt_inv pt \<longleftrightarrow> bk_inv (backing pt) \<and> mapping_ok (nodeMapping pt) (reverseNodeMapping pt) \<and>
     (\<forall>i \<in> bk_bits (backing pt). i < map_limit (reverseNodeMapping pt))"

definition pt_nodes :: "points_to \<Rightarrow> NodeID set" where
  "pt_nodes pt = map_node (reverseNodeMapping pt) ` bk_bits (backing pt)"

text \<open>Same type and the same mapping vectors: the operands a binary operation accepts.\<close>

definition pt_same :: "points_to \<Rightarrow> points_to \<Rightarrow> bool" where
  "pt_same pt rhs \<longleftrightarrow> bk_same (backing pt) (backing rhs) \<and> nodeMapping pt = nodeMapping rhs \<and>
     reverseNodeMapping pt = reverseNodeMapping rhs"

definition pt_exact :: "points_to \<Rightarrow> bool" where
  "pt_exact pt = bk_exact (backing pt)"

lemma pt_same_meta: "pt_same a b \<Longrightarrow> metaSame a b"
  by (simp add: pt_same_def metaSame_def ptr_eq_def)

lemma mapping_okD:
  assumes "mapping_ok m r"
  shows "n < map_limit m \<Longrightarrow> map_node m n < map_limit r \<and> map_node r (map_node m n) = n"
    "i < map_limit r \<Longrightarrow> map_node r i < map_limit m \<and> map_node m (map_node r i) = i"
    "map_limit m \<le> 2 ^ 32" "map_limit r \<le> 2 ^ 32"
  using assms by (auto simp: mapping_ok_def map_limit_def map_node_def split: option.splits)

lemma map_node_inj: "mapping_ok m r \<Longrightarrow> inj_on (map_node r) {..<map_limit r}"
  by (rule inj_on_inverseI [where g = "map_node m"]) (simp add: mapping_okD)

lemma getInternalNode_eq:
  assumes "n < map_limit (nodeMapping pt)"
  shows "getInternalNode pt n = Some (map_node (nodeMapping pt) n)"
  using assms by (auto simp: getInternalNode_def map_limit_def map_node_def split: option.splits)

lemma getExternalNode_eq:
  assumes "i < map_limit (reverseNodeMapping pt)"
  shows "getExternalNode pt i = Some (map_node (reverseNodeMapping pt) i)"
  using assms by (auto simp: getExternalNode_def map_limit_def map_node_def split: option.splits)

lemma pt_nodes_valid: "pt_inv pt \<Longrightarrow> n \<in> pt_nodes pt \<Longrightarrow> pt_valid pt n"
  by (auto simp: pt_nodes_def pt_inv_def pt_valid_def mapping_okD)

lemma finite_pt_nodes [simp]: "finite (pt_nodes pt)"
  by (simp add: pt_nodes_def bk.bits_finite)

text \<open>Node \<open>n\<close> is in the set iff its internal number is set.\<close>

lemma pt_nodes_iff:
  assumes "pt_inv pt" "pt_valid pt n"
  shows "n \<in> pt_nodes pt \<longleftrightarrow> map_node (nodeMapping pt) n \<in> bk_bits (backing pt)"
proof -
  have ok: "mapping_ok (nodeMapping pt) (reverseNodeMapping pt)" using assms by (simp add: pt_inv_def)
  note m = mapping_okD(1) [OF ok, of n] mapping_okD(2) [OF ok]
  show ?thesis
  proof
    assume "n \<in> pt_nodes pt"
    then obtain i where "i \<in> bk_bits (backing pt)" "n = map_node (reverseNodeMapping pt) i"
      by (auto simp: pt_nodes_def)
    then show "map_node (nodeMapping pt) n \<in> bk_bits (backing pt)"
      using m(2) [of i] assms(1) by (auto simp: pt_inv_def)
  next
    assume "map_node (nodeMapping pt) n \<in> bk_bits (backing pt)"
    then have "map_node (reverseNodeMapping pt) (map_node (nodeMapping pt) n) \<in> pt_nodes pt"
      by (simp add: pt_nodes_def)
    then show "n \<in> pt_nodes pt" using m(1) assms(2) by (simp add: pt_valid_def)
  qed
qed

text \<open>A set with the same mappings and other bits.\<close>

lemma pt_backing_inv:
  assumes "pt_inv pt" "bk_inv b" "\<forall>i \<in> bk_bits b. i < map_limit (reverseNodeMapping pt)"
  shows "pt_inv (pt\<lparr>backing := b\<rparr>)"
    "pt_nodes (pt\<lparr>backing := b\<rparr>) = map_node (reverseNodeMapping pt) ` bk_bits b"
  using assms by (auto simp: pt_inv_def pt_nodes_def)

lemma pt_backing_same: "bk_same (backing pt) b \<Longrightarrow> pt_same pt (pt\<lparr>backing := b\<rparr>)"
  by (simp add: pt_same_def)

lemma pt_same_refl [simp]: "pt_same pt pt"
  by (simp add: pt_same_def bk_same_def)

lemma pt_same_trans: "pt_same a b \<Longrightarrow> pt_same b c \<Longrightarrow> pt_same a c"
  by (simp add: pt_same_def bk_same_def)

lemma pt_same_sym: "pt_same a b \<Longrightarrow> pt_same b a"
  by (simp add: pt_same_def bk_same_def)

end
