(* ===== verification/PointsToSpec.thy ===== *)
theory PointsToSpec
  imports PointsTo
begin

text \<open>
  What the operations of \<open>PointsTo\<close> do to the set of nodes \<open>pt_nodes\<close>, whatever the
  backing and the node mapping; iteration, the hash and remapping.
\<close>

section \<open>Single nodes\<close>

lemma internal_node:
  assumes "pt_inv pt" "pt_valid pt n"
  defines "i \<equiv> map_node (nodeMapping pt) n"
  shows "getInternalNode pt n = Some i" "i < map_limit (reverseNodeMapping pt)" "i < 2 ^ 32"
    "map_node (reverseNodeMapping pt) i = n"
proof -
  have ok: "mapping_ok (nodeMapping pt) (reverseNodeMapping pt)" using assms by (simp add: pt_inv_def)
  note m = mapping_okD(1) [OF ok, of n] mapping_okD(4) [OF ok]
  show "getInternalNode pt n = Some i" "i < map_limit (reverseNodeMapping pt)"
    "map_node (reverseNodeMapping pt) i = n"
    using m assms by (simp_all add: getInternalNode_eq pt_valid_def)
  then show "i < 2 ^ 32" using m(2) by linarith
qed

lemma pt_set_spec:
  assumes "pt_inv pt" "pt_valid pt n"
  obtains pt' where "pt_set pt n = Some pt'" "pt_inv pt'" "pt_nodes pt' = insert n (pt_nodes pt)"
    "pt_same pt pt'"
proof -
  define i where "i = map_node (nodeMapping pt) n"
  note i = internal_node [OF assms, folded i_def]
  have b: "bk_inv (bk_set (backing pt) i)" "bk_bits (bk_set (backing pt) i) = insert i (bk_bits (backing pt))"
      "bk_same (backing pt) (bk_set (backing pt) i)"
    using bk.set_law [of "backing pt" i] assms(1) i(3) by (auto simp: pt_inv_def)
  have lim: "\<forall>j \<in> bk_bits (bk_set (backing pt) i). j < map_limit (reverseNodeMapping pt)"
    using b(2) i(2) assms(1) by (auto simp: pt_inv_def)
  show ?thesis
  proof (rule that)
    show "pt_set pt n = Some (pt\<lparr>backing := bk_set (backing pt) i\<rparr>)" using i(1) by (simp add: pt_set_def)
    show "pt_inv (pt\<lparr>backing := bk_set (backing pt) i\<rparr>)" by (rule pt_backing_inv(1) [OF assms(1) b(1) lim])
    show "pt_nodes (pt\<lparr>backing := bk_set (backing pt) i\<rparr>) = insert n (pt_nodes pt)"
      using b(2) i(4) by (simp add: pt_nodes_def)
    show "pt_same pt (pt\<lparr>backing := bk_set (backing pt) i\<rparr>)" by (rule pt_backing_same [OF b(3)])
  qed
qed

lemma pt_reset_spec:
  assumes "pt_inv pt" "pt_valid pt n"
  obtains pt' where "pt_reset pt n = Some pt'" "pt_inv pt'" "pt_nodes pt' = pt_nodes pt - {n}"
    "pt_same pt pt'"
proof -
  define i where "i = map_node (nodeMapping pt) n"
  note i = internal_node [OF assms, folded i_def]
  have b: "bk_inv (bk_reset (backing pt) i)" "bk_bits (bk_reset (backing pt) i) = bk_bits (backing pt) - {i}"
      "bk_same (backing pt) (bk_reset (backing pt) i)"
    using bk.reset_law [of "backing pt" i] assms(1) by (auto simp: pt_inv_def)
  have lim: "\<forall>j \<in> bk_bits (bk_reset (backing pt) i). j < map_limit (reverseNodeMapping pt)"
    using b(2) assms(1) by (auto simp: pt_inv_def)
  have inj: "inj_on (map_node (reverseNodeMapping pt)) (insert i (bk_bits (backing pt)))"
  proof (rule inj_on_subset [OF map_node_inj])
    show "mapping_ok (nodeMapping pt) (reverseNodeMapping pt)" using assms(1) by (simp add: pt_inv_def)
  qed (use assms(1) i(2) in \<open>auto simp: pt_inv_def\<close>)
  show ?thesis
  proof (rule that)
    show "pt_reset pt n = Some (pt\<lparr>backing := bk_reset (backing pt) i\<rparr>)" using i(1) by (simp add: pt_reset_def)
    show "pt_inv (pt\<lparr>backing := bk_reset (backing pt) i\<rparr>)" by (rule pt_backing_inv(1) [OF assms(1) b(1) lim])
    have "map_node (reverseNodeMapping pt) ` (bk_bits (backing pt) - {i}) =
        map_node (reverseNodeMapping pt) ` bk_bits (backing pt) - map_node (reverseNodeMapping pt) ` {i}"
      by (rule inj_on_image_set_diff [OF inj]) auto
    then show "pt_nodes (pt\<lparr>backing := bk_reset (backing pt) i\<rparr>) = pt_nodes pt - {n}"
      using b(2) i(4) by (simp add: pt_nodes_def)
    show "pt_same pt (pt\<lparr>backing := bk_reset (backing pt) i\<rparr>)" by (rule pt_backing_same [OF b(3)])
  qed
qed

lemma pt_test_spec:
  assumes "pt_inv pt" "pt_valid pt n"
  obtains pt' where "pt_test pt n = Some (n \<in> pt_nodes pt, pt')" "pt_inv pt'" "pt_nodes pt' = pt_nodes pt"
    "pt_same pt pt'"
proof -
  define i where "i = map_node (nodeMapping pt) n"
  note i = internal_node [OF assms, folded i_def]
  obtain r b where t: "bk_test (backing pt) i = (r, b)" by fastforce
  then have b: "bk_inv b" "bk_bits b = bk_bits (backing pt)" "bk_same (backing pt) b"
      "r \<longleftrightarrow> i \<in> bk_bits (backing pt)"
    using bk.test_law [OF _ t] assms(1) by (auto simp: pt_inv_def)
  show ?thesis
  proof (rule that)
    show "pt_test pt n = Some (n \<in> pt_nodes pt, pt\<lparr>backing := b\<rparr>)"
      using i(1) t b(4) pt_nodes_iff [OF assms] by (simp add: pt_test_def i_def)
  qed (use pt_backing_inv [OF assms(1) b(1)] b assms(1) in \<open>auto simp: pt_inv_def pt_nodes_def intro: pt_backing_same\<close>)
qed

lemma pt_test_and_set_spec:
  assumes "pt_inv pt" "pt_valid pt n"
  obtains pt' where "pt_test_and_set pt n = Some (n \<notin> pt_nodes pt, pt')" "pt_inv pt'"
    "pt_nodes pt' = insert n (pt_nodes pt)" "pt_same pt pt'"
proof -
  define i where "i = map_node (nodeMapping pt) n"
  note i = internal_node [OF assms, folded i_def]
  obtain r b where t: "bk_test_and_set (backing pt) i = (r, b)" by fastforce
  then have b: "bk_inv b" "bk_bits b = insert i (bk_bits (backing pt))" "bk_same (backing pt) b"
      "r \<longleftrightarrow> i \<notin> bk_bits (backing pt)"
    using bk.test_and_set_law [OF _ i(3) t] assms(1) by (auto simp: pt_inv_def)
  have lim: "\<forall>j \<in> bk_bits b. j < map_limit (reverseNodeMapping pt)"
    using b(2) i(2) assms(1) by (auto simp: pt_inv_def)
  show ?thesis
  proof (rule that)
    show "pt_test_and_set pt n = Some (n \<notin> pt_nodes pt, pt\<lparr>backing := b\<rparr>)"
      using i(1) t b(4) pt_nodes_iff [OF assms] by (simp add: pt_test_and_set_def i_def)
    show "pt_inv (pt\<lparr>backing := b\<rparr>)" by (rule pt_backing_inv(1) [OF assms(1) b(1) lim])
    show "pt_nodes (pt\<lparr>backing := b\<rparr>) = insert n (pt_nodes pt)"
      using b(2) i(4) by (simp add: pt_nodes_def)
    show "pt_same pt (pt\<lparr>backing := b\<rparr>)" by (rule pt_backing_same [OF b(3)])
  qed
qed

lemma pt_clear_spec:
  assumes "pt_inv pt"
  shows "pt_inv (pt_clear pt)" "pt_nodes (pt_clear pt) = {}" "pt_same pt (pt_clear pt)"
  using assms bk.clear_law [of "backing pt"] by (auto simp: pt_clear_def pt_inv_def pt_nodes_def pt_same_def)

lemma pt_empty_spec: "pt_inv pt \<Longrightarrow> pt_empty pt \<longleftrightarrow> pt_nodes pt = {}"
  by (simp add: pt_empty_def pt_nodes_def pt_inv_def bk.empty_law)

lemma pt_bits_inj:
  "pt_inv pt \<Longrightarrow> inj_on (map_node (reverseNodeMapping pt)) (bk_bits (backing pt))"
  by (rule inj_on_subset [OF map_node_inj]) (auto simp: pt_inv_def)

lemma pt_count_spec: "pt_inv pt \<Longrightarrow> pt_count pt = u32 (card (pt_nodes pt))"
  by (simp add: pt_count_def pt_nodes_def pt_inv_def bk.count_law card_image pt_bits_inj)

lemma bk_new_spec: "bk_inv (bk_new t) \<and> bk_bits (bk_new t) = {}"
  by (cases t) (simp_all add: cbv_inv_new bv_new_spec)

lemma pt_new_spec:
  assumes "mapping_ok (currentBestNodeMapping g) (currentBestReverseNodeMapping g)"
  shows "pt_inv (pt_new g)" "pt_nodes (pt_new g) = {}"
  using assms bk_new_spec by (simp_all add: pt_new_def pt_inv_def pt_nodes_def)

lemma pt_copy_spec:
  "pt_inv pt \<Longrightarrow> pt_inv (pt_copy pt)" "pt_nodes (pt_copy pt) = pt_nodes pt" "pt_same pt (pt_copy pt)"
  by (cases "backing pt"; auto simp: pt_copy_def pt_inv_def pt_nodes_def pt_same_def bk_same_def
      sbv_copy_spec)+

lemma pt_move_spec:
  assumes "pt_inv rhs"
  shows "pt_inv (pt_move_assign pt rhs)" "pt_nodes (pt_move_assign pt rhs) = pt_nodes rhs"
    "pt_same rhs (pt_move_assign pt rhs)"
  using assms by (cases "backing rhs"; auto simp: pt_move_assign_def pt_inv_def pt_nodes_def pt_same_def
      bk_same_def sbv_inv_def sbv_bits_def)+

section \<open>Two sets\<close>

text \<open>Both operands hold internal numbers below the limit, where the mapping is injective.\<close>

lemma pt_two_inj:
  assumes "pt_inv a" "pt_inv b" "pt_same a b"
  shows "inj_on (map_node (reverseNodeMapping a)) (bk_bits (backing a) \<union> bk_bits (backing b))"
  using assms by (intro inj_on_subset [OF map_node_inj]) (auto simp: pt_inv_def pt_same_def)

lemma pt_two_images:
  assumes "pt_inv a" "pt_inv b" "pt_same a b"
  defines "f \<equiv> map_node (reverseNodeMapping a)"
  shows "f ` (bk_bits (backing a) \<union> bk_bits (backing b)) = pt_nodes a \<union> pt_nodes b"
    "f ` (bk_bits (backing a) \<inter> bk_bits (backing b)) = pt_nodes a \<inter> pt_nodes b"
    "f ` (bk_bits (backing a) - bk_bits (backing b)) = pt_nodes a - pt_nodes b"
    "bk_bits (backing b) \<subseteq> bk_bits (backing a) \<longleftrightarrow> pt_nodes b \<subseteq> pt_nodes a"
    "bk_bits (backing a) = bk_bits (backing b) \<longleftrightarrow> pt_nodes a = pt_nodes b"
proof -
  have inj: "inj_on f (bk_bits (backing a) \<union> bk_bits (backing b))"
    unfolding f_def using assms(1-3) by (rule pt_two_inj)
  have n: "pt_nodes a = f ` bk_bits (backing a)" "pt_nodes b = f ` bk_bits (backing b)"
    using assms(3) by (simp_all add: pt_nodes_def pt_same_def f_def)
  show "f ` (bk_bits (backing a) \<union> bk_bits (backing b)) = pt_nodes a \<union> pt_nodes b"
    by (simp add: n image_Un)
  show "f ` (bk_bits (backing a) \<inter> bk_bits (backing b)) = pt_nodes a \<inter> pt_nodes b"
    unfolding n using inj by (intro inj_on_image_Int) auto
  show "f ` (bk_bits (backing a) - bk_bits (backing b)) = pt_nodes a - pt_nodes b"
    unfolding n using inj by (intro inj_on_image_set_diff) auto
  show "bk_bits (backing b) \<subseteq> bk_bits (backing a) \<longleftrightarrow> pt_nodes b \<subseteq> pt_nodes a"
    unfolding n using inj_on_image_mem_iff [OF inj] by blast
  show "bk_bits (backing a) = bk_bits (backing b) \<longleftrightarrow> pt_nodes a = pt_nodes b"
    unfolding n using inj by (intro inj_on_image_eq_iff [symmetric]) auto
qed

lemma pt_update_spec:
  assumes "pt_inv pt" "bk_inv b" "bk_same (backing pt) b"
    and "bk_bits b \<subseteq> {..<map_limit (reverseNodeMapping pt)}"
  shows "pt_inv (pt\<lparr>backing := b\<rparr>)" "pt_same pt (pt\<lparr>backing := b\<rparr>)"
    "pt_nodes (pt\<lparr>backing := b\<rparr>) = map_node (reverseNodeMapping pt) ` bk_bits b"
    "bk_bits b = bk_bits (backing pt) \<longleftrightarrow> pt_nodes (pt\<lparr>backing := b\<rparr>) = pt_nodes pt"
proof -
  show i: "pt_inv (pt\<lparr>backing := b\<rparr>)" and "pt_nodes (pt\<lparr>backing := b\<rparr>) = map_node (reverseNodeMapping pt) ` bk_bits b"
    using pt_backing_inv [OF assms(1,2)] assms(4) by auto
  show s: "pt_same pt (pt\<lparr>backing := b\<rparr>)" by (rule pt_backing_same [OF assms(3)])
  show "bk_bits b = bk_bits (backing pt) \<longleftrightarrow> pt_nodes (pt\<lparr>backing := b\<rparr>) = pt_nodes pt"
    using pt_two_images(5) [OF assms(1) i s] by auto
qed

lemma pt_limits: "pt_inv pt \<Longrightarrow> bk_bits (backing pt) \<subseteq> {..<map_limit (reverseNodeMapping pt)}"
  by (auto simp: pt_inv_def)

lemma pt_or_assign_spec:
  assumes "pt_inv a" "pt_inv b" "pt_same a b"
  obtains ch c where "pt_or_assign a b = Some (ch, c)" "pt_inv c" "pt_same a c"
    "pt_nodes c = pt_nodes a \<union> pt_nodes b" "pt_nodes c \<noteq> pt_nodes a \<longrightarrow> ch"
    "pt_exact a \<longrightarrow> (ch \<longleftrightarrow> pt_nodes c \<noteq> pt_nodes a)"
proof -
  have ab: "bk_inv (backing a)" "bk_inv (backing b)" "bk_same (backing a) (backing b)"
    using assms by (auto simp: pt_inv_def pt_same_def)
  obtain ch d where d: "bk_or_assign (backing a) (backing b) = Some (ch, d)" "bk_inv d"
      "bk_bits d = bk_bits (backing a) \<union> bk_bits (backing b)" "bk_same (backing a) d"
      "bk_bits d \<noteq> bk_bits (backing a) \<longrightarrow> ch"
      "bk_exact (backing a) \<longrightarrow> (ch \<longleftrightarrow> bk_bits d \<noteq> bk_bits (backing a))"
    using bk.or_law [OF ab] by blast
  have lim: "bk_bits d \<subseteq> {..<map_limit (reverseNodeMapping a)}"
    using d(3) pt_limits [OF assms(1)] pt_limits [OF assms(2)] assms(3) by (auto simp: pt_same_def)
  note u = pt_update_spec [OF assms(1) d(2,4) lim]
  show ?thesis
    by (rule that [of ch "a\<lparr>backing := d\<rparr>"])
      (use u d pt_two_images(1) [OF assms] pt_same_meta [OF assms(3)]
        in \<open>auto simp: pt_or_assign_def pt_update_def pt_exact_def\<close>)
qed

lemma pt_and_assign_spec:
  assumes "pt_inv a" "pt_inv b" "pt_same a b"
  obtains c where "pt_and_assign a b = Some (pt_nodes c \<noteq> pt_nodes a, c)" "pt_inv c" "pt_same a c"
    "pt_nodes c = pt_nodes a \<inter> pt_nodes b"
proof -
  have ab: "bk_inv (backing a)" "bk_inv (backing b)" "bk_same (backing a) (backing b)"
    using assms by (auto simp: pt_inv_def pt_same_def)
  obtain ch d where d: "bk_and_assign (backing a) (backing b) = Some (ch, d)" "bk_inv d"
      "bk_bits d = bk_bits (backing a) \<inter> bk_bits (backing b)" "bk_same (backing a) d"
      "ch \<longleftrightarrow> bk_bits d \<noteq> bk_bits (backing a)"
    using bk.and_law [OF ab] by blast
  have lim: "bk_bits d \<subseteq> {..<map_limit (reverseNodeMapping a)}"
    using d(3) pt_limits [OF assms(1)] by auto
  note u = pt_update_spec [OF assms(1) d(2,4) lim]
  have "pt_and_assign a b = Some (pt_nodes (a\<lparr>backing := d\<rparr>) \<noteq> pt_nodes a, a\<lparr>backing := d\<rparr>)"
    using d(1,5) u(4) pt_same_meta [OF assms(3)] by (simp add: pt_and_assign_def pt_update_def)
  then show ?thesis
    by (rule that) (use u d(3) pt_two_images(2) [OF assms] in auto)
qed

lemma pt_minus_update:
  assumes "pt_inv a" "pt_inv b" "pt_same a b"
  obtains c where "pt_update a (bk_minus_assign (backing a) (backing b)) = Some (pt_nodes c \<noteq> pt_nodes a, c)"
    "pt_inv c" "pt_same a c" "pt_nodes c = pt_nodes a - pt_nodes b"
proof -
  have ab: "bk_inv (backing a)" "bk_inv (backing b)" "bk_same (backing a) (backing b)"
    using assms by (auto simp: pt_inv_def pt_same_def)
  obtain ch d where d: "bk_minus_assign (backing a) (backing b) = Some (ch, d)" "bk_inv d"
      "bk_bits d = bk_bits (backing a) - bk_bits (backing b)" "bk_same (backing a) d"
      "ch \<longleftrightarrow> bk_bits d \<noteq> bk_bits (backing a)"
    using bk.minus_law [OF ab] by blast
  have lim: "bk_bits d \<subseteq> {..<map_limit (reverseNodeMapping a)}"
    using d(3) pt_limits [OF assms(1)] by auto
  note u = pt_update_spec [OF assms(1) d(2,4) lim]
  have "pt_update a (bk_minus_assign (backing a) (backing b)) =
      Some (pt_nodes (a\<lparr>backing := d\<rparr>) \<noteq> pt_nodes a, a\<lparr>backing := d\<rparr>)"
    using d(1,5) u(4) by (simp add: pt_update_def)
  then show ?thesis
    by (rule that) (use u d(3) pt_two_images(3) [OF assms] in auto)
qed

lemma pt_minus_assign_spec:
  assumes "pt_inv a" "pt_inv b" "pt_same a b"
  obtains c where "pt_minus_assign a b = Some (pt_nodes c \<noteq> pt_nodes a, c)"
    "pt_inv c" "pt_same a c" "pt_nodes c = pt_nodes a - pt_nodes b"
  by (rule pt_minus_update [OF assms]) (auto simp: pt_minus_assign_def pt_same_meta [OF assms(3)])

lemma pt_intersectWithComplement_eq: "pt_intersectWithComplement a b = pt_minus_assign a b"
  by (simp add: pt_intersectWithComplement_def pt_minus_assign_def)

lemma pt_minus2_spec:
  assumes "pt_inv x" "pt_inv a" "pt_inv b" "pt_same x a" "pt_same x b"
  obtains c where "pt_intersectWithComplement2 x a b = Some c" "pt_inv c" "pt_same x c"
    "pt_nodes c = pt_nodes a - pt_nodes b"
proof -
  have ab: "bk_inv (backing a)" "bk_inv (backing b)" "bk_same (backing a) (backing b)"
      "bk_same (backing x) (backing a)"
    using assms by (auto simp: pt_inv_def pt_same_def bk_same_def)
  obtain d where d: "bk_minus2 (backing x) (backing a) (backing b) = Some d" "bk_inv d"
      "bk_bits d = bk_bits (backing a) - bk_bits (backing b)" "bk_same (backing x) d"
    using bk.minus2_law [OF ab] by blast
  have lim: "bk_bits d \<subseteq> {..<map_limit (reverseNodeMapping x)}"
    using d(3) pt_limits [OF assms(2)] assms(4) by (auto simp: pt_same_def)
  note u = pt_update_spec [OF assms(1) d(2,4) lim]
  have s: "pt_same a b" using pt_same_trans [OF pt_same_sym [OF assms(4)] assms(5)] .
  have "pt_nodes (x\<lparr>backing := d\<rparr>) = pt_nodes a - pt_nodes b"
    using u(3) d(3) pt_two_images(3) [OF assms(2,3) s] assms(4) by (simp add: pt_same_def)
  then show ?thesis
    using u d(1) pt_same_meta [OF assms(4)] pt_same_meta [OF assms(5)]
    by (intro that [of "x\<lparr>backing := d\<rparr>"]) (auto simp: pt_intersectWithComplement2_def)
qed

lemma pt_eq_spec:
  assumes "pt_inv a" "pt_inv b" "pt_same a b"
  shows "pt_eq a b = Some (pt_nodes a = pt_nodes b)"
    "pt_neq a b = Some (pt_nodes a \<noteq> pt_nodes b)"
    "pt_contains a b = Some (pt_nodes b \<subseteq> pt_nodes a)"
    "pt_intersects a b = Some (pt_nodes a \<inter> pt_nodes b \<noteq> {})"
proof -
  have ab: "bk_inv (backing a)" "bk_inv (backing b)" "bk_same (backing a) (backing b)"
    using assms by (auto simp: pt_inv_def pt_same_def)
  note i = pt_two_images [OF assms] and m = pt_same_meta [OF assms(3)]
  show "pt_eq a b = Some (pt_nodes a = pt_nodes b)" using bk.equals_law [OF ab] i(5) m by (simp add: pt_eq_def)
  then show "pt_neq a b = Some (pt_nodes a \<noteq> pt_nodes b)" using m by (simp add: pt_neq_def)
  show "pt_contains a b = Some (pt_nodes b \<subseteq> pt_nodes a)"
    using bk.contains_law [OF ab] i(4) m by (simp add: pt_contains_def)
  show "pt_intersects a b = Some (pt_nodes a \<inter> pt_nodes b \<noteq> {})"
    using bk.intersects_law [OF ab] i(2) m by (auto simp: pt_intersects_def)
qed

lemma pt_or_spec:
  assumes "pt_inv a" "pt_inv b" "pt_same a b"
  obtains c where "pt_or a b = Some c" "pt_inv c" "pt_same a c" "pt_nodes c = pt_nodes a \<union> pt_nodes b"
proof -
  note c = pt_copy_spec(1) [OF assms(1)] pt_copy_spec(2,3) [of a]
  have s: "pt_same (pt_copy a) b" using pt_same_trans [OF pt_same_sym [OF c(3)] assms(3)] .
  show ?thesis
    by (rule pt_or_assign_spec [OF c(1) assms(2) s])
      (use that pt_same_trans [OF c(3)] c(2) in \<open>simp add: pt_or_def\<close>)
qed

lemma pt_and_spec:
  assumes "pt_inv a" "pt_inv b" "pt_same a b"
  obtains c where "pt_and a b = Some c" "pt_inv c" "pt_same a c" "pt_nodes c = pt_nodes a \<inter> pt_nodes b"
proof -
  note c = pt_copy_spec(1) [OF assms(1)] pt_copy_spec(2,3) [of a]
  have s: "pt_same (pt_copy a) b" using pt_same_trans [OF pt_same_sym [OF c(3)] assms(3)] .
  show ?thesis
    by (rule pt_and_assign_spec [OF c(1) assms(2) s])
      (use that pt_same_trans [OF c(3)] c(2) in \<open>simp add: pt_and_def\<close>)
qed

lemma pt_minus_spec:
  assumes "pt_inv a" "pt_inv b" "pt_same a b"
  obtains c where "pt_minus a b = Some c" "pt_inv c" "pt_same a c" "pt_nodes c = pt_nodes a - pt_nodes b"
proof -
  note c = pt_copy_spec(1) [OF assms(1)] pt_copy_spec(2,3) [of a]
  have s: "pt_same (pt_copy a) b" using pt_same_trans [OF pt_same_sym [OF c(3)] assms(3)] .
  show ?thesis
    by (rule pt_minus_assign_spec [OF c(1) assms(2) s])
      (use that pt_same_trans [OF c(3)] c(2) in \<open>simp add: pt_minus_def\<close>)
qed


section \<open>Iteration\<close>

lemma cbv_iterate_step:
  assumes "cbv_iterate c it = Some ns"
  shows "(ns = [] \<and> \<not> it_neq c it (cbv_end c)) \<or>
    (\<exists>n ms it'. ns = n # ms \<and> it_neq c it (cbv_end c) \<and> it_deref c it = Some n \<and>
      it_inc c it = Some it' \<and> cbv_iterate c it' = Some ms)"
  using assms by (subst (asm) cbv_iterate.simps) (auto split: if_splits option.splits simp: bind_eq_Some_conv)

lemma sbv_iterate_step:
  assumes "sbv_iterate s it = Some ns"
  shows "\<exists>e. sbv_end s = Some e \<and> ((ns = [] \<and> sbv_iter_eq it e) \<or>
    (\<exists>ms it'. ns = sbv_iter_deref it # ms \<and> \<not> sbv_iter_eq it e \<and>
      sbv_iter_inc s it = Some it' \<and> sbv_iterate s it' = Some ms))"
  using assms by (subst (asm) sbv_iterate.simps) (auto split: if_splits simp: bind_eq_Some_conv)

text \<open>The wrapper's traversal translates what the traversal of the backing yields.\<close>

lemma pt_iterate_cbv:
  assumes "backing pt = InCbv c" "\<forall>n \<in> set ns. n < map_limit (reverseNodeMapping pt)"
    and "cbv_iterate c it = Some ns"
  shows "pt_iterate pt (CbvIt it) = Some (map (map_node (reverseNodeMapping pt)) ns)"
  using assms(2,3)
proof (induction ns arbitrary: it)
  case Nil
  then show ?case using cbv_iterate_step [OF Nil(2)] assms(1)
    by (subst pt_iterate.simps) (auto simp: pti_make_def pti_neq_def pti_eq_def it_neq_def)
next
  case (Cons n ns)
  obtain it' where it: "it_neq c it (cbv_end c)" "it_deref c it = Some n" "it_inc c it = Some it'"
      "cbv_iterate c it' = Some ns"
    using cbv_iterate_step [OF Cons.prems(2)] by auto
  then show ?case using Cons.IH [OF _ it(4)] Cons.prems(1) assms(1)
    by (subst pt_iterate.simps) (simp add: pti_make_def pti_neq_def pti_eq_def it_neq_def pti_deref_def
        pti_inc_def pti_atEnd_def getExternalNode_eq)
qed

lemma pt_iterate_bv:
  assumes "backing pt = InBv c" "\<forall>n \<in> set ns. n < map_limit (reverseNodeMapping pt)"
    and "cbv_iterate c it = Some ns"
  shows "pt_iterate pt (BvIt it) = Some (map (map_node (reverseNodeMapping pt)) ns)"
  using assms(2,3)
proof (induction ns arbitrary: it)
  case Nil
  then show ?case using cbv_iterate_step [OF Nil(2)] assms(1)
    by (subst pt_iterate.simps) (auto simp: pti_make_def pti_neq_def pti_eq_def it_neq_def)
next
  case (Cons n ns)
  obtain it' where it: "it_neq c it (cbv_end c)" "it_deref c it = Some n" "it_inc c it = Some it'"
      "cbv_iterate c it' = Some ns"
    using cbv_iterate_step [OF Cons.prems(2)] by auto
  then show ?case using Cons.IH [OF _ it(4)] Cons.prems(1) assms(1)
    by (subst pt_iterate.simps) (simp add: pti_make_def pti_neq_def pti_eq_def it_neq_def pti_deref_def
        pti_inc_def pti_atEnd_def getExternalNode_eq)
qed

lemma pt_iterate_sbv:
  assumes "backing pt = InSbv s" "\<forall>n \<in> set ns. n < map_limit (reverseNodeMapping pt)"
    and "sbv_iterate s it = Some ns"
  shows "pt_iterate pt (SbvIt it) = Some (map (map_node (reverseNodeMapping pt)) ns)"
  using assms(2,3)
proof (induction ns arbitrary: it)
  case Nil
  then show ?case using sbv_iterate_step [OF Nil(2)] assms(1)
    by (subst pt_iterate.simps) (auto simp: pti_make_def pti_neq_def pti_eq_def)
next
  case (Cons n ns)
  obtain e it' where it: "sbv_end s = Some e" "\<not> sbv_iter_eq it e" "sbv_iter_deref it = n"
      "sbv_iter_inc s it = Some it'" "sbv_iterate s it' = Some ns"
    using sbv_iterate_step [OF Cons.prems(2)] by auto
  then show ?case using Cons.IH [OF _ it(5)] Cons.prems(1) assms(1)
    by (subst pt_iterate.simps) (simp add: pti_make_def pti_neq_def pti_eq_def pti_deref_def
        pti_inc_def pti_atEnd_def getExternalNode_eq)
qed

lemma pt_list_backing:
  assumes "bk_list (backing pt) = Some ns" "\<forall>n \<in> set ns. n < map_limit (reverseNodeMapping pt)"
  shows "pt_list pt = Some (map (map_node (reverseNodeMapping pt)) ns)"
proof (cases "backing pt")
  case (InSbv s)
  then obtain it where "sbv_begin s = Some it" "sbv_iterate s it = Some ns"
    using assms(1) by (auto simp: sbv_list_def bind_eq_Some_conv)
  then show ?thesis using pt_iterate_sbv [OF InSbv assms(2)] InSbv
    by (simp add: pt_list_def pti_make_def)
next
  case (InCbv c)
  then show ?thesis using pt_iterate_cbv [OF InCbv assms(2)] assms(1)
    by (simp add: pt_list_def pti_make_def cbv_list_def)
next
  case (InBv c)
  then show ?thesis using pt_iterate_bv [OF InBv assms(2)] assms(1)
    by (simp add: pt_list_def pti_make_def cbv_list_def)
qed

lemma pt_list_spec:
  assumes "pt_inv pt"
  shows "pt_list pt =
      Some (map (map_node (reverseNodeMapping pt)) (sorted_list_of_set (bk_bits (backing pt))))"
    "\<exists>ns. pt_list pt = Some ns \<and> set ns = pt_nodes pt \<and> distinct ns"
proof -
  have l: "bk_list (backing pt) = Some (sorted_list_of_set (bk_bits (backing pt)))"
    using bk.elements_law assms by (simp add: pt_inv_def)
  then show e: "pt_list pt =
      Some (map (map_node (reverseNodeMapping pt)) (sorted_list_of_set (bk_bits (backing pt))))"
    using assms bk.bits_finite by (intro pt_list_backing) (auto simp: pt_inv_def)
  have fin: "finite (bk_bits (backing pt))" by (rule bk.bits_finite)
  have "distinct (map (map_node (reverseNodeMapping pt)) (sorted_list_of_set (bk_bits (backing pt))))"
    using pt_bits_inj [OF assms] fin by (simp add: distinct_map)
  then show "\<exists>ns. pt_list pt = Some ns \<and> set ns = pt_nodes pt \<and> distinct ns"
    using e fin by (simp add: pt_nodes_def)
qed

section \<open>Loops over nodes\<close>

lemma set_nodes_spec:
  assumes "pt_inv pt" "\<forall>n \<in> set ns. pt_valid pt n"
  obtains pt' where "set_nodes pt ns = Some pt'" "pt_inv pt'" "pt_nodes pt' = pt_nodes pt \<union> set ns"
    "pt_same pt pt'"
  using assms
proof (induction ns arbitrary: pt thesis)
  case Nil
  then show ?case by simp
next
  case (Cons n ns)
  obtain q where q: "pt_set pt n = Some q" "pt_inv q" "pt_nodes q = insert n (pt_nodes pt)" "pt_same pt q"
    using pt_set_spec [of pt n] Cons.prems by auto
  have "\<forall>k \<in> set ns. pt_valid q k" using Cons.prems(3) q(4) by (simp add: pt_valid_def pt_same_def)
  then obtain r where r: "set_nodes q ns = Some r" "pt_inv r" "pt_nodes r = pt_nodes q \<union> set ns" "pt_same q r"
    using Cons.IH [OF _ q(2)] by blast
  show ?case
    by (rule Cons.prems(1) [OF _ r(2) _ pt_same_trans [OF q(4) r(4)]]) (use q r in auto)
qed

lemma or_nodes_spec:
  assumes "pt_inv pt" "\<forall>n \<in> set ns. pt_valid pt n"
  obtains pt' where "or_nodes pt ns ch = Some (ch \<or> \<not> set ns \<subseteq> pt_nodes pt, pt')" "pt_inv pt'"
    "pt_nodes pt' = pt_nodes pt \<union> set ns" "pt_same pt pt'"
  using assms
proof (induction ns arbitrary: pt ch thesis)
  case Nil
  then show ?case by simp
next
  case (Cons n ns)
  obtain q c where q: "or_nodes pt (n # ns) ch = or_nodes q ns c" "pt_inv q"
      "pt_nodes q = insert n (pt_nodes pt)" "pt_same pt q" "c \<longleftrightarrow> ch \<or> n \<notin> pt_nodes pt"
  proof (cases ch)
    case True
    show ?thesis
      by (rule pt_set_spec [OF Cons.prems(2), of n], use Cons.prems(3) in simp)
        (rule that [of _ True], use True in auto)
  next
    case False
    show ?thesis
      by (rule pt_test_and_set_spec [OF Cons.prems(2), of n], use Cons.prems(3) in simp)
        (rule that [of _ "n \<notin> pt_nodes pt"], use False in auto)
  qed
  have "\<forall>k \<in> set ns. pt_valid q k" using Cons.prems(3) q(4) by (simp add: pt_valid_def pt_same_def)
  then obtain r where r: "or_nodes q ns c = Some (c \<or> \<not> set ns \<subseteq> pt_nodes q, r)" "pt_inv r"
      "pt_nodes r = pt_nodes q \<union> set ns" "pt_same q r"
    using Cons.IH [OF _ q(2)] by blast
  show ?case
    by (rule Cons.prems(1) [OF _ r(2) _ pt_same_trans [OF q(4) r(4)]]) (use q r in auto)
qed

lemma pt_or_nodeBS_spec:
  assumes "pt_inv pt" "sbv_inv rhs" "\<forall>n \<in> sbv_bits rhs. pt_valid pt n"
  obtains pt' where "pt_or_nodeBS pt rhs = Some (pt_nodes pt' \<noteq> pt_nodes pt, pt')" "pt_inv pt'"
    "pt_nodes pt' = pt_nodes pt \<union> sbv_bits rhs" "pt_same pt pt'"
proof -
  obtain ns where ns: "sbv_list rhs = Some ns" "set ns = sbv_bits rhs"
    using sv.elements_set [OF assms(2)] by blast
  obtain q where q: "or_nodes pt ns False = Some (\<not> set ns \<subseteq> pt_nodes pt, q)" "pt_inv q"
      "pt_nodes q = pt_nodes pt \<union> set ns" "pt_same pt q"
    using or_nodes_spec [OF assms(1), of ns False] assms(3) ns(2) by auto
  show ?thesis
    by (rule that [of q]) (use q ns in \<open>auto simp: pt_or_nodeBS_def\<close>)
qed

lemma toNodeBS_spec:
  assumes "pt_inv pt"
  obtains nbs where "toNodeBS pt = Some nbs" "sbv_inv nbs" "sbv_bits nbs = pt_nodes pt"
proof -
  obtain ns where ns: "pt_list pt = Some ns" "set ns = pt_nodes pt" using pt_list_spec(2) [OF assms] by blast
  have "n < 2 ^ 32" if n: "n \<in> set ns" for n
  proof -
    have "n < map_limit (nodeMapping pt)" using pt_nodes_valid [OF assms] n ns(2) by (simp add: pt_valid_def)
    then show ?thesis using mapping_okD(3) assms less_le_trans by (fastforce simp: pt_inv_def)
  qed
  then show ?thesis using sv.set_all [of sbv_new ns] ns by (intro that) (auto simp: toNodeBS_def)
qed

section \<open>Remapping\<close>

text \<open>Remapping keeps the nodes as long as the new mapping covers them.\<close>

lemma checkAndRemap_spec:
  assumes "pt_inv pt" "mapping_ok (currentBestNodeMapping g) (currentBestReverseNodeMapping g)"
    and "\<forall>n \<in> pt_nodes pt. n < map_limit (currentBestNodeMapping g)"
  obtains pt' where "checkAndRemap g pt = Some pt'" "pt_inv pt'" "pt_nodes pt' = pt_nodes pt"
    "ptr_eq (nodeMapping pt') (currentBestNodeMapping g)"
proof (cases "ptr_eq (nodeMapping pt) (currentBestNodeMapping g)")
  case True
  then show ?thesis using that assms(1) by (simp add: checkAndRemap_def)
next
  case False
  obtain ns where ns: "pt_list pt = Some ns" "set ns = pt_nodes pt" using pt_list_spec(2) [OF assms(1)] by blast
  note n = pt_new_spec [OF assms(2)]
  have "\<forall>k \<in> set ns. pt_valid (pt_new g) k" using assms(3) ns(2) by (simp add: pt_valid_def pt_new_def)
  then obtain q where q: "set_nodes (pt_new g) ns = Some q" "pt_inv q"
      "pt_nodes q = pt_nodes (pt_new g) \<union> set ns" "pt_same (pt_new g) q"
    using set_nodes_spec [OF n(1)] by blast
  note m = pt_move_spec [OF q(2), of pt]
  have "ptr_eq (nodeMapping (pt_move_assign pt q)) (currentBestNodeMapping g)"
    using q(4) m(3) by (simp add: pt_same_def pt_new_def ptr_eq_def)
  then show ?thesis
    using that [of "pt_move_assign pt q"] q m n(2) ns False by (simp add: checkAndRemap_def)
qed

lemma pt_list_first:
  assumes "pt_list pt = Some (n # ns)"
  shows "do { it \<leftarrow> pti_make pt False; pti_deref pt it } = Some n"
proof -
  obtain it where it: "pti_make pt False = Some it" "pt_iterate pt it = Some (n # ns)"
    using assms by (auto simp: pt_list_def bind_eq_Some_conv)
  then show ?thesis
    by (subst (asm) pt_iterate.simps) (auto simp: bind_eq_Some_conv split: if_splits)
qed

lemma pt_find_first_spec:
  assumes "pt_inv pt" "card (pt_nodes pt) < 2 ^ 32"
  shows "pt_find_first pt =
    Some (if pt_nodes pt = {} then -1
          else to_int (map_node (reverseNodeMapping pt) (Min (bk_bits (backing pt)))))"
proof (cases "pt_nodes pt = {}")
  case True
  then show ?thesis by (simp add: pt_find_first_def pt_count_spec assms u32_def)
next
  case False
  let ?B = "bk_bits (backing pt)" and ?f = "map_node (reverseNodeMapping pt)"
  have B: "finite ?B" "?B \<noteq> {}" using False bk.bits_finite by (auto simp: pt_nodes_def)
  have "pt_count pt \<noteq> 0" using False assms by (simp add: pt_count_spec u32_id)
  moreover have "pt_list pt = Some (?f (Min ?B) # map ?f (sorted_list_of_set (?B - {Min ?B})))"
    using pt_list_spec(1) [OF assms(1)] sorted_list_of_set_nonempty [OF B] by simp
  then have "do { it \<leftarrow> pti_make pt False; pti_deref pt it } = Some (?f (Min ?B))"
    by (rule pt_list_first)
  ultimately show ?thesis
    using False by (cases "pti_make pt False") (simp_all add: pt_find_first_def)
qed

section \<open>Equal sets have equal hashes, for the sparse backing\<close>

lemma sbv_hash_bits:
  assumes "sbv_inv s" "sbv_inv t" "sbv_bits s = sbv_bits t"
  shows "sbv_hash h s = sbv_hash h t" "\<exists>k. sbv_hash h s = Some k"
  using assms by (auto simp: sbv_hash_def sbv_find_first_spec sbv_find_last_spec sbv_count_spec)

end
