(* ===== verification/PersistentCache.thy ===== *)
theory PersistentCache
  imports PointsToSpec
begin

text \<open>
  \<open>PersistentPointsToCache<Data>\<close> (svf/include/MemoryModel/PersistentPointsToCache.h):
  points-to sets are interned, each gets one number, and unions, differences and intersections of
  numbers are cached. \<open>Data\<close> enters as a dictionary of its operations; the laws they must
  obey are the locale \<open>data_set\<close>. \<open>None\<close> is a failed assertion.
\<close>

section \<open>The data\<close>

record 'd data_ops =
  d_new :: 'd
  d_hash :: "'d \<Rightarrow> 64 word option"
  d_eq :: "'d \<Rightarrow> 'd \<Rightarrow> bool option"
  d_or :: "'d \<Rightarrow> 'd \<Rightarrow> 'd option"
  d_minus :: "'d \<Rightarrow> 'd \<Rightarrow> 'd option"
  d_and :: "'d \<Rightarrow> 'd \<Rightarrow> 'd option"
  d_remap :: "'d \<Rightarrow> 'd option"

text \<open>
  \<open>Map<Data, V>\<close> is an \<open>unordered_map\<close>: a key is found when the hashes agree and
  \<open>operator==\<close> holds. The entries are kept in insertion order.
\<close>

definition same_key :: "'d data_ops \<Rightarrow> 'd \<Rightarrow> 'd \<Rightarrow> bool option" where
  "same_key ops k k' = do {
     h \<leftarrow> d_hash ops k;
     h' \<leftarrow> d_hash ops k';
     if h = h' then d_eq ops k k' else Some False
   }"

fun map_find :: "'d data_ops \<Rightarrow> 'd \<Rightarrow> ('d \<times> 'v) list \<Rightarrow> 'v option option" where
  "map_find ops k [] = Some None"
| "map_find ops k ((k', v) # m) = do {
     b \<leftarrow> same_key ops k k';
     if b then Some (Some v) else map_find ops k m
   }"

text \<open>\<open>m[k] = v\<close>\<close>

fun map_put :: "'d data_ops \<Rightarrow> 'd \<Rightarrow> 'v \<Rightarrow> ('d \<times> 'v) list \<Rightarrow> ('d \<times> 'v) list option" where
  "map_put ops k v [] = Some [(k, v)]"
| "map_put ops k v ((k', v') # m) = do {
     b \<leftarrow> same_key ops k k';
     if b then Some ((k', v) # m) else do { m' \<leftarrow> map_put ops k v m; Some ((k', v') # m') }
   }"

section \<open>The cache\<close>

type_synonym PointsToID = nat
type_synonym op_cache = "PointsToID \<times> PointsToID \<Rightarrow> PointsToID option"

record op_stats =
  totalOps :: "64 word"
  uniqueOps :: "64 word"
  propertyOps :: "64 word"
  lookupOps :: "64 word"
  preemptiveOps :: "64 word"

record 'd ppcache =
  idToPts :: "'d list"
  ptsToId :: "('d \<times> PointsToID) list"
  unionCache :: op_cache
  complementCache :: op_cache
  intersectionCache :: op_cache
  idCounter :: nat
  unionStats :: op_stats
  complementStats :: op_stats
  intersectionStats :: op_stats

definition emptyPointsToId :: PointsToID where
  "emptyPointsToId = 0"

definition no_stats :: op_stats where
  "no_stats = \<lparr>totalOps = 0, uniqueOps = 0, propertyOps = 0, lookupOps = 0, preemptiveOps = 0\<rparr>"

definition initStats :: "'d ppcache \<Rightarrow> 'd ppcache" where
  "initStats c = c\<lparr>unionStats := no_stats, complementStats := no_stats, intersectionStats := no_stats\<rparr>"

definition cache_new :: "'d data_ops \<Rightarrow> 'd ppcache option" where
  "cache_new ops = do {
     m \<leftarrow> map_put ops (d_new ops) emptyPointsToId [];
     Some (initStats
       \<lparr>idToPts = [d_new ops], ptsToId = m, unionCache = Map.empty, complementCache = Map.empty,
        intersectionCache = Map.empty, idCounter = 1, unionStats = no_stats,
        complementStats = no_stats, intersectionStats = no_stats\<rparr>)
   }"

definition cache_clear :: "'d ppcache \<Rightarrow> 'd ppcache" where
  "cache_clear c =
     c\<lparr>idToPts := [], ptsToId := [], unionCache := Map.empty, complementCache := Map.empty,
       intersectionCache := Map.empty\<rparr>"

definition cache_reset :: "'d data_ops \<Rightarrow> 'd ppcache \<Rightarrow> 'd ppcache option" where
  "cache_reset ops c = do {
     let c = cache_clear c;
     m \<leftarrow> map_put ops (d_new ops) emptyPointsToId (ptsToId c);
     let c = c\<lparr>ptsToId := m\<rparr>;
     let c = c\<lparr>idToPts := idToPts c @ [d_new ops]\<rparr>;
     let c = c\<lparr>idCounter := 1\<rparr>;
     Some (initStats c)
   }"

fun remap_list :: "'d data_ops \<Rightarrow> 'd list \<Rightarrow> 'd list option" where
  "remap_list ops [] = Some []"
| "remap_list ops (d # ds) = do { d \<leftarrow> d_remap ops d; ds \<leftarrow> remap_list ops ds; Some (d # ds) }"

text \<open>Rebuild \<open>ptsToId\<close>: \<open>i\<close> is the number of the first set of the list.\<close>

fun number_pts :: "'d data_ops \<Rightarrow> 'd list \<Rightarrow> PointsToID \<Rightarrow> ('d \<times> PointsToID) list \<Rightarrow>
    ('d \<times> PointsToID) list option" where
  "number_pts ops [] i m = Some m"
| "number_pts ops (d # ds) i m = do { m \<leftarrow> map_put ops d i m; number_pts ops ds (Suc i) m }"

definition remapAllPts :: "'d data_ops \<Rightarrow> 'd ppcache \<Rightarrow> 'd ppcache option" where
  "remapAllPts ops c = do {
     ds \<leftarrow> remap_list ops (idToPts c);
     m \<leftarrow> number_pts ops ds 0 [];
     Some (c\<lparr>idToPts := ds, ptsToId := m\<rparr>)
   }"

definition newPointsToId :: "'d ppcache \<Rightarrow> (PointsToID \<times> 'd ppcache) option" where
  "newPointsToId c =
     (if idCounter c \<noteq> emptyPointsToId
      then Some (idCounter c, c\<lparr>idCounter := u32 (idCounter c + 1)\<rparr>) else None)"

definition emplacePts :: "'d data_ops \<Rightarrow> 'd ppcache \<Rightarrow> 'd \<Rightarrow> (PointsToID \<times> 'd ppcache) option" where
  "emplacePts ops c pts = do {
     foundId \<leftarrow> map_find ops pts (ptsToId c);
     case foundId of
       Some i \<Rightarrow> Some (i, c)
     | None \<Rightarrow> do {
         (i, c) \<leftarrow> newPointsToId c;
         let c = c\<lparr>idToPts := idToPts c @ [pts]\<rparr>;
         m \<leftarrow> map_put ops pts i (ptsToId c);
         Some (i, c\<lparr>ptsToId := m\<rparr>)
       }
   }"

definition getActualPts :: "'d ppcache \<Rightarrow> PointsToID \<Rightarrow> 'd option" where
  "getActualPts c i = (if length (idToPts c) > i then Some (idToPts c ! i) else None)"

definition minmax :: "nat \<Rightarrow> nat \<Rightarrow> nat \<times> nat" where
  "minmax a b = (min a b, max a b)"

text \<open>The three operations, their caches and counters.\<close>

datatype set_op = UnionOp | ComplementOp | IntersectionOp

fun dataOp :: "'d data_ops \<Rightarrow> set_op \<Rightarrow> 'd \<Rightarrow> 'd \<Rightarrow> 'd option" where
  "dataOp ops UnionOp l r = d_or ops l r"
| "dataOp ops ComplementOp l r = d_minus ops l r"
| "dataOp ops IntersectionOp l r = d_and ops l r"

fun opCache :: "set_op \<Rightarrow> 'd ppcache \<Rightarrow> op_cache" where
  "opCache UnionOp c = unionCache c"
| "opCache ComplementOp c = complementCache c"
| "opCache IntersectionOp c = intersectionCache c"

fun cache_put :: "set_op \<Rightarrow> PointsToID \<times> PointsToID \<Rightarrow> PointsToID \<Rightarrow> 'd ppcache \<Rightarrow> 'd ppcache" where
  "cache_put UnionOp k v c = c\<lparr>unionCache := (unionCache c)(k \<mapsto> v)\<rparr>"
| "cache_put ComplementOp k v c = c\<lparr>complementCache := (complementCache c)(k \<mapsto> v)\<rparr>"
| "cache_put IntersectionOp k v c = c\<lparr>intersectionCache := (intersectionCache c)(k \<mapsto> v)\<rparr>"

fun stats :: "set_op \<Rightarrow> 'd ppcache \<Rightarrow> op_stats" where
  "stats UnionOp c = unionStats c"
| "stats ComplementOp c = complementStats c"
| "stats IntersectionOp c = intersectionStats c"

fun update_stats :: "set_op \<Rightarrow> (op_stats \<Rightarrow> op_stats) \<Rightarrow> 'd ppcache \<Rightarrow> 'd ppcache" where
  "update_stats UnionOp f c = c\<lparr>unionStats := f (unionStats c)\<rparr>"
| "update_stats ComplementOp f c = c\<lparr>complementStats := f (complementStats c)\<rparr>"
| "update_stats IntersectionOp f c = c\<lparr>intersectionStats := f (intersectionStats c)\<rparr>"

definition count_total :: "set_op \<Rightarrow> 'd ppcache \<Rightarrow> 'd ppcache" where
  "count_total p = update_stats p (\<lambda>s. s\<lparr>totalOps := totalOps s + 1\<rparr>)"

definition count_property :: "set_op \<Rightarrow> 'd ppcache \<Rightarrow> 'd ppcache" where
  "count_property p = update_stats p (\<lambda>s. s\<lparr>propertyOps := propertyOps s + 1\<rparr>)"

definition count_unique :: "set_op \<Rightarrow> 'd ppcache \<Rightarrow> 'd ppcache" where
  "count_unique p = update_stats p (\<lambda>s. s\<lparr>uniqueOps := uniqueOps s + 1\<rparr>)"

definition count_lookup :: "set_op \<Rightarrow> 'd ppcache \<Rightarrow> 'd ppcache" where
  "count_lookup p = update_stats p (\<lambda>s. s\<lparr>lookupOps := lookupOps s + 1\<rparr>)"

text \<open>An entry added without being asked for: the cache line and the two counters.\<close>

definition preempt :: "set_op \<Rightarrow> PointsToID \<times> PointsToID \<Rightarrow> PointsToID \<Rightarrow> 'd ppcache \<Rightarrow> 'd ppcache" where
  "preempt p k v c =
     count_total p (update_stats p (\<lambda>s. s\<lparr>preemptiveOps := preemptiveOps s + 1\<rparr>) (cache_put p k v c))"

text \<open>The result, whether the operation was performed, and the new cache.\<close>

definition opPts :: "'d data_ops \<Rightarrow> set_op \<Rightarrow> bool \<Rightarrow> 'd ppcache \<Rightarrow> PointsToID \<Rightarrow> PointsToID \<Rightarrow>
    (PointsToID \<times> bool \<times> 'd ppcache) option" where
  "opPts ops p commutative c lhs rhs =
     (let operands = (if commutative then minmax lhs rhs else (lhs, rhs)) in
      case opCache p c operands of
        Some r \<Rightarrow> Some (r, False, c)
      | None \<Rightarrow> do {
          lhsPts \<leftarrow> getActualPts c lhs;
          rhsPts \<leftarrow> getActualPts c rhs;
          result \<leftarrow> dataOp ops p lhsPts rhsPts;
          foundId \<leftarrow> map_find ops result (ptsToId c);
          (resultId, c) \<leftarrow> (case foundId of
              Some i \<Rightarrow> Some (i, c)
            | None \<Rightarrow> do {
                (i, c) \<leftarrow> newPointsToId c;
                let c = c\<lparr>idToPts := idToPts c @ [result]\<rparr>;
                m \<leftarrow> map_put ops result i (ptsToId c);
                Some (i, c\<lparr>ptsToId := m\<rparr>)
              });
          Some (resultId, True, cache_put p operands resultId c)
        })"

definition unionPts :: "'d data_ops \<Rightarrow> 'd ppcache \<Rightarrow> PointsToID \<Rightarrow> PointsToID \<Rightarrow>
    (PointsToID \<times> 'd ppcache) option" where
  "unionPts ops c lhs rhs =
     (let c = count_total UnionOp c; operands = minmax lhs rhs in
      if fst operands = emptyPointsToId then Some (snd operands, count_property UnionOp c)
      else if fst operands = snd operands then Some (fst operands, count_property UnionOp c)
      else do {
        (result, opPerformed, c) \<leftarrow> opPts ops UnionOp True c lhs rhs;
        let c = (if opPerformed
          then
            let c = count_unique UnionOp c;
                c = (if lhs \<noteq> result then preempt UnionOp (minmax lhs result) result c else c);
                c = (if rhs \<noteq> result then preempt UnionOp (minmax rhs result) result c else c)
            in c
          else count_lookup UnionOp c);
        Some (result, c)
      })"

definition complementPts :: "'d data_ops \<Rightarrow> 'd ppcache \<Rightarrow> PointsToID \<Rightarrow> PointsToID \<Rightarrow>
    (PointsToID \<times> 'd ppcache) option" where
  "complementPts ops c lhs rhs =
     (let c = count_total ComplementOp c in
      if lhs = rhs then Some (emptyPointsToId, count_property ComplementOp c)
      else if rhs = emptyPointsToId then Some (lhs, count_property ComplementOp c)
      else if lhs = emptyPointsToId then Some (emptyPointsToId, count_property ComplementOp c)
      else do {
        (result, opPerformed, c) \<leftarrow> opPts ops ComplementOp False c lhs rhs;
        let c = (if opPerformed
          then
            let c = count_unique ComplementOp c in
            if result \<noteq> emptyPointsToId
            then
              let c = preempt IntersectionOp (minmax result rhs) emptyPointsToId c;
                  c = preempt IntersectionOp (minmax result lhs) result c;
                  c = preempt ComplementOp (result, rhs) result c
              in c
            else c
          else count_lookup ComplementOp c);
        Some (result, c)
      })"

definition intersectPts :: "'d data_ops \<Rightarrow> 'd ppcache \<Rightarrow> PointsToID \<Rightarrow> PointsToID \<Rightarrow>
    (PointsToID \<times> 'd ppcache) option" where
  "intersectPts ops c lhs rhs =
     (let c = count_total IntersectionOp c; operands = minmax lhs rhs in
      if fst operands = emptyPointsToId then Some (emptyPointsToId, count_property IntersectionOp c)
      else if fst operands = snd operands then Some (fst operands, count_property IntersectionOp c)
      else do {
        (result, opPerformed, c) \<leftarrow> opPts ops IntersectionOp True c lhs rhs;
        let c = (if opPerformed
          then
            let c = count_unique IntersectionOp c in
            if result \<noteq> emptyPointsToId
            then
              let c = (if result \<noteq> rhs then preempt IntersectionOp (minmax result rhs) result c else c);
                  c = (if result \<noteq> lhs then preempt IntersectionOp (minmax result lhs) result c else c);
                  c = (if result \<noteq> emptyPointsToId \<and> result \<noteq> lhs
                       then preempt UnionOp (minmax lhs result) lhs c else c);
                  c = (if result \<noteq> emptyPointsToId \<and> result \<noteq> rhs
                       then preempt UnionOp (minmax rhs result) rhs c else c)
              in c
            else c
          else count_lookup IntersectionOp c);
        Some (result, c)
      })"

fun all_pts :: "'d data_ops \<Rightarrow> 'd list \<Rightarrow> ('d \<times> nat) list \<Rightarrow> ('d \<times> nat) list option" where
  "all_pts ops [] m = Some m"
| "all_pts ops (d # ds) m = do { m \<leftarrow> map_put ops d 1 m; all_pts ops ds m }"

definition cache_getAllPts :: "'d data_ops \<Rightarrow> 'd ppcache \<Rightarrow> ('d \<times> nat) list option" where
  "cache_getAllPts ops c = all_pts ops (idToPts c) []"

end
