(* ===== verification/PersistentCacheSpec.thy ===== *)
theory PersistentCacheSpec
  imports PersistentCache
begin

text \<open>
  The contract of \<open>Data\<close> as a locale, the correctness of the cache inside it (every number
  stands for one set, every cached result is the set operation on what the numbers stand for), and
  its interpretation on sparse points-to sets. The counters add up whatever the data.
\<close>

section \<open>Counters\<close>

text \<open>Every operation is counted once: as a property case, a lookup, a new one or a preemptive entry.\<close>

definition balanced :: "'d ppcache \<Rightarrow> bool" where
  "balanced c \<longleftrightarrow> (\<forall>p. totalOps (stats p c) =
     propertyOps (stats p c) + uniqueOps (stats p c) + lookupOps (stats p c) + preemptiveOps (stats p c))"

lemma stats_update_stats:
  "stats q (update_stats p f c) = (if p = q then f (stats q c) else stats q c)"
  by (cases p; cases q) simp_all

lemma stats_cache_put [simp]: "stats q (cache_put p k v c) = stats q c"
  by (cases p; cases q) simp_all

lemma balanced_preempt: "balanced c \<Longrightarrow> balanced (preempt p k v c)"
  by (auto simp: balanced_def preempt_def count_total_def stats_update_stats)

lemma balanced_count:
  "balanced c \<Longrightarrow> balanced (count_property p (count_total p c))"
  "balanced c \<Longrightarrow> balanced (count_unique p (count_total p c))"
  "balanced c \<Longrightarrow> balanced (count_lookup p (count_total p c))"
  by (auto simp: balanced_def count_total_def count_property_def count_unique_def count_lookup_def
      stats_update_stats)


text \<open>The interning step of \<open>opPts\<close> is the one of \<open>emplacePts\<close>.\<close>

lemma opPts_emplace:
  "opPts ops p com c l r =
     (let operands = (if com then minmax l r else (l, r)) in
      case opCache p c operands of
        Some i \<Rightarrow> Some (i, False, c)
      | None \<Rightarrow> do {
          x \<leftarrow> getActualPts c l;
          y \<leftarrow> getActualPts c r;
          d \<leftarrow> dataOp ops p x y;
          (i, c) \<leftarrow> emplacePts ops c d;
          Some (i, True, cache_put p operands i c)
        })"
  unfolding opPts_def emplacePts_def Let_def
  by (rule option.case_cong [OF refl]) (simp_all add: Option.bind_assoc split_def cong: option.case_cong)

lemma newPointsToId_stats: "newPointsToId c = Some (i, c') \<Longrightarrow> stats p c' = stats p c"
  by (cases p) (auto simp: newPointsToId_def split: if_splits)

lemma stats_store [simp]:
  "stats p (c\<lparr>idToPts := ds\<rparr>) = stats p c" "stats p (c\<lparr>ptsToId := m\<rparr>) = stats p c"
  "stats p (c\<lparr>idCounter := n\<rparr>) = stats p c"
  by (cases p; simp)+

lemma emplacePts_stats: "emplacePts ops c d = Some (i, c') \<Longrightarrow> stats p c' = stats p c"
  by (auto simp: emplacePts_def bind_eq_Some_conv newPointsToId_def split: option.splits if_splits)

lemma opPts_stats:
  assumes "opPts ops p com c l r = Some (i, ch, c')" shows "stats q c' = stats q c"
  using assms emplacePts_stats
  by (fastforce simp: opPts_emplace Let_def bind_eq_Some_conv split: option.splits prod.splits)

lemma balanced_cong: "(\<And>p. stats p c' = stats p c) \<Longrightarrow> balanced c' \<longleftrightarrow> balanced c"
  by (simp add: balanced_def)

lemma balanced_preempt_if: "balanced c \<Longrightarrow> balanced (if b then preempt p k v c else c)"
  by (simp add: balanced_preempt)

lemma balanced_opPts:
  assumes "opPts ops p com (count_total p c) l r = Some (i, ch, c')" "balanced c"
  shows "balanced (count_unique p c') \<and> balanced (count_lookup p c')"
proof -
  have s: "stats q c' = stats q (count_total p c)" for q using opPts_stats [OF assms(1)] .
  show ?thesis
    using assms(2) s by (auto simp: balanced_def count_total_def count_unique_def count_lookup_def
        stats_update_stats)
qed

lemma union_balanced:
  assumes "unionPts ops c l r = Some (i, c')" "balanced c" shows "balanced c'"
  using assms balanced_count(1)
  by (auto simp: unionPts_def Let_def bind_eq_Some_conv balanced_preempt
      split: if_splits prod.splits dest!: balanced_opPts)

lemma complement_balanced:
  assumes "complementPts ops c l r = Some (i, c')" "balanced c" shows "balanced c'"
  using assms balanced_count(1)
  by (auto simp: complementPts_def Let_def bind_eq_Some_conv balanced_preempt
      split: if_splits prod.splits dest!: balanced_opPts)

lemma intersect_balanced:
  assumes "intersectPts ops c l r = Some (i, c')" "balanced c" shows "balanced c'"
proof (cases "min l r = emptyPointsToId \<or> l = r")
  case True
  then show ?thesis using assms balanced_count(1)
    by (auto simp: intersectPts_def Let_def minmax_def split: if_splits)
next
  case False
  then obtain j ch d where o: "opPts ops IntersectionOp True (count_total IntersectionOp c) l r = Some (j, ch, d)"
    using assms(1) by (cases "opPts ops IntersectionOp True (count_total IntersectionOp c) l r")
      (auto simp: intersectPts_def Let_def minmax_def split: if_splits)
  note b = balanced_opPts [OF o assms(2)]
  have "c' = (if ch then if j \<noteq> emptyPointsToId then
      (if j \<noteq> emptyPointsToId \<and> j \<noteq> r then preempt UnionOp (minmax r j) r else id)
       ((if j \<noteq> emptyPointsToId \<and> j \<noteq> l then preempt UnionOp (minmax l j) l else id)
        ((if j \<noteq> l then preempt IntersectionOp (minmax j l) j else id)
         ((if j \<noteq> r then preempt IntersectionOp (minmax j r) j else id) (count_unique IntersectionOp d))))
      else count_unique IntersectionOp d else count_lookup IntersectionOp d)"
    using assms(1) False o by (auto simp: intersectPts_def Let_def minmax_def split: if_splits)
  then show ?thesis using b by (auto simp: balanced_preempt)
qed

section \<open>The contract of the data\<close>

text \<open>
  \<open>same\<close>: the two sets can be combined (they share type and mapping); \<open>ready\<close>: the
  mapping that new sets get is usable; \<open>movable d\<close>: \<open>d\<close> can be remapped to it.
\<close>

locale data_set =
  fixes ops :: "'d data_ops" and ok :: "'d \<Rightarrow> bool" and els :: "'d \<Rightarrow> 'a set"
    and same :: "'d \<Rightarrow> 'd \<Rightarrow> bool" and ready :: bool and movable :: "'d \<Rightarrow> bool"
  assumes same_refl: "same a a"
    and same_sym: "same a b \<Longrightarrow> same b a"
    and same_trans: "same a b \<Longrightarrow> same b c \<Longrightarrow> same a c"
    and new_law: "ready \<Longrightarrow> ok (d_new ops) \<and> els (d_new ops) = {}"
    and hash_law: "ok a \<Longrightarrow> ok b \<Longrightarrow> same a b \<Longrightarrow> els a = els b \<Longrightarrow>
      \<exists>h. d_hash ops a = Some h \<and> d_hash ops b = Some h"
    and eq_law: "ok a \<Longrightarrow> ok b \<Longrightarrow> same a b \<Longrightarrow> d_eq ops a b = Some (els a = els b)"
    and or_law: "ok a \<Longrightarrow> ok b \<Longrightarrow> same a b \<Longrightarrow>
      \<exists>c. d_or ops a b = Some c \<and> ok c \<and> same a c \<and> els c = els a \<union> els b"
    and minus_law: "ok a \<Longrightarrow> ok b \<Longrightarrow> same a b \<Longrightarrow>
      \<exists>c. d_minus ops a b = Some c \<and> ok c \<and> same a c \<and> els c = els a - els b"
    and and_law: "ok a \<Longrightarrow> ok b \<Longrightarrow> same a b \<Longrightarrow>
      \<exists>c. d_and ops a b = Some c \<and> ok c \<and> same a c \<and> els c = els a \<inter> els b"
    and remap_law: "ready \<Longrightarrow> ok a \<Longrightarrow> movable a \<Longrightarrow>
      \<exists>b. d_remap ops a = Some b \<and> ok b \<and> same (d_new ops) b \<and> els b = els a"

text \<open>A map from data read as a map from the sets they stand for.\<close>

definition abs_map :: "('d \<Rightarrow> 'a set) \<Rightarrow> ('d \<times> 'v) list \<Rightarrow> 'a set \<Rightarrow> 'v option" where
  "abs_map els m = map_of (map (\<lambda>(k, v). (els k, v)) m)"

definition keys_ok :: "('d \<Rightarrow> bool) \<Rightarrow> ('d \<Rightarrow> 'd \<Rightarrow> bool) \<Rightarrow> 'd \<Rightarrow> ('d \<times> 'v) list \<Rightarrow> bool" where
  "keys_ok ok same r m \<longleftrightarrow> (\<forall>k \<in> fst ` set m. ok k \<and> same r k)"

text \<open>What an operation means, and when a cached entry tells the truth.\<close>

fun set_of_op :: "set_op \<Rightarrow> 'a set \<Rightarrow> 'a set \<Rightarrow> 'a set" where
  "set_of_op UnionOp a b = a \<union> b"
| "set_of_op ComplementOp a b = a - b"
| "set_of_op IntersectionOp a b = a \<inter> b"

definition entry_ok :: "('d \<Rightarrow> 'a set) \<Rightarrow> 'd list \<Rightarrow> set_op \<Rightarrow> PointsToID \<times> PointsToID \<Rightarrow> PointsToID \<Rightarrow> bool" where
  "entry_ok els ds p k r \<longleftrightarrow> fst k < length ds \<and> snd k < length ds \<and> r < length ds \<and>
     els (ds ! r) = set_of_op p (els (ds ! fst k)) (els (ds ! snd k)) \<and>
     (p \<noteq> ComplementOp \<longrightarrow> fst k \<le> snd k)"

definition caches_ok :: "('d \<Rightarrow> 'a set) \<Rightarrow> 'd ppcache \<Rightarrow> bool" where
  "caches_ok els c \<longleftrightarrow> (\<forall>p k r. opCache p c k = Some r \<longrightarrow> entry_ok els (idToPts c) p k r)"

text \<open>The sets in order of their numbers: all usable, the first empty, no two equal.\<close>

definition ids_ok :: "('d \<Rightarrow> bool) \<Rightarrow> ('d \<Rightarrow> 'a set) \<Rightarrow> ('d \<Rightarrow> 'd \<Rightarrow> bool) \<Rightarrow> 'd list \<Rightarrow> bool" where
  "ids_ok ok els same ds \<longleftrightarrow> ds \<noteq> [] \<and> els (hd ds) = {} \<and> distinct (map els ds) \<and>
     length ds \<le> 2 ^ 32 \<and> (\<forall>d \<in> set ds. ok d \<and> same (hd ds) d)"

definition cache_inv :: "('d \<Rightarrow> bool) \<Rightarrow> ('d \<Rightarrow> 'a set) \<Rightarrow> ('d \<Rightarrow> 'd \<Rightarrow> bool) \<Rightarrow> 'd ppcache \<Rightarrow> bool" where
  "cache_inv ok els same c \<longleftrightarrow> ids_ok ok els same (idToPts c) \<and>
     idCounter c = u32 (length (idToPts c)) \<and> keys_ok ok same (hd (idToPts c)) (ptsToId c) \<and>
     (\<forall>s i. abs_map els (ptsToId c) s = Some i \<longleftrightarrow>
        i < length (idToPts c) \<and> els (idToPts c ! i) = s) \<and>
     caches_ok els c"

text \<open>What number \<open>i\<close> stands for.\<close>

definition pts_of :: "('d \<Rightarrow> 'a set) \<Rightarrow> 'd ppcache \<Rightarrow> PointsToID \<Rightarrow> 'a set" where
  "pts_of els c i = els (idToPts c ! i)"

text \<open>Numbers keep their meaning: the table only grows.\<close>

definition grows :: "'d ppcache \<Rightarrow> 'd ppcache \<Rightarrow> bool" where
  "grows c c' \<longleftrightarrow> (\<exists>ds. idToPts c' = idToPts c @ ds)"

lemma grows_refl [simp]: "grows c c"
  by (simp add: grows_def)

lemma grows_trans: "grows a b \<Longrightarrow> grows b c \<Longrightarrow> grows a c"
  by (auto simp: grows_def)

lemma grows_pts_of:
  "grows c c' \<Longrightarrow> i < length (idToPts c) \<Longrightarrow>
   i < length (idToPts c') \<and> pts_of els c' i = pts_of els c i"
  by (auto simp: grows_def pts_of_def nth_append)

lemma entry_ok_append: "entry_ok els ds p k r \<Longrightarrow> entry_ok els (ds @ es) p k r"
  by (auto simp: entry_ok_def nth_append)

lemma caches_ok_append:
  assumes "caches_ok els c" "\<And>p. opCache p c' = opCache p c" "idToPts c' = idToPts c @ ds"
  shows "caches_ok els c'"
  using assms by (auto simp: caches_ok_def entry_ok_append)

lemma opCache_put:
  "opCache q (cache_put p k v c) = (if p = q then (opCache q c)(k \<mapsto> v) else opCache q c)"
  by (cases p; cases q) simp_all

lemma update_stats_simps [simp]:
  "idToPts (update_stats p f c) = idToPts c" "ptsToId (update_stats p f c) = ptsToId c"
  "idCounter (update_stats p f c) = idCounter c" "opCache q (update_stats p f c) = opCache q c"
  by (cases p; cases q; simp)+

lemma count_simps [simp]:
  "idToPts (count_total p c) = idToPts c" "idToPts (count_property p c) = idToPts c"
  "idToPts (count_unique p c) = idToPts c" "idToPts (count_lookup p c) = idToPts c"
  "opCache q (count_total p c) = opCache q c" "opCache q (count_property p c) = opCache q c"
  "opCache q (count_unique p c) = opCache q c" "opCache q (count_lookup p c) = opCache q c"
  by (simp_all add: count_total_def count_property_def count_unique_def count_lookup_def)

lemma cache_put_simps [simp]:
  "idToPts (cache_put p k v c) = idToPts c" "ptsToId (cache_put p k v c) = ptsToId c"
  "idCounter (cache_put p k v c) = idCounter c"
  by (cases p; simp)+

lemma preempt_simps [simp]:
  "idToPts (preempt p k v c) = idToPts c"
  by (simp add: preempt_def)

lemma cache_inv_counts [simp]:
  "cache_inv ok els same (update_stats p f c) \<longleftrightarrow> cache_inv ok els same c"
  by (simp add: cache_inv_def caches_ok_def)

lemma cache_inv_count_ops [simp]:
  "cache_inv ok els same (count_total p c) \<longleftrightarrow> cache_inv ok els same c"
  "cache_inv ok els same (count_property p c) \<longleftrightarrow> cache_inv ok els same c"
  "cache_inv ok els same (count_unique p c) \<longleftrightarrow> cache_inv ok els same c"
  "cache_inv ok els same (count_lookup p c) \<longleftrightarrow> cache_inv ok els same c"
  by (simp_all add: count_total_def count_property_def count_unique_def count_lookup_def)

lemma cache_inv_put:
  "cache_inv ok els same c \<Longrightarrow> entry_ok els (idToPts c) p k v \<Longrightarrow>
   cache_inv ok els same (cache_put p k v c)"
  by (auto simp: cache_inv_def caches_ok_def opCache_put split: if_splits)

lemma cache_inv_preempt:
  "cache_inv ok els same c \<Longrightarrow> entry_ok els (idToPts c) p k v \<Longrightarrow>
   cache_inv ok els same (preempt p k v c)"
  by (simp add: preempt_def cache_inv_put)

text \<open>A preemptive entry states what the sets satisfy; sorted keys do not matter to it.\<close>

lemma entry_ok_minmax:
  assumes "a < length ds" "b < length ds" "r < length ds" "p \<noteq> ComplementOp"
    and "els (ds ! r) = set_of_op p (els (ds ! a)) (els (ds ! b))"
  shows "entry_ok els ds p (minmax a b) r"
  using assms by (cases p) (auto simp: entry_ok_def minmax_def min_def max_def)

section \<open>The cache under the contract\<close>

context data_set begin

abbreviation Inv :: "'d ppcache \<Rightarrow> bool" where "Inv \<equiv> cache_inv ok els same"

lemma same_key_spec:
  assumes "ok a" "ok b" "same a b"
  shows "same_key ops a b = Some (els a = els b)"
proof -
  obtain h where h: "d_hash ops a = Some h" using hash_law [OF assms(1,1) same_refl] by blast
  obtain k where k: "d_hash ops b = Some k" using hash_law [OF assms(2,2) same_refl] by blast
  have "els a = els b \<Longrightarrow> h = k" using hash_law [OF assms] h k by auto
  then show ?thesis using h k eq_law [OF assms] by (auto simp: same_key_def)
qed

lemma keys_ok_Cons: "keys_ok ok same r ((k, v) # m) \<longleftrightarrow> ok k \<and> same r k \<and> keys_ok ok same r m"
  by (auto simp: keys_ok_def)

lemma abs_map_Nil: "abs_map els [] s = None"
  by (simp add: abs_map_def)

lemma abs_map_Cons: "abs_map els ((k, v) # m) = (abs_map els m)(els k \<mapsto> v)"
  by (simp add: abs_map_def)

lemma map_find_spec:
  assumes "keys_ok ok same r m" "ok k" "same r k"
  shows "map_find ops k m = Some (abs_map els m (els k))"
  using assms(1)
proof (induction m)
  case (Cons e m)
  obtain k' v where e: "e = (k', v)" by fastforce
  have k': "ok k'" "same r k'" "keys_ok ok same r m" using Cons.prems e by (auto simp: keys_ok_Cons)
  have "same_key ops k k' = Some (els k = els k')"
    by (rule same_key_spec [OF assms(2) k'(1) same_trans [OF same_sym [OF assms(3)] k'(2)]])
  then show ?case using Cons.IH [OF k'(3)] e by (simp add: abs_map_def)
qed (simp add: abs_map_def)

lemma map_put_spec:
  assumes "keys_ok ok same r m" "ok k" "same r k"
  shows "\<exists>m'. map_put ops k v m = Some m' \<and> keys_ok ok same r m' \<and>
    abs_map els m' = (abs_map els m)(els k \<mapsto> v)"
  using assms(1)
proof (induction m)
  case Nil
  then show ?case using assms by (auto simp: keys_ok_def abs_map_def)
next
  case (Cons e m)
  obtain k' v' where e: "e = (k', v')" by fastforce
  have k': "ok k'" "same r k'" "keys_ok ok same r m" using Cons.prems e by (auto simp: keys_ok_Cons)
  have "same_key ops k k' = Some (els k = els k')"
    by (rule same_key_spec [OF assms(2) k'(1) same_trans [OF same_sym [OF assms(3)] k'(2)]])
  moreover obtain m' where "map_put ops k v m = Some m'" "keys_ok ok same r m'"
      "abs_map els m' = (abs_map els m)(els k \<mapsto> v)"
    using Cons.IH [OF k'(3)] by blast
  ultimately show ?case using e k' 
    by (cases "els k = els k'") (auto simp: keys_ok_Cons abs_map_Cons fun_eq_iff)
qed

lemma ids_ok_append:
  assumes "ids_ok ok els same ds" "ok d" "same (hd ds) d" "els d \<notin> els ` set ds" "length ds < 2 ^ 32"
  shows "ids_ok ok els same (ds @ [d])"
  using assms by (cases ds) (auto simp: ids_ok_def)

lemma abs_ids_append:
  assumes "\<And>s i. F s = Some i \<longleftrightarrow> i < length ds \<and> els (ds ! i) = s" "els d \<notin> els ` set ds"
  shows "(F(els d \<mapsto> length ds)) s = Some i \<longleftrightarrow>
    i < length (ds @ [d]) \<and> els ((ds @ [d]) ! i) = s"
proof (cases "s = els d")
  case True
  have "els (ds ! i) \<noteq> els d" if "i < length ds" for i using assms(2) that by (metis image_eqI nth_mem)
  then show ?thesis using True by (auto simp: nth_append less_Suc_eq)
next
  case False
  then show ?thesis using assms(1) by (auto simp: nth_append less_Suc_eq)
qed

lemma cache_find:
  assumes "Inv c" "ok d" "same (hd (idToPts c)) d"
  shows "map_find ops d (ptsToId c) = Some (abs_map els (ptsToId c) (els d))"
  using assms by (intro map_find_spec) (simp_all add: cache_inv_def)

text \<open>Interning: the number of a known set, or the next number for a new one.\<close>

lemma emplacePts_known:
  assumes inv: "Inv c" and d: "ok d" "same (hd (idToPts c)) d"
    and i: "i < length (idToPts c)" "pts_of els c i = els d"
  shows "emplacePts ops c d = Some (i, c)"
proof -
  have "map_find ops d (ptsToId c) = Some (abs_map els (ptsToId c) (els d))"
    by (rule cache_find [OF inv d])
  moreover have "abs_map els (ptsToId c) (els d) = Some i"
    using inv i by (simp add: cache_inv_def pts_of_def)
  ultimately show ?thesis by (simp add: emplacePts_def)
qed

lemma emplacePts_new:
  assumes inv: "Inv c" and d: "ok d" "same (hd (idToPts c)) d"
    and new: "els d \<notin> els ` set (idToPts c)" "length (idToPts c) < 2 ^ 32"
  shows "\<exists>c'. emplacePts ops c d = Some (length (idToPts c), c') \<and> Inv c' \<and>
    idToPts c' = idToPts c @ [d] \<and> (\<forall>p. opCache p c' = opCache p c)"
proof -
  let ?ds = "idToPts c"
  note I = inv [unfolded cache_inv_def]
  have ne: "?ds \<noteq> []" using I by (simp add: ids_ok_def)
  have "els (?ds ! i) \<noteq> els d" if "i < length ?ds" for i using new(1) that by (metis image_eqI nth_mem)
  then have none: "abs_map els (ptsToId c) (els d) = None"
    using I by (cases "abs_map els (ptsToId c) (els d)") auto
  have find: "map_find ops d (ptsToId c) = Some None"
    using none cache_find [OF inv d] by simp
  obtain m where m: "map_put ops d (length ?ds) (ptsToId c) = Some m"
      "keys_ok ok same (hd ?ds) m" "abs_map els m = (abs_map els (ptsToId c))(els d \<mapsto> length ?ds)"
    using map_put_spec [OF _ d, of "ptsToId c" "length ?ds"] I by blast
  have cnt: "idCounter c = length ?ds" using I new(2) by (simp add: u32_id)
  define c' where "c' = c\<lparr>idToPts := ?ds @ [d], ptsToId := m, idCounter := u32 (length ?ds + 1)\<rparr>"
  have e: "emplacePts ops c d = Some (length ?ds, c')"
    using find cnt ne m(1) by (simp add: emplacePts_def newPointsToId_def emptyPointsToId_def c'_def)
  have op: "\<forall>p. opCache p c' = opCache p c"
  proof
    fix p show "opCache p c' = opCache p c" by (cases p) (simp_all add: c'_def)
  qed
  have ids: "idToPts c' = ?ds @ [d]" by (simp add: c'_def)
  have "Inv c'" unfolding cache_inv_def
  proof (intro conjI)
    show "ids_ok ok els same (idToPts c')" unfolding ids using I d new by (intro ids_ok_append) auto
    show "idCounter c' = u32 (length (idToPts c'))" by (simp add: c'_def)
    show "keys_ok ok same (hd (idToPts c')) (ptsToId c')" using m(2) ne by (simp add: c'_def)
    show "\<forall>s i. abs_map els (ptsToId c') s = Some i \<longleftrightarrow>
        i < length (idToPts c') \<and> els (idToPts c' ! i) = s"
      unfolding ids using abs_ids_append [of "abs_map els (ptsToId c)" ?ds d] I new(1) m(3)
      by (simp add: c'_def)
    show "caches_ok els c'" using caches_ok_append [of els c c' "[d]"] I op ids by simp
  qed
  then show ?thesis using e op ids by blast
qed

lemma emplacePts_full:
  assumes inv: "Inv c" and d: "ok d" "same (hd (idToPts c)) d"
    and new: "els d \<notin> els ` set (idToPts c)" "length (idToPts c) = 2 ^ 32"
  shows "emplacePts ops c d = None"
proof -
  note I = inv [unfolded cache_inv_def]
  have "els (idToPts c ! i) \<noteq> els d" if "i < length (idToPts c)" for i
    using new(1) that by (metis image_eqI nth_mem)
  then have "abs_map els (ptsToId c) (els d) = None"
    using I by (cases "abs_map els (ptsToId c) (els d)") auto
  then have "map_find ops d (ptsToId c) = Some None" using cache_find [OF inv d] by simp
  moreover have "idCounter c = 0" using I new(2) by (simp add: u32_def)
  ultimately show ?thesis by (simp add: emplacePts_def newPointsToId_def emptyPointsToId_def)
qed

text \<open>Room for one more set, or the set is already there.\<close>

lemma emplacePts_spec:
  assumes inv: "Inv c" and d: "ok d" "same (hd (idToPts c)) d"
    and room: "length (idToPts c) < 2 ^ 32 \<or> els d \<in> els ` set (idToPts c)"
  obtains i c' where "emplacePts ops c d = Some (i, c')" "Inv c'" "grows c c'"
    "i < length (idToPts c')" "pts_of els c' i = els d" "\<And>p. opCache p c' = opCache p c"
    "length (idToPts c') \<le> length (idToPts c) + 1"
proof (cases "els d \<in> els ` set (idToPts c)")
  case True
  then obtain i where i: "i < length (idToPts c)" "els (idToPts c ! i) = els d"
    by (auto simp: in_set_conv_nth)
  then show ?thesis using emplacePts_known [OF inv d, of i] that [of i c] inv by (simp add: pts_of_def)
next
  case False
  then obtain c' where c': "emplacePts ops c d = Some (length (idToPts c), c')" "Inv c'"
      "idToPts c' = idToPts c @ [d]" "\<forall>p. opCache p c' = opCache p c"
    using emplacePts_new [OF inv d] room by blast
  have "grows c c'" "pts_of els c' (length (idToPts c)) = els d"
    using c'(3) by (auto simp: grows_def pts_of_def)
  then show ?thesis using that [OF c'(1,2)] c'(3,4) by simp
qed

text \<open>Two numbers stand for the same set only if they are equal.\<close>

lemma ids_inj:
  "Inv c \<Longrightarrow> i < length (idToPts c) \<Longrightarrow> j < length (idToPts c) \<Longrightarrow>
   pts_of els c i = pts_of els c j \<longleftrightarrow> i = j"
  by (auto simp: cache_inv_def ids_ok_def pts_of_def distinct_conv_nth)

lemma pts_of_empty: "Inv c \<Longrightarrow> pts_of els c emptyPointsToId = {}"
  by (auto simp: cache_inv_def ids_ok_def pts_of_def emptyPointsToId_def hd_conv_nth)

lemma empty_in_range: "Inv c \<Longrightarrow> emptyPointsToId < length (idToPts c)"
  by (auto simp: cache_inv_def ids_ok_def emptyPointsToId_def)

lemma dataOp_spec:
  assumes "ok a" "ok b" "same a b"
  obtains d where "dataOp ops p a b = Some d" "ok d" "same a d" "els d = set_of_op p (els a) (els b)"
  using or_law [OF assms] minus_law [OF assms] and_law [OF assms] by (cases p) auto

lemma opPts_spec:
  assumes inv: "Inv c" and lr: "l < length (idToPts c)" "r < length (idToPts c)"
    and com: "com \<longleftrightarrow> p \<noteq> ComplementOp" and room: "length (idToPts c) < 2 ^ 32"
  obtains i ch c' where "opPts ops p com c l r = Some (i, ch, c')" "Inv c'" "grows c c'"
    "i < length (idToPts c')" "pts_of els c' i = set_of_op p (pts_of els c l) (pts_of els c r)"
    "length (idToPts c') \<le> length (idToPts c) + 1"
proof -
  let ?k = "if com then minmax l r else (l, r)"
  note I = inv [unfolded cache_inv_def]
  have meaning: "set_of_op p (els (ds ! fst ?k)) (els (ds ! snd ?k)) = set_of_op p (els (ds ! l)) (els (ds ! r))"
    for ds using com by (cases p) (auto simp: minmax_def min_def max_def)
  show ?thesis
  proof (cases "opCache p c ?k")
    case (Some i)
    then have "entry_ok els (idToPts c) p ?k i" using I unfolding caches_ok_def by blast
    then show ?thesis using that [of i False c] Some inv meaning
      by (simp add: opPts_def entry_ok_def pts_of_def)
  next
    case None
    have "ok (idToPts c ! l)" "ok (idToPts c ! r)" "same (hd (idToPts c)) (idToPts c ! l)"
        "same (hd (idToPts c)) (idToPts c ! r)"
      using I lr by (simp_all add: ids_ok_def)
    note lr_ok = this
    obtain d where d: "dataOp ops p (idToPts c ! l) (idToPts c ! r) = Some d" "ok d"
        "same (idToPts c ! l) d" "els d = set_of_op p (els (idToPts c ! l)) (els (idToPts c ! r))"
      using dataOp_spec [OF lr_ok(1,2) same_trans [OF same_sym [OF lr_ok(3)] lr_ok(4)]] by blast
    obtain i c' where e: "emplacePts ops c d = Some (i, c')" "Inv c'" "grows c c'"
        "i < length (idToPts c')" "pts_of els c' i = els d" "length (idToPts c') \<le> length (idToPts c) + 1"
      by (rule emplacePts_spec [OF inv d(2) same_trans [OF lr_ok(3) d(3)] disjI1 [OF room]]) blast
    have g: "l < length (idToPts c')" "r < length (idToPts c')"
        "els (idToPts c' ! l) = els (idToPts c ! l)" "els (idToPts c' ! r) = els (idToPts c ! r)"
      using grows_pts_of [OF e(3) lr(1), of els] grows_pts_of [OF e(3) lr(2), of els] by (simp_all add: pts_of_def)
    have "entry_ok els (idToPts c') p ?k i"
    proof (cases "p = ComplementOp")
      case True
      then show ?thesis using com e(4,5) d(4) g by (simp add: entry_ok_def pts_of_def)
    next
      case False
      then have "entry_ok els (idToPts c') p (minmax l r) i"
        using e(5) d(4) g by (intro entry_ok_minmax [OF g(1,2) e(4)]) (simp_all add: pts_of_def)
      then show ?thesis using com False by simp
    qed
    then have inv': "Inv (cache_put p ?k i c')" using e(2) by (rule cache_inv_put [rotated])
    have "opPts ops p com c l r = Some (i, True, cache_put p ?k i c')"
      using None d(1) e(1) lr by (simp add: opPts_emplace getActualPts_def Let_def)
    then show ?thesis
      using that [OF _ inv'] e(3-6) d(4) by (simp add: grows_def pts_of_def)
  qed
qed

text \<open>The three cached operations.\<close>

definition op_result :: "set_op \<Rightarrow> 'd ppcache \<Rightarrow> PointsToID \<Rightarrow> PointsToID \<Rightarrow> PointsToID \<Rightarrow> 'd ppcache \<Rightarrow> bool" where
  "op_result p c l r i c' \<longleftrightarrow> Inv c' \<and> grows c c' \<and> i < length (idToPts c') \<and>
     pts_of els c' i = set_of_op p (pts_of els c l) (pts_of els c r) \<and>
     length (idToPts c') \<le> length (idToPts c) + 1"

lemma pts_of_counts [simp]:
  "pts_of els (count_total p c) = pts_of els c" "pts_of els (count_property p c) = pts_of els c"
  "pts_of els (count_unique p c) = pts_of els c" "pts_of els (count_lookup p c) = pts_of els c"
  "pts_of els (preempt p k v c) = pts_of els c"
  by (simp_all add: pts_of_def fun_eq_iff)

lemma grows_counts [simp]:
  "grows c (count_total p d) \<longleftrightarrow> grows c d" "grows c (count_property p d) \<longleftrightarrow> grows c d"
  "grows c (count_unique p d) \<longleftrightarrow> grows c d" "grows c (count_lookup p d) \<longleftrightarrow> grows c d"
  "grows c (preempt p k v d) \<longleftrightarrow> grows c d" "grows (count_total p c) d \<longleftrightarrow> grows c d"
  by (simp_all add: grows_def)

lemma min_is_empty:
  assumes "Inv c" "min l r = emptyPointsToId"
  shows "pts_of els c l = {} \<and> max l r = r \<or> pts_of els c r = {} \<and> max l r = l"
  using assms pts_of_empty [OF assms(1)] by (auto simp: emptyPointsToId_def min_def max_def split: if_splits)

lemma entry_sets:
  assumes "a < length (idToPts c)" "b < length (idToPts c)" "i < length (idToPts c)" "p \<noteq> ComplementOp"
    and "pts_of els c i = set_of_op p (pts_of els c a) (pts_of els c b)"
  shows "entry_ok els (idToPts c) p (minmax a b) i"
  using assms by (intro entry_ok_minmax) (simp_all add: pts_of_def)

lemma entry_complement:
  assumes "a < length (idToPts c)" "b < length (idToPts c)" "i < length (idToPts c)"
    and "pts_of els c i = pts_of els c a - pts_of els c b"
  shows "entry_ok els (idToPts c) ComplementOp (a, b) i"
  using assms by (simp add: entry_ok_def pts_of_def)

lemma preempt_keeps:
  assumes "Inv c" "a < length (idToPts c)" "b < length (idToPts c)" "i < length (idToPts c)"
    and "p \<noteq> ComplementOp" "pts_of els c i = set_of_op p (pts_of els c a) (pts_of els c b)"
  shows "Inv (preempt p (minmax a b) i c)"
  using assms by (intro cache_inv_preempt entry_sets)

lemma minmax_simps [simp]: "fst (minmax a b) = min a b" "snd (minmax a b) = max a b"
  by (simp_all add: minmax_def)

lemma unionPts_spec:
  assumes inv: "Inv c" and lr: "l < length (idToPts c)" "r < length (idToPts c)"
    and room: "length (idToPts c) < 2 ^ 32"
  shows "\<exists>i c'. unionPts ops c l r = Some (i, c') \<and> op_result UnionOp c l r i c'"
proof -
  let ?c = "count_total UnionOp c"
  consider (empty) "min l r = emptyPointsToId" | (same) "min l r \<noteq> emptyPointsToId" "l = r"
    | (op) "min l r \<noteq> emptyPointsToId" "min l r \<noteq> max l r"
    by (cases "l \<le> r"; cases "l = r") auto
  then show ?thesis
  proof cases
    case empty
    then show ?thesis using min_is_empty [OF inv empty] inv lr
      by (auto simp: unionPts_def minmax_def Let_def op_result_def)
  next
    case same
    then show ?thesis using inv lr by (auto simp: unionPts_def minmax_def Let_def op_result_def)
  next
    case op
    obtain i ch d where o: "opPts ops UnionOp True ?c l r = Some (i, ch, d)" "Inv d" "grows ?c d"
        "i < length (idToPts d)" "pts_of els d i = set_of_op UnionOp (pts_of els ?c l) (pts_of els ?c r)"
        "length (idToPts d) \<le> length (idToPts ?c) + 1"
      by (rule opPts_spec [of ?c l r True UnionOp]) (use inv lr room in auto)
    have g: "l < length (idToPts d)" "r < length (idToPts d)"
        "pts_of els d l = pts_of els c l" "pts_of els d r = pts_of els c r"
      using grows_pts_of [OF o(3), of l els] grows_pts_of [OF o(3), of r els] lr by auto
    have i: "pts_of els d i = pts_of els c l \<union> pts_of els c r" using o(5) by simp
    define e where "e = (if l \<noteq> i then preempt UnionOp (minmax l i) i (count_unique UnionOp d)
      else count_unique UnionOp d)"
    define f where "f = (if r \<noteq> i then preempt UnionOp (minmax r i) i e else e)"
    have "Inv e" using o(2,4) g i by (auto simp: e_def intro!: preempt_keeps)
    then have "Inv f" using o(2,4) g i by (auto simp: f_def e_def intro!: preempt_keeps)
    moreover have "idToPts f = idToPts d" by (simp add: f_def e_def)
    ultimately have "op_result UnionOp c l r i f" "op_result UnionOp c l r i (count_lookup UnionOp d)"
      using o(2,3,4,6) i by (auto simp: op_result_def grows_def pts_of_def)
    moreover have "unionPts ops c l r = Some (i, if ch then f else count_lookup UnionOp d)"
      using op o(1) unfolding unionPts_def Let_def f_def e_def by simp
    ultimately show ?thesis by (cases ch) simp_all
  qed
qed

lemma intersectPts_spec:
  assumes inv: "Inv c" and lr: "l < length (idToPts c)" "r < length (idToPts c)"
    and room: "length (idToPts c) < 2 ^ 32"
  shows "\<exists>i c'. intersectPts ops c l r = Some (i, c') \<and> op_result IntersectionOp c l r i c'"
proof -
  let ?c = "count_total IntersectionOp c"
  consider (empty) "min l r = emptyPointsToId" | (same) "min l r \<noteq> emptyPointsToId" "l = r"
    | (op) "min l r \<noteq> emptyPointsToId" "min l r \<noteq> max l r"
    by (cases "l \<le> r"; cases "l = r") auto
  then show ?thesis
  proof cases
    case empty
    then show ?thesis using min_is_empty [OF inv empty] inv lr pts_of_empty [OF inv] empty_in_range [OF inv]
      by (auto simp: intersectPts_def minmax_def Let_def op_result_def)
  next
    case same
    then show ?thesis using inv lr by (auto simp: intersectPts_def minmax_def Let_def op_result_def)
  next
    case op
    obtain i ch d where o: "opPts ops IntersectionOp True ?c l r = Some (i, ch, d)" "Inv d" "grows ?c d"
        "i < length (idToPts d)"
        "pts_of els d i = set_of_op IntersectionOp (pts_of els ?c l) (pts_of els ?c r)"
        "length (idToPts d) \<le> length (idToPts ?c) + 1"
      by (rule opPts_spec [of ?c l r True IntersectionOp]) (use inv lr room in auto)
    have g: "l < length (idToPts d)" "r < length (idToPts d)"
        "pts_of els d l = pts_of els c l" "pts_of els d r = pts_of els c r"
      using grows_pts_of [OF o(3), of l els] grows_pts_of [OF o(3), of r els] lr by auto
    have i: "pts_of els d i = pts_of els c l \<inter> pts_of els c r" using o(5) by simp
    define c1 where "c1 = (if i \<noteq> r then preempt IntersectionOp (minmax i r) i (count_unique IntersectionOp d)
      else count_unique IntersectionOp d)"
    define c2 where "c2 = (if i \<noteq> l then preempt IntersectionOp (minmax i l) i c1 else c1)"
    define c3 where "c3 = (if i \<noteq> emptyPointsToId \<and> i \<noteq> l then preempt UnionOp (minmax l i) l c2 else c2)"
    define c4 where "c4 = (if i \<noteq> emptyPointsToId \<and> i \<noteq> r then preempt UnionOp (minmax r i) r c3 else c3)"
    have ids: "idToPts c1 = idToPts d" "idToPts c2 = idToPts d" "idToPts c3 = idToPts d" "idToPts c4 = idToPts d"
      by (simp_all add: c1_def c2_def c3_def c4_def)
    then have p: "pts_of els c1 = pts_of els d" "pts_of els c2 = pts_of els d" "pts_of els c3 = pts_of els d"
      by (simp_all add: pts_of_def fun_eq_iff)
    have "Inv c1" using o(2,4) g i by (auto simp: c1_def intro!: preempt_keeps)
    then have "Inv c2" using o(4) g i ids p by (auto simp: c2_def intro!: preempt_keeps)
    then have "Inv c3" using o(4) g i ids p by (auto simp: c3_def intro!: preempt_keeps)
    then have "Inv c4" using o(4) g i ids p by (auto simp: c4_def intro!: preempt_keeps)
    then have "op_result IntersectionOp c l r i c4"
      "op_result IntersectionOp c l r i (count_unique IntersectionOp d)"
      "op_result IntersectionOp c l r i (count_lookup IntersectionOp d)"
      using o(2,3,4,6) i ids by (auto simp: op_result_def grows_def pts_of_def)
    moreover have "intersectPts ops c l r = Some (i, if ch then if i \<noteq> emptyPointsToId then c4
        else count_unique IntersectionOp d else count_lookup IntersectionOp d)"
      using op o(1) unfolding intersectPts_def Let_def c4_def c3_def c2_def c1_def by simp
    ultimately show ?thesis by (cases ch; cases "i = emptyPointsToId") simp_all
  qed
qed

lemma complementPts_spec:
  assumes inv: "Inv c" and lr: "l < length (idToPts c)" "r < length (idToPts c)"
    and room: "length (idToPts c) < 2 ^ 32"
  shows "\<exists>i c'. complementPts ops c l r = Some (i, c') \<and> op_result ComplementOp c l r i c'"
proof -
  let ?c = "count_total ComplementOp c"
  consider (easy) "l = r \<or> r = emptyPointsToId \<or> l = emptyPointsToId"
    | (op) "l \<noteq> r" "r \<noteq> emptyPointsToId" "l \<noteq> emptyPointsToId" by auto
  then show ?thesis
  proof cases
    case easy
    then show ?thesis using inv lr pts_of_empty [OF inv] empty_in_range [OF inv]
      by (auto simp: complementPts_def Let_def op_result_def)
  next
    case op
    obtain i ch d where o: "opPts ops ComplementOp False ?c l r = Some (i, ch, d)" "Inv d" "grows ?c d"
        "i < length (idToPts d)"
        "pts_of els d i = set_of_op ComplementOp (pts_of els ?c l) (pts_of els ?c r)"
        "length (idToPts d) \<le> length (idToPts ?c) + 1"
      by (rule opPts_spec [of ?c l r False ComplementOp]) (use inv lr room in auto)
    have g: "l < length (idToPts d)" "r < length (idToPts d)"
        "pts_of els d l = pts_of els c l" "pts_of els d r = pts_of els c r"
      using grows_pts_of [OF o(3), of l els] grows_pts_of [OF o(3), of r els] lr by auto
    have i: "pts_of els d i = pts_of els c l - pts_of els c r" using o(5) by simp
    have e0: "pts_of els d emptyPointsToId = {}" "emptyPointsToId < length (idToPts d)"
      using pts_of_empty [OF o(2)] empty_in_range [OF o(2)] by auto
    define c1 where "c1 = preempt IntersectionOp (minmax i r) emptyPointsToId (count_unique ComplementOp d)"
    define c2 where "c2 = preempt IntersectionOp (minmax i l) i c1"
    define c3 where "c3 = preempt ComplementOp (i, r) i c2"
    have ids: "idToPts c1 = idToPts d" "idToPts c2 = idToPts d" "idToPts c3 = idToPts d"
      by (simp_all add: c1_def c2_def c3_def)
    then have p: "pts_of els c1 = pts_of els d" "pts_of els c2 = pts_of els d"
      by (simp_all add: pts_of_def fun_eq_iff)
    have "Inv c1" using o(2,4) g i e0 by (auto simp: c1_def intro!: preempt_keeps)
    then have "Inv c2" using o(4) g i ids p by (auto simp: c2_def intro!: preempt_keeps)
    then have "Inv c3" using o(4) g i ids p
      by (auto simp: c3_def intro!: cache_inv_preempt entry_complement)
    then have "op_result ComplementOp c l r i c3"
      "op_result ComplementOp c l r i (count_unique ComplementOp d)"
      "op_result ComplementOp c l r i (count_lookup ComplementOp d)"
      using o(2,3,4,6) i ids by (auto simp: op_result_def grows_def pts_of_def)
    moreover have "complementPts ops c l r = Some (i, if ch then if i \<noteq> emptyPointsToId then c3
        else count_unique ComplementOp d else count_lookup ComplementOp d)"
      using op o(1) unfolding complementPts_def Let_def c3_def c2_def c1_def by simp
    ultimately show ?thesis by (cases ch; cases "i = emptyPointsToId") simp_all
  qed
qed

section \<open>Creating, resetting and remapping the cache\<close>

lemma single_inv:
  assumes "ready" "idToPts c = [d_new ops]" "ptsToId c = [(d_new ops, emptyPointsToId)]" "idCounter c = 1"
    and "\<And>p k. opCache p c k = None"
  shows "Inv c"
  using assms new_law same_refl
  by (auto simp: cache_inv_def ids_ok_def keys_ok_def abs_map_def caches_ok_def u32_def emptyPointsToId_def
      split: if_splits)

lemma cache_new_spec:
  assumes "ready" obtains c where "cache_new ops = Some c" "Inv c" "idToPts c = [d_new ops]" "balanced c"
proof -
  define c where "c = initStats
       \<lparr>idToPts = [d_new ops], ptsToId = [(d_new ops, emptyPointsToId)], unionCache = Map.empty,
        complementCache = Map.empty, intersectionCache = Map.empty, idCounter = 1,
        unionStats = no_stats, complementStats = no_stats, intersectionStats = no_stats\<rparr>"
  have op: "opCache p c k = None" for p k by (cases p) (simp_all add: c_def initStats_def)
  have st: "stats p c = no_stats" for p by (cases p) (simp_all add: c_def initStats_def)
  show ?thesis
  proof (rule that)
    show "cache_new ops = Some c" by (simp add: cache_new_def c_def)
    show "Inv c" using assms op by (intro single_inv) (simp_all add: c_def initStats_def)
    show "idToPts c = [d_new ops]" by (simp add: c_def initStats_def)
    show "balanced c" by (simp add: balanced_def st no_stats_def)
  qed
qed

lemma cache_reset_spec:
  assumes "ready"
  obtains c' where "cache_reset ops c = Some c'" "Inv c'" "idToPts c' = [d_new ops]" "balanced c'"
proof -
  define c' where "c' = initStats (cache_clear c
      \<lparr>ptsToId := [(d_new ops, emptyPointsToId)], idToPts := [d_new ops], idCounter := 1\<rparr>)"
  have op: "opCache p c' k = None" for p k by (cases p) (simp_all add: c'_def initStats_def cache_clear_def)
  have st: "stats p c' = no_stats" for p by (cases p) (simp_all add: c'_def initStats_def)
  show ?thesis
  proof (rule that)
    show "cache_reset ops c = Some c'" by (simp add: cache_reset_def c'_def cache_clear_def)
    show "Inv c'" using assms op by (intro single_inv) (simp_all add: c'_def initStats_def)
    show "idToPts c' = [d_new ops]" by (simp add: c'_def initStats_def)
    show "balanced c'" by (simp add: balanced_def st no_stats_def)
  qed
qed

lemma remap_list_spec:
  assumes "ready" "\<forall>d \<in> set ds. ok d \<and> movable d"
  shows "\<exists>es. remap_list ops ds = Some es \<and> map els es = map els ds \<and>
    (\<forall>d \<in> set es. ok d \<and> same (d_new ops) d)"
  using assms(2)
proof (induction ds)
  case (Cons d ds)
  then obtain es where "remap_list ops ds = Some es" "map els es = map els ds"
      "\<forall>d \<in> set es. ok d \<and> same (d_new ops) d" by auto
  moreover obtain e where "d_remap ops d = Some e" "ok e" "same (d_new ops) e" "els e = els d"
    using remap_law [OF assms(1), of d] Cons.prems by force
  ultimately show ?case by simp
qed simp

lemma number_pts_spec:
  assumes "\<forall>d \<in> set ds. ok d \<and> same r d" "distinct (map els ds)" "keys_ok ok same r m"
  shows "\<exists>m'. number_pts ops ds i m = Some m' \<and> keys_ok ok same r m' \<and>
    (\<forall>s j. abs_map els m' s = Some j \<longleftrightarrow>
      (if s \<in> els ` set ds then i \<le> j \<and> j < i + length ds \<and> els (ds ! (j - i)) = s
       else abs_map els m s = Some j))"
  using assms
proof (induction ds arbitrary: i m)
  case (Cons d ds)
  obtain m1 where m1: "map_put ops d i m = Some m1" "keys_ok ok same r m1"
      "abs_map els m1 = (abs_map els m)(els d \<mapsto> i)"
    using map_put_spec [OF Cons.prems(3), of d i] Cons.prems(1) by auto
  obtain m' where m': "number_pts ops ds (Suc i) m1 = Some m'" "keys_ok ok same r m'"
      "\<And>s j. abs_map els m' s = Some j \<longleftrightarrow>
        (if s \<in> els ` set ds then Suc i \<le> j \<and> j < Suc i + length ds \<and> els (ds ! (j - Suc i)) = s
         else abs_map els m1 s = Some j)"
    using Cons.IH [OF _ _ m1(2), of "Suc i"] Cons.prems(1,2) by auto
  have d: "els d \<notin> els ` set ds" using Cons.prems(2) by simp
  have "abs_map els m' s = Some j \<longleftrightarrow>
      (if s \<in> els ` set (d # ds) then i \<le> j \<and> j < i + length (d # ds) \<and> els ((d # ds) ! (j - i)) = s
       else abs_map els m s = Some j)" for s j
  proof (cases "s = els d")
    case True
    have "els (ds ! k) \<noteq> els d" if "k < length ds" for k using d that by (metis image_eqI nth_mem)
    then have "i \<le> j \<and> j < i + length (d # ds) \<and> els ((d # ds) ! (j - i)) = els d \<longleftrightarrow> j = i"
      by (cases "j - i") auto
    then show ?thesis using True m'(3) [of s j] d m1(3) by auto
  next
    case False
    have "i \<le> j \<and> els ((d # ds) ! (j - i)) = s \<longleftrightarrow> Suc i \<le> j \<and> els (ds ! (j - Suc i)) = s"
      using False by (cases "i = j") (auto simp: nth_Cons')
    then show ?thesis using False m'(3) [of s j] m1(3) by auto
  qed
  then show ?case using m1(1) m'(1,2) by auto
qed (auto simp: )

lemma entry_ok_cong:
  assumes "map els ds = map els es" shows "entry_ok els ds p k r \<longleftrightarrow> entry_ok els es p k r"
proof -
  have l: "length ds = length es" using assms by (rule map_eq_imp_length_eq)
  have "els (ds ! i) = els (es ! i)" if "i < length es" for i
    using assms that l by (metis nth_map)
  then show ?thesis using l by (auto simp: entry_ok_def)
qed

lemma remapAllPts_spec:
  assumes "ready" and inv: "Inv c" and mov: "\<forall>d \<in> set (idToPts c). movable d"
  obtains c' where "remapAllPts ops c = Some c'" "Inv c'" "length (idToPts c') = length (idToPts c)"
    "\<And>i. i < length (idToPts c) \<Longrightarrow> pts_of els c' i = pts_of els c i"
    "\<forall>d \<in> set (idToPts c'). same (d_new ops) d"
proof -
  note I = inv [unfolded cache_inv_def ids_ok_def]
  obtain es where es: "remap_list ops (idToPts c) = Some es" "map els es = map els (idToPts c)"
      "\<forall>d \<in> set es. ok d \<and> same (d_new ops) d"
    using remap_list_spec [OF assms(1), of "idToPts c"] I mov by blast
  have len: "length es = length (idToPts c)" using es(2) by (rule map_eq_imp_length_eq)
  have els: "els (es ! i) = els (idToPts c ! i)" if "i < length es" for i
    using es(2) that len by (metis nth_map)
  have dist: "distinct (map els es)" using es(2) I by simp
  obtain m where m: "number_pts ops es 0 [] = Some m" "keys_ok ok same (d_new ops) m"
      "\<And>s j. abs_map els m s = Some j \<longleftrightarrow>
        (if s \<in> els ` set es then 0 \<le> j \<and> j < 0 + length es \<and> els (es ! (j - 0)) = s
         else abs_map els [] s = Some j)"
    using number_pts_spec [OF es(3) dist, of "[]" 0] by (auto simp: keys_ok_def)
  define c' where "c' = c\<lparr>idToPts := es, ptsToId := m\<rparr>"
  have r: "same (d_new ops) (hd es)" using es(3) len I by (cases es) auto
  have hd: "same (hd es) d" if "same (d_new ops) d" for d
    by (rule same_trans [OF same_sym [OF r] that])
  have ne: "es \<noteq> []" using len I by auto
  have "idToPts c \<noteq> []" "els (hd (idToPts c)) = {}" using I by auto
  then have "els (hd es) = {}" using els [of 0] ne len by (simp add: hd_conv_nth)
  moreover have "abs_map els m s = Some j \<longleftrightarrow> j < length es \<and> els (es ! j) = s" for s j
    using m(3) [of s j] nth_mem [of j es] by (auto simp: abs_map_Nil)
  moreover have "keys_ok ok same (hd es) m" using m(2) hd by (auto simp: keys_ok_def)
  moreover have "caches_ok els c'"
  proof -
    have "opCache p c' = opCache p c" for p by (cases p) (simp_all add: c'_def)
    then show ?thesis using I entry_ok_cong [OF es(2)] by (simp add: caches_ok_def c'_def)
  qed
  ultimately have "Inv c'"
    using I es(3) dist len ne hd by (simp add: cache_inv_def ids_ok_def c'_def)
  moreover have "remapAllPts ops c = Some c'" using es(1) m(1) by (simp add: remapAllPts_def c'_def)
  ultimately show ?thesis
    using that [of c'] es(3) els len by (simp add: c'_def pts_of_def)
qed

text \<open>The keys of \<open>getAllPts\<close> are exactly the sets of the cache, each with value 1.\<close>

lemma all_pts_spec:
  assumes "\<forall>d \<in> set ds. ok d \<and> same r d" "keys_ok ok same r m"
  shows "\<exists>m'. all_pts ops ds m = Some m' \<and> keys_ok ok same r m' \<and>
    abs_map els m' = (\<lambda>s. if s \<in> els ` set ds then Some 1 else abs_map els m s)"
  using assms
proof (induction ds arbitrary: m)
  case (Cons d ds)
  obtain m1 where m1: "map_put ops d 1 m = Some m1" "keys_ok ok same r m1"
      "abs_map els m1 = (abs_map els m)(els d \<mapsto> 1)"
    using map_put_spec [OF Cons.prems(2), of d 1] Cons.prems(1) by auto
  obtain m' where "all_pts ops ds m1 = Some m'" "keys_ok ok same r m'"
      "abs_map els m' = (\<lambda>s. if s \<in> els ` set ds then Some 1 else abs_map els m1 s)"
    using Cons.IH [OF _ m1(2)] Cons.prems(1) by auto
  then show ?case using m1 by (auto simp: fun_eq_iff)
qed simp

lemma cache_getAllPts_spec:
  assumes "Inv c"
  obtains m where "cache_getAllPts ops c = Some m"
    "\<And>s. abs_map els m s = (if s \<in> els ` set (idToPts c) then Some 1 else None)"
proof -
  have "\<forall>d \<in> set (idToPts c). ok d \<and> same (hd (idToPts c)) d"
    using assms by (simp add: cache_inv_def ids_ok_def)
  then obtain m where "all_pts ops (idToPts c) [] = Some m"
      "abs_map els m = (\<lambda>s. if s \<in> els ` set (idToPts c) then Some 1 else abs_map els [] s)"
    using all_pts_spec [of "idToPts c" "hd (idToPts c)" "[]"] by (auto simp: keys_ok_def)
  then show ?thesis using that by (simp add: cache_getAllPts_def abs_map_def)
qed

text \<open>The order of the operands does not matter, and asking again gives the same number.\<close>

lemma unionPts_unique:
  assumes "Inv c" "l < length (idToPts c)" "r < length (idToPts c)" "length (idToPts c) < 2 ^ 32"
    and "unionPts ops c l r = Some (i, c')" "length (idToPts c') < 2 ^ 32"
  shows "\<exists>d. unionPts ops c' r l = Some (i, d)"
proof -
  have r: "op_result UnionOp c l r i c'" using unionPts_spec [OF assms(1-4)] assms(5) by auto
  then have inv': "Inv c'" and i: "i < length (idToPts c')" and g: "grows c c'"
    by (simp_all add: op_result_def)
  note gl = grows_pts_of [OF g assms(2), of els] and gr = grows_pts_of [OF g assms(3), of els]
  obtain j d where j: "unionPts ops c' r l = Some (j, d)" "op_result UnionOp c' r l j d"
    using unionPts_spec [OF inv' _ _ assms(6), of r l] gl gr by auto
  have "pts_of els d j = pts_of els c' i"
    using j(2) r gl gr by (simp add: op_result_def Un_commute)
  also have "\<dots> = pts_of els d i"
    using grows_pts_of [of c' d i els] j(2) i by (simp add: op_result_def)
  finally have "j = i" using ids_inj [of d j i] j(2) i grows_pts_of [of c' d i els]
    by (simp add: op_result_def)
  then show ?thesis using j(1) by simp
qed

end

section \<open>Sparse points-to sets meet the contract\<close>

text \<open>
  The dictionary of a points-to set. \<open>pt_ops h g\<close>: \<open>h\<close> is the hash of a
  \<open>size_t\<close>, \<open>g\<close> the static members of the class.
\<close>

definition pt_ops :: "(64 word \<Rightarrow> 64 word) \<Rightarrow> pt_globals \<Rightarrow> points_to data_ops" where
  "pt_ops h g = \<lparr>d_new = pt_new g, d_hash = pt_hash h, d_eq = pt_eq, d_or = pt_or,
     d_minus = pt_minus, d_and = pt_and, d_remap = checkAndRemap g\<rparr>"

definition pt_sparse :: "points_to \<Rightarrow> bool" where
  "pt_sparse pt \<longleftrightarrow> pt_inv pt \<and> bk_type (backing pt) = SBV"

definition globals_ready :: "pt_globals \<Rightarrow> bool" where
  "globals_ready g \<longleftrightarrow> PtType g = SBV \<and>
     mapping_ok (currentBestNodeMapping g) (currentBestReverseNodeMapping g)"

text \<open>
  A set can be remapped when the new mapping covers its nodes; one that already uses the mapping
  must be using the very vectors of \<open>g\<close>.
\<close>

definition pt_movable :: "pt_globals \<Rightarrow> points_to \<Rightarrow> bool" where
  "pt_movable g pt \<longleftrightarrow> (\<forall>n \<in> pt_nodes pt. n < map_limit (currentBestNodeMapping g)) \<and>
     (ptr_eq (nodeMapping pt) (currentBestNodeMapping g) \<longrightarrow> pt_same (pt_new g) pt)"

lemma pt_sparse_step: "pt_sparse a \<Longrightarrow> pt_inv c \<Longrightarrow> pt_same a c \<Longrightarrow> pt_sparse c"
  by (simp add: pt_sparse_def pt_same_def bk_same_def)

lemma pt_sparse_hash:
  assumes "pt_sparse a" "pt_sparse b" "pt_same a b" "pt_nodes a = pt_nodes b"
  shows "\<exists>k. pt_hash h a = Some k \<and> pt_hash h b = Some k"
proof -
  obtain s where s: "backing a = InSbv s" using assms(1) by (cases "backing a") (auto simp: pt_sparse_def)
  obtain t where t: "backing b = InSbv t" using assms(2) by (cases "backing b") (auto simp: pt_sparse_def)
  have "bk_bits (backing a) = bk_bits (backing b)"
    using pt_two_images(5) [of a b] assms by (simp add: pt_sparse_def)
  then have "sbv_hash h s = sbv_hash h t" "\<exists>k. sbv_hash h s = Some k"
    using sbv_hash_bits [of s t h] assms(1,2) s t by (auto simp: pt_sparse_def pt_inv_def)
  then show ?thesis using s t by (auto simp: pt_hash_def)
qed

lemma pt_sparse_ops:
  assumes "pt_sparse a" "pt_sparse b" "pt_same a b"
  shows "\<exists>c. pt_or a b = Some c \<and> pt_sparse c \<and> pt_same a c \<and> pt_nodes c = pt_nodes a \<union> pt_nodes b"
    "\<exists>c. pt_minus a b = Some c \<and> pt_sparse c \<and> pt_same a c \<and> pt_nodes c = pt_nodes a - pt_nodes b"
    "\<exists>c. pt_and a b = Some c \<and> pt_sparse c \<and> pt_same a c \<and> pt_nodes c = pt_nodes a \<inter> pt_nodes b"
proof -
  have inv: "pt_inv a" "pt_inv b" using assms by (simp_all add: pt_sparse_def)
  note step = pt_sparse_step [OF assms(1)]
  show "\<exists>c. pt_or a b = Some c \<and> pt_sparse c \<and> pt_same a c \<and> pt_nodes c = pt_nodes a \<union> pt_nodes b"
    by (rule pt_or_spec [OF inv assms(3)]) (use step in blast)
  show "\<exists>c. pt_minus a b = Some c \<and> pt_sparse c \<and> pt_same a c \<and> pt_nodes c = pt_nodes a - pt_nodes b"
    by (rule pt_minus_spec [OF inv assms(3)]) (use step in blast)
  show "\<exists>c. pt_and a b = Some c \<and> pt_sparse c \<and> pt_same a c \<and> pt_nodes c = pt_nodes a \<inter> pt_nodes b"
    by (rule pt_and_spec [OF inv assms(3)]) (use step in blast)
qed

lemma pt_sparse_new: "globals_ready g \<Longrightarrow> pt_sparse (pt_new g) \<and> pt_nodes (pt_new g) = {}"
  using pt_new_spec [of g] by (simp add: globals_ready_def pt_sparse_def pt_new_def)

text \<open>A remapped set is as new: sparse, with the vectors of \<open>g\<close>.\<close>

lemma pt_sparse_remap:
  assumes g: "globals_ready g" and a: "pt_sparse a" "pt_movable g a"
  shows "\<exists>b. checkAndRemap g a = Some b \<and> pt_sparse b \<and> pt_same (pt_new g) b \<and> pt_nodes b = pt_nodes a"
proof (cases "ptr_eq (nodeMapping a) (currentBestNodeMapping g)")
  case True
  then show ?thesis using a by (simp add: checkAndRemap_def pt_movable_def)
next
  case False
  have inv: "pt_inv a" "pt_inv (pt_new g)" "pt_nodes (pt_new g) = {}"
    using a(1) pt_sparse_new [OF g] by (simp_all add: pt_sparse_def)
  obtain ns where ns: "pt_list a = Some ns" "set ns = pt_nodes a" using pt_list_spec(2) [OF inv(1)] by blast
  have "\<forall>k \<in> set ns. pt_valid (pt_new g) k"
    using a(2) ns(2) by (simp add: pt_movable_def pt_valid_def pt_new_def)
  then obtain q where q: "set_nodes (pt_new g) ns = Some q" "pt_inv q" "pt_nodes q = set ns"
      "pt_same (pt_new g) q"
    using set_nodes_spec [OF inv(2)] inv(3) by (metis sup_bot_left)
  note m = pt_move_spec [OF q(2), of a]
  have "pt_same (pt_new g) (pt_move_assign a q)" using pt_same_trans [OF q(4) m(3)] .
  moreover have "pt_sparse (pt_move_assign a q)"
    using calculation m(1) pt_sparse_new [OF g] pt_sparse_step by blast
  ultimately show ?thesis using False ns q m by (simp add: checkAndRemap_def)
qed

interpretation pc: data_set "pt_ops h g" pt_sparse pt_nodes pt_same "globals_ready g" "pt_movable g"
  for h g
proof (unfold_locales, goal_cases)
  case (2 a b)
  then show ?case by (rule pt_same_sym)
next
  case (3 a b c)
  then show ?case by (rule pt_same_trans)
next
  case (5 a b)
  then show ?case by (simp add: pt_ops_def pt_sparse_hash)
next
  case (6 a b)
  then show ?case using pt_eq_spec(1) [of a b] by (simp add: pt_ops_def pt_sparse_def)
next
  case (10 a)
  then show ?case by (simp add: pt_ops_def pt_sparse_remap)
qed (simp_all add: pt_ops_def pt_sparse_ops pt_sparse_new)

end
