(* ===== verification/Samples.thy ===== *)
theory Samples
  imports PersistentCacheSpec
begin

text \<open>
  Concrete values on which the properties of the development are instantiated: static members with
  and without a node mapping, two overlapping points-to sets, a cache holding them, and bit
  vectors whose operands lie at different offsets.
\<close>

definition no_mapping :: pt_globals where
  "no_mapping = \<lparr>PtType = SBV, currentBestNodeMapping = None, currentBestReverseNodeMapping = None\<rparr>"

text \<open>Node 0 becomes 2, node 1 becomes 0, node 2 becomes 1.\<close>

definition best_mapping :: pt_globals where
  "best_mapping = setCurrentBestNodeMapping no_mapping
     (Some \<lparr>vec_addr = 10, vec_entries = [2, 0, 1]\<rparr>) (Some \<lparr>vec_addr = 20, vec_entries = [1, 2, 0]\<rparr>)"

lemma globals_no_mapping: "globals_ready no_mapping"
  by (simp add: globals_ready_def no_mapping_def mapping_ok_def)

lemma globals_best_mapping: "globals_ready best_mapping"
  by (auto simp: globals_ready_def best_mapping_def setCurrentBestNodeMapping_def no_mapping_def
      mapping_ok_def less_Suc_eq numeral_3_eq_3)

text \<open>The set made of the given nodes.\<close>

definition pt_of :: "pt_globals \<Rightarrow> NodeID list \<Rightarrow> points_to" where
  "pt_of g ns = the (set_nodes (pt_new g) ns)"

lemma pt_of_spec:
  assumes "globals_ready g" "\<forall>n \<in> set ns. n < map_limit (currentBestNodeMapping g)"
  shows "pt_sparse (pt_of g ns)" "pt_inv (pt_of g ns)" "pt_nodes (pt_of g ns) = set ns"
    "pt_same (pt_new g) (pt_of g ns)"
proof -
  have n: "pt_sparse (pt_new g)" "pt_nodes (pt_new g) = {}" using pt_sparse_new [OF assms(1)] by auto
  then have i: "pt_inv (pt_new g)" by (simp add: pt_sparse_def)
  have v: "\<forall>k \<in> set ns. pt_valid (pt_new g) k" using assms(2) by (simp add: pt_valid_def pt_new_def)
  obtain q where q: "set_nodes (pt_new g) ns = Some q" "pt_inv q" "pt_nodes q = pt_nodes (pt_new g) \<union> set ns"
      "pt_same (pt_new g) q"
    using set_nodes_spec [OF i v] by blast
  then show "pt_inv (pt_of g ns)" "pt_nodes (pt_of g ns) = set ns" "pt_same (pt_new g) (pt_of g ns)"
    using n by (simp_all add: pt_of_def)
  then show "pt_sparse (pt_of g ns)" using pt_sparse_step [OF n(1)] by simp
qed

definition pt_a :: points_to where "pt_a = pt_of no_mapping [1, 200]"
definition pt_b :: points_to where "pt_b = pt_of no_mapping [200, 7]"

lemma pt_a_b:
  "pt_sparse pt_a" "pt_inv pt_a" "pt_nodes pt_a = {1, 200}" "pt_same (pt_new no_mapping) pt_a"
  "pt_sparse pt_b" "pt_inv pt_b" "pt_nodes pt_b = {200, 7}" "pt_same (pt_new no_mapping) pt_b"
  "pt_same pt_a pt_b"
proof -
  have l: "map_limit (currentBestNodeMapping no_mapping) = 2 ^ 32" by (simp add: no_mapping_def map_limit_def)
  have a: "\<forall>n \<in> set [1, 200]. n < map_limit (currentBestNodeMapping no_mapping)" unfolding l by simp
  have b: "\<forall>n \<in> set [200, 7]. n < map_limit (currentBestNodeMapping no_mapping)" unfolding l by simp
  show s: "pt_sparse pt_a" "pt_inv pt_a" "pt_nodes pt_a = {1, 200}" "pt_same (pt_new no_mapping) pt_a"
    "pt_sparse pt_b" "pt_inv pt_b" "pt_nodes pt_b = {200, 7}" "pt_same (pt_new no_mapping) pt_b"
    using pt_of_spec [OF globals_no_mapping a] pt_of_spec [OF globals_no_mapping b]
    by (simp_all add: pt_a_def pt_b_def)
  show "pt_same pt_a pt_b" by (rule pt_same_trans [OF pt_same_sym [OF s(4)] s(8)])
qed

lemma sample_union: "{1, 200} \<union> {200, 7} = {1, 7, 200 :: nat}" and sample_union_new: "{1, 7, 200} \<noteq> {1, 200 :: nat}"
proof -
  show "{1, 200} \<union> {200, 7} = {1, 7, 200 :: nat}" by auto
  have "7 \<in> {1, 7, 200 :: nat}" "7 \<notin> {1, 200 :: nat}" by simp_all
  then show "{1, 7, 200} \<noteq> {1, 200 :: nat}" by metis
qed

section \<open>A cache with two sets\<close>

definition sample_ops :: "points_to data_ops" where
  "sample_ops = pt_ops id no_mapping"

definition cache_0 :: "points_to ppcache" where "cache_0 = the (cache_new sample_ops)"
definition cache_1 :: "points_to ppcache" where "cache_1 = snd (the (emplacePts sample_ops cache_0 pt_a))"
definition cache_2 :: "points_to ppcache" where "cache_2 = snd (the (emplacePts sample_ops cache_1 pt_b))"

lemma cache_1_ok:
  "cache_inv pt_sparse pt_nodes pt_same cache_1" "pt_same (hd (idToPts cache_1)) pt_b"
  "length (idToPts cache_1) = 2" "pt_nodes pt_b \<notin> pt_nodes ` set (idToPts cache_1)"
  and cache_0_balanced: "balanced cache_0"
  and cache_1_sets: "idToPts cache_1 = [pt_new no_mapping, pt_a]"
proof -
  have n: "d_new sample_ops = pt_new no_mapping" by (simp add: sample_ops_def pt_ops_def)
  obtain z where z: "cache_new sample_ops = Some z" "cache_inv pt_sparse pt_nodes pt_same z"
      "idToPts z = [d_new sample_ops]" "balanced z"
    unfolding sample_ops_def by (rule pc.cache_new_spec [OF globals_no_mapping, of id])
  then have 0: "cache_inv pt_sparse pt_nodes pt_same cache_0" "idToPts cache_0 = [pt_new no_mapping]"
    using n by (simp_all add: cache_0_def)
  show "balanced cache_0" using z(1,4) by (simp add: cache_0_def)
  have e: "pt_nodes (pt_new no_mapping) = {}" using pt_sparse_new [OF globals_no_mapping] by simp
  have d1: "pt_same (hd (idToPts cache_0)) pt_a" "pt_nodes pt_a \<notin> pt_nodes ` set (idToPts cache_0)"
      "length (idToPts cache_0) < 2 ^ 32"
    using 0(2) pt_a_b(3,4) e by simp_all
  obtain c where c: "emplacePts sample_ops cache_0 pt_a = Some (length (idToPts cache_0), c)"
      "cache_inv pt_sparse pt_nodes pt_same c" "idToPts c = idToPts cache_0 @ [pt_a]"
    using pc.emplacePts_new [OF 0(1) pt_a_b(1) d1, of id no_mapping] unfolding sample_ops_def by blast
  show 1: "cache_inv pt_sparse pt_nodes pt_same cache_1" "idToPts cache_1 = [pt_new no_mapping, pt_a]"
    using 0(2) c by (simp_all add: cache_1_def)
  show "pt_same (hd (idToPts cache_1)) pt_b" "pt_nodes pt_b \<notin> pt_nodes ` set (idToPts cache_1)"
      "length (idToPts cache_1) = 2"
    using 1(2) pt_a_b(3,7,8) e by (simp_all add: doubleton_eq_iff)
qed

lemma cache_2_ok:
  "cache_inv pt_sparse pt_nodes pt_same cache_2" "length (idToPts cache_2) = 3"
  "pts_of pt_nodes cache_2 1 = {1, 200}" "pts_of pt_nodes cache_2 2 = {7, 200}"
  and cache_2_sets: "idToPts cache_2 = [pt_new no_mapping, pt_a, pt_b]"
proof -
  have l: "length (idToPts cache_1) < 2 ^ 32" using cache_1_ok(3) by simp
  obtain c' where c': "emplacePts sample_ops cache_1 pt_b = Some (length (idToPts cache_1), c')"
      "cache_inv pt_sparse pt_nodes pt_same c'" "idToPts c' = idToPts cache_1 @ [pt_b]"
    using pc.emplacePts_new [OF cache_1_ok(1) pt_a_b(5) cache_1_ok(2,4) l, of id no_mapping]
    unfolding sample_ops_def by blast
  then show 2: "cache_inv pt_sparse pt_nodes pt_same cache_2" "idToPts cache_2 = [pt_new no_mapping, pt_a, pt_b]"
    using cache_1_sets by (simp_all add: cache_2_def)
  show "length (idToPts cache_2) = 3"
    "pts_of pt_nodes cache_2 1 = {1, 200}" "pts_of pt_nodes cache_2 2 = {7, 200}"
    using 2 pt_a_b(3,7) by (simp_all add: pts_of_def insert_commute)
qed

lemma cache_2_head: "pt_same (hd (idToPts cache_2)) pt_a"
  using pt_a_b(4) by (simp add: cache_2_sets)

text \<open>A mapping that is the identity on the first 256 nodes: every set of the cache can move to it.\<close>

definition wide_mapping :: pt_globals where
  "wide_mapping = setCurrentBestNodeMapping no_mapping
     (Some \<lparr>vec_addr = 30, vec_entries = [0..<256]\<rparr>) (Some \<lparr>vec_addr = 40, vec_entries = [0..<256]\<rparr>)"

lemma globals_wide_mapping: "globals_ready wide_mapping"
  by (simp add: globals_ready_def wide_mapping_def setCurrentBestNodeMapping_def no_mapping_def
      mapping_ok_def)

lemma cache_2_movable: "\<forall>d \<in> set (idToPts cache_2). pt_movable wide_mapping d"
proof -
  have m: "nodeMapping (pt_new no_mapping) = None" by (simp add: pt_new_def no_mapping_def)
  then have "nodeMapping pt_a = None" "nodeMapping pt_b = None"
    using pt_a_b(4,8) by (simp_all add: pt_same_def)
  then show ?thesis
    using pt_a_b(3,7) m pt_sparse_new [OF globals_no_mapping]
    by (simp add: cache_2_sets pt_movable_def wide_mapping_def setCurrentBestNodeMapping_def map_limit_def
        ptr_eq_def)
qed

section \<open>Bit vectors\<close>

definition cbv_of :: "nat list \<Rightarrow> cbv" where
  "cbv_of ns = fold (\<lambda>n c. cbv_set c n) ns (cbv_new 0)"

lemma cbv_of_spec:
  "\<forall>n \<in> set ns. n < 2 ^ 32 \<Longrightarrow> cbv_inv (cbv_of ns) \<and> cbv_bits (cbv_of ns) = set ns"
  using cv.set_all [of "cbv_new 0" ns] cbv_inv_new [of 0] by (simp add: cbv_of_def)

definition sbv_of :: "nat list \<Rightarrow> sbv" where
  "sbv_of ns = fold (\<lambda>n s. sbv_set s n) ns sbv_new"

lemma sbv_of_spec:
  "\<forall>n \<in> set ns. n < 2 ^ 32 \<Longrightarrow> sbv_inv (sbv_of ns) \<and> sbv_bits (sbv_of ns) = set ns"
  using sv.set_all [of sbv_new ns] by (simp add: sbv_of_def)

text \<open>The hash of an empty vector and of one from which its only position was removed.\<close>

lemma cbv_hash_reset_64:
  "cbv_hash (cbv_new 0) = 0" "cbv_hash (cbv_reset (cbv_set (cbv_new 0) 64) 64) \<noteq> 0"
  by (simp_all add: cbv_hash_def cbv_new_def cbv_set_def cbv_reset_def extendTo_def u32_def
      bit_mask_def Let_def)

lemma to_int_value: "n < 2 ^ 32 \<Longrightarrow> to_int n = (if n < 2 ^ 31 then int n else int n - 2 ^ 32)"
  by (simp add: to_int_def u32_def)

end
