(* ===== verification/KeyMaps.thy ===== *)
theory KeyMaps
  imports PersistentCacheSpec
begin

text \<open>
  Containers of the points-to data structures: \<open>Map<Key, Value>\<close> as an association list
  (\<open>operator[]\<close> inserts a default value, iteration follows the list), key sets as lists
  without duplicates, counting maps keyed by points-to sets; and the operations of a points-to set
  that these structures use, as an interface that extends the one of the cache.
\<close>

section \<open>Maps with default insertion\<close>

text \<open>\<open>m[k]\<close>: its value, and the map after reading it.\<close>

definition km_get :: "'v \<Rightarrow> ('k \<times> 'v) list \<Rightarrow> 'k \<Rightarrow> 'v" where
  "km_get d m k = (case map_of m k of Some v \<Rightarrow> v | None \<Rightarrow> d)"

definition km_touch :: "'v \<Rightarrow> 'k \<Rightarrow> ('k \<times> 'v) list \<Rightarrow> ('k \<times> 'v) list" where
  "km_touch d k m = (case map_of m k of Some _ \<Rightarrow> m | None \<Rightarrow> m @ [(k, d)])"

lemma map_of_touch: "map_of (km_touch d k m) = (if map_of m k = None then (map_of m)(k \<mapsto> d) else map_of m)"
  by (auto simp: km_touch_def fun_eq_iff map_add_def split: option.splits)

lemma km_get_touch [simp]: "km_get d (km_touch d k m) = km_get d m"
  by (auto simp: km_get_def map_of_touch fun_eq_iff split: option.splits)

lemma km_get_update [simp]: "km_get d (AList.update k v m) = (km_get d m)(k := v)"
  by (auto simp: km_get_def update_conv' fun_eq_iff)

lemma km_get_Nil [simp]: "km_get d [] = (\<lambda>_. d)"
  by (simp add: km_get_def fun_eq_iff)

lemma distinct_touch [simp]: "distinct (map fst m) \<Longrightarrow> distinct (map fst (km_touch d k m))"
  by (auto simp: km_touch_def map_of_eq_None_iff split: option.splits)

lemma set_touch: "set (km_touch d k m) \<subseteq> insert (k, d) (set m)"
  by (auto simp: km_touch_def split: option.splits)

lemma km_get_cases: "km_get d m k = d \<or> km_get d m k \<in> snd ` set m"
  by (auto simp: km_get_def split: option.splits dest!: map_of_SomeD) (metis image_eqI snd_conv)

lemma km_get_mem: "distinct (map fst m) \<Longrightarrow> (k, v) \<in> set m \<Longrightarrow> km_get d m k = v"
  by (simp add: km_get_def)

lemma update_values: "snd ` set (AList.update k v m) \<subseteq> insert v (snd ` set m)"
  by (induction m) auto

lemma touch_values: "snd ` set (km_touch d k m) \<subseteq> insert d (snd ` set m)"
  using set_touch [of d k m] by force

lemma dom_update: "dom (map_of (AList.update k v m)) = insert k (dom (map_of m))"
  by (auto simp: update_conv')

lemma dom_touch: "dom (map_of (km_touch d k m)) = insert k (dom (map_of m))"
  by (auto simp: map_of_touch)

text \<open>All values of a map satisfy a predicate.\<close>

definition km_all :: "('v \<Rightarrow> bool) \<Rightarrow> ('k \<times> 'v) list \<Rightarrow> bool" where
  "km_all P m \<longleftrightarrow> (\<forall>v \<in> snd ` set m. P v)"

lemma km_all_Nil [simp]: "km_all P []"
  by (simp add: km_all_def)

lemma km_all_get: "km_all P m \<Longrightarrow> P d \<Longrightarrow> P (km_get d m k)"
  using km_get_cases [of d m k] by (auto simp: km_all_def)

lemma km_all_update: "km_all P m \<Longrightarrow> P v \<Longrightarrow> km_all P (AList.update k v m)"
  using update_values [of k v m] unfolding km_all_def by blast

lemma km_all_touch: "km_all P m \<Longrightarrow> P d \<Longrightarrow> km_all P (km_touch d k m)"
  using touch_values [of d k m] unfolding km_all_def by blast

lemma km_all_mono: "km_all P m \<Longrightarrow> (\<And>v. P v \<Longrightarrow> Q v) \<Longrightarrow> km_all Q m"
  by (auto simp: km_all_def)

text \<open>A value occurs as often as there are keys that have it.\<close>

lemma count_list_keys:
  "distinct (map fst xs) \<Longrightarrow>
   count_list (map (f \<circ> snd) xs) a = card {k \<in> dom (map_of xs). f (km_get d xs k) = a}"
proof (induction xs)
  case (Cons x xs)
  let ?S = "\<lambda>xs. {k \<in> dom (map_of xs). f (km_get d xs k) = a}"
  have n: "fst x \<notin> dom (map_of xs)" using Cons.prems by (simp add: dom_map_of_conv_image_fst)
  have s: "?S (x # xs) = (if f (snd x) = a then insert (fst x) (?S xs) else ?S xs)"
    using n by (cases x) (auto simp: km_get_def)
  have "finite (?S xs)" by (rule finite_subset [OF _ finite_dom_map_of [of xs]]) auto
  then show ?case unfolding s using Cons n by (cases x) auto
qed simp

section \<open>Key sets\<close>

text \<open>\<open>SVFUtil::insertKey\<close> and \<open>removeKey\<close>\<close>

definition insertKey :: "'k \<Rightarrow> 'k list \<Rightarrow> 'k list" where
  "insertKey k ks = List.insert k ks"

definition removeKey :: "'k \<Rightarrow> 'k list \<Rightarrow> 'k list" where
  "removeKey k ks = removeAll k ks"

lemma set_insertKey [simp]: "set (insertKey k ks) = insert k (set ks)"
  by (simp add: insertKey_def)

lemma set_removeKey [simp]: "set (removeKey k ks) = set ks - {k}"
  by (simp add: removeKey_def)

lemma keys_idem [simp]: "insertKey k (insertKey k ks) = insertKey k ks" "removeKey k (removeKey k ks) = removeKey k ks"
  by (simp_all add: insertKey_def removeKey_def)

lemma distinct_keys [simp]:
  "distinct ks \<Longrightarrow> distinct (insertKey k ks)" "distinct ks \<Longrightarrow> distinct (removeKey k ks)"
  by (simp_all add: insertKey_def removeKey_def distinct_removeAll)

section \<open>Counting points-to sets\<close>

text \<open>\<open>m[k] += n\<close> on \<open>Map<DataSet, unsigned>\<close>\<close>

definition map_bump :: "'d data_ops \<Rightarrow> 'd \<Rightarrow> nat \<Rightarrow> ('d \<times> nat) list \<Rightarrow> ('d \<times> nat) list option" where
  "map_bump ops k n m = do {
     f \<leftarrow> map_find ops k m;
     map_put ops k (u32 ((case f of None \<Rightarrow> 0 | Some v \<Rightarrow> v) + n)) m
   }"

fun count_sets :: "'d data_ops \<Rightarrow> 'd list \<Rightarrow> ('d \<times> nat) list \<Rightarrow> ('d \<times> nat) list option" where
  "count_sets ops [] m = Some m"
| "count_sets ops (d # ds) m = do { m \<leftarrow> map_bump ops d 1 m; count_sets ops ds m }"

text \<open>\<open>SVFUtil::mergePtsOccMaps\<close>\<close>

fun mergePtsOccMaps :: "'d data_ops \<Rightarrow> ('d \<times> nat) list \<Rightarrow> ('d \<times> nat) list \<Rightarrow> ('d \<times> nat) list option" where
  "mergePtsOccMaps ops to [] = Some to"
| "mergePtsOccMaps ops to ((k, n) # from) =
     do { to \<leftarrow> map_bump ops k n to; mergePtsOccMaps ops to from }"

text \<open>A counting map read as a number for every set; 0 where there is no entry.\<close>

definition occ :: "('d \<Rightarrow> 'a set) \<Rightarrow> ('d \<times> nat) list \<Rightarrow> 'a set \<Rightarrow> nat" where
  "occ els m s = (case abs_map els m s of None \<Rightarrow> 0 | Some n \<Rightarrow> n)"

text \<open>
  The map counts exactly: every set that has been seen is a key, and its value is the number of
  times, in 32 bits.
\<close>

definition counts :: "('d \<Rightarrow> 'a set) \<Rightarrow> ('d \<times> nat) list \<Rightarrow> ('a set \<Rightarrow> nat) \<Rightarrow> bool" where
  "counts els m f \<longleftrightarrow> (\<forall>s. occ els m s = u32 (f s)) \<and>
     (\<forall>s. 0 < f s \<longrightarrow> abs_map els m s \<noteq> None)"

context data_set begin

lemma map_bump_spec:
  assumes "keys_ok ok same r m" "ok k" "same r k"
  shows "\<exists>m'. map_bump ops k n m = Some m' \<and> keys_ok ok same r m' \<and>
    abs_map els m' = (abs_map els m)(els k \<mapsto> u32 (occ els m (els k) + n))"
  using map_find_spec [OF assms] map_put_spec [OF assms] by (simp add: map_bump_def occ_def)

lemma counts_bump:
  assumes "counts els m f" "abs_map els m' = (abs_map els m)(s \<mapsto> u32 (occ els m s + n))"
  shows "counts els m' (f(s := f s + n))"
  using assms u32_add_left by (auto simp: counts_def occ_def)

lemma count_sets_spec:
  assumes "\<forall>d \<in> set ds. ok d \<and> same r d" "keys_ok ok same r m" "counts els m f"
  shows "\<exists>m'. count_sets ops ds m = Some m' \<and> keys_ok ok same r m' \<and>
    counts els m' (\<lambda>s. f s + count_list (map els ds) s)"
  using assms
proof (induction ds arbitrary: m f)
  case (Cons d ds)
  obtain m1 where m1: "map_bump ops d 1 m = Some m1" "keys_ok ok same r m1"
      "abs_map els m1 = (abs_map els m)(els d \<mapsto> u32 (occ els m (els d) + 1))"
    using map_bump_spec [OF Cons.prems(2), of d 1] Cons.prems(1) by auto
  note c = counts_bump [OF Cons.prems(3) m1(3)]
  obtain m' where "count_sets ops ds m1 = Some m'" "keys_ok ok same r m'"
      "counts els m' (\<lambda>s. (f(els d := f (els d) + 1)) s + count_list (map els ds) s)"
    using Cons.IH [OF _ m1(2) c] Cons.prems(1) by auto
  moreover have "(\<lambda>s. (f(els d := f (els d) + 1)) s + count_list (map els ds) s) =
      (\<lambda>s. f s + count_list (map els (d # ds)) s)"
    by (auto simp: fun_eq_iff)
  ultimately show ?case using m1(1) by simp
qed simp

end

section \<open>The operations of a points-to set\<close>

text \<open>
  The dictionary of \<open>DataSet\<close>: what the cache uses and the point updates and assignments.
  \<open>None\<close> is a failed assertion.
\<close>

record ('d, 'e) set_ops =
  base :: "'d data_ops"
  s_set :: "'d \<Rightarrow> 'e \<Rightarrow> 'd option"
  s_reset :: "'d \<Rightarrow> 'e \<Rightarrow> 'd option"
  s_test :: "'d \<Rightarrow> 'e \<Rightarrow> (bool \<times> 'd) option"
  s_test_and_set :: "'d \<Rightarrow> 'e \<Rightarrow> (bool \<times> 'd) option"
  s_or :: "'d \<Rightarrow> 'd \<Rightarrow> (bool \<times> 'd) option"
  s_and :: "'d \<Rightarrow> 'd \<Rightarrow> (bool \<times> 'd) option"
  s_minus2 :: "'d \<Rightarrow> 'd \<Rightarrow> 'd \<Rightarrow> 'd option"
  s_assign :: "'d \<Rightarrow> 'd \<Rightarrow> 'd"
  s_clear :: "'d \<Rightarrow> 'd"
  s_empty :: "'d \<Rightarrow> bool"
  s_list :: "'d \<Rightarrow> 'e list option"

abbreviation s_new :: "('d, 'e) set_ops \<Rightarrow> 'd" where
  "s_new ops \<equiv> d_new (base ops)"

locale points_to_set = data_set "base ops" ok els same ready movable
  for ops :: "('d, 'e) set_ops" and ok :: "'d \<Rightarrow> bool" and els :: "'d \<Rightarrow> 'e set"
    and same :: "'d \<Rightarrow> 'd \<Rightarrow> bool" and ready :: bool and movable :: "'d \<Rightarrow> bool" +
  fixes valid :: "'d \<Rightarrow> 'e \<Rightarrow> bool"
  assumes valid_same: "same a b \<Longrightarrow> valid a e \<longleftrightarrow> valid b e"
    and els_valid: "ok a \<Longrightarrow> e \<in> els a \<Longrightarrow> valid a e"
    and set_law: "ok a \<Longrightarrow> valid a e \<Longrightarrow>
      \<exists>b. s_set ops a e = Some b \<and> ok b \<and> same a b \<and> els b = insert e (els a)"
    and reset_law: "ok a \<Longrightarrow> valid a e \<Longrightarrow>
      \<exists>b. s_reset ops a e = Some b \<and> ok b \<and> same a b \<and> els b = els a - {e}"
    and test_law: "ok a \<Longrightarrow> valid a e \<Longrightarrow>
      \<exists>b. s_test ops a e = Some (e \<in> els a, b) \<and> ok b \<and> same a b \<and> els b = els a"
    and test_and_set_law: "ok a \<Longrightarrow> valid a e \<Longrightarrow>
      \<exists>b. s_test_and_set ops a e = Some (e \<notin> els a, b) \<and> ok b \<and> same a b \<and> els b = insert e (els a)"
    and union_law: "ok a \<Longrightarrow> ok b \<Longrightarrow> same a b \<Longrightarrow>
      \<exists>c. s_or ops a b = Some (\<not> els b \<subseteq> els a, c) \<and> ok c \<and> same a c \<and> els c = els a \<union> els b"
    and inter_law: "ok a \<Longrightarrow> ok b \<Longrightarrow> same a b \<Longrightarrow>
      \<exists>c. s_and ops a b = Some (\<not> els a \<subseteq> els b, c) \<and> ok c \<and> same a c \<and> els c = els a \<inter> els b"
    and minus2_law: "ok a \<Longrightarrow> ok b \<Longrightarrow> ok c \<Longrightarrow> same a b \<Longrightarrow> same a c \<Longrightarrow>
      \<exists>d. s_minus2 ops a b c = Some d \<and> ok d \<and> same a d \<and> els d = els b - els c"
    and assign_law: "ok b \<Longrightarrow> ok (s_assign ops a b) \<and> same b (s_assign ops a b) \<and> els (s_assign ops a b) = els b"
    and clear_law: "ok a \<Longrightarrow> ok (s_clear ops a) \<and> same a (s_clear ops a) \<and> els (s_clear ops a) = {}"
    and empty_law: "ok a \<Longrightarrow> s_empty ops a \<longleftrightarrow> els a = {}"
    and list_law: "ok a \<Longrightarrow> \<exists>ns. s_list ops a = Some ns \<and> set ns = els a \<and> distinct ns"
begin

text \<open>A set as new ones are: usable, and made under the mapping new sets get.\<close>

definition good :: "'d \<Rightarrow> bool" where
  "good d \<longleftrightarrow> ok d \<and> same (s_new ops) d"

definition valid_new :: "'e \<Rightarrow> bool" where
  "valid_new e \<longleftrightarrow> valid (s_new ops) e"

lemma good_new: "ready \<Longrightarrow> good (s_new ops) \<and> els (s_new ops) = {}"
  using new_law same_refl by (simp add: good_def)

lemma good_same:
  assumes "good a" "good b" shows "same a b"
  by (rule same_trans [OF same_sym, of "s_new ops"]) (use assms in \<open>simp_all add: good_def\<close>)

lemma good_step:
  assumes "good a" "ok b" "same a b" shows "good b"
  using same_trans [OF _ assms(3)] assms(1,2) by (simp add: good_def)

lemma good_ok: "good a \<Longrightarrow> ok a"
  by (simp add: good_def)

lemma good_valid: "good a \<Longrightarrow> valid a e \<longleftrightarrow> valid_new e"
  using valid_same by (auto simp: good_def valid_new_def)

lemma good_els_valid: "good a \<Longrightarrow> e \<in> els a \<Longrightarrow> valid_new e"
  using els_valid good_valid by (auto simp: good_def)

lemma good_set: "good a \<Longrightarrow> valid_new e \<Longrightarrow> \<exists>b. s_set ops a e = Some b \<and> good b \<and> els b = insert e (els a)"
  using set_law [of a e] good_step good_valid [of a e] good_ok [of a] by blast

lemma good_reset: "good a \<Longrightarrow> valid_new e \<Longrightarrow> \<exists>b. s_reset ops a e = Some b \<and> good b \<and> els b = els a - {e}"
  using reset_law [of a e] good_step good_valid [of a e] good_ok [of a] by blast

lemma good_test: "good a \<Longrightarrow> valid_new e \<Longrightarrow> \<exists>b. s_test ops a e = Some (e \<in> els a, b) \<and> good b \<and> els b = els a"
  using test_law [of a e] good_step good_valid [of a e] good_ok [of a] by blast

lemma good_test_and_set:
  "good a \<Longrightarrow> valid_new e \<Longrightarrow>
    \<exists>b. s_test_and_set ops a e = Some (e \<notin> els a, b) \<and> good b \<and> els b = insert e (els a)"
  using test_and_set_law [of a e] good_step good_valid [of a e] good_ok [of a] by blast

lemma good_or:
  assumes "good a" "good b"
  shows "\<exists>c. s_or ops a b = Some (\<not> els b \<subseteq> els a, c) \<and> good c \<and> els c = els a \<union> els b"
  using union_law [OF good_ok [OF assms(1)] good_ok [OF assms(2)] good_same [OF assms]]
    good_step [OF assms(1)] by blast

lemma good_and:
  assumes "good a" "good b"
  shows "\<exists>c. s_and ops a b = Some (\<not> els a \<subseteq> els b, c) \<and> good c \<and> els c = els a \<inter> els b"
  using inter_law [OF good_ok [OF assms(1)] good_ok [OF assms(2)] good_same [OF assms]]
    good_step [OF assms(1)] by blast

lemma good_minus2:
  assumes "good a" "good b" "good c"
  shows "\<exists>d. s_minus2 ops a b c = Some d \<and> good d \<and> els d = els b - els c"
  using minus2_law [OF good_ok [OF assms(1)] good_ok [OF assms(2)] good_ok [OF assms(3)]
      good_same [OF assms(1,2)] good_same [OF assms(1,3)]] good_step [OF assms(1)] by blast

lemma good_assign: "good b \<Longrightarrow> good (s_assign ops a b) \<and> els (s_assign ops a b) = els b"
  using assign_law [of b a] good_step good_ok by blast

lemma good_clear: "good a \<Longrightarrow> good (s_clear ops a) \<and> els (s_clear ops a) = {}"
  using clear_law [of a] good_step good_ok by blast

lemma good_list: "good a \<Longrightarrow> \<exists>ns. s_list ops a = Some ns \<and> set ns = els a \<and> distinct ns"
  using list_law good_ok by blast

lemma good_empty: "good a \<Longrightarrow> s_empty ops a \<longleftrightarrow> els a = {}"
  using empty_law good_ok by blast

end

section \<open>Sparse points-to sets offer them\<close>

text \<open>A set made under the static members \<open>g\<close>, and the nodes it may hold.\<close>

definition pt_good :: "pt_globals \<Rightarrow> points_to \<Rightarrow> bool" where
  "pt_good g d \<longleftrightarrow> pt_sparse d \<and> pt_same (pt_new g) d"

definition pt_node_ok :: "pt_globals \<Rightarrow> NodeID \<Rightarrow> bool" where
  "pt_node_ok g n \<longleftrightarrow> pt_valid (pt_new g) n"

definition pt_set_ops :: "(64 word \<Rightarrow> 64 word) \<Rightarrow> pt_globals \<Rightarrow> (points_to, NodeID) set_ops" where
  "pt_set_ops h g = \<lparr>base = pt_ops h g, s_set = pt_set, s_reset = pt_reset, s_test = pt_test,
     s_test_and_set = pt_test_and_set, s_or = pt_or_assign, s_and = pt_and_assign,
     s_minus2 = pt_intersectWithComplement2, s_assign = pt_assign, s_clear = pt_clear,
     s_empty = pt_empty, s_list = pt_list\<rparr>"

lemma pt_sparse_inv: "pt_sparse a \<Longrightarrow> pt_inv a"
  by (simp add: pt_sparse_def)

lemma pt_assign_spec:
  assumes "pt_sparse b"
  shows "pt_sparse (pt_assign a b) \<and> pt_same b (pt_assign a b) \<and> pt_nodes (pt_assign a b) = pt_nodes b"
proof -
  have e: "pt_assign a b = pt_copy b" by (simp add: pt_assign_def pt_copy_def)
  note c = pt_copy_spec [of b]
  show ?thesis unfolding e using c pt_sparse_step [OF assms c(1) c(3)] pt_sparse_inv [OF assms] by simp
qed

lemma pt_sparse_points:
  assumes a: "pt_sparse a" and e: "pt_valid a e"
  shows "\<exists>b. pt_set a e = Some b \<and> pt_sparse b \<and> pt_same a b \<and> pt_nodes b = insert e (pt_nodes a)"
    "\<exists>b. pt_reset a e = Some b \<and> pt_sparse b \<and> pt_same a b \<and> pt_nodes b = pt_nodes a - {e}"
    "\<exists>b. pt_test a e = Some (e \<in> pt_nodes a, b) \<and> pt_sparse b \<and> pt_same a b \<and> pt_nodes b = pt_nodes a"
    "\<exists>b. pt_test_and_set a e = Some (e \<notin> pt_nodes a, b) \<and> pt_sparse b \<and> pt_same a b \<and>
       pt_nodes b = insert e (pt_nodes a)"
proof -
  note i = pt_sparse_inv [OF a] and st = pt_sparse_step [OF a]
  show "\<exists>b. pt_set a e = Some b \<and> pt_sparse b \<and> pt_same a b \<and> pt_nodes b = insert e (pt_nodes a)"
    by (rule pt_set_spec [OF i e]) (use st in blast)
  show "\<exists>b. pt_reset a e = Some b \<and> pt_sparse b \<and> pt_same a b \<and> pt_nodes b = pt_nodes a - {e}"
    by (rule pt_reset_spec [OF i e]) (use st in blast)
  show "\<exists>b. pt_test a e = Some (e \<in> pt_nodes a, b) \<and> pt_sparse b \<and> pt_same a b \<and> pt_nodes b = pt_nodes a"
    by (rule pt_test_spec [OF i e]) (use st in blast)
  show "\<exists>b. pt_test_and_set a e = Some (e \<notin> pt_nodes a, b) \<and> pt_sparse b \<and> pt_same a b \<and>
       pt_nodes b = insert e (pt_nodes a)"
    by (rule pt_test_and_set_spec [OF i e]) (use st in blast)
qed

lemma pt_sparse_pairs:
  assumes "pt_sparse a" "pt_sparse b" "pt_same a b"
  shows "\<exists>c. pt_or_assign a b = Some (\<not> pt_nodes b \<subseteq> pt_nodes a, c) \<and> pt_sparse c \<and> pt_same a c \<and>
      pt_nodes c = pt_nodes a \<union> pt_nodes b"
    "\<exists>c. pt_and_assign a b = Some (\<not> pt_nodes a \<subseteq> pt_nodes b, c) \<and> pt_sparse c \<and> pt_same a c \<and>
      pt_nodes c = pt_nodes a \<inter> pt_nodes b"
proof -
  note i = pt_sparse_inv [OF assms(1)] pt_sparse_inv [OF assms(2)] and st = pt_sparse_step [OF assms(1)]
  have x: "pt_exact a" using assms(1) by (cases "backing a") (auto simp: pt_exact_def pt_sparse_def)
  obtain ch c where c: "pt_or_assign a b = Some (ch, c)" "pt_inv c" "pt_same a c"
      "pt_nodes c = pt_nodes a \<union> pt_nodes b" "ch \<longleftrightarrow> pt_nodes c \<noteq> pt_nodes a"
    by (rule pt_or_assign_spec [OF i assms(3)]) (use x in blast)
  have "ch \<longleftrightarrow> \<not> pt_nodes b \<subseteq> pt_nodes a" using c(4,5) by blast
  then show "\<exists>c. pt_or_assign a b = Some (\<not> pt_nodes b \<subseteq> pt_nodes a, c) \<and> pt_sparse c \<and> pt_same a c \<and>
      pt_nodes c = pt_nodes a \<union> pt_nodes b"
    using c st by blast
  obtain d where d: "pt_and_assign a b = Some (pt_nodes d \<noteq> pt_nodes a, d)" "pt_inv d" "pt_same a d"
      "pt_nodes d = pt_nodes a \<inter> pt_nodes b"
    by (rule pt_and_assign_spec [OF i assms(3)])
  have "pt_nodes d \<noteq> pt_nodes a \<longleftrightarrow> \<not> pt_nodes a \<subseteq> pt_nodes b" using d(4) by blast
  then show "\<exists>c. pt_and_assign a b = Some (\<not> pt_nodes a \<subseteq> pt_nodes b, c) \<and> pt_sparse c \<and> pt_same a c \<and>
      pt_nodes c = pt_nodes a \<inter> pt_nodes b"
    using d(1,4) st [OF d(2,3)] d(3) by (intro exI [of _ d]) simp
qed

lemma pt_sparse_minus2:
  assumes "pt_sparse a" "pt_sparse b" "pt_sparse c" "pt_same a b" "pt_same a c"
  shows "\<exists>d. pt_intersectWithComplement2 a b c = Some d \<and> pt_sparse d \<and> pt_same a d \<and>
    pt_nodes d = pt_nodes b - pt_nodes c"
  by (rule pt_minus2_spec [OF pt_sparse_inv [OF assms(1)] pt_sparse_inv [OF assms(2)]
        pt_sparse_inv [OF assms(3)] assms(4,5)])
    (use pt_sparse_step [OF assms(1)] in blast)

interpretation ps: points_to_set "pt_set_ops h g" pt_sparse pt_nodes pt_same "globals_ready g"
  "pt_movable g" pt_valid
  for h g
proof -
  have b: "base (pt_set_ops h g) = pt_ops h g" by (simp add: pt_set_ops_def)
  show "points_to_set (pt_set_ops h g) pt_sparse pt_nodes pt_same (globals_ready g) (pt_movable g) pt_valid"
  proof (intro points_to_set.intro points_to_set_axioms.intro, goal_cases)
    case 1
    show ?case unfolding b by (rule pc.data_set_axioms)
  next
    case (2 a b e)
    then show ?case by (simp add: pt_valid_def pt_same_def)
  next
    case (3 a e)
    then show ?case by (simp add: pt_nodes_valid pt_sparse_def)
  next
    case (4 a e)
    then show ?case using pt_sparse_points(1) by (simp add: pt_set_ops_def)
  next
    case (5 a e)
    then show ?case using pt_sparse_points(2) by (simp add: pt_set_ops_def)
  next
    case (6 a e)
    then show ?case using pt_sparse_points(3) by (simp add: pt_set_ops_def)
  next
    case (7 a e)
    then show ?case using pt_sparse_points(4) by (simp add: pt_set_ops_def)
  next
    case (8 a b)
    show ?case using pt_sparse_pairs(1) [OF 8] by (simp add: pt_set_ops_def)
  next
    case (9 a b)
    show ?case using pt_sparse_pairs(2) [OF 9] by (simp add: pt_set_ops_def)
  next
    case (10 a b c)
    show ?case using pt_sparse_minus2 [OF 10] by (simp add: pt_set_ops_def)
  next
    case (11 b a)
    show ?case using pt_assign_spec [OF 11] by (simp add: pt_set_ops_def)
  next
    case (12 a)
    note c = pt_clear_spec [OF pt_sparse_inv [OF 12]]
    show ?case using pt_sparse_step [OF 12 c(1,3)] c(2,3) by (simp add: pt_set_ops_def)
  next
    case (13 a)
    then show ?case by (simp add: pt_set_ops_def pt_empty_spec pt_sparse_inv)
  next
    case (14 a)
    show ?case using pt_list_spec(2) [OF pt_sparse_inv [OF 14]] by (simp add: pt_set_ops_def)
  qed
qed

lemma pt_set_new: "s_new (pt_set_ops h g) = pt_new g"
  by (simp add: pt_set_ops_def pt_ops_def)

lemma ps_good: "ps.good h g = pt_good g" "ps.valid_new h g = pt_node_ok g"
  by (simp_all add: fun_eq_iff ps.good_def ps.valid_new_def pt_good_def pt_node_ok_def pt_set_new)

end
