(* ===== verification/PTData.thy ===== *)
theory PTData
  imports KeyMaps
begin

text \<open>
  The abstract points-to data structures of svf/include/MemoryModel/AbstractPointsToDS.h. What
  \<open>PTData\<close> promises is a map from keys to sets and a step function on it; the locale
  \<open>pt_data\<close> states that an implementation follows the steps, with the flags they return,
  and that its reverse sets are the inverse of the map. The type tags and the \<open>classof\<close>
  tests of all its subclasses are here as well.
\<close>

section \<open>Type tags\<close>

datatype PTDataTy = TyBase | TyMutBase | TyDiff | TyMutDiff | TyDataFlow | TyMutDataFlow
  | TyMutIncDataFlow | TyVersioned | TyMutVersioned | TyPersBase | TyPersDiff | TyPersDataFlow
  | TyPersIncDataFlow | TyPersVersioned

text \<open>The classes, with the tag their constructor takes by default.\<close>

datatype ptd_class = MutPT | MutDiffPT | MutDFPT | MutIncDFPT | MutVersionedPT
  | PersPT | PersDiffPT | PersDFPT | PersIncDFPT | PersVersionedPT

fun default_tag :: "ptd_class \<Rightarrow> PTDataTy" where
  "default_tag MutPT = TyMutBase"
| "default_tag MutDiffPT = TyDiff"
| "default_tag MutDFPT = TyMutDataFlow"
| "default_tag MutIncDFPT = TyMutIncDataFlow"
| "default_tag MutVersionedPT = TyMutVersioned"
| "default_tag PersPT = TyPersBase"
| "default_tag PersDiffPT = TyPersDiff"
| "default_tag PersDFPT = TyPersDataFlow"
| "default_tag PersIncDFPT = TyPersIncDataFlow"
| "default_tag PersVersionedPT = TyPersVersioned"

fun classof :: "ptd_class \<Rightarrow> PTDataTy \<Rightarrow> bool" where
  "classof MutPT t \<longleftrightarrow> t = TyMutBase"
| "classof MutDiffPT t \<longleftrightarrow> t = TyMutDiff"
| "classof MutDFPT t \<longleftrightarrow> t = TyMutDataFlow \<or> t = TyMutIncDataFlow"
| "classof MutIncDFPT t \<longleftrightarrow> t = TyMutIncDataFlow"
| "classof MutVersionedPT t \<longleftrightarrow> t = TyMutVersioned"
| "classof PersPT t \<longleftrightarrow> t = TyPersBase"
| "classof PersDiffPT t \<longleftrightarrow> t = TyPersDiff"
| "classof PersDFPT t \<longleftrightarrow> t = TyPersDataFlow \<or> t = TyPersIncDataFlow"
| "classof PersIncDFPT t \<longleftrightarrow> t = TyPersIncDataFlow"
| "classof PersVersionedPT t \<longleftrightarrow> t = TyPersVersioned"

definition diff_classof :: "PTDataTy \<Rightarrow> bool" where
  "diff_classof t \<longleftrightarrow> t = TyDiff \<or> t = TyMutDiff \<or> t = TyPersDiff"

definition df_classof :: "PTDataTy \<Rightarrow> bool" where
  "df_classof t \<longleftrightarrow> t = TyDataFlow \<or> t = TyMutDataFlow \<or> t = TyMutIncDataFlow \<or>
     t = TyPersDataFlow \<or> t = TyPersIncDataFlow"

definition versioned_classof :: "PTDataTy \<Rightarrow> bool" where
  "versioned_classof t \<longleftrightarrow> t = TyVersioned \<or> t = TyMutVersioned \<or> t = TyPersVersioned"

section \<open>What the operations mean\<close>

datatype ('k, 'e) pt_op = AddPts 'k 'e | UnionPts 'k 'k | ClearPts 'k 'e | ClearFullPts 'k

text \<open>The returned flag (\<open>False\<close> where the operation returns nothing) and the new map.\<close>

fun spec_step :: "('k, 'e) pt_op \<Rightarrow> ('k \<Rightarrow> 'e set) \<Rightarrow> bool \<times> ('k \<Rightarrow> 'e set)" where
  "spec_step (AddPts k e) p = (e \<notin> p k, p(k := insert e (p k)))"
| "spec_step (UnionPts d s) p = (\<not> p s \<subseteq> p d, p(d := p d \<union> p s))"
| "spec_step (ClearPts k e) p = (False, p(k := p k - {e}))"
| "spec_step (ClearFullPts k) p = (False, p(k := {}))"

fun spec_run :: "('k, 'e) pt_op list \<Rightarrow> ('k \<Rightarrow> 'e set) \<Rightarrow> bool list \<times> ('k \<Rightarrow> 'e set)" where
  "spec_run [] p = ([], p)"
| "spec_run (x # xs) p =
     (let (b, p) = spec_step x p; (bs, p) = spec_run xs p in (b # bs, p))"

fun op_element :: "('k, 'e) pt_op \<Rightarrow> 'e option" where
  "op_element (AddPts k e) = Some e"
| "op_element (ClearPts k e) = Some e"
| "op_element _ = None"

definition elements_valid :: "('e \<Rightarrow> bool) \<Rightarrow> ('k, 'e) pt_op list \<Rightarrow> bool" where
  "elements_valid valid xs \<longleftrightarrow> (\<forall>x \<in> set xs. \<forall>e. op_element x = Some e \<longrightarrow> valid e)"

text \<open>An implementation runs a sequence of operations and collects the flags.\<close>

record ('s, 'k, 'e) ptd_ops =
  o_addPts :: "'s \<Rightarrow> 'k \<Rightarrow> 'e \<Rightarrow> (bool \<times> 's) option"
  o_unionPts :: "'s \<Rightarrow> 'k \<Rightarrow> 'k \<Rightarrow> (bool \<times> 's) option"
  o_clearPts :: "'s \<Rightarrow> 'k \<Rightarrow> 'e \<Rightarrow> 's option"
  o_clearFullPts :: "'s \<Rightarrow> 'k \<Rightarrow> 's option"

fun impl_step :: "('s, 'k, 'e) ptd_ops \<Rightarrow> ('k, 'e) pt_op \<Rightarrow> 's \<Rightarrow> (bool \<times> 's) option" where
  "impl_step I (AddPts k e) s = o_addPts I s k e"
| "impl_step I (UnionPts d src) s = o_unionPts I s d src"
| "impl_step I (ClearPts k e) s = map_option (Pair False) (o_clearPts I s k e)"
| "impl_step I (ClearFullPts k) s = map_option (Pair False) (o_clearFullPts I s k)"

fun impl_run :: "('s, 'k, 'e) ptd_ops \<Rightarrow> ('k, 'e) pt_op list \<Rightarrow> 's \<Rightarrow> (bool list \<times> 's) option" where
  "impl_run I [] s = Some ([], s)"
| "impl_run I (x # xs) s = do {
     (b, s) \<leftarrow> impl_step I x s;
     (bs, s) \<leftarrow> impl_run I xs s;
     Some (b # bs, s)
   }"

text \<open>The unions for a list of copy edges, each from a source key to a target key.\<close>

definition copy_ops :: "('k \<times> 'k) list \<Rightarrow> ('k, 'e) pt_op list" where
  "copy_ops es = map (\<lambda>(l, k). UnionPts k l) es"

lemma spec_copies:
  "((\<forall>b \<in> set (fst (spec_run (copy_ops es) p)). \<not> b) \<longleftrightarrow> (\<forall>(l, k) \<in> set es. p l \<subseteq> p k)) \<and>
   ((\<forall>b \<in> set (fst (spec_run (copy_ops es) p)). \<not> b) \<longrightarrow> snd (spec_run (copy_ops es) p) = p)"
proof (induction es)
  case (Cons e es)
  have "p(b := p b \<union> p a) = p" if "p a \<subseteq> p b" for a b using that by (auto simp: fun_eq_iff)
  then show ?case using Cons by (auto simp: copy_ops_def split_def Let_def)
qed (simp add: copy_ops_def)

section \<open>The contract\<close>

text \<open>
  \<open>pts s\<close> is the map a state stands for, \<open>room s n\<close> that \<open>n\<close> more
  operations cannot exhaust a bounded resource, \<open>ext s s'\<close> that what was shared with
  others in \<open>s\<close> is still valid in \<open>s'\<close>, \<open>view d\<close> the elements of a returned set.
\<close>

locale pt_data =
  fixes I :: "('s, 'k, 'e) ptd_ops"
    and getPts :: "'s \<Rightarrow> 'k \<Rightarrow> ('d \<times> 's) option" and getRevPts :: "'s \<Rightarrow> 'e \<Rightarrow> ('k list \<times> 's) option"
    and unionSet :: "'s \<Rightarrow> 'k \<Rightarrow> 'd \<Rightarrow> (bool \<times> 's) option"
    and inv :: "'s \<Rightarrow> bool" and pts :: "'s \<Rightarrow> 'k \<Rightarrow> 'e set" and room :: "'s \<Rightarrow> nat \<Rightarrow> bool"
    and ext :: "'s \<Rightarrow> 's \<Rightarrow> bool"
    and has_rev :: "'s \<Rightarrow> bool" and valid :: "'e \<Rightarrow> bool" and good :: "'d \<Rightarrow> bool" and view :: "'d \<Rightarrow> 'e set"
  assumes add_law: "inv s \<Longrightarrow> room s (Suc n) \<Longrightarrow> valid e \<Longrightarrow>
      \<exists>s'. o_addPts I s k e = Some (e \<notin> pts s k, s') \<and> inv s' \<and> ext s s' \<and> room s' n \<and> has_rev s' = has_rev s \<and>
        pts s' = (pts s)(k := insert e (pts s k))"
    and union_law: "inv s \<Longrightarrow> room s (Suc n) \<Longrightarrow>
      \<exists>s'. o_unionPts I s k l = Some (\<not> pts s l \<subseteq> pts s k, s') \<and> inv s' \<and> ext s s' \<and> room s' n \<and>
        has_rev s' = has_rev s \<and> pts s' = (pts s)(k := pts s k \<union> pts s l)"
    and union_set_law: "inv s \<Longrightarrow> room s (Suc n) \<Longrightarrow> good d \<Longrightarrow>
      \<exists>s'. unionSet s k d = Some (\<not> view d \<subseteq> pts s k, s') \<and> inv s' \<and> ext s s' \<and> room s' n \<and>
        has_rev s' = has_rev s \<and> pts s' = (pts s)(k := pts s k \<union> view d)"
    and clear_law: "inv s \<Longrightarrow> room s (Suc n) \<Longrightarrow> valid e \<Longrightarrow>
      \<exists>s'. o_clearPts I s k e = Some s' \<and> inv s' \<and> ext s s' \<and> room s' n \<and> has_rev s' = has_rev s \<and>
        pts s' = (pts s)(k := pts s k - {e})"
    and clear_full_law: "inv s \<Longrightarrow> room s (Suc n) \<Longrightarrow>
      \<exists>s'. o_clearFullPts I s k = Some s' \<and> inv s' \<and> ext s s' \<and> room s' n \<and> has_rev s' = has_rev s \<and>
        pts s' = (pts s)(k := {})"
    and get_law: "inv s \<Longrightarrow>
      \<exists>d s'. getPts s k = Some (d, s') \<and> good d \<and> view d = pts s k \<and> inv s' \<and> ext s s' \<and> pts s' = pts s \<and>
        has_rev s' = has_rev s \<and> (\<forall>n. room s n \<longrightarrow> room s' n)"
    and rev_law: "inv s \<Longrightarrow> has_rev s \<Longrightarrow>
      \<exists>ks s'. getRevPts s e = Some (ks, s') \<and> set ks = {k. e \<in> pts s k} \<and> distinct ks \<and>
        inv s' \<and> ext s s' \<and> pts s' = pts s \<and> has_rev s' = has_rev s"
    and no_rev_law: "\<not> has_rev s \<Longrightarrow> getRevPts s e = None"
begin

lemma step_spec:
  assumes "inv s" "room s (Suc n)" "\<forall>e. op_element x = Some e \<longrightarrow> valid e"
  shows "\<exists>s'. impl_step I x s = Some (fst (spec_step x (pts s)), s') \<and> inv s' \<and> room s' n \<and>
    has_rev s' = has_rev s \<and> pts s' = snd (spec_step x (pts s))"
proof (cases x)
  case (AddPts k e)
  then show ?thesis using add_law [OF assms(1,2), of e k] assms(3) by auto
next
  case (UnionPts k l)
  then show ?thesis using union_law [OF assms(1,2), of k l] by auto
next
  case (ClearPts k e)
  then show ?thesis using clear_law [OF assms(1,2), of e k] assms(3) by auto
next
  case (ClearFullPts k)
  then show ?thesis using clear_full_law [OF assms(1,2), of k] by auto
qed

text \<open>Any sequence of operations returns the flags of the specification and ends in its map.\<close>

lemma run_spec:
  assumes "inv s" "room s (length xs)" "elements_valid valid xs"
  shows "\<exists>s'. impl_run I xs s = Some (fst (spec_run xs (pts s)), s') \<and> inv s' \<and>
    has_rev s' = has_rev s \<and> pts s' = snd (spec_run xs (pts s))"
  using assms
proof (induction xs arbitrary: s)
  case (Cons x xs)
  have v: "\<forall>e. op_element x = Some e \<longrightarrow> valid e" "elements_valid valid xs"
    using Cons.prems(3) by (auto simp: elements_valid_def)
  obtain t where t: "impl_step I x s = Some (fst (spec_step x (pts s)), t)" "inv t" "room t (length xs)"
      "has_rev t = has_rev s" "pts t = snd (spec_step x (pts s))"
    using step_spec [of s "length xs" x] Cons.prems(1,2) v(1) by auto
  obtain u where "impl_run I xs t = Some (fst (spec_run xs (pts t)), u)" "inv u"
      "has_rev u = has_rev t" "pts u = snd (spec_run xs (pts t))"
    using Cons.IH [OF t(2,3) v(2)] by blast
  then show ?case using t by (auto simp: split_def Let_def)
qed simp

text \<open>
  The loop every solver ends with: apply all copy edges once. No flag is set iff the map was closed
  under the edges, and then it has not changed.
\<close>

lemma copies_closed:
  assumes "inv s" "room s (length es)"
  shows "\<exists>bs s'. impl_run I (copy_ops es) s = Some (bs, s') \<and>
    ((\<forall>b \<in> set bs. \<not> b) \<longleftrightarrow> (\<forall>(l, k) \<in> set es. pts s l \<subseteq> pts s k)) \<and>
    ((\<forall>b \<in> set bs. \<not> b) \<longrightarrow> pts s' = pts s)"
proof -
  have v: "elements_valid valid (copy_ops es)" by (auto simp: elements_valid_def copy_ops_def)
  have l: "room s (length (copy_ops es))" using assms(2) by (simp add: copy_ops_def)
  obtain s' where "impl_run I (copy_ops es) s = Some (fst (spec_run (copy_ops es) (pts s)), s')"
      "pts s' = snd (spec_run (copy_ops es) (pts s))"
    using run_spec [OF assms(1) l v] by blast
  then show ?thesis using spec_copies [of es "pts s"] by simp
qed

end

section \<open>Structures built around another one\<close>

text \<open>
  The difference and data-flow structures keep a basic structure as a member and hand the basic
  operations on to it.
\<close>

definition lift_op :: "('t \<Rightarrow> 's) \<Rightarrow> ('s \<Rightarrow> 't \<Rightarrow> 't) \<Rightarrow> ('s \<Rightarrow> ('a \<times> 's) option) \<Rightarrow> 't \<Rightarrow> ('a \<times> 't) option" where
  "lift_op get put f t = map_option (\<lambda>(a, s). (a, put s t)) (f (get t))"

definition lift_update :: "('t \<Rightarrow> 's) \<Rightarrow> ('s \<Rightarrow> 't \<Rightarrow> 't) \<Rightarrow> ('s \<Rightarrow> 's option) \<Rightarrow> 't \<Rightarrow> 't option" where
  "lift_update get put f t = map_option (\<lambda>s. put s t) (f (get t))"

definition lift_ops :: "('t \<Rightarrow> 's) \<Rightarrow> ('s \<Rightarrow> 't \<Rightarrow> 't) \<Rightarrow> ('s, 'k, 'e) ptd_ops \<Rightarrow> ('t, 'k, 'e) ptd_ops" where
  "lift_ops get put I =
     \<lparr>o_addPts = \<lambda>t k e. lift_op get put (\<lambda>s. o_addPts I s k e) t,
      o_unionPts = \<lambda>t k l. lift_op get put (\<lambda>s. o_unionPts I s k l) t,
      o_clearPts = \<lambda>t k e. lift_update get put (\<lambda>s. o_clearPts I s k e) t,
      o_clearFullPts = \<lambda>t k. lift_update get put (\<lambda>s. o_clearFullPts I s k) t\<rparr>"

locale pt_data_part = pt_data I getPts getRevPts unionSet inv pts room ext has_rev valid good view
  for I :: "('s, 'k, 'e) ptd_ops" and getPts :: "'s \<Rightarrow> 'k \<Rightarrow> ('d \<times> 's) option"
    and getRevPts :: "'s \<Rightarrow> 'e \<Rightarrow> ('k list \<times> 's) option" and unionSet :: "'s \<Rightarrow> 'k \<Rightarrow> 'd \<Rightarrow> (bool \<times> 's) option"
    and inv pts room ext has_rev valid good view +
  fixes get :: "'t \<Rightarrow> 's" and put :: "'s \<Rightarrow> 't \<Rightarrow> 't" and other :: "'t \<Rightarrow> bool" and kept :: "'t \<Rightarrow> 't \<Rightarrow> bool"
  assumes get_put: "get (put s t) = s"
    and other_put: "inv (get t) \<Longrightarrow> other t \<Longrightarrow> inv s \<Longrightarrow> ext (get t) s \<Longrightarrow> other (put s t) \<and> kept t (put s t)"

sublocale pt_data_part \<subseteq> lifted: pt_data "lift_ops get put I" "\<lambda>t k. lift_op get put (\<lambda>s. getPts s k) t"
  "\<lambda>t e. lift_op get put (\<lambda>s. getRevPts s e) t" "\<lambda>t k d. lift_op get put (\<lambda>s. unionSet s k d) t"
  "\<lambda>t. inv (get t) \<and> other t" "\<lambda>t. pts (get t)" "\<lambda>t. room (get t)" kept "\<lambda>t. has_rev (get t)" valid good view
proof (unfold_locales, goal_cases)
  case (1 t n e k)
  then show ?case using add_law [of "get t" n e k] other_put
    by (fastforce simp: lift_ops_def lift_op_def get_put)
next
  case (2 t n k l)
  then show ?case using union_law [of "get t" n k l] other_put
    by (fastforce simp: lift_ops_def lift_op_def get_put)
next
  case (3 t n d k)
  then show ?case using union_set_law [of "get t" n d k] other_put by (fastforce simp: lift_op_def get_put)
next
  case (4 t n e k)
  then show ?case using clear_law [of "get t" n e k] other_put
    by (fastforce simp: lift_ops_def lift_update_def get_put)
next
  case (5 t n k)
  then show ?case using clear_full_law [of "get t" n k] other_put
    by (fastforce simp: lift_ops_def lift_update_def get_put)
next
  case (6 t k)
  then show ?case using get_law [of "get t" k] other_put by (fastforce simp: lift_op_def get_put)
next
  case (7 t e)
  then show ?case using rev_law [of "get t" e] other_put by (fastforce simp: lift_op_def get_put)
next
  case (8 t e)
  then show ?case using no_rev_law by (simp add: lift_op_def)
qed

end
