(* ===== verification/MutablePT.thy ===== *)
theory MutablePT
  imports PTData
begin

text \<open>
  \<open>MutablePTData\<close> and \<open>MutableVersionedPTData\<close>
  (svf/include/MemoryModel/MutablePointsToDS.h): every key owns a points-to set which is updated in
  place; reverse sets are kept on demand. \<open>None\<close> is a failed assertion.
\<close>

section \<open>State and operations\<close>

record ('k, 'd, 'e) mpt =
  m_rev :: bool
  m_pts :: "('k \<times> 'd) list"
  m_revPts :: "('e \<times> 'k list) list"

definition mpt_new :: "bool \<Rightarrow> ('k, 'd, 'e) mpt" where
  "mpt_new reversePT = \<lparr>m_rev = reversePT, m_pts = [], m_revPts = []\<rparr>"

definition mpt_clear :: "('k, 'd, 'e) mpt \<Rightarrow> ('k, 'd, 'e) mpt" where
  "mpt_clear s = s\<lparr>m_pts := [], m_revPts := []\<rparr>"

definition mpt_getPts :: "('d, 'e) set_ops \<Rightarrow> ('k, 'd, 'e) mpt \<Rightarrow> 'k \<Rightarrow> 'd \<times> ('k, 'd, 'e) mpt" where
  "mpt_getPts ops s k =
     (km_get (s_new ops) (m_pts s) k, s\<lparr>m_pts := km_touch (s_new ops) k (m_pts s)\<rparr>)"

definition mpt_getRevPts :: "('k, 'd, 'e) mpt \<Rightarrow> 'e \<Rightarrow> ('k list \<times> ('k, 'd, 'e) mpt) option" where
  "mpt_getRevPts s e =
     (if m_rev s then Some (km_get [] (m_revPts s) e, s\<lparr>m_revPts := km_touch [] e (m_revPts s)\<rparr>)
      else None)"

text \<open>The helpers on reverse sets; \<open>revPtsMap[e]\<close> exists afterwards in any case.\<close>

definition addSingleRevPts :: "bool \<Rightarrow> 'k \<Rightarrow> 'k list \<Rightarrow> 'k list" where
  "addSingleRevPts r tgr ks = (if r then insertKey tgr ks else ks)"

definition clearSingleRevPts :: "bool \<Rightarrow> 'k \<Rightarrow> 'k list \<Rightarrow> 'k list" where
  "clearSingleRevPts r k ks = (if r then removeKey k ks else ks)"

definition rev_update :: "('k list \<Rightarrow> 'k list) \<Rightarrow> 'e \<Rightarrow> ('e \<times> 'k list) list \<Rightarrow> ('e \<times> 'k list) list" where
  "rev_update f e m = AList.update e (f (km_get [] m e)) m"

definition addRevPts :: "('d, 'e) set_ops \<Rightarrow> bool \<Rightarrow> 'd \<Rightarrow> 'k \<Rightarrow> ('e \<times> 'k list) list \<Rightarrow>
    ('e \<times> 'k list) list option" where
  "addRevPts ops r ptsData tgr m =
     (if r then map_option (\<lambda>es. fold (rev_update (addSingleRevPts r tgr)) es m) (s_list ops ptsData)
      else Some m)"

definition clearRevPts :: "('d, 'e) set_ops \<Rightarrow> bool \<Rightarrow> 'd \<Rightarrow> 'k \<Rightarrow> ('e \<times> 'k list) list \<Rightarrow>
    ('e \<times> 'k list) list option" where
  "clearRevPts ops r pts k m =
     (if r then map_option (\<lambda>es. fold (rev_update (clearSingleRevPts r k)) es m) (s_list ops pts)
      else Some m)"

definition mpt_addPts :: "('d, 'e) set_ops \<Rightarrow> ('k, 'd, 'e) mpt \<Rightarrow> 'k \<Rightarrow> 'e \<Rightarrow>
    (bool \<times> ('k, 'd, 'e) mpt) option" where
  "mpt_addPts ops s dstKey element = do {
     let s = s\<lparr>m_revPts := rev_update (addSingleRevPts (m_rev s) dstKey) element (m_revPts s)\<rparr>;
     (ch, d) \<leftarrow> s_test_and_set ops (km_get (s_new ops) (m_pts s) dstKey) element;
     Some (ch, s\<lparr>m_pts := AList.update dstKey d (m_pts s)\<rparr>)
   }"

definition mpt_unionSet :: "('d, 'e) set_ops \<Rightarrow> ('k, 'd, 'e) mpt \<Rightarrow> 'k \<Rightarrow> 'd \<Rightarrow>
    (bool \<times> ('k, 'd, 'e) mpt) option" where
  "mpt_unionSet ops s dstKey srcDataSet = do {
     m \<leftarrow> addRevPts ops (m_rev s) srcDataSet dstKey (m_revPts s);
     let s = s\<lparr>m_revPts := m\<rparr>;
     (ch, d) \<leftarrow> s_or ops (km_get (s_new ops) (m_pts s) dstKey) srcDataSet;
     Some (ch, s\<lparr>m_pts := AList.update dstKey d (m_pts s)\<rparr>)
   }"

definition mpt_unionPts :: "('d, 'e) set_ops \<Rightarrow> ('k, 'd, 'e) mpt \<Rightarrow> 'k \<Rightarrow> 'k \<Rightarrow>
    (bool \<times> ('k, 'd, 'e) mpt) option" where
  "mpt_unionPts ops s dstKey srcKey = do {
     let s = s\<lparr>m_pts := km_touch (s_new ops) srcKey (m_pts s)\<rparr>;
     m \<leftarrow> addRevPts ops (m_rev s) (km_get (s_new ops) (m_pts s) srcKey) dstKey (m_revPts s);
     let s = s\<lparr>m_revPts := m\<rparr>;
     let (src, s) = mpt_getPts ops s srcKey;
     (ch, d) \<leftarrow> s_or ops (km_get (s_new ops) (m_pts s) dstKey) src;
     Some (ch, s\<lparr>m_pts := AList.update dstKey d (m_pts s)\<rparr>)
   }"

definition mpt_clearPts :: "('d, 'e) set_ops \<Rightarrow> ('k, 'd, 'e) mpt \<Rightarrow> 'k \<Rightarrow> 'e \<Rightarrow>
    ('k, 'd, 'e) mpt option" where
  "mpt_clearPts ops s var element = do {
     let s = s\<lparr>m_revPts := rev_update (clearSingleRevPts (m_rev s) var) element (m_revPts s)\<rparr>;
     d \<leftarrow> s_reset ops (km_get (s_new ops) (m_pts s) var) element;
     Some (s\<lparr>m_pts := AList.update var d (m_pts s)\<rparr>)
   }"

definition mpt_clearFullPts :: "('d, 'e) set_ops \<Rightarrow> ('k, 'd, 'e) mpt \<Rightarrow> 'k \<Rightarrow>
    ('k, 'd, 'e) mpt option" where
  "mpt_clearFullPts ops s var = do {
     let pts = km_get (s_new ops) (m_pts s) var;
     m \<leftarrow> clearRevPts ops (m_rev s) pts var (m_revPts s);
     Some (s\<lparr>m_revPts := m, m_pts := AList.update var (s_clear ops pts) (m_pts s)\<rparr>)
   }"

text \<open>Remapping every set of a map in place.\<close>

fun remap_values :: "('d, 'e) set_ops \<Rightarrow> ('k \<times> 'd) list \<Rightarrow> ('k \<times> 'd) list option" where
  "remap_values ops [] = Some []"
| "remap_values ops ((k, d) # m) = do {
     d \<leftarrow> d_remap (base ops) d;
     m \<leftarrow> remap_values ops m;
     Some ((k, d) # m)
   }"

definition mpt_remapAllPts :: "('d, 'e) set_ops \<Rightarrow> ('k, 'd, 'e) mpt \<Rightarrow> ('k, 'd, 'e) mpt option" where
  "mpt_remapAllPts ops s = map_option (\<lambda>m. s\<lparr>m_pts := m\<rparr>) (remap_values ops (m_pts s))"

definition mpt_getAllPts :: "('d, 'e) set_ops \<Rightarrow> ('k, 'd, 'e) mpt \<Rightarrow> ('d \<times> nat) list option" where
  "mpt_getAllPts ops s = count_sets (base ops) (map snd (m_pts s)) []"

definition mpt_ops :: "('d, 'e) set_ops \<Rightarrow> (('k, 'd, 'e) mpt, 'k, 'e) ptd_ops" where
  "mpt_ops ops = \<lparr>o_addPts = mpt_addPts ops, o_unionPts = mpt_unionPts ops,
     o_clearPts = mpt_clearPts ops, o_clearFullPts = mpt_clearFullPts ops\<rparr>"

section \<open>Reverse sets\<close>

lemma fold_rev_add:
  "km_get [] (fold (rev_update (insertKey k)) es m) e =
     (if e \<in> set es then insertKey k (km_get [] m e) else km_get [] m e)"
proof (induction es arbitrary: m)
  case (Cons a es)
  show ?case using Cons.IH [of "rev_update (insertKey k) a m"] by (auto simp: rev_update_def)
qed simp

lemma fold_rev_clear:
  "km_get [] (fold (rev_update (removeKey k)) es m) e =
     (if e \<in> set es then removeKey k (km_get [] m e) else km_get [] m e)"
proof (induction es arbitrary: m)
  case (Cons a es)
  show ?case using Cons.IH [of "rev_update (removeKey k) a m"] by (auto simp: rev_update_def)
qed simp

text \<open>The reverse sets are the inverse of the map \<open>p\<close>.\<close>

definition rev_ok :: "('k \<Rightarrow> 'e set) \<Rightarrow> ('e \<times> 'k list) list \<Rightarrow> bool" where
  "rev_ok p m \<longleftrightarrow> (\<forall>e. set (km_get [] m e) = {k. e \<in> p k} \<and> distinct (km_get [] m e))"

lemma rev_ok_add:
  "rev_ok p m \<Longrightarrow> rev_ok (p(k := p k \<union> set es)) (fold (rev_update (insertKey k)) es m)"
  by (auto simp: rev_ok_def fold_rev_add)

lemma rev_ok_clear:
  "rev_ok p m \<Longrightarrow> rev_ok (p(k := p k - set es)) (fold (rev_update (removeKey k)) es m)"
  by (auto simp: rev_ok_def fold_rev_clear)

lemma rev_ok_touch [simp]: "rev_ok p (km_touch [] e m) \<longleftrightarrow> rev_ok p m"
  by (simp add: rev_ok_def)

section \<open>What the state stands for\<close>

definition mpt_view :: "('d, 'e) set_ops \<Rightarrow> ('d \<Rightarrow> 'e set) \<Rightarrow> ('k, 'd, 'e) mpt \<Rightarrow> 'k \<Rightarrow> 'e set" where
  "mpt_view ops els s k = els (km_get (s_new ops) (m_pts s) k)"

definition sets_ok :: "('d, 'e) set_ops \<Rightarrow> ('d \<Rightarrow> bool) \<Rightarrow> ('d \<Rightarrow> 'e set) \<Rightarrow> ('k \<times> 'd) list \<Rightarrow> bool" where
  "sets_ok ops good els m \<longleftrightarrow> good (s_new ops) \<and> els (s_new ops) = {} \<and> km_all good m \<and>
     distinct (map fst m)"

definition mpt_inv :: "('d, 'e) set_ops \<Rightarrow> ('d \<Rightarrow> bool) \<Rightarrow> ('d \<Rightarrow> 'e set) \<Rightarrow> ('k, 'd, 'e) mpt \<Rightarrow> bool" where
  "mpt_inv ops good els s \<longleftrightarrow> sets_ok ops good els (m_pts s) \<and>
     (m_rev s \<longrightarrow> rev_ok (mpt_view ops els s) (m_revPts s))"

lemma sets_ok_get: "sets_ok ops good els m \<Longrightarrow> good (km_get (s_new ops) m k)"
  by (simp add: sets_ok_def km_all_get)

lemma sets_ok_update: "sets_ok ops good els m \<Longrightarrow> good d \<Longrightarrow> sets_ok ops good els (AList.update k d m)"
  by (simp add: sets_ok_def km_all_update distinct_update)

lemma sets_ok_touch: "sets_ok ops good els m \<Longrightarrow> sets_ok ops good els (km_touch (s_new ops) k m)"
  by (simp add: sets_ok_def km_all_touch)

lemma mpt_view_update:
  "mpt_view ops els (s\<lparr>m_revPts := r, m_pts := AList.update k d m\<rparr>) =
   (\<lambda>l. els (km_get (s_new ops) m l))(k := els d)"
  by (simp add: mpt_view_def fun_eq_iff)

text \<open>One set is replaced, and the reverse sets are brought in line.\<close>

lemma mpt_inv_update:
  assumes "mpt_inv ops good els s" "good d" "sets_ok ops good els m"
    and "\<And>l. km_get (s_new ops) m l = km_get (s_new ops) (m_pts s) l"
    and "m_rev s \<Longrightarrow> rev_ok (mpt_view ops els s) (m_revPts s) \<Longrightarrow> rev_ok ((mpt_view ops els s)(k := els d)) r"
  shows "mpt_inv ops good els (s\<lparr>m_revPts := r, m_pts := AList.update k d m\<rparr>)"
    "mpt_view ops els (s\<lparr>m_revPts := r, m_pts := AList.update k d m\<rparr>) = (mpt_view ops els s)(k := els d)"
proof -
  show v: "mpt_view ops els (s\<lparr>m_revPts := r, m_pts := AList.update k d m\<rparr>) = (mpt_view ops els s)(k := els d)"
    using assms(4) by (simp add: mpt_view_update) (simp add: mpt_view_def fun_eq_iff)
  show "mpt_inv ops good els (s\<lparr>m_revPts := r, m_pts := AList.update k d m\<rparr>)"
    using assms sets_ok_update [OF assms(3,2)] by (simp add: mpt_inv_def v)
qed

context points_to_set begin

lemma addRevPts_spec:
  assumes "good d"
  shows "\<exists>m'. addRevPts ops r d k m = Some m' \<and>
    (r \<longrightarrow> rev_ok p m \<longrightarrow> rev_ok (p(k := p k \<union> els d)) m')"
proof -
  obtain ns where ns: "s_list ops d = Some ns" "set ns = els d" using good_list [OF assms] by blast
  have "addSingleRevPts True k = insertKey k" by (simp add: addSingleRevPts_def fun_eq_iff)
  then show ?thesis using ns rev_ok_add [of p m k ns] by (simp add: addRevPts_def)
qed

lemma clearRevPts_spec:
  assumes "good d"
  shows "\<exists>m'. clearRevPts ops r d k m = Some m' \<and>
    (r \<longrightarrow> rev_ok p m \<longrightarrow> rev_ok (p(k := p k - els d)) m')"
proof -
  obtain ns where ns: "s_list ops d = Some ns" "set ns = els d" using good_list [OF assms] by blast
  have "clearSingleRevPts True k = removeKey k" by (simp add: clearSingleRevPts_def fun_eq_iff)
  then show ?thesis using ns rev_ok_clear [of p m k ns] by (simp add: clearRevPts_def)
qed

lemma mpt_new_spec:
  assumes "ready"
  shows "mpt_inv ops good els (mpt_new r)" "mpt_view ops els (mpt_new r) = (\<lambda>_. {})"
  using good_new [OF assms] by (simp_all add: mpt_inv_def mpt_new_def mpt_view_def sets_ok_def rev_ok_def fun_eq_iff)

lemma mpt_get_good: "mpt_inv ops good els s \<Longrightarrow> good (km_get (s_new ops) (m_pts s) k)"
  by (rule sets_ok_get [where els = els]) (simp add: mpt_inv_def)

lemma mpt_addPts_spec:
  assumes inv: "mpt_inv ops good els s" and e: "valid_new e"
  shows "\<exists>s'. mpt_addPts ops s k e = Some (e \<notin> mpt_view ops els s k, s') \<and> mpt_inv ops good els s' \<and>
    m_rev s' = m_rev s \<and> mpt_view ops els s' = (mpt_view ops els s)(k := insert e (mpt_view ops els s k))"
proof -
  let ?d = "km_get (s_new ops) (m_pts s) k"
  obtain d where d: "s_test_and_set ops ?d e = Some (e \<notin> els ?d, d)" "good d" "els d = insert e (els ?d)"
    using good_test_and_set [OF mpt_get_good [OF inv] e] by blast
  let ?r = "rev_update (addSingleRevPts (m_rev s) k) e (m_revPts s)"
  have r: "rev_ok ((mpt_view ops els s)(k := els d)) ?r"
    if "m_rev s" "rev_ok (mpt_view ops els s) (m_revPts s)"
  proof -
    have "addSingleRevPts True k = insertKey k" by (simp add: addSingleRevPts_def fun_eq_iff)
    then show ?thesis using rev_ok_add [OF that(2), of k "[e]"] that(1) d(3) by (simp add: mpt_view_def)
  qed
  have m: "sets_ok ops good els (m_pts s)" using inv by (simp add: mpt_inv_def)
  note u = mpt_inv_update [OF inv d(2) m _ r]
  show ?thesis using d u by (simp add: mpt_addPts_def mpt_view_def)
qed

lemma mpt_unionSet_spec:
  assumes inv: "mpt_inv ops good els s" and d: "good d"
  shows "\<exists>s'. mpt_unionSet ops s k d = Some (\<not> els d \<subseteq> mpt_view ops els s k, s') \<and> mpt_inv ops good els s' \<and>
    m_rev s' = m_rev s \<and> mpt_view ops els s' = (mpt_view ops els s)(k := mpt_view ops els s k \<union> els d)"
proof -
  let ?d = "km_get (s_new ops) (m_pts s) k"
  obtain c where c: "s_or ops ?d d = Some (\<not> els d \<subseteq> els ?d, c)" "good c" "els c = els ?d \<union> els d"
    using good_or [OF mpt_get_good [OF inv] d] by blast
  obtain r where r: "addRevPts ops (m_rev s) d k (m_revPts s) = Some r"
      "m_rev s \<Longrightarrow> rev_ok (mpt_view ops els s) (m_revPts s) \<Longrightarrow>
        rev_ok ((mpt_view ops els s)(k := mpt_view ops els s k \<union> els d)) r"
    using addRevPts_spec [OF d, of "m_rev s" k "m_revPts s" "mpt_view ops els s"] by blast
  have m: "sets_ok ops good els (m_pts s)" using inv by (simp add: mpt_inv_def)
  have v: "els c = mpt_view ops els s k \<union> els d" using c(3) by (simp add: mpt_view_def)
  note u = mpt_inv_update [OF inv c(2) m, unfolded v, OF _ r(2)]
  show ?thesis using c(1) r(1) u by (simp add: mpt_unionSet_def mpt_view_def)
qed

text \<open>Union of two keys is union with the set of the source; reading the source adds its key.\<close>

lemma mpt_unionPts_spec:
  assumes inv: "mpt_inv ops good els s"
  shows "\<exists>s'. mpt_unionPts ops s k l = Some (\<not> mpt_view ops els s l \<subseteq> mpt_view ops els s k, s') \<and>
    mpt_inv ops good els s' \<and> m_rev s' = m_rev s \<and>
    mpt_view ops els s' = (mpt_view ops els s)(k := mpt_view ops els s k \<union> mpt_view ops els s l)"
proof -
  let ?d = "km_get (s_new ops) (m_pts s) k" and ?e = "km_get (s_new ops) (m_pts s) l"
  let ?m = "km_touch (s_new ops) l (km_touch (s_new ops) l (m_pts s))"
  have e: "good ?e" by (rule mpt_get_good [OF inv])
  obtain c where c: "s_or ops ?d ?e = Some (\<not> els ?e \<subseteq> els ?d, c)" "good c" "els c = els ?d \<union> els ?e"
    using good_or [OF mpt_get_good [OF inv] e] by blast
  obtain r where r: "addRevPts ops (m_rev s) ?e k (m_revPts s) = Some r"
      "m_rev s \<Longrightarrow> rev_ok (mpt_view ops els s) (m_revPts s) \<Longrightarrow>
        rev_ok ((mpt_view ops els s)(k := mpt_view ops els s k \<union> els ?e)) r"
    using addRevPts_spec [OF e, of "m_rev s" k "m_revPts s" "mpt_view ops els s"] by blast
  have m: "sets_ok ops good els ?m" using inv by (simp add: mpt_inv_def sets_ok_touch)
  have v: "els c = mpt_view ops els s k \<union> els ?e" using c(3) by (simp add: mpt_view_def)
  note u = mpt_inv_update [OF inv c(2) m, unfolded v, OF _ r(2)]
  have x: "mpt_unionPts ops s k l =
      Some (\<not> els ?e \<subseteq> els ?d, s\<lparr>m_revPts := r, m_pts := AList.update k c ?m\<rparr>)"
    using c(1) r(1) by (simp add: mpt_unionPts_def mpt_getPts_def)
  show ?thesis using x u by (simp add: mpt_view_def)
qed

lemma mpt_clearPts_spec:
  assumes inv: "mpt_inv ops good els s" and e: "valid_new e"
  shows "\<exists>s'. mpt_clearPts ops s k e = Some s' \<and> mpt_inv ops good els s' \<and> m_rev s' = m_rev s \<and>
    mpt_view ops els s' = (mpt_view ops els s)(k := mpt_view ops els s k - {e})"
proof -
  let ?d = "km_get (s_new ops) (m_pts s) k"
  obtain d where d: "s_reset ops ?d e = Some d" "good d" "els d = els ?d - {e}"
    using good_reset [OF mpt_get_good [OF inv] e] by blast
  let ?r = "rev_update (clearSingleRevPts (m_rev s) k) e (m_revPts s)"
  have r: "rev_ok ((mpt_view ops els s)(k := els d)) ?r"
    if "m_rev s" "rev_ok (mpt_view ops els s) (m_revPts s)"
  proof -
    have "clearSingleRevPts True k = removeKey k" by (simp add: clearSingleRevPts_def fun_eq_iff)
    then show ?thesis using rev_ok_clear [OF that(2), of k "[e]"] that(1) d(3) by (simp add: mpt_view_def)
  qed
  have m: "sets_ok ops good els (m_pts s)" using inv by (simp add: mpt_inv_def)
  note u = mpt_inv_update [OF inv d(2) m _ r]
  show ?thesis using d u by (simp add: mpt_clearPts_def mpt_view_def)
qed

lemma mpt_clearFullPts_spec:
  assumes inv: "mpt_inv ops good els s"
  shows "\<exists>s'. mpt_clearFullPts ops s k = Some s' \<and> mpt_inv ops good els s' \<and> m_rev s' = m_rev s \<and>
    mpt_view ops els s' = (mpt_view ops els s)(k := {})"
proof -
  let ?d = "km_get (s_new ops) (m_pts s) k"
  have g: "good ?d" by (rule mpt_get_good [OF inv])
  note c = good_clear [OF g]
  obtain r where r: "clearRevPts ops (m_rev s) ?d k (m_revPts s) = Some r"
      "m_rev s \<Longrightarrow> rev_ok (mpt_view ops els s) (m_revPts s) \<Longrightarrow>
        rev_ok ((mpt_view ops els s)(k := mpt_view ops els s k - els ?d)) r"
    using clearRevPts_spec [OF g, of "m_rev s" k "m_revPts s" "mpt_view ops els s"] by blast
  have m: "sets_ok ops good els (m_pts s)" using inv by (simp add: mpt_inv_def)
  have v: "els (s_clear ops ?d) = mpt_view ops els s k - els ?d" using c by (simp add: mpt_view_def)
  note u = mpt_inv_update [OF inv conjunct1 [OF c] m, unfolded v, OF _ r(2)]
  show ?thesis using r(1) u by (simp add: mpt_clearFullPts_def mpt_view_def)
qed

lemma mpt_getPts_spec:
  assumes inv: "mpt_inv ops good els s"
  shows "\<exists>d s'. mpt_getPts ops s k = (d, s') \<and> good d \<and> els d = mpt_view ops els s k \<and>
    mpt_inv ops good els s' \<and> mpt_view ops els s' = mpt_view ops els s \<and> m_rev s' = m_rev s"
proof -
  have v: "mpt_view ops els (s\<lparr>m_pts := km_touch (s_new ops) k (m_pts s)\<rparr>) = mpt_view ops els s"
    by (simp add: mpt_view_def fun_eq_iff)
  then show ?thesis using inv mpt_get_good [OF inv, of k]
    by (simp add: mpt_getPts_def mpt_inv_def sets_ok_touch) (simp add: mpt_view_def)
qed

lemma mpt_getRevPts_spec:
  assumes inv: "mpt_inv ops good els s" and r: "m_rev s"
  shows "\<exists>ks s'. mpt_getRevPts s e = Some (ks, s') \<and> set ks = {k. e \<in> mpt_view ops els s k} \<and>
    distinct ks \<and> mpt_inv ops good els s' \<and> mpt_view ops els s' = mpt_view ops els s \<and> m_rev s' = m_rev s"
proof -
  have v: "mpt_view ops els (s\<lparr>m_revPts := km_touch [] e (m_revPts s)\<rparr>) = mpt_view ops els s"
    by (simp add: mpt_view_def fun_eq_iff)
  have ok: "rev_ok (mpt_view ops els s) (m_revPts s)" using inv r by (simp add: mpt_inv_def)
  then have "set (km_get [] (m_revPts s) e) = {k. e \<in> mpt_view ops els s k}" "distinct (km_get [] (m_revPts s) e)"
    by (simp_all add: rev_ok_def)
  then show ?thesis using inv r v by (simp add: mpt_getRevPts_def mpt_inv_def)
qed

text \<open>Remapping under a new mapping: sets that were made before it become as new ones are.\<close>

lemma remap_values_spec:
  assumes "ready" "km_all (\<lambda>d. ok d \<and> movable d) m"
  shows "\<exists>m'. remap_values ops m = Some m' \<and> km_all good m' \<and> map fst m' = map fst m \<and>
    (\<forall>k. els (km_get (s_new ops) m' k) = els (km_get (s_new ops) m k))"
  using assms(2)
proof (induction m)
  case (Cons e m)
  obtain k d where e: "e = (k, d)" by fastforce
  have d: "ok d" "movable d" "km_all (\<lambda>d. ok d \<and> movable d) m" using Cons.prems e by (simp_all add: km_all_def)
  obtain b where b: "d_remap (base ops) d = Some b" "good b" "els b = els d"
    using remap_law [OF assms(1) d(1,2)] by (auto simp: good_def)
  obtain m' where m': "remap_values ops m = Some m'" "km_all good m'" "map fst m' = map fst m"
      "\<forall>k. els (km_get (s_new ops) m' k) = els (km_get (s_new ops) m k)"
    using Cons.IH [OF d(3)] by blast
  have "els (km_get (s_new ops) ((k, b) # m') l) = els (km_get (s_new ops) ((k, d) # m) l)" for l
    using m'(4) b(3) by (simp add: km_get_def)
  then show ?case using e b m' by (simp add: km_all_def)
qed simp

lemma mpt_remapAllPts_spec:
  assumes r: "ready" and m: "km_all (\<lambda>d. ok d \<and> movable d) (m_pts s)" "distinct (map fst (m_pts s))"
    and rev: "m_rev s \<longrightarrow> rev_ok (mpt_view ops els s) (m_revPts s)"
  shows "\<exists>s'. mpt_remapAllPts ops s = Some s' \<and> mpt_inv ops good els s' \<and> m_rev s' = m_rev s \<and>
    mpt_view ops els s' = mpt_view ops els s"
proof -
  obtain m' where m': "remap_values ops (m_pts s) = Some m'" "km_all good m'" "map fst m' = map fst (m_pts s)"
      "\<forall>k. els (km_get (s_new ops) m' k) = els (km_get (s_new ops) (m_pts s) k)"
    using remap_values_spec [OF r m(1)] by blast
  have v: "mpt_view ops els (s\<lparr>m_pts := m'\<rparr>) = mpt_view ops els s"
    using m'(4) by (simp add: mpt_view_def fun_eq_iff)
  show ?thesis using m' m(2) rev v good_new [OF r] by (simp add: mpt_remapAllPts_def mpt_inv_def sets_ok_def)
qed

text \<open>The occurrence map counts, for every set, the keys that hold it.\<close>

lemma mpt_getAllPts_spec:
  assumes "mpt_inv ops good els s"
  shows "\<exists>m. mpt_getAllPts ops s = Some m \<and>
    counts els m (\<lambda>a. card {k \<in> dom (map_of (m_pts s)). mpt_view ops els s k = a})"
proof -
  have g: "\<forall>d \<in> set (map snd (m_pts s)). ok d \<and> same (s_new ops) d"
    using assms by (auto simp: mpt_inv_def sets_ok_def km_all_def good_def)
  have c0: "counts els [] (\<lambda>_. 0)" by (simp add: counts_def occ_def abs_map_def u32_def)
  have k0: "keys_ok ok same (s_new ops) []" by (simp add: keys_ok_def)
  obtain m where m: "count_sets (base ops) (map snd (m_pts s)) [] = Some m"
      "counts els m (\<lambda>a. 0 + count_list (map els (map snd (m_pts s))) a)"
    using count_sets_spec [OF g k0 c0] by blast
  have "(\<lambda>a. 0 + count_list (map els (map snd (m_pts s))) a) =
      (\<lambda>a. card {k \<in> dom (map_of (m_pts s)). mpt_view ops els s k = a})"
    using count_list_keys [of "m_pts s" els _ "s_new ops"] assms
    by (simp add: fun_eq_iff mpt_inv_def sets_ok_def mpt_view_def)
  then show ?thesis using m by (simp add: mpt_getAllPts_def)
qed

end

section \<open>The mutable structure implements the contract\<close>

interpretation mp: pt_data "mpt_ops (pt_set_ops h g)" "\<lambda>s k. Some (mpt_getPts (pt_set_ops h g) s k)"
  mpt_getRevPts "mpt_unionSet (pt_set_ops h g)"
  "mpt_inv (pt_set_ops h g) (pt_good g) pt_nodes" "mpt_view (pt_set_ops h g) pt_nodes" "\<lambda>_ _. True"
  "\<lambda>_ _. True" m_rev "pt_node_ok g" "pt_good g" pt_nodes
  for h g
proof (unfold_locales, goal_cases)
  case (1 s n e k)
  show ?case using ps.mpt_addPts_spec [of h g s e k] 1 by (simp add: ps_good mpt_ops_def)
next
  case (2 s n k l)
  show ?case using ps.mpt_unionPts_spec [of h g s k l] 2 by (simp add: ps_good mpt_ops_def)
next
  case (3 s n d k)
  show ?case using ps.mpt_unionSet_spec [of h g s d k] 3 by (simp add: ps_good mpt_ops_def)
next
  case (4 s n e k)
  show ?case using ps.mpt_clearPts_spec [of h g s e k] 4 by (simp add: ps_good mpt_ops_def)
next
  case (5 s n k)
  show ?case using ps.mpt_clearFullPts_spec [of h g s k] 5 by (simp add: ps_good mpt_ops_def)
next
  case (6 s k)
  show ?case using ps.mpt_getPts_spec [of h g s k] 6 by (auto simp: ps_good)
next
  case (7 s e)
  show ?case using ps.mpt_getRevPts_spec [of h g s e] 7 by (simp add: ps_good)
next
  case (8 s e)
  then show ?case by (simp add: mpt_getRevPts_def)
qed

end
