(* ===== verification/PersistentPT.thy ===== *)
theory PersistentPT
  imports MutablePT
begin

text \<open>
  \<open>PersistentPTData\<close> (svf/include/MemoryModel/PersistentPointsToDS.h): every key maps to
  the number of a set in a \<open>PersistentPointsToCache\<close>, which several structures may share
  and which is therefore passed along with the state. \<open>None\<close> is a failed assertion.
\<close>

section \<open>State and operations\<close>

record ('k, 'e) ppt =
  p_rev :: bool
  p_pts :: "('k \<times> PointsToID) list"
  p_revPts :: "('e \<times> 'k list) list"

definition ppt_new :: "bool \<Rightarrow> ('k, 'e) ppt" where
  "ppt_new reversePT = \<lparr>p_rev = reversePT, p_pts = [], p_revPts = []\<rparr>"

definition ppt_clear :: "('k, 'e) ppt \<Rightarrow> ('k, 'e) ppt" where
  "ppt_clear s = s\<lparr>p_pts := [], p_revPts := []\<rparr>"

text \<open>\<open>ptsMap[k]\<close>: a missing key gets the number of the empty set.\<close>

definition ppt_id :: "('k, 'e) ppt \<Rightarrow> 'k \<Rightarrow> PointsToID" where
  "ppt_id s k = km_get emptyPointsToId (p_pts s) k"

definition ppt_touch :: "'k \<Rightarrow> ('k, 'e) ppt \<Rightarrow> ('k, 'e) ppt" where
  "ppt_touch k s = s\<lparr>p_pts := km_touch emptyPointsToId k (p_pts s)\<rparr>"

definition ppt_put :: "'k \<Rightarrow> PointsToID \<Rightarrow> ('k, 'e) ppt \<Rightarrow> ('k, 'e) ppt" where
  "ppt_put k i s = s\<lparr>p_pts := AList.update k i (p_pts s)\<rparr>"

definition ppt_getPts :: "('d ppcache \<times> ('k, 'e) ppt) \<Rightarrow> 'k \<Rightarrow> ('d \<times> 'd ppcache \<times> ('k, 'e) ppt) option" where
  "ppt_getPts cs k = do {
     let (c, s) = cs;
     let i = ppt_id s k;
     let s = ppt_touch k s;
     d \<leftarrow> getActualPts c i;
     Some (d, c, s)
   }"

definition ppt_getRevPts :: "('d ppcache \<times> ('k, 'e) ppt) \<Rightarrow> 'e \<Rightarrow>
    ('k list \<times> 'd ppcache \<times> ('k, 'e) ppt) option" where
  "ppt_getRevPts cs e =
     (let (c, s) = cs in
      if p_rev s then Some (km_get [] (p_revPts s) e, c, s\<lparr>p_revPts := km_touch [] e (p_revPts s)\<rparr>)
      else None)"

definition unionPtsFromId :: "('d, 'e) set_ops \<Rightarrow> ('d ppcache \<times> ('k, 'e) ppt) \<Rightarrow> 'k \<Rightarrow> PointsToID \<Rightarrow>
    (bool \<times> 'd ppcache \<times> ('k, 'e) ppt) option" where
  "unionPtsFromId ops cs dstKey srcId = do {
     let (c, s) = cs;
     let dstId = ppt_id s dstKey;
     let s = ppt_touch dstKey s;
     (newDstId, c) \<leftarrow> unionPts (base ops) c dstId srcId;
     if newDstId \<noteq> dstId then do {
       let s = ppt_put dstKey newDstId s;
       if p_rev s then do {
         srcPts \<leftarrow> getActualPts c srcId;
         es \<leftarrow> s_list ops srcPts;
         Some (True, c, s\<lparr>p_revPts := fold (rev_update (insertKey dstKey)) es (p_revPts s)\<rparr>)
       } else Some (True, c, s)
     } else Some (False, c, s)
   }"

definition ppt_addPts :: "('d, 'e) set_ops \<Rightarrow> ('d ppcache \<times> ('k, 'e) ppt) \<Rightarrow> 'k \<Rightarrow> 'e \<Rightarrow>
    (bool \<times> 'd ppcache \<times> ('k, 'e) ppt) option" where
  "ppt_addPts ops cs dstKey element = do {
     let (c, s) = cs;
     srcPts \<leftarrow> s_set ops (s_new ops) element;
     (srcId, c) \<leftarrow> emplacePts (base ops) c srcPts;
     unionPtsFromId ops (c, s) dstKey srcId
   }"

definition ppt_unionPts :: "('d, 'e) set_ops \<Rightarrow> ('d ppcache \<times> ('k, 'e) ppt) \<Rightarrow> 'k \<Rightarrow> 'k \<Rightarrow>
    (bool \<times> 'd ppcache \<times> ('k, 'e) ppt) option" where
  "ppt_unionPts ops cs dstKey srcKey = do {
     let (c, s) = cs;
     let srcId = ppt_id s srcKey;
     let s = ppt_touch srcKey s;
     unionPtsFromId ops (c, s) dstKey srcId
   }"

definition ppt_unionSet :: "('d, 'e) set_ops \<Rightarrow> ('d ppcache \<times> ('k, 'e) ppt) \<Rightarrow> 'k \<Rightarrow> 'd \<Rightarrow>
    (bool \<times> 'd ppcache \<times> ('k, 'e) ppt) option" where
  "ppt_unionSet ops cs dstKey srcData = do {
     let (c, s) = cs;
     (srcId, c) \<leftarrow> emplacePts (base ops) c srcData;
     unionPtsFromId ops (c, s) dstKey srcId
   }"

definition ppt_clearPts :: "('d, 'e) set_ops \<Rightarrow> ('d ppcache \<times> ('k, 'e) ppt) \<Rightarrow> 'k \<Rightarrow> 'e \<Rightarrow>
    ('d ppcache \<times> ('k, 'e) ppt) option" where
  "ppt_clearPts ops cs var element = do {
     let (c, s) = cs;
     toRemoveData \<leftarrow> s_set ops (s_new ops) element;
     (toRemoveId, c) \<leftarrow> emplacePts (base ops) c toRemoveData;
     let varId = ppt_id s var;
     let s = ppt_touch var s;
     (complementId, c) \<leftarrow> complementPts (base ops) c varId toRemoveId;
     if varId \<noteq> complementId then
       let s = ppt_put var complementId s in
       Some (c, s\<lparr>p_revPts := rev_update (clearSingleRevPts (p_rev s) var) element (p_revPts s)\<rparr>)
     else Some (c, s)
   }"

definition ppt_clearFullPts :: "('d, 'e) set_ops \<Rightarrow> ('d ppcache \<times> ('k, 'e) ppt) \<Rightarrow> 'k \<Rightarrow>
    ('d ppcache \<times> ('k, 'e) ppt) option" where
  "ppt_clearFullPts ops cs var = do {
     (pts, c, s) \<leftarrow> ppt_getPts cs var;
     m \<leftarrow> clearRevPts ops (p_rev s) pts var (p_revPts s);
     let s = s\<lparr>p_revPts := m\<rparr>;
     Some (c, ppt_put var emptyPointsToId s)
   }"

definition ppt_remapAllPts :: "('d, 'e) set_ops \<Rightarrow> ('d ppcache \<times> ('k, 'e) ppt) \<Rightarrow>
    ('d ppcache \<times> ('k, 'e) ppt) option" where
  "ppt_remapAllPts ops cs = map_option (\<lambda>c. (c, snd cs)) (remapAllPts (base ops) (fst cs))"

text \<open>The sets behind a list of numbers.\<close>

fun actual_pts :: "'d ppcache \<Rightarrow> PointsToID list \<Rightarrow> 'd list option" where
  "actual_pts c [] = Some []"
| "actual_pts c (i # is) = do { d \<leftarrow> getActualPts c i; ds \<leftarrow> actual_pts c is; Some (d # ds) }"

definition ppt_getAllPts :: "('d, 'e) set_ops \<Rightarrow> ('d ppcache \<times> ('k, 'e) ppt) \<Rightarrow> bool \<Rightarrow>
    ('d \<times> nat) list option" where
  "ppt_getAllPts ops cs liveOnly =
     (if liveOnly then do {
        ds \<leftarrow> actual_pts (fst cs) (map snd (p_pts (snd cs)));
        count_sets (base ops) ds []
      } else cache_getAllPts (base ops) (fst cs))"

definition ppt_ops :: "('d, 'e) set_ops \<Rightarrow> ('d ppcache \<times> ('k, 'e) ppt, 'k, 'e) ptd_ops" where
  "ppt_ops ops = \<lparr>o_addPts = ppt_addPts ops, o_unionPts = ppt_unionPts ops,
     o_clearPts = ppt_clearPts ops, o_clearFullPts = ppt_clearFullPts ops\<rparr>"

section \<open>What the state stands for\<close>

definition ppt_view :: "('d \<Rightarrow> 'e set) \<Rightarrow> ('d ppcache \<times> ('k, 'e) ppt) \<Rightarrow> 'k \<Rightarrow> 'e set" where
  "ppt_view els cs k = pts_of els (fst cs) (ppt_id (snd cs) k)"

text \<open>A cache whose sets were made as new ones are.\<close>

definition cache_ready :: "('d, 'e) set_ops \<Rightarrow> ('d \<Rightarrow> bool) \<Rightarrow> ('d \<Rightarrow> 'e set) \<Rightarrow> ('d \<Rightarrow> 'd \<Rightarrow> bool) \<Rightarrow>
    'd ppcache \<Rightarrow> bool" where
  "cache_ready ops ok els same c \<longleftrightarrow> cache_inv ok els same c \<and> ok (s_new ops) \<and> els (s_new ops) = {} \<and>
     same (s_new ops) (hd (idToPts c))"

definition ids_in :: "'d ppcache \<Rightarrow> ('k \<times> PointsToID) list \<Rightarrow> bool" where
  "ids_in c m \<longleftrightarrow> km_all (\<lambda>i. i < length (idToPts c)) m \<and> distinct (map fst m)"

definition ppt_inv :: "('d, 'e) set_ops \<Rightarrow> ('d \<Rightarrow> bool) \<Rightarrow> ('d \<Rightarrow> 'e set) \<Rightarrow> ('d \<Rightarrow> 'd \<Rightarrow> bool) \<Rightarrow>
    ('d ppcache \<times> ('k, 'e) ppt) \<Rightarrow> bool" where
  "ppt_inv ops ok els same cs \<longleftrightarrow> cache_ready ops ok els same (fst cs) \<and> ids_in (fst cs) (p_pts (snd cs)) \<and>
     (p_rev (snd cs) \<longrightarrow> rev_ok (ppt_view els cs) (p_revPts (snd cs)))"

text \<open>Every operation adds at most two sets to the cache.\<close>

definition ppt_room :: "('d ppcache \<times> ('k, 'e) ppt) \<Rightarrow> nat \<Rightarrow> bool" where
  "ppt_room cs n \<longleftrightarrow> length (idToPts (fst cs)) + 2 * n \<le> 2 ^ 32"

lemma ppt_simps [simp]:
  "ppt_id (ppt_touch k s) = ppt_id s" "ppt_id (ppt_put k i s) = (ppt_id s)(k := i)"
  "ppt_id (s\<lparr>p_revPts := r\<rparr>) = ppt_id s"
  "p_rev (ppt_touch k s) = p_rev s" "p_rev (ppt_put k i s) = p_rev s"
  "p_revPts (ppt_touch k s) = p_revPts s" "p_revPts (ppt_put k i s) = p_revPts s"
  "p_pts (ppt_touch k s) = km_touch emptyPointsToId k (p_pts s)"
  "p_pts (ppt_put k i s) = AList.update k i (p_pts s)"
  by (simp_all add: ppt_id_def ppt_touch_def ppt_put_def fun_eq_iff)

lemma ids_in_grows: "grows c c' \<Longrightarrow> ids_in c m \<Longrightarrow> ids_in c' m"
  by (auto simp: ids_in_def grows_def elim: km_all_mono)

lemma ids_in_get: "ids_in c m \<Longrightarrow> emptyPointsToId < length (idToPts c) \<Longrightarrow>
    km_get emptyPointsToId m k < length (idToPts c)"
  unfolding ids_in_def by (rule km_all_get [of "\<lambda>i. i < length (idToPts c)"]) auto

lemma ids_in_touch: "ids_in c m \<Longrightarrow> emptyPointsToId < length (idToPts c) \<Longrightarrow> ids_in c (km_touch emptyPointsToId k m)"
  by (simp add: ids_in_def km_all_touch)

lemma ids_in_update: "ids_in c m \<Longrightarrow> i < length (idToPts c) \<Longrightarrow> ids_in c (AList.update k i m)"
  by (simp add: ids_in_def km_all_update distinct_update)

lemma grows_view:
  assumes "grows c c'" "ids_in c (p_pts s)" "emptyPointsToId < length (idToPts c)"
  shows "ppt_view els (c', s) = ppt_view els (c, s)"
proof
  fix k
  have "ppt_id s k < length (idToPts c)" unfolding ppt_id_def by (rule ids_in_get [OF assms(2,3)])
  then show "ppt_view els (c', s) k = ppt_view els (c, s) k"
    using grows_pts_of [OF assms(1), of _ els] by (simp add: ppt_view_def)
qed

section \<open>Correctness\<close>

context points_to_set begin

abbreviation Ready :: "'d ppcache \<Rightarrow> bool" where "Ready \<equiv> cache_ready ops ok els same"
abbreviation PInv :: "('d ppcache \<times> ('k, 'e) ppt) \<Rightarrow> bool" where "PInv \<equiv> ppt_inv ops ok els same"

lemma Ready_Inv: "Ready c \<Longrightarrow> Inv c"
  by (simp add: cache_ready_def)

lemma Ready_empty: "Ready c \<Longrightarrow> emptyPointsToId < length (idToPts c)" "Ready c \<Longrightarrow> pts_of els c emptyPointsToId = {}"
  using empty_in_range pts_of_empty by (simp_all add: cache_ready_def)

lemma Ready_grows:
  assumes "Ready c" "Inv c'" "grows c c'" shows "Ready c'"
proof -
  obtain ds where ds: "idToPts c' = idToPts c @ ds" using assms(3) by (auto simp: grows_def)
  have "idToPts c \<noteq> []" using Ready_empty(1) [OF assms(1)] by auto
  then have "hd (idToPts c') = hd (idToPts c)" using ds by simp
  then show ?thesis using assms(1,2) by (simp add: cache_ready_def)
qed

lemma Ready_good:
  assumes "Ready c" "i < length (idToPts c)" shows "good (idToPts c ! i)"
proof -
  have "ok (idToPts c ! i)" "same (hd (idToPts c)) (idToPts c ! i)"
    using assms by (simp_all add: cache_ready_def cache_inv_def ids_ok_def)
  then show ?thesis using assms(1) same_trans by (auto simp: good_def cache_ready_def)
qed

lemma Ready_actual:
  "Ready c \<Longrightarrow> i < length (idToPts c) \<Longrightarrow>
   \<exists>d. getActualPts c i = Some d \<and> good d \<and> els d = pts_of els c i"
  using Ready_good [of c i] by (simp add: getActualPts_def pts_of_def)

lemma Ready_emplace:
  assumes r: "Ready c" and d: "good d" and room: "length (idToPts c) < 2 ^ 32"
  shows "\<exists>i c'. emplacePts (base ops) c d = Some (i, c') \<and> Ready c' \<and> grows c c' \<and>
    i < length (idToPts c') \<and> pts_of els c' i = els d \<and> length (idToPts c') \<le> length (idToPts c) + 1"
proof -
  have s: "same (hd (idToPts c)) d"
    using r d same_trans [OF same_sym] by (auto simp: cache_ready_def good_def)
  obtain i c' where e: "emplacePts (base ops) c d = Some (i, c')" "Inv c'" "grows c c'"
      "i < length (idToPts c')" "pts_of els c' i = els d" "length (idToPts c') \<le> length (idToPts c) + 1"
    by (rule emplacePts_spec [OF Ready_Inv [OF r] good_ok [OF d] s disjI1 [OF room]]) blast
  then show ?thesis using Ready_grows [OF r e(2,3)] by blast
qed

text \<open>What an operation of the cache leaves behind.\<close>

lemma op_result_step:
  assumes "Ready c" "op_result p c l r i c'"
  shows "Ready c'" "grows c c'" "i < length (idToPts c')"
    "pts_of els c' i = set_of_op p (pts_of els c l) (pts_of els c r)" "length (idToPts c') \<le> length (idToPts c) + 1"
  using assms Ready_grows by (auto simp: op_result_def)

text \<open>The result number differs from the old one iff the set changed.\<close>

lemma op_result_changed:
  assumes "Ready c" "op_result p c l r i c'" "l < length (idToPts c)"
  shows "i \<noteq> l \<longleftrightarrow> set_of_op p (pts_of els c l) (pts_of els c r) \<noteq> pts_of els c l"
proof -
  note st = op_result_step [OF assms(1,2)]
  note gl = grows_pts_of [OF st(2) assms(3), of els]
  show ?thesis using ids_inj [OF Ready_Inv [OF st(1)] st(3), of l] gl st(4) by auto
qed

lemma ppt_new_spec:
  assumes "Ready c" shows "PInv (c, ppt_new r)" "ppt_view els (c, ppt_new r) = (\<lambda>_. {})"
  using assms Ready_empty(2) [OF assms]
  by (simp_all add: ppt_inv_def ppt_new_def ids_in_def ppt_view_def ppt_id_def rev_ok_def fun_eq_iff)

lemma PInv_id: "PInv (c, s) \<Longrightarrow> ppt_id s k < length (idToPts c)"
  using ids_in_get [of c "p_pts s" k] Ready_empty(1) [of c] by (simp add: ppt_inv_def ppt_id_def)

lemma PInv_grows:
  assumes "PInv (c, s)" "Ready c'" "grows c c'"
  shows "PInv (c', s)" "ppt_view els (c', s) = ppt_view els (c, s)"
proof -
  show v: "ppt_view els (c', s) = ppt_view els (c, s)"
    using assms grows_view [OF assms(3), of s els] Ready_empty(1) [of c] by (simp add: ppt_inv_def)
  show "PInv (c', s)" using assms ids_in_grows [OF assms(3), of "p_pts s"] v by (simp add: ppt_inv_def)
qed

lemma PInv_touch:
  assumes "PInv (c, s)"
  shows "PInv (c, ppt_touch k s)" "ppt_view els (c, ppt_touch k s) = ppt_view els (c, s)"
proof -
  show v: "ppt_view els (c, ppt_touch k s) = ppt_view els (c, s)" by (simp add: ppt_view_def fun_eq_iff)
  show "PInv (c, ppt_touch k s)"
    using assms ids_in_touch [of c "p_pts s" k] Ready_empty(1) [of c] v by (simp add: ppt_inv_def)
qed

lemma PInv_put:
  assumes "PInv (c, s)" "i < length (idToPts c)"
    and "p_rev s \<Longrightarrow> rev_ok (ppt_view els (c, s)) (p_revPts s) \<Longrightarrow>
      rev_ok ((ppt_view els (c, s))(k := pts_of els c i)) r"
  shows "PInv (c, (ppt_put k i s)\<lparr>p_revPts := r\<rparr>)"
    "ppt_view els (c, (ppt_put k i s)\<lparr>p_revPts := r\<rparr>) = (ppt_view els (c, s))(k := pts_of els c i)"
proof -
  show v: "ppt_view els (c, (ppt_put k i s)\<lparr>p_revPts := r\<rparr>) = (ppt_view els (c, s))(k := pts_of els c i)"
    by (simp add: ppt_view_def fun_eq_iff)
  show "PInv (c, (ppt_put k i s)\<lparr>p_revPts := r\<rparr>)"
    using assms ids_in_update [of c "p_pts s" i k] v by (simp add: ppt_inv_def)
qed

lemma unionPtsFromId_spec:
  assumes inv: "PInv (c, s)" and src: "i < length (idToPts c)" and room: "length (idToPts c) < 2 ^ 32"
  shows "\<exists>c' s'. unionPtsFromId ops (c, s) k i = Some (\<not> pts_of els c i \<subseteq> ppt_view els (c, s) k, c', s') \<and>
    PInv (c', s') \<and> p_rev s' = p_rev s \<and> grows c c' \<and> length (idToPts c') \<le> length (idToPts c) + 1 \<and>
    ppt_view els (c', s') = (ppt_view els (c, s))(k := ppt_view els (c, s) k \<union> pts_of els c i)"
proof -
  let ?t = "ppt_touch k s" and ?d = "ppt_id s k"
  have r: "Ready c" using inv by (simp add: ppt_inv_def)
  have d: "?d < length (idToPts c)" by (rule PInv_id [OF inv])
  obtain j c' where u: "unionPts (base ops) c ?d i = Some (j, c')" "op_result UnionOp c ?d i j c'"
    using unionPts_spec [OF Ready_Inv [OF r] d src room] by blast
  note st = op_result_step [OF r u(2)]
  have view: "pts_of els c ?d = ppt_view els (c, s) k" by (simp add: ppt_view_def)
  have j: "pts_of els c' j = ppt_view els (c, s) k \<union> pts_of els c i" using st(4) view by simp
  have ch: "j \<noteq> ?d \<longleftrightarrow> \<not> pts_of els c i \<subseteq> ppt_view els (c, s) k"
    using op_result_changed [OF r u(2) d] view by auto
  note t = PInv_grows [OF PInv_touch(1) [OF inv, of k] st(1,2)] and tv = PInv_touch(2) [OF inv, of k]
  show ?thesis
  proof (cases "j = ?d")
    case True
    then have "unionPtsFromId ops (c, s) k i = Some (False, c', ?t)" using u(1) by (simp add: unionPtsFromId_def)
    moreover have "ppt_view els (c, s) = (ppt_view els (c, s))(k := ppt_view els (c, s) k \<union> pts_of els c i)"
      using True ch by (auto simp: fun_eq_iff)
    ultimately show ?thesis using ch True t tv st(2,5) by auto
  next
    case False
    have i': "i < length (idToPts c')" "pts_of els c' i = pts_of els c i" using grows_pts_of [OF st(2) src, of els] by auto
    obtain x where x: "getActualPts c' i = Some x" "good x" "els x = pts_of els c i"
      using Ready_actual [OF st(1) i'(1)] i'(2) by auto
    obtain es where es: "s_list ops x = Some es" "set es = els x" using good_list [OF x(2)] by blast
    define m where "m = (if p_rev s then fold (rev_update (insertKey k)) es (p_revPts s) else p_revPts s)"
    have m: "rev_ok ((ppt_view els (c', ?t))(k := pts_of els c' j)) m"
      if "p_rev ?t" "rev_ok (ppt_view els (c', ?t)) (p_revPts ?t)"
      using rev_ok_add [OF that(2), of k es] that(1) es(2) x(3) j t(2) tv by (simp add: m_def)
    note p = PInv_put [OF t(1) st(3), of k m, OF m]
    have "unionPtsFromId ops (c, s) k i = Some (True, c', (ppt_put k j ?t)\<lparr>p_revPts := m\<rparr>)"
      using False u(1) x(1) es(1) by (simp add: unionPtsFromId_def m_def)
    then show ?thesis using False ch p t(2) tv j st(2,5) by auto
  qed
qed

text \<open>The operations with a set of their own put it into the cache first.\<close>

lemma ppt_unionSet_spec:
  assumes inv: "PInv (c, s)" and d: "good d" and room: "length (idToPts c) + 2 \<le> 2 ^ 32"
  shows "\<exists>c' s'. ppt_unionSet ops (c, s) k d = Some (\<not> els d \<subseteq> ppt_view els (c, s) k, c', s') \<and>
    PInv (c', s') \<and> p_rev s' = p_rev s \<and> grows c c' \<and> length (idToPts c') \<le> length (idToPts c) + 2 \<and>
    ppt_view els (c', s') = (ppt_view els (c, s))(k := ppt_view els (c, s) k \<union> els d)"
proof -
  have r: "Ready c" using inv by (simp add: ppt_inv_def)
  obtain i c1 where e: "emplacePts (base ops) c d = Some (i, c1)" "Ready c1" "grows c c1"
      "i < length (idToPts c1)" "pts_of els c1 i = els d" "length (idToPts c1) \<le> length (idToPts c) + 1"
    using Ready_emplace [OF r d] room by auto
  note p = PInv_grows [OF inv e(2,3)]
  have l: "length (idToPts c1) < 2 ^ 32" using e(6) room by linarith
  obtain c' s' where u: "unionPtsFromId ops (c1, s) k i = Some (\<not> els d \<subseteq> ppt_view els (c, s) k, c', s')"
      "PInv (c', s')" "p_rev s' = p_rev s" "length (idToPts c') \<le> length (idToPts c1) + 1" "grows c1 c'"
      "ppt_view els (c', s') = (ppt_view els (c, s))(k := ppt_view els (c, s) k \<union> els d)"
    using unionPtsFromId_spec [OF p(1) e(4) l, of k] unfolding p(2) e(5) by blast
  have "length (idToPts c') \<le> length (idToPts c) + 2" using u(4) e(6) by linarith
  moreover have "grows c c'" by (rule grows_trans [OF e(3) u(5)])
  ultimately show ?thesis using u e(1) by (simp add: ppt_unionSet_def)
qed

lemma singleton_set:
  assumes "ready" "valid_new e"
  shows "\<exists>d. s_set ops (s_new ops) e = Some d \<and> good d \<and> els d = {e}"
  using good_set [OF conjunct1 [OF good_new [OF assms(1)]] assms(2)] good_new [OF assms(1)] by auto

lemma ppt_addPts_eq:
  "s_set ops (s_new ops) e = Some d \<Longrightarrow> ppt_addPts ops cs k e = ppt_unionSet ops cs k d"
  by (cases cs) (simp add: ppt_addPts_def ppt_unionSet_def)

lemma ppt_addPts_spec:
  assumes "ready" and inv: "PInv (c, s)" and e: "valid_new e" and room: "length (idToPts c) + 2 \<le> 2 ^ 32"
  shows "\<exists>c' s'. ppt_addPts ops (c, s) k e = Some (e \<notin> ppt_view els (c, s) k, c', s') \<and>
    PInv (c', s') \<and> p_rev s' = p_rev s \<and> grows c c' \<and> length (idToPts c') \<le> length (idToPts c) + 2 \<and>
    ppt_view els (c', s') = (ppt_view els (c, s))(k := insert e (ppt_view els (c, s) k))"
proof -
  obtain d where d: "s_set ops (s_new ops) e = Some d" "good d" "els d = {e}"
    using singleton_set [OF assms(1) e] by blast
  have u: "ppt_view els (c, s) k \<union> {e} = insert e (ppt_view els (c, s) k)" by simp
  show ?thesis using ppt_unionSet_spec [OF inv d(2) room, of k] unfolding ppt_addPts_eq [OF d(1)] d(3) u
    by simp
qed

lemma ppt_unionPts_spec:
  assumes inv: "PInv (c, s)" and room: "length (idToPts c) + 2 \<le> 2 ^ 32"
  shows "\<exists>c' s'. ppt_unionPts ops (c, s) k l = Some (\<not> ppt_view els (c, s) l \<subseteq> ppt_view els (c, s) k, c', s') \<and>
    PInv (c', s') \<and> p_rev s' = p_rev s \<and> grows c c' \<and> length (idToPts c') \<le> length (idToPts c) + 2 \<and>
    ppt_view els (c', s') = (ppt_view els (c, s))(k := ppt_view els (c, s) k \<union> ppt_view els (c, s) l)"
proof -
  have l: "length (idToPts c) < 2 ^ 32" using room by simp
  have v: "pts_of els c (ppt_id s l) = ppt_view els (c, s) l" by (simp add: ppt_view_def)
  obtain c' s' where u: "unionPtsFromId ops (c, ppt_touch l s) k (ppt_id s l) =
        Some (\<not> ppt_view els (c, s) l \<subseteq> ppt_view els (c, s) k, c', s')"
      "PInv (c', s')" "p_rev s' = p_rev s" "length (idToPts c') \<le> length (idToPts c) + 1" "grows c c'"
      "ppt_view els (c', s') = (ppt_view els (c, s))(k := ppt_view els (c, s) k \<union> ppt_view els (c, s) l)"
    using unionPtsFromId_spec [OF PInv_touch(1) [OF inv, of l] PInv_id [OF inv, of l] l, of k]
    unfolding PInv_touch(2) [OF inv] v by auto
  have "length (idToPts c') \<le> length (idToPts c) + 2" using u(4) by linarith
  then show ?thesis using u by (simp add: ppt_unionPts_def)
qed

lemma ppt_clearPts_spec:
  assumes "ready" and inv: "PInv (c, s)" and e: "valid_new e" and room: "length (idToPts c) + 2 \<le> 2 ^ 32"
  shows "\<exists>c' s'. ppt_clearPts ops (c, s) k e = Some (c', s') \<and> PInv (c', s') \<and> p_rev s' = p_rev s \<and> grows c c' \<and>
    length (idToPts c') \<le> length (idToPts c) + 2 \<and>
    ppt_view els (c', s') = (ppt_view els (c, s))(k := ppt_view els (c, s) k - {e})"
proof -
  obtain d where d: "s_set ops (s_new ops) e = Some d" "good d" "els d = {e}"
    using singleton_set [OF assms(1) e] by blast
  have r: "Ready c" using inv by (simp add: ppt_inv_def)
  obtain i c1 where e1: "emplacePts (base ops) c d = Some (i, c1)" "Ready c1" "grows c c1"
      "i < length (idToPts c1)" "pts_of els c1 i = els d" "length (idToPts c1) \<le> length (idToPts c) + 1"
    using Ready_emplace [OF r d(2)] room by auto
  note p = PInv_grows [OF inv e1(2,3)] and v = PInv_id [OF PInv_grows(1) [OF inv e1(2,3)], of k]
  have l: "length (idToPts c1) < 2 ^ 32" using e1(6) room by linarith
  obtain j c' where u: "complementPts (base ops) c1 (ppt_id s k) i = Some (j, c')"
      "op_result ComplementOp c1 (ppt_id s k) i j c'"
    using complementPts_spec [OF Ready_Inv [OF e1(2)] v e1(4) l] by blast
  note st = op_result_step [OF e1(2) u(2)]
  have old: "pts_of els c1 (ppt_id s k) = ppt_view els (c, s) k" using fun_cong [OF p(2), of k] by (simp add: ppt_view_def)
  have j: "pts_of els c' j = ppt_view els (c, s) k - {e}" using st(4) old e1(5) d(3) by simp
  have ch: "j \<noteq> ppt_id s k \<longleftrightarrow> e \<in> ppt_view els (c, s) k"
    using op_result_changed [OF e1(2) u(2) v] old e1(5) d(3) by auto
  let ?t = "ppt_touch k s"
  note t = PInv_grows [OF PInv_touch(1) [OF p(1), of k] st(1,2)] and tv = PInv_touch(2) [OF p(1), of k]
  have len: "length (idToPts c') \<le> length (idToPts c) + 2" using st(5) e1(6) by linarith
  have gr: "grows c c'" by (rule grows_trans [OF e1(3) st(2)])
  show ?thesis
  proof (cases "j = ppt_id s k")
    case True
    then have "ppt_clearPts ops (c, s) k e = Some (c', ?t)"
      using d(1) e1(1) u(1) by (simp add: ppt_clearPts_def)
    moreover have "ppt_view els (c, s) = (ppt_view els (c, s))(k := ppt_view els (c, s) k - {e})"
      using True ch by (auto simp: fun_eq_iff)
    ultimately show ?thesis using t tv p(2) len gr by auto
  next
    case False
    define m where "m = rev_update (clearSingleRevPts (p_rev s) k) e (p_revPts s)"
    have m: "rev_ok ((ppt_view els (c', ?t))(k := pts_of els c' j)) m"
      if "p_rev ?t" "rev_ok (ppt_view els (c', ?t)) (p_revPts ?t)"
    proof -
      have "clearSingleRevPts True k = removeKey k" by (simp add: clearSingleRevPts_def fun_eq_iff)
      then show ?thesis using rev_ok_clear [OF that(2), of k "[e]"] that(1) j t(2) tv p(2) by (simp add: m_def)
    qed
    note q = PInv_put [OF t(1) st(3), of k m, OF m]
    have "ppt_clearPts ops (c, s) k e = Some (c', (ppt_put k j ?t)\<lparr>p_revPts := m\<rparr>)"
      using False d(1) e1(1) u(1) by (simp add: ppt_clearPts_def m_def)
    then show ?thesis using q t(2) tv p(2) j len gr by auto
  qed
qed

lemma ppt_getPts_spec:
  assumes inv: "PInv (c, s)"
  shows "\<exists>d. ppt_getPts (c, s) k = Some (d, c, ppt_touch k s) \<and> good d \<and> els d = ppt_view els (c, s) k"
proof -
  have "Ready c" using inv by (simp add: ppt_inv_def)
  then show ?thesis using Ready_actual [OF _ PInv_id [OF inv, of k]]
    by (auto simp: ppt_getPts_def ppt_view_def)
qed

lemma ppt_clearFullPts_spec:
  assumes inv: "PInv (c, s)"
  shows "\<exists>s'. ppt_clearFullPts ops (c, s) k = Some (c, s') \<and> PInv (c, s') \<and> p_rev s' = p_rev s \<and>
    ppt_view els (c, s') = (ppt_view els (c, s))(k := {})"
proof -
  have r: "Ready c" using inv by (simp add: ppt_inv_def)
  obtain d where d: "ppt_getPts (c, s) k = Some (d, c, ppt_touch k s)" "good d" "els d = ppt_view els (c, s) k"
    using ppt_getPts_spec [OF inv] by blast
  note t = PInv_touch [OF inv, of k]
  obtain m where m: "clearRevPts ops (p_rev s) d k (p_revPts s) = Some m"
      "p_rev s \<Longrightarrow> rev_ok (ppt_view els (c, s)) (p_revPts s) \<Longrightarrow>
        rev_ok ((ppt_view els (c, s))(k := ppt_view els (c, s) k - els d)) m"
    using clearRevPts_spec [OF d(2), of "p_rev s" k "p_revPts s" "ppt_view els (c, s)"] by blast
  have m': "rev_ok ((ppt_view els (c, ppt_touch k s))(k := pts_of els c emptyPointsToId)) m"
    if "p_rev (ppt_touch k s)" "rev_ok (ppt_view els (c, ppt_touch k s)) (p_revPts (ppt_touch k s))"
    using m(2) that t(2) d(3) Ready_empty(2) [OF r] by simp
  note q = PInv_put [OF t(1) Ready_empty(1) [OF r], of k m, OF m']
  have "ppt_clearFullPts ops (c, s) k = Some (c, (ppt_put k emptyPointsToId (ppt_touch k s))\<lparr>p_revPts := m\<rparr>)"
    using d(1) m(1) by (simp add: ppt_clearFullPts_def ppt_put_def)
  then show ?thesis using q t(2) Ready_empty(2) [OF r] by auto
qed

lemma ppt_getRevPts_spec:
  assumes inv: "PInv (c, s)" and r: "p_rev s"
  shows "\<exists>ks s'. ppt_getRevPts (c, s) e = Some (ks, c, s') \<and> set ks = {k. e \<in> ppt_view els (c, s) k} \<and>
    distinct ks \<and> PInv (c, s') \<and> ppt_view els (c, s') = ppt_view els (c, s) \<and> p_rev s' = p_rev s"
proof -
  have v: "ppt_view els (c, s\<lparr>p_revPts := km_touch [] e (p_revPts s)\<rparr>) = ppt_view els (c, s)"
    by (simp add: ppt_view_def fun_eq_iff)
  have ok: "rev_ok (ppt_view els (c, s)) (p_revPts s)" using inv r by (simp add: ppt_inv_def)
  then have "set (km_get [] (p_revPts s) e) = {k. e \<in> ppt_view els (c, s) k}" "distinct (km_get [] (p_revPts s) e)"
    by (simp_all add: rev_ok_def)
  then show ?thesis using inv r v by (simp add: ppt_getRevPts_def ppt_inv_def)
qed

lemma ppt_remapAllPts_spec:
  assumes r: "ready" and inv: "Inv c" and mov: "\<forall>d \<in> set (idToPts c). movable d"
    and ids: "ids_in c (p_pts s)" and rev: "p_rev s \<longrightarrow> rev_ok (ppt_view els (c, s)) (p_revPts s)"
  shows "\<exists>c'. ppt_remapAllPts ops (c, s) = Some (c', s) \<and> PInv (c', s) \<and>
    ppt_view els (c', s) = ppt_view els (c, s)"
proof -
  obtain c' where c': "remapAllPts (base ops) c = Some c'" "Inv c'" "length (idToPts c') = length (idToPts c)"
      "\<And>i. i < length (idToPts c) \<Longrightarrow> pts_of els c' i = pts_of els c i"
      "\<forall>d \<in> set (idToPts c'). same (s_new ops) d"
    by (rule remapAllPts_spec [OF r inv mov]) blast
  have ne: "idToPts c' \<noteq> []" using empty_in_range [OF c'(2)] by auto
  have ready: "Ready c'" using c'(2,5) ne good_new [OF r] good_ok by (simp add: cache_ready_def)
  have "ppt_id s k < length (idToPts c)" for k
    unfolding ppt_id_def by (rule ids_in_get [OF ids empty_in_range [OF inv]])
  then have v: "ppt_view els (c', s) = ppt_view els (c, s)" using c'(4) by (simp add: ppt_view_def fun_eq_iff)
  show ?thesis using c'(1,3) ready ids rev v by (simp add: ppt_remapAllPts_def ppt_inv_def ids_in_def)
qed

lemma actual_pts_spec:
  assumes "Ready c" "\<forall>i \<in> set is. i < length (idToPts c)"
  shows "\<exists>ds. actual_pts c is = Some ds \<and> map els ds = map (pts_of els c) is \<and> (\<forall>d \<in> set ds. good d)"
  using assms(2)
proof (induction "is")
  case (Cons i "is")
  then obtain ds where "actual_pts c is = Some ds" "map els ds = map (pts_of els c) is" "\<forall>d \<in> set ds. good d"
    by auto
  then show ?case using Ready_actual [OF assms(1), of i] Cons.prems by auto
qed simp

text \<open>The live sets counted: one occurrence for every key that has the set.\<close>

lemma ppt_getAllPts_live:
  assumes inv: "PInv (c, s)"
  shows "\<exists>m. ppt_getAllPts ops (c, s) True = Some m \<and>
    counts els m (\<lambda>a. card {k \<in> dom (map_of (p_pts s)). ppt_view els (c, s) k = a})"
proof -
  have r: "Ready c" and ids: "ids_in c (p_pts s)" using inv by (simp_all add: ppt_inv_def)
  have "\<forall>i \<in> set (map snd (p_pts s)). i < length (idToPts c)" using ids by (simp add: ids_in_def km_all_def)
  then obtain ds where ds: "actual_pts c (map snd (p_pts s)) = Some ds"
      "map els ds = map (pts_of els c) (map snd (p_pts s))" "\<forall>d \<in> set ds. good d"
    using actual_pts_spec [OF r] by blast
  have g: "\<forall>d \<in> set ds. ok d \<and> same (s_new ops) d" using ds(3) by (simp add: good_def)
  have c0: "counts els [] (\<lambda>_. 0)" by (simp add: counts_def occ_def abs_map_def u32_def)
  have k0: "keys_ok ok same (s_new ops) []" by (simp add: keys_ok_def)
  obtain m where m: "count_sets (base ops) ds [] = Some m" "counts els m (\<lambda>a. 0 + count_list (map els ds) a)"
    using count_sets_spec [OF g k0 c0] by blast
  have "(\<lambda>a. 0 + count_list (map els ds) a) =
      (\<lambda>a. card {k \<in> dom (map_of (p_pts s)). ppt_view els (c, s) k = a})"
    using count_list_keys [of "p_pts s" "pts_of els c" _ emptyPointsToId] ids
    by (simp add: fun_eq_iff ds(2) ids_in_def ppt_view_def ppt_id_def)
  then show ?thesis using m ds(1) by (simp add: ppt_getAllPts_def)
qed

end

section \<open>The persistent structure implements the contract\<close>

definition ppt_pt_inv :: "(64 word \<Rightarrow> 64 word) \<Rightarrow> pt_globals \<Rightarrow> (points_to ppcache \<times> ('k, NodeID) ppt) \<Rightarrow> bool" where
  "ppt_pt_inv h g cs \<longleftrightarrow> globals_ready g \<and> ppt_inv (pt_set_ops h g) pt_sparse pt_nodes pt_same cs"

lemma ppt_room_step:
  "ppt_room (c, s) (Suc n) \<Longrightarrow> length (idToPts c) + 2 \<le> 2 ^ 32"
  "ppt_room (c, s) (Suc n) \<Longrightarrow> length (idToPts c') \<le> length (idToPts c) + 2 \<Longrightarrow> ppt_room (c', s') n"
  by (simp_all add: ppt_room_def)

interpretation pp: pt_data "ppt_ops (pt_set_ops h g)" ppt_getPts ppt_getRevPts
  "ppt_unionSet (pt_set_ops h g)" "ppt_pt_inv h g" "ppt_view pt_nodes" ppt_room
  "\<lambda>cs cs'. grows (fst cs) (fst cs')"
  "\<lambda>cs. p_rev (snd cs)" "pt_node_ok g" "pt_good g" pt_nodes
  for h g
proof (unfold_locales, goal_cases)
  case (1 cs n e k)
  obtain c s where cs: "cs = (c, s)" by fastforce
  note st = ppt_room_step [OF 1(2) [unfolded cs]]
  show ?case using ps.ppt_addPts_spec [of g h c s e k] 1 st unfolding cs ps_good ppt_pt_inv_def
    by (fastforce simp: ppt_ops_def)
next
  case (2 cs n k l)
  obtain c s where cs: "cs = (c, s)" by fastforce
  note st = ppt_room_step [OF 2(2) [unfolded cs]]
  show ?case using ps.ppt_unionPts_spec [of h g c s k l] 2 st unfolding cs ps_good ppt_pt_inv_def
    by (fastforce simp: ppt_ops_def)
next
  case (3 cs n d k)
  obtain c s where cs: "cs = (c, s)" by fastforce
  note st = ppt_room_step [OF 3(2) [unfolded cs]]
  show ?case using ps.ppt_unionSet_spec [of h g c s d k] 3 st unfolding cs ps_good ppt_pt_inv_def
    by fastforce
next
  case (4 cs n e k)
  obtain c s where cs: "cs = (c, s)" by fastforce
  note st = ppt_room_step [OF 4(2) [unfolded cs]]
  show ?case using ps.ppt_clearPts_spec [of g h c s e k] 4 st unfolding cs ps_good ppt_pt_inv_def
    by (fastforce simp: ppt_ops_def)
next
  case (5 cs n k)
  obtain c s where cs: "cs = (c, s)" by fastforce
  show ?case using ps.ppt_clearFullPts_spec [of h g c s k] 5 unfolding cs ppt_pt_inv_def
    by (fastforce simp: ppt_ops_def ppt_room_def)
next
  case (6 cs k)
  obtain c s where cs: "cs = (c, s)" by fastforce
  show ?case using ps.ppt_getPts_spec [of h g c s k] ps.PInv_touch [of h g c s k] 6
    unfolding cs ps_good ppt_pt_inv_def by (auto simp: ppt_room_def)
next
  case (7 cs e)
  obtain c s where cs: "cs = (c, s)" by fastforce
  show ?case using ps.ppt_getRevPts_spec [of h g c s e] 7 unfolding cs ppt_pt_inv_def by auto
next
  case (8 cs e)
  then show ?case by (cases cs) (simp add: ppt_getRevPts_def)
qed

text \<open>A fresh cache is where a persistent structure starts.\<close>

lemma fresh_cache_ready:
  assumes "globals_ready g" "cache_new (pt_ops h g) = Some c"
  shows "cache_ready (pt_set_ops h g) pt_sparse pt_nodes pt_same c" "length (idToPts c) = 1"
proof -
  obtain c' where c': "cache_new (pt_ops h g) = Some c'" "cache_inv pt_sparse pt_nodes pt_same c'"
      "idToPts c' = [d_new (pt_ops h g)]"
    by (rule pc.cache_new_spec [OF assms(1), of h]) blast
  then have c: "cache_inv pt_sparse pt_nodes pt_same c" "idToPts c = [pt_new g]"
    using assms(2) by (simp_all add: pt_ops_def)
  then show "cache_ready (pt_set_ops h g) pt_sparse pt_nodes pt_same c" "length (idToPts c) = 1"
    using pt_sparse_new [OF assms(1)] by (simp_all add: cache_ready_def pt_set_new)
qed

lemma fresh_ppt:
  assumes "globals_ready g" "cache_new (pt_ops h g) = Some c"
  shows "ppt_pt_inv h g (c, ppt_new r)" "ppt_view pt_nodes (c, ppt_new r) = (\<lambda>_. {})"
    "2 * n < 2 ^ 32 \<Longrightarrow> ppt_room (c, ppt_new r) n"
  using assms ps.ppt_new_spec [OF fresh_cache_ready(1) [OF assms], of r] fresh_cache_ready(2) [OF assms]
  by (simp_all add: ppt_pt_inv_def ppt_room_def)

end
