(* ===== verification/VersionedPT.thy ===== *)
theory VersionedPT
  imports PersistentPT
begin

text \<open>
  \<open>MutableVersionedPTData\<close> and \<open>PersistentVersionedPTData\<close>: two structures side
  by side, one for keys (top-level pointers) and one for versioned keys (address-taken objects).
  The overloads of an operation for the two kinds of key are one function on the sum of the kinds,
  so that the pair meets the same contract as its parts.
\<close>

section \<open>Mutable\<close>

datatype ('k, 'v) vkey = TL 'k | AT 'v

record ('k, 'v, 'd, 'e) mvpt =
  tlPTData :: "('k, 'd, 'e) mpt"
  atPTData :: "('v, 'd, 'e) mpt"

definition mvpt_new :: "bool \<Rightarrow> ('k, 'v, 'd, 'e) mvpt" where
  "mvpt_new reversePT = \<lparr>tlPTData = mpt_new reversePT, atPTData = mpt_new reversePT\<rparr>"

definition mvpt_clear :: "('k, 'v, 'd, 'e) mvpt \<Rightarrow> ('k, 'v, 'd, 'e) mvpt" where
  "mvpt_clear s = s\<lparr>tlPTData := mpt_clear (tlPTData s), atPTData := mpt_clear (atPTData s)\<rparr>"

abbreviation in_tl :: "('k, 'v, 'd, 'e) mvpt \<Rightarrow> ('k, 'd, 'e) mpt \<Rightarrow> ('k, 'v, 'd, 'e) mvpt" where
  "in_tl s t \<equiv> s\<lparr>tlPTData := t\<rparr>"

abbreviation in_at :: "('k, 'v, 'd, 'e) mvpt \<Rightarrow> ('v, 'd, 'e) mpt \<Rightarrow> ('k, 'v, 'd, 'e) mvpt" where
  "in_at s t \<equiv> s\<lparr>atPTData := t\<rparr>"

fun mvpt_getPts :: "('d, 'e) set_ops \<Rightarrow> ('k, 'v, 'd, 'e) mvpt \<Rightarrow> ('k, 'v) vkey \<Rightarrow>
    'd \<times> ('k, 'v, 'd, 'e) mvpt" where
  "mvpt_getPts ops s (TL k) = map_prod id (in_tl s) (mpt_getPts ops (tlPTData s) k)"
| "mvpt_getPts ops s (AT v) = map_prod id (in_at s) (mpt_getPts ops (atPTData s) v)"

definition mvpt_getRevPts :: "('k, 'v, 'd, 'e) mvpt \<Rightarrow> 'e \<Rightarrow> ('k list \<times> ('k, 'v, 'd, 'e) mvpt) option" where
  "mvpt_getRevPts s e = map_option (map_prod id (in_tl s)) (mpt_getRevPts (tlPTData s) e)"

definition mvpt_getVersionedKeyRevPts :: "('k, 'v, 'd, 'e) mvpt \<Rightarrow> 'e \<Rightarrow>
    ('v list \<times> ('k, 'v, 'd, 'e) mvpt) option" where
  "mvpt_getVersionedKeyRevPts s e = map_option (map_prod id (in_at s)) (mpt_getRevPts (atPTData s) e)"

fun mvpt_addPts :: "('d, 'e) set_ops \<Rightarrow> ('k, 'v, 'd, 'e) mvpt \<Rightarrow> ('k, 'v) vkey \<Rightarrow> 'e \<Rightarrow>
    (bool \<times> ('k, 'v, 'd, 'e) mvpt) option" where
  "mvpt_addPts ops s (TL k) e = map_option (map_prod id (in_tl s)) (mpt_addPts ops (tlPTData s) k e)"
| "mvpt_addPts ops s (AT v) e = map_option (map_prod id (in_at s)) (mpt_addPts ops (atPTData s) v e)"

fun mvpt_unionSet :: "('d, 'e) set_ops \<Rightarrow> ('k, 'v, 'd, 'e) mvpt \<Rightarrow> ('k, 'v) vkey \<Rightarrow> 'd \<Rightarrow>
    (bool \<times> ('k, 'v, 'd, 'e) mvpt) option" where
  "mvpt_unionSet ops s (TL k) d = map_option (map_prod id (in_tl s)) (mpt_unionSet ops (tlPTData s) k d)"
| "mvpt_unionSet ops s (AT v) d = map_option (map_prod id (in_at s)) (mpt_unionSet ops (atPTData s) v d)"

text \<open>Across the two structures the set of the source is read first and then joined.\<close>

fun mvpt_unionPts :: "('d, 'e) set_ops \<Rightarrow> ('k, 'v, 'd, 'e) mvpt \<Rightarrow> ('k, 'v) vkey \<Rightarrow> ('k, 'v) vkey \<Rightarrow>
    (bool \<times> ('k, 'v, 'd, 'e) mvpt) option" where
  "mvpt_unionPts ops s (TL k) (TL l) =
     map_option (map_prod id (in_tl s)) (mpt_unionPts ops (tlPTData s) k l)"
| "mvpt_unionPts ops s (AT v) (AT w) =
     map_option (map_prod id (in_at s)) (mpt_unionPts ops (atPTData s) v w)"
| "mvpt_unionPts ops s (AT v) (TL l) =
     (let (d, t) = mpt_getPts ops (tlPTData s) l; s = in_tl s t in
      map_option (map_prod id (in_at s)) (mpt_unionSet ops (atPTData s) v d))"
| "mvpt_unionPts ops s (TL k) (AT w) =
     (let (d, t) = mpt_getPts ops (atPTData s) w; s = in_at s t in
      map_option (map_prod id (in_tl s)) (mpt_unionSet ops (tlPTData s) k d))"

fun mvpt_clearPts :: "('d, 'e) set_ops \<Rightarrow> ('k, 'v, 'd, 'e) mvpt \<Rightarrow> ('k, 'v) vkey \<Rightarrow> 'e \<Rightarrow>
    ('k, 'v, 'd, 'e) mvpt option" where
  "mvpt_clearPts ops s (TL k) e = map_option (in_tl s) (mpt_clearPts ops (tlPTData s) k e)"
| "mvpt_clearPts ops s (AT v) e = map_option (in_at s) (mpt_clearPts ops (atPTData s) v e)"

fun mvpt_clearFullPts :: "('d, 'e) set_ops \<Rightarrow> ('k, 'v, 'd, 'e) mvpt \<Rightarrow> ('k, 'v) vkey \<Rightarrow>
    ('k, 'v, 'd, 'e) mvpt option" where
  "mvpt_clearFullPts ops s (TL k) = map_option (in_tl s) (mpt_clearFullPts ops (tlPTData s) k)"
| "mvpt_clearFullPts ops s (AT v) = map_option (in_at s) (mpt_clearFullPts ops (atPTData s) v)"

definition mvpt_remapAllPts :: "('d, 'e) set_ops \<Rightarrow> ('k, 'v, 'd, 'e) mvpt \<Rightarrow> ('k, 'v, 'd, 'e) mvpt option" where
  "mvpt_remapAllPts ops s = do {
     t \<leftarrow> mpt_remapAllPts ops (tlPTData s);
     let s = in_tl s t;
     a \<leftarrow> mpt_remapAllPts ops (atPTData s);
     Some (in_at s a)
   }"

definition mvpt_getAllPts :: "('d, 'e) set_ops \<Rightarrow> ('k, 'v, 'd, 'e) mvpt \<Rightarrow> ('d \<times> nat) list option" where
  "mvpt_getAllPts ops s = do {
     allPts \<leftarrow> mpt_getAllPts ops (tlPTData s);
     atPts \<leftarrow> mpt_getAllPts ops (atPTData s);
     mergePtsOccMaps (base ops) allPts atPts
   }"

definition mvpt_ops :: "('d, 'e) set_ops \<Rightarrow> (('k, 'v, 'd, 'e) mvpt, ('k, 'v) vkey, 'e) ptd_ops" where
  "mvpt_ops ops = \<lparr>o_addPts = mvpt_addPts ops, o_unionPts = mvpt_unionPts ops,
     o_clearPts = mvpt_clearPts ops, o_clearFullPts = mvpt_clearFullPts ops\<rparr>"

text \<open>Both reverse sets of a datum.\<close>

definition mvpt_allRevPts :: "('k, 'v, 'd, 'e) mvpt \<Rightarrow> 'e \<Rightarrow> (('k, 'v) vkey list \<times> ('k, 'v, 'd, 'e) mvpt) option" where
  "mvpt_allRevPts s e = do {
     (ks, s) \<leftarrow> mvpt_getRevPts s e;
     (vs, s) \<leftarrow> mvpt_getVersionedKeyRevPts s e;
     Some (map TL ks @ map AT vs, s)
   }"

fun mvpt_view :: "('d, 'e) set_ops \<Rightarrow> ('d \<Rightarrow> 'e set) \<Rightarrow> ('k, 'v, 'd, 'e) mvpt \<Rightarrow> ('k, 'v) vkey \<Rightarrow> 'e set" where
  "mvpt_view ops els s (TL k) = mpt_view ops els (tlPTData s) k"
| "mvpt_view ops els s (AT v) = mpt_view ops els (atPTData s) v"

definition mvpt_inv :: "('d, 'e) set_ops \<Rightarrow> ('d \<Rightarrow> bool) \<Rightarrow> ('d \<Rightarrow> 'e set) \<Rightarrow> ('k, 'v, 'd, 'e) mvpt \<Rightarrow> bool" where
  "mvpt_inv ops good els s \<longleftrightarrow> mpt_inv ops good els (tlPTData s) \<and> mpt_inv ops good els (atPTData s) \<and>
     m_rev (tlPTData s) = m_rev (atPTData s)"

context points_to_set begin

abbreviation VInv :: "('k, 'v, 'd, 'e) mvpt \<Rightarrow> bool" where "VInv \<equiv> mvpt_inv ops good els"
abbreviation VView :: "('k, 'v, 'd, 'e) mvpt \<Rightarrow> ('k, 'v) vkey \<Rightarrow> 'e set" where "VView \<equiv> mvpt_view ops els"

lemma in_tl_spec:
  assumes "VInv s" "mpt_inv ops good els t" "m_rev t = m_rev (tlPTData s)"
    and "mpt_view ops els t = (mpt_view ops els (tlPTData s))(k := u)"
  shows "VInv (in_tl s t)" "VView (in_tl s t) = (VView s)(TL k := u)"
proof -
  show "VInv (in_tl s t)" using assms by (simp add: mvpt_inv_def)
  show "VView (in_tl s t) = (VView s)(TL k := u)"
  proof
    fix x show "VView (in_tl s t) x = ((VView s)(TL k := u)) x" using assms(4) by (cases x) simp_all
  qed
qed

lemma in_at_spec:
  assumes "VInv s" "mpt_inv ops good els t" "m_rev t = m_rev (atPTData s)"
    and "mpt_view ops els t = (mpt_view ops els (atPTData s))(k := u)"
  shows "VInv (in_at s t)" "VView (in_at s t) = (VView s)(AT k := u)"
proof -
  show "VInv (in_at s t)" using assms by (simp add: mvpt_inv_def)
  show "VView (in_at s t) = (VView s)(AT k := u)"
  proof
    fix x show "VView (in_at s t) x = ((VView s)(AT k := u)) x" using assms(4) by (cases x) simp_all
  qed
qed

text \<open>A part is replaced by one that stands for the same map.\<close>

lemma in_tl_same:
  assumes "VInv s" "mpt_inv ops good els t" "m_rev t = m_rev (tlPTData s)"
    and "mpt_view ops els t = mpt_view ops els (tlPTData s)"
  shows "VInv (in_tl s t)" "VView (in_tl s t) = VView s"
  using in_tl_spec [OF assms(1-3), of undefined "mpt_view ops els (tlPTData s) undefined"] assms(4)
  by (simp_all add: fun_upd_idem)

lemma in_at_same:
  assumes "VInv s" "mpt_inv ops good els t" "m_rev t = m_rev (atPTData s)"
    and "mpt_view ops els t = mpt_view ops els (atPTData s)"
  shows "VInv (in_at s t)" "VView (in_at s t) = VView s"
  using in_at_spec [OF assms(1-3), of undefined "mpt_view ops els (atPTData s) undefined"] assms(4)
  by (simp_all add: fun_upd_idem)

lemma mvpt_parts: "VInv s \<Longrightarrow> mpt_inv ops good els (tlPTData s)" "VInv s \<Longrightarrow> mpt_inv ops good els (atPTData s)"
  by (simp_all add: mvpt_inv_def)

lemma mvpt_addPts_spec:
  assumes "VInv s" "valid_new e"
  shows "\<exists>s'. mvpt_addPts ops s x e = Some (e \<notin> VView s x, s') \<and> VInv s' \<and>
    m_rev (tlPTData s') = m_rev (tlPTData s) \<and> VView s' = (VView s)(x := insert e (VView s x))"
proof (cases x)
  case (TL k)
  show ?thesis using mpt_addPts_spec [OF mvpt_parts(1) [OF assms(1)] assms(2), of k] in_tl_spec [OF assms(1)]
    unfolding TL by fastforce
next
  case (AT v)
  show ?thesis using mpt_addPts_spec [OF mvpt_parts(2) [OF assms(1)] assms(2), of v] in_at_spec [OF assms(1)]
    unfolding AT by fastforce
qed

lemma mvpt_unionSet_spec:
  assumes "VInv s" "good d"
  shows "\<exists>s'. mvpt_unionSet ops s x d = Some (\<not> els d \<subseteq> VView s x, s') \<and> VInv s' \<and>
    m_rev (tlPTData s') = m_rev (tlPTData s) \<and> VView s' = (VView s)(x := VView s x \<union> els d)"
proof (cases x)
  case (TL k)
  show ?thesis using mpt_unionSet_spec [OF mvpt_parts(1) [OF assms(1)] assms(2), of k] in_tl_spec [OF assms(1)]
    unfolding TL by fastforce
next
  case (AT v)
  show ?thesis using mpt_unionSet_spec [OF mvpt_parts(2) [OF assms(1)] assms(2), of v] in_at_spec [OF assms(1)]
    unfolding AT by fastforce
qed

lemma mvpt_getPts_spec:
  assumes "VInv s"
  shows "\<exists>d s'. mvpt_getPts ops s x = (d, s') \<and> good d \<and> els d = VView s x \<and> VInv s' \<and>
    VView s' = VView s \<and> m_rev (tlPTData s') = m_rev (tlPTData s)"
proof (cases x)
  case (TL k)
  show ?thesis using mpt_getPts_spec [OF mvpt_parts(1) [OF assms], of k] in_tl_same [OF assms]
    unfolding TL by fastforce
next
  case (AT v)
  show ?thesis using mpt_getPts_spec [OF mvpt_parts(2) [OF assms], of v] in_at_same [OF assms]
    unfolding AT by fastforce
qed

text \<open>A union across the two structures is a read followed by a union with a set.\<close>

lemma mvpt_unionPts_cross:
  "mvpt_unionPts ops s (AT v) (TL l) = (let (d, s) = mvpt_getPts ops s (TL l) in mvpt_unionSet ops s (AT v) d)"
  "mvpt_unionPts ops s (TL k) (AT w) = (let (d, s) = mvpt_getPts ops s (AT w) in mvpt_unionSet ops s (TL k) d)"
  by (simp_all add: Let_def split: prod.splits)

lemma mvpt_unionPts_spec:
  assumes "VInv s"
  shows "\<exists>s'. mvpt_unionPts ops s x y = Some (\<not> VView s y \<subseteq> VView s x, s') \<and> VInv s' \<and>
    m_rev (tlPTData s') = m_rev (tlPTData s) \<and> VView s' = (VView s)(x := VView s x \<union> VView s y)"
proof -
  have cross: "\<exists>s'. (let (d, s) = mvpt_getPts ops s y in mvpt_unionSet ops s x d) =
      Some (\<not> VView s y \<subseteq> VView s x, s') \<and> VInv s' \<and>
    m_rev (tlPTData s') = m_rev (tlPTData s) \<and> VView s' = (VView s)(x := VView s x \<union> VView s y)"
  proof -
    obtain d t where d: "mvpt_getPts ops s y = (d, t)" "good d" "els d = VView s y" "VInv t"
        "VView t = VView s" "m_rev (tlPTData t) = m_rev (tlPTData s)"
      using mvpt_getPts_spec [OF assms] by blast
    show ?thesis using mvpt_unionSet_spec [OF d(4,2), of x] unfolding d(3,5,6) d(1) by simp
  qed
  show ?thesis
  proof (cases x; cases y)
    fix k l assume x: "x = TL k" and y: "y = TL l"
    show ?thesis using mpt_unionPts_spec [OF mvpt_parts(1) [OF assms], of k l] in_tl_spec [OF assms]
      unfolding x y by fastforce
  next
    fix k w assume x: "x = TL k" and y: "y = AT w"
    show ?thesis using cross unfolding x y mvpt_unionPts_cross .
  next
    fix v l assume x: "x = AT v" and y: "y = TL l"
    show ?thesis using cross unfolding x y mvpt_unionPts_cross .
  next
    fix v w assume x: "x = AT v" and y: "y = AT w"
    show ?thesis using mpt_unionPts_spec [OF mvpt_parts(2) [OF assms], of v w] in_at_spec [OF assms]
      unfolding x y by fastforce
  qed
qed

lemma mvpt_clearPts_spec:
  assumes "VInv s" "valid_new e"
  shows "\<exists>s'. mvpt_clearPts ops s x e = Some s' \<and> VInv s' \<and>
    m_rev (tlPTData s') = m_rev (tlPTData s) \<and> VView s' = (VView s)(x := VView s x - {e})"
proof (cases x)
  case (TL k)
  show ?thesis using mpt_clearPts_spec [OF mvpt_parts(1) [OF assms(1)] assms(2), of k] in_tl_spec [OF assms(1)]
    unfolding TL by fastforce
next
  case (AT v)
  show ?thesis using mpt_clearPts_spec [OF mvpt_parts(2) [OF assms(1)] assms(2), of v] in_at_spec [OF assms(1)]
    unfolding AT by fastforce
qed

lemma mvpt_clearFullPts_spec:
  assumes "VInv s"
  shows "\<exists>s'. mvpt_clearFullPts ops s x = Some s' \<and> VInv s' \<and>
    m_rev (tlPTData s') = m_rev (tlPTData s) \<and> VView s' = (VView s)(x := {})"
proof (cases x)
  case (TL k)
  show ?thesis using mpt_clearFullPts_spec [OF mvpt_parts(1) [OF assms], of k] in_tl_spec [OF assms]
    unfolding TL by fastforce
next
  case (AT v)
  show ?thesis using mpt_clearFullPts_spec [OF mvpt_parts(2) [OF assms], of v] in_at_spec [OF assms]
    unfolding AT by fastforce
qed

lemma vkey_set: "{x. e \<in> VView s x} =
    TL ` {k. e \<in> mpt_view ops els (tlPTData s) k} \<union> AT ` {v. e \<in> mpt_view ops els (atPTData s) v}"
proof (rule set_eqI)
  fix x show "x \<in> {x. e \<in> VView s x} \<longleftrightarrow>
    x \<in> TL ` {k. e \<in> mpt_view ops els (tlPTData s) k} \<union> AT ` {v. e \<in> mpt_view ops els (atPTData s) v}"
    by (cases x) auto
qed

lemma mvpt_allRevPts_spec:
  assumes inv: "VInv s" and r: "m_rev (tlPTData s)"
  shows "\<exists>xs s'. mvpt_allRevPts s e = Some (xs, s') \<and> set xs = {x. e \<in> VView s x} \<and> distinct xs \<and>
    VInv s' \<and> VView s' = VView s \<and> m_rev (tlPTData s') = m_rev (tlPTData s)"
proof -
  obtain ks t where t: "mpt_getRevPts (tlPTData s) e = Some (ks, t)" "distinct ks"
      "set ks = {k. e \<in> mpt_view ops els (tlPTData s) k}" "mpt_inv ops good els t"
      "mpt_view ops els t = mpt_view ops els (tlPTData s)"
    using mpt_getRevPts_spec [OF mvpt_parts(1) [OF inv] r, of e] by blast
  have ra: "m_rev (atPTData s)" using inv r by (simp add: mvpt_inv_def)
  obtain vs a where a: "mpt_getRevPts (atPTData s) e = Some (vs, a)" "distinct vs"
      "set vs = {v. e \<in> mpt_view ops els (atPTData s) v}" "mpt_inv ops good els a"
      "mpt_view ops els a = mpt_view ops els (atPTData s)"
    using mpt_getRevPts_spec [OF mvpt_parts(2) [OF inv] ra, of e] by blast
  have revs: "m_rev t = m_rev (tlPTData s)" "m_rev a = m_rev (atPTData s)"
    using t(1) a(1) by (auto simp: mpt_getRevPts_def split: if_splits)
  note s1 = in_tl_same [OF inv t(4) revs(1) t(5)]
  have s2: "VInv (in_at (in_tl s t) a)" "VView (in_at (in_tl s t) a) = VView s"
    using in_at_same [OF s1(1) a(4)] revs(2) a(5) s1(2) by simp_all
  have "mvpt_allRevPts s e = Some (map TL ks @ map AT vs, in_at (in_tl s t) a)"
    using t(1) a(1) by (simp add: mvpt_allRevPts_def mvpt_getRevPts_def mvpt_getVersionedKeyRevPts_def)
  moreover have "distinct (map TL ks @ map AT vs)" using t(2) a(2) by (auto simp: distinct_map inj_on_def)
  moreover have "set (map TL ks @ map AT vs) = {x. e \<in> VView s x}" using t(3) a(3) by (simp add: vkey_set)
  moreover have "m_rev (tlPTData (in_at (in_tl s t) a)) = m_rev (tlPTData s)" using revs by simp
  ultimately show ?thesis using s2 by blast
qed

end

interpretation mv: pt_data "mvpt_ops (pt_set_ops h g)" "\<lambda>s x. Some (mvpt_getPts (pt_set_ops h g) s x)"
  mvpt_allRevPts "mvpt_unionSet (pt_set_ops h g)"
  "mvpt_inv (pt_set_ops h g) (pt_good g) pt_nodes" "mvpt_view (pt_set_ops h g) pt_nodes" "\<lambda>_ _. True" "\<lambda>_ _. True"
  "\<lambda>s. m_rev (tlPTData s)" "pt_node_ok g" "pt_good g" pt_nodes
  for h g
proof (unfold_locales, goal_cases)
  case (1 s n e x)
  show ?case using ps.mvpt_addPts_spec [of h g s e x] 1 by (simp add: ps_good mvpt_ops_def)
next
  case (2 s n x y)
  show ?case using ps.mvpt_unionPts_spec [of h g s x y] 2 by (simp add: ps_good mvpt_ops_def)
next
  case (3 s n d x)
  show ?case using ps.mvpt_unionSet_spec [of h g s d x] 3 by (simp add: ps_good mvpt_ops_def)
next
  case (4 s n e x)
  show ?case using ps.mvpt_clearPts_spec [of h g s e x] 4 by (simp add: ps_good mvpt_ops_def)
next
  case (5 s n x)
  show ?case using ps.mvpt_clearFullPts_spec [of h g s x] 5 by (simp add: ps_good mvpt_ops_def)
next
  case (6 s x)
  show ?case using ps.mvpt_getPts_spec [of h g s x] 6 by (auto simp: ps_good)
next
  case (7 s e)
  show ?case using ps.mvpt_allRevPts_spec [of h g s e] 7 by (simp add: ps_good)
next
  case (8 s e)
  then show ?case by (simp add: mvpt_allRevPts_def mvpt_getRevPts_def mpt_getRevPts_def)
qed

section \<open>Persistent\<close>

text \<open>Both structures use the one cache.\<close>

record ('k, 'v, 'e) pvpt =
  p_tlPTData :: "('k, 'e) ppt"
  p_atPTData :: "('v, 'e) ppt"

type_synonym ('k, 'v, 'd, 'e) pvpt_state = "'d ppcache \<times> ('k, 'v, 'e) pvpt"

definition pvpt_new :: "bool \<Rightarrow> ('k, 'v, 'e) pvpt" where
  "pvpt_new reversePT = \<lparr>p_tlPTData = ppt_new reversePT, p_atPTData = ppt_new reversePT\<rparr>"

definition pvpt_clear :: "('k, 'v, 'e) pvpt \<Rightarrow> ('k, 'v, 'e) pvpt" where
  "pvpt_clear s = s\<lparr>p_tlPTData := ppt_clear (p_tlPTData s), p_atPTData := ppt_clear (p_atPTData s)\<rparr>"

text \<open>The result of an operation on one part, put back into the pair.\<close>

abbreviation p_in_tl :: "('k, 'v, 'e) pvpt \<Rightarrow> 'd ppcache \<times> ('k, 'e) ppt \<Rightarrow> ('k, 'v, 'd, 'e) pvpt_state" where
  "p_in_tl s r \<equiv> (fst r, s\<lparr>p_tlPTData := snd r\<rparr>)"

abbreviation p_in_at :: "('k, 'v, 'e) pvpt \<Rightarrow> 'd ppcache \<times> ('v, 'e) ppt \<Rightarrow> ('k, 'v, 'd, 'e) pvpt_state" where
  "p_in_at s r \<equiv> (fst r, s\<lparr>p_atPTData := snd r\<rparr>)"

fun pvpt_getPts :: "('k, 'v, 'd, 'e) pvpt_state \<Rightarrow> ('k, 'v) vkey \<Rightarrow> ('d \<times> ('k, 'v, 'd, 'e) pvpt_state) option" where
  "pvpt_getPts (c, s) (TL k) = map_option (map_prod id (p_in_tl s)) (ppt_getPts (c, p_tlPTData s) k)"
| "pvpt_getPts (c, s) (AT v) = map_option (map_prod id (p_in_at s)) (ppt_getPts (c, p_atPTData s) v)"

definition pvpt_getRevPts :: "('k, 'v, 'd, 'e) pvpt_state \<Rightarrow> 'e \<Rightarrow> ('k list \<times> ('k, 'v, 'd, 'e) pvpt_state) option" where
  "pvpt_getRevPts cs e =
     map_option (map_prod id (p_in_tl (snd cs))) (ppt_getRevPts (fst cs, p_tlPTData (snd cs)) e)"

definition pvpt_getVersionedKeyRevPts :: "('k, 'v, 'd, 'e) pvpt_state \<Rightarrow> 'e \<Rightarrow>
    ('v list \<times> ('k, 'v, 'd, 'e) pvpt_state) option" where
  "pvpt_getVersionedKeyRevPts cs e =
     map_option (map_prod id (p_in_at (snd cs))) (ppt_getRevPts (fst cs, p_atPTData (snd cs)) e)"

fun pvpt_addPts :: "('d, 'e) set_ops \<Rightarrow> ('k, 'v, 'd, 'e) pvpt_state \<Rightarrow> ('k, 'v) vkey \<Rightarrow> 'e \<Rightarrow>
    (bool \<times> ('k, 'v, 'd, 'e) pvpt_state) option" where
  "pvpt_addPts ops (c, s) (TL k) e = map_option (map_prod id (p_in_tl s)) (ppt_addPts ops (c, p_tlPTData s) k e)"
| "pvpt_addPts ops (c, s) (AT v) e = map_option (map_prod id (p_in_at s)) (ppt_addPts ops (c, p_atPTData s) v e)"

fun pvpt_unionSet :: "('d, 'e) set_ops \<Rightarrow> ('k, 'v, 'd, 'e) pvpt_state \<Rightarrow> ('k, 'v) vkey \<Rightarrow> 'd \<Rightarrow>
    (bool \<times> ('k, 'v, 'd, 'e) pvpt_state) option" where
  "pvpt_unionSet ops (c, s) (TL k) d = map_option (map_prod id (p_in_tl s)) (ppt_unionSet ops (c, p_tlPTData s) k d)"
| "pvpt_unionSet ops (c, s) (AT v) d = map_option (map_prod id (p_in_at s)) (ppt_unionSet ops (c, p_atPTData s) v d)"

text \<open>Across the two structures only a number is passed: the cache is the same.\<close>

fun pvpt_unionPts :: "('d, 'e) set_ops \<Rightarrow> ('k, 'v, 'd, 'e) pvpt_state \<Rightarrow> ('k, 'v) vkey \<Rightarrow> ('k, 'v) vkey \<Rightarrow>
    (bool \<times> ('k, 'v, 'd, 'e) pvpt_state) option" where
  "pvpt_unionPts ops (c, s) (TL k) (TL l) =
     map_option (map_prod id (p_in_tl s)) (ppt_unionPts ops (c, p_tlPTData s) k l)"
| "pvpt_unionPts ops (c, s) (AT v) (AT w) =
     map_option (map_prod id (p_in_at s)) (ppt_unionPts ops (c, p_atPTData s) v w)"
| "pvpt_unionPts ops (c, s) (AT v) (TL l) =
     (let i = ppt_id (p_tlPTData s) l; s = s\<lparr>p_tlPTData := ppt_touch l (p_tlPTData s)\<rparr> in
      map_option (map_prod id (p_in_at s)) (unionPtsFromId ops (c, p_atPTData s) v i))"
| "pvpt_unionPts ops (c, s) (TL k) (AT w) =
     (let i = ppt_id (p_atPTData s) w; s = s\<lparr>p_atPTData := ppt_touch w (p_atPTData s)\<rparr> in
      map_option (map_prod id (p_in_tl s)) (unionPtsFromId ops (c, p_tlPTData s) k i))"

fun pvpt_clearPts :: "('d, 'e) set_ops \<Rightarrow> ('k, 'v, 'd, 'e) pvpt_state \<Rightarrow> ('k, 'v) vkey \<Rightarrow> 'e \<Rightarrow>
    ('k, 'v, 'd, 'e) pvpt_state option" where
  "pvpt_clearPts ops (c, s) (TL k) e = map_option (p_in_tl s) (ppt_clearPts ops (c, p_tlPTData s) k e)"
| "pvpt_clearPts ops (c, s) (AT v) e = map_option (p_in_at s) (ppt_clearPts ops (c, p_atPTData s) v e)"

fun pvpt_clearFullPts :: "('d, 'e) set_ops \<Rightarrow> ('k, 'v, 'd, 'e) pvpt_state \<Rightarrow> ('k, 'v) vkey \<Rightarrow>
    ('k, 'v, 'd, 'e) pvpt_state option" where
  "pvpt_clearFullPts ops (c, s) (TL k) = map_option (p_in_tl s) (ppt_clearFullPts ops (c, p_tlPTData s) k)"
| "pvpt_clearFullPts ops (c, s) (AT v) = map_option (p_in_at s) (ppt_clearFullPts ops (c, p_atPTData s) v)"

text \<open>One remapping serves both.\<close>

definition pvpt_remapAllPts :: "('d, 'e) set_ops \<Rightarrow> ('k, 'v, 'd, 'e) pvpt_state \<Rightarrow>
    ('k, 'v, 'd, 'e) pvpt_state option" where
  "pvpt_remapAllPts ops cs =
     map_option (p_in_tl (snd cs)) (ppt_remapAllPts ops (fst cs, p_tlPTData (snd cs)))"

text \<open>One less for every set: the cache lists each of them once more.\<close>

definition less_one :: "('d \<times> nat) list \<Rightarrow> ('d \<times> nat) list" where
  "less_one m = map (\<lambda>(d, n). (d, u32 (n + (2 ^ 32 - 1)))) m"

definition pvpt_getAllPts :: "('d, 'e) set_ops \<Rightarrow> ('k, 'v, 'd, 'e) pvpt_state \<Rightarrow> bool \<Rightarrow>
    ('d \<times> nat) list option" where
  "pvpt_getAllPts ops cs liveOnly = do {
     let (c, s) = cs;
     allPts \<leftarrow> ppt_getAllPts ops (c, p_tlPTData s) True;
     atPts \<leftarrow> ppt_getAllPts ops (c, p_atPTData s) True;
     allPts \<leftarrow> mergePtsOccMaps (base ops) allPts atPts;
     if \<not> liveOnly then do {
       let allPts = less_one allPts;
       cached \<leftarrow> cache_getAllPts (base ops) c;
       mergePtsOccMaps (base ops) allPts cached
     } else Some allPts
   }"

definition pvpt_ops :: "('d, 'e) set_ops \<Rightarrow> (('k, 'v, 'd, 'e) pvpt_state, ('k, 'v) vkey, 'e) ptd_ops" where
  "pvpt_ops ops = \<lparr>o_addPts = pvpt_addPts ops, o_unionPts = pvpt_unionPts ops,
     o_clearPts = pvpt_clearPts ops, o_clearFullPts = pvpt_clearFullPts ops\<rparr>"

definition pvpt_allRevPts :: "('k, 'v, 'd, 'e) pvpt_state \<Rightarrow> 'e \<Rightarrow>
    (('k, 'v) vkey list \<times> ('k, 'v, 'd, 'e) pvpt_state) option" where
  "pvpt_allRevPts cs e = do {
     (ks, cs) \<leftarrow> pvpt_getRevPts cs e;
     (vs, cs) \<leftarrow> pvpt_getVersionedKeyRevPts cs e;
     Some (map TL ks @ map AT vs, cs)
   }"

fun pvpt_view :: "('d \<Rightarrow> 'e set) \<Rightarrow> ('k, 'v, 'd, 'e) pvpt_state \<Rightarrow> ('k, 'v) vkey \<Rightarrow> 'e set" where
  "pvpt_view els (c, s) (TL k) = ppt_view els (c, p_tlPTData s) k"
| "pvpt_view els (c, s) (AT v) = ppt_view els (c, p_atPTData s) v"

fun pvpt_inv :: "('d, 'e) set_ops \<Rightarrow> ('d \<Rightarrow> bool) \<Rightarrow> ('d \<Rightarrow> 'e set) \<Rightarrow> ('d \<Rightarrow> 'd \<Rightarrow> bool) \<Rightarrow>
    ('k, 'v, 'd, 'e) pvpt_state \<Rightarrow> bool" where
  "pvpt_inv ops ok els same (c, s) \<longleftrightarrow> ppt_inv ops ok els same (c, p_tlPTData s) \<and>
     ppt_inv ops ok els same (c, p_atPTData s) \<and> p_rev (p_tlPTData s) = p_rev (p_atPTData s)"

context points_to_set begin

abbreviation PVInv :: "('k, 'v, 'd, 'e) pvpt_state \<Rightarrow> bool" where "PVInv \<equiv> pvpt_inv ops ok els same"
abbreviation PVView :: "('k, 'v, 'd, 'e) pvpt_state \<Rightarrow> ('k, 'v) vkey \<Rightarrow> 'e set" where "PVView \<equiv> pvpt_view els"

text \<open>One part changes, the cache grows, the other part keeps its meaning.\<close>

lemma p_in_tl_spec:
  assumes "PVInv (c, s)" "PInv (c', t)" "grows c c'" "p_rev t = p_rev (p_tlPTData s)"
    and "ppt_view els (c', t) = (ppt_view els (c, p_tlPTData s))(k := u)"
  shows "PVInv (c', s\<lparr>p_tlPTData := t\<rparr>)" "PVView (c', s\<lparr>p_tlPTData := t\<rparr>) = (PVView (c, s))(TL k := u)"
proof -
  have r: "Ready c'" using assms(2) by (simp add: ppt_inv_def)
  have a: "PInv (c, p_atPTData s)" using assms(1) by simp
  note g = PInv_grows [OF a r assms(3)]
  show "PVInv (c', s\<lparr>p_tlPTData := t\<rparr>)" using assms g by simp
  show "PVView (c', s\<lparr>p_tlPTData := t\<rparr>) = (PVView (c, s))(TL k := u)"
  proof
    fix x show "PVView (c', s\<lparr>p_tlPTData := t\<rparr>) x = ((PVView (c, s))(TL k := u)) x"
      using assms(5) g(2) by (cases x) simp_all
  qed
qed

lemma p_in_at_spec:
  assumes "PVInv (c, s)" "PInv (c', t)" "grows c c'" "p_rev t = p_rev (p_atPTData s)"
    and "ppt_view els (c', t) = (ppt_view els (c, p_atPTData s))(k := u)"
  shows "PVInv (c', s\<lparr>p_atPTData := t\<rparr>)" "PVView (c', s\<lparr>p_atPTData := t\<rparr>) = (PVView (c, s))(AT k := u)"
proof -
  have r: "Ready c'" using assms(2) by (simp add: ppt_inv_def)
  have a: "PInv (c, p_tlPTData s)" using assms(1) by simp
  note g = PInv_grows [OF a r assms(3)]
  show "PVInv (c', s\<lparr>p_atPTData := t\<rparr>)" using assms g by simp
  show "PVView (c', s\<lparr>p_atPTData := t\<rparr>) = (PVView (c, s))(AT k := u)"
  proof
    fix x show "PVView (c', s\<lparr>p_atPTData := t\<rparr>) x = ((PVView (c, s))(AT k := u)) x"
      using assms(5) g(2) by (cases x) simp_all
  qed
qed

lemma pvpt_parts: "PVInv (c, s) \<Longrightarrow> PInv (c, p_tlPTData s)" "PVInv (c, s) \<Longrightarrow> PInv (c, p_atPTData s)"
  by simp_all

lemma pvpt_addPts_spec:
  assumes "ready" "PVInv (c, s)" "valid_new e" "length (idToPts c) + 2 \<le> 2 ^ 32"
  shows "\<exists>c' s'. pvpt_addPts ops (c, s) x e = Some (e \<notin> PVView (c, s) x, c', s') \<and> PVInv (c', s') \<and>
    p_rev (p_tlPTData s') = p_rev (p_tlPTData s) \<and> grows c c' \<and>
    length (idToPts c') \<le> length (idToPts c) + 2 \<and>
    PVView (c', s') = (PVView (c, s))(x := insert e (PVView (c, s) x))"
proof (cases x)
  case (TL k)
  show ?thesis
    using ppt_addPts_spec [OF assms(1) pvpt_parts(1) [OF assms(2)] assms(3,4), of k] p_in_tl_spec [OF assms(2)]
    unfolding TL by fastforce
next
  case (AT v)
  show ?thesis
    using ppt_addPts_spec [OF assms(1) pvpt_parts(2) [OF assms(2)] assms(3,4), of v] p_in_at_spec [OF assms(2)]
    unfolding AT by fastforce
qed

lemma p_in_tl_same:
  assumes "PVInv (c, s)" "PInv (c, t)" "p_rev t = p_rev (p_tlPTData s)"
    and "ppt_view els (c, t) = ppt_view els (c, p_tlPTData s)"
  shows "PVInv (c, s\<lparr>p_tlPTData := t\<rparr>)" "PVView (c, s\<lparr>p_tlPTData := t\<rparr>) = PVView (c, s)"
  using p_in_tl_spec [OF assms(1,2) grows_refl assms(3), of undefined "ppt_view els (c, p_tlPTData s) undefined"]
    assms(4) by (simp_all add: fun_upd_idem)

lemma p_in_at_same:
  assumes "PVInv (c, s)" "PInv (c, t)" "p_rev t = p_rev (p_atPTData s)"
    and "ppt_view els (c, t) = ppt_view els (c, p_atPTData s)"
  shows "PVInv (c, s\<lparr>p_atPTData := t\<rparr>)" "PVView (c, s\<lparr>p_atPTData := t\<rparr>) = PVView (c, s)"
  using p_in_at_spec [OF assms(1,2) grows_refl assms(3), of undefined "ppt_view els (c, p_atPTData s) undefined"]
    assms(4) by (simp_all add: fun_upd_idem)

lemma pvpt_unionSet_spec:
  assumes "PVInv (c, s)" "good d" "length (idToPts c) + 2 \<le> 2 ^ 32"
  shows "\<exists>c' s'. pvpt_unionSet ops (c, s) x d = Some (\<not> els d \<subseteq> PVView (c, s) x, c', s') \<and> PVInv (c', s') \<and>
    p_rev (p_tlPTData s') = p_rev (p_tlPTData s) \<and> grows c c' \<and>
    length (idToPts c') \<le> length (idToPts c) + 2 \<and>
    PVView (c', s') = (PVView (c, s))(x := PVView (c, s) x \<union> els d)"
proof (cases x)
  case (TL k)
  show ?thesis
    using ppt_unionSet_spec [OF pvpt_parts(1) [OF assms(1)] assms(2,3), of k] p_in_tl_spec [OF assms(1)]
    unfolding TL by fastforce
next
  case (AT v)
  show ?thesis
    using ppt_unionSet_spec [OF pvpt_parts(2) [OF assms(1)] assms(2,3), of v] p_in_at_spec [OF assms(1)]
    unfolding AT by fastforce
qed

lemma pvpt_clearPts_spec:
  assumes "ready" "PVInv (c, s)" "valid_new e" "length (idToPts c) + 2 \<le> 2 ^ 32"
  shows "\<exists>c' s'. pvpt_clearPts ops (c, s) x e = Some (c', s') \<and> PVInv (c', s') \<and>
    p_rev (p_tlPTData s') = p_rev (p_tlPTData s) \<and> grows c c' \<and>
    length (idToPts c') \<le> length (idToPts c) + 2 \<and>
    PVView (c', s') = (PVView (c, s))(x := PVView (c, s) x - {e})"
proof (cases x)
  case (TL k)
  show ?thesis
    using ppt_clearPts_spec [OF assms(1) pvpt_parts(1) [OF assms(2)] assms(3,4), of k] p_in_tl_spec [OF assms(2)]
    unfolding TL by fastforce
next
  case (AT v)
  show ?thesis
    using ppt_clearPts_spec [OF assms(1) pvpt_parts(2) [OF assms(2)] assms(3,4), of v] p_in_at_spec [OF assms(2)]
    unfolding AT by fastforce
qed

lemma pvpt_clearFullPts_spec:
  assumes "PVInv (c, s)"
  shows "\<exists>s'. pvpt_clearFullPts ops (c, s) x = Some (c, s') \<and> PVInv (c, s') \<and>
    p_rev (p_tlPTData s') = p_rev (p_tlPTData s) \<and> PVView (c, s') = (PVView (c, s))(x := {})"
proof (cases x)
  case (TL k)
  show ?thesis
    using ppt_clearFullPts_spec [OF pvpt_parts(1) [OF assms(1)], of k]
      p_in_tl_spec [OF assms(1) _ grows_refl] unfolding TL by fastforce
next
  case (AT v)
  show ?thesis
    using ppt_clearFullPts_spec [OF pvpt_parts(2) [OF assms(1)], of v]
      p_in_at_spec [OF assms(1) _ grows_refl] unfolding AT by fastforce
qed

lemma pvpt_getPts_spec:
  assumes "PVInv (c, s)"
  shows "\<exists>d s'. pvpt_getPts (c, s) x = Some (d, c, s') \<and> good d \<and> els d = PVView (c, s) x \<and> PVInv (c, s') \<and>
    PVView (c, s') = PVView (c, s) \<and> p_rev (p_tlPTData s') = p_rev (p_tlPTData s)"
proof (cases x)
  case (TL k)
  note t = PInv_touch [OF pvpt_parts(1) [OF assms], of k]
  note p = p_in_tl_same [OF assms t(1) _ t(2)]
  show ?thesis using ppt_getPts_spec [OF pvpt_parts(1) [OF assms], of k] p unfolding TL by auto
next
  case (AT v)
  note t = PInv_touch [OF pvpt_parts(2) [OF assms], of v]
  note p = p_in_at_same [OF assms t(1) _ t(2)]
  show ?thesis using ppt_getPts_spec [OF pvpt_parts(2) [OF assms], of v] p unfolding AT by auto
qed

lemma pvpt_union_cross_tl:
  assumes inv: "PVInv (c, s)" and room: "length (idToPts c) + 2 \<le> 2 ^ 32"
  shows "\<exists>c' s'. pvpt_unionPts ops (c, s) (TL k) (AT w) =
      Some (\<not> PVView (c, s) (AT w) \<subseteq> PVView (c, s) (TL k), c', s') \<and> PVInv (c', s') \<and>
    p_rev (p_tlPTData s') = p_rev (p_tlPTData s) \<and> grows c c' \<and>
    length (idToPts c') \<le> length (idToPts c) + 2 \<and>
    PVView (c', s') = (PVView (c, s))(TL k := PVView (c, s) (TL k) \<union> PVView (c, s) (AT w))"
proof -
  let ?i = "ppt_id (p_atPTData s) w" and ?s = "s\<lparr>p_atPTData := ppt_touch w (p_atPTData s)\<rparr>"
  note t = PInv_touch [OF pvpt_parts(2) [OF inv], of w]
  have p: "PVInv (c, ?s)" "PVView (c, ?s) = PVView (c, s)" using p_in_at_same [OF inv t(1) _ t(2)] by simp_all
  have v: "pts_of els c ?i = PVView (c, s) (AT w)" by (simp add: ppt_view_def)
  have l: "length (idToPts c) < 2 ^ 32" using room by simp
  obtain c' u where u: "unionPtsFromId ops (c, p_tlPTData s) k ?i =
        Some (\<not> PVView (c, s) (AT w) \<subseteq> PVView (c, s) (TL k), c', u)" "PInv (c', u)"
      "p_rev u = p_rev (p_tlPTData s)" "grows c c'" "length (idToPts c') \<le> length (idToPts c) + 1"
      "ppt_view els (c', u) = (ppt_view els (c, p_tlPTData s))(k := PVView (c, s) (TL k) \<union> PVView (c, s) (AT w))"
    using unionPtsFromId_spec [OF pvpt_parts(1) [OF inv] PInv_id [OF pvpt_parts(2) [OF inv], of w] l, of k]
    unfolding v by auto
  have w: "p_rev u = p_rev (p_tlPTData ?s)"
    "ppt_view els (c', u) = (ppt_view els (c, p_tlPTData ?s))(k := PVView (c, s) (TL k) \<union> PVView (c, s) (AT w))"
    using u(3,6) by simp_all
  note q = p_in_tl_spec [OF p(1) u(2,4) w]
  have x: "pvpt_unionPts ops (c, s) (TL k) (AT w) =
      Some (\<not> PVView (c, s) (AT w) \<subseteq> PVView (c, s) (TL k), c', ?s\<lparr>p_tlPTData := u\<rparr>)"
    using u(1) by (simp add: Let_def)
  have "length (idToPts c') \<le> length (idToPts c) + 2" "p_rev (p_tlPTData (?s\<lparr>p_tlPTData := u\<rparr>)) = p_rev (p_tlPTData s)"
    using u(3,5) by simp_all
  then show ?thesis using x q(1) q(2) [unfolded p(2)] u(4) by blast
qed

lemma pvpt_union_cross_at:
  assumes inv: "PVInv (c, s)" and room: "length (idToPts c) + 2 \<le> 2 ^ 32"
  shows "\<exists>c' s'. pvpt_unionPts ops (c, s) (AT v) (TL l) =
      Some (\<not> PVView (c, s) (TL l) \<subseteq> PVView (c, s) (AT v), c', s') \<and> PVInv (c', s') \<and>
    p_rev (p_tlPTData s') = p_rev (p_tlPTData s) \<and> grows c c' \<and>
    length (idToPts c') \<le> length (idToPts c) + 2 \<and>
    PVView (c', s') = (PVView (c, s))(AT v := PVView (c, s) (AT v) \<union> PVView (c, s) (TL l))"
proof -
  let ?i = "ppt_id (p_tlPTData s) l" and ?s = "s\<lparr>p_tlPTData := ppt_touch l (p_tlPTData s)\<rparr>"
  note t = PInv_touch [OF pvpt_parts(1) [OF inv], of l]
  have p: "PVInv (c, ?s)" "PVView (c, ?s) = PVView (c, s)" using p_in_tl_same [OF inv t(1) _ t(2)] by simp_all
  have v: "pts_of els c ?i = PVView (c, s) (TL l)" by (simp add: ppt_view_def)
  have len: "length (idToPts c) < 2 ^ 32" using room by simp
  obtain c' u where u: "unionPtsFromId ops (c, p_atPTData s) v ?i =
        Some (\<not> PVView (c, s) (TL l) \<subseteq> PVView (c, s) (AT v), c', u)" "PInv (c', u)"
      "p_rev u = p_rev (p_atPTData s)" "grows c c'" "length (idToPts c') \<le> length (idToPts c) + 1"
      "ppt_view els (c', u) = (ppt_view els (c, p_atPTData s))(v := PVView (c, s) (AT v) \<union> PVView (c, s) (TL l))"
    using unionPtsFromId_spec [OF pvpt_parts(2) [OF inv] PInv_id [OF pvpt_parts(1) [OF inv], of l] len, of v]
    unfolding v by auto
  have w: "p_rev u = p_rev (p_atPTData ?s)"
    "ppt_view els (c', u) = (ppt_view els (c, p_atPTData ?s))(v := PVView (c, s) (AT v) \<union> PVView (c, s) (TL l))"
    using u(3,6) by simp_all
  note q = p_in_at_spec [OF p(1) u(2,4) w]
  have x: "pvpt_unionPts ops (c, s) (AT v) (TL l) =
      Some (\<not> PVView (c, s) (TL l) \<subseteq> PVView (c, s) (AT v), c', ?s\<lparr>p_atPTData := u\<rparr>)"
    using u(1) by (simp add: Let_def)
  have "length (idToPts c') \<le> length (idToPts c) + 2" "p_rev (p_tlPTData (?s\<lparr>p_atPTData := u\<rparr>)) = p_rev (p_tlPTData s)"
    using u(5) by simp_all
  then show ?thesis using x q(1) q(2) [unfolded p(2)] u(4) by blast
qed

lemma pvpt_unionPts_spec:
  assumes inv: "PVInv (c, s)" and room: "length (idToPts c) + 2 \<le> 2 ^ 32"
  shows "\<exists>c' s'. pvpt_unionPts ops (c, s) x y = Some (\<not> PVView (c, s) y \<subseteq> PVView (c, s) x, c', s') \<and>
    PVInv (c', s') \<and> p_rev (p_tlPTData s') = p_rev (p_tlPTData s) \<and> grows c c' \<and>
    length (idToPts c') \<le> length (idToPts c) + 2 \<and>
    PVView (c', s') = (PVView (c, s))(x := PVView (c, s) x \<union> PVView (c, s) y)"
proof (cases x; cases y)
  fix k l assume x: "x = TL k" and y: "y = TL l"
  show ?thesis using ppt_unionPts_spec [OF pvpt_parts(1) [OF inv] room, of k l] p_in_tl_spec [OF inv]
    unfolding x y by fastforce
next
  fix k w assume x: "x = TL k" and y: "y = AT w"
  show ?thesis unfolding x y by (rule pvpt_union_cross_tl [OF inv room])
next
  fix v l assume x: "x = AT v" and y: "y = TL l"
  show ?thesis unfolding x y by (rule pvpt_union_cross_at [OF inv room])
next
  fix v w assume x: "x = AT v" and y: "y = AT w"
  show ?thesis using ppt_unionPts_spec [OF pvpt_parts(2) [OF inv] room, of v w] p_in_at_spec [OF inv]
    unfolding x y by fastforce
qed

lemma p_vkey_set: "{x. e \<in> PVView (c, s) x} =
    TL ` {k. e \<in> ppt_view els (c, p_tlPTData s) k} \<union> AT ` {v. e \<in> ppt_view els (c, p_atPTData s) v}"
proof (rule set_eqI)
  fix x show "x \<in> {x. e \<in> PVView (c, s) x} \<longleftrightarrow>
    x \<in> TL ` {k. e \<in> ppt_view els (c, p_tlPTData s) k} \<union> AT ` {v. e \<in> ppt_view els (c, p_atPTData s) v}"
    by (cases x) auto
qed

lemma pvpt_allRevPts_spec:
  assumes inv: "PVInv (c, s)" and r: "p_rev (p_tlPTData s)"
  shows "\<exists>xs s'. pvpt_allRevPts (c, s) e = Some (xs, c, s') \<and> set xs = {x. e \<in> PVView (c, s) x} \<and>
    distinct xs \<and> PVInv (c, s') \<and> PVView (c, s') = PVView (c, s) \<and> p_rev (p_tlPTData s') = p_rev (p_tlPTData s)"
proof -
  obtain ks t where t: "ppt_getRevPts (c, p_tlPTData s) e = Some (ks, c, t)" "distinct ks"
      "set ks = {k. e \<in> ppt_view els (c, p_tlPTData s) k}" "PInv (c, t)"
      "ppt_view els (c, t) = ppt_view els (c, p_tlPTData s)"
    using ppt_getRevPts_spec [OF pvpt_parts(1) [OF inv] r, of e] by blast
  have ra: "p_rev (p_atPTData s)" using inv r by simp
  obtain vs a where a: "ppt_getRevPts (c, p_atPTData s) e = Some (vs, c, a)" "distinct vs"
      "set vs = {v. e \<in> ppt_view els (c, p_atPTData s) v}" "PInv (c, a)"
      "ppt_view els (c, a) = ppt_view els (c, p_atPTData s)"
    using ppt_getRevPts_spec [OF pvpt_parts(2) [OF inv] ra, of e] by blast
  have revs: "p_rev t = p_rev (p_tlPTData s)" "p_rev a = p_rev (p_atPTData s)"
    using t(1) a(1) by (auto simp: ppt_getRevPts_def split: if_splits)
  let ?s = "s\<lparr>p_tlPTData := t\<rparr>"
  note s1 = p_in_tl_same [OF inv t(4) revs(1) t(5)]
  have s2: "PVInv (c, ?s\<lparr>p_atPTData := a\<rparr>)" "PVView (c, ?s\<lparr>p_atPTData := a\<rparr>) = PVView (c, s)"
    using p_in_at_same [OF s1(1) a(4)] revs(2) a(5) s1(2) by simp_all
  have "pvpt_allRevPts (c, s) e = Some (map TL ks @ map AT vs, c, ?s\<lparr>p_atPTData := a\<rparr>)"
    using t(1) a(1) by (simp add: pvpt_allRevPts_def pvpt_getRevPts_def pvpt_getVersionedKeyRevPts_def)
  moreover have "distinct (map TL ks @ map AT vs)" using t(2) a(2) by (auto simp: distinct_map inj_on_def)
  moreover have "set (map TL ks @ map AT vs) = {x. e \<in> PVView (c, s) x}" using t(3) a(3) by (simp add: p_vkey_set)
  moreover have "p_rev (p_tlPTData (?s\<lparr>p_atPTData := a\<rparr>)) = p_rev (p_tlPTData s)" using revs by simp
  ultimately show ?thesis using s2 by blast
qed

end

definition pvpt_pt_inv :: "(64 word \<Rightarrow> 64 word) \<Rightarrow> pt_globals \<Rightarrow> ('k, 'v, points_to, NodeID) pvpt_state \<Rightarrow> bool" where
  "pvpt_pt_inv h g cs \<longleftrightarrow> globals_ready g \<and> pvpt_inv (pt_set_ops h g) pt_sparse pt_nodes pt_same cs"

definition pvpt_room :: "('k, 'v, 'd, 'e) pvpt_state \<Rightarrow> nat \<Rightarrow> bool" where
  "pvpt_room cs n \<longleftrightarrow> length (idToPts (fst cs)) + 2 * n \<le> 2 ^ 32"

lemma pvpt_room_step:
  "pvpt_room (c, s) (Suc n) \<Longrightarrow> length (idToPts c) + 2 \<le> 2 ^ 32"
  "pvpt_room (c, s) (Suc n) \<Longrightarrow> length (idToPts c') \<le> length (idToPts c) + 2 \<Longrightarrow> pvpt_room (c', s') n"
  by (simp_all add: pvpt_room_def)

interpretation pv: pt_data "pvpt_ops (pt_set_ops h g)" pvpt_getPts pvpt_allRevPts
  "pvpt_unionSet (pt_set_ops h g)" "pvpt_pt_inv h g" "pvpt_view pt_nodes" pvpt_room
  "\<lambda>cs cs'. grows (fst cs) (fst cs')"
  "\<lambda>cs. p_rev (p_tlPTData (snd cs))" "pt_node_ok g" "pt_good g" pt_nodes
  for h g
proof (unfold_locales, goal_cases)
  case (1 cs n e x)
  obtain c s where cs: "cs = (c, s)" by fastforce
  note st = pvpt_room_step [OF 1(2) [unfolded cs]]
  show ?case using ps.pvpt_addPts_spec [of g h c s e x] 1 st unfolding cs ps_good pvpt_pt_inv_def
    by (fastforce simp: pvpt_ops_def)
next
  case (2 cs n x y)
  obtain c s where cs: "cs = (c, s)" by fastforce
  note st = pvpt_room_step [OF 2(2) [unfolded cs]]
  show ?case using ps.pvpt_unionPts_spec [of h g c s x y] 2 st unfolding cs ps_good pvpt_pt_inv_def
    by (fastforce simp: pvpt_ops_def)
next
  case (3 cs n d x)
  obtain c s where cs: "cs = (c, s)" by fastforce
  note st = pvpt_room_step [OF 3(2) [unfolded cs]]
  show ?case using ps.pvpt_unionSet_spec [of h g c s d x] 3 st unfolding cs ps_good pvpt_pt_inv_def
    by fastforce
next
  case (4 cs n e x)
  obtain c s where cs: "cs = (c, s)" by fastforce
  note st = pvpt_room_step [OF 4(2) [unfolded cs]]
  show ?case using ps.pvpt_clearPts_spec [of g h c s e x] 4 st unfolding cs ps_good pvpt_pt_inv_def
    by (fastforce simp: pvpt_ops_def)
next
  case (5 cs n x)
  obtain c s where cs: "cs = (c, s)" by fastforce
  show ?case using ps.pvpt_clearFullPts_spec [of h g c s x] 5 unfolding cs pvpt_pt_inv_def
    by (fastforce simp: pvpt_ops_def pvpt_room_def)
next
  case (6 cs x)
  obtain c s where cs: "cs = (c, s)" by fastforce
  show ?case using ps.pvpt_getPts_spec [of h g c s x] 6
    unfolding cs ps_good pvpt_pt_inv_def by (fastforce simp: pvpt_room_def)
next
  case (7 cs e)
  obtain c s where cs: "cs = (c, s)" by fastforce
  show ?case using ps.pvpt_allRevPts_spec [of h g c s e] 7 unfolding cs pvpt_pt_inv_def by auto
next
  case (8 cs e)
  then show ?case by (cases cs) (simp add: pvpt_allRevPts_def pvpt_getRevPts_def ppt_getRevPts_def)
qed

end
