(* ===== verification/DiffPT.thy ===== *)
theory DiffPT
  imports PersistentPT
begin

text \<open>
  \<open>MutableDiffPTData\<close> and \<open>PersistentDiffPTData\<close>: a basic structure, and for every
  key the part of its set still to be propagated and the part already propagated. The contract is
  the locale \<open>diff_data\<close>; the basic operations are those of the member.
\<close>

section \<open>The contract\<close>

locale diff_data =
  fixes getDiffPts :: "'s \<Rightarrow> 'k \<Rightarrow> ('d \<times> 's) option" and computeDiffPts :: "'s \<Rightarrow> 'k \<Rightarrow> 'd \<Rightarrow> (bool \<times> 's) option"
    and updatePropaPtsMap :: "'s \<Rightarrow> 'k \<Rightarrow> 'k \<Rightarrow> 's option" and clearPropaPts :: "'s \<Rightarrow> 'k \<Rightarrow> 's option"
    and inv :: "'s \<Rightarrow> bool" and room :: "'s \<Rightarrow> nat \<Rightarrow> bool" and diff :: "'s \<Rightarrow> 'k \<Rightarrow> 'e set"
    and propa :: "'s \<Rightarrow> 'k \<Rightarrow> 'e set" and good :: "'d \<Rightarrow> bool" and view :: "'d \<Rightarrow> 'e set"
  assumes get_diff_law: "inv s \<Longrightarrow> \<exists>d s'. getDiffPts s k = Some (d, s') \<and> good d \<and> view d = diff s k \<and> inv s' \<and>
      diff s' = diff s \<and> propa s' = propa s \<and> (\<forall>n. room s n \<longrightarrow> room s' n)"
    and compute_law: "inv s \<Longrightarrow> room s (Suc n) \<Longrightarrow> good a \<Longrightarrow>
      \<exists>s'. computeDiffPts s k a = Some (\<not> view a \<subseteq> propa s k, s') \<and> inv s' \<and> room s' n \<and>
        diff s' = (diff s)(k := view a - propa s k) \<and> propa s' = (propa s)(k := view a)"
    and update_law: "inv s \<Longrightarrow> room s (Suc n) \<Longrightarrow>
      \<exists>s'. updatePropaPtsMap s src dst = Some s' \<and> inv s' \<and> room s' n \<and> diff s' = diff s \<and>
        propa s' = (propa s)(dst := propa s dst \<inter> propa s src)"
    and clear_propa_law: "inv s \<Longrightarrow> room s (Suc n) \<Longrightarrow>
      \<exists>s'. clearPropaPts s k = Some s' \<and> inv s' \<and> room s' n \<and> diff s' = diff s \<and>
        propa s' = (propa s)(k := {})"

text \<open>What a solver propagates along a key while its set takes the values of the list.\<close>

fun diffs :: "('s \<Rightarrow> 'k \<Rightarrow> ('d \<times> 's) option) \<Rightarrow> ('s \<Rightarrow> 'k \<Rightarrow> 'd \<Rightarrow> (bool \<times> 's) option) \<Rightarrow> 'k \<Rightarrow> 'd list \<Rightarrow> 's \<Rightarrow>
    ('d list \<times> 's) option" where
  "diffs G C k [] s = Some ([], s)"
| "diffs G C k (a # as) s = do {
     (b, s) \<leftarrow> C s k a;
     (d, s) \<leftarrow> G s k;
     (ds, s) \<leftarrow> diffs G C k as s;
     Some (d # ds, s)
   }"

context diff_data begin

text \<open>
  Difference propagation is complete and without repetition: as the set of a key grows, the
  differences are disjoint from each other and from what was propagated before, and together they
  make up the last set.
\<close>

lemma diffs_partition:
  assumes "inv s" "room s (length as)" "\<forall>a \<in> set as. good a"
    and "sorted_wrt (\<lambda>a b. view a \<subseteq> view b) as" "\<forall>a \<in> set as. propa s k \<subseteq> view a"
  shows "\<exists>ds s'. diffs getDiffPts computeDiffPts k as s = Some (ds, s') \<and> inv s' \<and>
    propa s' k = propa s k \<union> (\<Union>d \<in> set ds. view d) \<and>
    (as \<noteq> [] \<longrightarrow> propa s' k = view (last as)) \<and>
    (\<forall>d \<in> set ds. view d \<inter> propa s k = {}) \<and> sorted_wrt (\<lambda>d e. view d \<inter> view e = {}) ds"
  using assms
proof (induction as arbitrary: s)
  case (Cons a as)
  obtain s1 where s1: "computeDiffPts s k a = Some (\<not> view a \<subseteq> propa s k, s1)" "inv s1" "room s1 (length as)"
      "diff s1 = (diff s)(k := view a - propa s k)" "propa s1 = (propa s)(k := view a)"
    using compute_law [of s "length as" a k] Cons.prems(1-3) by auto
  obtain d s2 where s2: "getDiffPts s1 k = Some (d, s2)" "view d = diff s1 k" "inv s2" "propa s2 = propa s1"
      "room s2 (length as)"
    using get_diff_law [OF s1(2), of k] s1(3) by blast
  have d: "view d = view a - propa s k" and p: "propa s2 k = view a" using s1(4,5) s2(2,4) by simp_all
  have "\<forall>b \<in> set as. propa s2 k \<subseteq> view b" using Cons.prems(4) p by simp
  then obtain ds s' where r: "diffs getDiffPts computeDiffPts k as s2 = Some (ds, s')" "inv s'"
      "propa s' k = propa s2 k \<union> (\<Union>d \<in> set ds. view d)" "as \<noteq> [] \<longrightarrow> propa s' k = view (last as)"
      "\<forall>d \<in> set ds. view d \<inter> propa s2 k = {}" "sorted_wrt (\<lambda>d e. view d \<inter> view e = {}) ds"
    using Cons.IH [OF s2(3,5)] Cons.prems(3,4) by auto
  have sub: "propa s k \<subseteq> view a" using Cons.prems(5) by simp
  have "diffs getDiffPts computeDiffPts k (a # as) s = Some (d # ds, s')" using s1(1) s2(1) r(1) by simp
  moreover have "propa s' k = propa s k \<union> (\<Union>d \<in> set (d # ds). view d)" using r(3) p d sub by auto
  moreover have "as = [] \<longrightarrow> propa s' k = view a" using r(1,3) p by auto
  moreover have "\<forall>e \<in> set ds. view e \<inter> propa s k = {} \<and> view d \<inter> view e = {}"
    using r(5) sub unfolding p d by blast
  ultimately show ?case using r(2,4,6) d by auto
qed simp

text \<open>Clearing what was propagated makes the next difference the whole set again.\<close>

lemma recompute_after_clear:
  assumes "inv s" "room s 2" "good a"
  shows "\<exists>s1 s2. clearPropaPts s k = Some s1 \<and> computeDiffPts s1 k a = Some (view a \<noteq> {}, s2) \<and>
    inv s2 \<and> diff s2 k = view a"
proof -
  obtain s1 where s1: "clearPropaPts s k = Some s1" "inv s1" "room s1 1" "propa s1 = (propa s)(k := {})"
    using clear_propa_law [OF assms(1), of 1 k] assms(2) by (auto simp: numeral_2_eq_2)
  then show ?thesis using compute_law [of s1 0 a k] assms(3) by auto
qed

end

section \<open>Mutable\<close>

record ('k, 'd, 'e) mdiff =
  md_mut :: "('k, 'd, 'e) mpt"
  md_diff :: "('k \<times> 'd) list"
  md_propa :: "('k \<times> 'd) list"

definition mdiff_new :: "bool \<Rightarrow> ('k, 'd, 'e) mdiff" where
  "mdiff_new reversePT = \<lparr>md_mut = mpt_new reversePT, md_diff = [], md_propa = []\<rparr>"

text \<open>Only the basic structure is cleared.\<close>

definition mdiff_clear :: "('k, 'd, 'e) mdiff \<Rightarrow> ('k, 'd, 'e) mdiff" where
  "mdiff_clear s = s\<lparr>md_mut := mpt_clear (md_mut s)\<rparr>"

abbreviation put_mut :: "('k, 'd, 'e) mpt \<Rightarrow> ('k, 'd, 'e) mdiff \<Rightarrow> ('k, 'd, 'e) mdiff" where
  "put_mut m s \<equiv> s\<lparr>md_mut := m\<rparr>"

definition mdiff_getPts :: "('d, 'e) set_ops \<Rightarrow> ('k, 'd, 'e) mdiff \<Rightarrow> 'k \<Rightarrow> ('d \<times> ('k, 'd, 'e) mdiff) option" where
  "mdiff_getPts ops s k = lift_op md_mut put_mut (\<lambda>m. Some (mpt_getPts ops m k)) s"

definition mdiff_getRevPts :: "('k, 'd, 'e) mdiff \<Rightarrow> 'e \<Rightarrow> ('k list \<times> ('k, 'd, 'e) mdiff) option" where
  "mdiff_getRevPts s e = lift_op md_mut put_mut (\<lambda>m. mpt_getRevPts m e) s"

definition mdiff_addPts :: "('d, 'e) set_ops \<Rightarrow> ('k, 'd, 'e) mdiff \<Rightarrow> 'k \<Rightarrow> 'e \<Rightarrow>
    (bool \<times> ('k, 'd, 'e) mdiff) option" where
  "mdiff_addPts ops s k e = lift_op md_mut put_mut (\<lambda>m. mpt_addPts ops m k e) s"

definition mdiff_unionPts :: "('d, 'e) set_ops \<Rightarrow> ('k, 'd, 'e) mdiff \<Rightarrow> 'k \<Rightarrow> 'k \<Rightarrow>
    (bool \<times> ('k, 'd, 'e) mdiff) option" where
  "mdiff_unionPts ops s k l = lift_op md_mut put_mut (\<lambda>m. mpt_unionPts ops m k l) s"

definition mdiff_unionSet :: "('d, 'e) set_ops \<Rightarrow> ('k, 'd, 'e) mdiff \<Rightarrow> 'k \<Rightarrow> 'd \<Rightarrow>
    (bool \<times> ('k, 'd, 'e) mdiff) option" where
  "mdiff_unionSet ops s k d = lift_op md_mut put_mut (\<lambda>m. mpt_unionSet ops m k d) s"

definition mdiff_clearPts :: "('d, 'e) set_ops \<Rightarrow> ('k, 'd, 'e) mdiff \<Rightarrow> 'k \<Rightarrow> 'e \<Rightarrow>
    ('k, 'd, 'e) mdiff option" where
  "mdiff_clearPts ops s k e = lift_update md_mut put_mut (\<lambda>m. mpt_clearPts ops m k e) s"

definition mdiff_clearFullPts :: "('d, 'e) set_ops \<Rightarrow> ('k, 'd, 'e) mdiff \<Rightarrow> 'k \<Rightarrow>
    ('k, 'd, 'e) mdiff option" where
  "mdiff_clearFullPts ops s k = lift_update md_mut put_mut (\<lambda>m. mpt_clearFullPts ops m k) s"

definition mdiff_remapAllPts :: "('d, 'e) set_ops \<Rightarrow> ('k, 'd, 'e) mdiff \<Rightarrow> ('k, 'd, 'e) mdiff option" where
  "mdiff_remapAllPts ops s = do {
     m \<leftarrow> mpt_remapAllPts ops (md_mut s);
     d \<leftarrow> remap_values ops (md_diff s);
     p \<leftarrow> remap_values ops (md_propa s);
     Some (s\<lparr>md_mut := m, md_diff := d, md_propa := p\<rparr>)
   }"

definition mdiff_getDiffPts :: "('d, 'e) set_ops \<Rightarrow> ('k, 'd, 'e) mdiff \<Rightarrow> 'k \<Rightarrow> 'd \<times> ('k, 'd, 'e) mdiff" where
  "mdiff_getDiffPts ops s k =
     (km_get (s_new ops) (md_diff s) k, s\<lparr>md_diff := km_touch (s_new ops) k (md_diff s)\<rparr>)"

definition getPropaPts :: "('d, 'e) set_ops \<Rightarrow> ('k, 'd, 'e) mdiff \<Rightarrow> 'k \<Rightarrow> 'd \<times> ('k, 'd, 'e) mdiff" where
  "getPropaPts ops s k =
     (km_get (s_new ops) (md_propa s) k, s\<lparr>md_propa := km_touch (s_new ops) k (md_propa s)\<rparr>)"

definition mdiff_computeDiffPts :: "('d, 'e) set_ops \<Rightarrow> ('k, 'd, 'e) mdiff \<Rightarrow> 'k \<Rightarrow> 'd \<Rightarrow>
    (bool \<times> ('k, 'd, 'e) mdiff) option" where
  "mdiff_computeDiffPts ops s var all = do {
     let diff = s_clear ops (km_get (s_new ops) (md_diff s) var);
     let (propa, s) = getPropaPts ops s var;
     diff \<leftarrow> s_minus2 ops diff all propa;
     let propa = s_assign ops propa all;
     Some (\<not> s_empty ops diff,
       s\<lparr>md_diff := AList.update var diff (md_diff s), md_propa := AList.update var propa (md_propa s)\<rparr>)
   }"

definition mdiff_updatePropaPtsMap :: "('d, 'e) set_ops \<Rightarrow> ('k, 'd, 'e) mdiff \<Rightarrow> 'k \<Rightarrow> 'k \<Rightarrow>
    ('k, 'd, 'e) mdiff option" where
  "mdiff_updatePropaPtsMap ops s src dst = do {
     let (srcPropa, s) = getPropaPts ops s src;
     let (dstPropa, s) = getPropaPts ops s dst;
     (ch, dstPropa) \<leftarrow> s_and ops dstPropa srcPropa;
     Some (s\<lparr>md_propa := AList.update dst dstPropa (md_propa s)\<rparr>)
   }"

definition mdiff_clearPropaPts :: "('d, 'e) set_ops \<Rightarrow> ('k, 'd, 'e) mdiff \<Rightarrow> 'k \<Rightarrow> ('k, 'd, 'e) mdiff" where
  "mdiff_clearPropaPts ops s var =
     (let (propa, s) = getPropaPts ops s var in
      s\<lparr>md_propa := AList.update var (s_clear ops propa) (md_propa s)\<rparr>)"

definition mdiff_getAllPts :: "('d, 'e) set_ops \<Rightarrow> ('k, 'd, 'e) mdiff \<Rightarrow> ('d \<times> nat) list option" where
  "mdiff_getAllPts ops s = mpt_getAllPts ops (md_mut s)"

definition mdiff_ops :: "('d, 'e) set_ops \<Rightarrow> (('k, 'd, 'e) mdiff, 'k, 'e) ptd_ops" where
  "mdiff_ops ops = \<lparr>o_addPts = mdiff_addPts ops, o_unionPts = mdiff_unionPts ops,
     o_clearPts = mdiff_clearPts ops, o_clearFullPts = mdiff_clearFullPts ops\<rparr>"

text \<open>What the two extra maps stand for.\<close>

definition km_view :: "('d, 'e) set_ops \<Rightarrow> ('d \<Rightarrow> 'e set) \<Rightarrow> ('k \<times> 'd) list \<Rightarrow> 'k \<Rightarrow> 'e set" where
  "km_view ops els m k = els (km_get (s_new ops) m k)"

definition mdiff_maps_ok :: "('d, 'e) set_ops \<Rightarrow> ('d \<Rightarrow> bool) \<Rightarrow> ('d \<Rightarrow> 'e set) \<Rightarrow> ('k, 'd, 'e) mdiff \<Rightarrow> bool" where
  "mdiff_maps_ok ops good els s \<longleftrightarrow> sets_ok ops good els (md_diff s) \<and> sets_ok ops good els (md_propa s)"

lemma km_view_simps [simp]:
  "km_view ops els (km_touch (s_new ops) k m) = km_view ops els m"
  "km_view ops els (AList.update k d m) = (km_view ops els m)(k := els d)"
  by (simp_all add: km_view_def fun_eq_iff)

context points_to_set begin

abbreviation DInv :: "('k, 'd, 'e) mdiff \<Rightarrow> bool" where
  "DInv s \<equiv> mpt_inv ops good els (md_mut s) \<and> mdiff_maps_ok ops good els s"

lemma maps_get:
  assumes "mdiff_maps_ok ops good els s"
  shows "good (km_get (s_new ops) (md_diff s) k)" "good (km_get (s_new ops) (md_propa s) k)"
  using assms sets_ok_get by (auto simp: mdiff_maps_ok_def)

lemma mdiff_getDiffPts_spec:
  assumes "DInv s"
  shows "\<exists>d s'. mdiff_getDiffPts ops s k = (d, s') \<and> good d \<and> els d = km_view ops els (md_diff s) k \<and> DInv s' \<and>
    km_view ops els (md_diff s') = km_view ops els (md_diff s) \<and> md_propa s' = md_propa s \<and> md_mut s' = md_mut s"
  using assms maps_get(1) [of s k] by (simp add: mdiff_getDiffPts_def mdiff_maps_ok_def sets_ok_touch)
    (simp add: km_view_def)

lemma mdiff_computeDiffPts_spec:
  assumes inv: "DInv s" and a: "good a"
  shows "\<exists>s'. mdiff_computeDiffPts ops s k a = Some (\<not> els a \<subseteq> km_view ops els (md_propa s) k, s') \<and> DInv s' \<and>
    md_mut s' = md_mut s \<and>
    km_view ops els (md_diff s') = (km_view ops els (md_diff s))(k := els a - km_view ops els (md_propa s) k) \<and>
    km_view ops els (md_propa s') = (km_view ops els (md_propa s))(k := els a)"
proof -
  let ?d = "s_clear ops (km_get (s_new ops) (md_diff s) k)" and ?p = "km_get (s_new ops) (md_propa s) k"
  have m: "mdiff_maps_ok ops good els s" using inv by simp
  obtain d where d: "s_minus2 ops ?d a ?p = Some d" "good d" "els d = els a - els ?p"
    using good_minus2 [OF conjunct1 [OF good_clear [OF maps_get(1) [OF m]]] a maps_get(2) [OF m]] by blast
  have e: "s_empty ops d \<longleftrightarrow> els a \<subseteq> els ?p" using good_empty [OF d(2)] d(3) by auto
  note as = good_assign [OF a, of ?p]
  have ok: "sets_ok ops good els (AList.update k d (md_diff s))"
    "sets_ok ops good els (AList.update k (s_assign ops ?p a) (km_touch (s_new ops) k (md_propa s)))"
    using m d(2) as by (simp_all add: mdiff_maps_ok_def sets_ok_update sets_ok_touch)
  show ?thesis using d e as inv ok
    by (simp add: mdiff_computeDiffPts_def getPropaPts_def mdiff_maps_ok_def) (simp add: km_view_def)
qed

lemma mdiff_updatePropaPtsMap_spec:
  assumes inv: "DInv s"
  shows "\<exists>s'. mdiff_updatePropaPtsMap ops s src dst = Some s' \<and> DInv s' \<and> md_mut s' = md_mut s \<and>
    md_diff s' = md_diff s \<and> km_view ops els (md_propa s') = (km_view ops els (md_propa s))
      (dst := km_view ops els (md_propa s) dst \<inter> km_view ops els (md_propa s) src)"
proof -
  let ?s = "km_get (s_new ops) (md_propa s) src" and ?d = "km_get (s_new ops) (md_propa s) dst"
  have m: "mdiff_maps_ok ops good els s" using inv by simp
  obtain c where c: "s_and ops ?d ?s = Some (\<not> els ?d \<subseteq> els ?s, c)" "good c" "els c = els ?d \<inter> els ?s"
    using good_and [OF maps_get(2) [OF m] maps_get(2) [OF m]] by blast
  have ok: "sets_ok ops good els (AList.update dst c (km_touch (s_new ops) dst (km_touch (s_new ops) src (md_propa s))))"
    using m c(2) by (simp add: mdiff_maps_ok_def sets_ok_update sets_ok_touch)
  show ?thesis using c inv ok
    by (simp add: mdiff_updatePropaPtsMap_def getPropaPts_def mdiff_maps_ok_def) (simp add: km_view_def)
qed

lemma mdiff_clearPropaPts_spec:
  assumes inv: "DInv s"
  shows "DInv (mdiff_clearPropaPts ops s k) \<and> md_mut (mdiff_clearPropaPts ops s k) = md_mut s \<and>
    md_diff (mdiff_clearPropaPts ops s k) = md_diff s \<and>
    km_view ops els (md_propa (mdiff_clearPropaPts ops s k)) = (km_view ops els (md_propa s))(k := {})"
proof -
  let ?p = "km_get (s_new ops) (md_propa s) k"
  have m: "mdiff_maps_ok ops good els s" using inv by simp
  note c = good_clear [OF maps_get(2) [OF m, of k]]
  have ok: "sets_ok ops good els (AList.update k (s_clear ops ?p) (km_touch (s_new ops) k (md_propa s)))"
    using m c by (simp add: mdiff_maps_ok_def sets_ok_update sets_ok_touch)
  then show ?thesis using inv c by (simp add: mdiff_clearPropaPts_def getPropaPts_def mdiff_maps_ok_def)
qed

end

interpretation md: diff_data "\<lambda>s k. Some (mdiff_getDiffPts (pt_set_ops h g) s k)"
  "mdiff_computeDiffPts (pt_set_ops h g)" "mdiff_updatePropaPtsMap (pt_set_ops h g)"
  "\<lambda>s k. Some (mdiff_clearPropaPts (pt_set_ops h g) s k)"
  "\<lambda>s. mpt_inv (pt_set_ops h g) (pt_good g) pt_nodes (md_mut s) \<and> mdiff_maps_ok (pt_set_ops h g) (pt_good g) pt_nodes s"
  "\<lambda>_ _. True" "\<lambda>s. km_view (pt_set_ops h g) pt_nodes (md_diff s)"
  "\<lambda>s. km_view (pt_set_ops h g) pt_nodes (md_propa s)" "pt_good g" pt_nodes
  for h g
proof (unfold_locales, goal_cases)
  case (1 s k)
  then show ?case using ps.mdiff_getDiffPts_spec [of h g s k] by (auto simp: ps_good)
next
  case (2 s n a k)
  then show ?case using ps.mdiff_computeDiffPts_spec [of h g s a k] by (auto simp: ps_good)
next
  case (3 s n src dst)
  then show ?case using ps.mdiff_updatePropaPtsMap_spec [of h g s src dst] by (auto simp: ps_good)
next
  case (4 s n k)
  then show ?case using ps.mdiff_clearPropaPts_spec [of h g s k] by (simp add: ps_good)
qed

text \<open>The basic operations of the structure are those of its member.\<close>

interpretation mdp: pt_data_part "mpt_ops (pt_set_ops h g)" "\<lambda>s k. Some (mpt_getPts (pt_set_ops h g) s k)"
  mpt_getRevPts "mpt_unionSet (pt_set_ops h g)"
  "mpt_inv (pt_set_ops h g) (pt_good g) pt_nodes" "mpt_view (pt_set_ops h g) pt_nodes" "\<lambda>_ _. True"
  "\<lambda>_ _. True" m_rev "pt_node_ok g" "pt_good g" pt_nodes
  md_mut put_mut "mdiff_maps_ok (pt_set_ops h g) (pt_good g) pt_nodes"
  "\<lambda>s t. md_diff t = md_diff s \<and> md_propa t = md_propa s"
  for h g
  by unfold_locales (simp_all add: mdiff_maps_ok_def)

lemma mdiff_ops_eq: "mdiff_ops ops = lift_ops md_mut put_mut (mpt_ops ops)"
  by (simp add: mdiff_ops_def lift_ops_def mpt_ops_def fun_eq_iff mdiff_addPts_def mdiff_unionPts_def
      mdiff_clearPts_def mdiff_clearFullPts_def)

section \<open>Persistent\<close>

record ('k, 'e) pdiff =
  pd_pers :: "('k, 'e) ppt"
  pd_diff :: "('k \<times> PointsToID) list"
  pd_propa :: "('k \<times> PointsToID) list"

type_synonym ('k, 'd, 'e) pdiff_state = "'d ppcache \<times> ('k, 'e) pdiff"

definition pdiff_new :: "bool \<Rightarrow> ('k, 'e) pdiff" where
  "pdiff_new reversePT = \<lparr>pd_pers = ppt_new reversePT, pd_diff = [], pd_propa = []\<rparr>"

definition pdiff_clear :: "('k, 'e) pdiff \<Rightarrow> ('k, 'e) pdiff" where
  "pdiff_clear s = s\<lparr>pd_pers := ppt_clear (pd_pers s), pd_diff := [], pd_propa := []\<rparr>"

definition get_pers :: "('k, 'd, 'e) pdiff_state \<Rightarrow> 'd ppcache \<times> ('k, 'e) ppt" where
  "get_pers cs = (fst cs, pd_pers (snd cs))"

definition put_pers :: "'d ppcache \<times> ('k, 'e) ppt \<Rightarrow> ('k, 'd, 'e) pdiff_state \<Rightarrow> ('k, 'd, 'e) pdiff_state" where
  "put_pers b cs = (fst b, (snd cs)\<lparr>pd_pers := snd b\<rparr>)"

definition pdiff_getPts :: "('k, 'd, 'e) pdiff_state \<Rightarrow> 'k \<Rightarrow> ('d \<times> ('k, 'd, 'e) pdiff_state) option" where
  "pdiff_getPts cs k = lift_op get_pers put_pers (\<lambda>b. ppt_getPts b k) cs"

definition pdiff_getRevPts :: "('k, 'd, 'e) pdiff_state \<Rightarrow> 'e \<Rightarrow> ('k list \<times> ('k, 'd, 'e) pdiff_state) option" where
  "pdiff_getRevPts cs e = lift_op get_pers put_pers (\<lambda>b. ppt_getRevPts b e) cs"

definition pdiff_addPts :: "('d, 'e) set_ops \<Rightarrow> ('k, 'd, 'e) pdiff_state \<Rightarrow> 'k \<Rightarrow> 'e \<Rightarrow>
    (bool \<times> ('k, 'd, 'e) pdiff_state) option" where
  "pdiff_addPts ops cs k e = lift_op get_pers put_pers (\<lambda>b. ppt_addPts ops b k e) cs"

definition pdiff_unionPts :: "('d, 'e) set_ops \<Rightarrow> ('k, 'd, 'e) pdiff_state \<Rightarrow> 'k \<Rightarrow> 'k \<Rightarrow>
    (bool \<times> ('k, 'd, 'e) pdiff_state) option" where
  "pdiff_unionPts ops cs k l = lift_op get_pers put_pers (\<lambda>b. ppt_unionPts ops b k l) cs"

definition pdiff_unionSet :: "('d, 'e) set_ops \<Rightarrow> ('k, 'd, 'e) pdiff_state \<Rightarrow> 'k \<Rightarrow> 'd \<Rightarrow>
    (bool \<times> ('k, 'd, 'e) pdiff_state) option" where
  "pdiff_unionSet ops cs k d = lift_op get_pers put_pers (\<lambda>b. ppt_unionSet ops b k d) cs"

definition pdiff_clearPts :: "('d, 'e) set_ops \<Rightarrow> ('k, 'd, 'e) pdiff_state \<Rightarrow> 'k \<Rightarrow> 'e \<Rightarrow>
    ('k, 'd, 'e) pdiff_state option" where
  "pdiff_clearPts ops cs k e = lift_update get_pers put_pers (\<lambda>b. ppt_clearPts ops b k e) cs"

definition pdiff_clearFullPts :: "('d, 'e) set_ops \<Rightarrow> ('k, 'd, 'e) pdiff_state \<Rightarrow> 'k \<Rightarrow>
    ('k, 'd, 'e) pdiff_state option" where
  "pdiff_clearFullPts ops cs k = lift_update get_pers put_pers (\<lambda>b. ppt_clearFullPts ops b k) cs"

definition pdiff_remapAllPts :: "('d, 'e) set_ops \<Rightarrow> ('k, 'd, 'e) pdiff_state \<Rightarrow> ('k, 'd, 'e) pdiff_state option" where
  "pdiff_remapAllPts ops cs = map_option (\<lambda>c. (c, snd cs)) (remapAllPts (base ops) (fst cs))"

definition pdiff_getDiffPts :: "('k, 'd, 'e) pdiff_state \<Rightarrow> 'k \<Rightarrow> ('d \<times> ('k, 'd, 'e) pdiff_state) option" where
  "pdiff_getDiffPts cs var = do {
     let (c, s) = cs;
     let i = km_get emptyPointsToId (pd_diff s) var;
     let s = s\<lparr>pd_diff := km_touch emptyPointsToId var (pd_diff s)\<rparr>;
     d \<leftarrow> getActualPts c i;
     Some (d, c, s)
   }"

definition pdiff_computeDiffPts :: "('d, 'e) set_ops \<Rightarrow> ('k, 'd, 'e) pdiff_state \<Rightarrow> 'k \<Rightarrow> 'd \<Rightarrow>
    (bool \<times> ('k, 'd, 'e) pdiff_state) option" where
  "pdiff_computeDiffPts ops cs var all = do {
     let (c, s) = cs;
     let propaId = km_get emptyPointsToId (pd_propa s) var;
     let s = s\<lparr>pd_propa := km_touch emptyPointsToId var (pd_propa s)\<rparr>;
     (allId, c) \<leftarrow> emplacePts (base ops) c all;
     (diffId, c) \<leftarrow> complementPts (base ops) c allId propaId;
     let s = s\<lparr>pd_diff := AList.update var diffId (pd_diff s)\<rparr>;
     let s = s\<lparr>pd_propa := AList.update var allId (pd_propa s)\<rparr>;
     Some (diffId \<noteq> emptyPointsToId, c, s)
   }"

definition pdiff_updatePropaPtsMap :: "('d, 'e) set_ops \<Rightarrow> ('k, 'd, 'e) pdiff_state \<Rightarrow> 'k \<Rightarrow> 'k \<Rightarrow>
    ('k, 'd, 'e) pdiff_state option" where
  "pdiff_updatePropaPtsMap ops cs src dst = do {
     let (c, s) = cs;
     let dstId = km_get emptyPointsToId (pd_propa s) dst;
     let s = s\<lparr>pd_propa := km_touch emptyPointsToId dst (pd_propa s)\<rparr>;
     let srcId = km_get emptyPointsToId (pd_propa s) src;
     let s = s\<lparr>pd_propa := km_touch emptyPointsToId src (pd_propa s)\<rparr>;
     (i, c) \<leftarrow> intersectPts (base ops) c dstId srcId;
     Some (c, s\<lparr>pd_propa := AList.update dst i (pd_propa s)\<rparr>)
   }"

definition pdiff_clearPropaPts :: "('k, 'd, 'e) pdiff_state \<Rightarrow> 'k \<Rightarrow> ('k, 'd, 'e) pdiff_state" where
  "pdiff_clearPropaPts cs var =
     (fst cs, (snd cs)\<lparr>pd_propa := AList.update var emptyPointsToId (pd_propa (snd cs))\<rparr>)"

definition pdiff_getAllPts :: "('d, 'e) set_ops \<Rightarrow> ('k, 'd, 'e) pdiff_state \<Rightarrow> bool \<Rightarrow> ('d \<times> nat) list option" where
  "pdiff_getAllPts ops cs liveOnly = ppt_getAllPts ops (get_pers cs) liveOnly"

definition pdiff_ops :: "('d, 'e) set_ops \<Rightarrow> (('k, 'd, 'e) pdiff_state, 'k, 'e) ptd_ops" where
  "pdiff_ops ops = \<lparr>o_addPts = pdiff_addPts ops, o_unionPts = pdiff_unionPts ops,
     o_clearPts = pdiff_clearPts ops, o_clearFullPts = pdiff_clearFullPts ops\<rparr>"

text \<open>A map to numbers read through the cache.\<close>

definition id_view :: "('d \<Rightarrow> 'e set) \<Rightarrow> 'd ppcache \<Rightarrow> ('k \<times> PointsToID) list \<Rightarrow> 'k \<Rightarrow> 'e set" where
  "id_view els c m k = pts_of els c (km_get emptyPointsToId m k)"

definition pdiff_maps_ok :: "('k, 'd, 'e) pdiff_state \<Rightarrow> bool" where
  "pdiff_maps_ok cs \<longleftrightarrow> ids_in (fst cs) (pd_diff (snd cs)) \<and> ids_in (fst cs) (pd_propa (snd cs))"

lemma id_view_simps [simp]:
  "id_view els c (km_touch emptyPointsToId k m) = id_view els c m"
  "id_view els c (AList.update k i m) = (id_view els c m)(k := pts_of els c i)"
  by (simp_all add: id_view_def fun_eq_iff)

lemma id_view_grows:
  assumes "grows c c'" "ids_in c m" "emptyPointsToId < length (idToPts c)"
  shows "id_view els c' m = id_view els c m"
proof
  fix k
  have "km_get emptyPointsToId m k < length (idToPts c)" by (rule ids_in_get [OF assms(2,3)])
  then show "id_view els c' m k = id_view els c m k"
    using grows_pts_of [OF assms(1), of _ els] by (simp add: id_view_def)
qed

context points_to_set begin

abbreviation PDInv :: "('k, 'd, 'e) pdiff_state \<Rightarrow> bool" where
  "PDInv cs \<equiv> PInv (get_pers cs) \<and> pdiff_maps_ok cs"

text \<open>The member is untouched, the cache has grown.\<close>

lemma PDInv_maps:
  assumes "PDInv (c, s)" "Ready c'" "grows c c'" "ids_in c' d" "ids_in c' p"
  shows "PDInv (c', s\<lparr>pd_diff := d, pd_propa := p\<rparr>)"
  using assms PInv_grows(1) [of c "pd_pers s" c'] by (simp add: get_pers_def pdiff_maps_ok_def)

lemma PDInv_ready:
  assumes "PDInv (c, s)"
  shows "Ready c" "emptyPointsToId < length (idToPts c)" "ids_in c (pd_diff s)" "ids_in c (pd_propa s)"
  using assms Ready_empty(1) [of c] by (auto simp: get_pers_def ppt_inv_def pdiff_maps_ok_def)

lemma pdiff_getDiffPts_spec:
  assumes inv: "PDInv (c, s)"
  shows "\<exists>d s'. pdiff_getDiffPts (c, s) k = Some (d, c, s') \<and> good d \<and> els d = id_view els c (pd_diff s) k \<and>
    PDInv (c, s') \<and> id_view els c (pd_diff s') = id_view els c (pd_diff s) \<and> pd_propa s' = pd_propa s"
proof -
  note r = PDInv_ready [OF inv]
  have "PDInv (c, s\<lparr>pd_diff := km_touch emptyPointsToId k (pd_diff s)\<rparr>)"
    using inv ids_in_touch [OF r(3,2), of k] by (simp add: get_pers_def pdiff_maps_ok_def)
  then show ?thesis using Ready_actual [OF r(1) ids_in_get [OF r(3,2), of k]]
    by (auto simp: pdiff_getDiffPts_def id_view_def)
qed

lemma pdiff_computeDiffPts_spec:
  assumes inv: "PDInv (c, s)" and a: "good a" and room: "length (idToPts c) + 2 \<le> 2 ^ 32"
  shows "\<exists>c' s'. pdiff_computeDiffPts ops (c, s) k a = Some (\<not> els a \<subseteq> id_view els c (pd_propa s) k, c', s') \<and>
    PDInv (c', s') \<and> length (idToPts c') \<le> length (idToPts c) + 2 \<and>
    id_view els c' (pd_diff s') = (id_view els c (pd_diff s))(k := els a - id_view els c (pd_propa s) k) \<and>
    id_view els c' (pd_propa s') = (id_view els c (pd_propa s))(k := els a)"
proof -
  note r = PDInv_ready [OF inv]
  let ?p = "km_get emptyPointsToId (pd_propa s) k"
  obtain i c1 where e: "emplacePts (base ops) c a = Some (i, c1)" "Ready c1" "grows c c1"
      "i < length (idToPts c1)" "pts_of els c1 i = els a" "length (idToPts c1) \<le> length (idToPts c) + 1"
    using Ready_emplace [OF r(1) a] room by auto
  have p: "?p < length (idToPts c)" by (rule ids_in_get [OF r(4,2)])
  note p1 = grows_pts_of [OF e(3) p, of els]
  have l: "length (idToPts c1) < 2 ^ 32" using e(6) room by linarith
  obtain j c' where o: "complementPts (base ops) c1 i ?p = Some (j, c')" "op_result ComplementOp c1 i ?p j c'"
    using complementPts_spec [OF Ready_Inv [OF e(2)] e(4) conjunct1 [OF p1] l] by blast
  note st = op_result_step [OF e(2) o(2)]
  have g: "grows c c'" by (rule grows_trans [OF e(3) st(2)])
  have i: "i < length (idToPts c')" "pts_of els c' i = els a" using grows_pts_of [OF st(2) e(4), of els] e(5) by auto
  have j: "pts_of els c' j = els a - id_view els c (pd_propa s) k"
    using st(4) e(5) p1 by (simp add: id_view_def)
  have z: "j = emptyPointsToId \<longleftrightarrow> els a \<subseteq> id_view els c (pd_propa s) k"
    using ids_inj [OF Ready_Inv [OF st(1)] st(3) Ready_empty(1) [OF st(1)]] Ready_empty(2) [OF st(1)] j by auto
  let ?d' = "AList.update k j (pd_diff s)" and ?p' = "AList.update k i (km_touch emptyPointsToId k (pd_propa s))"
  have ids: "ids_in c' ?d'" "ids_in c' ?p'"
    using ids_in_grows [OF g r(3)] ids_in_grows [OF g r(4)] Ready_empty(1) [OF st(1)] st(3) i(1)
    by (simp_all add: ids_in_update ids_in_touch)
  note inv' = PDInv_maps [OF inv st(1) g ids]
  have v: "id_view els c' (pd_diff s) = id_view els c (pd_diff s)"
    "id_view els c' (pd_propa s) = id_view els c (pd_propa s)"
    using id_view_grows [OF g _ r(2)] r(3,4) by blast+
  have "pdiff_computeDiffPts ops (c, s) k a = Some (\<not> els a \<subseteq> id_view els c (pd_propa s) k, c',
      s\<lparr>pd_diff := ?d', pd_propa := ?p'\<rparr>)"
    using e(1) o(1) z by (simp add: pdiff_computeDiffPts_def)
  moreover have "length (idToPts c') \<le> length (idToPts c) + 2" using st(5) e(6) by linarith
  ultimately show ?thesis using inv' v i(2) j by auto
qed

lemma pdiff_updatePropaPtsMap_spec:
  assumes inv: "PDInv (c, s)" and room: "length (idToPts c) + 2 \<le> 2 ^ 32"
  shows "\<exists>c' s'. pdiff_updatePropaPtsMap ops (c, s) src dst = Some (c', s') \<and> PDInv (c', s') \<and>
    length (idToPts c') \<le> length (idToPts c) + 2 \<and> id_view els c' (pd_diff s') = id_view els c (pd_diff s) \<and>
    id_view els c' (pd_propa s') = (id_view els c (pd_propa s))
      (dst := id_view els c (pd_propa s) dst \<inter> id_view els c (pd_propa s) src)"
proof -
  note r = PDInv_ready [OF inv]
  let ?d = "km_get emptyPointsToId (pd_propa s) dst" and ?s = "km_get emptyPointsToId (pd_propa s) src"
  have ds: "?d < length (idToPts c)" "?s < length (idToPts c)" by (rule ids_in_get [OF r(4,2)])+
  have l: "length (idToPts c) < 2 ^ 32" using room by simp
  obtain j c' where o: "intersectPts (base ops) c ?d ?s = Some (j, c')" "op_result IntersectionOp c ?d ?s j c'"
    using intersectPts_spec [OF Ready_Inv [OF r(1)] ds l] by blast
  note st = op_result_step [OF r(1) o(2)]
  have j: "pts_of els c' j = id_view els c (pd_propa s) dst \<inter> id_view els c (pd_propa s) src"
    using st(4) by (simp add: id_view_def)
  let ?p' = "AList.update dst j (km_touch emptyPointsToId src (km_touch emptyPointsToId dst (pd_propa s)))"
  have ids: "ids_in c' (pd_diff s)" "ids_in c' ?p'"
    using ids_in_grows [OF st(2) r(3)] ids_in_grows [OF st(2) r(4)] Ready_empty(1) [OF st(1)] st(3)
    by (simp_all add: ids_in_update ids_in_touch)
  note inv' = PDInv_maps [OF inv st(1,2) ids]
  have v: "id_view els c' (pd_diff s) = id_view els c (pd_diff s)"
    "id_view els c' (pd_propa s) = id_view els c (pd_propa s)"
    using id_view_grows [OF st(2) _ r(2)] r(3,4) by blast+
  have "pdiff_updatePropaPtsMap ops (c, s) src dst = Some (c', s\<lparr>pd_diff := pd_diff s, pd_propa := ?p'\<rparr>)"
    using o(1) by (simp add: pdiff_updatePropaPtsMap_def)
  moreover have "length (idToPts c') \<le> length (idToPts c) + 2" using st(5) by linarith
  ultimately show ?thesis using inv' v j by auto
qed

lemma pdiff_clearPropaPts_spec:
  assumes inv: "PDInv (c, s)"
  shows "\<exists>s'. pdiff_clearPropaPts (c, s) k = (c, s') \<and> PDInv (c, s') \<and> pd_diff s' = pd_diff s \<and>
    id_view els c (pd_propa s') = (id_view els c (pd_propa s))(k := {})"
proof -
  note r = PDInv_ready [OF inv]
  have "PDInv (c, s\<lparr>pd_propa := AList.update k emptyPointsToId (pd_propa s)\<rparr>)"
    using inv ids_in_update [OF r(4,2), of k] by (simp add: get_pers_def pdiff_maps_ok_def)
  then show ?thesis using Ready_empty(2) [OF r(1)] by (simp add: pdiff_clearPropaPts_def)
qed

end

definition pdiff_pt_inv :: "(64 word \<Rightarrow> 64 word) \<Rightarrow> pt_globals \<Rightarrow> ('k, points_to, NodeID) pdiff_state \<Rightarrow> bool" where
  "pdiff_pt_inv h g cs \<longleftrightarrow> ppt_pt_inv h g (get_pers cs) \<and> pdiff_maps_ok cs"

definition pdiff_room :: "('k, 'd, 'e) pdiff_state \<Rightarrow> nat \<Rightarrow> bool" where
  "pdiff_room cs n \<longleftrightarrow> ppt_room (get_pers cs) n"

lemma pdiff_room_step:
  "pdiff_room (c, s) (Suc n) \<Longrightarrow> length (idToPts c) + 2 \<le> 2 ^ 32"
  "pdiff_room (c, s) (Suc n) \<Longrightarrow> length (idToPts c') \<le> length (idToPts c) + 2 \<Longrightarrow> pdiff_room (c', s') n"
  by (simp_all add: pdiff_room_def ppt_room_def get_pers_def)

interpretation pd: diff_data pdiff_getDiffPts "pdiff_computeDiffPts (pt_set_ops h g)"
  "pdiff_updatePropaPtsMap (pt_set_ops h g)" "\<lambda>s k. Some (pdiff_clearPropaPts s k)"
  "pdiff_pt_inv h g" pdiff_room "\<lambda>cs. id_view pt_nodes (fst cs) (pd_diff (snd cs))"
  "\<lambda>cs. id_view pt_nodes (fst cs) (pd_propa (snd cs))" "pt_good g" pt_nodes
  for h g
proof (unfold_locales, goal_cases)
  case (1 cs k)
  obtain c s where cs: "cs = (c, s)" by fastforce
  show ?case using ps.pdiff_getDiffPts_spec [of h g c s k] 1
    unfolding cs ps_good pdiff_pt_inv_def ppt_pt_inv_def
    by (fastforce simp: pdiff_room_def ppt_room_def get_pers_def)
next
  case (2 cs n a k)
  obtain c s where cs: "cs = (c, s)" by fastforce
  note st = pdiff_room_step [OF 2(2) [unfolded cs]]
  show ?case using ps.pdiff_computeDiffPts_spec [of h g c s a k] 2 st
    unfolding cs ps_good pdiff_pt_inv_def ppt_pt_inv_def by fastforce
next
  case (3 cs n src dst)
  obtain c s where cs: "cs = (c, s)" by fastforce
  note st = pdiff_room_step [OF 3(2) [unfolded cs]]
  show ?case using ps.pdiff_updatePropaPtsMap_spec [of h g c s src dst] 3 st
    unfolding cs pdiff_pt_inv_def ppt_pt_inv_def by fastforce
next
  case (4 cs n k)
  obtain c s where cs: "cs = (c, s)" by fastforce
  show ?case using ps.pdiff_clearPropaPts_spec [of h g c s k] 4
    unfolding cs pdiff_pt_inv_def ppt_pt_inv_def by (fastforce simp: pdiff_room_def ppt_room_def get_pers_def)
qed

interpretation pdp: pt_data_part "ppt_ops (pt_set_ops h g)" ppt_getPts ppt_getRevPts
  "ppt_unionSet (pt_set_ops h g)" "ppt_pt_inv h g" "ppt_view pt_nodes" ppt_room
  "\<lambda>cs cs'. grows (fst cs) (fst cs')" "\<lambda>cs. p_rev (snd cs)" "pt_node_ok g" "pt_good g" pt_nodes
  get_pers put_pers pdiff_maps_ok
  "\<lambda>cs cs'. id_view pt_nodes (fst cs') (pd_diff (snd cs')) = id_view pt_nodes (fst cs) (pd_diff (snd cs)) \<and>
     id_view pt_nodes (fst cs') (pd_propa (snd cs')) = id_view pt_nodes (fst cs) (pd_propa (snd cs))"
  for h g
proof (unfold_locales, goal_cases)
  case (1 b cs)
  show ?case by (simp add: get_pers_def put_pers_def)
next
  case (2 cs b)
  obtain c s where cs: "cs = (c, s)" by fastforce
  have g: "grows c (fst b)" and m: "ids_in c (pd_diff s)" "ids_in c (pd_propa s)"
    using 2(2,4) by (simp_all add: cs get_pers_def pdiff_maps_ok_def)
  have e: "emptyPointsToId < length (idToPts c)"
    using 2(1) ps.Ready_empty(1) [of h g c] by (simp add: cs ppt_pt_inv_def ppt_inv_def get_pers_def)
  show ?case
    using ids_in_grows [OF g m(1)] ids_in_grows [OF g m(2)] id_view_grows [OF g m(1) e, of pt_nodes]
      id_view_grows [OF g m(2) e, of pt_nodes]
    by (simp add: cs put_pers_def pdiff_maps_ok_def)
qed

lemma pdiff_ops_eq: "pdiff_ops ops = lift_ops get_pers put_pers (ppt_ops ops)"
  by (simp add: pdiff_ops_def lift_ops_def ppt_ops_def fun_eq_iff pdiff_addPts_def pdiff_unionPts_def
      pdiff_clearPts_def pdiff_clearFullPts_def)

end
