(* ===== verification/DataFlowPT.thy ===== *)
theory DataFlowPT
  imports PersistentPT
begin

text \<open>
  \<open>MutableDFPTData\<close> and \<open>PersistentDFPTData\<close>: points-to sets of top-level variables,
  and at every location an IN and an OUT map for address-taken variables. A reference that the code
  passes to its union is a cell; the contract is the locale \<open>df_data\<close>.
\<close>

section \<open>Cells\<close>

type_synonym LocID = nat

datatype 'k cell = InC LocID 'k | OutC LocID 'k | TopC 'k

text \<open>The loop of \<open>updateAllDFOutFromIn\<close>: an update for every variable that is not skipped.\<close>

fun update_vars :: "('s \<Rightarrow> 'k \<Rightarrow> (bool \<times> 's) option) \<Rightarrow> ('k \<Rightarrow> bool) \<Rightarrow> 'k list \<Rightarrow> 's \<Rightarrow> (bool \<times> 's) option" where
  "update_vars f skip [] s = Some (False, s)"
| "update_vars f skip (k # ks) s =
     (if skip k then update_vars f skip ks s
      else do {
        (b, s) \<leftarrow> f s k;
        (c, s) \<leftarrow> update_vars f skip ks s;
        Some (b \<or> c, s)
      })"

section \<open>The contract\<close>

locale df_data =
  fixes unionCells :: "'s \<Rightarrow> 'k cell \<Rightarrow> 'k cell \<Rightarrow> (bool \<times> 's) option" and inKeys :: "'s \<Rightarrow> LocID \<Rightarrow> 'k list"
    and hasIn :: "'s \<Rightarrow> LocID \<Rightarrow> bool" and inv :: "'s \<Rightarrow> bool" and room :: "'s \<Rightarrow> nat \<Rightarrow> bool"
    and view :: "'s \<Rightarrow> 'k cell \<Rightarrow> 'e set"
  assumes cells_law: "inv s \<Longrightarrow> room s (Suc n) \<Longrightarrow>
      \<exists>s'. unionCells s d c = Some (\<not> view s c \<subseteq> view s d, s') \<and> inv s' \<and> room s' n \<and>
        view s' = (view s)(d := view s d \<union> view s c)"
    and keys_law: "inv s \<Longrightarrow> view s (InC l k) \<noteq> {} \<Longrightarrow> k \<in> set (inKeys s l)"
    and has_in_law: "inv s \<Longrightarrow> \<not> hasIn s l \<Longrightarrow> inKeys s l = []"
    and room_Suc: "room s (Suc n) \<Longrightarrow> room s n"

text \<open>What the loop is to do: join IN into OUT at one location.\<close>

definition out_joined :: "('k cell \<Rightarrow> 'e set) \<Rightarrow> LocID \<Rightarrow> 'k set \<Rightarrow> 'k cell \<Rightarrow> 'e set" where
  "out_joined p l vs c =
     (case c of OutC m v \<Rightarrow> if m = l \<and> v \<in> vs then p (OutC l v) \<union> p (InC l v) else p c | _ \<Rightarrow> p c)"

definition not_joined :: "('k cell \<Rightarrow> 'e set) \<Rightarrow> LocID \<Rightarrow> 'k set \<Rightarrow> bool" where
  "not_joined p l vs \<longleftrightarrow> (\<exists>v \<in> vs. \<not> p (InC l v) \<subseteq> p (OutC l v))"

lemma out_joined_empty [simp]: "out_joined p l {} = p"
  by (auto simp: out_joined_def fun_eq_iff split: cell.splits)

lemma out_joined_insert:
  "out_joined (p(OutC l v := p (OutC l v) \<union> p (InC l v))) l vs = out_joined p l (insert v vs)"
  by (auto simp: out_joined_def fun_eq_iff split: cell.splits)

lemma not_joined_insert:
  "not_joined p l (insert v vs) \<longleftrightarrow> \<not> p (InC l v) \<subseteq> p (OutC l v) \<or>
     not_joined (p(OutC l v := p (OutC l v) \<union> p (InC l v))) l vs"
  by (auto simp: not_joined_def)

text \<open>Only variables with a non-empty IN set matter.\<close>

lemma out_joined_restrict:
  assumes "\<And>v. v \<in> vs \<Longrightarrow> p (InC l v) \<noteq> {} \<Longrightarrow> v \<in> us" "us \<subseteq> vs"
  shows "out_joined p l us = out_joined p l vs" "not_joined p l us \<longleftrightarrow> not_joined p l vs"
proof -
  show "out_joined p l us = out_joined p l vs"
  proof
    fix c show "out_joined p l us c = out_joined p l vs c"
      using assms by (cases c) (auto simp: out_joined_def)
  qed
  show "not_joined p l us \<longleftrightarrow> not_joined p l vs" using assms by (fastforce simp: not_joined_def)
qed

context df_data begin

lemma update_vars_spec:
  assumes "inv s" "room s (length ks)"
  shows "\<exists>s'. update_vars (\<lambda>s v. unionCells s (OutC l v) (InC l v)) skip ks s =
      Some (not_joined (view s) l {v \<in> set ks. \<not> skip v}, s') \<and> inv s' \<and>
    view s' = out_joined (view s) l {v \<in> set ks. \<not> skip v}"
  using assms
proof (induction ks arbitrary: s)
  case Nil
  then show ?case by (simp add: not_joined_def)
next
  case (Cons k ks)
  obtain t where t: "unionCells s (OutC l k) (InC l k) = Some (\<not> view s (InC l k) \<subseteq> view s (OutC l k), t)"
      "inv t" "room t (length ks)" "view t = (view s)(OutC l k := view s (OutC l k) \<union> view s (InC l k))"
    using cells_law [of s "length ks" "OutC l k" "InC l k"] Cons.prems by auto
  show ?case
  proof (cases "skip k")
    case True
    have "room s (length ks)" using Cons.prems(2) room_Suc by simp
    moreover have "{v \<in> set (k # ks). \<not> skip v} = {v \<in> set ks. \<not> skip v}" using True by auto
    ultimately show ?thesis using Cons.IH [OF Cons.prems(1)] True by simp
  next
    case False
    then have s: "{v \<in> set (k # ks). \<not> skip v} = insert k {v \<in> set ks. \<not> skip v}" by auto
    obtain s' where s': "update_vars (\<lambda>s v. unionCells s (OutC l v) (InC l v)) skip ks t =
        Some (not_joined (view t) l {v \<in> set ks. \<not> skip v}, s')" "inv s'"
        "view s' = out_joined (view t) l {v \<in> set ks. \<not> skip v}"
      using Cons.IH [OF t(2,3)] by blast
    have v: "view s' = out_joined (view s) l (insert k {v \<in> set ks. \<not> skip v})"
      using s'(3) unfolding t(4) out_joined_insert .
    have b: "not_joined (view s) l (insert k {v \<in> set ks. \<not> skip v}) \<longleftrightarrow>
        \<not> view s (InC l k) \<subseteq> view s (OutC l k) \<or> not_joined (view t) l {v \<in> set ks. \<not> skip v}"
      unfolding t(4) by (rule not_joined_insert)
    show ?thesis unfolding s v [symmetric] b using False t(1) s'(1,2) by simp
  qed
qed

text \<open>The whole operation: every OUT set receives its IN set, but for the singleton of a strong update.\<close>

lemma update_all_spec:
  assumes inv: "inv s" and room: "room s (length (inKeys s l))"
  shows "\<exists>s'. (if hasIn s l
      then update_vars (\<lambda>s v. unionCells s (OutC l v) (InC l v)) (\<lambda>v. strong \<and> v = singleton) (inKeys s l) s
      else Some (False, s)) = Some (not_joined (view s) l {v. \<not> (strong \<and> v = singleton)}, s') \<and> inv s' \<and>
    view s' = out_joined (view s) l {v. \<not> (strong \<and> v = singleton)}"
proof -
  let ?skip = "\<lambda>v. strong \<and> v = singleton"
  have "update_vars f skip [] t = Some (False, t)" for f skip t by simp
  then have e: "(if hasIn s l
      then update_vars (\<lambda>s v. unionCells s (OutC l v) (InC l v)) ?skip (inKeys s l) s
      else Some (False, s)) = update_vars (\<lambda>s v. unionCells s (OutC l v) (InC l v)) ?skip (inKeys s l) s"
    using has_in_law [OF inv] by simp
  have r: "out_joined (view s) l {v \<in> set (inKeys s l). \<not> ?skip v} = out_joined (view s) l {v. \<not> ?skip v}"
    "not_joined (view s) l {v \<in> set (inKeys s l). \<not> ?skip v} \<longleftrightarrow> not_joined (view s) l {v. \<not> ?skip v}"
    by (rule out_joined_restrict; use keys_law [OF inv] in auto)+
  show ?thesis unfolding e using update_vars_spec [OF inv room, of l ?skip] unfolding r .
qed

end

section \<open>Mutable\<close>

record ('k, 'd, 'e) mdf =
  dfInPtsMap :: "(LocID \<times> ('k \<times> 'd) list) list"
  dfOutPtsMap :: "(LocID \<times> ('k \<times> 'd) list) list"
  df_mut :: "('k, 'd, 'e) mpt"

definition mdf_new :: "bool \<Rightarrow> ('k, 'd, 'e) mdf" where
  "mdf_new reversePT = \<lparr>dfInPtsMap = [], dfOutPtsMap = [], df_mut = mpt_new reversePT\<rparr>"

text \<open>IN and OUT maps stay.\<close>

definition mdf_clear :: "('k, 'd, 'e) mdf \<Rightarrow> ('k, 'd, 'e) mdf" where
  "mdf_clear s = s\<lparr>df_mut := mpt_clear (df_mut s)\<rparr>"

definition mdf_getPts :: "('d, 'e) set_ops \<Rightarrow> ('k, 'd, 'e) mdf \<Rightarrow> 'k \<Rightarrow> 'd \<times> ('k, 'd, 'e) mdf" where
  "mdf_getPts ops s k = (let (d, m) = mpt_getPts ops (df_mut s) k in (d, s\<lparr>df_mut := m\<rparr>))"

definition mdf_getRevPts :: "('k, 'd, 'e) mdf \<Rightarrow> 'e \<Rightarrow> ('k list \<times> ('k, 'd, 'e) mdf) option" where
  "mdf_getRevPts s e = map_option (\<lambda>(ks, m). (ks, s\<lparr>df_mut := m\<rparr>)) (mpt_getRevPts (df_mut s) e)"

text \<open>A map inside a map: \<open>m[loc][var]\<close>.\<close>

definition df_get :: "'v \<Rightarrow> (LocID \<times> ('k \<times> 'v) list) list \<Rightarrow> LocID \<Rightarrow> 'k \<Rightarrow> 'v" where
  "df_get d m loc var = km_get d (km_get [] m loc) var"

definition df_touch :: "'v \<Rightarrow> LocID \<Rightarrow> 'k \<Rightarrow> (LocID \<times> ('k \<times> 'v) list) list \<Rightarrow> (LocID \<times> ('k \<times> 'v) list) list" where
  "df_touch d loc var m = AList.update loc (km_touch d var (km_get [] m loc)) m"

definition df_put :: "LocID \<Rightarrow> 'k \<Rightarrow> 'v \<Rightarrow> (LocID \<times> ('k \<times> 'v) list) list \<Rightarrow> (LocID \<times> ('k \<times> 'v) list) list" where
  "df_put loc var v m = AList.update loc (AList.update var v (km_get [] m loc)) m"

definition has_loc :: "(LocID \<times> ('k \<times> 'v) list) list \<Rightarrow> LocID \<Rightarrow> bool" where
  "has_loc m loc \<longleftrightarrow> map_of m loc \<noteq> None"

definition has_var :: "(LocID \<times> ('k \<times> 'v) list) list \<Rightarrow> LocID \<Rightarrow> 'k \<Rightarrow> bool" where
  "has_var m loc var \<longleftrightarrow> (case map_of m loc of None \<Rightarrow> False | Some p \<Rightarrow> map_of p var \<noteq> None)"

definition mdf_hasDFInSet :: "('k, 'd, 'e) mdf \<Rightarrow> LocID \<Rightarrow> bool" where
  "mdf_hasDFInSet s loc = has_loc (dfInPtsMap s) loc"

definition mdf_hasDFOutSet :: "('k, 'd, 'e) mdf \<Rightarrow> LocID \<Rightarrow> bool" where
  "mdf_hasDFOutSet s loc = has_loc (dfOutPtsMap s) loc"

definition mdf_hasDFInVar :: "('k, 'd, 'e) mdf \<Rightarrow> LocID \<Rightarrow> 'k \<Rightarrow> bool" where
  "mdf_hasDFInVar s loc var = has_var (dfInPtsMap s) loc var"

definition mdf_hasDFOutVar :: "('k, 'd, 'e) mdf \<Rightarrow> LocID \<Rightarrow> 'k \<Rightarrow> bool" where
  "mdf_hasDFOutVar s loc var = has_var (dfOutPtsMap s) loc var"

text \<open>The cell a reference denotes: its set, its creation on access, and assignment to it.\<close>

fun mdf_read :: "('d, 'e) set_ops \<Rightarrow> ('k, 'd, 'e) mdf \<Rightarrow> 'k cell \<Rightarrow> 'd" where
  "mdf_read ops s (InC loc var) = df_get (s_new ops) (dfInPtsMap s) loc var"
| "mdf_read ops s (OutC loc var) = df_get (s_new ops) (dfOutPtsMap s) loc var"
| "mdf_read ops s (TopC var) = km_get (s_new ops) (m_pts (df_mut s)) var"

fun mdf_touch :: "('d, 'e) set_ops \<Rightarrow> 'k cell \<Rightarrow> ('k, 'd, 'e) mdf \<Rightarrow> ('k, 'd, 'e) mdf" where
  "mdf_touch ops (InC loc var) s = s\<lparr>dfInPtsMap := df_touch (s_new ops) loc var (dfInPtsMap s)\<rparr>"
| "mdf_touch ops (OutC loc var) s = s\<lparr>dfOutPtsMap := df_touch (s_new ops) loc var (dfOutPtsMap s)\<rparr>"
| "mdf_touch ops (TopC var) s = s\<lparr>df_mut := snd (mpt_getPts ops (df_mut s) var)\<rparr>"

fun mdf_write :: "'k cell \<Rightarrow> 'd \<Rightarrow> ('k, 'd, 'e) mdf \<Rightarrow> ('k, 'd, 'e) mdf" where
  "mdf_write (InC loc var) d s = s\<lparr>dfInPtsMap := df_put loc var d (dfInPtsMap s)\<rparr>"
| "mdf_write (OutC loc var) d s = s\<lparr>dfOutPtsMap := df_put loc var d (dfOutPtsMap s)\<rparr>"
| "mdf_write (TopC var) d s = s\<lparr>df_mut := (df_mut s)\<lparr>m_pts := AList.update var d (m_pts (df_mut s))\<rparr>\<rparr>"

definition mdf_getDFInPtsSet :: "('d, 'e) set_ops \<Rightarrow> ('k, 'd, 'e) mdf \<Rightarrow> LocID \<Rightarrow> 'k \<Rightarrow> 'd \<times> ('k, 'd, 'e) mdf" where
  "mdf_getDFInPtsSet ops s loc var = (mdf_read ops s (InC loc var), mdf_touch ops (InC loc var) s)"

definition mdf_getDFOutPtsSet :: "('d, 'e) set_ops \<Rightarrow> ('k, 'd, 'e) mdf \<Rightarrow> LocID \<Rightarrow> 'k \<Rightarrow> 'd \<times> ('k, 'd, 'e) mdf" where
  "mdf_getDFOutPtsSet ops s loc var = (mdf_read ops s (OutC loc var), mdf_touch ops (OutC loc var) s)"

text \<open>\<open>unionPts(DataSet& dst, const DataSet& src)\<close> on two references.\<close>

definition mdf_unionCells :: "('d, 'e) set_ops \<Rightarrow> ('k, 'd, 'e) mdf \<Rightarrow> 'k cell \<Rightarrow> 'k cell \<Rightarrow>
    (bool \<times> ('k, 'd, 'e) mdf) option" where
  "mdf_unionCells ops s dst src = do {
     let s = mdf_touch ops dst s;
     let s = mdf_touch ops src s;
     (ch, d) \<leftarrow> s_or ops (mdf_read ops s dst) (mdf_read ops s src);
     Some (ch, mdf_write dst d s)
   }"

definition mdf_updateDFInFromIn :: "('d, 'e) set_ops \<Rightarrow> ('k, 'd, 'e) mdf \<Rightarrow> LocID \<Rightarrow> 'k \<Rightarrow> LocID \<Rightarrow> 'k \<Rightarrow>
    (bool \<times> ('k, 'd, 'e) mdf) option" where
  "mdf_updateDFInFromIn ops s srcLoc srcVar dstLoc dstVar =
     mdf_unionCells ops s (InC dstLoc dstVar) (InC srcLoc srcVar)"

definition mdf_updateDFInFromOut :: "('d, 'e) set_ops \<Rightarrow> ('k, 'd, 'e) mdf \<Rightarrow> LocID \<Rightarrow> 'k \<Rightarrow> LocID \<Rightarrow> 'k \<Rightarrow>
    (bool \<times> ('k, 'd, 'e) mdf) option" where
  "mdf_updateDFInFromOut ops s srcLoc srcVar dstLoc dstVar =
     mdf_unionCells ops s (InC dstLoc dstVar) (OutC srcLoc srcVar)"

definition mdf_updateDFOutFromIn :: "('d, 'e) set_ops \<Rightarrow> ('k, 'd, 'e) mdf \<Rightarrow> LocID \<Rightarrow> 'k \<Rightarrow> LocID \<Rightarrow> 'k \<Rightarrow>
    (bool \<times> ('k, 'd, 'e) mdf) option" where
  "mdf_updateDFOutFromIn ops s srcLoc srcVar dstLoc dstVar =
     mdf_unionCells ops s (OutC dstLoc dstVar) (InC srcLoc srcVar)"

definition mdf_updateAllDFInFromOut :: "('d, 'e) set_ops \<Rightarrow> ('k, 'd, 'e) mdf \<Rightarrow> LocID \<Rightarrow> 'k \<Rightarrow> LocID \<Rightarrow> 'k \<Rightarrow>
    (bool \<times> ('k, 'd, 'e) mdf) option" where
  "mdf_updateAllDFInFromOut = mdf_updateDFInFromOut"

definition mdf_updateAllDFInFromIn :: "('d, 'e) set_ops \<Rightarrow> ('k, 'd, 'e) mdf \<Rightarrow> LocID \<Rightarrow> 'k \<Rightarrow> LocID \<Rightarrow> 'k \<Rightarrow>
    (bool \<times> ('k, 'd, 'e) mdf) option" where
  "mdf_updateAllDFInFromIn = mdf_updateDFInFromIn"

definition mdf_inKeys :: "('k, 'd, 'e) mdf \<Rightarrow> LocID \<Rightarrow> 'k list" where
  "mdf_inKeys s loc = map fst (km_get [] (dfInPtsMap s) loc)"

definition mdf_updateAllDFOutFromIn :: "('d, 'e) set_ops \<Rightarrow> ('k, 'd, 'e) mdf \<Rightarrow> LocID \<Rightarrow> 'k \<Rightarrow> bool \<Rightarrow>
    (bool \<times> ('k, 'd, 'e) mdf) option" where
  "mdf_updateAllDFOutFromIn ops s loc singleton strongUpdates =
     (if mdf_hasDFInSet s loc
      then update_vars (\<lambda>s var. mdf_updateDFOutFromIn ops s loc var loc var)
        (\<lambda>var. strongUpdates \<and> var = singleton) (mdf_inKeys s loc) s
      else Some (False, s))"

definition mdf_updateTLVPts :: "('d, 'e) set_ops \<Rightarrow> ('k, 'd, 'e) mdf \<Rightarrow> LocID \<Rightarrow> 'k \<Rightarrow> 'k \<Rightarrow>
    (bool \<times> ('k, 'd, 'e) mdf) option" where
  "mdf_updateTLVPts ops s srcLoc srcVar dstVar = mdf_unionCells ops s (TopC dstVar) (InC srcLoc srcVar)"

definition mdf_updateATVPts :: "('d, 'e) set_ops \<Rightarrow> ('k, 'd, 'e) mdf \<Rightarrow> 'k \<Rightarrow> LocID \<Rightarrow> 'k \<Rightarrow>
    (bool \<times> ('k, 'd, 'e) mdf) option" where
  "mdf_updateATVPts ops s srcVar dstLoc dstVar = mdf_unionCells ops s (OutC dstLoc dstVar) (TopC srcVar)"

text \<open>The basic operations, without reverse sets.\<close>

definition mdf_addPts :: "('d, 'e) set_ops \<Rightarrow> ('k, 'd, 'e) mdf \<Rightarrow> 'k \<Rightarrow> 'e \<Rightarrow>
    (bool \<times> ('k, 'd, 'e) mdf) option" where
  "mdf_addPts ops s dstKey e = do {
     (ch, d) \<leftarrow> s_test_and_set ops (mdf_read ops s (TopC dstKey)) e;
     Some (ch, mdf_write (TopC dstKey) d s)
   }"

definition mdf_unionPts :: "('d, 'e) set_ops \<Rightarrow> ('k, 'd, 'e) mdf \<Rightarrow> 'k \<Rightarrow> 'k \<Rightarrow>
    (bool \<times> ('k, 'd, 'e) mdf) option" where
  "mdf_unionPts ops s dstKey srcKey = mdf_unionCells ops s (TopC dstKey) (TopC srcKey)"

definition mdf_unionSet :: "('d, 'e) set_ops \<Rightarrow> ('k, 'd, 'e) mdf \<Rightarrow> 'k \<Rightarrow> 'd \<Rightarrow>
    (bool \<times> ('k, 'd, 'e) mdf) option" where
  "mdf_unionSet ops s dstKey srcDataSet = do {
     (ch, d) \<leftarrow> s_or ops (mdf_read ops s (TopC dstKey)) srcDataSet;
     Some (ch, mdf_write (TopC dstKey) d s)
   }"

definition mdf_clearPts :: "('d, 'e) set_ops \<Rightarrow> ('k, 'd, 'e) mdf \<Rightarrow> 'k \<Rightarrow> 'e \<Rightarrow> ('k, 'd, 'e) mdf option" where
  "mdf_clearPts ops s var e = map_option (\<lambda>m. s\<lparr>df_mut := m\<rparr>) (mpt_clearPts ops (df_mut s) var e)"

definition mdf_clearFullPts :: "('d, 'e) set_ops \<Rightarrow> ('k, 'd, 'e) mdf \<Rightarrow> 'k \<Rightarrow> ('k, 'd, 'e) mdf option" where
  "mdf_clearFullPts ops s var = map_option (\<lambda>m. s\<lparr>df_mut := m\<rparr>) (mpt_clearFullPts ops (df_mut s) var)"

fun remap_locs :: "('d, 'e) set_ops \<Rightarrow> (LocID \<times> ('k \<times> 'd) list) list \<Rightarrow> (LocID \<times> ('k \<times> 'd) list) list option" where
  "remap_locs ops [] = Some []"
| "remap_locs ops ((loc, p) # m) = do {
     p \<leftarrow> remap_values ops p;
     m \<leftarrow> remap_locs ops m;
     Some ((loc, p) # m)
   }"

definition mdf_remapAllPts :: "('d, 'e) set_ops \<Rightarrow> ('k, 'd, 'e) mdf \<Rightarrow> ('k, 'd, 'e) mdf option" where
  "mdf_remapAllPts ops s = do {
     m \<leftarrow> mpt_remapAllPts ops (df_mut s);
     i \<leftarrow> remap_locs ops (dfInPtsMap s);
     o' \<leftarrow> remap_locs ops (dfOutPtsMap s);
     Some (s\<lparr>df_mut := m, dfInPtsMap := i, dfOutPtsMap := o'\<rparr>)
   }"

definition mdf_getAllPts :: "('d, 'e) set_ops \<Rightarrow> ('k, 'd, 'e) mdf \<Rightarrow> ('d \<times> nat) list option" where
  "mdf_getAllPts ops s = do {
     allPts \<leftarrow> mpt_getAllPts ops (df_mut s);
     allPts \<leftarrow> count_sets (base ops) (concat (map (map snd \<circ> snd) (dfInPtsMap s))) allPts;
     count_sets (base ops) (concat (map (map snd \<circ> snd) (dfOutPtsMap s))) allPts
   }"

text \<open>What the state stands for; the member is made without reverse sets, as the analyses make it.\<close>

definition mdf_view :: "('d, 'e) set_ops \<Rightarrow> ('d \<Rightarrow> 'e set) \<Rightarrow> ('k, 'd, 'e) mdf \<Rightarrow> 'k cell \<Rightarrow> 'e set" where
  "mdf_view ops els s c = els (mdf_read ops s c)"

definition mdf_inv :: "('d, 'e) set_ops \<Rightarrow> ('d \<Rightarrow> bool) \<Rightarrow> ('d \<Rightarrow> 'e set) \<Rightarrow> ('k, 'd, 'e) mdf \<Rightarrow> bool" where
  "mdf_inv ops good els s \<longleftrightarrow> sets_ok ops good els (m_pts (df_mut s)) \<and> \<not> m_rev (df_mut s) \<and>
     km_all (sets_ok ops good els) (dfInPtsMap s) \<and> km_all (sets_ok ops good els) (dfOutPtsMap s)"

definition mdf_frame :: "('k, 'd, 'e) mdf \<Rightarrow> ('k, 'd, 'e) mdf \<Rightarrow> bool" where
  "mdf_frame s s' \<longleftrightarrow> dfInPtsMap s' = dfInPtsMap s \<and> dfOutPtsMap s' = dfOutPtsMap s"

lemma df_get_put: "df_get d (df_put loc var v m) l x = (if l = loc \<and> x = var then v else df_get d m l x)"
  by (simp add: df_get_def df_put_def)

lemma df_get_touch [simp]: "df_get d (df_touch d loc var m) = df_get d m"
  by (simp add: df_get_def df_touch_def fun_eq_iff)

lemma mdf_read_write: "mdf_read ops (mdf_write c d s) = (mdf_read ops s)(c := d)"
proof
  fix e show "mdf_read ops (mdf_write c d s) e = ((mdf_read ops s)(c := d)) e"
    by (cases c; cases e) (simp_all add: df_get_put)
qed

lemma mdf_read_touch [simp]: "mdf_read ops (mdf_touch ops c s) = mdf_read ops s"
proof
  fix e show "mdf_read ops (mdf_touch ops c s) e = mdf_read ops s e"
    by (cases c; cases e) (simp_all add: mpt_getPts_def)
qed

lemma sets_ok_Nil: "sets_ok ops good els m \<Longrightarrow> sets_ok ops good els []"
  by (simp add: sets_ok_def)

lemma sets_ok_loc:
  "sets_ok ops good els n \<Longrightarrow> km_all (sets_ok ops good els) m \<Longrightarrow> sets_ok ops good els (km_get [] m loc)"
  using km_all_get [of "sets_ok ops good els" m "[]" loc] sets_ok_Nil [of ops good els n] by simp

lemma mdf_get_good: "mdf_inv ops good els s \<Longrightarrow> good (mdf_read ops s c)"
  by (cases c) (auto simp: mdf_inv_def df_get_def intro!: sets_ok_get sets_ok_loc)

lemma mdf_inv_touch: "mdf_inv ops good els s \<Longrightarrow> mdf_inv ops good els (mdf_touch ops c s)"
  by (cases c) (auto simp: mdf_inv_def df_touch_def mpt_getPts_def intro!: sets_ok_touch sets_ok_loc km_all_update)

lemma mdf_inv_write: "mdf_inv ops good els s \<Longrightarrow> good d \<Longrightarrow> mdf_inv ops good els (mdf_write c d s)"
  by (cases c) (auto simp: mdf_inv_def df_put_def intro!: sets_ok_update sets_ok_loc km_all_update)

lemma mdf_new_spec:
  assumes "good (s_new ops)" "els (s_new ops) = {}"
  shows "mdf_inv ops good els (mdf_new False)" "mdf_view ops els (mdf_new False) = (\<lambda>_. {})"
proof -
  show "mdf_inv ops good els (mdf_new False)"
    using assms by (simp add: mdf_inv_def mdf_new_def mpt_new_def sets_ok_def)
  show "mdf_view ops els (mdf_new False) = (\<lambda>_. {})"
  proof
    fix c show "mdf_view ops els (mdf_new False) c = {}"
      using assms by (cases c) (simp_all add: mdf_view_def mdf_new_def mpt_new_def df_get_def)
  qed
qed

lemma mdf_put_view:
  "mdf_view ops els (mdf_write c d s) = (mdf_view ops els s)(c := els d)"
  by (simp add: mdf_view_def mdf_read_write fun_eq_iff)

lemma mdf_touch_view [simp]: "mdf_view ops els (mdf_touch ops c s) = mdf_view ops els s"
  by (simp add: mdf_view_def fun_eq_iff)

context points_to_set begin

lemma mdf_unionCells_spec:
  assumes inv: "mdf_inv ops good els s"
  shows "\<exists>s'. mdf_unionCells ops s d c = Some (\<not> mdf_view ops els s c \<subseteq> mdf_view ops els s d, s') \<and>
    mdf_inv ops good els s' \<and>
    mdf_view ops els s' = (mdf_view ops els s)(d := mdf_view ops els s d \<union> mdf_view ops els s c)"
proof -
  obtain e where e: "s_or ops (mdf_read ops s d) (mdf_read ops s c) =
      Some (\<not> els (mdf_read ops s c) \<subseteq> els (mdf_read ops s d), e)" "good e"
      "els e = els (mdf_read ops s d) \<union> els (mdf_read ops s c)"
    using good_or [OF mdf_get_good [OF inv] mdf_get_good [OF inv]] by blast
  have i: "mdf_inv ops good els (mdf_write d e (mdf_touch ops c (mdf_touch ops d s)))"
    by (intro mdf_inv_write mdf_inv_touch inv e(2))
  have v: "els e = mdf_view ops els s d \<union> mdf_view ops els s c" using e(3) by (simp add: mdf_view_def)
  show ?thesis using e(1) i by (simp add: mdf_unionCells_def mdf_put_view v) (simp add: mdf_view_def)
qed

lemma mdf_keys:
  assumes "ready" "mdf_view ops els s (InC l k) \<noteq> {}"
  shows "k \<in> set (mdf_inKeys s l)"
proof (rule ccontr)
  assume "k \<notin> set (mdf_inKeys s l)"
  then have "map_of (km_get [] (dfInPtsMap s) l) k = None" by (simp add: mdf_inKeys_def map_of_eq_None_iff)
  then show False using assms(2) good_new [OF assms(1)] by (simp add: mdf_view_def df_get_def km_get_def)
qed

lemma mdf_addPts_spec:
  assumes inv: "mdf_inv ops good els s" and e: "valid_new e"
  shows "\<exists>s'. mdf_addPts ops s k e = Some (e \<notin> mdf_view ops els s (TopC k), s') \<and> mdf_inv ops good els s' \<and>
    mdf_frame s s' \<and> mdf_view ops els s' = (mdf_view ops els s)(TopC k := insert e (mdf_view ops els s (TopC k)))"
proof -
  let ?d = "mdf_read ops s (TopC k)"
  obtain d where d: "s_test_and_set ops ?d e = Some (e \<notin> els ?d, d)" "good d" "els d = insert e (els ?d)"
    using good_test_and_set [OF mdf_get_good [OF inv] e] by blast
  have v: "els d = insert e (mdf_view ops els s (TopC k))" using d(3) by (simp add: mdf_view_def)
  show ?thesis using d(1) mdf_inv_write [OF inv d(2), of "TopC k"] mdf_put_view [of ops els "TopC k" d s]
    unfolding v by (simp add: mdf_addPts_def mdf_frame_def del: mdf_read.simps) (simp add: mdf_view_def)
qed

lemma mdf_unionSet_spec:
  assumes inv: "mdf_inv ops good els s" and g: "good c"
  shows "\<exists>s'. mdf_unionSet ops s k c = Some (\<not> els c \<subseteq> mdf_view ops els s (TopC k), s') \<and>
    mdf_inv ops good els s' \<and> mdf_frame s s' \<and>
    mdf_view ops els s' = (mdf_view ops els s)(TopC k := mdf_view ops els s (TopC k) \<union> els c)"
proof -
  let ?d = "mdf_read ops s (TopC k)"
  obtain d where d: "s_or ops ?d c = Some (\<not> els c \<subseteq> els ?d, d)" "good d" "els d = els ?d \<union> els c"
    using good_or [OF mdf_get_good [OF inv] g] by blast
  have v: "els d = mdf_view ops els s (TopC k) \<union> els c" using d(3) by (simp add: mdf_view_def)
  show ?thesis using d(1) mdf_inv_write [OF inv d(2), of "TopC k"] mdf_put_view [of ops els "TopC k" d s]
    unfolding v by (simp add: mdf_unionSet_def mdf_frame_def del: mdf_read.simps) (simp add: mdf_view_def)
qed

text \<open>The other basic operations act on the member, which is a mutable structure of its own.\<close>

lemma mdf_view_member:
  assumes "mpt_view ops els m = f"
  shows "mdf_view ops els (s\<lparr>df_mut := m\<rparr>) = (\<lambda>c. case c of TopC k \<Rightarrow> f k | _ \<Rightarrow> mdf_view ops els s c)"
proof
  fix c show "mdf_view ops els (s\<lparr>df_mut := m\<rparr>) c = (case c of TopC k \<Rightarrow> f k | _ \<Rightarrow> mdf_view ops els s c)"
    using assms by (cases c) (auto simp: mdf_view_def mpt_view_def)
qed

lemma mdf_view_top: "mdf_view ops els s (TopC k) = mpt_view ops els (df_mut s) k"
  by (simp add: mdf_view_def mpt_view_def)

lemma mdf_member_inv:
  "mdf_inv ops good els s \<Longrightarrow> mpt_inv ops good els (df_mut s)"
  "mdf_inv ops good els s \<Longrightarrow> mpt_inv ops good els m \<Longrightarrow> m_rev m = m_rev (df_mut s) \<Longrightarrow>
     mdf_inv ops good els (s\<lparr>df_mut := m\<rparr>)"
  by (simp_all add: mdf_inv_def mpt_inv_def)

lemma top_upd:
  assumes "mpt_view ops els (df_mut s) = p"
  shows "(\<lambda>c. case c of TopC l \<Rightarrow> (p(k := x)) l | _ \<Rightarrow> mdf_view ops els s c) = (mdf_view ops els s)(TopC k := x)"
proof
  fix c show "(case c of TopC l \<Rightarrow> (p(k := x)) l | _ \<Rightarrow> mdf_view ops els s c) = ((mdf_view ops els s)(TopC k := x)) c"
    using assms by (cases c) (auto simp: mdf_view_top)
qed

lemma mdf_clearPts_spec:
  assumes inv: "mdf_inv ops good els s" and e: "valid_new e"
  shows "\<exists>s'. mdf_clearPts ops s k e = Some s' \<and> mdf_inv ops good els s' \<and> mdf_frame s s' \<and>
    mdf_view ops els s' = (mdf_view ops els s)(TopC k := mdf_view ops els s (TopC k) - {e})"
proof -
  obtain m where m: "mpt_clearPts ops (df_mut s) k e = Some m" "mpt_inv ops good els m" "m_rev m = m_rev (df_mut s)"
      "mpt_view ops els m = (mpt_view ops els (df_mut s))(k := mpt_view ops els (df_mut s) k - {e})"
    using mpt_clearPts_spec [OF mdf_member_inv(1) [OF inv] e] by blast
  show ?thesis using m(1) mdf_member_inv(2) [OF inv m(2,3)] mdf_view_member [OF m(4), of s, unfolded top_upd [OF refl]]
    by (simp add: mdf_clearPts_def mdf_frame_def mdf_view_top)
qed

lemma mdf_clearFullPts_spec:
  assumes inv: "mdf_inv ops good els s"
  shows "\<exists>s'. mdf_clearFullPts ops s k = Some s' \<and> mdf_inv ops good els s' \<and> mdf_frame s s' \<and>
    mdf_view ops els s' = (mdf_view ops els s)(TopC k := {})"
proof -
  obtain m where m: "mpt_clearFullPts ops (df_mut s) k = Some m" "mpt_inv ops good els m" "m_rev m = m_rev (df_mut s)"
      "mpt_view ops els m = (mpt_view ops els (df_mut s))(k := {})"
    using mpt_clearFullPts_spec [OF mdf_member_inv(1) [OF inv]] by blast
  show ?thesis using m(1) mdf_member_inv(2) [OF inv m(2,3)] mdf_view_member [OF m(4), of s, unfolded top_upd [OF refl]]
    by (simp add: mdf_clearFullPts_def mdf_frame_def)
qed

lemma mdf_unionPts_spec:
  assumes inv: "mdf_inv ops good els s"
  shows "\<exists>s'. mdf_unionPts ops s k l = Some (\<not> mdf_view ops els s (TopC l) \<subseteq> mdf_view ops els s (TopC k), s') \<and>
    mdf_inv ops good els s' \<and> mdf_frame s s' \<and>
    mdf_view ops els s' = (mdf_view ops els s)(TopC k := mdf_view ops els s (TopC k) \<union> mdf_view ops els s (TopC l))"
proof -
  have f: "mdf_frame s s'" if "mdf_unionPts ops s k l = Some (b, s')" for b s'
    using that by (auto simp: mdf_unionPts_def mdf_unionCells_def mdf_frame_def split: bind_splits prod.splits)
  show ?thesis using mdf_unionCells_spec [OF inv, of "TopC k" "TopC l"] f unfolding mdf_unionPts_def by blast
qed

lemma mdf_getPts_spec:
  assumes inv: "mdf_inv ops good els s"
  shows "\<exists>d s'. mdf_getPts ops s k = (d, s') \<and> good d \<and> els d = mdf_view ops els s (TopC k) \<and>
    mdf_inv ops good els s' \<and> mdf_frame s s' \<and> mdf_view ops els s' = mdf_view ops els s"
proof -
  have "mdf_getPts ops s k = (mdf_read ops s (TopC k), mdf_touch ops (TopC k) s)"
    by (simp add: mdf_getPts_def mpt_getPts_def)
  moreover have "mdf_frame s (mdf_touch ops (TopC k) s)" by (simp add: mdf_frame_def)
  ultimately show ?thesis using mdf_get_good [OF inv] mdf_inv_touch [OF inv]
    by (simp add: mdf_view_def del: mdf_read.simps mdf_touch.simps)
qed

end

definition mdf_ops :: "('d, 'e) set_ops \<Rightarrow> (('k, 'd, 'e) mdf, 'k, 'e) ptd_ops" where
  "mdf_ops ops = \<lparr>o_addPts = mdf_addPts ops, o_unionPts = mdf_unionPts ops,
     o_clearPts = mdf_clearPts ops, o_clearFullPts = mdf_clearFullPts ops\<rparr>"

lemma mdf_no_rev: "mdf_inv ops good els s \<Longrightarrow> \<not> m_rev (df_mut s)"
  by (simp add: mdf_inv_def)

interpretation mdb: pt_data "mdf_ops (pt_set_ops h g)" "\<lambda>s k. Some (mdf_getPts (pt_set_ops h g) s k)"
  mdf_getRevPts "mdf_unionSet (pt_set_ops h g)"
  "mdf_inv (pt_set_ops h g) (pt_good g) pt_nodes" "\<lambda>s k. mdf_view (pt_set_ops h g) pt_nodes s (TopC k)"
  "\<lambda>_ _. True" mdf_frame "\<lambda>s. m_rev (df_mut s)" "pt_node_ok g" "pt_good g" pt_nodes
  for h g
proof (unfold_locales, goal_cases)
  case (1 s n e k)
  show ?case using ps.mdf_addPts_spec [of h g s e k] 1 by (auto simp: ps_good mdf_ops_def fun_eq_iff dest: mdf_no_rev)
next
  case (2 s n k l)
  show ?case using ps.mdf_unionPts_spec [of h g s k l] 2 by (auto simp: ps_good mdf_ops_def fun_eq_iff dest: mdf_no_rev)
next
  case (3 s n d k)
  show ?case using ps.mdf_unionSet_spec [of h g s d k] 3 by (auto simp: ps_good fun_eq_iff dest: mdf_no_rev)
next
  case (4 s n e k)
  show ?case using ps.mdf_clearPts_spec [of h g s e k] 4 by (auto simp: ps_good mdf_ops_def fun_eq_iff dest: mdf_no_rev)
next
  case (5 s n k)
  show ?case using ps.mdf_clearFullPts_spec [of h g s k] 5 by (auto simp: ps_good mdf_ops_def fun_eq_iff dest: mdf_no_rev)
next
  case (6 s k)
  show ?case using ps.mdf_getPts_spec [of h g s k] 6 by (auto simp: ps_good dest: mdf_no_rev)
next
  case (7 s e)
  then show ?case by (simp add: mdf_inv_def)
next
  case (8 s e)
  then show ?case by (simp add: mdf_getRevPts_def mpt_getRevPts_def)
qed

interpretation mf: df_data "mdf_unionCells (pt_set_ops h g)" mdf_inKeys mdf_hasDFInSet
  "\<lambda>s. globals_ready g \<and> mdf_inv (pt_set_ops h g) (pt_good g) pt_nodes s" "\<lambda>_ _. True" "mdf_view (pt_set_ops h g) pt_nodes"
  for h g
proof (unfold_locales, goal_cases)
  case (1 s n d c)
  show ?case using ps.mdf_unionCells_spec [of h g s d c] 1 by (simp add: ps_good)
next
  case (2 s l k)
  then show ?case using ps.mdf_keys [of g h s l k] by simp
next
  case (3 s l)
  then show ?case by (simp add: mdf_hasDFInSet_def has_loc_def mdf_inKeys_def km_get_def)
qed simp

text \<open>The operations of the interface are unions of cells.\<close>

lemmas mdf_updates = mdf_updateDFInFromIn_def mdf_updateDFInFromOut_def mdf_updateDFOutFromIn_def
  mdf_updateAllDFInFromOut_def mdf_updateAllDFInFromIn_def mdf_updateTLVPts_def mdf_updateATVPts_def

lemma mdf_update_all:
  "mdf_updateAllDFOutFromIn ops s l k b =
     (if mdf_hasDFInSet s l
      then update_vars (\<lambda>s v. mdf_unionCells ops s (OutC l v) (InC l v)) (\<lambda>v. b \<and> v = k) (mdf_inKeys s l) s
      else Some (False, s))"
  by (simp add: mdf_updateAllDFOutFromIn_def mdf_updateDFOutFromIn_def)

end
