(* ===== verification/PersistentDFPT.thy ===== *)
theory PersistentDFPT
  imports DataFlowPT
begin

text \<open>
  \<open>PersistentDFPTData\<close>: the data-flow structure whose cells hold numbers of sets in a
  \<open>PersistentPointsToCache\<close>. It offers the contract of DataFlowPT.
\<close>

section \<open>State\<close>

record ('k, 'e) pdf =
  dfInIds :: "(LocID \<times> ('k \<times> PointsToID) list) list"
  dfOutIds :: "(LocID \<times> ('k \<times> PointsToID) list) list"
  df_pers :: "('k, 'e) ppt"

type_synonym ('k, 'd, 'e) pdf_state = "'d ppcache \<times> ('k, 'e) pdf"

definition pdf_new :: "bool \<Rightarrow> ('k, 'e) pdf" where
  "pdf_new reversePT = \<lparr>dfInIds = [], dfOutIds = [], df_pers = ppt_new reversePT\<rparr>"

definition pdf_clear :: "('k, 'e) pdf \<Rightarrow> ('k, 'e) pdf" where
  "pdf_clear s = s\<lparr>dfInIds := [], dfOutIds := [], df_pers := ppt_clear (df_pers s)\<rparr>"

text \<open>The member with the cache it shares.\<close>

definition df_get_pers :: "('k, 'd, 'e) pdf_state \<Rightarrow> 'd ppcache \<times> ('k, 'e) ppt" where
  "df_get_pers cs = (fst cs, df_pers (snd cs))"

definition df_put_pers :: "'d ppcache \<times> ('k, 'e) ppt \<Rightarrow> ('k, 'd, 'e) pdf_state \<Rightarrow> ('k, 'd, 'e) pdf_state" where
  "df_put_pers b cs = (fst b, (snd cs)\<lparr>df_pers := snd b\<rparr>)"

definition pdf_getPts :: "('k, 'd, 'e) pdf_state \<Rightarrow> 'k \<Rightarrow> ('d \<times> ('k, 'd, 'e) pdf_state) option" where
  "pdf_getPts cs k = lift_op df_get_pers df_put_pers (\<lambda>b. ppt_getPts b k) cs"

text \<open>Not supported: the assertion fails.\<close>

definition pdf_getRevPts :: "('k, 'd, 'e) pdf_state \<Rightarrow> 'e \<Rightarrow> ('k list \<times> ('k, 'd, 'e) pdf_state) option" where
  "pdf_getRevPts cs e = None"

definition pdf_addPts :: "('d, 'e) set_ops \<Rightarrow> ('k, 'd, 'e) pdf_state \<Rightarrow> 'k \<Rightarrow> 'e \<Rightarrow>
    (bool \<times> ('k, 'd, 'e) pdf_state) option" where
  "pdf_addPts ops cs k e = lift_op df_get_pers df_put_pers (\<lambda>b. ppt_addPts ops b k e) cs"

definition pdf_unionPts :: "('d, 'e) set_ops \<Rightarrow> ('k, 'd, 'e) pdf_state \<Rightarrow> 'k \<Rightarrow> 'k \<Rightarrow>
    (bool \<times> ('k, 'd, 'e) pdf_state) option" where
  "pdf_unionPts ops cs k l = lift_op df_get_pers df_put_pers (\<lambda>b. ppt_unionPts ops b k l) cs"

definition pdf_unionSet :: "('d, 'e) set_ops \<Rightarrow> ('k, 'd, 'e) pdf_state \<Rightarrow> 'k \<Rightarrow> 'd \<Rightarrow>
    (bool \<times> ('k, 'd, 'e) pdf_state) option" where
  "pdf_unionSet ops cs k d = lift_op df_get_pers df_put_pers (\<lambda>b. ppt_unionSet ops b k d) cs"

definition pdf_clearPts :: "('d, 'e) set_ops \<Rightarrow> ('k, 'd, 'e) pdf_state \<Rightarrow> 'k \<Rightarrow> 'e \<Rightarrow>
    ('k, 'd, 'e) pdf_state option" where
  "pdf_clearPts ops cs k e = lift_update df_get_pers df_put_pers (\<lambda>b. ppt_clearPts ops b k e) cs"

definition pdf_clearFullPts :: "('d, 'e) set_ops \<Rightarrow> ('k, 'd, 'e) pdf_state \<Rightarrow> 'k \<Rightarrow>
    ('k, 'd, 'e) pdf_state option" where
  "pdf_clearFullPts ops cs k = lift_update df_get_pers df_put_pers (\<lambda>b. ppt_clearFullPts ops b k) cs"

definition pdf_remapAllPts :: "('d, 'e) set_ops \<Rightarrow> ('k, 'd, 'e) pdf_state \<Rightarrow> ('k, 'd, 'e) pdf_state option" where
  "pdf_remapAllPts ops cs = map_option (\<lambda>c. (c, snd cs)) (remapAllPts (base ops) (fst cs))"

definition pdf_ops :: "('d, 'e) set_ops \<Rightarrow> (('k, 'd, 'e) pdf_state, 'k, 'e) ptd_ops" where
  "pdf_ops ops = \<lparr>o_addPts = pdf_addPts ops, o_unionPts = pdf_unionPts ops,
     o_clearPts = pdf_clearPts ops, o_clearFullPts = pdf_clearFullPts ops\<rparr>"

definition pdf_hasDFInSet :: "('k, 'd, 'e) pdf_state \<Rightarrow> LocID \<Rightarrow> bool" where
  "pdf_hasDFInSet cs loc = has_loc (dfInIds (snd cs)) loc"

definition pdf_hasDFOutSet :: "('k, 'd, 'e) pdf_state \<Rightarrow> LocID \<Rightarrow> bool" where
  "pdf_hasDFOutSet cs loc = has_loc (dfOutIds (snd cs)) loc"

definition pdf_hasDFInVar :: "('k, 'd, 'e) pdf_state \<Rightarrow> LocID \<Rightarrow> 'k \<Rightarrow> bool" where
  "pdf_hasDFInVar cs loc var = has_var (dfInIds (snd cs)) loc var"

definition pdf_hasDFOutVar :: "('k, 'd, 'e) pdf_state \<Rightarrow> LocID \<Rightarrow> 'k \<Rightarrow> bool" where
  "pdf_hasDFOutVar cs loc var = has_var (dfOutIds (snd cs)) loc var"

section \<open>Cells\<close>

fun pdf_id :: "('k, 'e) pdf \<Rightarrow> 'k cell \<Rightarrow> PointsToID" where
  "pdf_id s (InC loc var) = df_get emptyPointsToId (dfInIds s) loc var"
| "pdf_id s (OutC loc var) = df_get emptyPointsToId (dfOutIds s) loc var"
| "pdf_id s (TopC var) = ppt_id (df_pers s) var"

fun pdf_touch :: "'k cell \<Rightarrow> ('k, 'e) pdf \<Rightarrow> ('k, 'e) pdf" where
  "pdf_touch (InC loc var) s = s\<lparr>dfInIds := df_touch emptyPointsToId loc var (dfInIds s)\<rparr>"
| "pdf_touch (OutC loc var) s = s\<lparr>dfOutIds := df_touch emptyPointsToId loc var (dfOutIds s)\<rparr>"
| "pdf_touch (TopC var) s = s\<lparr>df_pers := ppt_touch var (df_pers s)\<rparr>"

fun pdf_put :: "'k cell \<Rightarrow> PointsToID \<Rightarrow> ('k, 'e) pdf \<Rightarrow> ('k, 'e) pdf" where
  "pdf_put (InC loc var) i s = s\<lparr>dfInIds := df_put loc var i (dfInIds s)\<rparr>"
| "pdf_put (OutC loc var) i s = s\<lparr>dfOutIds := df_put loc var i (dfOutIds s)\<rparr>"
| "pdf_put (TopC var) i s = s\<lparr>df_pers := ppt_put var i (df_pers s)\<rparr>"

definition pdf_getDFInPtsSet :: "('k, 'd, 'e) pdf_state \<Rightarrow> LocID \<Rightarrow> 'k \<Rightarrow> ('d \<times> ('k, 'd, 'e) pdf_state) option" where
  "pdf_getDFInPtsSet cs loc var = do {
     let i = pdf_id (snd cs) (InC loc var);
     let s = pdf_touch (InC loc var) (snd cs);
     d \<leftarrow> getActualPts (fst cs) i;
     Some (d, fst cs, s)
   }"

definition pdf_getDFOutPtsSet :: "('k, 'd, 'e) pdf_state \<Rightarrow> LocID \<Rightarrow> 'k \<Rightarrow> ('d \<times> ('k, 'd, 'e) pdf_state) option" where
  "pdf_getDFOutPtsSet cs loc var = do {
     let i = pdf_id (snd cs) (OutC loc var);
     let s = pdf_touch (OutC loc var) (snd cs);
     d \<leftarrow> getActualPts (fst cs) i;
     Some (d, fst cs, s)
   }"

definition unionPtsThroughIds :: "('d, 'e) set_ops \<Rightarrow> ('k, 'd, 'e) pdf_state \<Rightarrow> 'k cell \<Rightarrow> 'k cell \<Rightarrow>
    (bool \<times> ('k, 'd, 'e) pdf_state) option" where
  "unionPtsThroughIds ops cs dst src = do {
     let s = pdf_touch src (pdf_touch dst (snd cs));
     let oldDst = pdf_id s dst;
     (newDst, c) \<leftarrow> unionPts (base ops) (fst cs) oldDst (pdf_id s src);
     Some (oldDst \<noteq> newDst, c, pdf_put dst newDst s)
   }"

definition pdf_updateDFInFromIn :: "('d, 'e) set_ops \<Rightarrow> ('k, 'd, 'e) pdf_state \<Rightarrow> LocID \<Rightarrow> 'k \<Rightarrow> LocID \<Rightarrow> 'k \<Rightarrow>
    (bool \<times> ('k, 'd, 'e) pdf_state) option" where
  "pdf_updateDFInFromIn ops s srcLoc srcVar dstLoc dstVar =
     unionPtsThroughIds ops s (InC dstLoc dstVar) (InC srcLoc srcVar)"

definition pdf_updateDFInFromOut :: "('d, 'e) set_ops \<Rightarrow> ('k, 'd, 'e) pdf_state \<Rightarrow> LocID \<Rightarrow> 'k \<Rightarrow> LocID \<Rightarrow> 'k \<Rightarrow>
    (bool \<times> ('k, 'd, 'e) pdf_state) option" where
  "pdf_updateDFInFromOut ops s srcLoc srcVar dstLoc dstVar =
     unionPtsThroughIds ops s (InC dstLoc dstVar) (OutC srcLoc srcVar)"

definition pdf_updateDFOutFromIn :: "('d, 'e) set_ops \<Rightarrow> ('k, 'd, 'e) pdf_state \<Rightarrow> LocID \<Rightarrow> 'k \<Rightarrow> LocID \<Rightarrow> 'k \<Rightarrow>
    (bool \<times> ('k, 'd, 'e) pdf_state) option" where
  "pdf_updateDFOutFromIn ops s srcLoc srcVar dstLoc dstVar =
     unionPtsThroughIds ops s (OutC dstLoc dstVar) (InC srcLoc srcVar)"

definition pdf_updateAllDFInFromOut :: "('d, 'e) set_ops \<Rightarrow> ('k, 'd, 'e) pdf_state \<Rightarrow> LocID \<Rightarrow> 'k \<Rightarrow> LocID \<Rightarrow> 'k \<Rightarrow>
    (bool \<times> ('k, 'd, 'e) pdf_state) option" where
  "pdf_updateAllDFInFromOut = pdf_updateDFInFromOut"

definition pdf_updateAllDFInFromIn :: "('d, 'e) set_ops \<Rightarrow> ('k, 'd, 'e) pdf_state \<Rightarrow> LocID \<Rightarrow> 'k \<Rightarrow> LocID \<Rightarrow> 'k \<Rightarrow>
    (bool \<times> ('k, 'd, 'e) pdf_state) option" where
  "pdf_updateAllDFInFromIn = pdf_updateDFInFromIn"

definition pdf_inKeys :: "('k, 'd, 'e) pdf_state \<Rightarrow> LocID \<Rightarrow> 'k list" where
  "pdf_inKeys cs loc = map fst (km_get [] (dfInIds (snd cs)) loc)"

definition pdf_updateAllDFOutFromIn :: "('d, 'e) set_ops \<Rightarrow> ('k, 'd, 'e) pdf_state \<Rightarrow> LocID \<Rightarrow> 'k \<Rightarrow> bool \<Rightarrow>
    (bool \<times> ('k, 'd, 'e) pdf_state) option" where
  "pdf_updateAllDFOutFromIn ops s loc singleton strongUpdates =
     (if pdf_hasDFInSet s loc
      then update_vars (\<lambda>s var. pdf_updateDFOutFromIn ops s loc var loc var)
        (\<lambda>var. strongUpdates \<and> var = singleton) (pdf_inKeys s loc) s
      else Some (False, s))"

definition pdf_updateTLVPts :: "('d, 'e) set_ops \<Rightarrow> ('k, 'd, 'e) pdf_state \<Rightarrow> LocID \<Rightarrow> 'k \<Rightarrow> 'k \<Rightarrow>
    (bool \<times> ('k, 'd, 'e) pdf_state) option" where
  "pdf_updateTLVPts ops s srcLoc srcVar dstVar = unionPtsThroughIds ops s (TopC dstVar) (InC srcLoc srcVar)"

definition pdf_updateATVPts :: "('d, 'e) set_ops \<Rightarrow> ('k, 'd, 'e) pdf_state \<Rightarrow> 'k \<Rightarrow> LocID \<Rightarrow> 'k \<Rightarrow>
    (bool \<times> ('k, 'd, 'e) pdf_state) option" where
  "pdf_updateATVPts ops s srcVar dstLoc dstVar = unionPtsThroughIds ops s (OutC dstLoc dstVar) (TopC srcVar)"

text \<open>
  The occurrence map. The subtraction the code makes for \<open>liveOnly = false\<close> is on copies of
  the entries and has no effect, so only the merge is left of that branch.
\<close>

definition pdf_getAllPts :: "('d, 'e) set_ops \<Rightarrow> ('k, 'd, 'e) pdf_state \<Rightarrow> bool \<Rightarrow> ('d \<times> nat) list option" where
  "pdf_getAllPts ops cs liveOnly = do {
     let (c, s) = cs;
     allPts \<leftarrow> ppt_getAllPts ops (c, df_pers s) liveOnly;
     ins \<leftarrow> actual_pts c (concat (map (map snd \<circ> snd) (dfInIds s)));
     allPts \<leftarrow> count_sets (base ops) ins allPts;
     outs \<leftarrow> actual_pts c (concat (map (map snd \<circ> snd) (dfOutIds s)));
     allPts \<leftarrow> count_sets (base ops) outs allPts;
     if liveOnly then Some allPts
     else do {
       cachePts \<leftarrow> cache_getAllPts (base ops) c;
       mergePtsOccMaps (base ops) allPts cachePts
     }
   }"

section \<open>What the state stands for\<close>

definition pdf_view :: "('d \<Rightarrow> 'e set) \<Rightarrow> ('k, 'd, 'e) pdf_state \<Rightarrow> 'k cell \<Rightarrow> 'e set" where
  "pdf_view els cs c = pts_of els (fst cs) (pdf_id (snd cs) c)"

definition locs_in :: "'d ppcache \<Rightarrow> (LocID \<times> ('k \<times> PointsToID) list) list \<Rightarrow> bool" where
  "locs_in c m \<longleftrightarrow> km_all (ids_in c) m"

definition pdf_maps_ok :: "('k, 'd, 'e) pdf_state \<Rightarrow> bool" where
  "pdf_maps_ok cs \<longleftrightarrow> locs_in (fst cs) (dfInIds (snd cs)) \<and> locs_in (fst cs) (dfOutIds (snd cs))"

definition pdf_inv :: "('d, 'e) set_ops \<Rightarrow> ('d \<Rightarrow> bool) \<Rightarrow> ('d \<Rightarrow> 'e set) \<Rightarrow> ('d \<Rightarrow> 'd \<Rightarrow> bool) \<Rightarrow>
    ('k, 'd, 'e) pdf_state \<Rightarrow> bool" where
  "pdf_inv ops ok els same cs \<longleftrightarrow> ppt_inv ops ok els same (df_get_pers cs) \<and> pdf_maps_ok cs \<and>
     \<not> p_rev (df_pers (snd cs))"

lemma pdf_id_touch [simp]: "pdf_id (pdf_touch c s) = pdf_id s"
proof
  fix e show "pdf_id (pdf_touch c s) e = pdf_id s e" by (cases c; cases e) simp_all
qed

lemma pdf_id_put [simp]: "pdf_id (pdf_put c i s) = (pdf_id s)(c := i)"
proof
  fix e show "pdf_id (pdf_put c i s) e = ((pdf_id s)(c := i)) e"
    by (cases c; cases e) (simp_all add: df_get_put)
qed

lemma pdf_id_new: "pdf_id (pdf_new r) x = emptyPointsToId"
  by (cases x) (simp_all add: pdf_new_def ppt_new_def df_get_def ppt_id_def)

lemma ids_in_Nil [simp]: "ids_in c []"
  by (simp add: ids_in_def)

lemma locs_in_loc: "locs_in c m \<Longrightarrow> ids_in c (km_get [] m loc)"
  using km_all_get [of "ids_in c" m "[]" loc] by (simp add: locs_in_def)

lemma locs_in_touch:
  "locs_in c m \<Longrightarrow> emptyPointsToId < length (idToPts c) \<Longrightarrow> locs_in c (df_touch emptyPointsToId loc var m)"
  using locs_in_loc [of c m loc] by (simp add: locs_in_def df_touch_def km_all_update ids_in_touch)

lemma locs_in_put: "locs_in c m \<Longrightarrow> i < length (idToPts c) \<Longrightarrow> locs_in c (df_put loc var i m)"
  using locs_in_loc [of c m loc] by (simp add: locs_in_def df_put_def km_all_update ids_in_update)

lemma locs_in_grows: "grows c c' \<Longrightarrow> locs_in c m \<Longrightarrow> locs_in c' m"
  unfolding locs_in_def by (erule km_all_mono) (rule ids_in_grows)

lemma pdf_id_in:
  assumes "ids_in c (p_pts (df_pers s))" "pdf_maps_ok (c, s)" "emptyPointsToId < length (idToPts c)"
  shows "pdf_id s x < length (idToPts c)"
  using assms locs_in_loc [of c "dfInIds s"] locs_in_loc [of c "dfOutIds s"]
  by (cases x) (auto simp: pdf_maps_ok_def df_get_def ppt_id_def intro: ids_in_get)

context points_to_set begin

abbreviation DInv :: "('k, 'd, 'e) pdf_state \<Rightarrow> bool" where "DInv \<equiv> pdf_inv ops ok els same"

lemma DInv_parts:
  assumes "DInv (c, s)"
  shows "Ready c" "ids_in c (p_pts (df_pers s))" "pdf_maps_ok (c, s)" "\<not> p_rev (df_pers s)"
    "emptyPointsToId < length (idToPts c)"
  using assms Ready_empty(1) by (simp_all add: pdf_inv_def df_get_pers_def ppt_inv_def)

lemma DInv_intro:
  assumes "Ready c" "ids_in c (p_pts (df_pers s))" "pdf_maps_ok (c, s)" "\<not> p_rev (df_pers s)"
  shows "DInv (c, s)"
  using assms by (simp add: pdf_inv_def df_get_pers_def ppt_inv_def)

lemma DInv_id: "DInv (c, s) \<Longrightarrow> pdf_id s x < length (idToPts c)"
  by (rule pdf_id_in) (simp_all add: DInv_parts)

lemma DInv_touch:
  assumes "DInv (c, s)"
  shows "DInv (c, pdf_touch x s)" "pdf_view els (c, pdf_touch x s) = pdf_view els (c, s)"
proof -
  note p = DInv_parts [OF assms]
  show "pdf_view els (c, pdf_touch x s) = pdf_view els (c, s)" by (simp add: pdf_view_def fun_eq_iff)
  show "DInv (c, pdf_touch x s)"
    using p ids_in_touch [OF p(2,5)] locs_in_touch [OF _ p(5)]
    by (cases x) (auto intro!: DInv_intro simp: pdf_maps_ok_def)
qed

lemma DInv_put:
  assumes "DInv (c, s)" "i < length (idToPts c)"
  shows "DInv (c, pdf_put x i s)" "pdf_view els (c, pdf_put x i s) = (pdf_view els (c, s))(x := pts_of els c i)"
proof -
  note p = DInv_parts [OF assms(1)]
  show "pdf_view els (c, pdf_put x i s) = (pdf_view els (c, s))(x := pts_of els c i)"
    by (simp add: pdf_view_def fun_eq_iff)
  show "DInv (c, pdf_put x i s)"
    using p ids_in_update [OF p(2) assms(2)] locs_in_put [OF _ assms(2)]
    by (cases x) (auto intro!: DInv_intro simp: pdf_maps_ok_def)
qed

lemma DInv_grows:
  assumes "DInv (c, s)" "Ready c'" "grows c c'"
  shows "DInv (c', s)" "pdf_view els (c', s) = pdf_view els (c, s)"
proof -
  note p = DInv_parts [OF assms(1)]
  show "DInv (c', s)"
    using p(3,4) assms(2) ids_in_grows [OF assms(3) p(2)] locs_in_grows [OF assms(3)]
    by (auto intro!: DInv_intro simp: pdf_maps_ok_def)
  show "pdf_view els (c', s) = pdf_view els (c, s)"
    using grows_pts_of [OF assms(3) DInv_id [OF assms(1)], of _ els] by (simp add: pdf_view_def fun_eq_iff)
qed

lemma pdf_new_spec:
  assumes "Ready c" shows "DInv (c, pdf_new False)" "pdf_view els (c, pdf_new False) = (\<lambda>_. {})"
proof -
  show "DInv (c, pdf_new False)"
    using assms by (auto intro!: DInv_intro simp: pdf_new_def ppt_new_def pdf_maps_ok_def locs_in_def)
  show "pdf_view els (c, pdf_new False) = (\<lambda>_. {})"
    using Ready_empty(2) [OF assms] by (simp add: pdf_view_def fun_eq_iff pdf_id_new)
qed

lemma unionPtsThroughIds_spec:
  assumes inv: "DInv (c, s)" and room: "length (idToPts c) + 2 \<le> 2 ^ 32"
  shows "\<exists>c' s'. unionPtsThroughIds ops (c, s) d x = Some (\<not> pdf_view els (c, s) x \<subseteq> pdf_view els (c, s) d, c', s') \<and>
    DInv (c', s') \<and> length (idToPts c') \<le> length (idToPts c) + 2 \<and>
    pdf_view els (c', s') = (pdf_view els (c, s))(d := pdf_view els (c, s) d \<union> pdf_view els (c, s) x)"
proof -
  let ?t = "pdf_touch x (pdf_touch d s)"
  note t = DInv_touch [OF DInv_touch(1) [OF inv, of d], of x] and v = DInv_touch(2) [OF inv, of d]
  note r = DInv_parts(1) [OF inv] and l = DInv_id [OF inv, of d]
  obtain i c' where u: "unionPts (base ops) c (pdf_id s d) (pdf_id s x) = Some (i, c')"
      "op_result UnionOp c (pdf_id s d) (pdf_id s x) i c'"
    using unionPts_spec [OF Ready_Inv [OF r] l DInv_id [OF inv, of x]] room by auto
  note st = op_result_step [OF r u(2)]
  note g = DInv_grows [OF t(1) st(1,2)]
  note q = DInv_put [OF g(1) st(3), of d]
  have set: "pts_of els c' i = pdf_view els (c, s) d \<union> pdf_view els (c, s) x"
    using st(4) by (simp add: pdf_view_def)
  have ch: "pdf_id s d \<noteq> i \<longleftrightarrow> \<not> pdf_view els (c, s) x \<subseteq> pdf_view els (c, s) d"
    using op_result_changed [OF r u(2) l] by (auto simp: pdf_view_def)
  have "unionPtsThroughIds ops (c, s) d x =
      Some (\<not> pdf_view els (c, s) x \<subseteq> pdf_view els (c, s) d, c', pdf_put d i ?t)"
    using u(1) ch by (simp add: unionPtsThroughIds_def)
  then show ?thesis using q st(5) g(2) t(2) v set by auto
qed

lemma pdf_keys:
  assumes "Ready c" "pdf_view els (c, s) (InC l k) \<noteq> {}"
  shows "k \<in> set (pdf_inKeys (c, s) l)"
proof (rule ccontr)
  assume "k \<notin> set (pdf_inKeys (c, s) l)"
  then have "map_of (km_get [] (dfInIds s) l) k = None" by (simp add: pdf_inKeys_def map_of_eq_None_iff)
  then show False using assms(2) Ready_empty(2) [OF assms(1)]
    by (simp add: pdf_view_def df_get_def km_get_def)
qed

end

section \<open>The persistent structure implements the contracts\<close>

definition pdf_pt_inv :: "(64 word \<Rightarrow> 64 word) \<Rightarrow> pt_globals \<Rightarrow> ('k, points_to, NodeID) pdf_state \<Rightarrow> bool" where
  "pdf_pt_inv h g cs \<longleftrightarrow> globals_ready g \<and> pdf_inv (pt_set_ops h g) pt_sparse pt_nodes pt_same cs"

definition pdf_room :: "('k, 'd, 'e) pdf_state \<Rightarrow> nat \<Rightarrow> bool" where
  "pdf_room cs n \<longleftrightarrow> ppt_room (df_get_pers cs) n"

lemma pdf_room_step:
  "pdf_room (c, s) (Suc n) \<Longrightarrow> length (idToPts c) + 2 \<le> 2 ^ 32"
  "pdf_room (c, s) (Suc n) \<Longrightarrow> length (idToPts c') \<le> length (idToPts c) + 2 \<Longrightarrow> pdf_room (c', s') n"
  by (simp_all add: pdf_room_def ppt_room_def df_get_pers_def)

interpretation pf: df_data "unionPtsThroughIds (pt_set_ops h g)" pdf_inKeys pdf_hasDFInSet "pdf_pt_inv h g"
  pdf_room "pdf_view pt_nodes"
  for h g
proof (unfold_locales, goal_cases)
  case (1 cs n d x)
  obtain c s where cs: "cs = (c, s)" by fastforce
  note st = pdf_room_step [OF 1(2) [unfolded cs]]
  show ?case using ps.unionPtsThroughIds_spec [of h g c s d x] 1 st unfolding cs pdf_pt_inv_def by fastforce
next
  case (2 cs l k)
  obtain c s where cs: "cs = (c, s)" by fastforce
  show ?case using ps.pdf_keys [of h g c s l k] ps.DInv_parts(1) [of h g c s] 2 unfolding cs pdf_pt_inv_def by blast
next
  case (3 cs l)
  then show ?case by (simp add: pdf_hasDFInSet_def has_loc_def pdf_inKeys_def km_get_def)
next
  case (4 cs n)
  then show ?case by (simp add: pdf_room_def ppt_room_def)
qed

text \<open>The basic operations are those of the member, and leave IN and OUT sets alone.\<close>

definition pdf_kept :: "('k, points_to, NodeID) pdf_state \<Rightarrow> ('k, points_to, NodeID) pdf_state \<Rightarrow> bool" where
  "pdf_kept cs cs' \<longleftrightarrow> (\<forall>l v. pdf_view pt_nodes cs' (InC l v) = pdf_view pt_nodes cs (InC l v) \<and>
     pdf_view pt_nodes cs' (OutC l v) = pdf_view pt_nodes cs (OutC l v))"

lemma pdf_id_member [simp]:
  "pdf_id (s\<lparr>df_pers := b\<rparr>) (InC l v) = pdf_id s (InC l v)" "pdf_id (s\<lparr>df_pers := b\<rparr>) (OutC l v) = pdf_id s (OutC l v)"
  by simp_all

interpretation pfp: pt_data_part "ppt_ops (pt_set_ops h g)" ppt_getPts ppt_getRevPts
  "ppt_unionSet (pt_set_ops h g)" "ppt_pt_inv h g" "ppt_view pt_nodes" ppt_room
  "\<lambda>cs cs'. grows (fst cs) (fst cs')" "\<lambda>cs. p_rev (snd cs)" "pt_node_ok g" "pt_good g" pt_nodes
  df_get_pers df_put_pers pdf_maps_ok pdf_kept
  for h g
proof (unfold_locales, goal_cases)
  case (1 b cs)
  show ?case by (simp add: df_get_pers_def df_put_pers_def)
next
  case (2 cs b)
  obtain c s where cs: "cs = (c, s)" by fastforce
  have g: "grows c (fst b)" and m: "pdf_maps_ok (c, s)" using 2(2,4) by (simp_all add: cs df_get_pers_def)
  have p: "ids_in c (p_pts (df_pers s))" "emptyPointsToId < length (idToPts c)"
    using 2(1) ps.Ready_empty(1) [of h g c] by (simp_all add: cs ppt_pt_inv_def ppt_inv_def df_get_pers_def)
  have "pdf_view pt_nodes (fst b, s) x = pdf_view pt_nodes (c, s) x" for x
    using grows_pts_of [OF g pdf_id_in [OF p(1) m p(2)], of x pt_nodes] by (simp add: pdf_view_def)
  then show ?case using m locs_in_grows [OF g, of "dfInIds s"] locs_in_grows [OF g, of "dfOutIds s"]
    by (simp add: cs df_put_pers_def pdf_maps_ok_def pdf_kept_def pdf_view_def del: pdf_id.simps)
qed

lemma pdf_ops_eq: "pdf_ops ops = lift_ops df_get_pers df_put_pers (ppt_ops ops)"
  by (simp add: pdf_ops_def lift_ops_def ppt_ops_def fun_eq_iff pdf_addPts_def pdf_unionPts_def
      pdf_clearPts_def pdf_clearFullPts_def)

text \<open>The operations of the interface are unions of cells.\<close>

lemmas pdf_updates = pdf_updateDFInFromIn_def pdf_updateDFInFromOut_def pdf_updateDFOutFromIn_def
  pdf_updateAllDFInFromOut_def pdf_updateAllDFInFromIn_def pdf_updateTLVPts_def pdf_updateATVPts_def

lemma pdf_update_all:
  "pdf_updateAllDFOutFromIn ops s l k b =
     (if pdf_hasDFInSet s l
      then update_vars (\<lambda>s v. unionPtsThroughIds ops s (OutC l v) (InC l v)) (\<lambda>v. b \<and> v = k) (pdf_inKeys s l) s
      else Some (False, s))"
  by (simp add: pdf_updateAllDFOutFromIn_def pdf_updateDFOutFromIn_def)

end
