(* ===== verification/IncDataFlowPT.thy ===== *)
theory IncDataFlowPT
  imports PersistentDFPT
begin

text \<open>
  \<open>MutableIncDFPTData\<close> and \<open>PersistentIncDFPTData\<close>: the data-flow structures that mark,
  at every location, the variables whose IN or OUT set has changed, and propagate only those. The two
  classes are the same code over different representations of a set of variables and of the base
  structure, so the operations take these as arguments and each class is an instance.
\<close>

section \<open>Sets of marked variables\<close>

record ('m, 'k) mark_ops =
  mk_new :: 'm
  mk_set :: "'m \<Rightarrow> 'k \<Rightarrow> 'm option"
  mk_reset :: "'m \<Rightarrow> 'k \<Rightarrow> 'm option"
  mk_test :: "'m \<Rightarrow> 'k \<Rightarrow> (bool \<times> 'm) option"
  mk_list :: "'m \<Rightarrow> 'k list option"

locale mark_set =
  fixes M :: "('m, 'k) mark_ops" and fit :: "'m \<Rightarrow> bool" and marked :: "'m \<Rightarrow> 'k set" and allowed :: "'k \<Rightarrow> bool"
  assumes new_law: "fit (mk_new M) \<Longrightarrow> marked (mk_new M) = {}"
    and set_law: "fit m \<Longrightarrow> allowed k \<Longrightarrow> \<exists>n. mk_set M m k = Some n \<and> fit n \<and> marked n = insert k (marked m)"
    and reset_law: "fit m \<Longrightarrow> allowed k \<Longrightarrow> \<exists>n. mk_reset M m k = Some n \<and> fit n \<and> marked n = marked m - {k}"
    and test_law: "fit m \<Longrightarrow> allowed k \<Longrightarrow>
      \<exists>n. mk_test M m k = Some (k \<in> marked m, n) \<and> fit n \<and> marked n = marked m"
    and list_law: "fit m \<Longrightarrow> \<exists>ks. mk_list M m = Some ks \<and> set ks = marked m \<and> distinct ks"
    and marked_allowed: "fit m \<Longrightarrow> k \<in> marked m \<Longrightarrow> allowed k"

text \<open>The mutable class marks in a \<open>DataSet\<close>, the persistent one in a \<open>KeySet\<close>.\<close>

definition set_marks :: "('d, 'e) set_ops \<Rightarrow> ('d, 'e) mark_ops" where
  "set_marks ops = \<lparr>mk_new = s_new ops, mk_set = s_set ops, mk_reset = s_reset ops, mk_test = s_test ops,
     mk_list = s_list ops\<rparr>"

definition key_marks :: "('k list, 'k) mark_ops" where
  "key_marks = \<lparr>mk_new = [], mk_set = \<lambda>m k. Some (insertKey k m), mk_reset = \<lambda>m k. Some (removeKey k m),
     mk_test = \<lambda>m k. Some (k \<in> set m, m), mk_list = Some\<rparr>"

interpretation km: mark_set key_marks distinct set "\<lambda>_. True"
  by unfold_locales (simp_all add: key_marks_def)

interpretation sm: mark_set "set_marks (pt_set_ops h g)" "\<lambda>m. globals_ready g \<and> pt_good g m" pt_nodes "pt_node_ok g"
  for h g
  using ps.good_new [of g h] ps.good_set [of h g] ps.good_reset [of h g] ps.good_test [of h g]
    ps.good_list [of h g] ps.good_els_valid [of h g] unfolding ps_good
  by unfold_locales (auto simp: set_marks_def)

section \<open>Operations\<close>

text \<open>What is used of the base structure.\<close>

record ('s, 'k) df_base =
  b_union :: "'s \<Rightarrow> 'k cell \<Rightarrow> 'k cell \<Rightarrow> (bool \<times> 's) option"
  b_tlv :: "'s \<Rightarrow> 'k \<Rightarrow> LocID \<Rightarrow> 'k \<Rightarrow> (bool \<times> 's) option"
  b_hasIn :: "'s \<Rightarrow> LocID \<Rightarrow> bool"
  b_hasOut :: "'s \<Rightarrow> LocID \<Rightarrow> bool"

record ('s, 'm) inc =
  i_base :: 's
  outUpdatedVarMap :: "(LocID \<times> 'm) list"
  inUpdatedVarMap :: "(LocID \<times> 'm) list"

definition inc_new :: "'s \<Rightarrow> ('s, 'm) inc" where
  "inc_new s = \<lparr>i_base = s, outUpdatedVarMap = [], inUpdatedVarMap = []\<rparr>"

definition mark_add :: "('m, 'k) mark_ops \<Rightarrow> LocID \<Rightarrow> 'k \<Rightarrow> (LocID \<times> 'm) list \<Rightarrow> (LocID \<times> 'm) list option" where
  "mark_add M loc var m = map_option (\<lambda>x. AList.update loc x m) (mk_set M (km_get (mk_new M) m loc) var)"

definition mark_remove :: "('m, 'k) mark_ops \<Rightarrow> LocID \<Rightarrow> 'k \<Rightarrow> (LocID \<times> 'm) list \<Rightarrow> (LocID \<times> 'm) list option" where
  "mark_remove M loc var m =
     (case map_of m loc of
        None \<Rightarrow> Some m
      | Some x \<Rightarrow> map_option (\<lambda>x. AList.update loc x m) (mk_reset M x var))"

definition mark_test :: "('m, 'k) mark_ops \<Rightarrow> LocID \<Rightarrow> 'k \<Rightarrow> (LocID \<times> 'm) list \<Rightarrow> (bool \<times> (LocID \<times> 'm) list) option" where
  "mark_test M loc var m =
     (case map_of m loc of
        None \<Rightarrow> Some (False, m)
      | Some x \<Rightarrow> map_option (\<lambda>(b, x). (b, AList.update loc x m)) (mk_test M x var))"

definition setVarDFInSetUpdated :: "('m, 'k) mark_ops \<Rightarrow> LocID \<Rightarrow> 'k \<Rightarrow> ('s, 'm) inc \<Rightarrow> ('s, 'm) inc option" where
  "setVarDFInSetUpdated M loc var s = map_option (\<lambda>m. s\<lparr>inUpdatedVarMap := m\<rparr>) (mark_add M loc var (inUpdatedVarMap s))"

definition removeVarFromDFInUpdatedSet :: "('m, 'k) mark_ops \<Rightarrow> LocID \<Rightarrow> 'k \<Rightarrow> ('s, 'm) inc \<Rightarrow> ('s, 'm) inc option" where
  "removeVarFromDFInUpdatedSet M loc var s =
     map_option (\<lambda>m. s\<lparr>inUpdatedVarMap := m\<rparr>) (mark_remove M loc var (inUpdatedVarMap s))"

definition varHasNewDFInPts :: "('m, 'k) mark_ops \<Rightarrow> LocID \<Rightarrow> 'k \<Rightarrow> ('s, 'm) inc \<Rightarrow> (bool \<times> ('s, 'm) inc) option" where
  "varHasNewDFInPts M loc var s =
     map_option (\<lambda>(b, m). (b, s\<lparr>inUpdatedVarMap := m\<rparr>)) (mark_test M loc var (inUpdatedVarMap s))"

definition getDFInUpdatedVar :: "('m, 'k) mark_ops \<Rightarrow> LocID \<Rightarrow> ('s, 'm) inc \<Rightarrow> 'm \<times> ('s, 'm) inc" where
  "getDFInUpdatedVar M loc s =
     (km_get (mk_new M) (inUpdatedVarMap s) loc, s\<lparr>inUpdatedVarMap := km_touch (mk_new M) loc (inUpdatedVarMap s)\<rparr>)"

definition setVarDFOutSetUpdated :: "('m, 'k) mark_ops \<Rightarrow> LocID \<Rightarrow> 'k \<Rightarrow> ('s, 'm) inc \<Rightarrow> ('s, 'm) inc option" where
  "setVarDFOutSetUpdated M loc var s = map_option (\<lambda>m. s\<lparr>outUpdatedVarMap := m\<rparr>) (mark_add M loc var (outUpdatedVarMap s))"

definition removeVarFromDFOutUpdatedSet :: "('m, 'k) mark_ops \<Rightarrow> LocID \<Rightarrow> 'k \<Rightarrow> ('s, 'm) inc \<Rightarrow> ('s, 'm) inc option" where
  "removeVarFromDFOutUpdatedSet M loc var s =
     map_option (\<lambda>m. s\<lparr>outUpdatedVarMap := m\<rparr>) (mark_remove M loc var (outUpdatedVarMap s))"

definition varHasNewDFOutPts :: "('m, 'k) mark_ops \<Rightarrow> LocID \<Rightarrow> 'k \<Rightarrow> ('s, 'm) inc \<Rightarrow> (bool \<times> ('s, 'm) inc) option" where
  "varHasNewDFOutPts M loc var s =
     map_option (\<lambda>(b, m). (b, s\<lparr>outUpdatedVarMap := m\<rparr>)) (mark_test M loc var (outUpdatedVarMap s))"

definition getDFOutUpdatedVar :: "('m, 'k) mark_ops \<Rightarrow> LocID \<Rightarrow> ('s, 'm) inc \<Rightarrow> 'm \<times> ('s, 'm) inc" where
  "getDFOutUpdatedVar M loc s =
     (km_get (mk_new M) (outUpdatedVarMap s) loc, s\<lparr>outUpdatedVarMap := km_touch (mk_new M) loc (outUpdatedVarMap s)\<rparr>)"

text \<open>A union into an IN or OUT cell that marks its target if it changed.\<close>

definition inc_join_in :: "('s, 'k) df_base \<Rightarrow> ('m, 'k) mark_ops \<Rightarrow> ('s, 'm) inc \<Rightarrow> LocID \<Rightarrow> 'k \<Rightarrow> 'k cell \<Rightarrow>
    (bool \<times> ('s, 'm) inc) option" where
  "inc_join_in B M s dstLoc dstVar src = do {
     (ch, b) \<leftarrow> b_union B (i_base s) (InC dstLoc dstVar) src;
     let s = s\<lparr>i_base := b\<rparr>;
     if ch then do { s \<leftarrow> setVarDFInSetUpdated M dstLoc dstVar s; Some (True, s) }
     else Some (False, s)
   }"

definition inc_join_out :: "('s, 'k) df_base \<Rightarrow> ('m, 'k) mark_ops \<Rightarrow> ('s, 'm) inc \<Rightarrow> LocID \<Rightarrow> 'k \<Rightarrow> 'k cell \<Rightarrow>
    (bool \<times> ('s, 'm) inc) option" where
  "inc_join_out B M s dstLoc dstVar src = do {
     (ch, b) \<leftarrow> b_union B (i_base s) (OutC dstLoc dstVar) src;
     let s = s\<lparr>i_base := b\<rparr>;
     if ch then do { s \<leftarrow> setVarDFOutSetUpdated M dstLoc dstVar s; Some (True, s) }
     else Some (False, s)
   }"

definition inc_updateDFInFromIn :: "('s, 'k) df_base \<Rightarrow> ('m, 'k) mark_ops \<Rightarrow> ('s, 'm) inc \<Rightarrow>
    LocID \<Rightarrow> 'k \<Rightarrow> LocID \<Rightarrow> 'k \<Rightarrow> (bool \<times> ('s, 'm) inc) option" where
  "inc_updateDFInFromIn B M s srcLoc srcVar dstLoc dstVar = do {
     (new, s) \<leftarrow> varHasNewDFInPts M srcLoc srcVar s;
     if new then inc_join_in B M s dstLoc dstVar (InC srcLoc srcVar) else Some (False, s)
   }"

definition inc_updateDFInFromOut :: "('s, 'k) df_base \<Rightarrow> ('m, 'k) mark_ops \<Rightarrow> ('s, 'm) inc \<Rightarrow>
    LocID \<Rightarrow> 'k \<Rightarrow> LocID \<Rightarrow> 'k \<Rightarrow> (bool \<times> ('s, 'm) inc) option" where
  "inc_updateDFInFromOut B M s srcLoc srcVar dstLoc dstVar = do {
     (new, s) \<leftarrow> varHasNewDFOutPts M srcLoc srcVar s;
     if new then inc_join_in B M s dstLoc dstVar (OutC srcLoc srcVar) else Some (False, s)
   }"

definition inc_updateDFOutFromIn :: "('s, 'k) df_base \<Rightarrow> ('m, 'k) mark_ops \<Rightarrow> ('s, 'm) inc \<Rightarrow>
    LocID \<Rightarrow> 'k \<Rightarrow> LocID \<Rightarrow> 'k \<Rightarrow> (bool \<times> ('s, 'm) inc) option" where
  "inc_updateDFOutFromIn B M s srcLoc srcVar dstLoc dstVar = do {
     (new, s) \<leftarrow> varHasNewDFInPts M srcLoc srcVar s;
     if new then do {
       s \<leftarrow> removeVarFromDFInUpdatedSet M srcLoc srcVar s;
       inc_join_out B M s dstLoc dstVar (InC srcLoc srcVar)
     } else Some (False, s)
   }"

definition inc_updateAllDFInFromOut :: "('s, 'k) df_base \<Rightarrow> ('m, 'k) mark_ops \<Rightarrow> ('s, 'm) inc \<Rightarrow>
    LocID \<Rightarrow> 'k \<Rightarrow> LocID \<Rightarrow> 'k \<Rightarrow> (bool \<times> ('s, 'm) inc) option" where
  "inc_updateAllDFInFromOut B M s srcLoc srcVar dstLoc dstVar = inc_join_in B M s dstLoc dstVar (OutC srcLoc srcVar)"

definition inc_updateAllDFInFromIn :: "('s, 'k) df_base \<Rightarrow> ('m, 'k) mark_ops \<Rightarrow> ('s, 'm) inc \<Rightarrow>
    LocID \<Rightarrow> 'k \<Rightarrow> LocID \<Rightarrow> 'k \<Rightarrow> (bool \<times> ('s, 'm) inc) option" where
  "inc_updateAllDFInFromIn B M s srcLoc srcVar dstLoc dstVar = inc_join_in B M s dstLoc dstVar (InC srcLoc srcVar)"

text \<open>The loop runs over a copy of the marked variables, taken before it starts.\<close>

definition inc_updateAllDFOutFromIn :: "('s, 'k) df_base \<Rightarrow> ('m, 'k) mark_ops \<Rightarrow> ('s, 'm) inc \<Rightarrow>
    LocID \<Rightarrow> 'k \<Rightarrow> bool \<Rightarrow> (bool \<times> ('s, 'm) inc) option" where
  "inc_updateAllDFOutFromIn B M s loc singleton strongUpdates =
     (if b_hasIn B (i_base s) loc then do {
        let (vars, s) = getDFInUpdatedVar M loc s;
        ks \<leftarrow> mk_list M vars;
        update_vars (\<lambda>s var. inc_updateDFOutFromIn B M s loc var loc var)
          (\<lambda>var. strongUpdates \<and> var = singleton) ks s
      } else Some (False, s))"

definition inc_updateTLVPts :: "('s, 'k) df_base \<Rightarrow> ('m, 'k) mark_ops \<Rightarrow> ('s, 'm) inc \<Rightarrow>
    LocID \<Rightarrow> 'k \<Rightarrow> 'k \<Rightarrow> (bool \<times> ('s, 'm) inc) option" where
  "inc_updateTLVPts B M s srcLoc srcVar dstVar = do {
     (new, s) \<leftarrow> varHasNewDFInPts M srcLoc srcVar s;
     if new then do {
       s \<leftarrow> removeVarFromDFInUpdatedSet M srcLoc srcVar s;
       (ch, b) \<leftarrow> b_tlv B (i_base s) dstVar srcLoc srcVar;
       Some (ch, s\<lparr>i_base := b\<rparr>)
     } else Some (False, s)
   }"

definition inc_updateATVPts :: "('s, 'k) df_base \<Rightarrow> ('m, 'k) mark_ops \<Rightarrow> ('s, 'm) inc \<Rightarrow>
    'k \<Rightarrow> LocID \<Rightarrow> 'k \<Rightarrow> (bool \<times> ('s, 'm) inc) option" where
  "inc_updateATVPts B M s srcVar dstLoc dstVar = inc_join_out B M s dstLoc dstVar (TopC srcVar)"

fun remove_marks :: "('m, 'k) mark_ops \<Rightarrow> LocID \<Rightarrow> 'k list \<Rightarrow> ('s, 'm) inc \<Rightarrow> ('s, 'm) inc option" where
  "remove_marks M loc [] s = Some s"
| "remove_marks M loc (k # ks) s = do {
     s \<leftarrow> removeVarFromDFOutUpdatedSet M loc k s;
     remove_marks M loc ks s
   }"

definition inc_clearAllDFOutUpdatedVar :: "('s, 'k) df_base \<Rightarrow> ('m, 'k) mark_ops \<Rightarrow> ('s, 'm) inc \<Rightarrow> LocID \<Rightarrow>
    ('s, 'm) inc option" where
  "inc_clearAllDFOutUpdatedVar B M s loc =
     (if b_hasOut B (i_base s) loc then do {
        let (vars, s) = getDFOutUpdatedVar M loc s;
        ks \<leftarrow> mk_list M vars;
        remove_marks M loc ks s
      } else Some s)"

text \<open>Only the persistent class overrides \<open>clear\<close>.\<close>

definition pinc_clear :: "('d ppcache \<times> ('k, 'e) pdf, 'm) inc \<Rightarrow> ('d ppcache \<times> ('k, 'e) pdf, 'm) inc" where
  "pinc_clear s = s\<lparr>outUpdatedVarMap := [], inUpdatedVarMap := [], i_base := (fst (i_base s), pdf_clear (snd (i_base s)))\<rparr>"

definition minc_clear :: "(('k, 'd, 'e) mdf, 'm) inc \<Rightarrow> (('k, 'd, 'e) mdf, 'm) inc" where
  "minc_clear s = s\<lparr>i_base := mdf_clear (i_base s)\<rparr>"

text \<open>The two classes.\<close>

definition minc_base :: "('d, 'k) set_ops \<Rightarrow> (('k, 'd, 'k) mdf, 'k) df_base" where
  "minc_base ops = \<lparr>b_union = mdf_unionCells ops,
     b_tlv = \<lambda>s dstVar srcLoc srcVar. do {
       let (src, s) = mdf_getDFInPtsSet ops s srcLoc srcVar;
       (ch, m) \<leftarrow> mpt_unionSet ops (df_mut s) dstVar src;
       Some (ch, s\<lparr>df_mut := m\<rparr>)
     },
     b_hasIn = mdf_hasDFInSet, b_hasOut = mdf_hasDFOutSet\<rparr>"

definition pinc_base :: "('d, 'e) set_ops \<Rightarrow> (('k, 'd, 'e) pdf_state, 'k) df_base" where
  "pinc_base ops = \<lparr>b_union = unionPtsThroughIds ops,
     b_tlv = \<lambda>s dstVar srcLoc srcVar. unionPtsThroughIds ops s (TopC dstVar) (InC srcLoc srcVar),
     b_hasIn = pdf_hasDFInSet, b_hasOut = pdf_hasDFOutSet\<rparr>"

text \<open>The operations of the persistent class.\<close>

definition pinc_updateDFInFromIn :: "('d, 'e) set_ops \<Rightarrow> (('k, 'd, 'e) pdf_state, 'k list) inc \<Rightarrow>
    LocID \<Rightarrow> 'k \<Rightarrow> LocID \<Rightarrow> 'k \<Rightarrow> (bool \<times> (('k, 'd, 'e) pdf_state, 'k list) inc) option" where
  "pinc_updateDFInFromIn ops = inc_updateDFInFromIn (pinc_base ops) key_marks"

definition pinc_updateDFInFromOut :: "('d, 'e) set_ops \<Rightarrow> (('k, 'd, 'e) pdf_state, 'k list) inc \<Rightarrow>
    LocID \<Rightarrow> 'k \<Rightarrow> LocID \<Rightarrow> 'k \<Rightarrow> (bool \<times> (('k, 'd, 'e) pdf_state, 'k list) inc) option" where
  "pinc_updateDFInFromOut ops = inc_updateDFInFromOut (pinc_base ops) key_marks"

definition pinc_updateDFOutFromIn :: "('d, 'e) set_ops \<Rightarrow> (('k, 'd, 'e) pdf_state, 'k list) inc \<Rightarrow>
    LocID \<Rightarrow> 'k \<Rightarrow> LocID \<Rightarrow> 'k \<Rightarrow> (bool \<times> (('k, 'd, 'e) pdf_state, 'k list) inc) option" where
  "pinc_updateDFOutFromIn ops = inc_updateDFOutFromIn (pinc_base ops) key_marks"

definition pinc_updateAllDFInFromOut :: "('d, 'e) set_ops \<Rightarrow> (('k, 'd, 'e) pdf_state, 'k list) inc \<Rightarrow>
    LocID \<Rightarrow> 'k \<Rightarrow> LocID \<Rightarrow> 'k \<Rightarrow> (bool \<times> (('k, 'd, 'e) pdf_state, 'k list) inc) option" where
  "pinc_updateAllDFInFromOut ops = inc_updateAllDFInFromOut (pinc_base ops) key_marks"

definition pinc_updateAllDFInFromIn :: "('d, 'e) set_ops \<Rightarrow> (('k, 'd, 'e) pdf_state, 'k list) inc \<Rightarrow>
    LocID \<Rightarrow> 'k \<Rightarrow> LocID \<Rightarrow> 'k \<Rightarrow> (bool \<times> (('k, 'd, 'e) pdf_state, 'k list) inc) option" where
  "pinc_updateAllDFInFromIn ops = inc_updateAllDFInFromIn (pinc_base ops) key_marks"

definition pinc_updateAllDFOutFromIn :: "('d, 'e) set_ops \<Rightarrow> (('k, 'd, 'e) pdf_state, 'k list) inc \<Rightarrow>
    LocID \<Rightarrow> 'k \<Rightarrow> bool \<Rightarrow> (bool \<times> (('k, 'd, 'e) pdf_state, 'k list) inc) option" where
  "pinc_updateAllDFOutFromIn ops = inc_updateAllDFOutFromIn (pinc_base ops) key_marks"

definition pinc_updateTLVPts :: "('d, 'e) set_ops \<Rightarrow> (('k, 'd, 'e) pdf_state, 'k list) inc \<Rightarrow>
    LocID \<Rightarrow> 'k \<Rightarrow> 'k \<Rightarrow> (bool \<times> (('k, 'd, 'e) pdf_state, 'k list) inc) option" where
  "pinc_updateTLVPts ops = inc_updateTLVPts (pinc_base ops) key_marks"

definition pinc_updateATVPts :: "('d, 'e) set_ops \<Rightarrow> (('k, 'd, 'e) pdf_state, 'k list) inc \<Rightarrow>
    'k \<Rightarrow> LocID \<Rightarrow> 'k \<Rightarrow> (bool \<times> (('k, 'd, 'e) pdf_state, 'k list) inc) option" where
  "pinc_updateATVPts ops = inc_updateATVPts (pinc_base ops) key_marks"

definition pinc_clearAllDFOutUpdatedVar :: "('d, 'e) set_ops \<Rightarrow> (('k, 'd, 'e) pdf_state, 'k list) inc \<Rightarrow>
    LocID \<Rightarrow> (('k, 'd, 'e) pdf_state, 'k list) inc option" where
  "pinc_clearAllDFOutUpdatedVar ops = inc_clearAllDFOutUpdatedVar (pinc_base ops) key_marks"

section \<open>Marks\<close>

definition marks_at :: "('m, 'k) mark_ops \<Rightarrow> ('m \<Rightarrow> 'k set) \<Rightarrow> (LocID \<times> 'm) list \<Rightarrow> LocID \<Rightarrow> 'k set" where
  "marks_at M marked m l = marked (km_get (mk_new M) m l)"

definition marks_ok :: "('m, 'k) mark_ops \<Rightarrow> ('m \<Rightarrow> bool) \<Rightarrow> (LocID \<times> 'm) list \<Rightarrow> bool" where
  "marks_ok M fit m \<longleftrightarrow> fit (mk_new M) \<and> km_all fit m"

lemma marks_ok_update: "marks_ok M fit m \<Longrightarrow> fit x \<Longrightarrow> marks_ok M fit (AList.update l x m)"
  by (simp add: marks_ok_def km_all_update)

lemma marks_ok_touch: "marks_ok M fit m \<Longrightarrow> marks_ok M fit (km_touch (mk_new M) l m)"
  by (simp add: marks_ok_def km_all_touch)

context mark_set begin

abbreviation Marks :: "(LocID \<times> 'm) list \<Rightarrow> LocID \<Rightarrow> 'k set" where "Marks \<equiv> marks_at M marked"

lemma marks_fit: "marks_ok M fit m \<Longrightarrow> fit (km_get (mk_new M) m l)"
  unfolding marks_ok_def by (rule km_all_get) simp_all

lemma marks_update: "Marks (AList.update l x m) = (Marks m)(l := marked x)"
  by (simp add: marks_at_def fun_eq_iff)

lemma mark_add_spec:
  assumes "marks_ok M fit m" "allowed k"
  shows "\<exists>m'. mark_add M l k m = Some m' \<and> marks_ok M fit m' \<and> Marks m' = (Marks m)(l := insert k (Marks m l))"
proof -
  obtain n where "mk_set M (km_get (mk_new M) m l) k = Some n" "fit n"
      "marked n = insert k (marked (km_get (mk_new M) m l))"
    using set_law [OF marks_fit [OF assms(1)] assms(2)] by blast
  then show ?thesis using assms(1) marks_update [of l n m] by (simp add: mark_add_def marks_ok_update) (simp add: marks_at_def)
qed

lemma marks_absent: "marks_ok M fit m \<Longrightarrow> map_of m l = None \<Longrightarrow> Marks m l = {}"
  using new_law by (simp add: marks_at_def km_get_def marks_ok_def)

lemma marks_present: "map_of m l = Some x \<Longrightarrow> Marks m l = marked x"
  by (simp add: marks_at_def km_get_def)

lemma mark_remove_spec:
  assumes "marks_ok M fit m" "allowed k"
  shows "\<exists>m'. mark_remove M l k m = Some m' \<and> marks_ok M fit m' \<and> Marks m' = (Marks m)(l := Marks m l - {k})"
proof (cases "map_of m l")
  case None
  have "Marks m = (Marks m)(l := Marks m l - {k})" using marks_absent [OF assms(1) None] by (simp add: fun_eq_iff)
  with None show ?thesis using assms(1) by (simp add: mark_remove_def)
next
  case (Some x)
  then have "fit x" using marks_fit [OF assms(1), of l] by (simp add: km_get_def)
  then obtain n where "mk_reset M x k = Some n" "fit n" "marked n = marked x - {k}"
    using reset_law [OF _ assms(2)] by blast
  then show ?thesis using Some assms(1) marks_update [of l n m] marks_present [OF Some]
    by (simp add: mark_remove_def marks_ok_update)
qed

lemma mark_test_spec:
  assumes "marks_ok M fit m" "allowed k"
  shows "\<exists>m'. mark_test M l k m = Some (k \<in> Marks m l, m') \<and> marks_ok M fit m' \<and> Marks m' = Marks m"
proof (cases "map_of m l")
  case None
  then show ?thesis using assms(1) marks_absent [OF assms(1) None] by (simp add: mark_test_def)
next
  case (Some x)
  then have "fit x" using marks_fit [OF assms(1), of l] by (simp add: km_get_def)
  then obtain n where n: "mk_test M x k = Some (k \<in> marked x, n)" "fit n" "marked n = marked x"
    using test_law [OF _ assms(2)] by blast
  have "(Marks m)(l := marked x) = Marks m" using marks_present [OF Some] by (simp add: fun_eq_iff)
  then show ?thesis using n Some assms(1) marks_update [of l n m] marks_present [OF Some]
    by (simp add: mark_test_def marks_ok_update)
qed

end

section \<open>The contract of the incremental structures\<close>

definition inc_ok :: "('s \<Rightarrow> bool) \<Rightarrow> ('m, 'k) mark_ops \<Rightarrow> ('m \<Rightarrow> bool) \<Rightarrow> ('s, 'm) inc \<Rightarrow> bool" where
  "inc_ok ok M fit s \<longleftrightarrow> ok (i_base s) \<and> marks_ok M fit (inUpdatedVarMap s) \<and> marks_ok M fit (outUpdatedVarMap s)"

text \<open>A variable that is not marked has nothing new in its IN set.\<close>

definition settled :: "('k cell \<Rightarrow> 'e set) \<Rightarrow> (LocID \<Rightarrow> 'k set) \<Rightarrow> LocID \<Rightarrow> bool" where
  "settled p ms l \<longleftrightarrow> (\<forall>v. v \<notin> ms l \<longrightarrow> p (InC l v) \<subseteq> p (OutC l v))"

locale inc_df = df_data "b_union B" inKeys "b_hasIn B" inv room view + mark_set M fit marked allowed
  for B :: "('s, 'k) df_base" and inKeys inv room and view :: "'s \<Rightarrow> 'k cell \<Rightarrow> 'e set"
    and M :: "('m, 'k) mark_ops" and fit marked allowed +
  assumes tlv_law: "inv s \<Longrightarrow> room s (Suc n) \<Longrightarrow>
      \<exists>s'. b_tlv B s d l k = Some (\<not> view s (InC l k) \<subseteq> view s (TopC d), s') \<and> inv s' \<and> room s' n \<and>
        view s' = (view s)(TopC d := view s (TopC d) \<union> view s (InC l k))"
begin

abbreviation Ok :: "('s, 'm) inc \<Rightarrow> bool" where "Ok \<equiv> inc_ok inv M fit"
abbreviation View :: "('s, 'm) inc \<Rightarrow> 'k cell \<Rightarrow> 'e set" where "View s \<equiv> view (i_base s)"
abbreviation Ins :: "('s, 'm) inc \<Rightarrow> LocID \<Rightarrow> 'k set" where "Ins s \<equiv> Marks (inUpdatedVarMap s)"
abbreviation Outs :: "('s, 'm) inc \<Rightarrow> LocID \<Rightarrow> 'k set" where "Outs s \<equiv> Marks (outUpdatedVarMap s)"

lemma inc_join_in_spec:
  assumes ok: "Ok s" and room: "room (i_base s) (Suc n)" and k: "allowed k"
  shows "\<exists>s'. inc_join_in B M s l k c = Some (\<not> View s c \<subseteq> View s (InC l k), s') \<and> Ok s' \<and> room (i_base s') n \<and>
    View s' = (View s)(InC l k := View s (InC l k) \<union> View s c) \<and> Outs s' = Outs s \<and>
    Ins s' = (if View s c \<subseteq> View s (InC l k) then Ins s else (Ins s)(l := insert k (Ins s l)))"
proof -
  obtain b where b: "b_union B (i_base s) (InC l k) c = Some (\<not> View s c \<subseteq> View s (InC l k), b)" "inv b" "room b n"
      "view b = (View s)(InC l k := View s (InC l k) \<union> View s c)"
    using cells_law [of "i_base s" n] ok room by (auto simp: inc_ok_def)
  obtain m where m: "mark_add M l k (inUpdatedVarMap s) = Some m" "marks_ok M fit m" "Marks m = (Ins s)(l := insert k (Ins s l))"
    using mark_add_spec [OF _ k] ok by (auto simp: inc_ok_def)
  show ?thesis
    using b m ok by (cases "View s c \<subseteq> View s (InC l k)")
      (simp_all add: inc_join_in_def setVarDFInSetUpdated_def inc_ok_def)
qed

lemma inc_join_out_spec:
  assumes ok: "Ok s" and room: "room (i_base s) (Suc n)" and k: "allowed k"
  shows "\<exists>s'. inc_join_out B M s l k c = Some (\<not> View s c \<subseteq> View s (OutC l k), s') \<and> Ok s' \<and> room (i_base s') n \<and>
    View s' = (View s)(OutC l k := View s (OutC l k) \<union> View s c) \<and> Ins s' = Ins s \<and>
    Outs s' = (if View s c \<subseteq> View s (OutC l k) then Outs s else (Outs s)(l := insert k (Outs s l)))"
proof -
  obtain b where b: "b_union B (i_base s) (OutC l k) c = Some (\<not> View s c \<subseteq> View s (OutC l k), b)" "inv b" "room b n"
      "view b = (View s)(OutC l k := View s (OutC l k) \<union> View s c)"
    using cells_law [of "i_base s" n] ok room by (auto simp: inc_ok_def)
  obtain m where m: "mark_add M l k (outUpdatedVarMap s) = Some m" "marks_ok M fit m"
      "Marks m = (Outs s)(l := insert k (Outs s l))"
    using mark_add_spec [OF _ k] ok by (auto simp: inc_ok_def)
  show ?thesis
    using b m ok by (cases "View s c \<subseteq> View s (OutC l k)")
      (simp_all add: inc_join_out_def setVarDFOutSetUpdated_def inc_ok_def)
qed

text \<open>Testing and taking marks.\<close>

lemma has_new_spec:
  assumes "Ok s" "allowed k"
  shows "\<exists>t. varHasNewDFInPts M l k s = Some (k \<in> Ins s l, t) \<and> Ok t \<and> i_base t = i_base s \<and> Ins t = Ins s \<and> Outs t = Outs s"
    "\<exists>t. varHasNewDFOutPts M l k s = Some (k \<in> Outs s l, t) \<and> Ok t \<and> i_base t = i_base s \<and> Ins t = Ins s \<and> Outs t = Outs s"
  using mark_test_spec [of "inUpdatedVarMap s" k l] mark_test_spec [of "outUpdatedVarMap s" k l] assms
  by (auto simp: varHasNewDFInPts_def varHasNewDFOutPts_def inc_ok_def)

lemma remove_in_spec:
  assumes "Ok s" "allowed k"
  shows "\<exists>t. removeVarFromDFInUpdatedSet M l k s = Some t \<and> Ok t \<and> i_base t = i_base s \<and>
    Ins t = (Ins s)(l := Ins s l - {k}) \<and> Outs t = Outs s"
  using mark_remove_spec [of "inUpdatedVarMap s" k l] assms
  by (auto simp: removeVarFromDFInUpdatedSet_def inc_ok_def)

lemma remove_out_spec:
  assumes "Ok s" "allowed k"
  shows "\<exists>t. removeVarFromDFOutUpdatedSet M l k s = Some t \<and> Ok t \<and> i_base t = i_base s \<and>
    Outs t = (Outs s)(l := Outs s l - {k}) \<and> Ins t = Ins s"
  using mark_remove_spec [of "outUpdatedVarMap s" k l] assms
  by (auto simp: removeVarFromDFOutUpdatedSet_def inc_ok_def)

text \<open>
  An update from IN to OUT of one variable does nothing unless the variable is marked, and takes the mark.
\<close>

lemma inc_out_spec:
  assumes ok: "Ok s" and room: "room (i_base s) (Suc n)" and k: "allowed k"
  shows "\<exists>s'. inc_updateDFOutFromIn B M s l k l k = Some (k \<in> Ins s l \<and> \<not> View s (InC l k) \<subseteq> View s (OutC l k), s') \<and>
    Ok s' \<and> room (i_base s') n \<and> Ins s' = (Ins s)(l := Ins s l - {k}) \<and>
    View s' = (if k \<in> Ins s l then (View s)(OutC l k := View s (OutC l k) \<union> View s (InC l k)) else View s)"
proof -
  obtain t where t: "varHasNewDFInPts M l k s = Some (k \<in> Ins s l, t)" "Ok t" "i_base t = i_base s" "Ins t = Ins s"
    using has_new_spec(1) [OF ok k] by blast
  show ?thesis
  proof (cases "k \<in> Ins s l")
    case True
    obtain u where u: "removeVarFromDFInUpdatedSet M l k t = Some u" "Ok u" "i_base u = i_base t"
        "Ins u = (Ins t)(l := Ins t l - {k})"
      using remove_in_spec [OF t(2) k] by blast
    have r: "room (i_base u) (Suc n)" using room t(3) u(3) by simp
    show ?thesis using inc_join_out_spec [OF u(2) r k, of l "InC l k"] True t u
      by (auto simp: inc_updateDFOutFromIn_def)
  next
    case False
    have "room (i_base t) n" using room room_Suc t(3) by simp
    moreover have "(Ins s)(l := Ins s l - {k}) = Ins s" using False by auto
    ultimately show ?thesis using False t by (simp add: inc_updateDFOutFromIn_def)
  qed
qed

lemma inc_vars_spec:
  assumes "Ok s" "room (i_base s) (length ks)" "\<forall>k \<in> set ks. allowed k"
  shows "\<exists>s'. update_vars (\<lambda>s v. inc_updateDFOutFromIn B M s l v l v) skip ks s =
      Some (not_joined (View s) l {v \<in> Ins s l. v \<in> set ks \<and> \<not> skip v}, s') \<and> Ok s' \<and>
    View s' = out_joined (View s) l {v \<in> Ins s l. v \<in> set ks \<and> \<not> skip v} \<and>
    Ins s' = (Ins s)(l := {v \<in> Ins s l. \<not> (v \<in> set ks \<and> \<not> skip v)})"
  using assms
proof (induction ks arbitrary: s)
  case Nil
  then show ?case by (simp add: not_joined_def)
next
  case (Cons k ks)
  have all: "\<forall>k \<in> set ks. allowed k" "allowed k" using Cons.prems(3) by simp_all
  show ?case
  proof (cases "skip k")
    case True
    have r: "room (i_base s) (length ks)" using Cons.prems(2) room_Suc by simp
    have "{v \<in> Ins s l. v \<in> set (k # ks) \<and> \<not> skip v} = {v \<in> Ins s l. v \<in> set ks \<and> \<not> skip v}"
      "{v \<in> Ins s l. \<not> (v \<in> set (k # ks) \<and> \<not> skip v)} = {v \<in> Ins s l. \<not> (v \<in> set ks \<and> \<not> skip v)}"
      using True by auto
    then show ?thesis using Cons.IH [OF Cons.prems(1) r all(1)] True by simp
  next
    case False
    have r: "room (i_base s) (Suc (length ks))" using Cons.prems(2) by simp
    obtain t where t: "inc_updateDFOutFromIn B M s l k l k =
          Some (k \<in> Ins s l \<and> \<not> View s (InC l k) \<subseteq> View s (OutC l k), t)"
        "Ok t" "room (i_base t) (length ks)" "Ins t = (Ins s)(l := Ins s l - {k})"
        "View t = (if k \<in> Ins s l then (View s)(OutC l k := View s (OutC l k) \<union> View s (InC l k)) else View s)"
      using inc_out_spec [OF Cons.prems(1) r all(2)] by blast
    let ?V = "{v \<in> Ins t l. v \<in> set ks \<and> \<not> skip v}" and ?W = "{v \<in> Ins s l. v \<in> set (k # ks) \<and> \<not> skip v}"
    obtain s' where s': "update_vars (\<lambda>s v. inc_updateDFOutFromIn B M s l v l v) skip ks t =
          Some (not_joined (View t) l ?V, s')" "Ok s'" "View s' = out_joined (View t) l ?V"
        "Ins s' = (Ins t)(l := {v \<in> Ins t l. \<not> (v \<in> set ks \<and> \<not> skip v)})"
      using Cons.IH [OF t(2,3) all(1)] by blast
    have i: "Ins s' = (Ins s)(l := {v \<in> Ins s l. \<not> (v \<in> set (k # ks) \<and> \<not> skip v)})"
      using s'(4) t(4) False by (auto simp: fun_eq_iff)
    have w: "?W = (if k \<in> Ins s l then insert k ?V else ?V)" using t(4) False by auto
    have v: "View s' = out_joined (View s) l ?W"
      using s'(3) unfolding w t(5) by (cases "k \<in> Ins s l") (simp_all only: out_joined_insert if_True if_False)
    have b: "not_joined (View s) l ?W \<longleftrightarrow>
        (k \<in> Ins s l \<and> \<not> View s (InC l k) \<subseteq> View s (OutC l k)) \<or> not_joined (View t) l ?V"
      unfolding w t(5) by (cases "k \<in> Ins s l") (simp_all only: not_joined_insert if_True if_False simp_thms)
    show ?thesis unfolding b i [symmetric] v [symmetric] using False t(1) s'(1,2) by simp
  qed
qed

text \<open>
  If every unmarked variable is settled, joining only the marked ones is joining all: the incremental
  operation returns what the full one returns.
\<close>

lemma out_joined_settled:
  assumes "\<And>v. v \<in> vs \<Longrightarrow> v \<notin> us \<Longrightarrow> p (InC l v) \<subseteq> p (OutC l v)" "us \<subseteq> vs"
  shows "out_joined p l us = out_joined p l vs" "not_joined p l us \<longleftrightarrow> not_joined p l vs"
proof -
  have e: "p (OutC l v) \<union> p (InC l v) = p (OutC l v)" if "v \<in> vs" "v \<notin> us" for v
    using assms(1) [OF that] by blast
  have "out_joined p l us c = out_joined p l vs c" for c
  proof (cases c)
    case (OutC m v)
    then show ?thesis using e [of v] assms(2) by (cases "v \<in> us"; cases "v \<in> vs") (auto simp: out_joined_def)
  qed (simp_all add: out_joined_def)
  then show "out_joined p l us = out_joined p l vs" by (rule ext)
  show "not_joined p l us \<longleftrightarrow> not_joined p l vs" unfolding not_joined_def using assms by blast
qed

lemma inc_update_all_marked:
  assumes ok: "Ok s" and room: "room (i_base s) (card (Ins s l))"
  shows "\<exists>s'. inc_updateAllDFOutFromIn B M s l singleton strong =
      Some (not_joined (View s) l {v \<in> Ins s l. \<not> (strong \<and> v = singleton)}, s') \<and> Ok s' \<and>
    View s' = out_joined (View s) l {v \<in> Ins s l. \<not> (strong \<and> v = singleton)} \<and>
    Ins s' = (if b_hasIn B (i_base s) l then (Ins s)(l := {v \<in> Ins s l. strong \<and> v = singleton}) else Ins s)"
proof -
  let ?W = "{v \<in> Ins s l. \<not> (strong \<and> v = singleton)}"
  show ?thesis
  proof (cases "b_hasIn B (i_base s) l")
    case True
    let ?t = "s\<lparr>inUpdatedVarMap := km_touch (mk_new M) l (inUpdatedVarMap s)\<rparr>"
    have t: "Ok ?t" "Ins ?t = Ins s"
      using ok by (simp_all add: inc_ok_def marks_ok_touch marks_at_def fun_eq_iff)
    have f: "fit (km_get (mk_new M) (inUpdatedVarMap s) l)" using ok by (simp add: inc_ok_def marks_fit)
    obtain ks where ks: "mk_list M (km_get (mk_new M) (inUpdatedVarMap s) l) = Some ks" "set ks = Ins s l"
        "distinct ks"
      using list_law [OF f] by (auto simp: marks_at_def)
    have a: "\<forall>k \<in> set ks. allowed k" using ks(2) marked_allowed [OF f] by (simp add: marks_at_def)
    have r: "room (i_base ?t) (length ks)" using room distinct_card [OF ks(3)] ks(2) by simp
    have w: "{v \<in> Ins ?t l. v \<in> set ks \<and> \<not> (strong \<and> v = singleton)} = ?W" using ks(2) t(2) by auto
    obtain s' where s': "update_vars (\<lambda>s v. inc_updateDFOutFromIn B M s l v l v) (\<lambda>v. strong \<and> v = singleton) ks ?t =
          Some (not_joined (View ?t) l ?W, s')" "Ok s'" "View s' = out_joined (View ?t) l ?W"
        "Ins s' = (Ins ?t)(l := {v \<in> Ins ?t l. \<not> (v \<in> set ks \<and> \<not> (strong \<and> v = singleton))})"
      using inc_vars_spec [OF t(1) r a, of l "\<lambda>v. strong \<and> v = singleton"] unfolding w by blast
    have i: "Ins s' = (Ins s)(l := {v \<in> Ins s l. strong \<and> v = singleton})"
      using s'(4) t(2) ks(2) by (auto simp: fun_eq_iff)
    show ?thesis unfolding i [symmetric] using True ks(1) s'(1,2,3)
      by (simp add: inc_updateAllDFOutFromIn_def getDFInUpdatedVar_def)
  next
    case False
    have "inKeys (i_base s) l = []" using has_in_law [OF _ False] ok by (simp add: inc_ok_def)
    then have n: "View s (InC l v) = {}" for v using keys_law [of "i_base s" l v] ok by (auto simp: inc_ok_def)
    have "out_joined (View s) l ?W = out_joined (View s) l {}" "not_joined (View s) l ?W \<longleftrightarrow> not_joined (View s) l {}"
      by (rule out_joined_settled(1) [symmetric]; use n in simp) (rule out_joined_settled(2) [symmetric]; use n in simp)
    then show ?thesis using False ok by (simp add: inc_updateAllDFOutFromIn_def not_joined_def)
  qed
qed

lemma inc_update_all_spec:
  assumes ok: "Ok s" and room: "room (i_base s) (card (Ins s l))"
    and settled: "\<And>v. v \<notin> Ins s l \<Longrightarrow> \<not> (strong \<and> v = singleton) \<Longrightarrow> View s (InC l v) \<subseteq> View s (OutC l v)"
  shows "\<exists>s'. inc_updateAllDFOutFromIn B M s l singleton strong =
      Some (not_joined (View s) l {v. \<not> (strong \<and> v = singleton)}, s') \<and> Ok s' \<and>
    View s' = out_joined (View s) l {v. \<not> (strong \<and> v = singleton)}"
proof -
  let ?W = "{v \<in> Ins s l. \<not> (strong \<and> v = singleton)}" and ?U = "{v. \<not> (strong \<and> v = singleton)}"
  have "out_joined (View s) l ?W = out_joined (View s) l ?U" "not_joined (View s) l ?W \<longleftrightarrow> not_joined (View s) l ?U"
    by (rule out_joined_settled; use settled in auto)+
  then show ?thesis using inc_update_all_marked [OF ok room, of singleton strong] by auto
qed

text \<open>
  The other updates keep every location settled: IN sets that grow get a mark, OUT sets only grow.
\<close>

lemma settled_in:
  assumes "settled p ms m"
    and "ms' = (if X \<subseteq> p (InC l k) then ms else ms(l := insert k (ms l)))"
  shows "settled (p(InC l k := p (InC l k) \<union> X)) ms' m"
  using assms by (auto simp: settled_def split: if_splits)

lemma settled_out: "settled p ms m \<Longrightarrow> settled (p(OutC l k := p (OutC l k) \<union> X)) ms m"
  by (auto simp: settled_def)

lemma settled_top: "settled p ms m \<Longrightarrow> settled (p(TopC k := X)) ms m"
  by (auto simp: settled_def)

text \<open>
  An update of an IN set that is gated by the mark of its source is the ungated one, if an unmarked source has
  reached the target already.
\<close>

lemma inc_gated_spec:
  assumes ok: "Ok s" and room: "room (i_base s) (Suc n)" and k: "allowed k" "allowed v"
    and src: "c = InC m v \<and> upd = inc_updateDFInFromIn \<and> ms = Ins s \<or>
      c = OutC m v \<and> upd = inc_updateDFInFromOut \<and> ms = Outs s"
    and reached: "v \<notin> ms m \<Longrightarrow> View s c \<subseteq> View s (InC l k)"
  shows "\<exists>s'. upd B M s m v l k = Some (\<not> View s c \<subseteq> View s (InC l k), s') \<and> Ok s' \<and> room (i_base s') n \<and>
    View s' = (View s)(InC l k := View s (InC l k) \<union> View s c) \<and>
    Ins s' = (if View s c \<subseteq> View s (InC l k) then Ins s else (Ins s)(l := insert k (Ins s l)))"
proof -
  obtain t where t: "upd B M s m v l k = (if v \<in> ms m then inc_join_in B M t l k c else Some (False, t))"
      "Ok t" "i_base t = i_base s" "Ins t = Ins s"
    using has_new_spec [OF ok k(2), of m] src by (auto simp: inc_updateDFInFromIn_def inc_updateDFInFromOut_def)
  have r: "room (i_base t) (Suc n)" using room t(3) by simp
  show ?thesis
  proof (cases "v \<in> ms m")
    case True
    then have e: "upd B M s m v l k = inc_join_in B M t l k c" using t(1) by simp
    show ?thesis using inc_join_in_spec [OF t(2) r k(1), of l c] unfolding e t(3,4) by blast
  next
    case False
    have "View s = (View s)(InC l k := View s (InC l k) \<union> View s c)" using reached [OF False] by (auto simp: fun_eq_iff)
    then show ?thesis using False reached [OF False] t room_Suc [OF r] by simp
  qed
qed

text \<open>A load takes the mark of its source; the top-level variable has the IN set afterwards.\<close>

lemma inc_tlv_spec:
  assumes ok: "Ok s" and room: "room (i_base s) (Suc n)" and v: "allowed v"
    and reached: "v \<notin> Ins s m \<Longrightarrow> View s (InC m v) \<subseteq> View s (TopC d)"
  shows "\<exists>s'. inc_updateTLVPts B M s m v d = Some (\<not> View s (InC m v) \<subseteq> View s (TopC d), s') \<and> Ok s' \<and>
    View s' = (View s)(TopC d := View s (TopC d) \<union> View s (InC m v)) \<and> Ins s' = (Ins s)(m := Ins s m - {v})"
proof -
  obtain t where t: "varHasNewDFInPts M m v s = Some (v \<in> Ins s m, t)" "Ok t" "i_base t = i_base s" "Ins t = Ins s"
    using has_new_spec(1) [OF ok v] by blast
  show ?thesis
  proof (cases "v \<in> Ins s m")
    case True
    obtain u where u: "removeVarFromDFInUpdatedSet M m v t = Some u" "Ok u" "i_base u = i_base t"
        "Ins u = (Ins t)(m := Ins t m - {v})"
      using remove_in_spec [OF t(2) v] by blast
    have r: "inv (i_base u)" "room (i_base u) (Suc n)" using room t(3) u(2,3) by (simp_all add: inc_ok_def)
    obtain b where b: "b_tlv B (i_base s) d m v = Some (\<not> View s (InC m v) \<subseteq> View s (TopC d), b)" "inv b"
        "view b = (View s)(TopC d := View s (TopC d) \<union> View s (InC m v))"
      using tlv_law [OF r, of d m v] unfolding u(3) t(3) by blast
    have "inc_updateTLVPts B M s m v d = Some (\<not> View s (InC m v) \<subseteq> View s (TopC d), u\<lparr>i_base := b\<rparr>)"
      using True t(1,3) u(1,3) b(1) by (simp add: inc_updateTLVPts_def)
    moreover have "Ok (u\<lparr>i_base := b\<rparr>)" using u(2) b(2) by (simp add: inc_ok_def)
    ultimately show ?thesis using b(3) u(4) t(4) by auto
  next
    case False
    have "View s = (View s)(TopC d := View s (TopC d) \<union> View s (InC m v))" "Ins s = (Ins s)(m := Ins s m - {v})"
      using reached [OF False] False by (auto simp: fun_eq_iff)
    then show ?thesis using False reached [OF False] t by (simp add: inc_updateTLVPts_def)
  qed
qed

text \<open>Clearing the marks of the OUT sets of a location.\<close>

lemma remove_marks_spec:
  assumes "Ok s" "\<forall>k \<in> set ks. allowed k"
  shows "\<exists>t. remove_marks M l ks s = Some t \<and> Ok t \<and> i_base t = i_base s \<and>
    Outs t = (Outs s)(l := Outs s l - set ks) \<and> Ins t = Ins s"
  using assms
proof (induction ks arbitrary: s)
  case (Cons k ks)
  have a: "\<forall>k \<in> set ks. allowed k" using Cons.prems(2) by simp
  obtain u where u: "removeVarFromDFOutUpdatedSet M l k s = Some u" "Ok u" "i_base u = i_base s"
      "Outs u = (Outs s)(l := Outs s l - {k})" "Ins u = Ins s"
    using remove_out_spec [OF Cons.prems(1)] Cons.prems(2) by (meson list.set_intros(1))
  obtain t where t: "remove_marks M l ks u = Some t" "Ok t" "i_base t = i_base u"
      "Outs t = (Outs u)(l := Outs u l - set ks)" "Ins t = Ins u"
    using Cons.IH [OF u(2) a] by blast
  have o: "Outs t = (Outs s)(l := Outs s l - set (k # ks))" using t(4) u(4) by (auto simp: fun_eq_iff)
  show ?case unfolding o [symmetric] using t(1,2,3,5) u by simp
qed simp

lemma inc_clear_out_spec:
  assumes ok: "Ok s"
  shows "\<exists>t. inc_clearAllDFOutUpdatedVar B M s l = Some t \<and> Ok t \<and> i_base t = i_base s \<and> Ins t = Ins s \<and>
    Outs t = (if b_hasOut B (i_base s) l then (Outs s)(l := {}) else Outs s)"
proof (cases "b_hasOut B (i_base s) l")
  case True
  let ?t = "s\<lparr>outUpdatedVarMap := km_touch (mk_new M) l (outUpdatedVarMap s)\<rparr>"
  have t: "Ok ?t" "Outs ?t = Outs s"
    using ok by (simp_all add: inc_ok_def marks_ok_touch marks_at_def fun_eq_iff)
  have f: "fit (km_get (mk_new M) (outUpdatedVarMap s) l)" using ok by (simp add: inc_ok_def marks_fit)
  obtain ks where ks: "mk_list M (km_get (mk_new M) (outUpdatedVarMap s) l) = Some ks" "set ks = Outs s l"
    using list_law [OF f] by (auto simp: marks_at_def)
  have a: "\<forall>k \<in> set ks. allowed k" using ks(2) marked_allowed [OF f] by (simp add: marks_at_def)
  obtain u where "remove_marks M l ks ?t = Some u" "Ok u" "i_base u = i_base ?t"
      "Outs u = (Outs ?t)(l := Outs ?t l - set ks)" "Ins u = Ins ?t"
    using remove_marks_spec [OF t(1) a] by blast
  then show ?thesis using True ks t(2) by (simp add: inc_clearAllDFOutUpdatedVar_def getDFOutUpdatedVar_def)
qed (simp add: inc_clearAllDFOutUpdatedVar_def ok)

end

section \<open>Runs\<close>

text \<open>
  The calls a solver makes, with the use the solvers make of \<open>updateDFOutFromIn\<close>: within a location.
\<close>

datatype 'k df_call = InFromIn LocID 'k LocID 'k | InFromOut LocID 'k LocID 'k | OutFromIn LocID 'k
  | AllInFromIn LocID 'k LocID 'k | AllInFromOut LocID 'k LocID 'k | AllOutFromIn LocID 'k bool
  | FromLoad LocID 'k 'k | FromStore 'k LocID 'k | ClearOutMarks LocID

fun inc_call :: "('s, 'k) df_base \<Rightarrow> ('m, 'k) mark_ops \<Rightarrow> 'k df_call \<Rightarrow> ('s, 'm) inc \<Rightarrow> (bool \<times> ('s, 'm) inc) option" where
  "inc_call B M (InFromIn m v l k) s = inc_updateDFInFromIn B M s m v l k"
| "inc_call B M (InFromOut m v l k) s = inc_updateDFInFromOut B M s m v l k"
| "inc_call B M (OutFromIn l k) s = inc_updateDFOutFromIn B M s l k l k"
| "inc_call B M (AllInFromIn m v l k) s = inc_updateAllDFInFromIn B M s m v l k"
| "inc_call B M (AllInFromOut m v l k) s = inc_updateAllDFInFromOut B M s m v l k"
| "inc_call B M (AllOutFromIn l k b) s = inc_updateAllDFOutFromIn B M s l k b"
| "inc_call B M (FromLoad m v d) s = inc_updateTLVPts B M s m v d"
| "inc_call B M (FromStore v l k) s = inc_updateATVPts B M s v l k"
| "inc_call B M (ClearOutMarks l) s = map_option (Pair False) (inc_clearAllDFOutUpdatedVar B M s l)"

text \<open>The address-taken variables of a call, and whether it is a load at a location.\<close>

fun call_vars :: "'k df_call \<Rightarrow> 'k list" where
  "call_vars (InFromIn m v l k) = [v, k]"
| "call_vars (InFromOut m v l k) = [v, k]"
| "call_vars (OutFromIn l k) = [k]"
| "call_vars (AllInFromIn m v l k) = [v, k]"
| "call_vars (AllInFromOut m v l k) = [v, k]"
| "call_vars (FromLoad m v d) = [v]"
| "call_vars (FromStore v l k) = [k]"
| "call_vars _ = []"

fun load_at :: "LocID \<Rightarrow> 'k df_call \<Rightarrow> bool" where
  "load_at l (FromLoad m v d) \<longleftrightarrow> m = l"
| "load_at l _ \<longleftrightarrow> False"

context inc_df begin

abbreviation Settled :: "('s, 'm) inc \<Rightarrow> LocID \<Rightarrow> bool" where "Settled s \<equiv> settled (View s) (Ins s)"

lemma inc_join_in_settled:
  assumes "Ok s" "room (i_base s) (Suc n)" "allowed k"
  shows "\<exists>b s'. inc_join_in B M s l k c = Some (b, s') \<and> Ok s' \<and> (\<forall>m. Settled s m \<longrightarrow> Settled s' m)"
proof -
  obtain s' where s': "inc_join_in B M s l k c = Some (\<not> View s c \<subseteq> View s (InC l k), s')" "Ok s'"
      "View s' = (View s)(InC l k := View s (InC l k) \<union> View s c)"
      "Ins s' = (if View s c \<subseteq> View s (InC l k) then Ins s else (Ins s)(l := insert k (Ins s l)))"
    using inc_join_in_spec [OF assms] by blast
  have "Settled s' m" if "Settled s m" for m unfolding s'(3) by (rule settled_in [OF that s'(4)])
  then show ?thesis using s'(1,2) by blast
qed

lemma inc_join_out_settled:
  assumes "Ok s" "room (i_base s) (Suc n)" "allowed k"
  shows "\<exists>b s'. inc_join_out B M s l k c = Some (b, s') \<and> Ok s' \<and> (\<forall>m. Settled s m \<longrightarrow> Settled s' m)"
proof -
  obtain s' where s': "inc_join_out B M s l k c = Some (\<not> View s c \<subseteq> View s (OutC l k), s')" "Ok s'"
      "View s' = (View s)(OutC l k := View s (OutC l k) \<union> View s c)" "Ins s' = Ins s"
    using inc_join_out_spec [OF assms] by blast
  have "Settled s' m" if "Settled s m" for m unfolding s'(3,4) by (rule settled_out [OF that])
  then show ?thesis using s'(1,2) by blast
qed

lemma inc_load_settled:
  assumes ok: "Ok s" and room: "room (i_base s) (Suc n)" and v: "allowed v"
  shows "\<exists>b s'. inc_updateTLVPts B M s m v d = Some (b, s') \<and> Ok s' \<and> (\<forall>l. m \<noteq> l \<longrightarrow> Settled s l \<longrightarrow> Settled s' l)"
proof -
  obtain t where t: "varHasNewDFInPts M m v s = Some (v \<in> Ins s m, t)" "Ok t" "i_base t = i_base s" "Ins t = Ins s"
    using has_new_spec(1) [OF ok v] by blast
  show ?thesis
  proof (cases "v \<in> Ins s m")
    case True
    have "View s (InC m v) \<subseteq> View s (TopC d)" if "v \<notin> Ins s m" using True that by simp
    then obtain s' where s': "inc_updateTLVPts B M s m v d = Some (\<not> View s (InC m v) \<subseteq> View s (TopC d), s')" "Ok s'"
        "View s' = (View s)(TopC d := View s (TopC d) \<union> View s (InC m v))" "Ins s' = (Ins s)(m := Ins s m - {v})"
      using inc_tlv_spec [OF ok room v, of m d] by blast
    have "Settled s' l" if "m \<noteq> l" "Settled s l" for l using that s'(3,4) by (auto simp: settled_def)
    then show ?thesis using s'(1,2) by blast
  qed (use t in \<open>auto simp: inc_updateTLVPts_def\<close>)
qed

lemma settled_one:
  assumes "settled p ms m"
    and "p' = (if k \<in> ms l then p(OutC l k := p (OutC l k) \<union> p (InC l k)) else p)"
    and "ms' = ms(l := ms l - {k})"
  shows "settled p' ms' m"
  using assms by (auto simp: settled_def split: if_splits)

lemma settled_all:
  assumes "settled p ms m"
    and "p' = out_joined p l {v \<in> ms l. \<not> skip v}" "ms' = (if b then ms(l := {v \<in> ms l. skip v}) else ms)"
  shows "settled p' ms' m"
  using assms by (auto simp: settled_def out_joined_def split: if_splits)

lemma inc_new_spec:
  assumes "inv b" "fit (mk_new M)" "view b = (\<lambda>_. {})"
  shows "Ok (inc_new b)" "Settled (inc_new b) l"
  using assms by (simp_all add: inc_ok_def inc_new_def marks_ok_def settled_def)

text \<open>Every call succeeds and keeps all locations settled but those it loads at.\<close>

lemma inc_call_settled:
  assumes ok: "Ok s" and room: "\<And>s n. room s n" and v: "\<forall>k \<in> set (call_vars x). allowed k"
  shows "\<exists>b s'. inc_call B M x s = Some (b, s') \<and> Ok s' \<and> (\<forall>m. \<not> load_at m x \<longrightarrow> Settled s m \<longrightarrow> Settled s' m)"
proof -
  have new: "\<exists>b t. varHasNewDFInPts M l k s = Some (b, t) \<and> Ok t \<and> i_base t = i_base s \<and> Ins t = Ins s"
    "\<exists>b t. varHasNewDFOutPts M l k s = Some (b, t) \<and> Ok t \<and> i_base t = i_base s \<and> Ins t = Ins s"
    if "allowed k" for l k
    using has_new_spec [OF ok that, of l] by blast+
  show ?thesis
  proof (cases x)
    case (InFromIn m u l k)
    obtain b t where t: "varHasNewDFInPts M m u s = Some (b, t)" "Ok t" "i_base t = i_base s" "Ins t = Ins s"
      using new(1) [of u m] v InFromIn by auto
    show ?thesis using inc_join_in_settled [OF t(2) room, of k l "InC m u"] t v InFromIn
      by (cases b) (auto simp: inc_updateDFInFromIn_def)
  next
    case (InFromOut m u l k)
    obtain b t where t: "varHasNewDFOutPts M m u s = Some (b, t)" "Ok t" "i_base t = i_base s" "Ins t = Ins s"
      using new(2) [of u m] v InFromOut by auto
    show ?thesis using inc_join_in_settled [OF t(2) room, of k l "OutC m u"] t v InFromOut
      by (cases b) (auto simp: inc_updateDFInFromOut_def)
  next
    case (OutFromIn l k)
    have k: "allowed k" using v OutFromIn by simp
    obtain s' where s': "inc_call B M x s = Some (k \<in> Ins s l \<and> \<not> View s (InC l k) \<subseteq> View s (OutC l k), s')" "Ok s'"
        "Ins s' = (Ins s)(l := Ins s l - {k})"
        "View s' = (if k \<in> Ins s l then (View s)(OutC l k := View s (OutC l k) \<union> View s (InC l k)) else View s)"
      using inc_out_spec [OF ok room k, of l] unfolding OutFromIn inc_call.simps by blast
    show ?thesis using s'(1,2) settled_one [OF _ s'(4,3)] by blast
  next
    case (AllInFromIn m u l k)
    then show ?thesis using inc_join_in_settled [OF ok room, of k l "InC m u"] v
      by (auto simp: inc_updateAllDFInFromIn_def)
  next
    case (AllInFromOut m u l k)
    then show ?thesis using inc_join_in_settled [OF ok room, of k l "OutC m u"] v
      by (auto simp: inc_updateAllDFInFromOut_def)
  next
    case (AllOutFromIn l k b)
    obtain s' where s': "inc_call B M x s = Some (not_joined (View s) l {v \<in> Ins s l. \<not> (b \<and> v = k)}, s')" "Ok s'"
        "View s' = out_joined (View s) l {v \<in> Ins s l. \<not> (b \<and> v = k)}"
        "Ins s' = (if b_hasIn B (i_base s) l then (Ins s)(l := {v \<in> Ins s l. b \<and> v = k}) else Ins s)"
      using inc_update_all_marked [OF ok room, of l k b] unfolding AllOutFromIn inc_call.simps by blast
    show ?thesis using s'(1,2) settled_all [OF _ s'(3,4)] by blast
  next
    case (FromLoad m u d)
    have u: "allowed u" using v FromLoad by simp
    show ?thesis using inc_load_settled [OF ok room u, of m d] unfolding FromLoad by auto
  next
    case (FromStore u l k)
    then show ?thesis using inc_join_out_settled [OF ok room, of k l "TopC u"] v
      by (auto simp: inc_updateATVPts_def)
  next
    case (ClearOutMarks l)
    then show ?thesis using inc_clear_out_spec [OF ok, of l] by auto
  qed
qed

end

section \<open>The two classes implement the contract\<close>

lemma minc_tlv_spec:
  assumes g: "globals_ready g" and inv: "mdf_inv (pt_set_ops h g) (pt_good g) pt_nodes s"
  shows "\<exists>s'. b_tlv (minc_base (pt_set_ops h g)) s d l k =
      Some (\<not> mdf_view (pt_set_ops h g) pt_nodes s (InC l k) \<subseteq> mdf_view (pt_set_ops h g) pt_nodes s (TopC d), s') \<and>
    mdf_inv (pt_set_ops h g) (pt_good g) pt_nodes s' \<and>
    mdf_view (pt_set_ops h g) pt_nodes s' = (mdf_view (pt_set_ops h g) pt_nodes s)
      (TopC d := mdf_view (pt_set_ops h g) pt_nodes s (TopC d) \<union> mdf_view (pt_set_ops h g) pt_nodes s (InC l k))"
proof -
  let ?o = "pt_set_ops h g" and ?t = "mdf_touch (pt_set_ops h g) (InC l k) s"
  have it: "mdf_inv ?o (pt_good g) pt_nodes ?t" by (rule mdf_inv_touch [OF inv])
  have good: "pt_good g (mdf_read ?o s (InC l k))" by (rule mdf_get_good [OF inv])
  obtain m where m: "mpt_unionSet ?o (df_mut ?t) d (mdf_read ?o s (InC l k)) =
        Some (\<not> pt_nodes (mdf_read ?o s (InC l k)) \<subseteq> mpt_view ?o pt_nodes (df_mut ?t) d, m)"
      "mpt_inv ?o (pt_good g) pt_nodes m" "m_rev m = m_rev (df_mut ?t)"
      "mpt_view ?o pt_nodes m = (mpt_view ?o pt_nodes (df_mut ?t))
        (d := mpt_view ?o pt_nodes (df_mut ?t) d \<union> pt_nodes (mdf_read ?o s (InC l k)))"
    using ps.mpt_unionSet_spec [of h g "df_mut ?t" "mdf_read ?o s (InC l k)" d]
      ps.mdf_member_inv(1) [of h g ?t] it good unfolding ps_good by blast
  note v = ps.mdf_view_member [OF m(4), of ?t, unfolded ps.top_upd [OF refl]]
  show ?thesis using m(1) v ps.mdf_member_inv(2) [of h g ?t m] it m(2,3)
    unfolding ps_good
    by (simp add: minc_base_def mdf_getDFInPtsSet_def ps.mdf_view_top [symmetric] del: mdf_touch.simps mdf_read.simps)
      (simp add: mdf_view_def)
qed

interpretation mi: inc_df "minc_base (pt_set_ops h g)" mdf_inKeys
  "\<lambda>s. globals_ready g \<and> mdf_inv (pt_set_ops h g) (pt_good g) pt_nodes s" "\<lambda>_ _. True" "mdf_view (pt_set_ops h g) pt_nodes"
  "set_marks (pt_set_ops h g)" "\<lambda>m. globals_ready g \<and> pt_good g m" pt_nodes "pt_node_ok g"
  for h g
proof (intro inc_df.intro inc_df_axioms.intro, goal_cases)
  case 1
  show ?case using mf.df_data_axioms [of h g] by (simp add: minc_base_def)
next
  case 2
  show ?case by (rule sm.mark_set_axioms)
next
  case (3 s n d l k)
  then show ?case using minc_tlv_spec [of g h s d l k] by simp
qed

section \<open>Runs of the mutable class\<close>

text \<open>
  \<open>MutableIncDFPTData\<close> inherits the operations on top-level variables from its base class, which leaves the marks alone.
\<close>

datatype 'k mut_call = AddTop 'k 'k | UnionTop 'k 'k | ClearTop 'k 'k | ClearFullTop 'k | Update "'k df_call"

fun minc_call :: "('d, 'k) set_ops \<Rightarrow> 'k mut_call \<Rightarrow> (('k, 'd, 'k) mdf, 'd) inc \<Rightarrow> (bool \<times> (('k, 'd, 'k) mdf, 'd) inc) option" where
  "minc_call ops (AddTop k e) s = do { (b, m) \<leftarrow> mdf_addPts ops (i_base s) k e; Some (b, s\<lparr>i_base := m\<rparr>) }"
| "minc_call ops (UnionTop k l) s = do { (b, m) \<leftarrow> mdf_unionPts ops (i_base s) k l; Some (b, s\<lparr>i_base := m\<rparr>) }"
| "minc_call ops (ClearTop k e) s = do { m \<leftarrow> mdf_clearPts ops (i_base s) k e; Some (False, s\<lparr>i_base := m\<rparr>) }"
| "minc_call ops (ClearFullTop k) s = do { m \<leftarrow> mdf_clearFullPts ops (i_base s) k; Some (False, s\<lparr>i_base := m\<rparr>) }"
| "minc_call ops (Update x) s = inc_call (minc_base ops) (set_marks ops) x s"

fun minc_run :: "('d, 'k) set_ops \<Rightarrow> 'k mut_call list \<Rightarrow> (('k, 'd, 'k) mdf, 'd) inc \<Rightarrow>
    (bool list \<times> (('k, 'd, 'k) mdf, 'd) inc) option" where
  "minc_run ops [] s = Some ([], s)"
| "minc_run ops (x # xs) s = do {
     (b, s) \<leftarrow> minc_call ops x s;
     (bs, s) \<leftarrow> minc_run ops xs s;
     Some (b # bs, s)
   }"

text \<open>The elements and address-taken variables of a call must be valid members of the sets.\<close>

fun minc_nodes :: "'k mut_call \<Rightarrow> 'k list" where
  "minc_nodes (AddTop k e) = [e]"
| "minc_nodes (ClearTop k e) = [e]"
| "minc_nodes (Update x) = call_vars x"
| "minc_nodes _ = []"

fun minc_load_at :: "LocID \<Rightarrow> 'k mut_call \<Rightarrow> bool" where
  "minc_load_at l (Update x) \<longleftrightarrow> load_at l x"
| "minc_load_at l _ \<longleftrightarrow> False"

lemma minc_top_settled:
  assumes ok: "mi.Ok g h s" and m: "mdf_inv (pt_set_ops h g) (pt_good g) pt_nodes m"
    and v: "mdf_view (pt_set_ops h g) pt_nodes m = (mdf_view (pt_set_ops h g) pt_nodes (i_base s))(TopC k := X)"
  shows "mi.Ok g h (s\<lparr>i_base := m\<rparr>) \<and> (\<forall>l. mi.Settled h g s l \<longrightarrow> mi.Settled h g (s\<lparr>i_base := m\<rparr>) l)"
  using ok m v mi.settled_top by (auto simp: inc_ok_def)

lemma minc_call_settled:
  assumes ok: "mi.Ok g h s" and v: "\<forall>k \<in> set (minc_nodes x). pt_node_ok g k"
  shows "\<exists>b t. minc_call (pt_set_ops h g) x s = Some (b, t) \<and> mi.Ok g h t \<and>
    (\<forall>l. \<not> minc_load_at l x \<longrightarrow> mi.Settled h g s l \<longrightarrow> mi.Settled h g t l)"
proof -
  have inv: "mdf_inv (pt_set_ops h g) (pt_good g) pt_nodes (i_base s)" "globals_ready g" using ok by (simp_all add: inc_ok_def)
  note top = minc_top_settled [OF ok]
  show ?thesis
  proof (cases x)
    case (AddTop k e)
    then show ?thesis using ps.mdf_addPts_spec [of h g "i_base s" e k] inv v top unfolding ps_good by fastforce
  next
    case (UnionTop k l)
    then show ?thesis using ps.mdf_unionPts_spec [of h g "i_base s" k l] inv top unfolding ps_good by fastforce
  next
    case (ClearTop k e)
    then show ?thesis using ps.mdf_clearPts_spec [of h g "i_base s" e k] inv v top unfolding ps_good by fastforce
  next
    case (ClearFullTop k)
    then show ?thesis using ps.mdf_clearFullPts_spec [of h g "i_base s" k] inv top unfolding ps_good by fastforce
  next
    case (Update y)
    then show ?thesis using mi.inc_call_settled [OF ok TrueI, of y] v by simp
  qed
qed

lemma minc_run_settled:
  assumes "mi.Ok g h s" "\<forall>x \<in> set xs. \<forall>k \<in> set (minc_nodes x). pt_node_ok g k"
  shows "\<exists>bs t. minc_run (pt_set_ops h g) xs s = Some (bs, t) \<and> mi.Ok g h t \<and>
    (\<forall>l. (\<forall>x \<in> set xs. \<not> minc_load_at l x) \<longrightarrow> mi.Settled h g s l \<longrightarrow> mi.Settled h g t l)"
  using assms
proof (induction xs arbitrary: s)
  case (Cons x xs)
  obtain b t where t: "minc_call (pt_set_ops h g) x s = Some (b, t)" "mi.Ok g h t"
      "\<forall>l. \<not> minc_load_at l x \<longrightarrow> mi.Settled h g s l \<longrightarrow> mi.Settled h g t l"
    using minc_call_settled [OF Cons.prems(1), of x] Cons.prems(2) by auto
  obtain bs u where "minc_run (pt_set_ops h g) xs t = Some (bs, u)" "mi.Ok g h u"
      "\<forall>l. (\<forall>x \<in> set xs. \<not> minc_load_at l x) \<longrightarrow> mi.Settled h g t l \<longrightarrow> mi.Settled h g u l"
    using Cons.IH [OF t(2)] Cons.prems(2) by auto
  then show ?case using t by auto
qed simp

interpretation pi: inc_df "pinc_base (pt_set_ops h g)" pdf_inKeys "pdf_pt_inv h g" pdf_room "pdf_view pt_nodes"
  key_marks distinct set "\<lambda>_. True"
  for h g
proof (intro inc_df.intro inc_df_axioms.intro, goal_cases)
  case 1
  show ?case using pf.df_data_axioms [of h g] by (simp add: pinc_base_def)
next
  case 2
  show ?case by (rule km.mark_set_axioms)
next
  case (3 s n d l k)
  then show ?case using pf.cells_law [of h g s n "TopC d" "InC l k"] by (simp add: pinc_base_def)
qed

end
