(* ===== verification/WorkLists.thy ===== *)
theory WorkLists
  imports Prelude
begin

text \<open>
  The work lists of svf/include/Util/WorkList.h. \<open>FIFOWorkList\<close> and \<open>FILOWorkList\<close>
  keep a sequence and a set of the same elements and implement the contract \<open>worklist\<close>.
  \<open>List\<close> is a singly linked list of nodes in an explicit store.
\<close>

section \<open>The contract\<close>

record ('w, 'a) wl_ops =
  wl_empty :: "'w \<Rightarrow> bool"
  wl_find :: "'w \<Rightarrow> 'a \<Rightarrow> bool"
  wl_push :: "'w \<Rightarrow> 'a \<Rightarrow> bool \<times> 'w"
  wl_pop :: "'w \<Rightarrow> ('a \<times> 'w) option"
  wl_clear :: "'w \<Rightarrow> 'w"
  wl_size :: "'w \<Rightarrow> nat option"

locale worklist =
  fixes W :: "('w, 'a) wl_ops" and fresh :: 'w and inv :: "'w \<Rightarrow> bool" and items :: "'w \<Rightarrow> 'a list"
  assumes fresh_law: "inv fresh \<and> items fresh = []"
    and distinct_law: "inv w \<Longrightarrow> distinct (items w)"
    and empty_law: "inv w \<Longrightarrow> wl_empty W w \<longleftrightarrow> items w = []"
    and find_law: "inv w \<Longrightarrow> wl_find W w d \<longleftrightarrow> d \<in> set (items w)"
    and push_law: "inv w \<Longrightarrow> \<exists>w'. wl_push W w d = (d \<notin> set (items w), w') \<and> inv w' \<and>
      set (items w') = insert d (set (items w))"
    and pop_law: "inv w \<Longrightarrow> items w \<noteq> [] \<Longrightarrow> \<exists>d w'. wl_pop W w = Some (d, w') \<and> inv w' \<and>
      d \<in> set (items w) \<and> set (items w') = set (items w) - {d}"
    and pop_empty_law: "inv w \<Longrightarrow> items w = [] \<Longrightarrow> wl_pop W w = None"
    and clear_law: "inv w \<Longrightarrow> inv (wl_clear W w) \<and> items (wl_clear W w) = []"
    and size_law: "inv w \<Longrightarrow> wl_size W w = Some (u32 (length (items w)))"
begin

text \<open>Pushing a list of elements.\<close>

definition push_all :: "'a list \<Rightarrow> 'w \<Rightarrow> 'w" where
  "push_all ds w = fold (\<lambda>d w. snd (wl_push W w d)) ds w"

lemma push_all_spec:
  "inv w \<Longrightarrow> inv (push_all ds w) \<and> set (items (push_all ds w)) = set ds \<union> set (items w)"
proof (induction ds arbitrary: w)
  case (Cons d ds)
  obtain w' where "wl_push W w d = (d \<notin> set (items w), w')" "inv w'" "set (items w') = insert d (set (items w))"
    using push_law [OF Cons.prems] by blast
  then show ?case using Cons.IH [of w'] by (simp add: push_all_def)
qed (simp add: push_all_def)

lemma length_items: "inv w \<Longrightarrow> length (items w) = card (set (items w))"
  using distinct_law distinct_card by metis

end

section \<open>FIFO\<close>

record 'a fifo =
  data_set :: "'a set"
  data_list :: "'a list"

definition fifo_new :: "'a fifo" where "fifo_new = \<lparr>data_set = {}, data_list = []\<rparr>"

definition fifo_empty :: "'a fifo \<Rightarrow> bool" where "fifo_empty w \<longleftrightarrow> data_list w = []"

text \<open>\<open>None\<close> is a failed assertion.\<close>

definition fifo_size :: "'a fifo \<Rightarrow> nat option" where
  "fifo_size w = (if length (data_list w) = card (data_set w) then Some (u32 (length (data_list w))) else None)"

definition fifo_find :: "'a fifo \<Rightarrow> 'a \<Rightarrow> bool" where "fifo_find w d \<longleftrightarrow> d \<in> data_set w"

definition fifo_push :: "'a fifo \<Rightarrow> 'a \<Rightarrow> bool \<times> 'a fifo" where
  "fifo_push w d =
     (if \<not> fifo_find w d
      then (True, w\<lparr>data_list := data_list w @ [d], data_set := insert d (data_set w)\<rparr>)
      else (False, w))"

definition fifo_front :: "'a fifo \<Rightarrow> 'a option" where
  "fifo_front w = (if fifo_empty w then None else Some (hd (data_list w)))"

definition fifo_removeFront :: "'a fifo \<Rightarrow> 'a fifo option" where
  "fifo_removeFront w = do {
     d \<leftarrow> fifo_front w;
     Some (w\<lparr>data_set := data_set w - {d}, data_list := tl (data_list w)\<rparr>)
   }"

definition fifo_pop :: "'a fifo \<Rightarrow> ('a \<times> 'a fifo) option" where
  "fifo_pop w =
     (if fifo_empty w then None
      else let d = hd (data_list w) in
        Some (d, w\<lparr>data_list := tl (data_list w), data_set := data_set w - {d}\<rparr>))"

definition fifo_clear :: "'a fifo \<Rightarrow> 'a fifo" where
  "fifo_clear w = w\<lparr>data_list := [], data_set := {}\<rparr>"

text \<open>The two containers hold the same elements, each once.\<close>

definition fifo_inv :: "'a fifo \<Rightarrow> bool" where
  "fifo_inv w \<longleftrightarrow> data_set w = set (data_list w) \<and> distinct (data_list w)"

definition fifo_ops :: "('a fifo, 'a) wl_ops" where
  "fifo_ops = \<lparr>wl_empty = fifo_empty, wl_find = fifo_find, wl_push = fifo_push, wl_pop = fifo_pop,
     wl_clear = fifo_clear, wl_size = fifo_size\<rparr>"

lemmas fifo_defs = fifo_empty_def fifo_find_def fifo_push_def fifo_pop_def fifo_clear_def fifo_size_def
  fifo_inv_def fifo_front_def fifo_removeFront_def fifo_new_def

text \<open>First in, first out.\<close>

lemma fifo_push_order:
  "fifo_inv w \<Longrightarrow> data_list (snd (fifo_push w d)) = (if d \<in> set (data_list w) then data_list w else data_list w @ [d])"
  by (simp add: fifo_defs)

lemma fifo_pop_order:
  "fifo_inv w \<Longrightarrow> fifo_pop w = (case data_list w of [] \<Rightarrow> None
     | d # ds \<Rightarrow> Some (d, \<lparr>data_set = set ds, data_list = ds\<rparr>))"
  by (cases w) (auto simp: fifo_defs split: list.splits)

lemma fifo_removeFront_pop: "fifo_removeFront w = map_option snd (fifo_pop w)"
  by (simp add: fifo_defs Let_def)

interpretation fi: worklist fifo_ops fifo_new fifo_inv data_list
proof (unfold_locales, goal_cases)
  case (6 w)
  then show ?case by (cases "data_list w") (auto simp: fifo_ops_def fifo_defs)
qed (auto simp: fifo_ops_def fifo_defs distinct_card)

section \<open>FILO\<close>

record 'a filo =
  filo_set :: "'a set"
  filo_list :: "'a list"

definition filo_new :: "'a filo" where "filo_new = \<lparr>filo_set = {}, filo_list = []\<rparr>"

definition filo_empty :: "'a filo \<Rightarrow> bool" where "filo_empty w \<longleftrightarrow> filo_list w = []"

definition filo_size :: "'a filo \<Rightarrow> nat option" where
  "filo_size w = (if length (filo_list w) = card (filo_set w) then Some (u32 (length (filo_list w))) else None)"

definition filo_find :: "'a filo \<Rightarrow> 'a \<Rightarrow> bool" where "filo_find w d \<longleftrightarrow> d \<in> filo_set w"

definition filo_push :: "'a filo \<Rightarrow> 'a \<Rightarrow> bool \<times> 'a filo" where
  "filo_push w d =
     (if \<not> filo_find w d
      then (True, w\<lparr>filo_list := filo_list w @ [d], filo_set := insert d (filo_set w)\<rparr>)
      else (False, w))"

definition filo_back :: "'a filo \<Rightarrow> 'a option" where
  "filo_back w = (if filo_empty w then None else Some (last (filo_list w)))"

definition filo_removeBack :: "'a filo \<Rightarrow> 'a filo option" where
  "filo_removeBack w = do {
     d \<leftarrow> filo_back w;
     Some (w\<lparr>filo_set := filo_set w - {d}, filo_list := butlast (filo_list w)\<rparr>)
   }"

definition filo_pop :: "'a filo \<Rightarrow> ('a \<times> 'a filo) option" where
  "filo_pop w =
     (if filo_empty w then None
      else let d = last (filo_list w) in
        Some (d, w\<lparr>filo_list := butlast (filo_list w), filo_set := filo_set w - {d}\<rparr>))"

definition filo_clear :: "'a filo \<Rightarrow> 'a filo" where
  "filo_clear w = w\<lparr>filo_list := [], filo_set := {}\<rparr>"

definition filo_inv :: "'a filo \<Rightarrow> bool" where
  "filo_inv w \<longleftrightarrow> filo_set w = set (filo_list w) \<and> distinct (filo_list w)"

definition filo_ops :: "('a filo, 'a) wl_ops" where
  "filo_ops = \<lparr>wl_empty = filo_empty, wl_find = filo_find, wl_push = filo_push, wl_pop = filo_pop,
     wl_clear = filo_clear, wl_size = filo_size\<rparr>"

lemmas filo_defs = filo_empty_def filo_find_def filo_push_def filo_pop_def filo_clear_def filo_size_def
  filo_inv_def filo_back_def filo_removeBack_def filo_new_def

text \<open>Last in, first out: a pop undoes the push before it.\<close>

lemma filo_pop_push:
  assumes "filo_inv w" "d \<notin> set (filo_list w)"
  shows "filo_pop (snd (filo_push w d)) = Some (d, w)"
  using assms by (cases w) (auto simp: filo_defs Let_def)

lemma filo_removeBack_pop: "filo_removeBack w = map_option snd (filo_pop w)"
  by (simp add: filo_defs Let_def)

lemma set_butlast: "distinct xs \<Longrightarrow> xs \<noteq> [] \<Longrightarrow> set (butlast xs) = set xs - {last xs}"
  by (induction xs rule: rev_induct) auto

interpretation fl: worklist filo_ops filo_new filo_inv filo_list
proof (unfold_locales, goal_cases)
  case (6 w)
  then show ?case using set_butlast [of "filo_list w"]
    by (auto simp: filo_ops_def filo_defs Let_def distinct_butlast)
qed (auto simp: filo_ops_def filo_defs distinct_card)

section \<open>Order\<close>

text \<open>Popping everything, and pushing a list.\<close>

fun drain :: "('w, 'a) wl_ops \<Rightarrow> nat \<Rightarrow> 'w \<Rightarrow> 'a list option" where
  "drain W 0 w = (if wl_empty W w then Some [] else None)"
| "drain W (Suc n) w =
     (if wl_empty W w then Some [] else do { (d, w) \<leftarrow> wl_pop W w; ds \<leftarrow> drain W n w; Some (d # ds) })"

definition push_list :: "('w, 'a) wl_ops \<Rightarrow> 'a list \<Rightarrow> 'w \<Rightarrow> 'w" where
  "push_list W ds w = fold (\<lambda>d w. snd (wl_push W w d)) ds w"

text \<open>The first occurrences of the elements of a list.\<close>

fun firsts :: "'a set \<Rightarrow> 'a list \<Rightarrow> 'a list" where
  "firsts A [] = []"
| "firsts A (d # ds) = (if d \<in> A then firsts A ds else d # firsts (insert d A) ds)"

lemma fifo_drain: "fifo_inv w \<Longrightarrow> length (data_list w) \<le> n \<Longrightarrow> drain fifo_ops n w = Some (data_list w)"
proof (induction n arbitrary: w)
  case (Suc n)
  then show ?case using fifo_pop_order [OF Suc.prems(1)] Suc.IH [of "\<lparr>data_set = set (tl (data_list w)), data_list = tl (data_list w)\<rparr>"]
    by (cases "data_list w") (auto simp: fifo_ops_def fifo_empty_def fifo_inv_def)
qed (simp add: fifo_ops_def fifo_empty_def)

lemma fifo_push_list:
  "fifo_inv w \<Longrightarrow> fifo_inv (push_list fifo_ops ds w) \<and>
   data_list (push_list fifo_ops ds w) = data_list w @ firsts (set (data_list w)) ds"
proof (induction ds arbitrary: w)
  case (Cons d ds)
  have i: "fifo_inv (snd (fifo_push w d))" using Cons.prems by (auto simp: fifo_defs)
  show ?case using Cons.IH [OF i] fifo_push_order [OF Cons.prems, of d] by (simp add: push_list_def fifo_ops_def)
qed (simp add: push_list_def)

lemma filo_drain: "filo_inv w \<Longrightarrow> length (filo_list w) \<le> n \<Longrightarrow> drain filo_ops n w = Some (rev (filo_list w))"
proof (induction n arbitrary: w)
  case (Suc n)
  show ?case
  proof (cases "filo_list w" rule: rev_cases)
    case (snoc ds d)
    then have i: "filo_inv \<lparr>filo_set = filo_set w - {d}, filo_list = ds\<rparr>" "length ds \<le> n"
      using Suc.prems by (auto simp: filo_inv_def)
    have p: "filo_pop w = Some (d, \<lparr>filo_set = filo_set w - {d}, filo_list = ds\<rparr>)"
      using snoc by (cases w) (simp add: filo_defs Let_def)
    show ?thesis using Suc.IH [OF i(1)] i(2) p snoc by (simp add: filo_ops_def filo_empty_def)
  qed (simp add: filo_ops_def filo_empty_def)
qed (simp add: filo_ops_def filo_empty_def)

lemma filo_push_list:
  "filo_inv w \<Longrightarrow> filo_inv (push_list filo_ops ds w) \<and>
   filo_list (push_list filo_ops ds w) = filo_list w @ firsts (set (filo_list w)) ds"
proof (induction ds arbitrary: w)
  case (Cons d ds)
  have i: "filo_inv (snd (filo_push w d))" using Cons.prems by (auto simp: filo_defs)
  have "filo_list (snd (filo_push w d)) = (if d \<in> set (filo_list w) then filo_list w else filo_list w @ [d])"
    using Cons.prems by (simp add: filo_defs)
  then show ?case using Cons.IH [OF i] by (simp add: push_list_def filo_ops_def)
qed (simp add: push_list_def)

lemma firsts_bound: "length (firsts A ds) \<le> length ds"
  by (induction ds arbitrary: A) (auto simp: le_SucI)

section \<open>The linked list\<close>

text \<open>Nodes live in a store of addresses; a new node gets an address that was never used.\<close>

record 'a list_node =
  node_data :: 'a
  link :: "nat option"

record 'a llist =
  nodeSet :: "'a set"
  head :: "nat option"
  tail :: "nat option"
  store :: "nat \<rightharpoonup> 'a list_node"
  next_address :: nat

definition llist_new :: "'a llist" where
  "llist_new = \<lparr>nodeSet = {}, head = None, tail = None, store = Map.empty, next_address = 0\<rparr>"

definition llist_empty :: "'a llist \<Rightarrow> bool" where "llist_empty w \<longleftrightarrow> head w = None"

definition llist_find :: "'a llist \<Rightarrow> 'a \<Rightarrow> bool" where "llist_find w d \<longleftrightarrow> d \<in> nodeSet w"

text \<open>\<open>tail->next = new_node\<close>; \<open>None\<close> is a dereference of no node.\<close>

definition set_link :: "nat option \<Rightarrow> nat \<Rightarrow> (nat \<rightharpoonup> 'a list_node) \<Rightarrow> (nat \<rightharpoonup> 'a list_node) option" where
  "set_link p a st = do { q \<leftarrow> p; n \<leftarrow> st q; Some (st(q \<mapsto> n\<lparr>link := Some a\<rparr>)) }"

definition llist_push :: "'a llist \<Rightarrow> 'a \<Rightarrow> 'a llist option" where
  "llist_push w d =
     (if d \<notin> nodeSet w then do {
        let a = next_address w;
        let st = (store w)(a \<mapsto> \<lparr>node_data = d, link = None\<rparr>);
        let w = w\<lparr>next_address := a + 1\<rparr>;
        if head w = None then Some (w\<lparr>store := st, head := Some a, tail := Some a\<rparr>)
        else do { st \<leftarrow> set_link (tail w) a st; Some (w\<lparr>store := st, tail := Some a\<rparr>) }
      } else Some w)"

definition llist_pop :: "'a llist \<Rightarrow> ('a \<times> 'a llist) option" where
  "llist_pop w = do {
     head_node \<leftarrow> head w;
     n \<leftarrow> store w head_node;
     let w = w\<lparr>head := link n\<rparr>;
     let w = (if head w = None then w\<lparr>tail := None\<rparr> else w);
     let d = node_data n;
     Some (d, w\<lparr>nodeSet := nodeSet w - {d}, store := (store w)(head_node := None)\<rparr>)
   }"

text \<open>The nodes from one address up to another, and the list they hold.\<close>

fun chain :: "(nat \<rightharpoonup> 'a list_node) \<Rightarrow> nat option \<Rightarrow> (nat \<times> 'a) list \<Rightarrow> bool" where
  "chain st p [] \<longleftrightarrow> p = None"
| "chain st p ((a, d) # ns) \<longleftrightarrow> p = Some a \<and> (\<exists>q. st a = Some \<lparr>node_data = d, link = q\<rparr> \<and> chain st q ns)"

definition holds :: "'a llist \<Rightarrow> (nat \<times> 'a) list \<Rightarrow> bool" where
  "holds w ns \<longleftrightarrow> chain (store w) (head w) ns \<and> distinct (map fst ns) \<and> dom (store w) = fst ` set ns \<and>
     (\<forall>a \<in> fst ` set ns. a < next_address w) \<and>
     tail w = (if ns = [] then None else Some (fst (last ns))) \<and> nodeSet w = {}"

lemma chain_other: "a \<notin> fst ` set ns \<Longrightarrow> chain (st(a := x)) p ns \<longleftrightarrow> chain st p ns"
  by (induction st p ns rule: chain.induct) auto

lemma chain_append:
  assumes "chain st p (ns @ [(a, d)])" "distinct (map fst (ns @ [(a, d)]))" "b \<notin> fst ` set (ns @ [(a, d)])"
  shows "chain (st(b \<mapsto> \<lparr>node_data = e, link = None\<rparr>, a \<mapsto> \<lparr>node_data = d, link = Some b\<rparr>)) p (ns @ [(a, d), (b, e)])"
  using assms
proof (induction ns arbitrary: p)
  case (Cons n ns)
  obtain c f where n: "n = (c, f)" by fastforce
  have "c \<noteq> a" "c \<noteq> b" using Cons.prems(2,3) by (auto simp: n)
  then show ?case using Cons by (auto simp: n)
qed auto

lemma chain_node:
  "chain st p (ns @ [(a, d)]) \<Longrightarrow> \<exists>q. st a = Some \<lparr>node_data = d, link = q\<rparr>"
  by (induction ns arbitrary: p) auto

lemma holds_new: "holds llist_new []"
  by (simp add: holds_def llist_new_def)

lemma holds_empty: "holds w ns \<Longrightarrow> llist_empty w \<longleftrightarrow> ns = []"
  by (cases ns) (auto simp: holds_def llist_empty_def)

text \<open>
  \<open>push\<close> never enters an element into the set, so it always appends and \<open>find\<close> never
  finds anything.
\<close>

lemma llist_push_spec:
  assumes "holds w ns"
  shows "\<exists>w' a. llist_push w d = Some w' \<and> holds w' (ns @ [(a, d)])"
proof (cases ns rule: rev_cases)
  case Nil
  then show ?thesis using assms by (auto simp: holds_def llist_push_def Let_def)
next
  case (snoc ms m)
  obtain t e where m: "m = (t, e)" by fastforce
  let ?a = "next_address w"
  note ns = snoc [unfolded m]
  have fresh: "?a \<notin> fst ` set ns" using assms by (auto simp: holds_def)
  have c: "chain (store w) (head w) (ms @ [(t, e)])" "distinct (map fst (ms @ [(t, e)]))"
    using assms by (simp_all add: holds_def ns)
  have f: "?a \<notin> fst ` set (ms @ [(t, e)])" using fresh ns by simp
  obtain q where q: "store w t = Some \<lparr>node_data = e, link = q\<rparr>" using chain_node [OF c(1)] by blast
  have ta: "t \<noteq> ?a" using fresh by (auto simp: ns)
  obtain b where hd: "head w = Some b" using holds_empty [OF assms] ns by (auto simp: llist_empty_def)
  let ?st = "(store w)(?a \<mapsto> \<lparr>node_data = d, link = None\<rparr>, t \<mapsto> \<lparr>node_data = e, link = Some ?a\<rparr>)"
  let ?w = "w\<lparr>next_address := ?a + 1, store := ?st, tail := Some ?a\<rparr>"
  have "llist_push w d = Some ?w"
    using assms hd q ta by (simp add: holds_def llist_push_def Let_def set_link_def ns)
  moreover have "holds ?w (ns @ [(?a, d)])"
    using assms fresh chain_append [OF c f, of d] by (auto simp: holds_def ns intro: less_SucI)
  ultimately show ?thesis by blast
qed

lemma llist_pop_spec:
  assumes "holds w ((a, d) # ns)"
  shows "\<exists>w'. llist_pop w = Some (d, w') \<and> holds w' ns"
proof -
  obtain q where q: "head w = Some a" "store w a = Some \<lparr>node_data = d, link = q\<rparr>" "chain (store w) q ns"
    using assms by (auto simp: holds_def)
  have n: "a \<notin> fst ` set ns" using assms by (auto simp: holds_def)
  have e: "q = None \<longleftrightarrow> ns = []" using q(3) by (cases ns) auto
  show ?thesis using assms q n e chain_other [OF n, of "store w" None]
    by (auto simp: holds_def llist_pop_def Let_def)
qed

lemma llist_pop_empty: "holds w [] \<Longrightarrow> llist_pop w = None"
  by (simp add: holds_def llist_pop_def)

lemma llist_find_never: "holds w ns \<Longrightarrow> \<not> llist_find w d"
  by (simp add: holds_def llist_find_def)

text \<open>Pushing a list of elements and popping all: a queue that keeps duplicates.\<close>

fun llist_push_all :: "'a list \<Rightarrow> 'a llist \<Rightarrow> 'a llist option" where
  "llist_push_all [] w = Some w"
| "llist_push_all (d # ds) w = do { w \<leftarrow> llist_push w d; llist_push_all ds w }"

fun llist_pop_all :: "nat \<Rightarrow> 'a llist \<Rightarrow> 'a list option" where
  "llist_pop_all 0 w = (if llist_empty w then Some [] else None)"
| "llist_pop_all (Suc n) w =
     (if llist_empty w then Some [] else do { (d, w) \<leftarrow> llist_pop w; ds \<leftarrow> llist_pop_all n w; Some (d # ds) })"

lemma llist_push_all_spec:
  "holds w ns \<Longrightarrow> \<exists>w' ms. llist_push_all ds w = Some w' \<and> holds w' ms \<and> map snd ms = map snd ns @ ds"
proof (induction ds arbitrary: w ns)
  case (Cons d ds)
  obtain w1 a where w1: "llist_push w d = Some w1" "holds w1 (ns @ [(a, d)])"
    using llist_push_spec [OF Cons.prems] by blast
  show ?case using Cons.IH [OF w1(2)] w1(1) by simp
qed auto

lemma llist_pop_all_spec:
  "holds w ns \<Longrightarrow> length ns \<le> n \<Longrightarrow> llist_pop_all n w = Some (map snd ns)"
proof (induction n arbitrary: w ns)
  case 0
  then show ?case using holds_empty [of w] by simp
next
  case (Suc n)
  show ?case
  proof (cases ns)
    case Nil
    then show ?thesis using holds_empty [OF Suc.prems(1)] by simp
  next
    case (Cons m ms)
    obtain a d where m: "m = (a, d)" by fastforce
    obtain w' where w': "llist_pop w = Some (d, w')" "holds w' ms"
      using llist_pop_spec [of w a d ms] Suc.prems(1) Cons m by auto
    show ?thesis using w'(1) Suc.IH [OF w'(2)] Suc.prems holds_empty [OF Suc.prems(1)] by (simp add: Cons m)
  qed
qed

end
