(* ===== verification/GraphReach.thy ===== *)
theory GraphReach
  imports WorkLists "HOL-Library.Multiset"
begin

text \<open>
  \<open>GraphReachSolver\<close> (svf/include/Util/GraphReachSolver.h) with the base item \<open>DPItem\<close>:
  forward and backward traversal of a graph by a work list. The base class does not remember visited
  items, so a traversal ends iff no cycle is reachable; the loop is a partial function.
\<close>

section \<open>Items and graphs\<close>

record dpitem = cur :: NodeID

definition dp_less :: "dpitem \<Rightarrow> dpitem \<Rightarrow> bool" where "dp_less a b \<longleftrightarrow> cur a < cur b"

definition dp_eq :: "dpitem \<Rightarrow> dpitem \<Rightarrow> bool" where "dp_eq a b \<longleftrightarrow> cur a = cur b"

definition setCurNodeID :: "NodeID \<Rightarrow> dpitem \<Rightarrow> dpitem" where "setCurNodeID c it = it\<lparr>cur := c\<rparr>"

lemma dp_eq_iff: "dp_eq a b \<longleftrightarrow> a = b"
  by (cases a; cases b) (simp add: dp_eq_def)

text \<open>The edges of a node: for every edge its other end.\<close>

record reach_graph =
  out_nodes :: "NodeID \<Rightarrow> NodeID list"
  in_nodes :: "NodeID \<Rightarrow> NodeID list"

section \<open>Traversal\<close>

text \<open>The loop, with the new items of an item; it returns the items in the order they are processed.\<close>

partial_function (option) traverse ::
    "('w, 'i) wl_ops \<Rightarrow> ('i \<Rightarrow> 'i list) \<Rightarrow> 'w \<Rightarrow> 'i list option" where
  "traverse W new_items w =
     (if wl_empty W w then Some []
      else do {
        (it, w) \<leftarrow> wl_pop W w;
        its \<leftarrow> traverse W new_items (fold (\<lambda>n w. snd (wl_push W w n)) (new_items it) w);
        Some (it # its)
      })"

definition FWProcessOutgoingEdges :: "reach_graph \<Rightarrow> dpitem \<Rightarrow> dpitem list" where
  "FWProcessOutgoingEdges G it = map (\<lambda>n. setCurNodeID n it) (out_nodes G (cur it))"

definition BWProcessIncomingEdges :: "reach_graph \<Rightarrow> dpitem \<Rightarrow> dpitem list" where
  "BWProcessIncomingEdges G it = map (\<lambda>n. setCurNodeID n it) (in_nodes G (cur it))"

definition forwardTraverse :: "reach_graph \<Rightarrow> dpitem \<Rightarrow> dpitem list option" where
  "forwardTraverse G it = traverse fifo_ops (FWProcessOutgoingEdges G) (snd (fifo_push fifo_new it))"

definition backwardTraverse :: "reach_graph \<Rightarrow> dpitem \<Rightarrow> dpitem list option" where
  "backwardTraverse G it = traverse fifo_ops (BWProcessIncomingEdges G) (snd (fifo_push fifo_new it))"

section \<open>What it computes\<close>

definition step_rel :: "('i \<Rightarrow> 'i list) \<Rightarrow> ('i \<times> 'i) set" where
  "step_rel f = {(x, y). y \<in> set (f x)}"

definition reached :: "('i \<Rightarrow> 'i list) \<Rightarrow> 'i set \<Rightarrow> 'i set" where
  "reached f S = {y. \<exists>x \<in> S. (x, y) \<in> (step_rel f)\<^sup>*}"

lemma reached_step: "d \<in> S \<Longrightarrow> reached f S = insert d (reached f (set (f d) \<union> (S - {d})))"
proof -
  assume d: "d \<in> S"
  have "y \<in> insert d (reached f (set (f d) \<union> (S - {d})))" if "x \<in> S" "(x, y) \<in> (step_rel f)\<^sup>*" for x y
  proof (cases "x = d")
    case True
    show ?thesis
    proof (rule converse_rtranclE [OF that(2)])
      assume "x = y"
      then show ?thesis using True by simp
    next
      fix z assume z: "(x, z) \<in> step_rel f" "(z, y) \<in> (step_rel f)\<^sup>*"
      then have "z \<in> set (f d)" using True by (simp add: step_rel_def)
      then show ?thesis using z(2) by (auto simp: reached_def)
    qed
  qed (use that in \<open>auto simp: reached_def\<close>)
  moreover have "y \<in> reached f S" if "x \<in> set (f d) \<union> (S - {d})" "(x, y) \<in> (step_rel f)\<^sup>*" for x y
  proof (cases "x \<in> S")
    case False
    then have "(d, x) \<in> step_rel f" using that(1) by (simp add: step_rel_def)
    then show ?thesis using d that(2) converse_rtrancl_into_rtrancl by (fastforce simp: reached_def)
  qed (use that in \<open>auto simp: reached_def\<close>)
  moreover have "d \<in> reached f S" using d by (auto simp: reached_def)
  ultimately show ?thesis unfolding reached_def by blast
qed

lemma reached_mono: "reached f (reached f S) = reached f S"
  unfolding reached_def by (blast intro: rtrancl_trans)

text \<open>Everything an item leads to is processed after it.\<close>

fun followed :: "('i \<Rightarrow> 'i list) \<Rightarrow> 'i list \<Rightarrow> bool" where
  "followed f [] \<longleftrightarrow> True"
| "followed f (x # xs) \<longleftrightarrow> set (f x) \<subseteq> set xs \<and> followed f xs"

lemma followed_closed:
  assumes "followed f xs" "x \<in> set xs" "(x, y) \<in> (step_rel f)\<^sup>*"
  shows "y \<in> set xs"
proof -
  have step: "set (f x) \<subseteq> set xs" if "followed f xs" "x \<in> set xs" for x xs
    using that by (induction xs) auto
  show ?thesis using assms(3,2) by (induction rule: rtrancl_induct) (use assms(1) step in \<open>auto simp: step_rel_def\<close>)
qed

lemma followed_later:
  assumes "followed f xs" "x \<in> set xs" "(x, y) \<in> (step_rel f)\<^sup>+"
  shows "\<exists>ys. length ys < length xs \<and> followed f ys \<and> y \<in> set ys"
  using assms(1,2)
proof (induction xs)
  case (Cons a xs)
  show ?case
  proof (cases "x \<in> set xs")
    case True
    then obtain ys where "length ys < length xs" "followed f ys" "y \<in> set ys" using Cons by auto
    then show ?thesis by (intro exI [of _ ys]) simp
  next
    case False
    obtain z where z: "(x, z) \<in> step_rel f" "(z, y) \<in> (step_rel f)\<^sup>*" using assms(3) by (meson tranclD)
    then have "z \<in> set xs" using Cons.prems False by (auto simp: step_rel_def)
    then show ?thesis using followed_closed [OF _ _ z(2), of xs] Cons.prems(1) by force
  qed
qed simp

lemma followed_acyclic:
  assumes "(x, x) \<in> (step_rel f)\<^sup>+"
  shows "followed f xs \<Longrightarrow> x \<notin> set xs"
proof (induction "length xs" arbitrary: xs rule: less_induct)
  case less
  then show ?case using followed_later [OF less.prems _ assms] by blast
qed

context worklist begin

lemma traverse_step:
  assumes "inv w" "items w \<noteq> []"
  shows "\<exists>d w'. traverse W f w = map_option (Cons d) (traverse W f w') \<and> inv w' \<and> d \<in> set (items w) \<and>
    set (items w') = set (f d) \<union> (set (items w) - {d})"
proof -
  obtain d v where v: "wl_pop W w = Some (d, v)" "inv v" "d \<in> set (items w)" "set (items v) = set (items w) - {d}"
    using pop_law [OF assms] by blast
  have "\<not> wl_empty W w" using empty_law [OF assms(1)] assms(2) by simp
  then have "traverse W f w = map_option (Cons d) (traverse W f (push_all (f d) v))"
    using v(1) by (subst traverse.simps) (simp add: push_all_def map_conv_bind_option comp_def)
  then show ?thesis using push_all_spec [OF v(2), of "f d"] v(3,4) by auto
qed

lemma traverse_done: "inv w \<Longrightarrow> items w = [] \<Longrightarrow> traverse W f w = Some []"
  by (subst traverse.simps) (simp add: empty_law)

text \<open>If it returns, it has processed exactly what is reachable, successors after predecessors.\<close>

lemma traverse_sound:
  "traverse W f w = Some its \<Longrightarrow> inv w \<Longrightarrow> set its = reached f (set (items w)) \<and> followed f its"
proof (induction its arbitrary: w)
  case Nil
  have "items w = []"
  proof (rule ccontr)
    assume "items w \<noteq> []"
    from traverse_step [OF Nil.prems(2) this, of f]
    obtain d w' where "traverse W f w = map_option (Cons d) (traverse W f w')" by blast
    then show False using Nil.prems(1) by (cases "traverse W f w'") simp_all
  qed
  then show ?case by (simp add: reached_def)
next
  case (Cons x its)
  have "items w \<noteq> []" using traverse_done [OF Cons.prems(2), of f] Cons.prems(1) by auto
  from traverse_step [OF Cons.prems(2) this, of f]
  obtain d w' where s: "traverse W f w = map_option (Cons d) (traverse W f w')" "inv w'" "d \<in> set (items w)"
      "set (items w') = set (f d) \<union> (set (items w) - {d})" by blast
  have x: "x = d" "traverse W f w' = Some its" using s(1) Cons.prems(1) by (cases "traverse W f w'"; simp)+
  note i = Cons.IH [OF x(2) s(2)]
  have "set (f d) \<subseteq> set its" using i s(4) by (auto simp: reached_def)
  then show ?case using i x(1) reached_step [OF s(3), of f] s(4) by simp
qed

text \<open>It returns iff no reachable item is on a cycle.\<close>

lemma traverse_cycle:
  assumes "inv w" "x \<in> reached f (set (items w))" "(x, x) \<in> (step_rel f)\<^sup>+"
  shows "traverse W f w = None"
proof (rule ccontr)
  assume "traverse W f w \<noteq> None"
  then obtain its where "traverse W f w = Some its" by blast
  from traverse_sound [OF this assms(1)] show False using followed_acyclic [OF assms(3)] assms(2) by blast
qed

lemma traverse_terminates:
  assumes wf: "wf {(y, x). x \<in> R \<and> y \<in> set (f x)}" and R: "\<And>x. x \<in> R \<Longrightarrow> set (f x) \<subseteq> R"
  shows "inv w \<Longrightarrow> set (items w) \<subseteq> R \<Longrightarrow> traverse W f w \<noteq> None"
proof (induction "mset_set (set (items w))" arbitrary: w rule: wf_induct_rule [OF wf_mult [OF wf]])
  case (1 w)
  show ?case
  proof (cases "items w = []")
    case True
    then show ?thesis using traverse_done [OF 1(2)] by simp
  next
    case False
    from traverse_step [OF 1(2) this, of f]
    obtain d w' where s: "traverse W f w = map_option (Cons d) (traverse W f w')" "inv w'" "d \<in> set (items w)"
        "set (items w') = set (f d) \<union> (set (items w) - {d})" by blast
    let ?I = "set (items w) - {d}" and ?K = "set (f d) - (set (items w) - {d})"
    have d: "d \<in> R" using s(3) 1(3) by blast
    have "(mset_set ?I + mset_set ?K, mset_set ?I + {#d#}) \<in> mult {(y, x). x \<in> R \<and> y \<in> set (f x)}"
      by (rule one_step_implies_mult) (use d in auto)
    moreover have "mset_set ?I + mset_set ?K = mset_set (set (items w'))"
      using mset_set_Union [of ?I ?K] s(4) by (simp add: Un_commute)
    moreover have "mset_set ?I + {#d#} = mset_set (set (items w))"
      using mset_set.remove [of "set (items w)" d] s(3) by simp
    ultimately have "(mset_set (set (items w')), mset_set (set (items w))) \<in> mult {(y, x). x \<in> R \<and> y \<in> set (f x)}"
      by simp
    moreover have "set (items w') \<subseteq> R" using s(4) 1(3) R [OF d] by blast
    ultimately show ?thesis using 1(1) s(1,2) by simp
  qed
qed

lemma traverse_total:
  assumes inv: "inv w" and fin: "finite (reached f (set (items w)))"
  shows "traverse W f w \<noteq> None \<longleftrightarrow> \<not> (\<exists>x \<in> reached f (set (items w)). (x, x) \<in> (step_rel f)\<^sup>+)"
proof
  let ?R = "reached f (set (items w))"
  let ?r = "{(y, x). x \<in> ?R \<and> y \<in> set (f x)}"
  assume a: "\<not> (\<exists>x \<in> ?R. (x, x) \<in> (step_rel f)\<^sup>+)"
  have closed: "set (f x) \<subseteq> ?R" if "x \<in> ?R" for x
    using that by (auto simp: reached_def step_rel_def intro: rtrancl_into_rtrancl)
  have "?r \<subseteq> (\<lambda>(x, y). (y, x)) ` (SIGMA x:?R. set (f x))" by auto
  then have "finite ?r" by (rule finite_subset) (use fin in auto)
  moreover have "acyclic ?r"
  proof (rule acyclicI, intro allI notI)
    fix x assume x: "(x, x) \<in> ?r\<^sup>+"
    then have "x \<in> ?R" by (cases rule: tranclE) auto
    moreover have "(x, x) \<in> ((step_rel f)\<inverse>)\<^sup>+" by (rule trancl_mono [OF x]) (auto simp: step_rel_def)
    ultimately show False using a by (simp add: trancl_converse)
  qed
  ultimately have "wf ?r" by (rule finite_acyclic_wf)
  then show "traverse W f w \<noteq> None" by (rule traverse_terminates [OF _ closed inv]) (auto simp: reached_def)
qed (use traverse_cycle [OF inv] in auto)

end

lemma start_item: "fifo_inv (snd (fifo_push fifo_new it))" "data_list (snd (fifo_push fifo_new it)) = [it]"
  by (simp_all add: fifo_defs)

end
