(* ===== verification/StructSamples.thy ===== *)
theory StructSamples
  imports Samples VersionedPT DiffPT IncDataFlowPT WorkLists GraphReach
begin

text \<open>
  The points-to data structures as their constructors leave them satisfy their invariants and stand for
  the empty map; and the concrete operations on which the properties are instantiated.
\<close>

section \<open>Fresh structures\<close>

lemma fresh_mpt:
  assumes "globals_ready g"
  shows "mpt_inv (pt_set_ops h g) (pt_good g) pt_nodes (mpt_new r)"
    "mpt_view (pt_set_ops h g) pt_nodes (mpt_new r) = (\<lambda>_. {})" "m_rev (mpt_new r) = r"
  using ps.mpt_new_spec [OF assms, of h r] by (simp_all add: ps_good mpt_new_def)

lemma fresh_mvpt:
  assumes "globals_ready g"
  shows "mvpt_inv (pt_set_ops h g) (pt_good g) pt_nodes (mvpt_new r)"
    "mvpt_view (pt_set_ops h g) pt_nodes (mvpt_new r) = (\<lambda>_. {})"
proof -
  show "mvpt_inv (pt_set_ops h g) (pt_good g) pt_nodes (mvpt_new r)"
    by (simp add: mvpt_inv_def mvpt_new_def fresh_mpt [OF assms])
  show "mvpt_view (pt_set_ops h g) pt_nodes (mvpt_new r) = (\<lambda>_. {})"
  proof
    fix x show "mvpt_view (pt_set_ops h g) pt_nodes (mvpt_new r) x = {}"
      by (cases x) (simp_all add: mvpt_new_def fresh_mpt(2) [OF assms])
  qed
qed

lemma fresh_pvpt:
  assumes "globals_ready g" "cache_new (pt_ops h g) = Some c"
  shows "pvpt_pt_inv h g (c, pvpt_new r)" "pvpt_view pt_nodes (c, pvpt_new r) = (\<lambda>_. {})"
    "2 * n < 2 ^ 32 \<Longrightarrow> pvpt_room (c, pvpt_new r) n"
proof -
  show "pvpt_pt_inv h g (c, pvpt_new r)"
    by (simp add: pvpt_pt_inv_def pvpt_new_def assms(1) ppt_new_def
        fresh_ppt(1) [OF assms, unfolded ppt_pt_inv_def ppt_new_def, THEN conjunct2])
  show "pvpt_view pt_nodes (c, pvpt_new r) = (\<lambda>_. {})"
  proof
    fix x show "pvpt_view pt_nodes (c, pvpt_new r) x = {}"
      by (cases x) (simp_all add: pvpt_new_def fresh_ppt(2) [OF assms])
  qed
  show "2 * n < 2 ^ 32 \<Longrightarrow> pvpt_room (c, pvpt_new r) n"
    using fresh_cache_ready(2) [OF assms] by (simp add: pvpt_room_def)
qed

lemma fresh_mdiff:
  assumes "globals_ready g"
  shows "mpt_inv (pt_set_ops h g) (pt_good g) pt_nodes (md_mut (mdiff_new r))"
    "mdiff_maps_ok (pt_set_ops h g) (pt_good g) pt_nodes (mdiff_new r)"
    "km_view (pt_set_ops h g) pt_nodes (md_propa (mdiff_new r)) = (\<lambda>_. {})"
  using ps.good_new [of g h, OF assms]
  by (simp_all add: fresh_mpt [OF assms] mdiff_new_def mdiff_maps_ok_def sets_ok_def km_view_def ps_good fun_eq_iff)

lemma fresh_pdiff:
  assumes "globals_ready g" "cache_new (pt_ops h g) = Some c"
  shows "pdiff_pt_inv h g (c, pdiff_new r)" "id_view pt_nodes c (pd_propa (pdiff_new r)) = (\<lambda>_. {})"
    "2 * n < 2 ^ 32 \<Longrightarrow> pdiff_room (c, pdiff_new r) n"
proof -
  note f = fresh_ppt [OF assms]
  have e: "pts_of pt_nodes c emptyPointsToId = {}"
    using ps.Ready_empty(2) [OF fresh_cache_ready(1) [OF assms]] .
  show "pdiff_pt_inv h g (c, pdiff_new r)"
    by (simp add: f(1) pdiff_pt_inv_def get_pers_def pdiff_new_def pdiff_maps_ok_def ids_in_def)
  show "id_view pt_nodes c (pd_propa (pdiff_new r)) = (\<lambda>_. {})"
    using e by (simp add: id_view_def pdiff_new_def fun_eq_iff)
  show "2 * n < 2 ^ 32 \<Longrightarrow> pdiff_room (c, pdiff_new r) n"
    by (simp add: f(3) pdiff_room_def get_pers_def pdiff_new_def)
qed

lemma fresh_mdf:
  assumes "globals_ready g"
  shows "mdf_inv (pt_set_ops h g) (pt_good g) pt_nodes (mdf_new False)"
    "mdf_view (pt_set_ops h g) pt_nodes (mdf_new False) = (\<lambda>_. {})"
  using mdf_new_spec [of "pt_good g" "pt_set_ops h g" pt_nodes] ps.good_new [of g h, OF assms]
  by (simp_all add: ps_good)

lemma fresh_pdf:
  assumes "globals_ready g" "cache_new (pt_ops h g) = Some c"
  shows "pdf_pt_inv h g (c, pdf_new False)" "pdf_view pt_nodes (c, pdf_new False) = (\<lambda>_. {})"
    "2 * n < 2 ^ 32 \<Longrightarrow> pdf_room (c, pdf_new False) n"
  using ps.pdf_new_spec [OF fresh_cache_ready(1) [OF assms]] assms(1) fresh_cache_ready(2) [OF assms]
  by (simp_all add: pdf_pt_inv_def pdf_room_def ppt_room_def df_get_pers_def)

section \<open>Samples\<close>

lemma sample_cache: "cache_new (pt_ops id no_mapping) = Some cache_0"
proof -
  obtain z where "cache_new (pt_ops id no_mapping) = Some z"
    by (rule pc.cache_new_spec [OF globals_no_mapping, of id]) blast
  then show ?thesis by (simp add: cache_0_def sample_ops_def)
qed

lemma sample_node: "pt_node_ok no_mapping n \<longleftrightarrow> n < 2 ^ 32"
  by (simp add: pt_node_ok_def pt_valid_def pt_new_def no_mapping_def map_limit_def)

definition sample_calls :: "(nat, NodeID) pt_op list" where
  "sample_calls = [AddPts 1 200, AddPts 2 7, UnionPts 1 2, ClearPts 2 7, UnionPts 3 1, UnionPts 3 2]"

lemma sample_calls_valid: "elements_valid (pt_node_ok no_mapping) sample_calls"
  by (simp add: elements_valid_def sample_calls_def sample_node)

lemma sample_calls_spec:
  "fst (spec_run sample_calls (\<lambda>_. {})) = [True, True, True, False, True, False]"
  "snd (spec_run sample_calls (\<lambda>_. {})) 3 = {7, 200}"
  by (auto simp: sample_calls_def)

lemma cache_2_ready: "cache_ready (pt_set_ops id no_mapping) pt_sparse pt_nodes pt_same cache_2"
  using cache_2_ok(1) pt_sparse_new [OF globals_no_mapping] pt_same_refl [of "pt_new no_mapping"]
  by (simp add: cache_ready_def cache_2_sets pt_set_new)

lemma sample_ppt: "ppt_pt_inv id no_mapping (cache_2, ppt_new r)" "ppt_view pt_nodes (cache_2, ppt_new r) = (\<lambda>_. {})"
  using ps.ppt_new_spec [OF cache_2_ready] globals_no_mapping by (simp_all add: ppt_pt_inv_def)

text \<open>The sets of the cache are sets as new ones are.\<close>

lemma sample_good: "pt_good no_mapping pt_a" "pt_good no_mapping pt_b"
  using pt_a_b by (simp_all add: pt_good_def)

end
