(* ===== verification/GenGraph.thy ===== *)
theory GenGraph
  imports Prelude
begin

text \<open>
  What the graphs of SVF share (svf/include/Graphs/GenericGraph.h): an edge with its 64-bit flag, the
  ordering by which edges are kept in \<open>std::set\<close>, and these sets. The edges of a graph are kept once
  per triple of flag, source and destination, so a pointer to an edge is the edge.
\<close>

section \<open>Edges\<close>

datatype gedge = GEdge (edgeFlag: nat) (getSrcID: NodeID) (getDstID: NodeID)

text \<open>\<open>equalGEdge\<close>: flag first, then source, then destination.\<close>

definition equalGEdge :: "gedge \<Rightarrow> gedge \<Rightarrow> bool" where
  "equalGEdge lhs rhs \<longleftrightarrow>
     (if edgeFlag lhs \<noteq> edgeFlag rhs then edgeFlag lhs < edgeFlag rhs
      else if getSrcID lhs \<noteq> getSrcID rhs then getSrcID lhs < getSrcID rhs
      else getDstID lhs < getDstID rhs)"

instantiation gedge :: linorder
begin

definition less_gedge :: "gedge \<Rightarrow> gedge \<Rightarrow> bool" where
  "less_gedge a b \<longleftrightarrow> equalGEdge a b"

definition less_eq_gedge :: "gedge \<Rightarrow> gedge \<Rightarrow> bool" where
  "less_eq_gedge a b \<longleftrightarrow> a = b \<or> equalGEdge a b"

instance
proof
  fix a b c :: gedge
  show "(a < b) = (a \<le> b \<and> \<not> b \<le> a)"
    by (cases a; cases b) (auto simp: less_gedge_def less_eq_gedge_def equalGEdge_def split: if_splits)
  show "a \<le> a" by (simp add: less_eq_gedge_def)
  show "a \<le> b \<Longrightarrow> b \<le> c \<Longrightarrow> a \<le> c"
    by (cases a; cases b; cases c) (auto simp: less_eq_gedge_def equalGEdge_def split: if_splits)
  show "a \<le> b \<Longrightarrow> b \<le> a \<Longrightarrow> a = b"
    by (cases a; cases b) (auto simp: less_eq_gedge_def equalGEdge_def split: if_splits)
  show "a \<le> b \<or> b \<le> a"
    by (cases a; cases b) (auto simp: less_eq_gedge_def equalGEdge_def split: if_splits)
qed

end

text \<open>The kind of an edge is the low byte of its flag.\<close>

definition getEdgeKind :: "gedge \<Rightarrow> nat" where
  "getEdgeKind e = edgeFlag e mod 2 ^ 8"

section \<open>Ordered sets\<close>

text \<open>A \<open>std::set\<close> is the increasing list of its elements.\<close>

definition oset :: "'a :: linorder list \<Rightarrow> bool" where
  "oset xs \<longleftrightarrow> sorted_wrt (<) xs"

definition oset_insert :: "'a :: linorder \<Rightarrow> 'a list \<Rightarrow> bool \<times> 'a list" where
  "oset_insert x xs = (if x \<in> set xs then (False, xs) else (True, insort x xs))"

definition oset_erase :: "'a :: linorder \<Rightarrow> 'a list \<Rightarrow> nat \<times> 'a list" where
  "oset_erase x xs = (if x \<in> set xs then (1, remove1 x xs) else (0, xs))"

lemma oset_iff: "oset xs \<longleftrightarrow> sorted xs \<and> distinct xs"
  by (simp add: oset_def strict_sorted_iff)

lemma oset_Nil [simp]: "oset []"
  by (simp add: oset_def)

lemma oset_distinct: "oset xs \<Longrightarrow> distinct xs"
  by (simp add: oset_iff)

lemma oset_insert_ok [simp]: "oset xs \<Longrightarrow> oset (snd (oset_insert x xs))"
  by (simp add: oset_insert_def oset_iff sorted_insort distinct_insort)

lemma oset_insert_set [simp]: "set (snd (oset_insert x xs)) = insert x (set xs)"
  by (auto simp: oset_insert_def set_insort_key)

lemma oset_insert_fst [simp]: "fst (oset_insert x xs) \<longleftrightarrow> x \<notin> set xs"
  by (simp add: oset_insert_def)

lemma oset_erase_ok [simp]: "oset xs \<Longrightarrow> oset (snd (oset_erase x xs))"
  by (simp add: oset_erase_def oset_iff sorted_remove1)

lemma oset_erase_set [simp]: "oset xs \<Longrightarrow> set (snd (oset_erase x xs)) = set xs - {x}"
  by (auto simp: oset_erase_def oset_iff)

lemma oset_erase_fst [simp]: "fst (oset_erase x xs) = (if x \<in> set xs then 1 else 0)"
  by (simp add: oset_erase_def)

lemma oset_unique: "oset xs \<Longrightarrow> oset ys \<Longrightarrow> set xs = set ys \<Longrightarrow> xs = ys"
  by (simp add: oset_iff sorted_distinct_set_unique)

text \<open>Inserting a list of elements.\<close>

definition oset_of :: "'a :: linorder list \<Rightarrow> 'a list" where
  "oset_of xs = fold (\<lambda>x s. snd (oset_insert x s)) xs []"

lemma fold_oset_insert:
  "oset s \<Longrightarrow> oset (fold (\<lambda>x s. snd (oset_insert x s)) xs s) \<and>
   set (fold (\<lambda>x s. snd (oset_insert x s)) xs s) = set xs \<union> set s"
  by (induction xs arbitrary: s) auto

lemma oset_of [simp]: "oset (oset_of xs)" "set (oset_of xs) = set xs"
  using fold_oset_insert [of "[]" xs] by (simp_all add: oset_of_def)

section \<open>Ordered maps\<close>

text \<open>The nodes of a graph by their numbers, a \<open>std::map\<close>: pairs with increasing keys.\<close>

definition omap :: "(nat \<times> 'v) list \<Rightarrow> bool" where
  "omap m \<longleftrightarrow> sorted_wrt (<) (map fst m)"

fun omap_put :: "nat \<Rightarrow> 'v \<Rightarrow> (nat \<times> 'v) list \<Rightarrow> (nat \<times> 'v) list" where
  "omap_put k v [] = [(k, v)]"
| "omap_put k v ((l, w) # m) =
     (if k < l then (k, v) # (l, w) # m else if k = l then (k, v) # m else (l, w) # omap_put k v m)"

definition omap_del :: "nat \<Rightarrow> (nat \<times> 'v) list \<Rightarrow> (nat \<times> 'v) list" where
  "omap_del k m = filter (\<lambda>(l, _). l \<noteq> k) m"

lemma omap_Nil [simp]: "omap []"
  by (simp add: omap_def)

lemma omap_distinct: "omap m \<Longrightarrow> distinct (map fst m)"
  by (simp add: omap_def strict_sorted_iff)

lemma omap_put_keys: "fst ` set (omap_put k v m) = insert k (fst ` set m)"
  by (induction k v m rule: omap_put.induct) (simp_all add: insert_commute)

lemma map_of_omap_put [simp]: "map_of (omap_put k v m) = (map_of m)(k \<mapsto> v)"
  by (induction k v m rule: omap_put.induct) (auto simp: fun_eq_iff)

lemma omap_put_ok [simp]: "omap m \<Longrightarrow> omap (omap_put k v m)"
proof (induction m)
  case (Cons x m)
  then show ?case using omap_put_keys [of k v m] by (cases x) (auto simp: omap_def image_iff)
qed (simp add: omap_def)

lemma omap_del_ok [simp]: "omap m \<Longrightarrow> omap (omap_del k m)"
  by (induction m) (auto simp: omap_def omap_del_def)

lemma map_of_omap_del [simp]: "map_of (omap_del k m) = (map_of m)(k := None)"
  by (induction m) (auto simp: omap_del_def fun_eq_iff)

lemma omap_put_same: "omap m \<Longrightarrow> map_of m k = Some w \<Longrightarrow> map fst (omap_put k v m) = map fst m"
  by (induction m) (auto simp: omap_def dest!: map_of_SomeD split: if_splits)

section \<open>Nodes and graphs\<close>

text \<open>Removing an edge from the edge set of a node asserts that it is there.\<close>

definition remove_edge :: "gedge \<Rightarrow> gedge list \<Rightarrow> (nat \<times> gedge list) option" where
  "remove_edge e E = (if e \<in> set E then Some (oset_erase e E) else None)"

record 'n gen_graph =
  IDToNodeMap :: "(NodeID \<times> 'n) list"
  edgeNum :: nat
  nodeNum :: nat

definition gen_graph_new :: "'n gen_graph" where
  "gen_graph_new = \<lparr>IDToNodeMap = [], edgeNum = 0, nodeNum = 0\<rparr>"

definition addGNode :: "NodeID \<Rightarrow> 'n \<Rightarrow> 'n gen_graph \<Rightarrow> 'n gen_graph" where
  "addGNode i n G = G\<lparr>IDToNodeMap := omap_put i n (IDToNodeMap G), nodeNum := u32 (nodeNum G + 1)\<rparr>"

definition getGNode :: "NodeID \<Rightarrow> 'n gen_graph \<Rightarrow> 'n option" where
  "getGNode i G = map_of (IDToNodeMap G) i"

definition hasGNode :: "NodeID \<Rightarrow> 'n gen_graph \<Rightarrow> bool" where
  "hasGNode i G \<longleftrightarrow> map_of (IDToNodeMap G) i \<noteq> None"

text \<open>\<open>isolated\<close> is the assertion that the node has no edges. The counter of nodes is not reduced.\<close>

definition removeGNode :: "('n \<Rightarrow> bool) \<Rightarrow> NodeID \<Rightarrow> 'n gen_graph \<Rightarrow> 'n gen_graph option" where
  "removeGNode isolated i G = do {
     n \<leftarrow> map_of (IDToNodeMap G) i;
     if isolated n then Some (G\<lparr>IDToNodeMap := omap_del i (IDToNodeMap G)\<rparr>) else None
   }"

definition incNodeNum :: "'n gen_graph \<Rightarrow> 'n gen_graph" where
  "incNodeNum G = G\<lparr>nodeNum := u32 (nodeNum G + 1)\<rparr>"

definition incEdgeNum :: "'n gen_graph \<Rightarrow> 'n gen_graph" where
  "incEdgeNum G = G\<lparr>edgeNum := u32 (edgeNum G + 1)\<rparr>"

lemma remove_edge_some: "remove_edge e E = Some (k, F) \<Longrightarrow> oset E \<Longrightarrow> k = 1 \<and> e \<in> set E \<and> oset F \<and> set F = set E - {e}"
  by (auto simp: remove_edge_def oset_erase_def oset_iff sorted_remove1 split: if_splits)

text \<open>Adding a node and removing it gives back the nodes, but counts one more.\<close>

lemma remove_added_node:
  assumes "\<not> hasGNode i G" "isolated n"
  shows "\<exists>H. removeGNode isolated i (addGNode i n G) = Some H \<and> map_of (IDToNodeMap H) = map_of (IDToNodeMap G) \<and>
    nodeNum H = u32 (nodeNum G + 1)"
  using assms by (auto simp: removeGNode_def addGNode_def hasGNode_def fun_eq_iff)

section \<open>Loops that may fail\<close>

fun ofold :: "('a \<Rightarrow> 's \<Rightarrow> 's option) \<Rightarrow> 'a list \<Rightarrow> 's \<Rightarrow> 's option" where
  "ofold f [] s = Some s"
| "ofold f (x # xs) s = do { s \<leftarrow> f x s; ofold f xs s }"

lemma ofold_append: "ofold f (xs @ ys) s = do { s \<leftarrow> ofold f xs s; ofold f ys s }"
  by (induction xs arbitrary: s) (auto split: Option.bind_split)

lemma ofold_mono [partial_function_mono]:
  assumes "\<And>x s. mono_option (\<lambda>f. B f x s)"
  shows "mono_option (\<lambda>f. ofold (B f) xs s)"
proof (induction xs arbitrary: s)
  case Nil
  show ?case by (simp add: partial_function_mono)
next
  case (Cons x xs)
  show ?case using bind_mono [OF assms Cons] by simp
qed

text \<open>
  A loop whose every pass takes a state to a related one, by a reflexive and transitive relation, does so as
  a whole; what a pass establishes for its element and later passes keep holds in the end.
\<close>

lemma ofold_rel:
  assumes refl: "\<And>s. R s s" and trans: "\<And>s t u. R s t \<Longrightarrow> R t u \<Longrightarrow> R s u"
    and keep: "\<And>x s t. Q x s \<Longrightarrow> R s t \<Longrightarrow> Q x t"
    and step: "\<And>x t. x \<in> set xs \<Longrightarrow> R s t \<Longrightarrow> \<exists>u. f x t = Some u \<and> R t u \<and> Q x u"
  shows "\<exists>t. ofold f xs s = Some t \<and> R s t \<and> (\<forall>x \<in> set xs. Q x t)"
  using step
proof (induction xs arbitrary: s)
  case (Cons x xs)
  obtain u where u: "f x s = Some u" "R s u" "Q x u" using Cons.prems [of x s] refl by auto
  obtain t where t: "ofold f xs u = Some t" "R u t" "\<forall>x \<in> set xs. Q x t"
    using Cons.IH [of u] Cons.prems trans [OF u(2)] by force
  show ?case using u t keep [OF u(3) t(2)] trans [OF u(2) t(2)] by auto
qed (simp add: refl)

end
