(* ===== verification/CFLGraphs.thy ===== *)
theory CFLGraphs
  imports GenGraph KeyMaps
begin

text \<open>
  The labelled graph of CFL reachability (svf/include/Graphs/CFLGraph.h, svf/lib/Graphs/CFLGraph.cpp) and the
  symbols that label it (\<open>GrammarBase::Symbol\<close> of svf/include/CFL/CFGrammar.h).
\<close>

section \<open>Symbols\<close>

text \<open>Three bit fields of a 32-bit number.\<close>

datatype symbol = Symbol (sym_kind: "8 word") (sym_attr: "16 word") (sym_vattr: "8 word")

definition sym_of_num :: "nat \<Rightarrow> symbol" where
  "sym_of_num num = Symbol (of_nat (num mod 2 ^ 8)) (of_nat (num div 2 ^ 8 mod 2 ^ 16)) (of_nat (num div 2 ^ 24))"

definition num_of_sym :: "symbol \<Rightarrow> nat" where
  "num_of_sym s = u32 (unat (sym_vattr s) * 2 ^ 24 + unat (sym_attr s) * 2 ^ 8 + unat (sym_kind s))"

lemma num_of_sym_bound: "num_of_sym s < 2 ^ 32"
  by (simp add: num_of_sym_def u32_def)

lemma num_of_sym_eq: "num_of_sym s = unat (sym_vattr s) * 2 ^ 24 + unat (sym_attr s) * 2 ^ 8 + unat (sym_kind s)"
proof -
  have "unat (sym_vattr s) < 2 ^ 8" "unat (sym_attr s) < 2 ^ 16" "unat (sym_kind s) < 2 ^ 8"
    using unsigned_less [of "sym_vattr s"] unsigned_less [of "sym_attr s"] unsigned_less [of "sym_kind s"] by simp_all
  then show ?thesis by (simp add: num_of_sym_def u32_def)
qed

lemma sym_of_num_of_sym [simp]: "sym_of_num (num_of_sym s) = s"
proof -
  have b: "unat (sym_vattr s) < 2 ^ 8" "unat (sym_attr s) < 2 ^ 16" "unat (sym_kind s) < 2 ^ 8"
    using unsigned_less [of "sym_vattr s"] unsigned_less [of "sym_attr s"] unsigned_less [of "sym_kind s"] by simp_all
  let ?v = "unat (sym_vattr s)" and ?a = "unat (sym_attr s)" and ?k = "unat (sym_kind s)"
  have n: "num_of_sym s = ?k + 2 ^ 8 * (?a + 2 ^ 16 * ?v)" by (simp add: num_of_sym_eq)
  have d: "num_of_sym s div 2 ^ 8 = ?a + 2 ^ 16 * ?v"
    unfolding n using b(3) by (subst div_mult_self2) simp_all
  have "num_of_sym s mod 2 ^ 8 = ?k" unfolding n using b(3) by (subst mod_mult_self2) simp
  moreover have "num_of_sym s div 2 ^ 8 mod 2 ^ 16 = ?a" unfolding d using b(2) by (subst mod_mult_self2) simp
  moreover have "num_of_sym s div 2 ^ 24 = ?v"
  proof -
    have "num_of_sym s div 2 ^ 24 = num_of_sym s div 2 ^ 8 div 2 ^ 16" by (simp add: div_mult2_eq [symmetric])
    then show ?thesis unfolding d using b(2) by (subst (asm) div_mult_self2) simp_all
  qed
  ultimately show ?thesis by (cases s) (simp add: sym_of_num_def)
qed

lemma num_of_sym_of_num: "n < 2 ^ 32 \<Longrightarrow> num_of_sym (sym_of_num n) = n"
proof -
  assume n: "n < 2 ^ 32"
  then have "n div 2 ^ 24 < 2 ^ 8" by (simp add: less_mult_imp_div_less)
  then have "num_of_sym (sym_of_num n) = n div 2 ^ 24 * 2 ^ 24 + (n div 2 ^ 8 mod 2 ^ 16) * 2 ^ 8 + n mod 2 ^ 8"
    by (simp add: num_of_sym_eq sym_of_num_def unat_of_nat)
  also have "n div 2 ^ 24 = n div 2 ^ 8 div 2 ^ 16" by (simp add: div_mult2_eq [symmetric])
  also have "n div 2 ^ 8 div 2 ^ 16 * 2 ^ 24 + n div 2 ^ 8 mod 2 ^ 16 * 2 ^ 8 + n mod 2 ^ 8 = n"
  proof -
    have "x * 2 ^ 24 + y * 2 ^ 8 + z = (x * 2 ^ 16 + y) * 2 ^ 8 + z" for x y z :: nat by simp
    from this [of "n div 2 ^ 8 div 2 ^ 16" "n div 2 ^ 8 mod 2 ^ 16" "n mod 2 ^ 8"] show ?thesis
      unfolding div_mult_mod_eq .
  qed
  finally show ?thesis .
qed

lemma num_of_sym_inject: "num_of_sym s = num_of_sym t \<longleftrightarrow> s = t"
  by (metis sym_of_num_of_sym)

section \<open>Nodes and edges\<close>

record cfl_node =
  OutEdges :: "gedge list"
  InEdges :: "gedge list"
  outCFLEdges :: "(symbol \<times> gedge list) list"
  inCFLEdges :: "(symbol \<times> gedge list) list"

record cfl_graph =
  cflNodes :: "(NodeID \<times> cfl_node) list"
  cflEdgeSet :: "gedge list"
  cflStart :: nat

definition cfl_node_new :: cfl_node where
  "cfl_node_new = \<lparr>OutEdges = [], InEdges = [], outCFLEdges = [], inCFLEdges = []\<rparr>"

definition cfl_graph_new :: "nat \<Rightarrow> cfl_graph" where
  "cfl_graph_new k = \<lparr>cflNodes = [], cflEdgeSet = [], cflStart = k\<rparr>"

text \<open>\<open>CFLEdge::getEdgeKind\<close> is the whole flag; as a symbol it is cut to 32 bits.\<close>

definition edge_symbol :: "gedge \<Rightarrow> symbol" where
  "edge_symbol e = sym_of_num (u32 (edgeFlag e))"

definition getInEdgeWithTy :: "cfl_node \<Rightarrow> symbol \<Rightarrow> gedge list" where
  "getInEdgeWithTy n s = km_get [] (inCFLEdges n) s"

definition getOutEdgeWithTy :: "cfl_node \<Rightarrow> symbol \<Rightarrow> gedge list" where
  "getOutEdgeWithTy n s = km_get [] (outCFLEdges n) s"

definition addInEdgeWithKind :: "NodeID \<Rightarrow> gedge \<Rightarrow> symbol \<Rightarrow> cfl_node \<Rightarrow> (bool \<times> cfl_node) option" where
  "addInEdgeWithKind i e s n =
     (if getDstID e = i then
        let (added1, E) = oset_insert e (InEdges n);
            (added2, F) = oset_insert e (km_get [] (inCFLEdges n) s)
        in Some (added1 \<and> added2, n\<lparr>InEdges := E, inCFLEdges := AList.update s F (inCFLEdges n)\<rparr>)
      else None)"

definition addIngoingEdge :: "NodeID \<Rightarrow> gedge \<Rightarrow> cfl_node \<Rightarrow> (bool \<times> cfl_node) option" where
  "addIngoingEdge i e n = addInEdgeWithKind i e (edge_symbol e) n"

definition addOutEdgeWithKind :: "NodeID \<Rightarrow> gedge \<Rightarrow> symbol \<Rightarrow> cfl_node \<Rightarrow> (bool \<times> cfl_node) option" where
  "addOutEdgeWithKind i e s n =
     (if getSrcID e = i then
        let (added1, E) = oset_insert e (OutEdges n);
            (added2, F) = oset_insert e (km_get [] (outCFLEdges n) s)
        in Some (added1 \<and> added2, n\<lparr>OutEdges := E, outCFLEdges := AList.update s F (outCFLEdges n)\<rparr>)
      else None)"

definition cfl_addOutgoingEdge :: "NodeID \<Rightarrow> gedge \<Rightarrow> cfl_node \<Rightarrow> (bool \<times> cfl_node) option" where
  "cfl_addOutgoingEdge i e n = addOutEdgeWithKind i e (edge_symbol e) n"

definition removeCFLInEdge :: "gedge \<Rightarrow> cfl_node \<Rightarrow> (bool \<times> cfl_node) option" where
  "removeCFLInEdge e n = do {
     (num1, E) \<leftarrow> remove_edge e (InEdges n);
     let s = edge_symbol e;
     let (num2, F) = oset_erase e (km_get [] (inCFLEdges n) s);
     Some (num1 \<noteq> 0 \<and> num2 \<noteq> 0, n\<lparr>InEdges := E, inCFLEdges := AList.update s F (inCFLEdges n)\<rparr>)
   }"

definition removeCFLOutEdge :: "gedge \<Rightarrow> cfl_node \<Rightarrow> (bool \<times> cfl_node) option" where
  "removeCFLOutEdge e n = do {
     (num1, E) \<leftarrow> remove_edge e (OutEdges n);
     let s = edge_symbol e;
     let (num2, F) = oset_erase e (km_get [] (outCFLEdges n) s);
     Some (num1 \<noteq> 0 \<and> num2 \<noteq> 0, n\<lparr>OutEdges := E, outCFLEdges := AList.update s F (outCFLEdges n)\<rparr>)
   }"

section \<open>The graph\<close>

text \<open>\<open>getGNode\<close> asserts that the node exists.\<close>

definition cfl_getGNode :: "cfl_graph \<Rightarrow> NodeID \<Rightarrow> cfl_node option" where
  "cfl_getGNode G i = map_of (cflNodes G) i"

definition addCFLNode :: "NodeID \<Rightarrow> cfl_node \<Rightarrow> cfl_graph \<Rightarrow> cfl_graph" where
  "addCFLNode i n G = G\<lparr>cflNodes := omap_put i n (cflNodes G)\<rparr>"

text \<open>The result tells whether the edge was added; \<open>false\<close> is the null pointer.\<close>

definition addCFLEdge :: "cfl_graph \<Rightarrow> NodeID \<Rightarrow> NodeID \<Rightarrow> nat \<Rightarrow> (bool \<times> cfl_graph) option" where
  "addCFLEdge G src dst label = do {
     let e = GEdge label src dst;
     let (inserted, E) = oset_insert e (cflEdgeSet G);
     if inserted then do {
       n \<leftarrow> cfl_getGNode G src;
       (_, n) \<leftarrow> cfl_addOutgoingEdge src e n;
       let G = G\<lparr>cflEdgeSet := E, cflNodes := omap_put src n (cflNodes G)\<rparr>;
       m \<leftarrow> cfl_getGNode G dst;
       (_, m) \<leftarrow> addIngoingEdge dst e m;
       Some (True, G\<lparr>cflNodes := omap_put dst m (cflNodes G)\<rparr>)
     } else Some (False, G)
   }"

definition cfl_hasEdge :: "cfl_graph \<Rightarrow> NodeID \<Rightarrow> NodeID \<Rightarrow> nat \<Rightarrow> bool" where
  "cfl_hasEdge G src dst label \<longleftrightarrow> GEdge label src dst \<in> set (cflEdgeSet G)"

section \<open>Consistency\<close>

text \<open>The edge sets of a node are exactly its edges, as a whole and by symbol.\<close>

definition out_ok :: "gedge set \<Rightarrow> NodeID \<Rightarrow> cfl_node \<Rightarrow> bool" where
  "out_ok E i n \<longleftrightarrow> oset (OutEdges n) \<and> set (OutEdges n) = {e \<in> E. getSrcID e = i} \<and>
     (\<forall>s. oset (getOutEdgeWithTy n s) \<and> set (getOutEdgeWithTy n s) = {e \<in> E. getSrcID e = i \<and> edge_symbol e = s})"

definition in_ok :: "gedge set \<Rightarrow> NodeID \<Rightarrow> cfl_node \<Rightarrow> bool" where
  "in_ok E i n \<longleftrightarrow> oset (InEdges n) \<and> set (InEdges n) = {e \<in> E. getDstID e = i} \<and>
     (\<forall>s. oset (getInEdgeWithTy n s) \<and> set (getInEdgeWithTy n s) = {e \<in> E. getDstID e = i \<and> edge_symbol e = s})"

definition cfl_nodes :: "cfl_graph \<Rightarrow> NodeID list" where
  "cfl_nodes G = map fst (cflNodes G)"

definition cfl_ok :: "cfl_graph \<Rightarrow> bool" where
  "cfl_ok G \<longleftrightarrow> omap (cflNodes G) \<and> oset (cflEdgeSet G) \<and>
     (\<forall>e \<in> set (cflEdgeSet G). edgeFlag e < 2 ^ 32 \<and> getSrcID e \<in> set (cfl_nodes G) \<and> getDstID e \<in> set (cfl_nodes G)) \<and>
     (\<forall>i n. map_of (cflNodes G) i = Some n \<longrightarrow> out_ok (set (cflEdgeSet G)) i n \<and> in_ok (set (cflEdgeSet G)) i n)"

lemma cfl_addOutgoingEdge_spec:
  assumes "out_ok E i n" "getSrcID e = i"
  shows "\<exists>b n'. cfl_addOutgoingEdge i e n = Some (b, n') \<and> out_ok (insert e E) i n' \<and>
    InEdges n' = InEdges n \<and> inCFLEdges n' = inCFLEdges n"
  using assms
  by (auto simp: cfl_addOutgoingEdge_def addOutEdgeWithKind_def out_ok_def getOutEdgeWithTy_def Let_def split_beta)

lemma addIngoingEdge_spec:
  assumes "in_ok E i n" "getDstID e = i"
  shows "\<exists>b n'. addIngoingEdge i e n = Some (b, n') \<and> in_ok (insert e E) i n' \<and>
    OutEdges n' = OutEdges n \<and> outCFLEdges n' = outCFLEdges n"
  using assms
  by (auto simp: addIngoingEdge_def addInEdgeWithKind_def in_ok_def getInEdgeWithTy_def Let_def split_beta)

text \<open>Removing is the reverse of adding.\<close>

lemma removeCFLOutEdge_spec:
  assumes ok: "out_ok E i n" and e: "e \<in> E" "getSrcID e = i"
  shows "\<exists>n'. removeCFLOutEdge e n = Some (True, n') \<and> out_ok (E - {e}) i n'"
proof -
  have "e \<in> set (OutEdges n)" "e \<in> set (km_get [] (outCFLEdges n) (edge_symbol e))"
    using ok e by (auto simp: out_ok_def getOutEdgeWithTy_def)
  then show ?thesis using ok
    by (auto simp: removeCFLOutEdge_def remove_edge_def out_ok_def getOutEdgeWithTy_def Let_def split_beta)
qed

lemma removeCFLInEdge_spec:
  assumes ok: "in_ok E i n" and e: "e \<in> E" "getDstID e = i"
  shows "\<exists>n'. removeCFLInEdge e n = Some (True, n') \<and> in_ok (E - {e}) i n'"
proof -
  have "e \<in> set (InEdges n)" "e \<in> set (km_get [] (inCFLEdges n) (edge_symbol e))"
    using ok e by (auto simp: in_ok_def getInEdgeWithTy_def)
  then show ?thesis using ok
    by (auto simp: removeCFLInEdge_def remove_edge_def in_ok_def getInEdgeWithTy_def Let_def split_beta)
qed

lemma out_ok_other:
  assumes "getSrcID e \<noteq> i" shows "out_ok (insert e E) i n = out_ok E i n"
proof -
  have "{x \<in> insert e E. getSrcID x = i} = {x \<in> E. getSrcID x = i}"
    "{x \<in> insert e E. getSrcID x = i \<and> edge_symbol x = s} = {x \<in> E. getSrcID x = i \<and> edge_symbol x = s}" for s
    using assms by auto
  then show ?thesis by (simp only: out_ok_def)
qed

lemma in_ok_other:
  assumes "getDstID e \<noteq> i" shows "in_ok (insert e E) i n = in_ok E i n"
proof -
  have "{x \<in> insert e E. getDstID x = i} = {x \<in> E. getDstID x = i}"
    "{x \<in> insert e E. getDstID x = i \<and> edge_symbol x = s} = {x \<in> E. getDstID x = i \<and> edge_symbol x = s}" for s
    using assms by auto
  then show ?thesis by (simp only: in_ok_def)
qed

lemma out_ok_cong: "OutEdges n' = OutEdges n \<Longrightarrow> outCFLEdges n' = outCFLEdges n \<Longrightarrow> out_ok E i n' = out_ok E i n"
  by (simp add: out_ok_def getOutEdgeWithTy_def)

lemma in_ok_cong: "InEdges n' = InEdges n \<Longrightarrow> inCFLEdges n' = inCFLEdges n \<Longrightarrow> in_ok E i n' = in_ok E i n"
  by (simp add: in_ok_def getInEdgeWithTy_def)

lemma cfl_node_ok: "out_ok {} i cfl_node_new" "in_ok {} i cfl_node_new"
  by (simp_all add: out_ok_def in_ok_def cfl_node_new_def getOutEdgeWithTy_def getInEdgeWithTy_def)

lemma cfl_nodes_iff: "i \<in> set (cfl_nodes G) \<longleftrightarrow> (\<exists>n. cfl_getGNode G i = Some n)"
  by (simp add: cfl_nodes_def cfl_getGNode_def) (metis map_of_eq_None_iff not_Some_eq set_map)

lemma cfl_ok_new: "cfl_ok (cfl_graph_new k)"
  by (simp add: cfl_ok_def cfl_graph_new_def)

lemma addCFLNode_spec:
  assumes ok: "cfl_ok G" and i: "i \<notin> set (cfl_nodes G)"
  shows "cfl_ok (addCFLNode i cfl_node_new G)" "set (cfl_nodes (addCFLNode i cfl_node_new G)) = insert i (set (cfl_nodes G))"
    "cflEdgeSet (addCFLNode i cfl_node_new G) = cflEdgeSet G"
proof -
  have n: "set (cfl_nodes (addCFLNode i cfl_node_new G)) = insert i (set (cfl_nodes G))"
    by (simp add: addCFLNode_def cfl_nodes_def omap_put_keys)
  have "getSrcID e \<noteq> i" "getDstID e \<noteq> i" if "e \<in> set (cflEdgeSet G)" for e
    using ok i that by (auto simp: cfl_ok_def)
  then have "out_ok (set (cflEdgeSet G)) i cfl_node_new" "in_ok (set (cflEdgeSet G)) i cfl_node_new"
    by (auto simp: out_ok_def in_ok_def cfl_node_new_def getOutEdgeWithTy_def getInEdgeWithTy_def)
  then show "cfl_ok (addCFLNode i cfl_node_new G)"
    using ok n by (auto simp: cfl_ok_def addCFLNode_def)
  show "set (cfl_nodes (addCFLNode i cfl_node_new G)) = insert i (set (cfl_nodes G))" by (rule n)
  show "cflEdgeSet (addCFLNode i cfl_node_new G) = cflEdgeSet G" by (simp add: addCFLNode_def)
qed

lemma addCFLEdge_spec:
  assumes ok: "cfl_ok G" and nodes: "src \<in> set (cfl_nodes G)" "dst \<in> set (cfl_nodes G)" and label: "label < 2 ^ 32"
  defines "e \<equiv> GEdge label src dst"
  shows "\<exists>G'. addCFLEdge G src dst label = Some (e \<notin> set (cflEdgeSet G), G') \<and> cfl_ok G' \<and>
    set (cflEdgeSet G') = insert e (set (cflEdgeSet G)) \<and> cfl_nodes G' = cfl_nodes G \<and> cflStart G' = cflStart G"
proof (cases "e \<in> set (cflEdgeSet G)")
  case True
  then show ?thesis using ok by (auto simp: addCFLEdge_def oset_insert_def e_def)
next
  case False
  let ?E = "set (cflEdgeSet G)"
  have om: "omap (cflNodes G)" and oe: "oset (cflEdgeSet G)"
    and all: "\<And>i n. map_of (cflNodes G) i = Some n \<Longrightarrow> out_ok ?E i n \<and> in_ok ?E i n"
    using ok by (auto simp: cfl_ok_def)
  have ends: "getSrcID e = src" "getDstID e = dst" by (simp_all add: e_def)
  obtain n where n: "map_of (cflNodes G) src = Some n" using nodes(1) by (auto simp: cfl_nodes_iff cfl_getGNode_def)
  obtain b n' where n': "cfl_addOutgoingEdge src e n = Some (b, n')" "out_ok (insert e ?E) src n'"
      "InEdges n' = InEdges n" "inCFLEdges n' = inCFLEdges n"
    using cfl_addOutgoingEdge_spec [of ?E src n e] all [OF n] ends by blast
  let ?N = "omap_put src n' (cflNodes G)"
  have in1: "in_ok ?E i m" if "map_of ?N i = Some m" for i m
    using that all in_ok_cong [OF n'(3,4)] n by (auto split: if_splits)
  have out1: "out_ok (insert e ?E) i m" if "map_of ?N i = Some m" for i m
    using that all n'(2) out_ok_other [of e i ?E m] ends by (auto split: if_splits)
  obtain m where m: "map_of ?N dst = Some m" using nodes(2) by (cases "dst = src") (auto simp: cfl_nodes_iff cfl_getGNode_def)
  obtain b2 m' where m': "addIngoingEdge dst e m = Some (b2, m')" "in_ok (insert e ?E) dst m'"
      "OutEdges m' = OutEdges m" "outCFLEdges m' = outCFLEdges m"
    using addIngoingEdge_spec [of ?E dst m e] in1 [OF m] ends by blast
  let ?M = "omap_put dst m' ?N"
  have in2: "in_ok (insert e ?E) i k" if "map_of ?M i = Some k" for i k
    using that in1 m'(2) in_ok_other [of e i ?E k] ends by (auto split: if_splits)
  have out2: "out_ok (insert e ?E) i k" if "map_of ?M i = Some k" for i k
    using that out1 out_ok_cong [OF m'(3,4)] m by (auto split: if_splits)
  let ?G = "G\<lparr>cflEdgeSet := snd (oset_insert e (cflEdgeSet G)), cflNodes := ?M\<rparr>"
  have keys: "cfl_nodes ?G = cfl_nodes G"
    using omap_put_same [OF om n, of n'] omap_put_same [OF omap_put_ok [OF om] m, of m'] by (simp add: cfl_nodes_def)
  have "addCFLEdge G src dst label = Some (True, ?G)"
    using False n n'(1) m m'(1) by (simp add: addCFLEdge_def e_def [symmetric] cfl_getGNode_def split_beta)
  moreover have "cfl_ok ?G"
    using ok in2 out2 keys om oe nodes label ends by (auto simp: cfl_ok_def e_def simp del: map_of_omap_put)
  ultimately show ?thesis using False keys by auto
qed

end
