(* ===== verification/CFLGrammar.thy ===== *)
theory CFLGrammar
  imports CFLGraphs WorkLists "HOL-Library.Multiset"
begin

text \<open>
  Grammars of CFL reachability (svf/include/CFL/CFGrammar.h, svf/lib/CFL/CFGrammar.cpp): the tables of symbol
  names, the productions in normal form by their right-hand sides, and the expansion of attribute variables
  (\<open>fillAttribute\<close> of svf/lib/CFL/CFGNormalizer.cpp). Hash tables and hash sets are lists without repetition.
\<close>

section \<open>State\<close>

type_synonym production = "symbol list"

record cf_grammar =
  startKind :: nat
  nonterminals :: "(string \<times> nat) list"
  terminals :: "(string \<times> nat) list"
  EBNFSigns :: "(string \<times> nat) list"
  attributeKinds :: "nat list"
  kindToAttrsMap :: "(nat \<times> nat list) list"
  rawProductions :: "(symbol \<times> production list) list"
  totalKind :: nat
  epsilonProds :: "production list"
  singleRHSToProds :: "(symbol \<times> production list) list"
  firstRHSToProds :: "(symbol \<times> production list) list"
  secondRHSToProds :: "(symbol \<times> production list) list"
  newTerminalSubscript :: nat

definition cf_grammar_new :: "nat \<Rightarrow> cf_grammar" where
  "cf_grammar_new k = \<lparr>startKind = 0, nonterminals = [], terminals = [], EBNFSigns = [], attributeKinds = [],
     kindToAttrsMap = [], rawProductions = [], totalKind = k, epsilonProds = [], singleRHSToProds = [],
     firstRHSToProds = [], secondRHSToProds = [], newTerminalSubscript = 0\<rparr>"

section \<open>Symbol names\<close>

text \<open>\<open>strToKind\<close> aborts on an unknown name.\<close>

definition strToKind :: "cf_grammar \<Rightarrow> string \<Rightarrow> nat option" where
  "strToKind g str =
     (case map_of (terminals g) str of Some k \<Rightarrow> Some k
      | None \<Rightarrow> (case map_of (nonterminals g) str of Some k \<Rightarrow> Some k | None \<Rightarrow> map_of (EBNFSigns g) str))"

fun name_of :: "(string \<times> nat) list \<Rightarrow> nat \<Rightarrow> string option" where
  "name_of [] k = None"
| "name_of ((s, l) # m) k = (if l = k then Some s else name_of m k)"

definition kindToStr :: "cf_grammar \<Rightarrow> nat \<Rightarrow> string" where
  "kindToStr g k =
     (case name_of (terminals g) k of Some s \<Rightarrow> s
      | None \<Rightarrow> (case name_of (nonterminals g) k of Some s \<Rightarrow> s
      | None \<Rightarrow> (case name_of (EBNFSigns g) k of Some s \<Rightarrow> s | None \<Rightarrow> [])))"

text \<open>Splitting at the last underscore: \<open>find_last_of\<close>.\<close>

fun find_last :: "char \<Rightarrow> string \<Rightarrow> nat option" where
  "find_last c [] = None"
| "find_last c (x # xs) =
     (case find_last c xs of Some n \<Rightarrow> Some (Suc n) | None \<Rightarrow> if x = c then Some 0 else None)"

definition extractKindStrFromSymbolStr :: "string \<Rightarrow> string" where
  "extractKindStrFromSymbolStr str = (case find_last (CHR ''_'') str of None \<Rightarrow> str | Some p \<Rightarrow> take p str)"

definition extractAttributeStrFromSymbolStr :: "string \<Rightarrow> string" where
  "extractAttributeStrFromSymbolStr str = (case find_last (CHR ''_'') str of None \<Rightarrow> [] | Some p \<Rightarrow> drop (p + 1) str)"

definition char_isdigit :: "char \<Rightarrow> bool" where
  "char_isdigit c \<longleftrightarrow> of_char c \<in> {48 :: nat..57}"

definition char_isupper :: "char \<Rightarrow> bool" where
  "char_isupper c \<longleftrightarrow> of_char c \<in> {65 :: nat..90}"

definition char_isalpha :: "char \<Rightarrow> bool" where
  "char_isalpha c \<longleftrightarrow> char_isupper c \<or> of_char c \<in> {97 :: nat..122}"

text \<open>\<open>std::stoi\<close> on digits: it throws beyond the largest \<open>int\<close>.\<close>

definition stoi :: "string \<Rightarrow> nat option" where
  "stoi ds = (let n = foldl (\<lambda>n c. 10 * n + (of_char c - 48)) 0 ds in if n < 2 ^ 31 then Some n else None)"

text \<open>The attribute of a name: none, a single letter (a variable) or a number.\<close>

definition with_attribute :: "symbol \<Rightarrow> string \<Rightarrow> symbol option" where
  "with_attribute s attr =
     (case s of Symbol k a v \<Rightarrow>
       if attr = [] then Some s
       else if length attr = 1 \<and> char_isalpha (hd attr) then Some (Symbol k a (of_nat (of_char (hd attr))))
       else if \<forall>c \<in> set attr. char_isdigit c then do { n \<leftarrow> stoi attr; Some (Symbol k (of_nat n) v) }
       else None)"

definition strToSymbol :: "cf_grammar \<Rightarrow> string \<Rightarrow> symbol option" where
  "strToSymbol g str = do {
     k \<leftarrow> strToKind g (extractKindStrFromSymbolStr str);
     with_attribute (Symbol (of_nat k) 0 0) (extractAttributeStrFromSymbolStr str)
   }"

definition insertTerminalKind :: "string \<Rightarrow> cf_grammar \<Rightarrow> (nat \<times> cf_grammar) option" where
  "insertTerminalKind str g =
     (if map_of (terminals g) str = None
      then Some (totalKind g, g\<lparr>totalKind := u32 (totalKind g + 1), terminals := (str, totalKind g) # terminals g\<rparr>)
      else do { k \<leftarrow> strToKind g str; Some (k, g) })"

definition insertNonterminalKind :: "string \<Rightarrow> cf_grammar \<Rightarrow> (nat \<times> cf_grammar) option" where
  "insertNonterminalKind str g =
     (if map_of (nonterminals g) str = None
      then Some (totalKind g, g\<lparr>totalKind := u32 (totalKind g + 1), nonterminals := (str, totalKind g) # nonterminals g\<rparr>)
      else do { k \<leftarrow> strToKind g str; Some (k, g) })"

text \<open>An attribute marks the kind in \<open>attributeKinds\<close>.\<close>

definition mark_attribute :: "symbol \<Rightarrow> string \<Rightarrow> cf_grammar \<Rightarrow> (symbol \<times> cf_grammar) option" where
  "mark_attribute s attr g = do {
     t \<leftarrow> with_attribute s attr;
     Some (t, if attr = [] then g else g\<lparr>attributeKinds := List.insert (unat (sym_kind s)) (attributeKinds g)\<rparr>)
   }"

definition insertNonTerminalSymbol :: "string \<Rightarrow> cf_grammar \<Rightarrow> (symbol \<times> cf_grammar) option" where
  "insertNonTerminalSymbol str g = do {
     (k, g) \<leftarrow> insertNonterminalKind (extractKindStrFromSymbolStr str) g;
     mark_attribute (Symbol (of_nat k) 0 0) (extractAttributeStrFromSymbolStr str) g
   }"

definition insertTerminalSymbol :: "string \<Rightarrow> cf_grammar \<Rightarrow> (symbol \<times> cf_grammar) option" where
  "insertTerminalSymbol str g = do {
     (k, g) \<leftarrow> insertTerminalKind (extractKindStrFromSymbolStr str) g;
     mark_attribute (Symbol (of_nat k) 0 0) (extractAttributeStrFromSymbolStr str) g
   }"

definition insertEBNFSigns :: "string \<Rightarrow> cf_grammar \<Rightarrow> (symbol \<times> cf_grammar) option" where
  "insertEBNFSigns str g =
     (if map_of (EBNFSigns g) str = None
      then let s = sym_of_num (totalKind g)
           in Some (s, g\<lparr>totalKind := u32 (totalKind g + 1), EBNFSigns := (str, num_of_sym s) # EBNFSigns g\<rparr>)
      else do { k \<leftarrow> strToKind g str; Some (sym_of_num k, g) })"

definition insertSymbol :: "string \<Rightarrow> cf_grammar \<Rightarrow> (symbol \<times> cf_grammar) option" where
  "insertSymbol str g =
     (if length str = 1 \<and> \<not> char_isalpha (hd str) then insertEBNFSigns str g
      else if str \<noteq> [] \<and> char_isupper (hd str) then insertNonTerminalSymbol str g
      else insertTerminalSymbol str g)"

definition insertAttribute :: "nat \<Rightarrow> nat \<Rightarrow> cf_grammar \<Rightarrow> cf_grammar" where
  "insertAttribute k a g =
     g\<lparr>attributeKinds := List.insert k (attributeKinds g),
       kindToAttrsMap := AList.update k (List.insert a (km_get [] (kindToAttrsMap g) k)) (kindToAttrsMap g)\<rparr>"

section \<open>Productions in normal form\<close>

definition getLHSSymbol :: "production \<Rightarrow> symbol option" where
  "getLHSSymbol p = (if 0 < length p then Some (p ! 0) else None)"

definition getFirstRHSSymbol :: "production \<Rightarrow> symbol option" where
  "getFirstRHSSymbol p = (if 1 < length p then Some (p ! 1) else None)"

definition getSecondRHSSymbol :: "production \<Rightarrow> symbol option" where
  "getSecondRHSSymbol p = (if 2 < length p then Some (p ! 2) else None)"

definition hasProdsFromSingleRHS :: "cf_grammar \<Rightarrow> symbol \<Rightarrow> bool" where
  "hasProdsFromSingleRHS g s \<longleftrightarrow> map_of (singleRHSToProds g) s \<noteq> None"

definition hasProdsFromFirstRHS :: "cf_grammar \<Rightarrow> symbol \<Rightarrow> bool" where
  "hasProdsFromFirstRHS g s \<longleftrightarrow> map_of (firstRHSToProds g) s \<noteq> None"

definition hasProdsFromSecondRHS :: "cf_grammar \<Rightarrow> symbol \<Rightarrow> bool" where
  "hasProdsFromSecondRHS g s \<longleftrightarrow> map_of (secondRHSToProds g) s \<noteq> None"

definition getProdsFromSingleRHS :: "cf_grammar \<Rightarrow> symbol \<Rightarrow> production list option" where
  "getProdsFromSingleRHS g s = map_of (singleRHSToProds g) s"

definition getProdsFromFirstRHS :: "cf_grammar \<Rightarrow> symbol \<Rightarrow> production list option" where
  "getProdsFromFirstRHS g s = map_of (firstRHSToProds g) s"

definition getProdsFromSecondRHS :: "cf_grammar \<Rightarrow> symbol \<Rightarrow> production list option" where
  "getProdsFromSecondRHS g s = map_of (secondRHSToProds g) s"

text \<open>\<open>m[s].insert(p)\<close>.\<close>

definition add_prod :: "symbol \<Rightarrow> production \<Rightarrow> (symbol \<times> production list) list \<Rightarrow> (symbol \<times> production list) list" where
  "add_prod s p m = AList.update s (List.insert p (km_get [] m s)) m"

definition insertToCFLGrammar :: "production \<Rightarrow> cf_grammar \<Rightarrow> cf_grammar option" where
  "insertToCFLGrammar p g = do {
     g \<leftarrow> (if length p = 2 then do {
         k \<leftarrow> strToKind g ''epsilon'';
         if \<exists>s \<in> set p. num_of_sym s = k
         then Some (g\<lparr>epsilonProds := List.insert p (epsilonProds g)\<rparr>)
         else Some (g\<lparr>singleRHSToProds := add_prod (p ! 1) p (singleRHSToProds g)\<rparr>)
       } else Some g);
     Some (if length p = 3 then
       g\<lparr>firstRHSToProds := add_prod (p ! 1) p (firstRHSToProds g),
         secondRHSToProds := add_prod (p ! 2) p (secondRHSToProds g)\<rparr>
       else g)
   }"

section \<open>Attribute variables\<close>

text \<open>The first variable of a production, 0 if there is none.\<close>

fun first_variable :: "production \<Rightarrow> 8 word" where
  "first_variable [] = 0"
| "first_variable (s # p) = (if sym_vattr s \<noteq> 0 then sym_vattr s else first_variable p)"

definition fill_symbol :: "8 word \<Rightarrow> nat \<Rightarrow> symbol \<Rightarrow> symbol" where
  "fill_symbol v a s = (if sym_vattr s = v then Symbol (sym_kind s) (of_nat a) 0 else s)"

partial_function (option) fill_loop :: "nat list \<Rightarrow> production fifo \<Rightarrow> production list \<Rightarrow> production list option" where
  "fill_loop attrs w normalProds =
     (if fifo_empty w then Some normalProds
      else do {
        (currentProduction, w) \<leftarrow> fifo_pop w;
        let v = first_variable currentProduction;
        if v = 0 then fill_loop attrs w (List.insert currentProduction normalProds)
        else do {
          let (w, normalProds) = fold (\<lambda>a (w, normalProds).
            let p = map (fill_symbol v a) currentProduction
            in if \<exists>s \<in> set p. sym_vattr s \<noteq> 0 then (snd (fifo_push w p), normalProds)
               else (w, List.insert p normalProds)) attrs (w, normalProds);
          fill_loop attrs w normalProds
        }
      })"

definition getFilledProductions :: "production \<Rightarrow> nat list \<Rightarrow> production list option" where
  "getFilledProductions p attrs = fill_loop attrs (snd (fifo_push fifo_new p)) []"

definition fillAttribute :: "cf_grammar \<Rightarrow> (nat \<times> nat list) list \<Rightarrow> cf_grammar option" where
  "fillAttribute g kindToAttrs = do {
     let attrs = fold List.insert (concat (map snd kindToAttrs)) [];
     ofold (\<lambda>(s, prods). ofold (\<lambda>p g. do {
         normalProds \<leftarrow> getFilledProductions (s # p) attrs;
         ofold insertToCFLGrammar normalProds g
       }) prods) (rawProductions g) g
   }"

end
