(* ===== verification/CFLReach.thy ===== *)
theory CFLReach
  imports CFLGrammar
begin

text \<open>
  What CFL reachability is, and the part of the solver that all its versions inherit
  (\<open>CFLSolver::solve\<close> of svf/lib/CFL/CFLSolver.cpp): the loop over the work list. The locale
  \<open>cfl_engine\<close> says what a version promises of processing an edge; the loop then returns, and its edges
  are closed under the grammar.
\<close>

section \<open>The loop\<close>

text \<open>The virtual methods, with the items of the work list.\<close>

record ('s, 'x) cfl_ops =
  op_initialize :: "'s \<Rightarrow> 's option"
  op_empty :: "'s \<Rightarrow> bool"
  op_pop :: "'s \<Rightarrow> ('x \<times> 's) option"
  op_process :: "'x \<Rightarrow> 's \<Rightarrow> 's option"

partial_function (option) cfl_loop :: "('s, 'x) cfl_ops \<Rightarrow> 's \<Rightarrow> 's option" where
  "cfl_loop ops st =
     (if op_empty ops st then Some st
      else do {
        (Y_edge, st) \<leftarrow> op_pop ops st;
        st \<leftarrow> op_process ops Y_edge st;
        cfl_loop ops st
      })"

definition cfl_solve :: "('s, 'x) cfl_ops \<Rightarrow> 's \<Rightarrow> 's option" where
  "cfl_solve ops st = do { st \<leftarrow> op_initialize ops st; cfl_loop ops st }"

section \<open>Reachability\<close>

text \<open>The productions of the tables, and that the tables fit together.\<close>

definition eps_syms :: "cf_grammar \<Rightarrow> symbol set" where
  "eps_syms g = {X. \<exists>p \<in> set (epsilonProds g). getLHSSymbol p = Some X}"

definition single_prods :: "cf_grammar \<Rightarrow> (symbol \<times> symbol) set" where
  "single_prods g = {(X, Y). \<exists>ps. getProdsFromSingleRHS g Y = Some ps \<and> (\<exists>p \<in> set ps. getLHSSymbol p = Some X)}"

definition pair_prods :: "cf_grammar \<Rightarrow> (symbol \<times> symbol \<times> symbol) set" where
  "pair_prods g = {(X, Y, Z). \<exists>ps. getProdsFromFirstRHS g Y = Some ps \<and>
     (\<exists>p \<in> set ps. getLHSSymbol p = Some X \<and> getSecondRHSSymbol p = Some Z)}"

definition grammar_ok :: "cf_grammar \<Rightarrow> bool" where
  "grammar_ok g \<longleftrightarrow> (\<forall>p \<in> set (epsilonProds g). length p = 2) \<and>
     (\<forall>Y ps. getProdsFromSingleRHS g Y = Some ps \<longrightarrow> (\<forall>p \<in> set ps. length p = 2)) \<and>
     (\<forall>Y ps. getProdsFromFirstRHS g Y = Some ps \<longrightarrow> (\<forall>p \<in> set ps. length p = 3)) \<and>
     (\<forall>Z ps. getProdsFromSecondRHS g Z = Some ps \<longrightarrow> (\<forall>p \<in> set ps. length p = 3)) \<and>
     (\<forall>X Y Z. (X, Y, Z) \<in> pair_prods g \<longleftrightarrow>
        (\<exists>ps. getProdsFromSecondRHS g Z = Some ps \<and> (\<exists>p \<in> set ps. getLHSSymbol p = Some X \<and> getFirstRHSSymbol p = Some Y)))"

type_synonym sym_edge = "symbol \<times> NodeID \<times> NodeID"

inductive cfl_reach :: "cf_grammar \<Rightarrow> NodeID set \<Rightarrow> sym_edge set \<Rightarrow> symbol \<Rightarrow> NodeID \<Rightarrow> NodeID \<Rightarrow> bool" for g N E where
  reach_edge: "(X, i, j) \<in> E \<Longrightarrow> cfl_reach g N E X i j"
| reach_eps: "X \<in> eps_syms g \<Longrightarrow> i \<in> N \<Longrightarrow> cfl_reach g N E X i i"
| reach_single: "(X, Y) \<in> single_prods g \<Longrightarrow> cfl_reach g N E Y i j \<Longrightarrow> cfl_reach g N E X i j"
| reach_pair: "(X, Y, Z) \<in> pair_prods g \<Longrightarrow> cfl_reach g N E Y i j \<Longrightarrow> cfl_reach g N E Z j k \<Longrightarrow> cfl_reach g N E X i k"

text \<open>The same by words: a derivation from a symbol and a path that spells the word.\<close>

inductive yields :: "cf_grammar \<Rightarrow> symbol \<Rightarrow> symbol list \<Rightarrow> bool" for g where
  yields_symbol: "yields g X [X]"
| yields_eps: "X \<in> eps_syms g \<Longrightarrow> yields g X []"
| yields_single: "(X, Y) \<in> single_prods g \<Longrightarrow> yields g Y w \<Longrightarrow> yields g X w"
| yields_pair: "(X, Y, Z) \<in> pair_prods g \<Longrightarrow> yields g Y u \<Longrightarrow> yields g Z v \<Longrightarrow> yields g X (u @ v)"

fun spells :: "NodeID set \<Rightarrow> sym_edge set \<Rightarrow> NodeID \<Rightarrow> symbol list \<Rightarrow> NodeID \<Rightarrow> bool" where
  "spells N E i [] j \<longleftrightarrow> i = j \<and> i \<in> N"
| "spells N E i (X # w) j \<longleftrightarrow> (\<exists>k. (X, i, k) \<in> E \<and> spells N E k w j)"

definition ends_in :: "NodeID set \<Rightarrow> sym_edge set \<Rightarrow> bool" where
  "ends_in N E \<longleftrightarrow> (\<forall>(X, i, j) \<in> E. i \<in> N \<and> j \<in> N)"

lemma spells_nodes: "ends_in N E \<Longrightarrow> spells N E i w j \<Longrightarrow> i \<in> N \<and> j \<in> N"
  by (induction w arbitrary: i) (auto simp: ends_in_def)

lemma spells_append:
  "ends_in N E \<Longrightarrow> spells N E i (u @ v) j \<longleftrightarrow> (\<exists>k. spells N E i u k \<and> spells N E k v j)"
proof (induction u arbitrary: i)
  case Nil
  then show ?case using spells_nodes [OF Nil, of i v j] by auto
next
  case (Cons X u)
  then show ?case by auto
qed

lemma cfl_reach_iff:
  assumes N: "ends_in N E"
  shows "cfl_reach g N E X i j \<longleftrightarrow> (\<exists>w. spells N E i w j \<and> yields g X w)"
proof
  show "cfl_reach g N E X i j \<Longrightarrow> \<exists>w. spells N E i w j \<and> yields g X w"
  proof (induction rule: cfl_reach.induct)
    case (reach_edge X i j)
    then have "spells N E i [X] j" using N by (auto simp: ends_in_def)
    then show ?case using yields_symbol by blast
  next
    case (reach_eps X i)
    then have "spells N E i [] i" by simp
    then show ?case using yields_eps [OF reach_eps(1)] by blast
  next
    case (reach_single X Y i j)
    then show ?case using yields_single by blast
  next
    case (reach_pair X Y Z i j k)
    then obtain u v where "spells N E i u j" "yields g Y u" "spells N E j v k" "yields g Z v" by blast
    then show ?case using spells_append [OF N, of i u v k] yields_pair [OF reach_pair(1)] by blast
  qed
next
  have "yields g X w \<Longrightarrow> spells N E i w j \<Longrightarrow> cfl_reach g N E X i j" for w i j
  proof (induction arbitrary: i j rule: yields.induct)
    case (yields_symbol X)
    then show ?case by (auto intro: reach_edge)
  next
    case (yields_eps X)
    then show ?case by (auto intro: reach_eps)
  next
    case (yields_single X Y w)
    then show ?case by (blast intro: reach_single)
  next
    case (yields_pair X Y Z u v)
    then show ?case using spells_append [OF N, of i u v j] by (blast intro: reach_pair)
  qed
  then show "\<exists>w. spells N E i w j \<and> yields g X w \<Longrightarrow> cfl_reach g N E X i j" by blast
qed

section \<open>Edges by symbol\<close>

text \<open>The edges of a graph by symbol.\<close>

definition sym_edges :: "cfl_graph \<Rightarrow> sym_edge set" where
  "sym_edges G = (\<lambda>e. (edge_symbol e, getSrcID e, getDstID e)) ` set (cflEdgeSet G)"

text \<open>A set of edges closed under the grammar.\<close>

definition cfl_closed :: "cf_grammar \<Rightarrow> NodeID set \<Rightarrow> sym_edge set \<Rightarrow> bool" where
  "cfl_closed g N D \<longleftrightarrow> (\<forall>X \<in> eps_syms g. \<forall>i \<in> N. (X, i, i) \<in> D) \<and>
     (\<forall>X Y i j. (X, Y) \<in> single_prods g \<longrightarrow> (Y, i, j) \<in> D \<longrightarrow> (X, i, j) \<in> D) \<and>
     (\<forall>X Y Z i j k. (X, Y, Z) \<in> pair_prods g \<longrightarrow> (Y, i, j) \<in> D \<longrightarrow> (Z, j, k) \<in> D \<longrightarrow> (X, i, k) \<in> D)"

lemma cfl_closed_reach: "cfl_closed g N {(X, i, j). cfl_reach g N E X i j}"
  by (auto simp: cfl_closed_def intro: reach_eps reach_single reach_pair)

lemma cfl_reach_least:
  "cfl_closed g N D \<Longrightarrow> E \<subseteq> D \<Longrightarrow> cfl_reach g N E X i j \<Longrightarrow> (X, i, j) \<in> D"
  by (erule cfl_reach.induct) (auto simp: cfl_closed_def)

lemma edge_symbol_GEdge [simp]: "edge_symbol (GEdge (num_of_sym X) i j) = X"
  by (simp add: edge_symbol_def u32_id [OF num_of_sym_bound])

lemma sym_edges_mem:
  "cfl_ok G \<Longrightarrow> (X, i, j) \<in> sym_edges G \<longleftrightarrow> GEdge (num_of_sym X) i j \<in> set (cflEdgeSet G)"
proof
  assume ok: "cfl_ok G" and "(X, i, j) \<in> sym_edges G"
  then obtain e where e: "e \<in> set (cflEdgeSet G)" "X = edge_symbol e" "i = getSrcID e" "j = getDstID e"
    by (auto simp: sym_edges_def)
  have "edgeFlag e < 2 ^ 32" using ok e(1) by (simp add: cfl_ok_def)
  then have "num_of_sym X = edgeFlag e" using e(2) by (simp add: edge_symbol_def u32_id num_of_sym_of_num)
  then show "GEdge (num_of_sym X) i j \<in> set (cflEdgeSet G)" using e by (cases e) simp
next
  assume "GEdge (num_of_sym X) i j \<in> set (cflEdgeSet G)"
  then show "(X, i, j) \<in> sym_edges G" by (force simp: sym_edges_def)
qed

text \<open>The edges at a node by symbol.\<close>

lemma node_out:
  assumes "cfl_ok G" "cfl_getGNode G j = Some n"
  shows "getDstID ` set (getOutEdgeWithTy n Z) = {k. (Z, j, k) \<in> sym_edges G}"
proof -
  have "set (getOutEdgeWithTy n Z) = {e \<in> set (cflEdgeSet G). getSrcID e = j \<and> edge_symbol e = Z}"
    using assms by (auto simp: cfl_ok_def cfl_getGNode_def out_ok_def)
  then show ?thesis by (force simp: sym_edges_def)
qed

lemma node_in:
  assumes "cfl_ok G" "cfl_getGNode G j = Some n"
  shows "getSrcID ` set (getInEdgeWithTy n Z) = {k. (Z, k, j) \<in> sym_edges G}"
proof -
  have "set (getInEdgeWithTy n Z) = {e \<in> set (cflEdgeSet G). getDstID e = j \<and> edge_symbol e = Z}"
    using assms by (auto simp: cfl_ok_def cfl_getGNode_def in_ok_def)
  then show ?thesis by (force simp: sym_edges_def)
qed

lemma sym_edges_nodes: "cfl_ok G \<Longrightarrow> (X, i, j) \<in> sym_edges G \<Longrightarrow> i \<in> set (cfl_nodes G) \<and> j \<in> set (cfl_nodes G)"
  by (auto simp: sym_edges_def cfl_ok_def)

section \<open>States of a solver\<close>

text \<open>
  A state has a graph and the edges of its work list; \<open>ok D s\<close>: the state is consistent and its edges are
  among \<open>D\<close>. \<open>extends D s t\<close>: \<open>t\<close> has the edges of \<open>s\<close> and maybe more, all of which wait in the
  work list.
\<close>

locale cfl_state =
  fixes graph :: "'s \<Rightarrow> cfl_graph" and work :: "'s \<Rightarrow> gedge set" and ok :: "sym_edge set \<Rightarrow> 's \<Rightarrow> bool"
  assumes ok_law: "ok D s \<Longrightarrow> cfl_ok (graph s) \<and> work s \<subseteq> set (cflEdgeSet (graph s)) \<and> sym_edges (graph s) \<subseteq> D"
begin

definition extends :: "sym_edge set \<Rightarrow> 's \<Rightarrow> 's \<Rightarrow> bool" where
  "extends D s t \<longleftrightarrow> (ok D s \<longrightarrow> ok D t \<and> cfl_nodes (graph t) = cfl_nodes (graph s) \<and>
     set (cflEdgeSet (graph s)) \<subseteq> set (cflEdgeSet (graph t)) \<and>
     work t = work s \<union> (set (cflEdgeSet (graph t)) - set (cflEdgeSet (graph s))))"

definition has_edge :: "sym_edge \<Rightarrow> 's \<Rightarrow> bool" where
  "has_edge x st \<longleftrightarrow> x \<in> sym_edges (graph st)"

lemma extends_refl: "extends D s s"
  by (simp add: extends_def)

lemma extends_trans: "extends D s t \<Longrightarrow> extends D t u \<Longrightarrow> extends D s u"
  by (auto simp: extends_def)

lemma extends_edges: "extends D s t \<Longrightarrow> ok D s \<Longrightarrow> sym_edges (graph s) \<subseteq> sym_edges (graph t)"
  by (auto simp: extends_def sym_edges_def)

lemma extends_ok: "extends D s t \<Longrightarrow> ok D s \<Longrightarrow> ok D t \<and> cfl_nodes (graph t) = cfl_nodes (graph s)"
  by (simp add: extends_def)

text \<open>A loop all of whose passes extend the state.\<close>

lemma ofold_extends:
  assumes ok: "ok D s"
    and step: "\<And>x t. x \<in> set xs \<Longrightarrow> extends D s t \<Longrightarrow> ok D t \<Longrightarrow>
      \<exists>u. f x t = Some u \<and> extends D t u \<and> (\<forall>y \<in> A x. has_edge y u)"
  shows "\<exists>t. ofold f xs s = Some t \<and> extends D s t \<and> (\<forall>x \<in> set xs. \<forall>y \<in> A x. has_edge y t)"
proof -
  have "\<exists>t. ofold f xs s = Some t \<and> extends D s t \<and> (\<forall>x \<in> set xs. ok D t \<and> (\<forall>y \<in> A x. has_edge y t))"
  proof (rule ofold_rel [where R = "extends D" and Q = "\<lambda>x t. ok D t \<and> (\<forall>y \<in> A x. has_edge y t)"])
    fix x t u
    assume "ok D t \<and> (\<forall>y \<in> A x. has_edge y t)" "extends D t u"
    then show "ok D u \<and> (\<forall>y \<in> A x. has_edge y u)"
      using extends_edges [of D t u] by (auto simp: has_edge_def extends_def)
  next
    fix x t assume x: "x \<in> set xs" "extends D s t"
    then have t: "ok D t" using ok by (simp add: extends_def)
    from step [OF x t] obtain u where u: "f x t = Some u" "extends D t u" "\<forall>y \<in> A x. has_edge y u" by blast
    then show "\<exists>u. f x t = Some u \<and> extends D t u \<and> ok D u \<and> (\<forall>y \<in> A x. has_edge y u)"
      using t by (simp add: extends_def)
  qed (use extends_refl extends_trans in blast)+
  then show ?thesis by blast
qed

text \<open>What processing an edge must add, given the edges before: all its combinations with them.\<close>

definition combines :: "cf_grammar \<Rightarrow> gedge \<Rightarrow> 's \<Rightarrow> 's \<Rightarrow> bool" where
  "combines g e s t \<longleftrightarrow>
     (\<forall>X. (X, edge_symbol e) \<in> single_prods g \<longrightarrow> has_edge (X, getSrcID e, getDstID e) t) \<and>
     (\<forall>X Z k. (X, edge_symbol e, Z) \<in> pair_prods g \<longrightarrow> (Z, getDstID e, k) \<in> sym_edges (graph s) \<longrightarrow>
        has_edge (X, getSrcID e, k) t) \<and>
     (\<forall>X Z k. (X, Z, edge_symbol e) \<in> pair_prods g \<longrightarrow> (Z, k, getSrcID e) \<in> sym_edges (graph s) \<longrightarrow>
        has_edge (X, k, getDstID e) t)"

text \<open>Edges outside the work list have been combined with each other.\<close>

definition settled_edges :: "'s \<Rightarrow> gedge set" where
  "settled_edges st = set (cflEdgeSet (graph st)) - work st"

definition combined :: "cf_grammar \<Rightarrow> 's \<Rightarrow> bool" where
  "combined g st \<longleftrightarrow> (\<forall>e \<in> settled_edges st.
     (\<forall>X. (X, edge_symbol e) \<in> single_prods g \<longrightarrow> has_edge (X, getSrcID e, getDstID e) st) \<and>
     (\<forall>f \<in> settled_edges st. \<forall>X. (X, edge_symbol e, edge_symbol f) \<in> pair_prods g \<longrightarrow> getDstID e = getSrcID f \<longrightarrow>
        has_edge (X, getSrcID e, getDstID f) st))"

lemma combined_insert:
  assumes ext: "extends D s t" and ok: "ok D s" and mem: "e \<in> set (cflEdgeSet (graph s))"
    and work: "e \<in> W" "work s = W - {e}" and comb: "combines g e s t"
    and old: "\<And>f f' X. f \<in> set (cflEdgeSet (graph s)) - W \<Longrightarrow>
      ((X, edge_symbol f) \<in> single_prods g \<longrightarrow> has_edge (X, getSrcID f, getDstID f) s) \<and>
      (f' \<in> set (cflEdgeSet (graph s)) - W \<longrightarrow> (X, edge_symbol f, edge_symbol f') \<in> pair_prods g \<longrightarrow>
        getDstID f = getSrcID f' \<longrightarrow> has_edge (X, getSrcID f, getDstID f') s)"
  shows "combined g t"
proof -
  let ?S = "set (cflEdgeSet (graph s)) - W"
  have settled: "settled_edges t = insert e ?S"
    using ext ok mem work ok_law [OF ok] by (auto simp: settled_edges_def extends_def)
  have mono: "has_edge x s \<Longrightarrow> has_edge x t" for x
    using extends_edges [OF ext ok] by (auto simp: has_edge_def)
  have sym: "(edge_symbol f, getSrcID f, getDstID f) \<in> sym_edges (graph s)" if "f \<in> insert e ?S" for f
    using that mem by (auto simp: sym_edges_def)
  show ?thesis
    unfolding combined_def settled
  proof (intro ballI conjI allI impI, goal_cases)
    case (1 f X)
    then show ?case using comb old mono by (auto simp: combines_def)
  next
    case (2 f f' X)
    then have "has_edge (X, getSrcID f, getDstID f') t" if "f = e"
      using comb sym [of f'] that by (auto simp: combines_def)
    moreover have "has_edge (X, getSrcID f, getDstID f') t" if "f' = e"
      using comb sym [of f] that 2 by (auto simp: combines_def)
    moreover have "has_edge (X, getSrcID f, getDstID f') t" if "f \<in> ?S" "f' \<in> ?S"
      using old mono that 2 by blast
    ultimately show ?case using 2 by blast
  qed
qed

end

definition edge_universe :: "NodeID set \<Rightarrow> gedge set" where
  "edge_universe N = (\<lambda>(f, i, j). GEdge f i j) ` ({..< 2 ^ 32} \<times> N \<times> N)"

lemma finite_edge_universe: "finite N \<Longrightarrow> finite (edge_universe N)"
  by (simp add: edge_universe_def)

lemma edges_in_universe: "cfl_ok G \<Longrightarrow> set (cflEdgeSet G) \<subseteq> edge_universe (set (cfl_nodes G))"
proof
  fix e assume "cfl_ok G" "e \<in> set (cflEdgeSet G)"
  then have "edgeFlag e < 2 ^ 32" "getSrcID e \<in> set (cfl_nodes G)" "getDstID e \<in> set (cfl_nodes G)"
    by (auto simp: cfl_ok_def)
  then show "e \<in> edge_universe (set (cfl_nodes G))"
    unfolding edge_universe_def by (intro image_eqI [of _ _ "(edgeFlag e, getSrcID e, getDstID e)"]) auto
qed

section \<open>The contract of a solver\<close>

text \<open>
  \<open>good g\<close>: the grammars the solver works for. \<open>used g\<close>: the productions it goes by, all of them in the
  first two solvers.
\<close>

locale cfl_engine = cfl_state graph work ok
  for graph :: "'s \<Rightarrow> cfl_graph" and work :: "'s \<Rightarrow> gedge set" and ok :: "sym_edge set \<Rightarrow> 's \<Rightarrow> bool" +
  fixes ops :: "cf_grammar \<Rightarrow> ('s, 'x) cfl_ops" and good :: "cf_grammar \<Rightarrow> bool" and used :: "cf_grammar \<Rightarrow> cf_grammar"
  assumes empty_law: "ok D s \<Longrightarrow> op_empty (ops g) s \<longleftrightarrow> work s = {}"
    and step_law: "good g \<Longrightarrow> ok D s \<Longrightarrow> work s \<noteq> {} \<Longrightarrow> cfl_closed (used g) N D \<Longrightarrow>
      \<exists>x e s' t. op_pop (ops g) s = Some (x, s') \<and> graph s' = graph s \<and> e \<in> work s \<and> work s' = work s - {e} \<and>
        ok D s' \<and> op_process (ops g) x s' = Some t \<and> extends D s' t \<and> combines (used g) e s' t"
begin

lemma loop_step:
  assumes g: "good g" and c: "cfl_closed (used g) N D" and ok: "ok D st" and comb: "combined (used g) st" and ne: "work st \<noteq> {}"
  shows "\<exists>t. cfl_loop (ops g) st = cfl_loop (ops g) t \<and> ok D t \<and> combined (used g) t \<and>
    cfl_nodes (graph t) = cfl_nodes (graph st) \<and> set (cflEdgeSet (graph st)) \<subseteq> set (cflEdgeSet (graph t)) \<and>
    (set (cflEdgeSet (graph t)) = set (cflEdgeSet (graph st)) \<longrightarrow> card (work t) < card (work st))"
proof -
  obtain x e s t where p: "op_pop (ops g) st = Some (x, s)" "graph s = graph st" "e \<in> work st" "work s = work st - {e}" "ok D s"
      "op_process (ops g) x s = Some t" "extends D s t" "combines (used g) e s t"
    using step_law [OF g ok ne c] by blast
  have fin: "finite (work st)" using ok_law [OF ok] by (meson finite_subset List.finite_set)
  have mem: "e \<in> set (cflEdgeSet (graph s))" using p(2,3) ok_law [OF ok] by auto
  have "cfl_loop (ops g) st = cfl_loop (ops g) t" using ne empty_law [OF ok] p(1,6) by (subst cfl_loop.simps) simp
  moreover have "combined (used g) t"
  proof (rule combined_insert [OF p(7,5) mem p(3,4,8)], goal_cases)
    case (1 f f' X)
    then have "f \<in> settled_edges st" using p(2) by (simp add: settled_edges_def)
    then show ?case using comb p(2) by (auto simp: combined_def settled_edges_def has_edge_def)
  qed
  moreover have "ok D t" "cfl_nodes (graph t) = cfl_nodes (graph st)" "set (cflEdgeSet (graph st)) \<subseteq> set (cflEdgeSet (graph t))"
    "work t = work s \<union> (set (cflEdgeSet (graph t)) - set (cflEdgeSet (graph st)))"
    using p(2,5,7) by (simp_all add: extends_def)
  moreover have "card (work st - {e}) < card (work st)" using fin p(3) by (rule card_Diff1_less)
  ultimately show ?thesis using p(4) by auto
qed

lemma cfl_loop_spec:
  assumes g: "good g" and c: "cfl_closed (used g) N D" and ok: "ok D st" and comb: "combined (used g) st"
  shows "\<exists>t. cfl_loop (ops g) st = Some t \<and> ok D t \<and> combined (used g) t \<and> work t = {} \<and>
    cfl_nodes (graph t) = cfl_nodes (graph st) \<and> set (cflEdgeSet (graph st)) \<subseteq> set (cflEdgeSet (graph t))"
  using ok comb
proof (induction "(card (edge_universe (set (cfl_nodes (graph st))) - set (cflEdgeSet (graph st))), card (work st))"
    arbitrary: st rule: wf_induct_rule [OF wf_lex_prod [OF wf_less_than wf_less_than]])
  case (1 st)
  show ?case
  proof (cases "work st = {}")
    case True
    then have "cfl_loop (ops g) st = Some st" using empty_law [OF 1(2)] by (subst cfl_loop.simps) simp
    then show ?thesis using 1(2,3) True by blast
  next
    case False
    from loop_step [OF g c 1(2,3) False] obtain t where t: "cfl_loop (ops g) st = cfl_loop (ops g) t" "ok D t" "combined (used g) t"
      "cfl_nodes (graph t) = cfl_nodes (graph st)" "set (cflEdgeSet (graph st)) \<subseteq> set (cflEdgeSet (graph t))"
      "set (cflEdgeSet (graph t)) = set (cflEdgeSet (graph st)) \<longrightarrow> card (work t) < card (work st)" by blast
    let ?U = "edge_universe (set (cfl_nodes (graph st)))"
    have fin: "finite ?U" by (rule finite_edge_universe) simp
    have sub: "set (cflEdgeSet (graph t)) \<subseteq> ?U" using edges_in_universe [of "graph t"] t(4) ok_law [OF t(2)] by simp
    have "((card (edge_universe (set (cfl_nodes (graph t))) - set (cflEdgeSet (graph t))), card (work t)),
        (card (?U - set (cflEdgeSet (graph st))), card (work st))) \<in> less_than <*lex*> less_than"
    proof (cases "set (cflEdgeSet (graph t)) = set (cflEdgeSet (graph st))")
      case True
      then show ?thesis using t(4,6) by simp
    next
      case False
      then have "?U - set (cflEdgeSet (graph t)) \<subset> ?U - set (cflEdgeSet (graph st))" using t(5) sub by blast
      then have "card (?U - set (cflEdgeSet (graph t))) < card (?U - set (cflEdgeSet (graph st)))"
        using fin by (intro psubset_card_mono) auto
      then show ?thesis using t(4) by simp
    qed
    from 1(1) [OF this t(2,3)] show ?thesis using t(1,4,5) by auto
  qed
qed

text \<open>
  After an initialisation that waits for all edges, the result is exactly what is derivable from the first
  edges and the empty words it put in.
\<close>

lemma cfl_solve_spec:
  assumes g: "good g" and c: "cfl_closed (used g) N D" and init: "op_initialize (ops g) s0 = Some s" "ok D s" "work s = set (cflEdgeSet (graph s))"
  shows "\<exists>t. cfl_solve (ops g) s0 = Some t \<and> ok D t \<and> cfl_nodes (graph t) = cfl_nodes (graph s) \<and>
    sym_edges (graph s) \<subseteq> sym_edges (graph t) \<and>
    (\<forall>X Y i j. (X, Y) \<in> single_prods (used g) \<longrightarrow> (Y, i, j) \<in> sym_edges (graph t) \<longrightarrow> (X, i, j) \<in> sym_edges (graph t)) \<and>
    (\<forall>X Y Z i j k. (X, Y, Z) \<in> pair_prods (used g) \<longrightarrow> (Y, i, j) \<in> sym_edges (graph t) \<longrightarrow> (Z, j, k) \<in> sym_edges (graph t) \<longrightarrow>
       (X, i, k) \<in> sym_edges (graph t))"
proof -
  have "combined (used g) s" by (simp add: combined_def settled_edges_def init(3))
  then obtain t where t: "cfl_loop (ops g) s = Some t" "ok D t" "combined (used g) t" "work t = {}" "cfl_nodes (graph t) = cfl_nodes (graph s)"
      "set (cflEdgeSet (graph s)) \<subseteq> set (cflEdgeSet (graph t))"
    using cfl_loop_spec [OF g c init(2)] by blast
  have settled: "settled_edges t = set (cflEdgeSet (graph t))" using t(4) by (simp add: settled_edges_def)
  have "(X, i, j) \<in> sym_edges (graph t)" if "(X, Y) \<in> single_prods (used g)" "(Y, i, j) \<in> sym_edges (graph t)" for X Y i j
    using t(3) that unfolding combined_def settled by (auto simp: sym_edges_def has_edge_def)
  moreover have "(X, i, k) \<in> sym_edges (graph t)"
    if p: "(X, Y, Z) \<in> pair_prods (used g)" "(Y, i, j) \<in> sym_edges (graph t)" "(Z, j, k) \<in> sym_edges (graph t)" for X Y Z i j k
  proof -
    obtain e f where "e \<in> set (cflEdgeSet (graph t))" "f \<in> set (cflEdgeSet (graph t))"
      "Y = edge_symbol e" "Z = edge_symbol f" "i = getSrcID e" "j = getDstID e" "j = getSrcID f" "k = getDstID f"
      using p(2,3) by (auto simp: sym_edges_def)
    then show ?thesis using t(3) p(1) unfolding combined_def settled by (auto simp: has_edge_def)
  qed
  moreover have "sym_edges (graph s) \<subseteq> sym_edges (graph t)" using t(6) by (auto simp: sym_edges_def)
  ultimately show ?thesis using init(1) t(1,2,5) by (auto simp: cfl_solve_def)
qed

end

end
