(* ===== verification/CFLSolve.thy ===== *)
theory CFLSolve
  imports CFLReach
begin

text \<open>
  The CFL-reachability solver \<open>CFLSolver\<close> (svf/include/CFL/CFLSolver.h, svf/lib/CFL/CFLSolver.cpp). It returns
  on every graph and grammar, and the graph then has an edge for a symbol between two nodes iff a path of the
  first graph between them spells a word that the grammar derives from the symbol.
\<close>

section \<open>The solver\<close>

record cfl_solver =
  sv_graph :: cfl_graph
  sv_work :: "gedge fifo"

text \<open>\<open>if (newEdge = graph->addCFLEdge(i, j, X)) pushIntoWorklist(newEdge)\<close>.\<close>

definition add_and_push :: "NodeID \<Rightarrow> NodeID \<Rightarrow> symbol \<Rightarrow> cfl_solver \<Rightarrow> cfl_solver option" where
  "add_and_push i j X st = do {
     (new, G) \<leftarrow> addCFLEdge (sv_graph st) i j (num_of_sym X);
     Some (if new then st\<lparr>sv_graph := G, sv_work := snd (fifo_push (sv_work st) (GEdge (num_of_sym X) i j))\<rparr>
           else st\<lparr>sv_graph := G\<rparr>)
   }"

definition cfl_initialize :: "cf_grammar \<Rightarrow> cfl_solver \<Rightarrow> cfl_solver option" where
  "cfl_initialize g st = do {
     let st = fold (\<lambda>(i, n) st. fold (\<lambda>e st. st\<lparr>sv_work := snd (fifo_push (sv_work st) e)\<rparr>) (OutEdges n) st)
       (cflNodes (sv_graph st)) st;
     ofold (\<lambda>p st. ofold (\<lambda>i st. do { X \<leftarrow> getLHSSymbol p; add_and_push i i X st }) (cfl_nodes (sv_graph st)) st)
       (epsilonProds g) st
   }"

definition processCFLEdge :: "cf_grammar \<Rightarrow> gedge \<Rightarrow> cfl_solver \<Rightarrow> cfl_solver option" where
  "processCFLEdge g Y_edge st = do {
     let i = getSrcID Y_edge;
     let j = getDstID Y_edge;
     let Y = edge_symbol Y_edge;
     st \<leftarrow> (if hasProdsFromSingleRHS g Y then do {
         ps \<leftarrow> getProdsFromSingleRHS g Y;
         ofold (\<lambda>p st. do { X \<leftarrow> getLHSSymbol p; add_and_push i j X st }) ps st
       } else Some st);
     st \<leftarrow> (if hasProdsFromFirstRHS g Y then do {
         ps \<leftarrow> getProdsFromFirstRHS g Y;
         ofold (\<lambda>p st. do {
           X \<leftarrow> getLHSSymbol p;
           Z \<leftarrow> getSecondRHSSymbol p;
           n \<leftarrow> cfl_getGNode (sv_graph st) j;
           ofold (\<lambda>Z_edge. add_and_push i (getDstID Z_edge) X) (getOutEdgeWithTy n Z) st
         }) ps st
       } else Some st);
     if hasProdsFromSecondRHS g Y then do {
       ps \<leftarrow> getProdsFromSecondRHS g Y;
       ofold (\<lambda>p st. do {
         X \<leftarrow> getLHSSymbol p;
         Z \<leftarrow> getFirstRHSSymbol p;
         n \<leftarrow> cfl_getGNode (sv_graph st) i;
         ofold (\<lambda>Z_edge. add_and_push (getSrcID Z_edge) j X) (getInEdgeWithTy n Z) st
       }) ps st
     } else Some st
   }"

definition cfl_solver_new :: "cfl_graph \<Rightarrow> cfl_solver" where
  "cfl_solver_new G = \<lparr>sv_graph = G, sv_work = fifo_new\<rparr>"

definition base_ops :: "cf_grammar \<Rightarrow> (cfl_solver, gedge) cfl_ops" where
  "base_ops g = \<lparr>op_initialize = cfl_initialize g, op_empty = (\<lambda>st. fifo_empty (sv_work st)),
     op_pop = (\<lambda>st. do { (e, w) \<leftarrow> fifo_pop (sv_work st); Some (e, st\<lparr>sv_work := w\<rparr>) }),
     op_process = processCFLEdge g\<rparr>"

section \<open>Adding edges\<close>

text \<open>A state whose edges are among \<open>D\<close>, and what later states keep of it.\<close>

definition solver_ok :: "sym_edge set \<Rightarrow> cfl_solver \<Rightarrow> bool" where
  "solver_ok D st \<longleftrightarrow> cfl_ok (sv_graph st) \<and> fifo_inv (sv_work st) \<and>
     set (data_list (sv_work st)) \<subseteq> set (cflEdgeSet (sv_graph st)) \<and> sym_edges (sv_graph st) \<subseteq> D"

definition sv_edges :: "cfl_solver \<Rightarrow> gedge set" where
  "sv_edges st = set (data_list (sv_work st))"

interpretation cs: cfl_state sv_graph sv_edges solver_ok
  by unfold_locales (simp add: solver_ok_def sv_edges_def)

lemma add_and_push_spec:
  assumes ok: "solver_ok D st" and ij: "i \<in> set (cfl_nodes (sv_graph st))" "j \<in> set (cfl_nodes (sv_graph st))"
    and D: "(X, i, j) \<in> D"
  shows "\<exists>st'. add_and_push i j X st = Some st' \<and> cs.extends D st st' \<and> cs.has_edge (X, i, j) st'"
proof -
  let ?e = "GEdge (num_of_sym X) i j"
  have g: "cfl_ok (sv_graph st)" and w: "fifo_inv (sv_work st)" using ok by (simp_all add: solver_ok_def)
  obtain G where G: "addCFLEdge (sv_graph st) i j (num_of_sym X) = Some (?e \<notin> set (cflEdgeSet (sv_graph st)), G)"
      "cfl_ok G" "set (cflEdgeSet G) = insert ?e (set (cflEdgeSet (sv_graph st)))" "cfl_nodes G = cfl_nodes (sv_graph st)"
    using addCFLEdge_spec [OF g ij num_of_sym_bound, of X] by blast
  have e: "sym_edges G = insert (X, i, j) (sym_edges (sv_graph st))" by (simp add: sym_edges_def G(3))
  show ?thesis
  proof (cases "?e \<in> set (cflEdgeSet (sv_graph st))")
    case True
    then have "add_and_push i j X st = Some (st\<lparr>sv_graph := G\<rparr>)" using G(1) by (simp add: add_and_push_def)
    then show ?thesis using ok G True e D by (auto simp: cs.extends_def sv_edges_def solver_ok_def cs.has_edge_def)
  next
    case False
    let ?w = "snd (fifo_push (sv_work st) ?e)"
    have "fifo_inv ?w" "data_list ?w = data_list (sv_work st) @ [?e]"
      using w fifo_push_order [OF w, of ?e] ok False by (auto simp: fifo_defs solver_ok_def)
    moreover have "add_and_push i j X st = Some (st\<lparr>sv_graph := G, sv_work := ?w\<rparr>)"
      using G(1) False by (simp add: add_and_push_def)
    ultimately show ?thesis using ok G False e D by (auto simp: cs.extends_def sv_edges_def solver_ok_def cs.has_edge_def)
  qed
qed

lemma add_loop:
  assumes ok: "solver_ok D st" and xs: "\<And>x. x \<in> set xs \<Longrightarrow> a x \<in> set (cfl_nodes (sv_graph st)) \<and>
      b x \<in> set (cfl_nodes (sv_graph st)) \<and> (X, a x, b x) \<in> D"
  shows "\<exists>t. ofold (\<lambda>x. add_and_push (a x) (b x) X) xs st = Some t \<and> cs.extends D st t \<and>
    (\<forall>x \<in> set xs. cs.has_edge (X, a x, b x) t)"
proof -
  have "\<exists>t. ofold (\<lambda>x. add_and_push (a x) (b x) X) xs st = Some t \<and> cs.extends D st t \<and>
    (\<forall>x \<in> set xs. \<forall>y \<in> {(X, a x, b x)}. cs.has_edge y t)"
  proof (rule cs.ofold_extends [OF ok])
    fix x t assume x: "x \<in> set xs" "cs.extends D st t" "solver_ok D t"
    then have "cfl_nodes (sv_graph t) = cfl_nodes (sv_graph st)" using ok by (simp add: cs.extends_def)
    then show "\<exists>u. add_and_push (a x) (b x) X t = Some u \<and> cs.extends D t u \<and> (\<forall>y \<in> {(X, a x, b x)}. cs.has_edge y u)"
      using add_and_push_spec [OF x(3), of "a x" "b x" X] xs [OF x(1)] by auto
  qed
  then show ?thesis by simp
qed

text \<open>The three parts of processing an edge.\<close>

lemma single_part:
  assumes g: "grammar_ok g" and c: "cfl_closed g N D" and ok: "solver_ok D st" and e: "(Y, i, j) \<in> sym_edges (sv_graph st)"
  shows "\<exists>t. (if hasProdsFromSingleRHS g Y then do {
         ps \<leftarrow> getProdsFromSingleRHS g Y;
         ofold (\<lambda>p st. do { X \<leftarrow> getLHSSymbol p; add_and_push i j X st }) ps st
       } else Some st) = Some t \<and> cs.extends D st t \<and> (\<forall>X. (X, Y) \<in> single_prods g \<longrightarrow> cs.has_edge (X, i, j) t)"
proof (cases "getProdsFromSingleRHS g Y")
  case None
  then show ?thesis
    using cs.extends_refl [of D st] by (auto simp: hasProdsFromSingleRHS_def getProdsFromSingleRHS_def single_prods_def)
next
  case (Some ps)
  have ij: "i \<in> set (cfl_nodes (sv_graph st))" "j \<in> set (cfl_nodes (sv_graph st))" "(Y, i, j) \<in> D"
    using sym_edges_nodes [OF _ e] ok e by (auto simp: solver_ok_def)
  have "\<exists>t. ofold (\<lambda>p st. do { X \<leftarrow> getLHSSymbol p; add_and_push i j X st }) ps st = Some t \<and> cs.extends D st t \<and>
      (\<forall>p \<in> set ps. \<forall>y \<in> {(X, i, j) | X. getLHSSymbol p = Some X}. cs.has_edge y t)"
  proof (rule cs.ofold_extends [OF ok])
    fix p t assume p: "p \<in> set ps" and t: "cs.extends D st t" "solver_ok D t"
    have "length p = 2" using g Some p by (auto simp: grammar_ok_def)
    then obtain X where X: "getLHSSymbol p = Some X" by (simp add: getLHSSymbol_def)
    then have "(X, Y) \<in> single_prods g" using Some p by (auto simp: single_prods_def)
    then have "(X, i, j) \<in> D" using c ij(3) by (auto simp: cfl_closed_def)
    moreover have "cfl_nodes (sv_graph t) = cfl_nodes (sv_graph st)" using t ok by (simp add: cs.extends_def)
    ultimately show "\<exists>u. do { X \<leftarrow> getLHSSymbol p; add_and_push i j X t } = Some u \<and> cs.extends D t u \<and>
        (\<forall>y \<in> {(X, i, j) | X. getLHSSymbol p = Some X}. cs.has_edge y u)"
      using add_and_push_spec [OF t(2), of i j X] ij X by auto
  qed
  then show ?thesis using Some by (fastforce simp: hasProdsFromSingleRHS_def getProdsFromSingleRHS_def single_prods_def)
qed

lemma first_part:
  assumes g: "grammar_ok g" and c: "cfl_closed g N D" and ok: "solver_ok D st" and e: "(Y, i, j) \<in> sym_edges (sv_graph st)"
  shows "\<exists>t. (if hasProdsFromFirstRHS g Y then do {
         ps \<leftarrow> getProdsFromFirstRHS g Y;
         ofold (\<lambda>p st. do {
           X \<leftarrow> getLHSSymbol p;
           Z \<leftarrow> getSecondRHSSymbol p;
           n \<leftarrow> cfl_getGNode (sv_graph st) j;
           ofold (\<lambda>Z_edge. add_and_push i (getDstID Z_edge) X) (getOutEdgeWithTy n Z) st
         }) ps st
       } else Some st) = Some t \<and> cs.extends D st t \<and>
    (\<forall>X Z k. (X, Y, Z) \<in> pair_prods g \<longrightarrow> (Z, j, k) \<in> sym_edges (sv_graph st) \<longrightarrow> cs.has_edge (X, i, k) t)"
proof (cases "getProdsFromFirstRHS g Y")
  case None
  then show ?thesis
    using cs.extends_refl [of D st] by (auto simp: hasProdsFromFirstRHS_def getProdsFromFirstRHS_def pair_prods_def)
next
  case (Some ps)
  have ij: "i \<in> set (cfl_nodes (sv_graph st))" "j \<in> set (cfl_nodes (sv_graph st))" "(Y, i, j) \<in> D"
    using sym_edges_nodes [OF _ e] ok e by (auto simp: solver_ok_def)
  let ?f = "\<lambda>p st. do {
           X \<leftarrow> getLHSSymbol p;
           Z \<leftarrow> getSecondRHSSymbol p;
           n \<leftarrow> cfl_getGNode (sv_graph st) j;
           ofold (\<lambda>Z_edge. add_and_push i (getDstID Z_edge) X) (getOutEdgeWithTy n Z) st
         }"
  let ?A = "\<lambda>p. {(X, i, k) | X Z k. getLHSSymbol p = Some X \<and> getSecondRHSSymbol p = Some Z \<and> (Z, j, k) \<in> sym_edges (sv_graph st)}"
  have "\<exists>t. ofold ?f ps st = Some t \<and> cs.extends D st t \<and> (\<forall>p \<in> set ps. \<forall>y \<in> ?A p. cs.has_edge y t)"
  proof (rule cs.ofold_extends [OF ok])
    fix p t assume p: "p \<in> set ps" and t: "cs.extends D st t" "solver_ok D t"
    have "length p = 3" using g Some p by (auto simp: grammar_ok_def)
    then obtain X Z where XZ: "getLHSSymbol p = Some X" "getSecondRHSSymbol p = Some Z"
      by (simp add: getLHSSymbol_def getSecondRHSSymbol_def)
    then have pr: "(X, Y, Z) \<in> pair_prods g" using Some p by (auto simp: pair_prods_def)
    have gt: "cfl_ok (sv_graph t)" and tD: "sym_edges (sv_graph t) \<subseteq> D" using t(2) by (simp_all add: solver_ok_def)
    have n: "cfl_nodes (sv_graph t) = cfl_nodes (sv_graph st)" using t ok by (simp add: cs.extends_def)
    obtain m where m: "cfl_getGNode (sv_graph t) j = Some m" using ij(2) n cfl_nodes_iff by metis
    note out = node_out [OF gt m, of Z]
    have k: "getDstID ze \<in> set (cfl_nodes (sv_graph t)) \<and> (X, i, getDstID ze) \<in> D" if "ze \<in> set (getOutEdgeWithTy m Z)" for ze
    proof -
      have z: "(Z, j, getDstID ze) \<in> sym_edges (sv_graph t)" using out that by blast
      then have "(Z, j, getDstID ze) \<in> D" using tD by blast
      then have "(X, i, getDstID ze) \<in> D" using c pr ij(3) unfolding cfl_closed_def by blast
      then show ?thesis using sym_edges_nodes [OF gt z] by blast
    qed
    obtain u where u: "ofold (\<lambda>Z_edge. add_and_push i (getDstID Z_edge) X) (getOutEdgeWithTy m Z) t = Some u"
        "cs.extends D t u" "\<forall>ze \<in> set (getOutEdgeWithTy m Z). cs.has_edge (X, i, getDstID ze) u"
      using add_loop [OF t(2), of "getOutEdgeWithTy m Z" "\<lambda>_. i" getDstID X] k ij(1) n by auto
    have "cs.has_edge y u" if y0: "y \<in> ?A p" for y
    proof -
      obtain k where y: "y = (X, i, k)" "(Z, j, k) \<in> sym_edges (sv_graph st)" using y0 XZ by auto
      then have "k \<in> getDstID ` set (getOutEdgeWithTy m Z)" using out cs.extends_edges [OF t(1) ok] by blast
      then show ?thesis using u(3) y(1) by auto
    qed
    then show "\<exists>u. ?f p t = Some u \<and> cs.extends D t u \<and> (\<forall>y \<in> ?A p. cs.has_edge y u)" using XZ m u(1,2) by simp
  qed
  then show ?thesis using Some by (fastforce simp: hasProdsFromFirstRHS_def getProdsFromFirstRHS_def pair_prods_def)
qed

lemma second_part:
  assumes g: "grammar_ok g" and c: "cfl_closed g N D" and ok: "solver_ok D st" and e: "(Y, i, j) \<in> sym_edges (sv_graph st)"
  shows "\<exists>t. (if hasProdsFromSecondRHS g Y then do {
         ps \<leftarrow> getProdsFromSecondRHS g Y;
         ofold (\<lambda>p st. do {
           X \<leftarrow> getLHSSymbol p;
           Z \<leftarrow> getFirstRHSSymbol p;
           n \<leftarrow> cfl_getGNode (sv_graph st) i;
           ofold (\<lambda>Z_edge. add_and_push (getSrcID Z_edge) j X) (getInEdgeWithTy n Z) st
         }) ps st
       } else Some st) = Some t \<and> cs.extends D st t \<and>
    (\<forall>X Z k. (X, Z, Y) \<in> pair_prods g \<longrightarrow> (Z, k, i) \<in> sym_edges (sv_graph st) \<longrightarrow> cs.has_edge (X, k, j) t)"
proof (cases "getProdsFromSecondRHS g Y")
  case None
  then have "(X, Z, Y) \<notin> pair_prods g" for X Z using g by (simp add: grammar_ok_def)
  then show ?thesis
    using cs.extends_refl [of D st] None by (simp add: hasProdsFromSecondRHS_def getProdsFromSecondRHS_def)
next
  case (Some ps)
  have ij: "i \<in> set (cfl_nodes (sv_graph st))" "j \<in> set (cfl_nodes (sv_graph st))" "(Y, i, j) \<in> D"
    using sym_edges_nodes [OF _ e] ok e by (auto simp: solver_ok_def)
  have pairs: "(X, Z, Y) \<in> pair_prods g \<longleftrightarrow> (\<exists>p \<in> set ps. getLHSSymbol p = Some X \<and> getFirstRHSSymbol p = Some Z)" for X Z
    using g Some by (simp add: grammar_ok_def)
  let ?f = "\<lambda>p st. do {
           X \<leftarrow> getLHSSymbol p;
           Z \<leftarrow> getFirstRHSSymbol p;
           n \<leftarrow> cfl_getGNode (sv_graph st) i;
           ofold (\<lambda>Z_edge. add_and_push (getSrcID Z_edge) j X) (getInEdgeWithTy n Z) st
         }"
  let ?A = "\<lambda>p. {(X, k, j) | X Z k. getLHSSymbol p = Some X \<and> getFirstRHSSymbol p = Some Z \<and> (Z, k, i) \<in> sym_edges (sv_graph st)}"
  have "\<exists>t. ofold ?f ps st = Some t \<and> cs.extends D st t \<and> (\<forall>p \<in> set ps. \<forall>y \<in> ?A p. cs.has_edge y t)"
  proof (rule cs.ofold_extends [OF ok])
    fix p t assume p: "p \<in> set ps" and t: "cs.extends D st t" "solver_ok D t"
    have "length p = 3" using g Some p by (auto simp: grammar_ok_def)
    then obtain X Z where XZ: "getLHSSymbol p = Some X" "getFirstRHSSymbol p = Some Z"
      by (simp add: getLHSSymbol_def getFirstRHSSymbol_def)
    then have pr: "(X, Z, Y) \<in> pair_prods g" using pairs p by blast
    have gt: "cfl_ok (sv_graph t)" and tD: "sym_edges (sv_graph t) \<subseteq> D" using t(2) by (simp_all add: solver_ok_def)
    have n: "cfl_nodes (sv_graph t) = cfl_nodes (sv_graph st)" using t ok by (simp add: cs.extends_def)
    obtain m where m: "cfl_getGNode (sv_graph t) i = Some m" using ij(1) n cfl_nodes_iff by metis
    note inn = node_in [OF gt m, of Z]
    have k: "getSrcID ze \<in> set (cfl_nodes (sv_graph t)) \<and> (X, getSrcID ze, j) \<in> D" if "ze \<in> set (getInEdgeWithTy m Z)" for ze
    proof -
      have z: "(Z, getSrcID ze, i) \<in> sym_edges (sv_graph t)" using inn that by blast
      then have "(Z, getSrcID ze, i) \<in> D" using tD by blast
      then have "(X, getSrcID ze, j) \<in> D" using c pr ij(3) unfolding cfl_closed_def by blast
      then show ?thesis using sym_edges_nodes [OF gt z] by blast
    qed
    obtain u where u: "ofold (\<lambda>Z_edge. add_and_push (getSrcID Z_edge) j X) (getInEdgeWithTy m Z) t = Some u"
        "cs.extends D t u" "\<forall>ze \<in> set (getInEdgeWithTy m Z). cs.has_edge (X, getSrcID ze, j) u"
      using add_loop [OF t(2), of "getInEdgeWithTy m Z" getSrcID "\<lambda>_. j" X] k ij(2) n by auto
    have "cs.has_edge y u" if y0: "y \<in> ?A p" for y
    proof -
      obtain k where y: "y = (X, k, j)" "(Z, k, i) \<in> sym_edges (sv_graph st)" using y0 XZ by auto
      then have "k \<in> getSrcID ` set (getInEdgeWithTy m Z)" using inn cs.extends_edges [OF t(1) ok] by blast
      then show ?thesis using u(3) y(1) by auto
    qed
    then show "\<exists>u. ?f p t = Some u \<and> cs.extends D t u \<and> (\<forall>y \<in> ?A p. cs.has_edge y u)" using XZ m u(1,2) by simp
  qed
  then obtain t where t: "ofold ?f ps st = Some t" "cs.extends D st t" "\<forall>p \<in> set ps. \<forall>y \<in> ?A p. cs.has_edge y t" by blast
  have "cs.has_edge (X, k, j) t" if xz: "(X, Z, Y) \<in> pair_prods g" "(Z, k, i) \<in> sym_edges (sv_graph st)" for X Z k
  proof -
    obtain p where p: "p \<in> set ps" "getLHSSymbol p = Some X" "getFirstRHSSymbol p = Some Z" using xz(1) pairs by blast
    then have "(X, k, j) \<in> ?A p" using xz(2) by blast
    then show ?thesis using t(3) p(1) by blast
  qed
  then show ?thesis using Some t(1,2) by (simp add: hasProdsFromSecondRHS_def getProdsFromSecondRHS_def)
qed

text \<open>Processing an edge combines it with all present edges.\<close>

lemma processCFLEdge_spec:
  assumes g: "grammar_ok g" and c: "cfl_closed g N D" and ok: "solver_ok D st" and e: "e \<in> set (cflEdgeSet (sv_graph st))"
  defines "Y \<equiv> edge_symbol e" and "i \<equiv> getSrcID e" and "j \<equiv> getDstID e"
  shows "\<exists>t. processCFLEdge g e st = Some t \<and> cs.extends D st t \<and> solver_ok D t \<and>
    (\<forall>X. (X, Y) \<in> single_prods g \<longrightarrow> cs.has_edge (X, i, j) t) \<and>
    (\<forall>X Z k. (X, Y, Z) \<in> pair_prods g \<longrightarrow> (Z, j, k) \<in> sym_edges (sv_graph st) \<longrightarrow> cs.has_edge (X, i, k) t) \<and>
    (\<forall>X Z k. (X, Z, Y) \<in> pair_prods g \<longrightarrow> (Z, k, i) \<in> sym_edges (sv_graph st) \<longrightarrow> cs.has_edge (X, k, j) t)"
proof -
  have e1: "(Y, i, j) \<in> sym_edges (sv_graph st)" using e by (auto simp: sym_edges_def Y_def i_def j_def)
  note s = single_part [OF g c ok e1]
  obtain t1 where t1: "(if hasProdsFromSingleRHS g Y then do {
         ps \<leftarrow> getProdsFromSingleRHS g Y;
         ofold (\<lambda>p st. do { X \<leftarrow> getLHSSymbol p; add_and_push i j X st }) ps st
       } else Some st) = Some t1" and x1: "cs.extends D st t1" and h1: "\<forall>X. (X, Y) \<in> single_prods g \<longrightarrow> cs.has_edge (X, i, j) t1"
    using s by blast
  have ok1: "solver_ok D t1" using x1 ok by (simp add: cs.extends_def)
  have e2: "(Y, i, j) \<in> sym_edges (sv_graph t1)" using e1 cs.extends_edges [OF x1 ok] by blast
  note f = first_part [OF g c ok1 e2]
  obtain t2 where t2: "(if hasProdsFromFirstRHS g Y then do {
         ps \<leftarrow> getProdsFromFirstRHS g Y;
         ofold (\<lambda>p st. do {
           X \<leftarrow> getLHSSymbol p;
           Z \<leftarrow> getSecondRHSSymbol p;
           n \<leftarrow> cfl_getGNode (sv_graph st) j;
           ofold (\<lambda>Z_edge. add_and_push i (getDstID Z_edge) X) (getOutEdgeWithTy n Z) st
         }) ps t1
       } else Some t1) = Some t2" and x2: "cs.extends D t1 t2"
    and h2: "\<forall>X Z k. (X, Y, Z) \<in> pair_prods g \<longrightarrow> (Z, j, k) \<in> sym_edges (sv_graph t1) \<longrightarrow> cs.has_edge (X, i, k) t2"
    using f by blast
  have ok2: "solver_ok D t2" using x2 ok1 by (simp add: cs.extends_def)
  have e3: "(Y, i, j) \<in> sym_edges (sv_graph t2)" using e2 cs.extends_edges [OF x2 ok1] by blast
  note sec = second_part [OF g c ok2 e3]
  obtain t3 where t3: "(if hasProdsFromSecondRHS g Y then do {
         ps \<leftarrow> getProdsFromSecondRHS g Y;
         ofold (\<lambda>p st. do {
           X \<leftarrow> getLHSSymbol p;
           Z \<leftarrow> getFirstRHSSymbol p;
           n \<leftarrow> cfl_getGNode (sv_graph st) i;
           ofold (\<lambda>Z_edge. add_and_push (getSrcID Z_edge) j X) (getInEdgeWithTy n Z) st
         }) ps t2
       } else Some t2) = Some t3" and x3: "cs.extends D t2 t3"
    and h3: "\<forall>X Z k. (X, Z, Y) \<in> pair_prods g \<longrightarrow> (Z, k, i) \<in> sym_edges (sv_graph t2) \<longrightarrow> cs.has_edge (X, k, j) t3"
    using sec by blast
  have ok3: "solver_ok D t3" using x3 ok2 by (simp add: cs.extends_def)
  have m: "sym_edges (sv_graph st) \<subseteq> sym_edges (sv_graph t1)" "sym_edges (sv_graph t1) \<subseteq> sym_edges (sv_graph t2)"
    "sym_edges (sv_graph t2) \<subseteq> sym_edges (sv_graph t3)"
    using cs.extends_edges x1 x2 x3 ok ok1 ok2 by blast+
  have "processCFLEdge g e st = Some t3"
    unfolding processCFLEdge_def Let_def Y_def [symmetric] i_def [symmetric] j_def [symmetric]
    by (simp only: t1 t2 t3 Option.bind_lunit)
  moreover have "cs.extends D st t3" using cs.extends_trans x1 x2 x3 by blast
  ultimately show ?thesis using ok3 h1 h2 h3 m unfolding cs.has_edge_def by blast
qed

section \<open>The loop\<close>

interpretation ce: cfl_engine sv_graph sv_edges solver_ok base_ops grammar_ok "\<lambda>g. g"
proof unfold_locales
  fix g D s
  assume "solver_ok D s"
  then show "op_empty (base_ops g) s \<longleftrightarrow> sv_edges s = {}" by (simp add: base_ops_def sv_edges_def fifo_empty_def)
next
  fix g D s N
  assume g: "grammar_ok g" and ok: "solver_ok D s" and ne: "sv_edges s \<noteq> {}" and c: "cfl_closed g N D"
  have w: "fifo_inv (sv_work s)" "data_list (sv_work s) \<noteq> []"
    using ok ne by (auto simp: solver_ok_def sv_edges_def)
  obtain e w' where e: "fifo_pop (sv_work s) = Some (e, w')" "fifo_inv w'" "e \<in> sv_edges s"
      "set (data_list w') = sv_edges s - {e}"
    using fi.pop_law [OF w] by (auto simp: fifo_ops_def sv_edges_def)
  let ?s = "s\<lparr>sv_work := w'\<rparr>"
  have oks: "solver_ok D ?s" and mem: "e \<in> set (cflEdgeSet (sv_graph ?s))"
    using ok e by (auto simp: solver_ok_def sv_edges_def)
  have p: "op_pop (base_ops g) s = Some (e, ?s)" "sv_edges ?s = sv_edges s - {e}" "sv_graph ?s = sv_graph s"
    using e by (simp_all add: base_ops_def sv_edges_def)
  obtain t where t: "op_process (base_ops g) e ?s = Some t" "cs.extends D ?s t" "cs.combines g e ?s t"
    using processCFLEdge_spec [OF g c oks mem] by (auto simp: base_ops_def cs.combines_def)
  from p t oks e(3) show "\<exists>x e s' t. op_pop (base_ops g) s = Some (x, s') \<and> sv_graph s' = sv_graph s \<and> e \<in> sv_edges s \<and>
      sv_edges s' = sv_edges s - {e} \<and> solver_ok D s' \<and> op_process (base_ops g) x s' = Some t \<and> cs.extends D s' t \<and>
      cs.combines g e s' t" by blast
qed

section \<open>The start\<close>

lemma push_edges:
  "fifo_inv (sv_work st) \<Longrightarrow>
   let t = fold (\<lambda>e st. st\<lparr>sv_work := snd (fifo_push (sv_work st) e)\<rparr>) es st
   in sv_graph t = sv_graph st \<and> fifo_inv (sv_work t) \<and> set (data_list (sv_work t)) = set es \<union> set (data_list (sv_work st))"
proof (induction es arbitrary: st)
  case (Cons e es)
  have "fifo_inv (snd (fifo_push (sv_work st) e))" "set (data_list (snd (fifo_push (sv_work st) e))) = insert e (set (data_list (sv_work st)))"
    using Cons.prems by (auto simp: fifo_defs)
  then show ?case using Cons.IH [of "st\<lparr>sv_work := snd (fifo_push (sv_work st) e)\<rparr>"] by (simp add: Let_def)
qed simp

lemma push_all_edges:
  "fifo_inv (sv_work st) \<Longrightarrow>
   let t = fold (\<lambda>(i, n) st. fold (\<lambda>e st. st\<lparr>sv_work := snd (fifo_push (sv_work st) e)\<rparr>) (OutEdges n) st) ns st
   in sv_graph t = sv_graph st \<and> fifo_inv (sv_work t) \<and>
     set (data_list (sv_work t)) = (\<Union>(i, n) \<in> set ns. set (OutEdges n)) \<union> set (data_list (sv_work st))"
proof (induction ns arbitrary: st)
  case (Cons x ns)
  obtain i n where x: "x = (i, n)" by fastforce
  note p = push_edges [OF Cons.prems, of "OutEdges n", unfolded Let_def]
  then show ?case using Cons.IH [OF conjunct1 [OF conjunct2 [OF p]]] by (simp add: Let_def x) blast
qed simp

lemma all_out_edges: "cfl_ok G \<Longrightarrow> (\<Union>(i, n) \<in> set (cflNodes G). set (OutEdges n)) = set (cflEdgeSet G)"
proof -
  assume ok: "cfl_ok G"
  have n: "set (OutEdges n) = {e \<in> set (cflEdgeSet G). getSrcID e = i}" if "(i, n) \<in> set (cflNodes G)" for i n
    using ok that omap_distinct [of "cflNodes G"] by (auto simp: cfl_ok_def out_ok_def)
  have "\<exists>n. (i, n) \<in> set (cflNodes G)" if "i \<in> set (cfl_nodes G)" for i
    using that by (auto simp: cfl_nodes_def)
  then show ?thesis using n ok by (fastforce simp: cfl_ok_def)
qed

lemma cfl_initialize_spec:
  assumes g: "grammar_ok g" and c: "cfl_closed g (set (cfl_nodes G)) D" and ok: "cfl_ok G" and D: "sym_edges G \<subseteq> D"
  shows "\<exists>t. cfl_initialize g (cfl_solver_new G) = Some t \<and> solver_ok D t \<and> sv_edges t = set (cflEdgeSet (sv_graph t)) \<and>
    cfl_nodes (sv_graph t) = cfl_nodes G \<and> set (cflEdgeSet G) \<subseteq> set (cflEdgeSet (sv_graph t)) \<and>
    (\<forall>X \<in> eps_syms g. \<forall>i \<in> set (cfl_nodes G). cs.has_edge (X, i, i) t)"
proof -
  let ?s = "fold (\<lambda>(i, n) st. fold (\<lambda>e st. st\<lparr>sv_work := snd (fifo_push (sv_work st) e)\<rparr>) (OutEdges n) st)
       (cflNodes G) (cfl_solver_new G)"
  have "fifo_inv (sv_work (cfl_solver_new G))" by (simp add: cfl_solver_new_def fifo_defs)
  from push_all_edges [OF this, of "cflNodes G"]
  have s: "sv_graph ?s = G" "fifo_inv (sv_work ?s)" "set (data_list (sv_work ?s)) = set (cflEdgeSet G)"
    using all_out_edges [OF ok] by (simp_all add: Let_def cfl_solver_new_def fifo_new_def)
  have oks: "solver_ok D ?s" using s ok D by (simp add: solver_ok_def)
  let ?A = "\<lambda>p. {(X, i, i) | X i. getLHSSymbol p = Some X \<and> i \<in> set (cfl_nodes G)}"
  have "\<exists>t. ofold (\<lambda>p st. ofold (\<lambda>i st. do { X \<leftarrow> getLHSSymbol p; add_and_push i i X st }) (cfl_nodes (sv_graph st)) st)
       (epsilonProds g) ?s = Some t \<and> cs.extends D ?s t \<and> (\<forall>p \<in> set (epsilonProds g). \<forall>y \<in> ?A p. cs.has_edge y t)"
  proof (rule cs.ofold_extends [OF oks])
    fix p t assume p: "p \<in> set (epsilonProds g)" and t: "cs.extends D ?s t" "solver_ok D t"
    have "length p = 2" using g p by (simp add: grammar_ok_def)
    then obtain X where X: "getLHSSymbol p = Some X" by (simp add: getLHSSymbol_def)
    have n: "cfl_nodes (sv_graph t) = cfl_nodes G" using t oks s(1) by (simp add: cs.extends_def)
    have "(X, i, i) \<in> D" if "i \<in> set (cfl_nodes G)" for i
      using c p X that by (auto simp: cfl_closed_def eps_syms_def)
    then show "\<exists>u. ofold (\<lambda>i st. do { X \<leftarrow> getLHSSymbol p; add_and_push i i X st }) (cfl_nodes (sv_graph t)) t = Some u \<and>
        cs.extends D t u \<and> (\<forall>y \<in> ?A p. cs.has_edge y u)"
      using add_loop [OF t(2), of "cfl_nodes G" "\<lambda>i. i" "\<lambda>i. i" X] X n by auto
  qed
  then obtain t where t: "ofold (\<lambda>p st. ofold (\<lambda>i st. do { X \<leftarrow> getLHSSymbol p; add_and_push i i X st }) (cfl_nodes (sv_graph st)) st)
       (epsilonProds g) ?s = Some t" "cs.extends D ?s t" "\<forall>p \<in> set (epsilonProds g). \<forall>y \<in> ?A p. cs.has_edge y t" by blast
  have ext: "solver_ok D t" "cfl_nodes (sv_graph t) = cfl_nodes G" "set (cflEdgeSet G) \<subseteq> set (cflEdgeSet (sv_graph t))"
    "set (data_list (sv_work t)) = set (cflEdgeSet G) \<union> (set (cflEdgeSet (sv_graph t)) - set (cflEdgeSet G))"
    using t(2) oks s by (simp_all add: cs.extends_def sv_edges_def)
  have "sv_edges t = set (cflEdgeSet (sv_graph t))" using ext(3,4) by (auto simp: sv_edges_def)
  moreover have "cfl_initialize g (cfl_solver_new G) = Some t"
    using t(1) by (simp add: cfl_initialize_def cfl_solver_new_def Let_def)
  ultimately show ?thesis using ext t(3) by (auto simp: eps_syms_def)
qed

text \<open>The solver returns, and adds exactly the edges that are derivable.\<close>

lemma cfl_solve_reach:
  assumes g: "grammar_ok g" and ok: "cfl_ok G"
  shows "\<exists>t. cfl_solve (base_ops g) (cfl_solver_new G) = Some t \<and> cfl_ok (sv_graph t) \<and>
    cfl_nodes (sv_graph t) = cfl_nodes G \<and>
    sym_edges (sv_graph t) = {(X, i, j). cfl_reach g (set (cfl_nodes G)) (sym_edges G) X i j}"
proof -
  let ?N = "set (cfl_nodes G)"
  let ?D = "{(X, i, j). cfl_reach g ?N (sym_edges G) X i j}"
  have D: "sym_edges G \<subseteq> ?D" by (auto intro: reach_edge)
  note c = cfl_closed_reach [of g ?N "sym_edges G"]
  obtain s where s: "cfl_initialize g (cfl_solver_new G) = Some s" "solver_ok ?D s" "sv_edges s = set (cflEdgeSet (sv_graph s))"
      "cfl_nodes (sv_graph s) = cfl_nodes G" "set (cflEdgeSet G) \<subseteq> set (cflEdgeSet (sv_graph s))"
      "\<forall>X \<in> eps_syms g. \<forall>i \<in> ?N. cs.has_edge (X, i, i) s"
    using cfl_initialize_spec [OF g c ok D] by blast
  have init: "op_initialize (base_ops g) (cfl_solver_new G) = Some s" using s(1) by (simp add: base_ops_def)
  obtain t where t: "cfl_solve (base_ops g) (cfl_solver_new G) = Some t" "solver_ok ?D t" "cfl_nodes (sv_graph t) = cfl_nodes G"
      "sym_edges (sv_graph s) \<subseteq> sym_edges (sv_graph t)"
      "\<And>X Y i j. (X, Y) \<in> single_prods g \<Longrightarrow> (Y, i, j) \<in> sym_edges (sv_graph t) \<Longrightarrow> (X, i, j) \<in> sym_edges (sv_graph t)"
      "\<And>X Y Z i j k. (X, Y, Z) \<in> pair_prods g \<Longrightarrow> (Y, i, j) \<in> sym_edges (sv_graph t) \<Longrightarrow>
        (Z, j, k) \<in> sym_edges (sv_graph t) \<Longrightarrow> (X, i, k) \<in> sym_edges (sv_graph t)"
    using ce.cfl_solve_spec [OF g c init s(2,3)] s(4) by auto
  have sub: "sym_edges G \<subseteq> sym_edges (sv_graph t)" using s(5) t(4) by (auto simp: sym_edges_def)
  have "cfl_closed g ?N (sym_edges (sv_graph t))"
    using s(6) t(4,5,6) unfolding cfl_closed_def cs.has_edge_def by blast
  then have "?D \<subseteq> sym_edges (sv_graph t)" using cfl_reach_least [OF _ sub] by blast
  moreover have "sym_edges (sv_graph t) \<subseteq> ?D" "cfl_ok (sv_graph t)" using t(2) by (simp_all add: solver_ok_def)
  ultimately show ?thesis using t(1,3) by blast
qed

end
