(* ===== verification/POCRSolve.thy ===== *)
theory POCRSolve
  imports CFLSolve BitVectors
begin

text \<open>
  The CFL-reachability solver \<open>POCRSolver\<close> (svf/include/CFL/CFLSolver.h, svf/lib/CFL/CFLSolver.cpp), which
  keeps the successors and predecessors of every node and symbol in sparse bit vectors and takes whole unions.
  It finds the same edges as \<open>CFLSolver\<close> except for the empty word: it adds \<open>X(i,i)\<close> only at nodes
  with an outgoing edge.
\<close>

section \<open>Successors and predecessors\<close>

type_synonym data_map = "(NodeID \<times> (symbol \<times> sbv) list) list"

text \<open>\<open>m[key][ty]\<close> and its update.\<close>

definition dm_get :: "data_map \<Rightarrow> NodeID \<Rightarrow> symbol \<Rightarrow> sbv" where
  "dm_get m key ty = km_get sbv_new (km_get [] m key) ty"

definition dm_put :: "NodeID \<Rightarrow> symbol \<Rightarrow> sbv \<Rightarrow> data_map \<Rightarrow> data_map" where
  "dm_put key ty b m = AList.update key (AList.update ty b (km_get [] m key)) m"

text \<open>The work list holds what \<open>addCFLEdge\<close> returned, which may be the null pointer: \<open>None\<close>.\<close>

record pocr_solver =
  po_graph :: cfl_graph
  po_work :: "gedge option fifo"
  succMap :: data_map
  predMap :: data_map

definition dm_test_and_set :: "NodeID \<Rightarrow> symbol \<Rightarrow> NodeID \<Rightarrow> data_map \<Rightarrow> bool \<times> data_map" where
  "dm_test_and_set key ty x m = (let (r, b) = sbv_test_and_set (dm_get m key ty) x in (r, dm_put key ty b m))"

definition dm_union :: "NodeID \<Rightarrow> symbol \<Rightarrow> sbv \<Rightarrow> data_map \<Rightarrow> bool \<times> data_map" where
  "dm_union key ty data m =
     (if sbv_empty data then (False, m)
      else let (r, b) = sbv_or_assign (dm_get m key ty) data in (r, dm_put key ty b m))"

definition addPred :: "NodeID \<Rightarrow> NodeID \<Rightarrow> symbol \<Rightarrow> pocr_solver \<Rightarrow> bool \<times> pocr_solver" where
  "addPred key src ty st = (let (r, m) = dm_test_and_set key ty src (predMap st) in (r, st\<lparr>predMap := m\<rparr>))"

definition addSucc :: "NodeID \<Rightarrow> NodeID \<Rightarrow> symbol \<Rightarrow> pocr_solver \<Rightarrow> bool \<times> pocr_solver" where
  "addSucc key dst ty st = (let (r, m) = dm_test_and_set key ty dst (succMap st) in (r, st\<lparr>succMap := m\<rparr>))"

definition addPreds :: "NodeID \<Rightarrow> sbv \<Rightarrow> symbol \<Rightarrow> pocr_solver \<Rightarrow> bool \<times> pocr_solver" where
  "addPreds key data ty st = (let (r, m) = dm_union key ty data (predMap st) in (r, st\<lparr>predMap := m\<rparr>))"

definition addSuccs :: "NodeID \<Rightarrow> sbv \<Rightarrow> symbol \<Rightarrow> pocr_solver \<Rightarrow> bool \<times> pocr_solver" where
  "addSuccs key data ty st = (let (r, m) = dm_union key ty data (succMap st) in (r, st\<lparr>succMap := m\<rparr>))"

definition pocr_addEdge :: "NodeID \<Rightarrow> NodeID \<Rightarrow> symbol \<Rightarrow> pocr_solver \<Rightarrow> bool \<times> pocr_solver" where
  "pocr_addEdge src dst ty st = addPred dst src ty (snd (addSucc src dst ty st))"

text \<open>
  \<open>addEdges\<close> with many destinations and with many sources. The vector passed by reference may be the one
  that grows; it is then united with itself, nothing changes and the loop is not entered.
\<close>

definition addEdges_dst :: "NodeID \<Rightarrow> sbv \<Rightarrow> symbol \<Rightarrow> pocr_solver \<Rightarrow> (sbv \<times> pocr_solver) option" where
  "addEdges_dst src dstData ty st =
     (let (changed, st) = addSuccs src dstData ty st in
      if changed then do {
        ns \<leftarrow> sbv_list dstData;
        Some (fold (\<lambda>datum (newDsts, st). let (r, st) = addPred datum src ty st in
          (if r then sbv_set newDsts datum else newDsts, st)) ns (sbv_new, st))
      } else Some (sbv_new, st))"

definition addEdges_src :: "sbv \<Rightarrow> NodeID \<Rightarrow> symbol \<Rightarrow> pocr_solver \<Rightarrow> (sbv \<times> pocr_solver) option" where
  "addEdges_src srcData dst ty st =
     (let (changed, st) = addPreds dst srcData ty st in
      if changed then do {
        ns \<leftarrow> sbv_list srcData;
        Some (fold (\<lambda>datum (newSrcs, st). let (r, st) = addSucc datum dst ty st in
          (if r then sbv_set newSrcs datum else newSrcs, st)) ns (sbv_new, st))
      } else Some (sbv_new, st))"

definition pocr_hasEdge :: "NodeID \<Rightarrow> NodeID \<Rightarrow> symbol \<Rightarrow> pocr_solver \<Rightarrow> bool" where
  "pocr_hasEdge src dst ty st =
     (case map_of (succMap st) src of None \<Rightarrow> False
      | Some tm \<Rightarrow> (case map_of tm ty of None \<Rightarrow> False | Some b \<Rightarrow> fst (sbv_test b dst)))"

definition pocr_clear :: "pocr_solver \<Rightarrow> pocr_solver" where
  "pocr_clear st = st\<lparr>succMap := [], predMap := []\<rparr>"

definition clearEdges :: "NodeID \<Rightarrow> pocr_solver \<Rightarrow> pocr_solver" where
  "clearEdges key st = st\<lparr>succMap := AList.update key [] (succMap st), predMap := AList.update key [] (predMap st)\<rparr>"

section \<open>The solver\<close>

definition buildCFLData :: "pocr_solver \<Rightarrow> pocr_solver" where
  "buildCFLData st = fold (\<lambda>e st. snd (pocr_addEdge (getSrcID e) (getDstID e) (edge_symbol e) st)) (cflEdgeSet (po_graph st)) st"

definition pocr_solver_new :: "cfl_graph \<Rightarrow> pocr_solver" where
  "pocr_solver_new G = buildCFLData \<lparr>po_graph = G, po_work = fifo_new, succMap = [], predMap = []\<rparr>"

definition pocr_push :: "gedge option \<Rightarrow> pocr_solver \<Rightarrow> pocr_solver" where
  "pocr_push e st = st\<lparr>po_work := snd (fifo_push (po_work st) e)\<rparr>"

text \<open>\<open>pushIntoWorklist(graph->addCFLEdge(i, j, X))\<close>, where \<open>getGNode\<close> has found both nodes.\<close>

definition add_new_edge :: "NodeID \<Rightarrow> NodeID \<Rightarrow> symbol \<Rightarrow> pocr_solver \<Rightarrow> pocr_solver option" where
  "add_new_edge i j X st = do {
     _ \<leftarrow> cfl_getGNode (po_graph st) i;
     _ \<leftarrow> cfl_getGNode (po_graph st) j;
     (new, G) \<leftarrow> addCFLEdge (po_graph st) i j (num_of_sym X);
     Some (pocr_push (if new then Some (GEdge (num_of_sym X) i j) else None) (st\<lparr>po_graph := G\<rparr>))
   }"

definition pocr_initialize :: "cf_grammar \<Rightarrow> pocr_solver \<Rightarrow> pocr_solver option" where
  "pocr_initialize g st = do {
     let st = fold (\<lambda>e. pocr_push (Some e)) (cflEdgeSet (po_graph st)) st;
     ofold (\<lambda>p st. ofold (\<lambda>i st. do {
         X \<leftarrow> getLHSSymbol p;
         let (added, st) = pocr_addEdge i i X st;
         if added then add_new_edge i i X st else Some st
       }) (map fst (succMap st)) st) (epsilonProds g) st
   }"

definition touch_succ :: "NodeID \<Rightarrow> symbol \<Rightarrow> pocr_solver \<Rightarrow> pocr_solver" where
  "touch_succ key ty st = st\<lparr>succMap := dm_put key ty (dm_get (succMap st) key ty) (succMap st)\<rparr>"

definition touch_pred :: "NodeID \<Rightarrow> symbol \<Rightarrow> pocr_solver \<Rightarrow> pocr_solver" where
  "touch_pred key ty st = st\<lparr>predMap := dm_put key ty (dm_get (predMap st) key ty) (predMap st)\<rparr>"

text \<open>The three parts of \<open>processCFLEdge\<close> for one production.\<close>

definition pocr_single :: "NodeID \<Rightarrow> NodeID \<Rightarrow> production \<Rightarrow> pocr_solver \<Rightarrow> pocr_solver option" where
  "pocr_single i j p st = do {
     X \<leftarrow> getLHSSymbol p;
     let (added, st) = pocr_addEdge i j X st;
     if added then add_new_edge i j X st else Some st
   }"

definition pocr_first :: "NodeID \<Rightarrow> NodeID \<Rightarrow> production \<Rightarrow> pocr_solver \<Rightarrow> pocr_solver option" where
  "pocr_first i j p st = do {
     X \<leftarrow> getLHSSymbol p;
     Z \<leftarrow> getSecondRHSSymbol p;
     let st = touch_succ j Z st;
     (diffDsts, st) \<leftarrow> addEdges_dst i (dm_get (succMap st) j Z) X st;
     ns \<leftarrow> sbv_list diffDsts;
     ofold (\<lambda>diffDst. add_new_edge i diffDst X) ns st
   }"

definition pocr_second :: "NodeID \<Rightarrow> NodeID \<Rightarrow> production \<Rightarrow> pocr_solver \<Rightarrow> pocr_solver option" where
  "pocr_second i j p st = do {
     X \<leftarrow> getLHSSymbol p;
     Z \<leftarrow> getFirstRHSSymbol p;
     let st = touch_pred i Z st;
     (diffSrcs, st) \<leftarrow> addEdges_src (dm_get (predMap st) i Z) j X st;
     ns \<leftarrow> sbv_list diffSrcs;
     ofold (\<lambda>diffSrc. add_new_edge diffSrc j X) ns st
   }"

definition pocr_process :: "cf_grammar \<Rightarrow> gedge option \<Rightarrow> pocr_solver \<Rightarrow> pocr_solver option" where
  "pocr_process g Y_edge st = do {
     e \<leftarrow> Y_edge;
     let i = getSrcID e;
     let j = getDstID e;
     let Y = edge_symbol e;
     st \<leftarrow> (if hasProdsFromSingleRHS g Y then do { ps \<leftarrow> getProdsFromSingleRHS g Y; ofold (pocr_single i j) ps st }
           else Some st);
     st \<leftarrow> (if hasProdsFromFirstRHS g Y then do { ps \<leftarrow> getProdsFromFirstRHS g Y; ofold (pocr_first i j) ps st }
           else Some st);
     if hasProdsFromSecondRHS g Y then do { ps \<leftarrow> getProdsFromSecondRHS g Y; ofold (pocr_second i j) ps st }
     else Some st
   }"

definition pocr_ops :: "cf_grammar \<Rightarrow> (pocr_solver, gedge option) cfl_ops" where
  "pocr_ops g = \<lparr>op_initialize = pocr_initialize g, op_empty = (\<lambda>st. fifo_empty (po_work st)),
     op_pop = (\<lambda>st. do { (e, w) \<leftarrow> fifo_pop (po_work st); Some (e, st\<lparr>po_work := w\<rparr>) }),
     op_process = pocr_process g\<rparr>"

section \<open>The data\<close>

text \<open>The bit vectors of a map represent a family of sets.\<close>

definition dm_ok :: "data_map \<Rightarrow> (NodeID \<Rightarrow> symbol \<Rightarrow> nat set) \<Rightarrow> bool" where
  "dm_ok m R \<longleftrightarrow> (\<forall>k X. sbv_inv (dm_get m k X) \<and> sbv_bits (dm_get m k X) = R k X)"

lemma dm_get_put [simp]: "dm_get (dm_put k X b m) l Y = (if l = k \<and> Y = X then b else dm_get m l Y)"
  by (simp add: dm_get_def dm_put_def)

lemma update_keys: "fst ` set (AList.update k v m) = insert k (fst ` set m)"
  by (induction m) auto

lemma dm_put_keys: "fst ` set (dm_put k X b m) = insert k (fst ` set m)"
  by (simp only: dm_put_def update_keys)

lemma dm_ok_Nil [simp]: "dm_ok [] (\<lambda>_ _. {})"
  by (simp add: dm_ok_def dm_get_def)

lemma dm_ok_put:
  "dm_ok m R \<Longrightarrow> sbv_inv b \<Longrightarrow> dm_ok (dm_put k X b m) (\<lambda>l Y. if l = k \<and> Y = X then sbv_bits b else R l Y)"
  by (simp add: dm_ok_def)

lemma dm_test_and_set_spec:
  assumes "dm_ok m R" "x < 2 ^ 32" "dm_test_and_set k X x m = (r, m')"
  shows "r \<longleftrightarrow> x \<notin> R k X" "dm_ok m' (\<lambda>l Y. if l = k \<and> Y = X then insert x (R l Y) else R l Y)"
    "fst ` set m' = insert k (fst ` set m)"
proof -
  obtain q b where b: "sbv_test_and_set (dm_get m k X) x = (q, b)" by fastforce
  have inv: "sbv_inv (dm_get m k X)" "sbv_bits (dm_get m k X) = R k X" using assms(1) by (simp_all add: dm_ok_def)
  note s = sbv_test_and_set_spec [OF inv(1) assms(2), unfolded b, simplified]
  have "q = r" "m' = dm_put k X b m" using assms(3) b by (simp_all add: dm_test_and_set_def)
  then show "r \<longleftrightarrow> x \<notin> R k X" "dm_ok m' (\<lambda>l Y. if l = k \<and> Y = X then insert x (R l Y) else R l Y)"
    "fst ` set m' = insert k (fst ` set m)"
    using s inv assms(1) by (auto simp: dm_ok_def dm_put_keys)
qed

lemma dm_union_spec:
  assumes "dm_ok m R" "sbv_inv data" "dm_union k X data m = (r, m')"
  shows "r \<longleftrightarrow> \<not> sbv_bits data \<subseteq> R k X" "dm_ok m' (\<lambda>l Y. if l = k \<and> Y = X then R l Y \<union> sbv_bits data else R l Y)"
proof -
  have inv: "sbv_inv (dm_get m k X)" "sbv_bits (dm_get m k X) = R k X" using assms(1) by (simp_all add: dm_ok_def)
  have "(r \<longleftrightarrow> \<not> sbv_bits data \<subseteq> R k X) \<and> dm_ok m' (\<lambda>l Y. if l = k \<and> Y = X then R l Y \<union> sbv_bits data else R l Y)"
  proof (cases "sbv_bits data = {}")
    case True
    then have "r = False" "m' = m" using assms(3) sbv_empty_bits [OF assms(2)] by (simp_all add: dm_union_def)
    then show ?thesis using assms(1) True by (simp add: dm_ok_def)
  next
    case False
    obtain q b where b: "sbv_or_assign (dm_get m k X) data = (q, b)" by fastforce
    note s = sbv_or_assign_spec [OF inv(1) assms(2) b]
    have "q = r" "m' = dm_put k X b m" using assms(3) b False sbv_empty_bits [OF assms(2)] by (simp_all add: dm_union_def)
    then show ?thesis using s inv assms(1) by (auto simp: dm_ok_def)
  qed
  then show "r \<longleftrightarrow> \<not> sbv_bits data \<subseteq> R k X" "dm_ok m' (\<lambda>l Y. if l = k \<and> Y = X then R l Y \<union> sbv_bits data else R l Y)"
    by blast+
qed

lemma dm_ok_cong: "dm_ok m R \<Longrightarrow> (\<And>k X. R k X = Q k X) \<Longrightarrow> dm_ok m Q"
  by (simp add: dm_ok_def)

text \<open>The loops over the new partners of a node: one bit is set at each of them.\<close>

lemma fold_new_partners:
  assumes add: "\<And>d st. add d st = (let (r, m) = dm_test_and_set d X x (sel st) in (r, upd m st))"
    and sel: "\<And>m st. sel (upd m st) = m" and upd: "\<And>m n st. upd m (upd n st) = upd m st" and triv: "\<And>st. upd (sel st) st = st"
    and x: "x < 2 ^ 32"
  shows "dm_ok (sel st) R \<Longrightarrow> sbv_inv nd \<Longrightarrow> distinct ns \<Longrightarrow> \<forall>d \<in> set ns. d < 2 ^ 32 \<Longrightarrow>
    \<exists>d m. fold (\<lambda>datum (new, st). let (r, st) = add datum st in (if r then sbv_set new datum else new, st)) ns (nd, st) =
        (d, upd m st) \<and> sbv_inv d \<and> sbv_bits d = sbv_bits nd \<union> {d \<in> set ns. x \<notin> R d X} \<and>
      dm_ok m (\<lambda>l Y. if l \<in> set ns \<and> Y = X then insert x (R l Y) else R l Y)"
proof (induction ns arbitrary: nd st R)
  case Nil
  then show ?case using triv [of st] by (intro exI [of _ nd] exI [of _ "sel st"]) simp
next
  case (Cons a ns)
  obtain r m where m: "dm_test_and_set a X x (sel st) = (r, m)" by fastforce
  note t = dm_test_and_set_spec [OF Cons.prems(1) x m]
  let ?nd = "if r then sbv_set nd a else nd"
  have nd: "sbv_inv ?nd" "sbv_bits ?nd = sbv_bits nd \<union> (if r then {a} else {})"
    using sbv_set_spec [OF Cons.prems(2), of a] Cons.prems by auto
  have "dm_ok (sel (upd m st)) (\<lambda>l Y. if l = a \<and> Y = X then insert x (R l Y) else R l Y)" using t(2) by (simp add: sel)
  from Cons.IH [OF this nd(1)] Cons.prems(3,4) obtain d m' where d:
    "fold (\<lambda>datum (new, st). let (r, st) = add datum st in (if r then sbv_set new datum else new, st)) ns (?nd, upd m st) =
       (d, upd m' st)" "sbv_inv d"
    "sbv_bits d = sbv_bits ?nd \<union> {d \<in> set ns. x \<notin> (if d = a then insert x (R d X) else R d X)}"
    "dm_ok m' (\<lambda>l Y. if l \<in> set ns \<and> Y = X then insert x (if l = a \<and> Y = X then insert x (R l Y) else R l Y)
        else (if l = a \<and> Y = X then insert x (R l Y) else R l Y))"
    by (auto simp: upd)
  have "sbv_bits d = sbv_bits nd \<union> {d \<in> set (a # ns). x \<notin> R d X}" using d(3) nd(2) t(1) Cons.prems(3) by auto
  moreover have "dm_ok m' (\<lambda>l Y. if l \<in> set (a # ns) \<and> Y = X then insert x (R l Y) else R l Y)"
    by (rule dm_ok_cong [OF d(4)]) auto
  ultimately show ?case using d(1,2) by (auto simp: add m)
qed

text \<open>The two maps hold the same set of edges.\<close>

definition data_ok :: "pocr_solver \<Rightarrow> sym_edge set \<Rightarrow> bool" where
  "data_ok st S \<longleftrightarrow> dm_ok (succMap st) (\<lambda>k X. {j. (X, k, j) \<in> S}) \<and> dm_ok (predMap st) (\<lambda>k X. {i. (X, i, k) \<in> S})"

lemma pocr_addEdge_spec:
  assumes ok: "data_ok st S" and ij: "i < 2 ^ 32" "j < 2 ^ 32" and run: "pocr_addEdge i j X st = (r, st')"
  shows "r \<longleftrightarrow> (X, i, j) \<notin> S" "data_ok st' (insert (X, i, j) S)"
    "po_graph st' = po_graph st" "po_work st' = po_work st" "fst ` set (succMap st') = insert i (fst ` set (succMap st))"
proof -
  obtain q m where m: "dm_test_and_set i X j (succMap st) = (q, m)" by fastforce
  obtain p n where n: "dm_test_and_set j X i (predMap st) = (p, n)" by fastforce
  have sp: "dm_ok (succMap st) (\<lambda>k X. {j. (X, k, j) \<in> S})" "dm_ok (predMap st) (\<lambda>k X. {i. (X, i, k) \<in> S})"
    using ok by (simp_all add: data_ok_def)
  note sm = dm_test_and_set_spec [OF sp(1) ij(2) m] and pn = dm_test_and_set_spec [OF sp(2) ij(1) n]
  have r: "r = p" "st' = st\<lparr>succMap := m, predMap := n\<rparr>"
    using run m n by (simp_all add: pocr_addEdge_def addPred_def addSucc_def)
  show "r \<longleftrightarrow> (X, i, j) \<notin> S" using pn(1) r by simp
  have "dm_ok m (\<lambda>k Y. {l. (Y, k, l) \<in> insert (X, i, j) S})" by (rule dm_ok_cong [OF sm(2)]) auto
  moreover have "dm_ok n (\<lambda>k Y. {l. (Y, l, k) \<in> insert (X, i, j) S})" by (rule dm_ok_cong [OF pn(2)]) auto
  ultimately show "data_ok st' (insert (X, i, j) S)" using r by (simp add: data_ok_def)
  show "po_graph st' = po_graph st" "po_work st' = po_work st" "fst ` set (succMap st') = insert i (fst ` set (succMap st))"
    using r sm(3) by simp_all
qed

lemma addEdges_dst_spec:
  assumes ok: "data_ok st S" and inv: "sbv_inv data" and i: "i < 2 ^ 32"
  shows "\<exists>d s p. addEdges_dst i data X st = Some (d, st\<lparr>succMap := s, predMap := p\<rparr>) \<and> sbv_inv d \<and>
    sbv_bits d = {j \<in> sbv_bits data. (X, i, j) \<notin> S} \<and>
    data_ok (st\<lparr>succMap := s, predMap := p\<rparr>) (S \<union> (\<lambda>j. (X, i, j)) ` sbv_bits data)"
proof -
  obtain ch m where m: "dm_union i X data (succMap st) = (ch, m)" by fastforce
  have sp: "dm_ok (succMap st) (\<lambda>k X. {j. (X, k, j) \<in> S})" "dm_ok (predMap st) (\<lambda>k X. {i. (X, i, k) \<in> S})"
    using ok by (simp_all add: data_ok_def)
  note u = dm_union_spec [OF sp(1) inv m]
  have m1: "dm_ok m (\<lambda>k Y. {j. (Y, k, j) \<in> S \<union> (\<lambda>j. (X, i, j)) ` sbv_bits data})"
    by (rule dm_ok_cong [OF u(2)]) auto
  show ?thesis
  proof (cases ch)
    case False
    then have "S \<union> (\<lambda>j. (X, i, j)) ` sbv_bits data = S" using u(1) by auto
    moreover have "addEdges_dst i data X st = Some (sbv_new, st\<lparr>succMap := m, predMap := predMap st\<rparr>)"
      using m False by (simp add: addEdges_dst_def addSuccs_def)
    moreover have "{j \<in> sbv_bits data. (X, i, j) \<notin> S} = {}" using u(1) False by auto
    ultimately show ?thesis using m1 sp(2) by (intro exI [of _ sbv_new] exI [of _ m] exI [of _ "predMap st"]) (simp add: data_ok_def)
  next
    case True
    obtain ns where ns: "sbv_list data = Some ns" "set ns = sbv_bits data" "distinct ns"
      using sv.elements_set [OF inv] by auto
    let ?s = "st\<lparr>succMap := m\<rparr>"
    have p0: "dm_ok (predMap ?s) (\<lambda>k X. {i. (X, i, k) \<in> S})" using sp(2) by simp
    have b: "\<forall>d \<in> set ns. d < 2 ^ 32" using ns(2) sbv_bits_u32 [OF inv] by blast
    obtain d p where d: "fold (\<lambda>datum (new, st). let (r, st) = addPred datum i X st in (if r then sbv_set new datum else new, st))
        ns (sbv_new, ?s) = (d, ?s\<lparr>predMap := p\<rparr>)" "sbv_inv d" "sbv_bits d = sbv_bits sbv_new \<union> {d \<in> set ns. i \<notin> {i. (X, i, d) \<in> S}}"
      "dm_ok p (\<lambda>l Y. if l \<in> set ns \<and> Y = X then insert i {i. (Y, i, l) \<in> S} else {i. (Y, i, l) \<in> S})"
      using fold_new_partners [where add = "\<lambda>d. addPred d i X" and sel = predMap and upd = "\<lambda>m st. st\<lparr>predMap := m\<rparr>",
          OF addPred_def _ _ _ i p0 _ ns(3) b, of sbv_new] by auto
    have "dm_ok p (\<lambda>k Y. {l. (Y, l, k) \<in> S \<union> (\<lambda>j. (X, i, j)) ` sbv_bits data})"
      by (rule dm_ok_cong [OF d(4)]) (auto simp: ns(2))
    moreover have "addEdges_dst i data X st = Some (d, st\<lparr>succMap := m, predMap := p\<rparr>)"
      using m True ns(1) d(1) by (simp add: addEdges_dst_def addSuccs_def)
    ultimately show ?thesis using d(2,3) m1 ns(2)
      by (intro exI [of _ d] exI [of _ m] exI [of _ p]) (simp add: data_ok_def)
  qed
qed

lemma addEdges_src_spec:
  assumes ok: "data_ok st S" and inv: "sbv_inv data" and j: "j < 2 ^ 32"
  shows "\<exists>d s p. addEdges_src data j X st = Some (d, st\<lparr>succMap := s, predMap := p\<rparr>) \<and> sbv_inv d \<and>
    sbv_bits d = {i \<in> sbv_bits data. (X, i, j) \<notin> S} \<and>
    data_ok (st\<lparr>succMap := s, predMap := p\<rparr>) (S \<union> (\<lambda>i. (X, i, j)) ` sbv_bits data)"
proof -
  obtain ch m where m: "dm_union j X data (predMap st) = (ch, m)" by fastforce
  have sp: "dm_ok (succMap st) (\<lambda>k X. {j. (X, k, j) \<in> S})" "dm_ok (predMap st) (\<lambda>k X. {i. (X, i, k) \<in> S})"
    using ok by (simp_all add: data_ok_def)
  note u = dm_union_spec [OF sp(2) inv m]
  have m1: "dm_ok m (\<lambda>k Y. {i. (Y, i, k) \<in> S \<union> (\<lambda>i. (X, i, j)) ` sbv_bits data})"
    by (rule dm_ok_cong [OF u(2)]) auto
  show ?thesis
  proof (cases ch)
    case False
    then have "S \<union> (\<lambda>i. (X, i, j)) ` sbv_bits data = S" using u(1) by auto
    moreover have "addEdges_src data j X st = Some (sbv_new, st\<lparr>succMap := succMap st, predMap := m\<rparr>)"
      using m False by (simp add: addEdges_src_def addPreds_def)
    moreover have "{i \<in> sbv_bits data. (X, i, j) \<notin> S} = {}" using u(1) False by auto
    ultimately show ?thesis using m1 sp(1) by (intro exI [of _ sbv_new] exI [of _ "succMap st"] exI [of _ m]) (simp add: data_ok_def)
  next
    case True
    obtain ns where ns: "sbv_list data = Some ns" "set ns = sbv_bits data" "distinct ns"
      using sv.elements_set [OF inv] by auto
    let ?s = "st\<lparr>predMap := m\<rparr>"
    have s0: "dm_ok (succMap ?s) (\<lambda>k X. {i. (X, k, i) \<in> S})" using sp(1) by simp
    have b: "\<forall>d \<in> set ns. d < 2 ^ 32" using ns(2) sbv_bits_u32 [OF inv] by blast
    obtain d p where d: "fold (\<lambda>datum (new, st). let (r, st) = addSucc datum j X st in (if r then sbv_set new datum else new, st))
        ns (sbv_new, ?s) = (d, ?s\<lparr>succMap := p\<rparr>)" "sbv_inv d" "sbv_bits d = sbv_bits sbv_new \<union> {d \<in> set ns. j \<notin> {i. (X, d, i) \<in> S}}"
      "dm_ok p (\<lambda>l Y. if l \<in> set ns \<and> Y = X then insert j {i. (Y, l, i) \<in> S} else {i. (Y, l, i) \<in> S})"
      using fold_new_partners [where add = "\<lambda>d. addSucc d j X" and sel = succMap and upd = "\<lambda>m st. st\<lparr>succMap := m\<rparr>",
          OF addSucc_def _ _ _ j s0 _ ns(3) b, of sbv_new] by auto
    have "dm_ok p (\<lambda>k Y. {l. (Y, k, l) \<in> S \<union> (\<lambda>i. (X, i, j)) ` sbv_bits data})"
      by (rule dm_ok_cong [OF d(4)]) (auto simp: ns(2))
    moreover have "addEdges_src data j X st = Some (d, st\<lparr>succMap := p, predMap := m\<rparr>)"
      using m True ns(1) d(1) by (simp add: addEdges_src_def addPreds_def)
    ultimately show ?thesis using d(2,3) m1 ns(2)
      by (intro exI [of _ d] exI [of _ p] exI [of _ m]) (simp add: data_ok_def)
  qed
qed

section \<open>Adding edges\<close>

definition po_edges :: "pocr_solver \<Rightarrow> gedge set" where
  "po_edges st = {e. Some e \<in> set (data_list (po_work st))}"

text \<open>Everything but the data maps: no null pointer ever waits.\<close>

definition pocr_base_ok :: "sym_edge set \<Rightarrow> pocr_solver \<Rightarrow> bool" where
  "pocr_base_ok D st \<longleftrightarrow> cfl_ok (po_graph st) \<and> fifo_inv (po_work st) \<and> None \<notin> set (data_list (po_work st)) \<and>
     po_edges st \<subseteq> set (cflEdgeSet (po_graph st)) \<and> sym_edges (po_graph st) \<subseteq> D \<and>
     (\<forall>i \<in> set (cfl_nodes (po_graph st)). i < 2 ^ 32)"

definition pocr_ok :: "sym_edge set \<Rightarrow> pocr_solver \<Rightarrow> bool" where
  "pocr_ok D st \<longleftrightarrow> pocr_base_ok D st \<and> data_ok st (sym_edges (po_graph st))"

interpretation ps: cfl_state po_graph po_edges pocr_ok
  by unfold_locales (simp add: pocr_ok_def pocr_base_ok_def)

lemma pocr_push_spec:
  assumes "fifo_inv (po_work st)"
  shows "fifo_inv (po_work (pocr_push (Some e) st))" "po_edges (pocr_push (Some e) st) = insert e (po_edges st)"
    "None \<in> set (data_list (po_work (pocr_push (Some e) st))) \<longleftrightarrow> None \<in> set (data_list (po_work st))"
    "po_graph (pocr_push (Some e) st) = po_graph st" "succMap (pocr_push (Some e) st) = succMap st"
    "predMap (pocr_push (Some e) st) = predMap st"
  using assms by (auto simp: pocr_push_def po_edges_def fifo_defs)

text \<open>An edge that is not there yet is added, waits, and the data maps stay.\<close>

lemma add_new_edge_spec:
  assumes ok: "pocr_base_ok D st" and ij: "i \<in> set (cfl_nodes (po_graph st))" "j \<in> set (cfl_nodes (po_graph st))"
    and D: "(X, i, j) \<in> D" and new: "(X, i, j) \<notin> sym_edges (po_graph st)"
  shows "\<exists>t. add_new_edge i j X st = Some t \<and> pocr_base_ok D t \<and> cfl_nodes (po_graph t) = cfl_nodes (po_graph st) \<and>
    set (cflEdgeSet (po_graph t)) = insert (GEdge (num_of_sym X) i j) (set (cflEdgeSet (po_graph st))) \<and>
    po_edges t = insert (GEdge (num_of_sym X) i j) (po_edges st) \<and> succMap t = succMap st \<and> predMap t = predMap st"
proof -
  let ?e = "GEdge (num_of_sym X) i j"
  have g: "cfl_ok (po_graph st)" and w: "fifo_inv (po_work st)" using ok by (simp_all add: pocr_base_ok_def)
  have e: "?e \<notin> set (cflEdgeSet (po_graph st))" using sym_edges_mem [OF g] new by blast
  obtain G where G: "addCFLEdge (po_graph st) i j (num_of_sym X) = Some (True, G)" "cfl_ok G"
      "set (cflEdgeSet G) = insert ?e (set (cflEdgeSet (po_graph st)))" "cfl_nodes G = cfl_nodes (po_graph st)"
    using addCFLEdge_spec [OF g ij num_of_sym_bound, of X] e by auto
  have s: "sym_edges G = insert (X, i, j) (sym_edges (po_graph st))" by (simp add: sym_edges_def G(3))
  obtain n m where nm: "cfl_getGNode (po_graph st) i = Some n" "cfl_getGNode (po_graph st) j = Some m"
    using ij cfl_nodes_iff by metis
  let ?t = "pocr_push (Some ?e) (st\<lparr>po_graph := G\<rparr>)"
  have "fifo_inv (po_work (st\<lparr>po_graph := G\<rparr>))" using w by simp
  note p = pocr_push_spec [OF this, of ?e]
  have pe: "po_edges (st\<lparr>po_graph := G\<rparr>) = po_edges st" by (simp add: po_edges_def)
  have "add_new_edge i j X st = Some ?t" using nm G(1) by (simp add: add_new_edge_def)
  moreover have "pocr_base_ok D ?t" using ok p pe G s D by (auto simp: pocr_base_ok_def)
  ultimately show ?thesis using p pe G(3,4) by auto
qed

lemma add_new_edges_spec:
  assumes ok: "pocr_base_ok D st" and d: "distinct (map (\<lambda>x. (a x, b x)) xs)"
    and xs: "\<And>x. x \<in> set xs \<Longrightarrow> a x \<in> set (cfl_nodes (po_graph st)) \<and> b x \<in> set (cfl_nodes (po_graph st)) \<and>
      (X, a x, b x) \<in> D \<and> (X, a x, b x) \<notin> sym_edges (po_graph st)"
  shows "\<exists>t. ofold (\<lambda>x. add_new_edge (a x) (b x) X) xs st = Some t \<and> pocr_base_ok D t \<and>
    cfl_nodes (po_graph t) = cfl_nodes (po_graph st) \<and>
    set (cflEdgeSet (po_graph t)) = (\<lambda>x. GEdge (num_of_sym X) (a x) (b x)) ` set xs \<union> set (cflEdgeSet (po_graph st)) \<and>
    po_edges t = (\<lambda>x. GEdge (num_of_sym X) (a x) (b x)) ` set xs \<union> po_edges st \<and> succMap t = succMap st \<and> predMap t = predMap st"
  using assms
proof (induction xs arbitrary: st)
  case (Cons x xs)
  obtain t where t: "add_new_edge (a x) (b x) X st = Some t" "pocr_base_ok D t" "cfl_nodes (po_graph t) = cfl_nodes (po_graph st)"
    "set (cflEdgeSet (po_graph t)) = insert (GEdge (num_of_sym X) (a x) (b x)) (set (cflEdgeSet (po_graph st)))"
    "po_edges t = insert (GEdge (num_of_sym X) (a x) (b x)) (po_edges st)" "succMap t = succMap st" "predMap t = predMap st"
    using add_new_edge_spec [OF Cons.prems(1), of "a x" "b x" X] Cons.prems(3) [of x] by auto
  have s: "sym_edges (po_graph t) = insert (X, a x, b x) (sym_edges (po_graph st))" by (simp add: sym_edges_def t(4))
  have "a y \<in> set (cfl_nodes (po_graph t)) \<and> b y \<in> set (cfl_nodes (po_graph t)) \<and>
      (X, a y, b y) \<in> D \<and> (X, a y, b y) \<notin> sym_edges (po_graph t)" if "y \<in> set xs" for y
  proof -
    have "(a y, b y) \<noteq> (a x, b x)" using Cons.prems(2) that by (auto simp: image_iff)
    then show ?thesis using Cons.prems(3) [of y] that s t(3) by auto
  qed
  moreover have "distinct (map (\<lambda>x. (a x, b x)) xs)" using Cons.prems(2) by simp
  ultimately show ?case using Cons.IH [OF t(2)] t by auto
qed simp

section \<open>Processing an edge\<close>

text \<open>Recording edges and then adding those that are new keeps data and graph together.\<close>

lemma record_and_add:
  assumes ok: "pocr_ok D st" and data: "data_ok (st\<lparr>succMap := s, predMap := p\<rparr>) (sym_edges (po_graph st) \<union> (\<lambda>x. (X, a x, b x)) ` A)"
    and xs: "set xs = {x \<in> A. (X, a x, b x) \<notin> sym_edges (po_graph st)}" "distinct (map (\<lambda>x. (a x, b x)) xs)"
    and A: "\<And>x. x \<in> A \<Longrightarrow> a x \<in> set (cfl_nodes (po_graph st)) \<and> b x \<in> set (cfl_nodes (po_graph st)) \<and> (X, a x, b x) \<in> D"
  shows "\<exists>t. ofold (\<lambda>x. add_new_edge (a x) (b x) X) xs (st\<lparr>succMap := s, predMap := p\<rparr>) = Some t \<and> ps.extends D st t \<and>
    (\<forall>x \<in> A. ps.has_edge (X, a x, b x) t)"
proof -
  let ?s = "st\<lparr>succMap := s, predMap := p\<rparr>"
  have b: "pocr_base_ok D ?s" using ok by (simp add: pocr_ok_def pocr_base_ok_def po_edges_def)
  have x: "x \<in> set xs \<Longrightarrow> a x \<in> set (cfl_nodes (po_graph ?s)) \<and> b x \<in> set (cfl_nodes (po_graph ?s)) \<and>
      (X, a x, b x) \<in> D \<and> (X, a x, b x) \<notin> sym_edges (po_graph ?s)" for x
    using A xs(1) by simp
  have pe: "po_edges ?s = po_edges st" by (simp add: po_edges_def)
  obtain t where t: "ofold (\<lambda>x. add_new_edge (a x) (b x) X) xs ?s = Some t" "pocr_base_ok D t"
      "cfl_nodes (po_graph t) = cfl_nodes (po_graph st)"
      "set (cflEdgeSet (po_graph t)) = (\<lambda>x. GEdge (num_of_sym X) (a x) (b x)) ` set xs \<union> set (cflEdgeSet (po_graph st))"
      "po_edges t = (\<lambda>x. GEdge (num_of_sym X) (a x) (b x)) ` set xs \<union> po_edges st" "succMap t = s" "predMap t = p"
    using add_new_edges_spec [OF b xs(2) x] pe by auto
  have sym: "sym_edges (po_graph t) = sym_edges (po_graph st) \<union> (\<lambda>x. (X, a x, b x)) ` A"
    using xs(1) by (auto simp: sym_edges_def t(4) image_Un image_image)
  have "data_ok t (sym_edges (po_graph t))" using data t(6,7) by (simp add: sym data_ok_def)
  moreover have "GEdge (num_of_sym X) (a x) (b x) \<notin> set (cflEdgeSet (po_graph st))" if "x \<in> set xs" for x
    using that xs(1) sym_edges_mem [of "po_graph st"] ok by (auto simp: pocr_ok_def pocr_base_ok_def)
  ultimately show ?thesis using t sym by (auto simp: ps.extends_def ps.has_edge_def pocr_ok_def)
qed

lemma pocr_ok_nodes:
  assumes "pocr_ok D st" "(X, i, j) \<in> sym_edges (po_graph st)"
  shows "i \<in> set (cfl_nodes (po_graph st))" "j \<in> set (cfl_nodes (po_graph st))" "i < 2 ^ 32" "j < 2 ^ 32" "(X, i, j) \<in> D"
  using assms sym_edges_nodes [of "po_graph st" X i j] by (auto simp: pocr_ok_def pocr_base_ok_def)

text \<open>One new edge.\<close>

lemma pocr_add_one:
  assumes ok: "pocr_ok D st" and ij: "i \<in> set (cfl_nodes (po_graph st))" "j \<in> set (cfl_nodes (po_graph st))" and D: "(X, i, j) \<in> D"
  shows "\<exists>t. (let (added, st) = pocr_addEdge i j X st in if added then add_new_edge i j X st else Some st) = Some t \<and>
    ps.extends D st t \<and> ps.has_edge (X, i, j) t \<and> fst ` set (succMap t) = insert i (fst ` set (succMap st))"
proof -
  have data: "data_ok st (sym_edges (po_graph st))" and b: "i < 2 ^ 32" "j < 2 ^ 32"
    using ok ij by (auto simp: pocr_ok_def pocr_base_ok_def)
  obtain r s where s: "pocr_addEdge i j X st = (r, s)" by fastforce
  note a = pocr_addEdge_spec [OF data b s]
  have ss: "s = st\<lparr>succMap := succMap s, predMap := predMap s\<rparr>" using a(3,4) by (cases st; cases s) simp
  let ?xs = "if r then [()] else []"
  have "\<exists>t. ofold (\<lambda>_. add_new_edge i j X) ?xs (st\<lparr>succMap := succMap s, predMap := predMap s\<rparr>) = Some t \<and> ps.extends D st t \<and>
      (\<forall>x \<in> {()}. ps.has_edge (X, i, j) t)"
  proof (rule record_and_add [OF ok])
    show "data_ok (st\<lparr>succMap := succMap s, predMap := predMap s\<rparr>) (sym_edges (po_graph st) \<union> (\<lambda>_. (X, i, j)) ` {()})"
      using a(2) ss by simp
  qed (use a(1) ij D in auto)
  then obtain t where t: "ofold (\<lambda>_. add_new_edge i j X) ?xs s = Some t" "ps.extends D st t" "ps.has_edge (X, i, j) t"
    using ss by auto
  have run: "(if r then add_new_edge i j X s else Some s) = Some t" using t(1) by (auto split: if_splits Option.bind_splits)
  have "succMap t = succMap s"
  proof (cases r)
    case True
    have b0: "pocr_base_ok D s" using ok a(3,4) by (simp add: pocr_ok_def pocr_base_ok_def po_edges_def)
    then show ?thesis using add_new_edge_spec [OF b0, of i j X] a(1,3) True ij D run by auto
  qed (use run in simp)
  then show ?thesis using run t(2,3) s a(5) by auto
qed

lemma pocr_extends_nodes: "ps.extends D s t \<Longrightarrow> pocr_ok D s \<Longrightarrow> cfl_nodes (po_graph t) = cfl_nodes (po_graph s)"
  by (simp add: ps.extends_def)

lemma pocr_single_part:
  assumes g: "grammar_ok g" and c: "cfl_closed g N D" and ok: "pocr_ok D st" and e: "(Y, i, j) \<in> sym_edges (po_graph st)"
  shows "\<exists>t. (if hasProdsFromSingleRHS g Y then do { ps \<leftarrow> getProdsFromSingleRHS g Y; ofold (pocr_single i j) ps st }
           else Some st) = Some t \<and> ps.extends D st t \<and> (\<forall>X. (X, Y) \<in> single_prods g \<longrightarrow> ps.has_edge (X, i, j) t)"
proof (cases "getProdsFromSingleRHS g Y")
  case None
  then show ?thesis
    using ps.extends_refl [of D st] by (auto simp: hasProdsFromSingleRHS_def getProdsFromSingleRHS_def single_prods_def)
next
  case (Some qs)
  note ij = pocr_ok_nodes [OF ok e]
  have "\<exists>t. ofold (pocr_single i j) qs st = Some t \<and> ps.extends D st t \<and>
      (\<forall>q \<in> set qs. \<forall>y \<in> {(X, i, j) | X. getLHSSymbol q = Some X}. ps.has_edge y t)"
  proof (rule ps.ofold_extends [OF ok])
    fix q t assume q: "q \<in> set qs" and t: "ps.extends D st t" "pocr_ok D t"
    have "length q = 2" using g Some q by (auto simp: grammar_ok_def)
    then obtain X where X: "getLHSSymbol q = Some X" by (simp add: getLHSSymbol_def)
    then have "(X, Y) \<in> single_prods g" using Some q by (auto simp: single_prods_def)
    then have "(X, i, j) \<in> D" using c ij(5) by (auto simp: cfl_closed_def)
    then show "\<exists>u. pocr_single i j q t = Some u \<and> ps.extends D t u \<and>
        (\<forall>y \<in> {(X, i, j) | X. getLHSSymbol q = Some X}. ps.has_edge y u)"
      using pocr_add_one [OF t(2), of i j X] ij(1,2) X pocr_extends_nodes [OF t(1) ok] by (auto simp: pocr_single_def)
  qed
  then show ?thesis using Some by (fastforce simp: hasProdsFromSingleRHS_def getProdsFromSingleRHS_def single_prods_def)
qed

lemma touch_spec:
  assumes "pocr_ok D st"
  shows "pocr_ok D (touch_succ k X st)" "po_graph (touch_succ k X st) = po_graph st" "po_work (touch_succ k X st) = po_work st"
    "dm_get (succMap (touch_succ k X st)) l Y = dm_get (succMap st) l Y"
    "pocr_ok D (touch_pred k X st)" "po_graph (touch_pred k X st) = po_graph st" "po_work (touch_pred k X st) = po_work st"
    "dm_get (predMap (touch_pred k X st)) l Y = dm_get (predMap st) l Y"
  using assms by (auto simp: pocr_ok_def pocr_base_ok_def po_edges_def data_ok_def dm_ok_def touch_succ_def touch_pred_def)

lemma touch_extends:
  "ps.extends D (touch_succ k X st) t \<Longrightarrow> pocr_ok D st \<Longrightarrow> ps.extends D st t"
  "ps.extends D (touch_pred k X st) t \<Longrightarrow> pocr_ok D st \<Longrightarrow> ps.extends D st t"
  using touch_spec [of D st k X] by (simp_all add: ps.extends_def po_edges_def)

lemma pocr_first_step:
  assumes g: "grammar_ok g" and c: "cfl_closed g N D" and ok: "pocr_ok D st" and ij: "(Y, i, j) \<in> sym_edges (po_graph st)"
    and q: "getLHSSymbol q = Some X" "getSecondRHSSymbol q = Some Z" "(X, Y, Z) \<in> pair_prods g"
  shows "\<exists>t. pocr_first i j q st = Some t \<and> ps.extends D st t \<and>
    (\<forall>k. (Z, j, k) \<in> sym_edges (po_graph st) \<longrightarrow> ps.has_edge (X, i, k) t)"
proof -
  let ?s = "touch_succ j Z st" and ?S = "sym_edges (po_graph st)"
  note ts = touch_spec [OF ok, of j Z] and n = pocr_ok_nodes [OF ok ij]
  have data: "data_ok ?s ?S" using ts(1,2) by (simp add: pocr_ok_def)
  have b: "sbv_inv (dm_get (succMap ?s) j Z)" "sbv_bits (dm_get (succMap ?s) j Z) = {k. (Z, j, k) \<in> ?S}"
    using data by (simp_all add: data_ok_def dm_ok_def)
  obtain d s p where d: "addEdges_dst i (dm_get (succMap ?s) j Z) X ?s = Some (d, ?s\<lparr>succMap := s, predMap := p\<rparr>)" "sbv_inv d"
      "sbv_bits d = {k. (Z, j, k) \<in> ?S \<and> (X, i, k) \<notin> ?S}"
      "data_ok (?s\<lparr>succMap := s, predMap := p\<rparr>) (?S \<union> (\<lambda>k. (X, i, k)) ` {k. (Z, j, k) \<in> ?S})"
    using addEdges_dst_spec [OF data b(1) n(3), of X] b(2) by auto
  obtain ns where ns: "sbv_list d = Some ns" "set ns = sbv_bits d" "distinct ns" using sv.elements_set [OF d(2)] by auto
  have k: "i \<in> set (cfl_nodes (po_graph ?s)) \<and> k \<in> set (cfl_nodes (po_graph ?s)) \<and> (X, i, k) \<in> D" if z: "(Z, j, k) \<in> ?S" for k
  proof -
    have "(X, i, k) \<in> D" using c q(3) n(5) pocr_ok_nodes(5) [OF ok z] unfolding cfl_closed_def by blast
    then show ?thesis using n(1) pocr_ok_nodes(2) [OF ok z] ts(2) by simp
  qed
  obtain t where t: "ofold (\<lambda>k. add_new_edge i k X) ns (?s\<lparr>succMap := s, predMap := p\<rparr>) = Some t" "ps.extends D ?s t"
      "\<forall>k \<in> {k. (Z, j, k) \<in> ?S}. ps.has_edge (X, i, k) t"
    using record_and_add [OF ts(1), of p s X "\<lambda>_. i" "\<lambda>k. k" "{k. (Z, j, k) \<in> ?S}" ns] d(3,4) ns(2,3) k ts(2)
    by (auto simp: distinct_map inj_on_def)
  then show ?thesis using touch_extends(1) [OF t(2) ok] q(1,2) d(1) ns(1) by (auto simp: pocr_first_def Let_def)
qed

lemma pocr_second_step:
  assumes g: "grammar_ok g" and c: "cfl_closed g N D" and ok: "pocr_ok D st" and ij: "(Y, i, j) \<in> sym_edges (po_graph st)"
    and q: "getLHSSymbol q = Some X" "getFirstRHSSymbol q = Some Z" "(X, Z, Y) \<in> pair_prods g"
  shows "\<exists>t. pocr_second i j q st = Some t \<and> ps.extends D st t \<and>
    (\<forall>k. (Z, k, i) \<in> sym_edges (po_graph st) \<longrightarrow> ps.has_edge (X, k, j) t)"
proof -
  let ?s = "touch_pred i Z st" and ?S = "sym_edges (po_graph st)"
  note ts = touch_spec [OF ok, of i Z] and n = pocr_ok_nodes [OF ok ij]
  have data: "data_ok ?s ?S" using ts(5,6) by (simp add: pocr_ok_def)
  have b: "sbv_inv (dm_get (predMap ?s) i Z)" "sbv_bits (dm_get (predMap ?s) i Z) = {k. (Z, k, i) \<in> ?S}"
    using data by (simp_all add: data_ok_def dm_ok_def)
  obtain d s p where d: "addEdges_src (dm_get (predMap ?s) i Z) j X ?s = Some (d, ?s\<lparr>succMap := s, predMap := p\<rparr>)" "sbv_inv d"
      "sbv_bits d = {k. (Z, k, i) \<in> ?S \<and> (X, k, j) \<notin> ?S}"
      "data_ok (?s\<lparr>succMap := s, predMap := p\<rparr>) (?S \<union> (\<lambda>k. (X, k, j)) ` {k. (Z, k, i) \<in> ?S})"
    using addEdges_src_spec [OF data b(1) n(4), of X] b(2) by auto
  obtain ns where ns: "sbv_list d = Some ns" "set ns = sbv_bits d" "distinct ns" using sv.elements_set [OF d(2)] by auto
  have k: "k \<in> set (cfl_nodes (po_graph ?s)) \<and> j \<in> set (cfl_nodes (po_graph ?s)) \<and> (X, k, j) \<in> D" if z: "(Z, k, i) \<in> ?S" for k
  proof -
    have "(X, k, j) \<in> D" using c q(3) n(5) pocr_ok_nodes(5) [OF ok z] unfolding cfl_closed_def by blast
    then show ?thesis using n(2) pocr_ok_nodes(1) [OF ok z] ts(6) by simp
  qed
  obtain t where t: "ofold (\<lambda>k. add_new_edge k j X) ns (?s\<lparr>succMap := s, predMap := p\<rparr>) = Some t" "ps.extends D ?s t"
      "\<forall>k \<in> {k. (Z, k, i) \<in> ?S}. ps.has_edge (X, k, j) t"
    using record_and_add [OF ts(5), of p s X "\<lambda>k. k" "\<lambda>_. j" "{k. (Z, k, i) \<in> ?S}" ns] d(3,4) ns(2,3) k ts(6)
    by (auto simp: distinct_map inj_on_def)
  then show ?thesis using touch_extends(2) [OF t(2) ok] q(1,2) d(1) ns(1) by (auto simp: pocr_second_def Let_def)
qed

lemma pocr_mono: "ps.extends D s t \<Longrightarrow> pocr_ok D s \<Longrightarrow> x \<in> sym_edges (po_graph s) \<Longrightarrow> x \<in> sym_edges (po_graph t)"
  using ps.extends_edges by blast

lemma pocr_first_part:
  assumes g: "grammar_ok g" and c: "cfl_closed g N D" and ok: "pocr_ok D st" and e: "(Y, i, j) \<in> sym_edges (po_graph st)"
  shows "\<exists>t. (if hasProdsFromFirstRHS g Y then do { ps \<leftarrow> getProdsFromFirstRHS g Y; ofold (pocr_first i j) ps st }
           else Some st) = Some t \<and> ps.extends D st t \<and>
    (\<forall>X Z k. (X, Y, Z) \<in> pair_prods g \<longrightarrow> (Z, j, k) \<in> sym_edges (po_graph st) \<longrightarrow> ps.has_edge (X, i, k) t)"
proof (cases "getProdsFromFirstRHS g Y")
  case None
  then show ?thesis
    using ps.extends_refl [of D st] by (auto simp: hasProdsFromFirstRHS_def getProdsFromFirstRHS_def pair_prods_def)
next
  case (Some qs)
  let ?A = "\<lambda>q. {(X, i, k) | X Z k. getLHSSymbol q = Some X \<and> getSecondRHSSymbol q = Some Z \<and> (Z, j, k) \<in> sym_edges (po_graph st)}"
  have "\<exists>t. ofold (pocr_first i j) qs st = Some t \<and> ps.extends D st t \<and> (\<forall>q \<in> set qs. \<forall>y \<in> ?A q. ps.has_edge y t)"
  proof (rule ps.ofold_extends [OF ok])
    fix q t assume q: "q \<in> set qs" and t: "ps.extends D st t" "pocr_ok D t"
    have "length q = 3" using g Some q by (auto simp: grammar_ok_def)
    then obtain X Z where XZ: "getLHSSymbol q = Some X" "getSecondRHSSymbol q = Some Z"
      by (simp add: getLHSSymbol_def getSecondRHSSymbol_def)
    then have pr: "(X, Y, Z) \<in> pair_prods g" using Some q by (auto simp: pair_prods_def)
    obtain u where u: "pocr_first i j q t = Some u" "ps.extends D t u"
        "\<forall>k. (Z, j, k) \<in> sym_edges (po_graph t) \<longrightarrow> ps.has_edge (X, i, k) u"
      using pocr_first_step [OF g c t(2) pocr_mono [OF t(1) ok e] XZ pr] by blast
    then show "\<exists>u. pocr_first i j q t = Some u \<and> ps.extends D t u \<and> (\<forall>y \<in> ?A q. ps.has_edge y u)"
      using XZ pocr_mono [OF t(1) ok] by auto
  qed
  then show ?thesis using Some by (fastforce simp: hasProdsFromFirstRHS_def getProdsFromFirstRHS_def pair_prods_def)
qed

lemma pocr_second_part:
  assumes g: "grammar_ok g" and c: "cfl_closed g N D" and ok: "pocr_ok D st" and e: "(Y, i, j) \<in> sym_edges (po_graph st)"
  shows "\<exists>t. (if hasProdsFromSecondRHS g Y then do { ps \<leftarrow> getProdsFromSecondRHS g Y; ofold (pocr_second i j) ps st }
           else Some st) = Some t \<and> ps.extends D st t \<and>
    (\<forall>X Z k. (X, Z, Y) \<in> pair_prods g \<longrightarrow> (Z, k, i) \<in> sym_edges (po_graph st) \<longrightarrow> ps.has_edge (X, k, j) t)"
proof (cases "getProdsFromSecondRHS g Y")
  case None
  then have "(X, Z, Y) \<notin> pair_prods g" for X Z using g by (simp add: grammar_ok_def)
  then show ?thesis
    using ps.extends_refl [of D st] None by (simp add: hasProdsFromSecondRHS_def getProdsFromSecondRHS_def)
next
  case (Some qs)
  have pairs: "(X, Z, Y) \<in> pair_prods g \<longleftrightarrow> (\<exists>q \<in> set qs. getLHSSymbol q = Some X \<and> getFirstRHSSymbol q = Some Z)" for X Z
    using g Some by (simp add: grammar_ok_def)
  let ?A = "\<lambda>q. {(X, k, j) | X Z k. getLHSSymbol q = Some X \<and> getFirstRHSSymbol q = Some Z \<and> (Z, k, i) \<in> sym_edges (po_graph st)}"
  have "\<exists>t. ofold (pocr_second i j) qs st = Some t \<and> ps.extends D st t \<and> (\<forall>q \<in> set qs. \<forall>y \<in> ?A q. ps.has_edge y t)"
  proof (rule ps.ofold_extends [OF ok])
    fix q t assume q: "q \<in> set qs" and t: "ps.extends D st t" "pocr_ok D t"
    have "length q = 3" using g Some q by (auto simp: grammar_ok_def)
    then obtain X Z where XZ: "getLHSSymbol q = Some X" "getFirstRHSSymbol q = Some Z"
      by (simp add: getLHSSymbol_def getFirstRHSSymbol_def)
    then have pr: "(X, Z, Y) \<in> pair_prods g" using pairs q by blast
    obtain u where u: "pocr_second i j q t = Some u" "ps.extends D t u"
        "\<forall>k. (Z, k, i) \<in> sym_edges (po_graph t) \<longrightarrow> ps.has_edge (X, k, j) u"
      using pocr_second_step [OF g c t(2) pocr_mono [OF t(1) ok e] XZ pr] by blast
    then show "\<exists>u. pocr_second i j q t = Some u \<and> ps.extends D t u \<and> (\<forall>y \<in> ?A q. ps.has_edge y u)"
      using XZ pocr_mono [OF t(1) ok] by auto
  qed
  then obtain t where t: "ofold (pocr_second i j) qs st = Some t" "ps.extends D st t" "\<forall>q \<in> set qs. \<forall>y \<in> ?A q. ps.has_edge y t"
    by blast
  have "ps.has_edge (X, k, j) t" if xz: "(X, Z, Y) \<in> pair_prods g" "(Z, k, i) \<in> sym_edges (po_graph st)" for X Z k
  proof -
    obtain q where q: "q \<in> set qs" "getLHSSymbol q = Some X" "getFirstRHSSymbol q = Some Z" using xz(1) pairs by blast
    then have "(X, k, j) \<in> ?A q" using xz(2) by blast
    then show ?thesis using t(3) q(1) by blast
  qed
  then show ?thesis using Some t(1,2) by (simp add: hasProdsFromSecondRHS_def getProdsFromSecondRHS_def)
qed

lemma pocr_process_spec:
  assumes g: "grammar_ok g" and c: "cfl_closed g N D" and ok: "pocr_ok D st" and e: "e \<in> set (cflEdgeSet (po_graph st))"
  shows "\<exists>t. pocr_process g (Some e) st = Some t \<and> ps.extends D st t \<and> ps.combines g e st t"
proof -
  let ?Y = "edge_symbol e" and ?i = "getSrcID e" and ?j = "getDstID e"
  have e1: "(?Y, ?i, ?j) \<in> sym_edges (po_graph st)" using e by (auto simp: sym_edges_def)
  obtain t1 where t1: "(if hasProdsFromSingleRHS g ?Y then do { ps \<leftarrow> getProdsFromSingleRHS g ?Y; ofold (pocr_single ?i ?j) ps st }
           else Some st) = Some t1" and x1: "ps.extends D st t1"
    and h1: "\<forall>X. (X, ?Y) \<in> single_prods g \<longrightarrow> ps.has_edge (X, ?i, ?j) t1"
    using pocr_single_part [OF g c ok e1] by blast
  have ok1: "pocr_ok D t1" using x1 ok by (simp add: ps.extends_def)
  have e2: "(?Y, ?i, ?j) \<in> sym_edges (po_graph t1)" by (rule pocr_mono [OF x1 ok e1])
  obtain t2 where t2: "(if hasProdsFromFirstRHS g ?Y then do { ps \<leftarrow> getProdsFromFirstRHS g ?Y; ofold (pocr_first ?i ?j) ps t1 }
           else Some t1) = Some t2" and x2: "ps.extends D t1 t2"
    and h2: "\<forall>X Z k. (X, ?Y, Z) \<in> pair_prods g \<longrightarrow> (Z, ?j, k) \<in> sym_edges (po_graph t1) \<longrightarrow> ps.has_edge (X, ?i, k) t2"
    using pocr_first_part [OF g c ok1 e2] by blast
  have ok2: "pocr_ok D t2" using x2 ok1 by (simp add: ps.extends_def)
  have e3: "(?Y, ?i, ?j) \<in> sym_edges (po_graph t2)" by (rule pocr_mono [OF x2 ok1 e2])
  obtain t3 where t3: "(if hasProdsFromSecondRHS g ?Y then do { ps \<leftarrow> getProdsFromSecondRHS g ?Y; ofold (pocr_second ?i ?j) ps t2 }
           else Some t2) = Some t3" and x3: "ps.extends D t2 t3"
    and h3: "\<forall>X Z k. (X, Z, ?Y) \<in> pair_prods g \<longrightarrow> (Z, k, ?i) \<in> sym_edges (po_graph t2) \<longrightarrow> ps.has_edge (X, k, ?j) t3"
    using pocr_second_part [OF g c ok2 e3] by blast
  have m: "sym_edges (po_graph st) \<subseteq> sym_edges (po_graph t1)" "sym_edges (po_graph t1) \<subseteq> sym_edges (po_graph t2)"
    "sym_edges (po_graph t2) \<subseteq> sym_edges (po_graph t3)"
    using ps.extends_edges x1 x2 x3 ok ok1 ok2 by blast+
  have "pocr_process g (Some e) st = Some t3"
    unfolding pocr_process_def Let_def Option.bind_lunit by (simp only: t1 t2 t3 Option.bind_lunit)
  moreover have "ps.extends D st t3" using ps.extends_trans [OF x1 ps.extends_trans [OF x2 x3]] .
  moreover have "ps.combines g e st t3" using h1 h2 h3 m unfolding ps.combines_def ps.has_edge_def by blast
  ultimately show ?thesis by blast
qed

interpretation pe: cfl_engine po_graph po_edges pocr_ok pocr_ops grammar_ok "\<lambda>g. g"
proof unfold_locales
  fix g D s
  assume "pocr_ok D s"
  then have n: "None \<notin> set (data_list (po_work s))" by (simp add: pocr_ok_def pocr_base_ok_def)
  show "op_empty (pocr_ops g) s \<longleftrightarrow> po_edges s = {}"
    using n by (cases "data_list (po_work s)"; cases "hd (data_list (po_work s))")
      (auto simp: pocr_ops_def po_edges_def fifo_empty_def)
next
  fix g D s N
  assume g: "grammar_ok g" and ok: "pocr_ok D s" and ne: "po_edges s \<noteq> {}" and c: "cfl_closed g N D"
  have w: "fifo_inv (po_work s)" "data_list (po_work s) \<noteq> []" "None \<notin> set (data_list (po_work s))"
    using ok ne by (auto simp: pocr_ok_def pocr_base_ok_def po_edges_def)
  obtain x w' where x: "fifo_pop (po_work s) = Some (x, w')" "fifo_inv w'" "x \<in> set (data_list (po_work s))"
      "set (data_list w') = set (data_list (po_work s)) - {x}"
    using fi.pop_law [OF w(1,2)] by (auto simp: fifo_ops_def)
  then obtain e where e: "x = Some e" using w(3) by (cases x) auto
  let ?s = "s\<lparr>po_work := w'\<rparr>"
  have pe: "po_edges ?s = po_edges s - {e}" "e \<in> po_edges s" using x(3,4) e by (auto simp: po_edges_def)
  have oks: "pocr_ok D ?s" using ok x(2,4) pe by (auto simp: pocr_ok_def pocr_base_ok_def data_ok_def)
  have mem: "e \<in> set (cflEdgeSet (po_graph ?s))" using ok pe(2) by (auto simp: pocr_ok_def pocr_base_ok_def)
  have p: "op_pop (pocr_ops g) s = Some (Some e, ?s)" using x(1) e by (simp add: pocr_ops_def)
  obtain t where t: "op_process (pocr_ops g) (Some e) ?s = Some t" "ps.extends D ?s t" "ps.combines g e ?s t"
    using pocr_process_spec [OF g c oks mem] by (auto simp: pocr_ops_def)
  have gr: "po_graph ?s = po_graph s" by simp
  from p gr t oks pe show "\<exists>x e s' t. op_pop (pocr_ops g) s = Some (x, s') \<and> po_graph s' = po_graph s \<and> e \<in> po_edges s \<and>
      po_edges s' = po_edges s - {e} \<and> pocr_ok D s' \<and> op_process (pocr_ops g) x s' = Some t \<and> ps.extends D s' t \<and>
      ps.combines g e s' t" by blast
qed

section \<open>The start\<close>

lemma buildCFLData_spec:
  "data_ok st S \<Longrightarrow> \<forall>e \<in> set es. getSrcID e < 2 ^ 32 \<and> getDstID e < 2 ^ 32 \<Longrightarrow>
   let t = fold (\<lambda>e st. snd (pocr_addEdge (getSrcID e) (getDstID e) (edge_symbol e) st)) es st in
   data_ok t (S \<union> (\<lambda>e. (edge_symbol e, getSrcID e, getDstID e)) ` set es) \<and> po_graph t = po_graph st \<and> po_work t = po_work st \<and>
   fst ` set (succMap t) = fst ` set (succMap st) \<union> getSrcID ` set es"
proof (induction es arbitrary: st S)
  case (Cons e es)
  obtain r s where s: "pocr_addEdge (getSrcID e) (getDstID e) (edge_symbol e) st = (r, s)" by fastforce
  have b: "getSrcID e < 2 ^ 32" "getDstID e < 2 ^ 32" using Cons.prems(2) by simp_all
  note a = pocr_addEdge_spec [OF Cons.prems(1) b s]
  show ?case using Cons.IH [OF a(2)] Cons.prems(2) a(3,4,5) s by (simp add: Let_def)
qed simp

lemma pocr_solver_new_spec:
  assumes ok: "cfl_ok G" and small: "\<forall>i \<in> set (cfl_nodes G). i < 2 ^ 32"
  shows "data_ok (pocr_solver_new G) (sym_edges G)" "po_graph (pocr_solver_new G) = G" "po_work (pocr_solver_new G) = fifo_new"
    "fst ` set (succMap (pocr_solver_new G)) = getSrcID ` set (cflEdgeSet G)"
proof -
  have "data_ok \<lparr>po_graph = G, po_work = fifo_new, succMap = [], predMap = []\<rparr> {}" by (simp add: data_ok_def)
  moreover have "\<forall>e \<in> set (cflEdgeSet G). getSrcID e < 2 ^ 32 \<and> getDstID e < 2 ^ 32"
    using ok small unfolding cfl_ok_def by blast
  ultimately show "data_ok (pocr_solver_new G) (sym_edges G)" "po_graph (pocr_solver_new G) = G" "po_work (pocr_solver_new G) = fifo_new"
    "fst ` set (succMap (pocr_solver_new G)) = getSrcID ` set (cflEdgeSet G)"
    using buildCFLData_spec [of "\<lparr>po_graph = G, po_work = fifo_new, succMap = [], predMap = []\<rparr>" "{}" "cflEdgeSet G"]
    by (simp_all add: pocr_solver_new_def buildCFLData_def Let_def sym_edges_def)
qed

lemma pocr_push_all:
  "fifo_inv (po_work st) \<Longrightarrow> None \<notin> set (data_list (po_work st)) \<Longrightarrow>
   let t = fold (\<lambda>e. pocr_push (Some e)) es st in po_graph t = po_graph st \<and> succMap t = succMap st \<and> predMap t = predMap st \<and>
     fifo_inv (po_work t) \<and> None \<notin> set (data_list (po_work t)) \<and> po_edges t = set es \<union> po_edges st"
proof (induction es arbitrary: st)
  case (Cons e es)
  note p = pocr_push_spec [OF Cons.prems(1), of e]
  have n: "None \<notin> set (data_list (po_work (pocr_push (Some e) st)))" using p(3) Cons.prems(2) by simp
  show ?case using Cons.IH [OF p(1) n] p by (simp add: Let_def)
qed simp

abbreviation succ_keys :: "pocr_solver \<Rightarrow> NodeID set" where
  "succ_keys st \<equiv> fst ` set (succMap st)"

lemma eps_inner:
  assumes "pocr_ok D st" "succ_keys st = K" "set ks \<subseteq> K" "K \<subseteq> set (cfl_nodes (po_graph st))" "\<forall>i \<in> K. (X, i, i) \<in> D"
  shows "\<exists>t. ofold (\<lambda>i st. let (added, st) = pocr_addEdge i i X st in if added then add_new_edge i i X st else Some st) ks st = Some t \<and>
    ps.extends D st t \<and> succ_keys t = K \<and> (\<forall>i \<in> set ks. ps.has_edge (X, i, i) t)"
  using assms
proof (induction ks arbitrary: st)
  case Nil
  then show ?case using ps.extends_refl by simp
next
  case (Cons i ks)
  have i: "i \<in> K" "i \<in> set (cfl_nodes (po_graph st))" "(X, i, i) \<in> D" using Cons.prems(3,4,5) by auto
  obtain u where u: "(let (added, st) = pocr_addEdge i i X st in if added then add_new_edge i i X st else Some st) = Some u"
      "ps.extends D st u" "ps.has_edge (X, i, i) u" "succ_keys u = insert i K"
    using pocr_add_one [OF Cons.prems(1) i(2,2,3)] Cons.prems(2) by blast
  have ok: "pocr_ok D u" "succ_keys u = K" using u(2,4) Cons.prems(1) i(1) by (auto simp: ps.extends_def)
  obtain t where t: "ofold (\<lambda>i st. let (added, st) = pocr_addEdge i i X st in if added then add_new_edge i i X st else Some st) ks u = Some t"
      "ps.extends D u t" "succ_keys t = K" "\<forall>i \<in> set ks. ps.has_edge (X, i, i) t"
    using Cons.IH [OF ok] Cons.prems(3,4,5) pocr_extends_nodes [OF u(2) Cons.prems(1)] by auto
  have "ps.has_edge (X, i, i) t" using u(3) pocr_mono [OF t(2) ok(1)] by (simp add: ps.has_edge_def)
  then show ?case using u(1) t ps.extends_trans [OF u(2) t(2)] by simp
qed

lemma eps_outer:
  assumes "pocr_ok D st" "succ_keys st = K" "K \<subseteq> set (cfl_nodes (po_graph st))"
    "\<forall>p \<in> set qs. length p = 2 \<and> (\<forall>X. getLHSSymbol p = Some X \<longrightarrow> (\<forall>i \<in> K. (X, i, i) \<in> D))"
  shows "\<exists>t. ofold (\<lambda>p st. ofold (\<lambda>i st. do {
         X \<leftarrow> getLHSSymbol p;
         let (added, st) = pocr_addEdge i i X st;
         if added then add_new_edge i i X st else Some st
       }) (map fst (succMap st)) st) qs st = Some t \<and> ps.extends D st t \<and>
    (\<forall>p \<in> set qs. \<forall>X. getLHSSymbol p = Some X \<longrightarrow> (\<forall>i \<in> K. ps.has_edge (X, i, i) t))"
  using assms
proof (induction qs arbitrary: st)
  case Nil
  then show ?case using ps.extends_refl by simp
next
  case (Cons p qs)
  obtain X where X: "getLHSSymbol p = Some X" using Cons.prems(4) by (auto simp: getLHSSymbol_def)
  have keys: "set (map fst (succMap st)) = K" using Cons.prems(2) by simp
  obtain u where u: "ofold (\<lambda>i st. let (added, st) = pocr_addEdge i i X st in if added then add_new_edge i i X st else Some st)
        (map fst (succMap st)) st = Some u" "ps.extends D st u" "succ_keys u = K" "\<forall>i \<in> K. ps.has_edge (X, i, i) u"
    using eps_inner [OF Cons.prems(1,2), of "map fst (succMap st)" X] keys Cons.prems(3,4) X by auto
  have ok: "pocr_ok D u" using u(2) Cons.prems(1) by (simp add: ps.extends_def)
  have n: "K \<subseteq> set (cfl_nodes (po_graph u))" using Cons.prems(3) pocr_extends_nodes [OF u(2) Cons.prems(1)] by simp
  obtain t where t: "ofold (\<lambda>p st. ofold (\<lambda>i st. do {
         X \<leftarrow> getLHSSymbol p;
         let (added, st) = pocr_addEdge i i X st;
         if added then add_new_edge i i X st else Some st
       }) (map fst (succMap st)) st) qs u = Some t" "ps.extends D u t"
      "\<forall>p \<in> set qs. \<forall>X. getLHSSymbol p = Some X \<longrightarrow> (\<forall>i \<in> K. ps.has_edge (X, i, i) t)"
    using Cons.IH [OF ok u(3) n] Cons.prems(4) by auto
  have "\<forall>i \<in> K. ps.has_edge (X, i, i) t" using u(4) pocr_mono [OF t(2) ok] by (simp add: ps.has_edge_def)
  then show ?case using u(1) t X ps.extends_trans [OF u(2) t(2)] by (simp add: Let_def)
qed

lemma pocr_initialize_spec:
  assumes g: "grammar_ok g" and c: "cfl_closed g (getSrcID ` set (cflEdgeSet G)) D" and ok: "cfl_ok G"
    and small: "\<forall>i \<in> set (cfl_nodes G). i < 2 ^ 32" and D: "sym_edges G \<subseteq> D"
  shows "\<exists>t. pocr_initialize g (pocr_solver_new G) = Some t \<and> pocr_ok D t \<and> po_edges t = set (cflEdgeSet (po_graph t)) \<and>
    cfl_nodes (po_graph t) = cfl_nodes G \<and> sym_edges G \<subseteq> sym_edges (po_graph t) \<and>
    (\<forall>X \<in> eps_syms g. \<forall>i \<in> getSrcID ` set (cflEdgeSet G). ps.has_edge (X, i, i) t)"
proof -
  let ?n = "pocr_solver_new G" and ?K = "getSrcID ` set (cflEdgeSet G)"
  let ?s = "fold (\<lambda>e. pocr_push (Some e)) (cflEdgeSet (po_graph ?n)) ?n"
  note n = pocr_solver_new_spec [OF ok small]
  have f: "fifo_inv (po_work ?n)" "None \<notin> set (data_list (po_work ?n))" "po_edges ?n = {}"
    using n(3) by (simp_all add: fifo_defs po_edges_def)
  have s: "po_graph ?s = G" "succMap ?s = succMap ?n" "predMap ?s = predMap ?n" "fifo_inv (po_work ?s)"
    "None \<notin> set (data_list (po_work ?s))" "po_edges ?s = set (cflEdgeSet G)"
    using pocr_push_all [OF f(1,2), of "cflEdgeSet (po_graph ?n)"] n(2) f(3) by (simp_all add: Let_def)
  have oks: "pocr_ok D ?s" using s n(1) ok D small by (simp add: pocr_ok_def pocr_base_ok_def data_ok_def)
  have K: "?K \<subseteq> set (cfl_nodes (po_graph ?s))" using ok s(1) by (auto simp: cfl_ok_def)
  have keys: "succ_keys ?s = ?K" using n(4) s(2) by simp
  have "\<forall>p \<in> set (epsilonProds g). length p = 2 \<and> (\<forall>X. getLHSSymbol p = Some X \<longrightarrow> (\<forall>i \<in> ?K. (X, i, i) \<in> D))"
    using g c by (auto simp: grammar_ok_def cfl_closed_def eps_syms_def)
  from eps_outer [OF oks keys K this] obtain t where t: "pocr_initialize g ?n = Some t" "ps.extends D ?s t"
      "\<forall>p \<in> set (epsilonProds g). \<forall>X. getLHSSymbol p = Some X \<longrightarrow> (\<forall>i \<in> ?K. ps.has_edge (X, i, i) t)"
    by (auto simp: pocr_initialize_def Let_def)
  have "pocr_ok D t" "cfl_nodes (po_graph t) = cfl_nodes G" "sym_edges G \<subseteq> sym_edges (po_graph t)"
    "po_edges t = set (cflEdgeSet (po_graph t))"
    using t(2) oks s(1,6) ps.extends_edges [OF t(2) oks] by (auto simp: ps.extends_def)
  then show ?thesis using t(1,3) by (auto simp: eps_syms_def)
qed

lemma pocr_solve_reach:
  assumes g: "grammar_ok g" and ok: "cfl_ok G" and small: "\<forall>i \<in> set (cfl_nodes G). i < 2 ^ 32"
  shows "\<exists>t. cfl_solve (pocr_ops g) (pocr_solver_new G) = Some t \<and> cfl_ok (po_graph t) \<and>
    cfl_nodes (po_graph t) = cfl_nodes G \<and>
    sym_edges (po_graph t) = {(X, i, j). cfl_reach g (getSrcID ` set (cflEdgeSet G)) (sym_edges G) X i j}"
proof -
  let ?N = "getSrcID ` set (cflEdgeSet G)"
  let ?D = "{(X, i, j). cfl_reach g ?N (sym_edges G) X i j}"
  have D: "sym_edges G \<subseteq> ?D" by (auto intro: reach_edge)
  note c = cfl_closed_reach [of g ?N "sym_edges G"]
  obtain s where s: "pocr_initialize g (pocr_solver_new G) = Some s" "pocr_ok ?D s" "po_edges s = set (cflEdgeSet (po_graph s))"
      "cfl_nodes (po_graph s) = cfl_nodes G" "sym_edges G \<subseteq> sym_edges (po_graph s)"
      "\<forall>X \<in> eps_syms g. \<forall>i \<in> ?N. ps.has_edge (X, i, i) s"
    using pocr_initialize_spec [OF g c ok small D] by blast
  have init: "op_initialize (pocr_ops g) (pocr_solver_new G) = Some s" using s(1) by (simp add: pocr_ops_def)
  obtain t where t: "cfl_solve (pocr_ops g) (pocr_solver_new G) = Some t" "pocr_ok ?D t" "cfl_nodes (po_graph t) = cfl_nodes G"
      "sym_edges (po_graph s) \<subseteq> sym_edges (po_graph t)"
      "\<And>X Y i j. (X, Y) \<in> single_prods g \<Longrightarrow> (Y, i, j) \<in> sym_edges (po_graph t) \<Longrightarrow> (X, i, j) \<in> sym_edges (po_graph t)"
      "\<And>X Y Z i j k. (X, Y, Z) \<in> pair_prods g \<Longrightarrow> (Y, i, j) \<in> sym_edges (po_graph t) \<Longrightarrow>
        (Z, j, k) \<in> sym_edges (po_graph t) \<Longrightarrow> (X, i, k) \<in> sym_edges (po_graph t)"
    using pe.cfl_solve_spec [OF g c init s(2,3)] s(4) by auto
  have sub: "sym_edges G \<subseteq> sym_edges (po_graph t)" using s(5) t(4) by blast
  have "cfl_closed g ?N (sym_edges (po_graph t))"
    using s(6) t(4,5,6) unfolding cfl_closed_def ps.has_edge_def by blast
  then have "?D \<subseteq> sym_edges (po_graph t)" using cfl_reach_least [OF _ sub] by blast
  moreover have "sym_edges (po_graph t) \<subseteq> ?D" "cfl_ok (po_graph t)" using t(2) by (simp_all add: pocr_ok_def pocr_base_ok_def)
  ultimately show ?thesis using t(1,3) by blast
qed

end
