(* ===== verification/HybridSolve.thy ===== *)
theory HybridSolve
  imports POCRSolve
begin

text \<open>
  \<open>POCRHybridSolver\<close> (svf/include/CFL/CFLSolver.h, svf/lib/CFL/CFLSolver.cpp): productions
  \<open>F \<rightarrow> F F\<close> are to be handled by spanning trees instead of edges. Processing an edge \<open>F(i,j)\<close> calls
  \<open>addArc(i, j)\<close>, which returns at once when the edge is known, as it always is by then; the solver so
  behaves as the one without these productions.
\<close>

section \<open>Spanning trees\<close>

text \<open>A pointer to a tree node is its index in the list of all of them; \<open>None\<close> is the null pointer.\<close>

record tree_node =
  tn_id :: NodeID
  tn_children :: "nat list"

record hybrid_solver =
  hy_pocr :: pocr_solver
  indMap :: "(NodeID \<times> (NodeID \<times> nat option) list) list"
  treeNodes :: "tree_node list"

definition hasInd_h :: "NodeID \<Rightarrow> NodeID \<Rightarrow> hybrid_solver \<Rightarrow> bool" where
  "hasInd_h src dst h = (case map_of (indMap h) dst of None \<Rightarrow> False | Some m \<Rightarrow> map_of m src \<noteq> None)"

definition addInd_h :: "NodeID \<Rightarrow> NodeID \<Rightarrow> hybrid_solver \<Rightarrow> nat option \<times> hybrid_solver" where
  "addInd_h src dst h =
     (let m = km_get [] (indMap h) dst; new = length (treeNodes h) in
      if map_of m src = None
      then (Some new, h\<lparr>indMap := AList.update dst (AList.update src (Some new) m) (indMap h),
                        treeNodes := treeNodes h @ [\<lparr>tn_id = dst, tn_children = []\<rparr>]\<rparr>)
      else (None, h))"

text \<open>\<open>getNode_h\<close> leaves a null pointer behind when there is none.\<close>

definition getNode_h :: "NodeID \<Rightarrow> NodeID \<Rightarrow> hybrid_solver \<Rightarrow> nat option \<times> hybrid_solver" where
  "getNode_h src dst h =
     (let m = km_get [] (indMap h) dst; n = km_get None m src in
      (n, h\<lparr>indMap := AList.update dst (AList.update src n m) (indMap h)\<rparr>))"

definition insertEdge_h :: "nat option \<Rightarrow> nat \<Rightarrow> hybrid_solver \<Rightarrow> hybrid_solver option" where
  "insertEdge_h u v h =
     (case u of None \<Rightarrow> None
      | Some u \<Rightarrow> if u < length (treeNodes h)
          then Some (h\<lparr>treeNodes := (treeNodes h)[u := (treeNodes h ! u)\<lparr>tn_children := List.insert v (tn_children (treeNodes h ! u))\<rparr>]\<rparr>)
          else None)"

definition tree_at :: "nat option \<Rightarrow> hybrid_solver \<Rightarrow> tree_node option" where
  "tree_at u h = (case u of None \<Rightarrow> None | Some u \<Rightarrow> if u < length (treeNodes h) then Some (treeNodes h ! u) else None)"

partial_function (option) meld_h :: "NodeID \<Rightarrow> nat option \<Rightarrow> nat option \<Rightarrow> hybrid_solver \<Rightarrow> hybrid_solver option" where
  "meld_h x uNode vNode h = do {
     v \<leftarrow> tree_at vNode h;
     let (newVNode, h) = addInd_h x (tn_id v) h;
     case newVNode of None \<Rightarrow> Some h
     | Some w \<Rightarrow> do {
         h \<leftarrow> insertEdge_h uNode w h;
         v \<leftarrow> tree_at vNode h;
         ofold (\<lambda>vChild. meld_h x (Some w) (Some vChild)) (tn_children v) h
       }
   }"

definition meld :: "NodeID \<Rightarrow> nat option \<Rightarrow> nat option \<Rightarrow> hybrid_solver \<Rightarrow> hybrid_solver option" where
  "meld x uNode vNode h = do {
     v \<leftarrow> tree_at vNode h;
     let (newVNode, h) = addInd_h x (tn_id v) h;
     case newVNode of None \<Rightarrow> Some h
     | Some w \<Rightarrow> do {
         h \<leftarrow> insertEdge_h uNode w h;
         v \<leftarrow> tree_at vNode h;
         ofold (\<lambda>vChild. meld_h x (Some w) (Some vChild)) (tn_children v) h
       }
   }"

definition addArc_h :: "NodeID \<Rightarrow> NodeID \<Rightarrow> hybrid_solver \<Rightarrow> hybrid_solver option" where
  "addArc_h src dst h =
     (if \<not> hasInd_h src dst h
      then ofold (\<lambda>x h. do {
          let (u, h) = getNode_h x src h;
          let (v, h) = getNode_h dst dst h;
          meld_h x u v h
        }) (map fst (km_get [] (indMap h) src)) h
      else Some h)"

section \<open>The solver\<close>

definition hybrid_solver_new :: "cfl_graph \<Rightarrow> hybrid_solver" where
  "hybrid_solver_new G = \<lparr>hy_pocr = pocr_solver_new G, indMap = [], treeNodes = []\<rparr>"

definition addArc :: "cf_grammar \<Rightarrow> NodeID \<Rightarrow> NodeID \<Rightarrow> hybrid_solver \<Rightarrow> hybrid_solver option" where
  "addArc g src dst h = do {
     F \<leftarrow> strToSymbol g ''F'';
     if pocr_hasEdge src dst F (hy_pocr h) then Some h
     else ofold (\<lambda>x h. do {
         let (u, h) = getNode_h x src h;
         let (v, h) = getNode_h dst dst h;
         meld x u v h
       }) (map fst (km_get [] (indMap h) src)) h
   }"

definition lift_pocr :: "(pocr_solver \<Rightarrow> pocr_solver option) \<Rightarrow> hybrid_solver \<Rightarrow> hybrid_solver option" where
  "lift_pocr f h = do { st \<leftarrow> f (hy_pocr h); Some (h\<lparr>hy_pocr := st\<rparr>) }"

definition hybrid_first :: "cf_grammar \<Rightarrow> symbol \<Rightarrow> NodeID \<Rightarrow> NodeID \<Rightarrow> production \<Rightarrow> hybrid_solver \<Rightarrow> hybrid_solver option" where
  "hybrid_first g Y i j p h = do {
     X \<leftarrow> getLHSSymbol p;
     F \<leftarrow> strToSymbol g ''F'';
     Z \<leftarrow> getSecondRHSSymbol p;
     if X = F \<and> Y = F \<and> Z = F then addArc g i j h else lift_pocr (pocr_first i j p) h
   }"

definition hybrid_second :: "cf_grammar \<Rightarrow> symbol \<Rightarrow> NodeID \<Rightarrow> NodeID \<Rightarrow> production \<Rightarrow> hybrid_solver \<Rightarrow> hybrid_solver option" where
  "hybrid_second g Y i j p h = do {
     X \<leftarrow> getLHSSymbol p;
     F \<leftarrow> strToSymbol g ''F'';
     Z \<leftarrow> getFirstRHSSymbol p;
     if X = F \<and> Y = F \<and> Z = F then addArc g i j h else lift_pocr (pocr_second i j p) h
   }"

definition hybrid_process :: "cf_grammar \<Rightarrow> gedge option \<Rightarrow> hybrid_solver \<Rightarrow> hybrid_solver option" where
  "hybrid_process g Y_edge h = do {
     e \<leftarrow> Y_edge;
     let i = getSrcID e;
     let j = getDstID e;
     let Y = edge_symbol e;
     h \<leftarrow> (if hasProdsFromSingleRHS g Y
           then do { ps \<leftarrow> getProdsFromSingleRHS g Y; ofold (\<lambda>p. lift_pocr (pocr_single i j p)) ps h } else Some h);
     h \<leftarrow> (if hasProdsFromFirstRHS g Y then do { ps \<leftarrow> getProdsFromFirstRHS g Y; ofold (hybrid_first g Y i j) ps h }
           else Some h);
     if hasProdsFromSecondRHS g Y then do { ps \<leftarrow> getProdsFromSecondRHS g Y; ofold (hybrid_second g Y i j) ps h }
     else Some h
   }"

definition hybrid_initialize :: "cf_grammar \<Rightarrow> hybrid_solver \<Rightarrow> hybrid_solver option" where
  "hybrid_initialize g h = do {
     let h = h\<lparr>hy_pocr := fold (\<lambda>e. pocr_push (Some e)) (cflEdgeSet (po_graph (hy_pocr h))) (hy_pocr h)\<rparr>;
     let h = fold (\<lambda>i h. snd (addInd_h i i h)) (cfl_nodes (po_graph (hy_pocr h))) h;
     lift_pocr (\<lambda>st. ofold (\<lambda>p st. ofold (\<lambda>i st. do {
         X \<leftarrow> getLHSSymbol p;
         let (added, st) = pocr_addEdge i i X st;
         if added then add_new_edge i i X st else Some st
       }) (map fst (succMap st)) st) (epsilonProds g) st) h
   }"

definition hybrid_ops :: "cf_grammar \<Rightarrow> (hybrid_solver, gedge option) cfl_ops" where
  "hybrid_ops g = \<lparr>op_initialize = hybrid_initialize g, op_empty = (\<lambda>h. fifo_empty (po_work (hy_pocr h))),
     op_pop = (\<lambda>h. do { (e, w) \<leftarrow> fifo_pop (po_work (hy_pocr h)); Some (e, h\<lparr>hy_pocr := (hy_pocr h)\<lparr>po_work := w\<rparr>\<rparr>) }),
     op_process = hybrid_process g\<rparr>"

section \<open>The grammar it goes by\<close>

definition without_FF :: "cf_grammar \<Rightarrow> cf_grammar" where
  "without_FF g = (case strToSymbol g ''F'' of None \<Rightarrow> g
     | Some F \<Rightarrow> g\<lparr>firstRHSToProds := map (\<lambda>(Y, ps). (Y, filter (\<lambda>p. \<not> (Y = F \<and> p ! 0 = F \<and> p ! 2 = F)) ps)) (firstRHSToProds g),
         secondRHSToProds := map (\<lambda>(Y, ps). (Y, filter (\<lambda>p. \<not> (Y = F \<and> p ! 0 = F \<and> p ! 1 = F)) ps)) (secondRHSToProds g)\<rparr>)"

lemma map_of_map_key: "map_of (map (\<lambda>(k, v). (k, f k v)) m) k = map_option (f k) (map_of m k)"
  by (induction m) auto

lemma without_FF_tables:
  assumes "strToSymbol g ''F'' = Some F"
  shows "getProdsFromFirstRHS (without_FF g) Y = map_option (filter (\<lambda>p. \<not> (Y = F \<and> p ! 0 = F \<and> p ! 2 = F))) (getProdsFromFirstRHS g Y)"
    "getProdsFromSecondRHS (without_FF g) Y = map_option (filter (\<lambda>p. \<not> (Y = F \<and> p ! 0 = F \<and> p ! 1 = F))) (getProdsFromSecondRHS g Y)"
    "getProdsFromSingleRHS (without_FF g) Y = getProdsFromSingleRHS g Y" "epsilonProds (without_FF g) = epsilonProds g"
    "hasProdsFromFirstRHS (without_FF g) Y = hasProdsFromFirstRHS g Y" "hasProdsFromSecondRHS (without_FF g) Y = hasProdsFromSecondRHS g Y"
    "hasProdsFromSingleRHS (without_FF g) Y = hasProdsFromSingleRHS g Y"
  using assms by (simp_all add: without_FF_def getProdsFromFirstRHS_def getProdsFromSecondRHS_def getProdsFromSingleRHS_def
      hasProdsFromFirstRHS_def hasProdsFromSecondRHS_def hasProdsFromSingleRHS_def map_of_map_key)

lemma without_FF_prods:
  assumes F: "strToSymbol g ''F'' = Some F"
  shows "eps_syms (without_FF g) = eps_syms g" "single_prods (without_FF g) = single_prods g"
    "grammar_ok g \<Longrightarrow> pair_prods (without_FF g) = pair_prods g - {(F, F, F)}"
proof -
  note w = without_FF_tables [OF F]
  show "eps_syms (without_FF g) = eps_syms g" by (simp add: eps_syms_def w)
  show "single_prods (without_FF g) = single_prods g" by (simp add: single_prods_def w)
  assume g: "grammar_ok g"
  have "(X, Y, Z) \<in> pair_prods (without_FF g) \<longleftrightarrow> (X, Y, Z) \<in> pair_prods g - {(F, F, F)}" for X Y Z
  proof (cases "getProdsFromFirstRHS g Y")
    case (Some ps)
    have "length p = 3" if "p \<in> set ps" for p using g Some that by (auto simp: grammar_ok_def)
    then have s: "getLHSSymbol p = Some X \<longleftrightarrow> p ! 0 = X" "getSecondRHSSymbol p = Some Z \<longleftrightarrow> p ! 2 = Z"
      if "p \<in> set ps" for p X Z
      using that by (auto simp: getLHSSymbol_def getSecondRHSSymbol_def)
    have "(X, Y, Z) \<in> pair_prods g \<longleftrightarrow> (\<exists>p \<in> set ps. p ! 0 = X \<and> p ! 2 = Z)"
      using s by (simp add: pair_prods_def Some)
    moreover have "(X, Y, Z) \<in> pair_prods (without_FF g) \<longleftrightarrow>
        (\<exists>p \<in> set ps. \<not> (Y = F \<and> p ! 0 = F \<and> p ! 2 = F) \<and> p ! 0 = X \<and> p ! 2 = Z)"
    proof -
      have "(X, Y, Z) \<in> pair_prods (without_FF g) \<longleftrightarrow>
        (\<exists>p \<in> set (filter (\<lambda>p. \<not> (Y = F \<and> p ! 0 = F \<and> p ! 2 = F)) ps). getLHSSymbol p = Some X \<and> getSecondRHSSymbol p = Some Z)"
        by (simp add: pair_prods_def w Some)
      also have "\<dots> \<longleftrightarrow> (\<exists>p \<in> set (filter (\<lambda>p. \<not> (Y = F \<and> p ! 0 = F \<and> p ! 2 = F)) ps). p ! 0 = X \<and> p ! 2 = Z)"
        by (rule bex_cong [OF refl]) (simp add: s)
      finally show ?thesis by (simp only: set_filter mem_Collect_eq Bex_def conj_assoc)
    qed
    ultimately show ?thesis unfolding Diff_iff singleton_iff prod.inject by blast
  qed (simp add: pair_prods_def w)
  then show "pair_prods (without_FF g) = pair_prods g - {(F, F, F)}" by auto
qed

lemma grammar_ok_without_FF:
  assumes F: "strToSymbol g ''F'' = Some F" and g: "grammar_ok g"
  shows "grammar_ok (without_FF g)"
proof -
  note w = without_FF_tables [OF F] and p = without_FF_prods(3) [OF F g]
  have "(\<exists>ps. getProdsFromSecondRHS (without_FF g) Z = Some ps \<and> (\<exists>p \<in> set ps. getLHSSymbol p = Some X \<and> getFirstRHSSymbol p = Some Y)) \<longleftrightarrow>
      (X, Y, Z) \<in> pair_prods g - {(F, F, F)}" for X Y Z
  proof (cases "getProdsFromSecondRHS g Z")
    case (Some ps)
    have "length p = 3" if "p \<in> set ps" for p using g Some that by (auto simp: grammar_ok_def)
    then have s: "getLHSSymbol p = Some X \<longleftrightarrow> p ! 0 = X" "getFirstRHSSymbol p = Some Y \<longleftrightarrow> p ! 1 = Y"
      if "p \<in> set ps" for p X Y
      using that by (auto simp: getLHSSymbol_def getFirstRHSSymbol_def)
    have "(X, Y, Z) \<in> pair_prods g \<longleftrightarrow> (\<exists>p \<in> set ps. p ! 0 = X \<and> p ! 1 = Y)"
      using g Some s by (simp add: grammar_ok_def)
    moreover have "(\<exists>ps. getProdsFromSecondRHS (without_FF g) Z = Some ps \<and> (\<exists>p \<in> set ps. getLHSSymbol p = Some X \<and> getFirstRHSSymbol p = Some Y)) \<longleftrightarrow>
        (\<exists>p \<in> set ps. \<not> (Z = F \<and> p ! 0 = F \<and> p ! 1 = F) \<and> p ! 0 = X \<and> p ! 1 = Y)"
    proof -
      have "(\<exists>ps. getProdsFromSecondRHS (without_FF g) Z = Some ps \<and> (\<exists>p \<in> set ps. getLHSSymbol p = Some X \<and> getFirstRHSSymbol p = Some Y)) \<longleftrightarrow>
        (\<exists>p \<in> set (filter (\<lambda>p. \<not> (Z = F \<and> p ! 0 = F \<and> p ! 1 = F)) ps). getLHSSymbol p = Some X \<and> getFirstRHSSymbol p = Some Y)"
        by (simp add: w Some)
      also have "\<dots> \<longleftrightarrow> (\<exists>p \<in> set (filter (\<lambda>p. \<not> (Z = F \<and> p ! 0 = F \<and> p ! 1 = F)) ps). p ! 0 = X \<and> p ! 1 = Y)"
        by (rule bex_cong [OF refl]) (simp add: s)
      finally show ?thesis by (simp only: set_filter mem_Collect_eq Bex_def conj_assoc)
    qed
    ultimately show ?thesis unfolding Diff_iff singleton_iff prod.inject by blast
  next
    case None
    then show ?thesis using g by (simp add: w grammar_ok_def)
  qed
  then show ?thesis using g by (auto simp: grammar_ok_def w p)
qed

section \<open>It is POCR without these productions\<close>

lemma hasEdge_known:
  assumes "data_ok st S" "(X, i, j) \<in> S" shows "pocr_hasEdge i j X st"
proof -
  have b: "sbv_inv (dm_get (succMap st) i X)" "j \<in> sbv_bits (dm_get (succMap st) i X)"
    using assms by (simp_all add: data_ok_def dm_ok_def)
  obtain tm where tm: "map_of (succMap st) i = Some tm"
    using b(2) by (cases "map_of (succMap st) i") (simp_all add: dm_get_def km_get_def)
  then obtain v where v: "map_of tm X = Some v" "dm_get (succMap st) i X = v"
    using b(2) by (cases "map_of tm X") (simp_all add: dm_get_def km_get_def)
  have "fst (sbv_test v j)" using sbv_test_spec [of v j] b v(2) by (cases "sbv_test v j") auto
  then show ?thesis using tm v(1) by (simp add: pocr_hasEdge_def)
qed

lemma addArc_known:
  assumes "strToSymbol g ''F'' = Some F" "pocr_ok D (hy_pocr h)" "(F, i, j) \<in> sym_edges (po_graph (hy_pocr h))"
  shows "addArc g i j h = Some h"
proof -
  have "pocr_hasEdge i j F (hy_pocr h)" using hasEdge_known [OF _ assms(3)] assms(2) by (simp add: pocr_ok_def)
  then show ?thesis using assms(1) by (simp add: addArc_def)
qed

lemma hybrid_first_loop:
  assumes F: "strToSymbol g ''F'' = Some F" and g: "grammar_ok g" and c: "cfl_closed (without_FF g) N D"
  shows "pocr_ok D (hy_pocr h) \<Longrightarrow> (Y, i, j) \<in> sym_edges (po_graph (hy_pocr h)) \<Longrightarrow>
    \<forall>p \<in> set ps. length p = 3 \<and> (p ! 0, Y, p ! 2) \<in> pair_prods g \<Longrightarrow>
    ofold (hybrid_first g Y i j) ps h =
      map_option (\<lambda>t. h\<lparr>hy_pocr := t\<rparr>) (ofold (pocr_first i j) (filter (\<lambda>p. \<not> (Y = F \<and> p ! 0 = F \<and> p ! 2 = F)) ps) (hy_pocr h))"
proof (induction ps arbitrary: h)
  case (Cons p ps)
  have p: "getLHSSymbol p = Some (p ! 0)" "getSecondRHSSymbol p = Some (p ! 2)"
    using Cons.prems(3) by (simp_all add: getLHSSymbol_def getSecondRHSSymbol_def)
  show ?case
  proof (cases "Y = F \<and> p ! 0 = F \<and> p ! 2 = F")
    case True
    then have "hybrid_first g Y i j p h = Some h"
      using p F addArc_known [OF F Cons.prems(1)] Cons.prems(2) by (simp add: hybrid_first_def)
    then show ?thesis using Cons.IH [OF Cons.prems(1,2)] Cons.prems(3) True by simp
  next
    case False
    then have pr: "(p ! 0, Y, p ! 2) \<in> pair_prods (without_FF g)" using Cons.prems(3) without_FF_prods(3) [OF F g] by auto
    obtain u where u: "pocr_first i j p (hy_pocr h) = Some u" "ps.extends D (hy_pocr h) u"
      using pocr_first_step [OF grammar_ok_without_FF [OF F g] c Cons.prems(1,2) p pr] by blast
    let ?h = "h\<lparr>hy_pocr := u\<rparr>"
    have ok: "pocr_ok D (hy_pocr ?h)" "(Y, i, j) \<in> sym_edges (po_graph (hy_pocr ?h))"
      using u(2) Cons.prems(1) pocr_mono [OF u(2) Cons.prems(1,2)] by (simp_all add: ps.extends_def)
    have "hybrid_first g Y i j p h = Some ?h" using p F False u(1) by (auto simp: hybrid_first_def lift_pocr_def)
    then show ?thesis using Cons.IH [OF ok] Cons.prems(3) False u(1) by auto
  qed
qed simp

lemma hybrid_second_loop:
  assumes F: "strToSymbol g ''F'' = Some F" and g: "grammar_ok g" and c: "cfl_closed (without_FF g) N D"
  shows "pocr_ok D (hy_pocr h) \<Longrightarrow> (Y, i, j) \<in> sym_edges (po_graph (hy_pocr h)) \<Longrightarrow>
    \<forall>p \<in> set ps. length p = 3 \<and> (p ! 0, p ! 1, Y) \<in> pair_prods g \<Longrightarrow>
    ofold (hybrid_second g Y i j) ps h =
      map_option (\<lambda>t. h\<lparr>hy_pocr := t\<rparr>) (ofold (pocr_second i j) (filter (\<lambda>p. \<not> (Y = F \<and> p ! 0 = F \<and> p ! 1 = F)) ps) (hy_pocr h))"
proof (induction ps arbitrary: h)
  case (Cons p ps)
  have p: "getLHSSymbol p = Some (p ! 0)" "getFirstRHSSymbol p = Some (p ! 1)"
    using Cons.prems(3) by (simp_all add: getLHSSymbol_def getFirstRHSSymbol_def)
  show ?case
  proof (cases "Y = F \<and> p ! 0 = F \<and> p ! 1 = F")
    case True
    then have "hybrid_second g Y i j p h = Some h"
      using p F addArc_known [OF F Cons.prems(1)] Cons.prems(2) by (simp add: hybrid_second_def)
    then show ?thesis using Cons.IH [OF Cons.prems(1,2)] Cons.prems(3) True by simp
  next
    case False
    then have pr: "(p ! 0, p ! 1, Y) \<in> pair_prods (without_FF g)" using Cons.prems(3) without_FF_prods(3) [OF F g] by auto
    obtain u where u: "pocr_second i j p (hy_pocr h) = Some u" "ps.extends D (hy_pocr h) u"
      using pocr_second_step [OF grammar_ok_without_FF [OF F g] c Cons.prems(1,2) p pr] by blast
    let ?h = "h\<lparr>hy_pocr := u\<rparr>"
    have ok: "pocr_ok D (hy_pocr ?h)" "(Y, i, j) \<in> sym_edges (po_graph (hy_pocr ?h))"
      using u(2) Cons.prems(1) pocr_mono [OF u(2) Cons.prems(1,2)] by (simp_all add: ps.extends_def)
    have "hybrid_second g Y i j p h = Some ?h" using p F False u(1) by (auto simp: hybrid_second_def lift_pocr_def)
    then show ?thesis using Cons.IH [OF ok] Cons.prems(3) False u(1) by auto
  qed
qed simp

lemma lift_pocr_loop:
  "ofold (\<lambda>x. lift_pocr (f x)) xs h = map_option (\<lambda>t. h\<lparr>hy_pocr := t\<rparr>) (ofold f xs (hy_pocr h))"
  by (induction xs arbitrary: h) (auto simp: lift_pocr_def split: Option.bind_split)

lemma hybrid_process_eq:
  assumes F: "strToSymbol g ''F'' = Some F" and g: "grammar_ok g" and c: "cfl_closed (without_FF g) N D"
    and ok: "pocr_ok D (hy_pocr h)" and e: "e \<in> set (cflEdgeSet (po_graph (hy_pocr h)))"
  shows "hybrid_process g (Some e) h = map_option (\<lambda>t. h\<lparr>hy_pocr := t\<rparr>) (pocr_process (without_FF g) (Some e) (hy_pocr h))"
proof -
  let ?g = "without_FF g" and ?Y = "edge_symbol e" and ?i = "getSrcID e" and ?j = "getDstID e"
  note w = without_FF_tables [OF F] and g' = grammar_ok_without_FF [OF F g]
  have e1: "(?Y, ?i, ?j) \<in> sym_edges (po_graph (hy_pocr h))" using e by (auto simp: sym_edges_def)
  obtain t1 where t1: "(if hasProdsFromSingleRHS ?g ?Y then do { ps \<leftarrow> getProdsFromSingleRHS ?g ?Y; ofold (pocr_single ?i ?j) ps (hy_pocr h) }
           else Some (hy_pocr h)) = Some t1" and x1: "ps.extends D (hy_pocr h) t1"
    using pocr_single_part [OF g' c ok e1] by blast
  let ?h1 = "h\<lparr>hy_pocr := t1\<rparr>"
  have ok1: "pocr_ok D t1" using x1 ok by (simp add: ps.extends_def)
  have e2: "(?Y, ?i, ?j) \<in> sym_edges (po_graph t1)" by (rule pocr_mono [OF x1 ok e1])
  obtain t2 where t2: "(if hasProdsFromFirstRHS ?g ?Y then do { ps \<leftarrow> getProdsFromFirstRHS ?g ?Y; ofold (pocr_first ?i ?j) ps t1 }
           else Some t1) = Some t2" and x2: "ps.extends D t1 t2"
    using pocr_first_part [OF g' c ok1 e2] by blast
  let ?h2 = "h\<lparr>hy_pocr := t2\<rparr>"
  have ok2: "pocr_ok D t2" using x2 ok1 by (simp add: ps.extends_def)
  have e3: "(?Y, ?i, ?j) \<in> sym_edges (po_graph t2)" by (rule pocr_mono [OF x2 ok1 e2])
  have s1: "(if hasProdsFromSingleRHS g ?Y
           then do { ps \<leftarrow> getProdsFromSingleRHS g ?Y; ofold (\<lambda>p. lift_pocr (pocr_single ?i ?j p)) ps h } else Some h) = Some ?h1"
    using t1 unfolding w
    by (cases "getProdsFromSingleRHS g ?Y") (auto simp: lift_pocr_loop hasProdsFromSingleRHS_def getProdsFromSingleRHS_def)
  have s2: "(if hasProdsFromFirstRHS g ?Y then do { ps \<leftarrow> getProdsFromFirstRHS g ?Y; ofold (hybrid_first g ?Y ?i ?j) ps ?h1 }
           else Some ?h1) = Some ?h2"
  proof (cases "getProdsFromFirstRHS g ?Y")
    case None
    then show ?thesis using t2 unfolding w by (simp add: hasProdsFromFirstRHS_def getProdsFromFirstRHS_def)
  next
    case (Some ps)
    have l: "\<forall>p \<in> set ps. length p = 3" using g Some by (simp add: grammar_ok_def)
    have "(p ! 0, ?Y, p ! 2) \<in> pair_prods g" if "p \<in> set ps" for p
      using Some that l by (auto simp: pair_prods_def getLHSSymbol_def getSecondRHSSymbol_def intro!: bexI [of _ p])
    then have "\<forall>p \<in> set ps. length p = 3 \<and> (p ! 0, ?Y, p ! 2) \<in> pair_prods g" using l by blast
    from hybrid_first_loop [OF F g c _ _ this, of ?h1 ?i ?j] ok1 e2
    show ?thesis using t2 Some unfolding w by (simp add: hasProdsFromFirstRHS_def getProdsFromFirstRHS_def)
  qed
  have s3: "(if hasProdsFromSecondRHS g ?Y then do { ps \<leftarrow> getProdsFromSecondRHS g ?Y; ofold (hybrid_second g ?Y ?i ?j) ps ?h2 }
           else Some ?h2) = map_option (\<lambda>t. h\<lparr>hy_pocr := t\<rparr>)
       (if hasProdsFromSecondRHS ?g ?Y then do { ps \<leftarrow> getProdsFromSecondRHS ?g ?Y; ofold (pocr_second ?i ?j) ps t2 } else Some t2)"
  proof (cases "getProdsFromSecondRHS g ?Y")
    case None
    then show ?thesis unfolding w by (simp add: hasProdsFromSecondRHS_def getProdsFromSecondRHS_def)
  next
    case (Some ps)
    have l: "\<forall>p \<in> set ps. length p = 3" using g Some by (simp add: grammar_ok_def)
    have s: "(X, Z, ?Y) \<in> pair_prods g \<longleftrightarrow> (\<exists>p \<in> set ps. getLHSSymbol p = Some X \<and> getFirstRHSSymbol p = Some Z)" for X Z
      using g Some by (simp add: grammar_ok_def)
    have "(p ! 0, p ! 1, ?Y) \<in> pair_prods g" if "p \<in> set ps" for p
      using that l by (auto simp: s getLHSSymbol_def getFirstRHSSymbol_def intro!: bexI [of _ p])
    then have "\<forall>p \<in> set ps. length p = 3 \<and> (p ! 0, p ! 1, ?Y) \<in> pair_prods g" using l by blast
    from hybrid_second_loop [OF F g c _ _ this, of ?h2 ?i ?j] ok2 e3
    show ?thesis using Some unfolding w by (simp add: hasProdsFromSecondRHS_def getProdsFromSecondRHS_def)
  qed
  show ?thesis
    unfolding hybrid_process_def pocr_process_def Let_def Option.bind_lunit
    by (simp only: s1 s2 s3 t1 t2 Option.bind_lunit)
qed

section \<open>Correctness\<close>

abbreviation hy_graph :: "hybrid_solver \<Rightarrow> cfl_graph" where "hy_graph h \<equiv> po_graph (hy_pocr h)"

definition hy_edges :: "hybrid_solver \<Rightarrow> gedge set" where
  "hy_edges h = po_edges (hy_pocr h)"

definition hy_ok :: "sym_edge set \<Rightarrow> hybrid_solver \<Rightarrow> bool" where
  "hy_ok D h \<longleftrightarrow> pocr_ok D (hy_pocr h)"

lemmas hy_defs = hy_edges_def hy_ok_def

interpretation hs: cfl_state hy_graph hy_edges hy_ok
  by unfold_locales (simp add: hy_defs ps.ok_law)

lemma hs_pocr:
  "hs.extends D h h' \<longleftrightarrow> ps.extends D (hy_pocr h) (hy_pocr h')" "hs.has_edge x h \<longleftrightarrow> ps.has_edge x (hy_pocr h)"
  "hs.combines g e h h' \<longleftrightarrow> ps.combines g e (hy_pocr h) (hy_pocr h')"
  by (simp_all add: hs.extends_def ps.extends_def hs.has_edge_def ps.has_edge_def hs.combines_def ps.combines_def hy_defs)

definition has_F :: "cf_grammar \<Rightarrow> bool" where
  "has_F g \<longleftrightarrow> grammar_ok g \<and> (\<exists>F. strToSymbol g ''F'' = Some F)"

text \<open>A step of the loop is one of POCR without these productions; nothing but its data changes.\<close>

lemma hybrid_step:
  assumes g: "has_F g" and ok: "pocr_ok D (hy_pocr h)" and ne: "po_edges (hy_pocr h) \<noteq> {}" and c: "cfl_closed (without_FF g) N D"
  obtains x e s t where "op_pop (hybrid_ops g) h = Some (x, h\<lparr>hy_pocr := s\<rparr>)" "po_graph s = hy_graph h" "e \<in> po_edges (hy_pocr h)"
    "po_edges s = po_edges (hy_pocr h) - {e}" "pocr_ok D s" "op_process (hybrid_ops g) x (h\<lparr>hy_pocr := s\<rparr>) = Some (h\<lparr>hy_pocr := t\<rparr>)"
    "ps.extends D s t" "ps.combines (without_FF g) e s t"
proof -
  obtain F where F: "strToSymbol g ''F'' = Some F" "grammar_ok g" using g by (auto simp: has_F_def)
  obtain x e s t where p: "op_pop (pocr_ops (without_FF g)) (hy_pocr h) = Some (x, s)" "po_graph s = hy_graph h"
      "e \<in> po_edges (hy_pocr h)" "po_edges s = po_edges (hy_pocr h) - {e}" "pocr_ok D s"
      "op_process (pocr_ops (without_FF g)) x s = Some t" "ps.extends D s t" "ps.combines (without_FF g) e s t"
    using pe.step_law [OF grammar_ok_without_FF [OF F] ok ne c] by blast
  let ?h = "h\<lparr>hy_pocr := s\<rparr>"
  obtain f where f: "x = Some f" using p(6) by (cases x) (simp_all add: pocr_ops_def pocr_process_def)
  have w: "fifo_inv (po_work (hy_pocr h))" using ok by (simp add: pocr_ok_def pocr_base_ok_def)
  have "x \<in> set (data_list (po_work (hy_pocr h)))" using p(1) w
    by (auto simp: pocr_ops_def fifo_pop_order split: list.splits Option.bind_splits)
  then have mem: "f \<in> set (cflEdgeSet (po_graph (hy_pocr ?h)))"
    using ok f p(2) by (auto simp: pocr_ok_def pocr_base_ok_def po_edges_def)
  have "op_pop (hybrid_ops g) h = Some (x, ?h)"
    using p(1) by (auto simp: hybrid_ops_def pocr_ops_def split: Option.bind_splits)
  moreover have "op_process (hybrid_ops g) x ?h = Some (h\<lparr>hy_pocr := t\<rparr>)"
    using hybrid_process_eq [OF F c _ mem] p(5,6) f by (simp add: hybrid_ops_def pocr_ops_def)
  ultimately show thesis using that p(2-5,7,8) by blast
qed

interpretation he: cfl_engine hy_graph hy_edges hy_ok hybrid_ops has_F without_FF
proof unfold_locales
  fix g D h
  assume "hy_ok D h"
  then have "pocr_ok D (hy_pocr h)" by (simp add: hy_ok_def)
  from pe.empty_law [OF this] show "op_empty (hybrid_ops g) h \<longleftrightarrow> hy_edges h = {}"
    by (simp add: hybrid_ops_def pocr_ops_def hy_edges_def)
next
  fix g D h N
  assume g: "has_F g" and ok: "hy_ok D h" and ne: "hy_edges h \<noteq> {}" and c: "cfl_closed (without_FF g) N D"
  obtain x e s t where p: "op_pop (hybrid_ops g) h = Some (x, h\<lparr>hy_pocr := s\<rparr>)" "po_graph s = hy_graph h" "e \<in> po_edges (hy_pocr h)"
      "po_edges s = po_edges (hy_pocr h) - {e}" "pocr_ok D s" "op_process (hybrid_ops g) x (h\<lparr>hy_pocr := s\<rparr>) = Some (h\<lparr>hy_pocr := t\<rparr>)"
      "ps.extends D s t" "ps.combines (without_FF g) e s t"
    using hybrid_step [OF g _ _ c, of h] ok ne unfolding hy_defs by metis
  let ?h = "h\<lparr>hy_pocr := s\<rparr>"
  have "hy_graph ?h = hy_graph h" "hy_edges ?h = hy_edges h - {e}" "hy_ok D ?h" "e \<in> hy_edges h"
    "hs.extends D ?h (h\<lparr>hy_pocr := t\<rparr>)" "hs.combines (without_FF g) e ?h (h\<lparr>hy_pocr := t\<rparr>)"
    using p by (simp_all add: hs_pocr hy_defs)
  with p(1,6) show "\<exists>x e h' t. op_pop (hybrid_ops g) h = Some (x, h') \<and> hy_graph h' = hy_graph h \<and> e \<in> hy_edges h \<and>
      hy_edges h' = hy_edges h - {e} \<and> hy_ok D h' \<and> op_process (hybrid_ops g) x h' = Some t \<and>
      hs.extends D h' t \<and> hs.combines (without_FF g) e h' t" by blast
qed

lemma addInd_fold_pocr: "hy_pocr (fold (\<lambda>i h. snd (addInd_h i i h)) is h) = hy_pocr h"
  by (induction "is" arbitrary: h) (auto simp: addInd_h_def Let_def)

lemma hybrid_initialize_pocr:
  assumes "strToSymbol g ''F'' = Some F"
  shows "map_option hy_pocr (hybrid_initialize g h) = pocr_initialize (without_FF g) (hy_pocr h)"
  using without_FF_tables(4) [OF assms]
  by (simp add: hybrid_initialize_def pocr_initialize_def lift_pocr_def addInd_fold_pocr Let_def option.map_comp o_def
      split: Option.bind_split)

lemma hybrid_solve_reach:
  assumes F: "strToSymbol g ''F'' = Some F" and g: "grammar_ok g" and ok: "cfl_ok G" and small: "\<forall>i \<in> set (cfl_nodes G). i < 2 ^ 32"
  shows "\<exists>t. cfl_solve (hybrid_ops g) (hybrid_solver_new G) = Some t \<and> cfl_nodes (hy_graph t) = cfl_nodes G \<and>
    sym_edges (hy_graph t) = {(X, i, j). cfl_reach (without_FF g) (getSrcID ` set (cflEdgeSet G)) (sym_edges G) X i j}"
proof -
  let ?g = "without_FF g" and ?N = "getSrcID ` set (cflEdgeSet G)"
  let ?D = "{(X, i, j). cfl_reach ?g ?N (sym_edges G) X i j}"
  have D: "sym_edges G \<subseteq> ?D" by (auto intro: reach_edge)
  note c = cfl_closed_reach [of ?g ?N "sym_edges G"]
  have F': "has_F g" using F g by (simp add: has_F_def)
  obtain s where s: "pocr_initialize ?g (pocr_solver_new G) = Some s" "pocr_ok ?D s" "po_edges s = set (cflEdgeSet (po_graph s))"
      "cfl_nodes (po_graph s) = cfl_nodes G" "sym_edges G \<subseteq> sym_edges (po_graph s)"
      "\<forall>X \<in> eps_syms ?g. \<forall>i \<in> ?N. ps.has_edge (X, i, i) s"
    using pocr_initialize_spec [OF grammar_ok_without_FF [OF F g] c ok small D] by blast
  obtain h where h: "hybrid_initialize g (hybrid_solver_new G) = Some h" "hy_pocr h = s"
    using hybrid_initialize_pocr [OF F, of "hybrid_solver_new G"] s(1) by (auto simp: hybrid_solver_new_def)
  have init: "op_initialize (hybrid_ops g) (hybrid_solver_new G) = Some h" using h(1) by (simp add: hybrid_ops_def)
  obtain t where t: "cfl_solve (hybrid_ops g) (hybrid_solver_new G) = Some t" "pocr_ok ?D (hy_pocr t)"
      "cfl_nodes (hy_graph t) = cfl_nodes G" "sym_edges (po_graph s) \<subseteq> sym_edges (hy_graph t)"
      "\<And>X Y i j. (X, Y) \<in> single_prods ?g \<Longrightarrow> (Y, i, j) \<in> sym_edges (hy_graph t) \<Longrightarrow> (X, i, j) \<in> sym_edges (hy_graph t)"
      "\<And>X Y Z i j k. (X, Y, Z) \<in> pair_prods ?g \<Longrightarrow> (Y, i, j) \<in> sym_edges (hy_graph t) \<Longrightarrow>
        (Z, j, k) \<in> sym_edges (hy_graph t) \<Longrightarrow> (X, i, k) \<in> sym_edges (hy_graph t)"
    using he.cfl_solve_spec [OF F' c init] s(2,3,4) h(2) by (auto simp: hy_defs)
  have sub: "sym_edges G \<subseteq> sym_edges (hy_graph t)" using s(5) t(4) by blast
  have "cfl_closed ?g ?N (sym_edges (hy_graph t))"
    using s(6) t(4,5,6) unfolding cfl_closed_def ps.has_edge_def by blast
  then have "?D \<subseteq> sym_edges (hy_graph t)" using cfl_reach_least [OF _ sub] by blast
  moreover have "sym_edges (hy_graph t) \<subseteq> ?D" using t(2) by (simp add: pocr_ok_def pocr_base_ok_def)
  ultimately show ?thesis using t(1,3) by blast
qed

section \<open>The spanning trees stay as they are\<close>

text \<open>The states of a run.\<close>

inductive hybrid_reached :: "cf_grammar \<Rightarrow> cfl_graph \<Rightarrow> hybrid_solver \<Rightarrow> bool" for g G where
  start: "hybrid_initialize g (hybrid_solver_new G) = Some h \<Longrightarrow> hybrid_reached g G h"
| step: "hybrid_reached g G h \<Longrightarrow> \<not> op_empty (hybrid_ops g) h \<Longrightarrow> op_pop (hybrid_ops g) h = Some (x, h') \<Longrightarrow>
    op_process (hybrid_ops g) x h' = Some t \<Longrightarrow> hybrid_reached g G t"

text \<open>One tree per node, of that node alone.\<close>

definition single_trees :: "NodeID list \<Rightarrow> hybrid_solver \<Rightarrow> bool" where
  "single_trees ns h \<longleftrightarrow> treeNodes h = map (\<lambda>i. \<lparr>tn_id = i, tn_children = []\<rparr>) ns \<and> dom (map_of (indMap h)) = set ns \<and>
     (\<forall>k < length ns. map_of (indMap h) (ns ! k) = Some [(ns ! k, Some k)])"

lemma single_trees_new:
  "distinct ns \<Longrightarrow> indMap h = [] \<Longrightarrow> treeNodes h = [] \<Longrightarrow> single_trees ns (fold (\<lambda>i h. snd (addInd_h i i h)) ns h)"
proof (induction ns rule: rev_induct)
  case (snoc i ns)
  let ?h = "fold (\<lambda>i h. snd (addInd_h i i h)) ns h"
  have h: "single_trees ns ?h" "i \<notin> set ns" using snoc by simp_all
  have "map_of (indMap ?h) i = None" using h by (auto simp: single_trees_def dom_def)
  then have k: "km_get [] (indMap ?h) i = []" by (simp add: km_get_def)
  have l: "length (treeNodes ?h) = length ns" using h(1) by (simp add: single_trees_def)
  have n: "snd (addInd_h i i ?h) = ?h\<lparr>indMap := AList.update i [(i, Some (length ns))] (indMap ?h),
      treeNodes := treeNodes ?h @ [\<lparr>tn_id = i, tn_children = []\<rparr>]\<rparr>"
    using k l by (simp add: addInd_h_def Let_def)
  have "map_of (AList.update i v (indMap ?h)) (ns ! k) = map_of (indMap ?h) (ns ! k)" if "k < length ns" for k v
    using that h(2) nth_mem [OF that] by (auto simp: update_conv')
  then show ?case using h n by (auto simp: single_trees_def nth_append less_Suc_eq dom_update update_conv')
qed (simp add: single_trees_def)

lemma single_trees_pocr: "single_trees ns (h\<lparr>hy_pocr := s\<rparr>) \<longleftrightarrow> single_trees ns h"
  by (simp add: single_trees_def)

lemma hybrid_initialize_trees:
  assumes "cfl_ok G" "hybrid_initialize g (hybrid_solver_new G) = Some h" and small: "\<forall>i \<in> set (cfl_nodes G). i < 2 ^ 32"
  shows "single_trees (cfl_nodes G) h"
proof -
  let ?h = "(hybrid_solver_new G)\<lparr>hy_pocr := fold (\<lambda>e. pocr_push (Some e)) (cflEdgeSet (po_graph (pocr_solver_new G))) (pocr_solver_new G)\<rparr>"
  have "distinct (cfl_nodes G)" using assms(1) by (auto simp: cfl_ok_def omap_def cfl_nodes_def strict_sorted_iff)
  then have t: "single_trees (cfl_nodes G) (fold (\<lambda>i h. snd (addInd_h i i h)) (cfl_nodes G) ?h)"
    by (rule single_trees_new) (simp_all add: hybrid_solver_new_def)
  have "po_graph (fold (\<lambda>e. pocr_push (Some e)) es s) = po_graph s" for es s
    by (induction es arbitrary: s) (simp_all add: pocr_push_def)
  then have "cfl_nodes (po_graph (hy_pocr ?h)) = cfl_nodes G" using pocr_solver_new_spec(2) [OF assms(1) small] by simp
  then show ?thesis using assms(2) t
    by (auto simp: hybrid_initialize_def Let_def lift_pocr_def hybrid_solver_new_def single_trees_pocr split: Option.bind_splits)
qed

lemma single_trees_ind: "single_trees ns h \<Longrightarrow> distinct ns \<Longrightarrow> hasInd_h i j h \<longleftrightarrow> i = j \<and> i \<in> set ns"
proof (cases "j \<in> set ns")
  case True
  assume h: "single_trees ns h"
  obtain k where "k < length ns" "j = ns ! k" using True by (auto simp: in_set_conv_nth)
  then show ?thesis using h True by (auto simp: single_trees_def hasInd_h_def)
next
  case False
  assume "single_trees ns h"
  then have "map_of (indMap h) j = None" using False by (auto simp: single_trees_def dom_def)
  then show ?thesis using False by (auto simp: hasInd_h_def)
qed

text \<open>Only the test of \<open>addArc\<close> keeps the trees: for an arc that is not known the node gets into the tree.\<close>

lemma addArc_unknown:
  assumes F: "strToSymbol g ''F'' = Some F" and h: "single_trees ns h" "distinct ns" and ij: "i \<in> set ns" "j \<in> set ns" "i \<noteq> j"
    and new: "\<not> pocr_hasEdge i j F (hy_pocr h)"
  shows "\<exists>t. addArc g i j h = Some t \<and> hasInd_h i j t"
proof -
  obtain k l where k: "k < length ns" "i = ns ! k" and l: "l < length ns" "j = ns ! l" using ij by (auto simp: in_set_conv_nth)
  have kl: "k \<noteq> l" using k l ij(3) by auto
  have m: "map_of (indMap h) i = Some [(i, Some k)]" "map_of (indMap h) j = Some [(j, Some l)]"
    using h(1) k l by (simp_all add: single_trees_def)
  have t: "treeNodes h = map (\<lambda>i. \<lparr>tn_id = i, tn_children = []\<rparr>) ns" using h(1) by (simp add: single_trees_def)
  show ?thesis using F new ij(3) k l kl m t
    by (simp add: addArc_def getNode_h_def meld_def tree_at_def addInd_h_def insertEdge_h_def hasInd_h_def Let_def km_get_def
        update_conv' nth_append)
qed

lemma hybrid_reached_spec:
  assumes F: "strToSymbol g ''F'' = Some F" and g: "grammar_ok g" and ok: "cfl_ok G" and small: "\<forall>i \<in> set (cfl_nodes G). i < 2 ^ 32"
    and r: "hybrid_reached g G h"
  shows "single_trees (cfl_nodes G) h \<and> (\<exists>D. pocr_ok D (hy_pocr h))"
proof -
  let ?g = "without_FF g" and ?N = "getSrcID ` set (cflEdgeSet G)"
  let ?D = "{(X, i, j). cfl_reach ?g ?N (sym_edges G) X i j}"
  have D: "sym_edges G \<subseteq> ?D" by (auto intro: reach_edge)
  note c = cfl_closed_reach [of ?g ?N "sym_edges G"]
  have F': "has_F g" using F g by (simp add: has_F_def)
  have "single_trees (cfl_nodes G) h \<and> pocr_ok ?D (hy_pocr h)" using r
  proof induction
    case (start h)
    obtain s where s: "pocr_initialize ?g (pocr_solver_new G) = Some s" "pocr_ok ?D s"
      using pocr_initialize_spec [OF grammar_ok_without_FF [OF F g] c ok small D] by blast
    have "hy_pocr h = s" using hybrid_initialize_pocr [OF F, of "hybrid_solver_new G"] s(1) start by (simp add: hybrid_solver_new_def)
    then show ?case using hybrid_initialize_trees [OF ok start small] s(2) by simp
  next
    case (step h x h' t)
    then have ne: "po_edges (hy_pocr h) \<noteq> {}" using pe.empty_law [of ?D "hy_pocr h" g] by (auto simp: hybrid_ops_def pocr_ops_def)
    obtain y s u where p: "op_pop (hybrid_ops g) h = Some (y, h\<lparr>hy_pocr := s\<rparr>)" "pocr_ok ?D s"
        "op_process (hybrid_ops g) y (h\<lparr>hy_pocr := s\<rparr>) = Some (h\<lparr>hy_pocr := u\<rparr>)" "ps.extends ?D s u"
      using hybrid_step [OF F' _ ne c] step.IH by metis
    have "t = h\<lparr>hy_pocr := u\<rparr>" using p(1,3) step.hyps(3,4) by simp
    moreover have "pocr_ok ?D u" using p(2,4) by (simp only: ps.extends_def)
    ultimately show ?case using step.IH by (simp only: single_trees_pocr) simp
  qed
  then show ?thesis by blast
qed

lemma reached_loop:
  assumes "cfl_loop ops h = Some t"
  shows "ops = hybrid_ops g \<longrightarrow> hybrid_reached g G h \<longrightarrow> hybrid_reached g G t"
proof (rule cfl_loop.raw_induct [OF _ assms, where P = "\<lambda>ops h t. ops = hybrid_ops g \<longrightarrow> hybrid_reached g G h \<longrightarrow> hybrid_reached g G t"])
  fix loop :: "(hybrid_solver, gedge option) cfl_ops \<Rightarrow> hybrid_solver \<Rightarrow> hybrid_solver option" and ops h t
  assume IH: "\<And>ops h t. loop ops h = Some t \<Longrightarrow> ops = hybrid_ops g \<longrightarrow> hybrid_reached g G h \<longrightarrow> hybrid_reached g G t"
    and run: "(if op_empty ops h then Some h
      else do { (Y_edge, st) \<leftarrow> op_pop ops h; st \<leftarrow> op_process ops Y_edge st; loop ops st }) = Some t"
  show "ops = hybrid_ops g \<longrightarrow> hybrid_reached g G h \<longrightarrow> hybrid_reached g G t"
  proof (intro impI)
    assume o: "ops = hybrid_ops g" and h: "hybrid_reached g G h"
    show "hybrid_reached g G t"
    proof (cases "op_empty ops h")
      case False
      then obtain x h' u where "op_pop ops h = Some (x, h')" "op_process ops x h' = Some u" "loop ops u = Some t"
        using run by (auto split: Option.bind_splits)
      then show ?thesis using IH [of ops u t] hybrid_reached.step [OF h] False o by blast
    qed (use run h in simp)
  qed
qed

lemma reached_solved:
  assumes "cfl_solve (hybrid_ops g) (hybrid_solver_new G) = Some t" shows "hybrid_reached g G t"
proof -
  obtain h where "hybrid_initialize g (hybrid_solver_new G) = Some h" "cfl_loop (hybrid_ops g) h = Some t"
    using assms by (auto simp: cfl_solve_def hybrid_ops_def split: Option.bind_splits)
  then show ?thesis using reached_loop hybrid_reached.start by blast
qed

lemma known_on_worklist:
  assumes "pocr_ok D s" "Some e \<in> set (data_list (po_work s))"
  shows "pocr_hasEdge (getSrcID e) (getDstID e) (edge_symbol e) s"
proof -
  have "e \<in> set (cflEdgeSet (po_graph s))" using assms by (auto simp: pocr_ok_def pocr_base_ok_def po_edges_def)
  then have "(edge_symbol e, getSrcID e, getDstID e) \<in> sym_edges (po_graph s)" by (auto simp: sym_edges_def)
  with assms(1) show ?thesis by (intro hasEdge_known) (simp_all add: pocr_ok_def)
qed

end
