(* ===== verification/CFLGrammarSpec.thy ===== *)
theory CFLGrammarSpec
  imports CFLReach
begin

text \<open>
  What the grammar operations do: a name and its kind determine each other; inserting a production adds
  exactly this production to the tables the solvers read; the expansion of attribute variables ends and
  yields every production in which each variable is replaced by one attribute throughout.
\<close>

section \<open>Names and kinds\<close>

text \<open>The kinds of all names, which are different and below the next one.\<close>

definition all_names :: "cf_grammar \<Rightarrow> (string \<times> nat) list" where
  "all_names g = terminals g @ nonterminals g @ EBNFSigns g"

definition kinds_ok :: "cf_grammar \<Rightarrow> bool" where
  "kinds_ok g \<longleftrightarrow> distinct (map snd (all_names g)) \<and> (\<forall>k \<in> snd ` set (all_names g). k < totalKind g) \<and>
     distinct (map fst (terminals g)) \<and> distinct (map fst (nonterminals g)) \<and> distinct (map fst (EBNFSigns g))"

lemma name_of_append: "name_of (m @ n) k = (case name_of m k of Some s \<Rightarrow> Some s | None \<Rightarrow> name_of n k)"
  by (induction m k rule: name_of.induct) auto

lemma kindToStr_names: "kindToStr g k = (case name_of (all_names g) k of Some s \<Rightarrow> s | None \<Rightarrow> [])"
  by (simp add: kindToStr_def all_names_def name_of_append split: option.split)

lemma strToKind_names: "strToKind g str = map_of (all_names g) str"
  by (simp add: strToKind_def all_names_def map_of_append map_add_def split: option.splits)

lemma name_of_unique: "distinct (map snd m) \<Longrightarrow> (s, k) \<in> set m \<Longrightarrow> name_of m k = Some s"
  by (induction m k rule: name_of.induct) (auto simp: image_iff)

text \<open>A known name is read back from its kind.\<close>

lemma kind_round_trip:
  assumes "kinds_ok g" "strToKind g str = Some k" shows "kindToStr g k = str"
  using assms name_of_unique [of "all_names g" str k]
  by (simp add: kinds_ok_def kindToStr_names strToKind_names map_of_SomeD)

lemma kinds_ok_new: "kinds_ok (cf_grammar_new k)"
  by (simp add: kinds_ok_def all_names_def cf_grammar_new_def)

lemma insertTerminalKind_spec:
  assumes ok: "kinds_ok g" and room: "totalKind g + 1 < 2 ^ 32"
  shows "\<exists>k g'. insertTerminalKind str g = Some (k, g') \<and> kinds_ok g' \<and> strToKind g' str = Some k \<and> kindToStr g' k = str \<and>
    totalKind g' \<le> totalKind g + 1 \<and> (\<forall>s. s \<noteq> str \<longrightarrow> strToKind g' s = strToKind g s)"
proof (cases "map_of (terminals g) str")
  case (Some k)
  then have "strToKind g str = Some k" by (simp add: strToKind_def)
  then show ?thesis using Some ok kind_round_trip [OF ok] by (simp add: insertTerminalKind_def)
next
  case None
  let ?g = "g\<lparr>totalKind := Suc (totalKind g), terminals := (str, totalKind g) # terminals g\<rparr>"
  have u: "u32 (Suc (totalKind g)) = Suc (totalKind g)" using u32_id [OF room] by simp
  have n: "all_names ?g = (str, totalKind g) # all_names g" by (simp add: all_names_def)
  have fresh: "totalKind g \<notin> snd ` set (all_names g)" using ok by (auto simp: kinds_ok_def)
  have "str \<notin> fst ` set (terminals g)" using None by (simp add: map_of_eq_None_iff)
  then have ok': "kinds_ok ?g" using ok fresh by (auto simp: kinds_ok_def n less_Suc_eq)
  have "strToKind ?g str = Some (totalKind g)" by (simp add: strToKind_def)
  moreover have "strToKind ?g s = strToKind g s" if "s \<noteq> str" for s using that by (simp add: strToKind_names n)
  ultimately show ?thesis using None ok' u kind_round_trip [OF ok'] by (simp add: insertTerminalKind_def)
qed

lemma insertNonterminalKind_spec:
  assumes ok: "kinds_ok g" and room: "totalKind g + 1 < 2 ^ 32" and other: "map_of (terminals g) str = None"
  shows "\<exists>k g'. insertNonterminalKind str g = Some (k, g') \<and> kinds_ok g' \<and> strToKind g' str = Some k \<and> kindToStr g' k = str \<and>
    totalKind g' \<le> totalKind g + 1 \<and> (\<forall>s. s \<noteq> str \<longrightarrow> strToKind g' s = strToKind g s)"
proof (cases "map_of (nonterminals g) str")
  case (Some k)
  then have "strToKind g str = Some k" using other by (simp add: strToKind_def)
  then show ?thesis using Some ok kind_round_trip [OF ok] by (simp add: insertNonterminalKind_def)
next
  case None
  let ?g = "g\<lparr>totalKind := Suc (totalKind g), nonterminals := (str, totalKind g) # nonterminals g\<rparr>"
  have u: "u32 (Suc (totalKind g)) = Suc (totalKind g)" using u32_id [OF room] by simp
  have n: "all_names ?g = terminals g @ (str, totalKind g) # nonterminals g @ EBNFSigns g" by (simp add: all_names_def)
  have fresh: "totalKind g \<notin> snd ` set (all_names g)" using ok by (auto simp: kinds_ok_def)
  have "str \<notin> fst ` set (nonterminals g)" using None by (simp add: map_of_eq_None_iff)
  then have ok': "kinds_ok ?g" using ok fresh by (auto simp: kinds_ok_def n all_names_def less_Suc_eq)
  have "strToKind ?g str = Some (totalKind g)" using other by (simp add: strToKind_def)
  moreover have "strToKind ?g s = strToKind g s" if "s \<noteq> str" for s using that by (simp add: strToKind_def split: option.split)
  ultimately show ?thesis using None ok' u kind_round_trip [OF ok'] by (simp add: insertNonterminalKind_def)
qed

section \<open>Inserting productions\<close>

lemma get_add_prod:
  "map_of (add_prod s p m) t = (if t = s then Some (List.insert p (km_get [] m s)) else map_of m t)"
  by (simp add: add_prod_def update_conv')

text \<open>The tables as functions.\<close>

definition prods_at :: "(symbol \<times> production list) list \<Rightarrow> symbol \<Rightarrow> production set" where
  "prods_at m Y = set (km_get [] m Y)"

lemma prods_at_add [simp]: "prods_at (add_prod s p m) t = (if t = s then insert p (prods_at m t) else prods_at m t)"
  by (simp add: prods_at_def add_prod_def)

lemma prods_at_iff: "p \<in> prods_at m Y \<longleftrightarrow> (\<exists>ps. map_of m Y = Some ps \<and> p \<in> set ps)"
  by (cases "map_of m Y") (simp_all add: prods_at_def km_get_def)

lemma single_prods_at: "single_prods g = {(X, Y). \<exists>p \<in> prods_at (singleRHSToProds g) Y. getLHSSymbol p = Some X}"
  unfolding single_prods_def getProdsFromSingleRHS_def Bex_def prods_at_iff by blast

lemma pair_prods_at:
  "pair_prods g = {(X, Y, Z). \<exists>p \<in> prods_at (firstRHSToProds g) Y. getLHSSymbol p = Some X \<and> getSecondRHSSymbol p = Some Z}"
  unfolding pair_prods_def getProdsFromFirstRHS_def Bex_def prods_at_iff by blast

lemma grammar_ok_at:
  "grammar_ok g \<longleftrightarrow> (\<forall>p \<in> set (epsilonProds g). length p = 2) \<and>
     (\<forall>Y. \<forall>p \<in> prods_at (singleRHSToProds g) Y. length p = 2) \<and>
     (\<forall>Y. \<forall>p \<in> prods_at (firstRHSToProds g) Y. length p = 3) \<and>
     (\<forall>Y. \<forall>p \<in> prods_at (secondRHSToProds g) Y. length p = 3) \<and>
     (\<forall>X Y Z. (X, Y, Z) \<in> pair_prods g \<longleftrightarrow>
        (\<exists>p \<in> prods_at (secondRHSToProds g) Z. getLHSSymbol p = Some X \<and> getFirstRHSSymbol p = Some Y))"
proof -
  have all: "(\<forall>Y ps. map_of m Y = Some ps \<longrightarrow> (\<forall>p \<in> set ps. P p)) \<longleftrightarrow> (\<forall>Y. \<forall>p \<in> prods_at m Y. P p)" for m P
    unfolding Ball_def prods_at_iff by blast
  have ex: "(\<exists>ps. map_of m Y = Some ps \<and> (\<exists>p \<in> set ps. P p)) \<longleftrightarrow> (\<exists>p \<in> prods_at m Y. P p)" for m Y P
    unfolding Bex_def prods_at_iff by blast
  show ?thesis
    by (simp only: grammar_ok_def getProdsFromSingleRHS_def getProdsFromFirstRHS_def getProdsFromSecondRHS_def all ex)
qed

text \<open>Inserting a production adds it to the grammar the solvers read, by its length and by whether it mentions the empty word.\<close>

lemma insertToCFLGrammar_spec:
  assumes ok: "grammar_ok g" and eps: "strToKind g ''epsilon'' = Some k"
  shows "\<exists>g'. insertToCFLGrammar p g = Some g' \<and> grammar_ok g' \<and> strToKind g' = strToKind g \<and>
    eps_syms g' = eps_syms g \<union> (if length p = 2 \<and> (\<exists>s \<in> set p. num_of_sym s = k) then {p ! 0} else {}) \<and>
    single_prods g' = single_prods g \<union> (if length p = 2 \<and> \<not> (\<exists>s \<in> set p. num_of_sym s = k) then {(p ! 0, p ! 1)} else {}) \<and>
    pair_prods g' = pair_prods g \<union> (if length p = 3 then {(p ! 0, p ! 1, p ! 2)} else {})"
proof -
  have str: "strToKind g' = strToKind g" if "terminals g' = terminals g" "nonterminals g' = nonterminals g" "EBNFSigns g' = EBNFSigns g" for g'
    using that by (intro ext) (simp only: strToKind_def)
  consider (eps) "length p = 2" "\<exists>s \<in> set p. num_of_sym s = k"
    | (single) "length p = 2" "\<not> (\<exists>s \<in> set p. num_of_sym s = k)"
    | (pair) "length p = 3" | (other) "length p \<noteq> 2" "length p \<noteq> 3" by blast
  then show ?thesis
  proof cases
    case eps
    let ?g = "g\<lparr>epsilonProds := List.insert p (epsilonProds g)\<rparr>"
    have "insertToCFLGrammar p g = Some ?g" using eps assms(2) by (simp add: insertToCFLGrammar_def)
    moreover have "pair_prods ?g = pair_prods g" "single_prods ?g = single_prods g" by (simp_all add: pair_prods_at single_prods_at)
    moreover have "grammar_ok ?g" using ok eps(1) unfolding grammar_ok_at by (simp add: pair_prods_at)
    moreover have "eps_syms ?g = eps_syms g \<union> {p ! 0}" using eps(1) by (auto simp: eps_syms_def getLHSSymbol_def)
    ultimately show ?thesis using eps str [of ?g] by simp
  next
    case single
    let ?g = "g\<lparr>singleRHSToProds := add_prod (p ! 1) p (singleRHSToProds g)\<rparr>"
    have "insertToCFLGrammar p g = Some ?g" using single assms(2) by (simp add: insertToCFLGrammar_def)
    moreover have "pair_prods ?g = pair_prods g" "eps_syms ?g = eps_syms g" by (simp_all add: pair_prods_at eps_syms_def)
    moreover have "grammar_ok ?g" using ok single(1) unfolding grammar_ok_at by (simp add: pair_prods_at)
    moreover have "single_prods ?g = single_prods g \<union> {(p ! 0, p ! 1)}" using single(1) by (auto simp: single_prods_at getLHSSymbol_def)
    ultimately show ?thesis using single str [of ?g] by simp
  next
    case pair
    let ?g = "g\<lparr>firstRHSToProds := add_prod (p ! 1) p (firstRHSToProds g), secondRHSToProds := add_prod (p ! 2) p (secondRHSToProds g)\<rparr>"
    have "insertToCFLGrammar p g = Some ?g" using pair by (simp add: insertToCFLGrammar_def)
    moreover have "single_prods ?g = single_prods g" "eps_syms ?g = eps_syms g" by (simp_all add: single_prods_at eps_syms_def)
    moreover have pp: "pair_prods ?g = pair_prods g \<union> {(p ! 0, p ! 1, p ! 2)}"
    proof -
      have "getLHSSymbol p = Some (p ! 0)" "getSecondRHSSymbol p = Some (p ! 2)"
        using pair by (simp_all add: getLHSSymbol_def getSecondRHSSymbol_def)
      then have "(X, Y, Z) \<in> pair_prods ?g \<longleftrightarrow> (X, Y, Z) \<in> pair_prods g \<or> (X = p ! 0 \<and> Y = p ! 1 \<and> Z = p ! 2)" for X Y Z
        by (cases "Y = p ! 1") (simp_all add: pair_prods_at disj_commute eq_commute)
      then show ?thesis by auto
    qed
    moreover have "grammar_ok ?g"
    proof -
      have "(X, Y, Z) \<in> pair_prods ?g \<longleftrightarrow>
        (\<exists>q \<in> prods_at (secondRHSToProds ?g) Z. getLHSSymbol q = Some X \<and> getFirstRHSSymbol q = Some Y)" for X Y Z
        using ok pair unfolding grammar_ok_at pp by (auto simp: getLHSSymbol_def getFirstRHSSymbol_def)
      then show ?thesis using ok pair unfolding grammar_ok_at by simp
    qed
    ultimately show ?thesis using pair str [of ?g] by simp
  next
    case other
    then have "insertToCFLGrammar p g = Some g" by (simp add: insertToCFLGrammar_def)
    then show ?thesis using ok other by simp
  qed
qed

section \<open>Attribute variables\<close>

text \<open>A production with its variables replaced according to \<open>\<sigma>\<close>.\<close>

definition subst_symbol :: "(8 word \<Rightarrow> nat) \<Rightarrow> symbol \<Rightarrow> symbol" where
  "subst_symbol \<sigma> s = (if sym_vattr s = 0 then s else Symbol (sym_kind s) (of_nat (\<sigma> (sym_vattr s))) 0)"

definition variables :: "production \<Rightarrow> 8 word set" where
  "variables p = sym_vattr ` set p - {0}"

definition instances :: "nat set \<Rightarrow> production \<Rightarrow> production set" where
  "instances A p = {map (subst_symbol \<sigma>) p | \<sigma>. \<forall>v \<in> variables p. \<sigma> v \<in> A}"

lemma first_variable_0: "first_variable p = 0 \<longleftrightarrow> variables p = {}"
  by (induction p) (auto simp: variables_def)

lemma first_variable_in: "first_variable p \<noteq> 0 \<Longrightarrow> first_variable p \<in> variables p"
  by (induction p) (auto simp: variables_def split: if_splits)

lemma variables_filled: "v \<in> variables p \<Longrightarrow> variables (map (fill_symbol v a) p) = variables p - {v}"
  by (auto simp: variables_def fill_symbol_def image_iff split: if_splits)

lemma has_variables: "(\<exists>s \<in> set p. sym_vattr s \<noteq> 0) \<longleftrightarrow> variables p \<noteq> {}"
  by (auto simp: variables_def)

lemma finite_variables: "finite (variables p)"
  by (simp add: variables_def)

lemma instances_closed: "variables p = {} \<Longrightarrow> instances A p = {p}"
proof -
  assume v: "variables p = {}"
  then have "map (subst_symbol \<sigma>) p = p" for \<sigma> by (induction p) (auto simp: variables_def subst_symbol_def)
  then show ?thesis using v by (simp add: instances_def)
qed

lemma subst_fill:
  assumes "v \<noteq> 0" shows "subst_symbol \<sigma> (fill_symbol v a s) = subst_symbol (\<sigma>(v := a)) s"
  using assms by (cases s) (auto simp: subst_symbol_def fill_symbol_def)

lemma instances_step:
  assumes v: "v \<in> variables p"
  shows "instances A p = (\<Union>a \<in> A. instances A (map (fill_symbol v a) p))"
proof
  have v0: "v \<noteq> 0" using v by (simp add: variables_def)
  show "instances A p \<subseteq> (\<Union>a \<in> A. instances A (map (fill_symbol v a) p))"
  proof
    fix q assume "q \<in> instances A p"
    then obtain \<sigma> where \<sigma>: "q = map (subst_symbol \<sigma>) p" "\<forall>v \<in> variables p. \<sigma> v \<in> A" by (auto simp: instances_def)
    have "\<sigma> v \<in> A" using \<sigma>(2) v by blast
    moreover have "q = map (subst_symbol \<sigma>) (map (fill_symbol v (\<sigma> v)) p)" by (simp add: \<sigma>(1) subst_fill [OF v0] o_def)
    ultimately show "q \<in> (\<Union>a \<in> A. instances A (map (fill_symbol v a) p))"
      using \<sigma>(2) variables_filled [OF v] by (auto simp: instances_def)
  qed
  show "(\<Union>a \<in> A. instances A (map (fill_symbol v a) p)) \<subseteq> instances A p"
  proof
    fix q assume "q \<in> (\<Union>a \<in> A. instances A (map (fill_symbol v a) p))"
    then obtain a \<sigma> where \<sigma>: "a \<in> A" "q = map (subst_symbol \<sigma>) (map (fill_symbol v a) p)" "\<forall>w \<in> variables p - {v}. \<sigma> w \<in> A"
      using variables_filled [OF v] by (auto simp: instances_def)
    have "q = map (subst_symbol (\<sigma>(v := a))) p" using \<sigma>(2) by (simp add: subst_fill [OF v0] o_def)
    moreover have "\<forall>w \<in> variables p. (\<sigma>(v := a)) w \<in> A" using \<sigma>(1,3) by auto
    ultimately show "q \<in> instances A p" unfolding instances_def by blast
  qed
qed

text \<open>What one production costs: at most as much as its instances and one more.\<close>

definition fill_cost :: "nat \<Rightarrow> production \<Rightarrow> nat" where
  "fill_cost k p = (k + 2) ^ card (variables p)"

lemma fill_cost_step: "v \<in> variables p \<Longrightarrow> k * fill_cost k (map (fill_symbol v a) p) < fill_cost k p"
proof -
  assume v: "v \<in> variables p"
  then have "card (variables p) = Suc (card (variables p - {v}))" using finite_variables card_Suc_Diff1 by metis
  then show ?thesis by (simp add: fill_cost_def variables_filled [OF v])
qed

lemma fill_inner:
  fixes attrs :: "nat list"
  assumes v: "v \<in> variables p"
  defines "f \<equiv> \<lambda>a (w, normalProds).
            let q = map (fill_symbol v a) p
            in if \<exists>s \<in> set q. sym_vattr s \<noteq> 0 then (snd (fifo_push w q), normalProds) else (w, List.insert q normalProds)"
  shows "fifo_inv w \<Longrightarrow> \<exists>w' R'. fold f attrs (w, R) = (w', R') \<and> fifo_inv w' \<and>
    set R' \<union> (\<Union>q \<in> set (data_list w'). instances A q) = set R \<union> (\<Union>q \<in> set (data_list w). instances A q) \<union>
      (\<Union>a \<in> set attrs. instances A (map (fill_symbol v a) p)) \<and>
    (\<Sum>q \<leftarrow> data_list w'. fill_cost k q) \<le> (\<Sum>q \<leftarrow> data_list w. fill_cost k q) + length attrs * fill_cost k (map (fill_symbol v 0) p)"
proof (induction attrs arbitrary: w R)
  case Nil
  then show ?case by auto
next
  case (Cons a attrs)
  let ?q = "map (fill_symbol v a) p" and ?c = "fill_cost k (map (fill_symbol v 0) p)"
  have c: "fill_cost k ?q = ?c" by (simp add: fill_cost_def variables_filled [OF v])
  obtain u S where f: "f a (w, R) = (u, S)" by fastforce
  have u: "fifo_inv u \<and> set S \<union> (\<Union>q \<in> set (data_list u). instances A q) = set R \<union> (\<Union>q \<in> set (data_list w). instances A q) \<union> instances A ?q \<and>
    (\<Sum>q \<leftarrow> data_list u. fill_cost k q) \<le> (\<Sum>q \<leftarrow> data_list w. fill_cost k q) + ?c"
  proof (cases "\<exists>s \<in> set ?q. sym_vattr s \<noteq> 0")
    case True
    then have "u = snd (fifo_push w ?q)" "S = R" using f by (simp_all add: f_def Let_def split: if_splits)
    then show ?thesis using Cons.prems fifo_push_order [OF Cons.prems, of ?q] c by (auto simp: fifo_defs)
  next
    case False
    then have "u = w" "S = List.insert ?q R" using f by (auto simp: f_def Let_def split: if_splits)
    moreover have "instances A ?q = {?q}" using False has_variables [of ?q] instances_closed by blast
    ultimately show ?thesis using Cons.prems by auto
  qed
  obtain w' R' where r: "fold f attrs (u, S) = (w', R')" "fifo_inv w'"
    "set R' \<union> (\<Union>q \<in> set (data_list w'). instances A q) = set S \<union> (\<Union>q \<in> set (data_list u). instances A q) \<union>
      (\<Union>a \<in> set attrs. instances A (map (fill_symbol v a) p))"
    "(\<Sum>q \<leftarrow> data_list w'. fill_cost k q) \<le> (\<Sum>q \<leftarrow> data_list u. fill_cost k q) + length attrs * ?c"
    using Cons.IH [OF conjunct1 [OF u], of S] by (elim exE conjE) (rule that)
  have "fold f (a # attrs) (w, R) = (w', R')" using f r(1) by simp
  moreover have "set R' \<union> (\<Union>q \<in> set (data_list w'). instances A q) = set R \<union> (\<Union>q \<in> set (data_list w). instances A q) \<union>
      (\<Union>a \<in> set (a # attrs). instances A (map (fill_symbol v a) p))"
  proof -
    have "set S \<union> (\<Union>q \<in> set (data_list u). instances A q) = set R \<union> (\<Union>q \<in> set (data_list w). instances A q) \<union> instances A ?q"
      using u by blast
    then show ?thesis unfolding r(3) by (simp add: Un_assoc)
  qed
  moreover have "(\<Sum>q \<leftarrow> data_list w'. fill_cost k q) \<le> (\<Sum>q \<leftarrow> data_list w. fill_cost k q) + length (a # attrs) * ?c"
    using r(4) u by simp
  ultimately show ?case using r(2) by blast
qed

lemma fill_loop_spec:
  assumes "fifo_inv w"
  shows "\<exists>R'. fill_loop attrs w R = Some R' \<and> set R' = set R \<union> (\<Union>q \<in> set (data_list w). instances (set attrs) q)"
  using assms
proof (induction "\<Sum>q \<leftarrow> data_list w. fill_cost (length attrs) q" arbitrary: w R rule: less_induct)
  case less
  show ?case
  proof (cases "data_list w")
    case Nil
    then show ?thesis by (subst fill_loop.simps) (simp add: fifo_empty_def)
  next
    case (Cons p ps)
    let ?w = "\<lparr>data_set = set ps, data_list = ps\<rparr>" and ?v = "first_variable p" and ?A = "set attrs"
    have pop: "fifo_pop w = Some (p, ?w)" using fifo_pop_order [OF less.prems] Cons by simp
    have inv: "fifo_inv ?w" using less.prems Cons by (simp add: fifo_inv_def)
    have ne: "\<not> fifo_empty w" using Cons by (simp add: fifo_empty_def)
    have pos: "0 < fill_cost (length attrs) p" by (simp add: fill_cost_def)
    show ?thesis
    proof (cases "?v = 0")
      case True
      then have "instances ?A p = {p}" using first_variable_0 instances_closed by blast
      moreover have "fill_loop attrs w R = fill_loop attrs ?w (List.insert p R)"
        using ne pop True by (subst fill_loop.simps) simp
      ultimately show ?thesis using less.hyps [of ?w "List.insert p R"] inv Cons pos by auto
    next
      case False
      then have v: "?v \<in> variables p" by (rule first_variable_in)
      obtain w' R' where f: "fold (\<lambda>a (w, normalProds).
            let q = map (fill_symbol ?v a) p
            in if \<exists>s \<in> set q. sym_vattr s \<noteq> 0 then (snd (fifo_push w q), normalProds) else (w, List.insert q normalProds)) attrs (?w, R) = (w', R')"
        "fifo_inv w'" "set R' \<union> (\<Union>q \<in> set (data_list w'). instances ?A q) = set R \<union> (\<Union>q \<in> set (data_list ?w). instances ?A q) \<union>
          (\<Union>a \<in> ?A. instances ?A (map (fill_symbol ?v a) p))"
        "(\<Sum>q \<leftarrow> data_list w'. fill_cost (length attrs) q) \<le> (\<Sum>q \<leftarrow> data_list ?w. fill_cost (length attrs) q) +
          length attrs * fill_cost (length attrs) (map (fill_symbol ?v 0) p)"
        using fill_inner [OF v inv, of attrs R ?A "length attrs"] by blast
      have step: "fill_loop attrs w R = fill_loop attrs w' R'"
        using ne pop False f(1) by (subst fill_loop.simps) (simp add: Let_def)
      have "(\<Sum>q \<leftarrow> data_list w'. fill_cost (length attrs) q) < (\<Sum>q \<leftarrow> data_list w. fill_cost (length attrs) q)"
        using f(4) fill_cost_step [OF v, of "length attrs" 0] Cons by simp
      from less.hyps [OF this f(2), of R'] obtain S where S: "fill_loop attrs w' R' = Some S"
        "set S = set R' \<union> (\<Union>q \<in> set (data_list w'). instances ?A q)" by blast
      have "set S = set R \<union> (\<Union>q \<in> set (data_list w). instances ?A q)"
        unfolding S(2) f(3) instances_step [OF v, symmetric] by (auto simp: Cons)
      then show ?thesis using step S(1) by simp
    qed
  qed
qed

lemma getFilledProductions_spec: "\<exists>ps. getFilledProductions p attrs = Some ps \<and> set ps = instances (set attrs) p"
proof -
  have "fifo_inv (snd (fifo_push fifo_new p))" "data_list (snd (fifo_push fifo_new p)) = [p]" by (simp_all add: fifo_defs)
  then show ?thesis using fill_loop_spec [of "snd (fifo_push fifo_new p)" attrs "[]"] by (simp add: getFilledProductions_def)
qed

section \<open>The whole expansion\<close>

text \<open>The three kinds of rules among a set of productions, \<open>k\<close> being the kind of the empty word.\<close>

definition eps_of :: "nat \<Rightarrow> production set \<Rightarrow> symbol set" where
  "eps_of k P = {p ! 0 | p. p \<in> P \<and> length p = 2 \<and> (\<exists>s \<in> set p. num_of_sym s = k)}"

definition single_of :: "nat \<Rightarrow> production set \<Rightarrow> (symbol \<times> symbol) set" where
  "single_of k P = {(p ! 0, p ! 1) | p. p \<in> P \<and> length p = 2 \<and> \<not> (\<exists>s \<in> set p. num_of_sym s = k)}"

definition pair_of :: "production set \<Rightarrow> (symbol \<times> symbol \<times> symbol) set" where
  "pair_of P = {(p ! 0, p ! 1, p ! 2) | p. p \<in> P \<and> length p = 3}"

text \<open>A grammar with the productions \<open>P\<close> more.\<close>

definition adds :: "nat \<Rightarrow> production set \<Rightarrow> cf_grammar \<Rightarrow> cf_grammar \<Rightarrow> bool" where
  "adds k P g g' \<longleftrightarrow> (grammar_ok g \<longrightarrow> grammar_ok g') \<and> strToKind g' = strToKind g \<and>
     eps_syms g' = eps_syms g \<union> eps_of k P \<and> single_prods g' = single_prods g \<union> single_of k P \<and>
     pair_prods g' = pair_prods g \<union> pair_of P"

lemma adds_empty: "adds k {} g g"
  by (simp add: adds_def eps_of_def single_of_def pair_of_def)

lemma of_Un: "eps_of k (P \<union> Q) = eps_of k P \<union> eps_of k Q" "single_of k (P \<union> Q) = single_of k P \<union> single_of k Q"
  "pair_of (P \<union> Q) = pair_of P \<union> pair_of Q"
  by (auto simp: eps_of_def single_of_def pair_of_def)

lemma adds_trans: "adds k P g g' \<Longrightarrow> adds k Q g' g'' \<Longrightarrow> adds k (P \<union> Q) g g''"
  by (simp add: adds_def of_Un Un_assoc)

lemma adds_loop:
  assumes step: "\<And>x g. x \<in> set xs \<Longrightarrow> grammar_ok g \<Longrightarrow> strToKind g ''epsilon'' = Some k \<Longrightarrow> \<exists>g'. f x g = Some g' \<and> adds k (P x) g g'"
  shows "grammar_ok g \<Longrightarrow> strToKind g ''epsilon'' = Some k \<Longrightarrow>
    \<exists>g'. ofold f xs g = Some g' \<and> adds k (\<Union>x \<in> set xs. P x) g g'"
  using step
proof (induction xs arbitrary: g)
  case Nil
  then show ?case by (simp add: adds_empty)
next
  case (Cons x xs)
  obtain u where u: "f x g = Some u" "adds k (P x) g u" using Cons.prems(3) [of x] Cons.prems(1,2) by auto
  have ok: "grammar_ok u" "strToKind u ''epsilon'' = Some k" using u(2) Cons.prems(1,2) by (simp_all add: adds_def)
  obtain g' where g': "ofold f xs u = Some g'" "adds k (\<Union>x \<in> set xs. P x) u g'"
    using Cons.IH [OF ok] Cons.prems(3) by auto
  show ?case using u(1) g'(1) adds_trans [OF u(2) g'(2)] by simp
qed

lemma insertToCFLGrammar_adds:
  assumes "grammar_ok g" "strToKind g ''epsilon'' = Some k"
  shows "\<exists>g'. insertToCFLGrammar p g = Some g' \<and> adds k {p} g g'"
proof -
  obtain g' where g': "insertToCFLGrammar p g = Some g'" "grammar_ok g'" "strToKind g' = strToKind g"
    "eps_syms g' = eps_syms g \<union> (if length p = 2 \<and> (\<exists>s \<in> set p. num_of_sym s = k) then {p ! 0} else {})"
    "single_prods g' = single_prods g \<union> (if length p = 2 \<and> \<not> (\<exists>s \<in> set p. num_of_sym s = k) then {(p ! 0, p ! 1)} else {})"
    "pair_prods g' = pair_prods g \<union> (if length p = 3 then {(p ! 0, p ! 1, p ! 2)} else {})"
    using insertToCFLGrammar_spec [OF assms, of p] by blast
  moreover have "eps_of k {p} = (if length p = 2 \<and> (\<exists>s \<in> set p. num_of_sym s = k) then {p ! 0} else {})"
    "single_of k {p} = (if length p = 2 \<and> \<not> (\<exists>s \<in> set p. num_of_sym s = k) then {(p ! 0, p ! 1)} else {})"
    "pair_of {p} = (if length p = 3 then {(p ! 0, p ! 1, p ! 2)} else {})"
    by (auto simp: eps_of_def single_of_def pair_of_def)
  ultimately show ?thesis by (simp add: adds_def)
qed

definition raw_rules :: "cf_grammar \<Rightarrow> production set" where
  "raw_rules g = {s # p | s p prods. (s, prods) \<in> set (rawProductions g) \<and> p \<in> set prods}"

definition all_attributes :: "(nat \<times> nat list) list \<Rightarrow> nat set" where
  "all_attributes m = (\<Union>(k, as) \<in> set m. set as)"

lemma fold_insert_set: "set (fold List.insert xs ys) = set xs \<union> set ys"
  by (induction xs arbitrary: ys) auto

lemma fillAttribute_spec:
  assumes g: "grammar_ok g" and eps: "strToKind g ''epsilon'' = Some k"
  shows "\<exists>g'. fillAttribute g m = Some g' \<and> adds k (\<Union>p \<in> raw_rules g. instances (all_attributes m) p) g g'"
proof -
  let ?as = "fold List.insert (concat (map snd m)) []"
  have as: "set ?as = all_attributes m" by (auto simp: fold_insert_set all_attributes_def)
  let ?f = "\<lambda>(s, prods). ofold (\<lambda>p g. do { normalProds \<leftarrow> getFilledProductions (s # p) ?as; ofold insertToCFLGrammar normalProds g }) prods"
  let ?P = "\<lambda>(s, prods). \<Union>p \<in> set prods. instances (all_attributes m) (s # p)"
  have one: "\<exists>g'. do { normalProds \<leftarrow> getFilledProductions (s # p) ?as; ofold insertToCFLGrammar normalProds g } = Some g' \<and>
      adds k (instances (all_attributes m) (s # p)) g g'" if g: "grammar_ok g" "strToKind g ''epsilon'' = Some k" for s p g
  proof -
    obtain ps where ps: "getFilledProductions (s # p) ?as = Some ps" "set ps = instances (all_attributes m) (s # p)"
      using getFilledProductions_spec [of "s # p" ?as] as by auto
    from adds_loop [of ps k insertToCFLGrammar "\<lambda>p. {p}", OF insertToCFLGrammar_adds g] show ?thesis using ps by simp
  qed
  have two: "\<exists>g'. ?f x g = Some g' \<and> adds k (?P x) g g'" if g: "grammar_ok g" "strToKind g ''epsilon'' = Some k" for x g
    using adds_loop [of "snd x" k _ "\<lambda>p. instances (all_attributes m) (fst x # p)", OF one g] by (cases x) simp
  obtain g' where g': "ofold ?f (rawProductions g) g = Some g'" "adds k (\<Union>x \<in> set (rawProductions g). ?P x) g g'"
    using adds_loop [of "rawProductions g" k ?f ?P, OF two g eps] by blast
  have "(\<Union>x \<in> set (rawProductions g). ?P x) = (\<Union>p \<in> raw_rules g. instances (all_attributes m) p)"
    by (fastforce simp: raw_rules_def)
  then show ?thesis using g' by (simp add: fillAttribute_def)
qed

section \<open>Alternatives\<close>

text \<open>\<open>barReplace\<close>: the right-hand side of every production is cut at its bars.\<close>

definition is_bar :: "cf_grammar \<Rightarrow> symbol \<Rightarrow> bool" where
  "is_bar g s \<longleftrightarrow> kindToStr g (unat (sym_kind s)) = ''|''"

fun bar_loop :: "cf_grammar \<Rightarrow> symbol \<Rightarrow> production \<Rightarrow> nat \<Rightarrow> nat \<Rightarrow> nat \<Rightarrow> production list \<Rightarrow> production list" where
  "bar_loop g lhs p 0 i j prods = List.insert (lhs # drop j (take i p)) prods"
| "bar_loop g lhs p (Suc n) i j prods =
     (if is_bar g (p ! i) then bar_loop g lhs p n (i + 1) (i + 1) (List.insert (lhs # drop j (take i p)) prods)
      else bar_loop g lhs p n (i + 1) j prods)"

definition barReplace :: "cf_grammar \<Rightarrow> cf_grammar" where
  "barReplace g = g\<lparr>rawProductions := map (\<lambda>(lhs, ps).
     (lhs, fold (\<lambda>p prods. bar_loop g lhs p (length p - 1) 1 1 prods) ps [])) (rawProductions g)\<rparr>"

text \<open>The pieces of a list between the elements with a property.\<close>

fun pieces :: "('a \<Rightarrow> bool) \<Rightarrow> 'a list \<Rightarrow> 'a list list" where
  "pieces P [] = [[]]"
| "pieces P (x # xs) = (if P x then [] # pieces P xs else (case pieces P xs of [] \<Rightarrow> [[x]] | y # ys \<Rightarrow> (x # y) # ys))"

lemma pieces_ne: "pieces P xs \<noteq> []"
  by (induction xs) (auto split: list.split)

lemma pieces_append: "\<forall>x \<in> set ys. \<not> P x \<Longrightarrow> pieces P (ys @ xs) = (ys @ hd (pieces P xs)) # tl (pieces P xs)"
  using pieces_ne [of P xs] by (induction ys) (auto split: list.split)

lemma bar_loop_spec:
  assumes "n = length p - i" "j \<le> i" "i \<le> length p" "\<forall>x \<in> set (drop j (take i p)). \<not> is_bar g x"
  shows "set (bar_loop g lhs p n i j prods) = set prods \<union> Cons lhs ` set (pieces (is_bar g) (drop j p))"
  using assms
proof (induction n arbitrary: i j prods)
  case 0
  then have "i = length p" by simp
  then have "\<forall>x \<in> set (drop j p). \<not> is_bar g x" using 0 by simp
  then show ?case using pieces_append [of "drop j p" "is_bar g" "[]"] \<open>i = length p\<close> by simp
next
  case (Suc n)
  then have i: "i < length p" "n = length p - (i + 1)" by simp_all
  have d: "drop j p = drop j (take i p) @ p ! i # drop (i + 1) p"
    using i(1) Suc.prems(2) by (metis Suc_eq_plus1 append_take_drop_id Cons_nth_drop_Suc drop_append drop_eq_Nil2 length_take min.absorb4
        append_Cons append_self_conv diff_is_0_eq drop0 nless_le)
  show ?case
  proof (cases "is_bar g (p ! i)")
    case True
    have "pieces (is_bar g) (drop j p) = drop j (take i p) # pieces (is_bar g) (drop (i + 1) p)"
      using pieces_append [OF Suc.prems(4), of "p ! i # drop (i + 1) p"] d True by simp
    then show ?thesis using True Suc.IH [of "i + 1" "i + 1" "List.insert (lhs # drop j (take i p)) prods"] i by simp
  next
    case False
    have t: "drop j (take (i + 1) p) = drop j (take i p) @ [p ! i]" using i(1) Suc.prems(2) by (simp add: take_Suc_conv_app_nth)
    then show ?thesis using False Suc.IH [of "i + 1" j prods] i Suc.prems(2,4) by auto
  qed
qed

lemma barReplace_spec:
  assumes "\<forall>(lhs, ps) \<in> set (rawProductions g). \<forall>p \<in> set ps. p \<noteq> []"
  shows "map (\<lambda>(lhs, ps). (lhs, set ps)) (rawProductions (barReplace g)) =
    map (\<lambda>(lhs, ps). (lhs, \<Union>p \<in> set ps. Cons lhs ` set (pieces (is_bar g) (tl p)))) (rawProductions g)"
proof -
  have f: "set (fold (\<lambda>p prods. bar_loop g lhs p (length p - 1) 1 1 prods) ps prods) =
      set prods \<union> (\<Union>p \<in> set ps. Cons lhs ` set (pieces (is_bar g) (tl p)))" if "\<forall>p \<in> set ps. p \<noteq> []" for lhs ps prods
    using that
  proof (induction ps arbitrary: prods)
    case (Cons p ps)
    have "1 \<le> length p" using Cons.prems by (cases p) auto
    then have b: "set (bar_loop g lhs p (length p - 1) 1 1 prods) = set prods \<union> Cons lhs ` set (pieces (is_bar g) (tl p))"
      using bar_loop_spec [of "length p - 1" p 1 1 g lhs prods] by (cases p) simp_all
    show ?case using Cons.IH [of "bar_loop g lhs p (length p - 1) 1 1 prods"] Cons.prems b by auto
  qed simp
  have "set (fold (\<lambda>p prods. bar_loop g (fst x) p (length p - 1) 1 1 prods) (snd x) []) =
      (\<Union>p \<in> set (snd x). Cons (fst x) ` set (pieces (is_bar g) (tl p)))" if "x \<in> set (rawProductions g)" for x
    using f [of "snd x" "fst x" "[]"] that assms by (cases x) auto
  then show ?thesis unfolding barReplace_def by (simp add: split_beta)
qed

end
