(* ===== verification/CFLBuild.thy ===== *)
theory CFLBuild
  imports CFLGrammarSpec
begin

text \<open>
  Building the graphs of CFL reachability (\<open>CFLGraphBuilder\<close> and \<open>AliasCFLGraphBuilder::buildBigraph\<close> of
  svf/include/CFL/CFLGraphBuilder.h, svf/lib/CFL/CFLGraphBuilder.cpp): from the lines of a text file, and with
  all edges in both directions from the edges of a constraint graph.
\<close>

section \<open>State\<close>

record cfl_builder =
  labelToKindMap :: "(string \<times> nat) list"
  kindToLabelMap :: "(nat \<times> string) list"
  bd_attrs :: "(nat \<times> nat list) list"
  bd_current :: nat
  bd_graph :: cfl_graph

definition cfl_builder_new :: "nat \<Rightarrow> cfl_builder" where
  "cfl_builder_new start = \<lparr>labelToKindMap = [], kindToLabelMap = [], bd_attrs = [], bd_current = 0, bd_graph = cfl_graph_new start\<rparr>"

definition addAttribute :: "nat \<Rightarrow> nat \<Rightarrow> cfl_builder \<Rightarrow> cfl_builder" where
  "addAttribute kind attribute b =
     (case map_of (bd_attrs b) kind of
        None \<Rightarrow> b\<lparr>bd_attrs := (kind, [attribute]) # bd_attrs b\<rparr>
      | Some as \<Rightarrow> if attribute \<notin> set as then b\<lparr>bd_attrs := AList.update kind (attribute # as) (bd_attrs b)\<rparr> else b)"

definition add_label :: "string \<times> nat \<Rightarrow> cfl_builder \<Rightarrow> cfl_builder" where
  "add_label lk b = (case lk of (label, kind) \<Rightarrow>
     let b = (if map_of (labelToKindMap b) label = None then b\<lparr>labelToKindMap := (label, kind) # labelToKindMap b\<rparr> else b)
     in if map_of (kindToLabelMap b) kind = None then b\<lparr>kindToLabelMap := (kind, label) # kindToLabelMap b\<rparr> else b)"

definition buildlabelToKindMap :: "cf_grammar \<Rightarrow> cfl_builder \<Rightarrow> cfl_builder" where
  "buildlabelToKindMap g b = fold add_label (nonterminals g) (fold add_label (terminals g) b)"

definition add_GNode :: "NodeID \<Rightarrow> cfl_builder \<Rightarrow> cfl_builder" where
  "add_GNode i b = (if cfl_getGNode (bd_graph b) i = None then b\<lparr>bd_graph := addCFLNode i cfl_node_new (bd_graph b)\<rparr> else b)"

definition build_edge :: "NodeID \<Rightarrow> NodeID \<Rightarrow> nat \<Rightarrow> cfl_builder \<Rightarrow> cfl_builder option" where
  "build_edge src dst label b = do {
     (_, G) \<leftarrow> addCFLEdge (bd_graph b) src dst label;
     Some (b\<lparr>bd_graph := G\<rparr>)
   }"

section \<open>Text files\<close>

text \<open>\<open>SVFUtil::split\<close>: the non-empty pieces between separators.\<close>

fun split_on :: "char \<Rightarrow> string \<Rightarrow> string \<Rightarrow> string list" where
  "split_on c piece [] = (if piece = [] then [] else [piece])"
| "split_on c piece (x # s) =
     (if x = c then (if piece = [] then [] else [piece]) @ split_on c [] s else split_on c (piece @ [x]) s)"

definition char_isspace :: "char \<Rightarrow> bool" where
  "char_isspace c \<longleftrightarrow> c = CHR '' '' \<or> of_char c \<in> {9 :: nat..13}"

text \<open>\<open>std::stoi\<close>: leading white space, a sign, the digits in front; it throws without a digit and out of range.\<close>

definition stoi_signed :: "string \<Rightarrow> int option" where
  "stoi_signed s =
     (let s = dropWhile char_isspace s;
          neg = (s \<noteq> [] \<and> hd s = CHR ''-'');
          s = (if s \<noteq> [] \<and> (hd s = CHR ''-'' \<or> hd s = CHR ''+'') then tl s else s);
          ds = takeWhile char_isdigit s;
          n = foldl (\<lambda>n c. 10 * n + (of_char c - 48)) 0 ds :: int;
          n = (if neg then - n else n)
      in if ds = [] \<or> n < - (2 ^ 31) \<or> 2 ^ 31 \<le> n then None else Some n)"

definition node_id :: "int \<Rightarrow> NodeID" where
  "node_id n = nat (n mod 2 ^ 32)"

definition line_fields :: "string list \<Rightarrow> (NodeID \<times> NodeID \<times> string) option" where
  "line_fields vec =
     (if length vec < 3 then None
      else do { s \<leftarrow> stoi_signed (vec ! 0); d \<leftarrow> stoi_signed (vec ! 1); Some (node_id s, node_id d, vec ! 2) })"

text \<open>\<open>flex\<close> is the option \<open>-flexsymmap\<close>: unknown labels get the next number, instead of an abort.\<close>

definition build_line :: "bool \<Rightarrow> string \<Rightarrow> cfl_builder \<Rightarrow> cfl_builder option" where
  "build_line flex line b =
     (let vec = split_on (CHR 0x09) [] line in
      if vec = [] then Some b
      else do {
        (src, dst, label) \<leftarrow> line_fields vec;
        let b = add_GNode dst (add_GNode src b);
        case map_of (labelToKindMap b) label of
          Some k \<Rightarrow> build_edge src dst k b
        | None \<Rightarrow>
            if flex then
              let b = b\<lparr>labelToKindMap := (label, bd_current b) # labelToKindMap b, bd_current := u32 (bd_current b + 1)\<rparr>
              in do { k \<leftarrow> map_of (labelToKindMap b) label; build_edge src dst k b }
            else None
      })"

definition buildFromText :: "bool \<Rightarrow> cf_grammar \<Rightarrow> string list \<Rightarrow> cfl_builder \<Rightarrow> cfl_builder option" where
  "buildFromText flex g lines b =
     (let b = (buildlabelToKindMap g b)\<lparr>bd_graph := cfl_graph_new (startKind g)\<rparr>;
          b = b\<lparr>bd_current := u32 (length (labelToKindMap b))\<rparr>
      in ofold (build_line flex) lines b)"

section \<open>Both directions\<close>

text \<open>
  The constraint graph as the bigraph builder reads it: its nodes, each with its out-edges; an edge carries
  the field index when it is a normal gep.
\<close>

type_synonym cons_view = "(NodeID \<times> (gedge \<times> int option) list) list"

definition getAttributedKind :: "nat \<Rightarrow> nat \<Rightarrow> nat" where
  "getAttributedKind attribute kind = u32 (attribute * 2 ^ 8) OR kind"

text \<open>The kind of the label that ends in \<open>bar\<close>; the lookups insert what is missing.\<close>

definition kind_bar :: "nat \<Rightarrow> cfl_builder \<Rightarrow> nat \<times> cfl_builder" where
  "kind_bar kind b =
     (let label = km_get [] (kindToLabelMap b) kind @ ''bar'' in
      (km_get 0 (labelToKindMap b) label,
       b\<lparr>kindToLabelMap := km_touch [] kind (kindToLabelMap b), labelToKindMap := km_touch 0 label (labelToKindMap b)\<rparr>))"

definition bigraph_edge :: "gedge \<times> int option \<Rightarrow> cfl_builder \<Rightarrow> cfl_builder option" where
  "bigraph_edge eo b =
     (case eo of (e, off) \<Rightarrow>
       let kind = edgeFlag e; s = getSrcID e; d = getDstID e in
       case off of
         Some idx \<Rightarrow>
           let attr = node_id idx in
           do {
             b \<leftarrow> build_edge s d (getAttributedKind attr kind) (addAttribute kind attr b);
             let (bar, b) = kind_bar kind b;
             b \<leftarrow> build_edge d s (getAttributedKind attr bar) b;
             Some (addAttribute bar attr b)
           }
       | None \<Rightarrow> do {
             b \<leftarrow> build_edge s d kind b;
             let (bar, b) = kind_bar kind b;
             build_edge d s bar b
           })"

definition buildBigraph :: "cons_view \<Rightarrow> nat \<Rightarrow> cf_grammar \<Rightarrow> cfl_builder \<Rightarrow> cfl_builder option" where
  "buildBigraph cg start g b =
     (let b = buildlabelToKindMap g (b\<lparr>bd_graph := cfl_graph_new start\<rparr>);
          b = fold (\<lambda>(i, _) b. b\<lparr>bd_graph := addCFLNode i cfl_node_new (bd_graph b)\<rparr>) cg b
      in ofold (\<lambda>(_, es) b. ofold bigraph_edge es b) cg b)"

section \<open>What is built\<close>

lemma build_edge_spec:
  assumes "cfl_ok (bd_graph b)" "src \<in> set (cfl_nodes (bd_graph b))" "dst \<in> set (cfl_nodes (bd_graph b))" "k < 2 ^ 32"
  shows "\<exists>G. build_edge src dst k b = Some (b\<lparr>bd_graph := G\<rparr>) \<and> cfl_ok G \<and> cfl_nodes G = cfl_nodes (bd_graph b) \<and>
    set (cflEdgeSet G) = insert (GEdge k src dst) (set (cflEdgeSet (bd_graph b)))"
  using addCFLEdge_spec [OF assms] by (auto simp: build_edge_def)

lemma add_GNode_spec:
  assumes "cfl_ok (bd_graph b)"
  shows "cfl_ok (bd_graph (add_GNode i b))" "set (cfl_nodes (bd_graph (add_GNode i b))) = insert i (set (cfl_nodes (bd_graph b)))"
    "cflEdgeSet (bd_graph (add_GNode i b)) = cflEdgeSet (bd_graph b)" "labelToKindMap (add_GNode i b) = labelToKindMap b"
  using addCFLNode_spec [OF assms, of i] assms cfl_nodes_iff [of i "bd_graph b"]
  by (auto simp: add_GNode_def)

text \<open>The edge of a line, by the labels known at the start.\<close>

definition line_edge :: "(string \<times> nat) list \<Rightarrow> string \<Rightarrow> gedge option" where
  "line_edge m line = do { (s, d, l) \<leftarrow> line_fields (split_on (CHR 0x09) [] line); k \<leftarrow> map_of m l; Some (GEdge k s d) }"

definition blank :: "string \<Rightarrow> bool" where
  "blank line \<longleftrightarrow> split_on (CHR 0x09) [] line = []"

definition text_edges :: "(string \<times> nat) list \<Rightarrow> string list \<Rightarrow> gedge set" where
  "text_edges m lines = {e. \<exists>line \<in> set lines. \<not> blank line \<and> line_edge m line = Some e}"

definition edge_ends :: "gedge set \<Rightarrow> NodeID set" where
  "edge_ends E = getSrcID ` E \<union> getDstID ` E"

lemma text_edges_Cons:
  "text_edges m [] = {}" "blank line \<Longrightarrow> text_edges m (line # lines) = text_edges m lines"
  "\<not> blank line \<Longrightarrow> line_edge m line = Some e \<Longrightarrow> text_edges m (line # lines) = insert e (text_edges m lines)"
  by (auto simp: text_edges_def)

lemma edge_ends_simps [simp]: "edge_ends {} = {}" "edge_ends (insert e E) = insert (getSrcID e) (insert (getDstID e) (edge_ends E))"
  "edge_ends (E \<union> F) = edge_ends E \<union> edge_ends F"
  by (auto simp: edge_ends_def)

lemma build_lines_spec:
  assumes "cfl_ok (bd_graph b)" "labelToKindMap b = m"
    "\<forall>line \<in> set lines. \<not> blank line \<longrightarrow> (\<exists>e. line_edge m line = Some e \<and> edgeFlag e < 2 ^ 32)"
  shows "\<exists>t. ofold (build_line flex) lines b = Some t \<and> cfl_ok (bd_graph t) \<and>
    set (cflEdgeSet (bd_graph t)) = set (cflEdgeSet (bd_graph b)) \<union> text_edges m lines \<and>
    set (cfl_nodes (bd_graph t)) = set (cfl_nodes (bd_graph b)) \<union> edge_ends (text_edges m lines)"
  using assms
proof (induction lines arbitrary: b)
  case (Cons line lines)
  show ?case
  proof (cases "blank line")
    case True
    then have "build_line flex line b = Some b" by (simp add: build_line_def blank_def)
    then show ?thesis using Cons.IH [OF Cons.prems(1,2)] Cons.prems(3) True by (simp add: text_edges_Cons)
  next
    case False
    then obtain e where e: "line_edge m line = Some e" "edgeFlag e < 2 ^ 32" using Cons.prems(3) by auto
    then obtain s d l where f: "line_fields (split_on (CHR 0x09) [] line) = Some (s, d, l)" "map_of m l = Some (edgeFlag e)"
        "s = getSrcID e" "d = getDstID e"
      by (auto simp: line_edge_def split: Option.bind_splits)
    let ?b = "add_GNode d (add_GNode s b)"
    note n1 = add_GNode_spec [OF Cons.prems(1), of s]
    note n2 = add_GNode_spec [OF n1(1), of d]
    have ends: "s \<in> set (cfl_nodes (bd_graph ?b))" "d \<in> set (cfl_nodes (bd_graph ?b))" using n1(2) n2(2) by auto
    obtain G where G: "build_edge s d (edgeFlag e) ?b = Some (?b\<lparr>bd_graph := G\<rparr>)" "cfl_ok G" "cfl_nodes G = cfl_nodes (bd_graph ?b)"
        "set (cflEdgeSet G) = insert (GEdge (edgeFlag e) s d) (set (cflEdgeSet (bd_graph ?b)))"
      using build_edge_spec [OF n2(1) ends e(2)] by blast
    let ?t = "?b\<lparr>bd_graph := G\<rparr>"
    have ee: "GEdge (edgeFlag e) s d = e" using f(3,4) by (cases e) simp
    have run: "build_line flex line b = Some ?t"
      using False f(1,2) G(1) n1(4) n2(4) Cons.prems(2) by (simp add: build_line_def blank_def Let_def)
    have ok: "cfl_ok (bd_graph ?t)" "labelToKindMap ?t = m" using G(2) n1(4) n2(4) Cons.prems(2) by simp_all
    have es: "set (cflEdgeSet G) = insert e (set (cflEdgeSet (bd_graph b)))" using G(4) n1(3) n2(3) ee by simp
    have ns: "set (cfl_nodes G) = insert d (insert s (set (cfl_nodes (bd_graph b))))" using G(3) n1(2) n2(2) by simp
    from Cons.IH [OF ok] Cons.prems(3) obtain t where t: "ofold (build_line flex) lines ?t = Some t" "cfl_ok (bd_graph t)"
        "set (cflEdgeSet (bd_graph t)) = set (cflEdgeSet (bd_graph ?t)) \<union> text_edges m lines"
        "set (cfl_nodes (bd_graph t)) = set (cfl_nodes (bd_graph ?t)) \<union> edge_ends (text_edges m lines)"
      by auto
    show ?thesis
      using run t f(3,4) by (intro exI [of _ t]) (simp add: es ns text_edges_Cons(3) [OF False e(1)] insert_commute)
  qed
qed (simp add: text_edges_Cons)

text \<open>The labels of a grammar: the terminals first, then the nonterminals.\<close>

lemma add_label_map [simp]: "labelToKindMap (add_label x b) =
    (if map_of (labelToKindMap b) (fst x) = None then x # labelToKindMap b else labelToKindMap b)"
  by (cases x) (simp add: add_label_def Let_def)

lemma add_labels:
  "map_of (labelToKindMap (fold add_label ls b)) l =
     (case map_of (labelToKindMap b) l of Some k \<Rightarrow> Some k | None \<Rightarrow> map_of ls l)"
  by (induction ls arbitrary: b) (auto split: option.split)

lemma buildlabelToKindMap_spec:
  assumes "labelToKindMap b = []"
  shows "map_of (labelToKindMap (buildlabelToKindMap g b)) l =
    (case map_of (terminals g) l of Some k \<Rightarrow> Some k | None \<Rightarrow> map_of (nonterminals g) l)"
  using assms by (simp add: buildlabelToKindMap_def add_labels)

text \<open>
  Building from text with known labels: the graph has exactly the edges of the lines, with the kinds of the
  grammar, and their ends as nodes.
\<close>

lemma buildFromText_spec:
  assumes new: "labelToKindMap b = []"
    and lines: "\<forall>line \<in> set lines. \<not> blank line \<longrightarrow> (\<exists>e. line_edge (terminals g @ nonterminals g) line = Some e \<and> edgeFlag e < 2 ^ 32)"
  shows "\<exists>t. buildFromText flex g lines b = Some t \<and> cfl_ok (bd_graph t) \<and>
    set (cflEdgeSet (bd_graph t)) = text_edges (terminals g @ nonterminals g) lines \<and>
    set (cfl_nodes (bd_graph t)) = edge_ends (text_edges (terminals g @ nonterminals g) lines)"
proof -
  let ?b = "(buildlabelToKindMap g b)\<lparr>bd_graph := cfl_graph_new (startKind g)\<rparr>"
  let ?c = "?b\<lparr>bd_current := u32 (length (labelToKindMap ?b))\<rparr>" and ?m = "labelToKindMap (buildlabelToKindMap g b)"
  have m: "map_of ?m = map_of (terminals g @ nonterminals g)"
    using buildlabelToKindMap_spec [OF new, of g] by (intro ext) (simp add: map_add_def split: option.split)
  have e: "line_edge ?m line = line_edge (terminals g @ nonterminals g) line" for line
    by (simp add: line_edge_def m)
  have c: "cfl_ok (bd_graph ?c)" "labelToKindMap ?c = ?m" using cfl_ok_new by simp_all
  have "cflEdgeSet (bd_graph ?c) = []" "cfl_nodes (bd_graph ?c) = []" by (simp_all add: cfl_graph_new_def cfl_nodes_def)
  then show ?thesis
    using build_lines_spec [OF c, of lines flex] lines by (simp add: buildFromText_def Let_def e text_edges_def)
qed

text \<open>
  With the option for unknown labels, the first of them gets the number of labels, which EBNF signs do not
  count: it can be the kind of a symbol of the grammar. Here \<open>b\<close> becomes \<open>a\<close>.
\<close>

lemma flex_label_collides:
  "do {
     (_, g) \<leftarrow> insertSymbol ''*'' (cf_grammar_new 0);
     (_, g) \<leftarrow> insertSymbol ''a'' g;
     b \<leftarrow> buildFromText True g [''1'' @ [CHR 0x09] @ ''2'' @ [CHR 0x09] @ ''b''] (cfl_builder_new 0);
     Some (map_of (labelToKindMap b) ''a'', map_of (labelToKindMap b) ''b'')
   } = Some (Some 1, Some 1)"
  by (simp add: insertSymbol_def insertEBNFSigns_def insertTerminalSymbol_def insertTerminalKind_def insertNonTerminalSymbol_def
      extractKindStrFromSymbolStr_def extractAttributeStrFromSymbolStr_def mark_attribute_def with_attribute_def
      char_isalpha_def char_isupper_def char_isdigit_def char_isspace_def cf_grammar_new_def sym_of_num_def num_of_sym_def
      buildFromText_def buildlabelToKindMap_def add_label_def cfl_builder_new_def cfl_graph_new_def build_line_def
      line_fields_def stoi_signed_def node_id_def add_GNode_def build_edge_def addCFLEdge_def addCFLNode_def cfl_getGNode_def
      oset_insert_def cfl_node_new_def cfl_addOutgoingEdge_def addOutEdgeWithKind_def addIngoingEdge_def addInEdgeWithKind_def
      km_get_def u32_def Let_def of_char_def)

end
