(* ===== verification/CFLSamples.thy ===== *)
theory CFLSamples
  imports HybridSolve CFLBuild
begin

text \<open>
  A grammar and a graph on which the CFL solvers are compared: \<open>F \<rightarrow> a\<close>, \<open>F \<rightarrow> F F\<close> and a path
  of two edges \<open>a\<close>; and facts about the edge sets of all solvers.
\<close>

definition sym_a :: symbol where "sym_a = Symbol 2 0 0"
definition sym_F :: symbol where "sym_F = Symbol 1 0 0"

definition sample_names :: cf_grammar where
  "sample_names = (cf_grammar_new 3)\<lparr>terminals := [(''epsilon'', 0), (''a'', 2)], nonterminals := [(''F'', 1)]\<rparr>"

definition sample_grammar :: cf_grammar where
  "sample_grammar = sample_names\<lparr>singleRHSToProds := [(sym_a, [[sym_F, sym_a]])],
     firstRHSToProds := [(sym_F, [[sym_F, sym_F, sym_F]])], secondRHSToProds := [(sym_F, [[sym_F, sym_F, sym_F]])]\<rparr>"

lemma sample_names: "grammar_ok sample_names" "strToKind sample_names ''epsilon'' = Some 0"
  by (simp_all add: grammar_ok_def pair_prods_def sample_names_def cf_grammar_new_def getProdsFromSingleRHS_def
      getProdsFromFirstRHS_def getProdsFromSecondRHS_def strToKind_def)

lemma sample_sets:
  "eps_syms sample_grammar = {}" "single_prods sample_grammar = {(sym_F, sym_a)}" "pair_prods sample_grammar = {(sym_F, sym_F, sym_F)}"
  by (auto simp: eps_syms_def single_prods_def pair_prods_def getProdsFromSingleRHS_def getProdsFromFirstRHS_def
      sample_grammar_def sample_names_def cf_grammar_new_def getLHSSymbol_def getSecondRHSSymbol_def split: if_splits)

lemma sample_grammar_ok: "grammar_ok sample_grammar"
  using sample_sets(3)
  by (auto simp: grammar_ok_def getProdsFromSingleRHS_def getProdsFromFirstRHS_def getProdsFromSecondRHS_def
      sample_grammar_def sample_names_def cf_grammar_new_def getLHSSymbol_def getFirstRHSSymbol_def split: if_splits)

lemma sample_F: "strToSymbol sample_grammar ''F'' = Some sym_F"
  by (simp add: strToSymbol_def extractKindStrFromSymbolStr_def extractAttributeStrFromSymbolStr_def strToKind_def
      with_attribute_def sample_grammar_def sample_names_def cf_grammar_new_def sym_F_def)

text \<open>A raw production \<open>F_i \<rightarrow> a_i\<close>.\<close>

definition sample_raw :: cf_grammar where
  "sample_raw = sample_names\<lparr>rawProductions := [(Symbol 1 0 105, [[Symbol 2 0 105]])]\<rparr>"

lemma sample_raw: "grammar_ok sample_raw" "strToKind sample_raw ''epsilon'' = Some 0" "single_prods sample_raw = {}"
  by (simp_all add: grammar_ok_def pair_prods_def single_prods_def sample_raw_def sample_names_def cf_grammar_new_def
      getProdsFromSingleRHS_def getProdsFromFirstRHS_def getProdsFromSecondRHS_def strToKind_def)

lemma sample_raw_rules: "raw_rules sample_raw = {[Symbol 1 0 105, Symbol 2 0 105]}"
  by (simp add: raw_rules_def sample_raw_def)

lemma sample_instances: "instances {7} [Symbol 1 0 105, Symbol 2 0 105] = {[Symbol 1 7 0, Symbol 2 7 0]}"
proof -
  have "variables [Symbol 1 0 105, Symbol 2 0 105] = {105}" by (auto simp: variables_def)
  then show ?thesis by (auto simp: instances_def subst_symbol_def intro!: exI [of _ "\<lambda>_. 7"])
qed

text \<open>Graphs from lists of nodes and edges.\<close>

definition graph_of :: "NodeID list \<Rightarrow> sym_edge list \<Rightarrow> cfl_graph" where
  "graph_of ns es = the (ofold (\<lambda>(X, i, j) G. do { (_, G) \<leftarrow> addCFLEdge G i j (num_of_sym X); Some G }) es
     (fold (\<lambda>i. addCFLNode i cfl_node_new) ns (cfl_graph_new 0)))"

lemma graph_of_spec:
  assumes "distinct ns" "\<forall>(X, i, j) \<in> set es. i \<in> set ns \<and> j \<in> set ns"
  shows "cfl_ok (graph_of ns es)" "set (cfl_nodes (graph_of ns es)) = set ns" "sym_edges (graph_of ns es) = set es"
proof -
  have ns: "distinct ns \<Longrightarrow> cfl_ok G \<Longrightarrow> set ns \<inter> set (cfl_nodes G) = {} \<Longrightarrow>
      cfl_ok (fold (\<lambda>i. addCFLNode i cfl_node_new) ns G) \<and>
      set (cfl_nodes (fold (\<lambda>i. addCFLNode i cfl_node_new) ns G)) = set ns \<union> set (cfl_nodes G) \<and>
      cflEdgeSet (fold (\<lambda>i. addCFLNode i cfl_node_new) ns G) = cflEdgeSet G" for G ns
  proof (induction ns arbitrary: G)
    case (Cons i ns)
    note n = addCFLNode_spec [OF Cons.prems(2), of i]
    show ?case using Cons.IH [OF _ n(1)] Cons.prems n by auto
  qed simp
  have es: "cfl_ok G \<Longrightarrow> \<forall>(X, i, j) \<in> set es. i \<in> set (cfl_nodes G) \<and> j \<in> set (cfl_nodes G) \<Longrightarrow>
      \<exists>H. ofold (\<lambda>(X, i, j) G. do { (_, G) \<leftarrow> addCFLEdge G i j (num_of_sym X); Some G }) es G = Some H \<and> cfl_ok H \<and>
        cfl_nodes H = cfl_nodes G \<and> sym_edges H = set es \<union> sym_edges G" for G es
  proof (induction es arbitrary: G)
    case (Cons e es)
    obtain X i j where e: "e = (X, i, j)" by (cases e)
    obtain H b where H: "addCFLEdge G i j (num_of_sym X) = Some (b, H)" "cfl_ok H" "cfl_nodes H = cfl_nodes G"
        "set (cflEdgeSet H) = insert (GEdge (num_of_sym X) i j) (set (cflEdgeSet G))"
      using addCFLEdge_spec [OF Cons.prems(1) _ _ num_of_sym_bound, of i j X] Cons.prems(2) e by auto
    have "sym_edges H = insert (X, i, j) (sym_edges G)" by (simp add: sym_edges_def H(4))
    then show ?case using Cons.IH [OF H(2)] Cons.prems(2) H(1,3) e by auto
  qed simp
  let ?G = "fold (\<lambda>i. addCFLNode i cfl_node_new) ns (cfl_graph_new 0)"
  have G: "cfl_ok ?G" "set (cfl_nodes ?G) = set ns" "cflEdgeSet ?G = []"
    using ns [of ns "cfl_graph_new 0"] assms(1) cfl_ok_new [of 0] by (simp_all add: cfl_nodes_def cfl_graph_new_def)
  obtain H where "ofold (\<lambda>(X, i, j) G. do { (_, G) \<leftarrow> addCFLEdge G i j (num_of_sym X); Some G }) es ?G = Some H" "cfl_ok H"
      "cfl_nodes H = cfl_nodes ?G" "sym_edges H = set es \<union> sym_edges ?G"
    using es [OF G(1), of es] assms(2) G(2) by auto
  then show "cfl_ok (graph_of ns es)" "set (cfl_nodes (graph_of ns es)) = set ns" "sym_edges (graph_of ns es) = set es"
    using G by (simp_all add: graph_of_def sym_edges_def)
qed

definition sample_path :: cfl_graph where
  "sample_path = graph_of [0, 1, 2] [(sym_a, 0, 1), (sym_a, 1, 2)]"

lemma sample_path: "cfl_ok sample_path" "set (cfl_nodes sample_path) = {0, 1, 2}"
  "sym_edges sample_path = {(sym_a, 0, 1), (sym_a, 1, 2)}" "\<forall>i \<in> set (cfl_nodes sample_path). i < 2 ^ 32"
  using graph_of_spec [of "[0, 1, 2]" "[(sym_a, 0, 1), (sym_a, 1, 2)]"] by (simp_all add: sample_path_def)

section \<open>Edge sets\<close>

lemma sources_sym_edges: "getSrcID ` set (cflEdgeSet G) = (\<lambda>(X, i, j). i) ` sym_edges G"
  by (simp add: sym_edges_def image_image)

lemma hasEdge_sym: "cfl_ok G \<Longrightarrow> cfl_hasEdge G i j (num_of_sym X) \<longleftrightarrow> (X, i, j) \<in> sym_edges G"
  by (simp add: cfl_hasEdge_def sym_edges_mem)

lemma edge_by_symbol:
  assumes "cfl_ok K"
  shows "e \<in> set (cflEdgeSet K) \<longleftrightarrow> edgeFlag e < 2 ^ 32 \<and> (edge_symbol e, getSrcID e, getDstID e) \<in> sym_edges K"
proof (cases "edgeFlag e < 2 ^ 32")
  case True
  then have "e = GEdge (num_of_sym (edge_symbol e)) (getSrcID e) (getDstID e)"
    by (cases e) (simp add: edge_symbol_def u32_id num_of_sym_of_num)
  then show ?thesis using sym_edges_mem [OF assms] True by metis
next
  case False
  then show ?thesis using assms by (auto simp: cfl_ok_def)
qed

lemma edges_of_sym_edges:
  assumes "cfl_ok G" "cfl_ok H" "sym_edges G \<subseteq> sym_edges H" shows "set (cflEdgeSet G) \<subseteq> set (cflEdgeSet H)"
  using assms edge_by_symbol by blast

lemma same_edges:
  assumes "cfl_ok G" "cfl_ok H" "sym_edges G = sym_edges H" shows "cflEdgeSet G = cflEdgeSet H"
proof -
  have "set (cflEdgeSet G) = set (cflEdgeSet H)"
    using edges_of_sym_edges [OF assms(1,2)] edges_of_sym_edges [OF assms(2,1)] assms(3) by blast
  then show ?thesis using assms(1,2) oset_unique by (auto simp: cfl_ok_def)
qed

lemma ends_in_sym_edges: "cfl_ok G \<Longrightarrow> ends_in (set (cfl_nodes G)) (sym_edges G)"
  using sym_edges_nodes by (auto simp: ends_in_def)

text \<open>More nodes for the empty word reach more; without empty words the nodes do not matter.\<close>

lemma cfl_reach_mono: "cfl_reach g N E X i j \<Longrightarrow> N \<subseteq> M \<Longrightarrow> cfl_reach g M E X i j"
  by (induction rule: cfl_reach.induct) (auto intro: cfl_reach.intros)

lemma cfl_reach_no_eps: "cfl_reach g N E X i j \<Longrightarrow> eps_syms g = {} \<Longrightarrow> cfl_reach g M E X i j"
  by (induction rule: cfl_reach.induct) (auto intro: cfl_reach.intros)

end
