(* ===== verification/SCCDetect.thy ===== *)
theory SCCDetect
  imports GenGraph KeyMaps BitVectors
begin

text \<open>
  Detection of strongly connected components (\<open>SCCDetection\<close> of svf/include/Graphs/SCC.h): one depth-first
  search with a stack of nodes whose component is still open. A graph is its list of nodes and, for every node,
  the targets of its direct edges in the order of iteration.
\<close>

section \<open>State\<close>

record scc_graph =
  sg_nodes :: "NodeID list"
  sg_child :: "NodeID \<Rightarrow> NodeID list option"

record scc_info =
  in_visited :: bool
  in_inSCC :: bool
  in_rep :: NodeID
  in_sub :: sbv

definition scc_info_new :: scc_info where
  "scc_info_new = \<lparr>in_visited = False, in_inSCC = False, in_rep = UINT_MAX, in_sub = sbv_new\<rparr>"

record scc_state =
  NodeSCCAuxInfo :: "(NodeID \<times> scc_info) list"
  scc_I :: nat
  scc_D :: "(NodeID \<times> nat) list"
  scc_SS :: "NodeID list"
  scc_T :: "NodeID list"
  scc_repNodes :: sbv

definition scc_new :: scc_state where
  "scc_new = \<lparr>NodeSCCAuxInfo = [], scc_I = 0, scc_D = [], scc_SS = [], scc_T = [], scc_repNodes = sbv_new\<rparr>"

definition scc_info_of :: "NodeID \<Rightarrow> scc_state \<Rightarrow> scc_info" where
  "scc_info_of n st = km_get scc_info_new (NodeSCCAuxInfo st) n"

definition set_info :: "NodeID \<Rightarrow> scc_info \<Rightarrow> scc_state \<Rightarrow> scc_state" where
  "set_info n i st = st\<lparr>NodeSCCAuxInfo := AList.update n i (NodeSCCAuxInfo st)\<rparr>"

definition scc_visited :: "NodeID \<Rightarrow> scc_state \<Rightarrow> bool" where
  "scc_visited n st = in_visited (scc_info_of n st)"

definition scc_inSCC :: "NodeID \<Rightarrow> scc_state \<Rightarrow> bool" where
  "scc_inSCC n st = in_inSCC (scc_info_of n st)"

definition setVisited :: "NodeID \<Rightarrow> bool \<Rightarrow> scc_state \<Rightarrow> scc_state" where
  "setVisited n v st = set_info n ((scc_info_of n st)\<lparr>in_visited := v\<rparr>) st"

definition setInSCC :: "NodeID \<Rightarrow> bool \<Rightarrow> scc_state \<Rightarrow> scc_state" where
  "setInSCC n v st = set_info n ((scc_info_of n st)\<lparr>in_inSCC := v\<rparr>) st"

definition get_rep :: "NodeID \<Rightarrow> scc_state \<Rightarrow> NodeID" where
  "get_rep n st = in_rep (scc_info_of n st)"

definition set_rep :: "NodeID \<Rightarrow> NodeID \<Rightarrow> scc_state \<Rightarrow> scc_state" where
  "set_rep n r st =
     (let st = set_info n ((scc_info_of n st)\<lparr>in_rep := r\<rparr>) st;
          st = set_info r ((scc_info_of r st)\<lparr>in_sub := sbv_set (in_sub (scc_info_of r st)) n\<rparr>) st
      in if n \<noteq> r then
           let st = set_info n ((scc_info_of n st)\<lparr>in_sub := sbv_clear (in_sub (scc_info_of n st))\<rparr>) st
           in st\<lparr>scc_repNodes := sbv_set (sbv_reset (scc_repNodes st) n) r\<rparr>
         else st)"

definition scc_num :: "NodeID \<Rightarrow> scc_state \<Rightarrow> nat" where
  "scc_num n st = km_get 0 (scc_D st) n"

section \<open>The search\<close>

definition scc_start :: "NodeID \<Rightarrow> scc_state \<Rightarrow> scc_state" where
  "scc_start v st =
     (let st = st\<lparr>scc_I := u32 (scc_I st + 1)\<rparr>;
          st = st\<lparr>scc_D := AList.update v (scc_I st) (scc_D st)\<rparr>;
          st = set_rep v v st
      in setVisited v True st)"

definition scc_update :: "NodeID \<Rightarrow> NodeID \<Rightarrow> scc_state \<Rightarrow> scc_state" where
  "scc_update v w st =
     (if \<not> scc_inSCC w st
      then let r = (if scc_num (get_rep v st) st < scc_num (get_rep w st) st then get_rep v st else get_rep w st)
           in set_rep v r st
      else st)"

fun scc_pop :: "NodeID \<Rightarrow> NodeID list \<Rightarrow> scc_state \<Rightarrow> scc_state" where
  "scc_pop v [] st = st\<lparr>scc_SS := []\<rparr>"
| "scc_pop v (w # ss) st =
     (if scc_num w st \<le> scc_num v st then st\<lparr>scc_SS := w # ss\<rparr>
      else scc_pop v ss (set_rep w v (setInSCC w True (st\<lparr>scc_SS := ss\<rparr>))))"

definition scc_finish :: "NodeID \<Rightarrow> scc_state \<Rightarrow> scc_state" where
  "scc_finish v st =
     (if get_rep v st = v
      then let st = setInSCC v True st;
               st = scc_pop v (scc_SS st) st
           in st\<lparr>scc_T := v # scc_T st\<rparr>
      else st\<lparr>scc_SS := v # scc_SS st\<rparr>)"

partial_function (option) scc_visit :: "scc_graph \<Rightarrow> NodeID \<Rightarrow> scc_state \<Rightarrow> scc_state option" where
  "scc_visit G v st = do {
     let st = scc_start v st;
     ws \<leftarrow> sg_child G v;
     st \<leftarrow> ofold (\<lambda>w st. do {
         st \<leftarrow> (if \<not> scc_visited w st then scc_visit G w st else Some st);
         Some (scc_update v w st)
       }) ws st;
     Some (scc_finish v st)
   }"

text \<open>
  \<open>find\<close> clears the state and visits the nodes, or the given candidates; a node that is not visited but has
  another representative would be skipped.
\<close>

definition scc_find_nodes :: "scc_graph \<Rightarrow> NodeID list \<Rightarrow> scc_state option" where
  "scc_find_nodes G ns = ofold (\<lambda>n st.
     if \<not> scc_visited n st
     then if get_rep n st = UINT_MAX \<or> get_rep n st = n then scc_visit G n st else Some st
     else Some st) ns scc_new"

definition scc_find :: "scc_graph \<Rightarrow> scc_state option" where
  "scc_find G = scc_find_nodes G (sg_nodes G)"

section \<open>Queries\<close>

definition repNode :: "NodeID \<Rightarrow> scc_state \<Rightarrow> NodeID option" where
  "repNode n st = do { i \<leftarrow> map_of (NodeSCCAuxInfo st) n; Some (if in_rep i \<noteq> UINT_MAX then in_rep i else n) }"

definition subNodes :: "NodeID \<Rightarrow> scc_state \<Rightarrow> sbv option" where
  "subNodes n st = map_option in_sub (map_of (NodeSCCAuxInfo st) n)"

definition isInCycle :: "scc_graph \<Rightarrow> NodeID \<Rightarrow> scc_state \<Rightarrow> bool option" where
  "isInCycle G n st = do {
     r \<leftarrow> repNode n st;
     s \<leftarrow> subNodes r st;
     if sbv_count s > 1 then Some True else do { ws \<leftarrow> sg_child G r; Some (r \<in> set ws) }
   }"

section \<open>What the steps change\<close>

text \<open>The state as sets and functions.\<close>

definition scc_V :: "scc_state \<Rightarrow> NodeID set" where "scc_V st = {n. scc_visited n st}"
definition scc_C :: "scc_state \<Rightarrow> NodeID set" where "scc_C st = {n. scc_inSCC n st}"
definition scc_sub :: "scc_state \<Rightarrow> NodeID \<Rightarrow> NodeID set" where "scc_sub st n = sbv_bits (in_sub (scc_info_of n st))"
definition scc_R :: "scc_state \<Rightarrow> NodeID set" where "scc_R st = sbv_bits (scc_repNodes st)"

definition scc_bits_ok :: "scc_state \<Rightarrow> bool" where
  "scc_bits_ok st \<longleftrightarrow> (\<forall>n. sbv_inv (in_sub (scc_info_of n st))) \<and> sbv_inv (scc_repNodes st)"

lemma scc_info_set [simp]: "scc_info_of m (set_info n i st) = (if m = n then i else scc_info_of m st)"
  by (simp add: scc_info_of_def set_info_def)

lemma set_info_fields [simp]:
  "scc_I (set_info n i st) = scc_I st" "scc_D (set_info n i st) = scc_D st" "scc_SS (set_info n i st) = scc_SS st"
  "scc_T (set_info n i st) = scc_T st" "scc_repNodes (set_info n i st) = scc_repNodes st"
  by (simp_all add: set_info_def)

lemma scc_info_other [simp]:
  "scc_info_of m (st\<lparr>scc_I := a\<rparr>) = scc_info_of m st" "scc_info_of m (st\<lparr>scc_D := b\<rparr>) = scc_info_of m st"
  "scc_info_of m (st\<lparr>scc_SS := c\<rparr>) = scc_info_of m st" "scc_info_of m (st\<lparr>scc_T := c\<rparr>) = scc_info_of m st"
  "scc_info_of m (st\<lparr>scc_repNodes := d\<rparr>) = scc_info_of m st"
  by (simp_all add: scc_info_of_def)

text \<open>Setting a flag.\<close>

lemma setVisited_views [simp]:
  "scc_V (setVisited n True st) = insert n (scc_V st)" "scc_C (setVisited n b st) = scc_C st"
  "get_rep m (setVisited n b st) = get_rep m st" "scc_sub (setVisited n b st) = scc_sub st" "scc_R (setVisited n b st) = scc_R st"
  "scc_num m (setVisited n b st) = scc_num m st" "scc_SS (setVisited n b st) = scc_SS st" "scc_T (setVisited n b st) = scc_T st"
  "scc_I (setVisited n b st) = scc_I st" "scc_bits_ok (setVisited n b st) = scc_bits_ok st"
  by (auto simp: setVisited_def scc_V_def scc_C_def scc_visited_def scc_inSCC_def get_rep_def scc_sub_def scc_R_def scc_num_def
      scc_bits_ok_def fun_eq_iff)

lemma setInSCC_views [simp]:
  "scc_V (setInSCC n b st) = scc_V st" "scc_C (setInSCC n True st) = insert n (scc_C st)"
  "get_rep m (setInSCC n b st) = get_rep m st" "scc_sub (setInSCC n b st) = scc_sub st" "scc_R (setInSCC n b st) = scc_R st"
  "scc_num m (setInSCC n b st) = scc_num m st" "scc_SS (setInSCC n b st) = scc_SS st" "scc_T (setInSCC n b st) = scc_T st"
  "scc_I (setInSCC n b st) = scc_I st" "scc_bits_ok (setInSCC n b st) = scc_bits_ok st"
  by (auto simp: setInSCC_def scc_V_def scc_C_def scc_visited_def scc_inSCC_def get_rep_def scc_sub_def scc_R_def scc_num_def
      scc_bits_ok_def fun_eq_iff)

text \<open>Setting a representative.\<close>

lemma set_rep_views [simp]:
  "scc_V (set_rep n r st) = scc_V st" "scc_C (set_rep n r st) = scc_C st"
  "get_rep m (set_rep n r st) = (if m = n then r else get_rep m st)"
  "scc_num m (set_rep n r st) = scc_num m st" "scc_SS (set_rep n r st) = scc_SS st" "scc_T (set_rep n r st) = scc_T st"
  "scc_I (set_rep n r st) = scc_I st"
  by (auto simp: set_rep_def scc_V_def scc_C_def scc_visited_def scc_inSCC_def get_rep_def scc_num_def Let_def)

lemma set_rep_bits:
  assumes ok: "scc_bits_ok st" and small: "n < 2 ^ 32" "r < 2 ^ 32"
  shows "scc_bits_ok (set_rep n r st)"
    "scc_sub (set_rep n r st) m = (if m = r then insert n (scc_sub st r) else if m = n then {} else scc_sub st m)"
    "scc_R (set_rep n r st) = (if n \<noteq> r then insert r (scc_R st - {n}) else scc_R st)"
proof -
  have i: "sbv_inv (in_sub (scc_info_of k st))" "sbv_inv (scc_repNodes st)" for k using ok by (simp_all add: scc_bits_ok_def)
  have res: "sbv_inv (sbv_reset (scc_repNodes st) n)" "sbv_bits (sbv_reset (scc_repNodes st) n) = scc_R st - {n}"
    using sv.reset_law [OF i(2)] by (simp_all add: scc_R_def)
  note s1 = sbv_set_spec [OF i(1) small(1)] and s2 = sbv_set_spec [OF res(1) small(2)]
  show "scc_bits_ok (set_rep n r st)" using i s1 s2 sbv_clear_spec by (auto simp: scc_bits_ok_def set_rep_def Let_def)
  show "scc_sub (set_rep n r st) m = (if m = r then insert n (scc_sub st r) else if m = n then {} else scc_sub st m)"
    using s1 sbv_clear_spec by (auto simp: scc_sub_def set_rep_def Let_def)
  show "scc_R (set_rep n r st) = (if n \<noteq> r then insert r (scc_R st - {n}) else scc_R st)"
    using s2 res(2) by (auto simp: scc_R_def set_rep_def Let_def)
qed

lemma scc_stack_views [simp]:
  "scc_V (st\<lparr>scc_SS := c\<rparr>) = scc_V st" "scc_C (st\<lparr>scc_SS := c\<rparr>) = scc_C st" "get_rep m (st\<lparr>scc_SS := c\<rparr>) = get_rep m st"
  "scc_sub (st\<lparr>scc_SS := c\<rparr>) = scc_sub st" "scc_R (st\<lparr>scc_SS := c\<rparr>) = scc_R st" "scc_num m (st\<lparr>scc_SS := c\<rparr>) = scc_num m st"
  "scc_bits_ok (st\<lparr>scc_SS := c\<rparr>) = scc_bits_ok st"
  "scc_V (st\<lparr>scc_T := c\<rparr>) = scc_V st" "scc_C (st\<lparr>scc_T := c\<rparr>) = scc_C st" "get_rep m (st\<lparr>scc_T := c\<rparr>) = get_rep m st"
  "scc_sub (st\<lparr>scc_T := c\<rparr>) = scc_sub st" "scc_R (st\<lparr>scc_T := c\<rparr>) = scc_R st" "scc_num m (st\<lparr>scc_T := c\<rparr>) = scc_num m st"
  "scc_bits_ok (st\<lparr>scc_T := c\<rparr>) = scc_bits_ok st"
  by (auto simp: scc_V_def scc_C_def scc_visited_def scc_inSCC_def get_rep_def scc_sub_def scc_R_def scc_num_def
      scc_bits_ok_def fun_eq_iff)

end
