(* ===== verification/SCCSpec.thy ===== *)
theory SCCSpec
  imports SCCDetect
begin

text \<open>
  The search finds the strongly connected components. The proof follows the search: nodes that are visited and
  have no component yet are active; they are the nodes on the call path and those on the stack.
\<close>

section \<open>Graphs\<close>

definition scc_nodes :: "scc_graph \<Rightarrow> NodeID set" where
  "scc_nodes G = {n. sg_child G n \<noteq> None}"

definition sedge :: "scc_graph \<Rightarrow> NodeID \<Rightarrow> NodeID \<Rightarrow> bool" where
  "sedge G v w \<longleftrightarrow> (\<exists>ws. sg_child G v = Some ws \<and> w \<in> set ws)"

abbreviation sreach :: "scc_graph \<Rightarrow> NodeID \<Rightarrow> NodeID \<Rightarrow> bool" where
  "sreach G \<equiv> (sedge G)\<^sup>*\<^sup>*"

definition scc_graph_ok :: "scc_graph \<Rightarrow> bool" where
  "scc_graph_ok G \<longleftrightarrow> finite (scc_nodes G) \<and> (\<forall>v w. sedge G v w \<longrightarrow> w \<in> scc_nodes G) \<and>
     (\<forall>n \<in> scc_nodes G. n < UINT_MAX) \<and> set (sg_nodes G) \<subseteq> scc_nodes G"

lemma scc_small: "scc_graph_ok G \<Longrightarrow> n \<in> scc_nodes G \<Longrightarrow> n < 2 ^ 32"
  by (fastforce simp: scc_graph_ok_def UINT_MAX_def)

lemma scc_card: "scc_graph_ok G \<Longrightarrow> V \<subseteq> scc_nodes G \<Longrightarrow> card V < 2 ^ 32"
proof -
  assume ok: "scc_graph_ok G" and V: "V \<subseteq> scc_nodes G"
  then have "V \<subseteq> {..< UINT_MAX}" by (auto simp: scc_graph_ok_def)
  then have "card V \<le> card {..< UINT_MAX}" by (intro card_mono) simp_all
  then show ?thesis by (simp add: UINT_MAX_def)
qed

section \<open>The invariant\<close>

definition scc_A :: "scc_state \<Rightarrow> NodeID set" where
  "scc_A st = scc_V st - scc_C st"

definition scc_core :: "scc_graph \<Rightarrow> NodeID set \<Rightarrow> scc_state \<Rightarrow> bool" where
  "scc_core G g st \<longleftrightarrow>
     scc_bits_ok st \<and> scc_V st \<subseteq> scc_nodes G \<and> scc_C st \<subseteq> scc_V st \<and> scc_I st = card (scc_V st) \<and>
     (\<forall>x \<in> scc_V st. 1 \<le> scc_num x st \<and> scc_num x st \<le> scc_I st) \<and> inj_on (\<lambda>x. scc_num x st) (scc_V st) \<and>
     scc_A st = g \<union> set (scc_SS st) \<and> g \<inter> set (scc_SS st) = {} \<and>
     (\<forall>x \<in> scc_C st. \<forall>w. sedge G x w \<longrightarrow> w \<in> scc_C st) \<and>
     (\<forall>x \<in> scc_V st - g. \<forall>w. sedge G x w \<longrightarrow> w \<in> scc_V st) \<and>
     (\<forall>x \<in> scc_A st. \<forall>y \<in> scc_A st. scc_num x st \<le> scc_num y st \<longrightarrow> sreach G x y) \<and>
     (\<forall>y \<in> scc_A st. \<exists>x \<in> g. scc_num x st \<le> scc_num y st \<and> sreach G y x) \<and>
     (\<forall>y \<in> scc_A st. get_rep y st \<in> scc_A st \<and> scc_num (get_rep y st) st \<le> scc_num y st \<and> sreach G y (get_rep y st)) \<and>
     (\<forall>y \<in> set (scc_SS st). scc_num (get_rep y st) st < scc_num y st) \<and>
     (\<forall>x \<in> scc_C st. get_rep x st \<in> scc_C st \<and> get_rep (get_rep x st) st = get_rep x st \<and>
        (\<forall>y. sreach G x y \<and> sreach G y x \<longleftrightarrow> y \<in> scc_C st \<and> get_rep y st = get_rep x st))"

lemma scc_coreD:
  assumes "scc_core G g st"
  shows "scc_bits_ok st" "scc_V st \<subseteq> scc_nodes G" "scc_C st \<subseteq> scc_V st" "scc_I st = card (scc_V st)"
    "\<And>x. x \<in> scc_V st \<Longrightarrow> 1 \<le> scc_num x st \<and> scc_num x st \<le> scc_I st" "inj_on (\<lambda>x. scc_num x st) (scc_V st)"
    "scc_A st = g \<union> set (scc_SS st)" "g \<inter> set (scc_SS st) = {}"
    "\<And>x w. x \<in> scc_C st \<Longrightarrow> sedge G x w \<Longrightarrow> w \<in> scc_C st"
    "\<And>x w. x \<in> scc_V st \<Longrightarrow> x \<notin> g \<Longrightarrow> sedge G x w \<Longrightarrow> w \<in> scc_V st"
    "\<And>x y. x \<in> scc_A st \<Longrightarrow> y \<in> scc_A st \<Longrightarrow> scc_num x st \<le> scc_num y st \<Longrightarrow> sreach G x y"
    "\<And>y. y \<in> scc_A st \<Longrightarrow> \<exists>x \<in> g. scc_num x st \<le> scc_num y st \<and> sreach G y x"
    "\<And>y. y \<in> scc_A st \<Longrightarrow> get_rep y st \<in> scc_A st \<and> scc_num (get_rep y st) st \<le> scc_num y st \<and> sreach G y (get_rep y st)"
    "\<And>y. y \<in> set (scc_SS st) \<Longrightarrow> scc_num (get_rep y st) st < scc_num y st"
    "\<And>x. x \<in> scc_C st \<Longrightarrow> get_rep x st \<in> scc_C st \<and> get_rep (get_rep x st) st = get_rep x st \<and>
        (\<forall>y. sreach G x y \<and> sreach G y x \<longleftrightarrow> y \<in> scc_C st \<and> get_rep y st = get_rep x st)"
proof -
  note a = assms [unfolded scc_core_def]
  note a2 = a [THEN conjunct2]
  note a3 = a2 [THEN conjunct2]
  note a4 = a3 [THEN conjunct2]
  note a5 = a4 [THEN conjunct2]
  note a6 = a5 [THEN conjunct2]
  note a7 = a6 [THEN conjunct2]
  note a8 = a7 [THEN conjunct2]
  note a9 = a8 [THEN conjunct2]
  note a10 = a9 [THEN conjunct2]
  note a11 = a10 [THEN conjunct2]
  note a12 = a11 [THEN conjunct2]
  note a13 = a12 [THEN conjunct2]
  note a14 = a13 [THEN conjunct2]
  note a15 = a14 [THEN conjunct2]
  show "scc_bits_ok st" by (rule a [THEN conjunct1])
  show "scc_V st \<subseteq> scc_nodes G" by (rule a2 [THEN conjunct1])
  show "scc_C st \<subseteq> scc_V st" by (rule a3 [THEN conjunct1])
  show "scc_I st = card (scc_V st)" by (rule a4 [THEN conjunct1])
  show "\<And>x. x \<in> scc_V st \<Longrightarrow> 1 \<le> scc_num x st \<and> scc_num x st \<le> scc_I st"
    using a5 [THEN conjunct1] by blast
  show "inj_on (\<lambda>x. scc_num x st) (scc_V st)" by (rule a6 [THEN conjunct1])
  show "scc_A st = g \<union> set (scc_SS st)" by (rule a7 [THEN conjunct1])
  show "g \<inter> set (scc_SS st) = {}" by (rule a8 [THEN conjunct1])
  show "\<And>x w. x \<in> scc_C st \<Longrightarrow> sedge G x w \<Longrightarrow> w \<in> scc_C st"
    using a9 [THEN conjunct1] by blast
  show "\<And>x w. x \<in> scc_V st \<Longrightarrow> x \<notin> g \<Longrightarrow> sedge G x w \<Longrightarrow> w \<in> scc_V st"
    using a10 [THEN conjunct1] by blast
  show "\<And>x y. x \<in> scc_A st \<Longrightarrow> y \<in> scc_A st \<Longrightarrow> scc_num x st \<le> scc_num y st \<Longrightarrow> sreach G x y"
    using a11 [THEN conjunct1] by blast
  show "\<And>y. y \<in> scc_A st \<Longrightarrow> \<exists>x \<in> g. scc_num x st \<le> scc_num y st \<and> sreach G y x"
    using a12 [THEN conjunct1] by blast
  show "\<And>y. y \<in> scc_A st \<Longrightarrow> get_rep y st \<in> scc_A st \<and> scc_num (get_rep y st) st \<le> scc_num y st \<and> sreach G y (get_rep y st)"
    using a13 [THEN conjunct1] by blast
  show "\<And>y. y \<in> set (scc_SS st) \<Longrightarrow> scc_num (get_rep y st) st < scc_num y st"
    using a14 [THEN conjunct1] by blast
  show "\<And>x. x \<in> scc_C st \<Longrightarrow> get_rep x st \<in> scc_C st \<and> get_rep (get_rep x st) st = get_rep x st \<and>
        (\<forall>y. sreach G x y \<and> sreach G y x \<longleftrightarrow> y \<in> scc_C st \<and> get_rep y st = get_rep x st)"
    using a15 by blast
qed

text \<open>Reachability stays in closed sets.\<close>

lemma closed_reach: "sreach G x y \<Longrightarrow> x \<in> S \<Longrightarrow> (\<And>a b. a \<in> S \<Longrightarrow> sedge G a b \<Longrightarrow> b \<in> S) \<Longrightarrow> y \<in> S"
  by (induction rule: rtranclp_induct) auto

section \<open>Starting a node\<close>

lemma scc_start_views:
  assumes "scc_bits_ok st" "v < 2 ^ 32"
  shows "scc_V (scc_start v st) = insert v (scc_V st)" "scc_C (scc_start v st) = scc_C st"
    "get_rep m (scc_start v st) = (if m = v then v else get_rep m st)"
    "scc_num m (scc_start v st) = (if m = v then u32 (scc_I st + 1) else scc_num m st)"
    "scc_SS (scc_start v st) = scc_SS st" "scc_T (scc_start v st) = scc_T st" "scc_I (scc_start v st) = u32 (scc_I st + 1)"
    "scc_bits_ok (scc_start v st)"
    "scc_sub (scc_start v st) m = (if m = v then insert v (scc_sub st v) else scc_sub st m)" "scc_R (scc_start v st) = scc_R st"
proof -
  define i' where "i' = u32 (scc_I st + 1)"
  let ?s = "st\<lparr>scc_I := i', scc_D := AList.update v i' (scc_D st)\<rparr>"
  have s: "scc_start v st = setVisited v True (set_rep v v ?s)" by (simp add: scc_start_def Let_def i'_def)
  have i: "scc_info_of k ?s = scc_info_of k st" for k by (simp add: scc_info_of_def)
  have b: "scc_bits_ok ?s" using assms(1) by (simp add: scc_bits_ok_def i)
  have w: "scc_V ?s = scc_V st" "scc_C ?s = scc_C st" "get_rep m ?s = get_rep m st" "scc_sub ?s k = scc_sub st k" "scc_R ?s = scc_R st"
    "scc_num m ?s = (if m = v then i' else scc_num m st)" for m k
    by (simp_all add: scc_V_def scc_C_def scc_visited_def scc_inSCC_def get_rep_def scc_sub_def scc_R_def scc_num_def i)
  note r = set_rep_bits [OF b assms(2,2)]
  show "scc_V (scc_start v st) = insert v (scc_V st)" "scc_C (scc_start v st) = scc_C st"
    "get_rep m (scc_start v st) = (if m = v then v else get_rep m st)"
    "scc_num m (scc_start v st) = (if m = v then u32 (scc_I st + 1) else scc_num m st)"
    "scc_SS (scc_start v st) = scc_SS st" "scc_T (scc_start v st) = scc_T st" "scc_I (scc_start v st) = u32 (scc_I st + 1)"
    "scc_bits_ok (scc_start v st)"
    "scc_sub (scc_start v st) m = (if m = v then insert v (scc_sub st v) else scc_sub st m)" "scc_R (scc_start v st) = scc_R st"
    unfolding i'_def [symmetric] s using r(1) by (simp_all add: w r(2,3))
qed

lemma scc_start_core:
  assumes G: "scc_graph_ok G" and core: "scc_core G g st" and v: "v \<in> scc_nodes G" "v \<notin> scc_V st"
    and reach: "\<And>x. x \<in> g \<Longrightarrow> sreach G x v"
  shows "scc_core G (insert v g) (scc_start v st)" "scc_num v (scc_start v st) = scc_I st + 1"
proof -
  note c = scc_coreD [OF core]
  let ?s = "scc_start v st"
  note w = scc_start_views [OF c(1) scc_small [OF G v(1)]]
  have fin: "finite (scc_V st)" using G c(2) by (meson finite_subset scc_graph_ok_def)
  have card: "card (insert v (scc_V st)) = scc_I st + 1" using fin v(2) c(4) by simp
  have "scc_I st + 1 < 2 ^ 32" using scc_card [OF G, of "insert v (scc_V st)"] c(2) v(1) card by simp
  then have u: "u32 (Suc (scc_I st)) = Suc (scc_I st)" by (simp add: u32_id)
  show n: "scc_num v ?s = scc_I st + 1" by (simp add: w u)
  have A: "scc_A ?s = insert v (scc_A st)" using v(2) c(3) by (auto simp: scc_A_def w)
  have old: "scc_num x st \<le> scc_I st" "x \<noteq> v" if "x \<in> scc_A st" for x
    using that c(5) v(2) by (auto simp: scc_A_def)
  have to_v: "sreach G x v" if "x \<in> scc_A st" for x
    using c(12) [OF that] reach by (meson rtranclp_trans)
  show "scc_core G (insert v g) ?s"
    unfolding scc_core_def A
  proof (intro conjI)
    show "scc_bits_ok ?s" "scc_V ?s \<subseteq> scc_nodes G" "scc_C ?s \<subseteq> scc_V ?s" "scc_I ?s = card (scc_V ?s)"
      using c(2,3) v(1) card u by (auto simp: w)
    show "\<forall>x \<in> scc_V ?s. 1 \<le> scc_num x ?s \<and> scc_num x ?s \<le> scc_I ?s"
      using c(5) by (auto simp: w(1,4,7) u intro: le_SucI)
    show "inj_on (\<lambda>x. scc_num x ?s) (scc_V ?s)"
    proof (rule inj_onI)
      fix x y assume "x \<in> scc_V ?s" "y \<in> scc_V ?s" "scc_num x ?s = scc_num y ?s"
      then show "x = y" using c(5) [of x] c(5) [of y] c(6) by (auto simp: w(1,4) u inj_on_def split: if_splits)
    qed
    show "insert v (scc_A st) = insert v g \<union> set (scc_SS ?s)" using c(7) by (simp add: w)
    show "insert v g \<inter> set (scc_SS ?s) = {}" using c(7,8) v(2) by (auto simp: w scc_A_def)
    show "\<forall>x \<in> scc_C ?s. \<forall>y. sedge G x y \<longrightarrow> y \<in> scc_C ?s" using c(9) by (auto simp: w)
    show "\<forall>x \<in> scc_V ?s - insert v g. \<forall>y. sedge G x y \<longrightarrow> y \<in> scc_V ?s" using c(10) by (auto simp: w)
    show "\<forall>x \<in> insert v (scc_A st). \<forall>y \<in> insert v (scc_A st). scc_num x ?s \<le> scc_num y ?s \<longrightarrow> sreach G x y"
      using c(11) to_v old by (fastforce simp: w(4) u)
    show "\<forall>y \<in> insert v (scc_A st). \<exists>x \<in> insert v g. scc_num x ?s \<le> scc_num y ?s \<and> sreach G y x"
    proof
      fix y assume "y \<in> insert v (scc_A st)"
      then consider "y = v" | "y \<in> scc_A st" "y \<noteq> v" using old by blast
      then show "\<exists>x \<in> insert v g. scc_num x ?s \<le> scc_num y ?s \<and> sreach G y x"
      proof cases
        case 2
        obtain x where x: "x \<in> g" "scc_num x st \<le> scc_num y st" "sreach G y x" using c(12) [OF 2(1)] by blast
        then have "x \<noteq> v" using c(7) old by blast
        then show ?thesis using x 2 by (intro bexI [of _ x]) (simp_all add: w)
      qed auto
    qed
    show "\<forall>y \<in> insert v (scc_A st). get_rep y ?s \<in> insert v (scc_A st) \<and> scc_num (get_rep y ?s) ?s \<le> scc_num y ?s \<and> sreach G y (get_rep y ?s)"
      using c(13) old by (auto simp: w(3,4))
    show "\<forall>y \<in> set (scc_SS ?s). scc_num (get_rep y ?s) ?s < scc_num y ?s"
    proof
      fix y assume "y \<in> set (scc_SS ?s)"
      then have y: "y \<in> set (scc_SS st)" "y \<in> scc_A st" using c(7) by (simp_all add: w)
      then show "scc_num (get_rep y ?s) ?s < scc_num y ?s"
        using c(13) [OF y(2)] c(14) [OF y(1)] old(2) [OF y(2)] old(2) [of "get_rep y st"] by (simp add: w(3,4))
    qed
    have nv: "x \<noteq> v" if "x \<in> scc_C st" for x using that c(3) v(2) by blast
    show "\<forall>x \<in> scc_C ?s. get_rep x ?s \<in> scc_C ?s \<and> get_rep (get_rep x ?s) ?s = get_rep x ?s \<and>
        (\<forall>y. sreach G x y \<and> sreach G y x \<longleftrightarrow> y \<in> scc_C ?s \<and> get_rep y ?s = get_rep x ?s)"
    proof
      fix x assume "x \<in> scc_C ?s"
      then have x: "x \<in> scc_C st" by (simp add: w)
      note d = c(15) [OF x]
      have "y \<in> scc_C st \<and> get_rep y ?s = get_rep x ?s \<longleftrightarrow> y \<in> scc_C st \<and> get_rep y st = get_rep x st" for y
        using nv [of y] nv [OF x] by (auto simp: w(3))
      then show "get_rep x ?s \<in> scc_C ?s \<and> get_rep (get_rep x ?s) ?s = get_rep x ?s \<and>
        (\<forall>y. sreach G x y \<and> sreach G y x \<longleftrightarrow> y \<in> scc_C ?s \<and> get_rep y ?s = get_rep x ?s)"
        using d nv [OF x] nv [of "get_rep x st"] by (simp add: w(2,3))
    qed
  qed
qed

section \<open>Looking at an edge\<close>

lemma scc_update_views:
  "scc_V (scc_update v w st) = scc_V st" "scc_C (scc_update v w st) = scc_C st" "scc_num m (scc_update v w st) = scc_num m st"
  "scc_SS (scc_update v w st) = scc_SS st" "scc_T (scc_update v w st) = scc_T st" "scc_I (scc_update v w st) = scc_I st"
  "m \<noteq> v \<Longrightarrow> get_rep m (scc_update v w st) = get_rep m st"
  "w \<in> scc_C st \<Longrightarrow> scc_update v w st = st"
  by (simp_all add: scc_update_def Let_def) (simp add: scc_C_def)

lemma scc_update_rep:
  assumes core: "scc_core G (insert v g) st" and w: "sedge G v w" "w \<in> scc_V st" "w \<notin> scc_C st"
  obtains r where "scc_update v w st = set_rep v r st" "r \<in> scc_A st" "scc_num r st \<le> scc_num (get_rep v st) st"
    "scc_num r st \<le> scc_num (get_rep w st) st" "sreach G v r"
proof -
  note c = scc_coreD [OF core]
  have A: "v \<in> scc_A st" "w \<in> scc_A st" using c(7) w by (auto simp: scc_A_def)
  have vw: "sreach G v (get_rep w st)" using w(1) c(13) [OF A(2)] by (meson converse_rtranclp_into_rtranclp)
  let ?r = "if scc_num (get_rep v st) st < scc_num (get_rep w st) st then get_rep v st else get_rep w st"
  show ?thesis
    by (rule that [of ?r]) (use w(3) c(13) [OF A(1)] c(13) [OF A(2)] vw in \<open>simp_all add: scc_update_def Let_def scc_C_def\<close>)
qed

lemma scc_set_rep_core:
  assumes core: "scc_core G (insert v g) st" and v: "v < 2 ^ 32" "r < 2 ^ 32"
    and r: "r \<in> scc_A st" "scc_num r st \<le> scc_num v st" "sreach G v r"
  shows "scc_core G (insert v g) (set_rep v r st)"
proof -
  note c = scc_coreD [OF core]
  let ?s = "set_rep v r st"
  have A: "scc_A ?s = scc_A st" by (simp add: scc_A_def)
  have vA: "v \<in> scc_A st" "v \<notin> scc_C st" "v \<notin> set (scc_SS st)" using c(7,8) by (auto simp: scc_A_def)
  have nv: "x \<noteq> v" if "x \<in> scc_C st" for x using that vA(2) by blast
  show ?thesis
    unfolding scc_core_def A
  proof (intro conjI)
    show "scc_bits_ok ?s" by (rule set_rep_bits(1) [OF c(1) v])
    show "\<forall>y \<in> scc_A st. get_rep y ?s \<in> scc_A st \<and> scc_num (get_rep y ?s) ?s \<le> scc_num y ?s \<and> sreach G y (get_rep y ?s)"
      using c(13) r by simp
    show "\<forall>y \<in> set (scc_SS ?s). scc_num (get_rep y ?s) ?s < scc_num y ?s" using c(14) vA(3) by auto
    show "\<forall>x \<in> scc_C ?s. get_rep x ?s \<in> scc_C ?s \<and> get_rep (get_rep x ?s) ?s = get_rep x ?s \<and>
        (\<forall>y. sreach G x y \<and> sreach G y x \<longleftrightarrow> y \<in> scc_C ?s \<and> get_rep y ?s = get_rep x ?s)"
    proof
      fix x assume "x \<in> scc_C ?s"
      then have x: "x \<in> scc_C st" by simp
      have "y \<in> scc_C st \<and> get_rep y ?s = get_rep x ?s \<longleftrightarrow> y \<in> scc_C st \<and> get_rep y st = get_rep x st" for y
        using nv [of y] nv [OF x] by auto
      then show "get_rep x ?s \<in> scc_C ?s \<and> get_rep (get_rep x ?s) ?s = get_rep x ?s \<and>
        (\<forall>y. sreach G x y \<and> sreach G y x \<longleftrightarrow> y \<in> scc_C ?s \<and> get_rep y ?s = get_rep x ?s)"
        using c(15) [OF x] nv [OF x] nv [of "get_rep x st"] by simp
    qed
    show "\<forall>x \<in> scc_V ?s. 1 \<le> scc_num x ?s \<and> scc_num x ?s \<le> scc_I ?s" "inj_on (\<lambda>x. scc_num x ?s) (scc_V ?s)" using c(5,6) by simp_all
    show "\<forall>x \<in> scc_C ?s. \<forall>w. sedge G x w \<longrightarrow> w \<in> scc_C ?s" using c(9) by simp
    show "\<forall>x \<in> scc_V ?s - insert v g. \<forall>w. sedge G x w \<longrightarrow> w \<in> scc_V ?s" using c(10) by auto
    show "\<forall>x \<in> scc_A st. \<forall>y \<in> scc_A st. scc_num x ?s \<le> scc_num y ?s \<longrightarrow> sreach G x y" using c(11) by simp
    show "\<forall>y \<in> scc_A st. \<exists>x \<in> insert v g. scc_num x ?s \<le> scc_num y ?s \<and> sreach G y x" using c(12) by simp
  qed (use c(2,3,4,7,8) in simp_all)
qed

section \<open>Closing a component\<close>

abbreviation scc_new_part :: "NodeID \<Rightarrow> NodeID list \<Rightarrow> scc_state \<Rightarrow> NodeID list" where
  "scc_new_part v ss st \<equiv> takeWhile (\<lambda>w. scc_num v st < scc_num w st) ss"

lemma scc_pop_all:
  "scc_V (scc_pop v ss st) = scc_V st \<and> scc_C (scc_pop v ss st) = scc_C st \<union> set (scc_new_part v ss st) \<and>
   (\<forall>m. scc_num m (scc_pop v ss st) = scc_num m st) \<and> scc_T (scc_pop v ss st) = scc_T st \<and> scc_I (scc_pop v ss st) = scc_I st \<and>
   scc_SS (scc_pop v ss st) = dropWhile (\<lambda>w. scc_num v st < scc_num w st) ss \<and>
   (\<forall>m. get_rep m (scc_pop v ss st) = (if m \<in> set (scc_new_part v ss st) then v else get_rep m st))"
proof (induction v ss st rule: scc_pop.induct)
  case (2 v w ss st)
  then show ?case by (cases "scc_num w st \<le> scc_num v st") auto
qed simp

lemmas scc_pop_views = scc_pop_all [THEN conjunct1] scc_pop_all [THEN conjunct2, THEN conjunct1]
  scc_pop_all [THEN conjunct2, THEN conjunct2, THEN conjunct1, THEN spec]
  scc_pop_all [THEN conjunct2, THEN conjunct2, THEN conjunct2, THEN conjunct1]
  scc_pop_all [THEN conjunct2, THEN conjunct2, THEN conjunct2, THEN conjunct2, THEN conjunct1]
  scc_pop_all [THEN conjunct2, THEN conjunct2, THEN conjunct2, THEN conjunct2, THEN conjunct2, THEN conjunct1]
  scc_pop_all [THEN conjunct2, THEN conjunct2, THEN conjunct2, THEN conjunct2, THEN conjunct2, THEN conjunct2, THEN spec]

lemma scc_pop_bits:
  assumes "scc_bits_ok st" "v < 2 ^ 32" "\<And>w. w \<in> set ss \<Longrightarrow> w < 2 ^ 32"
  shows "scc_bits_ok (scc_pop v ss st) \<and>
    (\<forall>m. scc_sub (scc_pop v ss st) m = (if m = v then scc_sub st v \<union> set (scc_new_part v ss st)
       else if m \<in> set (scc_new_part v ss st) then {} else scc_sub st m)) \<and>
    scc_R (scc_pop v ss st) = (if scc_new_part v ss st = [] then scc_R st else insert v (scc_R st - set (scc_new_part v ss st)))"
  using assms
proof (induction v ss st rule: scc_pop.induct)
  case (2 v w ss st)
  show ?case
  proof (cases "scc_num w st \<le> scc_num v st")
    case True then show ?thesis using 2(2) by simp
  next
    case False
    let ?s = "setInSCC w True (st\<lparr>scc_SS := ss\<rparr>)" and ?n = "scc_new_part v ss st"
    have wv: "w \<noteq> v" "v \<notin> set ?n" using False by (auto dest: set_takeWhileD)
    have b: "scc_bits_ok ?s" using 2(2) by simp
    note r = set_rep_bits [OF b 2(4) [OF list.set_intros(1)] 2(3)]
    note IH = 2(1) [OF False r(1) 2(3) 2(4) [OF list.set_intros(2)], simplified]
    have e: "scc_pop v (w # ss) st = scc_pop v ss (set_rep w v ?s)" using False by simp
    have n: "scc_new_part v (w # ss) st = w # ?n" using False by simp
    have sub: "scc_sub (scc_pop v ss (set_rep w v ?s)) m = (if m = v then scc_sub st v \<union> set (w # ?n)
       else if m \<in> set (w # ?n) then {} else scc_sub st m)" for m
      using IH [THEN conjunct2, THEN conjunct1, THEN spec, of m] wv by (simp add: r(2))
    have R: "scc_R (scc_pop v ss (set_rep w v ?s)) = insert v (scc_R st - set (w # ?n))"
      using IH [THEN conjunct2, THEN conjunct2] wv by (auto simp add: r(3))
    show ?thesis unfolding e n using IH [THEN conjunct1] sub R by simp
  qed
qed simp

text \<open>A node that leaves its component open goes to the stack.\<close>

lemma scc_finish_open:
  assumes core: "scc_core G (insert v g) st" and v: "v \<notin> g" "get_rep v st \<noteq> v" and ch: "\<And>w. sedge G v w \<Longrightarrow> w \<in> scc_V st"
  shows "scc_core G g (scc_finish v st)"
proof -
  note c = scc_coreD [OF core]
  let ?s = "scc_finish v st"
  have e: "?s = st\<lparr>scc_SS := v # scc_SS st\<rparr>" using v(2) by (simp add: scc_finish_def)
  have A: "scc_A ?s = scc_A st" by (simp add: scc_A_def e)
  have vA: "v \<in> scc_A st" using c(7) by simp
  have vV: "v \<in> scc_V st" using vA by (simp add: scc_A_def)
  have low: "scc_num (get_rep v st) st < scc_num v st"
  proof -
    have "scc_num (get_rep v st) st \<noteq> scc_num v st"
      using inj_onD [OF c(6), of "get_rep v st" v] c(13) [OF vA] vV v(2) by (auto simp: scc_A_def)
    then show ?thesis using c(13) [OF vA] by simp
  qed
  have gv: "\<exists>x \<in> g. scc_num x st < scc_num v st \<and> sreach G v x"
  proof -
    obtain x where x: "x \<in> insert v g" "scc_num x st \<le> scc_num (get_rep v st) st" "sreach G (get_rep v st) x"
      using c(12) [of "get_rep v st"] c(13) [OF vA] by blast
    then have "x \<noteq> v" using low by auto
    moreover have "sreach G v x" using c(13) [OF vA] x(3) by (meson rtranclp_trans)
    ultimately show ?thesis using x low by (intro bexI [of _ x]) auto
  qed
  have "\<exists>x \<in> g. scc_num x st \<le> scc_num y st \<and> sreach G y x" if "y \<in> scc_A st" for y
  proof -
    obtain x where x: "x \<in> insert v g" "scc_num x st \<le> scc_num y st" "sreach G y x" using c(12) [OF \<open>y \<in> scc_A st\<close>] by blast
    show ?thesis
    proof (cases "x = v")
      case True
      obtain z where "z \<in> g" "scc_num z st < scc_num v st" "sreach G v z" using gv by blast
      then show ?thesis using x True by (intro bexI [of _ z]) (auto intro: rtranclp_trans)
    qed (use x in blast)
  qed
  then have gray: "\<forall>y \<in> scc_A st. \<exists>x \<in> g. scc_num x st \<le> scc_num y st \<and> sreach G y x" by blast
  show ?thesis
    unfolding scc_core_def A
  proof (intro conjI)
    show "\<forall>y \<in> scc_A st. \<exists>x \<in> g. scc_num x ?s \<le> scc_num y ?s \<and> sreach G y x" using gray by (simp add: e)
    show "\<forall>x \<in> scc_V ?s - g. \<forall>w. sedge G x w \<longrightarrow> w \<in> scc_V ?s" using c(10) ch by (auto simp: e)
    show "\<forall>y \<in> set (scc_SS ?s). scc_num (get_rep y ?s) ?s < scc_num y ?s" using c(14) low by (simp add: e)
    show "scc_A st = g \<union> set (scc_SS ?s)" "g \<inter> set (scc_SS ?s) = {}" using c(7,8) v(1) by (auto simp: e)
    show "\<forall>x \<in> scc_V ?s. 1 \<le> scc_num x ?s \<and> scc_num x ?s \<le> scc_I ?s" "inj_on (\<lambda>x. scc_num x ?s) (scc_V ?s)"
      using c(5,6) by (simp_all add: e)
    show "\<forall>x \<in> scc_C ?s. \<forall>w. sedge G x w \<longrightarrow> w \<in> scc_C ?s" using c(9) by (simp add: e)
    show "\<forall>x \<in> scc_A st. \<forall>y \<in> scc_A st. scc_num x ?s \<le> scc_num y ?s \<longrightarrow> sreach G x y" using c(11) by (simp add: e)
    show "\<forall>y \<in> scc_A st. get_rep y ?s \<in> scc_A st \<and> scc_num (get_rep y ?s) ?s \<le> scc_num y ?s \<and> sreach G y (get_rep y ?s)"
      using c(13) by (simp add: e)
    show "\<forall>x \<in> scc_C ?s. get_rep x ?s \<in> scc_C ?s \<and> get_rep (get_rep x ?s) ?s = get_rep x ?s \<and>
        (\<forall>y. sreach G x y \<and> sreach G y x \<longleftrightarrow> y \<in> scc_C ?s \<and> get_rep y ?s = get_rep x ?s)"
      using c(15) by (simp add: e)
  qed (use c(1,2,3,4) in \<open>simp_all add: e\<close>)
qed

text \<open>
  A node that is its own representative closes the component of the nodes above it on the stack, when no edge
  leads from them to the other active nodes.
\<close>

definition scc_closing :: "scc_graph \<Rightarrow> NodeID set \<Rightarrow> NodeID \<Rightarrow> NodeID list \<Rightarrow> NodeID list \<Rightarrow> scc_state \<Rightarrow> bool" where
  "scc_closing G g v new rest st \<longleftrightarrow> scc_core G (insert v g) st \<and> v \<notin> g \<and> get_rep v st = v \<and>
     (\<forall>w. sedge G v w \<longrightarrow> w \<in> scc_V st) \<and> scc_SS st = new @ rest \<and>
     (\<forall>w \<in> set new. scc_num v st < scc_num w st) \<and> (\<forall>w \<in> g \<union> set rest. scc_num w st < scc_num v st) \<and>
     (\<forall>y \<in> insert v (set new). \<forall>u \<in> g \<union> set rest. \<not> sedge G y u)"

lemma scc_finish_views:
  assumes cl: "scc_closing G g v new rest st"
  shows "scc_V (scc_finish v st) = scc_V st" "scc_C (scc_finish v st) = scc_C st \<union> insert v (set new)"
    "scc_num m (scc_finish v st) = scc_num m st" "scc_T (scc_finish v st) = v # scc_T st" "scc_I (scc_finish v st) = scc_I st"
    "scc_SS (scc_finish v st) = rest" "get_rep m (scc_finish v st) = (if m \<in> insert v (set new) then v else get_rep m st)"
proof -
  let ?t = "setInSCC v True st"
  note d = cl [unfolded scc_closing_def]
  have e: "scc_finish v st = (scc_pop v (new @ rest) ?t)\<lparr>scc_T := v # scc_T (scc_pop v (new @ rest) ?t)\<rparr>"
    using d by (simp add: scc_finish_def Let_def)
  have t: "scc_new_part v (new @ rest) ?t = new" "dropWhile (\<lambda>w. scc_num v ?t < scc_num w ?t) (new @ rest) = rest"
    using d by (cases rest; simp add: takeWhile_append2 dropWhile_append2 takeWhile_eq_all_conv)+
  note p = scc_pop_views [where v = v and ss = "new @ rest" and st = ?t, unfolded t]
  show "scc_V (scc_finish v st) = scc_V st" "scc_C (scc_finish v st) = scc_C st \<union> insert v (set new)"
    "scc_num m (scc_finish v st) = scc_num m st" "scc_T (scc_finish v st) = v # scc_T st" "scc_I (scc_finish v st) = scc_I st"
    "scc_SS (scc_finish v st) = rest" "get_rep m (scc_finish v st) = (if m \<in> insert v (set new) then v else get_rep m st)"
    unfolding e using d [THEN conjunct2, THEN conjunct2, THEN conjunct1] by (auto simp: p)
qed

lemma scc_closing_new:
  assumes cl: "scc_closing G g v new rest st"
  shows "scc_A st = insert v (g \<union> set new \<union> set rest)" "v \<notin> g" "v \<notin> set new" "v \<notin> set rest"
    "g \<inter> set new = {}" "g \<inter> set rest = {}" "set new \<inter> set rest = {}" "insert v (set new) \<subseteq> scc_V st" "v \<notin> scc_C st"
    "insert v (set new) = {x \<in> scc_A st. scc_num v st \<le> scc_num x st}"
proof -
  note d = cl [unfolded scc_closing_def]
  have core: "scc_core G (insert v g) st" using d by blast
  note c = scc_coreD [OF core]
  have SS: "scc_SS st = new @ rest" using d by blast
  have n: "w \<in> set new \<Longrightarrow> scc_num v st < scc_num w st" "w \<in> g \<union> set rest \<Longrightarrow> scc_num w st < scc_num v st" for w
    using d by blast+
  show A: "scc_A st = insert v (g \<union> set new \<union> set rest)" using c(7) SS by auto
  show "v \<notin> g" using d by blast
  show "v \<notin> set new" "v \<notin> set rest" "g \<inter> set rest = {}" using n c(8) SS by auto
  show "g \<inter> set new = {}" "set new \<inter> set rest = {}" using n by fastforce+
  show "insert v (set new) \<subseteq> scc_V st" "v \<notin> scc_C st" using A by (auto simp: scc_A_def)
  show "insert v (set new) = {x \<in> scc_A st. scc_num v st \<le> scc_num x st}"
    unfolding A using n by (fastforce intro: less_imp_le)
qed

text \<open>The nodes above \<open>v\<close> form its component.\<close>

lemma scc_closing_component:
  assumes cl: "scc_closing G g v new rest st"
  shows "y \<in> insert v (set new) \<Longrightarrow> sedge G y u \<Longrightarrow> u \<in> scc_C st \<union> insert v (set new)"
    "y \<in> insert v (set new) \<Longrightarrow> sreach G y v \<and> sreach G v y"
    "x \<in> insert v (set new) \<Longrightarrow> sreach G x y \<and> sreach G y x \<longleftrightarrow> y \<in> insert v (set new)"
proof -
  note d = cl [unfolded scc_closing_def] and n = scc_closing_new [OF cl]
  have core: "scc_core G (insert v g) st" using d by blast
  note c = scc_coreD [OF core]
  let ?S = "insert v (set new)"
  have SA: "y \<in> scc_A st" if "y \<in> ?S" for y using that n(1) by blast
  show cls: "u \<in> scc_C st \<union> ?S" if y: "y \<in> ?S" and e: "sedge G y u" for y u
  proof -
    have "u \<in> scc_V st"
    proof (cases "y = v")
      case True then show ?thesis using d e by blast
    next
      case False
      then show ?thesis using y e c(10) [of y u] n(5,8) by blast
    qed
    moreover have "u \<notin> g \<union> set rest" using d y e by blast
    ultimately show ?thesis using n(1) by (auto simp: scc_A_def)
  qed
  show to: "sreach G y v \<and> sreach G v y" if y: "y \<in> ?S" for y
  proof -
    have vA: "v \<in> scc_A st" using n(1) by blast
    have "scc_num v st \<le> scc_num y st" using y n(10) by blast
    then have 1: "sreach G v y" using c(11) [OF vA SA [OF y]] by blast
    obtain x where x: "x \<in> insert v g" "sreach G y x" using c(12) [OF SA [OF y]] by blast
    have "x = v \<or> scc_num x st < scc_num v st" using d x(1) by blast
    then have "sreach G x v" using c(11) [of x v] vA n(1) x(1) by (auto simp: less_imp_le)
    then show ?thesis using 1 rtranclp_trans [OF x(2)] by blast
  qed
  have stay: "y \<in> scc_C st \<union> ?S" if "x \<in> ?S" "sreach G x y" for x y
  proof (rule closed_reach [OF that(2)])
    show "x \<in> scc_C st \<union> ?S" using that(1) by blast
    show "b \<in> scc_C st \<union> ?S" if "a \<in> scc_C st \<union> ?S" "sedge G a b" for a b
      using cls [OF _ that(2)] c(9) [OF _ that(2)] that(1) by (elim UnE) simp_all
  qed
  have inC: "z \<in> scc_C st" if "y \<in> scc_C st" "sreach G y z" for y z
    by (rule closed_reach [OF that(2,1)]) (rule c(9))
  show "sreach G x y \<and> sreach G y x \<longleftrightarrow> y \<in> ?S" if x: "x \<in> ?S"
  proof
    assume r: "sreach G x y \<and> sreach G y x"
    have "x \<notin> scc_C st" using SA [OF x] by (simp add: scc_A_def)
    then show "y \<in> ?S" using stay [OF x conjunct1 [OF r]] inC [OF _ conjunct2 [OF r]] by (elim UnE) simp_all
  next
    assume "y \<in> ?S"
    then have r: "sreach G x v" "sreach G v x" "sreach G y v" "sreach G v y" using to [OF x] to [of y] by blast+
    show "sreach G x y \<and> sreach G y x" using rtranclp_trans [OF r(1,4)] rtranclp_trans [OF r(3,2)] by simp
  qed
qed

lemma scc_finish_close:
  assumes G: "scc_graph_ok G" and cl: "scc_closing G g v new rest st"
  shows "scc_core G g (scc_finish v st)" "scc_A (scc_finish v st) = g \<union> set rest"
proof -
  note d = cl [unfolded scc_closing_def] and n = scc_closing_new [OF cl] and k = scc_closing_component [OF cl]
  have core: "scc_core G (insert v g) st" using d by blast
  note c = scc_coreD [OF core]
  let ?s = "scc_finish v st" and ?S = "insert v (set new)"
  note w = scc_finish_views [OF cl]
  have small: "x < 2 ^ 32" if "x \<in> scc_V st" for x using scc_small [OF G] c(2) that by blast
  have ss: "scc_SS st = new @ rest" using d by blast
  have ssV: "x \<in> scc_V st" if "x \<in> set (scc_SS st)" for x using that c(7) by (auto simp: scc_A_def)
  have bits: "scc_bits_ok ?s"
  proof -
    have "scc_bits_ok (setInSCC v True st)" using c(1) by simp
    moreover have "v < 2 ^ 32" using small n(8) by blast
    ultimately have "scc_bits_ok (scc_pop v (scc_SS st) (setInSCC v True st))"
      using scc_pop_bits [of "setInSCC v True st" v "scc_SS st"] small ssV by blast
    then show ?thesis using d by (simp add: scc_finish_def Let_def)
  qed
  show A: "scc_A ?s = g \<union> set rest" using n by (auto simp: scc_A_def w)
  have gr: "y \<in> scc_A st" "y \<notin> ?S" "scc_num y st < scc_num v st" if "y \<in> g \<union> set rest" for y
    using that n d by auto
  have CS: "x \<notin> ?S" if "x \<in> scc_C st" for x using that n(1) by (auto simp: scc_A_def)
  show "scc_core G g ?s"
    unfolding scc_core_def A
  proof (intro conjI ballI allI impI)
    show "scc_bits_ok ?s" by (rule bits)
    show "scc_V ?s \<subseteq> scc_nodes G" "scc_C ?s \<subseteq> scc_V ?s" "scc_I ?s = card (scc_V ?s)" using c(2,3,4) n(8) by (auto simp: w)
    show "1 \<le> scc_num x ?s" "scc_num x ?s \<le> scc_I ?s" if "x \<in> scc_V ?s" for x using c(5) that by (auto simp: w)
    show "inj_on (\<lambda>x. scc_num x ?s) (scc_V ?s)" using c(6) by (simp add: w)
    show "g \<union> set rest = g \<union> set (scc_SS ?s)" "g \<inter> set (scc_SS ?s) = {}" using n(6) by (simp_all add: w)
    show "u \<in> scc_C ?s" if "x \<in> scc_C ?s" "sedge G x u" for x u
      using that k(1) [OF _ that(2)] c(9) [OF _ that(2)] unfolding w by (elim UnE) simp_all
    show "u \<in> scc_V ?s" if "x \<in> scc_V ?s - g" "sedge G x u" for x u
      using that c(10) [of x u] d by (cases "x = v") (auto simp: w)
    show "sreach G x y" if "x \<in> g \<union> set rest" "y \<in> g \<union> set rest" "scc_num x ?s \<le> scc_num y ?s" for x y
      using c(11) [OF gr(1) [OF that(1)] gr(1) [OF that(2)]] that(3) by (simp add: w)
    show "\<exists>x \<in> g. scc_num x ?s \<le> scc_num y ?s \<and> sreach G y x" if y: "y \<in> g \<union> set rest" for y
    proof -
      obtain x where x: "x \<in> insert v g" "scc_num x st \<le> scc_num y st" "sreach G y x" using c(12) [OF gr(1) [OF y]] by blast
      then have "x \<in> g" using gr(3) [OF y] by auto
      then show ?thesis using x by (auto simp: w)
    qed
    fix y assume y: "y \<in> g \<union> set rest"
    have r: "get_rep y ?s = get_rep y st" using gr(2) [OF y] by (simp add: w)
    have q: "get_rep y st \<in> scc_A st" "scc_num (get_rep y st) st \<le> scc_num y st" "sreach G y (get_rep y st)"
      using c(13) [OF gr(1) [OF y]] by blast+
    then have "scc_num (get_rep y st) st < scc_num v st" using gr(3) [OF y] by simp
    then have "get_rep y st \<notin> ?S" unfolding n(10) by simp
    then show "get_rep y ?s \<in> g \<union> set rest" using q(1) r n(1) by auto
    show "scc_num (get_rep y ?s) ?s \<le> scc_num y ?s" "sreach G y (get_rep y ?s)" using q r by (simp_all add: w)
  next
    fix y assume y: "y \<in> set (scc_SS ?s)"
    then have "y \<in> set rest" by (simp add: w)
    then have "get_rep y ?s = get_rep y st" "y \<in> set (scc_SS st)" using gr(2) [of y] ss by (simp_all add: w)
    then show "scc_num (get_rep y ?s) ?s < scc_num y ?s" using c(14) by (simp add: w)
  next
    fix x assume x: "x \<in> scc_C ?s"
    have rC: "get_rep y st \<in> scc_C st" "get_rep y st \<noteq> v" if "y \<in> scc_C st" for y using c(15) [OF that] n(9) by blast+
    have rep_old: "get_rep y ?s = get_rep y st" if "y \<in> scc_C st" for y using CS [OF that] by (simp add: w)
    have rep_new: "get_rep y ?s = v" if "y \<in> ?S" for y using that by (simp add: w)
    have Cs: "scc_C ?s = scc_C st \<union> ?S" by (rule w(2))
    consider "x \<in> scc_C st" | "x \<in> ?S" using x unfolding Cs by blast
    then have "get_rep x ?s \<in> scc_C ?s \<and> get_rep (get_rep x ?s) ?s = get_rep x ?s \<and>
        (\<forall>y. sreach G x y \<and> sreach G y x \<longleftrightarrow> y \<in> scc_C ?s \<and> get_rep y ?s = get_rep x ?s)"
    proof cases
      case 1
      have "y \<in> scc_C ?s \<and> get_rep y ?s = get_rep x ?s \<longleftrightarrow> y \<in> scc_C st \<and> get_rep y st = get_rep x st" for y
        using rep_old [OF 1] rep_old [of y] rep_new [of y] rC(2) [OF 1] unfolding Cs by auto
      then show ?thesis using c(15) [OF 1] rep_old [OF 1] rep_old [OF rC(1) [OF 1]] by (simp add: Cs)
    next
      case 2
      have "y \<in> scc_C ?s \<and> get_rep y ?s = v \<longleftrightarrow> y \<in> ?S" for y
        using rep_old [of y] rep_new [of y] rC(2) [of y] unfolding Cs by auto
      then show ?thesis using k(3) [OF 2] rep_new [OF 2] rep_new [of v] by (simp add: Cs)
    qed
    then show "get_rep x ?s \<in> scc_C ?s" "get_rep (get_rep x ?s) ?s = get_rep x ?s"
      "\<And>y. (sreach G x y \<and> sreach G y x) = (y \<in> scc_C ?s \<and> get_rep y ?s = get_rep x ?s)" by blast+
  qed
qed

end
