(* ===== verification/SCCCorrect.thy ===== *)
theory SCCCorrect
  imports SCCSpec
begin

text \<open>
  What the search records beside the representatives: the sets of nodes of the components, the stack of
  components and the set of representatives. Then the search as a whole: it ends, and its result is the
  components of the graph.
\<close>

section \<open>What is recorded\<close>

definition scc_book :: "scc_graph \<Rightarrow> scc_state \<Rightarrow> bool" where
  "scc_book G st \<longleftrightarrow>
     (\<forall>r \<in> scc_A st. scc_sub st r \<subseteq> {x \<in> scc_A st. scc_num r st \<le> scc_num x st \<and> sreach G x r} \<and>
        (get_rep r st = r \<longrightarrow> r \<in> scc_sub st r)) \<and>
     (\<forall>r \<in> scc_C st. scc_sub st r = {x \<in> scc_C st. get_rep x st = r}) \<and>
     (\<forall>r. r \<notin> scc_V st \<longrightarrow> scc_sub st r = {} \<and> get_rep r st = UINT_MAX) \<and>
     (\<forall>r. r \<in> scc_R st \<longleftrightarrow> \<not> scc_sub st r \<subseteq> {r}) \<and>
     set (scc_T st) = {x \<in> scc_C st. get_rep x st = x} \<and> sorted_wrt (\<lambda>a b. \<not> sreach G b a) (scc_T st)"

lemma scc_bookD:
  assumes "scc_book G st"
  shows "r \<in> scc_A st \<Longrightarrow> scc_sub st r \<subseteq> {x \<in> scc_A st. scc_num r st \<le> scc_num x st \<and> sreach G x r}"
    "r \<in> scc_A st \<Longrightarrow> get_rep r st = r \<Longrightarrow> r \<in> scc_sub st r"
    "r \<in> scc_C st \<Longrightarrow> scc_sub st r = {x \<in> scc_C st. get_rep x st = r}" "r \<notin> scc_V st \<Longrightarrow> scc_sub st r = {} \<and> get_rep r st = UINT_MAX"
    "r \<in> scc_R st \<longleftrightarrow> \<not> scc_sub st r \<subseteq> {r}" "set (scc_T st) = {x \<in> scc_C st. get_rep x st = x}"
    "sorted_wrt (\<lambda>a b. \<not> sreach G b a) (scc_T st)"
  using assms unfolding scc_book_def by (elim conjE, (simp; fail))+

lemma scc_start_book:
  assumes G: "scc_graph_ok G" and core: "scc_core G g st" and book: "scc_book G st" and v: "v \<in> scc_nodes G" "v \<notin> scc_V st"
  shows "scc_book G (scc_start v st)"
proof -
  note c = scc_coreD [OF core] and b = scc_bookD [OF book]
  let ?s = "scc_start v st"
  note w = scc_start_views [OF c(1) scc_small [OF G v(1)]]
  have A: "scc_A ?s = insert v (scc_A st)" using v(2) c(3) by (auto simp: scc_A_def w)
  have old: "x \<noteq> v" if "x \<in> scc_A st \<or> x \<in> scc_C st" for x using that c(3) v(2) by (auto simp: scc_A_def)
  have sv: "scc_sub ?s v = {v}" using b(4) [OF v(2)] by (simp add: w)
  show ?thesis
    unfolding scc_book_def A
  proof (intro conjI ballI allI impI)
    show "scc_sub ?s r \<subseteq> {x \<in> insert v (scc_A st). scc_num r ?s \<le> scc_num x ?s \<and> sreach G x r}"
      if r: "r \<in> insert v (scc_A st)" for r
    proof (cases "r = v")
      case True then show ?thesis using sv by simp
    next
      case False
      then have "r \<in> scc_A st" using r by simp
      then show ?thesis using b(1) [of r] old False by (fastforce simp: w)
    qed
    show "r \<in> scc_sub ?s r" if "r \<in> insert v (scc_A st)" "get_rep r ?s = r" for r
    proof (cases "r = v")
      case True then show ?thesis using sv by simp
    next
      case False
      then show ?thesis using that b(2) [of r] unfolding w(3,9) by simp
    qed
    show "scc_sub ?s r = {x \<in> scc_C ?s. get_rep x ?s = r}" if r: "r \<in> scc_C ?s" for r
    proof -
      have "r \<in> scc_C st" "v \<notin> scc_C st" using r c(3) v(2) by (auto simp: w(2))
      then show ?thesis using b(3) [of r] by (auto simp: w(2,3,9))
    qed
    show "scc_sub ?s r = {}" "get_rep r ?s = UINT_MAX" if "r \<notin> scc_V ?s" for r using that b(4) [of r] by (simp_all add: w)
    show "r \<in> scc_R ?s \<longleftrightarrow> \<not> scc_sub ?s r \<subseteq> {r}" for r using b(5) [of r] by (simp add: w)
    have "v \<notin> scc_C st" using c(3) v(2) by blast
    then show "set (scc_T ?s) = {x \<in> scc_C ?s. get_rep x ?s = x}" using b(6) by (auto simp: w(2,3,6))
    show "sorted_wrt (\<lambda>a b. \<not> sreach G b a) (scc_T ?s)" using b(7) by (simp add: w)
  qed
qed

lemma scc_set_rep_book:
  assumes core: "scc_core G (insert v g) st" and book: "scc_book G st" and v: "v < 2 ^ 32" "r < 2 ^ 32"
    and r: "r \<in> scc_A st" "scc_num r st \<le> scc_num v st" "sreach G v r"
  shows "scc_book G (set_rep v r st)"
proof -
  note c = scc_coreD [OF core] and b = scc_bookD [OF book]
  let ?s = "set_rep v r st"
  have A: "scc_A ?s = scc_A st" by (simp add: scc_A_def)
  have vA: "v \<in> scc_A st" "v \<notin> scc_C st" "v \<in> scc_V st" using c(7) by (auto simp: scc_A_def)
  have rA: "r \<notin> scc_C st" "r \<in> scc_V st" using r(1) by (auto simp: scc_A_def)
  note w = set_rep_bits(2,3) [OF c(1) v]
  show ?thesis
    unfolding scc_book_def A
  proof (intro conjI ballI allI impI)
    show "scc_sub ?s x \<subseteq> {y \<in> scc_A st. scc_num x ?s \<le> scc_num y ?s \<and> sreach G y x}" if x: "x \<in> scc_A st" for x
      using b(1) [OF x] vA(1) r by (auto simp: w)
    show "x \<in> scc_sub ?s x" if "x \<in> scc_A st" "get_rep x ?s = x" for x
      using that b(2) [of x] unfolding w set_rep_views by (cases "x = r"; cases "x = v") simp_all
    show "scc_sub ?s x = {y \<in> scc_C ?s. get_rep y ?s = x}" if x: "x \<in> scc_C ?s" for x
    proof -
      have "x \<in> scc_C st" using x by simp
      then show ?thesis using b(3) [of x] vA rA by (auto simp: w)
    qed
    show "scc_sub ?s x = {}" "get_rep x ?s = UINT_MAX" if "x \<notin> scc_V ?s" for x
      using that b(4) [of x] rA vA by (auto simp: w)
    show "x \<in> scc_R ?s \<longleftrightarrow> \<not> scc_sub ?s x \<subseteq> {x}" for x using b(5) [of x] b(5) [of r] by (auto simp: w)
    show "set (scc_T ?s) = {x \<in> scc_C ?s. get_rep x ?s = x}" using b(6) vA by auto
    show "sorted_wrt (\<lambda>a b. \<not> sreach G b a) (scc_T ?s)" using b(7) by simp
  qed
qed

lemma scc_finish_open_book:
  assumes book: "scc_book G st" and v: "get_rep v st \<noteq> v"
  shows "scc_book G (scc_finish v st)"
proof -
  have e: "scc_finish v st = st\<lparr>scc_SS := v # scc_SS st\<rparr>" using v by (simp add: scc_finish_def)
  show ?thesis using book by (simp add: scc_book_def scc_A_def e)
qed

lemma scc_finish_bits:
  assumes G: "scc_graph_ok G" and cl: "scc_closing G g v new rest st"
  shows "scc_sub (scc_finish v st) m = (if m = v then scc_sub st v \<union> set new else if m \<in> set new then {} else scc_sub st m)"
    "scc_R (scc_finish v st) = (if new = [] then scc_R st else insert v (scc_R st - set new))"
proof -
  note d = cl [unfolded scc_closing_def] and n = scc_closing_new [OF cl]
  have core: "scc_core G (insert v g) st" using d by blast
  note c = scc_coreD [OF core]
  let ?t = "setInSCC v True st"
  have small: "x < 2 ^ 32" if "x \<in> scc_V st" for x using scc_small [OF G] c(2) that by blast
  have ssV: "x \<in> scc_V st" if "x \<in> set (scc_SS st)" for x using that c(7) by (auto simp: scc_A_def)
  have t: "scc_new_part v (scc_SS st) ?t = new"
    using d by (cases rest; simp add: takeWhile_append2 takeWhile_eq_all_conv)
  have p: "scc_sub (scc_pop v (scc_SS st) ?t) m = (if m = v then scc_sub ?t v \<union> set new else if m \<in> set new then {} else scc_sub ?t m)"
    "scc_R (scc_pop v (scc_SS st) ?t) = (if new = [] then scc_R ?t else insert v (scc_R ?t - set new))"
    using scc_pop_bits [of ?t v "scc_SS st", unfolded t] c(1) small ssV n(8) by auto
  have e: "scc_finish v st = (scc_pop v (scc_SS st) ?t)\<lparr>scc_T := v # scc_T (scc_pop v (scc_SS st) ?t)\<rparr>"
    using d by (simp add: scc_finish_def Let_def)
  show "scc_sub (scc_finish v st) m = (if m = v then scc_sub st v \<union> set new else if m \<in> set new then {} else scc_sub st m)"
    "scc_R (scc_finish v st) = (if new = [] then scc_R st else insert v (scc_R st - set new))"
    unfolding e using p by simp_all
qed

lemma scc_finish_close_book:
  assumes G: "scc_graph_ok G" and book: "scc_book G st" and cl: "scc_closing G g v new rest st"
  shows "scc_book G (scc_finish v st)"
proof -
  note d = cl [unfolded scc_closing_def] and n = scc_closing_new [OF cl] and k = scc_closing_component [OF cl]
  have core: "scc_core G (insert v g) st" using d by blast
  have core': "scc_core G g (scc_finish v st)" by (rule scc_finish_close [OF G cl])
  note c = scc_coreD [OF core] and c' = scc_coreD [OF core'] and b = scc_bookD [OF book]
  let ?s = "scc_finish v st" and ?S = "insert v (set new)"
  note w = scc_finish_views [OF cl] and wb = scc_finish_bits [OF G cl]
  have A: "scc_A ?s = g \<union> set rest" by (rule scc_finish_close [OF G cl])
  have repv: "get_rep v st = v" using d by blast
  have old: "x \<in> scc_A st" "x \<notin> ?S" if "x \<in> g \<union> set rest" for x using that n by auto
  have CS: "x \<notin> ?S" if "x \<in> scc_C st" for x using that n(1) by (auto simp: scc_A_def)
  have vA: "v \<in> scc_A st" using n(1) by blast
  have sv: "scc_sub st v \<subseteq> ?S" "v \<in> scc_sub st v" using b(1,2) [OF vA] n(10) repv by auto
  have subv: "scc_sub ?s v = ?S" using sv by (auto simp: wb)
  show ?thesis
    unfolding scc_book_def A
  proof (intro conjI ballI allI impI)
    show "scc_sub ?s r \<subseteq> {x \<in> g \<union> set rest. scc_num r ?s \<le> scc_num x ?s \<and> sreach G x r}" if r: "r \<in> g \<union> set rest" for r
    proof
      fix x assume "x \<in> scc_sub ?s r"
      then have "x \<in> scc_sub st r" using old(2) [OF r] by (simp add: wb)
      then have x: "x \<in> scc_A st" "scc_num r st \<le> scc_num x st" "sreach G x r" using b(1) [OF old(1) [OF r]] by blast+
      have "x \<notin> ?S"
      proof
        assume xS: "x \<in> ?S"
        have "r \<in> scc_C ?s"
          by (rule closed_reach [OF x(3)]) (use xS c'(9) in \<open>auto simp: w(2)\<close>)
        then show False using r A by (auto simp: scc_A_def)
      qed
      then show "x \<in> {x \<in> g \<union> set rest. scc_num r ?s \<le> scc_num x ?s \<and> sreach G x r}" using x n(1) by (auto simp: w)
    qed
    show "r \<in> scc_sub ?s r" if "r \<in> g \<union> set rest" "get_rep r ?s = r" for r
      using b(2) [OF old(1) [OF that(1)]] old(2) [OF that(1)] that(2) by (simp add: wb w)
    show "scc_sub ?s r = {x \<in> scc_C ?s. get_rep x ?s = r}" if r: "r \<in> scc_C ?s" for r
    proof -
      have rC: "get_rep y st \<in> scc_C st" if "y \<in> scc_C st" for y using c(15) [OF that] by blast
      consider "r = v" | "r \<in> set new" | "r \<in> scc_C st" using r by (auto simp: w)
      then show ?thesis
      proof cases
        case 1
        have "{x \<in> scc_C ?s. get_rep x ?s = v} = ?S" using rC n(9) by (auto simp: w)
        then show ?thesis using subv 1 by simp
      next
        case 2
        then have "{x \<in> scc_C ?s. get_rep x ?s = r} = {}" using rC n(3) CS by (auto simp: w)
        then show ?thesis using 2 n(3) by (auto simp: wb)
      next
        case 3
        then have "{x \<in> scc_C ?s. get_rep x ?s = r} = {x \<in> scc_C st. get_rep x st = r}" using n(9) CS by (auto simp: w)
        then show ?thesis using b(3) [OF 3] CS [OF 3] by (simp add: wb)
      qed
    qed
    show "scc_sub ?s r = {}" "get_rep r ?s = UINT_MAX" if "r \<notin> scc_V ?s" for r
      using that b(4) [of r] n(8) by (auto simp: w wb)
    show "r \<in> scc_R ?s \<longleftrightarrow> \<not> scc_sub ?s r \<subseteq> {r}" for r
    proof -
      consider "r = v" | "r \<noteq> v" "r \<in> set new" | "r \<notin> ?S" by blast
      then show ?thesis
      proof cases
        case 1
        show ?thesis
        proof (cases new)
          case Nil
          then show ?thesis using b(5) [of v] 1 by (simp add: wb)
        next
          case (Cons a l)
          then have "a \<in> scc_sub ?s v" "a \<noteq> v" using n(3) by (auto simp: wb)
          then show ?thesis using Cons 1 by (auto simp: wb(2))
        qed
      next
        case 2
        then show ?thesis by (auto simp: wb)
      next
        case 3
        then show ?thesis using b(5) [of r] by (simp add: wb)
      qed
    qed
    show "set (scc_T ?s) = {x \<in> scc_C ?s. get_rep x ?s = x}" using b(6) n(3,9) CS by (auto simp: w)
    have "\<not> sreach G x v" if "x \<in> set (scc_T st)" for x
    proof
      assume "sreach G x v"
      then have "v \<in> scc_C st" by (rule closed_reach) (use that b(6) c(9) in auto)
      then show False using n(9) by blast
    qed
    then show "sorted_wrt (\<lambda>a b. \<not> sreach G b a) (scc_T ?s)" using b(7) by (simp add: w)
  qed
qed

section \<open>A visit\<close>

text \<open>What a visit leaves as it was.\<close>

definition scc_keep :: "scc_state \<Rightarrow> scc_state \<Rightarrow> bool" where
  "scc_keep s t \<longleftrightarrow> scc_V s \<subseteq> scc_V t \<and> scc_I s \<le> scc_I t \<and>
     (\<forall>x \<in> scc_V s. scc_num x t = scc_num x s \<and> get_rep x t = get_rep x s \<and> (x \<in> scc_C t \<longleftrightarrow> x \<in> scc_C s)) \<and>
     (\<forall>x \<in> scc_V t - scc_V s. scc_I s < scc_num x t) \<and> (\<exists>new. scc_SS t = new @ scc_SS s \<and> set new \<inter> scc_V s = {})"

lemma scc_keep_trans: "scc_keep s t \<Longrightarrow> scc_keep t u \<Longrightarrow> scc_keep s u"
proof -
  assume st: "scc_keep s t" and tu: "scc_keep t u"
  obtain n1 where n1: "scc_SS t = n1 @ scc_SS s" "set n1 \<inter> scc_V s = {}" using st by (auto simp: scc_keep_def)
  obtain n2 where n2: "scc_SS u = n2 @ scc_SS t" "set n2 \<inter> scc_V t = {}" using tu by (auto simp: scc_keep_def)
  have V: "scc_V s \<subseteq> scc_V t" "scc_V t \<subseteq> scc_V u" "scc_I s \<le> scc_I t" "scc_I t \<le> scc_I u"
    using st tu by (auto simp: scc_keep_def)
  have k: "scc_num x u = scc_num x s \<and> get_rep x u = get_rep x s \<and> (x \<in> scc_C u \<longleftrightarrow> x \<in> scc_C s)" if "x \<in> scc_V s" for x
  proof -
    have "x \<in> scc_V t" using V that by blast
    then show ?thesis using st tu that by (simp add: scc_keep_def)
  qed
  have n: "scc_I s < scc_num x u" if "x \<in> scc_V u - scc_V s" for x
  proof (cases "x \<in> scc_V t")
    case True
    then have "scc_num x u = scc_num x t" "scc_I s < scc_num x t" using st tu that by (auto simp: scc_keep_def)
    then show ?thesis by simp
  next
    case False
    then have "scc_I t < scc_num x u" using tu that by (simp add: scc_keep_def)
    then show ?thesis using V by simp
  qed
  have "\<exists>new. scc_SS u = new @ scc_SS s \<and> set new \<inter> scc_V s = {}"
    by (rule exI [of _ "n2 @ n1"]) (use n1 n2 V in auto)
  then show ?thesis unfolding scc_keep_def using V k n by auto
qed

definition scc_inv :: "scc_graph \<Rightarrow> NodeID set \<Rightarrow> scc_state \<Rightarrow> bool" where
  "scc_inv G g st \<longleftrightarrow> scc_core G g st \<and> scc_book G st"

text \<open>
  What a visit of \<open>v\<close> has achieved, and what its loop over the edges has achieved after the targets in \<open>D\<close>;
  the edges of the nodes in \<open>Y\<close> are accounted for by the representative of \<open>v\<close>.
\<close>

definition scc_post :: "scc_graph \<Rightarrow> NodeID set \<Rightarrow> NodeID \<Rightarrow> scc_state \<Rightarrow> scc_state \<Rightarrow> bool" where
  "scc_post G g v s t \<longleftrightarrow> scc_inv G g t \<and> scc_keep s t \<and> v \<in> scc_V t \<and> (\<forall>x \<in> scc_V t - scc_V s. sreach G v x) \<and>
     (\<forall>y \<in> scc_V t - scc_V s. \<forall>u \<in> scc_A s. sedge G y u \<longrightarrow> v \<notin> scc_C t \<and> scc_num (get_rep v t) t \<le> scc_num u s)"

definition scc_loop :: "scc_graph \<Rightarrow> NodeID set \<Rightarrow> NodeID \<Rightarrow> scc_state \<Rightarrow> NodeID set \<Rightarrow> NodeID set \<Rightarrow> scc_state \<Rightarrow> bool" where
  "scc_loop G g v s Y D t \<longleftrightarrow> scc_inv G (insert v g) t \<and> scc_keep s t \<and> v \<in> scc_V t \<and> v \<notin> scc_V s \<and> scc_num v t = Suc (scc_I s) \<and>
     (\<forall>x \<in> scc_V t - scc_V s. sreach G v x) \<and> D \<subseteq> scc_V t \<and>
     (\<forall>y \<in> Y. \<forall>u \<in> scc_A s. sedge G y u \<longrightarrow> scc_num (get_rep v t) t \<le> scc_num u s) \<and>
     (\<forall>w \<in> D. w \<in> scc_A s \<longrightarrow> scc_num (get_rep v t) t \<le> scc_num w s)"

lemma scc_loop_start:
  assumes G: "scc_graph_ok G" and inv: "scc_inv G g s" and v: "v \<in> scc_nodes G" "v \<notin> scc_V s"
    and reach: "\<And>x. x \<in> g \<Longrightarrow> sreach G x v"
  shows "scc_loop G g v s {} {} (scc_start v s)"
proof -
  have core: "scc_core G g s" and book: "scc_book G s" using inv by (simp_all add: scc_inv_def)
  note c = scc_coreD [OF core]
  note w = scc_start_views [OF c(1) scc_small [OF G v(1)]]
  note st = scc_start_core [OF G core v reach]
  have I: "scc_I (scc_start v s) = Suc (scc_I s)" using st(2) by (simp add: w)
  have "scc_keep s (scc_start v s)"
    unfolding scc_keep_def using v(2) I st(2) by (auto simp: w(1,2,3,4,5))
  then show ?thesis
    using st scc_start_book [OF G core book v] v(2) by (simp add: scc_loop_def scc_inv_def w(1) insert_Diff_if)
qed

text \<open>The step for one target, after its visit.\<close>

lemma scc_loop_update:
  assumes G: "scc_graph_ok G" and loop: "scc_loop G g v s Y D t" and w: "sedge G v w" "w \<in> scc_V t"
  shows "scc_loop G g v s Y (insert w D) (scc_update v w t)"
    "w \<notin> scc_C t \<Longrightarrow> scc_num (get_rep v (scc_update v w t)) t \<le> scc_num (get_rep w t) t"
proof -
  note l = loop [unfolded scc_loop_def scc_inv_def]
  have core: "scc_core G (insert v g) t" and book: "scc_book G t" using l by blast+
  note c = scc_coreD [OF core]
  have keep: "scc_keep s t" using l by blast
  have "scc_loop G g v s Y (insert w D) (scc_update v w t) \<and>
    (w \<notin> scc_C t \<longrightarrow> scc_num (get_rep v (scc_update v w t)) t \<le> scc_num (get_rep w t) t)"
  proof (cases "w \<in> scc_C t")
    case True
    have "w \<notin> scc_A s" using keep True by (auto simp: scc_keep_def scc_A_def)
    then show ?thesis using l True w(2) by (simp add: scc_update_views(8) scc_loop_def scc_inv_def)
  next
    case False
    obtain r where r: "scc_update v w t = set_rep v r t" "r \<in> scc_A t" "scc_num r t \<le> scc_num (get_rep v t) t"
      "scc_num r t \<le> scc_num (get_rep w t) t" "sreach G v r"
      using scc_update_rep [OF core w False] .
    have vA: "v \<in> scc_A t" "w \<in> scc_A t" using c(7) False w(2) by (auto simp: scc_A_def)
    have low: "scc_num r t \<le> scc_num v t" "scc_num r t \<le> scc_num w t"
      using r(3,4) c(13) [OF vA(1)] c(13) [OF vA(2)] by linarith+
    have small: "v < 2 ^ 32" "r < 2 ^ 32" using scc_small [OF G] c(2) vA(1) r(2) by (auto simp: scc_A_def)
    have inv: "scc_inv G (insert v g) (set_rep v r t)"
      using scc_set_rep_core [OF core small r(2) low(1) r(5)] scc_set_rep_book [OF core book small r(2) low(1) r(5)]
      by (simp add: scc_inv_def)
    have vs: "v \<notin> scc_V s" using l by blast
    have keep': "scc_keep s (set_rep v r t)" using keep vs by (auto simp: scc_keep_def)
    have ws: "scc_num w t = scc_num w s" if "w \<in> scc_A s" using keep that by (auto simp: scc_keep_def scc_A_def)
    have 1: "\<forall>y \<in> Y. \<forall>u \<in> scc_A s. sedge G y u \<longrightarrow> scc_num r t \<le> scc_num u s"
      using l r(3) le_trans by blast
    have 2: "\<forall>x \<in> insert w D. x \<in> scc_A s \<longrightarrow> scc_num r t \<le> scc_num x s"
    proof (intro ballI impI)
      fix x assume x: "x \<in> insert w D" "x \<in> scc_A s"
      show "scc_num r t \<le> scc_num x s"
      proof (cases "x = w")
        case True then show ?thesis using low(2) ws x(2) by simp
      next
        case False
        then have "scc_num (get_rep v t) t \<le> scc_num x s" using l x by blast
        then show ?thesis using r(3) by simp
      qed
    qed
    have "scc_loop G g v s Y (insert w D) (set_rep v r t)"
      unfolding scc_loop_def using inv keep' l w(2) 1 2 by simp
    then show ?thesis using r by simp
  qed
  then show "scc_loop G g v s Y (insert w D) (scc_update v w t)"
    "w \<notin> scc_C t \<Longrightarrow> scc_num (get_rep v (scc_update v w t)) t \<le> scc_num (get_rep w t) t" by blast+
qed

text \<open>The step for a target that is visited first.\<close>

lemma scc_loop_child:
  assumes G: "scc_graph_ok G" and loop: "scc_loop G g v s (scc_V t - scc_V s - {v}) D t" and w: "sedge G v w" "w \<notin> scc_V t"
    and post: "scc_post G (insert v g) w t u"
  shows "scc_loop G g v s (scc_V u - scc_V s - {v}) (insert w D) (scc_update v w u)"
proof -
  note l = loop [unfolded scc_loop_def] and p = post [unfolded scc_post_def]
  have ks: "scc_keep s t" "scc_keep t u" "scc_keep s u" using l p scc_keep_trans by blast+
  have vV: "v \<in> scc_V t" using l by blast
  have V: "scc_V s \<subseteq> scc_V t" "scc_V t \<subseteq> scc_V u" using ks by (simp_all add: scc_keep_def)
  have old: "scc_num x u = scc_num x t" "get_rep x u = get_rep x t" "x \<in> scc_C u \<longleftrightarrow> x \<in> scc_C t" if "x \<in> scc_V t" for x
    using ks(2) that by (auto simp: scc_keep_def)
  have invu: "scc_inv G (insert v g) u" using p by blast
  have core: "scc_core G (insert v g) t" using l by (simp add: scc_inv_def)
  have "v \<in> scc_A t" using scc_coreD(7) [OF core] by simp
  then have "get_rep v t \<in> scc_V t" using scc_coreD(13) [OF core] by (simp add: scc_A_def)
  then have rv: "scc_num (get_rep v u) u = scc_num (get_rep v t) t" using old vV by simp
  have reach: "\<forall>x \<in> scc_V u - scc_V s. sreach G v x"
  proof
    fix x assume x: "x \<in> scc_V u - scc_V s"
    show "sreach G v x"
    proof (cases "x \<in> scc_V t")
      case True then show ?thesis using l x by blast
    next
      case False
      then have "sreach G w x" using p x by blast
      then show ?thesis using w(1) by (rule converse_rtranclp_into_rtranclp [rotated])
    qed
  qed
  have "scc_loop G g v s (scc_V t - scc_V s - {v}) D u"
    unfolding scc_loop_def rv
  proof (intro conjI)
    show "v \<in> scc_V u" "D \<subseteq> scc_V u" using l V by blast+
    show "scc_num v u = Suc (scc_I s)" using l old(1) [OF vV] by simp
  qed (use l invu ks(3) reach in \<open>(simp; fail)+\<close>)
  note up = scc_loop_update [OF G this w(1) conjunct1 [OF conjunct2 [OF conjunct2 [OF p]]]]
  let ?t = "scc_update v w u"
  have "scc_num (get_rep v ?t) u \<le> scc_num x s" if y: "y \<in> scc_V u - scc_V s - {v}" and x: "x \<in> scc_A s" "sedge G y x" for x y
  proof (cases "y \<in> scc_V t")
    case True
    then show ?thesis using up(1) y x unfolding scc_loop_def scc_update_views(3) by blast
  next
    case False
    have xA: "x \<in> scc_A t" "scc_num x t = scc_num x s" using ks(1) x(1) by (auto simp: scc_keep_def scc_A_def)
    have "w \<notin> scc_C u \<and> scc_num (get_rep w u) u \<le> scc_num x t" using p y xA(1) x(2) False by blast
    then have "w \<notin> scc_C u" "scc_num (get_rep w u) u \<le> scc_num x s" using xA(2) by simp_all
    then show ?thesis using up(2) by linarith
  qed
  then show ?thesis using up(1) unfolding scc_loop_def scc_update_views(3) by blast
qed

text \<open>The end of a visit: the loop has seen every target.\<close>

lemma scc_loop_finish:
  assumes G: "scc_graph_ok G" and invs: "scc_inv G g s" and ch: "sg_child G v = Some ws"
    and loop: "scc_loop G g v s (scc_V t - scc_V s - {v}) (set ws) t"
  shows "scc_post G g v s (scc_finish v t)"
proof -
  note l = loop [unfolded scc_loop_def scc_inv_def]
  have core: "scc_core G (insert v g) t" and book: "scc_book G t" using l by blast+
  note c = scc_coreD [OF core]
  have cs: "scc_core G g s" using invs by (simp add: scc_inv_def)
  note d = scc_coreD [OF cs]
  have keep: "scc_keep s t" and vs: "v \<notin> scc_V s" and vt: "v \<in> scc_V t" and nv: "scc_num v t = Suc (scc_I s)" using l by blast+
  have gV: "x \<in> scc_V s" if "x \<in> g \<union> set (scc_SS s)" for x using that d(7) by (auto simp: scc_A_def)
  have vg: "v \<notin> g" using gV vs by blast
  have edges: "w \<in> scc_V t" "w \<in> scc_A s \<Longrightarrow> scc_num (get_rep v t) t \<le> scc_num w s" if "sedge G v w" for w
  proof -
    have "w \<in> set ws" using that ch by (simp add: sedge_def)
    then show "w \<in> scc_V t" "w \<in> scc_A s \<Longrightarrow> scc_num (get_rep v t) t \<le> scc_num w s" using l by blast+
  qed
  obtain new where new: "scc_SS t = new @ scc_SS s" "set new \<inter> scc_V s = {}" using keep by (auto simp: scc_keep_def)
  have low: "scc_num (get_rep v t) t \<le> scc_num u s" if "y \<in> scc_V t - scc_V s" "u \<in> scc_A s" "sedge G y u" for y u
    using that l edges(2) [of u] by (cases "y = v") blast+
  have old: "scc_num x t = scc_num x s" "scc_num x s \<le> scc_I s" if "x \<in> scc_V s" for x
    using that keep d(5) by (auto simp: scc_keep_def)
  show ?thesis
  proof (cases "get_rep v t = v")
    case False
    have e: "scc_finish v t = t\<lparr>scc_SS := v # scc_SS t\<rparr>" using False by (simp add: scc_finish_def)
    have inv: "scc_inv G g (scc_finish v t)"
      using scc_finish_open [OF core vg False edges(1)] scc_finish_open_book [OF book False] by (simp add: scc_inv_def)
    have k: "scc_keep s (scc_finish v t)"
      using keep vs new by (auto simp: scc_keep_def e intro: exI [of _ "v # new"])
    have "v \<in> scc_A t" using c(7) by simp
    then have "v \<notin> scc_C t" by (simp add: scc_A_def)
    then show ?thesis
      unfolding scc_post_def using inv k vt l low by (simp add: e)
  next
    case True
    have hi: "scc_num v t < scc_num w t" if w: "w \<in> set new" for w
    proof -
      have wA: "w \<in> scc_A t" "w \<noteq> v" using c(7,8) new(1) w by auto
      then have "w \<in> scc_V t - scc_V s" using new(2) w by (auto simp: scc_A_def)
      then have "scc_I s < scc_num w t" using keep by (simp add: scc_keep_def)
      moreover have "scc_num w t \<noteq> scc_num v t" using inj_onD [OF c(6), of w v] wA vt by (auto simp: scc_A_def)
      ultimately show ?thesis using nv by simp
    qed
    have lo: "scc_num w t < scc_num v t" if "w \<in> g \<union> set (scc_SS s)" for w using old [OF gV [OF that]] nv by simp
    have none: "\<not> sedge G y u" if y: "y \<in> insert v (set new)" and u: "u \<in> g \<union> set (scc_SS s)" for y u
    proof
      assume e: "sedge G y u"
      have "y \<in> scc_V t - scc_V s" using y vt vs new c(7) by (auto simp: scc_A_def)
      then have "scc_num v t \<le> scc_num u s" using low [of y u] e u d(7) True by simp
      then show False using old [OF gV [OF u]] nv by simp
    qed
    have cl: "scc_closing G g v new (scc_SS s) t"
      unfolding scc_closing_def using core vg True edges(1) new(1) hi lo none by blast
    note w = scc_finish_views [OF cl]
    have inv: "scc_inv G g (scc_finish v t)"
      using scc_finish_close(1) [OF G cl] scc_finish_close_book [OF G book cl] by (simp add: scc_inv_def)
    have nS: "x \<notin> insert v (set new)" if "x \<in> scc_V s" for x using that vs new(2) by blast
    have k: "scc_keep s (scc_finish v t)" using keep nS by (auto simp: scc_keep_def w)
    have "\<not> sedge G y u" if "y \<in> scc_V t - scc_V s" "u \<in> scc_A s" for y u
    proof
      assume "sedge G y u"
      then have "scc_num v t \<le> scc_num u s" using low [OF that] True by simp
      moreover have "u \<in> scc_V s" using that(2) by (simp add: scc_A_def)
      ultimately show False using old nv by fastforce
    qed
    then show ?thesis unfolding scc_post_def using inv k vt l by (simp add: w)
  qed
qed

text \<open>Every visit ends and does its part.\<close>

lemma scc_visit_post:
  assumes G: "scc_graph_ok G" and "scc_inv G g s" "v \<in> scc_nodes G" "v \<notin> scc_V s" "\<And>x. x \<in> g \<Longrightarrow> sreach G x v"
  shows "\<exists>t. scc_visit G v s = Some t \<and> scc_post G g v s t"
  using assms(2-)
proof (induction "card (scc_nodes G - scc_V s)" arbitrary: g v s rule: less_induct)
  case less
  obtain ws where ws: "sg_child G v = Some ws" using less.prems(2) by (auto simp: scc_nodes_def)
  let ?f = "\<lambda>w st. do { st \<leftarrow> (if \<not> scc_visited w st then scc_visit G w st else Some st); Some (scc_update v w st) }"
  have fin: "finite (scc_nodes G)" using G by (simp add: scc_graph_ok_def)
  have loop: "\<exists>u. ofold ?f xs t = Some u \<and> scc_loop G g v s (scc_V u - scc_V s - {v}) (D \<union> set xs) u"
    if "scc_loop G g v s (scc_V t - scc_V s - {v}) D t" "set xs \<subseteq> set ws" for xs t D
    using that
  proof (induction xs arbitrary: t D)
    case (Cons w xs)
    note l = Cons.prems(1) [unfolded scc_loop_def]
    have e: "sedge G v w" using ws Cons.prems(2) by (auto simp: sedge_def)
    have "\<exists>t'. ?f w t = Some t' \<and> scc_loop G g v s (scc_V t' - scc_V s - {v}) (insert w D) t'"
    proof (cases "w \<in> scc_V t")
      case True
      then show ?thesis using scc_loop_update(1) [OF G Cons.prems(1) e True] by (simp add: scc_V_def scc_visited_def scc_update_views(1) [unfolded scc_V_def scc_visited_def])
    next
      case False
      have wn: "w \<in> scc_nodes G" using G e by (auto simp: scc_graph_ok_def)
      have "scc_V s \<subset> scc_V t" "scc_V t \<subseteq> scc_nodes G" using l less.prems(3) scc_coreD(2) [of G "insert v g" t]
        by (auto simp: scc_keep_def scc_inv_def)
      then have "scc_nodes G - scc_V t \<subset> scc_nodes G - scc_V s" using less.prems(2,3) l by blast
      then have m: "card (scc_nodes G - scc_V t) < card (scc_nodes G - scc_V s)" using fin by (simp add: psubset_card_mono)
      have inv: "scc_inv G (insert v g) t" using l by blast
      have "sreach G x w" if "x \<in> insert v g" for x
        using that less.prems(4) e by (auto intro: rtranclp.rtrancl_into_rtrancl)
      then obtain u where u: "scc_visit G w t = Some u" "scc_post G (insert v g) w t u"
        using less.hyps [OF m inv wn False] by blast
      have "scc_loop G g v s (scc_V u - scc_V s - {v}) (insert w D) (scc_update v w u)"
        by (rule scc_loop_child [OF G Cons.prems(1) e False u(2)])
      then show ?thesis using u(1) False by (simp add: scc_V_def [of t] scc_update_views(1))
    qed
    then obtain t' where t': "?f w t = Some t'" "scc_loop G g v s (scc_V t' - scc_V s - {v}) (insert w D) t'" by blast
    show ?case using Cons.IH [OF t'(2)] Cons.prems(2) t'(1) by simp
  qed simp
  have "scc_V (scc_start v s) - scc_V s - {v} = {}"
    using scc_start_views(1) [OF scc_coreD(1)] scc_small [OF G less.prems(2)] less.prems(1) by (auto simp: scc_inv_def)
  then have l0: "scc_loop G g v s (scc_V (scc_start v s) - scc_V s - {v}) {} (scc_start v s)"
    using scc_loop_start [OF G less.prems] by (simp only:)
  obtain u where u: "ofold ?f ws (scc_start v s) = Some u" "scc_loop G g v s (scc_V u - scc_V s - {v}) (set ws) u"
    using loop [OF l0 subset_refl] by auto
  have "scc_visit G v s = Some (scc_finish v u)" by (subst scc_visit.simps) (simp add: ws u(1) [simplified])
  then show ?case using scc_loop_finish [OF G less.prems(1) ws u(2)] by blast
qed

section \<open>The search\<close>

lemma scc_new_inv: "scc_inv G {} scc_new" "scc_V scc_new = {}"
proof -
  have i: "scc_info_of n scc_new = scc_info_new" for n by (simp add: scc_info_of_def scc_new_def)
  have b: "sbv_bits sbv_new = {}" "sbv_inv sbv_new" by simp_all
  have v: "scc_V scc_new = {}" "scc_C scc_new = {}" "scc_sub scc_new = (\<lambda>_. {})" "scc_R scc_new = {}" "scc_bits_ok scc_new"
      "get_rep n scc_new = UINT_MAX" for n
    using b by (simp_all add: scc_V_def scc_C_def scc_visited_def scc_inSCC_def scc_sub_def scc_R_def scc_bits_ok_def get_rep_def i
        scc_info_new_def fun_eq_iff) (simp_all add: scc_new_def)
  then show "scc_inv G {} scc_new" "scc_V scc_new = {}"
    by (simp_all add: scc_inv_def scc_core_def scc_book_def scc_A_def) (simp_all add: scc_new_def)
qed

lemma scc_find_inv:
  assumes G: "scc_graph_ok G" and ns: "set ns \<subseteq> scc_nodes G"
  shows "\<exists>t. scc_find_nodes G ns = Some t \<and> scc_inv G {} t \<and> scc_V t = {x. \<exists>n \<in> set ns. sreach G n x}"
proof -
  let ?f = "\<lambda>n st. if \<not> scc_visited n st
     then if get_rep n st = UINT_MAX \<or> get_rep n st = n then scc_visit G n st else Some st else Some st"
  let ?P = "\<lambda>M t. scc_inv G {} t \<and> M \<subseteq> scc_V t \<and> scc_V t \<subseteq> {x. \<exists>n \<in> M. sreach G n x}"
  have loop: "\<exists>u. ofold ?f xs t = Some u \<and> ?P (M \<union> set xs) u" if "?P M t" "set xs \<subseteq> scc_nodes G" for xs M t
    using that
  proof (induction xs arbitrary: t M)
    case (Cons n xs)
    have "\<exists>u. ?f n t = Some u \<and> ?P (insert n M) u"
    proof (cases "n \<in> scc_V t")
      case True
      then show ?thesis using Cons.prems(1) by (auto simp: scc_V_def)
    next
      case False
      have i: "scc_inv G {} t" using Cons.prems(1) by blast
      have r: "get_rep n t = UINT_MAX" using scc_bookD(4) [of G t n] False i by (simp add: scc_inv_def)
      obtain u where u: "scc_visit G n t = Some u" "scc_post G {} n t u"
        using scc_visit_post [OF G i, of n] Cons.prems(2) False by auto
      have "?P (insert n M) u" using u(2) Cons.prems(1) by (auto simp: scc_post_def scc_keep_def)
      then show ?thesis using u(1) r False by (simp add: scc_V_def [of t])
    qed
    then obtain u where u: "?f n t = Some u" "?P (insert n M) u" by blast
    show ?case using Cons.IH [OF u(2)] Cons.prems(2) u(1) by simp
  qed simp
  have "?P {} scc_new" using scc_new_inv(1) [of G] scc_new_inv(2) by simp
  from loop [OF this ns] obtain t where t: "scc_find_nodes G ns = Some t" "?P (set ns) t"
    unfolding scc_find_nodes_def by auto
  have core: "scc_core G {} t" using t(2) by (simp add: scc_inv_def)
  have "x \<in> scc_V t" if "n \<in> set ns" "sreach G n x" for n x
    by (rule closed_reach [OF that(2)]) (use that(1) t(2) scc_coreD(10) [OF core] in auto)
  then show ?thesis using t by blast
qed

section \<open>The answers\<close>

text \<open>The component of a node.\<close>

definition component :: "scc_graph \<Rightarrow> NodeID \<Rightarrow> NodeID set" where
  "component G x = {y. sreach G x y \<and> sreach G y x}"

definition found_nodes :: "scc_graph \<Rightarrow> NodeID list \<Rightarrow> NodeID set" where
  "found_nodes G ns = {x. \<exists>n \<in> set ns. sreach G n x}"

lemma scc_info_present: "x \<in> scc_V t \<Longrightarrow> map_of (NodeSCCAuxInfo t) x = Some (scc_info_of x t)"
  by (auto simp: scc_V_def scc_visited_def scc_info_of_def km_get_def scc_info_new_def split: option.splits)

lemma scc_done:
  assumes inv: "scc_inv G {} t"
  shows "scc_C t = scc_V t" "x \<in> scc_V t \<Longrightarrow> get_rep x t \<in> scc_V t" "x \<in> scc_V t \<Longrightarrow> component G x \<subseteq> scc_V t"
    "x \<in> scc_V t \<Longrightarrow> get_rep x t \<in> component G x"
    "x \<in> scc_V t \<Longrightarrow> y \<in> scc_V t \<Longrightarrow> get_rep x t = get_rep y t \<longleftrightarrow> y \<in> component G x"
    "x \<in> scc_V t \<Longrightarrow> scc_sub t (get_rep x t) = component G x"
    "x \<in> scc_V t \<Longrightarrow> x < UINT_MAX \<or> \<not> scc_graph_ok G"
proof -
  have core: "scc_core G {} t" and book: "scc_book G t" using inv by (simp_all add: scc_inv_def)
  note c = scc_coreD [OF core] and b = scc_bookD [OF book]
  have "scc_A t = {}" using c(12) by blast
  then show C: "scc_C t = scc_V t" using c(3) by (auto simp: scc_A_def)
  show r: "get_rep x t \<in> scc_V t" if "x \<in> scc_V t" for x using c(15) that unfolding C by blast
  have co: "y \<in> component G x \<longleftrightarrow> y \<in> scc_V t \<and> get_rep y t = get_rep x t" if "x \<in> scc_V t" for x y
    using c(15) that unfolding C component_def by blast
  show "component G x \<subseteq> scc_V t" if "x \<in> scc_V t" for x using co [OF that] by blast
  show "get_rep x t \<in> component G x" if "x \<in> scc_V t" for x using co [OF that] r [OF that] c(15) that unfolding C by blast
  show "get_rep x t = get_rep y t \<longleftrightarrow> y \<in> component G x" if "x \<in> scc_V t" "y \<in> scc_V t" for x y
    using co [OF that(1), of y] that(2) by auto
  show "scc_sub t (get_rep x t) = component G x" if "x \<in> scc_V t" for x
  proof -
    have "scc_sub t (get_rep x t) = {y \<in> scc_V t. get_rep y t = get_rep x t}" using b(3) r [OF that] unfolding C by blast
    then show ?thesis using co [OF that] by blast
  qed
  show "x \<in> scc_V t \<Longrightarrow> x < UINT_MAX \<or> \<not> scc_graph_ok G" using c(2) by (auto simp: scc_graph_ok_def)
qed

lemma scc_queries:
  assumes G: "scc_graph_ok G" and inv: "scc_inv G {} t" and x: "x \<in> scc_V t"
  shows "repNode x t = Some (get_rep x t)" "subNodes (get_rep x t) t = Some (in_sub (scc_info_of (get_rep x t) t))"
    "sbv_bits (in_sub (scc_info_of (get_rep x t) t)) = component G x" "isInCycle G x t = Some ((sedge G)\<^sup>+\<^sup>+ x x)"
proof -
  note d = scc_done [OF inv]
  have core: "scc_core G {} t" using inv by (simp add: scc_inv_def)
  have r: "get_rep x t \<in> scc_V t" "get_rep x t \<noteq> UINT_MAX" using d(2) [OF x] d(7) [of "get_rep x t"] G by auto
  show rep: "repNode x t = Some (get_rep x t)"
    using r(2) by (simp add: repNode_def scc_info_present [OF x] get_rep_def)
  show sub: "subNodes (get_rep x t) t = Some (in_sub (scc_info_of (get_rep x t) t))"
    by (simp add: subNodes_def scc_info_present [OF r(1)])
  show bits: "sbv_bits (in_sub (scc_info_of (get_rep x t) t)) = component G x" using d(6) [OF x] by (simp add: scc_sub_def)
  have "sbv_inv (in_sub (scc_info_of (get_rep x t) t))" using scc_coreD(1) [OF core] by (simp add: scc_bits_ok_def)
  moreover have small: "card (component G x) < 2 ^ 32"
    using scc_card [OF G, of "component G x"] d(3) [OF x] scc_coreD(2) [OF core] by blast
  ultimately have count: "sbv_count (in_sub (scc_info_of (get_rep x t) t)) = card (component G x)"
    using bits sbv_count_spec u32_id [OF small] by simp
  obtain ws where ws: "sg_child G (get_rep x t) = Some ws"
    using r(1) scc_coreD(2) [OF core] by (auto simp: scc_nodes_def)
  have fin: "finite (component G x)"
    using G d(3) [OF x] scc_coreD(2) [OF core] by (meson finite_subset scc_graph_ok_def)
  have xc: "x \<in> component G x" by (simp add: component_def)
  show "isInCycle G x t = Some ((sedge G)\<^sup>+\<^sup>+ x x)"
  proof (cases "card (component G x) > 1")
    case True
    then obtain y where y: "y \<in> component G x" "y \<noteq> x"
      using fin xc by (metis card_le_Suc0_iff_eq not_less One_nat_def)
    then have "(sedge G)\<^sup>+\<^sup>+ x y" "sreach G y x" by (auto simp: component_def dest: rtranclpD)
    then have "(sedge G)\<^sup>+\<^sup>+ x x" by (rule tranclp_rtranclp_tranclp)
    then show ?thesis using rep sub count True by (simp add: isInCycle_def)
  next
    case False
    have "card (component G x) = 1"
    proof -
      have "0 < card (component G x)" using fin xc by (auto simp: card_gt_0_iff)
      then show ?thesis using False by linarith
    qed
    then have one: "component G x = {x}" using xc by (auto simp: card_1_singleton_iff)
    then have rx: "get_rep x t = x" using d(4) [OF x] by simp
    have "(sedge G)\<^sup>+\<^sup>+ x x \<longleftrightarrow> sedge G x x"
    proof
      assume "(sedge G)\<^sup>+\<^sup>+ x x"
      then obtain y where y: "sedge G x y" "sreach G y x" by (auto dest: tranclpD)
      then have "y \<in> component G x" by (auto simp: component_def)
      then show "sedge G x x" using y(1) one by simp
    qed auto
    moreover have "sedge G x x \<longleftrightarrow> x \<in> set ws" using ws rx by (simp add: sedge_def)
    ultimately show ?thesis using rep sub count False ws rx by (simp add: isInCycle_def)
  qed
qed

lemma scc_books:
  assumes inv: "scc_inv G {} t"
  shows "set (scc_T t) = {x \<in> scc_V t. get_rep x t = x}" "sorted_wrt (\<lambda>a b. \<not> sreach G b a) (scc_T t)"
    "sbv_bits (scc_repNodes t) = {x \<in> scc_V t. get_rep x t = x \<and> component G x \<noteq> {x}}"
proof -
  have core: "scc_core G {} t" and book: "scc_book G t" using inv by (simp_all add: scc_inv_def)
  note d = scc_done [OF inv] and b = scc_bookD [OF book]
  show "set (scc_T t) = {x \<in> scc_V t. get_rep x t = x}" using b(6) d(1) by simp
  show "sorted_wrt (\<lambda>a b. \<not> sreach G b a) (scc_T t)" by (rule b(7))
  have "r \<in> sbv_bits (scc_repNodes t) \<longleftrightarrow> r \<in> scc_V t \<and> get_rep r t = r \<and> component G r \<noteq> {r}" for r
  proof (cases "r \<in> scc_V t")
    case False
    then show ?thesis using b(4) [of r] b(5) [of r] by (simp add: scc_R_def)
  next
    case True
    have s: "scc_sub t r = {x \<in> scc_V t. get_rep x t = r}" using b(3) [of r] True d(1) by simp
    show ?thesis
    proof (cases "get_rep r t = r")
      case True
      then have "scc_sub t r = component G r" using d(6) [OF \<open>r \<in> scc_V t\<close>] by simp
      moreover have "r \<in> component G r" by (simp add: component_def)
      ultimately show ?thesis using b(5) [of r] True \<open>r \<in> scc_V t\<close> by (auto simp: scc_R_def)
    next
      case False
      have "get_rep x t \<noteq> r" if "x \<in> scc_V t" for x
      proof
        assume e: "get_rep x t = r"
        have "get_rep x t = get_rep (get_rep x t) t"
          using d(4) [OF that] d(5) [OF that d(2) [OF that]] by simp
        then show False using e False by simp
      qed
      then have "scc_sub t r = {}" using s by blast
      then show ?thesis using b(5) [of r] False by (simp add: scc_R_def)
    qed
  qed
  then show "sbv_bits (scc_repNodes t) = {x \<in> scc_V t. get_rep x t = x \<and> component G x \<noteq> {x}}" by blast
qed

lemma sorted_irrefl_distinct:
  assumes "sorted_wrt P xs" "\<And>x. \<not> P x x"
  shows "distinct xs"
  using assms by (induction xs) auto

section \<open>A sample\<close>

text \<open>Two nodes on a cycle and one behind it.\<close>

definition sample_scc :: scc_graph where
  "sample_scc = \<lparr>sg_nodes = [0, 1, 2], sg_child = [0 \<mapsto> [1], 1 \<mapsto> [0, 2], 2 \<mapsto> []]\<rparr>"

lemma sample_scc_ok: "scc_graph_ok sample_scc" "0 \<in> scc_nodes sample_scc"
proof -
  have n: "scc_nodes sample_scc = {0, 1, 2}" by (auto simp: scc_nodes_def sample_scc_def split: if_splits)
  then show "scc_graph_ok sample_scc" "0 \<in> scc_nodes sample_scc"
    unfolding scc_graph_ok_def n by (auto simp: sedge_def sample_scc_def UINT_MAX_def split: if_splits)
qed

lemma sample_scc_found:
  "0 \<in> found_nodes sample_scc [0]" "1 \<in> found_nodes sample_scc [0]" "1 \<in> component sample_scc 0"
  "(sedge sample_scc)\<^sup>+\<^sup>+ 1 1"
proof -
  have e: "sedge sample_scc 0 1" "sedge sample_scc 1 0" by (simp_all add: sedge_def sample_scc_def)
  show "0 \<in> found_nodes sample_scc [0]" "1 \<in> found_nodes sample_scc [0]" "1 \<in> component sample_scc 0"
    using e by (auto simp: found_nodes_def component_def)
  show "(sedge sample_scc)\<^sup>+\<^sup>+ 1 1" using tranclp.trancl_into_trancl [OF tranclp.r_into_trancl [of "sedge sample_scc", OF e(2)] e(1)] .
qed

end
