(* ===== verification/ConsGraph.thy ===== *)
theory ConsGraph
  imports GenGraph KeyMaps BitVectors WorkLists SCCDetect
begin

text \<open>
  The constraint graph of Andersen's analysis (svf/include/Graphs/ConsG.h, ConsGNode.h, ConsGEdge.h and
  svf/lib/Graphs/ConsG.cpp). An edge is known by its kind and its ends; what else an edge object carries, its
  number and the field offset of its access path, is found under the edge.
\<close>

section \<open>Edges\<close>

text \<open>The kinds, in the order of the enumeration.\<close>

abbreviation (input) KAddr :: nat where "KAddr \<equiv> 0"
abbreviation (input) KCopy :: nat where "KCopy \<equiv> 1"
abbreviation (input) KStore :: nat where "KStore \<equiv> 2"
abbreviation (input) KLoad :: nat where "KLoad \<equiv> 3"
abbreviation (input) KNormalGep :: nat where "KNormalGep \<equiv> 4"
abbreviation (input) KVariantGep :: nat where "KVariantGep \<equiv> 5"

definition is_gep :: "gedge \<Rightarrow> bool" where
  "is_gep e \<longleftrightarrow> getEdgeKind e = KNormalGep \<or> getEdgeKind e = KVariantGep"

definition isdirectEdge :: "nat \<Rightarrow> bool" where
  "isdirectEdge k \<longleftrightarrow> k = KCopy \<or> k = KNormalGep \<or> k = KVariantGep"

type_synonym APOffset = int

section \<open>Nodes\<close>

text \<open>The edge sets of one side of a node.\<close>

record edge_sets =
  es_all :: "gedge list"
  es_load :: "gedge list"
  es_store :: "gedge list"
  es_direct :: "gedge list"
  es_copy :: "gedge list"
  es_gep :: "gedge list"
  es_addr :: "gedge list"

definition edge_sets_new :: edge_sets where
  "edge_sets_new = \<lparr>es_all = [], es_load = [], es_store = [], es_direct = [], es_copy = [], es_gep = [], es_addr = []\<rparr>"

record cons_node =
  isPWCNode :: bool
  cn_in :: edge_sets
  cn_out :: edge_sets

definition cons_node_new :: cons_node where
  "cons_node_new = \<lparr>isPWCNode = False, cn_in = edge_sets_new, cn_out = edge_sets_new\<rparr>"

text \<open>Adding: a direct edge and an outgoing load or store must be new in both sets.\<close>

definition es_add_direct :: "gedge \<Rightarrow> edge_sets \<Rightarrow> edge_sets option" where
  "es_add_direct e s =
     (let (added1, D) = oset_insert e (es_direct s); (added2, A) = oset_insert e (es_all s)
      in if added1 \<and> added2 then Some (s\<lparr>es_direct := D, es_all := A\<rparr>) else None)"

definition addIncomingDirectEdge :: "NodeID \<Rightarrow> gedge \<Rightarrow> cons_node \<Rightarrow> cons_node option" where
  "addIncomingDirectEdge i e n = (if getDstID e = i then do { s \<leftarrow> es_add_direct e (cn_in n); Some (n\<lparr>cn_in := s\<rparr>) } else None)"

definition addOutgoingDirectEdge :: "NodeID \<Rightarrow> gedge \<Rightarrow> cons_node \<Rightarrow> cons_node option" where
  "addOutgoingDirectEdge i e n = (if getSrcID e = i then do { s \<leftarrow> es_add_direct e (cn_out n); Some (n\<lparr>cn_out := s\<rparr>) } else None)"

definition es_add_copy :: "gedge \<Rightarrow> edge_sets \<Rightarrow> edge_sets" where
  "es_add_copy e s = s\<lparr>es_copy := snd (oset_insert e (es_copy s))\<rparr>"

definition es_add_gep :: "gedge \<Rightarrow> edge_sets \<Rightarrow> edge_sets" where
  "es_add_gep e s = s\<lparr>es_gep := snd (oset_insert e (es_gep s))\<rparr>"

definition addIncomingCopyEdge :: "NodeID \<Rightarrow> gedge \<Rightarrow> cons_node \<Rightarrow> cons_node option" where
  "addIncomingCopyEdge i e n = do { n \<leftarrow> addIncomingDirectEdge i e n; Some (n\<lparr>cn_in := es_add_copy e (cn_in n)\<rparr>) }"

definition addIncomingGepEdge :: "NodeID \<Rightarrow> gedge \<Rightarrow> cons_node \<Rightarrow> cons_node option" where
  "addIncomingGepEdge i e n = do { n \<leftarrow> addIncomingDirectEdge i e n; Some (n\<lparr>cn_in := es_add_gep e (cn_in n)\<rparr>) }"

definition addOutgoingCopyEdge :: "NodeID \<Rightarrow> gedge \<Rightarrow> cons_node \<Rightarrow> cons_node option" where
  "addOutgoingCopyEdge i e n = do { n \<leftarrow> addOutgoingDirectEdge i e n; Some (n\<lparr>cn_out := es_add_copy e (cn_out n)\<rparr>) }"

definition addOutgoingGepEdge :: "NodeID \<Rightarrow> gedge \<Rightarrow> cons_node \<Rightarrow> cons_node option" where
  "addOutgoingGepEdge i e n = do { n \<leftarrow> addOutgoingDirectEdge i e n; Some (n\<lparr>cn_out := es_add_gep e (cn_out n)\<rparr>) }"

definition es_add_addr :: "gedge \<Rightarrow> edge_sets \<Rightarrow> edge_sets" where
  "es_add_addr e s = s\<lparr>es_addr := snd (oset_insert e (es_addr s)), es_all := snd (oset_insert e (es_all s))\<rparr>"

definition addIncomingAddrEdge :: "gedge \<Rightarrow> cons_node \<Rightarrow> cons_node" where
  "addIncomingAddrEdge e n = n\<lparr>cn_in := es_add_addr e (cn_in n)\<rparr>"

definition addOutgoingAddrEdge :: "gedge \<Rightarrow> cons_node \<Rightarrow> cons_node" where
  "addOutgoingAddrEdge e n = n\<lparr>cn_out := es_add_addr e (cn_out n)\<rparr>"

definition addIncomingLoadEdge :: "gedge \<Rightarrow> cons_node \<Rightarrow> cons_node" where
  "addIncomingLoadEdge e n =
     n\<lparr>cn_in := (cn_in n)\<lparr>es_load := snd (oset_insert e (es_load (cn_in n))), es_all := snd (oset_insert e (es_all (cn_in n)))\<rparr>\<rparr>"

definition addIncomingStoreEdge :: "gedge \<Rightarrow> cons_node \<Rightarrow> cons_node" where
  "addIncomingStoreEdge e n =
     n\<lparr>cn_in := (cn_in n)\<lparr>es_store := snd (oset_insert e (es_store (cn_in n))), es_all := snd (oset_insert e (es_all (cn_in n)))\<rparr>\<rparr>"

definition addOutgoingLoadEdge :: "gedge \<Rightarrow> cons_node \<Rightarrow> cons_node option" where
  "addOutgoingLoadEdge e n =
     (let (added1, L) = oset_insert e (es_load (cn_out n)); (added2, A) = oset_insert e (es_all (cn_out n))
      in if added1 \<and> added2 then Some (n\<lparr>cn_out := (cn_out n)\<lparr>es_load := L, es_all := A\<rparr>\<rparr>) else None)"

definition addOutgoingStoreEdge :: "gedge \<Rightarrow> cons_node \<Rightarrow> cons_node option" where
  "addOutgoingStoreEdge e n =
     (let (added1, S) = oset_insert e (es_store (cn_out n)); (added2, A) = oset_insert e (es_all (cn_out n))
      in if added1 \<and> added2 then Some (n\<lparr>cn_out := (cn_out n)\<lparr>es_store := S, es_all := A\<rparr>\<rparr>) else None)"

text \<open>Removing: the edge must be in both sets.\<close>

definition es_remove_addr :: "gedge \<Rightarrow> edge_sets \<Rightarrow> edge_sets option" where
  "es_remove_addr e s = do {
     let (num1, F) = oset_erase e (es_addr s);
     (num2, A) \<leftarrow> remove_edge e (es_all s);
     if num1 > 0 \<and> num2 > 0 then Some (s\<lparr>es_addr := F, es_all := A\<rparr>) else None
   }"

definition es_remove_load :: "gedge \<Rightarrow> edge_sets \<Rightarrow> edge_sets option" where
  "es_remove_load e s = do {
     let (num1, F) = oset_erase e (es_load s);
     (num2, A) \<leftarrow> remove_edge e (es_all s);
     if num1 > 0 \<and> num2 > 0 then Some (s\<lparr>es_load := F, es_all := A\<rparr>) else None
   }"

definition es_remove_store :: "gedge \<Rightarrow> edge_sets \<Rightarrow> edge_sets option" where
  "es_remove_store e s = do {
     let (num1, F) = oset_erase e (es_store s);
     (num2, A) \<leftarrow> remove_edge e (es_all s);
     if num1 > 0 \<and> num2 > 0 then Some (s\<lparr>es_store := F, es_all := A\<rparr>) else None
   }"

definition es_remove_direct :: "gedge \<Rightarrow> edge_sets \<Rightarrow> edge_sets option" where
  "es_remove_direct e s = do {
     let s = (if is_gep e then s\<lparr>es_gep := snd (oset_erase e (es_gep s))\<rparr> else s\<lparr>es_copy := snd (oset_erase e (es_copy s))\<rparr>);
     let (num1, F) = oset_erase e (es_direct s);
     (num2, A) \<leftarrow> remove_edge e (es_all s);
     if num1 > 0 \<and> num2 > 0 then Some (s\<lparr>es_direct := F, es_all := A\<rparr>) else None
   }"

definition on_in :: "(edge_sets \<Rightarrow> edge_sets option) \<Rightarrow> cons_node \<Rightarrow> cons_node option" where
  "on_in f n = do { s \<leftarrow> f (cn_in n); Some (n\<lparr>cn_in := s\<rparr>) }"

definition on_out :: "(edge_sets \<Rightarrow> edge_sets option) \<Rightarrow> cons_node \<Rightarrow> cons_node option" where
  "on_out f n = do { s \<leftarrow> f (cn_out n); Some (n\<lparr>cn_out := s\<rparr>) }"

definition removeOutgoingAddrEdge :: "gedge \<Rightarrow> cons_node \<Rightarrow> cons_node option" where
  "removeOutgoingAddrEdge e = on_out (es_remove_addr e)"

definition removeIncomingAddrEdge :: "gedge \<Rightarrow> cons_node \<Rightarrow> cons_node option" where
  "removeIncomingAddrEdge e = on_in (es_remove_addr e)"

definition removeOutgoingDirectEdge :: "gedge \<Rightarrow> cons_node \<Rightarrow> cons_node option" where
  "removeOutgoingDirectEdge e = on_out (es_remove_direct e)"

definition removeIncomingDirectEdge :: "gedge \<Rightarrow> cons_node \<Rightarrow> cons_node option" where
  "removeIncomingDirectEdge e = on_in (es_remove_direct e)"

definition removeOutgoingLoadEdge :: "gedge \<Rightarrow> cons_node \<Rightarrow> cons_node option" where
  "removeOutgoingLoadEdge e = on_out (es_remove_load e)"

definition removeIncomingLoadEdge :: "gedge \<Rightarrow> cons_node \<Rightarrow> cons_node option" where
  "removeIncomingLoadEdge e = on_in (es_remove_load e)"

definition removeOutgoingStoreEdge :: "gedge \<Rightarrow> cons_node \<Rightarrow> cons_node option" where
  "removeOutgoingStoreEdge e = on_out (es_remove_store e)"

definition removeIncomingStoreEdge :: "gedge \<Rightarrow> cons_node \<Rightarrow> cons_node option" where
  "removeIncomingStoreEdge e = on_in (es_remove_store e)"

section \<open>The graph\<close>

record cons_graph =
  cg_base :: "cons_node gen_graph"
  nodeToRepMap :: "(NodeID \<times> NodeID) list"
  nodeToSubsMap :: "(NodeID \<times> sbv) list"
  nodesToBeCollapsed :: "NodeID fifo"
  edgeIndex :: nat
  AddrCGEdgeSet :: "gedge list"
  directEdgeSet :: "gedge list"
  LoadCGEdgeSet :: "gedge list"
  StoreCGEdgeSet :: "gedge list"
  edgeData :: "(gedge \<times> (nat \<times> APOffset)) list"

definition cons_graph_new :: cons_graph where
  "cons_graph_new = \<lparr>cg_base = gen_graph_new, nodeToRepMap = [], nodeToSubsMap = [], nodesToBeCollapsed = fifo_new,
     edgeIndex = 0, AddrCGEdgeSet = [], directEdgeSet = [], LoadCGEdgeSet = [], StoreCGEdgeSet = [], edgeData = []\<rparr>"

definition cg_sccRepNode :: "cons_graph \<Rightarrow> NodeID \<Rightarrow> NodeID" where
  "cg_sccRepNode G i = (case map_of (nodeToRepMap G) i of None \<Rightarrow> i | Some r \<Rightarrow> r)"

definition cg_sccSubNodes :: "NodeID \<Rightarrow> cons_graph \<Rightarrow> sbv \<times> cons_graph" where
  "cg_sccSubNodes i G =
     (let s = sbv_set (km_get sbv_new (nodeToSubsMap G) i) i in (s, G\<lparr>nodeToSubsMap := AList.update i s (nodeToSubsMap G)\<rparr>))"

definition setRep :: "NodeID \<Rightarrow> NodeID \<Rightarrow> cons_graph \<Rightarrow> cons_graph" where
  "setRep i r G = G\<lparr>nodeToRepMap := AList.update i r (nodeToRepMap G)\<rparr>"

definition setSubs :: "NodeID \<Rightarrow> sbv \<Rightarrow> cons_graph \<Rightarrow> cons_graph" where
  "setSubs i s G = G\<lparr>nodeToSubsMap := AList.update i (snd (sbv_or_assign (km_get sbv_new (nodeToSubsMap G) i) s)) (nodeToSubsMap G)\<rparr>"

definition resetSubs :: "NodeID \<Rightarrow> cons_graph \<Rightarrow> cons_graph" where
  "resetSubs i G = G\<lparr>nodeToSubsMap := AList.delete i (nodeToSubsMap G)\<rparr>"

definition getSubs :: "NodeID \<Rightarrow> cons_graph \<Rightarrow> sbv \<times> cons_graph" where
  "getSubs i G = (km_get sbv_new (nodeToSubsMap G) i, G\<lparr>nodeToSubsMap := km_touch sbv_new i (nodeToSubsMap G)\<rparr>)"

definition getRep :: "NodeID \<Rightarrow> cons_graph \<Rightarrow> NodeID \<times> cons_graph" where
  "getRep i G = (km_get 0 (nodeToRepMap G) i, G\<lparr>nodeToRepMap := km_touch 0 i (nodeToRepMap G)\<rparr>)"

definition resetRep :: "NodeID \<Rightarrow> cons_graph \<Rightarrow> cons_graph" where
  "resetRep i G = G\<lparr>nodeToRepMap := AList.delete i (nodeToRepMap G)\<rparr>"

text \<open>A node and the identifier it carries.\<close>

definition getConstraintNode :: "cons_graph \<Rightarrow> NodeID \<Rightarrow> (NodeID \<times> cons_node) option" where
  "getConstraintNode G i = (let i = cg_sccRepNode G i in map_option (Pair i) (getGNode i (cg_base G)))"

definition addConstraintNode :: "NodeID \<Rightarrow> cons_graph \<Rightarrow> cons_graph" where
  "addConstraintNode i G = G\<lparr>cg_base := addGNode i cons_node_new (cg_base G)\<rparr>"

definition hasConstraintNode :: "cons_graph \<Rightarrow> NodeID \<Rightarrow> bool" where
  "hasConstraintNode G i \<longleftrightarrow> hasGNode (cg_sccRepNode G i) (cg_base G)"

definition removeConstraintNode :: "NodeID \<Rightarrow> cons_graph \<Rightarrow> cons_graph option" where
  "removeConstraintNode i G = do {
     B \<leftarrow> removeGNode (\<lambda>n. es_all (cn_in n) = [] \<and> es_all (cn_out n) = []) i (cg_base G);
     Some (G\<lparr>cg_base := B\<rparr>)
   }"

definition putNode :: "NodeID \<Rightarrow> cons_node \<Rightarrow> cons_graph \<Rightarrow> cons_graph" where
  "putNode i n G = G\<lparr>cg_base := (cg_base G)\<lparr>IDToNodeMap := omap_put i n (IDToNodeMap (cg_base G))\<rparr>\<rparr>"

definition updNode :: "(cons_node \<Rightarrow> cons_node option) \<Rightarrow> NodeID \<Rightarrow> cons_graph \<Rightarrow> cons_graph option" where
  "updNode f i G = do { (i, n) \<leftarrow> getConstraintNode G i; n \<leftarrow> f n; Some (putNode i n G) }"

definition cg_isPWCNode :: "cons_graph \<Rightarrow> NodeID \<Rightarrow> bool option" where
  "cg_isPWCNode G i = map_option (\<lambda>(_, n). isPWCNode n) (getConstraintNode G i)"

definition cg_setPWCNode :: "NodeID \<Rightarrow> cons_graph \<Rightarrow> cons_graph option" where
  "cg_setPWCNode = updNode (\<lambda>n. Some (n\<lparr>isPWCNode := True\<rparr>))"

text \<open>The edge set of a kind.\<close>

definition edge_set :: "nat \<Rightarrow> cons_graph \<Rightarrow> gedge list option" where
  "edge_set k G =
     (if k = KCopy \<or> k = KNormalGep \<or> k = KVariantGep then Some (directEdgeSet G)
      else if k = KAddr then Some (AddrCGEdgeSet G)
      else if k = KStore then Some (StoreCGEdgeSet G)
      else if k = KLoad then Some (LoadCGEdgeSet G) else None)"

definition put_edge_set :: "nat \<Rightarrow> gedge list \<Rightarrow> cons_graph \<Rightarrow> cons_graph" where
  "put_edge_set k E G =
     (if k = KCopy \<or> k = KNormalGep \<or> k = KVariantGep then G\<lparr>directEdgeSet := E\<rparr>
      else if k = KAddr then G\<lparr>AddrCGEdgeSet := E\<rparr>
      else if k = KStore then G\<lparr>StoreCGEdgeSet := E\<rparr>
      else if k = KLoad then G\<lparr>LoadCGEdgeSet := E\<rparr> else G)"

definition cg_hasEdge :: "NodeID \<Rightarrow> NodeID \<Rightarrow> nat \<Rightarrow> cons_graph \<Rightarrow> bool option" where
  "cg_hasEdge src dst k G = do { E \<leftarrow> edge_set k G; Some (GEdge k src dst \<in> set E) }"

text \<open>
  A new edge object between two nodes of the graph: it takes the next number, enters the set of its kind, where
  it must be new, and then the sets of its source and of its destination.
\<close>

definition new_edge :: "nat \<Rightarrow> NodeID \<Rightarrow> NodeID \<Rightarrow> APOffset \<Rightarrow> (gedge \<Rightarrow> cons_node \<Rightarrow> cons_node option) \<Rightarrow>
    (gedge \<Rightarrow> cons_node \<Rightarrow> cons_node option) \<Rightarrow> cons_graph \<Rightarrow> cons_graph option" where
  "new_edge k src dst ap add_out add_in G = do {
     let e = GEdge k src dst;
     E \<leftarrow> edge_set k G;
     let (inserted, E) = oset_insert e E;
     if inserted then do {
       let G = put_edge_set k E G;
       let G = G\<lparr>edgeData := AList.update e (edgeIndex G, ap) (edgeData G), edgeIndex := u32 (edgeIndex G + 1)\<rparr>;
       G \<leftarrow> updNode (add_out e) src G;
       updNode (add_in e) dst G
     } else None
   }"

text \<open>The results tell whether an edge was added; \<open>False\<close> is the null pointer.\<close>

definition addAddrCGEdge :: "NodeID \<Rightarrow> NodeID \<Rightarrow> cons_graph \<Rightarrow> (bool \<times> cons_graph) option" where
  "addAddrCGEdge src dst G = do {
     (srcNode, _) \<leftarrow> getConstraintNode G src; (dstNode, _) \<leftarrow> getConstraintNode G dst;
     has \<leftarrow> cg_hasEdge srcNode dstNode KAddr G;
     if has then Some (False, G) else do {
       G \<leftarrow> new_edge KAddr srcNode dstNode 0 (\<lambda>e n. Some (addOutgoingAddrEdge e n)) (\<lambda>e n. Some (addIncomingAddrEdge e n)) G;
       Some (True, G)
     }
   }"

definition addCopyCGEdge :: "NodeID \<Rightarrow> NodeID \<Rightarrow> cons_graph \<Rightarrow> (bool \<times> cons_graph) option" where
  "addCopyCGEdge src dst G = do {
     (srcNode, _) \<leftarrow> getConstraintNode G src; (dstNode, _) \<leftarrow> getConstraintNode G dst;
     has \<leftarrow> cg_hasEdge srcNode dstNode KCopy G;
     if has \<or> srcNode = dstNode then Some (False, G) else do {
       G \<leftarrow> new_edge KCopy srcNode dstNode 0 (addOutgoingCopyEdge srcNode) (addIncomingCopyEdge dstNode) G;
       Some (True, G)
     }
   }"

definition addNormalGepCGEdge :: "NodeID \<Rightarrow> NodeID \<Rightarrow> APOffset \<Rightarrow> cons_graph \<Rightarrow> (bool \<times> cons_graph) option" where
  "addNormalGepCGEdge src dst ap G = do {
     (srcNode, _) \<leftarrow> getConstraintNode G src; (dstNode, _) \<leftarrow> getConstraintNode G dst;
     has \<leftarrow> cg_hasEdge srcNode dstNode KNormalGep G;
     if has then Some (False, G) else do {
       G \<leftarrow> new_edge KNormalGep srcNode dstNode ap (addOutgoingGepEdge srcNode) (addIncomingGepEdge dstNode) G;
       Some (True, G)
     }
   }"

definition addVariantGepCGEdge :: "NodeID \<Rightarrow> NodeID \<Rightarrow> cons_graph \<Rightarrow> (bool \<times> cons_graph) option" where
  "addVariantGepCGEdge src dst G = do {
     (srcNode, _) \<leftarrow> getConstraintNode G src; (dstNode, _) \<leftarrow> getConstraintNode G dst;
     has \<leftarrow> cg_hasEdge srcNode dstNode KVariantGep G;
     if has then Some (False, G) else do {
       G \<leftarrow> new_edge KVariantGep srcNode dstNode 0 (addOutgoingGepEdge srcNode) (addIncomingGepEdge dstNode) G;
       Some (True, G)
     }
   }"

definition addLoadCGEdge :: "NodeID \<Rightarrow> NodeID \<Rightarrow> cons_graph \<Rightarrow> (bool \<times> cons_graph) option" where
  "addLoadCGEdge src dst G = do {
     (srcNode, _) \<leftarrow> getConstraintNode G src; (dstNode, _) \<leftarrow> getConstraintNode G dst;
     has \<leftarrow> cg_hasEdge srcNode dstNode KLoad G;
     if has then Some (False, G) else do {
       G \<leftarrow> new_edge KLoad srcNode dstNode 0 addOutgoingLoadEdge (\<lambda>e n. Some (addIncomingLoadEdge e n)) G;
       Some (True, G)
     }
   }"

definition addStoreCGEdge :: "NodeID \<Rightarrow> NodeID \<Rightarrow> cons_graph \<Rightarrow> (bool \<times> cons_graph) option" where
  "addStoreCGEdge src dst G = do {
     (srcNode, _) \<leftarrow> getConstraintNode G src; (dstNode, _) \<leftarrow> getConstraintNode G dst;
     has \<leftarrow> cg_hasEdge srcNode dstNode KStore G;
     if has then Some (False, G) else do {
       G \<leftarrow> new_edge KStore srcNode dstNode 0 addOutgoingStoreEdge (\<lambda>e n. Some (addIncomingStoreEdge e n)) G;
       Some (True, G)
     }
   }"

text \<open>Removing an edge object, which must be in all its sets.\<close>

definition delete_edge :: "gedge \<Rightarrow> (gedge \<Rightarrow> cons_node \<Rightarrow> cons_node option) \<Rightarrow> (gedge \<Rightarrow> cons_node \<Rightarrow> cons_node option) \<Rightarrow>
    cons_graph \<Rightarrow> cons_graph option" where
  "delete_edge e rem_out rem_in G = do {
     G \<leftarrow> updNode (rem_out e) (getSrcID e) G;
     G \<leftarrow> updNode (rem_in e) (getDstID e) G;
     E \<leftarrow> edge_set (getEdgeKind e) G;
     let (num, E) = oset_erase e E;
     if num > 0 then Some (put_edge_set (getEdgeKind e) E (G\<lparr>edgeData := AList.delete e (edgeData G)\<rparr>)) else None
   }"

definition removeAddrEdge :: "gedge \<Rightarrow> cons_graph \<Rightarrow> cons_graph option" where
  "removeAddrEdge e = delete_edge e removeOutgoingAddrEdge removeIncomingAddrEdge"

definition removeLoadEdge :: "gedge \<Rightarrow> cons_graph \<Rightarrow> cons_graph option" where
  "removeLoadEdge e = delete_edge e removeOutgoingLoadEdge removeIncomingLoadEdge"

definition removeStoreEdge :: "gedge \<Rightarrow> cons_graph \<Rightarrow> cons_graph option" where
  "removeStoreEdge e = delete_edge e removeOutgoingStoreEdge removeIncomingStoreEdge"

definition removeDirectEdge :: "gedge \<Rightarrow> cons_graph \<Rightarrow> cons_graph option" where
  "removeDirectEdge e = delete_edge e removeOutgoingDirectEdge removeIncomingDirectEdge"

text \<open>The offset of the access path of a gep edge.\<close>

definition gep_offset :: "cons_graph \<Rightarrow> gedge \<Rightarrow> APOffset option" where
  "gep_offset G e = map_option snd (map_of (edgeData G) e)"

text \<open>Moving one end of an edge.\<close>

definition reTargetDstOfEdge :: "gedge \<Rightarrow> NodeID \<Rightarrow> cons_graph \<Rightarrow> cons_graph option" where
  "reTargetDstOfEdge e newDst G =
     (let k = getEdgeKind e; src = getSrcID e in
      if k = KLoad then do { G \<leftarrow> removeLoadEdge e G; (_, G) \<leftarrow> addLoadCGEdge src newDst G; Some G }
      else if k = KStore then do { G \<leftarrow> removeStoreEdge e G; (_, G) \<leftarrow> addStoreCGEdge src newDst G; Some G }
      else if k = KCopy then do { G \<leftarrow> removeDirectEdge e G; (_, G) \<leftarrow> addCopyCGEdge src newDst G; Some G }
      else if k = KNormalGep then do {
        ap \<leftarrow> gep_offset G e; G \<leftarrow> removeDirectEdge e G; (_, G) \<leftarrow> addNormalGepCGEdge src newDst ap G; Some G }
      else if k = KVariantGep then do { G \<leftarrow> removeDirectEdge e G; (_, G) \<leftarrow> addVariantGepCGEdge src newDst G; Some G }
      else if k = KAddr then removeAddrEdge e G else None)"

definition reTargetSrcOfEdge :: "gedge \<Rightarrow> NodeID \<Rightarrow> cons_graph \<Rightarrow> cons_graph option" where
  "reTargetSrcOfEdge e newSrc G =
     (let k = getEdgeKind e; dst = getDstID e in
      if k = KLoad then do { G \<leftarrow> removeLoadEdge e G; (_, G) \<leftarrow> addLoadCGEdge newSrc dst G; Some G }
      else if k = KStore then do { G \<leftarrow> removeStoreEdge e G; (_, G) \<leftarrow> addStoreCGEdge newSrc dst G; Some G }
      else if k = KCopy then do { G \<leftarrow> removeDirectEdge e G; (_, G) \<leftarrow> addCopyCGEdge newSrc dst G; Some G }
      else if k = KNormalGep then do {
        ap \<leftarrow> gep_offset G e; G \<leftarrow> removeDirectEdge e G; (_, G) \<leftarrow> addNormalGepCGEdge newSrc dst ap G; Some G }
      else if k = KVariantGep then do { G \<leftarrow> removeDirectEdge e G; (_, G) \<leftarrow> addVariantGepCGEdge newSrc dst G; Some G }
      else if k = KAddr then removeAddrEdge e G else None)"

definition isZeroOffsettedGepCGEdge :: "gedge \<Rightarrow> cons_graph \<Rightarrow> bool option" where
  "isZeroOffsettedGepCGEdge e G =
     (if getEdgeKind e = KNormalGep then do { ap \<leftarrow> gep_offset G e; Some (ap = 0) } else Some False)"

text \<open>
  An edge inside a component: copy and gep edges go, loads and stores move, address edges go. The flag tells of a
  gep edge that may have an offset.
\<close>

definition scc_edge :: "(gedge \<Rightarrow> NodeID \<Rightarrow> cons_graph \<Rightarrow> cons_graph option) \<Rightarrow> NodeID \<Rightarrow> gedge \<Rightarrow> bool \<times> cons_graph \<Rightarrow>
    (bool \<times> cons_graph) option" where
  "scc_edge retarget rep e = (\<lambda>(critical, G).
     let k = getEdgeKind e in
     if k = KCopy then do { G \<leftarrow> removeDirectEdge e G; Some (critical, G) }
     else if is_gep e then do {
       z \<leftarrow> isZeroOffsettedGepCGEdge e G;
       G \<leftarrow> removeDirectEdge e G;
       Some (critical \<or> \<not> z, G) }
     else if k = KLoad \<or> k = KStore then do { G \<leftarrow> retarget e rep G; Some (critical, G) }
     else if k = KAddr then do { G \<leftarrow> removeAddrEdge e G; Some (critical, G) }
     else None)"

definition moveInEdgesToRepNode :: "NodeID \<Rightarrow> NodeID \<Rightarrow> cons_graph \<Rightarrow> (bool \<times> cons_graph) option" where
  "moveInEdgesToRepNode i rep G = do {
     n \<leftarrow> getGNode i (cg_base G);
     let es = es_all (cn_in n);
     let nonSccEdges = filter (\<lambda>e. cg_sccRepNode G (getSrcID e) \<noteq> rep) es;
     let sccEdges = filter (\<lambda>e. cg_sccRepNode G (getSrcID e) = rep) es;
     G \<leftarrow> ofold (\<lambda>e G. reTargetDstOfEdge e rep G) (rev nonSccEdges) G;
     ofold (scc_edge reTargetDstOfEdge rep) (rev sccEdges) (False, G)
   }"

definition moveOutEdgesToRepNode :: "NodeID \<Rightarrow> NodeID \<Rightarrow> cons_graph \<Rightarrow> (bool \<times> cons_graph) option" where
  "moveOutEdgesToRepNode i rep G = do {
     n \<leftarrow> getGNode i (cg_base G);
     let es = es_all (cn_out n);
     let nonSccEdges = filter (\<lambda>e. cg_sccRepNode G (getDstID e) \<noteq> rep) es;
     let sccEdges = filter (\<lambda>e. cg_sccRepNode G (getDstID e) = rep) es;
     G \<leftarrow> ofold (\<lambda>e G. reTargetSrcOfEdge e rep G) (rev nonSccEdges) G;
     ofold (scc_edge reTargetSrcOfEdge rep) (rev sccEdges) (False, G)
   }"

definition moveEdgesToRepNode :: "NodeID \<Rightarrow> NodeID \<Rightarrow> cons_graph \<Rightarrow> (bool \<times> cons_graph) option" where
  "moveEdgesToRepNode i rep G = do {
     (gepIn, G) \<leftarrow> moveInEdgesToRepNode i rep G;
     (gepOut, G) \<leftarrow> moveOutEdgesToRepNode i rep G;
     Some (gepIn \<or> gepOut, G)
   }"

text \<open>Nodes to be collapsed, and the edges that the search for components follows.\<close>

definition hasNodesToBeCollapsed :: "cons_graph \<Rightarrow> bool" where
  "hasNodesToBeCollapsed G \<longleftrightarrow> \<not> fifo_empty (nodesToBeCollapsed G)"

definition addNodeToBeCollapsed :: "NodeID \<Rightarrow> cons_graph \<Rightarrow> cons_graph" where
  "addNodeToBeCollapsed i G = G\<lparr>nodesToBeCollapsed := snd (fifo_push (nodesToBeCollapsed G) i)\<rparr>"

definition getNextCollapseNode :: "cons_graph \<Rightarrow> (NodeID \<times> cons_graph) option" where
  "getNextCollapseNode G = do { (i, w) \<leftarrow> fifo_pop (nodesToBeCollapsed G); Some (i, G\<lparr>nodesToBeCollapsed := w\<rparr>) }"

definition directOutEdges :: "bool \<Rightarrow> cons_node \<Rightarrow> gedge list" where
  "directOutEdges detectPWC n = (if detectPWC then es_direct (cn_out n) else es_copy (cn_out n))"

definition cg_scc_graph :: "bool \<Rightarrow> cons_graph \<Rightarrow> scc_graph" where
  "cg_scc_graph detectPWC G = \<lparr>sg_nodes = map fst (IDToNodeMap (cg_base G)),
     sg_child = (\<lambda>i. map_option (\<lambda>n. map getDstID (directOutEdges detectPWC n)) (getGNode i (cg_base G)))\<rparr>"

end
