(* ===== verification/ConsGraphSpec.thy ===== *)
theory ConsGraphSpec
  imports ConsGraph
begin

text \<open>
  The constraint graph stays consistent: the edge sets of the graph and of its nodes describe one set of edges.
  Each operation acts on that set; merging a node moves its edges to the representative.
\<close>

section \<open>Edge sets of a node\<close>

definition oset_is :: "gedge list \<Rightarrow> gedge set \<Rightarrow> bool" where
  "oset_is xs E \<longleftrightarrow> oset xs \<and> set xs = E"

definition of_kind :: "nat \<Rightarrow> gedge set \<Rightarrow> gedge set" where
  "of_kind k E = {e \<in> E. getEdgeKind e = k}"

definition es_ok :: "gedge set \<Rightarrow> edge_sets \<Rightarrow> bool" where
  "es_ok E s \<longleftrightarrow> oset_is (es_all s) E \<and> oset_is (es_load s) (of_kind KLoad E) \<and> oset_is (es_store s) (of_kind KStore E) \<and>
     oset_is (es_copy s) (of_kind KCopy E) \<and> oset_is (es_gep s) {e \<in> E. is_gep e} \<and> oset_is (es_addr s) (of_kind KAddr E) \<and>
     oset_is (es_direct s) {e \<in> E. isdirectEdge (getEdgeKind e)}"

lemma es_ok_new: "es_ok {} edge_sets_new"
  by (simp add: es_ok_def edge_sets_new_def oset_is_def of_kind_def)

lemma oset_is_insert: "oset_is xs E \<Longrightarrow> F = insert e E \<Longrightarrow> oset_is (snd (oset_insert e xs)) F"
  by (simp add: oset_is_def)

lemma oset_is_erase: "oset_is xs E \<Longrightarrow> F = E - {e} \<Longrightarrow> oset_is (snd (oset_erase e xs)) F"
  by (simp add: oset_is_def)

lemma oset_is_mem: "oset_is xs E \<Longrightarrow> fst (oset_insert e xs) \<longleftrightarrow> e \<notin> E"
  by (simp add: oset_is_def)

lemma oset_is_erased: "oset_is xs E \<Longrightarrow> fst (oset_erase e xs) = (if e \<in> E then 1 else 0)"
  by (simp add: oset_is_def)

lemma oset_is_remove: "oset_is xs E \<Longrightarrow> e \<in> E \<Longrightarrow> remove_edge e xs = Some (1, snd (oset_erase e xs))"
  by (simp add: remove_edge_def oset_is_def oset_erase_def)

text \<open>One side of a node changes by one edge; the other side and the flag stay.\<close>

definition out_change :: "(cons_node \<Rightarrow> cons_node option) \<Rightarrow> gedge \<Rightarrow> bool \<Rightarrow> bool" where
  "out_change f e add \<longleftrightarrow> (\<forall>E n. es_ok E (cn_out n) \<longrightarrow> (e \<notin> E) = add \<longrightarrow>
     (\<exists>n'. f n = Some n' \<and> es_ok (if add then insert e E else E - {e}) (cn_out n') \<and> cn_in n' = cn_in n \<and> isPWCNode n' = isPWCNode n))"

definition in_change :: "(cons_node \<Rightarrow> cons_node option) \<Rightarrow> gedge \<Rightarrow> bool \<Rightarrow> bool" where
  "in_change f e add \<longleftrightarrow> (\<forall>E n. es_ok E (cn_in n) \<longrightarrow> (e \<notin> E) = add \<longrightarrow>
     (\<exists>n'. f n = Some n' \<and> es_ok (if add then insert e E else E - {e}) (cn_in n') \<and> cn_out n' = cn_out n \<and> isPWCNode n' = isPWCNode n))"

lemma es_changes:
  assumes ok: "es_ok E s" and new: "e \<notin> E"
  shows "getEdgeKind e = KCopy \<Longrightarrow> \<exists>s'. es_add_direct e s = Some s' \<and> es_ok (insert e E) (es_add_copy e s')"
    "is_gep e \<Longrightarrow> \<exists>s'. es_add_direct e s = Some s' \<and> es_ok (insert e E) (es_add_gep e s')"
    "getEdgeKind e = KAddr \<Longrightarrow> es_ok (insert e E) (es_add_addr e s)"
    "getEdgeKind e = KLoad \<Longrightarrow> es_ok (insert e E)
       (s\<lparr>es_load := snd (oset_insert e (es_load s)), es_all := snd (oset_insert e (es_all s))\<rparr>)"
    "getEdgeKind e = KStore \<Longrightarrow> es_ok (insert e E)
       (s\<lparr>es_store := snd (oset_insert e (es_store s)), es_all := snd (oset_insert e (es_all s))\<rparr>)"
    "getEdgeKind e = KLoad \<Longrightarrow> fst (oset_insert e (es_load s)) \<and> fst (oset_insert e (es_all s))"
    "getEdgeKind e = KStore \<Longrightarrow> fst (oset_insert e (es_store s)) \<and> fst (oset_insert e (es_all s))"
proof -
  note o = ok [unfolded es_ok_def]
  have all: "oset_is (snd (oset_insert e (es_all s))) (insert e E)" using o oset_is_insert by blast
  have dir: "es_add_direct e s = Some (s\<lparr>es_direct := snd (oset_insert e (es_direct s)), es_all := snd (oset_insert e (es_all s))\<rparr>)"
    using o new by (simp add: es_add_direct_def split_beta Let_def oset_is_def)
  have K: "of_kind k (insert e E) = (if getEdgeKind e = k then insert e (of_kind k E) else of_kind k E)" for k
    by (auto simp: of_kind_def)
  have D: "{x \<in> insert e E. P x} = (if P e then insert e {x \<in> E. P x} else {x \<in> E. P x})" for P by auto
  note ins = oset_is_insert [OF _ refl]
  show "\<exists>s'. es_add_direct e s = Some s' \<and> es_ok (insert e E) (es_add_copy e s')" if "getEdgeKind e = KCopy"
    using o all that unfolding dir es_ok_def K D
    by (auto simp: es_add_copy_def isdirectEdge_def is_gep_def intro!: ins)
  show "\<exists>s'. es_add_direct e s = Some s' \<and> es_ok (insert e E) (es_add_gep e s')" if "is_gep e"
    using o all that unfolding dir es_ok_def K D
    by (auto simp: es_add_gep_def isdirectEdge_def is_gep_def intro!: ins)
  show "es_ok (insert e E) (es_add_addr e s)" if "getEdgeKind e = KAddr"
    using o all that unfolding es_ok_def K D
    by (auto simp: es_add_addr_def isdirectEdge_def is_gep_def intro!: ins)
  show "es_ok (insert e E) (s\<lparr>es_load := snd (oset_insert e (es_load s)), es_all := snd (oset_insert e (es_all s))\<rparr>)"
    if "getEdgeKind e = KLoad"
    using o all that unfolding es_ok_def K D by (auto simp: isdirectEdge_def is_gep_def intro!: ins)
  show "es_ok (insert e E) (s\<lparr>es_store := snd (oset_insert e (es_store s)), es_all := snd (oset_insert e (es_all s))\<rparr>)"
    if "getEdgeKind e = KStore"
    using o all that unfolding es_ok_def K D by (auto simp: isdirectEdge_def is_gep_def intro!: ins)
  show "fst (oset_insert e (es_load s)) \<and> fst (oset_insert e (es_all s))" if "getEdgeKind e = KLoad"
    using o new by (auto simp: oset_is_def of_kind_def)
  show "fst (oset_insert e (es_store s)) \<and> fst (oset_insert e (es_all s))" if "getEdgeKind e = KStore"
    using o new by (auto simp: oset_is_def of_kind_def)
qed

lemma out_changeI:
  assumes "\<And>E n. es_ok E (cn_out n) \<Longrightarrow> (e \<notin> E) = add \<Longrightarrow>
    \<exists>s. f n = Some (n\<lparr>cn_out := s\<rparr>) \<and> es_ok (if add then insert e E else E - {e}) s"
  shows "out_change f e add"
  unfolding out_change_def using assms by fastforce

lemma in_changeI:
  assumes "\<And>E n. es_ok E (cn_in n) \<Longrightarrow> (e \<notin> E) = add \<Longrightarrow>
    \<exists>s. f n = Some (n\<lparr>cn_in := s\<rparr>) \<and> es_ok (if add then insert e E else E - {e}) s"
  shows "in_change f e add"
  unfolding in_change_def using assms by fastforce

lemma adding_direct:
  "getEdgeKind e = KCopy \<Longrightarrow> getSrcID e = i \<Longrightarrow> out_change (addOutgoingCopyEdge i e) e True"
  "getEdgeKind e = KCopy \<Longrightarrow> getDstID e = i \<Longrightarrow> in_change (addIncomingCopyEdge i e) e True"
  "is_gep e \<Longrightarrow> getSrcID e = i \<Longrightarrow> out_change (addOutgoingGepEdge i e) e True"
  "is_gep e \<Longrightarrow> getDstID e = i \<Longrightarrow> in_change (addIncomingGepEdge i e) e True"
proof -
  assume k: "getEdgeKind e = KCopy"
  show "out_change (addOutgoingCopyEdge i e) e True" if "getSrcID e = i"
    by (rule out_changeI) (use es_changes(1) [OF _ _ k] that in \<open>fastforce simp: addOutgoingCopyEdge_def addOutgoingDirectEdge_def\<close>)
  show "in_change (addIncomingCopyEdge i e) e True" if "getDstID e = i"
    by (rule in_changeI) (use es_changes(1) [OF _ _ k] that in \<open>fastforce simp: addIncomingCopyEdge_def addIncomingDirectEdge_def\<close>)
next
  assume k: "is_gep e"
  show "out_change (addOutgoingGepEdge i e) e True" if "getSrcID e = i"
    by (rule out_changeI) (use es_changes(2) [OF _ _ k] that in \<open>fastforce simp: addOutgoingGepEdge_def addOutgoingDirectEdge_def\<close>)
  show "in_change (addIncomingGepEdge i e) e True" if "getDstID e = i"
    by (rule in_changeI) (use es_changes(2) [OF _ _ k] that in \<open>fastforce simp: addIncomingGepEdge_def addIncomingDirectEdge_def\<close>)
qed

lemma adding_indirect:
  "getEdgeKind e = KAddr \<Longrightarrow> out_change (\<lambda>n. Some (addOutgoingAddrEdge e n)) e True"
  "getEdgeKind e = KAddr \<Longrightarrow> in_change (\<lambda>n. Some (addIncomingAddrEdge e n)) e True"
  "getEdgeKind e = KLoad \<Longrightarrow> out_change (addOutgoingLoadEdge e) e True"
  "getEdgeKind e = KLoad \<Longrightarrow> in_change (\<lambda>n. Some (addIncomingLoadEdge e n)) e True"
  "getEdgeKind e = KStore \<Longrightarrow> out_change (addOutgoingStoreEdge e) e True"
  "getEdgeKind e = KStore \<Longrightarrow> in_change (\<lambda>n. Some (addIncomingStoreEdge e n)) e True"
proof -
  show "out_change (\<lambda>n. Some (addOutgoingAddrEdge e n)) e True" if "getEdgeKind e = KAddr"
    by (rule out_changeI) (use es_changes(3) [OF _ _ that] in \<open>fastforce simp: addOutgoingAddrEdge_def\<close>)
  show "in_change (\<lambda>n. Some (addIncomingAddrEdge e n)) e True" if "getEdgeKind e = KAddr"
    by (rule in_changeI) (use es_changes(3) [OF _ _ that] in \<open>fastforce simp: addIncomingAddrEdge_def\<close>)
  show "out_change (addOutgoingLoadEdge e) e True" if "getEdgeKind e = KLoad"
    by (rule out_changeI) (use es_changes(4,6) [OF _ _ that] in \<open>fastforce simp: addOutgoingLoadEdge_def split_beta Let_def\<close>)
  show "in_change (\<lambda>n. Some (addIncomingLoadEdge e n)) e True" if "getEdgeKind e = KLoad"
    by (rule in_changeI) (use es_changes(4) [OF _ _ that] in \<open>fastforce simp: addIncomingLoadEdge_def\<close>)
  show "out_change (addOutgoingStoreEdge e) e True" if "getEdgeKind e = KStore"
    by (rule out_changeI) (use es_changes(5,7) [OF _ _ that] in \<open>fastforce simp: addOutgoingStoreEdge_def split_beta Let_def\<close>)
  show "in_change (\<lambda>n. Some (addIncomingStoreEdge e n)) e True" if "getEdgeKind e = KStore"
    by (rule in_changeI) (use es_changes(5) [OF _ _ that] in \<open>fastforce simp: addIncomingStoreEdge_def\<close>)
qed

text \<open>Removing.\<close>

lemma es_removes:
  assumes ok: "es_ok E s" and mem: "e \<in> E"
  shows "getEdgeKind e = KAddr \<Longrightarrow> \<exists>s'. es_remove_addr e s = Some s' \<and> es_ok (E - {e}) s'"
    "getEdgeKind e = KLoad \<Longrightarrow> \<exists>s'. es_remove_load e s = Some s' \<and> es_ok (E - {e}) s'"
    "getEdgeKind e = KStore \<Longrightarrow> \<exists>s'. es_remove_store e s = Some s' \<and> es_ok (E - {e}) s'"
    "isdirectEdge (getEdgeKind e) \<Longrightarrow> \<exists>s'. es_remove_direct e s = Some s' \<and> es_ok (E - {e}) s'"
proof -
  note o = ok [unfolded es_ok_def]
  have K: "of_kind k (E - {e}) = (if getEdgeKind e = k then of_kind k E - {e} else of_kind k E)" for k
    by (auto simp: of_kind_def)
  have D: "{x \<in> E - {e}. P x} = (if P e then {x \<in> E. P x} - {e} else {x \<in> E. P x})" for P by auto
  have r: "remove_edge e (es_all s) = Some (1, snd (oset_erase e (es_all s)))" using o mem oset_is_remove by blast
  note ers = oset_is_erase [OF _ refl]
  have num: "fst (oset_erase e xs) = (if e \<in> F then 1 else 0)" if "oset_is xs F" for xs F using oset_is_erased [OF that] .
  show "\<exists>s'. es_remove_addr e s = Some s' \<and> es_ok (E - {e}) s'" if k: "getEdgeKind e = KAddr"
  proof -
    have "fst (oset_erase e (es_addr s)) = 1" using num [of "es_addr s" "of_kind KAddr E"] o mem k by (simp add: of_kind_def)
    then show ?thesis using o k ers unfolding es_ok_def K D
      by (auto simp: es_remove_addr_def r split_beta Let_def isdirectEdge_def is_gep_def)
  qed
  show "\<exists>s'. es_remove_load e s = Some s' \<and> es_ok (E - {e}) s'" if k: "getEdgeKind e = KLoad"
  proof -
    have "fst (oset_erase e (es_load s)) = 1" using num [of "es_load s" "of_kind KLoad E"] o mem k by (simp add: of_kind_def)
    then show ?thesis using o k ers unfolding es_ok_def K D
      by (auto simp: es_remove_load_def r split_beta Let_def isdirectEdge_def is_gep_def)
  qed
  show "\<exists>s'. es_remove_store e s = Some s' \<and> es_ok (E - {e}) s'" if k: "getEdgeKind e = KStore"
  proof -
    have "fst (oset_erase e (es_store s)) = 1" using num [of "es_store s" "of_kind KStore E"] o mem k by (simp add: of_kind_def)
    then show ?thesis using o k ers unfolding es_ok_def K D
      by (auto simp: es_remove_store_def r split_beta Let_def isdirectEdge_def is_gep_def)
  qed
  show "\<exists>s'. es_remove_direct e s = Some s' \<and> es_ok (E - {e}) s'" if k: "isdirectEdge (getEdgeKind e)"
  proof -
    have n: "fst (oset_erase e (es_direct s)) = 1"
      using num [of "es_direct s" "{e \<in> E. isdirectEdge (getEdgeKind e)}"] o mem k by simp
    have ki: "getEdgeKind e \<noteq> KLoad" "getEdgeKind e \<noteq> KStore" "getEdgeKind e \<noteq> KAddr" "is_gep e \<longleftrightarrow> getEdgeKind e \<noteq> KCopy"
      using k by (auto simp: isdirectEdge_def is_gep_def)
    show ?thesis
    proof (cases "is_gep e")
      case True
      then show ?thesis using o k ki n ers unfolding es_ok_def K D by (auto simp: es_remove_direct_def r split_beta Let_def)
    next
      case False
      then show ?thesis using o k ki n ers unfolding es_ok_def K D by (auto simp: es_remove_direct_def r split_beta Let_def)
    qed
  qed
qed

lemma remove_change:
  assumes "\<And>E s. es_ok E s \<Longrightarrow> e \<in> E \<Longrightarrow> \<exists>s'. f s = Some s' \<and> es_ok (E - {e}) s'"
  shows "out_change (on_out f) e False" "in_change (on_in f) e False"
proof -
  show "out_change (on_out f) e False"
  proof (rule out_changeI)
    fix E and n :: cons_node assume "es_ok E (cn_out n)" "(e \<notin> E) = False"
    then obtain s' where "f (cn_out n) = Some s'" "es_ok (E - {e}) s'" using assms [of E "cn_out n"] by blast
    then show "\<exists>s. on_out f n = Some (n\<lparr>cn_out := s\<rparr>) \<and> es_ok (if False then insert e E else E - {e}) s" by (auto simp: on_out_def)
  qed
  show "in_change (on_in f) e False"
  proof (rule in_changeI)
    fix E and n :: cons_node assume "es_ok E (cn_in n)" "(e \<notin> E) = False"
    then obtain s' where "f (cn_in n) = Some s'" "es_ok (E - {e}) s'" using assms [of E "cn_in n"] by blast
    then show "\<exists>s. on_in f n = Some (n\<lparr>cn_in := s\<rparr>) \<and> es_ok (if False then insert e E else E - {e}) s" by (auto simp: on_in_def)
  qed
qed

lemma removing:
  "getEdgeKind e = KAddr \<Longrightarrow> out_change (removeOutgoingAddrEdge e) e False"
  "getEdgeKind e = KAddr \<Longrightarrow> in_change (removeIncomingAddrEdge e) e False"
  "getEdgeKind e = KLoad \<Longrightarrow> out_change (removeOutgoingLoadEdge e) e False"
  "getEdgeKind e = KLoad \<Longrightarrow> in_change (removeIncomingLoadEdge e) e False"
  "getEdgeKind e = KStore \<Longrightarrow> out_change (removeOutgoingStoreEdge e) e False"
  "getEdgeKind e = KStore \<Longrightarrow> in_change (removeIncomingStoreEdge e) e False"
  "isdirectEdge (getEdgeKind e) \<Longrightarrow> out_change (removeOutgoingDirectEdge e) e False"
  "isdirectEdge (getEdgeKind e) \<Longrightarrow> in_change (removeIncomingDirectEdge e) e False"
  unfolding removeOutgoingAddrEdge_def removeIncomingAddrEdge_def removeOutgoingLoadEdge_def removeIncomingLoadEdge_def
    removeOutgoingStoreEdge_def removeIncomingStoreEdge_def removeOutgoingDirectEdge_def removeIncomingDirectEdge_def
  by (rule remove_change, rule es_removes; assumption)+

section \<open>The graph\<close>

abbreviation cg_map :: "cons_graph \<Rightarrow> NodeID \<Rightarrow> cons_node option" where
  "cg_map G \<equiv> map_of (IDToNodeMap (cg_base G))"

definition cg_nodes :: "cons_graph \<Rightarrow> NodeID set" where
  "cg_nodes G = dom (cg_map G)"

definition cg_edges :: "cons_graph \<Rightarrow> gedge set" where
  "cg_edges G = set (AddrCGEdgeSet G) \<union> set (directEdgeSet G) \<union> set (LoadCGEdgeSet G) \<union> set (StoreCGEdgeSet G)"

text \<open>The sets of the nodes; between the steps of an operation the two sides may describe different sets.\<close>

definition sides_ok :: "gedge set \<Rightarrow> gedge set \<Rightarrow> cons_graph \<Rightarrow> bool" where
  "sides_ok I X G \<longleftrightarrow> omap (IDToNodeMap (cg_base G)) \<and> (\<forall>i n. cg_map G i = Some n \<longrightarrow>
     es_ok {e \<in> I. getDstID e = i} (cn_in n) \<and> es_ok {e \<in> X. getSrcID e = i} (cn_out n))"

definition kind_sets_ok :: "gedge set \<Rightarrow> cons_graph \<Rightarrow> bool" where
  "kind_sets_ok E G \<longleftrightarrow> oset_is (AddrCGEdgeSet G) (of_kind KAddr E) \<and> oset_is (LoadCGEdgeSet G) (of_kind KLoad E) \<and>
     oset_is (StoreCGEdgeSet G) (of_kind KStore E) \<and> oset_is (directEdgeSet G) {e \<in> E. isdirectEdge (getEdgeKind e)}"

definition edges_ok :: "gedge set \<Rightarrow> NodeID set \<Rightarrow> bool" where
  "edges_ok E N \<longleftrightarrow> (\<forall>e \<in> E. edgeFlag e \<le> KVariantGep \<and> getSrcID e \<in> N \<and> getDstID e \<in> N \<and>
     (edgeFlag e = KCopy \<longrightarrow> getSrcID e \<noteq> getDstID e))"

definition reps_ok :: "cons_graph \<Rightarrow> bool" where
  "reps_ok G \<longleftrightarrow> dom (map_of (nodeToRepMap G)) \<inter> cg_nodes G = {} \<and> ran (map_of (nodeToRepMap G)) \<subseteq> cg_nodes G"

definition cg_ok :: "cons_graph \<Rightarrow> bool" where
  "cg_ok G \<longleftrightarrow> sides_ok (cg_edges G) (cg_edges G) G \<and> kind_sets_ok (cg_edges G) G \<and> edges_ok (cg_edges G) (cg_nodes G) \<and> reps_ok G \<and>
     distinct (map fst (edgeData G)) \<and> dom (map_of (edgeData G)) = cg_edges G"

text \<open>What operations on edges leave as it was.\<close>

definition cg_frame :: "cons_graph \<Rightarrow> cons_graph \<Rightarrow> bool" where
  "cg_frame G H \<longleftrightarrow> nodeToRepMap H = nodeToRepMap G \<and> nodeToSubsMap H = nodeToSubsMap G \<and>
     nodesToBeCollapsed H = nodesToBeCollapsed G \<and> cg_nodes H = cg_nodes G \<and>
     (\<forall>i. map_option isPWCNode (cg_map H i) = map_option isPWCNode (cg_map G i)) \<and>
     map fst (IDToNodeMap (cg_base H)) = map fst (IDToNodeMap (cg_base G))"

definition cg_sets_same :: "cons_graph \<Rightarrow> cons_graph \<Rightarrow> bool" where
  "cg_sets_same G H \<longleftrightarrow> AddrCGEdgeSet H = AddrCGEdgeSet G \<and> directEdgeSet H = directEdgeSet G \<and> LoadCGEdgeSet H = LoadCGEdgeSet G \<and>
     StoreCGEdgeSet H = StoreCGEdgeSet G \<and> edgeData H = edgeData G \<and> edgeIndex H = edgeIndex G"

lemma cg_frame_refl [simp]: "cg_frame G G" by (simp add: cg_frame_def)
lemma cg_frame_trans: "cg_frame G H \<Longrightarrow> cg_frame H K \<Longrightarrow> cg_frame G K" by (simp add: cg_frame_def)
lemma cg_sets_same_trans: "cg_sets_same G H \<Longrightarrow> cg_sets_same H K \<Longrightarrow> cg_sets_same G K" by (simp add: cg_sets_same_def)

lemma rep_of_node: "reps_ok G \<Longrightarrow> i \<in> cg_nodes G \<Longrightarrow> cg_sccRepNode G i = i"
  by (auto simp: reps_ok_def cg_sccRepNode_def split: option.splits)

lemma rep_in_nodes: "reps_ok G \<Longrightarrow> cg_sccRepNode G i \<in> cg_nodes G \<longleftrightarrow> i \<in> cg_nodes G \<or> i \<in> dom (map_of (nodeToRepMap G))"
  by (auto simp: reps_ok_def cg_sccRepNode_def ran_def split: option.splits)

lemma rep_idem: "reps_ok G \<Longrightarrow> cg_sccRepNode G (cg_sccRepNode G i) = cg_sccRepNode G i"
proof -
  assume ok: "reps_ok G"
  show ?thesis
  proof (cases "map_of (nodeToRepMap G) i")
    case (Some r)
    then have "r \<in> cg_nodes G" using ok by (auto simp: reps_ok_def ran_def)
    then show ?thesis using rep_of_node [OF ok] Some by (simp add: cg_sccRepNode_def)
  qed (simp add: cg_sccRepNode_def)
qed

lemma cg_frame_rep: "cg_frame G H \<Longrightarrow> cg_sccRepNode H = cg_sccRepNode G"
  by (simp add: cg_frame_def cg_sccRepNode_def fun_eq_iff)

lemma reps_ok_frame: "cg_frame G H \<Longrightarrow> reps_ok G \<Longrightarrow> reps_ok H"
  by (simp add: cg_frame_def reps_ok_def)

lemma getConstraintNode_node: "reps_ok G \<Longrightarrow> i \<in> cg_nodes G \<Longrightarrow> \<exists>n. getConstraintNode G i = Some (i, n) \<and> cg_map G i = Some n"
  using rep_of_node [of G i] by (auto simp: getConstraintNode_def getGNode_def cg_nodes_def)

lemma putNode_frame:
  assumes "omap (IDToNodeMap (cg_base G))" "cg_map G i = Some n" "isPWCNode n' = isPWCNode n"
  shows "cg_frame G (putNode i n' G)" "cg_sets_same G (putNode i n' G)" "cg_map (putNode i n' G) = (cg_map G)(i \<mapsto> n')"
  using assms omap_put_same [OF assms(1,2), of n']
  by (auto simp: cg_frame_def cg_sets_same_def putNode_def cg_nodes_def)

text \<open>A change of one side of one node.\<close>

lemma updNode_out:
  assumes ok: "sides_ok I X G" "reps_ok G" and i: "i \<in> cg_nodes G" and f: "out_change f e add"
    and e: "getSrcID e = i" "(e \<notin> X) = add"
  shows "\<exists>H. updNode f i G = Some H \<and> sides_ok I (if add then insert e X else X - {e}) H \<and> cg_frame G H \<and> cg_sets_same G H"
proof -
  obtain n where n: "getConstraintNode G i = Some (i, n)" "cg_map G i = Some n" using getConstraintNode_node [OF ok(2) i] by blast
  have om: "omap (IDToNodeMap (cg_base G))" using ok(1) by (simp add: sides_ok_def)
  let ?XO = "{x \<in> X. getSrcID x = i}"
  have "es_ok ?XO (cn_out n)" "(e \<notin> ?XO) = add" using ok(1) n(2) e by (auto simp: sides_ok_def)
  then obtain n' where n': "f n = Some n'" "es_ok (if add then insert e ?XO else ?XO - {e}) (cn_out n')" "cn_in n' = cn_in n"
      "isPWCNode n' = isPWCNode n"
    using f unfolding out_change_def by blast
  note p = putNode_frame [OF om n(2) n'(4)]
  let ?P = "if add then insert e X else X - {e}"
  have "{x \<in> ?P. getSrcID x = j} = (if j = i then (if add then insert e ?XO else ?XO - {e}) else {x \<in> X. getSrcID x = j})" for j
    using e(1) by auto
  then have "sides_ok I ?P (putNode i n' G)"
    using ok(1) n'(2,3) n(2) om by (auto simp: sides_ok_def p(3) putNode_def)
  then show ?thesis using n(1) n'(1) p(1,2) by (auto simp: updNode_def)
qed

lemma updNode_in:
  assumes ok: "sides_ok I X G" "reps_ok G" and i: "i \<in> cg_nodes G" and f: "in_change f e add"
    and e: "getDstID e = i" "(e \<notin> I) = add"
  shows "\<exists>H. updNode f i G = Some H \<and> sides_ok (if add then insert e I else I - {e}) X H \<and> cg_frame G H \<and> cg_sets_same G H"
proof -
  obtain n where n: "getConstraintNode G i = Some (i, n)" "cg_map G i = Some n" using getConstraintNode_node [OF ok(2) i] by blast
  have om: "omap (IDToNodeMap (cg_base G))" using ok(1) by (simp add: sides_ok_def)
  let ?I = "{x \<in> I. getDstID x = i}"
  have "es_ok ?I (cn_in n)" "(e \<notin> ?I) = add" using ok(1) n(2) e by (auto simp: sides_ok_def)
  then obtain n' where n': "f n = Some n'" "es_ok (if add then insert e ?I else ?I - {e}) (cn_in n')" "cn_out n' = cn_out n"
      "isPWCNode n' = isPWCNode n"
    using f unfolding in_change_def by blast
  note p = putNode_frame [OF om n(2) n'(4)]
  let ?P = "if add then insert e I else I - {e}"
  have "{x \<in> ?P. getDstID x = j} = (if j = i then (if add then insert e ?I else ?I - {e}) else {x \<in> I. getDstID x = j})" for j
    using e(1) by auto
  then have "sides_ok ?P X (putNode i n' G)"
    using ok(1) n'(2,3) n(2) om by (auto simp: sides_ok_def p(3) putNode_def)
  then show ?thesis using n(1) n'(1) p(1,2) by (auto simp: updNode_def)
qed

section \<open>Adding and removing edges\<close>

lemma kind_of_flag: "edgeFlag e \<le> KVariantGep \<Longrightarrow> getEdgeKind e = edgeFlag e"
  by (simp add: getEdgeKind_def)

lemma kind_cases: "(k::nat) \<le> KVariantGep \<Longrightarrow> k = KAddr \<or> k = KCopy \<or> k = KStore \<or> k = KLoad \<or> k = KNormalGep \<or> k = KVariantGep"
  by arith

lemma edge_set_spec:
  assumes "kind_sets_ok E G" "edges_ok E N" "k \<le> KVariantGep"
  obtains F where "edge_set k G = Some F" "oset F" "\<And>e. e \<in> set F \<longleftrightarrow> e \<in> E \<and> isdirectEdge (getEdgeKind e) \<and> isdirectEdge k \<or> e \<in> E \<and> getEdgeKind e = k"
proof -
  have "\<exists>F. edge_set k G = Some F \<and> oset F \<and> (\<forall>e. e \<in> set F \<longleftrightarrow> e \<in> E \<and> isdirectEdge (getEdgeKind e) \<and> isdirectEdge k \<or> e \<in> E \<and> getEdgeKind e = k)"
    using assms(1) kind_cases [OF assms(3)] by (auto simp: kind_sets_ok_def oset_is_def edge_set_def isdirectEdge_def of_kind_def)
  then show thesis using that by blast
qed

lemma edge_set_mem:
  assumes "kind_sets_ok E G" "edges_ok E N" "k \<le> KVariantGep"
  shows "\<exists>F. edge_set k G = Some F \<and> oset F \<and> (GEdge k i j \<in> set F \<longleftrightarrow> GEdge k i j \<in> E)"
proof -
  obtain F where F: "edge_set k G = Some F" "oset F" "\<And>e. e \<in> set F \<longleftrightarrow> e \<in> E \<and> isdirectEdge (getEdgeKind e) \<and> isdirectEdge k \<or> e \<in> E \<and> getEdgeKind e = k"
    using edge_set_spec [OF assms] by blast
  have "getEdgeKind (GEdge k i j) = k" using kind_of_flag [of "GEdge k i j"] assms(3) by simp
  then show ?thesis using F by auto
qed

lemma kind_sets_ok_insert:
  assumes ok: "kind_sets_ok E G" and e: "edgeFlag e \<le> KVariantGep" "e \<notin> E" and F: "edge_set (getEdgeKind e) G = Some F"
  shows "kind_sets_ok (insert e E) (put_edge_set (getEdgeKind e) (snd (oset_insert e F)) G)"
proof -
  have K: "of_kind k (insert e E) = (if getEdgeKind e = k then insert e (of_kind k E) else of_kind k E)" for k
    by (auto simp: of_kind_def)
  have D: "{x \<in> insert e E. isdirectEdge (getEdgeKind x)} =
      (if isdirectEdge (getEdgeKind e) then insert e {x \<in> E. isdirectEdge (getEdgeKind x)} else {x \<in> E. isdirectEdge (getEdgeKind x)})" by auto
  have k: "getEdgeKind e \<le> KVariantGep" using e(1) kind_of_flag by simp
  show ?thesis
    using ok F kind_cases [OF k] unfolding kind_sets_ok_def K D
    by (auto simp: edge_set_def put_edge_set_def isdirectEdge_def oset_is_insert [OF _ refl])
qed

lemma kind_sets_ok_delete:
  assumes ok: "kind_sets_ok E G" and e: "edgeFlag e \<le> KVariantGep" and F: "edge_set (getEdgeKind e) G = Some F"
  shows "kind_sets_ok (E - {e}) (put_edge_set (getEdgeKind e) (snd (oset_erase e F)) G)"
proof -
  have K: "of_kind k (E - {e}) = (if getEdgeKind e = k then of_kind k E - {e} else of_kind k E)" for k
    by (auto simp: of_kind_def)
  have D: "{x \<in> E - {e}. isdirectEdge (getEdgeKind x)} =
      (if isdirectEdge (getEdgeKind e) then {x \<in> E. isdirectEdge (getEdgeKind x)} - {e} else {x \<in> E. isdirectEdge (getEdgeKind x)})" by auto
  have k: "getEdgeKind e \<le> KVariantGep" using e(1) kind_of_flag by simp
  show ?thesis
    using ok F kind_cases [OF k] unfolding kind_sets_ok_def K D
    by (auto simp: edge_set_def put_edge_set_def isdirectEdge_def oset_is_erase [OF _ refl])
qed

lemma kind_sets_ok_edges:
  assumes "kind_sets_ok E G" "\<forall>e \<in> E. edgeFlag e \<le> KVariantGep"
  shows "cg_edges G = E"
proof -
  have "getEdgeKind e \<le> KVariantGep" if "e \<in> E" for e using assms(2) that kind_of_flag by simp
  then have "getEdgeKind e = KAddr \<or> isdirectEdge (getEdgeKind e) \<or> getEdgeKind e = KLoad \<or> getEdgeKind e = KStore" if "e \<in> E" for e
    using kind_cases that unfolding isdirectEdge_def by blast
  then show ?thesis using assms(1) by (auto simp: cg_edges_def kind_sets_ok_def oset_is_def of_kind_def)
qed

lemma put_edge_set_frame:
  "cg_base (put_edge_set k F G) = cg_base G" "nodeToRepMap (put_edge_set k F G) = nodeToRepMap G"
  "nodeToSubsMap (put_edge_set k F G) = nodeToSubsMap G" "nodesToBeCollapsed (put_edge_set k F G) = nodesToBeCollapsed G"
  "edgeData (put_edge_set k F G) = edgeData G" "edgeIndex (put_edge_set k F G) = edgeIndex G"
  by (simp_all add: put_edge_set_def)

lemma new_edge_spec:
  assumes ok: "cg_ok G" and n: "src \<in> cg_nodes G" "dst \<in> cg_nodes G" and k: "k \<le> KVariantGep" "k = KCopy \<Longrightarrow> src \<noteq> dst"
    and new: "GEdge k src dst \<notin> cg_edges G"
    and ao: "out_change (ao (GEdge k src dst)) (GEdge k src dst) True" and ai: "in_change (ai (GEdge k src dst)) (GEdge k src dst) True"
  shows "\<exists>H. new_edge k src dst ap ao ai G = Some H \<and> cg_ok H \<and> cg_edges H = insert (GEdge k src dst) (cg_edges G) \<and> cg_frame G H \<and>
    map_of (edgeData H) = (map_of (edgeData G))(GEdge k src dst \<mapsto> (edgeIndex G, ap))"
proof -
  let ?e = "GEdge k src dst" and ?E = "cg_edges G"
  note o = ok [unfolded cg_ok_def]
  have kk: "getEdgeKind ?e = k" using kind_of_flag [of ?e] k(1) by simp
  obtain F where F: "edge_set k G = Some F" "?e \<in> set F \<longleftrightarrow> ?e \<in> ?E" "oset F" using edge_set_mem [of ?E G "cg_nodes G" k src dst] o k(1) by blast
  obtain F' where ins: "oset_insert ?e F = (True, F')" using F(2) new by (simp add: oset_insert_def)
  let ?G = "put_edge_set k F' G"
  let ?G2 = "?G\<lparr>edgeData := AList.update ?e (edgeIndex G, ap) (edgeData G), edgeIndex := u32 (edgeIndex G + 1)\<rparr>"
  have s1: "kind_sets_ok (insert ?e ?E) ?G" using kind_sets_ok_insert [of ?E G ?e F] o F(1) new k(1) kk ins by simp
  have s2: "kind_sets_ok (insert ?e ?E) ?G2" using s1 by (simp add: kind_sets_ok_def)
  have fr: "cg_frame G ?G2" by (simp add: cg_frame_def put_edge_set_frame cg_nodes_def)
  have sd: "sides_ok ?E ?E ?G2" using o by (simp add: sides_ok_def put_edge_set_frame)
  have nn: "src \<in> cg_nodes ?G2" "dst \<in> cg_nodes ?G2" using n fr by (simp_all add: cg_frame_def)
  have rp: "reps_ok ?G2" using reps_ok_frame [OF fr] o by blast
  obtain H1 where H1: "updNode (ao ?e) src ?G2 = Some H1" "sides_ok ?E (insert ?e ?E) H1" "cg_frame ?G2 H1" "cg_sets_same ?G2 H1"
    using updNode_out [OF sd rp nn(1) ao] new by auto
  have nn1: "dst \<in> cg_nodes H1" using nn(2) H1(3) by (simp add: cg_frame_def)
  obtain H where H: "updNode (ai ?e) dst H1 = Some H" "sides_ok (insert ?e ?E) (insert ?e ?E) H" "cg_frame H1 H" "cg_sets_same H1 H"
    using updNode_in [OF H1(2) reps_ok_frame [OF H1(3) rp] nn1 ai] new by auto
  have f: "cg_frame G H" using cg_frame_trans [OF fr cg_frame_trans [OF H1(3) H(3)]] .
  have ss: "cg_sets_same ?G2 H" using cg_sets_same_trans [OF H1(4) H(4)] .
  have s3: "kind_sets_ok (insert ?e ?E) H" using s2 ss by (simp add: kind_sets_ok_def cg_sets_same_def)
  have eo: "edges_ok (insert ?e ?E) (cg_nodes G)" using o n k by (simp add: edges_ok_def)
  have E: "cg_edges H = insert ?e ?E" using kind_sets_ok_edges [OF s3] eo by (simp add: edges_ok_def)
  have data: "edgeData H = AList.update ?e (edgeIndex G, ap) (edgeData G)" using ss by (simp add: cg_sets_same_def)
  have dd: "distinct (map fst (edgeData H))" "dom (map_of (edgeData H)) = insert ?e ?E"
    unfolding data using o by (auto simp: distinct_update dom_update)
  have "cg_nodes H = cg_nodes G" using f by (simp add: cg_frame_def)
  then have "cg_ok H" unfolding cg_ok_def E using H(2) s3 eo reps_ok_frame [OF f] o dd by simp
  moreover have "new_edge k src dst ap ao ai G = Some H"
    using F(1) H1(1) H(1) by (simp add: new_edge_def put_edge_set_frame Let_def ins)
  ultimately show ?thesis using E f data by (auto simp: update_conv')
qed

lemma delete_edge_spec:
  assumes ok: "cg_ok G" and e: "e \<in> cg_edges G"
    and ro: "out_change (ro e) e False" and ri: "in_change (ri e) e False"
  shows "\<exists>H. delete_edge e ro ri G = Some H \<and> cg_ok H \<and> cg_edges H = cg_edges G - {e} \<and> cg_frame G H \<and>
    map_of (edgeData H) = (map_of (edgeData G))(e := None)"
proof -
  let ?E = "cg_edges G"
  note o = ok [unfolded cg_ok_def]
  have eo: "edgeFlag e \<le> KVariantGep" "getSrcID e \<in> cg_nodes G" "getDstID e \<in> cg_nodes G" using o e by (auto simp: edges_ok_def)
  obtain H1 where H1: "updNode (ro e) (getSrcID e) G = Some H1" "sides_ok ?E (?E - {e}) H1" "cg_frame G H1" "cg_sets_same G H1"
    using updNode_out [of ?E ?E G "getSrcID e" "ro e" e False] o eo(2) ro e by auto
  have r1: "reps_ok H1" using reps_ok_frame [OF H1(3)] o by blast
  have nn1: "getDstID e \<in> cg_nodes H1" using eo(3) H1(3) by (simp add: cg_frame_def)
  obtain H2 where H2: "updNode (ri e) (getDstID e) H1 = Some H2" "sides_ok (?E - {e}) (?E - {e}) H2" "cg_frame H1 H2" "cg_sets_same H1 H2"
    using updNode_in [OF H1(2) r1 nn1 ri] e by auto
  have ss: "cg_sets_same G H2" using cg_sets_same_trans [OF H1(4) H2(4)] .
  have so: "kind_sets_ok ?E H2" using o ss by (simp add: kind_sets_ok_def cg_sets_same_def)
  have k: "getEdgeKind e \<le> KVariantGep" using eo(1) kind_of_flag by simp
  obtain F where F: "edge_set (getEdgeKind e) H2 = Some F" "oset F"
      "\<And>x. x \<in> set F \<longleftrightarrow> x \<in> ?E \<and> isdirectEdge (getEdgeKind x) \<and> isdirectEdge (getEdgeKind e) \<or> x \<in> ?E \<and> getEdgeKind x = getEdgeKind e"
    using edge_set_spec [OF so _ k] o by blast
  have eF: "e \<in> set F" using F(3) e by blast
  let ?H3 = "H2\<lparr>edgeData := AList.delete e (edgeData H2)\<rparr>"
  let ?H = "put_edge_set (getEdgeKind e) (snd (oset_erase e F)) ?H3"
  have "edge_set (getEdgeKind e) ?H3 = edge_set (getEdgeKind e) H2" by (simp add: edge_set_def)
  then have "edge_set (getEdgeKind e) ?H3 = Some F" using F(1) by (simp only:)
  moreover have "kind_sets_ok ?E ?H3" using so by (simp add: kind_sets_ok_def)
  ultimately have s3: "kind_sets_ok (?E - {e}) ?H" using kind_sets_ok_delete eo(1) by blast
  have eo2: "edges_ok (?E - {e}) (cg_nodes G)" using o by (simp add: edges_ok_def)
  have E: "cg_edges ?H = ?E - {e}" using kind_sets_ok_edges [OF s3] eo2 by (simp add: edges_ok_def)
  have f: "cg_frame G ?H" using cg_frame_trans [OF H1(3) H2(3)] by (simp add: cg_frame_def put_edge_set_frame cg_nodes_def)
  have sd: "sides_ok (?E - {e}) (?E - {e}) ?H" using H2(2) by (simp add: sides_ok_def put_edge_set_frame)
  have data: "edgeData ?H = AList.delete e (edgeData G)" using ss by (simp add: cg_sets_same_def put_edge_set_frame)
  have dd: "distinct (map fst (edgeData ?H))" "dom (map_of (edgeData ?H)) = ?E - {e}"
    unfolding data using o by (auto simp: distinct_delete delete_conv' split: if_splits)
  have "cg_nodes ?H = cg_nodes G" using f by (simp add: cg_frame_def)
  then have "cg_ok ?H" unfolding cg_ok_def E using sd s3 eo2 reps_ok_frame [OF f] o dd by simp
  moreover have "delete_edge e ro ri G = Some ?H"
    using H1(1) H2(1) F(1) eF by (simp add: delete_edge_def oset_erase_def Let_def)
  ultimately show ?thesis using E f data by (auto simp: delete_conv')
qed

text \<open>The operations by kind; the offset matters for a normal gep only.\<close>

definition add_kind :: "nat \<Rightarrow> NodeID \<Rightarrow> NodeID \<Rightarrow> APOffset \<Rightarrow> cons_graph \<Rightarrow> (bool \<times> cons_graph) option" where
  "add_kind k src dst ap =
     (if k = KAddr then addAddrCGEdge src dst else if k = KCopy then addCopyCGEdge src dst
      else if k = KStore then addStoreCGEdge src dst else if k = KLoad then addLoadCGEdge src dst
      else if k = KNormalGep then addNormalGepCGEdge src dst ap else addVariantGepCGEdge src dst)"

definition remove_kind :: "gedge \<Rightarrow> cons_graph \<Rightarrow> cons_graph option" where
  "remove_kind e = (let k = getEdgeKind e in
     if k = KAddr then removeAddrEdge e else if k = KStore then removeStoreEdge e
     else if k = KLoad then removeLoadEdge e else removeDirectEdge e)"

definition edge_offset :: "nat \<Rightarrow> APOffset \<Rightarrow> APOffset" where
  "edge_offset k ap = (if k = KNormalGep then ap else 0)"

definition added :: "nat \<Rightarrow> NodeID \<Rightarrow> NodeID \<Rightarrow> APOffset \<Rightarrow> cons_graph \<Rightarrow> bool \<times> cons_graph \<Rightarrow> bool" where
  "added k s d ap G = (\<lambda>(b, H). cg_ok H \<and> cg_frame G H \<and>
     b = (GEdge k s d \<notin> cg_edges G \<and> (k = KCopy \<longrightarrow> s \<noteq> d)) \<and>
     cg_edges H = (if b then insert (GEdge k s d) (cg_edges G) else cg_edges G) \<and>
     map_of (edgeData H) = (if b then (map_of (edgeData G))(GEdge k s d \<mapsto> (edgeIndex G, edge_offset k ap)) else map_of (edgeData G)) \<and>
     (\<not> b \<longrightarrow> H = G))"

lemma add_kind_spec:
  assumes ok: "cg_ok G" and n: "cg_sccRepNode G src \<in> cg_nodes G" "cg_sccRepNode G dst \<in> cg_nodes G" and k: "k \<le> KVariantGep"
  shows "\<exists>r. add_kind k src dst ap G = Some r \<and> added k (cg_sccRepNode G src) (cg_sccRepNode G dst) ap G r"
proof -
  let ?s = "cg_sccRepNode G src" and ?d = "cg_sccRepNode G dst"
  let ?e = "GEdge k ?s ?d"
  note o = ok [unfolded cg_ok_def]
  obtain m where m: "getConstraintNode G src = Some (?s, m)" using n(1) by (auto simp: getConstraintNode_def getGNode_def cg_nodes_def)
  obtain m' where m': "getConstraintNode G dst = Some (?d, m')" using n(2) by (auto simp: getConstraintNode_def getGNode_def cg_nodes_def)
  have has: "cg_hasEdge ?s ?d k G = Some (?e \<in> cg_edges G)"
    using edge_set_mem [of "cg_edges G" G "cg_nodes G" k ?s ?d] o k by (auto simp: cg_hasEdge_def)
  have kk: "getEdgeKind ?e = k" using kind_of_flag [of ?e] k by simp
  show ?thesis
  proof (cases "?e \<in> cg_edges G \<or> (k = KCopy \<and> ?s = ?d)")
    case True
    then have "add_kind k src dst ap G = Some (False, G)"
      using kind_cases [OF k] has
      by (auto simp: add_kind_def addAddrCGEdge_def addCopyCGEdge_def addStoreCGEdge_def addLoadCGEdge_def
          addNormalGepCGEdge_def addVariantGepCGEdge_def m m')
    then show ?thesis using True ok by (auto simp: added_def)
  next
    case False
    then have new: "?e \<notin> cg_edges G" "k = KCopy \<Longrightarrow> ?s \<noteq> ?d" by auto
    have go: "\<exists>H. new_edge k ?s ?d (edge_offset k ap) ao ai G = Some H \<and> added k ?s ?d ap G (True, H)"
      if "out_change (ao ?e) ?e True" "in_change (ai ?e) ?e True" for ao ai
      using new_edge_spec [where ao = ao and ai = ai and ap = "edge_offset k ap", OF ok n k new(2) new(1) that] new by (auto simp: added_def)
    note defs = add_kind_def addAddrCGEdge_def addCopyCGEdge_def addStoreCGEdge_def addLoadCGEdge_def addNormalGepCGEdge_def
      addVariantGepCGEdge_def edge_offset_def
    consider "k = KAddr" | "k = KCopy" | "k = KStore" | "k = KLoad" | "k = KNormalGep" | "k = KVariantGep" using kind_cases [OF k] by blast
    then show ?thesis
    proof cases
      case 1
      then show ?thesis using go [of "\<lambda>e n. Some (addOutgoingAddrEdge e n)" "\<lambda>e n. Some (addIncomingAddrEdge e n)", OF adding_indirect(1,2)] kk has new by (auto simp: defs m m')
    next
      case 2
      then show ?thesis using go [of "addOutgoingCopyEdge ?s" "addIncomingCopyEdge ?d", OF adding_direct(1,2)] kk has new by (auto simp: defs m m')
    next
      case 3
      then show ?thesis using go [of "addOutgoingStoreEdge" "\<lambda>e n. Some (addIncomingStoreEdge e n)", OF adding_indirect(5,6)] kk has new by (auto simp: defs m m')
    next
      case 4
      then show ?thesis using go [of "addOutgoingLoadEdge" "\<lambda>e n. Some (addIncomingLoadEdge e n)", OF adding_indirect(3,4)] kk has new by (auto simp: defs m m')
    next
      case 5
      then show ?thesis using go [of "addOutgoingGepEdge ?s" "addIncomingGepEdge ?d", OF adding_direct(3,4)] kk has new by (auto simp: defs m m' is_gep_def)
    next
      case 6
      then show ?thesis using go [of "addOutgoingGepEdge ?s" "addIncomingGepEdge ?d", OF adding_direct(3,4)] kk has new by (auto simp: defs m m' is_gep_def)
    qed
  qed
qed

lemma remove_kind_spec:
  assumes ok: "cg_ok G" and e: "e \<in> cg_edges G"
  shows "\<exists>H. remove_kind e G = Some H \<and> cg_ok H \<and> cg_edges H = cg_edges G - {e} \<and> cg_frame G H \<and>
    map_of (edgeData H) = (map_of (edgeData G))(e := None)"
proof -
  have "edgeFlag e \<le> KVariantGep" using ok e by (auto simp: cg_ok_def edges_ok_def)
  then have k: "getEdgeKind e \<le> KVariantGep" using kind_of_flag by simp
  note d = delete_edge_spec [OF ok e]
  consider "getEdgeKind e = KAddr" | "getEdgeKind e = KStore" | "getEdgeKind e = KLoad" | "isdirectEdge (getEdgeKind e)"
    using kind_cases [OF k] by (auto simp: isdirectEdge_def)
  then show ?thesis
  proof cases
    case 1
    then show ?thesis using d [of removeOutgoingAddrEdge removeIncomingAddrEdge, OF removing(1,2)] by (simp add: remove_kind_def removeAddrEdge_def)
  next
    case 2
    then show ?thesis using d [of removeOutgoingStoreEdge removeIncomingStoreEdge, OF removing(5,6)] by (simp add: remove_kind_def removeStoreEdge_def)
  next
    case 3
    then show ?thesis using d [of removeOutgoingLoadEdge removeIncomingLoadEdge, OF removing(3,4)] by (simp add: remove_kind_def removeLoadEdge_def)
  next
    case 4
    then have "getEdgeKind e \<noteq> KAddr" "getEdgeKind e \<noteq> KStore" "getEdgeKind e \<noteq> KLoad" by (auto simp: isdirectEdge_def)
    then show ?thesis using d [of removeOutgoingDirectEdge removeIncomingDirectEdge, OF removing(7,8)] 4 by (simp add: remove_kind_def removeDirectEdge_def)
  qed
qed

lemma gep_offset_edge:
  assumes "cg_ok G" "e \<in> cg_edges G"
  shows "\<exists>ap. gep_offset G e = Some ap"
proof -
  have "e \<in> dom (map_of (edgeData G))" using assms by (simp add: cg_ok_def)
  then show ?thesis by (auto simp: gep_offset_def)
qed

end
