(* ===== verification/ConsMerge.thy ===== *)
theory ConsMerge
  imports ConsGraphSpec
begin

text \<open>
  Merging a node of the constraint graph into its representative: what moving an edge does, and what moving all
  the edges of a node does.
\<close>

section \<open>Moving one edge\<close>

text \<open>
  What an edge becomes when its ends become \<open>s\<close> and \<open>d\<close>: address edges go, and so do direct edges from a node to
  itself.
\<close>

definition redirect :: "NodeID \<Rightarrow> NodeID \<Rightarrow> gedge \<Rightarrow> gedge set" where
  "redirect s d e = (let k = edgeFlag e in if k = KAddr \<or> isdirectEdge k \<and> s = d then {} else {GEdge k s d})"

definition moved :: "gedge set \<Rightarrow> (gedge \<Rightarrow> gedge set) \<Rightarrow> cons_graph \<Rightarrow> cons_graph \<Rightarrow> bool" where
  "moved L g G H \<longleftrightarrow> cg_ok H \<and> cg_frame G H \<and> cg_edges H = cg_edges G - L \<union> (\<Union>e \<in> L. g e) \<and>
     (\<forall>x \<in> cg_edges G - L. gep_offset H x = gep_offset G x) \<and>
     (\<forall>x \<in> cg_edges H - (cg_edges G - L). edgeFlag x = KNormalGep \<longrightarrow> (\<exists>y \<in> L. x \<in> g y \<and> gep_offset H x = gep_offset G y))"

lemma movedD:
  assumes "moved L g G H"
  shows "cg_ok H" "cg_frame G H" "cg_edges H = cg_edges G - L \<union> (\<Union>e \<in> L. g e)"
    "\<And>x. x \<in> cg_edges G - L \<Longrightarrow> gep_offset H x = gep_offset G x"
    "\<And>x. x \<in> cg_edges H - (cg_edges G - L) \<Longrightarrow> edgeFlag x = KNormalGep \<Longrightarrow> \<exists>y \<in> L. x \<in> g y \<and> gep_offset H x = gep_offset G y"
  using assms by (simp_all add: moved_def)

lemma moved_refl: "cg_ok G \<Longrightarrow> moved {} g G G"
  by (simp add: moved_def)

lemma moved_cong:
  assumes "moved L g G H" "\<And>e. e \<in> L \<Longrightarrow> g e = h e"
  shows "moved L h G H"
proof -
  have "(\<Union>e \<in> L. g e) = (\<Union>e \<in> L. h e)" using assms(2) by simp
  moreover have "\<exists>y \<in> L. x \<in> h y \<and> gep_offset H x = gep_offset G y" if "\<exists>y \<in> L. x \<in> g y \<and> gep_offset H x = gep_offset G y" for x
    using that assms(2) by force
  ultimately show ?thesis using assms(1) unfolding moved_def by metis
qed

lemma moved_trans:
  assumes 1: "moved L g G H" and 2: "moved M g H K"
    and M: "M \<subseteq> cg_edges G - L" and g: "\<And>e. e \<in> L \<Longrightarrow> g e \<inter> M = {}"
  shows "moved (L \<union> M) g G K"
proof -
  note a = movedD [OF 1] and b = movedD [OF 2]
  have E: "cg_edges K = cg_edges G - (L \<union> M) \<union> (\<Union>e \<in> L \<union> M. g e)"
    unfolding b(3) a(3) using g by auto
  show ?thesis unfolding moved_def
  proof (intro conjI ballI impI)
    show "cg_frame G K" by (rule cg_frame_trans [OF a(2) b(2)])
    show "gep_offset K x = gep_offset G x" if "x \<in> cg_edges G - (L \<union> M)" for x
    proof -
      have "x \<in> cg_edges G - L" "x \<in> cg_edges H - M" using that a(3) by auto
      then show ?thesis using a(4) b(4) by simp
    qed
    show "\<exists>y \<in> L \<union> M. x \<in> g y \<and> gep_offset K x = gep_offset G y"
      if x: "x \<in> cg_edges K - (cg_edges G - (L \<union> M))" and k: "edgeFlag x = KNormalGep" for x
    proof (cases "x \<in> cg_edges H - M")
      case True
      then have "x \<in> cg_edges H - (cg_edges G - L)" using x by auto
      then obtain y where "y \<in> L" "x \<in> g y" "gep_offset H x = gep_offset G y" using a(5) k by blast
      then show ?thesis using b(4) [OF True] by auto
    next
      case False
      then obtain y where "y \<in> M" "x \<in> g y" "gep_offset K x = gep_offset H y" using b(5) [of x] x k by auto
      moreover have "gep_offset H y = gep_offset G y" using a(4) M \<open>y \<in> M\<close> by blast
      ultimately show ?thesis by auto
    qed
  qed (use b(1) E in simp_all)
qed

lemma offset_data: "gep_offset G e = map_option snd (map_of (edgeData G) e)"
  by (simp add: gep_offset_def)

text \<open>Removing an edge, and adding it between other nodes.\<close>

lemma remove_moved:
  assumes "cg_ok G" "e \<in> cg_edges G"
  shows "\<exists>H. remove_kind e G = Some H \<and> moved {e} (\<lambda>_. {}) G H"
proof -
  obtain H where "remove_kind e G = Some H" "cg_ok H" "cg_edges H = cg_edges G - {e}" "cg_frame G H"
      "map_of (edgeData H) = (map_of (edgeData G))(e := None)"
    using remove_kind_spec [OF assms] by blast
  then show ?thesis by (auto simp: moved_def offset_data)
qed

lemma cg_edge_kind: "cg_ok G \<Longrightarrow> e \<in> cg_edges G \<Longrightarrow> edgeFlag e \<le> KVariantGep \<and> getEdgeKind e = edgeFlag e"
  by (auto simp: cg_ok_def edges_ok_def kind_of_flag)

lemma cg_edge_nodes: "cg_ok G \<Longrightarrow> e \<in> cg_edges G \<Longrightarrow> getSrcID e \<in> cg_nodes G \<and> getDstID e \<in> cg_nodes G"
  by (auto simp: cg_ok_def edges_ok_def)

lemma cg_rep_node: "cg_ok G \<Longrightarrow> i \<in> cg_nodes G \<Longrightarrow> cg_sccRepNode G i = i"
  by (simp add: cg_ok_def rep_of_node)

lemma replace_moved:
  assumes ok: "cg_ok G" and e: "e \<in> cg_edges G" and n: "s \<in> cg_nodes G" "d \<in> cg_nodes G" and k: "edgeFlag e = k" "k \<noteq> KAddr"
    and sd: "isdirectEdge k \<Longrightarrow> s \<noteq> d" and ap: "k = KNormalGep \<Longrightarrow> gep_offset G e = Some ap"
  shows "\<exists>H b K. remove_kind e G = Some H \<and> add_kind k s d ap H = Some (b, K) \<and> moved {e} (redirect s d) G K"
proof -
  obtain H where H: "remove_kind e G = Some H" "moved {e} (\<lambda>_. {}) G H" using remove_moved [OF ok e] by blast
  note h = movedD [OF H(2)]
  have n': "s \<in> cg_nodes H" "d \<in> cg_nodes H" using n h(2) by (simp_all add: cg_frame_def)
  have r: "cg_sccRepNode H s = s" "cg_sccRepNode H d = d" using cg_rep_node [OF h(1)] n' by simp_all
  have kk: "k \<le> KVariantGep" using cg_edge_kind [OF ok e] k by simp
  obtain b K where K: "add_kind k s d ap H = Some (b, K)" "added k s d ap H (b, K)"
    using add_kind_spec [OF h(1), of s d k ap] r n' kk by auto
  let ?x = "GEdge k s d"
  have red: "redirect s d e = {?x}" using k sd by (auto simp: redirect_def Let_def)
  have c: "k = KCopy \<Longrightarrow> s \<noteq> d" using sd by (simp add: isdirectEdge_def)
  have a: "cg_ok K" "cg_frame H K" "b \<longleftrightarrow> ?x \<notin> cg_edges H"
      "cg_edges K = (if b then insert ?x (cg_edges H) else cg_edges H)"
      "map_of (edgeData K) = (if b then (map_of (edgeData H))(?x \<mapsto> (edgeIndex H, edge_offset k ap)) else map_of (edgeData H))"
    using K(2) c by (auto simp: added_def)
  have hE: "cg_edges H = cg_edges G - {e}" using h(3) by simp
  have E: "cg_edges K = insert ?x (cg_edges G - {e})" using a(3,4) hE by auto
  have "moved {e} (redirect s d) G K" unfolding moved_def
  proof (intro conjI ballI impI)
    show "cg_ok K" by fact
    show "cg_frame G K" by (rule cg_frame_trans [OF h(2) a(2)])
    show "cg_edges K = cg_edges G - {e} \<union> (\<Union>e \<in> {e}. redirect s d e)" using E red by simp
    show "gep_offset K x = gep_offset G x" if "x \<in> cg_edges G - {e}" for x
    proof -
      have "\<not> b \<or> x \<noteq> ?x" using a(3) that hE by auto
      then have "map_of (edgeData K) x = map_of (edgeData H) x" unfolding a(5) by (cases b) simp_all
      then show ?thesis using h(4) [OF that] by (simp add: offset_data)
    qed
    show "\<exists>y \<in> {e}. x \<in> redirect s d y \<and> gep_offset K x = gep_offset G y"
      if x: "x \<in> cg_edges K - (cg_edges G - {e})" and kx: "edgeFlag x = KNormalGep" for x
    proof -
      have xx: "x = ?x" using x unfolding E by blast
      have "b" using x xx a(3) hE by simp
      then have m: "map_of (edgeData K) x = Some (edgeIndex H, edge_offset k ap)" unfolding a(5) xx by simp
      have kk: "k = KNormalGep" using xx kx by simp
      then have "gep_offset K x = Some ap" using m by (simp add: offset_data edge_offset_def)
      then show ?thesis using ap [OF kk] red xx by simp
    qed
  qed
  then show ?thesis using H(1) K(1) by blast
qed

text \<open>The operations of the graph are these.\<close>

lemma retarget_moved:
  assumes ok: "cg_ok G" and e: "e \<in> cg_edges G" and n: "rep \<in> cg_nodes G"
  shows "(isdirectEdge (edgeFlag e) \<Longrightarrow> getSrcID e \<noteq> rep) \<Longrightarrow>
      \<exists>H. reTargetDstOfEdge e rep G = Some H \<and> moved {e} (redirect (getSrcID e) rep) G H"
    "(isdirectEdge (edgeFlag e) \<Longrightarrow> rep \<noteq> getDstID e) \<Longrightarrow>
      \<exists>H. reTargetSrcOfEdge e rep G = Some H \<and> moved {e} (redirect rep (getDstID e)) G H"
proof -
  let ?k = "edgeFlag e"
  have k: "?k \<le> KVariantGep" "getEdgeKind e = ?k" using cg_edge_kind [OF ok e] by blast+
  have sd: "getSrcID e \<in> cg_nodes G" "getDstID e \<in> cg_nodes G" using cg_edge_nodes [OF ok e] by blast+
  obtain ap where ap: "gep_offset G e = Some ap" using gep_offset_edge [OF ok e] by blast
  have ra: "removeAddrEdge e G = remove_kind e G" if "?k = KAddr" using that k(2) by (simp add: remove_kind_def)
  have add: "\<exists>H. removeAddrEdge e G = Some H \<and> moved {e} (redirect s d) G H" if "?k = KAddr" for s d
    using remove_moved [OF ok e] moved_cong [of "{e}" "\<lambda>_. {}" G _ "redirect s d"] ra [OF that] that by (fastforce simp: redirect_def)
  note cases = kind_cases [OF k(1)]
  show "\<exists>H. reTargetDstOfEdge e rep G = Some H \<and> moved {e} (redirect (getSrcID e) rep) G H"
    if c: "isdirectEdge ?k \<Longrightarrow> getSrcID e \<noteq> rep"
  proof (cases "?k = KAddr")
    case True
    then show ?thesis using add k(2) by (simp add: reTargetDstOfEdge_def Let_def)
  next
    case False
    obtain H b K where "remove_kind e G = Some H" "add_kind ?k (getSrcID e) rep ap H = Some (b, K)"
        "moved {e} (redirect (getSrcID e) rep) G K"
      using replace_moved [OF ok e sd(1) n refl False c ap] by blast
    then show ?thesis
      using cases False by (auto simp: reTargetDstOfEdge_def remove_kind_def add_kind_def k(2) ap Let_def)
  qed
  show "\<exists>H. reTargetSrcOfEdge e rep G = Some H \<and> moved {e} (redirect rep (getDstID e)) G H"
    if c: "isdirectEdge ?k \<Longrightarrow> rep \<noteq> getDstID e"
  proof (cases "?k = KAddr")
    case True
    then show ?thesis using add k(2) by (simp add: reTargetSrcOfEdge_def Let_def)
  next
    case False
    obtain H b K where "remove_kind e G = Some H" "add_kind ?k rep (getDstID e) ap H = Some (b, K)"
        "moved {e} (redirect rep (getDstID e)) G K"
      using replace_moved [OF ok e n sd(2) refl False c ap] by blast
    then show ?thesis
      using cases False by (auto simp: reTargetSrcOfEdge_def remove_kind_def add_kind_def k(2) ap Let_def)
  qed
qed

text \<open>A gep edge that may have an offset.\<close>

definition critical_gep :: "cons_graph \<Rightarrow> gedge \<Rightarrow> bool" where
  "critical_gep G e \<longleftrightarrow> edgeFlag e = KVariantGep \<or> edgeFlag e = KNormalGep \<and> gep_offset G e \<noteq> Some 0"

lemma scc_edge_moved:
  assumes ok: "cg_ok G" and e: "e \<in> cg_edges G" and g: "isdirectEdge (edgeFlag e) \<Longrightarrow> g e = {}" "edgeFlag e = KAddr \<Longrightarrow> g e = {}"
    and r: "\<not> isdirectEdge (edgeFlag e) \<Longrightarrow> edgeFlag e \<noteq> KAddr \<Longrightarrow> \<exists>H. retarget e rep G = Some H \<and> moved {e} g G H"
  shows "\<exists>H. scc_edge retarget rep e (c, G) = Some (c \<or> critical_gep G e, H) \<and> moved {e} g G H"
proof -
  have k: "edgeFlag e \<le> KVariantGep" "getEdgeKind e = edgeFlag e" using cg_edge_kind [OF ok e] by blast+
  obtain ap where ap: "gep_offset G e = Some ap" using gep_offset_edge [OF ok e] by blast
  obtain H where H: "remove_kind e G = Some H" "moved {e} (\<lambda>_. {}) G H" using remove_moved [OF ok e] by blast
  have m: "moved {e} g G H" if "g e = {}" by (rule moved_cong [OF H(2)]) (use that in simp)
  consider "edgeFlag e = KCopy" | "is_gep e" | "edgeFlag e = KLoad \<or> edgeFlag e = KStore" | "edgeFlag e = KAddr"
    using kind_cases [OF k(1)] k(2) by (auto simp: is_gep_def)
  then show ?thesis
  proof cases
    case 1
    then show ?thesis using H(1) m g k by (simp add: scc_edge_def remove_kind_def critical_gep_def isdirectEdge_def)
  next
    case 2
    then have "isdirectEdge (edgeFlag e)" "removeDirectEdge e G = Some H" using H(1) k(2) by (auto simp: is_gep_def isdirectEdge_def remove_kind_def)
    then show ?thesis using 2 m g k ap
      by (auto simp: scc_edge_def critical_gep_def is_gep_def isZeroOffsettedGepCGEdge_def Let_def)
  next
    case 3
    then obtain H' where "retarget e rep G = Some H'" "moved {e} g G H'" using r by (auto simp: isdirectEdge_def)
    then show ?thesis using 3 k by (auto simp: scc_edge_def critical_gep_def is_gep_def)
  next
    case 4
    then show ?thesis using H(1) m g k by (simp add: scc_edge_def remove_kind_def critical_gep_def is_gep_def)
  qed
qed

section \<open>Moving the edges of a node\<close>

lemma ofold_moved:
  assumes step: "\<And>e s. e \<in> set L \<Longrightarrow> cg_ok (gr s) \<Longrightarrow> e \<in> cg_edges (gr s) \<Longrightarrow> cg_frame G0 (gr s) \<Longrightarrow> gep_offset (gr s) e = gep_offset G0 e \<Longrightarrow>
      \<exists>t. f e s = Some t \<and> moved {e} g (gr s) (gr t) \<and> fl t = (fl s \<or> cr e)"
    and g: "\<And>e. e \<in> set L \<Longrightarrow> g e \<inter> set L = {}"
    and start: "distinct L" "cg_ok (gr s)" "set L \<subseteq> cg_edges (gr s)" "cg_frame G0 (gr s)"
      "\<And>e. e \<in> set L \<Longrightarrow> gep_offset (gr s) e = gep_offset G0 e"
  shows "\<exists>t. ofold f L s = Some t \<and> moved (set L) g (gr s) (gr t) \<and> fl t = (fl s \<or> (\<exists>e \<in> set L. cr e))"
  using assms
proof (induction L arbitrary: s)
  case Nil
  then show ?case by (simp add: moved_refl)
next
  case (Cons e L)
  have e: "e \<in> set (e # L)" by simp
  obtain u where u: "f e s = Some u" "moved {e} g (gr s) (gr u)" "fl u = (fl s \<or> cr e)"
    using Cons.prems(1) [OF e Cons.prems(4) _ Cons.prems(6) Cons.prems(7) [OF e]] Cons.prems(5) by auto
  note m = movedD [OF u(2)]
  have rest: "set L \<subseteq> cg_edges (gr s) - {e}" using Cons.prems(3,5) by auto
  have "\<exists>t. ofold f L u = Some t \<and> moved (set L) g (gr u) (gr t) \<and> fl t = (fl u \<or> (\<exists>e \<in> set L. cr e))"
  proof (rule Cons.IH)
    fix x t
    assume "x \<in> set L" "cg_ok (gr t)" "x \<in> cg_edges (gr t)" "cg_frame G0 (gr t)" "gep_offset (gr t) x = gep_offset G0 x"
    then show "\<exists>v. f x t = Some v \<and> moved {x} g (gr t) (gr v) \<and> fl v = (fl t \<or> cr x)"
      using Cons.prems(1) by simp
  next
    show "g x \<inter> set L = {}" if "x \<in> set L" for x using Cons.prems(2) [of x] that by auto
    show "set L \<subseteq> cg_edges (gr u)" using m(3) rest by auto
    show "gep_offset (gr u) x = gep_offset G0 x" if "x \<in> set L" for x
      using m(4) [of x] Cons.prems(7) [of x] rest that by auto
  qed (use Cons.prems(3) m(1) cg_frame_trans [OF Cons.prems(6) m(2)] in simp_all)
  then obtain t where t: "ofold f L u = Some t" "moved (set L) g (gr u) (gr t)" "fl t = (fl u \<or> (\<exists>e \<in> set L. cr e))" by blast
  have "moved ({e} \<union> set L) g (gr s) (gr t)"
    by (rule moved_trans [OF u(2) t(2) rest]) (use Cons.prems(2) [of e] in auto)
  then show ?case using u t by auto
qed

lemma cg_node_edges:
  assumes "cg_ok G" "i \<in> cg_nodes G"
  shows "\<exists>n. getGNode i (cg_base G) = Some n \<and> oset_is (es_all (cn_in n)) {e \<in> cg_edges G. getDstID e = i} \<and>
    oset_is (es_all (cn_out n)) {e \<in> cg_edges G. getSrcID e = i}"
  using assms by (fastforce simp: cg_ok_def sides_ok_def es_ok_def cg_nodes_def getGNode_def)

text \<open>The two rounds: first the edges that leave the component, then the others.\<close>

lemma move_rounds:
  fixes g :: "gedge \<Rightarrow> gedge set"
  assumes ok: "cg_ok G" and L: "oset_is L E" "E \<subseteq> cg_edges G" and g: "\<And>e. e \<in> E \<Longrightarrow> g e \<inter> E = {}"
    and one: "\<And>e H. e \<in> E \<Longrightarrow> \<not> inner e \<Longrightarrow> cg_ok H \<Longrightarrow> e \<in> cg_edges H \<Longrightarrow> cg_frame G H \<Longrightarrow>
      \<exists>K. retarget e rep H = Some K \<and> moved {e} g H K"
    and two: "\<And>e c H. e \<in> E \<Longrightarrow> inner e \<Longrightarrow> cg_ok H \<Longrightarrow> e \<in> cg_edges H \<Longrightarrow> cg_frame G H \<Longrightarrow>
      \<exists>K. scc_edge retarget rep e (c, H) = Some (c \<or> critical_gep H e, K) \<and> moved {e} g H K"
  shows "\<exists>H K. ofold (\<lambda>e G. retarget e rep G) (rev (filter (\<lambda>e. \<not> inner e) L)) G = Some H \<and>
    ofold (scc_edge retarget rep) (rev (filter inner L)) (False, H) = Some (\<exists>e \<in> E. inner e \<and> critical_gep G e, K) \<and> moved E g G K"
proof -
  let ?A = "rev (filter (\<lambda>e. \<not> inner e) L)" and ?B = "rev (filter inner L)"
  have d: "distinct L" "set L = E" using L(1) by (auto simp: oset_is_def oset_distinct)
  have sA: "set ?A \<subseteq> E" "set ?B \<subseteq> E" "set ?A \<union> set ?B = E" "set ?A \<inter> set ?B = {}" using d by auto
  have "\<exists>t. ofold (\<lambda>e G. retarget e rep G) ?A G = Some t \<and> moved (set ?A) g (id G) (id t) \<and> False = (False \<or> (\<exists>e \<in> set ?A. False))"
  proof (rule ofold_moved [where ?G0.0 = G and fl = "\<lambda>_. False"])
    show "\<exists>t. retarget e rep s = Some t \<and> moved {e} g (id s) (id t) \<and> False = (False \<or> False)"
      if "e \<in> set ?A" "cg_ok (id s)" "e \<in> cg_edges (id s)" "cg_frame G (id s)" for e s
      using one [of e s] that d by simp
    show "g e \<inter> set ?A = {}" if "e \<in> set ?A" for e using g [of e] that sA by blast
  qed (use ok d L sA in auto)
  then obtain H where H: "ofold (\<lambda>e G. retarget e rep G) ?A G = Some H" "moved (set ?A) g G H" by auto
  note h = movedD [OF H(2)]
  have BH: "set ?B \<subseteq> cg_edges G - set ?A" using sA L(2) by blast
  have off: "critical_gep H e = critical_gep G e" if "e \<in> set ?B" for e
    using h(4) [of e] BH that by (auto simp: critical_gep_def)
  have "\<exists>t. ofold (scc_edge retarget rep) ?B (False, H) = Some t \<and> moved (set ?B) g (snd (False, H)) (snd t) \<and>
      fst t = (fst (False, H) \<or> (\<exists>e \<in> set ?B. critical_gep G e))"
  proof (rule ofold_moved [where ?G0.0 = H])
    show "\<exists>t. scc_edge retarget rep e s = Some t \<and> moved {e} g (snd s) (snd t) \<and> fst t = (fst s \<or> critical_gep G e)"
      if e: "e \<in> set ?B" "cg_ok (snd s)" "e \<in> cg_edges (snd s)" "cg_frame H (snd s)" "gep_offset (snd s) e = gep_offset H e" for e s
    proof -
      have "critical_gep (snd s) e = critical_gep G e" using off [OF e(1)] e(5) by (simp add: critical_gep_def)
      moreover have "\<exists>K. scc_edge retarget rep e (fst s, snd s) = Some (fst s \<or> critical_gep (snd s) e, K) \<and> moved {e} g (snd s) K"
        by (rule two) (use e d cg_frame_trans [OF h(2) e(4)] in auto)
      ultimately show ?thesis by auto
    qed
    show "g e \<inter> set ?B = {}" if "e \<in> set ?B" for e using g [of e] that sA by blast
    show "set ?B \<subseteq> cg_edges (snd (False, H))" using BH h(3) by auto
  qed (use h(1) d in auto)
  then obtain K where K: "ofold (scc_edge retarget rep) ?B (False, H) = Some (\<exists>e \<in> set ?B. critical_gep G e, K)" "moved (set ?B) g H K"
    by auto
  have "moved (set ?A \<union> set ?B) g G K"
    by (rule moved_trans [OF H(2) K(2) BH]) (use g sA in blast)
  then have m: "moved E g G K" using sA(3) by simp
  have "(\<exists>e \<in> set ?B. critical_gep G e) = (\<exists>e \<in> E. inner e \<and> critical_gep G e)" using d by auto
  then show ?thesis using H(1) K(1) m by auto
qed

lemma moveInEdgesToRepNode_spec:
  assumes ok: "cg_ok G" and n: "i \<in> cg_nodes G" "rep \<in> cg_nodes G" "i \<noteq> rep"
  shows "\<exists>K. moveInEdgesToRepNode i rep G =
      Some (\<exists>e \<in> cg_edges G. getDstID e = i \<and> getSrcID e = rep \<and> critical_gep G e, K) \<and>
    moved {e \<in> cg_edges G. getDstID e = i} (\<lambda>e. redirect (getSrcID e) rep e) G K"
proof -
  let ?E = "{e \<in> cg_edges G. getDstID e = i}"
  obtain m where m: "getGNode i (cg_base G) = Some m" "oset_is (es_all (cn_in m)) ?E" using cg_node_edges [OF ok n(1)] by blast
  have inner: "cg_sccRepNode G (getSrcID e) = getSrcID e" if "e \<in> ?E" for e
    using that cg_edge_nodes [OF ok] cg_rep_node [OF ok] by blast
  have mem: "set (es_all (cn_in m)) = ?E" using m(2) by (simp add: oset_is_def)
  have red: "moved {e} (redirect s rep) H K \<Longrightarrow> getSrcID e = s \<Longrightarrow> moved {e} (\<lambda>e. redirect (getSrcID e) rep e) H K" for e s H K
    by (rule moved_cong) auto
  have fr: "rep \<in> cg_nodes H" if "cg_frame G H" for H using that n(2) by (simp add: cg_frame_def)
  let ?inner = "\<lambda>e. cg_sccRepNode G (getSrcID e) = rep"
  have "\<exists>H K. ofold (\<lambda>e G. reTargetDstOfEdge e rep G) (rev (filter (\<lambda>e. \<not> ?inner e) (es_all (cn_in m)))) G = Some H \<and>
    ofold (scc_edge reTargetDstOfEdge rep) (rev (filter ?inner (es_all (cn_in m)))) (False, H) =
      Some (\<exists>e \<in> ?E. ?inner e \<and> critical_gep G e, K) \<and> moved ?E (\<lambda>e. redirect (getSrcID e) rep e) G K"
  proof (rule move_rounds [OF ok m(2)])
    show "redirect (getSrcID e) rep e \<inter> ?E = {}" for e using n(3) by (auto simp: redirect_def Let_def)
    show "\<exists>K. reTargetDstOfEdge e rep H = Some K \<and> moved {e} (\<lambda>e. redirect (getSrcID e) rep e) H K"
      if e: "e \<in> ?E" "\<not> ?inner e" "cg_ok H" "e \<in> cg_edges H" "cg_frame G H" for e H
      using retarget_moved(1) [OF e(3,4) fr [OF e(5)]] e(2) inner [OF e(1)] red [OF _ refl] by metis
    show "\<exists>K. scc_edge reTargetDstOfEdge rep e (c, H) = Some (c \<or> critical_gep H e, K) \<and> moved {e} (\<lambda>e. redirect (getSrcID e) rep e) H K"
      if e: "e \<in> ?E" "?inner e" "cg_ok H" "e \<in> cg_edges H" "cg_frame G H" for e c H
    proof (rule scc_edge_moved [OF e(3,4)])
      show "redirect (getSrcID e) rep e = {}" if "isdirectEdge (edgeFlag e)" using that e(2) inner [OF e(1)] by (simp add: redirect_def)
      show "redirect (getSrcID e) rep e = {}" if "edgeFlag e = KAddr" using that by (simp add: redirect_def)
      show "\<exists>K. reTargetDstOfEdge e rep H = Some K \<and> moved {e} (\<lambda>e. redirect (getSrcID e) rep e) H K"
        if "\<not> isdirectEdge (edgeFlag e)"
        using retarget_moved(1) [OF e(3,4) fr [OF e(5)]] that red [OF _ refl] by metis
    qed
  qed auto
  then obtain H K where "ofold (\<lambda>e G. reTargetDstOfEdge e rep G) (rev (filter (\<lambda>e. \<not> ?inner e) (es_all (cn_in m)))) G = Some H"
    "ofold (scc_edge reTargetDstOfEdge rep) (rev (filter ?inner (es_all (cn_in m)))) (False, H) =
      Some (\<exists>e \<in> ?E. ?inner e \<and> critical_gep G e, K)" "moved ?E (\<lambda>e. redirect (getSrcID e) rep e) G K" by blast
  moreover have "(\<exists>e \<in> ?E. ?inner e \<and> critical_gep G e) =
      (\<exists>e \<in> cg_edges G. getDstID e = i \<and> getSrcID e = rep \<and> critical_gep G e)" using inner by auto
  ultimately show ?thesis using m(1) by (simp add: moveInEdgesToRepNode_def)
qed

lemma moveOutEdgesToRepNode_spec:
  assumes ok: "cg_ok G" and n: "i \<in> cg_nodes G" "rep \<in> cg_nodes G" "i \<noteq> rep"
  shows "\<exists>K. moveOutEdgesToRepNode i rep G =
      Some (\<exists>e \<in> cg_edges G. getSrcID e = i \<and> getDstID e = rep \<and> critical_gep G e, K) \<and>
    moved {e \<in> cg_edges G. getSrcID e = i} (\<lambda>e. redirect rep (getDstID e) e) G K"
proof -
  let ?E = "{e \<in> cg_edges G. getSrcID e = i}"
  obtain m where m: "getGNode i (cg_base G) = Some m" "oset_is (es_all (cn_out m)) ?E" using cg_node_edges [OF ok n(1)] by blast
  have inner: "cg_sccRepNode G (getDstID e) = getDstID e" if "e \<in> ?E" for e
    using that cg_edge_nodes [OF ok] cg_rep_node [OF ok] by blast
  have red: "moved {e} (redirect rep d) H K \<Longrightarrow> getDstID e = d \<Longrightarrow> moved {e} (\<lambda>e. redirect rep (getDstID e) e) H K" for e d H K
    by (rule moved_cong) auto
  have fr: "rep \<in> cg_nodes H" if "cg_frame G H" for H using that n(2) by (simp add: cg_frame_def)
  let ?inner = "\<lambda>e. cg_sccRepNode G (getDstID e) = rep"
  have "\<exists>H K. ofold (\<lambda>e G. reTargetSrcOfEdge e rep G) (rev (filter (\<lambda>e. \<not> ?inner e) (es_all (cn_out m)))) G = Some H \<and>
    ofold (scc_edge reTargetSrcOfEdge rep) (rev (filter ?inner (es_all (cn_out m)))) (False, H) =
      Some (\<exists>e \<in> ?E. ?inner e \<and> critical_gep G e, K) \<and> moved ?E (\<lambda>e. redirect rep (getDstID e) e) G K"
  proof (rule move_rounds [OF ok m(2)])
    show "redirect rep (getDstID e) e \<inter> ?E = {}" for e using n(3) by (auto simp: redirect_def Let_def)
    show "\<exists>K. reTargetSrcOfEdge e rep H = Some K \<and> moved {e} (\<lambda>e. redirect rep (getDstID e) e) H K"
      if e: "e \<in> ?E" "\<not> ?inner e" "cg_ok H" "e \<in> cg_edges H" "cg_frame G H" for e H
      using retarget_moved(2) [OF e(3,4) fr [OF e(5)]] e(2) inner [OF e(1)] red [OF _ refl] by metis
    show "\<exists>K. scc_edge reTargetSrcOfEdge rep e (c, H) = Some (c \<or> critical_gep H e, K) \<and> moved {e} (\<lambda>e. redirect rep (getDstID e) e) H K"
      if e: "e \<in> ?E" "?inner e" "cg_ok H" "e \<in> cg_edges H" "cg_frame G H" for e c H
    proof (rule scc_edge_moved [OF e(3,4)])
      show "redirect rep (getDstID e) e = {}" if "isdirectEdge (edgeFlag e)" using that e(2) inner [OF e(1)] by (simp add: redirect_def)
      show "redirect rep (getDstID e) e = {}" if "edgeFlag e = KAddr" using that by (simp add: redirect_def)
      show "\<exists>K. reTargetSrcOfEdge e rep H = Some K \<and> moved {e} (\<lambda>e. redirect rep (getDstID e) e) H K"
        if "\<not> isdirectEdge (edgeFlag e)"
        using retarget_moved(2) [OF e(3,4) fr [OF e(5)]] that red [OF _ refl] by metis
    qed
  qed auto
  then obtain H K where "ofold (\<lambda>e G. reTargetSrcOfEdge e rep G) (rev (filter (\<lambda>e. \<not> ?inner e) (es_all (cn_out m)))) G = Some H"
    "ofold (scc_edge reTargetSrcOfEdge rep) (rev (filter ?inner (es_all (cn_out m)))) (False, H) =
      Some (\<exists>e \<in> ?E. ?inner e \<and> critical_gep G e, K)" "moved ?E (\<lambda>e. redirect rep (getDstID e) e) G K" by blast
  moreover have "(\<exists>e \<in> ?E. ?inner e \<and> critical_gep G e) =
      (\<exists>e \<in> cg_edges G. getSrcID e = i \<and> getDstID e = rep \<and> critical_gep G e)" using inner by auto
  ultimately show ?thesis using m(1) by (simp add: moveOutEdgesToRepNode_def)
qed

text \<open>
  All the edges of a node: each gets the ends it has after the node is replaced by the representative. An offset
  comes from an edge that was replaced by this one. The flag tells of an edge with an offset between the two, or
  at the node itself unless an edge of that kind to the representative was there already.
\<close>

definition into :: "NodeID \<Rightarrow> NodeID \<Rightarrow> NodeID \<Rightarrow> NodeID" where
  "into i rep j = (if j = i then rep else j)"

definition merge_edge :: "NodeID \<Rightarrow> NodeID \<Rightarrow> gedge \<Rightarrow> gedge set" where
  "merge_edge i rep e = (if getSrcID e = i \<or> getDstID e = i then redirect (into i rep (getSrcID e)) (into i rep (getDstID e)) e else {e})"

definition merge_critical :: "NodeID \<Rightarrow> NodeID \<Rightarrow> cons_graph \<Rightarrow> gedge \<Rightarrow> bool" where
  "merge_critical i rep G e \<longleftrightarrow> critical_gep G e \<and> (getSrcID e = rep \<and> getDstID e = i \<or> getSrcID e = i \<and> getDstID e = rep \<or>
     getSrcID e = i \<and> getDstID e = i \<and> GEdge (edgeFlag e) i rep \<notin> cg_edges G)"

lemma merge_edges_two_steps:
  assumes "i \<noteq> rep" and F: "F = E - {e \<in> E. getDstID e = i} \<union> (\<Union>e \<in> {e \<in> E. getDstID e = i}. redirect (getSrcID e) rep e)"
  shows "F - {e \<in> F. getSrcID e = i} \<union> (\<Union>e \<in> {e \<in> F. getSrcID e = i}. redirect rep (getDstID e) e) = (\<Union>e \<in> E. merge_edge i rep e)"
  (is "?L = ?R")
proof
  show "?L \<subseteq> ?R"
  proof
    fix x assume "x \<in> ?L"
    then consider "x \<in> F" "getSrcID x \<noteq> i" | y where "y \<in> F" "getSrcID y = i" "x \<in> redirect rep (getDstID y) y" by blast
    then show "x \<in> ?R"
    proof cases
      case 1
      then consider "x \<in> E" "getDstID x \<noteq> i" | y where "y \<in> E" "getDstID y = i" "x \<in> redirect (getSrcID y) rep y" unfolding F by blast
      then show ?thesis
      proof cases
        case 1
        with \<open>getSrcID x \<noteq> i\<close> show ?thesis by (auto simp: merge_edge_def)
      next
        case (2 y)
        then have "getSrcID y = getSrcID x" by (auto simp: redirect_def Let_def split: if_splits)
        then have "x \<in> merge_edge i rep y" using 2 \<open>getSrcID x \<noteq> i\<close> by (simp add: merge_edge_def into_def)
        then show ?thesis using 2(1) by blast
      qed
    next
      case (2 y)
      then consider "y \<in> E" "getDstID y \<noteq> i" | z where "z \<in> E" "getDstID z = i" "y \<in> redirect (getSrcID z) rep z" unfolding F by blast
      then show ?thesis
      proof cases
        case 1
        then have "x \<in> merge_edge i rep y" using 2 by (simp add: merge_edge_def into_def)
        then show ?thesis using 1(1) by blast
      next
        case (2 z)
        have y: "y = GEdge (edgeFlag z) (getSrcID z) rep" "edgeFlag z \<noteq> KAddr" using 2(3) by (auto simp: redirect_def Let_def split: if_splits)
        then have "x \<in> merge_edge i rep z" using 2(2) \<open>getSrcID y = i\<close> \<open>x \<in> redirect rep (getDstID y) y\<close>
          by (auto simp: merge_edge_def into_def redirect_def Let_def split: if_splits)
        then show ?thesis using 2(1) by blast
      qed
    qed
  qed
  show "?R \<subseteq> ?L"
  proof
    fix x assume "x \<in> ?R"
    then obtain e where e: "e \<in> E" "x \<in> merge_edge i rep e" by blast
    show "x \<in> ?L"
    proof (cases "getDstID e = i")
      case True
      show ?thesis
      proof (cases "getSrcID e = i")
        case s: True
        let ?y = "GEdge (edgeFlag e) i rep"
        have x: "x = GEdge (edgeFlag e) rep rep" "edgeFlag e \<noteq> KAddr" "\<not> isdirectEdge (edgeFlag e)"
          using e(2) s True by (auto simp: merge_edge_def into_def redirect_def Let_def split: if_splits)
        have "?y \<in> redirect (getSrcID e) rep e" using s x assms(1) by (simp add: redirect_def Let_def)
        then have "?y \<in> F" unfolding F using e(1) True by blast
        moreover have "x \<in> redirect rep (getDstID ?y) ?y" using x by (simp add: redirect_def Let_def)
        ultimately show ?thesis by auto
      next
        case False
        then have x: "x \<in> redirect (getSrcID e) rep e" using e(2) True by (simp add: merge_edge_def into_def)
        then have "x \<in> F" unfolding F using e(1) True by blast
        moreover have "getSrcID x \<noteq> i" using x False by (auto simp: redirect_def Let_def split: if_splits)
        ultimately show ?thesis by auto
      qed
    next
      case False
      then have "e \<in> F" unfolding F using e(1) by blast
      then show ?thesis using e(2) False by (auto simp: merge_edge_def into_def split: if_splits)
    qed
  qed
qed

lemma merge_critical_two_steps:
  assumes n: "i \<noteq> rep" and m: "moved {e \<in> cg_edges G. getDstID e = i} (\<lambda>e. redirect (getSrcID e) rep e) G H"
  shows "((\<exists>e \<in> cg_edges G. getDstID e = i \<and> getSrcID e = rep \<and> critical_gep G e) \<or>
     (\<exists>e \<in> cg_edges H. getSrcID e = i \<and> getDstID e = rep \<and> critical_gep H e)) = (\<exists>e \<in> cg_edges G. merge_critical i rep G e)"
    (is "(?A \<or> ?B) = ?C")
proof -
  note a = movedD [OF m]
  let ?L = "{e \<in> cg_edges G. getDstID e = i}"
  have keep: "critical_gep H e = critical_gep G e" if "e \<in> cg_edges G" "getDstID e = rep" for e
    using a(4) [of e] that n by (auto simp: critical_gep_def)
  have orig: "\<exists>y \<in> cg_edges G. getSrcID y = i \<and> getDstID y = i \<and> edgeFlag y = edgeFlag e \<and> (edgeFlag e = KNormalGep \<longrightarrow> gep_offset H e = gep_offset G y)"
    if e: "e \<in> cg_edges H" "getSrcID e = i" "e \<notin> cg_edges G" for e
  proof -
    have src: "getSrcID y = i \<and> edgeFlag y = edgeFlag e" if "e \<in> redirect (getSrcID y) rep y" for y
      using that e(2) by (auto simp: redirect_def Let_def split: if_splits)
    show ?thesis
    proof (cases "edgeFlag e = KNormalGep")
      case True
      then obtain y where "y \<in> ?L" "e \<in> redirect (getSrcID y) rep y" "gep_offset H e = gep_offset G y" using a(5) [of e] e by blast
      then show ?thesis using src [of y] by auto
    next
      case False
      obtain y where "y \<in> ?L" "e \<in> redirect (getSrcID y) rep y" using a(3) e(1,3) by blast
      then show ?thesis using src [of y] False by auto
    qed
  qed
  show ?thesis
  proof
    assume "?A \<or> ?B"
    then show ?C
    proof
      assume ?A
      then show ?C by (auto simp: merge_critical_def)
    next
      assume ?B
      then obtain e where e: "e \<in> cg_edges H" "getSrcID e = i" "getDstID e = rep" "critical_gep H e" by blast
      show ?C
      proof (cases "e \<in> cg_edges G")
        case True
        then have "merge_critical i rep G e" using keep [OF True e(3)] e by (simp add: merge_critical_def)
        then show ?thesis using True by blast
      next
        case False
        obtain y where y: "y \<in> cg_edges G" "getSrcID y = i" "getDstID y = i" "edgeFlag y = edgeFlag e"
            "edgeFlag e = KNormalGep \<longrightarrow> gep_offset H e = gep_offset G y" using orig [OF e(1,2) False] by blast
        have "GEdge (edgeFlag y) i rep = e" using e(2,3) y(4) by (cases e) simp
        moreover have "critical_gep G y" using e(4) y(4,5) by (auto simp: critical_gep_def)
        ultimately have "merge_critical i rep G y" using y False by (simp add: merge_critical_def)
        then show ?thesis using y(1) by blast
      qed
    qed
  next
    assume ?C
    then obtain e where e: "e \<in> cg_edges G" "merge_critical i rep G e" by blast
    then have c: "critical_gep G e" by (simp add: merge_critical_def)
    consider "getSrcID e = rep" "getDstID e = i" | "getSrcID e = i" "getDstID e = rep"
      | "getSrcID e = i" "getDstID e = i" "GEdge (edgeFlag e) i rep \<notin> cg_edges G"
      using e(2) by (auto simp: merge_critical_def)
    then show "?A \<or> ?B"
    proof cases
      case 1
      then show ?thesis using e(1) c by blast
    next
      case 2
      then have "e \<in> cg_edges H" using e(1) a(3) n by auto
      then show ?thesis using 2 c keep [OF e(1)] by blast
    next
      case 3
      let ?x = "GEdge (edgeFlag e) i rep"
      have "edgeFlag e \<noteq> KAddr" using c by (auto simp: critical_gep_def)
      then have "?x \<in> redirect (getSrcID e) rep e" using 3(1) n by (simp add: redirect_def Let_def)
      then have x: "?x \<in> cg_edges H" using a(3) e(1) 3(2) by blast
      obtain y where y: "y \<in> cg_edges G" "getSrcID y = i" "getDstID y = i" "edgeFlag y = edgeFlag e"
          "edgeFlag e = KNormalGep \<longrightarrow> gep_offset H ?x = gep_offset G y" using orig [OF x _ 3(3)] by auto
      have "y = e" using y 3 by (cases y; cases e) simp
      then have "critical_gep H ?x" using c y by (auto simp: critical_gep_def)
      then show ?thesis using x by force
    qed
  qed
qed

lemma moveEdgesToRepNode_spec:
  assumes ok: "cg_ok G" and n: "i \<in> cg_nodes G" "rep \<in> cg_nodes G" "i \<noteq> rep"
  shows "\<exists>K. moveEdgesToRepNode i rep G = Some (\<exists>e \<in> cg_edges G. merge_critical i rep G e, K) \<and> cg_ok K \<and> cg_frame G K \<and>
    cg_edges K = (\<Union>e \<in> cg_edges G. merge_edge i rep e) \<and>
    (\<forall>x \<in> cg_edges K. edgeFlag x = KNormalGep \<longrightarrow> (\<exists>y \<in> cg_edges G. x \<in> merge_edge i rep y \<and> gep_offset K x = gep_offset G y))"
proof -
  let ?L = "{e \<in> cg_edges G. getDstID e = i}"
  obtain H where H: "moveInEdgesToRepNode i rep G = Some (\<exists>e \<in> cg_edges G. getDstID e = i \<and> getSrcID e = rep \<and> critical_gep G e, H)"
      "moved ?L (\<lambda>e. redirect (getSrcID e) rep e) G H"
    using moveInEdgesToRepNode_spec [OF ok n] by blast
  note h = movedD [OF H(2)]
  have nh: "i \<in> cg_nodes H" "rep \<in> cg_nodes H" using h(2) n by (simp_all add: cg_frame_def)
  let ?M = "{e \<in> cg_edges H. getSrcID e = i}"
  obtain K where K: "moveOutEdgesToRepNode i rep H = Some (\<exists>e \<in> cg_edges H. getSrcID e = i \<and> getDstID e = rep \<and> critical_gep H e, K)"
      "moved ?M (\<lambda>e. redirect rep (getDstID e) e) H K"
    using moveOutEdgesToRepNode_spec [OF h(1) nh n(3)] by blast
  note k = movedD [OF K(2)]
  have E: "cg_edges K = (\<Union>e \<in> cg_edges G. merge_edge i rep e)"
    unfolding k(3) by (rule merge_edges_two_steps [OF n(3) h(3)])
  have off: "\<exists>y \<in> cg_edges G. x \<in> merge_edge i rep y \<and> gep_offset K x = gep_offset G y"
    if x: "x \<in> cg_edges K" and f: "edgeFlag x = KNormalGep" for x
  proof -
    have in_H: "\<exists>y \<in> cg_edges G. z \<in> (if getDstID y = i then redirect (getSrcID y) rep y else {y}) \<and> gep_offset H z = gep_offset G y"
      if zz: "z \<in> cg_edges H" "edgeFlag z = KNormalGep" for z
    proof (cases "z \<in> cg_edges G - ?L")
      case True
      then show ?thesis using h(4) [OF True] by auto
    next
      case False
      then obtain y where "y \<in> ?L" "z \<in> redirect (getSrcID y) rep y" "gep_offset H z = gep_offset G y" using h(5) [of z] zz by blast
      then show ?thesis by auto
    qed
    show ?thesis
    proof (cases "x \<in> cg_edges H - ?M")
      case True
      then obtain y where y: "y \<in> cg_edges G" "x \<in> (if getDstID y = i then redirect (getSrcID y) rep y else {y})" "gep_offset H x = gep_offset G y"
        using in_H [of x] f by blast
      have "getSrcID x \<noteq> i" using True by blast
      moreover have "getSrcID x = getSrcID y" using y(2) by (auto simp: redirect_def Let_def split: if_splits)
      ultimately have "getSrcID y \<noteq> i" by simp
      then have "x \<in> merge_edge i rep y" using y(2) by (cases "getDstID y = i") (simp_all add: merge_edge_def into_def)
      moreover have "gep_offset K x = gep_offset G y" using k(4) [OF True] y(3) by simp
      ultimately show ?thesis using y(1) by blast
    next
      case False
      then obtain z where z: "z \<in> ?M" "x \<in> redirect rep (getDstID z) z" "gep_offset K x = gep_offset H z" using k(5) [of x] x f by blast
      have fz: "edgeFlag z = KNormalGep" using z(2) f by (auto simp: redirect_def Let_def split: if_splits)
      then obtain y where y: "y \<in> cg_edges G" "z \<in> (if getDstID y = i then redirect (getSrcID y) rep y else {y})" "gep_offset H z = gep_offset G y"
        using in_H [of z] z(1) by blast
      have "x \<in> merge_edge i rep y" using y(2) z(1,2)
        by (auto simp: merge_edge_def into_def redirect_def Let_def split: if_splits)
      moreover have "gep_offset K x = gep_offset G y" using y(3) z(3) by simp
      ultimately show ?thesis using y(1) by blast
    qed
  qed
  have "moveEdgesToRepNode i rep G = Some (\<exists>e \<in> cg_edges G. merge_critical i rep G e, K)"
    using merge_critical_two_steps [OF n(3) H(2)] H(1) K(1) by (simp add: moveEdgesToRepNode_def)
  then show ?thesis using k(1) cg_frame_trans [OF h(2) k(2)] E off by blast
qed

text \<open>No edge of the node is left.\<close>

lemma merge_edge_free: "i \<noteq> rep \<Longrightarrow> x \<in> merge_edge i rep e \<Longrightarrow> getSrcID x \<noteq> i \<and> getDstID x \<noteq> i"
  by (auto simp: merge_edge_def redirect_def into_def Let_def split: if_splits)

end
