(* ===== verification/NodeAlloc.thy ===== *)
theory NodeAlloc
  imports Prelude
begin

text \<open>
  Allocation of node identifiers (svf/lib/Util/NodeIDAllocator.cpp): four counters and four strategies. The
  counters are 32-bit numbers; the first four identifiers are special nodes.
\<close>

section \<open>The allocator\<close>

datatype Strategy = DENSE | REVERSE_DENSE | SEQ | DBUG

definition blackHoleObjectId :: NodeID where "blackHoleObjectId = 0"
definition constantObjectId :: NodeID where "constantObjectId = 1"
definition blackHolePointerId :: NodeID where "blackHolePointerId = 2"
definition nullPointerId :: NodeID where "nullPointerId = 3"

record node_allocator =
  numObjects :: nat
  numValues :: nat
  numSymbols :: nat
  numNodes :: nat
  strategy :: Strategy

definition node_allocator_new :: "Strategy \<Rightarrow> node_allocator" where
  "node_allocator_new s = \<lparr>numObjects = 4, numValues = 4, numSymbols = 4, numNodes = 4, strategy = s\<rparr>"

definition increaseNumOfObjAndNodes :: "node_allocator \<Rightarrow> node_allocator" where
  "increaseNumOfObjAndNodes a = a\<lparr>numObjects := u32 (numObjects a + 1), numNodes := u32 (numNodes a + 1)\<rparr>"

definition allocateObjectId :: "node_allocator \<Rightarrow> (NodeID \<times> node_allocator) option" where
  "allocateObjectId a =
     (let id = (case strategy a of DENSE \<Rightarrow> numObjects a | REVERSE_DENSE \<Rightarrow> UINT_MAX - numObjects a
                | SEQ \<Rightarrow> numNodes a | DBUG \<Rightarrow> numNodes a);
          a = increaseNumOfObjAndNodes a
      in if id \<noteq> 0 then Some (id, a) else None)"

text \<open>
  The multiplier of the debugging strategy is \<open>pow(10, ceil(log10(n)))\<close>, the least power of ten that is not
  below \<open>n\<close>; its conversion to 32 bits is undefined when it does not fit.
\<close>

function ten_pow :: "nat \<Rightarrow> nat \<Rightarrow> nat" where
  "ten_pow p n = (if p = 0 \<or> n \<le> p then p else ten_pow (10 * p) n)"
  by pat_completeness auto
termination by (relation "measure (\<lambda>(p, n). n - p)") auto

declare ten_pow.simps [simp del]

definition gepMultiplier :: "nat \<Rightarrow> nat \<Rightarrow> nat option" where
  "gepMultiplier symbols maxFieldLimit =
     (let p = ten_pow 1 (if symbols > maxFieldLimit then symbols else maxFieldLimit)
      in if p \<le> UINT_MAX then Some p else None)"

definition allocateGepObjectId :: "NodeID \<Rightarrow> nat \<Rightarrow> nat \<Rightarrow> node_allocator \<Rightarrow> (NodeID \<times> node_allocator) option" where
  "allocateGepObjectId base off maxFieldLimit a = do {
     id \<leftarrow> (case strategy a of DENSE \<Rightarrow> Some (numObjects a) | REVERSE_DENSE \<Rightarrow> Some (UINT_MAX - numObjects a)
            | SEQ \<Rightarrow> Some (numNodes a)
            | DBUG \<Rightarrow> do {
                m \<leftarrow> gepMultiplier (numSymbols a) maxFieldLimit;
                let id = u32 (u32 (off + 1) * m + base);
                if id > numSymbols a then Some id else None
              });
     let a = increaseNumOfObjAndNodes a;
     if id \<noteq> 0 then Some (id, a) else None
   }"

definition allocateValueId :: "node_allocator \<Rightarrow> (NodeID \<times> node_allocator) option" where
  "allocateValueId a =
     (let id = (case strategy a of DENSE \<Rightarrow> UINT_MAX - numValues a | REVERSE_DENSE \<Rightarrow> numValues a
                | SEQ \<Rightarrow> numNodes a | DBUG \<Rightarrow> numNodes a);
          a = a\<lparr>numValues := u32 (numValues a + 1), numNodes := u32 (numNodes a + 1)\<rparr>
      in if id \<noteq> 0 then Some (id, a) else None)"

definition endSymbolAllocation :: "node_allocator \<Rightarrow> nat \<times> node_allocator" where
  "endSymbolAllocation a = (numNodes a, a\<lparr>numSymbols := numNodes a\<rparr>)"

section \<open>Runs\<close>

datatype alloc_call = AllocObject | AllocGep NodeID nat nat | AllocValue | EndSymbols

fun alloc_step :: "alloc_call \<Rightarrow> node_allocator \<Rightarrow> (NodeID list \<times> node_allocator) option" where
  "alloc_step AllocObject a = map_option (map_prod (\<lambda>i. [i]) id) (allocateObjectId a)"
| "alloc_step (AllocGep b off lim) a = map_option (map_prod (\<lambda>i. [i]) id) (allocateGepObjectId b off lim a)"
| "alloc_step AllocValue a = map_option (map_prod (\<lambda>i. [i]) id) (allocateValueId a)"
| "alloc_step EndSymbols a = Some ([], snd (endSymbolAllocation a))"

fun alloc_run :: "alloc_call list \<Rightarrow> node_allocator \<Rightarrow> (NodeID list \<times> node_allocator) option" where
  "alloc_run [] a = Some ([], a)"
| "alloc_run (c # cs) a = do { (i, a) \<leftarrow> alloc_step c a; (is, a) \<leftarrow> alloc_run cs a; Some (i @ is, a) }"

text \<open>The identifiers that were given out, and those that still can be.\<close>

definition alloc_used :: "node_allocator \<Rightarrow> NodeID set" where
  "alloc_used a = (case strategy a of
     DENSE \<Rightarrow> {4 ..< numObjects a} \<union> {UINT_MAX - numValues a <.. UINT_MAX - 4}
   | REVERSE_DENSE \<Rightarrow> {4 ..< numValues a} \<union> {UINT_MAX - numObjects a <.. UINT_MAX - 4}
   | _ \<Rightarrow> {4 ..< numNodes a})"

definition alloc_ok :: "node_allocator \<Rightarrow> nat \<Rightarrow> bool" where
  "alloc_ok a n \<longleftrightarrow> strategy a \<noteq> DBUG \<and> 4 \<le> numObjects a \<and> 4 \<le> numValues a \<and>
     numNodes a + 4 = numObjects a + numValues a \<and> numNodes a + n + 4 \<le> UINT_MAX"

lemma alloc_ok_mono: "alloc_ok a n \<Longrightarrow> m \<le> n \<Longrightarrow> alloc_ok a m"
  by (simp add: alloc_ok_def)

lemma alloc_new: "s \<noteq> DBUG \<Longrightarrow> n + 8 \<le> UINT_MAX \<Longrightarrow> alloc_ok (node_allocator_new s) n"
  "alloc_used (node_allocator_new s) = {}"
  by (auto simp: alloc_ok_def node_allocator_new_def alloc_used_def UINT_MAX_def split: Strategy.splits)

text \<open>A new identifier is not special and was not given out before.\<close>

lemma alloc_counters:
  assumes "alloc_ok a (Suc n)"
  shows "u32 (Suc (numObjects a)) = Suc (numObjects a)" "u32 (Suc (numValues a)) = Suc (numValues a)"
    "u32 (Suc (numNodes a)) = Suc (numNodes a)" "4 \<le> numObjects a" "4 \<le> numValues a"
    "numNodes a + 4 = numObjects a + numValues a" "numObjects a + numValues a + Suc n \<le> UINT_MAX"
  using assms by (auto simp: alloc_ok_def UINT_MAX_def intro!: u32_id)

lemma allocateObjectId_spec:
  assumes "alloc_ok a (Suc n)"
  shows "\<exists>i a'. allocateObjectId a = Some (i, a') \<and> alloc_ok a' n \<and> strategy a' = strategy a \<and> i \<notin> alloc_used a \<and> 4 \<le> i \<and> i < UINT_MAX \<and>
    alloc_used a' = insert i (alloc_used a)"
  using alloc_counters [OF assms] assms
  by (cases "strategy a") (auto simp: allocateObjectId_def increaseNumOfObjAndNodes_def alloc_ok_def alloc_used_def Let_def)

lemma allocateGepObjectId_spec:
  assumes "alloc_ok a (Suc n)"
  shows "\<exists>i a'. allocateGepObjectId b off lim a = Some (i, a') \<and> alloc_ok a' n \<and> strategy a' = strategy a \<and> i \<notin> alloc_used a \<and> 4 \<le> i \<and>
    i < UINT_MAX \<and> alloc_used a' = insert i (alloc_used a)"
  using alloc_counters [OF assms] assms
  by (cases "strategy a") (auto simp: allocateGepObjectId_def increaseNumOfObjAndNodes_def alloc_ok_def alloc_used_def Let_def)

lemma allocateValueId_spec:
  assumes "alloc_ok a (Suc n)"
  shows "\<exists>i a'. allocateValueId a = Some (i, a') \<and> alloc_ok a' n \<and> strategy a' = strategy a \<and> i \<notin> alloc_used a \<and> 4 \<le> i \<and> i < UINT_MAX \<and>
    alloc_used a' = insert i (alloc_used a)"
  using alloc_counters [OF assms] assms
  by (cases "strategy a") (auto simp: allocateValueId_def alloc_ok_def alloc_used_def Let_def)

lemma alloc_step_spec:
  assumes "alloc_ok a (Suc n)"
  shows "\<exists>is a'. alloc_step c a = Some (is, a') \<and> alloc_ok a' n \<and> strategy a' = strategy a \<and> distinct is \<and>
    set is \<inter> alloc_used a = {} \<and> (\<forall>i \<in> set is. 4 \<le> i \<and> i < UINT_MAX) \<and> alloc_used a' = set is \<union> alloc_used a"
proof (cases c)
  case AllocObject
  then show ?thesis using allocateObjectId_spec [OF assms] by auto
next
  case (AllocGep b off lim)
  then show ?thesis using allocateGepObjectId_spec [OF assms, of b off lim] by auto
next
  case AllocValue
  then show ?thesis using allocateValueId_spec [OF assms] by auto
next
  case EndSymbols
  have "alloc_ok (snd (endSymbolAllocation a)) n" "strategy (snd (endSymbolAllocation a)) = strategy a"
    using assms by (simp_all add: alloc_ok_def endSymbolAllocation_def)
  moreover have "alloc_used (snd (endSymbolAllocation a)) = alloc_used a"
    by (cases "strategy a") (simp_all add: alloc_used_def endSymbolAllocation_def)
  ultimately show ?thesis using EndSymbols by simp
qed

lemma alloc_run_spec:
  assumes "alloc_ok a (length cs)"
  shows "\<exists>is a'. alloc_run cs a = Some (is, a') \<and> strategy a' = strategy a \<and> distinct is \<and> set is \<inter> alloc_used a = {} \<and>
    (\<forall>i \<in> set is. 4 \<le> i \<and> i < UINT_MAX) \<and> alloc_used a' = set is \<union> alloc_used a"
  using assms
proof (induction cs arbitrary: a)
  case (Cons c cs)
  obtain is1 a1 where 1: "alloc_step c a = Some (is1, a1)" "alloc_ok a1 (length cs)" "strategy a1 = strategy a" "distinct is1"
      "set is1 \<inter> alloc_used a = {}" "\<forall>i \<in> set is1. 4 \<le> i \<and> i < UINT_MAX" "alloc_used a1 = set is1 \<union> alloc_used a"
    using alloc_step_spec [of a "length cs" c] Cons.prems by auto
  obtain is2 a2 where 2: "alloc_run cs a1 = Some (is2, a2)" "strategy a2 = strategy a1" "distinct is2" "set is2 \<inter> alloc_used a1 = {}"
      "\<forall>i \<in> set is2. 4 \<le> i \<and> i < UINT_MAX" "alloc_used a2 = set is2 \<union> alloc_used a1"
    using Cons.IH [OF 1(2)] by blast
  show ?case
    by (rule exI [of _ "is1 @ is2"], rule exI [of _ a2]) (use 1 2 in auto)
qed simp

text \<open>The debugging strategy gives one identifier to two fields when a base lies above the multiplier.\<close>

lemma debug_ids_clash:
  "\<exists>a b i. allocateGepObjectId 5 1 512 a = Some (i, b) \<and> (\<exists>c. allocateGepObjectId 1005 0 512 b = Some (i, c))"
proof -
  let ?a = "\<lparr>numObjects = 1006, numValues = 4, numSymbols = 20, numNodes = 1006, strategy = DBUG\<rparr>"
  have "ten_pow 1 512 = 1000" by (simp add: ten_pow.simps)
  then have m: "gepMultiplier 20 512 = Some 1000" by (simp add: gepMultiplier_def UINT_MAX_def)
  show ?thesis
    by (rule exI [of _ ?a]) (simp add: allocateGepObjectId_def m increaseNumOfObjAndNodes_def Let_def u32_def)
qed

end
