(* ===== verification/ObjVars.thy ===== *)
theory ObjVars
  imports GenGraph KeyMaps BitVectors NodeAlloc
begin

text \<open>
  The object part of the program representation: memory objects (svf/include/SVFIR/SymbolTableInfo.h), the nodes
  of \<open>SVFIR\<close> that stand for them and for their fields, and the fields made on demand while a solver runs
  (svf/lib/SVFIR/SVFIR.cpp). A memory object is known by its number.
\<close>

section \<open>Memory objects\<close>

text \<open>\<open>mo_ptr\<close>: whether the type of the value the object stands for is a pointer; \<open>None\<close> when there is no value.\<close>

record mem_obj =
  mo_ptr :: "bool option"
  mo_flags :: nat
  maxOffsetLimit :: nat
  elemNum :: nat

definition CONST_GLOBAL_OBJ :: nat where "CONST_GLOBAL_OBJ = 0x200"
definition CONST_DATA :: nat where "CONST_DATA = 0x400"

definition mo_hasFlag :: "nat \<Rightarrow> mem_obj \<Rightarrow> bool" where
  "mo_hasFlag fl m \<longleftrightarrow> (mo_flags m AND fl) = fl"

definition mo_setFlag :: "nat \<Rightarrow> mem_obj \<Rightarrow> mem_obj" where
  "mo_setFlag fl m = m\<lparr>mo_flags := mo_flags m OR fl\<rparr>"

definition mo_isConstDataOrConstGlobal :: "mem_obj \<Rightarrow> bool" where
  "mo_isConstDataOrConstGlobal m \<longleftrightarrow> mo_hasFlag CONST_GLOBAL_OBJ m \<or> mo_hasFlag CONST_DATA m"

definition setNumOfElements :: "nat \<Rightarrow> mem_obj \<Rightarrow> mem_obj" where
  "setNumOfElements n m = m\<lparr>elemNum := n, maxOffsetLimit := n\<rparr>"

definition mo_isFieldInsensitive :: "mem_obj \<Rightarrow> bool" where
  "mo_isFieldInsensitive m \<longleftrightarrow> maxOffsetLimit m = 0"

definition mo_setFieldInsensitive :: "mem_obj \<Rightarrow> mem_obj" where
  "mo_setFieldInsensitive m = m\<lparr>maxOffsetLimit := 0\<rparr>"

definition mo_setFieldSensitive :: "mem_obj \<Rightarrow> mem_obj" where
  "mo_setFieldSensitive m = m\<lparr>maxOffsetLimit := elemNum m\<rparr>"

section \<open>Nodes\<close>

text \<open>A node with its flag \<open>isPtr\<close>, an object node with its memory object.\<close>

datatype svf_var = ValVar (isPointer: bool) | FIObjVar (isPointer: bool) NodeID | GepObjVar (isPointer: bool) NodeID int
  | DummyObjVar (isPointer: bool) NodeID

fun getMemObj :: "svf_var \<Rightarrow> NodeID option" where
  "getMemObj (ValVar _) = None"
| "getMemObj (FIObjVar _ m) = Some m"
| "getMemObj (GepObjVar _ m _) = Some m"
| "getMemObj (DummyObjVar _ m) = Some m"

record pag_options =
  MaxFieldLimit :: nat
  FirstFieldEqBase :: bool
  CyclicFldIdx :: bool

record pag_state =
  pag_graph :: "svf_var gen_graph"
  objMap :: "(NodeID \<times> mem_obj) list"
  GepObjVarMap :: "((NodeID \<times> int) \<times> NodeID) list"
  memToFieldsMap :: "(NodeID \<times> sbv) list"
  pag_alloc :: node_allocator

definition obj_ptr :: "mem_obj \<Rightarrow> bool" where
  "obj_ptr m = (case mo_ptr m of None \<Rightarrow> True | Some b \<Rightarrow> b)"

definition pag_node :: "pag_state \<Rightarrow> NodeID \<Rightarrow> svf_var option" where
  "pag_node P i = getGNode i (pag_graph P)"

text \<open>\<open>SVFIR::getObject\<close>: an unknown node fails, a value node has no object.\<close>

definition getObject :: "pag_state \<Rightarrow> NodeID \<Rightarrow> NodeID option option" where
  "getObject P i = map_option getMemObj (pag_node P i)"

definition getBaseObj :: "pag_state \<Rightarrow> NodeID \<Rightarrow> (NodeID \<times> mem_obj) option" where
  "getBaseObj P i = do { v \<leftarrow> pag_node P i; m \<leftarrow> getMemObj v; ob \<leftarrow> map_of (objMap P) m; Some (m, ob) }"

definition getBaseObjVar :: "pag_state \<Rightarrow> NodeID \<Rightarrow> NodeID option" where
  "getBaseObjVar P i = map_option fst (getBaseObj P i)"

definition pag_getFIObjVar :: "pag_state \<Rightarrow> NodeID \<Rightarrow> NodeID option" where
  "pag_getFIObjVar P i = getBaseObjVar P i"

definition isBlkObj :: "NodeID \<Rightarrow> bool" where
  "isBlkObj i \<longleftrightarrow> i = blackHoleObjectId"

definition isConstantObj :: "pag_state \<Rightarrow> NodeID \<Rightarrow> bool option" where
  "isConstantObj P i = map_option (\<lambda>(_, ob). i = constantObjectId \<or> mo_isConstDataOrConstGlobal ob) (getBaseObj P i)"

definition isBlkObjOrConstantObj :: "pag_state \<Rightarrow> NodeID \<Rightarrow> bool option" where
  "isBlkObjOrConstantObj P i = (if isBlkObj i then Some True else isConstantObj P i)"

definition isFieldInsensitive :: "pag_state \<Rightarrow> NodeID \<Rightarrow> bool option" where
  "isFieldInsensitive P i = map_option (\<lambda>(_, ob). mo_isFieldInsensitive ob) (getBaseObj P i)"

definition setObjFieldInsensitive :: "NodeID \<Rightarrow> pag_state \<Rightarrow> pag_state option" where
  "setObjFieldInsensitive i P = do {
     (m, ob) \<leftarrow> getBaseObj P i;
     Some (P\<lparr>objMap := AList.update m (mo_setFieldInsensitive ob) (objMap P)\<rparr>)
   }"

section \<open>Adding nodes\<close>

text \<open>The identifier must not be in use.\<close>

definition addObjNode :: "svf_var \<Rightarrow> NodeID \<Rightarrow> pag_state \<Rightarrow> (NodeID \<times> pag_state) option" where
  "addObjNode v i P = (if hasGNode i (pag_graph P) then None else Some (i, P\<lparr>pag_graph := addGNode i v (pag_graph P)\<rparr>))"

definition addDummyValNode :: "pag_state \<Rightarrow> (NodeID \<times> pag_state) option" where
  "addDummyValNode P = do {
     (i, a) \<leftarrow> allocateValueId (pag_alloc P);
     let P = P\<lparr>pag_alloc := a\<rparr>;
     if hasGNode i (pag_graph P) then None else Some (i, P\<lparr>pag_graph := addGNode i (ValVar True) (pag_graph P)\<rparr>)
   }"

definition touchFields :: "NodeID \<Rightarrow> NodeID \<Rightarrow> pag_state \<Rightarrow> pag_state" where
  "touchFields b i P = P\<lparr>memToFieldsMap := AList.update b (sbv_set (km_get sbv_new (memToFieldsMap P) b) i) (memToFieldsMap P)\<rparr>"

definition addFIObjNode :: "NodeID \<Rightarrow> pag_state \<Rightarrow> (NodeID \<times> pag_state) option" where
  "addFIObjNode m P = do {
     ob \<leftarrow> map_of (objMap P) m;
     let P = touchFields m m P;
     addObjNode (FIObjVar (obj_ptr ob) m) m P
   }"

definition addGepObjNode :: "NodeID \<Rightarrow> int \<Rightarrow> NodeID \<Rightarrow> pag_state \<Rightarrow> (NodeID \<times> pag_state) option" where
  "addGepObjNode m off gepId P = do {
     ob \<leftarrow> map_of (objMap P) m;
     if map_of (GepObjVarMap P) (m, off) \<noteq> None then None else do {
       let P = P\<lparr>GepObjVarMap := AList.update (m, off) gepId (GepObjVarMap P)\<rparr>;
       let P = touchFields m gepId P;
       addObjNode (GepObjVar (obj_ptr ob) m off) gepId P
     }
   }"

text \<open>\<open>heap\<close>: whether the type of the object is a pointer type, which marks a heap object.\<close>

definition addDummyObjNode :: "pag_options \<Rightarrow> bool \<Rightarrow> pag_state \<Rightarrow> (NodeID \<times> pag_state) option" where
  "addDummyObjNode opt heap P = do {
     (i, a) \<leftarrow> allocateObjectId (pag_alloc P);
     let P = P\<lparr>pag_alloc := a\<rparr>;
     if map_of (objMap P) i \<noteq> None then None else do {
       let ob = \<lparr>mo_ptr = None, mo_flags = 0, maxOffsetLimit = MaxFieldLimit opt, elemNum = MaxFieldLimit opt\<rparr>;
       let ob = (if heap then mo_setFlag 0x10 ob else ob);
       addObjNode (DummyObjVar True i) i (P\<lparr>objMap := AList.update i ob (objMap P)\<rparr>)
     }
   }"

section \<open>Fields\<close>

text \<open>
  An offset is an \<open>s64_t\<close>; signed overflow has no defined result and is a failure. The comparison of an offset with
  the limit is on its low 32 bits.
\<close>

definition s64 :: "int \<Rightarrow> int option" where
  "s64 i = (if - (2 ^ 63) \<le> i \<and> i < 2 ^ 63 then Some i else None)"

definition getModulusOffset :: "pag_options \<Rightarrow> nat \<Rightarrow> int \<Rightarrow> int option" where
  "getModulusOffset opt maxOffset apOffset = do {
     offset \<leftarrow> (if apOffset < 0 then s64 \<bar>apOffset\<bar> else Some apOffset);
     Some (if maxOffset = 0 then 0
      else if MaxFieldLimit opt < maxOffset then offset mod int maxOffset
      else if offset mod 2 ^ 32 > int maxOffset - 1 then
        (if CyclicFldIdx opt then offset mod int maxOffset else int maxOffset - 1)
      else offset)
   }"

definition getGepObjVarOf :: "pag_options \<Rightarrow> NodeID \<Rightarrow> int \<Rightarrow> pag_state \<Rightarrow> (NodeID \<times> pag_state) option" where
  "getGepObjVarOf opt m apOffset P = do {
     ob \<leftarrow> map_of (objMap P) m;
     if mo_isFieldInsensitive ob then Some (m, P) else do {
       newLS \<leftarrow> getModulusOffset opt (maxOffsetLimit ob) apOffset;
       if FirstFieldEqBase opt \<and> newLS = 0 then Some (m, P) else
         (case map_of (GepObjVarMap P) (m, newLS) of
            None \<Rightarrow> do {
              (gepId, a) \<leftarrow> allocateGepObjectId m (nat (apOffset mod 2 ^ 32)) (MaxFieldLimit opt) (pag_alloc P);
              addGepObjNode m newLS gepId (P\<lparr>pag_alloc := a\<rparr>)
            }
          | Some i \<Rightarrow> Some (i, P))
     }
   }"

definition pag_getGepObjVar :: "pag_options \<Rightarrow> NodeID \<Rightarrow> int \<Rightarrow> pag_state \<Rightarrow> (NodeID \<times> pag_state) option" where
  "pag_getGepObjVar opt i apOffset P = do {
     v \<leftarrow> pag_node P i;
     (case v of GepObjVar _ m off \<Rightarrow> do { sum \<leftarrow> s64 (off + apOffset); getGepObjVarOf opt m sum P }
      | FIObjVar _ m \<Rightarrow> getGepObjVarOf opt m apOffset P
      | DummyObjVar _ m \<Rightarrow> getGepObjVarOf opt m apOffset P
      | ValVar _ \<Rightarrow> None)
   }"

definition getAllFieldsObjVarsOf :: "NodeID \<Rightarrow> pag_state \<Rightarrow> sbv \<times> pag_state" where
  "getAllFieldsObjVarsOf m P = (km_get sbv_new (memToFieldsMap P) m, P\<lparr>memToFieldsMap := km_touch sbv_new m (memToFieldsMap P)\<rparr>)"

definition getAllFieldsObjVars :: "NodeID \<Rightarrow> pag_state \<Rightarrow> (sbv \<times> pag_state) option" where
  "getAllFieldsObjVars i P = do { v \<leftarrow> pag_node P i; m \<leftarrow> getMemObj v; Some (getAllFieldsObjVarsOf m P) }"

definition getFieldsAfterCollapse :: "NodeID \<Rightarrow> pag_state \<Rightarrow> (sbv \<times> pag_state) option" where
  "getFieldsAfterCollapse i P = do {
     (m, ob) \<leftarrow> getBaseObj P i;
     if mo_isFieldInsensitive ob then Some (sbv_set sbv_new m, P) else Some (getAllFieldsObjVarsOf m P)
   }"

section \<open>What the representation keeps\<close>

text \<open>
  The map of fields and the field nodes are inverse to each other; every object node belongs to a known object, and
  the set of fields of an object holds its field nodes. All identifiers come from the allocator.
\<close>

definition fields_of :: "pag_state \<Rightarrow> NodeID \<Rightarrow> NodeID set" where
  "fields_of P m = sbv_bits (km_get sbv_new (memToFieldsMap P) m)"

definition gep_nodes_ok :: "pag_state \<Rightarrow> bool" where
  "gep_nodes_ok P \<longleftrightarrow> (\<forall>m off g. map_of (GepObjVarMap P) (m, off) = Some g \<longleftrightarrow> (\<exists>b. pag_node P g = Some (GepObjVar b m off)))"

definition obj_nodes_ok :: "pag_state \<Rightarrow> bool" where
  "obj_nodes_ok P \<longleftrightarrow> (\<forall>i v m. pag_node P i = Some v \<longrightarrow> getMemObj v = Some m \<longrightarrow> m \<in> dom (map_of (objMap P)))"

definition field_sets_ok :: "pag_state \<Rightarrow> bool" where
  "field_sets_ok P \<longleftrightarrow> km_all sbv_inv (memToFieldsMap P) \<and>
     (\<forall>i b m off. pag_node P i = Some (GepObjVar b m off) \<longrightarrow> i \<in> fields_of P m)"

definition node_ids_ok :: "pag_state \<Rightarrow> bool" where
  "node_ids_ok P \<longleftrightarrow> dom (pag_node P) \<subseteq> alloc_used (pag_alloc P) \<union> {0..<4}"

definition pag_ok :: "nat \<Rightarrow> pag_state \<Rightarrow> bool" where
  "pag_ok n P \<longleftrightarrow> gep_nodes_ok P \<and> obj_nodes_ok P \<and> field_sets_ok P \<and> node_ids_ok P \<and> alloc_ok (pag_alloc P) n"

text \<open>
  The offset of a field after the cut, over the absolute value: below the limit nothing is cut; from the limit on it is
  the remainder, or the last field, but an offset of more than 32 bits whose low 32 bits are below the limit stays.
\<close>

definition cut_offset :: "pag_options \<Rightarrow> nat \<Rightarrow> int \<Rightarrow> int" where
  "cut_offset opt limit a =
     (if a < int limit then a
      else if MaxFieldLimit opt < limit \<or> CyclicFldIdx opt \<and> int limit \<le> a mod 2 ^ 32 then a mod int limit
      else if int limit \<le> a mod 2 ^ 32 then int limit - 1 else a)"

lemma getModulusOffset_cut:
  assumes "0 < limit" "limit < 2 ^ 32" "\<bar>off\<bar> < 2 ^ 63"
  shows "getModulusOffset opt limit off = Some (cut_offset opt limit \<bar>off\<bar>)"
proof -
  have "(if off < 0 then s64 \<bar>off\<bar> else Some off) = Some \<bar>off\<bar>" using assms(3) by (simp add: s64_def)
  moreover have "\<bar>off\<bar> mod 2 ^ 32 = \<bar>off\<bar>" "\<bar>off\<bar> mod int limit = \<bar>off\<bar>" if "\<bar>off\<bar> < int limit"
    using that assms(2) by (simp_all add: order_less_trans [of "\<bar>off\<bar>" "int limit" "2 ^ 32"])
  ultimately show ?thesis using assms(1) by (auto simp: getModulusOffset_def cut_offset_def)
qed

lemma cut_offset_bounds:
  assumes "0 < limit" "0 \<le> a" "a < 2 ^ 32"
  shows "0 \<le> cut_offset opt limit a" "cut_offset opt limit a < int limit"
  using assms by (auto simp: cut_offset_def)

lemma pag_node_add: "pag_node (P\<lparr>pag_graph := addGNode i v (pag_graph P)\<rparr>) = (pag_node P)(i \<mapsto> v)"
  by (auto simp: pag_node_def getGNode_def addGNode_def fun_eq_iff)

lemma hasGNode_pag: "hasGNode i (pag_graph P) \<longleftrightarrow> i \<in> dom (pag_node P)"
  by (auto simp: hasGNode_def pag_node_def getGNode_def dom_def)

text \<open>Adding a field that is not there yet.\<close>

lemma addGepObjNode_spec:
  assumes ok: "gep_nodes_ok P" "obj_nodes_ok P" "field_sets_ok P" and m: "map_of (objMap P) m = Some ob"
    and new: "map_of (GepObjVarMap P) (m, off) = None" "g \<notin> dom (pag_node P)" "g < 2 ^ 32"
  shows "\<exists>Q. addGepObjNode m off g P = Some (g, Q) \<and> gep_nodes_ok Q \<and> obj_nodes_ok Q \<and> field_sets_ok Q \<and>
    pag_node Q = (pag_node P)(g \<mapsto> GepObjVar (obj_ptr ob) m off) \<and> objMap Q = objMap P \<and> pag_alloc Q = pag_alloc P \<and>
    map_of (GepObjVarMap Q) = (map_of (GepObjVarMap P))((m, off) \<mapsto> g)"
proof -
  let ?v = "GepObjVar (obj_ptr ob) m off"
  let ?P1 = "touchFields m g (P\<lparr>GepObjVarMap := AList.update (m, off) g (GepObjVarMap P)\<rparr>)"
  let ?Q = "?P1\<lparr>pag_graph := addGNode g ?v (pag_graph ?P1)\<rparr>"
  have run: "addGepObjNode m off g P = Some (g, ?Q)"
    using m new by (simp add: addGepObjNode_def addObjNode_def hasGNode_pag [symmetric] touchFields_def Let_def)
  have "pag_node ?P1 = pag_node P" by (simp add: touchFields_def pag_node_def fun_eq_iff)
  then have node: "pag_node ?Q = (pag_node P)(g \<mapsto> ?v)" using pag_node_add [of g ?v ?P1] by simp
  have objs: "objMap ?Q = objMap P" "pag_alloc ?Q = pag_alloc P" by (simp_all add: touchFields_def)
  have gm: "map_of (GepObjVarMap ?Q) = (map_of (GepObjVarMap P))((m, off) \<mapsto> g)" by (simp add: touchFields_def update_conv')
  have none: "pag_node P g = None" using new(2) by blast
  have go: "map_of (GepObjVarMap P) (m', o') = Some g' \<longleftrightarrow> (\<exists>b. pag_node P g' = Some (GepObjVar b m' o'))" for m' o' g'
    using ok(1) unfolding gep_nodes_ok_def by blast
  have 1: "gep_nodes_ok ?Q" unfolding gep_nodes_ok_def gm node
  proof (intro allI)
    fix m' o' g'
    show "(((map_of (GepObjVarMap P))((m, off) \<mapsto> g)) (m', o') = Some g') = (\<exists>b. ((pag_node P)(g \<mapsto> ?v)) g' = Some (GepObjVar b m' o'))"
    proof (cases "g' = g")
      case True
      have "map_of (GepObjVarMap P) (m', o') \<noteq> Some g" using go none by simp
      then show ?thesis using True by auto
    next
      case False
      then show ?thesis using go [of m' o' g'] new(1) by (cases "(m', o') = (m, off)") auto
    qed
  qed
  have 2: "obj_nodes_ok ?Q" using ok(2) m by (auto simp: obj_nodes_ok_def node objs)
  have inv: "km_all sbv_inv (memToFieldsMap P)" using ok(3) by (simp add: field_sets_ok_def)
  have i0: "sbv_inv (km_get sbv_new (memToFieldsMap P) m)" by (rule km_all_get [OF inv]) simp
  note st = sbv_set_spec [OF i0 new(3)]
  have mf: "memToFieldsMap ?Q = AList.update m (sbv_set (km_get sbv_new (memToFieldsMap P) m) g) (memToFieldsMap P)"
    by (simp add: touchFields_def)
  have f: "fields_of ?Q m' = (if m' = m then insert g (fields_of P m) else fields_of P m')" for m'
    using st by (simp add: fields_of_def mf)
  have 3: "field_sets_ok ?Q" unfolding field_sets_ok_def
  proof (intro conjI allI impI)
    show "km_all sbv_inv (memToFieldsMap ?Q)" unfolding mf using km_all_update [OF inv conjunct1 [OF st]] .
    fix i b m' off' assume "pag_node ?Q i = Some (GepObjVar b m' off')"
    then show "i \<in> fields_of ?Q m'" using ok(3) unfolding f node field_sets_ok_def by (auto split: if_splits)
  qed
  show ?thesis using run 1 2 3 node objs gm by blast
qed

text \<open>
  The field of an object: made once and found again, a node of the object with the offset below its limit, or the
  object itself when it has no fields. Nothing else changes.
\<close>

definition field_at :: "pag_options \<Rightarrow> pag_state \<Rightarrow> NodeID \<Rightarrow> int \<Rightarrow> NodeID \<Rightarrow> bool" where
  "field_at opt P m off f \<longleftrightarrow> (\<exists>ob. map_of (objMap P) m = Some ob \<and>
     (if mo_isFieldInsensitive ob then f = m
      else \<exists>newLS. getModulusOffset opt (maxOffsetLimit ob) off = Some newLS \<and>
        (if FirstFieldEqBase opt \<and> newLS = 0 then f = m
         else map_of (GepObjVarMap P) (m, newLS) = Some f)))"

definition pag_grows :: "pag_state \<Rightarrow> pag_state \<Rightarrow> bool" where
  "pag_grows P Q \<longleftrightarrow> map_le (pag_node P) (pag_node Q) \<and> objMap Q = objMap P \<and> map_le (map_of (GepObjVarMap P)) (map_of (GepObjVarMap Q))"

lemma pag_grows_refl: "pag_grows P P" by (simp add: pag_grows_def)

lemma pag_grows_trans: "pag_grows P Q \<Longrightarrow> pag_grows Q R \<Longrightarrow> pag_grows P R"
  by (auto simp: pag_grows_def intro: map_le_trans)

lemma field_at_grows:
  assumes "pag_grows P Q" "field_at opt P m off f" shows "field_at opt Q m off f"
proof -
  have "map_of (GepObjVarMap Q) (m, x) = Some f" if "map_of (GepObjVarMap P) (m, x) = Some f" for x
    using assms(1) that by (auto simp: pag_grows_def map_le_def dom_def)
  moreover have "objMap Q = objMap P" using assms(1) by (simp add: pag_grows_def)
  ultimately show ?thesis using assms(2) unfolding field_at_def by (metis (no_types, lifting))
qed

lemma field_at_unique: "field_at opt P m off f \<Longrightarrow> field_at opt P m off g \<Longrightarrow> f = g"
  by (auto simp: field_at_def split: if_splits)

text \<open>A field node carries its offset after the cut.\<close>

lemma field_at_node:
  assumes "field_at opt P m off f" "map_of (objMap P) m = Some ob" "gep_nodes_ok P" "maxOffsetLimit ob < 2 ^ 32" "\<bar>off\<bar> < 2 ^ 63"
  shows "if maxOffsetLimit ob = 0 \<or> FirstFieldEqBase opt \<and> cut_offset opt (maxOffsetLimit ob) \<bar>off\<bar> = 0 then f = m
    else \<exists>b. pag_node P f = Some (GepObjVar b m (cut_offset opt (maxOffsetLimit ob) \<bar>off\<bar>))"
proof (cases "maxOffsetLimit ob = 0")
  case True
  then show ?thesis using assms(1,2) by (simp add: field_at_def mo_isFieldInsensitive_def)
next
  case False
  then have "getModulusOffset opt (maxOffsetLimit ob) off = Some (cut_offset opt (maxOffsetLimit ob) \<bar>off\<bar>)"
    using getModulusOffset_cut assms(4,5) by simp
  then show ?thesis using False assms(1,2,3) by (auto simp: field_at_def mo_isFieldInsensitive_def gep_nodes_ok_def split: if_splits)
qed

lemma getGepObjVarOf_spec:
  assumes ok: "pag_ok (Suc n) P" and m: "map_of (objMap P) m = Some ob" and off: "\<bar>off\<bar> < 2 ^ 63"
  shows "\<exists>f Q. getGepObjVarOf opt m off P = Some (f, Q) \<and> pag_ok n Q \<and> pag_grows P Q \<and> field_at opt Q m off f"
proof -
  note p = ok [unfolded pag_ok_def]
  have "\<exists>x. getModulusOffset opt (maxOffsetLimit ob) off = Some x" using off by (simp add: getModulusOffset_def s64_def)
  then obtain o' where o: "getModulusOffset opt (maxOffsetLimit ob) off = Some o'" by blast
  let ?o = o'
  show ?thesis
  proof (cases "mo_isFieldInsensitive ob \<or> FirstFieldEqBase opt \<and> ?o = 0 \<or> map_of (GepObjVarMap P) (m, ?o) \<noteq> None")
    case True
    have "pag_ok n P" using p alloc_ok_mono [of "pag_alloc P" "Suc n" n] by (simp add: pag_ok_def)
    then show ?thesis using True m o pag_grows_refl [of P] by (fastforce simp: getGepObjVarOf_def field_at_def)
  next
    case False
    obtain g a where a: "allocateGepObjectId m (nat (off mod 2 ^ 32)) (MaxFieldLimit opt) (pag_alloc P) = Some (g, a)" "alloc_ok a n"
        "g \<notin> alloc_used (pag_alloc P)" "4 \<le> g" "g < UINT_MAX" "alloc_used a = insert g (alloc_used (pag_alloc P))"
      using allocateGepObjectId_spec [of "pag_alloc P" n m "nat (off mod 2 ^ 32)" "MaxFieldLimit opt"] p by blast
    let ?P = "P\<lparr>pag_alloc := a\<rparr>"
    have pn: "pag_node ?P = pag_node P" by (simp add: pag_node_def fun_eq_iff)
    have k: "gep_nodes_ok ?P" "obj_nodes_ok ?P" "field_sets_ok ?P"
      using p pn by (simp_all add: gep_nodes_ok_def obj_nodes_ok_def field_sets_ok_def fields_of_def)
    have fresh: "g \<notin> dom (pag_node ?P)" unfolding pn using p a(3,4) by (auto simp: node_ids_ok_def)
    have g32: "g < 2 ^ 32" using a(5) by (simp add: UINT_MAX_def)
    have nn: "map_of (GepObjVarMap ?P) (m, ?o) = None" "map_of (objMap ?P) m = Some ob" using False m by auto
    obtain Q where Q: "addGepObjNode m ?o g ?P = Some (g, Q)" "gep_nodes_ok Q" "obj_nodes_ok Q" "field_sets_ok Q"
        "pag_node Q = (pag_node ?P)(g \<mapsto> GepObjVar (obj_ptr ob) m ?o)" "objMap Q = objMap ?P" "pag_alloc Q = pag_alloc ?P"
        "map_of (GepObjVarMap Q) = (map_of (GepObjVarMap ?P))((m, ?o) \<mapsto> g)"
      using addGepObjNode_spec [OF k nn(2,1) fresh g32] by blast
    have ids: "node_ids_ok Q" using p a(6) Q(5,7) pn by (auto simp: node_ids_ok_def)
    have "pag_ok n Q" using Q(2-4,7) ids a(2) by (simp add: pag_ok_def)
    moreover have "pag_grows P Q"
      using Q(5,6,8) fresh pn nn(1) by (auto simp: pag_grows_def map_le_def)
    moreover have "field_at opt Q m off g" using False m o Q(6,8) by (auto simp: field_at_def)
    moreover have "getGepObjVarOf opt m off P = Some (g, Q)" using False m o a(1) Q(1) by (auto simp: getGepObjVarOf_def Let_def)
    ultimately show ?thesis by blast
  qed
qed

text \<open>Once made, a field is found and nothing changes.\<close>

lemma getGepObjVarOf_again: "field_at opt P m off f \<Longrightarrow> getGepObjVarOf opt m off P = Some (f, P)"
  by (auto simp: getGepObjVarOf_def field_at_def Let_def split: if_splits)

end
