(* ===== verification/Andersen.thy ===== *)
theory Andersen
  imports ConsGraph ObjVars DiffPT
begin

text \<open>
  Andersen's inclusion-based analysis: \<open>Andersen\<close> and \<open>AndersenWaveDiff\<close> over the solver of
  svf/include/WPA/WPASolver.h (svf/include/WPA/Andersen.h, svf/lib/WPA/Andersen.cpp and AndersenWaveDiff.cpp). The
  points-to structure is given by its operations; the call graph is updated by a function that is a parameter.
\<close>

section \<open>State\<close>

text \<open>The operations of a difference structure and of its sets.\<close>

record ('s, 'd) pta_data =
  pa_ops :: "('s, NodeID, NodeID) ptd_ops"
  pa_getPts :: "'s \<Rightarrow> NodeID \<Rightarrow> ('d \<times> 's) option"
  pa_getRevPts :: "'s \<Rightarrow> NodeID \<Rightarrow> (NodeID list \<times> 's) option"
  pa_unionSet :: "'s \<Rightarrow> NodeID \<Rightarrow> 'd \<Rightarrow> (bool \<times> 's) option"
  pa_getDiffPts :: "'s \<Rightarrow> NodeID \<Rightarrow> ('d \<times> 's) option"
  pa_computeDiffPts :: "'s \<Rightarrow> NodeID \<Rightarrow> 'd \<Rightarrow> (bool \<times> 's) option"
  pa_updatePropaPtsMap :: "'s \<Rightarrow> NodeID \<Rightarrow> NodeID \<Rightarrow> 's option"
  pa_clearPropaPts :: "'s \<Rightarrow> NodeID \<Rightarrow> 's option"
  pa_sets :: "('d, NodeID) set_ops"

definition mutable_pta :: "('d, NodeID) set_ops \<Rightarrow> ((NodeID, 'd, NodeID) mdiff, 'd) pta_data" where
  "mutable_pta ops = \<lparr>pa_ops = mdiff_ops ops, pa_getPts = mdiff_getPts ops, pa_getRevPts = mdiff_getRevPts,
     pa_unionSet = mdiff_unionSet ops, pa_getDiffPts = (\<lambda>s k. Some (mdiff_getDiffPts ops s k)),
     pa_computeDiffPts = mdiff_computeDiffPts ops, pa_updatePropaPtsMap = mdiff_updatePropaPtsMap ops,
     pa_clearPropaPts = (\<lambda>s k. Some (mdiff_clearPropaPts ops s k)), pa_sets = ops\<rparr>"

definition persistent_pta :: "('d, NodeID) set_ops \<Rightarrow> ((NodeID, 'd, NodeID) pdiff_state, 'd) pta_data" where
  "persistent_pta ops = \<lparr>pa_ops = pdiff_ops ops, pa_getPts = pdiff_getPts, pa_getRevPts = pdiff_getRevPts,
     pa_unionSet = pdiff_unionSet ops, pa_getDiffPts = pdiff_getDiffPts,
     pa_computeDiffPts = pdiff_computeDiffPts ops, pa_updatePropaPtsMap = pdiff_updatePropaPtsMap ops,
     pa_clearPropaPts = (\<lambda>s k. Some (pdiff_clearPropaPts s k)), pa_sets = ops\<rparr>"

record an_options =
  an_pag_opt :: pag_options
  DiffPts :: bool
  DetectPWC :: bool

record 's ander =
  an_pts :: 's
  consCG :: cons_graph
  an_pag :: pag_state
  an_worklist :: "NodeID fifo"
  redundantGepNodes :: sbv
  reanalyze :: bool

definition an_rep :: "'s ander \<Rightarrow> NodeID \<Rightarrow> NodeID" where
  "an_rep st i = cg_sccRepNode (consCG st) i"

definition pushIntoWorklist :: "NodeID \<Rightarrow> 's ander \<Rightarrow> 's ander" where
  "pushIntoWorklist i st = st\<lparr>an_worklist := snd (fifo_push (an_worklist st) (an_rep st i))\<rparr>"

definition popFromWorklist :: "'s ander \<Rightarrow> (NodeID \<times> 's ander) option" where
  "popFromWorklist st = do { (i, w) \<leftarrow> fifo_pop (an_worklist st); Some (an_rep st i, st\<lparr>an_worklist := w\<rparr>) }"

definition isWorklistEmpty :: "'s ander \<Rightarrow> bool" where
  "isWorklistEmpty st \<longleftrightarrow> fifo_empty (an_worklist st)"

section \<open>Points-to sets\<close>

text \<open>Reading, unions and differences go by the representative; adding and clearing one element does not.\<close>

definition on_pts :: "('s \<Rightarrow> ('a \<times> 's) option) \<Rightarrow> 's ander \<Rightarrow> ('a \<times> 's ander) option" where
  "on_pts f st = do { (a, s) \<leftarrow> f (an_pts st); Some (a, st\<lparr>an_pts := s\<rparr>) }"

definition an_getPts :: "('s, 'd) pta_data \<Rightarrow> NodeID \<Rightarrow> 's ander \<Rightarrow> ('d \<times> 's ander) option" where
  "an_getPts D i st = on_pts (\<lambda>s. pa_getPts D s (an_rep st i)) st"

definition an_unionSet :: "('s, 'd) pta_data \<Rightarrow> NodeID \<Rightarrow> 'd \<Rightarrow> 's ander \<Rightarrow> (bool \<times> 's ander) option" where
  "an_unionSet D i d st = on_pts (\<lambda>s. pa_unionSet D s (an_rep st i) d) st"

definition an_unionPts :: "('s, 'd) pta_data \<Rightarrow> NodeID \<Rightarrow> NodeID \<Rightarrow> 's ander \<Rightarrow> (bool \<times> 's ander) option" where
  "an_unionPts D i ptd st = on_pts (\<lambda>s. o_unionPts (pa_ops D) s (an_rep st i) (an_rep st ptd)) st"

definition an_addPts :: "('s, 'd) pta_data \<Rightarrow> NodeID \<Rightarrow> NodeID \<Rightarrow> 's ander \<Rightarrow> (bool \<times> 's ander) option" where
  "an_addPts D i ptd st = on_pts (\<lambda>s. o_addPts (pa_ops D) s i ptd) st"

definition an_clearPts :: "('s, 'd) pta_data \<Rightarrow> NodeID \<Rightarrow> NodeID \<Rightarrow> 's ander \<Rightarrow> 's ander option" where
  "an_clearPts D i e st = do { s \<leftarrow> o_clearPts (pa_ops D) (an_pts st) i e; Some (st\<lparr>an_pts := s\<rparr>) }"

definition an_getRevPts :: "('s, 'd) pta_data \<Rightarrow> NodeID \<Rightarrow> 's ander \<Rightarrow> (NodeID list \<times> 's ander) option" where
  "an_getRevPts D i st = on_pts (\<lambda>s. pa_getRevPts D s i) st"

definition an_computeDiffPts :: "('s, 'd) pta_data \<Rightarrow> an_options \<Rightarrow> NodeID \<Rightarrow> 's ander \<Rightarrow> 's ander option" where
  "an_computeDiffPts D opt i st =
     (if DiffPts opt then do {
        let rep = an_rep st i;
        (all, s) \<leftarrow> pa_getPts D (an_pts st) rep;
        (_, s) \<leftarrow> pa_computeDiffPts D s rep all;
        Some (st\<lparr>an_pts := s\<rparr>)
      } else Some st)"

definition an_getDiffPts :: "('s, 'd) pta_data \<Rightarrow> an_options \<Rightarrow> NodeID \<Rightarrow> 's ander \<Rightarrow> ('d \<times> 's ander) option" where
  "an_getDiffPts D opt i st =
     on_pts (\<lambda>s. if DiffPts opt then pa_getDiffPts D s (an_rep st i) else pa_getPts D s (an_rep st i)) st"

definition an_updatePropaPts :: "('s, 'd) pta_data \<Rightarrow> an_options \<Rightarrow> NodeID \<Rightarrow> NodeID \<Rightarrow> 's ander \<Rightarrow> 's ander option" where
  "an_updatePropaPts D opt dstId srcId st =
     (if DiffPts opt then do {
        s \<leftarrow> pa_updatePropaPtsMap D (an_pts st) (an_rep st srcId) (an_rep st dstId);
        Some (st\<lparr>an_pts := s\<rparr>)
      } else Some st)"

definition an_clearPropaPts :: "('s, 'd) pta_data \<Rightarrow> an_options \<Rightarrow> NodeID \<Rightarrow> 's ander \<Rightarrow> 's ander option" where
  "an_clearPropaPts D opt src st =
     (if DiffPts opt then do { s \<leftarrow> pa_clearPropaPts D (an_pts st) (an_rep st src); Some (st\<lparr>an_pts := s\<rparr>) } else Some st)"

section \<open>Objects seen from the constraint graph\<close>

definition cg_getFIObjVar :: "NodeID \<Rightarrow> 's ander \<Rightarrow> NodeID option" where
  "cg_getFIObjVar i st = do {
     fi \<leftarrow> pag_getFIObjVar (an_pag st) i;
     if hasConstraintNode (consCG st) fi \<or> an_rep st fi \<noteq> fi then Some fi else None
   }"

definition cg_getGepObjVar :: "an_options \<Rightarrow> NodeID \<Rightarrow> APOffset \<Rightarrow> 's ander \<Rightarrow> (NodeID \<times> 's ander) option" where
  "cg_getGepObjVar opt i off st = do {
     (gep, P) \<leftarrow> pag_getGepObjVar (an_pag_opt opt) i off (an_pag st);
     let st = st\<lparr>an_pag := P\<rparr>;
     let G = consCG st;
     Some (gep, st\<lparr>consCG := (if cg_sccRepNode G gep = gep \<and> \<not> hasConstraintNode G gep then addConstraintNode gep G else G)\<rparr>)
   }"

definition an_setObjFieldInsensitive :: "NodeID \<Rightarrow> 's ander \<Rightarrow> 's ander option" where
  "an_setObjFieldInsensitive i st = do { P \<leftarrow> setObjFieldInsensitive i (an_pag st); Some (st\<lparr>an_pag := P\<rparr>) }"

section \<open>Constraints\<close>

definition addCopyEdge :: "('s, 'd) pta_data \<Rightarrow> an_options \<Rightarrow> NodeID \<Rightarrow> NodeID \<Rightarrow> 's ander \<Rightarrow> (bool \<times> 's ander) option" where
  "addCopyEdge D opt src dst st = do {
     (added, G) \<leftarrow> addCopyCGEdge src dst (consCG st);
     let st = st\<lparr>consCG := G\<rparr>;
     if added then do { st \<leftarrow> an_updatePropaPts D opt src dst st; Some (True, st) } else Some (False, st)
   }"

definition processAddr :: "('s, 'd) pta_data \<Rightarrow> gedge \<Rightarrow> 's ander \<Rightarrow> 's ander option" where
  "processAddr D addr st = do {
     (ch, st) \<leftarrow> an_addPts D (getDstID addr) (getSrcID addr) st;
     Some (if ch then pushIntoWorklist (getDstID addr) st else st)
   }"

definition processAllAddr :: "('s, 'd) pta_data \<Rightarrow> 's ander \<Rightarrow> 's ander option" where
  "processAllAddr D st =
     ofold (\<lambda>(_, n) st. ofold (processAddr D) (es_addr (cn_in n)) st) (IDToNodeMap (cg_base (consCG st))) st"

definition an_isPointer :: "NodeID \<Rightarrow> 's ander \<Rightarrow> bool option" where
  "an_isPointer i st = map_option isPointer (pag_node (an_pag st) i)"

definition processLoad :: "('s, 'd) pta_data \<Rightarrow> an_options \<Rightarrow> NodeID \<Rightarrow> gedge \<Rightarrow> 's ander \<Rightarrow> (bool \<times> 's ander) option" where
  "processLoad D opt node load st = do {
     c \<leftarrow> isConstantObj (an_pag st) node;
     if c then Some (False, st) else do {
       p \<leftarrow> an_isPointer (getDstID load) st;
       if \<not> p then Some (False, st) else addCopyEdge D opt node (getDstID load) st
     }
   }"

definition processStore :: "('s, 'd) pta_data \<Rightarrow> an_options \<Rightarrow> NodeID \<Rightarrow> gedge \<Rightarrow> 's ander \<Rightarrow> (bool \<times> 's ander) option" where
  "processStore D opt node edge st = do {
     c \<leftarrow> isConstantObj (an_pag st) node;
     if c then Some (False, st) else do {
       p \<leftarrow> an_isPointer (getSrcID edge) st;
       if \<not> p then Some (False, st) else addCopyEdge D opt (getSrcID edge) node st
     }
   }"

definition processCopy :: "('s, 'd) pta_data \<Rightarrow> an_options \<Rightarrow> NodeID \<Rightarrow> gedge \<Rightarrow> 's ander \<Rightarrow> (bool \<times> 's ander) option" where
  "processCopy D opt node edge st =
     (if getEdgeKind edge \<noteq> KCopy then None else do {
        (srcPts, st) \<leftarrow> an_getDiffPts D opt node st;
        (changed, st) \<leftarrow> an_unionSet D (getDstID edge) srcPts st;
        Some (changed, if changed then pushIntoWorklist (getDstID edge) st else st)
      })"

text \<open>What one object of the source contributes to the destination of a gep edge.\<close>

definition variant_gep_obj :: "NodeID \<Rightarrow> 's ander \<Rightarrow> (NodeID \<times> 's ander) option" where
  "variant_gep_obj ob st = do {
     c \<leftarrow> isBlkObjOrConstantObj (an_pag st) ob;
     if c then Some (ob, st) else do {
       fi \<leftarrow> isFieldInsensitive (an_pag st) ob;
       st \<leftarrow> (if \<not> fi then do {
           st \<leftarrow> an_setObjFieldInsensitive ob st;
           b \<leftarrow> getBaseObjVar (an_pag st) ob;
           Some (st\<lparr>consCG := addNodeToBeCollapsed b (consCG st)\<rparr>)
         } else Some st);
       baseId \<leftarrow> cg_getFIObjVar ob st;
       Some (baseId, st)
     }
   }"

definition normal_gep_obj :: "an_options \<Rightarrow> APOffset \<Rightarrow> NodeID \<Rightarrow> 's ander \<Rightarrow> (NodeID \<times> 's ander) option" where
  "normal_gep_obj opt off ob st = do {
     c \<leftarrow> isBlkObjOrConstantObj (an_pag st) ob;
     if c then Some (ob, st) else do {
       fi \<leftarrow> isFieldInsensitive (an_pag st) ob;
       if fi then Some (ob, st) else cg_getGepObjVar opt ob off st
     }
   }"

definition gep_targets :: "('s, 'd) pta_data \<Rightarrow> (NodeID \<Rightarrow> 's ander \<Rightarrow> (NodeID \<times> 's ander) option) \<Rightarrow> NodeID list \<Rightarrow> 's ander \<Rightarrow>
    ('d \<times> 's ander) option" where
  "gep_targets D f obs st = ofold (\<lambda>ob (tmp, st). do {
     (t, st) \<leftarrow> f ob st;
     tmp \<leftarrow> s_set (pa_sets D) tmp t;
     Some (tmp, st)
   }) obs (s_new (pa_sets D), st)"

definition processGepPts :: "('s, 'd) pta_data \<Rightarrow> an_options \<Rightarrow> 'd \<Rightarrow> gedge \<Rightarrow> 's ander \<Rightarrow> (bool \<times> 's ander) option" where
  "processGepPts D opt pts edge st = do {
     obs \<leftarrow> s_list (pa_sets D) pts;
     (tmpDstPts, st) \<leftarrow>
       (if getEdgeKind edge = KVariantGep then gep_targets D variant_gep_obj obs st
        else if getEdgeKind edge = KNormalGep then do {
          off \<leftarrow> gep_offset (consCG st) edge;
          gep_targets D (normal_gep_obj opt off) obs st }
        else None);
     (changed, st) \<leftarrow> an_unionSet D (getDstID edge) tmpDstPts st;
     Some (changed, if changed then pushIntoWorklist (getDstID edge) st else st)
   }"

definition processGep :: "('s, 'd) pta_data \<Rightarrow> an_options \<Rightarrow> NodeID \<Rightarrow> gedge \<Rightarrow> 's ander \<Rightarrow> (bool \<times> 's ander) option" where
  "processGep D opt node edge st = do {
     (srcPts, st) \<leftarrow> an_getDiffPts D opt (getSrcID edge) st;
     processGepPts D opt srcPts edge st
   }"

definition handleCopyGep :: "('s, 'd) pta_data \<Rightarrow> an_options \<Rightarrow> NodeID \<Rightarrow> 's ander \<Rightarrow> 's ander option" where
  "handleCopyGep D opt nodeId st = do {
     st \<leftarrow> an_computeDiffPts D opt nodeId st;
     (d, st) \<leftarrow> an_getDiffPts D opt nodeId st;
     if s_empty (pa_sets D) d then Some st else do {
       n \<leftarrow> getGNode nodeId (cg_base (consCG st));
       st \<leftarrow> ofold (\<lambda>e st. map_option snd (processCopy D opt nodeId e st)) (es_copy (cn_out n)) st;
       n \<leftarrow> getGNode nodeId (cg_base (consCG st));
       ofold (\<lambda>e st. if is_gep e then map_option snd (processGep D opt nodeId e st) else Some st) (es_gep (cn_out n)) st
     }
   }"

definition handleLoadStore :: "('s, 'd) pta_data \<Rightarrow> an_options \<Rightarrow> NodeID \<Rightarrow> 's ander \<Rightarrow> 's ander option" where
  "handleLoadStore D opt nodeId st = do {
     (d, st) \<leftarrow> an_getPts D nodeId st;
     ptds \<leftarrow> s_list (pa_sets D) d;
     ofold (\<lambda>ptd st. do {
       n \<leftarrow> getGNode nodeId (cg_base (consCG st));
       st \<leftarrow> ofold (\<lambda>e st. do {
           (b, st) \<leftarrow> processLoad D opt ptd e st;
           Some (if b then pushIntoWorklist ptd st else st)
         }) (es_load (cn_out n)) st;
       n \<leftarrow> getGNode nodeId (cg_base (consCG st));
       ofold (\<lambda>e st. do {
           (b, st) \<leftarrow> processStore D opt ptd e st;
           Some (if b then pushIntoWorklist (getSrcID e) st else st)
         }) (es_store (cn_in n)) st
     }) ptds st
   }"

definition an_processNode :: "('s, 'd) pta_data \<Rightarrow> an_options \<Rightarrow> NodeID \<Rightarrow> 's ander \<Rightarrow> 's ander option" where
  "an_processNode D opt nodeId st =
     (if an_rep st nodeId \<noteq> nodeId then Some st else do {
        (i, _) \<leftarrow> getConstraintNode (consCG st) nodeId;
        st \<leftarrow> handleLoadStore D opt i st;
        handleCopyGep D opt i st
      })"

end
