(* ===== verification/AndersenSolve.thy ===== *)
theory AndersenSolve
  imports Andersen SCCDetect
begin

text \<open>
  The rest of Andersen's analysis: merging nodes of the constraint graph, collapsing objects, detection of
  components, the two solvers, the parameters of indirect calls and the clean-up at the end.
\<close>

section \<open>Merging\<close>

definition updateNodeRepAndSubs :: "NodeID \<Rightarrow> NodeID \<Rightarrow> cons_graph \<Rightarrow> cons_graph option" where
  "updateNodeRepAndSubs nodeId newRepId G = do {
     let G = setRep nodeId newRepId G;
     let repSubs = sbv_set sbv_new nodeId;
     let (nodeSubs, G) = cg_sccSubNodes nodeId G;
     subs \<leftarrow> sbv_list nodeSubs;
     let G = fold (\<lambda>subId G. setRep subId newRepId G) subs G;
     let repSubs = snd (sbv_or_assign repSubs nodeSubs);
     let G = setSubs newRepId repSubs G;
     Some (resetSubs nodeId G)
   }"

text \<open>The part of a merge that concerns the graph.\<close>

definition merge_graph :: "NodeID \<Rightarrow> NodeID \<Rightarrow> cons_graph \<Rightarrow> (bool \<times> cons_graph) option" where
  "merge_graph nodeId newRepId G = do {
     (i, _) \<leftarrow> getConstraintNode G nodeId;
     (r, _) \<leftarrow> getConstraintNode G newRepId;
     (pwc, G) \<leftarrow> moveEdgesToRepNode i r G;
     n \<leftarrow> getGNode i (cg_base G);
     let pwc = (pwc \<or> isPWCNode n);
     G \<leftarrow> updateNodeRepAndSubs i newRepId G;
     G \<leftarrow> removeConstraintNode i G;
     Some (pwc, G)
   }"

definition mergeSrcToTgt :: "('s, 'd) pta_data \<Rightarrow> an_options \<Rightarrow> NodeID \<Rightarrow> NodeID \<Rightarrow> 's ander \<Rightarrow> (bool \<times> 's ander) option" where
  "mergeSrcToTgt D opt nodeId newRepId st =
     (if nodeId = newRepId then Some (False, st) else do {
        st \<leftarrow> an_updatePropaPts D opt newRepId nodeId st;
        (_, st) \<leftarrow> an_unionPts D newRepId nodeId st;
        (pwc, G) \<leftarrow> merge_graph nodeId newRepId (consCG st);
        Some (pwc, st\<lparr>consCG := G\<rparr>)
      })"

definition mergeNodeToRep :: "('s, 'd) pta_data \<Rightarrow> an_options \<Rightarrow> NodeID \<Rightarrow> NodeID \<Rightarrow> 's ander \<Rightarrow> 's ander option" where
  "mergeNodeToRep D opt nodeId newRepId st = do {
     (pwc, st) \<leftarrow> mergeSrcToTgt D opt nodeId newRepId st;
     if pwc then do { G \<leftarrow> cg_setPWCNode newRepId (consCG st); Some (st\<lparr>consCG := G\<rparr>) } else Some st
   }"

definition mergeSccNodes :: "('s, 'd) pta_data \<Rightarrow> an_options \<Rightarrow> NodeID \<Rightarrow> sbv \<Rightarrow> 's ander \<Rightarrow> 's ander option" where
  "mergeSccNodes D opt repNodeId subs st = do {
     ns \<leftarrow> sbv_list subs;
     ofold (\<lambda>subNodeId st. if subNodeId \<noteq> repNodeId then mergeNodeToRep D opt subNodeId repNodeId st else Some st) ns st
   }"

text \<open>The stack of representatives, from the top; it is the same afterwards.\<close>

definition mergeSccCycle :: "('s, 'd) pta_data \<Rightarrow> an_options \<Rightarrow> scc_state \<Rightarrow> 's ander \<Rightarrow> 's ander option" where
  "mergeSccCycle D opt scc st =
     ofold (\<lambda>repNodeId st. do { s \<leftarrow> subNodes repNodeId scc; mergeSccNodes D opt repNodeId s st }) (scc_T scc) st"

definition an_SCCDetect :: "('s, 'd) pta_data \<Rightarrow> an_options \<Rightarrow> 's ander \<Rightarrow> (NodeID list \<times> 's ander) option" where
  "an_SCCDetect D opt st = do {
     scc \<leftarrow> scc_find (cg_scc_graph (DetectPWC opt) (consCG st));
     st \<leftarrow> mergeSccCycle D opt scc st;
     Some (scc_T scc, st)
   }"

section \<open>Collapsing\<close>

text \<open>
  \<open>collapseField\<close> and \<open>collapseNodePts\<close> call each other: one function, whose flag tells which of the two.
\<close>

definition move_pointer :: "('s, 'd) pta_data \<Rightarrow> NodeID \<Rightarrow> NodeID \<Rightarrow> NodeID \<Rightarrow> 's ander \<Rightarrow> 's ander option" where
  "move_pointer D fieldId baseId ob st = do {
     st \<leftarrow> an_clearPts D ob fieldId st;
     (_, st) \<leftarrow> an_addPts D ob baseId st;
     Some (pushIntoWorklist ob st)
   }"

definition collapse_one_field :: "('s, 'd) pta_data \<Rightarrow> an_options \<Rightarrow> NodeID \<Rightarrow> NodeID \<Rightarrow> NodeID \<Rightarrow> bool \<times> 's ander \<Rightarrow> (bool \<times> 's ander) option" where
  "collapse_one_field D opt baseId baseRepNodeId fieldId = (\<lambda>(changed, st).
     if fieldId = baseId then Some (changed, st) else do {
       (revPts, st) \<leftarrow> an_getRevPts D fieldId st;
       st \<leftarrow> ofold (move_pointer D fieldId baseId) revPts st;
       st \<leftarrow> mergeNodeToRep D opt (an_rep st fieldId) baseRepNodeId st;
       let st = (if fieldId \<noteq> baseRepNodeId then st\<lparr>redundantGepNodes := sbv_set (redundantGepNodes st) fieldId\<rparr> else st);
       Some (changed \<or> revPts \<noteq> [], st)
     })"

partial_function (option) collapse :: "('s, 'd) pta_data \<Rightarrow> an_options \<Rightarrow> bool \<Rightarrow> NodeID \<Rightarrow> 's ander \<Rightarrow> (bool \<times> 's ander) option" where
  "collapse D opt field nodeId st =
     (if field then do {
        c \<leftarrow> isBlkObjOrConstantObj (an_pag st) nodeId;
        if c then Some (False, st) else do {
          st \<leftarrow> an_setObjFieldInsensitive nodeId st;
          baseId \<leftarrow> cg_getFIObjVar nodeId st;
          let baseRepNodeId = an_rep st baseId;
          (allFields, P) \<leftarrow> getAllFieldsObjVars baseId (an_pag st);
          let st = st\<lparr>an_pag := P\<rparr>;
          fields \<leftarrow> sbv_list allFields;
          (changed, st) \<leftarrow> ofold (collapse_one_field D opt baseId baseRepNodeId) fields (False, st);
          p \<leftarrow> cg_isPWCNode (consCG st) baseRepNodeId;
          if p then do {
            (b, st) \<leftarrow> collapse D opt False baseRepNodeId st;
            Some (changed \<or> b, st)
          } else Some (changed, st)
        }
      } else do {
        (ptsClone, st) \<leftarrow> an_getPts D nodeId st;
        ns \<leftarrow> s_list (pa_sets D) ptsClone;
        ofold (\<lambda>ob (changed, st). do {
          fi \<leftarrow> isFieldInsensitive (an_pag st) ob;
          if fi then Some (changed, st) else do {
            (b, st) \<leftarrow> collapse D opt True ob st;
            Some (changed \<or> b, st)
          }
        }) ns (False, st)
      })"

definition collapseField :: "('s, 'd) pta_data \<Rightarrow> an_options \<Rightarrow> NodeID \<Rightarrow> 's ander \<Rightarrow> (bool \<times> 's ander) option" where
  "collapseField D opt nodeId st = collapse D opt True nodeId st"

definition collapseNodePts :: "('s, 'd) pta_data \<Rightarrow> an_options \<Rightarrow> NodeID \<Rightarrow> 's ander \<Rightarrow> (bool \<times> 's ander) option" where
  "collapseNodePts D opt nodeId st = collapse D opt False nodeId st"

definition collapsePWCNode :: "('s, 'd) pta_data \<Rightarrow> an_options \<Rightarrow> NodeID \<Rightarrow> 's ander \<Rightarrow> 's ander option" where
  "collapsePWCNode D opt nodeId st = do {
     p \<leftarrow> cg_isPWCNode (consCG st) nodeId;
     if p then do {
       (b, st) \<leftarrow> collapseNodePts D opt nodeId st;
       Some (if b then st\<lparr>reanalyze := True\<rparr> else st)
     } else Some st
   }"

partial_function (option) collapseFields :: "('s, 'd) pta_data \<Rightarrow> an_options \<Rightarrow> 's ander \<Rightarrow> 's ander option" where
  "collapseFields D opt st =
     (if hasNodesToBeCollapsed (consCG st) then do {
        (node, G) \<leftarrow> getNextCollapseNode (consCG st);
        (b, st) \<leftarrow> collapseField D opt node (st\<lparr>consCG := G\<rparr>);
        collapseFields D opt (if b then st\<lparr>reanalyze := True\<rparr> else st)
      } else Some st)"

section \<open>Solving\<close>

text \<open>\<open>WPASolver::solveWorklist\<close>, which \<open>Andersen\<close> uses.\<close>

partial_function (option) solveWorklist :: "('s, 'd) pta_data \<Rightarrow> an_options \<Rightarrow> 's ander \<Rightarrow> 's ander option" where
  "solveWorklist D opt st =
     (if isWorklistEmpty st then Some st else do {
        (nodeId, st) \<leftarrow> popFromWorklist st;
        st \<leftarrow> an_processNode D opt nodeId st;
        st \<leftarrow> collapseFields D opt st;
        solveWorklist D opt st
      })"

text \<open>\<open>AndersenWaveDiff\<close>: loads and stores of the changed nodes come after the propagation along all nodes.\<close>

definition wave_processNode :: "('s, 'd) pta_data \<Rightarrow> an_options \<Rightarrow> NodeID \<Rightarrow> 's ander \<Rightarrow> 's ander option" where
  "wave_processNode D opt nodeId st =
     (if an_rep st nodeId \<noteq> nodeId then Some st else do {
        (i, _) \<leftarrow> getConstraintNode (consCG st) nodeId;
        handleCopyGep D opt i st
      })"

definition wave_handle :: "('s, 'd) pta_data \<Rightarrow> (NodeID \<Rightarrow> gedge \<Rightarrow> 's ander \<Rightarrow> (bool \<times> 's ander) option) \<Rightarrow> NodeID \<Rightarrow> gedge \<Rightarrow>
    's ander \<Rightarrow> (bool \<times> 's ander) option" where
  "wave_handle D process nodeId edge st = do {
     (d, st) \<leftarrow> an_getPts D nodeId st;
     ns \<leftarrow> s_list (pa_sets D) d;
     ofold (\<lambda>ob (changed, st). do { (b, st) \<leftarrow> process ob edge st; Some (changed \<or> b, st) }) ns (False, st)
   }"

definition handleLoad :: "('s, 'd) pta_data \<Rightarrow> an_options \<Rightarrow> NodeID \<Rightarrow> gedge \<Rightarrow> 's ander \<Rightarrow> (bool \<times> 's ander) option" where
  "handleLoad D opt = wave_handle D (processLoad D opt)"

definition handleStore :: "('s, 'd) pta_data \<Rightarrow> an_options \<Rightarrow> NodeID \<Rightarrow> gedge \<Rightarrow> 's ander \<Rightarrow> (bool \<times> 's ander) option" where
  "handleStore D opt = wave_handle D (processStore D opt)"

definition postProcessNode :: "('s, 'd) pta_data \<Rightarrow> an_options \<Rightarrow> NodeID \<Rightarrow> 's ander \<Rightarrow> 's ander option" where
  "postProcessNode D opt nodeId st = do {
     (i, n) \<leftarrow> getConstraintNode (consCG st) nodeId;
     st \<leftarrow> ofold (\<lambda>e st. do {
         (b, st) \<leftarrow> handleLoad D opt nodeId e st;
         Some (if b then st\<lparr>reanalyze := True\<rparr> else st)
       }) (es_load (cn_out n)) st;
     (i, n) \<leftarrow> getConstraintNode (consCG st) nodeId;
     ofold (\<lambda>e st. do {
         (b, st) \<leftarrow> handleStore D opt nodeId e st;
         Some (if b then st\<lparr>reanalyze := True\<rparr> else st)
       }) (es_store (cn_in n)) st
   }"

partial_function (option) wave_post :: "('s, 'd) pta_data \<Rightarrow> an_options \<Rightarrow> 's ander \<Rightarrow> 's ander option" where
  "wave_post D opt st =
     (if isWorklistEmpty st then Some st else do {
        (nodeId, st) \<leftarrow> popFromWorklist st;
        st \<leftarrow> postProcessNode D opt nodeId st;
        wave_post D opt st
      })"

definition wave_solveWorklist :: "('s, 'd) pta_data \<Rightarrow> an_options \<Rightarrow> 's ander \<Rightarrow> 's ander option" where
  "wave_solveWorklist D opt st = do {
     (nodeStack, st) \<leftarrow> an_SCCDetect D opt st;
     st \<leftarrow> ofold (\<lambda>nodeId st. do {
         st \<leftarrow> collapsePWCNode D opt nodeId st;
         st \<leftarrow> wave_processNode D opt nodeId st;
         collapseFields D opt st
       }) nodeStack st;
     wave_post D opt st
   }"

text \<open>
  \<open>AndersenBase::solveConstraints\<close>, with the solver and the update of the call graph as arguments; their work
  list is filled before.
\<close>

partial_function (option) solveConstraints :: "('s ander \<Rightarrow> 's ander option) \<Rightarrow> ('s ander \<Rightarrow> (bool \<times> 's ander) option) \<Rightarrow>
    's ander \<Rightarrow> 's ander option" where
  "solveConstraints solve updateCallGraph st = do {
     st \<leftarrow> solve (st\<lparr>reanalyze := False\<rparr>);
     (new, st) \<leftarrow> updateCallGraph st;
     let st = (if new then st\<lparr>reanalyze := True\<rparr> else st);
     if reanalyze st then solveConstraints solve updateCallGraph st else Some st
   }"

section \<open>Indirect calls\<close>

text \<open>
  What a call site and a callee offer: the return value of the call and of the function, the actual and formal
  parameters, and the node of variable arguments. The result collects the new copy edges.
\<close>

record call_site =
  cs_return :: "NodeID option"
  fun_return :: "NodeID option"
  cs_args :: "NodeID list option"
  fun_args :: "NodeID list option"
  vararg_node :: "NodeID option"

type_synonym node_pairs = "(NodeID \<times> NodeID) list"

definition connect_pair :: "('s, 'd) pta_data \<Rightarrow> an_options \<Rightarrow> NodeID \<Rightarrow> NodeID \<Rightarrow> node_pairs \<times> 's ander \<Rightarrow> (node_pairs \<times> 's ander) option" where
  "connect_pair D opt src dst = (\<lambda>(cpy, st). do {
     let s = an_rep st src;
     let d = an_rep st dst;
     (added, st) \<leftarrow> addCopyEdge D opt s d st;
     Some (if added then List.insert (s, d) cpy else cpy, st)
   })"

definition connect_pointers :: "('s, 'd) pta_data \<Rightarrow> an_options \<Rightarrow> NodeID \<Rightarrow> NodeID \<Rightarrow> node_pairs \<times> 's ander \<Rightarrow> (node_pairs \<times> 's ander) option" where
  "connect_pointers D opt src dst = (\<lambda>(cpy, st). do {
     p \<leftarrow> an_isPointer src st; q \<leftarrow> an_isPointer dst st;
     if p \<and> q then connect_pair D opt src dst (cpy, st) else Some (cpy, st)
   })"

definition connectCaller2CalleeParams :: "('s, 'd) pta_data \<Rightarrow> an_options \<Rightarrow> call_site \<Rightarrow> node_pairs \<times> 's ander \<Rightarrow> (node_pairs \<times> 's ander) option" where
  "connectCaller2CalleeParams D opt cs x = do {
     x \<leftarrow> (case (fun_return cs, cs_return cs) of (Some f, Some c) \<Rightarrow> connect_pointers D opt f c x | _ \<Rightarrow> Some x);
     (case (cs_args cs, fun_args cs) of
        (Some actuals, Some formals) \<Rightarrow> do {
          x \<leftarrow> ofold (\<lambda>(a, f). connect_pointers D opt a f) (zip actuals formals) x;
          (case vararg_node cs of
             None \<Rightarrow> Some x
           | Some v \<Rightarrow> ofold (\<lambda>a (cpy, st). do {
               p \<leftarrow> an_isPointer a st;
               if p then connect_pair D opt a v (cpy, st) else Some (cpy, st)
             }) (drop (length formals) actuals) x)
        }
      | _ \<Rightarrow> Some x)
   }"

text \<open>The second half of \<open>updateCallGraph\<close>, for the new pairs of a call site and a callee.\<close>

definition connect_new_edges :: "('s, 'd) pta_data \<Rightarrow> an_options \<Rightarrow> call_site list \<Rightarrow> 's ander \<Rightarrow> (bool \<times> 's ander) option" where
  "connect_new_edges D opt newEdges st = do {
     (cpySrcNodes, st) \<leftarrow> ofold (connectCaller2CalleeParams D opt) newEdges ([], st);
     Some (newEdges \<noteq> [], fold (\<lambda>(s, _) st. pushIntoWorklist s st) cpySrcNodes st)
   }"

section \<open>Clean-up\<close>

definition cleanConsCG :: "NodeID \<Rightarrow> cons_graph \<Rightarrow> cons_graph option" where
  "cleanConsCG i G = do {
     let (r, G) = getRep i G;
     let G = resetSubs r G;
     let (s, G) = getSubs i G;
     subs \<leftarrow> sbv_list s;
     let G = fold (\<lambda>s G. resetRep s G) subs G;
     let G = resetRep i (resetSubs i G);
     if hasGNode i (cg_base G) then None else Some G
   }"

definition normalize_one :: "NodeID \<Rightarrow> 's ander \<Rightarrow> 's ander option" where
  "normalize_one n st = do {
     base \<leftarrow> getBaseObjVar (an_pag st) n;
     v \<leftarrow> pag_node (an_pag st) n;
     (case v of GepObjVar _ _ off \<Rightarrow> do {
        let P = an_pag st;
        let P = P\<lparr>GepObjVarMap := AList.delete (base, off) (GepObjVarMap P)\<rparr>;
        let P = P\<lparr>memToFieldsMap := AList.update base (sbv_reset (km_get sbv_new (memToFieldsMap P) base) n) (memToFieldsMap P)\<rparr>;
        G \<leftarrow> cleanConsCG n (consCG st);
        g \<leftarrow> removeGNode (\<lambda>_. True) n (pag_graph P);
        Some (st\<lparr>an_pag := P\<lparr>pag_graph := g\<rparr>, consCG := G\<rparr>)
      } | _ \<Rightarrow> None)
   }"

definition normalizePointsTo :: "'s ander \<Rightarrow> 's ander option" where
  "normalizePointsTo st = do { ns \<leftarrow> sbv_list (redundantGepNodes st); ofold normalize_one ns st }"

end
