(* ===== verification/AndersenMerge.thy ===== *)
theory AndersenMerge
  imports ConsMerge AndersenSolve
begin

text \<open>
  What a merge does to the constraint graph: the graph is consistent again, it is the quotient by the two nodes, and
  the nodes merged so far still form classes with one representative each.
\<close>

section \<open>Classes\<close>

definition subs_of :: "cons_graph \<Rightarrow> NodeID \<Rightarrow> NodeID set" where
  "subs_of G r = sbv_bits (km_get sbv_new (nodeToSubsMap G) r)"

definition classes_ok :: "cons_graph \<Rightarrow> bool" where
  "classes_ok G \<longleftrightarrow> km_all sbv_inv (nodeToSubsMap G) \<and>
     (\<forall>j r. map_of (nodeToRepMap G) j = Some r \<longrightarrow> j \<in> subs_of G r) \<and>
     (\<forall>r \<in> cg_nodes G. \<forall>j \<in> subs_of G r. cg_sccRepNode G j = r) \<and> (\<forall>i \<in> cg_nodes G. i < 2 ^ 32)"

lemma classes_ok_frame: "cg_frame G H \<Longrightarrow> classes_ok G \<Longrightarrow> classes_ok H"
  by (simp add: classes_ok_def cg_frame_def subs_of_def cg_sccRepNode_def)

lemma fold_setRep:
  "map_of (nodeToRepMap (fold (\<lambda>s G. setRep s r G) ns G)) = (\<lambda>j. if j \<in> set ns then Some r else map_of (nodeToRepMap G) j) \<and>
   cg_base (fold (\<lambda>s G. setRep s r G) ns G) = cg_base G \<and> nodeToSubsMap (fold (\<lambda>s G. setRep s r G) ns G) = nodeToSubsMap G \<and>
   cg_sets_same G (fold (\<lambda>s G. setRep s r G) ns G)"
proof (induction ns arbitrary: G)
  case Nil
  show ?case by (simp add: cg_sets_same_def)
next
  case (Cons n ns)
  have "cg_sets_same G (setRep n r G)" by (simp add: cg_sets_same_def setRep_def)
  then show ?case using Cons.IH [of "setRep n r G"] cg_sets_same_trans
    by (auto simp: setRep_def update_conv' fun_eq_iff)
qed

lemma sbv_or_snd:
  assumes "sbv_inv s" "sbv_inv r"
  shows "sbv_inv (snd (sbv_or_assign s r))" "sbv_bits (snd (sbv_or_assign s r)) = sbv_bits s \<union> sbv_bits r"
  using sbv_or_assign_spec [OF assms, of "fst (sbv_or_assign s r)" "snd (sbv_or_assign s r)"] by simp_all

lemma updateNodeRepAndSubs_spec:
  assumes ok: "classes_ok G" and i: "i \<in> cg_nodes G" and ir: "i \<noteq> r"
  shows "\<exists>K. updateNodeRepAndSubs i r G = Some K \<and> cg_base K = cg_base G \<and> cg_sets_same G K \<and>
    map_of (nodeToRepMap K) = (\<lambda>j. if j \<in> insert i (subs_of G i) then Some r else map_of (nodeToRepMap G) j) \<and>
    km_all sbv_inv (nodeToSubsMap K) \<and>
    (\<forall>j. j \<noteq> i \<longrightarrow> subs_of K j = (if j = r then subs_of G r \<union> insert i (subs_of G i) else subs_of G j))"
proof -
  have small: "i < 2 ^ 32" and inv: "km_all sbv_inv (nodeToSubsMap G)" using ok i by (auto simp: classes_ok_def)
  have g: "sbv_inv (km_get sbv_new (nodeToSubsMap G) j)" for j by (rule km_all_get [OF inv]) simp
  let ?G1 = "setRep i r G"
  let ?s = "sbv_set (km_get sbv_new (nodeToSubsMap G) i) i"
  let ?G2 = "?G1\<lparr>nodeToSubsMap := AList.update i ?s (nodeToSubsMap G)\<rparr>"
  have s: "sbv_inv ?s" "sbv_bits ?s = insert i (subs_of G i)" using sbv_set_spec [OF g small] by (simp_all add: subs_of_def)
  have sn: "cg_sccSubNodes i ?G1 = (?s, ?G2)" by (simp add: cg_sccSubNodes_def setRep_def Let_def)
  obtain ns where ns: "sbv_list ?s = Some ns" "set ns = sbv_bits ?s" using sv.elements_set [OF s(1)] by blast
  let ?G3 = "fold (\<lambda>s G. setRep s r G) ns ?G2"
  note f = fold_setRep [of r ns ?G2]
  let ?rs = "snd (sbv_or_assign (sbv_set sbv_new i) ?s)"
  have n1: "sbv_inv (sbv_set sbv_new i)" "sbv_bits (sbv_set sbv_new i) = {i}" using sbv_set_spec [OF _ small, of sbv_new] by simp_all
  have rs: "sbv_inv ?rs" "sbv_bits ?rs = insert i (subs_of G i)"
    using sbv_or_snd [OF n1(1) s(1)] n1(2) s(2) by simp_all
  let ?G4 = "setSubs r ?rs ?G3"
  let ?K = "resetSubs i ?G4"
  have m3: "nodeToSubsMap ?G3 = AList.update i ?s (nodeToSubsMap G)" using f by simp
  have inv3: "km_all sbv_inv (nodeToSubsMap ?G3)" unfolding m3 by (rule km_all_update [OF inv s(1)])
  have g3: "sbv_inv (km_get sbv_new (nodeToSubsMap ?G3) j)" for j by (rule km_all_get [OF inv3]) simp
  let ?u = "snd (sbv_or_assign (km_get sbv_new (nodeToSubsMap ?G3) r) ?rs)"
  have u: "sbv_inv ?u" "sbv_bits ?u = sbv_bits (km_get sbv_new (nodeToSubsMap ?G3) r) \<union> insert i (subs_of G i)"
    using sbv_or_snd [OF g3 rs(1)] rs(2) by simp_all
  have "km_get sbv_new (nodeToSubsMap ?G3) r = km_get sbv_new (nodeToSubsMap G) r" using ir by (simp add: m3)
  then have u2: "sbv_bits ?u = subs_of G r \<union> insert i (subs_of G i)" unfolding u(2) subs_of_def by (simp only:)
  have mK: "nodeToSubsMap ?K = AList.delete i (AList.update r ?u (nodeToSubsMap ?G3))" by (simp add: resetSubs_def setSubs_def)
  have "km_all sbv_inv (AList.update r ?u (nodeToSubsMap ?G3))" by (rule km_all_update [OF inv3 u(1)])
  moreover have "snd ` set (AList.delete i xs) \<subseteq> snd ` set xs" for xs :: "(NodeID \<times> sbv) list" by (induction xs) auto
  ultimately have invK: "km_all sbv_inv (nodeToSubsMap ?K)" unfolding mK km_all_def by blast
  have km_del: "km_get sbv_new (AList.delete i xs) j = km_get sbv_new xs j" if "j \<noteq> i" for xs j
    using that by (simp add: km_get_def delete_conv')
  have "subs_of ?K j = (if j = r then subs_of G r \<union> insert i (subs_of G i) else subs_of G j)" if "j \<noteq> i" for j
  proof -
    have "subs_of ?K j = sbv_bits (km_get sbv_new (AList.update r ?u (nodeToSubsMap ?G3)) j)"
      unfolding subs_of_def mK using km_del [OF that] by simp
    also have "\<dots> = (if j = r then sbv_bits ?u else sbv_bits (km_get sbv_new (nodeToSubsMap ?G3) j))" by simp
    finally show ?thesis unfolding u2 using that by (simp add: m3 subs_of_def)
  qed
  moreover have "updateNodeRepAndSubs i r G = Some ?K" by (simp add: updateNodeRepAndSubs_def sn ns(1) Let_def)
  moreover have "cg_base ?K = cg_base G" "cg_sets_same G ?K"
    using f by (simp_all add: resetSubs_def setSubs_def setRep_def cg_sets_same_def)
  moreover have "map_of (nodeToRepMap ?K) = (\<lambda>j. if j \<in> insert i (subs_of G i) then Some r else map_of (nodeToRepMap G) j)"
    using f ns(2) s(2) by (auto simp: resetSubs_def setSubs_def setRep_def update_conv' fun_eq_iff)
  ultimately show ?thesis using invK by blast
qed

lemma class_of_node:
  assumes ok: "classes_ok G" "reps_ok G" and i: "i \<in> cg_nodes G"
  shows "j \<in> insert i (subs_of G i) \<longleftrightarrow> cg_sccRepNode G j = i"
proof
  assume "j \<in> insert i (subs_of G i)"
  then show "cg_sccRepNode G j = i" using ok i rep_of_node by (auto simp: classes_ok_def)
next
  assume r: "cg_sccRepNode G j = i"
  then show "j \<in> insert i (subs_of G i)" using ok(1) by (auto simp: cg_sccRepNode_def classes_ok_def split: option.splits)
qed

section \<open>A merge\<close>

lemma merge_graph_spec:
  assumes ok: "cg_ok G" "classes_ok G" and n: "i \<in> cg_nodes G" "r \<in> cg_nodes G" "i \<noteq> r"
  shows "\<exists>K. merge_graph i r G = Some ((\<exists>e \<in> cg_edges G. merge_critical i r G e) \<or> cg_isPWCNode G i = Some True, K) \<and>
    cg_ok K \<and> classes_ok K \<and> cg_nodes K = cg_nodes G - {i} \<and> cg_edges K = (\<Union>e \<in> cg_edges G. merge_edge i r e) \<and>
    cg_sccRepNode K = (\<lambda>j. into i r (cg_sccRepNode G j)) \<and>
    (\<forall>x \<in> cg_edges K. edgeFlag x = KNormalGep \<longrightarrow> (\<exists>y \<in> cg_edges G. x \<in> merge_edge i r y \<and> gep_offset K x = gep_offset G y))"
proof -
  have rp: "reps_ok G" using ok(1) by (simp add: cg_ok_def)
  obtain m m' where m: "getConstraintNode G i = Some (i, m)" "cg_map G i = Some m" "getConstraintNode G r = Some (r, m')"
    using getConstraintNode_node [OF rp n(1)] getConstraintNode_node [OF rp n(2)] by blast
  obtain H where H: "moveEdgesToRepNode i r G = Some (\<exists>e \<in> cg_edges G. merge_critical i r G e, H)" "cg_ok H" "cg_frame G H"
      "cg_edges H = (\<Union>e \<in> cg_edges G. merge_edge i r e)"
      "\<forall>x \<in> cg_edges H. edgeFlag x = KNormalGep \<longrightarrow> (\<exists>y \<in> cg_edges G. x \<in> merge_edge i r y \<and> gep_offset H x = gep_offset G y)"
    using moveEdgesToRepNode_spec [OF ok(1) n] by blast
  have nH: "cg_nodes H = cg_nodes G" using H(3) by (simp add: cg_frame_def)
  obtain k where k: "cg_map H i = Some k" using n(1) nH by (auto simp: cg_nodes_def)
  have "map_option isPWCNode (cg_map H i) = map_option isPWCNode (cg_map G i)" using H(3) by (simp add: cg_frame_def)
  then have pw: "isPWCNode k = isPWCNode m" using k m(2) by simp
  have free: "getSrcID x \<noteq> i \<and> getDstID x \<noteq> i" if x: "x \<in> cg_edges H" for x
  proof -
    obtain e where "x \<in> merge_edge i r e" using x unfolding H(4) by blast
    then show ?thesis by (rule merge_edge_free [OF n(3)])
  qed
  have cl: "classes_ok H" by (rule classes_ok_frame [OF H(3) ok(2)])
  obtain J where J: "updateNodeRepAndSubs i r H = Some J" "cg_base J = cg_base H" "cg_sets_same H J"
      "map_of (nodeToRepMap J) = (\<lambda>j. if j \<in> insert i (subs_of H i) then Some r else map_of (nodeToRepMap H) j)"
      "km_all sbv_inv (nodeToSubsMap J)"
      "\<forall>j. j \<noteq> i \<longrightarrow> subs_of J j = (if j = r then subs_of H r \<union> insert i (subs_of H i) else subs_of H j)"
    using updateNodeRepAndSubs_spec [OF cl] n nH by blast
  let ?K = "J\<lparr>cg_base := (cg_base J)\<lparr>IDToNodeMap := omap_del i (IDToNodeMap (cg_base J))\<rparr>\<rparr>"
  note o = H(2) [unfolded cg_ok_def]
  have sd: "\<And>j q. cg_map H j = Some q \<Longrightarrow> es_ok {e \<in> cg_edges H. getDstID e = j} (cn_in q) \<and> es_ok {e \<in> cg_edges H. getSrcID e = j} (cn_out q)"
    using o by (simp add: sides_ok_def)
  have iso: "{e \<in> cg_edges H. getDstID e = i} = {}" "{e \<in> cg_edges H. getSrcID e = i} = {}" using free by auto
  have "es_all (cn_in k) = [] \<and> es_all (cn_out k) = []"
    using sd [OF k] unfolding iso by (simp add: es_ok_def oset_is_def)
  then have run: "merge_graph i r G = Some ((\<exists>e \<in> cg_edges G. merge_critical i r G e) \<or> isPWCNode m, ?K)"
    using m H(1) J(1,2) k pw by (simp add: merge_graph_def getGNode_def removeConstraintNode_def removeGNode_def)
  have map_K: "cg_map ?K = (cg_map H)(i := None)" using J(2) by simp
  have nK: "cg_nodes ?K = cg_nodes G - {i}" unfolding cg_nodes_def map_K using nH by (auto simp: cg_nodes_def)
  have EK: "cg_edges ?K = cg_edges H" using J(3) by (simp add: cg_edges_def cg_sets_same_def)
  have rH: "cg_sccRepNode H = cg_sccRepNode G" by (rule cg_frame_rep [OF H(3)])
  have rpH: "reps_ok H" using o by blast
  have iH: "i \<in> cg_nodes H" using n nH by simp
  have cls: "j \<in> insert i (subs_of H i) \<longleftrightarrow> cg_sccRepNode G j = i" for j
    using class_of_node [OF cl rpH iH] rH by simp
  have rep_K: "cg_sccRepNode ?K j = into i r (cg_sccRepNode G j)" for j
  proof (cases "j \<in> insert i (subs_of H i)")
    case True
    then have "map_of (nodeToRepMap ?K) j = Some r" using J(4) by simp
    moreover have "cg_sccRepNode G j = i" using True cls by blast
    ultimately show ?thesis by (simp add: into_def cg_sccRepNode_def)
  next
    case False
    then have "map_of (nodeToRepMap ?K) j = map_of (nodeToRepMap H) j" using J(4) by simp
    then have "cg_sccRepNode ?K j = cg_sccRepNode H j" by (simp add: cg_sccRepNode_def)
    moreover have "cg_sccRepNode G j \<noteq> i" using False cls by blast
    ultimately show ?thesis using rH by (simp add: into_def)
  qed
  have rep_some: "map_of (nodeToRepMap ?K) j = Some q \<Longrightarrow> j \<notin> cg_nodes ?K \<and> q \<in> cg_nodes ?K" for j q
  proof -
    assume a: "map_of (nodeToRepMap ?K) j = Some q"
    show "j \<notin> cg_nodes ?K \<and> q \<in> cg_nodes ?K"
    proof (cases "j \<in> insert i (subs_of H i)")
      case True
      then have "q = r" using a J(4) by simp
      moreover have "j \<in> cg_nodes G \<Longrightarrow> j = i" using True cls rep_of_node [OF rp] by metis
      ultimately show ?thesis using n unfolding nK by auto
    next
      case False
      then have a': "map_of (nodeToRepMap H) j = Some q" using a J(4) by simp
      then have "j \<notin> cg_nodes H" "q \<in> cg_nodes H" using rpH by (auto simp: reps_ok_def ran_def)
      moreover have "cg_sccRepNode G j \<noteq> i" using False cls by blast
      moreover have "cg_sccRepNode H j = q" using a' by (simp add: cg_sccRepNode_def)
      ultimately show ?thesis unfolding nK nH [symmetric] rH by blast
    qed
  qed
  have rpK: "reps_ok ?K" using rep_some by (auto simp: reps_ok_def ran_def)
  have "cg_ok ?K" unfolding cg_ok_def
  proof (intro conjI)
    show "sides_ok (cg_edges ?K) (cg_edges ?K) ?K"
      unfolding EK sides_ok_def map_K using sd o J(2) by (auto simp: sides_ok_def)
    show "kind_sets_ok (cg_edges ?K) ?K" unfolding EK using o J(3) by (simp add: kind_sets_ok_def cg_sets_same_def)
    show "edges_ok (cg_edges ?K) (cg_nodes ?K)" unfolding EK nK using o free nH by (simp add: edges_ok_def)
    show "dom (map_of (edgeData ?K)) = cg_edges ?K" unfolding EK using o J(3) by (simp add: cg_sets_same_def)
  qed (use rpK o J(3) in \<open>simp_all add: cg_sets_same_def\<close>)
  moreover have "classes_ok ?K" unfolding classes_ok_def
  proof (intro conjI allI ballI impI)
    show "km_all sbv_inv (nodeToSubsMap ?K)" using J(5) by simp
    have sK: "subs_of ?K j = (if j = r then subs_of H r \<union> insert i (subs_of H i) else subs_of H j)" if "j \<noteq> i" for j
      using J(6) that by (simp add: subs_of_def)
    show "j \<in> subs_of ?K q" if a: "map_of (nodeToRepMap ?K) j = Some q" for j q
    proof -
      have q: "q \<noteq> i" using rep_some [OF a] nK by blast
      show ?thesis
      proof (cases "j \<in> insert i (subs_of H i)")
        case True
        then have "q = r" using a J(4) by simp
        then show ?thesis using True sK [OF q] by auto
      next
        case False
        then have "map_of (nodeToRepMap H) j = Some q" using a J(4) by simp
        then have "j \<in> subs_of H q" using cl by (simp add: classes_ok_def)
        then show ?thesis using sK [OF q] by auto
      qed
    qed
    show "cg_sccRepNode ?K j = q" if q: "q \<in> cg_nodes ?K" and j: "j \<in> subs_of ?K q" for q j
    proof -
      have qi: "q \<noteq> i" "q \<in> cg_nodes H" using q nK nH by auto
      show ?thesis
      proof (cases "q = r \<and> j \<in> insert i (subs_of H i)")
        case True
        then show ?thesis using rep_K cls by (simp add: into_def)
      next
        case False
        then have "j \<in> subs_of H q" using j sK [OF qi(1)] by (auto split: if_splits)
        then have "cg_sccRepNode H j = q" using cl qi(2) by (simp add: classes_ok_def)
        then show ?thesis using rep_K rH qi(1) by (simp add: into_def)
      qed
    qed
    show "j < 2 ^ 32" if "j \<in> cg_nodes ?K" for j using that ok(2) nK by (simp add: classes_ok_def)
  qed
  moreover have "isPWCNode m \<longleftrightarrow> cg_isPWCNode G i = Some True" using m(1) by (simp add: cg_isPWCNode_def)
  moreover have "gep_offset ?K x = gep_offset H x" for x using J(3) by (simp add: gep_offset_def cg_sets_same_def)
  ultimately show ?thesis using run nK EK H(4,5) rep_K by (intro exI [of _ ?K]) (simp add: fun_eq_iff)
qed

end
