(* ===== verification/AndersenSound.thy ===== *)
theory AndersenSound
  imports AndersenMerge
begin

text \<open>
  Andersen's solver computes the least solution of the inclusion constraints: the argument for a graph of address,
  copy, load and store edges, over any difference structure that keeps the contract below.
\<close>

section \<open>The structure the solver needs\<close>

locale andersen_data =
  fixes D :: "('s, 'd) pta_data" and inv :: "'s \<Rightarrow> bool" and pts diff propa :: "'s \<Rightarrow> NodeID \<Rightarrow> NodeID set"
    and good :: "'d \<Rightarrow> bool" and els :: "'d \<Rightarrow> NodeID set" and valid :: "NodeID \<Rightarrow> bool"
  assumes get_law: "inv s \<Longrightarrow> \<exists>d t. pa_getPts D s k = Some (d, t) \<and> good d \<and> els d = pts s k \<and> inv t \<and>
      pts t = pts s \<and> diff t = diff s \<and> propa t = propa s"
    and add_law: "inv s \<Longrightarrow> valid e \<Longrightarrow> \<exists>t. o_addPts (pa_ops D) s k e = Some (e \<notin> pts s k, t) \<and> inv t \<and>
      pts t = (pts s)(k := insert e (pts s k)) \<and> diff t = diff s \<and> propa t = propa s"
    and union_set_law: "inv s \<Longrightarrow> good d \<Longrightarrow> \<exists>t. pa_unionSet D s k d = Some (\<not> els d \<subseteq> pts s k, t) \<and> inv t \<and>
      pts t = (pts s)(k := pts s k \<union> els d) \<and> diff t = diff s \<and> propa t = propa s"
    and union_law: "inv s \<Longrightarrow> \<exists>t. o_unionPts (pa_ops D) s k l = Some (\<not> pts s l \<subseteq> pts s k, t) \<and> inv t \<and>
      pts t = (pts s)(k := pts s k \<union> pts s l) \<and> diff t = diff s \<and> propa t = propa s"
    and get_diff_law: "inv s \<Longrightarrow> \<exists>d t. pa_getDiffPts D s k = Some (d, t) \<and> good d \<and> els d = diff s k \<and> inv t \<and>
      pts t = pts s \<and> diff t = diff s \<and> propa t = propa s"
    and compute_law: "inv s \<Longrightarrow> good d \<Longrightarrow> \<exists>b t. pa_computeDiffPts D s k d = Some (b, t) \<and> inv t \<and>
      pts t = pts s \<and> diff t = (diff s)(k := els d - propa s k) \<and> propa t = (propa s)(k := els d)"
    and update_law: "inv s \<Longrightarrow> \<exists>t. pa_updatePropaPtsMap D s src dst = Some t \<and> inv t \<and>
      pts t = pts s \<and> diff t = diff s \<and> propa t = (propa s)(dst := propa s dst \<inter> propa s src)"
    and list_law: "good d \<Longrightarrow> \<exists>ns. s_list (pa_sets D) d = Some ns \<and> set ns = els d \<and> distinct ns"
    and empty_law: "good d \<Longrightarrow> s_empty (pa_sets D) d \<longleftrightarrow> els d = {}"

text \<open>The mutable difference structure offers it.\<close>

abbreviation mdiff_inv :: "(64 word \<Rightarrow> 64 word) \<Rightarrow> pt_globals \<Rightarrow> (NodeID, points_to, NodeID) mdiff \<Rightarrow> bool" where
  "mdiff_inv h g s \<equiv> mpt_inv (pt_set_ops h g) (pt_good g) pt_nodes (md_mut s) \<and> mdiff_maps_ok (pt_set_ops h g) (pt_good g) pt_nodes s"

abbreviation mdiff_pts :: "(64 word \<Rightarrow> 64 word) \<Rightarrow> pt_globals \<Rightarrow> (NodeID, points_to, NodeID) mdiff \<Rightarrow> NodeID \<Rightarrow> NodeID set" where
  "mdiff_pts h g s \<equiv> mpt_view (pt_set_ops h g) pt_nodes (md_mut s)"

interpretation an: andersen_data "mutable_pta (pt_set_ops h g)" "mdiff_inv h g" "mdiff_pts h g"
  "\<lambda>s. km_view (pt_set_ops h g) pt_nodes (md_diff s)" "\<lambda>s. km_view (pt_set_ops h g) pt_nodes (md_propa s)"
  "pt_good g" pt_nodes "pt_node_ok g"
  for h g
proof (unfold_locales, goal_cases)
  case (1 s k)
  then show ?case using mdp.lifted.get_law [of h g s k] by (auto simp: mutable_pta_def mdiff_getPts_def)
next
  case (2 s e k)
  then show ?case using mdp.lifted.add_law [of h g s e k] by (auto simp: mutable_pta_def mdiff_ops_eq)
next
  case (3 s d k)
  then show ?case using mdp.lifted.union_set_law [of h g s d k] by (auto simp: mutable_pta_def mdiff_unionSet_def)
next
  case (4 s k l)
  then show ?case using mdp.lifted.union_law [of h g s k l] by (auto simp: mutable_pta_def mdiff_ops_eq)
next
  case (5 s k)
  then show ?case using ps.mdiff_getDiffPts_spec [of h g s k] by (auto simp: mutable_pta_def ps_good)
next
  case (6 s d k)
  then show ?case using ps.mdiff_computeDiffPts_spec [of h g s d k] by (auto simp: mutable_pta_def ps_good)
next
  case (7 s src dst)
  then show ?case using ps.mdiff_updatePropaPtsMap_spec [of h g s src dst] by (auto simp: mutable_pta_def ps_good)
next
  case (8 d)
  then show ?case using ps.good_list [of h g d] by (simp add: mutable_pta_def ps_good)
next
  case (9 d)
  then show ?case using ps.good_empty [of h g d] by (simp add: mutable_pta_def ps_good)
qed

section \<open>The constraints\<close>

text \<open>
  Inputs without field accesses: no node is merged and none waits to be collapsed. The representation knows the
  nodes of the graph and the objects whose addresses are taken.
\<close>

definition objs_of :: "cons_graph \<Rightarrow> NodeID set" where
  "objs_of G = {ob. \<exists>d. GEdge KAddr ob d \<in> cg_edges G}"

definition plain_input :: "cons_graph \<Rightarrow> pag_state \<Rightarrow> bool" where
  "plain_input G P \<longleftrightarrow> cg_ok G \<and> nodeToRepMap G = [] \<and> \<not> hasNodesToBeCollapsed G \<and> (\<forall>e \<in> cg_edges G. \<not> is_gep e) \<and>
     (\<forall>i \<in> cg_nodes G. pag_node P i \<noteq> None) \<and> (\<forall>ob \<in> objs_of G. isConstantObj P ob \<noteq> None)"

text \<open>Loads and stores through constant objects, and those of values that are no pointers, have no effect.\<close>

definition skips :: "pag_state \<Rightarrow> NodeID \<Rightarrow> NodeID \<Rightarrow> bool" where
  "skips P ob x \<longleftrightarrow> isConstantObj P ob = Some True \<or> map_option isPointer (pag_node P x) = Some False"

definition solution :: "cons_graph \<Rightarrow> pag_state \<Rightarrow> (NodeID \<Rightarrow> NodeID set) \<Rightarrow> bool" where
  "solution G P S \<longleftrightarrow> (\<forall>ob d. GEdge KAddr ob d \<in> cg_edges G \<longrightarrow> ob \<in> S d) \<and>
     (\<forall>s d. GEdge KCopy s d \<in> cg_edges G \<longrightarrow> S s \<subseteq> S d) \<and>
     (\<forall>n d ob. GEdge KLoad n d \<in> cg_edges G \<longrightarrow> ob \<in> S n \<longrightarrow> \<not> skips P ob d \<longrightarrow> S ob \<subseteq> S d) \<and>
     (\<forall>s n ob. GEdge KStore s n \<in> cg_edges G \<longrightarrow> ob \<in> S n \<longrightarrow> \<not> skips P ob s \<longrightarrow> S s \<subseteq> S ob)"

text \<open>The copy edges that the loads and stores of a node need for some objects.\<close>

definition handled :: "cons_graph \<Rightarrow> pag_state \<Rightarrow> gedge set \<Rightarrow> NodeID \<Rightarrow> NodeID \<Rightarrow> bool" where
  "handled G P E n ob \<longleftrightarrow>
     (\<forall>d. GEdge KLoad n d \<in> cg_edges G \<longrightarrow> \<not> skips P ob d \<longrightarrow> ob = d \<or> GEdge KCopy ob d \<in> E) \<and>
     (\<forall>s. GEdge KStore s n \<in> cg_edges G \<longrightarrow> \<not> skips P ob s \<longrightarrow> s = ob \<or> GEdge KCopy s ob \<in> E)"

lemma handled_mono: "handled G P E n ob \<Longrightarrow> E \<subseteq> F \<Longrightarrow> handled G P F n ob"
  by (auto simp: handled_def)

lemma objs_nodes: "cg_ok G \<Longrightarrow> objs_of G \<subseteq> cg_nodes G"
  using cg_edge_nodes by (fastforce simp: objs_of_def)

lemma finite_nodes: "finite (cg_nodes G)"
  by (simp add: cg_nodes_def finite_dom_map_of)

lemma plain_rep: "plain_input G P \<Longrightarrow> cg_frame G (consCG st) \<Longrightarrow> an_rep st i = i"
  by (simp add: plain_input_def cg_frame_def an_rep_def cg_sccRepNode_def)

section \<open>Between the steps\<close>

context andersen_data begin

abbreviation P_of :: "'s ander \<Rightarrow> NodeID \<Rightarrow> NodeID set" where "P_of st \<equiv> pts (an_pts st)"
abbreviation Q_of :: "'s ander \<Rightarrow> NodeID \<Rightarrow> NodeID set" where "Q_of st \<equiv> propa (an_pts st)"
abbreviation E_of :: "'s ander \<Rightarrow> gedge set" where "E_of st \<equiv> cg_edges (consCG st)"
abbreviation W_of :: "'s ander \<Rightarrow> NodeID set" where "W_of st \<equiv> set (data_list (an_worklist st))"

text \<open>\<open>X\<close>: the nodes that are being processed; \<open>Y\<close>: the copy edges along which a difference is still to go.\<close>

definition run_ok :: "cons_graph \<Rightarrow> pag_state \<Rightarrow> NodeID set \<Rightarrow> NodeID set \<Rightarrow> 's ander \<Rightarrow> bool" where
  "run_ok G P X Y st \<longleftrightarrow> inv (an_pts st) \<and> cg_ok (consCG st) \<and> cg_frame G (consCG st) \<and> an_pag st = P \<and> \<not> reanalyze st \<and> fifo_inv (an_worklist st) \<and>
     W_of st \<subseteq> cg_nodes G \<and> cg_edges G \<subseteq> E_of st \<and> (\<forall>e \<in> E_of st - cg_edges G. edgeFlag e = KCopy) \<and>
     (\<forall>n. P_of st n \<subseteq> objs_of G \<and> Q_of st n \<subseteq> P_of st n) \<and>
     (\<forall>s d. GEdge KCopy s d \<in> E_of st \<longrightarrow> s \<notin> Y \<longrightarrow> Q_of st s \<subseteq> P_of st d) \<and>
     (\<forall>n \<in> cg_nodes G. n \<notin> W_of st \<union> X \<longrightarrow> P_of st n = Q_of st n \<and> (\<forall>ob \<in> P_of st n. handled G P (E_of st) n ob)) \<and>
     (\<forall>S. solution G P S \<longrightarrow> (\<forall>n. P_of st n \<subseteq> S n) \<and> (\<forall>s d. GEdge KCopy s d \<in> E_of st \<longrightarrow> S s \<subseteq> S d))"

lemma run_okD:
  assumes "run_ok G P X Y st"
  shows "inv (an_pts st)" "cg_ok (consCG st)" "cg_frame G (consCG st)" "an_pag st = P" "fifo_inv (an_worklist st)"
    "W_of st \<subseteq> cg_nodes G" "cg_edges G \<subseteq> E_of st" "\<And>e. e \<in> E_of st \<Longrightarrow> e \<notin> cg_edges G \<Longrightarrow> edgeFlag e = KCopy"
    "\<And>n. P_of st n \<subseteq> objs_of G" "\<And>n. Q_of st n \<subseteq> P_of st n"
    "\<And>s d. GEdge KCopy s d \<in> E_of st \<Longrightarrow> s \<notin> Y \<Longrightarrow> Q_of st s \<subseteq> P_of st d"
    "\<And>n. n \<in> cg_nodes G \<Longrightarrow> n \<notin> W_of st \<union> X \<Longrightarrow> P_of st n = Q_of st n"
    "\<And>n ob. n \<in> cg_nodes G \<Longrightarrow> n \<notin> W_of st \<union> X \<Longrightarrow> ob \<in> P_of st n \<Longrightarrow> handled G P (E_of st) n ob"
    "\<And>S n. solution G P S \<Longrightarrow> P_of st n \<subseteq> S n" "\<And>S s d. solution G P S \<Longrightarrow> GEdge KCopy s d \<in> E_of st \<Longrightarrow> S s \<subseteq> S d"
    "\<not> reanalyze st"
proof -
  note o = assms [unfolded run_ok_def]
  show "inv (an_pts st)" using o by (elim conjE)
  show "cg_ok (consCG st)" using o by (elim conjE)
  show "cg_frame G (consCG st)" using o by (elim conjE)
  show "an_pag st = P" using o by (elim conjE)
  show "fifo_inv (an_worklist st)" using o by (elim conjE)
  show "\<not> reanalyze st" using o by (elim conjE)
  show "W_of st \<subseteq> cg_nodes G" using o by (elim conjE)
  show "cg_edges G \<subseteq> E_of st" using o by (elim conjE)
  show "edgeFlag e = KCopy" if "e \<in> E_of st" "e \<notin> cg_edges G" for e
  proof -
    have "\<forall>e \<in> E_of st - cg_edges G. edgeFlag e = KCopy" using o by (elim conjE)
    then show ?thesis using that by blast
  qed
  have "\<forall>n. P_of st n \<subseteq> objs_of G \<and> Q_of st n \<subseteq> P_of st n" using o by (elim conjE)
  then show "P_of st n \<subseteq> objs_of G" "Q_of st n \<subseteq> P_of st n" for n by blast+
  have "\<forall>s d. GEdge KCopy s d \<in> E_of st \<longrightarrow> s \<notin> Y \<longrightarrow> Q_of st s \<subseteq> P_of st d" using o by (elim conjE)
  then show "Q_of st s \<subseteq> P_of st d" if "GEdge KCopy s d \<in> E_of st" "s \<notin> Y" for s d using that by blast
  have "\<forall>n \<in> cg_nodes G. n \<notin> W_of st \<union> X \<longrightarrow> P_of st n = Q_of st n \<and> (\<forall>ob \<in> P_of st n. handled G P (E_of st) n ob)"
    using o by (elim conjE)
  then show "P_of st n = Q_of st n" "\<And>ob. ob \<in> P_of st n \<Longrightarrow> handled G P (E_of st) n ob"
    if "n \<in> cg_nodes G" "n \<notin> W_of st \<union> X" for n using that by blast+
  have s: "\<forall>S. solution G P S \<longrightarrow> (\<forall>n. P_of st n \<subseteq> S n) \<and> (\<forall>s d. GEdge KCopy s d \<in> E_of st \<longrightarrow> S s \<subseteq> S d)" using o by (elim conjE)
  show "P_of st n \<subseteq> S n" if "solution G P S" for S n using s that by blast
  show "S s \<subseteq> S d" if "solution G P S" "GEdge KCopy s d \<in> E_of st" for S s d using s that by blast
qed

text \<open>What is still missing, weighted against the work list.\<close>

definition missing :: "cons_graph \<Rightarrow> 's ander \<Rightarrow> nat" where
  "missing G st = card {(n, ob). n \<in> cg_nodes G \<and> ob \<in> objs_of G \<and> ob \<notin> P_of st n} +
     card {(s, d). s \<in> cg_nodes G \<and> d \<in> cg_nodes G \<and> GEdge KCopy s d \<notin> E_of st}"

definition work :: "cons_graph \<Rightarrow> 's ander \<Rightarrow> nat" where
  "work G st = 2 * missing G st + length (data_list (an_worklist st))"

definition progress :: "cons_graph \<Rightarrow> 's ander \<Rightarrow> 's ander \<Rightarrow> bool" where
  "progress G s t \<longleftrightarrow> (\<forall>n. P_of s n \<subseteq> P_of t n) \<and> E_of s \<subseteq> E_of t \<and> work G t \<le> work G s"

lemma progress_refl: "progress G s s" by (simp add: progress_def)

lemma progress_trans: "progress G s t \<Longrightarrow> progress G t u \<Longrightarrow> progress G s u"
  unfolding progress_def by (meson order_trans)

lemma missing_less:
  assumes ok: "cg_ok G" and m: "\<And>n. P_of s n \<subseteq> P_of t n" "E_of s \<subseteq> E_of t"
    and new: "(\<exists>n \<in> cg_nodes G. \<exists>ob \<in> objs_of G. ob \<in> P_of t n \<and> ob \<notin> P_of s n) \<or>
      (\<exists>x \<in> cg_nodes G. \<exists>y \<in> cg_nodes G. GEdge KCopy x y \<in> E_of t \<and> GEdge KCopy x y \<notin> E_of s)"
  shows "missing G t < missing G s"
proof -
  let ?A = "\<lambda>st. {(n, ob). n \<in> cg_nodes G \<and> ob \<in> objs_of G \<and> ob \<notin> P_of st n}"
  let ?B = "\<lambda>st. {(s, d). s \<in> cg_nodes G \<and> d \<in> cg_nodes G \<and> GEdge KCopy s d \<notin> E_of st}"
  have fN: "finite (cg_nodes G \<times> cg_nodes G)" using finite_nodes by simp
  have fA: "finite (?A s)" by (rule finite_subset [OF _ fN]) (use objs_nodes [OF ok] in auto)
  have fB: "finite (?B s)" by (rule finite_subset [OF _ fN]) auto
  have sub: "?A t \<subseteq> ?A s" "?B t \<subseteq> ?B s" using m by auto
  have le: "card (?A t) \<le> card (?A s)" "card (?B t) \<le> card (?B s)" using card_mono [OF fA sub(1)] card_mono [OF fB sub(2)] .
  have "card (?A t) < card (?A s) \<or> card (?B t) < card (?B s)"
  proof (rule disjE [OF new])
    assume "\<exists>n \<in> cg_nodes G. \<exists>ob \<in> objs_of G. ob \<in> P_of t n \<and> ob \<notin> P_of s n"
    then have "?A t \<noteq> ?A s" by blast
    then show ?thesis using psubset_card_mono [OF fA] sub(1) by blast
  next
    assume "\<exists>x \<in> cg_nodes G. \<exists>y \<in> cg_nodes G. GEdge KCopy x y \<in> E_of t \<and> GEdge KCopy x y \<notin> E_of s"
    then have "?B t \<noteq> ?B s" by blast
    then show ?thesis using psubset_card_mono [OF fB] sub(2) by blast
  qed
  then show ?thesis using le by (auto simp: missing_def)
qed

text \<open>Pushing a node ends its exemption.\<close>

lemma push_state:
  assumes "plain_input G P" "cg_frame G (consCG st)" "fifo_inv (an_worklist st)"
  shows "an_pts (pushIntoWorklist n st) = an_pts st" "consCG (pushIntoWorklist n st) = consCG st" "an_pag (pushIntoWorklist n st) = an_pag st"
    "W_of (pushIntoWorklist n st) = insert n (W_of st)" "fifo_inv (an_worklist (pushIntoWorklist n st))"
    "length (data_list (an_worklist (pushIntoWorklist n st))) \<le> Suc (length (data_list (an_worklist st)))"
    "reanalyze (pushIntoWorklist n st) = reanalyze st"
proof -
  have r: "an_rep st n = n" by (rule plain_rep [OF assms(1,2)])
  show "an_pts (pushIntoWorklist n st) = an_pts st" "consCG (pushIntoWorklist n st) = consCG st" "an_pag (pushIntoWorklist n st) = an_pag st" "reanalyze (pushIntoWorklist n st) = reanalyze st"
    by (simp_all add: pushIntoWorklist_def)
  show "W_of (pushIntoWorklist n st) = insert n (W_of st)" "fifo_inv (an_worklist (pushIntoWorklist n st))"
    "length (data_list (an_worklist (pushIntoWorklist n st))) \<le> Suc (length (data_list (an_worklist st)))"
    using assms(3) by (auto simp: pushIntoWorklist_def r fifo_push_def fifo_find_def fifo_inv_def)
qed

lemma run_ok_push:
  assumes p: "plain_input G P" and ok: "run_ok G P (insert n X) Y st" and n: "n \<in> cg_nodes G"
  shows "run_ok G P X Y (pushIntoWorklist n st)"
proof -
  note d = run_okD [OF ok]
  note q = push_state [OF p d(3,5), of n]
  show ?thesis using ok n q(5) unfolding run_ok_def q by auto
qed

text \<open>A copy edge is added; if it is new, its source goes to the work list.\<close>

definition edge_and_push :: "an_options \<Rightarrow> NodeID \<Rightarrow> NodeID \<Rightarrow> 's ander \<Rightarrow> 's ander option" where
  "edge_and_push opt s d st = do { (b, st) \<leftarrow> addCopyEdge D opt s d st; Some (if b then pushIntoWorklist s st else st) }"

lemma work_less: "missing G t < missing G s \<Longrightarrow> length (data_list (an_worklist t)) \<le> Suc (length (data_list (an_worklist s))) \<Longrightarrow> work G t \<le> work G s"
  by (simp add: work_def)

lemma edge_and_push_step:
  assumes p: "plain_input G P" and opt: "DiffPts opt" and ok: "run_ok G P X Y st" and n: "s \<in> cg_nodes G" "d \<in> cg_nodes G"
    and sol: "\<And>S. solution G P S \<Longrightarrow> S s \<subseteq> S d"
  shows "\<exists>u. edge_and_push opt s d st = Some u \<and> run_ok G P X Y u \<and> progress G st u \<and> P_of u = P_of st \<and>
    (s = d \<or> GEdge KCopy s d \<in> E_of u)"
proof -
  note o = run_okD [OF ok]
  have r: "an_rep st i = i" for i by (rule plain_rep [OF p o(3)])
  have nn: "s \<in> cg_nodes (consCG st)" "d \<in> cg_nodes (consCG st)" using n o(3) by (simp_all add: cg_frame_def)
  have rr: "cg_sccRepNode (consCG st) i = i" for i using r by (simp add: an_rep_def)
  let ?e = "GEdge KCopy s d"
  obtain b H where H: "addCopyCGEdge s d (consCG st) = Some (b, H)" "added KCopy s d 0 (consCG st) (b, H)"
    using add_kind_spec [OF o(2), of s d KCopy 0] nn rr by (auto simp: add_kind_def)
  show ?thesis
  proof (cases b)
    case False
    then have "H = consCG st" "s = d \<or> ?e \<in> E_of st" using H(2) by (auto simp: added_def)
    then show ?thesis using False H(1) ok by (auto simp: edge_and_push_def addCopyEdge_def progress_refl)
  next
    case True
    have h: "cg_ok H" "cg_frame (consCG st) H" "?e \<notin> E_of st" "cg_edges H = insert ?e (E_of st)" using H(2) True by (auto simp: added_def)
    obtain q where q: "pa_updatePropaPtsMap D (an_pts st) d s = Some q" "inv q" "pts q = P_of st"
        "propa q = (Q_of st)(s := Q_of st s \<inter> Q_of st d)"
      using update_law [OF o(1), of d s] by blast
    let ?t = "st\<lparr>consCG := H, an_pts := q\<rparr>"
    have fr: "cg_frame G H" by (rule cg_frame_trans [OF o(3) h(2)])
    have rH: "an_rep (st\<lparr>consCG := H\<rparr>) i = i" for i using plain_rep [OF p, of "st\<lparr>consCG := H\<rparr>" i] fr by simp
    have run: "addCopyEdge D opt s d st = Some (True, ?t)"
      using H(1) True opt q(1) rH by (simp add: addCopyEdge_def an_updatePropaPts_def)
    have Q: "propa q m \<subseteq> Q_of st m" for m by (simp add: q(4))
    have tok: "run_ok G P (insert s X) Y ?t" unfolding run_ok_def
    proof (intro conjI allI ballI impI)
      show "edgeFlag e = KCopy" if "e \<in> E_of ?t - cg_edges G" for e
      proof (cases "e = ?e")
        case False
        then show ?thesis using that h(4) o(8) [of e] by auto
      qed simp
      show "P_of ?t m \<subseteq> objs_of G" for m using o(9) [of m] q(3) by simp
      show "Q_of ?t m \<subseteq> P_of ?t m" for m using subset_trans [OF Q o(10)] q(3) by simp
      show "Q_of ?t x \<subseteq> P_of ?t y" if e: "GEdge KCopy x y \<in> E_of ?t" "x \<notin> Y" for x y
      proof (cases "GEdge KCopy x y = ?e")
        case True
        then show ?thesis using o(10) [of d] q(3,4) by auto
      next
        case False
        then have "GEdge KCopy x y \<in> E_of st" using e(1) h(4) by auto
        then show ?thesis using subset_trans [OF Q o(11) [OF _ e(2)]] q(3) by simp
      qed
      show "P_of ?t m = Q_of ?t m" if m: "m \<in> cg_nodes G" "m \<notin> W_of ?t \<union> insert s X" for m
        using o(12) [of m] m q(3,4) by auto
      show "handled G P (E_of ?t) m ob" if m: "m \<in> cg_nodes G" "m \<notin> W_of ?t \<union> insert s X" and ob: "ob \<in> P_of ?t m" for m ob
        using handled_mono [OF o(13) [of m ob]] m ob q(3) h(4) by auto
      show "P_of ?t m \<subseteq> S m" if "solution G P S" for S m using o(14) [OF that, of m] q(3) by simp
      show "S x \<subseteq> S y" if S: "solution G P S" and e: "GEdge KCopy x y \<in> E_of ?t" for S x y
        using sol [OF S] o(15) [OF S, of x y] e h(4) by auto
    qed (use q(2) h(1) fr o(4,5,6,7,16) h(4) in auto)
    let ?u = "pushIntoWorklist s ?t"
    have tf: "cg_frame G (consCG ?t)" "fifo_inv (an_worklist ?t)" using fr o(5) by simp_all
    note ps = push_state [OF p tf, of s]
    have pu: "P_of ?u = P_of st" "E_of ?u = insert ?e (E_of st)" using ps(1,2) q(3) h(4) by simp_all
    have "missing G ?u < missing G st"
    proof (rule missing_less)
      show "cg_ok G" using p by (simp add: plain_input_def)
      show "(\<exists>m \<in> cg_nodes G. \<exists>ob \<in> objs_of G. ob \<in> P_of ?u m \<and> ob \<notin> P_of st m) \<or>
        (\<exists>x \<in> cg_nodes G. \<exists>y \<in> cg_nodes G. GEdge KCopy x y \<in> E_of ?u \<and> GEdge KCopy x y \<notin> E_of st)"
        using n h(3) unfolding pu by blast
    qed (simp_all add: pu subset_insertI)
    then have "work G ?u \<le> work G st" by (rule work_less) (use ps(6) in simp)
    then have "progress G st ?u" by (simp add: progress_def pu subset_insertI)
    then show ?thesis using run run_ok_push [OF p tok n(1)] pu by (simp add: edge_and_push_def)
  qed
qed

text \<open>Steps that only add copy edges.\<close>

definition kept :: "cons_graph \<Rightarrow> pag_state \<Rightarrow> NodeID set \<Rightarrow> NodeID set \<Rightarrow> 's ander \<Rightarrow> 's ander \<Rightarrow> bool" where
  "kept G P X Y s t \<longleftrightarrow> E_of s \<subseteq> E_of t \<and>
     (run_ok G P X Y s \<longrightarrow> run_ok G P X Y t \<and> progress G s t \<and> P_of t = P_of s)"

lemma kept_refl: "kept G P X Y s s" by (simp add: kept_def progress_refl)

lemma kept_trans: "kept G P X Y s t \<Longrightarrow> kept G P X Y t u \<Longrightarrow> kept G P X Y s u"
  using progress_trans unfolding kept_def by (metis order_trans)

lemma keptD: "kept G P X Y s t \<Longrightarrow> run_ok G P X Y s \<Longrightarrow> run_ok G P X Y t \<and> progress G s t \<and> P_of t = P_of s"
  by (simp add: kept_def)

lemma keptI: "E_of s \<subseteq> E_of t \<Longrightarrow> run_ok G P X Y t \<Longrightarrow> progress G s t \<Longrightarrow> P_of t = P_of s \<Longrightarrow> kept G P X Y s t"
  by (simp add: kept_def)

definition load_one :: "an_options \<Rightarrow> NodeID \<Rightarrow> gedge \<Rightarrow> 's ander \<Rightarrow> 's ander option" where
  "load_one opt ptd e st = do { (b, st) \<leftarrow> processLoad D opt ptd e st; Some (if b then pushIntoWorklist ptd st else st) }"

definition store_one :: "an_options \<Rightarrow> NodeID \<Rightarrow> gedge \<Rightarrow> 's ander \<Rightarrow> 's ander option" where
  "store_one opt ptd e st = do { (b, st) \<leftarrow> processStore D opt ptd e st; Some (if b then pushIntoWorklist (getSrcID e) st else st) }"

lemma obj_known:
  assumes "plain_input G P" "ob \<in> objs_of G"
  obtains c where "isConstantObj P ob = Some c" "ob \<in> cg_nodes G"
proof -
  have "isConstantObj P ob \<noteq> None" "cg_ok G" using assms unfolding plain_input_def by blast+
  then show thesis using that subsetD [OF objs_nodes assms(2)] by blast
qed

lemma node_known:
  assumes "plain_input G P" "x \<in> cg_nodes G"
  obtains v where "pag_node P x = Some v"
  using assms by (auto simp: plain_input_def)

lemma load_step:
  assumes p: "plain_input G P" and opt: "DiffPts opt" and ok: "run_ok G P X Y st" and ob: "ob \<in> P_of st n"
    and e: "e \<in> cg_edges G" "edgeFlag e = KLoad" "getSrcID e = n"
  shows "\<exists>u. load_one opt ob e st = Some u \<and> kept G P X Y st u \<and>
    (skips P ob (getDstID e) \<or> ob = getDstID e \<or> GEdge KCopy ob (getDstID e) \<in> E_of u)"
proof -
  note o = run_okD [OF ok]
  have G: "cg_ok G" using p by (simp add: plain_input_def)
  have d: "getDstID e \<in> cg_nodes G" using cg_edge_nodes [OF G e(1)] by blast
  obtain c where c: "isConstantObj P ob = Some c" "ob \<in> cg_nodes G" using obj_known [OF p] o(9) ob by blast
  obtain v where v: "pag_node P (getDstID e) = Some v" using node_known [OF p d] .
  show ?thesis
  proof (cases "skips P ob (getDstID e)")
    case True
    then have "load_one opt ob e st = Some st" using c v o(4) by (auto simp: load_one_def processLoad_def skips_def an_isPointer_def)
    then show ?thesis using True kept_refl by blast
  next
    case False
    have ns: "isConstantObj P ob = Some False" "isPointer v" using False c(1) v by (auto simp: skips_def)
    have run: "load_one opt ob e st = edge_and_push opt ob (getDstID e) st"
      using ns v o(4) by (simp add: load_one_def processLoad_def edge_and_push_def an_isPointer_def)
    have "e = GEdge KLoad n (getDstID e)" using e by (cases e) simp
    then have sol: "S ob \<subseteq> S (getDstID e)" if S: "solution G P S" for S
      using S e(1) subsetD [OF o(14) [OF S] ob] False unfolding solution_def by metis
    obtain u where u: "edge_and_push opt ob (getDstID e) st = Some u" "run_ok G P X Y u" "progress G st u" "P_of u = P_of st"
        "ob = getDstID e \<or> GEdge KCopy ob (getDstID e) \<in> E_of u"
      using edge_and_push_step [OF p opt ok c(2) d sol] by blast
    have "E_of st \<subseteq> E_of u" using u(3) by (simp add: progress_def)
    then have "kept G P X Y st u" using u(2-4) by (intro keptI)
    then show ?thesis using u(1,5) run by auto
  qed
qed

lemma store_step:
  assumes p: "plain_input G P" and opt: "DiffPts opt" and ok: "run_ok G P X Y st" and ob: "ob \<in> P_of st n"
    and e: "e \<in> cg_edges G" "edgeFlag e = KStore" "getDstID e = n"
  shows "\<exists>u. store_one opt ob e st = Some u \<and> kept G P X Y st u \<and>
    (skips P ob (getSrcID e) \<or> getSrcID e = ob \<or> GEdge KCopy (getSrcID e) ob \<in> E_of u)"
proof -
  note o = run_okD [OF ok]
  have G: "cg_ok G" using p by (simp add: plain_input_def)
  have d: "getSrcID e \<in> cg_nodes G" using cg_edge_nodes [OF G e(1)] by blast
  obtain c where c: "isConstantObj P ob = Some c" "ob \<in> cg_nodes G" using obj_known [OF p] o(9) ob by blast
  obtain v where v: "pag_node P (getSrcID e) = Some v" using node_known [OF p d] .
  show ?thesis
  proof (cases "skips P ob (getSrcID e)")
    case True
    then have "store_one opt ob e st = Some st" using c v o(4) by (auto simp: store_one_def processStore_def skips_def an_isPointer_def)
    then show ?thesis using True kept_refl by blast
  next
    case False
    have ns: "isConstantObj P ob = Some False" "isPointer v" using False c(1) v by (auto simp: skips_def)
    have run: "store_one opt ob e st = edge_and_push opt (getSrcID e) ob st"
      using ns v o(4) by (simp add: store_one_def processStore_def edge_and_push_def an_isPointer_def)
    have "e = GEdge KStore (getSrcID e) n" using e by (cases e) simp
    then have sol: "S (getSrcID e) \<subseteq> S ob" if S: "solution G P S" for S
      using S e(1) subsetD [OF o(14) [OF S] ob] False unfolding solution_def by metis
    obtain u where u: "edge_and_push opt (getSrcID e) ob st = Some u" "run_ok G P X Y u" "progress G st u" "P_of u = P_of st"
        "getSrcID e = ob \<or> GEdge KCopy (getSrcID e) ob \<in> E_of u"
      using edge_and_push_step [OF p opt ok d c(2) sol] by blast
    have "E_of st \<subseteq> E_of u" using u(3) by (simp add: progress_def)
    then have "kept G P X Y st u" using u(2-4) by (intro keptI)
    then show ?thesis using u(1,5) run by auto
  qed
qed

text \<open>The edges of a node in the current graph.\<close>

lemma node_edges:
  assumes ok: "run_ok G P X Y st" and n: "n \<in> cg_nodes G"
  shows "\<exists>m. getGNode n (cg_base (consCG st)) = Some m \<and>
    set (es_load (cn_out m)) = {e \<in> cg_edges G. edgeFlag e = KLoad \<and> getSrcID e = n} \<and>
    set (es_store (cn_in m)) = {e \<in> cg_edges G. edgeFlag e = KStore \<and> getDstID e = n} \<and>
    set (es_copy (cn_out m)) = {e \<in> E_of st. edgeFlag e = KCopy \<and> getSrcID e = n} \<and>
    set (es_gep (cn_out m)) = {e \<in> E_of st. is_gep e \<and> getSrcID e = n}"
proof -
  note o = run_okD [OF ok]
  have "n \<in> cg_nodes (consCG st)" using n o(3) by (simp add: cg_frame_def)
  then obtain m where m: "cg_map (consCG st) n = Some m" by (auto simp: cg_nodes_def)
  have es: "es_ok {e \<in> E_of st. getDstID e = n} (cn_in m)" "es_ok {e \<in> E_of st. getSrcID e = n} (cn_out m)"
    using o(2) m by (auto simp: cg_ok_def sides_ok_def)
  have kind: "getEdgeKind e = edgeFlag e" if "e \<in> E_of st" for e using cg_edge_kind [OF o(2) that] by blast
  have base: "e \<in> cg_edges G" if "e \<in> E_of st" "edgeFlag e \<noteq> KCopy" for e using o(8) [OF that(1)] that(2) by blast
  have "set (es_load (cn_out m)) = {e \<in> E_of st. edgeFlag e = KLoad \<and> getSrcID e = n}"
    "set (es_store (cn_in m)) = {e \<in> E_of st. edgeFlag e = KStore \<and> getDstID e = n}"
    "set (es_copy (cn_out m)) = {e \<in> E_of st. edgeFlag e = KCopy \<and> getSrcID e = n}"
    "set (es_gep (cn_out m)) = {e \<in> E_of st. is_gep e \<and> getSrcID e = n}"
    using es kind by (auto simp: es_ok_def oset_is_def of_kind_def)
  moreover have "{e \<in> E_of st. edgeFlag e = KLoad \<and> getSrcID e = n} = {e \<in> cg_edges G. edgeFlag e = KLoad \<and> getSrcID e = n}"
    using base o(7) by auto
  moreover have "{e \<in> E_of st. edgeFlag e = KStore \<and> getDstID e = n} = {e \<in> cg_edges G. edgeFlag e = KStore \<and> getDstID e = n}"
    using base o(7) by auto
  ultimately show ?thesis using m by (simp add: getGNode_def)
qed

text \<open>Reading a set changes nothing that matters.\<close>

lemma run_ok_pts:
  assumes ok: "run_ok G P X Y st" and t: "inv t" "pts t = P_of st" "propa t = Q_of st"
  shows "run_ok G P X Y (st\<lparr>an_pts := t\<rparr>)" "kept G P X Y st (st\<lparr>an_pts := t\<rparr>)"
proof -
  show r: "run_ok G P X Y (st\<lparr>an_pts := t\<rparr>)" using ok t by (simp add: run_ok_def)
  have "progress G st (st\<lparr>an_pts := t\<rparr>)" using t by (simp add: progress_def work_def missing_def)
  then show "kept G P X Y st (st\<lparr>an_pts := t\<rparr>)" using r t by (intro keptI) simp_all
qed

definition handle_object :: "an_options \<Rightarrow> NodeID \<Rightarrow> NodeID \<Rightarrow> 's ander \<Rightarrow> 's ander option" where
  "handle_object opt nodeId ptd st = do {
     n \<leftarrow> getGNode nodeId (cg_base (consCG st));
     st \<leftarrow> ofold (load_one opt ptd) (es_load (cn_out n)) st;
     n \<leftarrow> getGNode nodeId (cg_base (consCG st));
     ofold (store_one opt ptd) (es_store (cn_in n)) st
   }"

lemma handle_object_step:
  assumes p: "plain_input G P" and opt: "DiffPts opt" and ok: "run_ok G P X Y st" and n: "n \<in> cg_nodes G" and ob: "ob \<in> P_of st n"
  shows "\<exists>u. handle_object opt n ob st = Some u \<and> kept G P X Y st u \<and> handled G P (E_of u) n ob"
proof -
  let ?L = "\<lambda>e t. skips P ob (getDstID e) \<or> ob = getDstID e \<or> GEdge KCopy ob (getDstID e) \<in> E_of t"
  let ?S = "\<lambda>e t. skips P ob (getSrcID e) \<or> getSrcID e = ob \<or> GEdge KCopy (getSrcID e) ob \<in> E_of t"
  have E: "kept G P X Y s t \<Longrightarrow> E_of s \<subseteq> E_of t" for s t by (simp add: kept_def)
  obtain m where m: "getGNode n (cg_base (consCG st)) = Some m" "set (es_load (cn_out m)) = {e \<in> cg_edges G. edgeFlag e = KLoad \<and> getSrcID e = n}"
    using node_edges [OF ok n] by blast
  have "\<exists>t. ofold (load_one opt ob) (es_load (cn_out m)) st = Some t \<and> kept G P X Y st t \<and> (\<forall>e \<in> set (es_load (cn_out m)). ?L e t)"
  proof (rule ofold_rel [where R = "kept G P X Y" and Q = ?L])
    show "?L e t" if "?L e s" "kept G P X Y s t" for e s t using that(1) subsetD [OF E [OF that(2)]] by blast
    show "\<exists>u. load_one opt ob e t = Some u \<and> kept G P X Y t u \<and> ?L e u" if e: "e \<in> set (es_load (cn_out m))" and k: "kept G P X Y st t" for e t
    proof -
      have t: "run_ok G P X Y t" "P_of t = P_of st" using keptD [OF k ok] by simp_all
      have e': "e \<in> cg_edges G" "edgeFlag e = KLoad" "getSrcID e = n" using e m(2) by simp_all
      have obt: "ob \<in> P_of t n" using ob t(2) by simp
      show ?thesis by (rule load_step [OF p opt t(1) obt e'])
    qed
  qed (blast intro: kept_refl kept_trans)+
  then obtain t where t: "ofold (load_one opt ob) (es_load (cn_out m)) st = Some t" "kept G P X Y st t" "\<forall>e \<in> set (es_load (cn_out m)). ?L e t" by blast
  have ok_t: "run_ok G P X Y t" "P_of t = P_of st" using keptD [OF t(2) ok] by simp_all
  obtain m' where m': "getGNode n (cg_base (consCG t)) = Some m'" "set (es_store (cn_in m')) = {e \<in> cg_edges G. edgeFlag e = KStore \<and> getDstID e = n}"
    using node_edges [OF ok_t(1) n] by blast
  have "\<exists>u. ofold (store_one opt ob) (es_store (cn_in m')) t = Some u \<and> kept G P X Y t u \<and> (\<forall>e \<in> set (es_store (cn_in m')). ?S e u)"
  proof (rule ofold_rel [where R = "kept G P X Y" and Q = ?S])
    show "?S e t" if "?S e s" "kept G P X Y s t" for e s t using that(1) subsetD [OF E [OF that(2)]] by blast
    show "\<exists>u. store_one opt ob e s = Some u \<and> kept G P X Y s u \<and> ?S e u" if e: "e \<in> set (es_store (cn_in m'))" and k: "kept G P X Y t s" for e s
    proof -
      have s: "run_ok G P X Y s" "P_of s = P_of st" using keptD [OF k ok_t(1)] ok_t(2) by simp_all
      have e': "e \<in> cg_edges G" "edgeFlag e = KStore" "getDstID e = n" using e m'(2) by simp_all
      have obs: "ob \<in> P_of s n" using ob s(2) by simp
      show ?thesis by (rule store_step [OF p opt s(1) obs e'])
    qed
  qed (blast intro: kept_refl kept_trans)+
  then obtain u where u: "ofold (store_one opt ob) (es_store (cn_in m')) t = Some u" "kept G P X Y t u" "\<forall>e \<in> set (es_store (cn_in m')). ?S e u" by blast
  have "handled G P (E_of u) n ob" unfolding handled_def
  proof (intro conjI allI impI)
    fix d assume e: "GEdge KLoad n d \<in> cg_edges G" "\<not> skips P ob d"
    then have "?L (GEdge KLoad n d) t" using t(3) m(2) by fastforce
    then show "ob = d \<or> GEdge KCopy ob d \<in> E_of u" using e(2) subsetD [OF E [OF u(2)]] by auto
  next
    fix x assume e: "GEdge KStore x n \<in> cg_edges G" "\<not> skips P ob x"
    then have "?S (GEdge KStore x n) u" using u(3) m'(2) by fastforce
    then show "x = ob \<or> GEdge KCopy x ob \<in> E_of u" using e(2) by auto
  qed
  moreover have "handle_object opt n ob st = Some u" using m(1) t(1) m'(1) u(1) by (simp add: handle_object_def)
  ultimately show ?thesis using kept_trans [OF t(2) u(2)] by blast
qed

lemma handleLoadStore_step:
  assumes p: "plain_input G P" and opt: "DiffPts opt" and ok: "run_ok G P X Y st" and n: "n \<in> cg_nodes G"
  shows "\<exists>u. handleLoadStore D opt n st = Some u \<and> kept G P X Y st u \<and> (\<forall>ob \<in> P_of st n. handled G P (E_of u) n ob)"
proof -
  note o = run_okD [OF ok]
  have r: "an_rep st i = i" for i by (rule plain_rep [OF p o(3)])
  obtain d t where d: "pa_getPts D (an_pts st) n = Some (d, t)" "good d" "els d = P_of st n" "inv t" "pts t = P_of st" "propa t = Q_of st"
    using get_law [OF o(1), of n] by blast
  let ?st = "st\<lparr>an_pts := t\<rparr>"
  have ok1: "run_ok G P X Y ?st" and k1: "kept G P X Y st ?st" using run_ok_pts [OF ok d(4-6)] by blast+
  obtain ns where ns: "s_list (pa_sets D) d = Some ns" "set ns = P_of st n" using list_law [OF d(2)] d(3) by auto
  have "\<exists>u. ofold (handle_object opt n) ns ?st = Some u \<and> kept G P X Y ?st u \<and> (\<forall>ob \<in> set ns. handled G P (E_of u) n ob)"
  proof (rule ofold_rel [where R = "kept G P X Y" and Q = "\<lambda>ob t. handled G P (E_of t) n ob"])
    show "handled G P (E_of b) n ob" if "handled G P (E_of a) n ob" "kept G P X Y a b" for ob a b
      using handled_mono [OF that(1)] that(2) by (simp add: kept_def)
    show "\<exists>v. handle_object opt n ob u = Some v \<and> kept G P X Y u v \<and> handled G P (E_of v) n ob"
      if ob: "ob \<in> set ns" and k: "kept G P X Y ?st u" for ob u
    proof -
      have u: "run_ok G P X Y u" "P_of u = P_of st" using keptD [OF k ok1] d(5) by simp_all
      show ?thesis by (rule handle_object_step [OF p opt u(1) n]) (use ob ns(2) u(2) in simp)
    qed
  qed (blast intro: kept_refl kept_trans)+
  then obtain u where u: "ofold (handle_object opt n) ns ?st = Some u" "kept G P X Y ?st u" "\<forall>ob \<in> set ns. handled G P (E_of u) n ob" by blast
  have "handleLoadStore D opt n st = ofold (handle_object opt n) ns ?st"
    unfolding handleLoadStore_def load_one_def [symmetric] store_one_def [symmetric] handle_object_def [symmetric]
    using d(1) ns(1) r by (simp add: an_getPts_def on_pts_def)
  then show ?thesis using u ns(2) kept_trans [OF k1 u(2)] by auto
qed

text \<open>A set grows; if it really does, its node goes to the work list.\<close>

lemma grow_step:
  assumes p: "plain_input G P" and ok: "run_ok G P X Y st" and d: "d \<in> cg_nodes G"
    and q: "inv q" "pts q = (P_of st)(d := P_of st d \<union> A)" "propa q = Q_of st" and A: "A \<subseteq> objs_of G"
    and sol: "\<forall>S. solution G P S \<longrightarrow> A \<subseteq> S d"
  shows "\<exists>u. u = (if \<not> A \<subseteq> P_of st d then pushIntoWorklist d (st\<lparr>an_pts := q\<rparr>) else st\<lparr>an_pts := q\<rparr>) \<and>
    run_ok G P X Y u \<and> progress G st u \<and> an_pts u = q \<and> consCG u = consCG st"
proof (cases "A \<subseteq> P_of st d")
  case True
  then have "(P_of st)(d := P_of st d \<union> A) = P_of st" by (simp add: fun_eq_iff Un_absorb2)
  then have "pts q = P_of st" using q(2) by simp
  then show ?thesis using True run_ok_pts [OF ok q(1) _ q(3)] ok by (auto simp: kept_def)
next
  case False
  note o = run_okD [OF ok]
  let ?t = "st\<lparr>an_pts := q\<rparr>" and ?u = "pushIntoWorklist d (st\<lparr>an_pts := q\<rparr>)"
  have mono: "P_of st m \<subseteq> P_of ?t m" for m using q(2) by simp
  have other: "P_of ?t m = P_of st m" if "m \<noteq> d" for m using q(2) that by simp
  have tok: "run_ok G P (insert d X) Y ?t" unfolding run_ok_def
  proof (intro conjI allI ballI impI)
    show "edgeFlag e = KCopy" if "e \<in> E_of ?t - cg_edges G" for e using that o(8) [of e] by simp
    show "P_of ?t m \<subseteq> objs_of G" for m using o(9) [of m] A q(2) by auto
    show "Q_of ?t m \<subseteq> P_of ?t m" for m using subset_trans [OF o(10) mono] q(3) by simp
    show "Q_of ?t x \<subseteq> P_of ?t y" if "GEdge KCopy x y \<in> E_of ?t" "x \<notin> Y" for x y
      using subset_trans [OF o(11) mono] that q(3) by simp
    show "P_of ?t m = Q_of ?t m" if m: "m \<in> cg_nodes G" "m \<notin> W_of ?t \<union> insert d X" for m
      using o(12) [of m] m q(3) other [of m] by simp
    show "handled G P (E_of ?t) m ob" if m: "m \<in> cg_nodes G" "m \<notin> W_of ?t \<union> insert d X" and ob: "ob \<in> P_of ?t m" for m ob
      using o(13) [of m ob] m ob other [of m] by simp
    show "P_of ?t m \<subseteq> S m" if "solution G P S" for S m using o(14) [OF that, of m] sol [rule_format, OF that] q(2) by auto
    show "S x \<subseteq> S y" if S: "solution G P S" and e: "GEdge KCopy x y \<in> E_of ?t" for S x y
      using o(15) [OF S] e by simp
  qed (use q(1) o(2-7,16) in simp_all)
  have tf: "cg_frame G (consCG ?t)" "fifo_inv (an_worklist ?t)" using o(3,5) by simp_all
  note ps = push_state [OF p tf, of d]
  have "missing G ?u < missing G st"
  proof (rule missing_less)
    show "cg_ok G" using p by (simp add: plain_input_def)
    show "P_of st m \<subseteq> P_of ?u m" for m using mono ps(1) by simp
    obtain ob where "ob \<in> A" "ob \<notin> P_of st d" using False by blast
    moreover have "A \<subseteq> P_of ?u d" using q(2) ps(1) by simp
    ultimately show "(\<exists>m \<in> cg_nodes G. \<exists>ob \<in> objs_of G. ob \<in> P_of ?u m \<and> ob \<notin> P_of st m) \<or>
        (\<exists>x \<in> cg_nodes G. \<exists>y \<in> cg_nodes G. GEdge KCopy x y \<in> E_of ?u \<and> GEdge KCopy x y \<notin> E_of st)"
      using A d by blast
  qed (simp add: ps(2))
  then have "work G ?u \<le> work G st" by (rule work_less) (use ps(6) in simp)
  then have "progress G st ?u" using mono ps(1,2) by (simp add: progress_def)
  then show ?thesis using False run_ok_push [OF p tok d] ps(1,2) by simp
qed

text \<open>Propagation of a difference along the copy edges of a node.\<close>

definition spread :: "cons_graph \<Rightarrow> pag_state \<Rightarrow> NodeID \<Rightarrow> NodeID set \<Rightarrow> 's ander \<Rightarrow> 's ander \<Rightarrow> bool" where
  "spread G P n A s t \<longleftrightarrow> (\<forall>m. P_of s m \<subseteq> P_of t m) \<and>
     (run_ok G P {n} {n} s \<and> diff (an_pts s) n = A \<and> A \<subseteq> P_of s n \<longrightarrow>
      run_ok G P {n} {n} t \<and> diff (an_pts t) n = A \<and> A \<subseteq> P_of t n \<and>
      progress G s t \<and> consCG t = consCG s \<and> P_of t n = P_of s n \<and> Q_of t = Q_of s)"

lemma spread_refl: "spread G P n A s s" by (simp add: spread_def progress_refl)

lemma spread_trans:
  assumes "spread G P n A s t" "spread G P n A t u"
  shows "spread G P n A s u"
  unfolding spread_def
proof (intro conjI allI impI)
  show "P_of s m \<subseteq> P_of u m" for m using assms unfolding spread_def by blast
  assume a: "run_ok G P {n} {n} s \<and> diff (an_pts s) n = A \<and> A \<subseteq> P_of s n"
  note 1 = conjunct2 [OF assms(1) [unfolded spread_def], rule_format, OF a]
  note 2 = conjunct2 [OF assms(2) [unfolded spread_def], rule_format, of]
  have t: "run_ok G P {n} {n} t \<and> diff (an_pts t) n = A \<and> A \<subseteq> P_of t n" using 1 by blast
  note 3 = 2 [OF t]
  show "run_ok G P {n} {n} u" "diff (an_pts u) n = A" "A \<subseteq> P_of u n" using 3 by blast+
  show "progress G s u" using 1 3 progress_trans by blast
  show "consCG u = consCG s" "P_of u n = P_of s n" "Q_of u = Q_of s" using 1 3 by simp_all
qed

lemma processCopy_step:
  assumes p: "plain_input G P" and opt: "DiffPts opt" and ok: "run_ok G P {n} {n} st"
    and A: "diff (an_pts st) n = A" "A \<subseteq> P_of st n" and e: "e \<in> E_of st" "edgeFlag e = KCopy" "getSrcID e = n"
  shows "\<exists>u. map_option snd (processCopy D opt n e st) = Some u \<and> spread G P n A st u \<and> A \<subseteq> P_of u (getDstID e)"
proof -
  note o = run_okD [OF ok]
  let ?d = "getDstID e"
  have r: "an_rep (st\<lparr>an_pts := x\<rparr>) i = i" for x i using plain_rep [OF p, of "st\<lparr>an_pts := x\<rparr>"] o(3) by simp
  have r0: "an_rep st i = i" for i using plain_rep [OF p o(3)] .
  have k: "getEdgeKind e = KCopy" using cg_edge_kind [OF o(2) e(1)] e(2) by simp
  have ee: "e = GEdge KCopy n ?d" using e by (cases e) simp
  have dn: "?d \<noteq> n" "?d \<in> cg_nodes (consCG st)" using o(2) e by (auto simp: cg_ok_def edges_ok_def)
  have d: "?d \<in> cg_nodes G" using dn(2) o(3) by (simp add: cg_frame_def)
  obtain x t where x: "pa_getDiffPts D (an_pts st) n = Some (x, t)" "good x" "els x = A" "inv t" "pts t = P_of st"
      "diff t = diff (an_pts st)" "propa t = Q_of st"
    using get_diff_law [OF o(1), of n] A(1) by blast
  obtain q where q: "pa_unionSet D t ?d x = Some (\<not> els x \<subseteq> pts t ?d, q)" "inv q" "pts q = (pts t)(?d := pts t ?d \<union> els x)"
      "diff q = diff t" "propa q = propa t"
    using union_set_law [OF x(4,2), of ?d] by blast
  have qp: "pts q = (P_of st)(?d := P_of st ?d \<union> A)" "propa q = Q_of st" using q x by simp_all
  have Ao: "A \<subseteq> objs_of G" using subset_trans [OF A(2) o(9)] .
  have "A \<subseteq> S ?d" if S: "solution G P S" for S
    using subset_trans [OF A(2) subset_trans [OF o(14) [OF S] o(15) [OF S]]] e(1) ee by simp
  then have sol: "\<forall>S. solution G P S \<longrightarrow> A \<subseteq> S ?d" by blast
  obtain u where u: "u = (if \<not> A \<subseteq> P_of st ?d then pushIntoWorklist ?d (st\<lparr>an_pts := q\<rparr>) else st\<lparr>an_pts := q\<rparr>)"
      "run_ok G P {n} {n} u" "progress G st u" "an_pts u = q" "consCG u = consCG st"
    using grow_step [where d = ?d and A = A, OF p ok d q(2) qp Ao sol] by blast
  have run: "map_option snd (processCopy D opt n e st) = Some u"
    using k x q(1) opt u(1) by (simp add: processCopy_def an_getDiffPts_def an_unionSet_def on_pts_def r r0)
  have "spread G P n A st u"
    unfolding spread_def using u(2-5) qp q(4) x(6) A dn(1) by (simp add: progress_def)
  moreover have "A \<subseteq> P_of u ?d" using u(4) qp(1) by simp
  ultimately show ?thesis using run by blast
qed

text \<open>After its difference went along all its edges, a node whose loads and stores are handled is done.\<close>

lemma run_ok_spread:
  assumes ok: "run_ok G P {n} {n} st" and q: "Q_of st n = P_of st n" and h: "\<forall>ob \<in> P_of st n. handled G P (E_of st) n ob"
    and e: "\<And>d. GEdge KCopy n d \<in> E_of st \<Longrightarrow> P_of st n \<subseteq> P_of st d"
  shows "run_ok G P {} {} st"
proof -
  note o = run_okD [OF ok]
  show ?thesis unfolding run_ok_def
  proof (intro conjI allI ballI impI)
    show "edgeFlag e = KCopy" if "e \<in> E_of st - cg_edges G" for e using that o(8) [of e] by simp
    show "Q_of st x \<subseteq> P_of st y" if "GEdge KCopy x y \<in> E_of st" for x y
      using o(11) [OF that] e [of y] that q by (cases "x = n") simp_all
    show "P_of st m = Q_of st m" if "m \<in> cg_nodes G" "m \<notin> W_of st \<union> {}" for m
      using o(12) [of m] that q by (cases "m = n") simp_all
    show "handled G P (E_of st) m ob" if "m \<in> cg_nodes G" "m \<notin> W_of st \<union> {}" "ob \<in> P_of st m" for m ob
      using o(13) [of m ob] that h by (cases "m = n") simp_all
    show "S x \<subseteq> S y" if "solution G P S" "GEdge KCopy x y \<in> E_of st" for S x y using o(15) [OF that] .
  qed (use o(1-7,9,10,14,16) in simp_all)
qed

lemma handleCopyGep_step:
  assumes p: "plain_input G P" and opt: "DiffPts opt" and ok: "run_ok G P {n} {} st" and n: "n \<in> cg_nodes G"
    and h: "\<forall>ob \<in> P_of st n. handled G P (E_of st) n ob"
  shows "\<exists>u. handleCopyGep D opt n st = Some u \<and> run_ok G P {} {} u \<and> progress G st u"
proof -
  note o = run_okD [OF ok]
  have r: "an_rep (st\<lparr>an_pts := x\<rparr>) i = i" for x i using plain_rep [OF p, of "st\<lparr>an_pts := x\<rparr>"] o(3) by simp
  have r0: "an_rep st i = i" for i using plain_rep [OF p o(3)] .
  obtain a t1 where a: "pa_getPts D (an_pts st) n = Some (a, t1)" "good a" "els a = P_of st n" "inv t1" "pts t1 = P_of st" "propa t1 = Q_of st"
    using get_law [OF o(1), of n] by blast
  obtain b t2 where b: "pa_computeDiffPts D t1 n a = Some (b, t2)" "inv t2" "pts t2 = P_of st"
      "diff t2 = (diff t1)(n := P_of st n - Q_of st n)" "propa t2 = (Q_of st)(n := P_of st n)"
    using compute_law [OF a(4,2), of n] a(3,5,6) by metis
  obtain x t where x: "pa_getDiffPts D t2 n = Some (x, t)" "good x" "els x = diff t2 n" "inv t" "pts t = pts t2" "diff t = diff t2" "propa t = propa t2"
    using get_diff_law [OF b(2), of n] by blast
  let ?A = "P_of st n - Q_of st n" and ?st = "st\<lparr>an_pts := t\<rparr>"
  have st: "P_of ?st = P_of st" "Q_of ?st = (Q_of st)(n := P_of st n)" "diff (an_pts ?st) n = ?A" using x b by simp_all
  have emp: "s_empty (pa_sets D) x \<longleftrightarrow> ?A = {}" using empty_law [OF x(2)] x(3) b(4) by simp
  have ok1: "run_ok G P {n} {n} ?st" unfolding run_ok_def
  proof (intro conjI allI ballI impI)
    show "edgeFlag e = KCopy" if "e \<in> E_of ?st - cg_edges G" for e using that o(8) [of e] by simp
    show "P_of ?st m \<subseteq> objs_of G" for m using o(9) st(1) by simp
    show "Q_of ?st m \<subseteq> P_of ?st m" for m using o(10) [of m] unfolding st by simp
    show "Q_of ?st y \<subseteq> P_of ?st z" if "GEdge KCopy y z \<in> E_of ?st" "y \<notin> {n}" for y z
      using o(11) [of y z] that unfolding st by simp
    show "P_of ?st m = Q_of ?st m" if "m \<in> cg_nodes G" "m \<notin> W_of ?st \<union> {n}" for m
      using o(12) [of m] that unfolding st by simp
    show "handled G P (E_of ?st) m ob" if "m \<in> cg_nodes G" "m \<notin> W_of ?st \<union> {n}" "ob \<in> P_of ?st m" for m ob
      using o(13) [of m ob] that unfolding st by simp
    show "P_of ?st m \<subseteq> S m" if "solution G P S" for S m using o(14) [OF that] unfolding st .
    show "S y \<subseteq> S z" if "solution G P S" "GEdge KCopy y z \<in> E_of ?st" for S y z using o(15) that by simp
  qed (use x(4) o(2-7,16) in simp_all)
  have pr1: "progress G st ?st" using st(1) by (simp add: progress_def work_def missing_def)
  have h1: "\<forall>ob \<in> P_of ?st n. handled G P (E_of ?st) n ob" using h st(1) by simp
  have old: "Q_of st n \<subseteq> P_of st d" if "GEdge KCopy n d \<in> E_of st" for d using o(11) [OF that] by simp
  have start: "handleCopyGep D opt n st = (if s_empty (pa_sets D) x then Some ?st else do {
       m \<leftarrow> getGNode n (cg_base (consCG ?st));
       st \<leftarrow> ofold (\<lambda>e st. map_option snd (processCopy D opt n e st)) (es_copy (cn_out m)) ?st;
       m \<leftarrow> getGNode n (cg_base (consCG st));
       ofold (\<lambda>e st. if is_gep e then map_option snd (processGep D opt n e st) else Some st) (es_gep (cn_out m)) st
     })"
    using a(1) b(1) x(1) opt by (simp add: handleCopyGep_def an_computeDiffPts_def an_getDiffPts_def on_pts_def r r0)
  show ?thesis
  proof (cases "?A = {}")
    case True
    then have eq: "P_of st n = Q_of st n" using o(10) [of n] by blast
    have "run_ok G P {} {} ?st"
      by (rule run_ok_spread [OF ok1 _ h1]) (use eq old st in simp_all)
    then show ?thesis using start emp True pr1 by simp
  next
    case False
    obtain m where m: "getGNode n (cg_base (consCG ?st)) = Some m" "set (es_copy (cn_out m)) = {e \<in> E_of ?st. edgeFlag e = KCopy \<and> getSrcID e = n}"
      using node_edges [OF ok1 n] by blast
    have A1: "?A \<subseteq> P_of ?st n" using st(1) by auto
    let ?f = "\<lambda>e st. map_option snd (processCopy D opt n e st)"
    have "\<exists>u. ofold ?f (es_copy (cn_out m)) ?st = Some u \<and> spread G P n ?A ?st u \<and>
        (\<forall>e \<in> set (es_copy (cn_out m)). ?A \<subseteq> P_of u (getDstID e))"
    proof (rule ofold_rel [where R = "spread G P n ?A" and Q = "\<lambda>e u. ?A \<subseteq> P_of u (getDstID e)"])
      show "?A \<subseteq> P_of t' (getDstID e)" if "?A \<subseteq> P_of s' (getDstID e)" "spread G P n ?A s' t'" for e s' t'
        using subset_trans [OF that(1)] that(2) unfolding spread_def by blast
      show "\<exists>v. ?f e u = Some v \<and> spread G P n ?A u v \<and> ?A \<subseteq> P_of v (getDstID e)"
        if e: "e \<in> set (es_copy (cn_out m))" and k: "spread G P n ?A ?st u" for e u
      proof -
        have u: "run_ok G P {n} {n} u" "diff (an_pts u) n = ?A" "?A \<subseteq> P_of u n" "consCG u = consCG ?st"
          using conjunct2 [OF k [unfolded spread_def], rule_format] ok1 st(3) A1 by blast+
        have e': "e \<in> E_of u" "edgeFlag e = KCopy" "getSrcID e = n" using e m(2) u(4) by simp_all
        show ?thesis by (rule processCopy_step [OF p opt u(1-3) e'])
      qed
    qed (blast intro: spread_refl spread_trans)+
    then obtain u where u: "ofold ?f (es_copy (cn_out m)) ?st = Some u" "spread G P n ?A ?st u"
        "\<forall>e \<in> set (es_copy (cn_out m)). ?A \<subseteq> P_of u (getDstID e)" by blast
    have mono: "P_of ?st k \<subseteq> P_of u k" for k using u(2) unfolding spread_def by blast
    have v: "run_ok G P {n} {n} u" "progress G ?st u" "consCG u = consCG ?st" "P_of u n = P_of ?st n" "Q_of u = Q_of ?st"
      using conjunct2 [OF u(2) [unfolded spread_def], rule_format] ok1 st(3) A1 by blast+
    have "run_ok G P {} {} u"
    proof (rule run_ok_spread [OF v(1)])
      show "Q_of u n = P_of u n" unfolding v(4,5) st by simp
      show "\<forall>ob \<in> P_of u n. handled G P (E_of u) n ob" using h1 unfolding v(3,4) .
      fix d assume d: "GEdge KCopy n d \<in> E_of u"
      then have "GEdge KCopy n d \<in> set (es_copy (cn_out m))" using m(2) v(3) by simp
      then have "?A \<subseteq> P_of u d" using bspec [OF u(3)] by fastforce
      moreover have "Q_of st n \<subseteq> P_of u d" using old [of d] mono [of d] d v(3) st(1) by auto
      ultimately show "P_of u n \<subseteq> P_of u d" unfolding v(4) st by blast
    qed
    moreover obtain m' where m': "getGNode n (cg_base (consCG u)) = Some m'" "set (es_gep (cn_out m')) = {e \<in> E_of u. is_gep e \<and> getSrcID e = n}"
      using node_edges [OF v(1) n] by blast
    have "\<not> is_gep e" if "e \<in> E_of u" for e
    proof (cases "e \<in> cg_edges G")
      case True
      then show ?thesis using p by (simp add: plain_input_def)
    next
      case False
      then have "edgeFlag e = KCopy" using run_okD(8) [OF v(1) that] by blast
      then show ?thesis by (simp add: is_gep_def getEdgeKind_def)
    qed
    then have "set (es_gep (cn_out m')) = {}" unfolding m'(2) by blast
    then have "es_gep (cn_out m') = []" by simp
    then have "handleCopyGep D opt n st = Some u" using start emp False m(1) u(1) m'(1) by simp
    ultimately show ?thesis using progress_trans [OF pr1 v(2)] by blast
  qed
qed

lemma an_processNode_step:
  assumes p: "plain_input G P" and opt: "DiffPts opt" and ok: "run_ok G P {n} {} st" and n: "n \<in> cg_nodes G"
  shows "\<exists>u. an_processNode D opt n st = Some u \<and> run_ok G P {} {} u \<and> progress G st u"
proof -
  note o = run_okD [OF ok]
  have r: "an_rep st n = n" by (rule plain_rep [OF p o(3)])
  have "n \<in> cg_nodes (consCG st)" using n o(3) by (simp add: cg_frame_def)
  moreover have "reps_ok (consCG st)" using o(2) by (simp add: cg_ok_def)
  ultimately obtain m where m: "getConstraintNode (consCG st) n = Some (n, m)" using getConstraintNode_node by blast
  obtain t where t: "handleLoadStore D opt n st = Some t" "kept G P {n} {} st t" "\<forall>ob \<in> P_of st n. handled G P (E_of t) n ob"
    using handleLoadStore_step [OF p opt ok n] by blast
  have k: "run_ok G P {n} {} t" "progress G st t" "P_of t = P_of st" using keptD [OF t(2) ok] by simp_all
  obtain u where "handleCopyGep D opt n t = Some u" "run_ok G P {} {} u" "progress G t u"
    using handleCopyGep_step [OF p opt k(1) n] t(3) k(3) by auto
  then show ?thesis using r m t(1) progress_trans [OF k(2)] by (auto simp: an_processNode_def)
qed

section \<open>The whole run\<close>

lemma collapseFields_none:
  assumes "plain_input G P" "cg_frame G (consCG st)"
  shows "collapseFields D opt st = Some st"
  using assms by (subst collapseFields.simps) (simp add: plain_input_def cg_frame_def hasNodesToBeCollapsed_def)

lemma pop_step:
  assumes p: "plain_input G P" and ok: "run_ok G P {} {} st" and ne: "\<not> isWorklistEmpty st"
  shows "\<exists>n t. popFromWorklist st = Some (n, t) \<and> n \<in> cg_nodes G \<and> run_ok G P {n} {} t \<and> work G t < work G st \<and> P_of t = P_of st"
proof -
  note o = run_okD [OF ok]
  obtain n ws where l: "data_list (an_worklist st) = n # ws"
    using ne by (cases "data_list (an_worklist st)") (auto simp: isWorklistEmpty_def fifo_empty_def)
  obtain w where w: "fifo_pop (an_worklist st) = Some (n, w)" "data_list w = ws" "fifo_inv w"
    using fifo_pop_order [OF o(5)] o(5) l that [of "\<lparr>fifo.data_set = set ws, data_list = ws\<rparr>"] by (auto simp: fifo_inv_def)
  let ?t = "st\<lparr>an_worklist := w\<rparr>"
  have run: "popFromWorklist st = Some (n, ?t)" using w(1) plain_rep [OF p o(3)] by (simp add: popFromWorklist_def)
  have n: "n \<in> cg_nodes G" using o(6) l by simp
  have W: "W_of st = insert n (W_of ?t)" using l w(2) by simp
  have tok: "run_ok G P {n} {} ?t" unfolding run_ok_def
  proof (intro conjI allI ballI impI)
    show "W_of ?t \<subseteq> cg_nodes G" using o(6) W by simp
    show "edgeFlag e = KCopy" if "e \<in> E_of ?t - cg_edges G" for e using that o(8) [of e] by simp
    show "P_of ?t m \<subseteq> objs_of G" for m using o(9) by simp
    show "Q_of ?t m \<subseteq> P_of ?t m" for m using o(10) by simp
    show "Q_of ?t x \<subseteq> P_of ?t y" if "GEdge KCopy x y \<in> E_of ?t" for x y using o(11) that by simp
    show "P_of ?t m = Q_of ?t m" if "m \<in> cg_nodes G" "m \<notin> W_of ?t \<union> {n}" for m
      using o(12) [of m] that W by simp
    show "handled G P (E_of ?t) m ob" if "m \<in> cg_nodes G" "m \<notin> W_of ?t \<union> {n}" "ob \<in> P_of ?t m" for m ob
      using o(13) [of m ob] that W by simp
    show "P_of ?t m \<subseteq> S m" if "solution G P S" for S m using o(14) that by simp
    show "S x \<subseteq> S y" if "solution G P S" "GEdge KCopy x y \<in> E_of ?t" for S x y using o(15) that by simp
  qed (use w(3) o(1-4,7,16) in simp_all)
  have "work G ?t < work G st" using l w(2) by (simp add: work_def missing_def)
  then show ?thesis using run n tok by simp
qed

lemma solveWorklist_spec:
  assumes p: "plain_input G P" and opt: "DiffPts opt" and ok: "run_ok G P {} {} st"
  shows "\<exists>u. solveWorklist D opt st = Some u \<and> run_ok G P {} {} u \<and> W_of u = {} \<and> (\<forall>n. P_of st n \<subseteq> P_of u n)"
  using ok
proof (induction "work G st" arbitrary: st rule: less_induct)
  case less
  show ?case
  proof (cases "isWorklistEmpty st")
    case True
    then show ?thesis using less.prems by (subst solveWorklist.simps) (simp add: isWorklistEmpty_def fifo_empty_def)
  next
    case False
    obtain n t where t: "popFromWorklist st = Some (n, t)" "n \<in> cg_nodes G" "run_ok G P {n} {} t" "work G t < work G st" "P_of t = P_of st"
      using pop_step [OF p less.prems False] by blast
    obtain u where u: "an_processNode D opt n t = Some u" "run_ok G P {} {} u" "progress G t u"
      using an_processNode_step [OF p opt t(3,2)] by blast
    have c: "collapseFields D opt u = Some u" by (rule collapseFields_none [OF p run_okD(3) [OF u(2)]])
    have "work G u < work G st" using u(3) t(4) by (simp add: progress_def)
    then obtain v where v: "solveWorklist D opt u = Some v" "run_ok G P {} {} v" "W_of v = {}" "\<forall>n. P_of u n \<subseteq> P_of v n"
      using less.hyps u(2) by blast
    have "solveWorklist D opt st = Some v" using False t(1) u(1) c v(1) by (subst solveWorklist.simps) simp
    moreover have "P_of st k \<subseteq> P_of v k" for k using u(3) v(4) t(5) unfolding progress_def by (metis subset_trans)
    ultimately show ?thesis using v(2,3) by blast
  qed
qed

definition addr_kept :: "cons_graph \<Rightarrow> pag_state \<Rightarrow> 's ander \<Rightarrow> 's ander \<Rightarrow> bool" where
  "addr_kept G P s t \<longleftrightarrow> (\<forall>n. P_of s n \<subseteq> P_of t n) \<and> consCG t = consCG s \<and> (run_ok G P {} {} s \<longrightarrow> run_ok G P {} {} t)"

lemma processAddr_step:
  assumes p: "plain_input G P" and val: "\<forall>ob \<in> objs_of G. valid ob" and ok: "run_ok G P {} {} st"
    and e: "e \<in> cg_edges G" "edgeFlag e = KAddr"
  shows "\<exists>u. processAddr D e st = Some u \<and> addr_kept G P st u \<and> getSrcID e \<in> P_of u (getDstID e)"
proof -
  note o = run_okD [OF ok]
  let ?s = "getSrcID e" and ?d = "getDstID e"
  have ee: "e = GEdge KAddr ?s ?d" using e(2) by (cases e) simp
  then have a: "GEdge KAddr ?s ?d \<in> cg_edges G" using e(1) by simp
  then have s: "?s \<in> objs_of G" by (auto simp: objs_of_def)
  have G: "cg_ok G" using p by (simp add: plain_input_def)
  have d: "?d \<in> cg_nodes G" using cg_edge_nodes [OF G e(1)] by blast
  have vs: "valid ?s" using val s by blast
  obtain q where q: "o_addPts (pa_ops D) (an_pts st) ?d ?s = Some (?s \<notin> P_of st ?d, q)" "inv q"
      "pts q = (P_of st)(?d := insert ?s (P_of st ?d))" "propa q = Q_of st"
    using add_law [OF o(1) vs, of ?d] by blast
  have qp: "pts q = (P_of st)(?d := P_of st ?d \<union> {?s})" using q(3) by simp
  have sol: "\<forall>S. solution G P S \<longrightarrow> {?s} \<subseteq> S ?d" using a by (simp add: solution_def)
  obtain u where u: "u = (if \<not> {?s} \<subseteq> P_of st ?d then pushIntoWorklist ?d (st\<lparr>an_pts := q\<rparr>) else st\<lparr>an_pts := q\<rparr>)"
      "run_ok G P {} {} u" "progress G st u" "an_pts u = q" "consCG u = consCG st"
    using grow_step [where d = ?d and A = "{?s}", OF p ok d q(2) qp q(4) _ sol] s by blast
  have "processAddr D e st = Some u" using q(1) u(1) by (simp add: processAddr_def an_addPts_def on_pts_def)
  moreover have "?s \<in> P_of u ?d" using u(4) q(3) by simp
  moreover have "addr_kept G P st u" using u(2,3,5) by (simp add: addr_kept_def progress_def)
  ultimately show ?thesis by blast
qed

lemma addr_kept_refl: "addr_kept G P s s" by (simp add: addr_kept_def)

lemma addr_kept_trans: "addr_kept G P s t \<Longrightarrow> addr_kept G P t u \<Longrightarrow> addr_kept G P s u"
  unfolding addr_kept_def by (metis subset_trans)

lemma processAllAddr_spec:
  assumes p: "plain_input G P" and val: "\<forall>ob \<in> objs_of G. valid ob" and ok: "run_ok G P {} {} st" and g: "consCG st = G"
  shows "\<exists>u. processAllAddr D st = Some u \<and> run_ok G P {} {} u \<and> (\<forall>ob d. GEdge KAddr ob d \<in> cg_edges G \<longrightarrow> ob \<in> P_of u d)"
proof -
  have G: "cg_ok G" using p by (simp add: plain_input_def)
  let ?Q = "\<lambda>e t. getSrcID e \<in> P_of t (getDstID e)"
  let ?in = "\<lambda>(x :: NodeID \<times> cons_node). es_addr (cn_in (snd x))"
  let ?f = "\<lambda>(_, n) st. ofold (processAddr D) (es_addr (cn_in n)) st"
  have om: "omap (IDToNodeMap (cg_base G))" and es: "cg_map G i = Some n \<Longrightarrow> es_ok {e \<in> cg_edges G. getDstID e = i} (cn_in n)" for i n
    using G by (auto simp: cg_ok_def sides_ok_def)
  have addrs: "set (es_addr (cn_in n)) = {e \<in> cg_edges G. getDstID e = i \<and> edgeFlag e = KAddr}" if "cg_map G i = Some n" for i n
    using es [OF that] cg_edge_kind [OF G] by (auto simp: es_ok_def oset_is_def of_kind_def)
  have keep: "?Q e t" if "?Q e s" "addr_kept G P s t" for e s t
  proof -
    have "P_of s (getDstID e) \<subseteq> P_of t (getDstID e)" using that(2) unfolding addr_kept_def by blast
    then show ?thesis using that(1) by blast
  qed
  have inner: "\<exists>u. ?f x t = Some u \<and> addr_kept G P t u \<and> (\<forall>e \<in> set (?in x). ?Q e u)"
    if x: "x \<in> set (IDToNodeMap (cg_base G))" and k: "addr_kept G P st t" for x t
  proof -
    obtain i n where xx: "x = (i, n)" by (cases x)
    then have "cg_map G i = Some n" using x omap_distinct [OF om] by simp
    note ad = addrs [OF this]
    have "\<exists>u. ofold (processAddr D) (es_addr (cn_in n)) t = Some u \<and> addr_kept G P t u \<and> (\<forall>e \<in> set (es_addr (cn_in n)). ?Q e u)"
    proof (rule ofold_rel [where R = "addr_kept G P" and Q = ?Q])
      show "\<exists>v. processAddr D e u = Some v \<and> addr_kept G P u v \<and> ?Q e v" if e: "e \<in> set (es_addr (cn_in n))" and ku: "addr_kept G P t u" for e u
      proof (rule processAddr_step [OF p val])
        show "run_ok G P {} {} u" using addr_kept_trans [OF k ku] ok by (simp add: addr_kept_def)
      qed (use e ad in simp_all)
    qed (blast intro: addr_kept_refl addr_kept_trans keep)+
    then show ?thesis using xx by simp
  qed
  have "\<exists>u. ofold ?f (IDToNodeMap (cg_base G)) st = Some u \<and> addr_kept G P st u \<and>
      (\<forall>x \<in> set (IDToNodeMap (cg_base G)). \<forall>e \<in> set (?in x). ?Q e u)"
  proof (rule ofold_rel [where R = "addr_kept G P" and Q = "\<lambda>x u. \<forall>e \<in> set (?in x). ?Q e u"])
    show "\<forall>e \<in> set (?in x). ?Q e t" if "\<forall>e \<in> set (?in x). ?Q e s" "addr_kept G P s t" for x s t
      using that(1) keep [OF _ that(2)] by blast
  qed (blast intro: addr_kept_refl addr_kept_trans inner)+
  then obtain u where u: "ofold ?f (IDToNodeMap (cg_base G)) st = Some u" "addr_kept G P st u"
      "\<forall>x \<in> set (IDToNodeMap (cg_base G)). \<forall>e \<in> set (?in x). ?Q e u" by blast
  have "ob \<in> P_of u d" if a: "GEdge KAddr ob d \<in> cg_edges G" for ob d
  proof -
    have "d \<in> cg_nodes G" using cg_edge_nodes [OF G a] by simp
    then obtain n where n: "cg_map G d = Some n" by (auto simp: cg_nodes_def)
    then have "(d, n) \<in> set (IDToNodeMap (cg_base G))" by (rule map_of_SomeD)
    moreover have "GEdge KAddr ob d \<in> set (es_addr (cn_in n))" using addrs [OF n] a by simp
    ultimately show ?thesis using u(3) by fastforce
  qed
  moreover have "run_ok G P {} {} u" using u(2) ok by (simp add: addr_kept_def)
  ultimately show ?thesis using u(1) g by (auto simp: processAllAddr_def)
qed

lemma run_ok_start:
  assumes p: "plain_input G P" and s: "inv (an_pts st)" "P_of st = (\<lambda>_. {})" "Q_of st = (\<lambda>_. {})"
    "consCG st = G" "an_pag st = P" "an_worklist st = fifo_new" "\<not> reanalyze st"
  shows "run_ok G P {} {} st"
  using p s unfolding run_ok_def by (simp add: plain_input_def fifo_inv_def fifo_new_def solution_def)

text \<open>The analysis ends with the least solution.\<close>

lemma andersen_least:
  assumes p: "plain_input G P" and opt: "DiffPts opt" and val: "\<forall>ob \<in> objs_of G. valid ob"
    and s: "inv (an_pts st)" "P_of st = (\<lambda>_. {})" "Q_of st = (\<lambda>_. {})" "consCG st = G" "an_pag st = P" "an_worklist st = fifo_new" "\<not> reanalyze st"
  shows "\<exists>u t. processAllAddr D st = Some u \<and> \<not> reanalyze u \<and> solveWorklist D opt u = Some t \<and> isWorklistEmpty t \<and> \<not> reanalyze t \<and>
    solution G P (P_of t) \<and> (\<forall>S. solution G P S \<longrightarrow> (\<forall>n. P_of t n \<subseteq> S n))"
proof -
  obtain u where u: "processAllAddr D st = Some u" "run_ok G P {} {} u" "\<forall>ob d. GEdge KAddr ob d \<in> cg_edges G \<longrightarrow> ob \<in> P_of u d"
    using processAllAddr_spec [OF p val run_ok_start [OF p s] s(4)] by blast
  obtain t where t: "solveWorklist D opt u = Some t" "run_ok G P {} {} t" "W_of t = {}" "\<forall>n. P_of u n \<subseteq> P_of t n"
    using solveWorklist_spec [OF p opt u(2)] by blast
  note o = run_okD [OF t(2)]
  have G: "cg_ok G" using p by (simp add: plain_input_def)
  have nodes: "GEdge k a b \<in> cg_edges G \<Longrightarrow> a \<in> cg_nodes G \<and> b \<in> cg_nodes G" for k a b using cg_edge_nodes [OF G] by fastforce
  have frame: "cg_nodes (consCG t) = cg_nodes G" using o(3) by (simp add: cg_frame_def)
  have copy: "P_of t a \<subseteq> P_of t b" if e: "GEdge KCopy a b \<in> E_of t" for a b
  proof -
    have "a \<in> cg_nodes G" using cg_edge_nodes [OF o(2) e] frame by simp
    then show ?thesis using o(11) [OF e] o(12) [of a] t(3) by simp
  qed
  have h: "handled G P (E_of t) n ob" if "n \<in> cg_nodes G" "ob \<in> P_of t n" for n ob
    using o(13) [OF that(1) _ that(2)] t(3) by simp
  have "solution G P (P_of t)" unfolding solution_def
  proof (intro conjI allI impI)
    show "ob \<in> P_of t d" if "GEdge KAddr ob d \<in> cg_edges G" for ob d using u(3) t(4) that by blast
    show "P_of t a \<subseteq> P_of t b" if "GEdge KCopy a b \<in> cg_edges G" for a b using copy subsetD [OF o(7) that] by blast
    fix n d ob
    show "P_of t ob \<subseteq> P_of t d" if e: "GEdge KLoad n d \<in> cg_edges G" "ob \<in> P_of t n" "\<not> skips P ob d"
    proof -
      have "ob = d \<or> GEdge KCopy ob d \<in> E_of t" using h [OF _ e(2)] nodes [OF e(1)] e(1,3) unfolding handled_def by blast
      then show ?thesis using copy by blast
    qed
    show "P_of t d \<subseteq> P_of t ob" if e: "GEdge KStore d n \<in> cg_edges G" "ob \<in> P_of t n" "\<not> skips P ob d"
    proof -
      have "d = ob \<or> GEdge KCopy d ob \<in> E_of t" using h [OF _ e(2)] nodes [OF e(1)] e(1,3) unfolding handled_def by blast
      then show ?thesis using copy by blast
    qed
  qed
  moreover have "isWorklistEmpty t" using t(3) by (simp add: isWorklistEmpty_def fifo_empty_def)
  ultimately show ?thesis using u(1) run_okD(16) [OF u(2)] t(1) o(14,16) by blast
qed

end

end
