(* ===== verification/ConsBuild.thy ===== *)
theory ConsBuild
  imports ConsMerge ObjVars
begin

text \<open>
  Building the constraint graph from the pointer statements of the program (\<open>ConstraintGraph::buildCG\<close> and
  \<open>clearSolitaries\<close>): the graph has an edge for every statement.
\<close>

section \<open>The builder\<close>

text \<open>
  The statements by kind: right-hand side and left-hand side; the operands of a phi or a select; for a field access
  the offset, if it is constant.
\<close>

record pta_stmts =
  st_addr :: "(NodeID \<times> NodeID) list"
  st_copy :: "(NodeID \<times> NodeID) list"
  st_phi :: "(NodeID list \<times> NodeID) list"
  st_select :: "(NodeID list \<times> NodeID) list"
  st_call :: "(NodeID \<times> NodeID) list"
  st_ret :: "(NodeID \<times> NodeID) list"
  st_fork :: "(NodeID \<times> NodeID) list"
  st_join :: "(NodeID \<times> NodeID) list"
  st_gep :: "(NodeID \<times> NodeID \<times> APOffset option) list"
  st_load :: "(NodeID \<times> NodeID) list"
  st_store :: "(NodeID \<times> NodeID) list"

definition add_pairs :: "(NodeID \<Rightarrow> NodeID \<Rightarrow> cons_graph \<Rightarrow> (bool \<times> cons_graph) option) \<Rightarrow> (NodeID \<times> NodeID) list \<Rightarrow> cons_graph \<Rightarrow> cons_graph option" where
  "add_pairs add = ofold (\<lambda>(s, d) G. map_option snd (add s d G))"

definition add_multi :: "(NodeID list \<times> NodeID) list \<Rightarrow> cons_graph \<Rightarrow> cons_graph option" where
  "add_multi = ofold (\<lambda>(opnds, res) G. ofold (\<lambda>opVar G. map_option snd (addCopyCGEdge opVar res G)) opnds G)"

definition add_geps :: "(NodeID \<times> NodeID \<times> APOffset option) list \<Rightarrow> cons_graph \<Rightarrow> cons_graph option" where
  "add_geps = ofold (\<lambda>(s, d, off) G. map_option snd
     (case off of None \<Rightarrow> addVariantGepCGEdge s d G | Some ap \<Rightarrow> addNormalGepCGEdge s d ap G))"

definition clearSolitaries :: "pag_state \<Rightarrow> cons_graph \<Rightarrow> cons_graph option" where
  "clearSolitaries P G = do {
     nodesToRemove \<leftarrow> ofold (\<lambda>(i, n) rm.
         if es_all (cn_in n) \<noteq> [] \<or> es_all (cn_out n) \<noteq> [] then Some rm else do {
           v \<leftarrow> pag_node P i;
           Some (if isPointer v then rm else i # rm)
         }) (IDToNodeMap (cg_base G)) [];
     ofold removeConstraintNode nodesToRemove G
   }"

definition buildCG :: "pag_state \<Rightarrow> pta_stmts \<Rightarrow> cons_graph option" where
  "buildCG P stmts = do {
     let G = fold addConstraintNode (map fst (IDToNodeMap (pag_graph P))) cons_graph_new;
     G \<leftarrow> add_pairs addAddrCGEdge (st_addr stmts) G;
     G \<leftarrow> add_pairs addCopyCGEdge (st_copy stmts) G;
     G \<leftarrow> add_multi (st_phi stmts) G;
     G \<leftarrow> add_multi (st_select stmts) G;
     G \<leftarrow> add_pairs addCopyCGEdge (st_call stmts) G;
     G \<leftarrow> add_pairs addCopyCGEdge (st_ret stmts) G;
     G \<leftarrow> add_pairs addCopyCGEdge (st_fork stmts) G;
     G \<leftarrow> add_pairs addCopyCGEdge (st_join stmts) G;
     G \<leftarrow> add_geps (st_gep stmts) G;
     G \<leftarrow> add_pairs addLoadCGEdge (st_load stmts) G;
     G \<leftarrow> add_pairs addStoreCGEdge (st_store stmts) G;
     clearSolitaries P G
   }"

section \<open>What it builds\<close>

text \<open>The edges that the statements ask for.\<close>

definition pair_edges :: "nat \<Rightarrow> (NodeID \<times> NodeID) list \<Rightarrow> gedge set" where
  "pair_edges k xs = {GEdge k s d |s d. (s, d) \<in> set xs \<and> (k = KCopy \<longrightarrow> s \<noteq> d)}"

definition multi_pairs :: "(NodeID list \<times> NodeID) list \<Rightarrow> (NodeID \<times> NodeID) list" where
  "multi_pairs xs = concat (map (\<lambda>(opnds, res). map (\<lambda>v. (v, res)) opnds) xs)"

definition gep_kind :: "APOffset option \<Rightarrow> nat" where
  "gep_kind off = (case off of None \<Rightarrow> KVariantGep | Some _ \<Rightarrow> KNormalGep)"

definition gep_edges :: "(NodeID \<times> NodeID \<times> APOffset option) list \<Rightarrow> gedge set" where
  "gep_edges xs = {GEdge (gep_kind off) s d |s d off. (s, d, off) \<in> set xs}"

definition copy_pairs :: "pta_stmts \<Rightarrow> (NodeID \<times> NodeID) list" where
  "copy_pairs st = st_copy st @ multi_pairs (st_phi st) @ multi_pairs (st_select st) @ st_call st @ st_ret st @ st_fork st @ st_join st"

definition stmt_edges :: "pta_stmts \<Rightarrow> gedge set" where
  "stmt_edges st = pair_edges KAddr (st_addr st) \<union> pair_edges KCopy (copy_pairs st) \<union> gep_edges (st_gep st) \<union>
     pair_edges KLoad (st_load st) \<union> pair_edges KStore (st_store st)"

definition stmt_ends :: "pta_stmts \<Rightarrow> NodeID set" where
  "stmt_ends st = (\<Union>(s, d) \<in> set (st_addr st @ copy_pairs st @ map (\<lambda>(s, d, _). (s, d)) (st_gep st) @ st_load st @ st_store st). {s, d})"

lemma cg_ok_new: "cg_ok cons_graph_new" "cg_nodes cons_graph_new = {}" "cg_edges cons_graph_new = {}"
  by (simp_all add: cg_ok_def cons_graph_new_def gen_graph_new_def sides_ok_def kind_sets_ok_def edges_ok_def reps_ok_def
      cg_edges_def cg_nodes_def oset_is_def of_kind_def)

text \<open>Adding a node that is new and not merged.\<close>

lemma addConstraintNode_spec:
  assumes ok: "cg_ok G" and i: "i \<notin> cg_nodes G" "i \<notin> dom (map_of (nodeToRepMap G))"
  shows "cg_ok (addConstraintNode i G)" "cg_nodes (addConstraintNode i G) = insert i (cg_nodes G)"
    "cg_edges (addConstraintNode i G) = cg_edges G" "nodeToRepMap (addConstraintNode i G) = nodeToRepMap G"
    "nodesToBeCollapsed (addConstraintNode i G) = nodesToBeCollapsed G"
proof -
  let ?K = "addConstraintNode i G"
  note o = ok [unfolded cg_ok_def]
  have map_K: "cg_map ?K = (cg_map G)(i \<mapsto> cons_node_new)" by (simp add: addConstraintNode_def addGNode_def)
  show nK: "cg_nodes ?K = insert i (cg_nodes G)" unfolding cg_nodes_def map_K by simp
  show eK: "cg_edges ?K = cg_edges G" by (simp add: cg_edges_def addConstraintNode_def)
  show "nodeToRepMap ?K = nodeToRepMap G" "nodesToBeCollapsed ?K = nodesToBeCollapsed G" by (simp_all add: addConstraintNode_def)
  have none: "{e \<in> cg_edges G. getDstID e = i} = {}" "{e \<in> cg_edges G. getSrcID e = i} = {}"
    using o i(1) by (auto simp: edges_ok_def)
  have fresh: "es_ok {e \<in> cg_edges G. getDstID e = i} (cn_in cons_node_new)" "es_ok {e \<in> cg_edges G. getSrcID e = i} (cn_out cons_node_new)"
    unfolding none by (simp_all add: cons_node_new_def es_ok_new)
  show "cg_ok ?K" unfolding cg_ok_def eK nK
  proof (intro conjI)
    show "sides_ok (cg_edges G) (cg_edges G) ?K"
      unfolding sides_ok_def map_K
    proof (intro conjI allI impI)
      show "omap (IDToNodeMap (cg_base ?K))" using o by (simp add: sides_ok_def addConstraintNode_def addGNode_def)
      fix j m assume j: "((cg_map G)(i \<mapsto> cons_node_new)) j = Some m"
      show "es_ok {e \<in> cg_edges G. getDstID e = j} (cn_in m)" "es_ok {e \<in> cg_edges G. getSrcID e = j} (cn_out m)"
        using j fresh o by (cases "j = i"; simp add: sides_ok_def)+
    qed
    show "kind_sets_ok (cg_edges G) ?K" using o by (simp add: kind_sets_ok_def addConstraintNode_def)
    show "edges_ok (cg_edges G) (insert i (cg_nodes G))" using o by (auto simp: edges_ok_def)
    show "reps_ok ?K" using o i(2) unfolding reps_ok_def nK by (auto simp: addConstraintNode_def)
  qed (use o in \<open>simp_all add: addConstraintNode_def\<close>)
qed

lemma addConstraintNodes_spec:
  assumes "cg_ok G" "distinct is" "set is \<inter> cg_nodes G = {}" "nodeToRepMap G = []"
  shows "cg_ok (fold addConstraintNode is G) \<and> cg_nodes (fold addConstraintNode is G) = cg_nodes G \<union> set is \<and>
    cg_edges (fold addConstraintNode is G) = cg_edges G \<and> nodeToRepMap (fold addConstraintNode is G) = [] \<and>
    nodesToBeCollapsed (fold addConstraintNode is G) = nodesToBeCollapsed G"
  using assms
proof (induction "is" arbitrary: G)
  case (Cons i "is")
  note s = addConstraintNode_spec [OF Cons.prems(1), of i]
  show ?case using Cons.IH [of "addConstraintNode i G"] s Cons.prems by auto
qed simp

text \<open>Adding edges.\<close>

definition grown :: "cons_graph \<Rightarrow> gedge set \<Rightarrow> cons_graph \<Rightarrow> bool" where
  "grown G A H \<longleftrightarrow> cg_ok H \<and> cg_frame G H \<and> cg_edges H = cg_edges G \<union> A"

lemma grown_refl: "cg_ok G \<Longrightarrow> grown G {} G" by (simp add: grown_def)

lemma grown_trans: "grown G A H \<Longrightarrow> grown H B K \<Longrightarrow> grown G (A \<union> B) K"
  using cg_frame_trans by (auto simp: grown_def)

lemma add_edge_grown:
  assumes ok: "cg_ok G" and n: "s \<in> cg_nodes G" "d \<in> cg_nodes G" and k: "k \<le> KVariantGep"
  shows "\<exists>b H. add_kind k s d ap G = Some (b, H) \<and> grown G (if k = KCopy \<and> s = d then {} else {GEdge k s d}) H"
proof -
  have r: "cg_sccRepNode G s = s" "cg_sccRepNode G d = d" using cg_rep_node [OF ok] n by simp_all
  obtain b H where H: "add_kind k s d ap G = Some (b, H)" "added k s d ap G (b, H)"
    using add_kind_spec [OF ok, of s d k ap] r n k by auto
  have "cg_edges H = (if b then insert (GEdge k s d) (cg_edges G) else cg_edges G)" "cg_ok H" "cg_frame G H"
    "b = (GEdge k s d \<notin> cg_edges G \<and> (k = KCopy \<longrightarrow> s \<noteq> d))" using H(2) by (simp_all add: added_def)
  then show ?thesis using H(1) by (auto simp: grown_def)
qed

lemma add_list_grown:
  assumes ok: "cg_ok G" and step: "\<And>x H. x \<in> set xs \<Longrightarrow> cg_ok H \<Longrightarrow> cg_frame G H \<Longrightarrow> \<exists>K. f x H = Some K \<and> grown H (A x) K"
  shows "\<exists>H. ofold f xs G = Some H \<and> grown G (\<Union>x \<in> set xs. A x) H"
  using assms
proof (induction xs arbitrary: G)
  case Nil
  then show ?case by (simp add: grown_refl)
next
  case (Cons x xs)
  obtain H where H: "f x G = Some H" "grown G (A x) H" using Cons.prems(2) [of x G] Cons.prems(1) by auto
  have h: "cg_ok H" "cg_frame G H" using H(2) by (simp_all add: grown_def)
  have "\<exists>K. ofold f xs H = Some K \<and> grown H (\<Union>x \<in> set xs. A x) K"
    by (rule Cons.IH [OF h(1)]) (use Cons.prems(2) cg_frame_trans [OF h(2)] in simp)
  then obtain K where K: "ofold f xs H = Some K" "grown H (\<Union>x \<in> set xs. A x) K" by blast
  show ?case using H(1) K(1) grown_trans [OF H(2) K(2)] by simp
qed

lemma add_pairs_spec:
  assumes ok: "cg_ok G" and n: "\<And>s d. (s, d) \<in> set xs \<Longrightarrow> s \<in> cg_nodes G \<and> d \<in> cg_nodes G" and k: "k \<le> KVariantGep"
    and add: "\<And>s d G. add s d G = add_kind k s d 0 G"
  shows "\<exists>H. add_pairs add xs G = Some H \<and> grown G (pair_edges k xs) H"
proof -
  let ?A = "\<lambda>(s, d). if k = KCopy \<and> s = d then {} else {GEdge k s d}"
  have "\<exists>H. ofold (\<lambda>(s, d) G. map_option snd (add s d G)) xs G = Some H \<and> grown G (\<Union>x \<in> set xs. ?A x) H"
  proof (rule add_list_grown [OF ok])
    fix x H assume x: "x \<in> set xs" "cg_ok H" "cg_frame G H"
    obtain s d where sd: "x = (s, d)" by (cases x)
    have "s \<in> cg_nodes H" "d \<in> cg_nodes H" using n [of s d] x sd by (simp_all add: cg_frame_def)
    then obtain b K where "add_kind k s d 0 H = Some (b, K)" "grown H (if k = KCopy \<and> s = d then {} else {GEdge k s d}) K"
      using add_edge_grown [OF x(2) _ _ k] by blast
    then show "\<exists>K. (case x of (s, d) \<Rightarrow> \<lambda>G. map_option snd (add s d G)) H = Some K \<and> grown H (?A x) K"
      using sd add by simp
  qed
  moreover have "(\<Union>x \<in> set xs. ?A x) = pair_edges k xs" by (auto simp: pair_edges_def split: if_splits)
  ultimately show ?thesis by (simp add: add_pairs_def)
qed

lemma ofold_map: "ofold f (map g xs) s = ofold (\<lambda>x. f (g x)) xs s"
  by (induction xs arbitrary: s) (auto split: Option.bind_split)

lemma add_multi_pairs: "add_multi xs = add_pairs addCopyCGEdge (multi_pairs xs)"
proof
  fix G show "add_multi xs G = add_pairs addCopyCGEdge (multi_pairs xs) G"
  proof (induction xs arbitrary: G)
    case Nil
    show ?case by (simp add: add_multi_def add_pairs_def multi_pairs_def)
  next
    case (Cons x xs)
    obtain opnds res where x: "x = (opnds, res)" by (cases x)
    have "add_multi xs = add_pairs addCopyCGEdge (multi_pairs xs)" using Cons by (intro ext)
    then show ?case using x by (simp add: add_multi_def add_pairs_def multi_pairs_def ofold_append ofold_map)
  qed
qed

lemma add_geps_spec:
  assumes ok: "cg_ok G" and n: "\<And>s d off. (s, d, off) \<in> set xs \<Longrightarrow> s \<in> cg_nodes G \<and> d \<in> cg_nodes G"
  shows "\<exists>H. add_geps xs G = Some H \<and> grown G (gep_edges xs) H"
proof -
  let ?A = "\<lambda>(s, d, off). {GEdge (gep_kind off) s d}"
  let ?f = "\<lambda>(s, d, off) G. map_option snd (case off of None \<Rightarrow> addVariantGepCGEdge s d G | Some ap \<Rightarrow> addNormalGepCGEdge s d ap G)"
  have "\<exists>H. ofold ?f xs G = Some H \<and> grown G (\<Union>x \<in> set xs. ?A x) H"
  proof (rule add_list_grown [OF ok])
    fix x H assume x: "x \<in> set xs" "cg_ok H" "cg_frame G H"
    obtain s d off where sd: "x = (s, d, off)" by (cases x)
    have nn: "s \<in> cg_nodes H" "d \<in> cg_nodes H" using n [of s d off] x sd by (simp_all add: cg_frame_def)
    let ?ap = "case off of None \<Rightarrow> 0 | Some ap \<Rightarrow> ap"
    have gk: "gep_kind off \<le> KVariantGep" "gep_kind off \<noteq> KCopy" by (cases off; simp add: gep_kind_def)+
    obtain b K where K: "add_kind (gep_kind off) s d ?ap H = Some (b, K)" "grown H {GEdge (gep_kind off) s d} K"
      using add_edge_grown [OF x(2) nn gk(1), of ?ap] gk(2) by auto
    have run: "?f (s, d, off) H = Some K" using K(1) by (cases off) (simp_all add: add_kind_def gep_kind_def)
    show "\<exists>K. ?f x H = Some K \<and> grown H (?A x) K"
      by (rule exI [of _ K]) (use run K(2) sd in simp)
  qed
  moreover have "(\<Union>x \<in> set xs. ?A x) = gep_edges xs" by (auto simp: gep_edges_def)
  ultimately show ?thesis by (simp add: add_geps_def)
qed

text \<open>Removing nodes without edges.\<close>

lemma removeConstraintNode_spec:
  assumes ok: "cg_ok G" and i: "i \<in> cg_nodes G" "\<forall>e \<in> cg_edges G. getSrcID e \<noteq> i \<and> getDstID e \<noteq> i" and r: "nodeToRepMap G = []"
  shows "\<exists>H. removeConstraintNode i G = Some H \<and> cg_ok H \<and> cg_nodes H = cg_nodes G - {i} \<and> cg_edges H = cg_edges G \<and>
    nodeToRepMap H = [] \<and> nodesToBeCollapsed H = nodesToBeCollapsed G"
proof -
  note o = ok [unfolded cg_ok_def]
  obtain n where n: "cg_map G i = Some n" using i(1) by (auto simp: cg_nodes_def)
  have none: "{e \<in> cg_edges G. getDstID e = i} = {}" "{e \<in> cg_edges G. getSrcID e = i} = {}" using i(2) by auto
  have "es_ok {e \<in> cg_edges G. getDstID e = i} (cn_in n)" "es_ok {e \<in> cg_edges G. getSrcID e = i} (cn_out n)"
    using o n by (auto simp: sides_ok_def)
  then have iso: "es_all (cn_in n) = []" "es_all (cn_out n) = []" unfolding none by (simp_all add: es_ok_def oset_is_def)
  let ?H = "G\<lparr>cg_base := (cg_base G)\<lparr>IDToNodeMap := omap_del i (IDToNodeMap (cg_base G))\<rparr>\<rparr>"
  have run: "removeConstraintNode i G = Some ?H" using n iso by (simp add: removeConstraintNode_def removeGNode_def)
  have map_H: "cg_map ?H = (cg_map G)(i := None)" by simp
  have nH: "cg_nodes ?H = cg_nodes G - {i}" unfolding cg_nodes_def map_H by auto
  have eH: "cg_edges ?H = cg_edges G" by (simp add: cg_edges_def)
  have "cg_ok ?H" unfolding cg_ok_def eH nH
  proof (intro conjI)
    show "sides_ok (cg_edges G) (cg_edges G) ?H" unfolding sides_ok_def map_H using o by (simp add: sides_ok_def)
    show "kind_sets_ok (cg_edges G) ?H" using o by (simp add: kind_sets_ok_def)
    show "edges_ok (cg_edges G) (cg_nodes G - {i})" using o i(2) by (simp add: edges_ok_def)
    show "reps_ok ?H" using r by (simp add: reps_ok_def)
  qed (use o in simp_all)
  then show ?thesis using run nH eH r by simp
qed

lemma removeNodes_spec:
  assumes "cg_ok G" "distinct is" "\<forall>i \<in> set is. i \<in> cg_nodes G \<and> (\<forall>e \<in> cg_edges G. getSrcID e \<noteq> i \<and> getDstID e \<noteq> i)" "nodeToRepMap G = []"
  shows "\<exists>H. ofold removeConstraintNode is G = Some H \<and> cg_ok H \<and> cg_nodes H = cg_nodes G - set is \<and> cg_edges H = cg_edges G \<and>
    nodeToRepMap H = [] \<and> nodesToBeCollapsed H = nodesToBeCollapsed G"
  using assms
proof (induction "is" arbitrary: G)
  case (Cons i "is")
  obtain H where H: "removeConstraintNode i G = Some H" "cg_ok H" "cg_nodes H = cg_nodes G - {i}" "cg_edges H = cg_edges G"
      "nodeToRepMap H = []" "nodesToBeCollapsed H = nodesToBeCollapsed G"
    using removeConstraintNode_spec [OF Cons.prems(1), of i] Cons.prems(3,4) by auto
  have "\<exists>K. ofold removeConstraintNode is H = Some K \<and> cg_ok K \<and> cg_nodes K = cg_nodes H - set is \<and> cg_edges K = cg_edges H \<and>
      nodeToRepMap K = [] \<and> nodesToBeCollapsed K = nodesToBeCollapsed H"
    by (rule Cons.IH [OF H(2)]) (use Cons.prems(2,3) H(3-5) in auto)
  then obtain K where "ofold removeConstraintNode is H = Some K" "cg_ok K" "cg_nodes K = cg_nodes H - set is" "cg_edges K = cg_edges H"
      "nodeToRepMap K = []" "nodesToBeCollapsed K = nodesToBeCollapsed H" by blast
  then show ?case using H by auto
qed simp

text \<open>The nodes that stay: those with an edge, and the pointers.\<close>

definition kept_nodes :: "pag_state \<Rightarrow> gedge set \<Rightarrow> NodeID set" where
  "kept_nodes P E = {i \<in> dom (pag_node P). (\<exists>e \<in> E. getSrcID e = i \<or> getDstID e = i) \<or> map_option isPointer (pag_node P i) = Some True}"

lemma collect_loop:
  assumes "\<And>x. x \<in> set xs \<Longrightarrow> \<not> c x \<Longrightarrow> \<exists>v. f x = Some v"
  shows "\<exists>rm. ofold (\<lambda>x rm. if c x then Some rm else do { v \<leftarrow> f x; Some (if p v then rm else g x # rm) }) xs acc = Some (rm @ acc) \<and>
    rm = rev (map g (filter (\<lambda>x. \<not> c x \<and> map_option p (f x) = Some False) xs))"
  using assms
proof (induction xs arbitrary: acc)
  case (Cons x xs)
  show ?case
  proof (cases "c x")
    case True
    then show ?thesis using Cons by simp
  next
    case False
    obtain v where v: "f x = Some v" using Cons.prems [of x] False by auto
    show ?thesis using Cons.IH [of acc] Cons.IH [of "g x # acc"] Cons.prems False v by (cases "p v") auto
  qed
qed simp

lemma clearSolitaries_spec:
  assumes ok: "cg_ok G" and r: "nodeToRepMap G = []" and n: "cg_nodes G = dom (pag_node P)"
  shows "\<exists>H. clearSolitaries P G = Some H \<and> cg_ok H \<and> cg_nodes H = kept_nodes P (cg_edges G) \<and> cg_edges H = cg_edges G \<and>
    nodeToRepMap H = [] \<and> nodesToBeCollapsed H = nodesToBeCollapsed G"
proof -
  note o = ok [unfolded cg_ok_def]
  let ?m = "IDToNodeMap (cg_base G)"
  let ?c = "\<lambda>x :: NodeID \<times> cons_node. es_all (cn_in (snd x)) \<noteq> [] \<or> es_all (cn_out (snd x)) \<noteq> []"
  have om: "omap ?m" and es: "cg_map G i = Some k \<Longrightarrow> es_ok {e \<in> cg_edges G. getDstID e = i} (cn_in k) \<and> es_ok {e \<in> cg_edges G. getSrcID e = i} (cn_out k)" for i k
    using o by (auto simp: sides_ok_def)
  have mem: "cg_map G i = Some k \<longleftrightarrow> (i, k) \<in> set ?m" for i k using omap_distinct [OF om] by simp
  have c: "?c (i, k) \<longleftrightarrow> (\<exists>e \<in> cg_edges G. getSrcID e = i \<or> getDstID e = i)" if "(i, k) \<in> set ?m" for i k
  proof -
    have "set (es_all (cn_in k)) = {e \<in> cg_edges G. getDstID e = i}" "set (es_all (cn_out k)) = {e \<in> cg_edges G. getSrcID e = i}"
      using es [of i k] that mem by (auto simp: es_ok_def oset_is_def)
    then show ?thesis by (auto simp: set_empty [symmetric] simp del: set_empty)
  qed
  have f: "\<exists>v. pag_node P (fst x) = Some v" if "x \<in> set ?m" for x
  proof -
    have "fst x \<in> cg_nodes G" using that mem [of "fst x" "snd x"] by (auto simp: cg_nodes_def)
    then show ?thesis using n by auto
  qed
  obtain rm where rm: "ofold (\<lambda>x rm. if ?c x then Some rm else do { v \<leftarrow> pag_node P (fst x); Some (if isPointer v then rm else fst x # rm) }) ?m [] = Some rm"
      "rm = rev (map fst (filter (\<lambda>x. \<not> ?c x \<and> map_option isPointer (pag_node P (fst x)) = Some False) ?m))"
    using collect_loop [of ?m ?c "\<lambda>x. pag_node P (fst x)" isPointer fst "[]"] f by auto
  have dist: "distinct rm" unfolding rm(2) using omap_distinct [OF om] by (simp add: distinct_map_filter)
  have set_rm: "i \<in> set rm \<longleftrightarrow> i \<in> cg_nodes G \<and> \<not> (\<exists>e \<in> cg_edges G. getSrcID e = i \<or> getDstID e = i) \<and>
      map_option isPointer (pag_node P i) = Some False" for i
  proof
    assume "i \<in> set rm"
    then obtain k where k: "(i, k) \<in> set ?m" "\<not> ?c (i, k)" "map_option isPointer (pag_node P i) = Some False" unfolding rm(2) by auto
    then show "i \<in> cg_nodes G \<and> \<not> (\<exists>e \<in> cg_edges G. getSrcID e = i \<or> getDstID e = i) \<and> map_option isPointer (pag_node P i) = Some False"
      using c [OF k(1)] mem [of i k] by (auto simp: cg_nodes_def)
  next
    assume a: "i \<in> cg_nodes G \<and> \<not> (\<exists>e \<in> cg_edges G. getSrcID e = i \<or> getDstID e = i) \<and> map_option isPointer (pag_node P i) = Some False"
    then obtain k where k: "(i, k) \<in> set ?m" using mem by (auto simp: cg_nodes_def)
    then have "\<not> ?c (i, k)" using c [OF k] a by blast
    then have "(i, k) \<in> set (filter (\<lambda>x. \<not> ?c x \<and> map_option isPointer (pag_node P (fst x)) = Some False) ?m)" using a k by simp
    then show "i \<in> set rm" unfolding rm(2) by force
  qed
  have iso: "\<forall>i \<in> set rm. i \<in> cg_nodes G \<and> (\<forall>e \<in> cg_edges G. getSrcID e \<noteq> i \<and> getDstID e \<noteq> i)" using set_rm by blast
  obtain H where H: "ofold removeConstraintNode rm G = Some H" "cg_ok H" "cg_nodes H = cg_nodes G - set rm" "cg_edges H = cg_edges G"
      "nodeToRepMap H = []" "nodesToBeCollapsed H = nodesToBeCollapsed G"
    using removeNodes_spec [OF ok dist iso r] by blast
  have "cg_nodes H = kept_nodes P (cg_edges G)"
  proof
    show "cg_nodes H \<subseteq> kept_nodes P (cg_edges G)"
    proof
      fix i assume "i \<in> cg_nodes H"
      then have i: "i \<in> dom (pag_node P)" "i \<notin> set rm" unfolding H(3) n by blast+
      then obtain v where "pag_node P i = Some v" by blast
      then show "i \<in> kept_nodes P (cg_edges G)" using i set_rm [of i] n by (auto simp: kept_nodes_def)
    qed
    show "kept_nodes P (cg_edges G) \<subseteq> cg_nodes H" unfolding H(3) n kept_nodes_def using set_rm by auto
  qed
  moreover have "clearSolitaries P G = Some H" using rm(1) H(1) by (simp add: clearSolitaries_def case_prod_unfold)
  ultimately show ?thesis using H by blast
qed

lemma pair_edges_append: "pair_edges k (xs @ ys) = pair_edges k xs \<union> pair_edges k ys"
  by (auto simp: pair_edges_def)

lemma stmt_ends_mem:
  assumes "stmt_ends st \<subseteq> N"
  shows "(s, d) \<in> set (st_addr st) \<Longrightarrow> s \<in> N \<and> d \<in> N" "(s, d) \<in> set (copy_pairs st) \<Longrightarrow> s \<in> N \<and> d \<in> N"
    "(s, d, off) \<in> set (st_gep st) \<Longrightarrow> s \<in> N \<and> d \<in> N" "(s, d) \<in> set (st_load st) \<Longrightarrow> s \<in> N \<and> d \<in> N"
    "(s, d) \<in> set (st_store st) \<Longrightarrow> s \<in> N \<and> d \<in> N"
proof -
  let ?all = "set (st_addr st @ copy_pairs st @ map (\<lambda>(s, d, _). (s, d)) (st_gep st) @ st_load st @ st_store st)"
  have sub: "s \<in> N \<and> d \<in> N" if "(s, d) \<in> ?all"
  proof -
    have "(\<lambda>(s, d). {s, d}) (s, d) \<subseteq> stmt_ends st" unfolding stmt_ends_def by (rule UN_upper [OF that])
    then show ?thesis using assms by (simp add: subset_iff)
  qed
  show "(s, d) \<in> set (st_addr st) \<Longrightarrow> s \<in> N \<and> d \<in> N" "(s, d) \<in> set (copy_pairs st) \<Longrightarrow> s \<in> N \<and> d \<in> N"
    "(s, d) \<in> set (st_load st) \<Longrightarrow> s \<in> N \<and> d \<in> N" "(s, d) \<in> set (st_store st) \<Longrightarrow> s \<in> N \<and> d \<in> N"
    by (rule sub, simp)+
  show "s \<in> N \<and> d \<in> N" if "(s, d, off) \<in> set (st_gep st)"
  proof (rule sub)
    have "(s, d) \<in> set (map (\<lambda>(s, d, _). (s, d)) (st_gep st))" using that by (auto simp: image_iff intro!: bexI [of _ "(s, d, off)"])
    then show "(s, d) \<in> ?all" by simp
  qed
qed

lemma grown_pairs:
  assumes g: "grown G0 A G" and n: "\<And>s d. (s, d) \<in> set xs \<Longrightarrow> s \<in> cg_nodes G0 \<and> d \<in> cg_nodes G0" and k: "k \<le> KVariantGep"
    and add: "\<And>s d G. add s d G = add_kind k s d 0 G"
  shows "\<exists>H. add_pairs add xs G = Some H \<and> grown G0 (A \<union> pair_edges k xs) H"
proof -
  have G: "cg_ok G" "cg_nodes G = cg_nodes G0" using g by (simp_all add: grown_def cg_frame_def)
  obtain H where "add_pairs add xs G = Some H" "grown G (pair_edges k xs) H" using add_pairs_spec [OF G(1) _ k add, of xs] n G(2) by auto
  then show ?thesis using grown_trans [OF g] by blast
qed

lemma add_pairs_append: "add_pairs add (xs @ ys) G = do { G \<leftarrow> add_pairs add xs G; add_pairs add ys G }"
  by (simp add: add_pairs_def ofold_append)

text \<open>All copy statements, one after the other.\<close>

lemma copies_one_list:
  "do { G \<leftarrow> add_pairs addCopyCGEdge (st_copy st) G; G \<leftarrow> add_multi (st_phi st) G; G \<leftarrow> add_multi (st_select st) G;
      G \<leftarrow> add_pairs addCopyCGEdge (st_call st) G; G \<leftarrow> add_pairs addCopyCGEdge (st_ret st) G; G \<leftarrow> add_pairs addCopyCGEdge (st_fork st) G;
      G \<leftarrow> add_pairs addCopyCGEdge (st_join st) G; f G } = do { G \<leftarrow> add_pairs addCopyCGEdge (copy_pairs st) G; f G }"
  by (simp add: copy_pairs_def add_pairs_append add_multi_pairs)

lemma buildCG_spec:
  assumes om: "omap (IDToNodeMap (pag_graph P))" and e: "stmt_ends st \<subseteq> dom (pag_node P)"
  shows "\<exists>H. buildCG P st = Some H \<and> cg_ok H \<and> cg_edges H = stmt_edges st \<and> cg_nodes H = kept_nodes P (stmt_edges st) \<and>
    nodeToRepMap H = [] \<and> \<not> hasNodesToBeCollapsed H"
proof -
  let ?ids = "map fst (IDToNodeMap (pag_graph P))"
  let ?G = "fold addConstraintNode ?ids cons_graph_new"
  have "pag_node P = map_of (IDToNodeMap (pag_graph P))" by (rule ext) (simp add: pag_node_def getGNode_def)
  then have ids: "distinct ?ids" "set ?ids = dom (pag_node P)"
    using omap_distinct [OF om] by (simp_all add: dom_map_of_conv_image_fst)
  have G: "cg_ok ?G" "cg_nodes ?G = dom (pag_node P)" "cg_edges ?G = {}" "nodeToRepMap ?G = []" "nodesToBeCollapsed ?G = fifo_new"
    using addConstraintNodes_spec [OF cg_ok_new(1) ids(1)] cg_ok_new(2,3) ids(2) by (simp_all add: cons_graph_new_def)
  note m = stmt_ends_mem [OF e, folded G(2)]
  obtain G1 where 1: "add_pairs addAddrCGEdge (st_addr st) ?G = Some G1" "grown ?G ({} \<union> pair_edges KAddr (st_addr st)) G1"
    using grown_pairs [OF grown_refl [OF G(1)], of "st_addr st" KAddr addAddrCGEdge] m(1) by (auto simp: add_kind_def)
  obtain G2 where 2: "add_pairs addCopyCGEdge (copy_pairs st) G1 = Some G2"
      "grown ?G ({} \<union> pair_edges KAddr (st_addr st) \<union> pair_edges KCopy (copy_pairs st)) G2"
    using grown_pairs [OF 1(2), of "copy_pairs st" KCopy addCopyCGEdge] m(2) by (auto simp: add_kind_def)
  have n2: "cg_ok G2" "cg_nodes G2 = cg_nodes ?G" using 2(2) by (simp_all add: grown_def cg_frame_def)
  obtain G3 where 3: "add_geps (st_gep st) G2 = Some G3" "grown G2 (gep_edges (st_gep st)) G3"
    using add_geps_spec [OF n2(1), of "st_gep st"] m(3) n2(2) by auto
  note g3 = grown_trans [OF 2(2) 3(2)]
  obtain G4 where 4: "add_pairs addLoadCGEdge (st_load st) G3 = Some G4"
      "grown ?G ({} \<union> pair_edges KAddr (st_addr st) \<union> pair_edges KCopy (copy_pairs st) \<union> gep_edges (st_gep st) \<union> pair_edges KLoad (st_load st)) G4"
    using grown_pairs [OF g3, of "st_load st" KLoad addLoadCGEdge] m(4) by (auto simp: add_kind_def)
  obtain G5 where 5: "add_pairs addStoreCGEdge (st_store st) G4 = Some G5"
      "grown ?G ({} \<union> pair_edges KAddr (st_addr st) \<union> pair_edges KCopy (copy_pairs st) \<union> gep_edges (st_gep st) \<union> pair_edges KLoad (st_load st) \<union>
        pair_edges KStore (st_store st)) G5"
    using grown_pairs [OF 4(2), of "st_store st" KStore addStoreCGEdge] m(5) by (auto simp: add_kind_def)
  have E5: "cg_ok G5" "cg_frame ?G G5" "cg_edges G5 = stmt_edges st" using 5(2) G(3) by (simp_all add: grown_def stmt_edges_def)
  have f5: "nodeToRepMap G5 = []" "cg_nodes G5 = dom (pag_node P)" "nodesToBeCollapsed G5 = fifo_new"
    using E5(2) G(2,4,5) by (simp_all add: cg_frame_def)
  obtain H where H: "clearSolitaries P G5 = Some H" "cg_ok H" "cg_nodes H = kept_nodes P (cg_edges G5)" "cg_edges H = cg_edges G5"
      "nodeToRepMap H = []" "nodesToBeCollapsed H = nodesToBeCollapsed G5"
    using clearSolitaries_spec [OF E5(1) f5(1,2)] by blast
  have "buildCG P st = Some H"
    using 1(1) 2(1) 3(1) 4(1) 5(1) H(1) by (simp add: buildCG_def Let_def copies_one_list)
  then show ?thesis using H E5(3) f5(3) by (simp add: hasNodesToBeCollapsed_def fifo_empty_def fifo_new_def)
qed

text \<open>A second field access between two nodes is dropped, whatever its offset.\<close>

lemma gep_offset_dropped:
  assumes ok: "cg_ok G" and e: "GEdge KNormalGep s d \<in> cg_edges G"
  shows "addNormalGepCGEdge s d ap G = Some (False, G)"
proof -
  have n: "s \<in> cg_nodes G" "d \<in> cg_nodes G" using cg_edge_nodes [OF ok e] by simp_all
  have r: "cg_sccRepNode G s = s" "cg_sccRepNode G d = d" using cg_rep_node [OF ok] n by simp_all
  obtain b H where "add_kind KNormalGep s d ap G = Some (b, H)" "added KNormalGep s d ap G (b, H)"
    using add_kind_spec [OF ok, of s d KNormalGep ap] r n by auto
  then show ?thesis using e by (auto simp: add_kind_def added_def)
qed

end
