(* ===== verification/AndersenRun.thy ===== *)
theory AndersenRun
  imports AndersenSound ConsBuild
begin

text \<open>
  Andersen's analysis from the statements to the result: the constraint graph is built, the addresses are
  processed and the constraints are solved (\<open>AndersenBase::analyze\<close> without files and statistics). For
  programs without field accesses the result is the least solution of the constraints of the statements.
\<close>

section \<open>The analysis\<close>

text \<open>The solver is an argument: \<open>solveWorklist\<close>, or \<open>wave_solveWorklist\<close> for the wave propagation.\<close>

definition ander_new :: "'s \<Rightarrow> cons_graph \<Rightarrow> pag_state \<Rightarrow> 's ander" where
  "ander_new s G P = \<lparr>an_pts = s, consCG = G, an_pag = P, an_worklist = fifo_new, redundantGepNodes = sbv_new, reanalyze = False\<rparr>"

definition an_initialize :: "('s, 'd) pta_data \<Rightarrow> 's \<Rightarrow> pag_state \<Rightarrow> pta_stmts \<Rightarrow> 's ander option" where
  "an_initialize D s P stmts = do { G \<leftarrow> buildCG P stmts; processAllAddr D (ander_new s G P) }"

definition an_analyze :: "('s, 'd) pta_data \<Rightarrow> ('s ander \<Rightarrow> 's ander option) \<Rightarrow> ('s ander \<Rightarrow> (bool \<times> 's ander) option) \<Rightarrow> 's \<Rightarrow>
    pag_state \<Rightarrow> pta_stmts \<Rightarrow> 's ander option" where
  "an_analyze D solve updateCallGraph s P stmts = do {
     st \<leftarrow> an_initialize D s P stmts;
     solveConstraints solve updateCallGraph st
   }"

section \<open>The constraints of the statements\<close>

definition stmt_solution :: "pta_stmts \<Rightarrow> pag_state \<Rightarrow> (NodeID \<Rightarrow> NodeID set) \<Rightarrow> bool" where
  "stmt_solution st P S \<longleftrightarrow> (\<forall>(ob, d) \<in> set (st_addr st). ob \<in> S d) \<and> (\<forall>(s, d) \<in> set (copy_pairs st). S s \<subseteq> S d) \<and>
     (\<forall>(n, d) \<in> set (st_load st). \<forall>ob \<in> S n. \<not> skips P ob d \<longrightarrow> S ob \<subseteq> S d) \<and>
     (\<forall>(s, n) \<in> set (st_store st). \<forall>ob \<in> S n. \<not> skips P ob s \<longrightarrow> S s \<subseteq> S ob)"

lemma pair_edge: "GEdge k s d \<in> pair_edges j xs \<longleftrightarrow> k = j \<and> (s, d) \<in> set xs \<and> (j = KCopy \<longrightarrow> s \<noteq> d)"
  by (auto simp: pair_edges_def)

lemma stmt_edge_kinds:
  assumes "st_gep st = []"
  shows "GEdge KAddr s d \<in> stmt_edges st \<longleftrightarrow> (s, d) \<in> set (st_addr st)"
    "GEdge KCopy s d \<in> stmt_edges st \<longleftrightarrow> (s, d) \<in> set (copy_pairs st) \<and> s \<noteq> d"
    "GEdge KLoad s d \<in> stmt_edges st \<longleftrightarrow> (s, d) \<in> set (st_load st)"
    "GEdge KStore s d \<in> stmt_edges st \<longleftrightarrow> (s, d) \<in> set (st_store st)"
    "\<forall>e \<in> stmt_edges st. edgeFlag e \<le> 3"
proof -
  have E: "stmt_edges st = pair_edges KAddr (st_addr st) \<union> pair_edges KCopy (copy_pairs st) \<union>
      pair_edges KLoad (st_load st) \<union> pair_edges KStore (st_store st)"
    by (simp add: stmt_edges_def assms gep_edges_def)
  show "GEdge KAddr s d \<in> stmt_edges st \<longleftrightarrow> (s, d) \<in> set (st_addr st)"
    "GEdge KCopy s d \<in> stmt_edges st \<longleftrightarrow> (s, d) \<in> set (copy_pairs st) \<and> s \<noteq> d"
    "GEdge KLoad s d \<in> stmt_edges st \<longleftrightarrow> (s, d) \<in> set (st_load st)"
    "GEdge KStore s d \<in> stmt_edges st \<longleftrightarrow> (s, d) \<in> set (st_store st)"
    unfolding E Un_iff pair_edge by simp_all
  show "\<forall>e \<in> stmt_edges st. edgeFlag e \<le> 3"
  proof
    fix e assume e: "e \<in> stmt_edges st"
    obtain k s d where k: "e = GEdge k s d" by (cases e)
    have "k = KAddr \<or> k = KCopy \<or> k = KLoad \<or> k = KStore" using e unfolding k E Un_iff pair_edge by blast
    then show "edgeFlag e \<le> 3" unfolding k by (elim disjE) simp_all
  qed
qed

lemma all_pairs: "(\<forall>(a, b) \<in> A. Q a b) \<longleftrightarrow> (\<forall>a b. (a, b) \<in> A \<longrightarrow> Q a b)"
  by auto

lemma stmt_solution_graph:
  assumes "st_gep st = []" "cg_edges G = stmt_edges st"
  shows "solution G P S \<longleftrightarrow> stmt_solution st P S"
proof -
  note k = stmt_edge_kinds [OF assms(1)]
  have 1: "(\<forall>s d. (s, d) \<in> set (copy_pairs st) \<and> s \<noteq> d \<longrightarrow> S s \<subseteq> S d) \<longleftrightarrow> (\<forall>(s, d) \<in> set (copy_pairs st). S s \<subseteq> S d)"
    unfolding all_pairs by auto
  show ?thesis unfolding solution_def stmt_solution_def assms(2) k(1-4) 1 all_pairs by (simp add: Ball_def)
qed

text \<open>The statements of a program without field accesses, over known nodes.\<close>

definition plain_program :: "pag_state \<Rightarrow> pta_stmts \<Rightarrow> bool" where
  "plain_program P st \<longleftrightarrow> omap (IDToNodeMap (pag_graph P)) \<and> st_gep st = [] \<and> stmt_ends st \<subseteq> dom (pag_node P) \<and>
     (\<forall>(ob, d) \<in> set (st_addr st). isConstantObj P ob \<noteq> None)"

lemma plain_graph:
  assumes "plain_program P st"
  shows "\<exists>G. buildCG P st = Some G \<and> plain_input G P \<and> cg_edges G = stmt_edges st \<and> objs_of G = fst ` set (st_addr st)"
proof -
  note p = assms [unfolded plain_program_def]
  obtain G where G: "buildCG P st = Some G" "cg_ok G" "cg_edges G = stmt_edges st" "cg_nodes G = kept_nodes P (stmt_edges st)"
      "nodeToRepMap G = []" "\<not> hasNodesToBeCollapsed G"
    using buildCG_spec p by blast
  have gep: "st_gep st = []" using p by simp
  note k = stmt_edge_kinds [OF gep]
  have objs: "objs_of G = fst ` set (st_addr st)" by (force simp: objs_of_def G(3) k(1))
  have "\<not> is_gep e" if "e \<in> cg_edges G" for e
    using cg_edge_kind [OF G(2) that] k(5) that unfolding G(3) is_gep_def by fastforce
  moreover have "pag_node P i \<noteq> None" if "i \<in> cg_nodes G" for i using that unfolding G(4) kept_nodes_def by blast
  moreover have "isConstantObj P ob \<noteq> None" if "ob \<in> objs_of G" for ob using that p unfolding objs by fastforce
  ultimately have "plain_input G P" using G(2,5,6) by (simp add: plain_input_def)
  then show ?thesis using G(1,3) objs by blast
qed

text \<open>With no new calls the analysis is one round.\<close>

lemma solve_once:
  assumes "\<not> reanalyze st" "solve st = Some t" "update t = Some (False, t)" "\<not> reanalyze t"
  shows "solveConstraints solve update st = Some t"
proof -
  have "st\<lparr>reanalyze := False\<rparr> = st" using assms(1) by (cases st) simp
  then show ?thesis by (subst solveConstraints.simps) (simp add: assms(2-4))
qed

lemma an_analyze_spec:
  assumes p: "plain_program P st" and opt: "DiffPts opt" and val: "\<forall>(ob, d) \<in> set (st_addr st). pt_node_ok g ob"
    and s: "mdiff_inv h g s" "mdiff_pts h g s = (\<lambda>_. {})" "km_view (pt_set_ops h g) pt_nodes (md_propa s) = (\<lambda>_. {})"
    and up: "\<And>t. update t = Some (False, t)"
  shows "\<exists>t. an_analyze (mutable_pta (pt_set_ops h g)) (solveWorklist (mutable_pta (pt_set_ops h g)) opt) update s P st = Some t \<and> isWorklistEmpty t \<and>
    stmt_solution st P (mdiff_pts h g (an_pts t)) \<and>
    (\<forall>S. stmt_solution st P S \<longrightarrow> (\<forall>n. mdiff_pts h g (an_pts t) n \<subseteq> S n))"
proof -
  obtain G where G: "buildCG P st = Some G" "plain_input G P" "cg_edges G = stmt_edges st" "objs_of G = fst ` set (st_addr st)"
    using plain_graph [OF p] by blast
  have gep: "st_gep st = []" using p by (simp add: plain_program_def)
  note sol = stmt_solution_graph [OF gep G(3), of P]
  have v: "\<forall>ob \<in> objs_of G. pt_node_ok g ob" using val unfolding G(4) by fastforce
  let ?D = "mutable_pta (pt_set_ops h g)"
  let ?s = "ander_new s G P"
  obtain u t where u: "processAllAddr ?D ?s = Some u" "\<not> reanalyze u" "solveWorklist ?D opt u = Some t" "isWorklistEmpty t" "\<not> reanalyze t"
      "solution G P (mdiff_pts h g (an_pts t))" "\<forall>S. solution G P S \<longrightarrow> (\<forall>n. mdiff_pts h g (an_pts t) n \<subseteq> S n)"
    using an.andersen_least [OF G(2) opt v, where h = h and st = ?s] s by (auto simp: ander_new_def)
  have "an_analyze ?D (solveWorklist ?D opt) update s P st = Some t"
    using G(1) u(1) solve_once [of u "solveWorklist ?D opt" t update, OF u(2,3) up u(5)] by (simp add: an_analyze_def an_initialize_def)
  then show ?thesis using u(4,6,7) unfolding sol by blast
qed

end
