(* ===== verification/AnderSamples.thy ===== *)
theory AnderSamples
  imports StructSamples AndersenRun
begin

text \<open>
  A program of eight statements on which the analysis is instantiated, a small constraint graph for merges and an
  object with fields.
\<close>

section \<open>A program\<close>

text \<open>
  \<open>b = &o1; c = &o2; p = &o3; b = a; a = *p; x = *a; *p = b; *b = c\<close>: objects 10, 11, 12 and variables
  \<open>a\<close> to \<open>x\<close> from 20 on.
\<close>

definition sample_obj :: mem_obj where
  "sample_obj = \<lparr>mo_ptr = Some True, mo_flags = 0, maxOffsetLimit = 3, elemNum = 3\<rparr>"

definition sample_pag :: pag_state where
  "sample_pag = \<lparr>pag_graph = gen_graph_new\<lparr>IDToNodeMap :=
       [(10, FIObjVar True 10), (11, FIObjVar True 11), (12, FIObjVar True 12), (20, ValVar True), (21, ValVar True), (22, ValVar True),
        (23, ValVar True), (24, ValVar True)]\<rparr>,
     objMap = [(10, sample_obj), (11, sample_obj), (12, sample_obj)], GepObjVarMap = [], memToFieldsMap = [],
     pag_alloc = node_allocator_new DENSE\<rparr>"

definition sample_stmts :: pta_stmts where
  "sample_stmts = \<lparr>st_addr = [(10, 21), (11, 23), (12, 22)], st_copy = [(20, 21)], st_phi = [], st_select = [], st_call = [], st_ret = [],
     st_fork = [], st_join = [], st_gep = [], st_load = [(22, 20), (20, 24)], st_store = [(21, 22), (23, 21)]\<rparr>"

definition sample_options :: an_options where
  "sample_options = \<lparr>an_pag_opt = \<lparr>MaxFieldLimit = 512, FirstFieldEqBase = True, CyclicFldIdx = False\<rparr>, DiffPts = True, DetectPWC = False\<rparr>"

lemma sample_pag_nodes:
  "pag_node sample_pag i = (if i \<in> {10, 11, 12} then Some (FIObjVar True i) else if i \<in> {20, 21, 22, 23, 24} then Some (ValVar True) else None)"
  by (simp add: pag_node_def getGNode_def sample_pag_def)

lemma sample_copies: "copy_pairs sample_stmts = [(20, 21)]"
  by (simp add: copy_pairs_def multi_pairs_def sample_stmts_def)

lemma sample_ends: "stmt_ends sample_stmts \<subseteq> dom (pag_node sample_pag)"
  by (simp add: stmt_ends_def sample_copies) (simp add: sample_stmts_def sample_pag_nodes dom_def)

lemma sample_constant: "i \<in> {10, 11, 12} \<Longrightarrow> isConstantObj sample_pag i = Some False"
  by (auto simp: isConstantObj_def getBaseObj_def sample_pag_nodes sample_obj_def constantObjectId_def mo_isConstDataOrConstGlobal_def
      mo_hasFlag_def CONST_GLOBAL_OBJ_def CONST_DATA_def) (auto simp: sample_pag_def sample_obj_def)

lemma sample_program: "plain_program sample_pag sample_stmts"
  unfolding plain_program_def
proof (intro conjI)
  show "omap (IDToNodeMap (pag_graph sample_pag))" by (simp add: omap_def sample_pag_def)
  show "st_gep sample_stmts = []" by (simp add: sample_stmts_def)
  show "stmt_ends sample_stmts \<subseteq> dom (pag_node sample_pag)" by (rule sample_ends)
  show "\<forall>(ob, d) \<in> set (st_addr sample_stmts). isConstantObj sample_pag ob \<noteq> None"
    using sample_constant [of 10] sample_constant [of 11] sample_constant [of 12] by (simp add: sample_stmts_def del: not_None_eq)
qed

lemma sample_skips: "ob \<in> {10, 11, 12} \<Longrightarrow> x \<in> {20, 21, 22, 23, 24} \<Longrightarrow> \<not> skips sample_pag ob x"
  by (auto simp: skips_def sample_constant sample_pag_nodes)

text \<open>The least solution.\<close>

definition sample_sol :: "NodeID \<Rightarrow> NodeID set" where
  "sample_sol i = (if i \<in> {12, 20, 21} then {10} else if i \<in> {10, 23, 24} then {11} else if i = 22 then {12} else {})"

lemma sample_least: "stmt_solution sample_stmts sample_pag sample_sol"
  by (simp add: stmt_solution_def sample_copies) (simp add: sample_stmts_def sample_sol_def)

lemma sample_forced:
  assumes s: "stmt_solution sample_stmts sample_pag S"
  shows "11 \<in> S 24"
proof -
  have 1: "10 \<in> S 21" "11 \<in> S 23" "12 \<in> S 22" using s by (simp_all add: stmt_solution_def sample_stmts_def)
  have st: "S 21 \<subseteq> S 12" "S 23 \<subseteq> S 10" using s 1 sample_skips [of 12 21] sample_skips [of 10 23]
    by (auto simp: stmt_solution_def sample_stmts_def)
  have l1: "S 12 \<subseteq> S 20" using s 1 sample_skips [of 12 20] by (auto simp: stmt_solution_def sample_stmts_def)
  have "10 \<in> S 20" using 1 st l1 by blast
  then have "S 10 \<subseteq> S 24" using s sample_skips [of 10 24] by (auto simp: stmt_solution_def sample_stmts_def)
  then show ?thesis using 1 st by blast
qed

section \<open>A constraint graph\<close>

definition sample_cg :: cons_graph where
  "sample_cg = the (add_pairs addCopyCGEdge [(1, 2), (2, 1), (2, 3)] (fold addConstraintNode [1, 2, 3] cons_graph_new))"

lemma sample_cg:
  "cg_ok sample_cg" "classes_ok sample_cg" "cg_nodes sample_cg = {1, 2, 3}"
  "cg_edges sample_cg = {GEdge KCopy 1 2, GEdge KCopy 2 1, GEdge KCopy 2 3}" "nodeToRepMap sample_cg = []"
proof -
  let ?G = "fold addConstraintNode [1, 2, 3] cons_graph_new"
  have G: "cg_ok ?G" "cg_nodes ?G = {1, 2, 3}" "cg_edges ?G = {}" "nodeToRepMap ?G = []"
    using addConstraintNodes_spec [OF cg_ok_new(1), of "[1, 2, 3]"] cg_ok_new(2,3) by (auto simp: cons_graph_new_def)
  have "add s d G = add_kind KCopy s d 0 G" if "add = addCopyCGEdge" for add s d G using that by (simp add: add_kind_def)
  then obtain H where H: "add_pairs addCopyCGEdge [(1, 2), (2, 1), (2, 3)] ?G = Some H" "grown ?G (pair_edges KCopy [(1, 2), (2, 1), (2, 3)]) H"
    using add_pairs_spec [OF G(1), of "[(1, 2), (2, 1), (2, 3)]" KCopy addCopyCGEdge] G(2) by auto
  have sH: "sample_cg = H" using H(1) by (simp add: sample_cg_def)
  have h: "cg_ok H" "cg_frame ?G H" "cg_edges H = pair_edges KCopy [(1, 2), (2, 1), (2, 3)]" using H(2) G(3) by (simp_all add: grown_def)
  have n: "cg_nodes H = {1, 2, 3}" "nodeToRepMap H = []" using h(2) G(2,4) by (simp_all add: cg_frame_def)
  have "nodeToSubsMap ?G = []" by (simp add: addConstraintNode_def cons_graph_new_def)
  then have s: "nodeToSubsMap H = []" using h(2) by (simp add: cg_frame_def)
  show "cg_ok sample_cg" "cg_nodes sample_cg = {1, 2, 3}" "nodeToRepMap sample_cg = []" using sH h(1) n by simp_all
  show "cg_edges sample_cg = {GEdge KCopy 1 2, GEdge KCopy 2 1, GEdge KCopy 2 3}"
    unfolding sH h(3) by (auto simp: pair_edges_def)
  show "classes_ok sample_cg" unfolding sH classes_ok_def s n by (simp add: subs_of_def s km_all_def)
qed

section \<open>An object with fields\<close>

definition sample_fields :: pag_state where
  "sample_fields = \<lparr>pag_graph = gen_graph_new\<lparr>IDToNodeMap := [(4, FIObjVar True 4)]\<rparr>, objMap = [(4, sample_obj)],
     GepObjVarMap = [], memToFieldsMap = [], pag_alloc = (node_allocator_new DENSE)\<lparr>numObjects := 5, numNodes := 5\<rparr>\<rparr>"

lemma sample_fields:
  "pag_ok 2 sample_fields" "pag_node sample_fields 4 = Some (FIObjVar True 4)" "map_of (objMap sample_fields) 4 = Some sample_obj"
proof -
  have n: "pag_node sample_fields i = (if i = 4 then Some (FIObjVar True 4) else None)" for i
    by (simp add: pag_node_def getGNode_def sample_fields_def)
  show "pag_node sample_fields 4 = Some (FIObjVar True 4)" by (simp add: n)
  show ob: "map_of (objMap sample_fields) 4 = Some sample_obj" by (simp add: sample_fields_def)
  have "gep_nodes_ok sample_fields" by (simp add: gep_nodes_ok_def n) (simp add: sample_fields_def)
  moreover have "obj_nodes_ok sample_fields" using ob by (auto simp: obj_nodes_ok_def n)
  moreover have "field_sets_ok sample_fields" by (simp add: field_sets_ok_def n) (simp add: sample_fields_def km_all_def)
  moreover have "dom (pag_node sample_fields) = {4}" by (auto simp: n split: if_splits)
  then have "node_ids_ok sample_fields" by (simp add: node_ids_ok_def) (simp add: sample_fields_def alloc_used_def node_allocator_new_def)
  moreover have "alloc_ok (pag_alloc sample_fields) 2"
    by (simp add: sample_fields_def alloc_ok_def node_allocator_new_def UINT_MAX_def)
  ultimately show "pag_ok 2 sample_fields" by (simp add: pag_ok_def)
qed

end
