(* ===== verification/AndersenScc.thy ===== *)
theory AndersenScc
  imports AndersenSound SCCCorrect
begin

text \<open>
  Detection and merging of components (\<open>Andersen::SCCDetect\<close>): the constraint graph becomes its quotient by the
  components, without cycles, and the stack of nodes is a topological order of it.
\<close>

section \<open>Quotients of the edges\<close>

text \<open>An edge whose ends are mapped; an edge that stays in place is kept as it is.\<close>

definition quot_edge :: "(NodeID \<Rightarrow> NodeID) \<Rightarrow> gedge \<Rightarrow> gedge set" where
  "quot_edge r e = (if r (getSrcID e) = getSrcID e \<and> r (getDstID e) = getDstID e then {e}
     else redirect (r (getSrcID e)) (r (getDstID e)) e)"

lemma merge_edge_quot: "i \<noteq> r \<Longrightarrow> merge_edge i r e = quot_edge (into i r) e"
  by (auto simp: merge_edge_def quot_edge_def into_def)

lemma quot_edge_id: "quot_edge (\<lambda>x. x) e = {e}"
  by (simp add: quot_edge_def)

lemma quot_edge_comp:
  assumes undo: "\<And>x. s (r x) = x \<Longrightarrow> r x = x"
  shows "(\<Union>x \<in> quot_edge r e. quot_edge s x) = quot_edge (s \<circ> r) e"
proof (cases "r (getSrcID e) = getSrcID e \<and> r (getDstID e) = getDstID e")
  case True
  then show ?thesis by (simp add: quot_edge_def)
next
  case False
  have moved: "\<not> (s (r (getSrcID e)) = getSrcID e \<and> s (r (getDstID e)) = getDstID e)"
  proof
    assume h: "s (r (getSrcID e)) = getSrcID e \<and> s (r (getDstID e)) = getDstID e"
    then show False using False undo [OF conjunct1 [OF h]] undo [OF conjunct2 [OF h]] by simp
  qed
  obtain k a b where e: "e = GEdge k a b" by (cases e)
  have q: "quot_edge r e = redirect (r a) (r b) e" "quot_edge (s \<circ> r) e = redirect (s (r a)) (s (r b)) e"
    using False moved by (simp_all only: quot_edge_def o_apply e gedge.sel if_False)
  show ?thesis
  proof (cases "k = KAddr \<or> isdirectEdge k \<and> r a = r b")
    case True
    then have "redirect (r a) (r b) e = {}" "redirect (s (r a)) (s (r b)) e = {}" by (elim disjE; simp add: redirect_def e)+
    then show ?thesis unfolding q by simp
  next
    case keep: False
    then have r: "redirect (r a) (r b) e = {GEdge k (r a) (r b)}" by (simp add: redirect_def e)
    have "quot_edge s (GEdge k (r a) (r b)) = redirect (s (r a)) (s (r b)) e"
    proof (cases "s (r a) = r a \<and> s (r b) = r b")
      case True
      then show ?thesis using r by (simp add: quot_edge_def)
    next
      case False
      then have "quot_edge s (GEdge k (r a) (r b)) = redirect (s (r a)) (s (r b)) (GEdge k (r a) (r b))"
        by (simp only: quot_edge_def gedge.sel if_False)
      then show ?thesis by (simp only: redirect_def e gedge.sel)
    qed
    then show ?thesis unfolding q r by simp
  qed
qed

lemma quot_edges_comp:
  assumes "\<And>x. s (r x) = x \<Longrightarrow> r x = x"
  shows "(\<Union>x \<in> (\<Union>e \<in> E. quot_edge r e). quot_edge s x) = (\<Union>e \<in> E. quot_edge (s \<circ> r) e)"
  unfolding UN_UN_flatten by (rule SUP_cong [OF refl]) (rule quot_edge_comp [OF assms])

text \<open>A direct edge of the quotient comes from one of the graph, and joins two nodes or was not moved.\<close>

lemma quot_edge_src:
  "x \<in> quot_edge r e \<Longrightarrow> edgeFlag x = edgeFlag e \<and> getSrcID x = r (getSrcID e) \<and> getDstID x = r (getDstID e)"
  by (auto simp: quot_edge_def redirect_def Let_def split: if_splits)

section \<open>The flag of a node\<close>

lemma cg_setPWCNode_spec:
  assumes ok: "cg_ok G" "classes_ok G" and i: "i \<in> cg_nodes G"
  shows "\<exists>K. cg_setPWCNode i G = Some K \<and> cg_ok K \<and> classes_ok K \<and> cg_nodes K = cg_nodes G \<and> cg_edges K = cg_edges G \<and>
    cg_sccRepNode K = cg_sccRepNode G"
proof -
  note o = ok(1) [unfolded cg_ok_def]
  obtain n where n: "getConstraintNode G i = Some (i, n)" "cg_map G i = Some n" using getConstraintNode_node [of G i] o i by blast
  have om: "omap (IDToNodeMap (cg_base G))" using o by (simp add: sides_ok_def)
  let ?n = "n\<lparr>isPWCNode := True\<rparr>"
  let ?K = "putNode i ?n G"
  have map_K: "cg_map ?K = (cg_map G)(i \<mapsto> ?n)" using omap_put_same [OF om n(2), of ?n] by (simp add: putNode_def)
  have nK: "cg_nodes ?K = cg_nodes G" using i unfolding cg_nodes_def map_K by auto
  have eK: "cg_edges ?K = cg_edges G" by (simp add: cg_edges_def putNode_def)
  have reps: "nodeToRepMap ?K = nodeToRepMap G" "nodeToSubsMap ?K = nodeToSubsMap G" by (simp_all add: putNode_def)
  then have rK: "cg_sccRepNode ?K = cg_sccRepNode G" by (simp add: cg_sccRepNode_def fun_eq_iff)
  have "cg_ok ?K" unfolding cg_ok_def eK nK
  proof (intro conjI)
    show "sides_ok (cg_edges G) (cg_edges G) ?K"
      using o n(2) omap_put_same [OF om n(2), of ?n] by (auto simp: sides_ok_def map_K) (simp_all add: putNode_def)
    show "kind_sets_ok (cg_edges G) ?K" using o by (simp add: kind_sets_ok_def putNode_def)
    show "reps_ok ?K" using o by (simp add: reps_ok_def nK reps)
  qed (use o in \<open>simp_all add: putNode_def\<close>)
  moreover have "classes_ok ?K" using ok(2) by (simp add: classes_ok_def nK reps rK subs_of_def)
  moreover have "cg_setPWCNode i G = Some ?K" using n(1) by (simp add: cg_setPWCNode_def updNode_def)
  ultimately show ?thesis using nK eK rK by blast
qed

section \<open>Merging\<close>

context andersen_data begin

text \<open>\<open>r\<close> maps the nodes of the graph before to those after; nodes that stay are mapped to themselves.\<close>

definition merged :: "(NodeID \<Rightarrow> NodeID) \<Rightarrow> 's ander \<Rightarrow> 's ander \<Rightarrow> bool" where
  "merged r s t \<longleftrightarrow> inv (an_pts t) \<and> cg_ok (consCG t) \<and> classes_ok (consCG t) \<and>
     (\<forall>x. x \<notin> cg_nodes (consCG s) \<longrightarrow> r x = x) \<and> r ` cg_nodes (consCG s) \<subseteq> cg_nodes (consCG t) \<and>
     cg_nodes (consCG t) \<subseteq> {x \<in> cg_nodes (consCG s). r x = x} \<and>
     E_of t = (\<Union>e \<in> E_of s. quot_edge r e) \<and> cg_sccRepNode (consCG t) = r \<circ> cg_sccRepNode (consCG s) \<and>
     (\<forall>n \<in> cg_nodes (consCG t). P_of t n = (\<Union>m \<in> {m \<in> cg_nodes (consCG s). r m = n}. P_of s m)) \<and>
     an_pag t = an_pag s \<and> an_worklist t = an_worklist s \<and> redundantGepNodes t = redundantGepNodes s \<and> reanalyze t = reanalyze s"

lemma mergedD:
  assumes "merged r s t"
  shows "inv (an_pts t)" "cg_ok (consCG t)" "classes_ok (consCG t)" "x \<notin> cg_nodes (consCG s) \<Longrightarrow> r x = x"
    "x \<in> cg_nodes (consCG s) \<Longrightarrow> r x \<in> cg_nodes (consCG t)" "x \<in> cg_nodes (consCG t) \<Longrightarrow> x \<in> cg_nodes (consCG s) \<and> r x = x"
    "E_of t = (\<Union>e \<in> E_of s. quot_edge r e)" "cg_sccRepNode (consCG t) = r \<circ> cg_sccRepNode (consCG s)"
    "n \<in> cg_nodes (consCG t) \<Longrightarrow> P_of t n = (\<Union>m \<in> {m \<in> cg_nodes (consCG s). r m = n}. P_of s m)"
    "an_pag t = an_pag s" "an_worklist t = an_worklist s" "redundantGepNodes t = redundantGepNodes s" "reanalyze t = reanalyze s"
proof -
  note o = assms [unfolded merged_def]
  have m1: "\<forall>x. x \<notin> cg_nodes (consCG s) \<longrightarrow> r x = x" using o by (elim conjE)
  have m2: "r ` cg_nodes (consCG s) \<subseteq> cg_nodes (consCG t)" using o by (elim conjE)
  have m3: "cg_nodes (consCG t) \<subseteq> {x \<in> cg_nodes (consCG s). r x = x}" using o by (elim conjE)
  have m4: "\<forall>n \<in> cg_nodes (consCG t). P_of t n = (\<Union>m \<in> {m \<in> cg_nodes (consCG s). r m = n}. P_of s m)" using o by (elim conjE)
  show "inv (an_pts t)" using o by (elim conjE)
  show "cg_ok (consCG t)" using o by (elim conjE)
  show "classes_ok (consCG t)" using o by (elim conjE)
  show "E_of t = (\<Union>e \<in> E_of s. quot_edge r e)" using o by (elim conjE)
  show "cg_sccRepNode (consCG t) = r \<circ> cg_sccRepNode (consCG s)" using o by (elim conjE)
  show "an_pag t = an_pag s" using o by (elim conjE)
  show "an_worklist t = an_worklist s" using o by (elim conjE)
  show "redundantGepNodes t = redundantGepNodes s" using o by (elim conjE)
  show "reanalyze t = reanalyze s" using o by (elim conjE)
  show "x \<notin> cg_nodes (consCG s) \<Longrightarrow> r x = x" using m1 by blast
  show "x \<in> cg_nodes (consCG s) \<Longrightarrow> r x \<in> cg_nodes (consCG t)" using m2 by blast
  show "x \<in> cg_nodes (consCG t) \<Longrightarrow> x \<in> cg_nodes (consCG s) \<and> r x = x" using m3 by blast
  show "n \<in> cg_nodes (consCG t) \<Longrightarrow> P_of t n = (\<Union>m \<in> {m \<in> cg_nodes (consCG s). r m = n}. P_of s m)" using m4 by blast
qed

lemma merged_refl: "inv (an_pts s) \<Longrightarrow> cg_ok (consCG s) \<Longrightarrow> classes_ok (consCG s) \<Longrightarrow> merged (\<lambda>x. x) s s"
  by (auto simp: merged_def quot_edge_id)

lemma merged_trans:
  assumes 1: "merged r s t" and 2: "merged q t u"
  shows "merged (q \<circ> r) s u"
proof -
  note a = mergedD [OF 1] and b = mergedD [OF 2]
  have undo: "r x = x" if "q (r x) = x" for x
  proof (cases "x \<in> cg_nodes (consCG s)")
    case True
    then have "x \<in> cg_nodes (consCG u)" using b(5) [OF a(5) [OF True]] that by simp
    then show ?thesis using a(6) b(6) by blast
  next
    case False
    then show ?thesis by (rule a(4))
  qed
  have P: "P_of u n = (\<Union>m \<in> {m \<in> cg_nodes (consCG s). (q \<circ> r) m = n}. P_of s m)" if n: "n \<in> cg_nodes (consCG u)" for n
  proof -
    have "P_of u n = (\<Union>m \<in> {m \<in> cg_nodes (consCG t). q m = n}. (\<Union>m' \<in> {m' \<in> cg_nodes (consCG s). r m' = m}. P_of s m'))"
      using b(9) [OF n] a(9) by simp
    also have "\<dots> = (\<Union>m \<in> {m \<in> cg_nodes (consCG s). (q \<circ> r) m = n}. P_of s m)" using a(5) by auto
    finally show ?thesis .
  qed
  show ?thesis unfolding merged_def
  proof (intro conjI ballI allI impI)
    show "(q \<circ> r) x = x" if x: "x \<notin> cg_nodes (consCG s)" for x
    proof -
      have "x \<notin> cg_nodes (consCG t)" using a(6) x by blast
      then show ?thesis using a(4) [OF x] b(4) by simp
    qed
    show "(q \<circ> r) ` cg_nodes (consCG s) \<subseteq> cg_nodes (consCG u)" using a(5) b(5) by auto
    show "cg_nodes (consCG u) \<subseteq> {x \<in> cg_nodes (consCG s). (q \<circ> r) x = x}" using a(6) b(6) by auto
    show "E_of u = (\<Union>e \<in> E_of s. quot_edge (q \<circ> r) e)" unfolding b(7) a(7) by (rule quot_edges_comp) (rule undo)
    show "cg_sccRepNode (consCG u) = q \<circ> r \<circ> cg_sccRepNode (consCG s)" unfolding b(8) a(8) by (simp add: comp_assoc)
  qed (use P b(1-3,10-13) a(10-13) in simp_all)
qed

lemma mergeNodeToRep_spec:
  assumes s: "inv (an_pts st)" "cg_ok (consCG st)" "classes_ok (consCG st)" and i: "i \<in> cg_nodes (consCG st)"
    and r: "r \<in> cg_nodes (consCG st)" and ne: "i \<noteq> r"
  shows "\<exists>t. mergeNodeToRep D opt i r st = Some t \<and> merged (into i r) st t"
proof -
  have rep: "an_rep (st\<lparr>an_pts := x\<rparr>) j = j" if "j \<in> cg_nodes (consCG st)" for x j
    using cg_rep_node [OF s(2) that] by (simp add: an_rep_def)
  have rep0: "an_rep st j = j" if "j \<in> cg_nodes (consCG st)" for j using cg_rep_node [OF s(2) that] by (simp add: an_rep_def)
  obtain p where p: "an_updatePropaPts D opt r i st = Some (st\<lparr>an_pts := p\<rparr>)" "inv p" "pts p = P_of st"
  proof (cases "DiffPts opt")
    case True
    obtain p where "pa_updatePropaPtsMap D (an_pts st) i r = Some p" "inv p" "pts p = P_of st"
      using update_law [OF s(1), of i r] by blast
    then show ?thesis using that True rep0 [OF i] rep0 [OF r] by (simp add: an_updatePropaPts_def)
  next
    case False
    then show ?thesis using that [of "an_pts st"] s(1) by (simp add: an_updatePropaPts_def)
  qed
  obtain b q where q: "o_unionPts (pa_ops D) p r i = Some (b, q)" "inv q" "pts q = (P_of st)(r := P_of st r \<union> P_of st i)"
    using union_law [OF p(2), of r i] p(3) by auto
  obtain pwc K where K: "merge_graph i r (consCG st) = Some (pwc, K)" "cg_ok K" "classes_ok K" "cg_nodes K = cg_nodes (consCG st) - {i}"
      "cg_edges K = (\<Union>e \<in> E_of st. merge_edge i r e)" "cg_sccRepNode K = (\<lambda>j. into i r (cg_sccRepNode (consCG st) j))"
    using merge_graph_spec [OF s(2,3) i r ne] by blast
  let ?t = "st\<lparr>an_pts := q, consCG := K\<rparr>"
  have run: "mergeSrcToTgt D opt i r st = Some (pwc, ?t)"
    using p(1) q(1) K(1) ne rep [OF i] rep [OF r] by (simp add: mergeSrcToTgt_def an_unionPts_def on_pts_def)
  have rK: "r \<in> cg_nodes K" using r ne K(4) by simp
  obtain L where L: "cg_setPWCNode r K = Some L" "cg_ok L" "classes_ok L" "cg_nodes L = cg_nodes K" "cg_edges L = cg_edges K"
      "cg_sccRepNode L = cg_sccRepNode K"
    using cg_setPWCNode_spec [OF K(2,3) rK] by blast
  have P: "pts q n = (\<Union>m \<in> {m \<in> cg_nodes (consCG st). into i r m = n}. P_of st m)" if n: "n \<in> cg_nodes K" for n
  proof -
    have "{m \<in> cg_nodes (consCG st). into i r m = n} = (if n = r then {i, r} else {n})"
      using n i r ne unfolding K(4) by (auto simp: into_def)
    then show ?thesis using q(3) by auto
  qed
  have m: "merged (into i r) st (st\<lparr>an_pts := q, consCG := H\<rparr>)"
    if H: "cg_ok H" "classes_ok H" "cg_nodes H = cg_nodes K" "cg_edges H = cg_edges K" "cg_sccRepNode H = cg_sccRepNode K" for H
    unfolding merged_def
  proof (intro conjI)
    show "E_of (st\<lparr>an_pts := q, consCG := H\<rparr>) = (\<Union>e \<in> E_of st. quot_edge (into i r) e)"
      using H(4) K(5) merge_edge_quot [OF ne] by simp
    show "\<forall>n \<in> cg_nodes (consCG (st\<lparr>an_pts := q, consCG := H\<rparr>)).
        P_of (st\<lparr>an_pts := q, consCG := H\<rparr>) n = (\<Union>m \<in> {m \<in> cg_nodes (consCG st). into i r m = n}. P_of st m)"
      using P H(3) by simp
  qed (use q(2) H K(4,6) i r ne in \<open>auto simp: into_def fun_eq_iff\<close>)
  show ?thesis
  proof (cases pwc)
    case True
    then have "mergeNodeToRep D opt i r st = Some (st\<lparr>an_pts := q, consCG := L\<rparr>)" using run L(1) by (simp add: mergeNodeToRep_def)
    then show ?thesis using m [OF L(2-6)] by blast
  next
    case False
    then have "mergeNodeToRep D opt i r st = Some ?t" using run by (simp add: mergeNodeToRep_def)
    then show ?thesis using m [OF K(2,3)] by blast
  qed
qed

text \<open>All nodes of a list are merged into one.\<close>

definition collect :: "NodeID set \<Rightarrow> NodeID \<Rightarrow> NodeID \<Rightarrow> NodeID" where
  "collect A r x = (if x \<in> A then r else x)"

lemma collect_into: "n \<noteq> r \<Longrightarrow> collect A r \<circ> into n r = collect (insert n A) r"
  by (auto simp: collect_def into_def)

lemma merge_list_spec:
  assumes s: "inv (an_pts st)" "cg_ok (consCG st)" "classes_ok (consCG st)" and r: "r \<in> cg_nodes (consCG st)"
    and ns: "distinct ns" "set ns \<subseteq> cg_nodes (consCG st)"
  shows "\<exists>t. ofold (\<lambda>n st. if n \<noteq> r then mergeNodeToRep D opt n r st else Some st) ns st = Some t \<and> merged (collect (set ns) r) st t"
  using assms
proof (induction ns arbitrary: st)
  case Nil
  have "collect {} r = (\<lambda>x. x)" by (simp add: collect_def fun_eq_iff)
  then show ?case using merged_refl [OF Nil.prems(1-3)] by simp
next
  case (Cons n ns)
  show ?case
  proof (cases "n = r")
    case True
    have "collect (set (n # ns)) r = collect (set ns) r" using True by (auto simp: collect_def)
    then show ?thesis using Cons.IH [OF Cons.prems(1-4)] Cons.prems(5,6) True by simp
  next
    case False
    have n: "n \<in> cg_nodes (consCG st)" using Cons.prems(6) by simp
    obtain u where u: "mergeNodeToRep D opt n r st = Some u" "merged (into n r) st u"
      using mergeNodeToRep_spec [OF Cons.prems(1-3) n Cons.prems(4) False] by blast
    note m = mergedD [OF u(2)]
    have ru: "r \<in> cg_nodes (consCG u)" using m(5) [OF Cons.prems(4)] False by (simp add: into_def)
    have nsu: "set ns \<subseteq> cg_nodes (consCG u)"
    proof
      fix x assume x: "x \<in> set ns"
      then have "x \<noteq> n" using Cons.prems(5) by auto
      moreover have "x \<in> cg_nodes (consCG st)" using x Cons.prems(6) by auto
      ultimately show "x \<in> cg_nodes (consCG u)" using m(5) [of x] by (simp add: into_def)
    qed
    have "distinct ns" using Cons.prems(5) by simp
    then obtain t where t: "ofold (\<lambda>n st. if n \<noteq> r then mergeNodeToRep D opt n r st else Some st) ns u = Some t"
        "merged (collect (set ns) r) u t"
      using Cons.IH [OF m(1-3) ru _ nsu] by blast
    have "merged (collect (set (n # ns)) r) st t" using merged_trans [OF u(2) t(2)] collect_into [OF False, of "set ns"] by simp
    then show ?thesis using u(1) t(1) False by simp
  qed
qed

lemma mergeSccNodes_spec:
  assumes s: "inv (an_pts st)" "cg_ok (consCG st)" "classes_ok (consCG st)" and r: "r \<in> cg_nodes (consCG st)"
    and subs: "sbv_inv subs" "sbv_bits subs \<subseteq> cg_nodes (consCG st)"
  shows "\<exists>t. mergeSccNodes D opt r subs st = Some t \<and> merged (collect (sbv_bits subs) r) st t"
proof -
  obtain ns where ns: "sbv_list subs = Some ns" "set ns = sbv_bits subs" "distinct ns" using sv.elements_set [OF subs(1)] by auto
  have "set ns \<subseteq> cg_nodes (consCG st)" using ns(2) subs(2) by simp
  then obtain t where t: "ofold (\<lambda>n st. if n \<noteq> r then mergeNodeToRep D opt n r st else Some st) ns st = Some t"
      "merged (collect (set ns) r) st t"
    using merge_list_spec [OF s r ns(3)] by blast
  then show ?thesis using ns(1,2) by (intro exI [of _ t]) (simp add: mergeSccNodes_def)
qed

text \<open>\<open>f\<close> gives the representative of a node, \<open>V\<close> the nodes the search has found.\<close>

definition collect_classes :: "NodeID set \<Rightarrow> (NodeID \<Rightarrow> NodeID) \<Rightarrow> NodeID set \<Rightarrow> NodeID \<Rightarrow> NodeID" where
  "collect_classes V f A x = (if x \<in> V \<and> f x \<in> A then f x else x)"

lemma mergeSccCycle_loop:
  assumes s: "inv (an_pts st)" "cg_ok (consCG st)" "classes_ok (consCG st)"
    and T: "distinct Ts" "\<forall>p \<in> set Ts. p \<in> V \<and> f p = p \<and> {x \<in> V. f x = p} \<subseteq> cg_nodes (consCG st) \<and>
      (\<exists>s. subNodes p scc = Some s \<and> sbv_inv s \<and> sbv_bits s = {x \<in> V. f x = p})"
  shows "\<exists>t. ofold (\<lambda>p st. do { s \<leftarrow> subNodes p scc; mergeSccNodes D opt p s st }) Ts st = Some t \<and>
    merged (collect_classes V f (set Ts)) st t"
  using assms
proof (induction Ts arbitrary: st)
  case Nil
  have "collect_classes V f {} = (\<lambda>x. x)" by (simp add: collect_classes_def fun_eq_iff)
  then show ?case using merged_refl [OF Nil.prems(1-3)] by simp
next
  case (Cons p Ts)
  let ?C = "{x \<in> V. f x = p}"
  have p: "p \<in> V" "f p = p" "?C \<subseteq> cg_nodes (consCG st)" using Cons.prems(5) by simp_all
  obtain b where b: "subNodes p scc = Some b" "sbv_inv b" "sbv_bits b = ?C" using Cons.prems(5) by auto
  have pn: "p \<in> cg_nodes (consCG st)" using p by blast
  have bn: "sbv_bits b \<subseteq> cg_nodes (consCG st)" using b(3) p(3) by simp
  obtain u where u: "mergeSccNodes D opt p b st = Some u" "merged (collect ?C p) st u"
    using mergeSccNodes_spec [OF Cons.prems(1-3) pn b(2) bn] b(3) by auto
  note m = mergedD [OF u(2)]
  have d: "distinct Ts" "p \<notin> set Ts" using Cons.prems(4) by simp_all
  have "\<forall>q \<in> set Ts. q \<in> V \<and> f q = q \<and> {x \<in> V. f x = q} \<subseteq> cg_nodes (consCG u) \<and>
      (\<exists>s. subNodes q scc = Some s \<and> sbv_inv s \<and> sbv_bits s = {x \<in> V. f x = q})"
  proof
    fix q assume q: "q \<in> set Ts"
    have a: "q \<in> V \<and> f q = q \<and> {x \<in> V. f x = q} \<subseteq> cg_nodes (consCG st) \<and>
      (\<exists>s. subNodes q scc = Some s \<and> sbv_inv s \<and> sbv_bits s = {x \<in> V. f x = q})" using Cons.prems(5) q by simp
    have "{x \<in> V. f x = q} \<subseteq> cg_nodes (consCG u)"
    proof
      fix x assume x: "x \<in> {x \<in> V. f x = q}"
      then have "f x \<noteq> p" using q d(2) by auto
      moreover have "x \<in> cg_nodes (consCG st)" using a x by blast
      ultimately show "x \<in> cg_nodes (consCG u)" using m(5) [of x] by (simp add: collect_def)
    qed
    then show "q \<in> V \<and> f q = q \<and> {x \<in> V. f x = q} \<subseteq> cg_nodes (consCG u) \<and>
      (\<exists>s. subNodes q scc = Some s \<and> sbv_inv s \<and> sbv_bits s = {x \<in> V. f x = q})" using a by blast
  qed
  then obtain t where t: "ofold (\<lambda>p st. do { s \<leftarrow> subNodes p scc; mergeSccNodes D opt p s st }) Ts u = Some t"
      "merged (collect_classes V f (set Ts)) u t"
    using Cons.IH [OF m(1-3) d(1)] by blast
  have "collect_classes V f (set Ts) \<circ> collect ?C p = collect_classes V f (set (p # Ts))"
  proof
    fix x
    show "(collect_classes V f (set Ts) \<circ> collect ?C p) x = collect_classes V f (set (p # Ts)) x"
      using p(1,2) d(2) by (auto simp: collect_classes_def collect_def)
  qed
  then have "merged (collect_classes V f (set (p # Ts))) st t" using merged_trans [OF u(2) t(2)] by simp
  then show ?case using b(1) u(1) t(1) by simp
qed

end

section \<open>The search on a constraint graph\<close>

definition scc_kind :: "bool \<Rightarrow> nat \<Rightarrow> bool" where
  "scc_kind pwc k \<longleftrightarrow> (if pwc then isdirectEdge k else k = KCopy)"

lemma cg_scc_edge:
  assumes ok: "cg_ok G"
  shows "sedge (cg_scc_graph pwc G) v w \<longleftrightarrow> (\<exists>e \<in> cg_edges G. getSrcID e = v \<and> getDstID e = w \<and> scc_kind pwc (edgeFlag e))"
proof -
  have out: "set (directOutEdges pwc n) = {e \<in> cg_edges G. getSrcID e = v \<and> scc_kind pwc (edgeFlag e)}" if "cg_map G v = Some n" for n
  proof -
    have "es_ok {e \<in> cg_edges G. getSrcID e = v} (cn_out n)" using ok that by (simp add: cg_ok_def sides_ok_def)
    then have "set (directOutEdges pwc n) = {e \<in> cg_edges G. getSrcID e = v \<and> scc_kind pwc (getEdgeKind e)}"
      by (auto simp: es_ok_def oset_is_def of_kind_def directOutEdges_def scc_kind_def)
    then show ?thesis using cg_edge_kind [OF ok] by auto
  qed
  show ?thesis
  proof (cases "cg_map G v")
    case None
    then have "v \<notin> cg_nodes G" by (auto simp: cg_nodes_def)
    then have "\<not> (\<exists>e \<in> cg_edges G. getSrcID e = v)" using cg_edge_nodes [OF ok] by blast
    moreover have "\<not> sedge (cg_scc_graph pwc G) v w" using None by (simp add: sedge_def cg_scc_graph_def getGNode_def)
    ultimately show ?thesis by blast
  next
    case (Some n)
    have "sedge (cg_scc_graph pwc G) v w \<longleftrightarrow> w \<in> getDstID ` set (directOutEdges pwc n)"
      using Some by (simp add: sedge_def cg_scc_graph_def getGNode_def)
    then show ?thesis unfolding out [OF Some] by blast
  qed
qed

lemma cg_scc_nodes: "scc_nodes (cg_scc_graph pwc G) = cg_nodes G"
  by (auto simp: scc_nodes_def cg_scc_graph_def cg_nodes_def getGNode_def)

lemma cg_scc_roots: "cg_ok G \<Longrightarrow> set (sg_nodes (cg_scc_graph pwc G)) = cg_nodes G"
  by (simp add: cg_scc_graph_def cg_nodes_def dom_map_of_conv_image_fst)

lemma cg_scc_ok:
  assumes ok: "cg_ok G" and small: "\<forall>i \<in> cg_nodes G. i < UINT_MAX"
  shows "scc_graph_ok (cg_scc_graph pwc G)"
proof -
  have "w \<in> cg_nodes G" if "sedge (cg_scc_graph pwc G) v w" for v w using that cg_scc_edge [OF ok] cg_edge_nodes [OF ok] by auto
  then show ?thesis using small cg_scc_roots [OF ok, of pwc] by (simp add: scc_graph_ok_def cg_scc_nodes finite_nodes)
qed

text \<open>Reachability in a quotient is reachability in the graph, when every node reaches its image and is reached from it.\<close>

lemma quot_reach:
  assumes ok: "cg_ok G" "cg_ok H" and E: "cg_edges H = (\<Union>e \<in> cg_edges G. quot_edge r e)"
    and r: "\<And>x. x \<in> cg_nodes G \<Longrightarrow> r x \<in> component (cg_scc_graph pwc G) x"
    and x: "sreach (cg_scc_graph pwc H) a b"
  shows "sreach (cg_scc_graph pwc G) a b"
  using x
proof (induction rule: rtranclp_induct)
  case (step b c)
  obtain x where xe: "x \<in> cg_edges H" "getSrcID x = b" "getDstID x = c" "scc_kind pwc (edgeFlag x)"
    using step.hyps(2) cg_scc_edge [OF ok(2)] by blast
  obtain e where e: "e \<in> cg_edges G" "x \<in> quot_edge r e" using xe(1) unfolding E by blast
  note q = quot_edge_src [OF e(2)]
  have n: "getSrcID e \<in> cg_nodes G" "getDstID e \<in> cg_nodes G" using cg_edge_nodes [OF ok(1) e(1)] by blast+
  have "sedge (cg_scc_graph pwc G) (getSrcID e) (getDstID e)" using cg_scc_edge [OF ok(1)] e(1) q xe(4) by auto
  moreover have "sreach (cg_scc_graph pwc G) b (getSrcID e)" "sreach (cg_scc_graph pwc G) (getDstID e) c"
    using r [OF n(1)] r [OF n(2)] q xe(2,3) by (auto simp: component_def)
  ultimately have "sreach (cg_scc_graph pwc G) b c" by (meson rtranclp.rtrancl_into_rtrancl rtranclp_trans)
  then show ?case using step.IH by (meson rtranclp_trans)
qed simp

context andersen_data begin

lemma an_SCCDetect_spec:
  fixes st opt
  defines "S \<equiv> cg_scc_graph (DetectPWC opt) (consCG st)"
  assumes s: "inv (an_pts st)" "cg_ok (consCG st)" "classes_ok (consCG st)" and small: "\<forall>i \<in> cg_nodes (consCG st). i < UINT_MAX"
  shows "\<exists>r stack t. an_SCCDetect D opt st = Some (stack, t) \<and> merged r st t \<and>
    (\<forall>x \<in> cg_nodes (consCG st). r x \<in> component S x \<and> (\<forall>y \<in> cg_nodes (consCG st). r x = r y \<longleftrightarrow> y \<in> component S x)) \<and>
    set stack = cg_nodes (consCG t) \<and> distinct stack \<and>
    sorted_wrt (\<lambda>a b. \<not> sreach (cg_scc_graph (DetectPWC opt) (consCG t)) b a) stack"
proof -
  let ?N = "cg_nodes (consCG st)"
  have G: "scc_graph_ok S" unfolding S_def by (rule cg_scc_ok [OF s(2) small])
  have ns: "set (sg_nodes S) \<subseteq> scc_nodes S" "set (sg_nodes S) = ?N" unfolding S_def cg_scc_nodes using cg_scc_roots [OF s(2)] by simp_all
  obtain c where c: "scc_find_nodes S (sg_nodes S) = Some c" "scc_inv S {} c" "scc_V c = {x. \<exists>n \<in> set (sg_nodes S). sreach S n x}"
    using scc_find_inv [OF G ns(1)] by blast
  have core: "scc_core S {} c" using c(2) by (simp add: scc_inv_def)
  have V: "scc_V c = ?N"
  proof
    show "scc_V c \<subseteq> ?N" using scc_coreD(2) [OF core] unfolding S_def cg_scc_nodes by blast
    show "?N \<subseteq> scc_V c" unfolding c(3) ns(2) by blast
  qed
  let ?f = "\<lambda>x. get_rep x c"
  note d = scc_done [OF c(2), unfolded V] and b = scc_books [OF c(2), unfolded V]
  have ff: "?f (?f x) = ?f x" if "x \<in> ?N" for x using d(4) [OF that] d(5) [OF that d(2) [OF that]] by simp
  have dist: "distinct (scc_T c)" by (rule sorted_irrefl_distinct [OF b(2)]) simp
  have cls: "{x \<in> ?N. ?f x = p} = component S p" if "p \<in> ?N" "?f p = p" for p
    using d(3) [OF that(1)] d(5) [OF that(1)] that(2) by auto
  have T: "\<forall>p \<in> set (scc_T c). p \<in> ?N \<and> ?f p = p \<and> {x \<in> ?N. ?f x = p} \<subseteq> ?N \<and>
      (\<exists>s. subNodes p c = Some s \<and> sbv_inv s \<and> sbv_bits s = {x \<in> ?N. ?f x = p})"
  proof
    fix p assume "p \<in> set (scc_T c)"
    then have p: "p \<in> ?N" "?f p = p" using b(1) by auto
    have pV: "p \<in> scc_V c" using p(1) V by simp
    have "sbv_inv (in_sub (scc_info_of p c))" using scc_coreD(1) [OF core] by (simp add: scc_bits_ok_def)
    moreover have "subNodes p c = Some (in_sub (scc_info_of p c))" "sbv_bits (in_sub (scc_info_of p c)) = {x \<in> ?N. ?f x = p}"
      using scc_queries(2,3) [OF G c(2) pV] p(2) cls [OF p] by simp_all
    ultimately show "p \<in> ?N \<and> ?f p = p \<and> {x \<in> ?N. ?f x = p} \<subseteq> ?N \<and>
      (\<exists>s. subNodes p c = Some s \<and> sbv_inv s \<and> sbv_bits s = {x \<in> ?N. ?f x = p})" using p by blast
  qed
  let ?r = "collect_classes ?N ?f (set (scc_T c))"
  obtain t where t: "mergeSccCycle D opt c st = Some t" "merged ?r st t"
    using mergeSccCycle_loop [OF s dist T] unfolding mergeSccCycle_def by blast
  have r: "?r x = ?f x" if "x \<in> ?N" for x using that d(2) [OF that] ff [OF that] b(1) by (simp add: collect_classes_def)
  note m = mergedD [OF t(2)]
  have nodes: "set (scc_T c) = cg_nodes (consCG t)"
  proof
    show "set (scc_T c) \<subseteq> cg_nodes (consCG t)"
    proof
      fix p assume "p \<in> set (scc_T c)"
      then have p: "p \<in> ?N" "?f p = p" using b(1) by auto
      then show "p \<in> cg_nodes (consCG t)" using m(5) [OF p(1)] r [OF p(1)] by simp
    qed
    show "cg_nodes (consCG t) \<subseteq> set (scc_T c)"
    proof
      fix p assume "p \<in> cg_nodes (consCG t)"
      then have "p \<in> ?N" "?r p = p" using m(6) by blast+
      then show "p \<in> set (scc_T c)" using r b(1) by simp
    qed
  qed
  have comp: "?r x \<in> component S x" if "x \<in> ?N" for x using d(4) [OF that] r [OF that] by simp
  have comp2: "?r x = ?r y \<longleftrightarrow> y \<in> component S x" if "x \<in> ?N" "y \<in> ?N" for x y using d(5) [OF that] r [OF that(1)] r [OF that(2)] by simp
  have reach: "sreach S x y" if "sreach (cg_scc_graph (DetectPWC opt) (consCG t)) x y" for x y
    unfolding S_def by (rule quot_reach [OF s(2) m(2,7) _ that]) (use comp in \<open>simp add: S_def\<close>)
  have "sorted_wrt (\<lambda>a b. \<not> sreach (cg_scc_graph (DetectPWC opt) (consCG t)) b a) (scc_T c)"
    by (rule sorted_wrt_mono_rel [OF _ b(2)]) (use reach in blast)
  moreover have "an_SCCDetect D opt st = Some (scc_T c, t)"
    using c(1) t(1) by (simp add: an_SCCDetect_def scc_find_def S_def)
  ultimately show ?thesis using t(2) comp comp2 nodes dist by blast
qed

end

end
