(* ===== verification/CacheTerms.thy ===== *)
theory CacheTerms
  imports PersistentCacheSpec
begin

text \<open>
  What a client does with a \<open>PersistentPointsToCache\<close>: it interns points-to sets and combines the numbers it got.
  A term is such a computation, its meaning the set it stands for; a client runs any number of terms on one cache.
\<close>

datatype 'd set_term = Intern 'd | Combine set_op "'d set_term" "'d set_term"

fun term_data :: "'d set_term \<Rightarrow> 'd set" where
  "term_data (Intern d) = {d}"
| "term_data (Combine p a b) = term_data a \<union> term_data b"

text \<open>The number of calls to the cache.\<close>

fun term_calls :: "'d set_term \<Rightarrow> nat" where
  "term_calls (Intern d) = 1"
| "term_calls (Combine p a b) = term_calls a + term_calls b + 1"

fun meaning :: "('d \<Rightarrow> 'a set) \<Rightarrow> 'd set_term \<Rightarrow> 'a set" where
  "meaning els (Intern d) = els d"
| "meaning els (Combine UnionOp a b) = meaning els a \<union> meaning els b"
| "meaning els (Combine ComplementOp a b) = meaning els a - meaning els b"
| "meaning els (Combine IntersectionOp a b) = meaning els a \<inter> meaning els b"

fun cache_op :: "'d data_ops \<Rightarrow> set_op \<Rightarrow> 'd ppcache \<Rightarrow> PointsToID \<Rightarrow> PointsToID \<Rightarrow> (PointsToID \<times> 'd ppcache) option" where
  "cache_op ops UnionOp c l r = unionPts ops c l r"
| "cache_op ops ComplementOp c l r = complementPts ops c l r"
| "cache_op ops IntersectionOp c l r = intersectPts ops c l r"

fun run_term :: "'d data_ops \<Rightarrow> 'd set_term \<Rightarrow> 'd ppcache \<Rightarrow> (PointsToID \<times> 'd ppcache) option" where
  "run_term ops (Intern d) c = emplacePts ops c d"
| "run_term ops (Combine p a b) c = do {
     (i, c) \<leftarrow> run_term ops a c;
     (j, c) \<leftarrow> run_term ops b c;
     cache_op ops p c i j
   }"

fun run_terms :: "'d data_ops \<Rightarrow> 'd set_term list \<Rightarrow> 'd ppcache \<Rightarrow> (PointsToID list \<times> 'd ppcache) option" where
  "run_terms ops [] c = Some ([], c)"
| "run_terms ops (t # ts) c = do { (i, c) \<leftarrow> run_term ops t c; (is, c) \<leftarrow> run_terms ops ts c; Some (i # is, c) }"

lemma meaning_Combine: "meaning els (Combine p a b) = set_of_op p (meaning els a) (meaning els b)"
  by (cases p) simp_all

context data_set begin

text \<open>A number with its set, in a cache that grew from another by at most \<open>n\<close> sets.\<close>

definition stands_for :: "'d ppcache \<Rightarrow> nat \<Rightarrow> 'a set \<Rightarrow> PointsToID \<Rightarrow> 'd ppcache \<Rightarrow> bool" where
  "stands_for c n S i c' \<longleftrightarrow> Inv c' \<and> grows c c' \<and> length (idToPts c') \<le> length (idToPts c) + n \<and>
     i < length (idToPts c') \<and> pts_of els c' i = S"

lemma grows_hd: "Inv c \<Longrightarrow> grows c c' \<Longrightarrow> hd (idToPts c') = hd (idToPts c)"
  by (auto simp: grows_def cache_inv_def ids_ok_def)

lemma cache_op_spec:
  assumes "Inv c" "l < length (idToPts c)" "r < length (idToPts c)" "length (idToPts c) < 2 ^ 32"
  shows "\<exists>i c'. cache_op ops p c l r = Some (i, c') \<and> op_result p c l r i c'"
  using unionPts_spec [OF assms] complementPts_spec [OF assms] intersectPts_spec [OF assms] by (cases p) simp_all

lemma run_term_spec:
  assumes "Inv c" "\<forall>d \<in> term_data t. ok d \<and> same (hd (idToPts c)) d" "length (idToPts c) + term_calls t \<le> 2 ^ 32"
  shows "\<exists>i c'. run_term ops t c = Some (i, c') \<and> stands_for c (term_calls t) (meaning els t) i c'"
  using assms
proof (induction t arbitrary: c)
  case (Intern d)
  then have d: "ok d" "same (hd (idToPts c)) d" "length (idToPts c) < 2 ^ 32" by simp_all
  obtain i c' where "emplacePts ops c d = Some (i, c')" "Inv c'" "grows c c'" "i < length (idToPts c')"
      "pts_of els c' i = els d" "length (idToPts c') \<le> length (idToPts c) + 1"
    by (rule emplacePts_spec [OF Intern.prems(1) d(1,2) disjI1 [OF d(3)]])
  then show ?case by (simp add: stands_for_def)
next
  case (Combine p a b)
  obtain i c1 where 1: "run_term ops a c = Some (i, c1)" "stands_for c (term_calls a) (meaning els a) i c1"
    using Combine.IH(1) [OF Combine.prems(1)] Combine.prems(2,3) by auto
  have c1: "Inv c1" "grows c c1" "length (idToPts c1) \<le> length (idToPts c) + term_calls a"
    using 1(2) by (simp_all add: stands_for_def)
  have d: "\<forall>d \<in> term_data b. ok d \<and> same (hd (idToPts c1)) d" "length (idToPts c1) + term_calls b \<le> 2 ^ 32"
    using Combine.prems(2,3) c1(3) grows_hd [OF Combine.prems(1) c1(2)] by auto
  obtain j c2 where 2: "run_term ops b c1 = Some (j, c2)" "stands_for c1 (term_calls b) (meaning els b) j c2"
    using Combine.IH(2) [OF c1(1) d] by blast
  have c2: "Inv c2" "grows c1 c2" "length (idToPts c2) \<le> length (idToPts c1) + term_calls b" "j < length (idToPts c2)"
      "pts_of els c2 j = meaning els b"
    using 2(2) by (simp_all add: stands_for_def)
  have i: "i < length (idToPts c2)" "pts_of els c2 i = meaning els a"
    using grows_pts_of [OF c2(2), of i els] 1(2) by (simp_all add: stands_for_def)
  have room: "length (idToPts c2) < 2 ^ 32" using c1(3) c2(3) Combine.prems(3) by simp
  obtain k c3 where 3: "cache_op ops p c2 i j = Some (k, c3)" "op_result p c2 i j k c3"
    using cache_op_spec [OF c2(1) i(1) c2(4) room] by blast
  have "grows c c3" using grows_trans [OF c1(2) grows_trans [OF c2(2)]] 3(2) by (simp add: op_result_def)
  then have "stands_for c (term_calls (Combine p a b)) (meaning els (Combine p a b)) k c3"
    using 3(2) i(2) c2(3,5) c1(3) by (simp add: stands_for_def op_result_def meaning_Combine)
  then show ?case using 1(1) 2(1) 3(1) by simp
qed

lemma run_terms_spec:
  assumes "Inv c" "\<forall>t \<in> set ts. \<forall>d \<in> term_data t. ok d \<and> same (hd (idToPts c)) d"
    and "length (idToPts c) + sum_list (map term_calls ts) \<le> 2 ^ 32"
  shows "\<exists>is c'. run_terms ops ts c = Some (is, c') \<and> Inv c' \<and> grows c c' \<and>
    list_all2 (\<lambda>t i. i < length (idToPts c') \<and> pts_of els c' i = meaning els t) ts is"
  using assms
proof (induction ts arbitrary: c)
  case (Cons t ts)
  obtain i c1 where 1: "run_term ops t c = Some (i, c1)" "stands_for c (term_calls t) (meaning els t) i c1"
    using run_term_spec [OF Cons.prems(1), of t] Cons.prems(2,3) by auto
  have c1: "Inv c1" "grows c c1" "length (idToPts c1) \<le> length (idToPts c) + term_calls t" "i < length (idToPts c1)"
      "pts_of els c1 i = meaning els t"
    using 1(2) by (simp_all add: stands_for_def)
  have d: "\<forall>t \<in> set ts. \<forall>d \<in> term_data t. ok d \<and> same (hd (idToPts c1)) d"
      "length (idToPts c1) + sum_list (map term_calls ts) \<le> 2 ^ 32"
    using Cons.prems(2,3) c1(3) grows_hd [OF Cons.prems(1) c1(2)] by auto
  obtain "is" c' where 2: "run_terms ops ts c1 = Some (is, c')" "Inv c'" "grows c1 c'"
      "list_all2 (\<lambda>t i. i < length (idToPts c') \<and> pts_of els c' i = meaning els t) ts is"
    using Cons.IH [OF c1(1) d] by blast
  show ?case using 1(1) 2 grows_trans [OF c1(2) 2(3)] grows_pts_of [OF 2(3) c1(4), of els] c1(5) by auto
qed simp

text \<open>The numbers of a run agree exactly when the terms mean the same set.\<close>

lemma run_terms_numbers:
  assumes "Inv c'" "list_all2 (\<lambda>t i. i < length (idToPts c') \<and> pts_of els c' i = meaning els t) ts is"
    and "k < length ts" "l < length ts"
  shows "is ! k = is ! l \<longleftrightarrow> meaning els (ts ! k) = meaning els (ts ! l)"
  using ids_inj [OF assms(1), of "is ! k" "is ! l"] list_all2_nthD [OF assms(2) assms(3)] list_all2_nthD [OF assms(2) assms(4)]
  by simp

end

end
