(* ===== verification/Spec2Isabelle.thy ===== *)
theory Spec2Isabelle
  imports StructSamples CFLSamples SCCCorrect AnderSamples AndersenScc CacheTerms
begin

text \<open>
  SVF is a library of static value-flow analyses for LLVM programs (svf/ and svf-llvm/). All its pointer
  analyses compute maps from variables to sets of abstract objects, and spend their time in the data
  structures below. This development models them from the single machine word upwards.

  \<^bold>\<open>Parts, from the bottom.\<close>
  A \<open>NodeID\<close> is a 32-bit number. A points-to set (svf/include/MemoryModel/PointsTo.h) is kept by one of
  three bit vectors, chosen at run time: \<open>SparseBitVector\<close> (a sorted list of 128-bit elements, after LLVM),
  \<open>CoreBitVector\<close> (a vector of 64-bit words with an offset) and \<open>BitVector\<close> (the same, from bit 0); a pair of
  maps may rename the nodes in between. \<open>PersistentPointsToCache\<close> numbers the sets and remembers the results of
  unions, complements and intersections. On top of both stand the points-to data structures
  (svf/include/MemoryModel/MutablePointsToDS.h and PersistentPointsToDS.h): each exists with a set stored per
  variable and with a cache number per variable; beside the plain map there are difference propagation,
  data-flow (IN and OUT sets per location), incremental data-flow and versioned ones. The solvers take
  variables from work lists (svf/include/Util/WorkList.h); \<open>GraphReachSolver\<close> is the smallest solver.
  Over the graphs (svf/include/Graphs/GenericGraph.h), context-free reachability (svf/lib/CFL) is solved by three
  solvers from a grammar in normal form; two of them keep the relation in sparse bit vectors. Andersen's analysis
  (svf/lib/WPA/Andersen.cpp) is the client of most of this: it keeps a constraint graph (svf/lib/Graphs/ConsG.cpp),
  whose nodes it merges by components, a difference structure for the points-to sets, and a work list, and it makes
  the fields of objects (svf/lib/SVFIR/SVFIR.cpp) with new identifiers (svf/lib/Util/NodeIDAllocator.cpp) as it meets
  them.

  \<^bold>\<open>Theories and code.\<close>
  \<^item> \<open>Prelude\<close>: arithmetic modulo \<open>2 ^ 32\<close> (\<open>u32\<close>), bits of lists of 64-bit words.
  \<^item> \<open>CoreBitVec\<close> (svf/lib/Util/CoreBitVector.cpp, BitVector.cpp): the record \<open>cbv\<close> (offset and words), all
    operations with their prefixes \<open>cbv_\<close>, and the iterator. \<open>SparseBitVec\<close>, \<open>SparseBitVecSpec\<close>,
    \<open>SparseBitVecIter\<close> (svf/include/Util/SparseBitVector.h): elements \<open>sbve_\<close>, vectors \<open>sbv_\<close> with the
    cached current element, and the iterator; leading and trailing zero counts as their loops.
  \<^item> \<open>BitVectors\<close>: the locale \<open>bit_vector\<close>, the contract both vectors give to a points-to set, and its
    interpretations on them.
  \<^item> \<open>PointsTo\<close>, \<open>PointsToSpec\<close> (svf/lib/MemoryModel/PointsTo.cpp): the record \<open>points_to\<close>, whose vector is one
    of three constructors; every operation with its mapping to internal nodes; the specification needs only
    \<open>bit_vector\<close>.
  \<^item> \<open>PersistentCache\<close>, \<open>PersistentCacheSpec\<close> (svf/include/MemoryModel/PersistentPointsToCache.h): the record
    \<open>ppcache\<close> (sets by number, numbers by set, three operation caches, counters), with the set type a record
    of operations; locale \<open>data_set\<close> is what the cache relies on. \<open>CacheTerms\<close>: clients of the cache, as terms of
    sets and operations, and what a run of any number of them gives.
  \<^item> \<open>KeyMaps\<close>, \<open>PTData\<close> (AbstractPointsToDS.h): association lists read by \<open>operator[]\<close>, class tags, the
    specification \<open>spec_step\<close> of \<open>addPts\<close>, \<open>unionPts\<close>, \<open>clearPts\<close> and \<open>clearFullPts\<close> on maps to sets, and the
    locale \<open>pt_data\<close>, the contract of a points-to data structure.
  \<^item> \<open>MutablePT\<close>, \<open>PersistentPT\<close>, \<open>VersionedPT\<close>, \<open>DiffPT\<close>, \<open>DataFlowPT\<close>, \<open>PersistentDFPT\<close>, \<open>IncDataFlowPT\<close>:
    one record per structure, prefixes \<open>mpt_ ppt_ mvpt_ pvpt_ mdiff_ pdiff_ mdf_ pdf_ inc_ pinc_\<close>. A
    persistent structure shares the cache: its state is a pair of the cache and the structure, and an
    operation returns both. The two incremental structures have the same code over different bases; their
    operations are written once over the records \<open>df_base\<close> and \<open>mark_ops\<close>. Locales \<open>diff_data\<close>, \<open>df_data\<close>,
    \<open>mark_set\<close> and \<open>inc_df\<close> are their contracts; \<open>minc_run\<close> is any sequence of calls of the mutable one.
  \<^item> \<open>WorkLists\<close> (FIFO, FILO and the linked \<open>List\<close>, which is a store of nodes by address) with the locale
    \<open>worklist\<close>, and \<open>GraphReach\<close> (GraphReachSolver.h), whose loop is a partial function.
  \<^item> \<open>GenGraph\<close>: edges, their ordering, edge sets as increasing lists, node tables. \<open>CFLGraphs\<close> (CFLGraph.h):
    symbols of 8, 16 and 8 bits, labelled graphs with \<open>addCFLEdge\<close>. \<open>CFLGrammar\<close>, \<open>CFLGrammarSpec\<close>
    (CFGrammar.cpp, CFGNormalizer.cpp): names and kinds, productions, expansion of attribute variables. \<open>CFLBuild\<close>
    (CFLGraphBuilder.cpp): graphs from text and from constraint edges.
  \<^item> \<open>CFLReach\<close>: reachability as an inductive predicate and by words, the loop that all solvers inherit, and the
    locales \<open>cfl_state\<close> and \<open>cfl_engine\<close> (what processing an edge must add); \<open>CFLSolve\<close>, \<open>POCRSolve\<close>,
    \<open>HybridSolve\<close> (CFLSolver.cpp): the three solvers, each an interpretation of both; \<open>hybrid_reached\<close> are the states of
    a run of the hybrid one, and \<open>single_trees\<close> what its spanning trees are in all of them.
  \<^item> \<open>SCCDetect\<close> (svf/include/Graphs/SCC.h): Nuutila's search for strongly connected components with its state record
    \<open>scc_state\<close>; \<open>SCCSpec\<close>: its invariant \<open>scc_core\<close> (active nodes in the order of their numbers, closed components), one
    lemma per step; \<open>SCCCorrect\<close>: the recorded sets and the stack, the induction over visits, the answers.
  \<^item> \<open>NodeAlloc\<close>: the allocator with its four strategies, and the identifiers it has given out. \<open>ObjVars\<close> (SVFIR.cpp,
    SymbolTableInfo.cpp): memory objects by number, object nodes, the field maps, and what \<open>getGepObjVar\<close> keeps of them;
    \<open>cut_offset\<close> is the offset of a field after the cut.
  \<^item> \<open>ConsGraph\<close> (ConsG.h, ConsGNode.h, ConsGEdge.h, ConsG.cpp): nodes with the seven edge sets of each side, the four
    edge sets of the graph, representatives; an edge object is known by its kind and ends, its number and offset are found
    under it. \<open>ConsGraphSpec\<close>: the invariant \<open>cg_ok\<close> (all these sets describe one set of edges) and adding and removing
    edges; \<open>ConsMerge\<close>: moving the edges of a node to its representative; \<open>ConsBuild\<close>: \<open>buildCG\<close> from the statements.
  \<^item> \<open>Andersen\<close> (Andersen.h, Andersen.cpp): the state record \<open>ander\<close> and the handlers of all constraints, over any structure
    given by its operations; \<open>AndersenSolve\<close> (also AndersenWaveDiff.cpp, WPASolver.h): merging, collapsing, both solvers,
    indirect calls, clean-up; \<open>AndersenMerge\<close>: the classes of merged nodes; \<open>AndersenSound\<close>: the locale \<open>andersen_data\<close>
    (what the solver needs of its structure), its interpretation on the mutable one, and the invariant of the solver;
    \<open>AndersenRun\<close>: the analysis as a whole; \<open>AndersenScc\<close>: \<open>SCCDetect\<close> makes the graph its quotient by the strongly
    connected components.
  \<^item> \<open>Samples\<close>, \<open>StructSamples\<close>, \<open>CFLSamples\<close>, \<open>AnderSamples\<close>: fresh structures satisfy their invariants, and the inputs at which the
    properties are instantiated.

  \<^bold>\<open>Conventions.\<close>
  An operation that may fail an assertion, read out of range or dereference nothing returns an option, and
  \<open>None\<close> is that failure; the specifications prove \<open>Some\<close>. \<open>std::unordered_map\<close> and \<open>std::map\<close> are
  association lists without repeated keys; reading by \<open>[]\<close> inserts the default, as in C++. Where an
  iteration order of a hash table is unspecified the results proved do not depend on it. Assignments
  and copies of sets are value copies. \<open>processCFLEdge\<close> iterates over the edges of a node while it adds edges; an edge
  that would enter the very set it iterates over is in it already, so the set at the start of the loop is taken. The type parameters of the C++ templates stay type variables.

  \<^bold>\<open>Lemmas.\<close>
  Each representation has an invariant (\<open>cbv_inv\<close>, \<open>sbv_inv\<close>, \<open>pt_inv\<close>, \<open>cache_inv\<close>, \<open>mpt_inv\<close>, \<open>ppt_pt_inv\<close>, ...)
  and an abstraction (\<open>cbv_bits\<close>, \<open>sbv_bits\<close>, \<open>pt_nodes\<close>, \<open>pts_of\<close>, \<open>mpt_view\<close>, \<open>ppt_view\<close>, ...), and each operation a
  lemma \<open>..._spec\<close>: it returns, keeps the invariant, and acts on the abstraction as the set operation,
  flag included. The locales collect these laws; what is proved from a locale (agreement of structures,
  fixpoints, difference partition, incremental equals full, exactness of a CFL solver) holds of every structure through its
  interpretation.

  \<^bold>\<open>Bounds.\<close>
  The number of sets of the cache is a 32-bit counter: \<open>newPointsToId\<close> asserts that it does not wrap. An operation
  adds at most two sets, so the contracts carry a \<open>room\<close> (\<open>ppt_room s n\<close>: room for \<open>n\<close> more operations); it is
  met by fresh structures for any run shorter than \<open>2 ^ 31\<close>; a computation on the cache alone adds at most one per
  call. Offsets of fields are 64-bit signed numbers whose overflow is a failure (\<open>s64\<close>). Bit vectors hold bits below \<open>2 ^ 32\<close>; operations on
  words of a vector assume that a vector fits in that range, which its invariant says. The fuel of \<open>drain\<close> is the
  number of elements. The CFL loop is a partial function; it returns because the edges between the nodes of a graph
  are finitely many and each step adds one or shortens the work list. The search for components recurses on unvisited
  nodes; the numbers it gives are at most the number of nodes, which are below \<open>UINT_MAX\<close>, so they do not wrap. Andersen's
  solver is a partial function; it returns because every step adds a copy edge between nodes of the graph, adds an object
  whose address is taken to a set, or shortens the work list. Its theorem is for statements without field accesses, where
  no node is merged or collapsed; merging, fields and the graph have theorems of their own. The constructor of an address
  edge also asserts that its source is no dummy value node; statements are taken to satisfy that.

  \<^bold>\<open>Not modelled.\<close>
  The LLVM frontend (the LLVM library is not part of the repository) and what only stores its output: SVFIR statements,
  types and their serialisation, control-flow, call and class-hierarchy graphs. The analyses over the value-flow graph
  (memory SSA, flow-sensitive, demand-driven, multi-threaded analyses, SABER): each needs the graph that is built from
  those. Abstract execution and path conditions, which are Z3 expressions. Of Andersen's analysis the resolution of
  indirect calls (an argument of the model), heap allocators called indirectly and clustering. The rewriting of EBNF signs
  and long productions, which edits hash tables while it iterates over them; readers that match regular expressions;
  statistics, printing, memory use and time. Of hashing only
  what the containers rely on is modelled: equal sets have equal hashes.
\<close>

section \<open>Bit vectors\<close>

text \<open>
C1. \<open>CoreBitVector::operator|=\<close>: the left vector is extended to cover the right
  one, the result has the positions of both, and the flag tells whether it changed unless the
  left vector had no words.
\<close>

theorem cbv_union_correct:
  assumes "cbv_inv c" "cbv_inv rhs"
  shows "\<exists>ch c'. cbv_or_assign c rhs = Some (ch, c') \<and> cbv_inv c' \<and>
    cbv_bits c' = cbv_bits c \<union> cbv_bits rhs \<and>
    (words c \<noteq> [] \<longrightarrow> (ch \<longleftrightarrow> cbv_bits c' \<noteq> cbv_bits c)) \<and>
    (words c = [] \<longrightarrow> (ch \<longleftrightarrow> words rhs \<noteq> []))"
  by (rule cbv_or_assign_spec [OF assms])

lemma cbv_union_correct_witness:
  "\<exists>ch c'. cbv_or_assign (cbv_of [700, 3000]) (cbv_of [64, 700]) = Some (ch, c') \<and>
    cbv_bits c' = {64, 700, 3000}"
  using cbv_union_correct [of "cbv_of [700, 3000]" "cbv_of [64, 700]"]
    cbv_of_spec [of "[700, 3000]"] cbv_of_spec [of "[64, 700]"] by auto

text \<open>
C2. The binary operations of \<open>SparseBitVector\<close> keep the list of elements sorted and
  without empty elements, compute union, intersection and difference, and return true iff the
  vector changed.
\<close>

theorem sbv_operations:
  assumes "sbv_inv s" "sbv_inv rhs"
  shows "(\<forall>ch s'. sbv_or_assign s rhs = (ch, s') \<longrightarrow>
      sbv_inv s' \<and> sbv_bits s' = sbv_bits s \<union> sbv_bits rhs \<and> (ch \<longleftrightarrow> sbv_bits s' \<noteq> sbv_bits s)) \<and>
    (\<forall>ch s'. sbv_and_assign s rhs = (ch, s') \<longrightarrow>
      sbv_inv s' \<and> sbv_bits s' = sbv_bits s \<inter> sbv_bits rhs \<and> (ch \<longleftrightarrow> sbv_bits s' \<noteq> sbv_bits s)) \<and>
    (\<forall>ch s'. sbv_intersectWithComplement s rhs = (ch, s') \<longrightarrow>
      sbv_inv s' \<and> sbv_bits s' = sbv_bits s - sbv_bits rhs \<and> (ch \<longleftrightarrow> sbv_bits s' \<noteq> sbv_bits s))"
  by (intro conjI allI impI)
    (erule sbv_or_assign_spec [OF assms] sbv_and_assign_spec [OF assms] sbv_minus_spec [OF assms])+

lemma sbv_operations_witness:
  "sbv_bits (snd (sbv_intersectWithComplement (sbv_of [5, 1000]) (sbv_of [5, 300]))) = {1000}"
  using sbv_operations [of "sbv_of [5, 1000]" "sbv_of [5, 300]"] sbv_of_spec [of "[5, 1000]"]
    sbv_of_spec [of "[5, 300]"]
  by (cases "sbv_intersectWithComplement (sbv_of [5, 1000]) (sbv_of [5, 300])") auto

text \<open>
C3. The list of elements is a canonical form: \<open>operator==\<close>, which compares the
  lists element by element, decides equality of the positions.
\<close>

theorem sbv_canonical:
  assumes "sbv_inv s" "sbv_inv rhs"
  shows "sbv_eq s rhs \<longleftrightarrow> sbv_bits s = sbv_bits rhs"
  by (rule sbv_eq_bits [OF assms])

lemma sbv_canonical_witness:
  "sbv_eq (sbv_of [5, 1000]) (sbv_of [1000, 5])"
  using sbv_canonical [of "sbv_of [5, 1000]" "sbv_of [1000, 5]"] sbv_of_spec [of "[5, 1000]"]
    sbv_of_spec [of "[1000, 5]"] by auto

text \<open>
C4. Iterating over a sparse vector, across words and elements, ends and yields its positions in
  increasing order.
\<close>

theorem sbv_iteration:
  assumes "sbv_inv s"
  shows "sbv_list s = Some (sorted_list_of_set (sbv_bits s))"
  by (rule sbv_list_spec [OF assms])

lemma sbv_iteration_witness:
  "sbv_list (sbv_of [1000, 5]) = Some [5, 1000]"
  using sbv_iteration [of "sbv_of [1000, 5]"] sbv_of_spec [of "[1000, 5]"] by simp

text \<open>
C5. \<open>find_first\<close> and \<open>find_last\<close> return the least and the greatest
  position as an \<open>int\<close>, and -1 when there is none; positions from 2^31 on come out
  negative.
\<close>

theorem sbv_ends:
  assumes "sbv_inv s"
  shows "sbv_find_first s = Some (if sbv_bits s = {} then -1
      else if Min (sbv_bits s) < 2 ^ 31 then int (Min (sbv_bits s)) else int (Min (sbv_bits s)) - 2 ^ 32) \<and>
    sbv_find_last s = Some (if sbv_bits s = {} then -1
      else if Max (sbv_bits s) < 2 ^ 31 then int (Max (sbv_bits s)) else int (Max (sbv_bits s)) - 2 ^ 32)"
proof (cases "sbv_bits s = {}")
  case True
  then show ?thesis using sbv_find_first_spec [OF assms] sbv_find_last_spec [OF assms] by simp
next
  case False
  have fin: "finite (sbv_bits s)" by (rule finite_sbv_bits)
  have "Min (sbv_bits s) < 2 ^ 32" "Max (sbv_bits s) < 2 ^ 32"
    using sbv_bits_u32 [OF assms] Min_in [OF fin False] Max_in [OF fin False] by auto
  then show ?thesis
    using sbv_find_first_spec [OF assms] sbv_find_last_spec [OF assms] False
    by (simp add: to_int_value)
qed

lemma sbv_ends_witness:
  "sbv_find_first (sbv_of [5, 3000000000]) = Some 5 \<and>
   sbv_find_last (sbv_of [5, 3000000000]) = Some (- 1294967296) \<and> sbv_find_first (sbv_of []) = Some (- 1)"
  using sbv_ends [of "sbv_of [5, 3000000000]"] sbv_of_spec [of "[5, 3000000000]"]
    sbv_ends [of "sbv_of []"] sbv_of_spec [of "[]"] by simp

section \<open>Points-to sets\<close>

text \<open>
C6. \<open>PointsTo::operator|=\<close> with any backing: the result has the nodes of both sets,
  the flag is true whenever the set grew, and for a sparse vector (or a core vector that has
  words) it is true only then.
\<close>

theorem pt_union_flag:
  assumes "pt_inv a" "pt_inv b" "pt_same a b"
  shows "\<exists>ch c. pt_or_assign a b = Some (ch, c) \<and> pt_inv c \<and> pt_same a c \<and>
    pt_nodes c = pt_nodes a \<union> pt_nodes b \<and> (pt_nodes c \<noteq> pt_nodes a \<longrightarrow> ch) \<and>
    (pt_exact a \<longrightarrow> (ch \<longleftrightarrow> pt_nodes c \<noteq> pt_nodes a))"
  by (rule pt_or_assign_spec [OF assms]) blast

lemma pt_union_flag_witness:
  "\<exists>ch c. pt_or_assign pt_a pt_b = Some (ch, c) \<and> pt_nodes c = {1, 7, 200} \<and> ch"
  using pt_union_flag [OF pt_a_b(2,6,9)] unfolding pt_a_b(3,7) sample_union using sample_union_new by metis

text \<open>
C7. \<open>checkAndRemap\<close> moves a set to the current node mapping: every backing bit
  changes place, the nodes it stands for do not.
\<close>

theorem checkAndRemap_preserves:
  assumes "pt_inv pt" "mapping_ok (currentBestNodeMapping g) (currentBestReverseNodeMapping g)"
    and "\<forall>n \<in> pt_nodes pt. n < map_limit (currentBestNodeMapping g)"
  shows "\<exists>pt'. checkAndRemap g pt = Some pt' \<and> pt_inv pt' \<and> pt_nodes pt' = pt_nodes pt \<and>
    ptr_eq (nodeMapping pt') (currentBestNodeMapping g)"
  by (rule checkAndRemap_spec [OF assms]) blast

lemma checkAndRemap_preserves_witness:
  "\<exists>pt'. checkAndRemap best_mapping (pt_of no_mapping [0, 2]) = Some pt' \<and> pt_nodes pt' = {0, 2}"
proof -
  have l: "\<forall>n \<in> set [0, 2]. n < map_limit (currentBestNodeMapping no_mapping)"
    by (simp add: no_mapping_def map_limit_def)
  note p = pt_of_spec [OF globals_no_mapping l]
  have "\<forall>n \<in> pt_nodes (pt_of no_mapping [0, 2]). n < map_limit (currentBestNodeMapping best_mapping)"
    by (simp add: p(3) best_mapping_def setCurrentBestNodeMapping_def map_limit_def)
  then show ?thesis
    using checkAndRemap_preserves [OF p(2), of best_mapping] globals_best_mapping p(3)
    by (auto simp: globals_ready_def)
qed

text \<open>
C8. A range-based \<open>for\<close> over a points-to set, through the wrapper iterator and the
  node mapping, ends and visits every node exactly once.
\<close>

theorem pt_iteration:
  assumes "pt_inv pt"
  shows "\<exists>ns. pt_list pt = Some ns \<and> set ns = pt_nodes pt \<and> distinct ns"
  by (rule pt_list_spec(2) [OF assms])

lemma pt_iteration_witness:
  "\<exists>ns. pt_list pt_a = Some ns \<and> set ns = {1, 200} \<and> distinct ns"
  using pt_iteration [OF pt_a_b(2)] pt_a_b(3) by simp

section \<open>Hash consed points-to sets\<close>

text \<open>
C9. \<open>PersistentPointsToCache::unionPts\<close> on sparse points-to sets: the number it
  returns stands for the union of the sets of its operands, numbers given out before keep their
  meaning, and all caches (the entry just made and the preemptive ones included) stay truthful.
\<close>

theorem unionPts_correct:
  assumes "globals_ready g" "cache_inv pt_sparse pt_nodes pt_same c"
    and "l < length (idToPts c)" "r < length (idToPts c)" "length (idToPts c) < 2 ^ 32"
  shows "\<exists>i c'. unionPts (pt_ops h g) c l r = Some (i, c') \<and> cache_inv pt_sparse pt_nodes pt_same c' \<and>
    grows c c' \<and> i < length (idToPts c') \<and>
    pts_of pt_nodes c' i = pts_of pt_nodes c l \<union> pts_of pt_nodes c r \<and>
    length (idToPts c') \<le> length (idToPts c) + 1"
  using pc.unionPts_spec [OF assms(2-), of h g] unfolding pc.op_result_def by simp

lemma unionPts_correct_witness:
  "\<exists>i c'. unionPts sample_ops cache_2 1 2 = Some (i, c') \<and> pts_of pt_nodes c' i = {1, 7, 200}"
  using unionPts_correct [OF globals_no_mapping cache_2_ok(1), of 1 2 id] cache_2_ok
  by (fastforce simp: sample_ops_def)

text \<open>
C10. \<open>PersistentPointsToCache::complementPts\<close> returns the number of the difference,
  and its preemptive entries (a difference is disjoint from what was taken away, and contained
  in what it was taken from) are true.
\<close>

theorem complementPts_correct:
  assumes "globals_ready g" "cache_inv pt_sparse pt_nodes pt_same c"
    and "l < length (idToPts c)" "r < length (idToPts c)" "length (idToPts c) < 2 ^ 32"
  shows "\<exists>i c'. complementPts (pt_ops h g) c l r = Some (i, c') \<and> cache_inv pt_sparse pt_nodes pt_same c' \<and>
    grows c c' \<and> i < length (idToPts c') \<and>
    pts_of pt_nodes c' i = pts_of pt_nodes c l - pts_of pt_nodes c r \<and>
    length (idToPts c') \<le> length (idToPts c) + 1"
  using pc.complementPts_spec [OF assms(2-), of h g] unfolding pc.op_result_def by simp

lemma complementPts_correct_witness:
  "\<exists>i c'. complementPts sample_ops cache_2 1 2 = Some (i, c') \<and> pts_of pt_nodes c' i = {1}"
  using complementPts_correct [OF globals_no_mapping cache_2_ok(1), of 1 2 id] cache_2_ok
  by (fastforce simp: sample_ops_def)

text \<open>
C11. \<open>PersistentPointsToCache::intersectPts\<close> returns the number of the
  intersection, and its preemptive entries (absorption of an intersection by its operands) are
  true.
\<close>

theorem intersectPts_correct:
  assumes "globals_ready g" "cache_inv pt_sparse pt_nodes pt_same c"
    and "l < length (idToPts c)" "r < length (idToPts c)" "length (idToPts c) < 2 ^ 32"
  shows "\<exists>i c'. intersectPts (pt_ops h g) c l r = Some (i, c') \<and> cache_inv pt_sparse pt_nodes pt_same c' \<and>
    grows c c' \<and> i < length (idToPts c') \<and>
    pts_of pt_nodes c' i = pts_of pt_nodes c l \<inter> pts_of pt_nodes c r \<and>
    length (idToPts c') \<le> length (idToPts c) + 1"
  using pc.intersectPts_spec [OF assms(2-), of h g] unfolding pc.op_result_def by simp

lemma intersectPts_correct_witness:
  "\<exists>i c'. intersectPts sample_ops cache_2 1 2 = Some (i, c') \<and> pts_of pt_nodes c' i = {200}"
  using intersectPts_correct [OF globals_no_mapping cache_2_ok(1), of 1 2 id] cache_2_ok
  by (fastforce simp: sample_ops_def)

text \<open>
C12. From the constructor, for any sequence of computations on the cache, each interning sets
  and combining the numbers by union, difference and intersection: all return, each number
  denotes the set computed, and two of the numbers are equal exactly when the two computed sets
  are equal, so comparing numbers is comparing sets.
\<close>

theorem interning_canonical:
  assumes g: "globals_ready g" and d: "\<forall>t \<in> set ts. \<forall>d \<in> term_data t. pt_sparse d \<and> pt_same (pt_new g) d"
    and room: "sum_list (map term_calls ts) < 2 ^ 32"
  shows "\<exists>c is c'. cache_new (pt_ops h g) = Some c \<and> run_terms (pt_ops h g) ts c = Some (is, c') \<and> length is = length ts \<and>
    (\<forall>k < length ts. \<exists>d. getActualPts c' (is ! k) = Some d \<and> pt_nodes d = meaning pt_nodes (ts ! k)) \<and>
    (\<forall>k < length ts. \<forall>l < length ts. is ! k = is ! l \<longleftrightarrow> meaning pt_nodes (ts ! k) = meaning pt_nodes (ts ! l))"
proof -
  obtain c where c: "cache_new (pt_ops h g) = Some c" "cache_inv pt_sparse pt_nodes pt_same c" "idToPts c = [d_new (pt_ops h g)]"
    by (rule pc.cache_new_spec [OF g, of h])
  have n: "d_new (pt_ops h g) = pt_new g" by (simp add: pt_ops_def)
  obtain "is" c' where r: "run_terms (pt_ops h g) ts c = Some (is, c')" "cache_inv pt_sparse pt_nodes pt_same c'"
      "list_all2 (\<lambda>t i. i < length (idToPts c') \<and> pts_of pt_nodes c' i = meaning pt_nodes t) ts is"
    using pc.run_terms_spec [OF c(2), of ts h g] d room c(3) n by auto
  have "\<exists>d. getActualPts c' (is ! k) = Some d \<and> pt_nodes d = meaning pt_nodes (ts ! k)" if "k < length ts" for k
    using list_all2_nthD [OF r(3) that] by (simp add: getActualPts_def pts_of_def)
  then show ?thesis using c(1) r(1) list_all2_lengthD [OF r(3)] pc.run_terms_numbers [OF r(2,3)] by auto
qed

lemma interning_canonical_witness:
  "\<exists>c is c'. cache_new sample_ops = Some c \<and> run_terms sample_ops
      [Combine UnionOp (Intern pt_a) (Intern pt_b), Combine UnionOp (Intern pt_b) (Intern pt_a), Intern pt_a] c = Some (is, c') \<and>
    is ! 0 = is ! 1 \<and> is ! 0 \<noteq> is ! 2"
proof -
  let ?ts = "[Combine UnionOp (Intern pt_a) (Intern pt_b), Combine UnionOp (Intern pt_b) (Intern pt_a), Intern pt_a]"
  have d: "\<forall>t \<in> set ?ts. \<forall>d \<in> term_data t. pt_sparse d \<and> pt_same (pt_new no_mapping) d" using pt_a_b by simp
  have r: "sum_list (map term_calls ?ts) < 2 ^ 32" by simp
  obtain c "is" c' where t: "cache_new sample_ops = Some c" "run_terms sample_ops ?ts c = Some (is, c')"
      "\<forall>k < length ?ts. \<forall>l < length ?ts. is ! k = is ! l \<longleftrightarrow> meaning pt_nodes (?ts ! k) = meaning pt_nodes (?ts ! l)"
    using interning_canonical [OF globals_no_mapping d r, of id] unfolding sample_ops_def by blast
  have "meaning pt_nodes (?ts ! 0) = meaning pt_nodes (?ts ! 1)" by (auto simp: pt_a_b)
  moreover have "meaning pt_nodes (?ts ! 0) \<noteq> meaning pt_nodes (?ts ! 2)" using sample_union sample_union_new by (simp add: pt_a_b)
  ultimately have "is ! 0 = is ! 1" "is ! 0 \<noteq> is ! 2"
    using t(3) [rule_format, of 0 1] t(3) [rule_format, of 0 2] by (simp_all del: nth_Cons_0 meaning.simps)
  with t(1,2) show ?thesis by blast
qed

text \<open>
C13. \<open>emplacePts\<close> returns a number for the given set, without changing the meaning
  of any other number or any cached result; a set already known gets its old number and the
  cache is left alone.
\<close>

theorem emplacePts_interns:
  assumes "cache_inv pt_sparse pt_nodes pt_same c" "pt_sparse d" "pt_same (hd (idToPts c)) d"
    and "length (idToPts c) < 2 ^ 32"
  shows "\<exists>i c'. emplacePts (pt_ops h g) c d = Some (i, c') \<and> cache_inv pt_sparse pt_nodes pt_same c' \<and>
    grows c c' \<and> i < length (idToPts c') \<and> pts_of pt_nodes c' i = pt_nodes d \<and>
    (pt_nodes d \<in> pt_nodes ` set (idToPts c) \<longrightarrow> c' = c)"
proof (cases "pt_nodes d \<in> pt_nodes ` set (idToPts c)")
  case True
  then obtain i where i: "i < length (idToPts c)" "pts_of pt_nodes c i = pt_nodes d"
    by (auto simp: in_set_conv_nth pts_of_def)
  then show ?thesis using pc.emplacePts_known [OF assms(1,2,3) i, of h g] assms(1) by auto
next
  case False
  show ?thesis
    by (rule pc.emplacePts_spec [OF assms(1,2,3) disjI1 [OF assms(4)], of h g]) (use False in auto)
qed

lemma emplacePts_interns_witness:
  "\<exists>i c'. emplacePts sample_ops cache_2 pt_a = Some (i, c') \<and> pts_of pt_nodes c' i = {1, 200}"
  using emplacePts_interns [OF cache_2_ok(1) pt_a_b(1) cache_2_head, of id no_mapping]
    cache_2_ok(2) pt_a_b(3) by (auto simp: sample_ops_def)

text \<open>
C14. When all 2^32 numbers are used, interning a new set fails the assertion of
  \<open>newPointsToId\<close>, and it fails only then.
\<close>

theorem emplacePts_overflow:
  assumes "cache_inv pt_sparse pt_nodes pt_same c" "pt_sparse d" "pt_same (hd (idToPts c)) d"
    and "length (idToPts c) = n" "pt_nodes d \<notin> pt_nodes ` set (idToPts c)"
  shows "emplacePts (pt_ops h g) c d = None \<longleftrightarrow> n = 2 ^ 32"
proof -
  have "n \<le> 2 ^ 32" using assms(1,4) by (simp add: cache_inv_def ids_ok_def)
  then show ?thesis
    using pc.emplacePts_full [OF assms(1,2,3,5), of h g] pc.emplacePts_new [OF assms(1,2,3,5), of h g] assms(4)
    by (cases "n = 2 ^ 32") auto
qed

lemma emplacePts_overflow_witness:
  "emplacePts sample_ops cache_1 pt_b \<noteq> None"
  using emplacePts_overflow [OF cache_1_ok(1) pt_a_b(5) cache_1_ok(2,3,4), of id no_mapping]
  by (simp add: sample_ops_def)

text \<open>
C15. \<open>remapAllPts\<close> rebuilds every stored set and every key of the map under the
  current node mapping, and looking a rebuilt set up in the rebuilt map gives its number; the
  numbers, what they stand for and all cached results stay valid.
\<close>

theorem remapAllPts_preserves:
  assumes "globals_ready g" "cache_inv pt_sparse pt_nodes pt_same c"
    and "\<forall>d \<in> set (idToPts c). pt_movable g d"
  shows "\<exists>c'. remapAllPts (pt_ops h g) c = Some c' \<and> cache_inv pt_sparse pt_nodes pt_same c' \<and>
    (\<forall>d \<in> set (idToPts c') \<union> fst ` set (ptsToId c').
      nodeMapping d = currentBestNodeMapping g \<and> reverseNodeMapping d = currentBestReverseNodeMapping g) \<and>
    length (idToPts c') = length (idToPts c) \<and>
    (\<forall>i < length (idToPts c). pts_of pt_nodes c' i = pts_of pt_nodes c i \<and>
      map_find (pt_ops h g) (idToPts c' ! i) (ptsToId c') = Some (Some i)) \<and>
    unionCache c' = unionCache c \<and> complementCache c' = complementCache c \<and> intersectionCache c' = intersectionCache c"
proof -
  obtain c' where c': "remapAllPts (pt_ops h g) c = Some c'" "cache_inv pt_sparse pt_nodes pt_same c'"
      "length (idToPts c') = length (idToPts c)" "\<And>i. i < length (idToPts c) \<Longrightarrow> pts_of pt_nodes c' i = pts_of pt_nodes c i"
      "\<forall>d \<in> set (idToPts c'). pt_same (d_new (pt_ops h g)) d"
    by (rule pc.remapAllPts_spec [OF assms, of h]) blast
  note inv = c'(2) [unfolded cache_inv_def ids_ok_def]
  have new: "d_new (pt_ops h g) = pt_new g" by (simp add: pt_ops_def)
  have hd: "hd (idToPts c') \<in> set (idToPts c')" using inv by simp
  have "pt_same (pt_new g) d" if "d \<in> set (idToPts c') \<union> fst ` set (ptsToId c')" for d
  proof (cases "d \<in> set (idToPts c')")
    case True
    then show ?thesis using c'(5) unfolding new by blast
  next
    case False
    then have "pt_same (hd (idToPts c')) d" using that inv by (auto simp: keys_ok_def)
    moreover have "pt_same (pt_new g) (hd (idToPts c'))" using c'(5) hd unfolding new by blast
    ultimately show ?thesis by (rule pt_same_trans [rotated])
  qed
  then have m: "\<forall>d \<in> set (idToPts c') \<union> fst ` set (ptsToId c').
      nodeMapping d = currentBestNodeMapping g \<and> reverseNodeMapping d = currentBestReverseNodeMapping g"
    by (simp add: pt_same_def pt_new_def)
  have f: "map_find (pt_ops h g) (idToPts c' ! i) (ptsToId c') = Some (Some i)" if "i < length (idToPts c)" for i
    using pc.map_find_spec [of "hd (idToPts c')" "ptsToId c'" "idToPts c' ! i" h g] inv that c'(3) by simp
  have "unionCache c' = unionCache c" "complementCache c' = complementCache c" "intersectionCache c' = intersectionCache c"
    using c'(1) by (auto simp: remapAllPts_def split: Option.bind_splits)
  with c'(1-4) m f show ?thesis by simp
qed

lemma remapAllPts_preserves_witness:
  "\<exists>c'. remapAllPts (pt_ops id wide_mapping) cache_2 = Some c' \<and> pts_of pt_nodes c' 2 = {7, 200} \<and>
    nodeMapping (idToPts c' ! 2) = currentBestNodeMapping wide_mapping"
  using remapAllPts_preserves [OF globals_wide_mapping cache_2_ok(1) cache_2_movable, of id]
    cache_2_ok(2,4) by fastforce

text \<open>
C16. The statistics of the cache add up: every union, difference or intersection that is counted
  is counted exactly once as a property case, a lookup, a new result or a preemptive entry,
  whatever the data.
\<close>

theorem counters_balanced:
  assumes "balanced c"
    and "unionPts ops c l r = Some (i, c') \<or> complementPts ops c l r = Some (i, c') \<or>
      intersectPts ops c l r = Some (i, c')"
  shows "balanced c'"
  using assms union_balanced complement_balanced intersect_balanced by blast

lemma counters_balanced_witness:
  "balanced (snd (the (unionPts sample_ops cache_0 0 0)))"
  by (rule counters_balanced [OF cache_0_balanced, of sample_ops 0 0 0])
    (simp add: unionPts_def minmax_def Let_def emptyPointsToId_def)

section \<open>Points-to data structures\<close>

text \<open>
C17. A fresh \<open>MutablePTData\<close> and a fresh \<open>PersistentPTData\<close> on a new
  cache return the same flags for any sequence of \<open>addPts\<close>,
  \<open>unionPts\<close>, \<open>clearPts\<close> and \<open>clearFullPts\<close>, and end with
  the same points-to sets: those of the specification.
\<close>

theorem mutable_persistent_agree:
  assumes g: "globals_ready g" and c: "cache_new (pt_ops h g) = Some c"
    and xs: "elements_valid (pt_node_ok g) xs" "2 * length xs < 2 ^ 32"
  shows "\<exists>bs s cs. impl_run (mpt_ops (pt_set_ops h g)) xs (mpt_new r) = Some (bs, s) \<and>
    impl_run (ppt_ops (pt_set_ops h g)) xs (c, ppt_new q) = Some (bs, cs) \<and>
    mpt_view (pt_set_ops h g) pt_nodes s = ppt_view pt_nodes cs \<and>
    bs = fst (spec_run xs (\<lambda>_. {})) \<and> ppt_view pt_nodes cs = snd (spec_run xs (\<lambda>_. {}))"
  using mp.run_spec [OF fresh_mpt(1) [OF g] TrueI xs(1), of h r]
    pp.run_spec [OF fresh_ppt(1) [OF g c] fresh_ppt(3) [OF g c xs(2)] xs(1), of q]
  unfolding fresh_mpt(2) [OF g] fresh_ppt(2) [OF g c] by auto

lemma mutable_persistent_agree_witness:
  "\<exists>s cs. impl_run (mpt_ops (pt_set_ops id no_mapping)) sample_calls (mpt_new True) =
      Some ([True, True, True, False, True, False], s) \<and>
    impl_run (ppt_ops (pt_set_ops id no_mapping)) sample_calls (cache_0, ppt_new True) =
      Some ([True, True, True, False, True, False], cs) \<and>
    mpt_view (pt_set_ops id no_mapping) pt_nodes s 3 = {7, 200}"
  using mutable_persistent_agree [OF globals_no_mapping sample_cache sample_calls_valid, of True True]
  unfolding sample_calls_spec(1) by (simp add: sample_calls_def [symmetric]) (auto simp: sample_calls_spec sample_calls_def)

text \<open>
C18. With reverse sets enabled, \<open>getRevPts\<close> of either structure returns, after any
  sequence of operations, exactly the keys whose set has the datum, each once; without them its
  assertion fails.
\<close>

theorem reverse_sets_inverse:
  assumes g: "globals_ready g" and c: "cache_new (pt_ops h g) = Some c"
    and xs: "elements_valid (pt_node_ok g) xs" "2 * length xs < 2 ^ 32"
  shows "\<exists>bs s cs. impl_run (mpt_ops (pt_set_ops h g)) xs (mpt_new r) = Some (bs, s) \<and>
    impl_run (ppt_ops (pt_set_ops h g)) xs (c, ppt_new r) = Some (bs, cs) \<and>
    (if r then
      (\<exists>ks s'. mpt_getRevPts s e = Some (ks, s') \<and> distinct ks \<and> set ks = {k. e \<in> snd (spec_run xs (\<lambda>_. {})) k}) \<and>
      (\<exists>ks cs'. ppt_getRevPts cs e = Some (ks, cs') \<and> distinct ks \<and> set ks = {k. e \<in> snd (spec_run xs (\<lambda>_. {})) k})
     else mpt_getRevPts s e = None \<and> ppt_getRevPts cs e = None)"
proof -
  obtain s where s: "impl_run (mpt_ops (pt_set_ops h g)) xs (mpt_new r) = Some (fst (spec_run xs (\<lambda>_. {})), s)"
      "mpt_inv (pt_set_ops h g) (pt_good g) pt_nodes s" "m_rev s = r"
      "mpt_view (pt_set_ops h g) pt_nodes s = snd (spec_run xs (\<lambda>_. {}))"
    using mp.run_spec [OF fresh_mpt(1) [OF g] TrueI xs(1), of h r] unfolding fresh_mpt(2,3) [OF g] by auto
  obtain cs where cs: "impl_run (ppt_ops (pt_set_ops h g)) xs (c, ppt_new r) = Some (fst (spec_run xs (\<lambda>_. {})), cs)"
      "ppt_pt_inv h g cs" "p_rev (snd cs) = r" "ppt_view pt_nodes cs = snd (spec_run xs (\<lambda>_. {}))"
    using pp.run_spec [OF fresh_ppt(1) [OF g c] fresh_ppt(3) [OF g c xs(2)] xs(1), of r]
    unfolding fresh_ppt(2) [OF g c] by (auto simp: ppt_new_def)
  show ?thesis
  proof (cases r)
    case True
    then show ?thesis using mp.rev_law [OF s(2), of e] pp.rev_law [OF cs(2), of e] s(1,3,4) cs(1,3,4) by auto
  next
    case False
    then show ?thesis using mp.no_rev_law [of s e] pp.no_rev_law [of cs e] s(1,3) cs(1,3) by auto
  qed
qed

lemma reverse_sets_inverse_witness:
  "\<exists>bs cs ks cs'. impl_run (ppt_ops (pt_set_ops id no_mapping)) sample_calls (cache_0, ppt_new True) = Some (bs, cs) \<and>
    ppt_getRevPts cs 7 = Some (ks, cs') \<and> set ks = {k. 7 \<in> snd (spec_run sample_calls (\<lambda>_. {})) k}"
  using reverse_sets_inverse [OF globals_no_mapping sample_cache sample_calls_valid, of True 7]
  by (simp add: sample_calls_def [symmetric]) (auto simp: sample_calls_def)

text \<open>
C19. \<open>PersistentPTData::unionPtsFromId\<close>, through which all unions of the persistent
  structures go: the key gets the union, the flag tells whether the set grew, all other keys
  keep their sets, and the cache gains at most one set.
\<close>

theorem unionPtsFromId_correct:
  assumes "ppt_pt_inv h g (c, s)" "i < length (idToPts c)" "length (idToPts c) < 2 ^ 32"
  shows "\<exists>c' s'. unionPtsFromId (pt_set_ops h g) (c, s) k i =
      Some (\<not> pts_of pt_nodes c i \<subseteq> ppt_view pt_nodes (c, s) k, c', s') \<and>
    ppt_pt_inv h g (c', s') \<and> grows c c' \<and> length (idToPts c') \<le> length (idToPts c) + 1 \<and>
    ppt_view pt_nodes (c', s') =
      (ppt_view pt_nodes (c, s))(k := ppt_view pt_nodes (c, s) k \<union> pts_of pt_nodes c i)"
  using assms ps.unionPtsFromId_spec [of h g c s i k] unfolding ppt_pt_inv_def by fastforce

lemma unionPtsFromId_correct_witness:
  "\<exists>c' s'. unionPtsFromId (pt_set_ops id no_mapping) (cache_2, ppt_new True) (5 :: nat) 1 = Some (True, c', s') \<and>
    ppt_view pt_nodes (c', s') 5 = {1, 200}"
  using unionPtsFromId_correct [OF sample_ppt(1), of 1 True "5 :: nat"] cache_2_ok(2,3) unfolding sample_ppt(2) by auto

text \<open>
C20. \<open>MutableVersionedPTData\<close> and \<open>PersistentVersionedPTData\<close> agree
  with each other and with the specification on any sequence of operations that mixes keys and
  versioned keys.
\<close>

theorem versioned_agree:
  assumes g: "globals_ready g" and c: "cache_new (pt_ops h g) = Some c"
    and xs: "elements_valid (pt_node_ok g) xs" "2 * length xs < 2 ^ 32"
  shows "\<exists>bs s cs. impl_run (mvpt_ops (pt_set_ops h g)) xs (mvpt_new r) = Some (bs, s) \<and>
    impl_run (pvpt_ops (pt_set_ops h g)) xs (c, pvpt_new q) = Some (bs, cs) \<and>
    mvpt_view (pt_set_ops h g) pt_nodes s = pvpt_view pt_nodes cs \<and>
    bs = fst (spec_run xs (\<lambda>_. {})) \<and> pvpt_view pt_nodes cs = snd (spec_run xs (\<lambda>_. {}))"
  using mv.run_spec [OF fresh_mvpt(1) [OF g] TrueI xs(1), of h r]
    pv.run_spec [OF fresh_pvpt(1) [OF g c] fresh_pvpt(3) [OF g c xs(2)] xs(1), of q]
  unfolding fresh_mvpt(2) [OF g] fresh_pvpt(2) [OF g c] by auto

lemma versioned_agree_witness:
  "\<exists>s cs. impl_run (mvpt_ops (pt_set_ops id no_mapping)) [AddPts (TL (1 :: nat)) 200, UnionPts (AT (4 :: nat)) (TL 1)]
      (mvpt_new True) = Some ([True, True], s) \<and>
    impl_run (pvpt_ops (pt_set_ops id no_mapping)) [AddPts (TL (1 :: nat)) 200, UnionPts (AT (4 :: nat)) (TL 1)]
      (cache_0, pvpt_new True) = Some ([True, True], cs) \<and> pvpt_view pt_nodes cs (AT 4) = {200}"
proof -
  let ?xs = "[AddPts (TL (1 :: nat)) 200, UnionPts (AT (4 :: nat)) (TL 1)]"
  have v: "elements_valid (pt_node_ok no_mapping) ?xs" "2 * length ?xs < 2 ^ 32"
    by (simp_all add: elements_valid_def sample_node)
  have e: "fst (spec_run ?xs (\<lambda>_. {})) = [True, True]" "snd (spec_run ?xs (\<lambda>_. {})) (AT 4) = {200}" by simp_all
  show ?thesis
    using versioned_agree [OF globals_no_mapping sample_cache v, of True True] e by metis
qed

text \<open>
C21. Applying all copy edges of a constraint graph once, with the union of either structure: no
  call reports a change iff the sets were already closed under the edges, and then nothing has
  changed; so a solver that stops on the flags stops at a fixpoint.
\<close>

theorem copies_fixpoint:
  assumes "mpt_inv (pt_set_ops h g) (pt_good g) pt_nodes s" "ppt_pt_inv h g cs" "ppt_room cs (length es)"
  shows "(\<exists>bs s'. impl_run (mpt_ops (pt_set_ops h g)) (copy_ops es) s = Some (bs, s') \<and>
      ((\<forall>b \<in> set bs. \<not> b) \<longleftrightarrow>
        (\<forall>(l, k) \<in> set es. mpt_view (pt_set_ops h g) pt_nodes s l \<subseteq> mpt_view (pt_set_ops h g) pt_nodes s k)) \<and>
      ((\<forall>b \<in> set bs. \<not> b) \<longrightarrow> mpt_view (pt_set_ops h g) pt_nodes s' = mpt_view (pt_set_ops h g) pt_nodes s)) \<and>
    (\<exists>bs cs'. impl_run (ppt_ops (pt_set_ops h g)) (copy_ops es) cs = Some (bs, cs') \<and>
      ((\<forall>b \<in> set bs. \<not> b) \<longleftrightarrow> (\<forall>(l, k) \<in> set es. ppt_view pt_nodes cs l \<subseteq> ppt_view pt_nodes cs k)) \<and>
      ((\<forall>b \<in> set bs. \<not> b) \<longrightarrow> ppt_view pt_nodes cs' = ppt_view pt_nodes cs))"
  using mp.copies_closed [OF assms(1) TrueI] pp.copies_closed [OF assms(2,3)] by (rule conjI)

lemma copies_fixpoint_witness:
  "\<exists>bs cs'. impl_run (ppt_ops (pt_set_ops id no_mapping)) (copy_ops [(1 :: nat, 2), (2, 1)]) (cache_2, ppt_new True) =
    Some (bs, cs') \<and> True \<notin> set bs"
proof -
  have r: "ppt_room (cache_2, ppt_new True) (length [(1 :: nat, 2 :: nat), (2, 1)])"
    using cache_2_ok(2) by (simp add: ppt_room_def)
  show ?thesis
    using conjunct2 [OF copies_fixpoint [OF fresh_mpt(1) [OF globals_no_mapping, of id True] sample_ppt(1) r]]
    unfolding sample_ppt(2) by auto
qed

text \<open>
C22. Difference propagation loses nothing and repeats nothing, in either structure: while the
  set of a key takes the values of an increasing sequence, the differences handed out are
  pairwise disjoint and their union is what is recorded as propagated, in the end the last set.
\<close>

theorem diff_propagation_partition:
  assumes g: "globals_ready g" and c: "cache_new (pt_ops h g) = Some c"
    and as: "\<forall>a \<in> set as. pt_good g a" "sorted_wrt (\<lambda>a b. pt_nodes a \<subseteq> pt_nodes b) as" "2 * length as < 2 ^ 32"
  shows "(\<exists>ds s. diffs (\<lambda>s k. Some (mdiff_getDiffPts (pt_set_ops h g) s k)) (mdiff_computeDiffPts (pt_set_ops h g)) k as (mdiff_new r) =
        Some (ds, s) \<and> sorted_wrt (\<lambda>d e. pt_nodes d \<inter> pt_nodes e = {}) ds \<and>
      km_view (pt_set_ops h g) pt_nodes (md_propa s) k = (\<Union>d \<in> set ds. pt_nodes d) \<and>
      (as \<noteq> [] \<longrightarrow> (\<Union>d \<in> set ds. pt_nodes d) = pt_nodes (last as))) \<and>
    (\<exists>ds cs. diffs pdiff_getDiffPts (pdiff_computeDiffPts (pt_set_ops h g)) k as (c, pdiff_new r) =
        Some (ds, cs) \<and> sorted_wrt (\<lambda>d e. pt_nodes d \<inter> pt_nodes e = {}) ds \<and>
      id_view pt_nodes (fst cs) (pd_propa (snd cs)) k = (\<Union>d \<in> set ds. pt_nodes d) \<and>
      (as \<noteq> [] \<longrightarrow> (\<Union>d \<in> set ds. pt_nodes d) = pt_nodes (last as)))"
  using md.diffs_partition [OF conjI [OF fresh_mdiff(1,2) [OF g, of h r]] TrueI as(1,2), of k]
    pd.diffs_partition [OF fresh_pdiff(1) [OF g c, of r] fresh_pdiff(3) [OF g c as(3), of r] as(1,2), of k]
  by (simp add: fresh_mdiff(3) [OF g] fresh_pdiff(2) [OF g c]) fastforce

lemma diff_propagation_partition_witness:
  "\<exists>ds cs. diffs pdiff_getDiffPts (pdiff_computeDiffPts (pt_set_ops id no_mapping)) (5 :: nat) [pt_new no_mapping, pt_a, pt_a]
      (cache_0, pdiff_new True) = Some (ds, cs) \<and> (\<Union>d \<in> set ds. pt_nodes d) = {1, 200}"
proof -
  let ?as = "[pt_new no_mapping, pt_a, pt_a]"
  have n: "pt_good no_mapping (pt_new no_mapping)" "pt_nodes (pt_new no_mapping) = {}"
    using ps.good_new [of no_mapping id, OF globals_no_mapping] by (simp_all add: ps_good pt_set_new)
  have as: "\<forall>a \<in> set ?as. pt_good no_mapping a" "sorted_wrt (\<lambda>a b. pt_nodes a \<subseteq> pt_nodes b) ?as" "2 * length ?as < 2 ^ 32"
    using n sample_good by simp_all
  show ?thesis
    using conjunct2 [OF diff_propagation_partition [OF globals_no_mapping sample_cache as, of "5 :: nat" True]] pt_a_b(3)
    by auto
qed

text \<open>
C23. \<open>updateAllDFOutFromIn\<close> of the data-flow structures joins, at one location, the
  IN set of every variable into its OUT set, except for the singleton of a strong update,
  changes nothing else, and reports whether an OUT set grew.
\<close>

theorem updateAllDFOutFromIn_correct:
  assumes "globals_ready g" "mdf_inv (pt_set_ops h g) (pt_good g) pt_nodes s"
    and "pdf_pt_inv h g cs" "pdf_room cs (length (pdf_inKeys cs l))"
    and weak: "weak = {v. \<not> (strong \<and> v = singleton)}"
  shows "(\<exists>s'. mdf_updateAllDFOutFromIn (pt_set_ops h g) s l singleton strong =
        Some (not_joined (mdf_view (pt_set_ops h g) pt_nodes s) l weak, s') \<and>
      mdf_inv (pt_set_ops h g) (pt_good g) pt_nodes s' \<and>
      mdf_view (pt_set_ops h g) pt_nodes s' = out_joined (mdf_view (pt_set_ops h g) pt_nodes s) l weak) \<and>
    (\<exists>cs'. pdf_updateAllDFOutFromIn (pt_set_ops h g) cs l singleton strong =
        Some (not_joined (pdf_view pt_nodes cs) l weak, cs') \<and>
      pdf_pt_inv h g cs' \<and> pdf_view pt_nodes cs' = out_joined (pdf_view pt_nodes cs) l weak)"
  using mf.update_all_spec [OF conjI [OF assms(1,2)] TrueI, of l strong singleton]
    pf.update_all_spec [OF assms(3,4), of strong singleton]
  unfolding weak mdf_update_all pdf_update_all by blast

lemma updateAllDFOutFromIn_correct_witness:
  "\<exists>cs'. pdf_updateAllDFOutFromIn (pt_set_ops id no_mapping) (cache_0, pdf_new False) 3 (7 :: nat) True =
    Some (False, cs') \<and> pdf_view pt_nodes cs' (OutC 3 7) = {}"
proof -
  have r: "pdf_room (cache_0, pdf_new False) (length (pdf_inKeys (cache_0, pdf_new False :: (nat, NodeID) pdf) 3))"
    by (rule fresh_pdf(3) [OF globals_no_mapping sample_cache]) (simp add: pdf_inKeys_def pdf_new_def)
  show ?thesis
    using conjunct2 [OF updateAllDFOutFromIn_correct [OF globals_no_mapping fresh_mdf(1) [OF globals_no_mapping]
          fresh_pdf(1) [OF globals_no_mapping sample_cache] r refl]]
    unfolding fresh_pdf(2) [OF globals_no_mapping sample_cache] by (simp add: not_joined_def) (fastforce simp: out_joined_def)
qed



section \<open>Work lists and traversal\<close>

text \<open>
C25. Pushing any elements on an empty work list and popping until it is empty gives each
  distinct element once: \<open>FIFOWorkList\<close> in the order of first insertion,
  \<open>FILOWorkList\<close> in the reverse of it.
\<close>

theorem worklist_orders:
  "drain fifo_ops (length ds) (push_list fifo_ops ds fifo_new) = Some (firsts {} ds) \<and>
   drain filo_ops (length ds) (push_list filo_ops ds filo_new) = Some (rev (firsts {} ds)) \<and>
   distinct (firsts {} ds) \<and> set (firsts {} ds) = set ds"
proof -
  have n: "fifo_inv fifo_new" "data_list fifo_new = []" "filo_inv filo_new" "filo_list filo_new = []"
    by (simp_all add: fifo_new_def fifo_inv_def filo_new_def filo_inv_def)
  have f: "fifo_inv (push_list fifo_ops ds fifo_new)" "data_list (push_list fifo_ops ds fifo_new) = firsts {} ds"
    using fifo_push_list [OF n(1), of ds] by (simp_all add: n(2))
  have l: "filo_inv (push_list filo_ops ds filo_new)" "filo_list (push_list filo_ops ds filo_new) = firsts {} ds"
    using filo_push_list [OF n(3), of ds] by (simp_all add: n(4))
  have "distinct (firsts A ds) \<and> set (firsts A ds) = set ds - A" for A
    by (induction ds arbitrary: A) auto
  then show ?thesis
    using fifo_drain [OF f(1)] filo_drain [OF l(1)] firsts_bound [of "{}" ds] unfolding f(2) l(2) by simp
qed

text \<open>
C26. \<open>List\<close>, unlike the work lists: its linked nodes give back all pushed elements
  in order, also repeated ones, and \<open>find\<close> is true of none of them, because
  \<open>push\<close> never records an element in \<open>nodeSet\<close>.
\<close>

theorem list_keeps_duplicates:
  "\<exists>w. llist_push_all ds llist_new = Some w \<and> llist_pop_all (length ds) w = Some ds \<and> \<not> llist_find w d"
proof -
  obtain w ms where w: "llist_push_all ds llist_new = Some w" "holds w ms" "map snd ms = ds"
    using llist_push_all_spec [OF holds_new, of ds] by auto
  have "length ms = length ds" using w(3) by (metis length_map)
  then show ?thesis using w llist_pop_all_spec [OF w(2), of "length ds"] llist_find_never [OF w(2)] by auto
qed

text \<open>
C27. \<open>forwardTraverse\<close> and \<open>backwardTraverse\<close> from an item, when
  finitely many items are reachable: they return iff no reachable item is on a cycle, and then
  the processed items are exactly the reachable ones and every edge of a processed item leads to
  an item processed later.
\<close>

theorem traversal_total_iff_acyclic:
  assumes "finite (reached (FWProcessOutgoingEdges G) {it})" "finite (reached (BWProcessIncomingEdges G) {it})"
  shows "((\<exists>its. forwardTraverse G it = Some its) \<longleftrightarrow>
      \<not> (\<exists>x \<in> reached (FWProcessOutgoingEdges G) {it}. (x, x) \<in> (step_rel (FWProcessOutgoingEdges G))\<^sup>+)) \<and>
    (forwardTraverse G it = Some fs \<longrightarrow>
      set fs = reached (FWProcessOutgoingEdges G) {it} \<and> followed (FWProcessOutgoingEdges G) fs) \<and>
    ((\<exists>its. backwardTraverse G it = Some its) \<longleftrightarrow>
      \<not> (\<exists>x \<in> reached (BWProcessIncomingEdges G) {it}. (x, x) \<in> (step_rel (BWProcessIncomingEdges G))\<^sup>+)) \<and>
    (backwardTraverse G it = Some bs \<longrightarrow>
      set bs = reached (BWProcessIncomingEdges G) {it} \<and> followed (BWProcessIncomingEdges G) bs)"
proof -
  note s = start_item [of it]
  note t = fi.traverse_total [OF s(1), unfolded s(2) list.set]
  note d = fi.traverse_sound [OF _ s(1), unfolded s(2) list.set]
  have x: "z \<noteq> None \<longleftrightarrow> (\<exists>y. z = Some y)" for z :: "dpitem list option" by auto
  show ?thesis
    unfolding forwardTraverse_def backwardTraverse_def x [symmetric]
    using t [OF assms(1)] t [OF assms(2)] d by blast
qed

lemma traversal_total_iff_acyclic_witness:
  "forwardTraverse \<lparr>out_nodes = (\<lambda>n. if n = 1 then [1] else []), in_nodes = (\<lambda>_. [])\<rparr> \<lparr>cur = 1\<rparr> = None \<and>
   (\<exists>bs. backwardTraverse \<lparr>out_nodes = (\<lambda>n. if n = 1 then [1] else []), in_nodes = (\<lambda>_. [])\<rparr> \<lparr>cur = 1\<rparr> = Some bs \<and> set bs = {\<lparr>cur = 1\<rparr>})"
proof -
  let ?G = "\<lparr>out_nodes = (\<lambda>n. if n = 1 then [1] else []), in_nodes = (\<lambda>_. [])\<rparr>" and ?i = "\<lparr>cur = 1\<rparr>"
  have f: "step_rel (FWProcessOutgoingEdges ?G) = {(?i, ?i)}" "step_rel (BWProcessIncomingEdges ?G) = {}"
    by (auto simp: step_rel_def FWProcessOutgoingEdges_def BWProcessIncomingEdges_def setCurNodeID_def split: if_splits)
  have r: "reached (FWProcessOutgoingEdges ?G) {?i} = {?i}" "reached (BWProcessIncomingEdges ?G) {?i} = {?i}"
    unfolding reached_def f by (auto elim: rtranclE)
  have fin: "finite (reached (FWProcessOutgoingEdges ?G) {?i})" "finite (reached (BWProcessIncomingEdges ?G) {?i})"
    unfolding r by simp_all
  show ?thesis
    using traversal_total_iff_acyclic [OF fin] unfolding r f by (metis option.exhaust singletonI empty_iff trancl_empty r_into_trancl)
qed

section \<open>Context-free reachability\<close>

text \<open>
C28. Expanding attribute variables returns, keeps the tables of the grammar consistent, and adds
  exactly the rules of the raw productions in which every variable is replaced, in all its
  places, by one attribute: rules of length two become rules for the empty word or for single
  symbols, rules of length three rules for pairs.
\<close>

theorem fillAttribute_correct:
  assumes "grammar_ok g" "strToKind g ''epsilon'' = Some k"
  shows "\<exists>g'. fillAttribute g m = Some g' \<and> grammar_ok g' \<and>
    (let P = \<Union>p \<in> raw_rules g. instances (all_attributes m) p in
      eps_syms g' = eps_syms g \<union> {p ! 0 | p. p \<in> P \<and> length p = 2 \<and> (\<exists>s \<in> set p. num_of_sym s = k)} \<and>
      single_prods g' = single_prods g \<union> {(p ! 0, p ! 1) | p. p \<in> P \<and> length p = 2 \<and> \<not> (\<exists>s \<in> set p. num_of_sym s = k)} \<and>
      pair_prods g' = pair_prods g \<union> {(p ! 0, p ! 1, p ! 2) | p. p \<in> P \<and> length p = 3})"
  using fillAttribute_spec [OF assms, of m] assms(1)
  by (auto simp: adds_def Let_def eps_of_def single_of_def pair_of_def)

lemma fillAttribute_correct_witness:
  "\<exists>g'. fillAttribute sample_raw [(0, [7])] = Some g' \<and> single_prods g' = {(Symbol 1 7 0, Symbol 2 7 0)}"
proof -
  have i: "(\<Union>p \<in> raw_rules sample_raw. instances (all_attributes [(0, [7])]) p) = {[Symbol 1 7 0, Symbol 2 7 0]}"
    by (simp add: sample_raw_rules sample_instances all_attributes_def)
  obtain g' where "fillAttribute sample_raw [(0, [7])] = Some g'" "single_prods g' = {} \<union> {(p ! 0, p ! 1) | p.
      p \<in> {[Symbol 1 7 0, Symbol 2 7 0]} \<and> length p = 2 \<and> \<not> (\<exists>s \<in> set p. num_of_sym s = 0)}"
    using fillAttribute_correct [OF sample_raw(1,2), of "[(0, [7])]"] unfolding Let_def i sample_raw(3) by blast
  then show ?thesis by (auto simp: num_of_sym_def u32_def)
qed

text \<open>
C29. The CFL-reachability solver returns on every graph and grammar, and the graph then has an
  edge for a symbol between two nodes iff a path of the given graph between them spells a word
  that the grammar derives from the symbol.
\<close>

theorem cfl_solver_correct:
  assumes g: "grammar_ok g" and G: "cfl_ok G"
  shows "\<exists>t. cfl_solve (base_ops g) (cfl_solver_new G) = Some t \<and> cfl_ok (sv_graph t) \<and> cfl_nodes (sv_graph t) = cfl_nodes G \<and>
    (\<forall>X i j. cfl_hasEdge (sv_graph t) i j (num_of_sym X) \<longleftrightarrow>
       (\<exists>w. spells (set (cfl_nodes G)) (sym_edges G) i w j \<and> yields g X w))"
proof -
  obtain t where t: "cfl_solve (base_ops g) (cfl_solver_new G) = Some t" "cfl_ok (sv_graph t)" "cfl_nodes (sv_graph t) = cfl_nodes G"
      "sym_edges (sv_graph t) = {(X, i, j). cfl_reach g (set (cfl_nodes G)) (sym_edges G) X i j}"
    using cfl_solve_reach [OF g G] by blast
  then show ?thesis using cfl_reach_iff [OF ends_in_sym_edges [OF G]] by (auto simp: hasEdge_sym)
qed

lemma cfl_solver_correct_witness:
  "\<exists>t. cfl_solve (base_ops sample_grammar) (cfl_solver_new sample_path) = Some t \<and> cfl_hasEdge (sv_graph t) 0 2 (num_of_sym sym_F)"
proof -
  have w: "spells {0, 1, 2} {(sym_a, 0, 1), (sym_a, 1, 2)} 0 [sym_a, sym_a] 2" by simp
  have F: "yields sample_grammar sym_F [sym_a]" using yields_single [OF _ yields_symbol] sample_sets(2) by blast
  have "yields sample_grammar sym_F ([sym_a] @ [sym_a])" by (rule yields_pair [OF _ F F]) (simp add: sample_sets)
  then have "\<exists>w. spells (set (cfl_nodes sample_path)) (sym_edges sample_path) 0 w 2 \<and> yields sample_grammar sym_F w"
    unfolding sample_path(2,3) using w by (intro exI [of _ "[sym_a, sym_a]"] conjI) simp_all
  then show ?thesis using cfl_solver_correct [OF sample_grammar_ok sample_path(1)] by blast
qed

text \<open>
C30. The POCR solver, which works with successor and predecessor bit vectors, returns and never
  meets the null pointer; it finds no edge that the plain solver does not find, and exactly the
  same edges when the grammar has no rule for the empty word or every node has an outgoing edge.
\<close>

theorem pocr_solver_agrees:
  assumes g: "grammar_ok g" and G: "cfl_ok G" and small: "\<forall>i \<in> set (cfl_nodes G). i < 2 ^ 32"
  shows "\<exists>s t. cfl_solve (base_ops g) (cfl_solver_new G) = Some s \<and> cfl_solve (pocr_ops g) (pocr_solver_new G) = Some t \<and>
    set (cflEdgeSet (po_graph t)) \<subseteq> set (cflEdgeSet (sv_graph s)) \<and>
    (eps_syms g = {} \<or> (\<forall>i \<in> set (cfl_nodes G). \<exists>e \<in> set (cflEdgeSet G). getSrcID e = i) \<longrightarrow>
      cflEdgeSet (po_graph t) = cflEdgeSet (sv_graph s))"
proof -
  let ?N = "set (cfl_nodes G)" and ?M = "getSrcID ` set (cflEdgeSet G)"
  obtain s where s: "cfl_solve (base_ops g) (cfl_solver_new G) = Some s" "cfl_ok (sv_graph s)"
      "sym_edges (sv_graph s) = {(X, i, j). cfl_reach g ?N (sym_edges G) X i j}"
    using cfl_solve_reach [OF g G] by blast
  obtain t where t: "cfl_solve (pocr_ops g) (pocr_solver_new G) = Some t" "cfl_ok (po_graph t)"
      "sym_edges (po_graph t) = {(X, i, j). cfl_reach g ?M (sym_edges G) X i j}"
    using pocr_solve_reach [OF g G small] by blast
  have M: "?M \<subseteq> ?N" using G by (auto simp: cfl_ok_def)
  have "sym_edges (po_graph t) \<subseteq> sym_edges (sv_graph s)" using s(3) t(3) cfl_reach_mono [OF _ M] by auto
  then have sub: "set (cflEdgeSet (po_graph t)) \<subseteq> set (cflEdgeSet (sv_graph s))" by (rule edges_of_sym_edges [OF t(2) s(2)])
  have eq: "sym_edges (po_graph t) = sym_edges (sv_graph s)" if "eps_syms g = {} \<or> (\<forall>i \<in> ?N. \<exists>e \<in> set (cflEdgeSet G). getSrcID e = i)"
    using that
  proof
    assume "eps_syms g = {}"
    then have "cfl_reach g ?M (sym_edges G) X i j \<longleftrightarrow> cfl_reach g ?N (sym_edges G) X i j" for X i j
      using cfl_reach_no_eps [of g ?M "sym_edges G" X i j ?N] cfl_reach_no_eps [of g ?N "sym_edges G" X i j ?M] by blast
    then have "cfl_reach g ?M (sym_edges G) = cfl_reach g ?N (sym_edges G)" by (intro ext)
    then show ?thesis unfolding s(3) t(3) by (simp only:)
  next
    assume all: "\<forall>i \<in> ?N. \<exists>e \<in> set (cflEdgeSet G). getSrcID e = i"
    have "i \<in> ?M" if "i \<in> ?N" for i using bspec [OF all that] by (auto simp: image_iff)
    then have "?M = ?N" using M by blast
    then show ?thesis using s(3) t(3) by simp
  qed
  have "eps_syms g = {} \<or> (\<forall>i \<in> ?N. \<exists>e \<in> set (cflEdgeSet G). getSrcID e = i) \<longrightarrow> cflEdgeSet (po_graph t) = cflEdgeSet (sv_graph s)"
    by (rule impI, rule same_edges [OF t(2) s(2) eq])
  with s(1) t(1) sub show ?thesis by (intro exI conjI)
qed

lemma pocr_solver_agrees_witness:
  "\<exists>s t. cfl_solve (base_ops sample_grammar) (cfl_solver_new sample_path) = Some s \<and>
    cfl_solve (pocr_ops sample_grammar) (pocr_solver_new sample_path) = Some t \<and> cflEdgeSet (po_graph t) = cflEdgeSet (sv_graph s)"
  using pocr_solver_agrees [OF sample_grammar_ok sample_path(1,4)] sample_sets(1) by blast

text \<open>
C31. The hybrid solver returns, and its edges are those of the grammar without the rules that
  derive the symbol named F from two of itself, with a rule for the empty word taken only at
  nodes that have an outgoing edge in the given graph. The reason, in every state of a run: each
  edge on the work list is known to the test of addArc, addArc does nothing for a known arc (for
  an unknown one it would put the target into the tree of the source), and the spanning trees
  are still those of the start, one for each node and of that node alone.
\<close>

theorem hybrid_solver_drops_FF:
  assumes g: "grammar_ok g" and F: "strToSymbol g ''F'' = Some F" and G: "cfl_ok G" and small: "\<forall>i \<in> set (cfl_nodes G). i < 2 ^ 32"
  shows "(\<exists>t. cfl_solve (hybrid_ops g) (hybrid_solver_new G) = Some t \<and> hybrid_reached g G t \<and>
      sym_edges (hy_graph t) = {(X, i, j). cfl_reach (without_FF g) (getSrcID ` set (cflEdgeSet G)) (sym_edges G) X i j}) \<and>
    pair_prods (without_FF g) = pair_prods g - {(F, F, F)} \<and>
    single_prods (without_FF g) = single_prods g \<and> eps_syms (without_FF g) = eps_syms g \<and>
    (\<forall>h. hybrid_reached g G h \<longrightarrow>
      (\<forall>e. Some e \<in> set (data_list (po_work (hy_pocr h))) \<longrightarrow> pocr_hasEdge (getSrcID e) (getDstID e) (edge_symbol e) (hy_pocr h)) \<and>
      (\<forall>i \<in> set (cfl_nodes G). \<forall>j \<in> set (cfl_nodes G). i \<noteq> j \<longrightarrow>
        (if pocr_hasEdge i j F (hy_pocr h) then addArc g i j h = Some h else \<exists>t. addArc g i j h = Some t \<and> hasInd_h i j t)) \<and>
      treeNodes h = map (\<lambda>i. \<lparr>tn_id = i, tn_children = []\<rparr>) (cfl_nodes G) \<and>
      (\<forall>i j. hasInd_h i j h \<longleftrightarrow> i = j \<and> i \<in> set (cfl_nodes G)))"
proof (intro conjI allI impI ballI)
  obtain t where t: "cfl_solve (hybrid_ops g) (hybrid_solver_new G) = Some t"
      "sym_edges (hy_graph t) = {(X, i, j). cfl_reach (without_FF g) (getSrcID ` set (cflEdgeSet G)) (sym_edges G) X i j}"
    using hybrid_solve_reach [OF F g G small] by blast
  then show "\<exists>t. cfl_solve (hybrid_ops g) (hybrid_solver_new G) = Some t \<and> hybrid_reached g G t \<and>
      sym_edges (hy_graph t) = {(X, i, j). cfl_reach (without_FF g) (getSrcID ` set (cflEdgeSet G)) (sym_edges G) X i j}"
    using reached_solved by blast
  fix h assume "hybrid_reached g G h"
  then obtain D where h: "single_trees (cfl_nodes G) h" "pocr_ok D (hy_pocr h)" using hybrid_reached_spec [OF F g G small] by blast
  have d: "distinct (cfl_nodes G)" using G by (auto simp: cfl_ok_def omap_def cfl_nodes_def strict_sorted_iff)
  show "pocr_hasEdge (getSrcID e) (getDstID e) (edge_symbol e) (hy_pocr h)" if "Some e \<in> set (data_list (po_work (hy_pocr h)))" for e
    using known_on_worklist [OF h(2) that] .
  show "if pocr_hasEdge i j F (hy_pocr h) then addArc g i j h = Some h else \<exists>t. addArc g i j h = Some t \<and> hasInd_h i j t"
    if "i \<in> set (cfl_nodes G)" "j \<in> set (cfl_nodes G)" "i \<noteq> j" for i j
    using addArc_unknown [OF F h(1) d that] F by (simp add: addArc_def)
  show "hasInd_h i j h \<longleftrightarrow> i = j \<and> i \<in> set (cfl_nodes G)" for i j by (rule single_trees_ind [OF h(1) d])
  show "treeNodes h = map (\<lambda>i. \<lparr>tn_id = i, tn_children = []\<rparr>) (cfl_nodes G)" using h(1) by (simp add: single_trees_def)
qed (use without_FF_prods [OF F] g in simp_all)

lemma hybrid_solver_drops_FF_witness:
  "\<exists>t. cfl_solve (hybrid_ops sample_grammar) (hybrid_solver_new sample_path) = Some t \<and> (sym_F, 0, 2) \<notin> sym_edges (hy_graph t)"
proof -
  obtain t where t: "cfl_solve (hybrid_ops sample_grammar) (hybrid_solver_new sample_path) = Some t"
      "sym_edges (hy_graph t) = {(X, i, j). cfl_reach (without_FF sample_grammar) (getSrcID ` set (cflEdgeSet sample_path)) (sym_edges sample_path) X i j}"
      "pair_prods (without_FF sample_grammar) = {}" "single_prods (without_FF sample_grammar) = {(sym_F, sym_a)}"
      "eps_syms (without_FF sample_grammar) = {}"
    using hybrid_solver_drops_FF [OF sample_grammar_ok sample_F sample_path(1,4), THEN conjunct1]
      hybrid_solver_drops_FF [OF sample_grammar_ok sample_F sample_path(1,4), THEN conjunct2, THEN conjunct1]
      hybrid_solver_drops_FF [OF sample_grammar_ok sample_F sample_path(1,4), THEN conjunct2, THEN conjunct2, THEN conjunct1]
      hybrid_solver_drops_FF [OF sample_grammar_ok sample_F sample_path(1,4), THEN conjunct2, THEN conjunct2, THEN conjunct2, THEN conjunct1]
      sample_sets by auto
  have "cfl_reach (without_FF sample_grammar) N (sym_edges sample_path) X i j \<Longrightarrow> j = Suc i" for N X i j
    by (induction rule: cfl_reach.induct) (auto simp: t(3,4,5) sample_path(3))
  then have "\<not> cfl_reach (without_FF sample_grammar) N (sym_edges sample_path) sym_F 0 2" for N by fastforce
  then have "(sym_F, 0, 2) \<notin> sym_edges (hy_graph t)" unfolding t(2) by blast
  then show ?thesis using t(1) by blast
qed

section \<open>Strongly connected components\<close>

text \<open>
C32. SCCDetection::find, on all nodes or on candidates, returns; every node reached from them
  then has a representative in its component, two of them have the same one iff they reach each
  other, subNodes of the representative is the component, and isInCycle holds iff a cycle goes
  through the node.
\<close>

theorem scc_find_correct:
  assumes G: "scc_graph_ok G" and ns: "set ns \<subseteq> scc_nodes G"
  shows "\<exists>t. scc_find_nodes G ns = Some t \<and> (\<forall>x \<in> found_nodes G ns.
    (\<exists>r s. repNode x t = Some r \<and> r \<in> component G x \<and> subNodes r t = Some s \<and> sbv_bits s = component G x) \<and>
    (\<forall>y \<in> found_nodes G ns. repNode x t = repNode y t \<longleftrightarrow> y \<in> component G x) \<and>
    isInCycle G x t = Some ((sedge G)\<^sup>+\<^sup>+ x x))"
proof -
  obtain t where t: "scc_find_nodes G ns = Some t" "scc_inv G {} t" "scc_V t = found_nodes G ns"
    using scc_find_inv [OF G ns] unfolding found_nodes_def by blast
  show ?thesis
    using t(1) scc_queries [OF G t(2), unfolded t(3)] scc_done(4,5) [OF t(2), unfolded t(3)] by (intro exI [of _ t]) auto
qed

lemma scc_find_correct_witness:
  "\<exists>t. scc_find_nodes sample_scc [0] = Some t \<and> repNode 0 t = repNode 1 t \<and> isInCycle sample_scc 1 t = Some True"
proof -
  obtain t where t: "scc_find_nodes sample_scc [0] = Some t" "\<forall>x \<in> found_nodes sample_scc [0].
      (\<forall>y \<in> found_nodes sample_scc [0]. repNode x t = repNode y t \<longleftrightarrow> y \<in> component sample_scc x) \<and>
      isInCycle sample_scc x t = Some ((sedge sample_scc)\<^sup>+\<^sup>+ x x)"
    using scc_find_correct [OF sample_scc_ok(1), of "[0]"] sample_scc_ok(2) by auto
  have "repNode 0 t = repNode 1 t" using bspec [OF t(2) sample_scc_found(1)] sample_scc_found by blast
  moreover have "isInCycle sample_scc 1 t = Some True" using bspec [OF t(2) sample_scc_found(2)] sample_scc_found(4) by simp
  ultimately show ?thesis using t(1) by blast
qed

text \<open>
C33. After find the stack of SCCDetection holds the representative of every component found,
  once, and from the top no later one reaches an earlier one; getRepNodes holds those whose
  component has more than one node, not all representatives as its comment says.
\<close>

theorem scc_stack_topological:
  assumes G: "scc_graph_ok G" and ns: "set ns \<subseteq> scc_nodes G"
  shows "\<exists>t. scc_find_nodes G ns = Some t \<and> set (scc_T t) = {x \<in> found_nodes G ns. repNode x t = Some x} \<and>
    sorted_wrt (\<lambda>a b. \<not> sreach G b a) (scc_T t) \<and> distinct (scc_T t) \<and>
    sbv_bits (scc_repNodes t) = {x \<in> found_nodes G ns. repNode x t = Some x \<and> component G x \<noteq> {x}}"
proof -
  obtain t where t: "scc_find_nodes G ns = Some t" "scc_inv G {} t" "scc_V t = found_nodes G ns"
    using scc_find_inv [OF G ns] unfolding found_nodes_def by blast
  note b = scc_books [OF t(2), unfolded t(3)]
  have rep: "repNode x t = Some x \<longleftrightarrow> get_rep x t = x" if "x \<in> found_nodes G ns" for x
    using scc_queries(1) [OF G t(2), unfolded t(3), OF that] by simp
  have "distinct (scc_T t)" by (rule sorted_irrefl_distinct [OF b(2)]) simp
  then show ?thesis using t(1) b rep by (intro exI [of _ t]) auto
qed

lemma scc_stack_topological_witness:
  "\<exists>t. scc_find_nodes sample_scc [0] = Some t \<and> sorted_wrt (\<lambda>a b. \<not> sreach sample_scc b a) (scc_T t)"
  using scc_stack_topological [OF sample_scc_ok(1), of "[0]"] sample_scc_ok(2) by auto

section \<open>Andersen's analysis\<close>

text \<open>
C34. Andersen's analysis, from the statements of a program without field accesses to the end of
  the solver, with the mutable difference structure and no new indirect calls: it returns, and
  the points-to sets are a solution of the inclusion constraints of all statements and the least
  one.
\<close>

theorem andersen_least_solution:
  assumes p: "plain_program P st" and opt: "DiffPts opt" and g: "globals_ready g" and val: "\<forall>(ob, d) \<in> set (st_addr st). pt_node_ok g ob"
    and up: "\<forall>t. update t = Some (False, t)"
  shows "\<exists>t. an_analyze (mutable_pta (pt_set_ops h g)) (solveWorklist (mutable_pta (pt_set_ops h g)) opt) update (mdiff_new r) P st = Some t \<and>
    isWorklistEmpty t \<and> stmt_solution st P (mdiff_pts h g (an_pts t)) \<and>
    (\<forall>S. stmt_solution st P S \<longrightarrow> (\<forall>n. mdiff_pts h g (an_pts t) n \<subseteq> S n))"
proof -
  have e: "mdiff_pts h g (mdiff_new r) = (\<lambda>_. {})" using fresh_mpt(2) [OF g] by (simp add: mdiff_new_def)
  show ?thesis using an_analyze_spec [OF p opt val _ e] fresh_mdiff [OF g] up by blast
qed

lemma andersen_least_solution_witness:
  "\<exists>t. an_analyze (mutable_pta (pt_set_ops id no_mapping)) (solveWorklist (mutable_pta (pt_set_ops id no_mapping)) sample_options)
      (\<lambda>t. Some (False, t)) (mdiff_new False) sample_pag sample_stmts = Some t \<and> mdiff_pts id no_mapping (an_pts t) 24 = {11}"
proof -
  have v: "\<forall>(ob, d) \<in> set (st_addr sample_stmts). pt_node_ok no_mapping ob" by (simp add: sample_stmts_def sample_node)
  have o: "DiffPts sample_options" by (simp add: sample_options_def)
  obtain t where t: "an_analyze (mutable_pta (pt_set_ops id no_mapping)) (solveWorklist (mutable_pta (pt_set_ops id no_mapping)) sample_options)
      (\<lambda>t. Some (False, t)) (mdiff_new False) sample_pag sample_stmts = Some t"
    "stmt_solution sample_stmts sample_pag (mdiff_pts id no_mapping (an_pts t))"
    "\<forall>S. stmt_solution sample_stmts sample_pag S \<longrightarrow> (\<forall>n. mdiff_pts id no_mapping (an_pts t) n \<subseteq> S n)"
    using andersen_least_solution [OF sample_program o globals_no_mapping v, where h = id and r = False and update = "\<lambda>t. Some (False, t)"] by auto
  have "mdiff_pts id no_mapping (an_pts t) 24 \<subseteq> sample_sol 24" using t(3) sample_least by blast
  then show ?thesis using t(1) sample_forced [OF t(2)] by (auto simp: sample_sol_def)
qed

text \<open>
C35. SCCDetect of Andersen's analysis, on a consistent constraint graph: it returns, and the
  graph becomes its quotient by the strongly connected components (of copy edges, or of copy and
  gep edges): every node is mapped to a representative in its component, the points-to set of a
  representative is the union over its component, the stack lists the remaining nodes once in
  topological order, so that no cycle goes through two of them. The work list stays as it is: a
  representative whose set grew is not put on it.
\<close>

theorem components_merged:
  assumes st: "mdiff_inv h g (an_pts st)" "cg_ok (consCG st)" "classes_ok (consCG st)" and small: "\<forall>i \<in> cg_nodes (consCG st). i < UINT_MAX"
  shows "\<exists>r stack t. an_SCCDetect (mutable_pta (pt_set_ops h g)) opt st = Some (stack, t) \<and>
    (\<forall>x \<in> cg_nodes (consCG st). r x \<in> component (cg_scc_graph (DetectPWC opt) (consCG st)) x \<and> (\<forall>y \<in> cg_nodes (consCG st). r x = r y \<longleftrightarrow> y \<in> component (cg_scc_graph (DetectPWC opt) (consCG st)) x)) \<and>
    cg_ok (consCG t) \<and> classes_ok (consCG t) \<and> cg_nodes (consCG t) = r ` cg_nodes (consCG st) \<and>
    cg_edges (consCG t) = (\<Union>e \<in> cg_edges (consCG st). quot_edge r e) \<and> cg_sccRepNode (consCG t) = r \<circ> cg_sccRepNode (consCG st) \<and>
    (\<forall>n \<in> r ` cg_nodes (consCG st). mdiff_pts h g (an_pts t) n = (\<Union>m \<in> {m \<in> cg_nodes (consCG st). r m = n}. mdiff_pts h g (an_pts st) m)) \<and>
    an_worklist t = an_worklist st \<and> set stack = r ` cg_nodes (consCG st) \<and> distinct stack \<and>
    sorted_wrt (\<lambda>a b. \<not> sreach (cg_scc_graph (DetectPWC opt) (consCG t)) b a) stack"
proof -
  obtain r stack t where t: "an_SCCDetect (mutable_pta (pt_set_ops h g)) opt st = Some (stack, t)" "an.merged h g r st t"
      "\<forall>x \<in> cg_nodes (consCG st). r x \<in> component (cg_scc_graph (DetectPWC opt) (consCG st)) x \<and> (\<forall>y \<in> cg_nodes (consCG st). r x = r y \<longleftrightarrow> y \<in> component (cg_scc_graph (DetectPWC opt) (consCG st)) x)"
      "set stack = cg_nodes (consCG t)" "distinct stack"
      "sorted_wrt (\<lambda>a b. \<not> sreach (cg_scc_graph (DetectPWC opt) (consCG t)) b a) stack"
    using an.an_SCCDetect_spec [OF st small, of opt] by blast
  note m = an.mergedD [OF t(2)]
  have n: "cg_nodes (consCG t) = r ` cg_nodes (consCG st)"
  proof
    show "cg_nodes (consCG t) \<subseteq> r ` cg_nodes (consCG st)" using m(6) by (metis image_eqI subsetI)
  qed (use m(5) in blast)
  have P: "\<forall>n \<in> r ` cg_nodes (consCG st). mdiff_pts h g (an_pts t) n = (\<Union>m \<in> {m \<in> cg_nodes (consCG st). r m = n}. mdiff_pts h g (an_pts st) m)"
    using m(9) unfolding n by blast
  show ?thesis
  proof (intro exI [of _ r] exI [of _ stack] exI [of _ t] conjI)
    show "set stack = r ` cg_nodes (consCG st)" using t(4) n by simp
  qed (fact t(1,3,5,6) m n P)+
qed

lemma components_merged_witness:
  "\<exists>stack t. an_SCCDetect (mutable_pta (pt_set_ops id no_mapping)) sample_options (ander_new (mdiff_new False) sample_cg sample_pag) = Some (stack, t) \<and>
    cg_sccRepNode (consCG t) 1 = cg_sccRepNode (consCG t) 2 \<and> cg_sccRepNode (consCG t) 1 \<noteq> cg_sccRepNode (consCG t) 3"
proof -
  let ?st = "ander_new (mdiff_new False) sample_cg sample_pag"
  have st: "consCG ?st = sample_cg" "an_pts ?st = mdiff_new False" by (simp_all add: ander_new_def)
  have inv: "mdiff_inv id no_mapping (an_pts ?st)" unfolding st using fresh_mdiff(1,2) [OF globals_no_mapping] by blast
  have ok: "cg_ok (consCG ?st)" "classes_ok (consCG ?st)" unfolding st by (rule sample_cg)+
  have small: "\<forall>i \<in> cg_nodes (consCG ?st). i < UINT_MAX" unfolding st sample_cg(3) by (simp add: UINT_MAX_def)
  show ?thesis using components_merged [OF inv ok small, of sample_options]
  proof (elim exE conjE, goal_cases)
    case t: (1 r stack t)
    have rep: "cg_sccRepNode (consCG t) i = r i" for i unfolding t(7) st using sample_cg(5) by (simp add: cg_sccRepNode_def)
    have eq: "r x = r y \<longleftrightarrow> y \<in> component (cg_scc_graph False sample_cg) x" if "x \<in> {1, 2, 3}" "y \<in> {1, 2, 3}" for x y
      using t(2) [unfolded st sample_cg(3), rule_format, THEN conjunct2, rule_format, OF that] by (simp add: sample_options_def)
    have e: "sedge (cg_scc_graph False sample_cg) v w \<longleftrightarrow> (v, w) \<in> {(1, 2), (2, 1), (2, 3)}" for v w
      unfolding cg_scc_edge [OF sample_cg(1)] sample_cg(4) by (auto simp: scc_kind_def)
    have "(2::nat) \<in> component (cg_scc_graph False sample_cg) 1" unfolding component_def using e by auto
    moreover have "\<not> sreach (cg_scc_graph False sample_cg) 3 1"
    proof
      assume "sreach (cg_scc_graph False sample_cg) 3 1"
      then show False using e by (auto elim: converse_rtranclpE)
    qed
    ultimately have "r 1 = r 2" "r 1 \<noteq> r 3" using eq [of 1 2] eq [of 1 3] by (auto simp: component_def)
    then show ?case using t(1) rep by auto
  qed
qed

text \<open>
C36. Merging a node of the constraint graph into its representative: the edges become those of
  the graph in which the node is replaced by the representative, without address edges of the
  node and without copy and gep edges inside the component; the node goes, its class is added to
  that of the representative, all edge sets stay consistent, gep edges keep an offset of an edge
  they come from. The flag is true exactly if the node was marked as one of a positive weight
  cycle, or a gep edge with a variable or non-zero offset goes between the two, or from the node
  to itself unless a gep edge of that kind goes from the node to the representative already:
  such a self-loop is dropped unseen, although the comment in Andersen.cpp says that gep edges
  inside the component set the flag.
\<close>

theorem merge_node_quotient:
  assumes "cg_ok G" "classes_ok G" "i \<in> cg_nodes G" "r \<in> cg_nodes G" "i \<noteq> r"
  shows "\<exists>b K. merge_graph i r G = Some (b, K) \<and>
    (b \<longleftrightarrow> cg_isPWCNode G i = Some True \<or>
      (\<exists>e \<in> cg_edges G. (edgeFlag e = KVariantGep \<or> edgeFlag e = KNormalGep \<and> gep_offset G e \<noteq> Some 0) \<and>
        (getSrcID e = r \<and> getDstID e = i \<or> getSrcID e = i \<and> getDstID e = r \<or>
         getSrcID e = i \<and> getDstID e = i \<and> GEdge (edgeFlag e) i r \<notin> cg_edges G))) \<and>
    cg_ok K \<and> classes_ok K \<and> cg_nodes K = cg_nodes G - {i} \<and> cg_edges K = (\<Union>e \<in> cg_edges G. merge_edge i r e) \<and>
    cg_sccRepNode K = (\<lambda>j. into i r (cg_sccRepNode G j)) \<and>
    (\<forall>x \<in> cg_edges K. edgeFlag x = KNormalGep \<longrightarrow> (\<exists>y \<in> cg_edges G. x \<in> merge_edge i r y \<and> gep_offset K x = gep_offset G y))"
proof -
  obtain K where K: "merge_graph i r G = Some ((\<exists>e \<in> cg_edges G. merge_critical i r G e) \<or> cg_isPWCNode G i = Some True, K)"
      "cg_ok K" "classes_ok K" "cg_nodes K = cg_nodes G - {i}" "cg_edges K = (\<Union>e \<in> cg_edges G. merge_edge i r e)"
      "cg_sccRepNode K = (\<lambda>j. into i r (cg_sccRepNode G j))"
      "\<forall>x \<in> cg_edges K. edgeFlag x = KNormalGep \<longrightarrow> (\<exists>y \<in> cg_edges G. x \<in> merge_edge i r y \<and> gep_offset K x = gep_offset G y)"
    using merge_graph_spec [OF assms] by (elim exE conjE) (rule that)
  show ?thesis
  proof (intro exI conjI)
    show "((\<exists>e \<in> cg_edges G. merge_critical i r G e) \<or> cg_isPWCNode G i = Some True) \<longleftrightarrow> cg_isPWCNode G i = Some True \<or>
      (\<exists>e \<in> cg_edges G. (edgeFlag e = KVariantGep \<or> edgeFlag e = KNormalGep \<and> gep_offset G e \<noteq> Some 0) \<and>
        (getSrcID e = r \<and> getDstID e = i \<or> getSrcID e = i \<and> getDstID e = r \<or>
         getSrcID e = i \<and> getDstID e = i \<and> GEdge (edgeFlag e) i r \<notin> cg_edges G))"
      unfolding merge_critical_def critical_gep_def by (rule disj_commute)
  qed (rule K)+
qed

lemma merge_node_quotient_witness:
  "\<exists>b K. merge_graph 1 2 sample_cg = Some (b, K) \<and> cg_nodes K = {2, 3} \<and> cg_edges K = {GEdge KCopy 2 3} \<and> cg_sccRepNode K 1 = 2"
proof -
  have n: "1 \<in> cg_nodes sample_cg" "2 \<in> cg_nodes sample_cg" "(1::nat) \<noteq> 2" using sample_cg(3) by simp_all
  obtain b K where K: "merge_graph 1 2 sample_cg = Some (b, K)"
      "cg_nodes K = cg_nodes sample_cg - {1}" "cg_edges K = (\<Union>e \<in> cg_edges sample_cg. merge_edge 1 2 e)"
      "cg_sccRepNode K = (\<lambda>j. into 1 2 (cg_sccRepNode sample_cg j))"
    using merge_node_quotient [OF sample_cg(1,2) n] by (elim exE conjE) (rule that)
  have "cg_edges K = {GEdge KCopy 2 3}" unfolding K(3) sample_cg(4) by (auto simp: merge_edge_def redirect_def into_def isdirectEdge_def)
  moreover have "cg_sccRepNode K 1 = 2" unfolding K(4) using sample_cg(5) by (simp add: cg_sccRepNode_def into_def)
  moreover have "cg_nodes K = {2, 3}" unfolding K(2) sample_cg(3) by auto
  ultimately show ?thesis using K(1) by blast
qed

text \<open>
C37. The constructor of the constraint graph: for statements over known nodes it returns a
  consistent graph with exactly one edge for every address, copy, phi, select, call, return,
  fork, join, gep, load and store statement (no copy from a node to itself), over exactly the
  nodes that are pointers or an end of an edge.
\<close>

theorem constraint_graph_built:
  assumes "omap (IDToNodeMap (pag_graph P))" "stmt_ends st \<subseteq> dom (pag_node P)"
  shows "\<exists>H. buildCG P st = Some H \<and> cg_ok H \<and> cg_edges H = stmt_edges st \<and> cg_nodes H = kept_nodes P (stmt_edges st) \<and>
    nodeToRepMap H = [] \<and> \<not> hasNodesToBeCollapsed H"
  by (rule buildCG_spec [OF assms])

lemma constraint_graph_built_witness:
  "\<exists>H. buildCG sample_pag sample_stmts = Some H \<and> GEdge KStore 21 22 \<in> cg_edges H \<and> GEdge KCopy 20 21 \<in> cg_edges H"
proof -
  have om: "omap (IDToNodeMap (pag_graph sample_pag))" using sample_program by (simp add: plain_program_def)
  have g: "st_gep sample_stmts = []" "(21, 22) \<in> set (st_store sample_stmts)" by (simp_all add: sample_stmts_def)
  show ?thesis using constraint_graph_built [OF om sample_ends] stmt_edge_kinds(2,4) [OF g(1)] g(2) sample_copies by auto
qed

text \<open>
C38. Adding an edge of any kind between two nodes of a consistent constraint graph succeeds,
  adds the edge unless it is there or is a copy of a node to itself, which the flag tells, and
  removing an edge removes exactly it; the edge sets of the graph and all edge sets of the two
  nodes stay consistent, and representatives, flags and other edges are as before.
\<close>

theorem constraint_edges_consistent:
  assumes ok: "cg_ok G" and k: "k \<le> KVariantGep"
  shows "(s \<in> cg_nodes G \<longrightarrow> d \<in> cg_nodes G \<longrightarrow>
      (\<exists>b H. add_kind k s d ap G = Some (b, H) \<and> cg_ok H \<and> cg_frame G H \<and> (b \<longleftrightarrow> GEdge k s d \<notin> cg_edges G \<and> (k = KCopy \<longrightarrow> s \<noteq> d)) \<and>
        cg_edges H = (if b then insert (GEdge k s d) (cg_edges G) else cg_edges G) \<and> (\<not> b \<longrightarrow> H = G))) \<and>
    (e \<in> cg_edges G \<longrightarrow> (\<exists>H. remove_kind e G = Some H \<and> cg_ok H \<and> cg_frame G H \<and> cg_edges H = cg_edges G - {e}))"
proof (intro conjI impI)
  assume n: "s \<in> cg_nodes G" "d \<in> cg_nodes G"
  have "\<exists>b H. add_kind k s d ap G = Some (b, H) \<and> added k s d ap G (b, H)"
    using add_kind_spec [OF ok, of s d k ap] cg_rep_node [OF ok] n k by auto
  then show "\<exists>b H. add_kind k s d ap G = Some (b, H) \<and> cg_ok H \<and> cg_frame G H \<and> (b \<longleftrightarrow> GEdge k s d \<notin> cg_edges G \<and> (k = KCopy \<longrightarrow> s \<noteq> d)) \<and>
      cg_edges H = (if b then insert (GEdge k s d) (cg_edges G) else cg_edges G) \<and> (\<not> b \<longrightarrow> H = G)"
    unfolding added_def by blast
next
  assume "e \<in> cg_edges G"
  then show "\<exists>H. remove_kind e G = Some H \<and> cg_ok H \<and> cg_frame G H \<and> cg_edges H = cg_edges G - {e}"
    using remove_kind_spec [OF ok] by blast
qed

lemma constraint_edges_consistent_witness:
  "\<exists>H. add_kind KLoad 1 3 0 sample_cg = Some (True, H) \<and> GEdge KLoad 1 3 \<in> cg_edges H"
proof -
  have n: "1 \<in> cg_nodes sample_cg" "3 \<in> cg_nodes sample_cg" "GEdge KLoad 1 3 \<notin> cg_edges sample_cg" by (simp_all add: sample_cg(3,4))
  have k: "KLoad \<le> (KVariantGep :: nat)" by simp
  note c = constraint_edges_consistent [OF sample_cg(1) k, THEN conjunct1, rule_format, OF n(1,2)]
  obtain b H where "add_kind KLoad 1 3 0 sample_cg = Some (b, H)" "b \<longleftrightarrow> GEdge KLoad 1 3 \<notin> cg_edges sample_cg \<and> (KLoad = KCopy \<longrightarrow> (1::nat) \<noteq> 3)"
      "cg_edges H = (if b then insert (GEdge KLoad 1 3) (cg_edges sample_cg) else cg_edges sample_cg)"
    using c [of 0] by blast
  then show ?thesis using n(3) by auto
qed

text \<open>
C39. getGepObjVar on an object node or a field of one, with a strategy of identifiers other than
  the debugging one (which the consistency of the representation includes) and a sum of offsets
  below 2^63 in size: it returns the object itself when it has no fields, or for offset 0 if the
  option says so, and otherwise the node of the field at the offset after the cut, made on first
  use with a new identifier. The cut takes the absolute value; below the limit of the object
  nothing changes; from the limit on it gives the remainder if the limit is above the option or
  fields are cyclic, and else the last field, so that the offset is below the limit for sizes up
  to 32 bits; a larger offset whose low 32 bits are below the limit stays uncut. Later calls,
  whatever other fields were made in between, return the same node and change nothing; the
  representation stays consistent and only grows.
\<close>

theorem field_objects:
  assumes ok: "pag_ok (Suc n) P" and v: "pag_node P i = Some v" "getMemObj v = Some m"
    and ob: "map_of (objMap P) m = Some ob" and lim: "maxOffsetLimit ob < 2 ^ 32"
    and a: "a = \<bar>(case v of GepObjVar _ _ o' \<Rightarrow> o' | _ \<Rightarrow> 0) + off\<bar>" "a < 2 ^ 63"
    and o_cut: "o_cut = (if a < int (maxOffsetLimit ob) then a
      else if MaxFieldLimit opt < maxOffsetLimit ob \<or> CyclicFldIdx opt \<and> int (maxOffsetLimit ob) \<le> a mod 2 ^ 32 then a mod int (maxOffsetLimit ob)
      else if int (maxOffsetLimit ob) \<le> a mod 2 ^ 32 then int (maxOffsetLimit ob) - 1 else a)"
  shows "\<exists>f Q. pag_getGepObjVar opt i off P = Some (f, Q) \<and> pag_ok n Q \<and> pag_grows P Q \<and>
    (if maxOffsetLimit ob = 0 \<or> FirstFieldEqBase opt \<and> o_cut = 0 then f = m else \<exists>b. pag_node Q f = Some (GepObjVar b m o_cut)) \<and>
    (0 < maxOffsetLimit ob \<and> a < 2 ^ 32 \<longrightarrow> 0 \<le> o_cut \<and> o_cut < int (maxOffsetLimit ob)) \<and>
    (\<forall>R. pag_grows Q R \<longrightarrow> pag_getGepObjVar opt i off R = Some (f, R))"
proof -
  let ?off = "(case v of GepObjVar _ _ o' \<Rightarrow> o' | _ \<Rightarrow> 0) + off"
  have c: "o_cut = cut_offset opt (maxOffsetLimit ob) \<bar>?off\<bar>" unfolding o_cut a(1) by (simp add: cut_offset_def)
  have off: "\<bar>?off\<bar> < 2 ^ 63" using a by simp
  then have r: "s64 ?off = Some ?off" unfolding s64_def by (simp add: abs_less_iff)
  have call: "pag_getGepObjVar opt i off R = getGepObjVarOf opt m ?off R" if "pag_node R i = Some v" for R
    using that v(2) r by (cases v) (simp_all add: pag_getGepObjVar_def)
  obtain f Q where f: "getGepObjVarOf opt m ?off P = Some (f, Q)" "pag_ok n Q" "pag_grows P Q" "field_at opt Q m ?off f"
    using getGepObjVarOf_spec [OF ok ob off] by blast
  have again: "pag_getGepObjVar opt i off R = Some (f, R)" if g: "pag_grows Q R" for R
  proof -
    have "pag_node R i = Some v" using pag_grows_trans [OF f(3) g] v(1) by (auto simp: pag_grows_def map_le_def dom_def)
    then show ?thesis using call getGepObjVarOf_again [OF field_at_grows [OF g f(4)]] by simp
  qed
  have "map_of (objMap Q) m = Some ob" "gep_nodes_ok Q" using f(2,3) ob by (simp_all add: pag_grows_def pag_ok_def)
  note node = field_at_node [OF f(4) this lim off]
  have "0 < maxOffsetLimit ob \<and> a < 2 ^ 32 \<longrightarrow> 0 \<le> o_cut \<and> o_cut < int (maxOffsetLimit ob)"
    unfolding c using cut_offset_bounds [of "maxOffsetLimit ob" a opt] a(1) by simp
  then show ?thesis using call [OF v(1)] f(1-3) again node unfolding c by auto
qed

lemma field_objects_witness:
  "(\<exists>f Q b. pag_getGepObjVar (an_pag_opt sample_options) 4 1 sample_fields = Some (f, Q) \<and> pag_node Q f = Some (GepObjVar b 4 1)) \<and>
   (\<exists>f Q b. pag_getGepObjVar (an_pag_opt sample_options) 4 7 sample_fields = Some (f, Q) \<and> pag_node Q f = Some (GepObjVar b 4 2))"
proof -
  have l: "maxOffsetLimit sample_obj = 3" "MaxFieldLimit (an_pag_opt sample_options) = 512" "\<not> CyclicFldIdx (an_pag_opt sample_options)"
    by (simp_all add: sample_obj_def sample_options_def)
  have a: "(1::int) = \<bar>(case FIObjVar True 4 of GepObjVar _ _ o' \<Rightarrow> o' | _ \<Rightarrow> 0) + 1\<bar>"
    "(7::int) = \<bar>(case FIObjVar True 4 of GepObjVar _ _ o' \<Rightarrow> o' | _ \<Rightarrow> 0) + 7\<bar>" by simp_all
  have "pag_ok (Suc 1) sample_fields" using sample_fields(1) by (simp add: numeral_2_eq_2)
  note f = field_objects [OF this sample_fields(2) _ sample_fields(3), where opt = "an_pag_opt sample_options"]
  from f [OF _ _ a(1) _ refl] f [OF _ _ a(2) _ refl] show ?thesis using l by fastforce
qed

text \<open>
C40. Any sequence of allocations of object, field and value identifiers, with the dense, reverse
  dense or sequential strategy, from the constructor and shorter than the range of 32-bit
  numbers: it returns, all identifiers are different, none is one of the four special nodes and
  none is the largest 32-bit number, which the analyses use as a mark.
\<close>

theorem node_ids_unique:
  assumes "s \<noteq> DBUG" "length cs + 8 \<le> UINT_MAX"
  shows "\<exists>is a. alloc_run cs (node_allocator_new s) = Some (is, a) \<and> distinct is \<and> (\<forall>i \<in> set is. 4 \<le> i \<and> i < UINT_MAX)"
  using alloc_run_spec [OF alloc_new(1) [OF assms]] by blast

lemma node_ids_unique_witness:
  "\<exists>is a. alloc_run [AllocObject, AllocValue, AllocGep 4 1 512] (node_allocator_new DENSE) = Some (is, a) \<and> distinct is"
  using node_ids_unique [of DENSE "[AllocObject, AllocValue, AllocGep 4 1 512]"] by (auto simp: UINT_MAX_def)

section \<open>Further theorems\<close>

text \<open>
\<open>operator&=\<close> and \<open>operator-=\<close> of core bit vectors with different
  offsets and lengths compute intersection and difference, keep the invariant, and return true
  iff a bit was cleared.
\<close>

theorem cbv_shrink_correct:
  assumes "cbv_inv c" "cbv_inv rhs"
  shows "(\<exists>ch c'. cbv_and_assign c rhs = Some (ch, c') \<and> cbv_inv c' \<and>
      cbv_bits c' = cbv_bits c \<inter> cbv_bits rhs \<and> (ch \<longleftrightarrow> cbv_bits c' \<noteq> cbv_bits c)) \<and>
    (\<exists>ch c'. cbv_minus_assign c rhs = Some (ch, c') \<and> cbv_inv c' \<and>
      cbv_bits c' = cbv_bits c - cbv_bits rhs \<and> (ch \<longleftrightarrow> cbv_bits c' \<noteq> cbv_bits c))"
  using cbv_and_assign_spec [OF assms] cbv_minus_assign_spec [OF assms] by blast

lemma cbv_shrink_correct_witness:
  "\<exists>ch c'. cbv_minus_assign (cbv_of [700, 3000]) (cbv_of [64, 700]) = Some (ch, c') \<and>
    cbv_bits c' = {3000} \<and> ch"
  using cbv_shrink_correct [of "cbv_of [700, 3000]" "cbv_of [64, 700]"]
    cbv_of_spec [of "[700, 3000]"] cbv_of_spec [of "[64, 700]"] by auto

text \<open>
\<open>operator==\<close>, \<open>contains\<close> and \<open>intersects\<close> of core bit
  vectors decide equality, inclusion and overlap of the positions, whatever the offsets, lengths
  and zero words of the two.
\<close>

theorem cbv_comparisons:
  assumes "cbv_inv c" "cbv_inv rhs"
  shows "(cbv_eq c rhs \<longleftrightarrow> cbv_bits c = cbv_bits rhs) \<and>
    cbv_contains c rhs = Some (cbv_bits rhs \<subseteq> cbv_bits c) \<and>
    (cbv_intersects c rhs \<longleftrightarrow> cbv_bits c \<inter> cbv_bits rhs \<noteq> {})"
  using cbv_eq_bits [OF assms] cbv_contains_bits [OF assms] cbv_intersects_bits [OF assms] by blast

lemma cbv_comparisons_witness:
  "cbv_eq (cbv_of [700]) (cbv_reset (cbv_of [700, 64]) 64)"
  using cbv_comparisons [of "cbv_of [700]" "cbv_reset (cbv_of [700, 64]) 64"]
    cbv_of_spec [of "[700]"] cbv_of_spec [of "[700, 64]"] cbv_reset_spec [of "cbv_of [700, 64]" 64] by auto

text \<open>
Iterating over a core bit vector ends and yields its positions in increasing order.
\<close>

theorem cbv_iteration:
  assumes "cbv_inv c"
  shows "cbv_list c = Some (sorted_list_of_set (cbv_bits c))"
  by (rule cbv_list_spec [OF assms])

lemma cbv_iteration_witness:
  "cbv_list (cbv_of [3000, 700]) = Some [700, 3000]"
  using cbv_iteration [of "cbv_of [3000, 700]"] cbv_of_spec [of "[3000, 700]"] by simp

text \<open>
Two core bit vectors that compare equal can have different hashes: the hash reads the offset and
  the number of words, which \<open>operator==\<close> ignores, so a container keyed by hash
  keeps both.
\<close>

theorem cbv_hash_breaks_contract:
  "\<exists>a b. cbv_inv a \<and> cbv_inv b \<and> cbv_eq a b \<and> cbv_hash a \<noteq> cbv_hash b"
  by (rule exI [of _ "cbv_new 0"], rule exI [of _ "cbv_reset (cbv_set (cbv_new 0) 64) 64"])
    (use cbv_eq_bits [of "cbv_new 0" "cbv_reset (cbv_set (cbv_new 0) 64) 64"] cbv_inv_new [of 0]
       cbv_set_spec [of "cbv_new 0" 64] cbv_reset_spec [of "cbv_set (cbv_new 0) 64" 64]
     in \<open>simp add: cbv_hash_reset_64\<close>)

text \<open>
\<open>set\<close>, \<open>reset\<close>, \<open>test\<close> and \<open>test_and_set\<close> of
  a sparse vector act on one position, whatever element the cached position points at.
\<close>

theorem sbv_point_updates:
  assumes "sbv_inv s" "n < 2 ^ 32"
  shows "sbv_inv (sbv_set s n) \<and> sbv_bits (sbv_set s n) = insert n (sbv_bits s) \<and>
    sbv_inv (sbv_reset s n) \<and> sbv_bits (sbv_reset s n) = sbv_bits s - {n} \<and>
    (fst (sbv_test s n) \<longleftrightarrow> n \<in> sbv_bits s) \<and> Elements (snd (sbv_test s n)) = Elements s \<and>
    (fst (sbv_test_and_set s n) \<longleftrightarrow> n \<notin> sbv_bits s) \<and>
    sbv_bits (snd (sbv_test_and_set s n)) = insert n (sbv_bits s)"
  using sbv_set_spec [OF assms] sbv_reset_spec [OF assms(1)] sbv_test_spec [OF assms(1)]
    sbv_test_and_set_spec [OF assms] by (intro conjI) simp_all

lemma sbv_point_updates_witness:
  "sbv_bits (sbv_reset (sbv_of [5, 1000]) 5) = {1000}"
  using sbv_point_updates [of "sbv_of [5, 1000]" 5] sbv_of_spec [of "[5, 1000]"] by auto

text \<open>
\<open>operator&=\<close> and \<open>operator-=\<close> of a points-to set compute intersection
  and difference, and return true iff the set changed.
\<close>

theorem pt_shrink_flags:
  assumes "pt_inv a" "pt_inv b" "pt_same a b"
  shows "(\<exists>c. pt_and_assign a b = Some (pt_nodes c \<noteq> pt_nodes a, c) \<and> pt_inv c \<and> pt_same a c \<and>
      pt_nodes c = pt_nodes a \<inter> pt_nodes b) \<and>
    (\<exists>c. pt_minus_assign a b = Some (pt_nodes c \<noteq> pt_nodes a, c) \<and> pt_inv c \<and> pt_same a c \<and>
      pt_nodes c = pt_nodes a - pt_nodes b)"
proof
  show "\<exists>c. pt_and_assign a b = Some (pt_nodes c \<noteq> pt_nodes a, c) \<and> pt_inv c \<and> pt_same a c \<and>
      pt_nodes c = pt_nodes a \<inter> pt_nodes b"
    by (rule pt_and_assign_spec [OF assms]) blast
  show "\<exists>c. pt_minus_assign a b = Some (pt_nodes c \<noteq> pt_nodes a, c) \<and> pt_inv c \<and> pt_same a c \<and>
      pt_nodes c = pt_nodes a - pt_nodes b"
    by (rule pt_minus_assign_spec [OF assms]) blast
qed

lemma pt_shrink_flags_witness:
  "\<exists>c. pt_minus_assign pt_a pt_b = Some (True, c) \<and> pt_nodes c = {1}"
  using pt_shrink_flags [OF pt_a_b(2,6,9)] pt_a_b(3,7) by auto

text \<open>
\<open>toNodeBS\<close> followed by \<open>operator|=(NodeBS)\<close> into an empty set gives
  back the same nodes, and reports a change iff there were any.
\<close>

theorem nodeBS_roundtrip:
  assumes "pt_inv pt" "pt_same pt e" "pt_inv e" "pt_nodes e = {}"
  shows "\<exists>nbs pt'. toNodeBS pt = Some nbs \<and> pt_or_nodeBS e nbs = Some (pt_nodes pt \<noteq> {}, pt') \<and>
    pt_inv pt' \<and> pt_nodes pt' = pt_nodes pt"
proof -
  obtain nbs where nbs: "toNodeBS pt = Some nbs" "sbv_inv nbs" "sbv_bits nbs = pt_nodes pt"
    by (rule toNodeBS_spec [OF assms(1)])
  have v: "\<forall>n \<in> sbv_bits nbs. pt_valid e n"
    using pt_nodes_valid [OF assms(1)] nbs(3) assms(2) by (simp add: pt_valid_def pt_same_def)
  obtain q where q: "pt_or_nodeBS e nbs = Some (pt_nodes q \<noteq> pt_nodes e, q)" "pt_inv q"
      "pt_nodes q = pt_nodes e \<union> sbv_bits nbs"
    using pt_or_nodeBS_spec [OF assms(3) nbs(2) v] by blast
  then show ?thesis using nbs assms(4) by auto
qed

lemma nodeBS_roundtrip_witness:
  "\<exists>nbs pt'. toNodeBS pt_a = Some nbs \<and> pt_or_nodeBS (pt_new no_mapping) nbs = Some (True, pt') \<and>
    pt_nodes pt' = {1, 200}"
proof -
  have "pt_inv (pt_new no_mapping)" "pt_nodes (pt_new no_mapping) = {}"
    using pt_sparse_new [OF globals_no_mapping] by (simp_all add: pt_sparse_def)
  then show ?thesis
    using nodeBS_roundtrip [OF pt_a_b(2) pt_same_sym [OF pt_a_b(4)]] unfolding pt_a_b(3) by auto
qed

text \<open>
\<open>getAllPts\<close> of the plain structures returns for every set the number of keys that
  have it; the persistent structure gives these counts for live keys as the mutable one does.
\<close>

theorem getAllPts_counts:
  assumes "mpt_inv (pt_set_ops h g) (pt_good g) pt_nodes s" "ppt_pt_inv h g (c, t)"
  shows "(\<exists>m. mpt_getAllPts (pt_set_ops h g) s = Some m \<and>
      counts pt_nodes m (\<lambda>a. card {k \<in> dom (map_of (m_pts s)). mpt_view (pt_set_ops h g) pt_nodes s k = a})) \<and>
    (\<exists>m. ppt_getAllPts (pt_set_ops h g) (c, t) True = Some m \<and>
      counts pt_nodes m (\<lambda>a. card {k \<in> dom (map_of (p_pts t)). ppt_view pt_nodes (c, t) k = a}))"
  using ps.mpt_getAllPts_spec [of h g s, unfolded ps_good, OF assms(1)]
    ps.ppt_getAllPts_live [of h g c t] assms(2) by (simp add: ppt_pt_inv_def)

lemma getAllPts_counts_witness:
  "\<exists>m. ppt_getAllPts (pt_set_ops id no_mapping) (cache_2, ppt_new True :: (nat, NodeID) ppt) True = Some m \<and> counts pt_nodes m (\<lambda>_. 0)"
  using conjunct2 [OF getAllPts_counts [OF fresh_mpt(1) [OF globals_no_mapping] sample_ppt(1)]] by (simp add: ppt_new_def)

text \<open>
\<open>updateAllDFOutFromIn\<close> of the incremental persistent structure, in any state: it
  joins exactly the marked variables that the strong update does not kill, and unmarks exactly
  these; the killed singleton stays marked.
\<close>

theorem incremental_visits_marked:
  assumes "inc_ok (pdf_pt_inv h g) key_marks distinct s"
    and "pdf_room (i_base s) (card (marks_at key_marks set (inUpdatedVarMap s) l))"
    and vs: "vs = {v \<in> marks_at key_marks set (inUpdatedVarMap s) l. \<not> (strong \<and> v = singleton)}"
  shows "\<exists>s'. inc_updateAllDFOutFromIn (pinc_base (pt_set_ops h g)) key_marks s l singleton strong =
      Some (not_joined (pdf_view pt_nodes (i_base s)) l vs, s') \<and> inc_ok (pdf_pt_inv h g) key_marks distinct s' \<and>
    pdf_view pt_nodes (i_base s') = out_joined (pdf_view pt_nodes (i_base s)) l vs \<and>
    marks_at key_marks set (inUpdatedVarMap s') =
      (if pdf_hasDFInSet (i_base s) l
       then (marks_at key_marks set (inUpdatedVarMap s))(l := marks_at key_marks set (inUpdatedVarMap s) l - vs)
       else marks_at key_marks set (inUpdatedVarMap s))"
proof -
  have e: "{v \<in> A. strong \<and> v = singleton} = A - {v \<in> A. \<not> (strong \<and> v = singleton)}" for A by auto
  have b: "b_hasIn (pinc_base (pt_set_ops h g)) = pdf_hasDFInSet" by (simp add: pinc_base_def)
  show ?thesis using pi.inc_update_all_marked [OF assms(1,2), of singleton strong] unfolding vs e b .
qed

lemma incremental_visits_marked_witness:
  "\<exists>s'. inc_updateAllDFOutFromIn (pinc_base (pt_set_ops id no_mapping)) key_marks (inc_new (cache_0, pdf_new False)) 3 (7 :: nat) True =
    Some (False, s')"
proof -
  have ok: "inc_ok (pdf_pt_inv id no_mapping) key_marks distinct (inc_new (cache_0, pdf_new False :: (nat, NodeID) pdf))"
    using fresh_pdf(1) [OF globals_no_mapping sample_cache] by (simp add: inc_ok_def inc_new_def marks_ok_def key_marks_def)
  have m: "marks_at key_marks set (inUpdatedVarMap (inc_new (cache_0, pdf_new False :: (nat, NodeID) pdf))) 3 = {}"
    by (simp add: marks_at_def inc_new_def key_marks_def)
  have "pdf_room (i_base (inc_new (cache_0, pdf_new False :: (nat, NodeID) pdf))) 0"
    unfolding inc_new_def inc.simps by (rule fresh_pdf(3) [OF globals_no_mapping sample_cache]) simp
  then have r: "pdf_room (i_base (inc_new (cache_0, pdf_new False :: (nat, NodeID) pdf)))
      (card (marks_at key_marks set (inUpdatedVarMap (inc_new (cache_0, pdf_new False :: (nat, NodeID) pdf))) 3))"
    unfolding m by simp
  show ?thesis using incremental_visits_marked [OF ok r refl] unfolding m by (auto simp: not_joined_def)
qed

end
